(* ===== verification/Prelude.thy ===== *)
theory Prelude
  imports Main "HOL-Library.Word" "HOL-Library.Monad_Syntax"
begin

section \<open>Shared vocabulary of the kernel model\<close>

text \<open>
  The types, error codes and small lemmas every component uses.

  \<^item> A C function that may panic (a failed \<open>assert\<close>, a call of \<open>panic\<close>) or loop forever is a
    function into \<open>'a option\<close>: \<open>None\<close> is "the kernel does not come back from this call".
  \<^item> A C function that reports an error returns the kernel's own negative error number, an
    \<open>int\<close>, exactly as \<open>libs/error.h\<close> numbers it.
  \<^item> Fixed-width integers are words where the code relies on wrap-around or on bits.
\<close>

unbundle bit_operations_syntax

type_synonym u8 = "8 word"
type_synonym u16 = "16 word"
type_synonym u32 = "32 word"
type_synonym u64 = "64 word"

named_theorems kassert_simps "facts that decide the assertions of the code"
named_theorems dlist_intros "introduction rules for the shape of linked lists"

subsection \<open>Error numbers of \<open>libs/error.h\<close>\<close>

abbreviation (input) E_UNSPECIFIED :: int where "E_UNSPECIFIED \<equiv> 1"
abbreviation (input) E_BAD_PROC :: int where "E_BAD_PROC \<equiv> 2"
abbreviation (input) E_INVAL :: int where "E_INVAL \<equiv> 3"
abbreviation (input) E_NO_MEM :: int where "E_NO_MEM \<equiv> 4"
abbreviation (input) E_NO_FREE_PROC :: int where "E_NO_FREE_PROC \<equiv> 5"
abbreviation (input) E_KILLED :: int where "E_KILLED \<equiv> 9"
abbreviation (input) E_TOO_BIG :: int where "E_TOO_BIG \<equiv> 12"
abbreviation (input) E_NO_DEV :: int where "E_NO_DEV \<equiv> 13"
abbreviation (input) E_NA_DEV :: int where "E_NA_DEV \<equiv> 14"
abbreviation (input) E_BUSY :: int where "E_BUSY \<equiv> 15"
abbreviation (input) E_NOENT :: int where "E_NOENT \<equiv> 16"
abbreviation (input) E_ISDIR :: int where "E_ISDIR \<equiv> 17"
abbreviation (input) E_NOTDIR :: int where "E_NOTDIR \<equiv> 18"
abbreviation (input) E_UNIMP :: int where "E_UNIMP \<equiv> 20"
abbreviation (input) E_MAX_OPEN :: int where "E_MAX_OPEN \<equiv> 22"
abbreviation (input) E_EXISTS :: int where "E_EXISTS \<equiv> 23"

subsection \<open>Assertions\<close>

text \<open>\<open>assert(c)\<close> of \<open>kern/debug/assert.h\<close>: the kernel panics unless \<open>c\<close> holds.\<close>

definition kassert :: "bool \<Rightarrow> unit option" where
  "kassert c = (if c then Some () else None)"

lemma kassert_True [simp, kassert_simps]: "kassert True = Some ()"
  by (simp add: kassert_def)

lemma kassert_False [simp, kassert_simps]: "kassert False = None"
  by (simp add: kassert_def)

lemma kassert_eq_Some [simp]: "(kassert c = Some u) = c"
  by (simp add: kassert_def)

lemma kassert_eq_None [simp]: "(kassert c = None) = (\<not> c)"
  by (simp add: kassert_def)

lemma bind_kassert_eq_Some [simp]: "(kassert c \<bind> f = Some x) = (c \<and> f () = Some x)"
  by (simp add: kassert_def)

lemma bind_kassert_if [simp]: "c \<Longrightarrow> kassert c \<bind> f = f ()"
  by simp

subsection \<open>Lists\<close>

lemma hd_append_singleton: "hd (xs @ [h]) = (if xs = [] then h else hd xs)"
  by (cases xs) auto

lemma in_set_splitE:
  assumes "x \<in> set xs"
  obtains as bs where "xs = as @ x # bs"
  using assms by (metis in_set_conv_decomp)

lemma distinct_split_unique:
  assumes "distinct (as @ x # bs)" and "as @ x # bs = cs @ x # ds"
  shows "as = cs \<and> bs = ds"
  using assms by (metis append_Cons_eq_iff distinct.simps(2) distinct_append not_distinct_conv_prefix)

subsection \<open>Hashing: \<open>libs/hash.c\<close>\<close>

definition hash32 :: "u32 \<Rightarrow> nat \<Rightarrow> u32" where
  "hash32 v bits = (let h = v * 0x9e370001 in drop_bit (32 - bits) h)"

end
