(* ===== verification/List_H.thy ===== *)
theory List_H
  imports Prelude
begin

section \<open>Circular doubly linked lists: \<open>libs/list.h\<close>\<close>

text \<open>
  \<open>struct list_entry\<close> holds two pointers. A store maps every entry to its \<open>next\<close> and its
  \<open>prev\<close>; the operations are the pointer assignments of the source, in the source's order,
  so that aliasing between their arguments has the effect it has in C. The predicate
  \<open>dlist l h xs\<close> says that \<open>h\<close> is the head of a well-formed circular list of the entries \<open>xs\<close>,
  and the lemmas show that each operation is the list operation its comment promises.
\<close>

record 'a links =
  lnext :: "'a \<Rightarrow> 'a"
  lprev :: "'a \<Rightarrow> 'a"

subsection \<open>Operations\<close>

text \<open>\<open>elm->prev = elm->next = elm\<close>\<close>

definition list_init :: "'a links \<Rightarrow> 'a \<Rightarrow> 'a links" where
  "list_init l elm =
     (let l1 = l\<lparr>lnext := (lnext l)(elm := elm)\<rparr>
      in l1\<lparr>lprev := (lprev l1)(elm := elm)\<rparr>)"

text \<open>\<open>__list_add\<close>: \<open>prev->next = next->prev = elm; elm->next = next; elm->prev = prev\<close>\<close>

definition raw_list_add :: "'a links \<Rightarrow> 'a \<Rightarrow> 'a \<Rightarrow> 'a \<Rightarrow> 'a links" where
  "raw_list_add l elm prv nxt =
     (let l1 = l\<lparr>lprev := (lprev l)(nxt := elm)\<rparr>;
          l2 = l1\<lparr>lnext := (lnext l1)(prv := elm)\<rparr>;
          l3 = l2\<lparr>lnext := (lnext l2)(elm := nxt)\<rparr>
      in l3\<lparr>lprev := (lprev l3)(elm := prv)\<rparr>)"

text \<open>\<open>__list_del\<close>: \<open>prev->next = next; next->prev = prev\<close>\<close>

definition raw_list_del :: "'a links \<Rightarrow> 'a \<Rightarrow> 'a \<Rightarrow> 'a links" where
  "raw_list_del l prv nxt =
     (let l1 = l\<lparr>lnext := (lnext l)(prv := nxt)\<rparr>
      in l1\<lparr>lprev := (lprev l1)(nxt := prv)\<rparr>)"

definition list_next :: "'a links \<Rightarrow> 'a \<Rightarrow> 'a" where
  "list_next l listelm = lnext l listelm"

definition list_prev :: "'a links \<Rightarrow> 'a \<Rightarrow> 'a" where
  "list_prev l listelm = lprev l listelm"

definition list_add_after :: "'a links \<Rightarrow> 'a \<Rightarrow> 'a \<Rightarrow> 'a links" where
  "list_add_after l listelm elm = raw_list_add l elm listelm (lnext l listelm)"

definition list_add_before :: "'a links \<Rightarrow> 'a \<Rightarrow> 'a \<Rightarrow> 'a links" where
  "list_add_before l listelm elm = raw_list_add l elm (lprev l listelm) listelm"

definition list_add :: "'a links \<Rightarrow> 'a \<Rightarrow> 'a \<Rightarrow> 'a links" where
  "list_add l listelm elm = list_add_after l listelm elm"

definition list_del :: "'a links \<Rightarrow> 'a \<Rightarrow> 'a links" where
  "list_del l listelm = raw_list_del l (lprev l listelm) (lnext l listelm)"

definition list_del_init :: "'a links \<Rightarrow> 'a \<Rightarrow> 'a links" where
  "list_del_init l listelm = list_init (list_del l listelm) listelm"

definition list_empty :: "'a links \<Rightarrow> 'a \<Rightarrow> bool" where
  "list_empty l list = (lnext l list = list)"

lemmas list_h_defs = list_init_def raw_list_add_def raw_list_del_def list_next_def list_prev_def
  list_add_after_def list_add_before_def list_add_def list_del_def list_del_init_def
  list_empty_def

subsection \<open>Segments and well-formed lists\<close>

text \<open>\<open>seg l a xs b\<close>: from \<open>a\<close> the entries \<open>xs\<close> lead to \<open>b\<close>, forwards and backwards.\<close>

fun seg :: "'a links \<Rightarrow> 'a \<Rightarrow> 'a list \<Rightarrow> 'a \<Rightarrow> bool" where
  "seg l a [] b = (lnext l a = b \<and> lprev l b = a)"
| "seg l a (x # xs) b = (lnext l a = x \<and> lprev l x = a \<and> seg l x xs b)"

definition dlist :: "'a links \<Rightarrow> 'a \<Rightarrow> 'a list \<Rightarrow> bool" where
  "dlist l h xs = (distinct (h # xs) \<and> seg l h xs h)"

lemma seg_append: "seg l a (xs @ y # ys) b = (seg l a xs y \<and> seg l y ys b)"
  by (induction xs arbitrary: a) auto

lemma seg_frame:
  assumes "\<And>y. y \<in> insert a (set xs) \<Longrightarrow> lnext l' y = lnext l y"
    and "\<And>y. y \<in> insert b (set xs) \<Longrightarrow> lprev l' y = lprev l y"
  shows "seg l' a xs b = seg l a xs b"
  using assms by (induction xs arbitrary: a) auto

lemma seg_next: "seg l a xs b \<Longrightarrow> lnext l a = hd (xs @ [b])"
  by (cases xs) auto

lemma seg_prev: "seg l a xs b \<Longrightarrow> lprev l b = last (a # xs)"
  by (induction xs arbitrary: a) auto

lemma seg_insert_after:
  assumes "seg l a bs b" and "a \<notin> set bs" and "b \<notin> set bs" and "distinct bs"
    and "x \<noteq> a" and "x \<noteq> b" and "x \<notin> set bs"
  shows "seg (raw_list_add l x a (hd (bs @ [b]))) a (x # bs) b"
proof (cases bs)
  case Nil
  with assms show ?thesis by (auto simp: raw_list_add_def Let_def)
next
  case (Cons n bs')
  let ?l' = "raw_list_add l x a n"
  have "seg ?l' n bs' b = seg l n bs' b"
    using assms Cons by (intro seg_frame) (auto simp: raw_list_add_def Let_def)
  with assms Cons show ?thesis by (auto simp: raw_list_add_def Let_def)
qed

lemma seg_delete_first:
  assumes "seg l a (x # bs) b" and "a \<notin> set (x # bs)" and "b \<notin> set (x # bs)"
    and "distinct (x # bs)"
  shows "seg (raw_list_del l a (hd (bs @ [b]))) a bs b"
proof (cases bs)
  case Nil
  with assms show ?thesis by (auto simp: raw_list_del_def Let_def)
next
  case (Cons n bs')
  let ?l' = "raw_list_del l a n"
  have "seg ?l' n bs' b = seg l n bs' b"
    using assms Cons by (intro seg_frame) (auto simp: raw_list_del_def Let_def)
  with assms Cons show ?thesis by (auto simp: raw_list_del_def Let_def)
qed

lemma dlist_distinct: "dlist l h xs \<Longrightarrow> distinct xs"
  by (simp add: dlist_def)

lemma dlist_head_notin: "dlist l h xs \<Longrightarrow> h \<notin> set xs"
  by (simp add: dlist_def)

lemma dlist_next_head: "dlist l h xs \<Longrightarrow> lnext l h = hd (xs @ [h])"
  unfolding dlist_def by (blast intro: seg_next)

lemma dlist_prev_head: "dlist l h xs \<Longrightarrow> lprev l h = last (h # xs)"
  unfolding dlist_def by (blast intro: seg_prev)

lemma dlist_next: "dlist l h (as @ x # bs) \<Longrightarrow> lnext l x = hd (bs @ [h])"
  unfolding dlist_def seg_append by (blast intro: seg_next)

lemma dlist_prev: "dlist l h (as @ x # bs) \<Longrightarrow> lprev l x = last (h # as)"
  unfolding dlist_def seg_append by (blast intro: seg_prev)

lemma dlist_empty_iff: "dlist l h xs \<Longrightarrow> list_empty l h \<longleftrightarrow> xs = []"
  using dlist_head_notin [of l h xs]
  by (cases xs) (auto simp: list_empty_def dlist_next_head)

lemma dlist_Nil_iff: "dlist l h [] \<longleftrightarrow> lnext l h = h \<and> lprev l h = h"
  by (simp add: dlist_def)

lemma dlist_list_init [dlist_intros]: "dlist (list_init l h) h []"
  by (simp add: dlist_Nil_iff list_init_def Let_def)

text \<open>Inserting between two consecutive entries.\<close>

lemma dlist_raw_add:
  assumes "dlist l h (as @ bs)" and "x \<noteq> h" and "x \<notin> set (as @ bs)"
  shows "dlist (raw_list_add l x (last (h # as)) (hd (bs @ [h]))) h (as @ x # bs)"
proof (cases as rule: rev_cases)
  case Nil
  with assms show ?thesis
    using seg_insert_after [of l h bs h x] by (auto simp: dlist_def)
next
  case (snoc as' p)
  let ?n = "hd (bs @ [h])"
  let ?l' = "raw_list_add l x p ?n"
  have n: "?n \<notin> insert p (set as')" "?n \<noteq> x"
    using assms snoc by (auto simp: dlist_def hd_append_singleton split: if_splits)
  have "seg ?l' h as' p = seg l h as' p"
    using assms snoc n by (intro seg_frame) (auto simp: raw_list_add_def Let_def dlist_def)
  moreover have "seg ?l' p (x # bs) h"
    using assms snoc by (intro seg_insert_after) (auto simp: dlist_def seg_append)
  ultimately show ?thesis
    using assms snoc by (auto simp: dlist_def seg_append)
qed

lemma dlist_next_last: "dlist l h (as @ bs) \<Longrightarrow> lnext l (last (h # as)) = hd (bs @ [h])"
  by (cases as rule: rev_cases) (auto simp: dlist_next_head dest: dlist_next)

lemma dlist_list_add_last [dlist_intros]:
  assumes "dlist l h (as @ bs)" and "x \<noteq> h" and "x \<notin> set (as @ bs)"
  shows "dlist (list_add l (last (h # as)) x) h (as @ x # bs)"
  using dlist_raw_add [OF assms] dlist_next_last [OF assms(1)]
  by (simp add: list_add_def list_add_after_def)

lemma dlist_list_add_head [dlist_intros]:
  assumes "dlist l h xs" and "x \<noteq> h" and "x \<notin> set xs"
  shows "dlist (list_add l h x) h (x # xs)"
  using dlist_raw_add [of l h "[]" xs x] assms
  by (simp add: list_add_def list_add_after_def dlist_next_head)

lemma dlist_list_add_after [dlist_intros]:
  assumes "dlist l h (as @ y # bs)" and "x \<noteq> h" and "x \<notin> set (as @ y # bs)"
  shows "dlist (list_add l y x) h (as @ y # x # bs)"
  using dlist_raw_add [of l h "as @ [y]" bs x] assms dlist_next [of l h as y bs]
  by (simp add: list_add_def list_add_after_def)

lemma dlist_list_add_before [dlist_intros]:
  assumes "dlist l h (as @ y # bs)" and "x \<noteq> h" and "x \<notin> set (as @ y # bs)"
  shows "dlist (list_add_before l y x) h (as @ x # y # bs)"
  using dlist_raw_add [of l h as "y # bs" x] assms dlist_prev [of l h as y bs]
  by (simp add: list_add_before_def)

lemma dlist_list_add_tail [dlist_intros]:
  assumes "dlist l h xs" and "x \<noteq> h" and "x \<notin> set xs"
  shows "dlist (list_add_before l h x) h (xs @ [x])"
  using dlist_raw_add [of l h xs "[]" x] assms dlist_prev_head [of l h xs]
  by (simp add: list_add_before_def)

lemma dlist_list_del [dlist_intros]:
  assumes "dlist l h (as @ x # bs)"
  shows "dlist (list_del l x) h (as @ bs)"
proof (cases as rule: rev_cases)
  case Nil
  with assms show ?thesis
    using seg_delete_first [of l h x bs h] dlist_next [of l h "[]" x bs] dlist_prev [of l h "[]" x bs]
    by (auto simp: dlist_def list_del_def)
next
  case (snoc as' p)
  let ?n = "hd (bs @ [h])"
  let ?l' = "raw_list_del l p ?n"
  have eq: "list_del l x = ?l'"
    using dlist_next [OF assms] dlist_prev [OF assms] snoc by (simp add: list_del_def)
  have n: "?n \<notin> insert p (set as')"
    using assms snoc by (auto simp: dlist_def hd_append_singleton split: if_splits)
  have "seg ?l' h as' p = seg l h as' p"
    using assms snoc n by (intro seg_frame) (auto simp: raw_list_del_def Let_def dlist_def)
  moreover have "seg ?l' p bs h"
    using assms snoc by (intro seg_delete_first) (auto simp: dlist_def seg_append)
  ultimately show ?thesis
    using assms snoc eq by (auto simp: dlist_def seg_append)
qed

text \<open>Assignments to entries outside a list leave it alone.\<close>

lemma dlist_frame:
  assumes "\<And>y. y \<in> insert h (set xs) \<Longrightarrow> lnext l' y = lnext l y"
    and "\<And>y. y \<in> insert h (set xs) \<Longrightarrow> lprev l' y = lprev l y"
  shows "dlist l' h xs = dlist l h xs"
  using assms seg_frame [of h xs l' l h] by (simp add: dlist_def)

lemma dlist_list_del_init [dlist_intros]:
  assumes "dlist l h (as @ x # bs)"
  shows "dlist (list_del_init l x) h (as @ bs)"
proof -
  have "x \<notin> insert h (set (as @ bs))"
    using assms by (auto simp: dlist_def)
  then have "dlist (list_init (list_del l x) x) h (as @ bs) = dlist (list_del l x) h (as @ bs)"
    by (intro dlist_frame) (auto simp: list_init_def Let_def)
  then show ?thesis
    using dlist_list_del [OF assms] by (simp add: list_del_init_def)
qed

lemma list_del_init_self_linked: "list_empty (list_del_init l x) x"
  by (simp add: list_del_init_def list_init_def list_empty_def Let_def)

text \<open>The list a head denotes is unique.\<close>

lemma seg_unique: "seg l a xs b \<Longrightarrow> seg l a ys b \<Longrightarrow> b \<notin> set xs \<Longrightarrow> b \<notin> set ys \<Longrightarrow> xs = ys"
proof (induction xs arbitrary: a ys)
  case Nil
  then show ?case by (cases ys) auto
next
  case (Cons x xs)
  then obtain y ys' where "ys = y # ys'" by (cases ys) auto
  with Cons show ?case by auto
qed

lemma dlist_unique: "dlist l h xs \<Longrightarrow> dlist l h ys \<Longrightarrow> xs = ys"
  by (auto simp: dlist_def intro: seg_unique)

text \<open>
  Adding the last entry of a list after itself: the forward links survive, but the entry's
  \<open>prev\<close> now points at the entry itself.
\<close>

lemma list_add_self:
  assumes "dlist l h (as @ [x])"
  shows "lnext (list_add l x x) = lnext l"
    and "lprev (list_add l x x) = (lprev l)(x := x)"
  using dlist_next [OF assms] dlist_prev_head [OF assms]
  by (auto simp: list_add_def list_add_after_def raw_list_add_def Let_def fun_eq_iff)

text \<open>Appending to and unlinking from one list leaves every other entry alone.\<close>

lemma dlist_add_tail_frame:
  assumes "dlist l h xs" and "y \<notin> insert h (insert x (set xs))"
  shows "lnext (list_add_before l h x) y = lnext l y" "lprev (list_add_before l h x) y = lprev l y"
  using assms dlist_prev_head [OF assms(1)] last_in_set [of "h # xs"]
  by (auto simp: list_add_before_def raw_list_add_def Let_def split: if_splits)

lemma dlist_del_init_frame:
  assumes "dlist l h (as @ x # bs)" and "y \<notin> insert h (set (as @ x # bs))"
  shows "lnext (list_del_init l x) y = lnext l y" "lprev (list_del_init l x) y = lprev l y"
  using assms dlist_prev [OF assms(1)] dlist_next [OF assms(1)] last_in_set [of "h # as"] hd_in_set [of "bs @ [h]"]
  by (auto simp: list_del_init_def list_del_def raw_list_del_def list_init_def Let_def split: if_splits)

lemma list_del_init_self: "lnext (list_del_init l x) x = x" "lprev (list_del_init l x) x = x"
  by (simp_all add: list_del_init_def list_init_def Let_def)

end
