(* ===== verification/First_Fit.thy ===== *)
theory First_Fit
  imports List_H
begin

section \<open>First-fit physical page allocator: \<open>kern/mm/default_pmm.c\<close>\<close>

text \<open>
  \<open>struct Page\<close> descriptors live in the array \<open>pages\<close>, indexed by page number; the free list
  threads the \<open>page_link\<close> fields of the first pages of free blocks through the header
  \<open>free_area.free_list\<close>. Because the code inserts and removes entries by pointer assignment, and
  one of its loops inserts an entry after itself, the links are kept at pointer level
  (\<open>List_H\<close>). \<open>property\<close> and \<open>nr_free\<close> are 32-bit: the truncation is written out.
  The invariant \<open>ff_inv\<close> relates a state to the list of its free blocks, and the operations
  refine \<open>ff_alloc\<close> and \<open>ff_free\<close> on such lists.
\<close>

subsection \<open>Data\<close>

record page =
  pg_ref :: int
  pg_flags :: u64
  pg_property :: nat

definition PageReserved :: "page \<Rightarrow> bool" where
  "PageReserved p = bit (pg_flags p) 0"

definition PageProperty :: "page \<Rightarrow> bool" where
  "PageProperty p = bit (pg_flags p) 1"

definition SetPageReserved :: "page \<Rightarrow> page" where
  "SetPageReserved p = p\<lparr>pg_flags := set_bit 0 (pg_flags p)\<rparr>"

definition SetPageProperty :: "page \<Rightarrow> page" where
  "SetPageProperty p = p\<lparr>pg_flags := set_bit 1 (pg_flags p)\<rparr>"

definition ClearPageProperty :: "page \<Rightarrow> page" where
  "ClearPageProperty p = p\<lparr>pg_flags := unset_bit 1 (pg_flags p)\<rparr>"

definition set_page_ref :: "page \<Rightarrow> int \<Rightarrow> page" where
  "set_page_ref p val = p\<lparr>pg_ref := val\<rparr>"

text \<open>List entries: the header, and the \<open>page_link\<close> of each page.\<close>

datatype lnode = FreeHead | PLink nat

record free_area =
  pages :: "nat \<Rightarrow> page"
  flinks :: "lnode links"
  nr_free :: nat

subsection \<open>Operations\<close>

definition default_init :: "free_area \<Rightarrow> free_area" where
  "default_init s = s\<lparr>flinks := list_init (flinks s) FreeHead, nr_free := 0\<rparr>"

text \<open>The loop of \<open>default_init_memmap\<close> over the descriptors of the block.\<close>

fun init_pages :: "nat \<Rightarrow> nat \<Rightarrow> (nat \<Rightarrow> page) \<Rightarrow> (nat \<Rightarrow> page) option" where
  "init_pages p 0 pg = Some pg"
| "init_pages p (Suc k) pg =
     do { kassert (PageReserved (pg p));
          init_pages (Suc p) k
            (pg(p := set_page_ref ((pg p)\<lparr>pg_property := 0, pg_flags := 0\<rparr>) 0)) }"

text \<open>
  The insertion loop, shared by \<open>default_init_memmap\<close> and \<open>default_free_pages\<close>. After the
  insertion at the end of the list the loop of the source has no \<open>break\<close>: it goes on with the
  entry it has just inserted.
\<close>

partial_function (option) free_list_insert ::
    "lnode links \<Rightarrow> lnode \<Rightarrow> nat \<Rightarrow> lnode links option" where
  "free_list_insert l le base =
     (case list_next l le of
        FreeHead \<Rightarrow> Some l
      | PLink page \<Rightarrow>
          if base < page then Some (list_add_before l (PLink page) (PLink base))
          else free_list_insert
                 (if list_next l (PLink page) = FreeHead
                  then list_add l (PLink page) (PLink base) else l)
                 (PLink page) base)"

definition default_init_memmap :: "nat \<Rightarrow> nat \<Rightarrow> free_area \<Rightarrow> free_area option" where
  "default_init_memmap base n s =
     do { kassert (0 < n);
          pg \<leftarrow> init_pages base n (pages s);
          let pg = pg(base := SetPageProperty ((pg base)\<lparr>pg_property := n mod 2 ^ 32\<rparr>));
          l \<leftarrow> (if list_empty (flinks s) FreeHead
                then Some (list_add (flinks s) FreeHead (PLink base))
                else free_list_insert (flinks s) FreeHead base);
          Some (s\<lparr>pages := pg, flinks := l, nr_free := (nr_free s + n) mod 2 ^ 32\<rparr>) }"

text \<open>The search loop of \<open>default_alloc_pages\<close>: the first block with \<open>property >= n\<close>.\<close>

partial_function (option) find_fit ::
    "lnode links \<Rightarrow> (nat \<Rightarrow> page) \<Rightarrow> lnode \<Rightarrow> nat \<Rightarrow> nat option option" where
  "find_fit l pg le n =
     (case list_next l le of
        FreeHead \<Rightarrow> Some None
      | PLink p \<Rightarrow> if n \<le> pg_property (pg p) then Some (Some p) else find_fit l pg (PLink p) n)"

text \<open>
  What \<open>default_alloc_pages\<close> does with the page it has found: unlink the block, put the rest
  of it back in its place, and take \<open>n\<close> pages off the count.
\<close>

definition take_block :: "nat \<Rightarrow> nat \<Rightarrow> free_area \<Rightarrow> free_area" where
  "take_block n page s =
     (let prv = list_prev (flinks s) (PLink page);
          l = list_del (flinks s) (PLink page);
          (pg, l) =
            (if n < pg_property (pages s page)
             then (let p = page + n;
                       pg = (pages s)(p := SetPageProperty
                              ((pages s p)\<lparr>pg_property := pg_property (pages s page) - n\<rparr>))
                   in (pg, list_add l prv (PLink p)))
             else (pages s, l))
      in s\<lparr>pages := pg(page := ClearPageProperty (pg page)), flinks := l,
           nr_free := nr_free s - n\<rparr>)"

definition default_alloc_pages :: "nat \<Rightarrow> free_area \<Rightarrow> (free_area \<times> nat option) option" where
  "default_alloc_pages n s =
     do { kassert (0 < n);
          if nr_free s < n then Some (s, None)
          else do {
            found \<leftarrow> find_fit (flinks s) (pages s) FreeHead n;
            (case found of
               None \<Rightarrow> Some (s, None)
             | Some page \<Rightarrow> Some (take_block n page s, Some page)) } }"

text \<open>The loop of \<open>default_free_pages\<close> over the descriptors of the block.\<close>

fun clear_pages :: "nat \<Rightarrow> nat \<Rightarrow> (nat \<Rightarrow> page) \<Rightarrow> (nat \<Rightarrow> page) option" where
  "clear_pages p 0 pg = Some pg"
| "clear_pages p (Suc k) pg =
     do { kassert (\<not> PageReserved (pg p) \<and> \<not> PageProperty (pg p));
          clear_pages (Suc p) k (pg(p := set_page_ref ((pg p)\<lparr>pg_flags := 0\<rparr>) 0)) }"

text \<open>Merging with the preceding block: the state and the new \<open>base\<close>.\<close>

definition merge_prev :: "free_area \<Rightarrow> nat \<Rightarrow> free_area \<times> nat" where
  "merge_prev s base =
     (case list_prev (flinks s) (PLink base) of
        FreeHead \<Rightarrow> (s, base)
      | PLink p \<Rightarrow>
          if p + pg_property (pages s p) = base
          then (let pg = (pages s)(p := (pages s p)\<lparr>pg_property :=
                           (pg_property (pages s p) + pg_property (pages s base)) mod 2 ^ 32\<rparr>);
                    pg = pg(base := ClearPageProperty (pg base))
                in (s\<lparr>pages := pg, flinks := list_del (flinks s) (PLink base)\<rparr>, p))
          else (s, base))"

text \<open>Merging with the following block.\<close>

definition merge_next :: "free_area \<Rightarrow> nat \<Rightarrow> free_area" where
  "merge_next s base =
     (case list_next (flinks s) (PLink base) of
        FreeHead \<Rightarrow> s
      | PLink p \<Rightarrow>
          if base + pg_property (pages s base) = p
          then (let pg = (pages s)(base := (pages s base)\<lparr>pg_property :=
                           (pg_property (pages s base) + pg_property (pages s p)) mod 2 ^ 32\<rparr>);
                    pg = pg(p := ClearPageProperty (pg p))
                in s\<lparr>pages := pg, flinks := list_del (flinks s) (PLink p)\<rparr>)
          else s)"

definition default_free_pages :: "nat \<Rightarrow> nat \<Rightarrow> free_area \<Rightarrow> free_area option" where
  "default_free_pages base n s =
     do { kassert (0 < n);
          pg \<leftarrow> clear_pages base n (pages s);
          let pg = pg(base := SetPageProperty ((pg base)\<lparr>pg_property := n mod 2 ^ 32\<rparr>));
          l \<leftarrow> (if list_empty (flinks s) FreeHead
                then Some (list_add (flinks s) FreeHead (PLink base))
                else free_list_insert (flinks s) FreeHead base);
          let s1 = s\<lparr>pages := pg, flinks := l, nr_free := (nr_free s + n) mod 2 ^ 32\<rparr>;
          let (s2, base2) = merge_prev s1 base;
          Some (merge_next s2 base2) }"

definition default_nr_free_pages :: "free_area \<Rightarrow> nat" where
  "default_nr_free_pages s = nr_free s"


subsection \<open>Lists of free blocks\<close>

text \<open>
  The abstract state: free blocks \<open>(base, size)\<close> in address order, non-empty, pairwise disjoint,
  between page numbers \<open>lo\<close> and \<open>hi\<close>.
\<close>

type_synonym block = "nat \<times> nat"

fun blocks_ok :: "nat \<Rightarrow> nat \<Rightarrow> block list \<Rightarrow> bool" where
  "blocks_ok lo hi [] = (lo \<le> hi)"
| "blocks_ok lo hi ((b, k) # bs) = (lo \<le> b \<and> 0 < k \<and> blocks_ok (b + k) hi bs)"

definition block_pages :: "block list \<Rightarrow> nat set" where
  "block_pages bs = (\<Union>(b, k) \<in> set bs. {b..<b + k})"

abbreviation nodes :: "block list \<Rightarrow> lnode list" where
  "nodes bs \<equiv> map (\<lambda>x. PLink (fst x)) bs"

lemma block_pages_Nil [simp]: "block_pages [] = {}"
  by (simp add: block_pages_def)

lemma block_pages_Cons [simp]: "block_pages ((b, k) # bs) = {b..<b + k} \<union> block_pages bs"
  by (simp add: block_pages_def)

lemma block_pages_append [simp]: "block_pages (xs @ ys) = block_pages xs \<union> block_pages ys"
  by (simp add: block_pages_def)

lemma blocks_ok_le: "blocks_ok lo hi bs \<Longrightarrow> lo \<le> hi"
  by (induction lo hi bs rule: blocks_ok.induct) auto

lemma blocks_ok_append:
  "blocks_ok lo hi (xs @ (b, k) # ys) = (blocks_ok lo b xs \<and> 0 < k \<and> blocks_ok (b + k) hi ys)"
  by (induction lo hi xs rule: blocks_ok.induct) auto

lemma blocks_ok_lower: "blocks_ok lo hi bs \<Longrightarrow> lo' \<le> lo \<Longrightarrow> blocks_ok lo' hi bs"
  by (cases bs) auto

lemma blocks_ok_upper: "blocks_ok lo hi bs \<Longrightarrow> hi \<le> hi' \<Longrightarrow> blocks_ok lo hi' bs"
  by (induction lo hi bs rule: blocks_ok.induct) auto

lemma blocks_ok_bounds:
  "blocks_ok lo hi bs \<Longrightarrow> (b, k) \<in> set bs \<Longrightarrow> lo \<le> b \<and> 0 < k \<and> b + k \<le> hi"
  by (induction lo hi bs rule: blocks_ok.induct) (auto dest: blocks_ok_le)

lemma block_pages_iff: "p \<in> block_pages bs \<longleftrightarrow> (\<exists>b k. (b, k) \<in> set bs \<and> b \<le> p \<and> p < b + k)"
  by (induction bs) (auto simp: block_pages_def, blast+)

lemma blocks_ok_pages: "blocks_ok lo hi bs \<Longrightarrow> p \<in> block_pages bs \<Longrightarrow> lo \<le> p \<and> p < hi"
  using blocks_ok_bounds [of lo hi bs] by (fastforce simp: block_pages_iff)

lemma blocks_ok_sum: "blocks_ok lo hi bs \<Longrightarrow> lo + sum_list (map snd bs) \<le> hi"
  by (induction lo hi bs rule: blocks_ok.induct) auto

lemma blocks_ok_head_free: "blocks_ok lo hi bs \<Longrightarrow> x \<in> set bs \<Longrightarrow> fst x \<in> block_pages bs"
  using blocks_ok_bounds [of lo hi bs "fst x" "snd x"]
  by (cases x) (fastforce simp: block_pages_iff)

lemma blocks_ok_distinct: "blocks_ok lo hi bs \<Longrightarrow> distinct (map fst bs)"
  by (induction lo hi bs rule: blocks_ok.induct) (auto dest: blocks_ok_bounds)

lemma blocks_ok_card: "blocks_ok lo hi bs \<Longrightarrow> card (block_pages bs) = sum_list (map snd bs)"
proof (induction lo hi bs rule: blocks_ok.induct)
  case (2 lo hi b k bs)
  then have "{b..<b + k} \<inter> block_pages bs = {}"
    by (force dest: blocks_ok_pages)
  moreover have "finite (block_pages bs)"
    by (auto simp: block_pages_def)
  ultimately show ?case
    using 2 by (simp add: card_Un_disjoint)
qed simp

text \<open>First fit on the list: the block it takes and the blocks it leaves.\<close>

fun ff_alloc :: "nat \<Rightarrow> block list \<Rightarrow> (nat \<times> block list) option" where
  "ff_alloc n [] = None"
| "ff_alloc n ((b, k) # bs) =
     (if n \<le> k then Some (b, if n < k then (b + n, k - n) # bs else bs)
      else map_option (\<lambda>(r, bs'). (r, (b, k) # bs')) (ff_alloc n bs))"

text \<open>Releasing a block: insertion in address order, joined with its neighbours.\<close>

fun join_next :: "block \<Rightarrow> block list \<Rightarrow> block list" where
  "join_next (b, n) [] = [(b, n)]"
| "join_next (b, n) ((c, k) # bs) = (if b + n = c then (b, n + k) # bs else (b, n) # (c, k) # bs)"

fun ff_free :: "nat \<Rightarrow> nat \<Rightarrow> block list \<Rightarrow> block list" where
  "ff_free b n [] = [(b, n)]"
| "ff_free b n ((c, k) # bs) =
     (if b < c then join_next (b, n) ((c, k) # bs)
      else if c + k = b then join_next (c, k + n) bs
      else (c, k) # ff_free b n bs)"

lemma blocks_ok_insert:
  assumes "blocks_ok lo hi (ls @ rs)" and "lo \<le> b" and "0 < n" and "b + n \<le> hi"
    and "\<forall>(c, k) \<in> set ls. c + k \<le> b" and "\<forall>(c, k) \<in> set rs. b + n \<le> c"
  shows "blocks_ok lo hi (ls @ (b, n) # rs)"
  using assms
proof (induction ls arbitrary: lo)
  case Nil
  then show ?case by (cases rs) auto
qed auto

lemma ff_alloc_None: "ff_alloc n bs = None \<longleftrightarrow> (\<forall>(b, k) \<in> set bs. k < n)"
  by (induction n bs rule: ff_alloc.induct) auto

lemma ff_alloc_SomeE:
  assumes "ff_alloc n bs = Some (r, bs')"
  obtains ls k rs where "bs = ls @ (r, k) # rs" and "n \<le> k" and "\<forall>(c, j) \<in> set ls. j < n"
    and "bs' = ls @ (if n < k then (r + n, k - n) # rs else rs)"
proof -
  have "\<exists>ls k rs. bs = ls @ (r, k) # rs \<and> n \<le> k \<and> (\<forall>(c, j) \<in> set ls. j < n)
      \<and> bs' = ls @ (if n < k then (r + n, k - n) # rs else rs)"
    using assms
  proof (induction n bs arbitrary: bs' rule: ff_alloc.induct)
    case (2 n b k bs)
    show ?case
    proof (cases "n \<le> k")
      case True
      with "2.prems" show ?thesis by (intro exI [of _ "[]"] exI [of _ k] exI [of _ bs]) auto
    next
      case False
      with "2.prems" obtain bs'' where "ff_alloc n bs = Some (r, bs'')" and "bs' = (b, k) # bs''"
        by auto
      with "2.IH" False obtain ls j rs where "bs = ls @ (r, j) # rs" "n \<le> j"
        "\<forall>(c, j) \<in> set ls. j < n" "bs'' = ls @ (if n < j then (r + n, j - n) # rs else rs)"
        by (metis not_le)
      with False \<open>bs' = (b, k) # bs''\<close> show ?thesis
        by (intro exI [of _ "(b, k) # ls"] exI [of _ j] exI [of _ rs]) auto
    qed
  qed simp
  with that show thesis by blast
qed

lemma ff_free_split:
  assumes "\<forall>(c, k) \<in> set ls. c + k \<le> b" and "\<forall>(c, k) \<in> set ls. c < b"
    and "\<forall>(c, k) \<in> set rs. b < c" and "blocks_ok lo b ls"
  shows "ff_free b n (ls @ rs) =
    (case rev ls of
       [] \<Rightarrow> join_next (b, n) rs
     | (c, k) # ls' \<Rightarrow> if c + k = b then rev ls' @ join_next (c, k + n) rs
                      else ls @ join_next (b, n) rs)"
  using assms
proof (induction ls arbitrary: lo)
  case Nil
  then show ?case by (cases rs) auto
next
  case (Cons x ls)
  obtain c k where x: "x = (c, k)" by (cases x)
  show ?case
  proof (cases ls rule: rev_cases)
    case Nil
    with Cons.prems x show ?thesis by (cases rs) auto
  next
    case (snoc ls' y)
    obtain d j where y: "y = (d, j)" by (cases y)
    have "c + k \<noteq> b"
      using Cons.prems snoc x y by (auto simp: blocks_ok_append dest: blocks_ok_le)
    then show ?thesis
      using Cons.IH [of "c + k"] Cons.prems x snoc y by auto
  qed
qed

lemma take_rest_ok:
  assumes "blocks_ok lo hi (ls @ (r, k) # rs)" and "n \<le> k" and "0 < n"
  shows "blocks_ok lo hi (ls @ (if n < k then (r + n, k - n) # rs else rs))"
proof (cases "n < k")
  case True
  with assms show ?thesis
    by (auto simp: blocks_ok_append intro: blocks_ok_upper)
next
  case False
  with assms have "blocks_ok lo r ls" "blocks_ok (r + k) hi rs"
    by (auto simp: blocks_ok_append)
  with False show ?thesis
    using blocks_ok_upper [of lo r ls] blocks_ok_le [of "r + k" hi rs]
    by (cases rs) (auto simp: blocks_ok_append)
qed

lemma take_rest_pages:
  assumes "blocks_ok lo hi (ls @ (r, k) # rs)" and "n \<le> k"
  shows "block_pages (ls @ (if n < k then (r + n, k - n) # rs else rs)) =
    block_pages (ls @ (r, k) # rs) - {r..<r + n}"
proof -
  have "\<forall>p \<in> block_pages ls. p < r" and "\<forall>p \<in> block_pages rs. r + k \<le> p"
    using assms by (auto simp: blocks_ok_append dest: blocks_ok_pages)
  then show ?thesis
    using assms by (auto simp: not_less split: if_splits)
qed

lemma ff_alloc_ok:
  assumes "blocks_ok lo hi bs" and "ff_alloc n bs = Some (r, bs')" and "0 < n"
  shows "blocks_ok lo hi bs'"
  using assms(2) by (rule ff_alloc_SomeE) (use assms take_rest_ok in \<open>simp only:\<close>)

lemma ff_alloc_pages:
  assumes "blocks_ok lo hi bs" and "ff_alloc n bs = Some (r, bs')"
  shows "{r..<r + n} \<subseteq> block_pages bs \<and> block_pages bs' = block_pages bs - {r..<r + n}"
  using assms(2)
proof (rule ff_alloc_SomeE)
  fix ls k rs
  assume *: "bs = ls @ (r, k) # rs" "n \<le> k" "bs' = ls @ (if n < k then (r + n, k - n) # rs else rs)"
  have "{r..<r + n} \<subseteq> block_pages bs" using * by auto
  moreover have "block_pages bs' = block_pages bs - {r..<r + n}"
    using assms(1) take_rest_pages [of lo hi ls r k rs n] * by simp
  ultimately show ?thesis ..
qed

lemma join_next_pages: "block_pages (join_next x bs) = block_pages (x # bs)"
  by (induction x bs rule: join_next.induct) auto

lemma join_next_ok: "blocks_ok lo hi (x # bs) \<Longrightarrow> blocks_ok lo hi (join_next x bs)"
  by (induction x bs rule: join_next.induct) (auto simp: add.assoc)

lemma ff_free_pages: "block_pages (ff_free b n bs) = {b..<b + n} \<union> block_pages bs"
  by (induction b n bs rule: ff_free.induct) (auto simp: join_next_pages)

lemma ff_free_ok:
  assumes "blocks_ok lo hi bs" and "lo \<le> b" and "b + n \<le> hi" and "0 < n"
    and "{b..<b + n} \<inter> block_pages bs = {}"
  shows "blocks_ok lo hi (ff_free b n bs)"
  using assms
proof (induction b n bs arbitrary: lo rule: ff_free.induct)
  case (2 b n c k bs)
  have disj: "b + n \<le> c \<or> c + k \<le> b"
  proof (rule ccontr)
    assume "\<not> ?thesis"
    then have "max b c \<in> {b..<b + n} \<inter> {c..<c + k}"
      using "2.prems" by (auto simp: max_def)
    then have "max b c \<in> {b..<b + n} \<inter> block_pages ((c, k) # bs)" by simp
    with "2.prems"(5) show False by blast
  qed
  show ?case
  proof (cases "b < c")
    case True
    with 2 disj show ?thesis
      by (auto intro!: join_next_ok simp: add.assoc)
  next
    case False
    have "{b..<b + n} \<inter> block_pages bs = {}"
      using "2.prems" by auto
    moreover have "c + k = b \<Longrightarrow> blocks_ok (b + n) hi bs"
    proof (cases bs)
      case Nil
      with "2.prems" show ?thesis by simp
    next
      case (Cons x bs')
      obtain d j where x: "x = (d, j)" by (cases x)
      assume "c + k = b"
      with "2.prems" Cons x have "b \<le> d" "0 < j" by auto
      with \<open>{b..<b + n} \<inter> block_pages bs = {}\<close> Cons x have "b + n \<le> d"
        by (auto simp: disjoint_iff not_less)
      with "2.prems" Cons x show ?thesis by simp
    qed
    ultimately show ?thesis
      using 2 disj False by (auto intro!: join_next_ok simp: add.assoc)
  qed
qed simp


subsection \<open>The invariant\<close>

definition ff_inv :: "nat \<Rightarrow> free_area \<Rightarrow> block list \<Rightarrow> bool" where
  "ff_inv N s bs =
     (N < 2 ^ 32 \<and> blocks_ok 0 N bs \<and> dlist (flinks s) FreeHead (nodes bs)
      \<and> (\<forall>(b, k) \<in> set bs. pg_property (pages s b) = k)
      \<and> (\<forall>p < N. PageProperty (pages s p) = (p \<in> fst ` set bs))
      \<and> (\<forall>p \<in> block_pages bs. \<not> PageReserved (pages s p))
      \<and> nr_free s = sum_list (map snd bs))"

lemma ff_invI:
  assumes "N < 2 ^ 32" and "blocks_ok 0 N bs" and "dlist (flinks s) FreeHead (nodes bs)"
    and "\<And>b k. (b, k) \<in> set bs \<Longrightarrow> pg_property (pages s b) = k"
    and "\<And>p. p < N \<Longrightarrow> PageProperty (pages s p) = (p \<in> fst ` set bs)"
    and "\<And>p. p \<in> block_pages bs \<Longrightarrow> \<not> PageReserved (pages s p)"
    and "nr_free s = sum_list (map snd bs)"
  shows "ff_inv N s bs"
  using assms by (auto simp: ff_inv_def)

lemma page_flag_simps [simp]:
  "PageProperty (SetPageProperty p)" "\<not> PageProperty (ClearPageProperty p)"
  "PageReserved (SetPageProperty p) = PageReserved p"
  "PageReserved (ClearPageProperty p) = PageReserved p"
  "PageProperty (p\<lparr>pg_property := x\<rparr>) = PageProperty p"
  "PageReserved (p\<lparr>pg_property := x\<rparr>) = PageReserved p"
  "\<not> PageProperty (p\<lparr>pg_flags := 0\<rparr>)" "\<not> PageReserved (p\<lparr>pg_flags := 0\<rparr>)"
  "PageProperty (p\<lparr>pg_ref := r\<rparr>) = PageProperty p"
  "PageReserved (p\<lparr>pg_ref := r\<rparr>) = PageReserved p"
  "PageReserved (SetPageReserved p)"
  by (auto simp: PageProperty_def PageReserved_def SetPageProperty_def ClearPageProperty_def
      SetPageReserved_def bit_set_bit_iff bit_unset_bit_iff)

lemma pg_property_simps [simp]:
  "pg_property (SetPageProperty p) = pg_property p"
  "pg_property (ClearPageProperty p) = pg_property p"
  by (auto simp: SetPageProperty_def ClearPageProperty_def)

lemma nodes_eq_iff [simp]: "PLink b \<in> set (nodes bs) \<longleftrightarrow> b \<in> fst ` set bs"
  by auto

lemma ff_inv_blocks: "ff_inv N s bs \<Longrightarrow> blocks_ok 0 N bs"
  and ff_inv_dlist: "ff_inv N s bs \<Longrightarrow> dlist (flinks s) FreeHead (nodes bs)"
  and ff_inv_property: "ff_inv N s bs \<Longrightarrow> (b, k) \<in> set bs \<Longrightarrow> pg_property (pages s b) = k"
  and ff_inv_nr_free: "ff_inv N s bs \<Longrightarrow> nr_free s = sum_list (map snd bs)"
  by (auto simp: ff_inv_def)

lemma ff_inv_nr_free_card: "ff_inv N s bs \<Longrightarrow> nr_free s = card (block_pages bs)"
  by (simp add: ff_inv_nr_free blocks_ok_card [OF ff_inv_blocks])

lemma default_init_inv:
  assumes "N < 2 ^ 32" and "\<And>p. p < N \<Longrightarrow> \<not> PageProperty (pages s p)"
  shows "ff_inv N (default_init s) []"
  using assms by (simp add: ff_inv_def default_init_def dlist_list_init)

lemma init_pages_spec:
  assumes "\<forall>p \<in> {b..<b + n}. PageReserved (pg p)"
  shows "init_pages b n pg =
    Some (\<lambda>p. if p \<in> {b..<b + n} then \<lparr>pg_ref = 0, pg_flags = 0, pg_property = 0\<rparr> else pg p)"
  using assms
proof (induction b n pg rule: init_pages.induct)
  case (2 p k pg)
  let ?pg = "pg(p := set_page_ref ((pg p)\<lparr>pg_property := 0, pg_flags := 0\<rparr>) 0)"
  have "init_pages (Suc p) k ?pg = Some (\<lambda>q. if q \<in> {Suc p..<Suc p + k}
      then \<lparr>pg_ref = 0, pg_flags = 0, pg_property = 0\<rparr> else ?pg q)"
    using "2.prems" by (intro "2.IH") auto
  then show ?case
    using "2.prems" by (auto simp: fun_eq_iff set_page_ref_def)
qed (auto simp: fun_eq_iff)

lemma default_init_memmap_inv:
  assumes inv: "ff_inv N s []" and n: "0 < n" "b + n \<le> N"
    and res: "\<forall>p \<in> {b..<b + n}. PageReserved (pages s p)"
  shows "\<exists>s'. default_init_memmap b n s = Some s' \<and> ff_inv N s' [(b, n)]"
proof -
  have N: "N < 2 ^ 32" "nr_free s = 0" using inv by (auto simp: ff_inv_def)
  have d: "dlist (flinks s) FreeHead []" using inv by (simp add: ff_inv_def)
  define pg where "pg = (\<lambda>p. if p \<in> {b..<b + n}
      then \<lparr>pg_ref = 0, pg_flags = 0, pg_property = 0\<rparr> else pages s p)"
  let ?pg = "pg(b := SetPageProperty ((pg b)\<lparr>pg_property := n\<rparr>))"
  let ?s = "s\<lparr>pages := ?pg, flinks := list_add (flinks s) FreeHead (PLink b), nr_free := n\<rparr>"
  have run: "default_init_memmap b n s = Some ?s"
    using init_pages_spec [OF res] dlist_empty_iff [OF d] n N
    by (simp add: default_init_memmap_def pg_def)
  have head: "PageProperty (?pg p) = (p = b)" if "p < N" for p
    using inv that by (auto simp: pg_def ff_inv_def PageProperty_def SetPageProperty_def bit_set_bit_iff)
  have nres: "\<not> PageReserved (?pg p)" if "p \<in> {b..<b + n}" for p
    using that by (auto simp: pg_def PageReserved_def SetPageProperty_def bit_set_bit_iff)
  have "ff_inv N ?s [(b, n)]"
    by (rule ff_invI) (use N n head nres dlist_list_add_head [OF d, of "PLink b"] in auto)
  with run show ?thesis by blast
qed

subsection \<open>Allocation\<close>

lemma find_fit_spec:
  assumes "dlist l FreeHead (nodes (as @ bs))" and "\<forall>(b, k) \<in> set bs. pg_property (pg b) = k"
  shows "find_fit l pg (last (FreeHead # nodes as)) n = Some (map_option fst (ff_alloc n bs))"
  using assms
proof (induction bs arbitrary: as)
  case Nil
  then have "list_next l (last (FreeHead # nodes as)) = FreeHead"
    using dlist_next_last [of l FreeHead "nodes as" "[]"] by (simp add: list_next_def)
  then show ?case by (simp add: find_fit.simps)
next
  case (Cons x bs)
  obtain b k where x: "x = (b, k)" by (cases x)
  have "list_next l (last (FreeHead # nodes as)) = PLink b"
    using dlist_next_last [of l FreeHead "nodes as" "nodes (x # bs)"] Cons.prems x
    by (simp add: list_next_def)
  moreover have "find_fit l pg (PLink b) n = Some (map_option fst (ff_alloc n bs))"
    using Cons.IH [of "as @ [x]"] Cons.prems x by simp
  ultimately show ?case
    using Cons.prems x by (auto simp: find_fit.simps [of l pg _ n] option.map_comp comp_def
        split_def)
qed

lemma default_alloc_pages_None:
  assumes "ff_inv N s bs" and "0 < n" and "ff_alloc n bs = None"
  shows "default_alloc_pages n s = Some (s, None)"
  using find_fit_spec [of "flinks s" "[]" bs "pages s" n] assms
  by (simp add: default_alloc_pages_def ff_inv_def)

lemma member_le_sum_snd: "(b, k) \<in> set (bs :: block list) \<Longrightarrow> k \<le> sum_list (map snd bs)"
  by (induction bs) auto

lemma take_block_inv:
  assumes inv: "ff_inv N s (ls @ (r, k) # rs)" and n: "0 < n" and nk: "n \<le> k"
  shows "ff_inv N (take_block n r s) (ls @ (if n < k then (r + n, k - n) # rs else rs))"
    (is "ff_inv N ?s' ?bs'")
proof -
  let ?bs = "ls @ (r, k) # rs"
  have rk: "pg_property (pages s r) = k"
    using inv by (simp add: ff_inv_def)
  have ok: "blocks_ok 0 N ?bs'" and sub: "block_pages ?bs' \<subseteq> block_pages ?bs"
    using take_rest_ok [OF ff_inv_blocks [OF inv] nk n] take_rest_pages [OF ff_inv_blocks [OF inv] nk]
    by auto
  have rN: "blocks_ok 0 r ls" "blocks_ok (r + k) N rs"
    using ff_inv_blocks [OF inv] by (auto simp: blocks_ok_append)
  have low: "\<And>x. x \<in> set ls \<Longrightarrow> fst x < r" and high: "\<And>x. x \<in> set rs \<Longrightarrow> r + k \<le> fst x"
    using blocks_ok_bounds [OF rN(1)] blocks_ok_bounds [OF rN(2)] by force+
  let ?prv = "list_prev (flinks s) (PLink r)"
  let ?l = "list_del (flinks s) (PLink r)"
  have prv: "?prv = last (FreeHead # nodes ls)"
    using dlist_prev [of "flinks s" FreeHead "nodes ls" "PLink r" "nodes rs"] inv
    by (simp add: ff_inv_def list_prev_def)
  have l: "dlist ?l FreeHead (nodes ls @ nodes rs)"
    using dlist_list_del [of "flinks s" FreeHead "nodes ls" "PLink r" "nodes rs"] inv
    by (simp add: ff_inv_def)
  show ?thesis
  proof (cases "n < k")
    case True
    let ?pg = "(pages s)(r + n := SetPageProperty ((pages s (r + n))\<lparr>pg_property := k - n\<rparr>))"
    have s': "?s' = s\<lparr>pages := ?pg(r := ClearPageProperty (?pg r)),
                 flinks := list_add ?l ?prv (PLink (r + n)), nr_free := nr_free s - n\<rparr>"
      using True n rk by (simp add: take_block_def Let_def)
    have "PLink (r + n) \<notin> set (nodes ls @ nodes rs)"
      using True nk low high by force
    then have "dlist (list_add ?l ?prv (PLink (r + n))) FreeHead (nodes ?bs')"
      using dlist_list_add_last [OF l, of "PLink (r + n)"] prv True by simp
    then show ?thesis
    proof (intro ff_invI, goal_cases)
      case (4 b j)
      then have "b = r + n \<and> j = k - n \<or> (b, j) \<in> set ?bs \<and> b \<noteq> r \<and> b \<noteq> r + n"
        using True nk n low high by force
      with inv n s' show ?case by (auto simp: ff_inv_property)
    next
      case (5 p)
      have "fst ` set ?bs' = insert (r + n) (fst ` set ?bs - {r})"
        using True nk n low high by force
      with 5 inv n s' show ?case by (auto simp: ff_inv_def)
    next
      case (6 p)
      with inv sub s' show ?case by (auto simp: ff_inv_def)
    qed (use inv ok s' True in \<open>auto simp: ff_inv_def\<close>)
  next
    case False
    have s': "?s' = s\<lparr>pages := (pages s)(r := ClearPageProperty (pages s r)),
                 flinks := ?l, nr_free := nr_free s - n\<rparr>"
      using False n rk by (simp add: take_block_def Let_def)
    show ?thesis
    proof (intro ff_invI, goal_cases)
      case (4 b j)
      then have "(b, j) \<in> set ?bs \<and> b \<noteq> r"
        using False nk n low high by force
      with inv s' show ?case by (auto simp: ff_inv_property)
    next
      case (5 p)
      have "fst ` set ?bs' = fst ` set ?bs - {r}"
        using False nk n low high by force
      with 5 inv s' show ?case by (auto simp: ff_inv_def)
    next
      case (6 p)
      with inv sub s' show ?case by (auto simp: ff_inv_def)
    qed (use inv ok l s' False nk in \<open>auto simp: ff_inv_def\<close>)
  qed
qed

lemma default_alloc_pages_Some:
  assumes inv: "ff_inv N s bs" and n: "0 < n" and fit: "ff_alloc n bs = Some (r, bs')"
  shows "\<exists>s'. default_alloc_pages n s = Some (s', Some r) \<and> ff_inv N s' bs'"
proof -
  from fit obtain ls k rs where bs: "bs = ls @ (r, k) # rs" and nk: "n \<le> k"
    and bs': "bs' = ls @ (if n < k then (r + n, k - n) # rs else rs)"
    by (rule ff_alloc_SomeE)
  have "find_fit (flinks s) (pages s) FreeHead n = Some (Some r)"
    using find_fit_spec [of "flinks s" "[]" bs "pages s" n] inv fit by (simp add: ff_inv_def)
  moreover have "\<not> nr_free s < n"
    using inv bs nk member_le_sum_snd [of r k bs] by (simp add: ff_inv_def)
  ultimately have "default_alloc_pages n s = Some (take_block n r s, Some r)"
    using n by (simp add: default_alloc_pages_def)
  with take_block_inv [of N s ls r k rs n] inv n nk bs bs' show ?thesis by auto
qed

subsection \<open>Release\<close>

lemma clear_pages_spec:
  assumes "\<And>p. b \<le> p \<Longrightarrow> p < b + n \<Longrightarrow> \<not> PageReserved (pg p) \<and> \<not> PageProperty (pg p)"
  shows "clear_pages b n pg =
    Some (\<lambda>p. if b \<le> p \<and> p < b + n then (pg p)\<lparr>pg_flags := 0, pg_ref := 0\<rparr> else pg p)"
  using assms
proof (induction b n pg rule: clear_pages.induct)
  case (2 p k pg)
  let ?pg = "pg(p := set_page_ref ((pg p)\<lparr>pg_flags := 0\<rparr>) 0)"
  have "clear_pages (Suc p) k ?pg =
    Some (\<lambda>q. if Suc p \<le> q \<and> q < Suc p + k then (?pg q)\<lparr>pg_flags := 0, pg_ref := 0\<rparr> else ?pg q)"
    using "2.prems" by (intro "2.IH") auto
  then show ?case
    using "2.prems" [of p] by (auto simp: fun_eq_iff set_page_ref_def)
qed (auto simp: fun_eq_iff)

lemma last_snoc_node: "last (FreeHead # xs @ [x]) = x"
  by simp

lemma free_list_insert_middle:
  assumes "dlist l FreeHead (nodes (as @ ls @ (r, k) # rs))"
    and "\<forall>x \<in> set ls. fst x \<le> b" and "b < r"
  shows "free_list_insert l (last (FreeHead # nodes as)) b =
    Some (list_add_before l (PLink r) (PLink b))"
  using assms
proof (induction ls arbitrary: as)
  case Nil
  then have "list_next l (last (FreeHead # nodes as)) = PLink r"
    using dlist_next_last [of l FreeHead "nodes as" "nodes ((r, k) # rs)"] by (simp add: list_next_def)
  with Nil show ?case by (simp add: free_list_insert.simps)
next
  case (Cons x ls)
  obtain c j where x: "x = (c, j)" by (cases x)
  have "list_next l (last (FreeHead # nodes as)) = PLink c"
    using dlist_next_last [of l FreeHead "nodes as" "nodes (x # ls @ (r, k) # rs)"] Cons.prems x
    by (simp add: list_next_def)
  moreover have "list_next l (PLink c) \<noteq> FreeHead"
    using dlist_next [of l FreeHead "nodes as" "PLink c" "nodes (ls @ (r, k) # rs)"] Cons.prems x
    by (cases ls) (auto simp: list_next_def)
  moreover have "free_list_insert l (PLink c) b = Some (list_add_before l (PLink r) (PLink b))"
    using Cons.IH [of "as @ [x]"] Cons.prems x by simp
  ultimately show ?case
    using Cons.prems x
    by (simp add: free_list_insert.simps [of l "last (FreeHead # nodes as)"] del: last.simps)
qed

text \<open>
  The insertion at the end: the entry is appended, and then inserted once more after itself.
\<close>

lemma free_list_insert_tail:
  assumes "dlist l FreeHead (nodes (as @ ls @ [(c, k)]))" and "\<forall>x \<in> set ls. fst x \<le> b" and "c < b"
    and "PLink b \<notin> set (nodes (as @ ls))"
  shows "\<exists>l'. free_list_insert l (last (FreeHead # nodes as)) b =
      Some (list_add l' (PLink b) (PLink b))
    \<and> dlist l' FreeHead (nodes (as @ ls @ [(c, k), (b, n)]))"
  using assms
proof (induction ls arbitrary: as)
  case Nil
  let ?l' = "list_add l (PLink c) (PLink b)"
  have l': "dlist ?l' FreeHead (nodes (as @ [(c, k), (b, n)]))"
    using dlist_list_add_after [of l FreeHead "nodes as" "PLink c" "[]" "PLink b"] Nil by simp
  have "list_next l (last (FreeHead # nodes as)) = PLink c" "list_next l (PLink c) = FreeHead"
    using dlist_next_last [of l FreeHead "nodes as" "[PLink c]"]
      dlist_next [of l FreeHead "nodes as" "PLink c" "[]"] Nil by (simp_all add: list_next_def)
  moreover have "list_next ?l' (PLink c) = PLink b" "list_next ?l' (PLink b) = FreeHead"
    using dlist_next [of ?l' FreeHead "nodes as" "PLink c" "[PLink b]"]
      dlist_next [of ?l' FreeHead "nodes (as @ [(c, k)])" "PLink b" "[]"] l'
    by (simp_all add: list_next_def)
  moreover have "list_next (list_add ?l' (PLink b) (PLink b)) (PLink b) = FreeHead"
    using list_add_self(1) [of ?l' FreeHead "nodes (as @ [(c, k)])" "PLink b"] l' calculation
    by (simp add: list_next_def)
  ultimately show ?case
    using Nil l' by (intro exI [of _ ?l'])
      (simp add: free_list_insert.simps [of _ "last (FreeHead # nodes as)"]
        free_list_insert.simps [of _ "PLink _"] del: last.simps)
next
  case (Cons x ls)
  obtain d j where x: "x = (d, j)" by (cases x)
  have "list_next l (last (FreeHead # nodes as)) = PLink d"
    using dlist_next_last [of l FreeHead "nodes as" "nodes (x # ls @ [(c, k)])"] Cons.prems x
    by (simp add: list_next_def)
  moreover have "list_next l (PLink d) \<noteq> FreeHead"
    using dlist_next [of l FreeHead "nodes as" "PLink d" "nodes (ls @ [(c, k)])"] Cons.prems x
    by (cases ls) (auto simp: list_next_def)
  ultimately show ?case
    using Cons.IH [of "as @ [x]"] Cons.prems x
    by (simp add: free_list_insert.simps [of l "last (FreeHead # nodes as)"] last_snoc_node
        del: last.simps)
qed

text \<open>Joining two adjacent blocks.\<close>

lemma ff_inv_join:
  assumes inv: "ff_inv N s (ls @ (c, k) # (d, n) # rs)" and d: "d = c + k"
    and pg: "pages s' = (let pg = (pages s)(c := (pages s c)\<lparr>pg_property :=
                   (pg_property (pages s c) + pg_property (pages s d)) mod 2 ^ 32\<rparr>)
                 in pg(d := ClearPageProperty (pg d)))"
    and l: "flinks s' = list_del (flinks s) (PLink d)" and nr: "nr_free s' = nr_free s"
  shows "ff_inv N s' (ls @ (c, k + n) # rs)"
proof -
  have ok: "blocks_ok 0 c ls" "0 < k" "0 < n" "blocks_ok (c + k + n) N rs"
    using ff_inv_blocks [OF inv] d by (auto simp: blocks_ok_append)
  have "c + k + n \<le> N" "N < 2 ^ 32"
    using ok(4) inv by (auto dest: blocks_ok_le simp: ff_inv_def)
  then have kn: "k + n < 2 ^ 32" by simp
  have vals: "pg_property (pages s c) = k" "pg_property (pages s d) = n"
    using inv by (simp_all add: ff_inv_def)
  have low: "\<And>x. x \<in> set ls \<Longrightarrow> fst x < c" and high: "\<And>x. x \<in> set rs \<Longrightarrow> c + k + n \<le> fst x"
    using blocks_ok_bounds [OF ok(1)] blocks_ok_bounds [OF ok(4)] by force+
  show ?thesis
  proof (intro ff_invI, goal_cases)
    case 2
    show ?case using ok by (simp add: blocks_ok_append add.assoc)
  next
    case 3
    show ?case
      using dlist_list_del [of "flinks s" FreeHead "nodes (ls @ [(c, k)])" "PLink d" "nodes rs"] inv l
      by (simp add: ff_inv_def)
  next
    case (4 b j)
    then have "b = c \<and> j = k + n \<or> (b, j) \<in> set (ls @ (c, k) # (d, n) # rs) \<and> b \<noteq> c \<and> b \<noteq> d"
      using low high ok d by force
    then show ?case
    proof
      assume "b = c \<and> j = k + n"
      with vals kn ok d pg show ?thesis by (simp add: Let_def)
    next
      assume "(b, j) \<in> set (ls @ (c, k) # (d, n) # rs) \<and> b \<noteq> c \<and> b \<noteq> d"
      with ff_inv_property [OF inv, of b j] pg show ?thesis by (auto simp: Let_def)
    qed
  next
    case (5 p)
    have "fst ` set (ls @ (c, k + n) # rs) = fst ` set (ls @ (c, k) # (d, n) # rs) - {d}"
      using low high ok d by force
    with 5 inv d ok pg show ?case by (auto simp: ff_inv_def Let_def)
  next
    case (6 p)
    then have "p \<in> block_pages (ls @ (c, k) # (d, n) # rs)" using d by auto
    with inv pg show ?case by (auto simp: ff_inv_def Let_def)
  qed (use inv nr in \<open>auto simp: ff_inv_def\<close>)
qed

lemma merge_prev_none:
  assumes "ff_inv N s (ls @ (b, n) # rs)"
    and "ls = [] \<or> fst (last ls) + snd (last ls) \<noteq> b"
  shows "merge_prev s b = (s, b)"
proof (cases ls rule: rev_cases)
  case Nil
  with assms show ?thesis
    using dlist_prev [of "flinks s" FreeHead "[]" "PLink b" "nodes rs"]
    by (simp add: merge_prev_def list_prev_def ff_inv_def)
next
  case (snoc ls' x)
  with assms show ?thesis
    using dlist_prev [of "flinks s" FreeHead "nodes ls" "PLink b" "nodes rs"]
    by (cases x) (simp add: merge_prev_def list_prev_def ff_inv_def)
qed

lemma merge_prev_join:
  assumes "ff_inv N s (ls @ (c, k) # (b, n) # rs)" and "c + k = b"
  shows "\<exists>s'. merge_prev s b = (s', c) \<and> ff_inv N s' (ls @ (c, k + n) # rs)"
proof -
  have "list_prev (flinks s) (PLink b) = PLink c"
    using dlist_prev [of "flinks s" FreeHead "nodes (ls @ [(c, k)])" "PLink b" "nodes rs"] assms
    by (simp add: ff_inv_def list_prev_def)
  then have "merge_prev s b = (fst (merge_prev s b), c)"
    and "pages (fst (merge_prev s b)) = (let pg = (pages s)(c := (pages s c)\<lparr>pg_property :=
                   (pg_property (pages s c) + pg_property (pages s b)) mod 2 ^ 32\<rparr>)
                 in pg(b := ClearPageProperty (pg b)))"
    and "flinks (fst (merge_prev s b)) = list_del (flinks s) (PLink b)"
    and "nr_free (fst (merge_prev s b)) = nr_free s"
    using assms by (simp_all add: merge_prev_def ff_inv_def Let_def)
  then show ?thesis
    using ff_inv_join [OF assms(1), of "fst (merge_prev s b)"] assms(2) by metis
qed

lemma merge_next_spec:
  assumes "ff_inv N s (ls @ (b, n) # rs)"
  shows "ff_inv N (merge_next s b) (ls @ join_next (b, n) rs)"
proof (cases rs)
  case Nil
  with assms show ?thesis
    using dlist_next [of "flinks s" FreeHead "nodes ls" "PLink b" "[]"]
    by (simp add: merge_next_def list_next_def ff_inv_def)
next
  case (Cons x rs')
  obtain d k where x: "x = (d, k)" by (cases x)
  have nxt: "list_next (flinks s) (PLink b) = PLink d" "pg_property (pages s b) = n"
    using dlist_next [of "flinks s" FreeHead "nodes ls" "PLink b" "nodes rs"] assms Cons x
    by (simp_all add: list_next_def ff_inv_def)
  show ?thesis
  proof (cases "b + n = d")
    case True
    have "ff_inv N (merge_next s b) (ls @ (b, n + k) # rs')"
      using assms Cons x True nxt
      by (intro ff_inv_join [of N s ls b n d k rs']) (simp_all add: merge_next_def Let_def)
    with True Cons x show ?thesis by simp
  next
    case False
    with assms Cons x nxt show ?thesis by (simp add: merge_next_def)
  qed
qed


text \<open>The state between the insertion of the block and the merging.\<close>

definition freed_pages :: "nat \<Rightarrow> nat \<Rightarrow> (nat \<Rightarrow> page) \<Rightarrow> nat \<Rightarrow> page" where
  "freed_pages b n pg =
     (\<lambda>p. if b \<le> p \<and> p < b + n
          then (if p = b then SetPageProperty ((pg p)\<lparr>pg_flags := 0, pg_ref := 0, pg_property := n\<rparr>)
                else (pg p)\<lparr>pg_flags := 0, pg_ref := 0\<rparr>)
          else pg p)"

text \<open>What a caller of \<open>free_pages\<close> owes: the pages are allocated ones.\<close>

definition allocated :: "nat \<Rightarrow> free_area \<Rightarrow> block list \<Rightarrow> nat \<Rightarrow> nat \<Rightarrow> bool" where
  "allocated N s bs b n =
     (0 < n \<and> b + n \<le> N \<and> {b..<b + n} \<inter> block_pages bs = {}
      \<and> (\<forall>p \<in> {b..<b + n}. \<not> PageReserved (pages s p)))"

lemma allocated_disjoint: "allocated N s bs b n \<Longrightarrow> p \<in> block_pages bs \<Longrightarrow> p < b \<or> b + n \<le> p"
  by (auto simp: allocated_def disjoint_iff not_less)

lemma allocated_clear:
  assumes inv: "ff_inv N s bs" and al: "allocated N s bs b n"
  shows "clear_pages b n (pages s) \<bind>
     (\<lambda>pg. Some (pg(b := SetPageProperty ((pg b)\<lparr>pg_property := n mod 2 ^ 32\<rparr>)))) =
     Some (freed_pages b n (pages s))"
proof -
  have "\<not> PageProperty (pages s p)" if p: "b \<le> p" "p < b + n" for p
  proof -
    have "p < N" "p \<notin> block_pages bs"
      using al p by (auto simp: allocated_def)
    moreover from this have "p \<notin> fst ` set bs"
      using blocks_ok_head_free [OF ff_inv_blocks [OF inv]] by auto
    ultimately show ?thesis using inv by (simp add: ff_inv_def)
  qed
  moreover have "n < 2 ^ 32" using inv al by (simp add: ff_inv_def allocated_def)
  moreover have "0 < n" using al by (simp add: allocated_def)
  ultimately show ?thesis
    using clear_pages_spec [of b n "pages s"] al
    by (auto simp: allocated_def freed_pages_def fun_eq_iff)
qed

lemma default_free_pages_unfold:
  assumes inv: "ff_inv N s bs" and al: "allocated N s bs b n"
    and ins: "(if list_empty (flinks s) FreeHead
               then Some (list_add (flinks s) FreeHead (PLink b))
               else free_list_insert (flinks s) FreeHead b) = Some l"
  shows "default_free_pages b n s =
    Some (let (s2, b2) = merge_prev (s\<lparr>pages := freed_pages b n (pages s), flinks := l,
                nr_free := nr_free s + n\<rparr>) b in merge_next s2 b2)"
proof -
  have "sum_list (map snd bs) + n \<le> N"
  proof -
    have "card (block_pages bs \<union> {b..<b + n}) \<le> card {..<N}"
      using al blocks_ok_pages [OF ff_inv_blocks [OF inv]]
      by (intro card_mono) (auto simp: allocated_def)
    moreover have "card (block_pages bs \<union> {b..<b + n}) = card (block_pages bs) + n"
      using al by (subst card_Un_disjoint) (auto simp: allocated_def block_pages_def)
    ultimately show ?thesis
      by (simp add: blocks_ok_card [OF ff_inv_blocks [OF inv]])
  qed
  then have "(nr_free s + n) mod 2 ^ 32 = nr_free s + n"
    using inv by (simp add: ff_inv_def)
  moreover obtain pg where "clear_pages b n (pages s) = Some pg"
    and "pg(b := SetPageProperty ((pg b)\<lparr>pg_property := n mod 2 ^ 32\<rparr>)) = freed_pages b n (pages s)"
    using allocated_clear [OF inv al] by (auto simp: bind_eq_Some_conv)
  ultimately show ?thesis
    using al ins by (simp add: default_free_pages_def allocated_def Let_def split_def)
qed

lemma freed_inv:
  assumes inv: "ff_inv N s (ls @ rs)" and al: "allocated N s (ls @ rs) b n"
    and low: "\<forall>x \<in> set ls. fst x < b" and high: "\<forall>x \<in> set rs. b < fst x"
    and l: "dlist l FreeHead (nodes (ls @ (b, n) # rs))"
  shows "ff_inv N (s\<lparr>pages := freed_pages b n (pages s), flinks := l,
                     nr_free := nr_free s + n\<rparr>) (ls @ (b, n) # rs)"
proof (intro ff_invI, goal_cases)
  case 2
  have "\<And>c k. (c, k) \<in> set ls \<Longrightarrow> c + k \<le> b"
  proof -
    fix c k assume ck: "(c, k) \<in> set ls"
    show "c + k \<le> b"
    proof (rule ccontr)
      assume "\<not> c + k \<le> b"
      then have "b \<in> block_pages (ls @ rs)" using ck low by (force simp: block_pages_iff)
      with al show False using allocated_disjoint [OF al] by (force simp: allocated_def)
    qed
  qed
  moreover have "\<And>c k. (c, k) \<in> set rs \<Longrightarrow> b + n \<le> c"
  proof -
    fix c k assume ck: "(c, k) \<in> set rs"
    then have "c \<in> block_pages (ls @ rs)"
      using blocks_ok_head_free [OF ff_inv_blocks [OF inv], of "(c, k)"] by auto
    moreover have "b < c" using high ck by force
    ultimately show "b + n \<le> c" using allocated_disjoint [OF al] by force
  qed
  ultimately show ?case
    using ff_inv_blocks [OF inv] al by (intro blocks_ok_insert) (auto simp: allocated_def)
next
  case (4 c k)
  show ?case
  proof (cases "(c, k) = (b, n)")
    case True
    with al show ?thesis by (simp add: freed_pages_def allocated_def)
  next
    case False
    with 4 have "(c, k) \<in> set (ls @ rs)" by auto
    moreover from this have "c \<notin> {b..<b + n}"
      using al blocks_ok_head_free [OF ff_inv_blocks [OF inv], of "(c, k)"]
      by (auto simp: allocated_def)
    ultimately show ?thesis
      using ff_inv_property [OF inv, of c k] al by (auto simp: freed_pages_def allocated_def)
  qed
next
  case (5 p)
  have "\<And>p. p \<in> {b..<b + n} \<Longrightarrow> p \<notin> fst ` set (ls @ rs)"
    using al blocks_ok_head_free [OF ff_inv_blocks [OF inv]] by (force simp: allocated_def)
  with 5 al inv show ?case
    by (auto simp: freed_pages_def allocated_def ff_inv_def)
next
  case (6 p)
  with al inv show ?case
    by (auto simp: freed_pages_def allocated_def ff_inv_def)
qed (use inv l in \<open>auto simp: ff_inv_def\<close>)


lemma default_free_pages_inv:
  assumes inv: "ff_inv N s (ls @ rs)" and al: "allocated N s (ls @ rs) b n"
    and low: "\<forall>x \<in> set ls. fst x < b" and high: "\<forall>x \<in> set rs. b < fst x"
    and place: "ls = [] \<or> rs \<noteq> []"
  shows "\<exists>s'. default_free_pages b n s = Some s' \<and> ff_inv N s' (ff_free b n (ls @ rs))"
proof -
  have notin: "PLink b \<notin> set (nodes (ls @ rs))"
    using low high by auto
  have "\<exists>l. (if list_empty (flinks s) FreeHead
          then Some (list_add (flinks s) FreeHead (PLink b))
          else free_list_insert (flinks s) FreeHead b) = Some l
      \<and> dlist l FreeHead (nodes (ls @ (b, n) # rs))"
  proof (cases rs)
    case Nil
    with place inv show ?thesis
      using dlist_empty_iff [OF ff_inv_dlist [OF inv]]
        dlist_list_add_head [of "flinks s" FreeHead "[]" "PLink b"] by (simp add: ff_inv_def)
  next
    case (Cons x rs')
    obtain r k where x: "x = (r, k)" by (cases x)
    have "\<forall>x \<in> set ls. fst x \<le> b" using low by (simp add: less_imp_le)
    then have "free_list_insert (flinks s) FreeHead b =
        Some (list_add_before (flinks s) (PLink r) (PLink b))"
      using free_list_insert_middle [of "flinks s" "[]" ls r k rs' b] ff_inv_dlist [OF inv]
        high Cons x by simp
    moreover have "\<not> list_empty (flinks s) FreeHead"
      using dlist_empty_iff [OF ff_inv_dlist [OF inv]] Cons by simp
    moreover have "dlist (list_add_before (flinks s) (PLink r) (PLink b)) FreeHead
        (nodes (ls @ (b, n) # rs))"
      using dlist_list_add_before [of "flinks s" FreeHead "nodes ls" "PLink r" "nodes rs'" "PLink b"]
        ff_inv_dlist [OF inv] notin Cons x by simp
    ultimately show ?thesis by auto
  qed
  then obtain l where ins: "(if list_empty (flinks s) FreeHead
          then Some (list_add (flinks s) FreeHead (PLink b))
          else free_list_insert (flinks s) FreeHead b) = Some l"
      and l: "dlist l FreeHead (nodes (ls @ (b, n) # rs))" by blast
  let ?s1 = "s\<lparr>pages := freed_pages b n (pages s), flinks := l, nr_free := nr_free s + n\<rparr>"
  have inv1: "ff_inv N ?s1 (ls @ (b, n) # rs)"
    using freed_inv [OF inv al low high l] .
  have run: "default_free_pages b n s = Some (let (s2, b2) = merge_prev ?s1 b in merge_next s2 b2)"
    using default_free_pages_unfold [OF inv al ins] .
  have spec: "ff_free b n (ls @ rs) =
    (case rev ls of
       [] \<Rightarrow> join_next (b, n) rs
     | (c, k) # ls' \<Rightarrow> if c + k = b then rev ls' @ join_next (c, k + n) rs
                      else ls @ join_next (b, n) rs)"
  proof (rule ff_free_split)
    show "blocks_ok 0 b ls" using ff_inv_blocks [OF inv1] by (simp add: blocks_ok_append)
    then show "\<forall>(c, k) \<in> set ls. c + k \<le> b" by (auto dest: blocks_ok_bounds)
  qed (use low high in auto)
  show ?thesis
  proof (cases ls rule: rev_cases)
    case Nil
    then show ?thesis
      using run merge_prev_none [OF inv1] merge_next_spec [OF inv1] spec by simp
  next
    case (snoc ls' y)
    obtain c k where y: "y = (c, k)" by (cases y)
    show ?thesis
    proof (cases "c + k = b")
      case True
      obtain s2 where "merge_prev ?s1 b = (s2, c)" "ff_inv N s2 (ls' @ (c, k + n) # rs)"
        using merge_prev_join [of N ?s1 ls' c k b n rs] inv1 snoc y True by auto
      then show ?thesis
        using run merge_next_spec [of N s2 ls' c "k + n" rs] spec snoc y True by simp
    next
      case False
      then have "merge_prev ?s1 b = (?s1, b)"
        using merge_prev_none [OF inv1] snoc y by simp
      then show ?thesis
        using run merge_next_spec [OF inv1] spec snoc y False by simp
    qed
  qed
qed

end
