(* ===== verification/Pmm_Interface.thy ===== *)
theory Pmm_Interface
  imports First_Fit
begin

section \<open>The interface \<open>struct pmm_manager\<close> and its first-fit instance\<close>

text \<open>
  \<open>kern/mm/pmm.c\<close> reaches an allocator only through \<open>struct pmm_manager\<close>. The locale states what
  its clients rely on: \<open>alloc_pages\<close> hands out pages that were free, \<open>free_pages\<close> takes allocated
  pages back, \<open>nr_free_pages\<close> counts the free pages. The lemmas of the locale hold of every
  manager; the interpretation discharges the laws for \<open>default_pmm_manager\<close>.
\<close>

locale pmm_manager =
  fixes alloc :: "nat \<Rightarrow> 's \<Rightarrow> ('s \<times> nat option) option"
    and free :: "nat \<Rightarrow> nat \<Rightarrow> 's \<Rightarrow> 's option"
    and nr_pages :: "'s \<Rightarrow> nat"
    and inv :: "nat \<Rightarrow> 's \<Rightarrow> block list \<Rightarrow> bool"
    and owned :: "nat \<Rightarrow> 's \<Rightarrow> block list \<Rightarrow> nat \<Rightarrow> nat \<Rightarrow> bool"
  assumes inv_blocks: "inv N s bs \<Longrightarrow> blocks_ok 0 N bs"
    and nr_pages_card: "inv N s bs \<Longrightarrow> nr_pages s = card (block_pages bs)"
    and alloc_full: "inv N s bs \<Longrightarrow> 0 < n \<Longrightarrow> \<forall>(b, k) \<in> set bs. k < n \<Longrightarrow> alloc n s = Some (s, None)"
    and alloc_fits: "inv N s bs \<Longrightarrow> 0 < n \<Longrightarrow> \<exists>(b, k) \<in> set bs. n \<le> k \<Longrightarrow>
      \<exists>s' r bs'. alloc n s = Some (s', Some r) \<and> inv N s' bs' \<and> {r..<r + n} \<subseteq> block_pages bs
        \<and> block_pages bs' = block_pages bs - {r..<r + n} \<and> owned N s' bs' r n"
    and free_joins: "inv N s bs \<Longrightarrow> owned N s bs b n \<Longrightarrow> bs = [] \<or> (\<exists>(c, k) \<in> set bs. b < c) \<Longrightarrow>
      \<exists>s' bs'. free b n s = Some s' \<and> inv N s' bs' \<and> block_pages bs' = {b..<b + n} \<union> block_pages bs"
begin

text \<open>The allocator is total on positive requests: no panic, no endless loop.\<close>

lemma alloc_returns:
  assumes "inv N s bs" and "0 < n"
  shows "\<exists>s' bs' r. alloc n s = Some (s', r) \<and> inv N s' bs'"
proof (cases "\<exists>(b, k) \<in> set bs. n \<le> k")
  case True
  from alloc_fits [OF assms True] show ?thesis by blast
next
  case False
  then have "\<forall>(b, k) \<in> set bs. k < n" by force
  from alloc_full [OF assms this] assms(1) show ?thesis by blast
qed

lemma alloc_Some:
  assumes "inv N s bs" and "0 < n" and "alloc n s = Some (s', Some r)"
  shows "\<exists>bs'. inv N s' bs' \<and> {r..<r + n} \<subseteq> block_pages bs
    \<and> block_pages bs' = block_pages bs - {r..<r + n} \<and> owned N s' bs' r n"
proof (cases "\<exists>(b, k) \<in> set bs. n \<le> k")
  case True
  from alloc_fits [OF assms(1,2) True] assms(3) show ?thesis by auto
next
  case False
  then have "\<forall>(b, k) \<in> set bs. k < n" by force
  from alloc_full [OF assms(1,2) this] assms(3) show ?thesis by simp
qed

lemma alloc_count:
  assumes "inv N s bs" and "0 < n" and "alloc n s = Some (s', Some r)"
  shows "nr_pages s' + n = nr_pages s"
proof -
  obtain bs' where bs': "inv N s' bs'" "{r..<r + n} \<subseteq> block_pages bs"
    "block_pages bs' = block_pages bs - {r..<r + n}"
    using alloc_Some [OF assms] by blast
  have "finite (block_pages bs)" by (auto simp: block_pages_def)
  then show ?thesis
    using bs' nr_pages_card [OF assms(1)] nr_pages_card [OF bs'(1)] card_mono [of "block_pages bs" "{r..<r + n}"]
    by (simp add: card_Diff_subset)
qed

text \<open>Pages handed out by consecutive requests are disjoint.\<close>

lemma alloc_twice_disjoint:
  assumes "inv N s bs" and "0 < n" and "0 < m"
    and "alloc n s = Some (s1, Some r1)" and "alloc m s1 = Some (s2, Some r2)"
  shows "{r1..<r1 + n} \<inter> {r2..<r2 + m} = {}"
proof -
  obtain bs1 where "inv N s1 bs1" "block_pages bs1 = block_pages bs - {r1..<r1 + n}"
    using alloc_Some [OF assms(1,2,4)] by blast
  moreover from this obtain bs2 where "{r2..<r2 + m} \<subseteq> block_pages bs1"
    using alloc_Some [OF _ assms(3,5)] by blast
  ultimately show ?thesis by blast
qed

text \<open>Allocating a block and giving it back restores the set of free pages.\<close>

lemma alloc_free_roundtrip:
  assumes "inv N s bs" and "0 < n" and "alloc n s = Some (s1, Some r)"
    and "\<And>bs1. inv N s1 bs1 \<Longrightarrow> bs1 = [] \<or> (\<exists>(c, k) \<in> set bs1. r < c)"
  shows "\<exists>s2 bs2. free r n s1 = Some s2 \<and> inv N s2 bs2 \<and> block_pages bs2 = block_pages bs
    \<and> nr_pages s2 = nr_pages s"
proof -
  obtain bs1 where bs1: "inv N s1 bs1" "{r..<r + n} \<subseteq> block_pages bs"
    "block_pages bs1 = block_pages bs - {r..<r + n}" "owned N s1 bs1 r n"
    using alloc_Some [OF assms(1,2,3)] by blast
  obtain s2 bs2 where "free r n s1 = Some s2" "inv N s2 bs2"
    "block_pages bs2 = {r..<r + n} \<union> block_pages bs1"
    using free_joins [OF bs1(1) bs1(4) assms(4) [OF bs1(1)]] by blast
  moreover from this bs1 have "block_pages bs2 = block_pages bs" by auto
  ultimately show ?thesis
    using nr_pages_card [OF assms(1)] nr_pages_card [of N s2 bs2] by auto
qed

end

subsection \<open>First fit is a page manager\<close>

lemma alloc_owned:
  assumes inv: "ff_inv N s bs" and sub: "{r..<r + n} \<subseteq> block_pages bs" and n: "0 < n"
    and bs': "block_pages bs' = block_pages bs - {r..<r + n}"
    and res: "\<And>p. PageReserved (pages s' p) = PageReserved (pages s p)"
  shows "allocated N s' bs' r n"
proof -
  have "r + n - 1 \<in> block_pages bs" using sub n by auto
  from blocks_ok_pages [OF ff_inv_blocks [OF inv] this] have "r + n \<le> N" using n by arith
  moreover have "\<forall>p \<in> {r..<r + n}. \<not> PageReserved (pages s' p)"
    using inv sub res by (auto simp: ff_inv_def)
  moreover have "{r..<r + n} \<inter> block_pages bs' = {}" using bs' by blast
  ultimately show ?thesis using n by (simp add: allocated_def)
qed

lemma take_block_reserved: "PageReserved (pages (take_block n r s) p) = PageReserved (pages s p)"
  by (cases "n < pg_property (pages s r)") (simp_all add: take_block_def Let_def)

lemma default_alloc_pages_take:
  assumes "default_alloc_pages n s = Some (s', Some r)"
  shows "s' = take_block n r s"
proof (cases "nr_free s < n")
  case False
  then obtain found where "find_fit (flinks s) (pages s) FreeHead n = Some found"
    using assms by (cases "find_fit (flinks s) (pages s) FreeHead n")
      (simp_all add: default_alloc_pages_def kassert_def split: if_splits)
  with assms False show ?thesis
    by (cases found) (simp_all add: default_alloc_pages_def)
qed (use assms in \<open>simp add: default_alloc_pages_def\<close>)

lemma default_alloc_pages_reserved:
  "default_alloc_pages n s = Some (s', Some r) \<Longrightarrow>
     PageReserved (pages s' p) = PageReserved (pages s p)"
  using default_alloc_pages_take [of n s s' r] by (simp add: take_block_reserved)

lemma blocks_around:
  assumes "blocks_ok lo hi bs" and "b \<notin> block_pages bs"
  obtains ls rs where "bs = ls @ rs" and "\<forall>x \<in> set ls. fst x < b" and "\<forall>x \<in> set rs. b < fst x"
proof -
  have "\<exists>ls rs. bs = ls @ rs \<and> (\<forall>x \<in> set ls. fst x < b) \<and> (\<forall>x \<in> set rs. b < fst x)"
    using assms
  proof (induction lo hi bs rule: blocks_ok.induct)
    case (2 lo hi c k bs)
    show ?case
    proof (cases "b < c")
      case True
      moreover have "\<forall>x \<in> set bs. c + k \<le> fst x"
        using 2 blocks_ok_bounds [of "c + k" hi bs] by auto
      ultimately show ?thesis by (intro exI [of _ "[]"] exI [of _ "(c, k) # bs"]) auto
    next
      case False
      with 2 obtain ls rs where "bs = ls @ rs" "\<forall>x \<in> set ls. fst x < b" "\<forall>x \<in> set rs. b < fst x"
        by auto
      moreover have "c \<noteq> b" using 2 by auto
      ultimately show ?thesis using False
        by (intro exI [of _ "(c, k) # ls"] exI [of _ rs]) auto
    qed
  qed auto
  with that show thesis by blast
qed

interpretation ff: pmm_manager default_alloc_pages default_free_pages default_nr_free_pages
  ff_inv allocated
proof (unfold_locales, goal_cases)
  case (1 N s bs)
  then show ?case by (rule ff_inv_blocks)
next
  case (2 N s bs)
  then show ?case by (simp add: default_nr_free_pages_def ff_inv_nr_free_card)
next
  case (3 N s bs n)
  then show ?case by (intro default_alloc_pages_None) (auto simp: ff_alloc_None)
next
  case (4 N s bs n)
  then have "ff_alloc n bs \<noteq> None" by (auto simp: ff_alloc_None not_less split_beta)
  then obtain r bs' where fit: "ff_alloc n bs = Some (r, bs')" by auto
  then obtain s' where s': "default_alloc_pages n s = Some (s', Some r)" "ff_inv N s' bs'"
    using default_alloc_pages_Some [OF 4(1,2)] by blast
  have pgs: "{r..<r + n} \<subseteq> block_pages bs" "block_pages bs' = block_pages bs - {r..<r + n}"
    using ff_alloc_pages [OF ff_inv_blocks [OF 4(1)] fit] by auto
  have "allocated N s' bs' r n"
    using alloc_owned [OF 4(1) pgs(1) 4(2) pgs(2)] default_alloc_pages_reserved [OF s'(1)] by blast
  with s' pgs show ?case by blast
next
  case (5 N s bs b n)
  have "b \<notin> block_pages bs" using allocated_disjoint [OF 5(2), of b] 5(2) by (auto simp: allocated_def)
  then obtain ls rs where bs: "bs = ls @ rs" "\<forall>x \<in> set ls. fst x < b" "\<forall>x \<in> set rs. b < fst x"
    using blocks_around [OF ff_inv_blocks [OF 5(1)]] by blast
  then have "ls = [] \<or> rs \<noteq> []" using 5(3) by fastforce
  then show ?case
    using default_free_pages_inv [of N s ls rs b n] 5(1,2) bs ff_free_pages [of b n bs] by blast
qed


subsection \<open>Releasing the highest block\<close>

text \<open>
  When the released block lies above every free block, the insertion loop leaves the entry of the
  block pointing back at itself. The merge with the block below is then never tried, and the
  next allocation that takes the block does not unlink it.
\<close>

lemma tail_free_links:
  assumes inv: "ff_inv N s bs" and al: "allocated N s bs b n" and ne: "bs \<noteq> []"
    and above: "\<forall>x \<in> set bs. fst x < b"
  shows "\<exists>l. dlist l FreeHead (nodes (bs @ [(b, n)]))
    \<and> default_free_pages b n s = Some (s\<lparr>pages := freed_pages b n (pages s),
        flinks := list_add l (PLink b) (PLink b), nr_free := nr_free s + n\<rparr>)"
proof -
  obtain ls c k where bs: "bs = ls @ [(c, k)]"
    using ne by (metis rev_exhaust surj_pair)
  have "PLink b \<notin> set (nodes ls)" "\<forall>x \<in> set ls. fst x \<le> b" "c < b"
    using above bs by auto
  with free_list_insert_tail [of "flinks s" "[]" ls c k b n] ff_inv_dlist [OF inv] bs
  obtain l where l: "free_list_insert (flinks s) FreeHead b = Some (list_add l (PLink b) (PLink b))"
    and d: "dlist l FreeHead (nodes (bs @ [(b, n)]))" by auto
  let ?l = "list_add l (PLink b) (PLink b)"
  let ?s1 = "s\<lparr>pages := freed_pages b n (pages s), flinks := ?l, nr_free := nr_free s + n\<rparr>"
  have d': "dlist l FreeHead (nodes bs @ [PLink b])" using d by simp
  have "lprev ?l (PLink b) = PLink b" "lnext ?l (PLink b) = FreeHead"
    using list_add_self [OF d'] dlist_next [OF d'] by simp_all
  moreover have "pg_property (freed_pages b n (pages s) b) = n" "0 < n"
    using al by (simp_all add: freed_pages_def allocated_def)
  ultimately have "merge_prev ?s1 b = (?s1, b)" "merge_next ?s1 b = ?s1"
    by (simp_all add: merge_prev_def merge_next_def list_prev_def list_next_def)
  moreover have "\<not> list_empty (flinks s) FreeHead"
    using dlist_empty_iff [OF ff_inv_dlist [OF inv]] ne by simp
  ultimately show ?thesis
    using default_free_pages_unfold [OF inv al, of ?l] l d by auto
qed

lemma find_fit_last:
  assumes "dlist l FreeHead (nodes (as @ bs @ [(b, n)]))"
    and "\<forall>q \<in> set (FreeHead # nodes (as @ bs)). lnext l' q = lnext l q"
    and "\<forall>(c, k) \<in> set bs. pg_property (pg c) = k \<and> k < m" and "m \<le> pg_property (pg b)"
  shows "find_fit l' pg (last (FreeHead # nodes as)) m = Some (Some b)"
  using assms
proof (induction bs arbitrary: as)
  case Nil
  have "lnext l' (last (FreeHead # nodes as)) = lnext l (last (FreeHead # nodes as))"
    using Nil.prems(2) last_in_set [of "FreeHead # nodes as"] by auto
  with Nil show ?case
    using dlist_next_last [of l FreeHead "nodes as" "[PLink b]"]
    by (simp add: find_fit.simps [of l' pg "last (FreeHead # nodes as)" m] list_next_def del: last.simps)
next
  case (Cons x bs)
  obtain c k where x: "x = (c, k)" by (cases x)
  have "lnext l' (last (FreeHead # nodes as)) = lnext l (last (FreeHead # nodes as))"
    by (rule bspec [OF Cons.prems(2)]) (use last_in_set [of "FreeHead # nodes as"] in
        \<open>simp del: last.simps, blast\<close>)
  then have "list_next l' (last (FreeHead # nodes as)) = PLink c"
    using dlist_next_last [of l FreeHead "nodes as" "nodes (x # bs @ [(b, n)])"] Cons.prems x
    by (simp add: list_next_def)
  then show ?case
    using Cons.IH [of "as @ [x]"] Cons.prems x
    by (simp add: find_fit.simps [of l' pg "last (FreeHead # nodes as)" m] last_snoc_node
        del: last.simps)
qed

text \<open>
  After such a release, two requests that only the released block can serve are both given its
  first page.
\<close>

lemma tail_free_double_alloc:
  assumes inv: "ff_inv N s bs" and al: "allocated N s bs b n" and ne: "bs \<noteq> []"
    and above: "\<forall>x \<in> set bs. fst x < b"
    and m: "0 < m" "\<forall>(c, k) \<in> set bs. k < m" "m < n" "2 * m \<le> nr_free s + n"
  shows "\<exists>s1 s2 s3. default_free_pages b n s = Some s1
    \<and> default_alloc_pages m s1 = Some (s2, Some b) \<and> default_alloc_pages m s2 = Some (s3, Some b)"
proof -
  obtain l where d: "dlist l FreeHead (nodes (bs @ [(b, n)]))"
    and s1: "default_free_pages b n s = Some (s\<lparr>pages := freed_pages b n (pages s),
        flinks := list_add l (PLink b) (PLink b), nr_free := nr_free s + n\<rparr>)" (is "_ = Some ?s1")
    using tail_free_links [OF inv al ne above] by blast
  have d': "dlist l FreeHead (nodes bs @ [PLink b])" using d by simp
  let ?l1 = "list_add l (PLink b) (PLink b)"
  have l1: "lnext ?l1 = lnext l" "lprev ?l1 (PLink b) = PLink b" "lnext ?l1 (PLink b) = FreeHead"
    using list_add_self [OF d'] dlist_next [OF d'] by simp_all
  have heads: "c \<notin> {b..<b + n}" if "(c, k) \<in> set bs" for c k
    using above that by fastforce
  have props: "\<forall>(c, k) \<in> set bs. pg_property (pages ?s1 c) = k \<and> k < m"
    using ff_inv_property [OF inv] m(2) heads by (fastforce simp: freed_pages_def)
  have pb: "pg_property (pages ?s1 b) = n" using al by (simp add: freed_pages_def allocated_def)
  have "find_fit ?l1 (pages ?s1) FreeHead m = Some (Some b)"
    using find_fit_last [of l "[]" bs b n ?l1 "pages ?s1" m] d l1 props pb m by simp
  then have a1: "default_alloc_pages m ?s1 = Some (take_block m b ?s1, Some b)"
    using m by (simp add: default_alloc_pages_def)
  let ?s2 = "take_block m b ?s1"
  let ?p = "PLink (b + m)"
  have l2: "flinks ?s2 = list_add (list_del ?l1 (PLink b)) (PLink b) ?p"
    using pb m l1 by (simp add: take_block_def Let_def list_prev_def)
  have n2: "nr_free ?s2 = nr_free s + n - m" by (simp add: take_block_def Let_def split_def)
  have p2: "pg_property (pages ?s2 q) = pg_property (pages ?s1 q)" if "q \<noteq> b + m" for q
    using that pb m by (simp add: take_block_def Let_def)
  have notin: "?p \<notin> set (nodes bs)" using above by force
  have nx2: "lnext (flinks ?s2) = (lnext l)(PLink b := ?p, ?p := FreeHead)"
    using l1 l2 by (simp add: list_del_def raw_list_del_def list_add_def list_add_after_def
        raw_list_add_def Let_def fun_eq_iff)
  have same: "lnext (flinks ?s2) q = lnext l q" if "q \<in> insert FreeHead (set (nodes bs))" for q
    using that nx2 notin above by auto
  have props2: "\<forall>(c, k) \<in> set bs. pg_property (pages ?s2 c) = k \<and> k < m"
    using props p2 above by fastforce
  have "find_fit (flinks ?s2) (pages ?s2) FreeHead m = Some (Some b)"
    using find_fit_last [of l "[]" bs b n "flinks ?s2" "pages ?s2" m] d same props2 p2 pb m by simp
  then have "default_alloc_pages m ?s2 = Some (take_block m b ?s2, Some b)"
    using m n2 by (simp add: default_alloc_pages_def)
  with s1 a1 show ?thesis by blast
qed

subsection \<open>Properties of the first-fit allocator\<close>

text \<open>A small machine for the witnesses: eight pages, the block of pages 1 and 2 free.\<close>

definition demo_area :: free_area where
  "demo_area = \<lparr>pages = (\<lambda>p. \<lparr>pg_ref = 0, pg_flags = (if p = 1 then 2 else 0),
                               pg_property = (if p = 1 then 2 else 0)\<rparr>),
     flinks = \<lparr>lnext = (\<lambda>x. if x = FreeHead then PLink 1 else FreeHead),
                lprev = (\<lambda>x. if x = FreeHead then PLink 1 else FreeHead)\<rparr>,
     nr_free = 2\<rparr>"

lemma demo_area_inv: "ff_inv 8 demo_area [(1, 2)]"
  by (rule ff_invI)
    (auto simp: demo_area_def dlist_def PageProperty_def PageReserved_def bit_iff_odd split: if_splits)

lemma demo_area_allocated:
  "allocated 8 demo_area [(1, 2)] 0 1" "allocated 8 demo_area [(1, 2)] 4 4"
  by (auto simp: allocated_def demo_area_def PageReserved_def)

text \<open>
  Boot establishes the invariant of the allocator: \<open>default_init\<close> followed by
  \<open>default_init_memmap\<close> on a range of reserved pages returns, and the free list holds exactly
  that range.
\<close>

theorem boot_establishes_invariant:
  assumes "N < 2 ^ 32" and "\<forall>p < N. \<not> PageProperty (pages s p)" and "0 < n" and "b + n \<le> N"
    and "\<forall>p \<in> {b..<b + n}. PageReserved (pages s p)"
  shows "\<exists>s'. default_init_memmap b n (default_init s) = Some s' \<and> ff_inv N s' [(b, n)]
    \<and> default_nr_free_pages s' = n"
proof -
  have "ff_inv N (default_init s) []" using default_init_inv [of N s] assms by blast
  moreover have "pages (default_init s) = pages s" by (simp add: default_init_def)
  ultimately obtain s' where "default_init_memmap b n (default_init s) = Some s'" "ff_inv N s' [(b, n)]"
    using default_init_memmap_inv [of N "default_init s" n b] assms by auto
  then show ?thesis using ff_inv_nr_free [of N s' "[(b, n)]"] by (simp add: default_nr_free_pages_def)
qed

theorem boot_establishes_invariant_witness:
  "\<exists>s'. default_init_memmap 3 5 (default_init (demo_area\<lparr>pages := \<lambda>p. \<lparr>pg_ref = 0, pg_flags = 1,
      pg_property = 0\<rparr>\<rparr>)) = Some s' \<and> ff_inv 8 s' [(3, 5)] \<and> default_nr_free_pages s' = 5"
  by (rule boot_establishes_invariant) (auto simp: PageProperty_def PageReserved_def bit_1_iff)

text \<open>
  C1. \<open>default_alloc_pages\<close> refines first fit on the list of free blocks: it always returns;
  it answers NULL and changes nothing exactly when no block is large enough, and otherwise it
  returns the base of the lowest block that fits, leaves the rest of that block free and
  re-establishes the invariant.
\<close>

theorem alloc_refines_first_fit:
  assumes "ff_inv N s bs" and "0 < n"
  shows "case ff_alloc n bs of
      None \<Rightarrow> default_alloc_pages n s = Some (s, None) \<and> (\<forall>x \<in> set bs. snd x < n)
    | Some (r, bs') \<Rightarrow> \<exists>s'. default_alloc_pages n s = Some (s', Some r) \<and> ff_inv N s' bs'
        \<and> default_nr_free_pages s' + n = default_nr_free_pages s
        \<and> (\<exists>ls k rs. bs = ls @ (r, k) # rs \<and> n \<le> k \<and> (\<forall>x \<in> set ls. snd x < n)
            \<and> bs' = ls @ (if n < k then (r + n, k - n) # rs else rs))"
proof (cases "ff_alloc n bs")
  case None
  then show ?thesis
    using default_alloc_pages_None [OF assms None] ff_alloc_None [of n bs] by auto
next
  case (Some p)
  obtain r bs' where p: "p = (r, bs')" by (cases p)
  with Some obtain s' where s': "default_alloc_pages n s = Some (s', Some r)" "ff_inv N s' bs'"
    using default_alloc_pages_Some [OF assms] by blast
  moreover from Some p obtain ls k rs where "bs = ls @ (r, k) # rs" "n \<le> k"
    "\<forall>x \<in> set ls. snd x < n" "bs' = ls @ (if n < k then (r + n, k - n) # rs else rs)"
    using ff_alloc_SomeE [of n bs r bs'] by (metis case_prod_beta')
  moreover have "default_nr_free_pages s' + n = default_nr_free_pages s"
    using ff.alloc_count [OF assms s'(1)] .
  ultimately show ?thesis using Some p by simp blast
qed

theorem alloc_refines_first_fit_witness:
  "ff_inv 8 demo_area [(1, 2)] \<and>
   (\<exists>s'. default_alloc_pages 1 demo_area = Some (s', Some 1) \<and> ff_inv 8 s' [(2, 1)])"
proof -
  have "ff_alloc 1 [(1, 2)] = Some (1, [(2, 1)])" by simp
  with alloc_refines_first_fit [OF demo_area_inv zero_less_one] demo_area_inv show ?thesis
    by (simp only: option.case prod.case) blast
qed

text \<open>
  C3. Two successive allocations never hand out a common page, whatever their sizes.
\<close>

theorem allocations_disjoint:
  assumes "ff_inv N s bs" and "0 < n" and "0 < m"
    and "default_alloc_pages n s = Some (s1, Some r1)" and "default_alloc_pages m s1 = Some (s2, Some r2)"
  shows "{r1..<r1 + n} \<inter> {r2..<r2 + m} = {} \<and> r1 + n \<le> N \<and> r2 + m \<le> N"
proof -
  obtain bs1 where bs1: "ff_inv N s1 bs1" "allocated N s1 bs1 r1 n"
    using ff.alloc_Some [OF assms(1,2,4)] by blast
  obtain bs2 where "allocated N s2 bs2 r2 m"
    using ff.alloc_Some [OF bs1(1) assms(3,5)] by blast
  with bs1 ff.alloc_twice_disjoint [OF assms] show ?thesis unfolding allocated_def by blast
qed

theorem allocations_disjoint_witness:
  "\<exists>s1 s2 r1 r2. default_alloc_pages 1 demo_area = Some (s1, Some r1)
     \<and> default_alloc_pages 1 s1 = Some (s2, Some r2) \<and> {r1..<r1 + 1} \<inter> {r2..<r2 + 1} = {}"
proof -
  have fit: "ff_alloc 1 [(1, 2)] = Some (1, [(2, 1)])" "ff_alloc 1 [(2, 1)] = Some (2, [])" by simp_all
  obtain s1 where s1: "default_alloc_pages 1 demo_area = Some (s1, Some 1)" "ff_inv 8 s1 [(2, 1)]"
    using default_alloc_pages_Some [OF demo_area_inv zero_less_one fit(1)] by blast
  then obtain s2 where s2: "default_alloc_pages 1 s1 = Some (s2, Some 2)"
    using default_alloc_pages_Some [OF s1(2) zero_less_one fit(2)] by blast
  from allocations_disjoint [OF demo_area_inv zero_less_one zero_less_one s1(1) s2] s1 s2 show ?thesis by blast
qed

text \<open>
  C2. \<open>default_free_pages\<close> refines insertion with coalescing when the free list is empty or some free
  block lies above the released pages: then it returns, joins the block with both neighbours it
  touches, and the free pages become exactly the old ones plus the released ones. A release above
  every free block of a list that has some breaks the list (C4).
\<close>

theorem free_refines_coalescing:
  assumes "ff_inv N s bs" and "allocated N s bs b n" and "bs = [] \<or> (\<exists>x \<in> set bs. b < fst x)"
  shows "\<exists>s'. default_free_pages b n s = Some s' \<and> ff_inv N s' (ff_free b n bs)
    \<and> block_pages (ff_free b n bs) = {b..<b + n} \<union> block_pages bs
    \<and> default_nr_free_pages s' = default_nr_free_pages s + n"
proof -
  have "b \<notin> block_pages bs"
    using allocated_disjoint [OF assms(2), of b] assms(2) by (auto simp: allocated_def)
  then obtain ls rs where bs: "bs = ls @ rs" "\<forall>x \<in> set ls. fst x < b" "\<forall>x \<in> set rs. b < fst x"
    using blocks_around [OF ff_inv_blocks [OF assms(1)]] by blast
  then have "ls = [] \<or> rs \<noteq> []" using assms(3) by fastforce
  then obtain s' where s': "default_free_pages b n s = Some s'" "ff_inv N s' (ff_free b n bs)"
    using default_free_pages_inv [of N s ls rs b n] assms bs by blast
  have "nr_free s' = card ({b..<b + n} \<union> block_pages bs)"
    using ff_inv_nr_free_card [OF s'(2)] by (simp add: ff_free_pages)
  also have "\<dots> = n + nr_free s"
    using assms(2) ff_inv_nr_free_card [OF assms(1)]
    by (subst card_Un_disjoint) (auto simp: allocated_def block_pages_def)
  finally show ?thesis using s' by (simp add: ff_free_pages default_nr_free_pages_def)
qed

theorem free_refines_coalescing_witness:
  "\<exists>s'. default_free_pages 0 1 demo_area = Some s' \<and> ff_inv 8 s' [(0, 3)]"
proof -
  have "ff_free 0 1 [(1, 2)] = [(0, 3)]" by simp
  moreover have "\<exists>x \<in> set [(1 :: nat, 2 :: nat)]. 0 < fst x" by simp
  ultimately show ?thesis
    using free_refines_coalescing [OF demo_area_inv demo_area_allocated(1)] by metis
qed

text \<open>
  C4. Releasing pages above every free block breaks the allocator: the insertion loop links
  the block to itself, and two requests served from it are both given its first page.
\<close>

theorem release_above_double_allocation:
  assumes "ff_inv N s bs" and "allocated N s bs b n" and "bs \<noteq> []"
    and "\<forall>x \<in> set bs. fst x < b" and "\<forall>x \<in> set bs. snd x < m"
    and "0 < m" and "m < n" and "2 * m \<le> default_nr_free_pages s + n"
  shows "\<exists>s1 s2 s3. default_free_pages b n s = Some s1
    \<and> default_alloc_pages m s1 = Some (s2, Some b) \<and> default_alloc_pages m s2 = Some (s3, Some b)"
  by (rule tail_free_double_alloc) (use assms in \<open>auto simp: default_nr_free_pages_def\<close>)

theorem release_above_double_allocation_witness:
  "\<exists>s1 s2 s3. default_free_pages 4 4 demo_area = Some s1
    \<and> default_alloc_pages 3 s1 = Some (s2, Some 4) \<and> default_alloc_pages 3 s2 = Some (s3, Some 4)"
  by (rule release_above_double_allocation [OF demo_area_inv demo_area_allocated(2)])
    (simp_all add: default_nr_free_pages_def demo_area_def)

end
