(* ===== verification/Best_Fit.thy ===== *)
theory Best_Fit
  imports Pmm_Interface
begin

section \<open>Best-fit physical page allocator: \<open>lab2/kern/mm/best_fit_pmm.c\<close>\<close>

text \<open>
  The second instance of \<open>struct pmm_manager\<close>, over the same page descriptors and free list. Its
  search loop scans the whole list and keeps the smallest block that fits; its
  \<open>init_memmap\<close> loop leaves the list after an insertion at the end.
\<close>

subsection \<open>Operations\<close>

definition best_fit_init :: "free_area \<Rightarrow> free_area" where
  "best_fit_init s = s\<lparr>flinks := list_init (flinks s) FreeHead, nr_free := 0\<rparr>"

fun best_fit_init_pages :: "nat \<Rightarrow> nat \<Rightarrow> (nat \<Rightarrow> page) \<Rightarrow> (nat \<Rightarrow> page) option" where
  "best_fit_init_pages p 0 pg = Some pg"
| "best_fit_init_pages p (Suc k) pg =
     do { kassert (PageReserved (pg p));
          best_fit_init_pages (Suc p) k
            (pg(p := (set_page_ref ((pg p)\<lparr>pg_flags := 0\<rparr>) 0)\<lparr>pg_property := 0\<rparr>)) }"

text \<open>The insertion loop of \<open>best_fit_init_memmap\<close>, with a \<open>break\<close> in both branches.\<close>

partial_function (option) best_fit_insert ::
    "lnode links \<Rightarrow> lnode \<Rightarrow> nat \<Rightarrow> lnode links option" where
  "best_fit_insert l le base =
     (case list_next l le of
        FreeHead \<Rightarrow> Some l
      | PLink page \<Rightarrow>
          if base < page then Some (list_add_before l (PLink page) (PLink base))
          else if list_next l (PLink page) = FreeHead
               then Some (list_add l (PLink page) (PLink base))
               else best_fit_insert l (PLink page) base)"

definition best_fit_init_memmap :: "nat \<Rightarrow> nat \<Rightarrow> free_area \<Rightarrow> free_area option" where
  "best_fit_init_memmap base n s =
     do { kassert (0 < n);
          pg \<leftarrow> best_fit_init_pages base n (pages s);
          let pg = pg(base := SetPageProperty ((pg base)\<lparr>pg_property := n mod 2 ^ 32\<rparr>));
          l \<leftarrow> (if list_empty (flinks s) FreeHead
                then Some (list_add (flinks s) FreeHead (PLink base))
                else best_fit_insert (flinks s) FreeHead base);
          Some (s\<lparr>pages := pg, flinks := l, nr_free := (nr_free s + n) mod 2 ^ 32\<rparr>) }"

text \<open>The search loop of \<open>best_fit_alloc_pages\<close>, with its locals \<open>min_size\<close> and \<open>page\<close>.\<close>

partial_function (option) find_best ::
    "lnode links \<Rightarrow> (nat \<Rightarrow> page) \<Rightarrow> lnode \<Rightarrow> nat \<Rightarrow> nat \<Rightarrow> nat option \<Rightarrow> nat option option" where
  "find_best l pg le n min_size page =
     (case list_next l le of
        FreeHead \<Rightarrow> Some page
      | PLink p \<Rightarrow>
          if n \<le> pg_property (pg p) \<and> pg_property (pg p) < min_size
          then find_best l pg (PLink p) n (pg_property (pg p)) (Some p)
          else find_best l pg (PLink p) n min_size page)"

definition best_fit_alloc_pages :: "nat \<Rightarrow> free_area \<Rightarrow> (free_area \<times> nat option) option" where
  "best_fit_alloc_pages n s =
     do { kassert (0 < n);
          if nr_free s < n then Some (s, None)
          else do {
            found \<leftarrow> find_best (flinks s) (pages s) FreeHead n ((nr_free s + 1) mod 2 ^ 32) None;
            (case found of
               None \<Rightarrow> Some (s, None)
             | Some page \<Rightarrow> Some (take_block n page s, Some page)) } }"

definition best_fit_free_pages :: "nat \<Rightarrow> nat \<Rightarrow> free_area \<Rightarrow> free_area option" where
  "best_fit_free_pages base n s =
     do { kassert (0 < n);
          pg \<leftarrow> clear_pages base n (pages s);
          let pg = pg(base := SetPageProperty ((pg base)\<lparr>pg_property := n mod 2 ^ 32\<rparr>));
          l \<leftarrow> (if list_empty (flinks s) FreeHead
                then Some (list_add (flinks s) FreeHead (PLink base))
                else free_list_insert (flinks s) FreeHead base);
          let s1 = s\<lparr>pages := pg, flinks := l, nr_free := (nr_free s + n) mod 2 ^ 32\<rparr>;
          let (s2, base2) = merge_prev s1 base;
          Some (merge_next s2 base2) }"

definition best_fit_nr_free_pages :: "free_area \<Rightarrow> nat" where
  "best_fit_nr_free_pages s = nr_free s"

lemma best_fit_free_pages_eq: "best_fit_free_pages = default_free_pages"
  by (intro ext) (simp only: best_fit_free_pages_def default_free_pages_def)

subsection \<open>Initialisation\<close>

lemma best_fit_insert_sorted:
  assumes "dlist l FreeHead (nodes (as @ ls @ rs))" and "ls @ rs \<noteq> []"
    and "\<forall>x \<in> set ls. fst x < b" and "\<forall>x \<in> set rs. b < fst x" and "PLink b \<notin> set (nodes as)"
  shows "\<exists>l'. best_fit_insert l (last (FreeHead # nodes as)) b = Some l'
    \<and> dlist l' FreeHead (nodes (as @ ls @ (b, n) # rs))"
  using assms
proof (induction ls arbitrary: as)
  case Nil
  then obtain r k rs' where rs: "rs = (r, k) # rs'" by (cases rs) auto
  have "list_next l (last (FreeHead # nodes as)) = PLink r"
    using dlist_next_last [of l FreeHead "nodes as" "nodes rs"] Nil rs by (simp add: list_next_def)
  moreover have "dlist (list_add_before l (PLink r) (PLink b)) FreeHead (nodes (as @ (b, n) # rs))"
    using dlist_list_add_before [of l FreeHead "nodes as" "PLink r" "nodes rs'" "PLink b"] Nil rs
    by auto
  ultimately show ?case
    using Nil rs by (simp add: best_fit_insert.simps [of l "last (FreeHead # nodes as)"] del: last.simps)
next
  case (Cons x ls)
  obtain c j where x: "x = (c, j)" by (cases x)
  have nxt: "list_next l (last (FreeHead # nodes as)) = PLink c"
    using dlist_next_last [of l FreeHead "nodes as" "nodes (x # ls @ rs)"] Cons.prems x
    by (simp add: list_next_def)
  show ?case
  proof (cases "ls @ rs = []")
    case True
    then have "list_next l (PLink c) = FreeHead"
      using dlist_next [of l FreeHead "nodes as" "PLink c" "[]"] Cons.prems x by (simp add: list_next_def)
    moreover have "dlist (list_add l (PLink c) (PLink b)) FreeHead (nodes (as @ [(c, j), (b, n)]))"
      using dlist_list_add_after [of l FreeHead "nodes as" "PLink c" "[]" "PLink b"] Cons.prems x True
      by auto
    ultimately show ?thesis
      using nxt Cons.prems x True
      by (simp add: best_fit_insert.simps [of l "last (FreeHead # nodes as)"] del: last.simps)
  next
    case False
    then have "list_next l (PLink c) \<noteq> FreeHead"
      using dlist_next [of l FreeHead "nodes as" "PLink c" "nodes (ls @ rs)"] Cons.prems x
      by (cases "ls @ rs") (auto simp: list_next_def)
    then show ?thesis
      using nxt Cons.IH [of "as @ [x]"] Cons.prems x False
      by (simp add: best_fit_insert.simps [of l "last (FreeHead # nodes as)"] last_snoc_node
          del: last.simps)
  qed
qed

subsection \<open>Allocation\<close>

fun bf_scan :: "nat \<Rightarrow> block list \<Rightarrow> nat \<Rightarrow> nat option \<Rightarrow> nat option" where
  "bf_scan n [] min_size page = page"
| "bf_scan n ((b, k) # bs) min_size page =
     (if n \<le> k \<and> k < min_size then bf_scan n bs k (Some b) else bf_scan n bs min_size page)"

lemma find_best_spec:
  assumes "dlist l FreeHead (nodes (as @ bs))" and "\<forall>(b, k) \<in> set bs. pg_property (pg b) = k"
  shows "find_best l pg (last (FreeHead # nodes as)) n ms r = Some (bf_scan n bs ms r)"
  using assms
proof (induction bs arbitrary: as ms r)
  case Nil
  then have "list_next l (last (FreeHead # nodes as)) = FreeHead"
    using dlist_next_last [of l FreeHead "nodes as" "[]"] by (simp add: list_next_def)
  then show ?case
    by (simp add: find_best.simps [of l pg "last (FreeHead # nodes as)"] del: last.simps)
next
  case (Cons x bs)
  obtain b k where x: "x = (b, k)" by (cases x)
  have "list_next l (last (FreeHead # nodes as)) = PLink b"
    using dlist_next_last [of l FreeHead "nodes as" "nodes (x # bs)"] Cons.prems x
    by (simp add: list_next_def)
  then show ?case
    using Cons.IH [of "as @ [x]"] Cons.prems x
    by (simp add: find_best.simps [of l pg "last (FreeHead # nodes as)"] last_snoc_node del: last.simps)
qed

text \<open>The scan returns the last choice made, and none of the later blocks is smaller.\<close>

lemma bf_scan_cases:
  "bf_scan n bs ms r = r \<and> (\<forall>x \<in> set bs. n \<le> snd x \<longrightarrow> ms \<le> snd x)
   \<or> (\<exists>b k. bf_scan n bs ms r = Some b \<and> (b, k) \<in> set bs \<and> n \<le> k \<and> k < ms
        \<and> (\<forall>x \<in> set bs. n \<le> snd x \<longrightarrow> k \<le> snd x))"
    (is "?none bs ms r \<or> ?some bs ms r")
proof (induction bs arbitrary: ms r)
  case (Cons x bs)
  obtain b k where x: "x = (b, k)" by (cases x)
  show ?case
  proof (cases "n \<le> k \<and> k < ms")
    case True
    then have step: "bf_scan n (x # bs) ms r = bf_scan n bs k (Some b)" using x by simp
    from Cons.IH [of k "Some b"] show ?thesis
    proof
      assume "?none bs k (Some b)"
      with step True x have "?some (x # bs) ms r" by (intro exI [of _ b] exI [of _ k]) auto
      then show ?thesis ..
    next
      assume "?some bs k (Some b)"
      then obtain c j where c: "bf_scan n bs k (Some b) = Some c" "(c, j) \<in> set bs" "n \<le> j" "j < k"
        "\<forall>x \<in> set bs. n \<le> snd x \<longrightarrow> j \<le> snd x" by blast
      with step True x have "?some (x # bs) ms r" by (intro exI [of _ c] exI [of _ j]) auto
      then show ?thesis ..
    qed
  next
    case False
    then have step: "bf_scan n (x # bs) ms r = bf_scan n bs ms r" using x by auto
    from Cons.IH [of ms r] show ?thesis
    proof
      assume "?none bs ms r"
      with step False x have "?none (x # bs) ms r" by auto
      then show ?thesis ..
    next
      assume "?some bs ms r"
      then obtain c j where c: "bf_scan n bs ms r = Some c" "(c, j) \<in> set bs" "n \<le> j" "j < ms"
        "\<forall>x \<in> set bs. n \<le> snd x \<longrightarrow> j \<le> snd x" by blast
      with step False x have "?some (x # bs) ms r" by (intro exI [of _ c] exI [of _ j]) auto
      then show ?thesis ..
    qed
  qed
qed simp

definition bf_inv :: "nat \<Rightarrow> free_area \<Rightarrow> block list \<Rightarrow> bool" where
  "bf_inv N s bs = (ff_inv N s bs \<and> N + 1 < 2 ^ 32)"

lemma best_fit_alloc_pages_spec:
  assumes inv: "bf_inv N s bs" and n: "0 < n"
  shows "(\<forall>x \<in> set bs. snd x < n) \<and> best_fit_alloc_pages n s = Some (s, None)
    \<or> (\<exists>ls r k rs. bs = ls @ (r, k) # rs \<and> n \<le> k \<and> (\<forall>x \<in> set bs. n \<le> snd x \<longrightarrow> k \<le> snd x)
        \<and> best_fit_alloc_pages n s = Some (take_block n r s, Some r))"
proof -
  have ff: "ff_inv N s bs" using inv by (simp add: bf_inv_def)
  have le: "sum_list (map snd bs) \<le> N" using blocks_ok_sum [OF ff_inv_blocks [OF ff]] by simp
  then have ms: "(nr_free s + 1) mod 2 ^ 32 = nr_free s + 1"
    using inv ff_inv_nr_free [OF ff] by (simp add: bf_inv_def)
  have found: "find_best (flinks s) (pages s) FreeHead n (nr_free s + 1) None =
      Some (bf_scan n bs (nr_free s + 1) None)"
    using find_best_spec [of "flinks s" "[]" bs "pages s" n "nr_free s + 1" None] ff
    by (simp add: ff_inv_def)
  have small: "x \<in> set bs \<Longrightarrow> snd x < nr_free s + 1" for x
    using member_le_sum_snd [of "fst x" "snd x" bs] ff_inv_nr_free [OF ff] by simp
  from bf_scan_cases [of n bs "nr_free s + 1" None] show ?thesis
  proof (elim disjE conjE exE)
    assume none: "bf_scan n bs (nr_free s + 1) None = None"
      and "\<forall>x \<in> set bs. n \<le> snd x \<longrightarrow> nr_free s + 1 \<le> snd x"
    with small have "\<forall>x \<in> set bs. snd x < n" by (meson not_less)
    moreover have "best_fit_alloc_pages n s = Some (s, None)"
      using found none ms n by (simp add: best_fit_alloc_pages_def)
    ultimately show ?thesis by blast
  next
    fix r k
    assume r: "bf_scan n bs (nr_free s + 1) None = Some r" "(r, k) \<in> set bs" "n \<le> k"
      "\<forall>x \<in> set bs. n \<le> snd x \<longrightarrow> k \<le> snd x"
    then have "\<not> nr_free s < n" using small [of "(r, k)"] by simp
    then have "best_fit_alloc_pages n s = Some (take_block n r s, Some r)"
      using found r ms n by (simp add: best_fit_alloc_pages_def)
    moreover obtain ls rs where "bs = ls @ (r, k) # rs" using r by (meson in_set_splitE)
    ultimately show ?thesis using r by blast
  qed
qed

interpretation bf: pmm_manager best_fit_alloc_pages best_fit_free_pages best_fit_nr_free_pages
  bf_inv allocated
proof (unfold_locales, goal_cases)
  case (1 N s bs)
  then show ?case unfolding bf_inv_def by (blast intro: ff_inv_blocks)
next
  case (2 N s bs)
  then show ?case unfolding bf_inv_def best_fit_nr_free_pages_def by (blast intro: ff_inv_nr_free_card)
next
  case (3 N s bs n)
  from best_fit_alloc_pages_spec [OF 3(1,2)] 3(3) show ?case by fastforce
next
  case (4 N s bs n)
  from 4(3) have "\<not> (\<forall>x \<in> set bs. snd x < n)" by fastforce
  with best_fit_alloc_pages_spec [OF 4(1,2)] obtain ls r k rs
    where bs: "bs = ls @ (r, k) # rs" and nk: "n \<le> k"
      and run: "best_fit_alloc_pages n s = Some (take_block n r s, Some r)" by blast
  let ?bs' = "ls @ (if n < k then (r + n, k - n) # rs else rs)"
  have ff: "ff_inv N s (ls @ (r, k) # rs)" using 4 bs by (simp add: bf_inv_def)
  have inv': "bf_inv N (take_block n r s) ?bs'"
    using take_block_inv [OF ff 4(2) nk] 4(1) by (simp add: bf_inv_def)
  have sub: "{r..<r + n} \<subseteq> block_pages bs" using bs nk by auto
  have pgs: "block_pages ?bs' = block_pages bs - {r..<r + n}"
    using take_rest_pages [OF ff_inv_blocks [OF ff] nk] bs by simp
  have "allocated N (take_block n r s) ?bs' r n"
    using alloc_owned [of N s bs r n ?bs'] sub pgs take_block_reserved ff bs 4(2) by blast
  with run inv' sub pgs show ?case by blast
next
  case (5 N s bs b n)
  from 5(1) have ff: "ff_inv N s bs" and N: "N + 1 < 2 ^ 32" by (simp_all add: bf_inv_def)
  from ff.free_joins [OF ff 5(2,3)] N show ?case
    by (auto simp: best_fit_free_pages_eq bf_inv_def)
qed

subsection \<open>Properties of the best-fit allocator\<close>

text \<open>
  C5. \<open>best_fit_alloc_pages\<close> takes a smallest block that is large enough: it always returns,
  answers NULL exactly when no block fits, and otherwise no other block that fits is smaller
  than the one it takes.
\<close>

theorem best_fit_takes_smallest:
  assumes "bf_inv N s bs" and "0 < n"
  shows "(\<forall>x \<in> set bs. snd x < n) \<and> best_fit_alloc_pages n s = Some (s, None)
    \<or> (\<exists>s' ls r k rs. best_fit_alloc_pages n s = Some (s', Some r) \<and> bs = ls @ (r, k) # rs \<and> n \<le> k
        \<and> (\<forall>x \<in> set bs. n \<le> snd x \<longrightarrow> k \<le> snd x)
        \<and> bf_inv N s' (ls @ (if n < k then (r + n, k - n) # rs else rs)))"
  using best_fit_alloc_pages_spec [OF assms]
proof (elim disjE conjE exE)
  fix ls r k rs
  assume *: "bs = ls @ (r, k) # rs" "n \<le> k" "\<forall>x \<in> set bs. n \<le> snd x \<longrightarrow> k \<le> snd x"
    "best_fit_alloc_pages n s = Some (take_block n r s, Some r)"
  have "bf_inv N (take_block n r s) (ls @ (if n < k then (r + n, k - n) # rs else rs))"
    using take_block_inv [of N s ls r k rs n] assms * by (simp add: bf_inv_def)
  with * show ?thesis by blast
qed blast

theorem best_fit_takes_smallest_witness:
  "bf_inv 8 demo_area [(1, 2)] \<and> (\<exists>s'. best_fit_alloc_pages 2 demo_area = Some (s', Some 1))"
proof -
  have inv: "bf_inv 8 demo_area [(1, 2)]" using demo_area_inv by (simp add: bf_inv_def)
  from best_fit_takes_smallest [OF inv, of 2] inv show ?thesis
    by (auto simp: append_eq_Cons_conv Cons_eq_append_conv)
qed

end
