(* ===== verification/Skew_Heap.thy ===== *)
theory Skew_Heap
  imports Prelude "HOL-Library.Tree"
begin

section \<open>Skew heaps: \<open>libs/skew_heap.h\<close>\<close>

text \<open>
  The priority queue of the stride scheduler, with the parent and child pointers the code
  assigns. \<open>tmerge\<close> and \<open>tremove\<close> are the same operations on binary trees; \<open>rep\<close> relates a
  pointer to the tree laid out from it, and \<open>skew_heap_merge\<close>, \<open>skew_heap_insert\<close> and
  \<open>skew_heap_remove\<close> are shown to return and to refine the operations on trees.
\<close>

subsection \<open>Data and operations\<close>

record 'a skew_heap_entry =
  sparent :: "'a \<Rightarrow> 'a option"
  sleft :: "'a \<Rightarrow> 'a option"
  sright :: "'a \<Rightarrow> 'a option"

definition skew_heap_init :: "'a skew_heap_entry \<Rightarrow> 'a \<Rightarrow> 'a skew_heap_entry" where
  "skew_heap_init h a = h\<lparr>sparent := (sparent h)(a := None), sleft := (sleft h)(a := None),
     sright := (sright h)(a := None)\<rparr>"

text \<open>The assignments both branches of the merge end with: children swapped, parent set.\<close>

definition swap_children ::
    "'a skew_heap_entry \<Rightarrow> 'a \<Rightarrow> 'a option \<Rightarrow> 'a option \<Rightarrow> 'a skew_heap_entry" where
  "swap_children h a l r =
     (let h = h\<lparr>sleft := (sleft h)(a := l), sright := (sright h)(a := r)\<rparr>
      in (case l of None \<Rightarrow> h | Some z \<Rightarrow> h\<lparr>sparent := (sparent h)(z := Some a)\<rparr>))"

partial_function (option) skew_heap_merge :: "('a \<Rightarrow> 'a \<Rightarrow> int) \<Rightarrow> 'a skew_heap_entry \<Rightarrow>
    'a option \<Rightarrow> 'a option \<Rightarrow> ('a skew_heap_entry \<times> 'a option) option" where
  "skew_heap_merge cmp h a b =
     (case a of
        None \<Rightarrow> Some (h, b)
      | Some x \<Rightarrow>
          (case b of
             None \<Rightarrow> Some (h, a)
           | Some y \<Rightarrow>
               (if cmp x y = - 1
                then Option.bind (skew_heap_merge cmp h (sright h x) b)
                  (\<lambda>res. Some (swap_children (fst res) x (snd res) (sleft h x), Some x))
                else Option.bind (skew_heap_merge cmp h a (sright h y))
                  (\<lambda>res. Some (swap_children (fst res) y (snd res) (sleft h y), Some y)))))"

definition skew_heap_insert :: "('a \<Rightarrow> 'a \<Rightarrow> int) \<Rightarrow> 'a skew_heap_entry \<Rightarrow> 'a option \<Rightarrow> 'a \<Rightarrow>
    ('a skew_heap_entry \<times> 'a option) option" where
  "skew_heap_insert cmp h a b = skew_heap_merge cmp (skew_heap_init h b) a (Some b)"

definition skew_heap_remove :: "('a \<Rightarrow> 'a \<Rightarrow> int) \<Rightarrow> 'a skew_heap_entry \<Rightarrow> 'a option \<Rightarrow> 'a \<Rightarrow>
    ('a skew_heap_entry \<times> 'a option) option" where
  "skew_heap_remove cmp h a b =
     do { let p = sparent h b;
          (h, rep) \<leftarrow> skew_heap_merge cmp h (sleft h b) (sright h b);
          let h = (case rep of None \<Rightarrow> h | Some z \<Rightarrow> h\<lparr>sparent := (sparent h)(z := p)\<rparr>);
          (case p of
             None \<Rightarrow> Some (h, rep)
           | Some q \<Rightarrow>
               Some ((if sleft h q = Some b then h\<lparr>sleft := (sleft h)(q := rep)\<rparr>
                      else h\<lparr>sright := (sright h)(q := rep)\<rparr>), a)) }"

subsection \<open>The same operations on trees\<close>

fun tmerge :: "('a \<Rightarrow> 'a \<Rightarrow> int) \<Rightarrow> 'a tree \<Rightarrow> 'a tree \<Rightarrow> 'a tree" where
  "tmerge cmp Leaf t = t"
| "tmerge cmp t Leaf = t"
| "tmerge cmp (Node l x r) (Node l' y r') =
     (if cmp x y = - 1 then Node (tmerge cmp r (Node l' y r')) x l
      else Node (tmerge cmp (Node l x r) r') y l')"

fun tremove :: "('a \<Rightarrow> 'a \<Rightarrow> int) \<Rightarrow> 'a \<Rightarrow> 'a tree \<Rightarrow> 'a tree" where
  "tremove cmp y Leaf = Leaf"
| "tremove cmp y (Node l x r) =
     (if x = y then tmerge cmp l r else Node (tremove cmp y l) x (tremove cmp y r))"

fun root :: "'a tree \<Rightarrow> 'a option" where
  "root Leaf = None"
| "root (Node l x r) = Some x"

lemma tmerge_Leaf_right [simp]: "tmerge cmp t Leaf = t"
  by (cases t) auto

lemma set_tmerge [simp]: "set_tree (tmerge cmp t u) = set_tree t \<union> set_tree u"
  by (induction cmp t u rule: tmerge.induct) auto

lemma root_in_set: "root t = Some x \<Longrightarrow> x \<in> set_tree t"
  by (cases t) auto

lemma root_eq_None [simp]: "root t = None \<longleftrightarrow> t = Leaf"
  by (cases t) auto

fun distinct_tree :: "'a tree \<Rightarrow> bool" where
  "distinct_tree Leaf = True"
| "distinct_tree (Node l x r) =
     (distinct_tree l \<and> distinct_tree r \<and> x \<notin> set_tree l \<and> x \<notin> set_tree r
      \<and> set_tree l \<inter> set_tree r = {})"

lemma distinct_tmerge:
  "distinct_tree t \<Longrightarrow> distinct_tree u \<Longrightarrow> set_tree t \<inter> set_tree u = {} \<Longrightarrow>
     distinct_tree (tmerge cmp t u)"
  by (induction cmp t u rule: tmerge.induct) auto

lemma tremove_notin: "y \<notin> set_tree t \<Longrightarrow> tremove cmp y t = t"
  by (induction t) auto

lemma set_tremove: "distinct_tree t \<Longrightarrow> set_tree (tremove cmp y t) = set_tree t - {y}"
  by (induction t) auto

lemma distinct_tremove: "distinct_tree t \<Longrightarrow> distinct_tree (tremove cmp y t)"
  by (induction t) (auto simp: distinct_tmerge set_tremove)

subsection \<open>Layout\<close>

fun rep :: "'a skew_heap_entry \<Rightarrow> 'a tree \<Rightarrow> 'a option \<Rightarrow> bool" where
  "rep h Leaf p = (p = None)"
| "rep h (Node l x r) p =
     (p = Some x \<and> rep h l (sleft h x) \<and> rep h r (sright h x)
      \<and> (\<forall>z. sleft h x = Some z \<longrightarrow> sparent h z = Some x)
      \<and> (\<forall>z. sright h x = Some z \<longrightarrow> sparent h z = Some x))"

lemma rep_root: "rep h t p \<Longrightarrow> p = root t"
  by (cases t) auto

definition same_on :: "'a set \<Rightarrow> 'a skew_heap_entry \<Rightarrow> 'a skew_heap_entry \<Rightarrow> bool" where
  "same_on S h h' = (\<forall>x \<in> S. sparent h' x = sparent h x \<and> sleft h' x = sleft h x \<and> sright h' x = sright h x)"

lemma same_onD: "same_on S h h' \<Longrightarrow> x \<in> S \<Longrightarrow>
    sparent h' x = sparent h x \<and> sleft h' x = sleft h x \<and> sright h' x = sright h x"
  by (simp add: same_on_def)

text \<open>A layout only depends on its own entries; the parent field of the root is free.\<close>

lemma rep_frame:
  assumes "rep h t p" and "\<forall>x \<in> set_tree t. sleft h' x = sleft h x \<and> sright h' x = sright h x"
    and "\<forall>x \<in> set_tree t. root t \<noteq> Some x \<longrightarrow> sparent h' x = sparent h x" and "distinct_tree t"
  shows "rep h' t p"
  using assms
proof (induction h t p rule: rep.induct)
  case (2 h l x r p)
  have par: "sparent h' z = sparent h z" if "z \<in> set_tree l \<union> set_tree r" for z
    using that "2.prems"(3,4) by auto
  have l: "rep h' l (sleft h x)" and r: "rep h' r (sright h x)"
    using "2.IH" "2.prems" par by auto
  have "sparent h' z = sparent h z" if "sleft h x = Some z \<or> sright h x = Some z" for z
  proof -
    have "z \<in> set_tree l \<union> set_tree r"
      using that "2.prems"(1) rep_root [of h l "sleft h x"] rep_root [of h r "sright h x"]
      by (auto intro: root_in_set)
    then show ?thesis by (rule par)
  qed
  with l r 2 show ?case by auto
qed simp

lemma rep_same_on: "rep h t p \<Longrightarrow> same_on (set_tree t) h h' \<Longrightarrow> distinct_tree t \<Longrightarrow> rep h' t p"
  by (rule rep_frame) (auto simp: same_on_def)

lemma swap_children_simps [simp]:
  "sleft (swap_children h a l r) = (sleft h)(a := l)"
  "sright (swap_children h a l r) = (sright h)(a := r)"
  "sparent (swap_children h a l r) = (case l of None \<Rightarrow> sparent h | Some z \<Rightarrow> (sparent h)(z := Some a))"
  by (auto simp: swap_children_def Let_def split: option.split)

text \<open>One level of the merge: the merged subtree becomes the left child, the old left the right.\<close>

lemma rep_swap_children:
  assumes m: "rep h' m (root m)" and l: "rep h' l (root l)"
    and dist: "distinct_tree (Node m x l)" and par: "\<forall>z. root l = Some z \<longrightarrow> sparent h' z = Some x"
  shows "rep (swap_children h' x (root m) (root l)) (Node m x l) (Some x)"
proof -
  let ?h = "swap_children h' x (root m) (root l)"
  have "rep ?h m (root m)"
    by (rule rep_frame [OF m]) (use dist in \<open>auto split: option.splits\<close>)
  moreover have "rep ?h l (root l)"
    by (rule rep_frame [OF l]) (use dist in \<open>auto split: option.splits dest: root_in_set\<close>)
  moreover have "sparent ?h z = Some x" if "root l = Some z" for z
    using that par dist by (auto split: option.splits dest: root_in_set)
  moreover have "sparent ?h z = Some x" if "root m = Some z" for z
    using that by simp
  ultimately show ?thesis by simp
qed

definition merged :: "'a skew_heap_entry \<Rightarrow> 'a skew_heap_entry \<Rightarrow> 'a set \<Rightarrow> 'a tree \<Rightarrow> bool" where
  "merged h h' S t = (rep h' t (root t) \<and> same_on (- S) h h'
     \<and> (\<forall>z. root t = Some z \<longrightarrow> sparent h' z = sparent h z))"

lemma merged_step:
  assumes m: "merged h h' S m" and l: "rep h l (root l)"
    and dist: "distinct_tree (Node m x l)" and sub: "set_tree m \<subseteq> S"
    and out: "x \<notin> S" "set_tree l \<inter> S = {}"
    and par: "\<forall>z. root l = Some z \<longrightarrow> sparent h z = Some x" and T: "insert x (S \<union> set_tree l) \<subseteq> T"
  shows "merged h (swap_children h' x (root m) (root l)) T (Node m x l)"
proof -
  have same: "same_on (- S) h h'" using m by (simp add: merged_def)
  have "same_on (set_tree l) h h'" using same out by (auto simp: same_on_def)
  then have l': "rep h' l (root l)" using l dist by (auto intro: rep_same_on)
  have "\<forall>z. root l = Some z \<longrightarrow> sparent h' z = Some x"
  proof (intro allI impI)
    fix z assume z: "root l = Some z"
    then have "z \<in> - S" using out root_in_set [OF z] by blast
    from same_onD [OF same this] z par show "sparent h' z = Some x" by simp
  qed
  then have "rep (swap_children h' x (root m) (root l)) (Node m x l) (Some x)"
    using m l' dist by (intro rep_swap_children) (auto simp: merged_def)
  moreover have "same_on (- T) h (swap_children h' x (root m) (root l))"
    using same T sub by (auto simp: same_on_def split: option.splits dest: root_in_set)
  moreover have "sparent (swap_children h' x (root m) (root l)) x = sparent h x"
    using same out dist by (auto simp: same_on_def split: option.splits dest: root_in_set)
  ultimately show ?thesis by (simp add: merged_def)
qed

text \<open>The merge returns, and lays out the merged tree.\<close>

lemma skew_heap_merge_refines:
  assumes "rep h t a" and "rep h u b" and "distinct_tree t" and "distinct_tree u"
    and "set_tree t \<inter> set_tree u = {}"
  shows "\<exists>h'. skew_heap_merge cmp h a b = Some (h', root (tmerge cmp t u))
    \<and> merged h h' (set_tree t \<union> set_tree u) (tmerge cmp t u)"
  using assms
proof (induction cmp t u arbitrary: a b rule: tmerge.induct)
  case (1 cmp t)
  then have "a = None" "b = root t" by (auto simp: rep_root)
  with 1 show ?case
    by (auto simp: skew_heap_merge.simps [of cmp h] merged_def same_on_def split: option.splits)
next
  case (2 cmp l x r)
  then have "b = None" "a = Some x" by auto
  with 2 show ?case
    by (auto simp: skew_heap_merge.simps [of cmp h] merged_def same_on_def)
next
  case (3 cmp l x r l' y r')
  let ?t = "Node l x r" and ?u = "Node l' y r'"
  have ab: "a = Some x" "b = Some y" using "3.prems" by auto
  show ?case
  proof (cases "cmp x y = - 1")
    case True
    have "rep h r (sright h x)" using "3.prems" by simp
    then obtain h' where h': "skew_heap_merge cmp h (sright h x) b = Some (h', root (tmerge cmp r ?u))"
      "merged h h' (set_tree r \<union> set_tree ?u) (tmerge cmp r ?u)"
    proof -
      have "distinct_tree r" "set_tree r \<inter> set_tree ?u = {}" using "3.prems"(3,5) by auto
      with "3.IH"(1) [OF True \<open>rep h r (sright h x)\<close> "3.prems"(2) _ "3.prems"(4)] that
      show thesis by blast
    qed
    have rl: "sleft h x = root l" "rep h l (root l)" using "3.prems" rep_root [of h l] by auto
    have "merged h (swap_children h' x (root (tmerge cmp r ?u)) (root l)) (set_tree ?t \<union> set_tree ?u)
        (Node (tmerge cmp r ?u) x l)"
      by (rule merged_step [OF h'(2) rl(2)])
        (use "3.prems" rl in \<open>auto simp del: tmerge.simps intro!: distinct_tmerge\<close>)
    with True h' rl ab show ?thesis by (simp add: skew_heap_merge.simps [of cmp h "Some x"])
  next
    case False
    have "rep h r' (sright h y)" using "3.prems" by simp
    then obtain h' where h': "skew_heap_merge cmp h a (sright h y) = Some (h', root (tmerge cmp ?t r'))"
      "merged h h' (set_tree ?t \<union> set_tree r') (tmerge cmp ?t r')"
    proof -
      have "distinct_tree r'" "set_tree ?t \<inter> set_tree r' = {}" using "3.prems"(4,5) by auto
      with "3.IH"(2) [OF False "3.prems"(1) \<open>rep h r' (sright h y)\<close> "3.prems"(3)] that
      show thesis by blast
    qed
    have rl: "sleft h y = root l'" "rep h l' (root l')" using "3.prems" rep_root [of h l'] by auto
    have "merged h (swap_children h' y (root (tmerge cmp ?t r')) (root l')) (set_tree ?t \<union> set_tree ?u)
        (Node (tmerge cmp ?t r') y l')"
      by (rule merged_step [OF h'(2) rl(2)])
        (use "3.prems" rl in \<open>auto simp del: tmerge.simps intro!: distinct_tmerge\<close>)
    with False h' rl ab show ?thesis by (simp add: skew_heap_merge.simps [of cmp h "Some x"])
  qed
qed

subsection \<open>The heap as a set of entries\<close>

definition heap_rep :: "'a skew_heap_entry \<Rightarrow> 'a option \<Rightarrow> 'a tree \<Rightarrow> bool" where
  "heap_rep h a t = (rep h t a \<and> distinct_tree t \<and> (\<forall>z. a = Some z \<longrightarrow> sparent h z = None))"

lemma heap_rep_empty [simp]: "heap_rep h None t \<longleftrightarrow> t = Leaf"
  by (cases t) (auto simp: heap_rep_def)

lemma heap_rep_same_on:
  assumes "heap_rep h a t" and "same_on (set_tree t) h h'"
  shows "heap_rep h' a t"
  using assms rep_same_on [of h t a h'] rep_root [of h t a] root_in_set [of t] same_onD [of "set_tree t" h h']
  by (auto simp: heap_rep_def)

lemma skew_heap_insert_refines:
  assumes rep: "heap_rep h a t" and b: "b \<notin> set_tree t"
  shows "\<exists>h'. skew_heap_insert cmp h a b = Some (h', root (tmerge cmp t (Node Leaf b Leaf)))
    \<and> heap_rep h' (root (tmerge cmp t (Node Leaf b Leaf))) (tmerge cmp t (Node Leaf b Leaf))
    \<and> same_on (- insert b (set_tree t)) h h'"
proof -
  let ?h = "skew_heap_init h b" and ?u = "Node Leaf b Leaf" and ?m = "tmerge cmp t (Node Leaf b Leaf)"
  have same: "same_on (- {b}) h ?h" by (simp add: same_on_def skew_heap_init_def)
  then have "same_on (set_tree t) h ?h" using b by (auto simp: same_on_def)
  with rep have t: "heap_rep ?h a t" by (rule heap_rep_same_on)
  have u: "rep ?h ?u (Some b)" "sparent ?h b = None" by (simp_all add: skew_heap_init_def)
  obtain h' where h': "skew_heap_merge cmp ?h a (Some b) = Some (h', root ?m)"
    "merged ?h h' (set_tree t \<union> set_tree ?u) ?m"
    using skew_heap_merge_refines [of ?h t a ?u "Some b" cmp] t u b by (auto simp: heap_rep_def)
  have "distinct_tree ?m" using rep b by (intro distinct_tmerge) (auto simp: heap_rep_def)
  moreover have "root ?m = root t \<or> root ?m = Some b" by (cases t) auto
  ultimately have "heap_rep h' (root ?m) ?m"
    using h' t u rep_root [of ?h t a] by (auto simp: heap_rep_def merged_def)
  moreover have "same_on (- insert b (set_tree t)) h h'"
    using h'(2) same by (auto simp: merged_def same_on_def)
  ultimately show ?thesis using h'(1) by (simp add: skew_heap_insert_def)
qed

text \<open>
  What the removal leaves at a subtree: the entry's parent is found by its parent pointer, and
  relinked to the merge of its children.
\<close>

definition relinked :: "'a skew_heap_entry \<Rightarrow> 'a skew_heap_entry \<Rightarrow> 'a \<Rightarrow> 'a option \<Rightarrow> 'a skew_heap_entry" where
  "relinked h h1 b q =
     (let h2 = (case q of None \<Rightarrow> h1 | Some z \<Rightarrow> h1\<lparr>sparent := (sparent h1)(z := sparent h b)\<rparr>)
      in (case sparent h b of None \<Rightarrow> h2
          | Some p \<Rightarrow> if sleft h2 p = Some b then h2\<lparr>sleft := (sleft h2)(p := q)\<rparr>
                      else h2\<lparr>sright := (sright h2)(p := q)\<rparr>))"

lemma skew_heap_remove_unfold:
  assumes "skew_heap_merge cmp h (sleft h b) (sright h b) = Some (h1, q)"
  shows "skew_heap_remove cmp h a b =
    Some (relinked h h1 b q, case sparent h b of None \<Rightarrow> q | Some p \<Rightarrow> a)"
  using assms by (auto simp: skew_heap_remove_def relinked_def Let_def split: option.splits)

lemma relinked_simps:
  "sparent (relinked h h1 b q) = (case q of None \<Rightarrow> sparent h1 | Some z \<Rightarrow> (sparent h1)(z := sparent h b))"
  "sleft (relinked h h1 b q) = (case sparent h b of None \<Rightarrow> sleft h1
     | Some p \<Rightarrow> if sleft h1 p = Some b then (sleft h1)(p := q) else sleft h1)"
  "sright (relinked h h1 b q) = (case sparent h b of None \<Rightarrow> sright h1
     | Some p \<Rightarrow> if sleft h1 p = Some b then sright h1 else (sright h1)(p := q))"
  by (auto simp: relinked_def Let_def split: option.splits)

fun children :: "'a \<Rightarrow> 'a tree \<Rightarrow> ('a tree \<times> 'a tree) option" where
  "children y Leaf = None"
| "children y (Node l x r) =
     (if x = y then Some (l, r) else case children y l of None \<Rightarrow> children y r | Some c \<Rightarrow> Some c)"

lemma children_None: "children y t = None \<longleftrightarrow> y \<notin> set_tree t"
  by (induction t) (auto split: option.splits)

lemma children_subset: "children y t = Some (c, d) \<Longrightarrow> insert y (set_tree c \<union> set_tree d) \<subseteq> set_tree t"
  by (induction t) (auto split: if_splits option.splits)

lemma children_distinct: "children y t = Some (c, d) \<Longrightarrow> distinct_tree t \<Longrightarrow> distinct_tree (Node c y d)"
  by (induction t) (auto split: if_splits option.splits)

lemma children_rep:
  assumes "children y t = Some (c, d)" and "rep h t p"
  shows "rep h c (sleft h y) \<and> rep h d (sright h y)"
  using assms by (induction t arbitrary: p) (auto split: if_splits option.splits)

lemma children_below_root:
  assumes "children y t = Some (c, d)" and "distinct_tree t" and "root t = Some z"
  shows "z \<notin> set_tree c \<union> set_tree d"
proof (cases t)
  case (Node l x r)
  with assms show ?thesis
    using children_subset [of y l c d] children_subset [of y r c d]
    by (auto split: if_splits option.splits)
qed (use assms in simp)

lemma children_root: "children y t = Some (c, d) \<Longrightarrow> root t = Some y \<Longrightarrow> t = Node c y d"
  by (cases t) auto

lemma children_parent:
  assumes "rep h t p" and "children y t = Some (c, d)" and "root t \<noteq> Some y" and "distinct_tree t"
  shows "\<exists>x. sparent h y = Some x \<and> x \<in> set_tree t \<and> x \<notin> set_tree (Node c y d)"
  using assms
proof (induction t arbitrary: p)
  case (Node l x r)
  have reps: "rep h l (sleft h x)" "rep h r (sright h x)" using Node.prems by auto
  note roots = rep_root [OF reps(1)] rep_root [OF reps(2)]
  show ?case
  proof (cases "children y l")
    case None
    then have r: "children y r = Some (c, d)" using Node.prems by auto
    show ?thesis
    proof (cases "root r = Some y")
      case True
      then have "sparent h y = Some x" "r = Node c y d"
        using Node.prems(1) roots children_root [OF r] by auto
      with Node.prems show ?thesis by auto
    next
      case False
      with Node.IH(2) [OF reps(2) r False] Node.prems show ?thesis by auto
    qed
  next
    case (Some e)
    then have l: "children y l = Some (c, d)" using Node.prems by auto
    show ?thesis
    proof (cases "root l = Some y")
      case True
      then have "sparent h y = Some x" "l = Node c y d"
        using Node.prems(1) roots children_root [OF l] by auto
      with Node.prems show ?thesis by auto
    next
      case False
      with Node.IH(1) [OF reps(1) l False] Node.prems show ?thesis by auto
    qed
  qed
qed simp

lemma relinked_frame:
  assumes m: "merged h h1 (set_tree m) m" and z: "z \<notin> set_tree m"
  shows "sparent (relinked h h1 y (root m)) z = sparent h z"
    and "sparent h y \<noteq> Some z \<Longrightarrow> sleft (relinked h h1 y (root m)) z = sleft h z
      \<and> sright (relinked h h1 y (root m)) z = sright h z"
    and "sparent h y = Some z \<Longrightarrow> sleft (relinked h h1 y (root m)) z =
        (if sleft h z = Some y then root m else sleft h z)
      \<and> sright (relinked h h1 y (root m)) z = (if sleft h z = Some y then sright h z else root m)"
  using assms root_in_set [of m]
  by (auto simp: relinked_simps merged_def same_on_def split: option.splits)

lemma relinked_subtree:
  assumes m: "merged h h1 (set_tree m) m" and "distinct_tree m"
    and out: "\<forall>p. sparent h y = Some p \<longrightarrow> p \<notin> set_tree m"
  shows "rep (relinked h h1 y (root m)) m (root m)"
    and "root m = Some z \<Longrightarrow> sparent (relinked h h1 y (root m)) z = sparent h y"
proof -
  have "rep h1 m (root m)" using m by (simp add: merged_def)
  then show "rep (relinked h h1 y (root m)) m (root m)"
    by (rule rep_frame) (use assms in \<open>auto simp: relinked_simps split: option.splits\<close>)
qed (simp add: relinked_simps)

text \<open>A sibling subtree that holds neither the entry, its children nor its parent keeps its layout.\<close>

lemma relinked_other:
  assumes t: "rep h t p" and "distinct_tree t" and m: "merged h h1 (set_tree m) m"
    and out: "set_tree t \<inter> set_tree m = {}" and par: "\<forall>x. sparent h y = Some x \<longrightarrow> x \<notin> set_tree t"
  shows "rep (relinked h h1 y (root m)) t p"
proof (rule rep_frame [OF t _ _ assms(2)])
  show "\<forall>x \<in> set_tree t. sleft (relinked h h1 y (root m)) x = sleft h x
      \<and> sright (relinked h h1 y (root m)) x = sright h x"
    using relinked_frame(2) [OF m] out par by blast
  show "\<forall>x \<in> set_tree t. root t \<noteq> Some x \<longrightarrow> sparent (relinked h h1 y (root m)) x = sparent h x"
    using relinked_frame(1) [OF m] out by blast
qed

lemma relinked_tremove:
  assumes m: "merged h h1 (set_tree m) m" and dm: "distinct_tree m"
    and md: "m = tmerge cmp c d"
    and "rep h t p" and "distinct_tree t" and "children y t = Some (c, d)" and "root t \<noteq> Some y"
  shows "rep (relinked h h1 y (root m)) (tremove cmp y t) p"
  using assms(4-)
proof (induction t arbitrary: p)
  case (Node l x r)
  let ?h = "relinked h h1 y (root m)"
  note fr = relinked_frame [OF m, where y = y]
  have setm: "set_tree m = set_tree c \<union> set_tree d" using md by simp
  have reps: "rep h l (sleft h x)" "rep h r (sright h x)" and p: "p = Some x"
    and pars: "\<forall>z. sleft h x = Some z \<longrightarrow> sparent h z = Some x"
      "\<forall>z. sright h x = Some z \<longrightarrow> sparent h z = Some x" and xy: "x \<noteq> y"
    using Node.prems by auto
  have dist: "distinct_tree l" "distinct_tree r" "x \<notin> set_tree l" "x \<notin> set_tree r"
    "set_tree l \<inter> set_tree r = {}" using Node.prems(2) by auto
  have roots: "sleft h x = root l" "sright h x = root r" using rep_root [OF reps(1)] rep_root [OF reps(2)] by auto
  consider "children y l = Some (c, d)" | "children y l = None" "children y r = Some (c, d)"
    using Node.prems(3) xy by (auto split: option.splits)
  then show ?case
  proof cases
    case 1
    have sub: "set_tree m \<subseteq> set_tree l" "y \<in> set_tree l" using children_subset [OF 1] setm by auto
    then have other: "set_tree r \<inter> set_tree m = {}" "x \<notin> set_tree m" using dist by auto
    have r': "tremove cmp y r = r" using sub dist by (intro tremove_notin) auto
    have parr: "\<forall>z. root r = Some z \<longrightarrow> sparent ?h z = Some x"
      using fr(1) pars(2) roots other(1) root_in_set [of r] by (metis disjoint_iff)
    show ?thesis
    proof (cases "root l = Some y")
      case True
      then have ln: "l = Node c y d" and px: "sparent h y = Some x"
        using children_root [OF 1] pars roots by auto
      then have "sleft ?h x = root m" "sright ?h x = root r" using fr(3) [OF other(2) px] roots True by auto
      moreover have "rep ?h r (root r)" "rep ?h m (root m)"
        using relinked_other [OF reps(2) dist(2) m other(1), of y] relinked_subtree(1) [OF m dm, of y]
          px dist other roots by auto
      moreover have "\<forall>z. root m = Some z \<longrightarrow> sparent ?h z = Some x"
        using relinked_subtree(2) [OF m dm, of y] px other by auto
      ultimately show ?thesis using r' ln md xy p parr by simp
    next
      case False
      then obtain q where q: "sparent h y = Some q" "q \<in> set_tree l"
        using children_parent [OF reps(1) 1] dist by blast
      then have qx: "q \<noteq> x" "q \<notin> set_tree r" using dist by auto
      then have "sleft ?h x = root l" "sright ?h x = root r" using fr(2) [OF other(2)] q roots by auto
      moreover have "rep ?h r (root r)" using relinked_other [OF reps(2) dist(2) m other(1), of y] q qx roots by auto
      moreover have "rep ?h (tremove cmp y l) (root l)" using Node.IH(1) [OF reps(1) dist(1) 1 False] roots by simp
      moreover have "\<forall>z. root l = Some z \<longrightarrow> sparent ?h z = Some x"
        using fr(1) pars(1) roots children_below_root [OF 1 dist(1)] setm by auto
      ultimately show ?thesis using r' xy p parr by simp
    qed
  next
    case 2
    have sub: "set_tree m \<subseteq> set_tree r" "y \<in> set_tree r" using children_subset [OF 2(2)] setm by auto
    then have other: "set_tree l \<inter> set_tree m = {}" "x \<notin> set_tree m" using dist by auto
    have yl: "y \<notin> set_tree l" using sub dist by auto
    then have l': "tremove cmp y l = l" by (rule tremove_notin)
    have parl: "\<forall>z. root l = Some z \<longrightarrow> sparent ?h z = Some x"
      using fr(1) pars(1) roots other(1) root_in_set [of l] by (metis disjoint_iff)
    show ?thesis
    proof (cases "root r = Some y")
      case True
      then have rn: "r = Node c y d" and px: "sparent h y = Some x"
        using children_root [OF 2(2)] pars roots by auto
      have "sleft h x \<noteq> Some y" using roots(1) yl root_in_set [of l] by auto
      then have "sleft ?h x = root l" "sright ?h x = root m" using fr(3) [OF other(2) px] roots by auto
      moreover have "rep ?h l (root l)" "rep ?h m (root m)"
        using relinked_other [OF reps(1) dist(1) m other(1), of y] relinked_subtree(1) [OF m dm, of y]
          px dist other roots by auto
      moreover have "\<forall>z. root m = Some z \<longrightarrow> sparent ?h z = Some x"
        using relinked_subtree(2) [OF m dm, of y] px other by auto
      ultimately show ?thesis using l' rn md xy p parl by simp
    next
      case False
      then obtain q where q: "sparent h y = Some q" "q \<in> set_tree r"
        using children_parent [OF reps(2) 2(2)] dist by blast
      then have qx: "q \<noteq> x" "q \<notin> set_tree l" using dist by auto
      then have "sleft ?h x = root l" "sright ?h x = root r" using fr(2) [OF other(2)] q roots by auto
      moreover have "rep ?h l (root l)" using relinked_other [OF reps(1) dist(1) m other(1), of y] q qx roots by auto
      moreover have "rep ?h (tremove cmp y r) (root r)" using Node.IH(2) [OF reps(2) dist(2) 2(2) False] roots by simp
      moreover have "\<forall>z. root r = Some z \<longrightarrow> sparent ?h z = Some x"
        using fr(1) pars(2) roots children_below_root [OF 2(2) dist(2)] setm by auto
      ultimately show ?thesis using l' xy p parl by simp
    qed
  qed
qed simp

lemma root_tremove: "root t \<noteq> Some y \<Longrightarrow> root (tremove cmp y t) = root t"
  by (cases t) auto

text \<open>Removing any entry of the heap returns, and leaves the layout of the tree without it.\<close>

lemma skew_heap_remove_refines:
  assumes rep: "heap_rep h a t" and y: "y \<in> set_tree t"
  shows "\<exists>h'. skew_heap_remove cmp h a y = Some (h', root (tremove cmp y t))
    \<and> heap_rep h' (root (tremove cmp y t)) (tremove cmp y t)
    \<and> same_on (- set_tree t) h h'"
proof -
  obtain c d where cd: "children y t = Some (c, d)" using y children_None [of y t] by (cases "children y t") auto
  have t: "rep h t a" "distinct_tree t" using rep by (simp_all add: heap_rep_def)
  have a: "a = root t" using rep_root [OF t(1)] .
  have dcd: "distinct_tree (Node c y d)" using children_distinct [OF cd t(2)] .
  let ?m = "tmerge cmp c d"
  obtain h1 where h1: "skew_heap_merge cmp h (sleft h y) (sright h y) = Some (h1, root ?m)"
    "merged h h1 (set_tree ?m) ?m"
    using skew_heap_merge_refines [of h c "sleft h y" d "sright h y" cmp] children_rep [OF cd t(1)] dcd by auto
  have dm: "distinct_tree ?m" using dcd by (intro distinct_tmerge) auto
  have sub: "set_tree ?m \<subseteq> set_tree t" using children_subset [OF cd] by auto
  let ?h = "relinked h h1 y (root ?m)"
  have run: "skew_heap_remove cmp h a y = Some (?h, case sparent h y of None \<Rightarrow> root ?m | Some p \<Rightarrow> a)"
    using skew_heap_remove_unfold [OF h1(1)] .
  show ?thesis
  proof (cases "root t = Some y")
    case True
    then have tn: "t = Node c y d" and par: "sparent h y = None"
      using children_root [OF cd] rep a by (auto simp: heap_rep_def)
    have "heap_rep ?h (root ?m) ?m"
      using relinked_subtree [OF h1(2) dm, of y] par dm by (simp add: heap_rep_def)
    moreover have "same_on (- set_tree t) h ?h"
      using relinked_frame(1,2) [OF h1(2), where y = y] par sub by (auto simp: same_on_def)
    ultimately show ?thesis using run par tn by simp
  next
    case False
    then obtain q where q: "sparent h y = Some q" "q \<in> set_tree t"
      using children_parent [OF t(1) cd _ t(2)] by blast
    have "rep ?h (tremove cmp y t) a" using relinked_tremove [OF h1(2) dm refl t cd False] .
    moreover have "\<forall>z. a = Some z \<longrightarrow> sparent ?h z = None"
      using relinked_frame(1) [OF h1(2)] children_below_root [OF cd t(2)] rep a by (auto simp: heap_rep_def)
    moreover have "same_on (- set_tree t) h ?h"
      using relinked_frame(1,2) [OF h1(2), where y = y] q sub by (auto simp: same_on_def)
    ultimately show ?thesis
      using run q a root_tremove [OF False] distinct_tremove [OF t(2)] by (simp add: heap_rep_def)
  qed
qed

subsection \<open>Heap order\<close>

text \<open>The order the heap keeps when the comparison decides a key.\<close>

fun kheap :: "('a \<Rightarrow> nat) \<Rightarrow> 'a tree \<Rightarrow> bool" where
  "kheap key Leaf = True"
| "kheap key (Node l x r) =
     (kheap key l \<and> kheap key r \<and> (\<forall>y \<in> set_tree l \<union> set_tree r. key x \<le> key y))"

lemma kheap_tmerge:
  assumes "kheap key t" and "kheap key u"
    and "\<forall>x \<in> set_tree t. \<forall>y \<in> set_tree u. cmp x y = - 1 \<longleftrightarrow> key x < key y"
  shows "kheap key (tmerge cmp t u)"
  using assms
proof (induction cmp t u rule: tmerge.induct)
  case (3 cmp l x r l' y r')
  show ?case
  proof (cases "cmp x y = - 1")
    case True
    then have "key x < key y" using "3.prems" by auto
    then have "\<forall>z \<in> set_tree (Node l' y r'). key x \<le> key z"
      using "3.prems"(2) by (auto intro: less_imp_le order_trans)
    moreover have "kheap key (tmerge cmp r (Node l' y r'))" using "3.IH"(1) [OF True] "3.prems" by auto
    ultimately show ?thesis using True "3.prems"(1) by auto
  next
    case False
    then have "key y \<le> key x" using "3.prems" by auto
    then have "\<forall>z \<in> set_tree (Node l x r). key y \<le> key z"
      using "3.prems"(1) by (auto intro: order_trans)
    moreover have "kheap key (tmerge cmp (Node l x r) r')" using "3.IH"(2) [OF False] "3.prems" by auto
    ultimately show ?thesis using False "3.prems"(2) by auto
  qed
qed auto

lemma kheap_root: "kheap key t \<Longrightarrow> root t = Some x \<Longrightarrow> y \<in> set_tree t \<Longrightarrow> key x \<le> key y"
  by (cases t) auto

lemma kheap_cong: "(\<And>x. x \<in> set_tree t \<Longrightarrow> key x = key' x) \<Longrightarrow> kheap key t = kheap key' t"
  by (induction t) auto

end
