(* ===== verification/Proc_State.thy ===== *)
theory Proc_State
  imports List_H Skew_Heap
begin

section \<open>Process descriptors and the run queue: \<open>kern/process/proc.h\<close>, \<open>kern/schedule/sched.h\<close>\<close>

text \<open>
  The state the scheduler, the synchronisation primitives and the process manager share.
  Process descriptors are addressed by numbers (the addresses of the \<open>proc_struct\<close> objects);
  a null pointer is \<open>None\<close>. The linked-list entries embedded in descriptors are kept beside
  them, in the component that owns the list.
\<close>

datatype proc_state = PROC_UNINIT | PROC_SLEEPING | PROC_RUNNABLE | PROC_ZOMBIE

type_synonym paddr = nat

text \<open>The register file \<open>gpr\<close> is indexed by register number: \<open>sp\<close> is 2, \<open>s0\<close> 8, \<open>s1\<close> 9, \<open>a0\<close> 10.\<close>

record trapframe =
  tf_gpr :: "nat \<Rightarrow> u64"
  tf_status :: u64
  tf_epc :: u64
  tf_tval :: u64
  tf_cause :: u64

record proc_context =
  ctx_ra :: u64
  ctx_sp :: u64
  ctx_s :: "nat \<Rightarrow> u64"

record proc_struct =
  p_state :: proc_state
  p_pid :: int
  p_runs :: nat
  p_kstack :: nat
  p_need_resched :: bool
  p_parent :: "paddr option"
  p_mm :: "nat option"
  p_context :: proc_context
  p_tf :: "trapframe option"
  p_cr3 :: u64
  p_flags :: u32
  p_name :: string
  p_exit_code :: int
  p_wait_state :: u32
  p_cptr :: "paddr option"
  p_yptr :: "paddr option"
  p_optr :: "paddr option"
  p_rq :: bool
  p_time_slice :: int
  p_lab6_stride :: u32
  p_lab6_priority :: u32
  p_filesp :: "nat option"

abbreviation (input) PF_EXITING :: u32 where "PF_EXITING \<equiv> 0x00000001"
abbreviation (input) WT_INTERRUPTED :: u32 where "WT_INTERRUPTED \<equiv> 0x80000000"
abbreviation (input) WT_CHILD :: u32 where "WT_CHILD \<equiv> 0x80000001"
abbreviation (input) WT_KSEM :: u32 where "WT_KSEM \<equiv> 0x00000100"
abbreviation (input) WT_TIMER :: u32 where "WT_TIMER \<equiv> 0x80000002"
abbreviation (input) WT_KBD :: u32 where "WT_KBD \<equiv> 0x80000004"

text \<open>The list entries of the run queue: its header, and the \<open>run_link\<close> of each process.\<close>

datatype rlnode = RunHead | RunLink paddr

record run_queue =
  run_links :: "rlnode links"
  proc_num :: u32
  max_time_slice :: int
  lab6_run_pool :: "paddr option"
  run_pool :: "paddr skew_heap_entry"

record sched_state =
  procs :: "paddr \<Rightarrow> proc_struct"
  rq :: run_queue
  current :: paddr
  idleproc :: paddr
  initproc :: paddr

text \<open>Assigning a field of a process descriptor.\<close>

definition upd_proc :: "paddr \<Rightarrow> (proc_struct \<Rightarrow> proc_struct) \<Rightarrow> 'a sched_state_scheme \<Rightarrow> 'a sched_state_scheme" where
  "upd_proc p f s = s\<lparr>procs := (procs s)(p := f (procs s p))\<rparr>"

lemma upd_proc_simps [simp]:
  "procs (upd_proc p f s) q = (if q = p then f (procs s p) else procs s q)"
  "rq (upd_proc p f s) = rq s" "current (upd_proc p f s) = current s"
  "idleproc (upd_proc p f s) = idleproc s" "initproc (upd_proc p f s) = initproc s"
  "sched_state.more (upd_proc p f s) = sched_state.more s"
  by (simp_all add: upd_proc_def)

lemma sched_update_commute [simp]:
  "procs (s\<lparr>rq := q\<rparr>) = procs s" "rq (s\<lparr>procs := m\<rparr>) = rq s"
  "current (s\<lparr>rq := q\<rparr>) = current s" "idleproc (s\<lparr>rq := q\<rparr>) = idleproc s"
  by simp_all

subsection \<open>The scheduling class\<close>

text \<open>
  \<open>struct sched_class\<close>: the operations of a scheduling policy. The run queue argument of the
  source is the field \<open>rq\<close> of the state.
\<close>

record 's sched_class =
  sc_init :: "'s \<Rightarrow> 's"
  sc_enqueue :: "paddr \<Rightarrow> 's \<Rightarrow> 's option"
  sc_dequeue :: "paddr \<Rightarrow> 's \<Rightarrow> 's option"
  sc_pick_next :: "'s \<Rightarrow> ('s \<times> paddr option) option"
  sc_proc_tick :: "paddr \<Rightarrow> 's \<Rightarrow> 's"

text \<open>
  What one operation of a policy may change: descriptors only in the fields the policy owns, and
  the run queue.
\<close>

definition sched_eq :: "proc_struct \<Rightarrow> proc_struct \<Rightarrow> bool" where
  "sched_eq p q = (p = q\<lparr>p_need_resched := p_need_resched p, p_rq := p_rq p,
     p_time_slice := p_time_slice p, p_lab6_stride := p_lab6_stride p\<rparr>)"

lemma sched_eq_refl [simp]: "sched_eq p p"
  by (simp add: sched_eq_def)

lemma sched_eqD:
  assumes "sched_eq p q"
  shows "p_state p = p_state q" "p_wait_state p = p_wait_state q" "p_pid p = p_pid q"
    "p_parent p = p_parent q" "p_mm p = p_mm q" "p_flags p = p_flags q"
    "p_lab6_priority p = p_lab6_priority q" "p_exit_code p = p_exit_code q"
    "p_cptr p = p_cptr q" "p_yptr p = p_yptr q" "p_optr p = p_optr q" "p_filesp p = p_filesp q"
    "p_runs p = p_runs q"
proof -
  obtain x where x: "x = q\<lparr>p_need_resched := p_need_resched p, p_rq := p_rq p,
     p_time_slice := p_time_slice p, p_lab6_stride := p_lab6_stride p\<rparr>" "p = x"
    using assms by (simp add: sched_eq_def)
  show "p_state p = p_state q" "p_wait_state p = p_wait_state q" "p_pid p = p_pid q"
    "p_parent p = p_parent q" "p_mm p = p_mm q" "p_flags p = p_flags q"
    "p_lab6_priority p = p_lab6_priority q" "p_exit_code p = p_exit_code q"
    "p_cptr p = p_cptr q" "p_yptr p = p_yptr q" "p_optr p = p_optr q" "p_filesp p = p_filesp q"
    "p_runs p = p_runs q"
    unfolding x(2) unfolding x(1) by simp_all
qed

lemma sched_eq_trans: "sched_eq p q \<Longrightarrow> sched_eq q r \<Longrightarrow> sched_eq p r"
  by (cases p, cases q, cases r) (auto simp: sched_eq_def)

text \<open>The fields that neither the scheduler nor the wake-up and switch operations touch.\<close>

definition stable :: "proc_struct \<Rightarrow> proc_struct \<Rightarrow> bool" where
  "stable p q = (p_pid p = p_pid q \<and> p_kstack p = p_kstack q \<and> p_parent p = p_parent q \<and> p_mm p = p_mm q
     \<and> p_context p = p_context q \<and> p_tf p = p_tf q \<and> p_cr3 p = p_cr3 q \<and> p_flags p = p_flags q
     \<and> p_name p = p_name q \<and> p_exit_code p = p_exit_code q \<and> p_cptr p = p_cptr q \<and> p_yptr p = p_yptr q
     \<and> p_optr p = p_optr q \<and> p_lab6_priority p = p_lab6_priority q \<and> p_filesp p = p_filesp q)"

lemma stable_refl [simp]: "stable p p"
  by (simp add: stable_def)

lemma stable_trans: "stable p q \<Longrightarrow> stable q r \<Longrightarrow> stable p r"
  by (simp add: stable_def)

lemma sched_eq_stable: "sched_eq p q \<Longrightarrow> stable p q"
  by (cases p, cases q) (simp add: sched_eq_def stable_def)

definition only_sched :: "'a sched_state_scheme \<Rightarrow> 'a sched_state_scheme \<Rightarrow> bool" where
  "only_sched s s' = (current s' = current s \<and> idleproc s' = idleproc s \<and> initproc s' = initproc s
     \<and> sched_state.more s' = sched_state.more s \<and> (\<forall>p. sched_eq (procs s' p) (procs s p)))"

lemma only_sched_refl [simp]: "only_sched s s"
  by (simp add: only_sched_def)

lemma only_sched_trans: "only_sched s t \<Longrightarrow> only_sched t u \<Longrightarrow> only_sched s u"
  by (auto simp: only_sched_def intro: sched_eq_trans)

text \<open>
  \<open>alloc_proc\<close> initialises the list and heap entries embedded in a new descriptor.
\<close>

definition init_entry :: "paddr \<Rightarrow> 'a sched_state_scheme \<Rightarrow> 'a sched_state_scheme" where
  "init_entry p s = s\<lparr>rq := (rq s)\<lparr>run_links := list_init (run_links (rq s)) (RunLink p),
     run_pool := skew_heap_init (run_pool (rq s)) p\<rparr>\<rparr>"

lemma dlist_init_other:
  "x \<notin> insert h (set xs) \<Longrightarrow> dlist (list_init l x) h xs = dlist l h xs"
  by (rule dlist_frame) (auto simp: list_init_def Let_def)

locale sched_policy =
  fixes cls :: "'a sched_state_scheme sched_class"
    and inv :: "'a sched_state_scheme \<Rightarrow> paddr set \<Rightarrow> bool"
  assumes enqueue_ok: "inv s Q \<Longrightarrow> p \<notin> Q \<Longrightarrow>
      \<exists>s'. sc_enqueue cls p s = Some s' \<and> inv s' (insert p Q) \<and> only_sched s s'"
    and pick_empty: "inv s {} \<Longrightarrow> sc_pick_next cls s = Some (s, None)"
    and pick_dequeue: "inv s Q \<Longrightarrow> Q \<noteq> {} \<Longrightarrow>
      \<exists>p \<in> Q. \<exists>s' s''. sc_pick_next cls s = Some (s', Some p) \<and> sc_dequeue cls p s' = Some s''
        \<and> inv s'' (Q - {p}) \<and> only_sched s s''"
    and tick_ok: "inv s Q \<Longrightarrow> inv (sc_proc_tick cls p s) Q \<and> only_sched s (sc_proc_tick cls p s)"
    and inv_procs: "inv s Q \<Longrightarrow> rq s' = rq s \<Longrightarrow> \<forall>p \<in> Q. p_rq (procs s' p) = p_rq (procs s p) \<Longrightarrow> inv s' Q"
    and inv_init_entry: "inv s Q \<Longrightarrow> p \<notin> Q \<Longrightarrow> inv (init_entry p s) Q"
    and inv_finite: "inv s Q \<Longrightarrow> finite Q"

end
