(* ===== verification/Stride.thy ===== *)
theory Stride
  imports Proc_State
begin

section \<open>Stride scheduling: \<open>kern/schedule/default_sched_stride.c\<close>\<close>

text \<open>
  The scheduling class of the kernel: a skew heap ordered by the 32-bit strides of the
  processes, compared by the sign of their difference, beside the list \<open>run_list\<close>.
\<close>

subsection \<open>Operations\<close>

abbreviation (input) BIG_STRIDE :: nat where "BIG_STRIDE \<equiv> 100000"

definition proc_stride_comp_f :: "(paddr \<Rightarrow> proc_struct) \<Rightarrow> paddr \<Rightarrow> paddr \<Rightarrow> int" where
  "proc_stride_comp_f pr p q =
     (let c = sint (p_lab6_stride (pr p) - p_lab6_stride (pr q))
      in if c > 0 then 1 else if c = 0 then 0 else - 1)"

definition stride_init :: "'a sched_state_scheme \<Rightarrow> 'a sched_state_scheme" where
  "stride_init s = s\<lparr>rq := (rq s)\<lparr>run_links := list_init (run_links (rq s)) RunHead,
     lab6_run_pool := None, proc_num := 0\<rparr>\<rparr>"

definition stride_enqueue :: "paddr \<Rightarrow> 'a sched_state_scheme \<Rightarrow> 'a sched_state_scheme option" where
  "stride_enqueue proc s =
     do { (pool, root) \<leftarrow> skew_heap_insert (proc_stride_comp_f (procs s)) (run_pool (rq s))
            (lab6_run_pool (rq s)) proc;
          let s = s\<lparr>rq := (rq s)\<lparr>run_pool := pool, lab6_run_pool := root,
            run_links := list_add_before (run_links (rq s)) RunHead (RunLink proc)\<rparr>\<rparr>;
          let s = (if p_time_slice (procs s proc) = 0
                      \<or> p_time_slice (procs s proc) > max_time_slice (rq s)
                   then upd_proc proc (\<lambda>p. p\<lparr>p_time_slice := max_time_slice (rq s)\<rparr>) s else s);
          let s = upd_proc proc (\<lambda>p. p\<lparr>p_rq := True\<rparr>) s;
          Some (s\<lparr>rq := (rq s)\<lparr>proc_num := proc_num (rq s) + 1\<rparr>\<rparr>) }"

definition stride_dequeue :: "paddr \<Rightarrow> 'a sched_state_scheme \<Rightarrow> 'a sched_state_scheme option" where
  "stride_dequeue proc s =
     do { (pool, root) \<leftarrow> skew_heap_remove (proc_stride_comp_f (procs s)) (run_pool (rq s))
            (lab6_run_pool (rq s)) proc;
          Some (s\<lparr>rq := (rq s)\<lparr>run_pool := pool, lab6_run_pool := root,
            run_links := list_del_init (run_links (rq s)) (RunLink proc),
            proc_num := proc_num (rq s) - 1\<rparr>\<rparr>) }"

text \<open>Unsigned 32-bit division as the processor computes it: dividing by zero gives all ones.\<close>

definition divuw :: "u32 \<Rightarrow> u32 \<Rightarrow> u32" where
  "divuw a b = (if b = 0 then - 1 else a div b)"

definition stride_pick_next :: "'a sched_state_scheme \<Rightarrow> ('a sched_state_scheme \<times> paddr option) option" where
  "stride_pick_next s =
     (case lab6_run_pool (rq s) of
        None \<Rightarrow> Some (s, None)
      | Some proc \<Rightarrow>
          Some (upd_proc proc (\<lambda>p. p\<lparr>p_lab6_stride :=
                  p_lab6_stride p + divuw (of_nat BIG_STRIDE) (p_lab6_priority p)\<rparr>) s, Some proc))"

definition stride_proc_tick :: "paddr \<Rightarrow> 'a sched_state_scheme \<Rightarrow> 'a sched_state_scheme" where
  "stride_proc_tick proc s =
     (let s = (if p_time_slice (procs s proc) > 0
               then upd_proc proc (\<lambda>p. p\<lparr>p_time_slice := p_time_slice p - 1\<rparr>) s else s)
      in if p_time_slice (procs s proc) = 0
         then upd_proc proc (\<lambda>p. p\<lparr>p_need_resched := True\<rparr>) s else s)"

definition stride_sched_class :: "'a sched_state_scheme sched_class" where
  "stride_sched_class = \<lparr>sc_init = stride_init, sc_enqueue = stride_enqueue,
     sc_dequeue = stride_dequeue, sc_pick_next = stride_pick_next, sc_proc_tick = stride_proc_tick\<rparr>"

subsection \<open>The shape of the queue\<close>

definition stride_rep :: "'a sched_state_scheme \<Rightarrow> paddr tree \<Rightarrow> bool" where
  "stride_rep s t =
     (heap_rep (run_pool (rq s)) (lab6_run_pool (rq s)) t
      \<and> (\<exists>xs. dlist (run_links (rq s)) RunHead (map RunLink xs) \<and> set xs = set_tree t)
      \<and> proc_num (rq s) = of_nat (card (set_tree t)))"

definition stride_inv :: "'a sched_state_scheme \<Rightarrow> paddr set \<Rightarrow> bool" where
  "stride_inv s Q = (\<exists>t. stride_rep s t \<and> set_tree t = Q)"

lemma stride_repI:
  assumes "heap_rep (run_pool (rq s)) (lab6_run_pool (rq s)) t"
    and "dlist (run_links (rq s)) RunHead (map RunLink xs)" and "set xs = set_tree t"
    and "proc_num (rq s) = of_nat (card (set_tree t))"
  shows "stride_rep s t"
  using assms by (auto simp: stride_rep_def)

lemma stride_rep_init: "stride_rep (stride_init s) Leaf"
  by (auto simp: stride_rep_def stride_init_def heap_rep_def dlist_list_init)

lemma stride_rep_cong: "rq s' = rq s \<Longrightarrow> stride_rep s' t = stride_rep s t"
  by (simp add: stride_rep_def)

lemma stride_rep_enqueue:
  assumes rep: "stride_rep s t" and p: "p \<notin> set_tree t"
  shows "\<exists>s'. stride_enqueue p s = Some s'
    \<and> stride_rep s' (tmerge (proc_stride_comp_f (procs s)) t (Node Leaf p Leaf)) \<and> only_sched s s'
    \<and> (\<forall>q. p_lab6_stride (procs s' q) = p_lab6_stride (procs s q))"
proof -
  let ?t = "tmerge (proc_stride_comp_f (procs s)) t (Node Leaf p Leaf)"
  obtain xs where xs: "dlist (run_links (rq s)) RunHead (map RunLink xs)" "set xs = set_tree t"
    using rep by (auto simp: stride_rep_def)
  obtain h where h: "skew_heap_insert (proc_stride_comp_f (procs s)) (run_pool (rq s))
      (lab6_run_pool (rq s)) p = Some (h, root ?t)" "heap_rep h (root ?t) ?t"
    using skew_heap_insert_refines [of "run_pool (rq s)" "lab6_run_pool (rq s)" t p] rep p
    by (auto simp: stride_rep_def)
  have "dlist (list_add_before (run_links (rq s)) RunHead (RunLink p)) RunHead (map RunLink (xs @ [p]))"
    using dlist_list_add_tail [OF xs(1), of "RunLink p"] xs p by auto
  moreover have "set (xs @ [p]) = set_tree ?t" using xs by simp
  moreover have "card (set_tree ?t) = Suc (card (set_tree t))" using p by simp
  ultimately have "stride_rep (s\<lparr>rq := (rq s)\<lparr>run_pool := h, lab6_run_pool := root ?t,
      run_links := list_add_before (run_links (rq s)) RunHead (RunLink p),
      proc_num := proc_num (rq s) + 1\<rparr>\<rparr>) ?t"
    using h rep by (intro stride_repI [of _ _ "xs @ [p]"]) (auto simp: stride_rep_def)
  with h(1) show ?thesis
    by (auto simp: stride_enqueue_def Let_def stride_rep_def only_sched_def upd_proc_def sched_eq_def)
qed

lemma stride_rep_dequeue:
  assumes rep: "stride_rep s t" and p: "p \<in> set_tree t"
  shows "\<exists>s'. stride_dequeue p s = Some s'
    \<and> stride_rep s' (tremove (proc_stride_comp_f (procs s)) p t) \<and> procs s' = procs s \<and> only_sched s s'"
proof -
  let ?t = "tremove (proc_stride_comp_f (procs s)) p t"
  obtain xs where xs: "dlist (run_links (rq s)) RunHead (map RunLink xs)" "set xs = set_tree t"
    using rep by (auto simp: stride_rep_def)
  obtain as bs where split: "xs = as @ p # bs" using p xs(2) by (metis in_set_splitE)
  have dist: "distinct xs" using dlist_distinct [OF xs(1)] by (simp add: distinct_map)
  obtain h where h: "skew_heap_remove (proc_stride_comp_f (procs s)) (run_pool (rq s))
      (lab6_run_pool (rq s)) p = Some (h, root ?t)" "heap_rep h (root ?t) ?t"
    using skew_heap_remove_refines [of "run_pool (rq s)" "lab6_run_pool (rq s)" t p] rep p
    by (auto simp: stride_rep_def)
  have sett: "set_tree ?t = set_tree t - {p}" using rep by (auto simp: stride_rep_def heap_rep_def set_tremove)
  have "dlist (list_del_init (run_links (rq s)) (RunLink p)) RunHead (map RunLink (as @ bs))"
    using dlist_list_del_init [of "run_links (rq s)" RunHead "map RunLink as" "RunLink p"] xs(1) split by simp
  moreover have "set (as @ bs) = set_tree ?t" using sett xs(2) split dist by auto
  moreover have "card (set_tree t) = Suc (card (set_tree ?t))"
    using sett p card_Suc_Diff1 [of "set_tree t" p] by simp
  ultimately have "stride_rep (s\<lparr>rq := (rq s)\<lparr>run_pool := h, lab6_run_pool := root ?t,
      run_links := list_del_init (run_links (rq s)) (RunLink p), proc_num := proc_num (rq s) - 1\<rparr>\<rparr>) ?t"
    using h rep by (intro stride_repI [of _ _ "as @ bs"]) (auto simp: stride_rep_def)
  with h(1) show ?thesis by (auto simp: stride_dequeue_def only_sched_def)
qed

lemma stride_pick_next_root:
  assumes "stride_rep s t" and "set_tree t \<noteq> {}"
  shows "\<exists>p s'. root t = Some p \<and> stride_pick_next s = Some (s', Some p) \<and> rq s' = rq s \<and> only_sched s s'
    \<and> procs s' = (procs s)(p := (procs s p)\<lparr>p_lab6_stride := p_lab6_stride (procs s p)
        + divuw (of_nat BIG_STRIDE) (p_lab6_priority (procs s p))\<rparr>)"
proof -
  have "lab6_run_pool (rq s) = root t"
    using assms(1) rep_root by (auto simp: stride_rep_def heap_rep_def)
  moreover obtain p where "root t = Some p" using assms(2) by (cases t) auto
  ultimately show ?thesis
    by (auto simp: stride_pick_next_def upd_proc_def only_sched_def sched_eq_def)
qed

interpretation stride: sched_policy stride_sched_class stride_inv
proof (unfold_locales, goal_cases)
  case (1 s Q p)
  then obtain t where t: "stride_rep s t" "set_tree t = Q" by (auto simp: stride_inv_def)
  with stride_rep_enqueue [OF t(1), of p] 1(2) obtain s' where
    "stride_enqueue p s = Some s'" "only_sched s s'"
    "stride_rep s' (tmerge (proc_stride_comp_f (procs s)) t (Node Leaf p Leaf))" by blast
  moreover have "set_tree (tmerge (proc_stride_comp_f (procs s)) t (Node Leaf p Leaf)) = insert p Q"
    using t by auto
  ultimately show ?case unfolding stride_inv_def stride_sched_class_def by auto
next
  case (2 s)
  then have "lab6_run_pool (rq s) = None" by (auto simp: stride_inv_def stride_rep_def heap_rep_def)
  then show ?case by (simp add: stride_sched_class_def stride_pick_next_def)
next
  case (3 s Q)
  then obtain t where t: "stride_rep s t" "set_tree t = Q" by (auto simp: stride_inv_def)
  with stride_pick_next_root [OF t(1)] 3(2) obtain p s' where
    p: "root t = Some p" "stride_pick_next s = Some (s', Some p)" "rq s' = rq s" "only_sched s s'" by blast
  have pQ: "p \<in> Q" using p(1) t(2) root_in_set [of t] by blast
  have rep': "stride_rep s' t" using t(1) p(3) stride_rep_cong by blast
  obtain s'' where s'': "stride_dequeue p s' = Some s''" "only_sched s' s''"
    "stride_rep s'' (tremove (proc_stride_comp_f (procs s')) p t)"
    using stride_rep_dequeue [OF rep', of p] pQ t(2) by blast
  have "set_tree (tremove (proc_stride_comp_f (procs s')) p t) = Q - {p}"
    using t by (auto simp: stride_rep_def heap_rep_def set_tremove)
  then have "stride_inv s'' (Q - {p})" using s''(3) by (auto simp: stride_inv_def)
  with p s'' pQ only_sched_trans [OF p(4) s''(2)] show ?case by (auto simp: stride_sched_class_def)
next
  case (4 s Q p)
  then show ?case
    by (auto simp: stride_sched_class_def stride_proc_tick_def Let_def stride_inv_def only_sched_def
        upd_proc_def sched_eq_def stride_rep_def)
next
  case (5 s Q s')
  then show ?case by (auto simp: stride_inv_def stride_rep_def)
next
  case (6 s Q p)
  then obtain t where t: "stride_rep s t" "set_tree t = Q" by (auto simp: stride_inv_def)
  obtain xs where xs: "dlist (run_links (rq s)) RunHead (map RunLink xs)" "set xs = set_tree t"
    using t(1) by (auto simp: stride_rep_def)
  have "same_on (set_tree t) (run_pool (rq s)) (skew_heap_init (run_pool (rq s)) p)"
    using 6(2) t(2) by (auto simp: same_on_def skew_heap_init_def)
  then have "stride_rep (init_entry p s) t"
    using t xs 6(2) dlist_init_other [of "RunLink p" RunHead "map RunLink xs" "run_links (rq s)"]
    by (intro stride_repI [of _ _ xs]) (auto simp: init_entry_def stride_rep_def intro: heap_rep_same_on)
  then show ?case using t(2) by (auto simp: stride_inv_def)
next
  case (7 s Q)
  then show ?case by (auto simp: stride_inv_def)
qed

subsection \<open>Strides on 32 bits\<close>

text \<open>
  \<open>v\<close> gives every process the stride it would have without wrap-around. The comparison of the
  code agrees with \<open>v\<close> as long as no two queued processes are \<open>2\<close>\<open>^31\<close> apart; the window
  the scheduler keeps is \<open>BIG_STRIDE\<close>.
\<close>

definition in_window :: "(paddr \<Rightarrow> nat) \<Rightarrow> paddr set \<Rightarrow> bool" where
  "in_window v Q = (\<forall>p \<in> Q. \<forall>q \<in> Q. v p \<le> v q + BIG_STRIDE)"

definition strides_of :: "(paddr \<Rightarrow> nat) \<Rightarrow> 'a sched_state_scheme \<Rightarrow> paddr set \<Rightarrow> bool" where
  "strides_of v s Q = (\<forall>p \<in> Q. p_lab6_stride (procs s p) = of_nat (v p))"

definition stride_ordered :: "(paddr \<Rightarrow> nat) \<Rightarrow> 'a sched_state_scheme \<Rightarrow> paddr set \<Rightarrow> bool" where
  "stride_ordered v s Q =
     (\<exists>t. stride_rep s t \<and> set_tree t = Q \<and> kheap v t \<and> strides_of v s Q \<and> in_window v Q)"

lemma sint_diff_32:
  assumes "a \<le> b + 2147483647" and "b \<le> a + 2147483647"
  shows "sint ((of_nat a :: u32) - of_nat b) = int a - int b"
proof -
  have "(of_nat a :: u32) - of_nat b = word_of_int (int a - int b)" by simp
  moreover have "sint (word_of_int (int a - int b) :: u32) = signed_take_bit 31 (int a - int b)"
    by (subst signed_of_int) simp
  moreover have "signed_take_bit 31 (int a - int b) = int a - int b"
    by (rule signed_take_bit_int_eq_self) (use assms in auto)
  ultimately show ?thesis by simp
qed

lemma stride_comp_window:
  assumes "strides_of v s Q" and "in_window v Q" and "p \<in> Q" and "q \<in> Q"
  shows "proc_stride_comp_f (procs s) p q = - 1 \<longleftrightarrow> v p < v q"
proof -
  have "v p \<le> v q + 2147483647" "v q \<le> v p + 2147483647"
    using assms(2-4) by (force simp: in_window_def)+
  then show ?thesis
    using assms(1,3,4) sint_diff_32 [of "v p" "v q"]
    by (auto simp: proc_stride_comp_f_def strides_of_def Let_def)
qed

lemma window_subset: "strides_of v s Q \<Longrightarrow> R \<subseteq> Q \<Longrightarrow> strides_of v s R" "in_window v Q \<Longrightarrow> R \<subseteq> Q \<Longrightarrow> in_window v R"
  by (auto simp: strides_of_def in_window_def)

lemma stride_ordered_enqueue:
  assumes ord: "stride_ordered v s Q" and p: "p \<notin> Q"
    and str: "strides_of v s (insert p Q)" and win: "in_window v (insert p Q)"
  shows "\<exists>s'. stride_enqueue p s = Some s' \<and> stride_ordered v s' (insert p Q) \<and> only_sched s s'
    \<and> (\<forall>q. p_lab6_stride (procs s' q) = p_lab6_stride (procs s q))"
proof -
  obtain t where t: "stride_rep s t" "set_tree t = Q" "kheap v t" using ord by (auto simp: stride_ordered_def)
  let ?t = "tmerge (proc_stride_comp_f (procs s)) t (Node Leaf p Leaf)"
  obtain s' where s': "stride_enqueue p s = Some s'" "stride_rep s' ?t" "only_sched s s'"
    "\<forall>q. p_lab6_stride (procs s' q) = p_lab6_stride (procs s q)"
    using stride_rep_enqueue [OF t(1), of p] p t(2) by blast
  have "kheap v ?t"
    by (rule kheap_tmerge) (use t stride_comp_window [OF str win] in auto)
  moreover have "strides_of v s' (insert p Q)" using str s'(4) by (simp add: strides_of_def)
  moreover have "set_tree ?t = insert p Q" using t by auto
  ultimately show ?thesis using s' win unfolding stride_ordered_def by blast
qed

lemma divuw_unat:
  assumes "b \<noteq> 0"
  shows "divuw (of_nat BIG_STRIDE) b = of_nat (BIG_STRIDE div unat b)"
proof -
  have "unat (100000 :: u32) = 100000" by simp
  then have "unat (100000 div b) = 100000 div unat b" by (simp add: unat_div)
  moreover have "100000 div b = of_nat (unat (100000 div b))" by simp
  ultimately have "100000 div b = of_nat (100000 div unat b)" by simp
  with assms show ?thesis by (simp add: divuw_def)
qed

definition pass :: "'a sched_state_scheme \<Rightarrow> paddr \<Rightarrow> nat" where
  "pass s p = BIG_STRIDE div unat (p_lab6_priority (procs s p))"

text \<open>\<open>pick_next\<close> followed by the \<open>dequeue\<close> of the process it chose.\<close>

lemma stride_ordered_pick:
  assumes ord: "stride_ordered v s Q" and ne: "Q \<noteq> {}"
    and prio: "\<forall>p \<in> Q. p_lab6_priority (procs s p) \<noteq> 0"
  shows "\<exists>p s1 s2. p \<in> Q \<and> (\<forall>q \<in> Q. v p \<le> v q) \<and> stride_pick_next s = Some (s1, Some p)
    \<and> stride_dequeue p s1 = Some s2 \<and> stride_ordered v s2 (Q - {p}) \<and> only_sched s s2
    \<and> (\<forall>q. p_lab6_stride (procs s2 q) =
          p_lab6_stride (procs s q) + (if q = p then of_nat (pass s p) else 0))"
proof -
  obtain t where t: "stride_rep s t" "set_tree t = Q" "kheap v t" and w: "strides_of v s Q" "in_window v Q"
    using ord by (auto simp: stride_ordered_def)
  obtain p s1 where p: "root t = Some p" "stride_pick_next s = Some (s1, Some p)" "rq s1 = rq s"
    "only_sched s s1" "procs s1 = (procs s)(p := (procs s p)\<lparr>p_lab6_stride := p_lab6_stride (procs s p)
        + divuw (of_nat BIG_STRIDE) (p_lab6_priority (procs s p))\<rparr>)"
    using stride_pick_next_root [OF t(1)] ne t(2) by blast
  have pQ: "p \<in> Q" using p(1) t(2) root_in_set [of t] by blast
  have rep1: "stride_rep s1 t" using t(1) p(3) stride_rep_cong by blast
  obtain l r where lr: "t = Node l p r" using p(1) by (cases t) auto
  have dist: "distinct_tree t" using t(1) by (simp add: stride_rep_def heap_rep_def)
  let ?t = "tremove (proc_stride_comp_f (procs s1)) p t"
  obtain s2 where s2: "stride_dequeue p s1 = Some s2" "stride_rep s2 ?t" "procs s2 = procs s1" "only_sched s1 s2"
    using stride_rep_dequeue [OF rep1, of p] pQ t(2) by blast
  have w1: "strides_of v s1 (Q - {p})" "in_window v (Q - {p})"
    using w p(5) by (auto simp: strides_of_def in_window_def)
  have "set_tree l \<subseteq> Q - {p}" "set_tree r \<subseteq> Q - {p}" using t(2) lr dist by auto
  then have "kheap v ?t"
    using lr t(3) stride_comp_window [OF w1] by (auto intro!: kheap_tmerge)
  moreover have "set_tree ?t = Q - {p}" using dist t(2) by (simp add: set_tremove)
  moreover have "strides_of v s2 (Q - {p})" using w1 s2(3) by (simp add: strides_of_def)
  ultimately have "stride_ordered v s2 (Q - {p})" using s2(2) w1(2) unfolding stride_ordered_def by blast
  moreover have "\<forall>q. p_lab6_stride (procs s2 q) =
      p_lab6_stride (procs s q) + (if q = p then of_nat (pass s p) else 0)"
    using s2(3) p(5) divuw_unat [of "p_lab6_priority (procs s p)"] prio pQ by (auto simp: pass_def)
  moreover have "\<forall>q \<in> Q. v p \<le> v q" using kheap_root [OF t(3) p(1)] t(2) by auto
  ultimately show ?thesis using pQ p(2) s2(1) only_sched_trans [OF p(4) s2(4)] by blast
qed

subsection \<open>Proportional share\<close>

text \<open>
  The calls \<open>schedule\<close> makes while every process stays runnable: the running process goes back
  to the queue, the next one is picked and taken out.
\<close>

fun stride_run :: "nat \<Rightarrow> paddr \<Rightarrow> 'a sched_state_scheme \<Rightarrow> (paddr list \<times> 'a sched_state_scheme) option" where
  "stride_run 0 cur s = Some ([], s)"
| "stride_run (Suc n) cur s =
     do { s \<leftarrow> stride_enqueue cur s;
          (s, next) \<leftarrow> stride_pick_next s;
          (case next of
             None \<Rightarrow> None
           | Some p \<Rightarrow> do { s \<leftarrow> stride_dequeue p s;
                           (ps, s) \<leftarrow> stride_run n p s;
                           Some (p # ps, s) }) }"

definition stride_running :: "(paddr \<Rightarrow> nat) \<Rightarrow> paddr \<Rightarrow> 'a sched_state_scheme \<Rightarrow> paddr set \<Rightarrow> bool" where
  "stride_running v cur s Q = (stride_ordered v s (Q - {cur}) \<and> cur \<in> Q
     \<and> strides_of v s Q \<and> in_window v Q \<and> (\<forall>p \<in> Q. p_lab6_priority (procs s p) \<noteq> 0))"

lemma stride_run_step:
  assumes run: "stride_running v cur s Q"
  shows "\<exists>p s1 s2 s3. stride_enqueue cur s = Some s1 \<and> stride_pick_next s1 = Some (s2, Some p)
    \<and> stride_dequeue p s2 = Some s3 \<and> p \<in> Q \<and> (\<forall>q \<in> Q. v p \<le> v q) \<and> pass s3 = pass s
    \<and> stride_running (v(p := v p + pass s p)) p s3 Q"
proof -
  have ord: "stride_ordered v s (Q - {cur})" and cur: "insert cur (Q - {cur}) = Q"
    and w: "strides_of v s Q" "in_window v Q" and prio: "\<forall>p \<in> Q. p_lab6_priority (procs s p) \<noteq> 0"
    using run by (auto simp: stride_running_def)
  obtain s1 where s1: "stride_enqueue cur s = Some s1" "stride_ordered v s1 Q" "only_sched s s1"
    "\<forall>q. p_lab6_stride (procs s1 q) = p_lab6_stride (procs s q)"
    using stride_ordered_enqueue [OF ord, of cur] w cur by auto
  have pr1: "p_lab6_priority (procs s1 q) = p_lab6_priority (procs s q)" for q
    using s1(3) by (auto simp: only_sched_def dest: sched_eqD)
  obtain p s2 s3 where p: "p \<in> Q" "\<forall>q \<in> Q. v p \<le> v q" "stride_pick_next s1 = Some (s2, Some p)"
    "stride_dequeue p s2 = Some s3" "stride_ordered v s3 (Q - {p})" "only_sched s1 s3"
    "\<forall>q. p_lab6_stride (procs s3 q) = p_lab6_stride (procs s1 q) + (if q = p then of_nat (pass s1 p) else 0)"
  proof -
    have "Q \<noteq> {}" "\<forall>p \<in> Q. p_lab6_priority (procs s1 p) \<noteq> 0" using cur prio pr1 by auto
    with stride_ordered_pick [OF s1(2)] that show thesis by blast
  qed
  have pr3: "p_lab6_priority (procs s3 q) = p_lab6_priority (procs s q)" for q
    using p(6) pr1 sched_eqD(7) [of "procs s3 q" "procs s1 q"] by (simp add: only_sched_def)
  then have ps: "pass s3 = pass s" "pass s1 = pass s" using pr1 by (auto simp: pass_def fun_eq_iff)
  let ?v = "v(p := v p + pass s p)"
  have le: "pass s p \<le> BIG_STRIDE" by (simp add: pass_def)
  have "strides_of ?v s3 Q" using w(1) s1(4) p(7) ps by (auto simp: strides_of_def)
  moreover have "in_window ?v Q"
  proof -
    have "v q \<le> v p + pass s p + BIG_STRIDE" "v p + pass s p \<le> v q + BIG_STRIDE" if "q \<in> Q" for q
    proof -
      have "v q \<le> v p + BIG_STRIDE" "v p \<le> v q" using w(2) p(1,2) that by (auto simp: in_window_def)
      with le show "v q \<le> v p + pass s p + BIG_STRIDE" "v p + pass s p \<le> v q + BIG_STRIDE" by linarith+
    qed
    with w(2) show ?thesis unfolding in_window_def by auto
  qed
  moreover have "stride_ordered ?v s3 (Q - {p})"
  proof -
    obtain t where "stride_rep s3 t" "set_tree t = Q - {p}" "kheap v t" using p(5) by (auto simp: stride_ordered_def)
    moreover from this have "kheap ?v t" using kheap_cong [of t v ?v] by auto
    ultimately show ?thesis
      using window_subset(1) [of ?v s3 Q "Q - {p}"] window_subset(2) [of ?v Q "Q - {p}"]
        \<open>strides_of ?v s3 Q\<close> \<open>in_window ?v Q\<close> unfolding stride_ordered_def by blast
  qed
  ultimately have "stride_running ?v p s3 Q" using p(1) prio pr3 by (simp add: stride_running_def)
  with s1 p ps show ?thesis by blast
qed

lemma stride_run_share:
  assumes "stride_running v cur s Q"
  shows "\<exists>ps s'. stride_run n cur s = Some (ps, s') \<and> length ps = n \<and> set ps \<subseteq> Q
    \<and> in_window (\<lambda>p. v p + count_list ps p * pass s p) Q"
  using assms
proof (induction n arbitrary: v cur s)
  case 0
  then show ?case by (simp add: stride_running_def)
next
  case (Suc n)
  obtain p s1 s2 s3 where step: "stride_enqueue cur s = Some s1" "stride_pick_next s1 = Some (s2, Some p)"
    "stride_dequeue p s2 = Some s3" "p \<in> Q" "pass s3 = pass s"
    "stride_running (v(p := v p + pass s p)) p s3 Q"
    using stride_run_step [OF Suc.prems] by blast
  obtain ps s' where ps: "stride_run n p s3 = Some (ps, s')" "length ps = n" "set ps \<subseteq> Q"
    "in_window (\<lambda>q. (v(p := v p + pass s p)) q + count_list ps q * pass s q) Q"
    using Suc.IH [OF step(6)] step(5) by auto
  have "(\<lambda>q. (v(p := v p + pass s p)) q + count_list ps q * pass s q) =
      (\<lambda>q. v q + count_list (p # ps) q * pass s q)" by auto
  with step ps show ?case by auto
qed

subsection \<open>Properties\<close>

text \<open>A machine for the witnesses: process 1 runs, process 2 waits in the queue.\<close>

definition demo_proc :: proc_struct where
  "demo_proc = \<lparr>p_state = PROC_RUNNABLE, p_pid = 1, p_runs = 0, p_kstack = 0, p_need_resched = False,
     p_parent = None, p_mm = None, p_context = \<lparr>ctx_ra = 0, ctx_sp = 0, ctx_s = \<lambda>_. 0\<rparr>, p_tf = None,
     p_cr3 = 0, p_flags = 0, p_name = [], p_exit_code = 0, p_wait_state = 0, p_cptr = None,
     p_yptr = None, p_optr = None, p_rq = False, p_time_slice = 0, p_lab6_stride = 0,
     p_lab6_priority = 1, p_filesp = None\<rparr>"

definition demo_sched :: sched_state where
  "demo_sched = \<lparr>procs = (\<lambda>p. demo_proc\<lparr>p_lab6_priority := (if p = 2 then 4 else 1)\<rparr>),
     rq = \<lparr>run_links = \<lparr>lnext = (\<lambda>x. if x = RunHead then RunLink 2 else RunHead),
                        lprev = (\<lambda>x. if x = RunHead then RunLink 2 else RunHead)\<rparr>,
           proc_num = 1, max_time_slice = 5, lab6_run_pool = Some 2,
           run_pool = \<lparr>sparent = \<lambda>_. None, sleft = \<lambda>_. None, sright = \<lambda>_. None\<rparr>\<rparr>,
     current = 1, idleproc = 0, initproc = 1\<rparr>"

lemma demo_sched_rep: "stride_rep demo_sched (Node Leaf 2 Leaf)"
  by (rule stride_repI [of _ _ "[2]"]) (auto simp: demo_sched_def heap_rep_def dlist_def)

lemma demo_sched_running: "stride_running (\<lambda>_. 0) 1 demo_sched {1, 2}"
proof -
  have "stride_ordered (\<lambda>_. 0) demo_sched {2}"
    unfolding stride_ordered_def using demo_sched_rep
    by (intro exI [of _ "Node Leaf 2 Leaf"])
      (auto simp: strides_of_def in_window_def demo_sched_def demo_proc_def)
  moreover have "{1, 2} - {1 :: nat} = {2}" by auto
  ultimately show ?thesis
    by (auto simp: stride_running_def strides_of_def in_window_def demo_sched_def demo_proc_def)
qed

text \<open>
  \<open>stride_pick_next\<close> chooses a process of smallest stride although strides are 32-bit and
  wrap around: while the strides of the queued processes lie within \<open>BIG_STRIDE\<close> of each
  other, the pick and the dequeue that follows return, the chosen process has the least
  stride, and the rest of the queue stays ordered.
\<close>

theorem stride_picks_minimum:
  assumes "stride_ordered v s Q" and "Q \<noteq> {}" and "\<forall>p \<in> Q. p_lab6_priority (procs s p) \<noteq> 0"
  shows "\<exists>p s1 s2. stride_pick_next s = Some (s1, Some p) \<and> p \<in> Q \<and> (\<forall>q \<in> Q. v p \<le> v q)
    \<and> stride_dequeue p s1 = Some s2 \<and> stride_ordered v s2 (Q - {p})
    \<and> p_lab6_stride (procs s2 p) = of_nat (v p + pass s p)"
proof -
  from stride_ordered_pick [OF assms] obtain p s1 s2 where p: "p \<in> Q" "\<forall>q \<in> Q. v p \<le> v q"
    "stride_pick_next s = Some (s1, Some p)" "stride_dequeue p s1 = Some s2" "stride_ordered v s2 (Q - {p})"
    "\<forall>q. p_lab6_stride (procs s2 q) = p_lab6_stride (procs s q) + (if q = p then of_nat (pass s p) else 0)"
    by blast
  moreover have "p_lab6_stride (procs s p) = of_nat (v p)"
    using assms(1) p(1) by (auto simp: stride_ordered_def strides_of_def)
  ultimately show ?thesis by (intro exI [of _ p] exI [of _ s1] exI [of _ s2]) simp
qed

theorem stride_picks_minimum_witness:
  "\<exists>s1. stride_pick_next demo_sched = Some (s1, Some 2)"
proof -
  have "stride_ordered (\<lambda>_. 0) demo_sched {2}"
    unfolding stride_ordered_def using demo_sched_rep
    by (intro exI [of _ "Node Leaf 2 Leaf"])
      (auto simp: strides_of_def in_window_def demo_sched_def demo_proc_def)
  from stride_picks_minimum [OF this] show ?thesis by (auto simp: demo_sched_def)
qed

text \<open>
  C7. Stride scheduling shares the processor in proportion to the priorities: over any number
  of scheduling rounds, the strides of two processes, each grown by \<open>BIG_STRIDE / priority\<close>
  for every round it was given, never drift apart by more than \<open>BIG_STRIDE\<close>.
\<close>

theorem stride_proportional_share:
  assumes "stride_running v cur s Q"
  shows "\<exists>ps s'. stride_run n cur s = Some (ps, s') \<and> length ps = n \<and> set ps \<subseteq> Q
    \<and> (\<forall>p \<in> Q. \<forall>q \<in> Q. v p + count_list ps p * (BIG_STRIDE div unat (p_lab6_priority (procs s p)))
         \<le> v q + count_list ps q * (BIG_STRIDE div unat (p_lab6_priority (procs s q))) + BIG_STRIDE)"
  using stride_run_share [OF assms, of n] by (simp add: in_window_def pass_def)

theorem stride_proportional_share_witness:
  "\<exists>ps s'. stride_run 10 1 demo_sched = Some (ps, s') \<and> length ps = 10
    \<and> count_list ps 1 * 100000 \<le> count_list ps 2 * 25000 + 100000"
  using stride_proportional_share [OF demo_sched_running, of 10]
  by (auto simp: demo_sched_def demo_proc_def)

text \<open>
  A process whose priority is still 0, as \<open>alloc_proc\<close> leaves it, is given a stride that
  goes down: the division yields \<open>2\<close>\<open>^32 - 1\<close>, so each time it is picked its stride decreases
  by one and it keeps its place in front of every process of larger stride.
\<close>

theorem stride_priority_zero:
  assumes "lab6_run_pool (rq s) = Some p" and "p_lab6_priority (procs s p) = 0"
  shows "\<exists>s'. stride_pick_next s = Some (s', Some p)
    \<and> p_lab6_stride (procs s' p) = p_lab6_stride (procs s p) - 1"
  using assms by (auto simp: stride_pick_next_def divuw_def)

theorem stride_priority_zero_witness:
  "\<exists>s'. stride_pick_next (upd_proc 2 (\<lambda>p. p\<lparr>p_lab6_priority := 0\<rparr>) demo_sched) = Some (s', Some 2)
    \<and> p_lab6_stride (procs s' 2) = - 1"
  using stride_priority_zero [of "upd_proc 2 (\<lambda>p. p\<lparr>p_lab6_priority := 0\<rparr>) demo_sched" 2]
  by (simp add: demo_sched_def demo_proc_def)

end
