(* ===== verification/Round_Robin.thy ===== *)
theory Round_Robin
  imports Proc_State
begin

section \<open>Round robin: \<open>lab6/kern/schedule/default_sched.c\<close>\<close>

text \<open>
  The scheduling class of lab 6, a first-in first-out list. Its assertions read the list entry
  embedded in the descriptor, so the queue is kept at the level of the links: a process outside
  the queue has a self-linked entry.
\<close>

subsection \<open>Operations\<close>

definition RR_init :: "'a sched_state_scheme \<Rightarrow> 'a sched_state_scheme" where
  "RR_init s = s\<lparr>rq := (rq s)\<lparr>run_links := list_init (run_links (rq s)) RunHead, proc_num := 0\<rparr>\<rparr>"

definition RR_enqueue :: "paddr \<Rightarrow> 'a sched_state_scheme \<Rightarrow> 'a sched_state_scheme option" where
  "RR_enqueue proc s =
     do { kassert (list_empty (run_links (rq s)) (RunLink proc));
          let s = s\<lparr>rq := (rq s)\<lparr>run_links :=
                      list_add_before (run_links (rq s)) RunHead (RunLink proc)\<rparr>\<rparr>;
          let s = (if p_time_slice (procs s proc) = 0
                      \<or> p_time_slice (procs s proc) > max_time_slice (rq s)
                   then upd_proc proc (\<lambda>p. p\<lparr>p_time_slice := max_time_slice (rq s)\<rparr>) s else s);
          let s = upd_proc proc (\<lambda>p. p\<lparr>p_rq := True\<rparr>) s;
          Some (s\<lparr>rq := (rq s)\<lparr>proc_num := proc_num (rq s) + 1\<rparr>\<rparr>) }"

definition RR_dequeue :: "paddr \<Rightarrow> 'a sched_state_scheme \<Rightarrow> 'a sched_state_scheme option" where
  "RR_dequeue proc s =
     do { kassert (\<not> list_empty (run_links (rq s)) (RunLink proc) \<and> p_rq (procs s proc));
          Some (s\<lparr>rq := (rq s)\<lparr>run_links := list_del_init (run_links (rq s)) (RunLink proc),
                                 proc_num := proc_num (rq s) - 1\<rparr>\<rparr>) }"

definition RR_pick_next :: "'a sched_state_scheme \<Rightarrow> ('a sched_state_scheme \<times> paddr option) option" where
  "RR_pick_next s =
     (case list_next (run_links (rq s)) RunHead of
        RunHead \<Rightarrow> Some (s, None)
      | RunLink proc \<Rightarrow> Some (s, Some proc))"

definition RR_proc_tick :: "paddr \<Rightarrow> 'a sched_state_scheme \<Rightarrow> 'a sched_state_scheme" where
  "RR_proc_tick proc s =
     (let s = (if p_time_slice (procs s proc) > 0
               then upd_proc proc (\<lambda>p. p\<lparr>p_time_slice := p_time_slice p - 1\<rparr>) s else s)
      in if p_time_slice (procs s proc) = 0
         then upd_proc proc (\<lambda>p. p\<lparr>p_need_resched := True\<rparr>) s else s)"

definition RR_sched_class :: "'a sched_state_scheme sched_class" where
  "RR_sched_class = \<lparr>sc_init = RR_init, sc_enqueue = RR_enqueue, sc_dequeue = RR_dequeue,
     sc_pick_next = RR_pick_next, sc_proc_tick = RR_proc_tick\<rparr>"

subsection \<open>The queue as a list\<close>

definition rr_rep :: "'a sched_state_scheme \<Rightarrow> paddr list \<Rightarrow> bool" where
  "rr_rep s xs =
     (dlist (run_links (rq s)) RunHead (map RunLink xs)
      \<and> (\<forall>p. p \<notin> set xs \<longrightarrow> lnext (run_links (rq s)) (RunLink p) = RunLink p)
      \<and> (\<forall>p \<in> set xs. p_rq (procs s p)) \<and> proc_num (rq s) = of_nat (length xs))"

definition rr_inv :: "'a sched_state_scheme \<Rightarrow> paddr set \<Rightarrow> bool" where
  "rr_inv s Q = (\<exists>xs. rr_rep s xs \<and> set xs = Q)"

lemma RR_enqueue_rep:
  assumes rep: "rr_rep s xs" and p: "p \<notin> set xs"
  shows "\<exists>s'. RR_enqueue p s = Some s' \<and> rr_rep s' (xs @ [p]) \<and> only_sched s s'"
proof -
  have d: "dlist (run_links (rq s)) RunHead (map RunLink xs)" using rep by (simp add: rr_rep_def)
  have "list_empty (run_links (rq s)) (RunLink p)" using rep p by (simp add: rr_rep_def list_empty_def)
  moreover have "dlist (list_add_before (run_links (rq s)) RunHead (RunLink p)) RunHead (map RunLink (xs @ [p]))"
    using dlist_list_add_tail [OF d, of "RunLink p"] p by auto
  moreover have "\<forall>q. q \<notin> set (xs @ [p]) \<longrightarrow>
      lnext (list_add_before (run_links (rq s)) RunHead (RunLink p)) (RunLink q) = RunLink q"
  proof (intro allI impI)
    fix q assume "q \<notin> set (xs @ [p])"
    then show "lnext (list_add_before (run_links (rq s)) RunHead (RunLink p)) (RunLink q) = RunLink q"
      using dlist_add_tail_frame(1) [OF d, of "RunLink q" "RunLink p"] rep by (auto simp: rr_rep_def)
  qed
  ultimately show ?thesis using rep
    by (auto simp: RR_enqueue_def Let_def rr_rep_def only_sched_def upd_proc_def sched_eq_def)
qed

lemma RR_dequeue_rep:
  assumes rep: "rr_rep s (as @ p # bs)"
  shows "\<exists>s'. RR_dequeue p s = Some s' \<and> rr_rep s' (as @ bs) \<and> procs s' = procs s \<and> only_sched s s'"
proof -
  have d: "dlist (run_links (rq s)) RunHead (map RunLink as @ RunLink p # map RunLink bs)"
    using rep by (simp add: rr_rep_def)
  have dist: "distinct (as @ p # bs)" using dlist_distinct [OF d] by (auto simp: distinct_map)
  have "lnext (run_links (rq s)) (RunLink p) \<noteq> RunLink p"
    using dlist_next [OF d] dist by (cases bs) auto
  then have "\<not> list_empty (run_links (rq s)) (RunLink p)" by (simp add: list_empty_def)
  moreover have "dlist (list_del_init (run_links (rq s)) (RunLink p)) RunHead (map RunLink (as @ bs))"
    using dlist_list_del_init [OF d] by simp
  moreover have "\<forall>q. q \<notin> set (as @ bs) \<longrightarrow>
      lnext (list_del_init (run_links (rq s)) (RunLink p)) (RunLink q) = RunLink q"
  proof (intro allI impI)
    fix q assume "q \<notin> set (as @ bs)"
    then show "lnext (list_del_init (run_links (rq s)) (RunLink p)) (RunLink q) = RunLink q"
      using dlist_del_init_frame(1) [OF d, of "RunLink q"] rep
      by (cases "q = p") (auto simp: rr_rep_def list_del_init_def list_init_def Let_def)
  qed
  ultimately show ?thesis using rep
    by (auto simp: RR_dequeue_def rr_rep_def only_sched_def)
qed

lemma RR_pick_next_rep:
  assumes "rr_rep s xs"
  shows "RR_pick_next s = Some (s, case xs of [] \<Rightarrow> None | p # _ \<Rightarrow> Some p)"
  using assms dlist_next_head [of "run_links (rq s)" RunHead "map RunLink xs"]
  by (cases xs) (auto simp: RR_pick_next_def rr_rep_def list_next_def)

lemma RR_tick_rep: "rr_rep s xs \<Longrightarrow> rr_rep (RR_proc_tick p s) xs \<and> only_sched s (RR_proc_tick p s)"
  by (auto simp: RR_proc_tick_def Let_def rr_rep_def only_sched_def upd_proc_def sched_eq_def)

interpretation rr: sched_policy RR_sched_class rr_inv
proof (unfold_locales, goal_cases)
  case (1 s Q p)
  then obtain xs where "rr_rep s xs" "set xs = Q" by (auto simp: rr_inv_def)
  with RR_enqueue_rep [of s xs p] 1(2) show ?case
    by (fastforce simp: rr_inv_def RR_sched_class_def)
next
  case (2 s)
  then have "rr_rep s []" by (auto simp: rr_inv_def)
  then show ?case using RR_pick_next_rep [of s "[]"] by (simp add: RR_sched_class_def)
next
  case (3 s Q)
  then obtain xs where xs: "rr_rep s xs" "set xs = Q" by (auto simp: rr_inv_def)
  with 3(2) obtain p bs where pb: "xs = p # bs" by (cases xs) auto
  have dist: "distinct xs" using xs(1) dlist_distinct [of "run_links (rq s)" RunHead "map RunLink xs"]
    by (simp add: rr_rep_def distinct_map)
  obtain s' where s': "RR_dequeue p s = Some s'" "rr_rep s' bs" "only_sched s s'"
    using RR_dequeue_rep [of s "[]" p bs] xs pb by auto
  have "rr_inv s' (Q - {p})" using s'(2) xs pb dist by (auto simp: rr_inv_def)
  with s' xs pb RR_pick_next_rep [OF xs(1)] show ?case
    by (intro bexI [of _ p]) (auto simp: RR_sched_class_def)
next
  case (4 s Q p)
  then show ?case using RR_tick_rep by (auto simp: rr_inv_def RR_sched_class_def)
next
  case (5 s Q s')
  then show ?case by (auto simp: rr_inv_def rr_rep_def)
next
  case (6 s Q p)
  then obtain xs where xs: "rr_rep s xs" "set xs = Q" by (auto simp: rr_inv_def)
  then have "rr_rep (init_entry p s) xs"
    using 6(2) dlist_init_other [of "RunLink p" RunHead "map RunLink xs" "run_links (rq s)"]
    by (auto simp: rr_rep_def init_entry_def list_init_def Let_def)
  then show ?case using xs by (auto simp: rr_inv_def)
next
  case (7 s Q)
  then show ?case by (auto simp: rr_inv_def)
qed

subsection \<open>First in, first out\<close>

text \<open>The calls \<open>schedule\<close> makes while every process stays runnable.\<close>

fun RR_run :: "nat \<Rightarrow> paddr \<Rightarrow> 'a sched_state_scheme \<Rightarrow> (paddr list \<times> 'a sched_state_scheme) option" where
  "RR_run 0 cur s = Some ([], s)"
| "RR_run (Suc n) cur s =
     do { s \<leftarrow> RR_enqueue cur s;
          (s, next) \<leftarrow> RR_pick_next s;
          (case next of
             None \<Rightarrow> None
           | Some p \<Rightarrow> do { s \<leftarrow> RR_dequeue p s;
                           (ps, s) \<leftarrow> RR_run n p s;
                           Some (p # ps, s) }) }"

lemma RR_run_rotate:
  assumes "rr_rep s xs" and "cur \<notin> set xs" and "n \<le> length xs"
  shows "\<exists>s'. RR_run n cur s = Some (take n xs, s')
    \<and> rr_rep s' (drop n xs @ butlast (cur # take n xs))"
  using assms
proof (induction n arbitrary: cur s xs)
  case 0
  then show ?case by simp
next
  case (Suc n)
  then obtain p bs where pb: "xs = p # bs" by (cases xs) auto
  obtain s1 where s1: "RR_enqueue cur s = Some s1" "rr_rep s1 (xs @ [cur])"
    using RR_enqueue_rep [OF Suc.prems(1,2)] by blast
  obtain s2 where s2: "RR_dequeue p s1 = Some s2" "rr_rep s2 (bs @ [cur])"
    using RR_dequeue_rep [of s1 "[]" p "bs @ [cur]"] s1 pb by auto
  have "distinct xs"
    using Suc.prems(1) dlist_distinct [of "run_links (rq s)" RunHead "map RunLink xs"]
    by (simp add: rr_rep_def distinct_map)
  then have fresh: "p \<notin> set (bs @ [cur])" using Suc.prems(2) pb by auto
  have tk: "take n (bs @ [cur]) = take n bs" "drop n (bs @ [cur]) = drop n bs @ [cur]"
    using Suc.prems(3) pb by auto
  obtain s3 where s3: "RR_run n p s2 = Some (take n (bs @ [cur]), s3)"
    "rr_rep s3 (drop n (bs @ [cur]) @ butlast (p # take n (bs @ [cur])))"
  proof -
    have "n \<le> length (bs @ [cur])" using Suc.prems(3) pb by simp
    with Suc.IH [OF s2(2) fresh] that show thesis by blast
  qed
  have "drop n (bs @ [cur]) @ butlast (p # take n (bs @ [cur])) =
      drop (Suc n) xs @ butlast (cur # take (Suc n) xs)"
    unfolding tk pb by simp
  with s3 tk(1) have "RR_run n p s2 = Some (take n bs, s3)"
    "rr_rep s3 (drop (Suc n) xs @ butlast (cur # take (Suc n) xs))" by (simp_all only:)
  moreover have "RR_pick_next s1 = Some (s1, Some p)" using RR_pick_next_rep [OF s1(2)] pb by simp
  ultimately show ?case using s1(1) s2(1) pb by (auto simp del: butlast.simps drop_Suc_Cons)
qed

text \<open>
  Round robin serves every waiting process once before any of them again: over as many
  rounds as there are waiting processes, they run exactly in the order of the queue, and the
  process that was running ends up next in line; no assertion of the class fails on the way.
\<close>

theorem round_robin_order:
  assumes "rr_rep s xs" and "cur \<notin> set xs" and "xs \<noteq> []"
  shows "\<exists>s'. RR_run (length xs) cur s = Some (xs, s') \<and> rr_rep s' (cur # butlast xs)"
  using RR_run_rotate [OF assms(1,2), of "length xs"] assms(3) by auto

definition demo_rr :: sched_state where
  "demo_rr = \<lparr>procs = (\<lambda>p. \<lparr>p_state = PROC_RUNNABLE, p_pid = 1, p_runs = 0, p_kstack = 0,
       p_need_resched = False, p_parent = None, p_mm = None,
       p_context = \<lparr>ctx_ra = 0, ctx_sp = 0, ctx_s = \<lambda>_. 0\<rparr>, p_tf = None, p_cr3 = 0, p_flags = 0,
       p_name = [], p_exit_code = 0, p_wait_state = 0, p_cptr = None, p_yptr = None, p_optr = None,
       p_rq = True, p_time_slice = 0, p_lab6_stride = 0, p_lab6_priority = 0, p_filesp = None\<rparr>),
     rq = \<lparr>run_links = \<lparr>lnext = (\<lambda>x. if x = RunHead then RunLink 2 else if x = RunLink 2 then RunHead else x),
                        lprev = (\<lambda>x. if x = RunHead then RunLink 2 else if x = RunLink 2 then RunHead else x)\<rparr>,
           proc_num = 1, max_time_slice = 5, lab6_run_pool = None,
           run_pool = \<lparr>sparent = \<lambda>_. None, sleft = \<lambda>_. None, sright = \<lambda>_. None\<rparr>\<rparr>,
     current = 1, idleproc = 0, initproc = 1\<rparr>"

theorem round_robin_order_witness:
  "rr_rep demo_rr [2] \<and> (\<exists>s'. RR_run 1 1 demo_rr = Some ([2], s') \<and> rr_rep s' [1])"
proof -
  have "rr_rep demo_rr [2]" by (auto simp: demo_rr_def rr_rep_def dlist_def)
  with round_robin_order [OF this, of 1] show ?thesis by simp
qed

end
