(* ===== verification/Sched.thy ===== *)
theory Sched
  imports Stride Round_Robin
begin

section \<open>The scheduler core: \<open>kern/schedule/sched.c\<close>\<close>

text \<open>
  \<open>wakeup_proc\<close>, \<open>schedule\<close> and the timer list, over any scheduling class. A call of
  \<open>schedule\<close> ends in the state in which the next process runs: \<open>current\<close> and the page table
  register have changed, the code after the call belongs to the process that was switched away.
  The timer list holds the addresses of the timers in list order, each with an \<open>expires\<close> field
  relative to its predecessor.
\<close>

record timer =
  t_expires :: nat
  t_proc :: "paddr option"

type_synonym timer_id = nat

record kernel_state = sched_state +
  timers :: "timer_id \<Rightarrow> timer"
  timer_list :: "timer_id list"
  satp :: u64

abbreviation (input) MAX_TIME_SLICE :: int where "MAX_TIME_SLICE \<equiv> 5"

definition sched_class_enqueue :: "'a sched_state_scheme sched_class \<Rightarrow> paddr \<Rightarrow>
    'a sched_state_scheme \<Rightarrow> 'a sched_state_scheme option" where
  "sched_class_enqueue cls proc s = (if proc \<noteq> idleproc s then sc_enqueue cls proc s else Some s)"

definition sched_class_dequeue :: "'a sched_state_scheme sched_class \<Rightarrow> paddr \<Rightarrow>
    'a sched_state_scheme \<Rightarrow> 'a sched_state_scheme option" where
  "sched_class_dequeue cls proc s = sc_dequeue cls proc s"

definition sched_class_pick_next :: "'a sched_state_scheme sched_class \<Rightarrow>
    'a sched_state_scheme \<Rightarrow> ('a sched_state_scheme \<times> paddr option) option" where
  "sched_class_pick_next cls s = sc_pick_next cls s"

definition sched_class_proc_tick :: "'a sched_state_scheme sched_class \<Rightarrow> paddr \<Rightarrow>
    'a sched_state_scheme \<Rightarrow> 'a sched_state_scheme" where
  "sched_class_proc_tick cls proc s =
     (if proc \<noteq> idleproc s then sc_proc_tick cls proc s
      else upd_proc proc (\<lambda>p. p\<lparr>p_need_resched := True\<rparr>) s)"

definition sched_init :: "'a kernel_state_scheme sched_class \<Rightarrow> 'a kernel_state_scheme \<Rightarrow>
    'a kernel_state_scheme" where
  "sched_init cls s =
     (let s = s\<lparr>timer_list := []\<rparr>;
          s = s\<lparr>rq := (rq s)\<lparr>max_time_slice := MAX_TIME_SLICE\<rparr>\<rparr>
      in sc_init cls s)"

definition wakeup_proc :: "'a sched_state_scheme sched_class \<Rightarrow> paddr \<Rightarrow>
    'a sched_state_scheme \<Rightarrow> 'a sched_state_scheme option" where
  "wakeup_proc cls proc s =
     do { kassert (p_state (procs s proc) \<noteq> PROC_ZOMBIE);
          if p_state (procs s proc) \<noteq> PROC_RUNNABLE
          then (let s = upd_proc proc (\<lambda>p. p\<lparr>p_state := PROC_RUNNABLE, p_wait_state := 0\<rparr>) s
                in if proc \<noteq> current s then sched_class_enqueue cls proc s else Some s)
          else Some s }"

text \<open>\<open>lcr3\<close> of \<open>libs/riscv.h\<close>: the number of the directory's page, and the mode Sv39.\<close>

definition lcr3 :: "u64 \<Rightarrow> u64" where
  "lcr3 cr3 = 0x8000000000000000 OR drop_bit 12 cr3"

text \<open>\<open>proc_run\<close> of \<open>kern/process/proc.c\<close>: the switch to the address space and stack of \<open>proc\<close>.\<close>

definition proc_run :: "paddr \<Rightarrow> 'a kernel_state_scheme \<Rightarrow> 'a kernel_state_scheme" where
  "proc_run proc s =
     (if proc \<noteq> current s then s\<lparr>current := proc, satp := lcr3 (p_cr3 (procs s proc))\<rparr> else s)"

definition schedule :: "'a kernel_state_scheme sched_class \<Rightarrow> 'a kernel_state_scheme \<Rightarrow>
    'a kernel_state_scheme option" where
  "schedule cls s =
     do { let s = upd_proc (current s) (\<lambda>p. p\<lparr>p_need_resched := False\<rparr>) s;
          s \<leftarrow> (if p_state (procs s (current s)) = PROC_RUNNABLE
                then sched_class_enqueue cls (current s) s else Some s);
          (s, next) \<leftarrow> sched_class_pick_next cls s;
          s \<leftarrow> (case next of None \<Rightarrow> Some s | Some p \<Rightarrow> sched_class_dequeue cls p s);
          let nxt = (case next of None \<Rightarrow> idleproc s | Some p \<Rightarrow> p);
          let s = upd_proc nxt (\<lambda>p. p\<lparr>p_runs := p_runs p + 1\<rparr>) s;
          Some (if nxt \<noteq> current s then proc_run nxt s else s) }"

subsection \<open>Timers\<close>

definition timer_init :: "timer_id \<Rightarrow> paddr \<Rightarrow> nat \<Rightarrow> 'a kernel_state_scheme \<Rightarrow> 'a kernel_state_scheme" where
  "timer_init t proc expires s = s\<lparr>timers := (timers s)(t := \<lparr>t_expires = expires mod 2 ^ 32, t_proc = Some proc\<rparr>)\<rparr>"

definition set_expires :: "(timer_id \<Rightarrow> timer) \<Rightarrow> timer_id \<Rightarrow> nat \<Rightarrow> timer_id \<Rightarrow> timer" where
  "set_expires tm t e = tm(t := (tm t)\<lparr>t_expires := e\<rparr>)"

text \<open>The loop of \<open>add_timer\<close> from the entry \<open>le\<close> on; the list is the rest of the timer list.\<close>

fun add_timer_loop :: "timer_id \<Rightarrow> (timer_id \<Rightarrow> timer) \<Rightarrow> timer_id list \<Rightarrow>
    (timer_id \<Rightarrow> timer) \<times> timer_id list" where
  "add_timer_loop t tm [] = (tm, [t])"
| "add_timer_loop t tm (n # ts) =
     (if t_expires (tm t) < t_expires (tm n)
      then (set_expires tm n (t_expires (tm n) - t_expires (tm t)), t # n # ts)
      else (let (tm, ts) = add_timer_loop t (set_expires tm t (t_expires (tm t) - t_expires (tm n))) ts
            in (tm, n # ts)))"

definition add_timer :: "timer_id \<Rightarrow> 'a kernel_state_scheme \<Rightarrow> 'a kernel_state_scheme option" where
  "add_timer t s =
     do { kassert (t_expires (timers s t) > 0 \<and> t_proc (timers s t) \<noteq> None);
          kassert (t \<notin> set (timer_list s));
          let (tm, ts) = add_timer_loop t (timers s) (timer_list s);
          Some (s\<lparr>timers := tm, timer_list := ts\<rparr>) }"

text \<open>The timer that follows \<open>t\<close> on the list, if it is not the header.\<close>

fun timer_next :: "timer_id \<Rightarrow> timer_id list \<Rightarrow> timer_id option" where
  "timer_next t [] = None"
| "timer_next t (x # xs) =
     (if x = t then (case xs of [] \<Rightarrow> None | y # _ \<Rightarrow> Some y) else timer_next t xs)"

definition del_timer :: "timer_id \<Rightarrow> 'a kernel_state_scheme \<Rightarrow> 'a kernel_state_scheme" where
  "del_timer t s =
     (if t \<in> set (timer_list s)
      then (let tm = (if t_expires (timers s t) \<noteq> 0
                      then (case timer_next t (timer_list s) of
                              None \<Rightarrow> timers s
                            | Some n \<Rightarrow> set_expires (timers s) n
                                ((t_expires (timers s n) + t_expires (timers s t)) mod 2 ^ 32))
                      else timers s)
            in s\<lparr>timers := tm, timer_list := removeAll t (timer_list s)\<rparr>)
      else s)"

text \<open>The \<open>while\<close> loop of \<open>run_timer_list\<close>, from the timer at the head of the given rest.\<close>

fun run_expired :: "'a kernel_state_scheme sched_class \<Rightarrow> timer_id list \<Rightarrow>
    'a kernel_state_scheme \<Rightarrow> 'a kernel_state_scheme option" where
  "run_expired cls [] s = Some s"
| "run_expired cls (t # ts) s =
     (if t_expires (timers s t) = 0
      then do { proc \<leftarrow> t_proc (timers s t);
                kassert (p_wait_state (procs s proc) = 0
                  \<or> p_wait_state (procs s proc) AND WT_INTERRUPTED \<noteq> 0);
                s \<leftarrow> wakeup_proc cls proc s;
                run_expired cls ts (del_timer t s) }
      else Some s)"

definition run_timer_list :: "'a kernel_state_scheme sched_class \<Rightarrow> 'a kernel_state_scheme \<Rightarrow>
    'a kernel_state_scheme option" where
  "run_timer_list cls s =
     do { s \<leftarrow> (case timer_list s of
             [] \<Rightarrow> Some s
           | t # ts \<Rightarrow>
               do { kassert (t_expires (timers s t) \<noteq> 0);
                    let s = s\<lparr>timers := set_expires (timers s) t (t_expires (timers s t) - 1)\<rparr>;
                    run_expired cls (t # ts) s });
          Some (sched_class_proc_tick cls (current s) s) }"

subsection \<open>The run queue holds exactly the processes that are ready\<close>

text \<open>Of the processes \<open>L\<close> of the system, those that wait for the processor.\<close>

definition ready :: "paddr set \<Rightarrow> 'a sched_state_scheme \<Rightarrow> paddr set" where
  "ready L s = {p \<in> L. p_state (procs s p) = PROC_RUNNABLE \<and> p \<noteq> current s \<and> p \<noteq> idleproc s}"

lemma only_sched_state: "only_sched s s' \<Longrightarrow> p_state (procs s' p) = p_state (procs s p)"
  and only_sched_wait: "only_sched s s' \<Longrightarrow> p_wait_state (procs s' p) = p_wait_state (procs s p)"
  by (simp_all add: only_sched_def sched_eqD)

lemma only_sched_stable: "only_sched s s' \<Longrightarrow> stable (procs s' p) (procs s p)"
  by (simp add: only_sched_def sched_eq_stable)

lemma only_sched_current: "only_sched s s' \<Longrightarrow> current s' = current s"
  and only_sched_idle: "only_sched s s' \<Longrightarrow> idleproc s' = idleproc s"
  by (simp_all add: only_sched_def)

lemma kernel_upd_proc [simp]:
  "timers (upd_proc p f s) = timers s" "timer_list (upd_proc p f s) = timer_list s"
  "satp (upd_proc p f s) = satp s" "kernel_state.more (upd_proc p f s) = kernel_state.more s"
  by (simp_all add: upd_proc_def)

lemma only_sched_kernel:
  fixes s s' :: "'a kernel_state_scheme"
  assumes "only_sched s s'"
  shows "timers s' = timers s" "timer_list s' = timer_list s" "satp s' = satp s"
    "kernel_state.more s' = kernel_state.more s"
  using assms by (cases s, cases s', simp add: only_sched_def)+

lemma only_sched_ready: "only_sched s s' \<Longrightarrow> ready L s' = ready L s"
  by (simp add: ready_def only_sched_state only_sched_current only_sched_idle)

subsection \<open>Deadlines\<close>

text \<open>The time each timer has left: the \<open>expires\<close> fields summed along the list.\<close>

fun dls :: "nat \<Rightarrow> (timer_id \<Rightarrow> timer) \<Rightarrow> timer_id list \<Rightarrow> (timer_id \<times> nat) list" where
  "dls acc tm [] = []"
| "dls acc tm (t # ts) = (t, acc + t_expires (tm t)) # dls (acc + t_expires (tm t)) tm ts"

definition deadlines :: "'a kernel_state_scheme \<Rightarrow> (timer_id \<times> nat) list" where
  "deadlines s = dls 0 (timers s) (timer_list s)"

definition timers_ok :: "'a kernel_state_scheme \<Rightarrow> bool" where
  "timers_ok s = (distinct (timer_list s) \<and> (\<forall>x \<in> set (deadlines s). 0 < snd x \<and> snd x < 2 ^ 32))"

definition insert_deadline :: "timer_id \<Rightarrow> nat \<Rightarrow> (timer_id \<times> nat) list \<Rightarrow> (timer_id \<times> nat) list" where
  "insert_deadline t e xs = takeWhile (\<lambda>x. snd x \<le> e) xs @ (t, e) # dropWhile (\<lambda>x. snd x \<le> e) xs"

lemma insert_deadline_split:
  obtains as bs where "xs = as @ bs" and "insert_deadline t e xs = as @ (t, e) # bs"
  unfolding insert_deadline_def by (metis takeWhile_dropWhile_id)

lemma set_insert_deadline: "set (insert_deadline t e xs) = insert (t, e) (set xs)"
  by (rule insert_deadline_split [of xs t e]) auto

lemma distinct_insert_deadline:
  "distinct (map fst xs) \<Longrightarrow> t \<notin> fst ` set xs \<Longrightarrow> distinct (map fst (insert_deadline t e xs))"
  by (rule insert_deadline_split [of xs t e]) auto

lemma map_fst_dls [simp]: "map fst (dls acc tm ts) = ts"
  by (induction ts arbitrary: acc) auto

lemma dls_cong: "(\<And>t. t \<in> set ts \<Longrightarrow> t_expires (tm t) = t_expires (tm' t)) \<Longrightarrow> dls acc tm ts = dls acc tm' ts"
  by (induction ts arbitrary: acc) auto

lemma dls_ge: "x \<in> set (dls acc tm ts) \<Longrightarrow> acc \<le> snd x"
  by (induction ts arbitrary: acc) fastforce+

lemma set_expires_simps [simp]:
  "t_expires (set_expires tm t e u) = (if u = t then e else t_expires (tm u))"
  "t_proc (set_expires tm t e u) = t_proc (tm u)"
  by (auto simp: set_expires_def)

lemma add_timer_loop_frame:
  assumes "add_timer_loop t tm ts = (tm', ts')" and "u \<notin> insert t (set ts)"
  shows "tm' u = tm u"
  using assms
  by (induction t tm ts arbitrary: tm' ts' rule: add_timer_loop.induct)
    (auto simp: set_expires_def split: if_splits prod.splits)

lemma add_timer_loop_dls:
  assumes "add_timer_loop t tm ts = (tm', ts')" and "t \<notin> set ts" and "distinct ts"
  shows "dls acc tm' ts' = insert_deadline t (acc + t_expires (tm t)) (dls acc tm ts)"
  using assms
proof (induction t tm ts arbitrary: acc tm' ts' rule: add_timer_loop.induct)
  case (1 t tm)
  then show ?case by (auto simp: insert_deadline_def)
next
  case (2 t tm n ts)
  show ?case
  proof (cases "t_expires (tm t) < t_expires (tm n)")
    case True
    then have tm': "tm' = set_expires tm n (t_expires (tm n) - t_expires (tm t))" "ts' = t # n # ts"
      using "2.prems" by auto
    have "dls (acc + t_expires (tm n)) tm' ts = dls (acc + t_expires (tm n)) tm ts"
      using "2.prems" tm' by (intro dls_cong) auto
    then show ?thesis using True tm' "2.prems" by (simp add: insert_deadline_def)
  next
    case False
    let ?tm = "set_expires tm t (t_expires (tm t) - t_expires (tm n))"
    obtain tm1 ts1 where r: "add_timer_loop t ?tm ts = (tm1, ts1)" by fastforce
    then have eq: "tm' = tm1" "ts' = n # ts1" using "2.prems" False by auto
    have "tm1 n = ?tm n" using add_timer_loop_frame [OF r, of n] "2.prems" by auto
    then have n: "t_expires (tm1 n) = t_expires (tm n)" using "2.prems" by simp
    have "dls (acc + t_expires (tm n)) tm1 ts1 =
        insert_deadline t (acc + t_expires (tm n) + t_expires (?tm t)) (dls (acc + t_expires (tm n)) ?tm ts)"
      using "2.IH" [OF False r] "2.prems" by auto
    also have "dls (acc + t_expires (tm n)) ?tm ts = dls (acc + t_expires (tm n)) tm ts"
      using "2.prems" by (intro dls_cong) auto
    also have "acc + t_expires (tm n) + t_expires (?tm t) = acc + t_expires (tm t)" using False by simp
    finally show ?thesis using eq n False by (simp add: insert_deadline_def)
  qed
qed

lemma dls_del:
  assumes "distinct ts" and "t \<in> set ts"
    and "\<forall>x \<in> set (dls acc tm ts). snd x < 2 ^ 32"
  shows "dls acc (case timer_next t ts of None \<Rightarrow> tm
      | Some n \<Rightarrow> set_expires tm n ((t_expires (tm n) + t_expires (tm t)) mod 2 ^ 32)) (removeAll t ts)
    = filter (\<lambda>x. fst x \<noteq> t) (dls acc tm ts)"
  using assms
proof (induction ts arbitrary: acc)
  case (Cons u us)
  show ?case
  proof (cases "u = t")
    case True
    then have tn: "t \<notin> set us" using Cons.prems by simp
    then have fl: "filter (\<lambda>x. fst x \<noteq> t) (dls b tm us) = dls b tm us" for b
      using map_fst_dls [of b tm us] by (intro filter_True) (metis image_eqI list.set_map)
    show ?thesis
    proof (cases us)
      case Nil
      with True show ?thesis by simp
    next
      case (Cons n vs)
      have "t_expires (tm n) + t_expires (tm t) < 2 ^ 32" using Cons Cons.prems(3) True by auto
      moreover have "dls b (set_expires tm n e) vs = dls b tm vs" for b e
        using Cons.prems Cons by (intro dls_cong) auto
      ultimately show ?thesis using True Cons tn fl [of "acc + t_expires (tm t)"]
        by (simp add: ac_simps removeAll_id)
    qed
  next
    case False
    let ?tm = "case timer_next t us of None \<Rightarrow> tm
      | Some n \<Rightarrow> set_expires tm n ((t_expires (tm n) + t_expires (tm t)) mod 2 ^ 32)"
    have "\<And>n. timer_next t us = Some n \<Longrightarrow> n \<in> set us"
      by (induction us) (auto split: if_splits list.splits)
    then have "t_expires (?tm u) = t_expires (tm u)" using Cons.prems by (auto split: option.splits)
    then show ?thesis using Cons.IH [of "acc + t_expires (tm u)"] Cons.prems False by auto
  qed
qed simp

lemma dls_pred:
  assumes "0 < b"
  shows "dls (b - 1) tm us = map (\<lambda>x. (fst x, snd x - 1)) (dls b tm us)"
  using assms
proof (induction us arbitrary: b)
  case (Cons u us)
  have eq: "b - 1 + t_expires (tm u) = b + t_expires (tm u) - 1" using Cons.prems by simp
  from Cons.IH [of "b + t_expires (tm u)"] Cons.prems show ?case by (simp add: eq del: One_nat_def)
qed simp

lemma dls_tick:
  assumes "0 < t_expires (tm t)" and "distinct (t # ts)"
  shows "dls acc (set_expires tm t (t_expires (tm t) - 1)) (t # ts) =
    map (\<lambda>x. (fst x, snd x - 1)) (dls acc tm (t # ts))"
proof -
  have eq: "acc + (t_expires (tm t) - 1) = acc + t_expires (tm t) - 1" using assms(1) by simp
  have "dls (acc + t_expires (tm t) - 1) (set_expires tm t (t_expires (tm t) - 1)) ts =
      dls (acc + t_expires (tm t) - 1) tm ts"
    using assms(2) by (intro dls_cong) auto
  with dls_pred [of "acc + t_expires (tm t)" tm ts] assms(1) show ?thesis
    by (simp add: eq del: One_nat_def)
qed

lemma dls_expired:
  "dls 0 tm (dropWhile (\<lambda>t. t_expires (tm t) = 0) ts) = filter (\<lambda>x. snd x \<noteq> 0) (dls 0 tm ts)"
proof (induction ts)
  case (Cons t ts)
  have "filter (\<lambda>x. snd x \<noteq> 0) (dls b tm us) = dls b tm us" if "0 < b" for b us
    using that dls_ge [of _ b tm us] by (intro filter_True) fastforce
  with Cons show ?case by simp
qed simp

lemma takeWhile_expired:
  "set (takeWhile (\<lambda>t. t_expires (tm t) = 0) ts) = {t. (t, 0) \<in> set (dls 0 tm ts)}"
proof (induction ts)
  case (Cons t ts)
  have "(u, 0) \<notin> set (dls b tm us)" if "0 < b" for b u us
    using that dls_ge [of "(u, 0)" b tm us] by auto
  with Cons show ?case by (cases "t_expires (tm t) = 0") auto
qed simp

lemma dls_zero_removed:
  assumes "t_expires (tm t) = 0"
  shows "dls acc tm (removeAll t ts) = filter (\<lambda>x. fst x \<noteq> t) (dls acc tm ts)"
  using assms by (induction ts arbitrary: acc) auto

lemma del_timer_deadlines:
  assumes ok: "timers_ok s" and t: "t \<in> set (timer_list s)"
  shows "deadlines (del_timer t s) = filter (\<lambda>x. fst x \<noteq> t) (deadlines s)"
proof (cases "t_expires (timers s t) = 0")
  case True
  with t show ?thesis by (simp add: del_timer_def deadlines_def dls_zero_removed)
next
  case False
  with t ok show ?thesis using dls_del [of "timer_list s" t 0 "timers s"]
    by (simp add: del_timer_def deadlines_def timers_ok_def)
qed

text \<open>What waking the process of a timer requires of it.\<close>

definition timer_wakes :: "paddr set \<Rightarrow> 'a kernel_state_scheme \<Rightarrow> timer_id \<Rightarrow> bool" where
  "timer_wakes L s t = (case t_proc (timers s t) of None \<Rightarrow> False
     | Some p \<Rightarrow> p \<in> L \<and> p_state (procs s p) \<noteq> PROC_ZOMBIE
         \<and> (p_wait_state (procs s p) = 0 \<or> p_wait_state (procs s p) AND WT_INTERRUPTED \<noteq> 0))"

locale kernel_sched = sched_policy cls inv
  for cls :: "'a kernel_state_scheme sched_class" and inv :: "'a kernel_state_scheme \<Rightarrow> paddr set \<Rightarrow> bool"
begin

lemma inv_upd_proc:
  assumes "inv s Q" and "\<And>p. p_rq (f p) = p_rq p"
  shows "inv (upd_proc p f s) Q"
  by (rule inv_procs [OF assms(1)]) (simp_all add: assms(2))

text \<open>Waking a process that is neither running, idle nor a zombie puts it into the queue.\<close>

lemma wakeup_proc_ok:
  assumes inv: "inv s (ready L s)" and p: "p \<in> L" and z: "p_state (procs s p) \<noteq> PROC_ZOMBIE"
  shows "\<exists>s'. wakeup_proc cls p s = Some s' \<and> inv s' (ready L s')
    \<and> p_state (procs s' p) = PROC_RUNNABLE \<and> current s' = current s \<and> idleproc s' = idleproc s
    \<and> kernel_state.more s' = kernel_state.more s \<and> timers s' = timers s \<and> timer_list s' = timer_list s
    \<and> (p_wait_state (procs s' p) = 0 \<or> p_wait_state (procs s' p) = p_wait_state (procs s p))
    \<and> (\<forall>q. stable (procs s' q) (procs s q))
    \<and> (\<forall>q. q \<noteq> p \<longrightarrow> p_state (procs s' q) = p_state (procs s q)
          \<and> p_wait_state (procs s' q) = p_wait_state (procs s q))"
proof (cases "p_state (procs s p) = PROC_RUNNABLE")
  case True
  with inv show ?thesis by (simp add: wakeup_proc_def)
next
  case False
  let ?s = "upd_proc p (\<lambda>p. p\<lparr>p_state := PROC_RUNNABLE, p_wait_state := 0\<rparr>) s"
  have inv1: "inv ?s (ready L s)" by (rule inv_upd_proc [OF inv]) simp
  have pn: "p \<notin> ready L s" using False by (simp add: ready_def)
  show ?thesis
  proof (cases "p = current s \<or> p = idleproc s")
    case True
    then have "ready L ?s = ready L s" by (auto simp: ready_def)
    moreover have "wakeup_proc cls p s = Some ?s"
      using z False True by (auto simp: wakeup_proc_def Let_def sched_class_enqueue_def)
    ultimately show ?thesis using inv1 by (simp add: stable_def)
  next
    case other: False
    then have rd: "ready L ?s = insert p (ready L s)" using p by (auto simp: ready_def)
    obtain s' where s': "sc_enqueue cls p ?s = Some s'" "inv s' (insert p (ready L s))" "only_sched ?s s'"
      using enqueue_ok [OF inv1 pn] by blast
    have more: "timers s' = timers s" "timer_list s' = timer_list s"
      "kernel_state.more s' = kernel_state.more s"
      using only_sched_kernel [OF s'(3)] by simp_all
    have "inv s' (ready L s')" using s'(2) only_sched_ready [OF s'(3)] rd by simp
    moreover have "wakeup_proc cls p s = Some s'"
      using s'(1) z False other by (simp add: wakeup_proc_def Let_def sched_class_enqueue_def)
    moreover have "stable (procs s' q) (procs s q)" for q
      by (rule stable_trans [OF only_sched_stable [OF s'(3)]]) (simp add: stable_def)
    ultimately show ?thesis
      using more only_sched_state [OF s'(3)] only_sched_wait [OF s'(3)]
        only_sched_current [OF s'(3)] only_sched_idle [OF s'(3)] by auto
  qed
qed

text \<open>
  \<open>schedule\<close> always returns; it hands the processor to a ready process (or keeps the running one
  when it is runnable), and to the idle process only when none is left.
\<close>

lemma schedule_ok:
  assumes inv: "inv s (ready L s)" and cur: "current s \<in> L"
  shows "\<exists>s'. schedule cls s = Some s' \<and> inv s' (ready L s')
    \<and> (\<forall>q. p_state (procs s' q) = p_state (procs s q))
    \<and> (let C = ready L s \<union> (if p_state (procs s (current s)) = PROC_RUNNABLE \<and> current s \<noteq> idleproc s
                           then {current s} else {})
       in if C = {} then current s' = idleproc s else current s' \<in> C)
    \<and> idleproc s' = idleproc s \<and> timer_list s' = timer_list s \<and> timers s' = timers s
    \<and> (\<forall>q. p_wait_state (procs s' q) = p_wait_state (procs s q))
    \<and> kernel_state.more s' = kernel_state.more s \<and> (\<forall>q. stable (procs s' q) (procs s q))"
proof -
  define C where "C = ready L s \<union> (if p_state (procs s (current s)) = PROC_RUNNABLE
     \<and> current s \<noteq> idleproc s then {current s} else {})"
  let ?s0 = "upd_proc (current s) (\<lambda>p. p\<lparr>p_need_resched := False\<rparr>) s"
  have inv0: "inv ?s0 (ready L s)" by (rule inv_upd_proc [OF inv]) simp
  have os0: "only_sched s ?s0" by (simp add: only_sched_def sched_eq_def)
  obtain s1 where s1: "(if p_state (procs ?s0 (current ?s0)) = PROC_RUNNABLE
      then sched_class_enqueue cls (current ?s0) ?s0 else Some ?s0) = Some s1"
    and inv1: "inv s1 C" and os1: "only_sched s s1"
  proof (cases "p_state (procs s (current s)) = PROC_RUNNABLE \<and> current s \<noteq> idleproc s")
    case True
    then have "current s \<notin> ready L s" by (simp add: ready_def)
    from enqueue_ok [OF inv0 this] obtain s1 where "sc_enqueue cls (current s) ?s0 = Some s1"
      "inv s1 (insert (current s) (ready L s))" "only_sched ?s0 s1" by blast
    with True os0 only_sched_trans show thesis
      by (intro that [of s1]) (auto simp: sched_class_enqueue_def C_def)
  next
    case False
    with inv0 os0 show thesis by (intro that [of ?s0]) (auto simp: sched_class_enqueue_def C_def)
  qed
  have "\<exists>nxt next s2 s3. sched_class_pick_next cls s1 = Some (s2, next)
      \<and> (case next of None \<Rightarrow> Some s2 | Some p \<Rightarrow> sched_class_dequeue cls p s2) = Some s3
      \<and> (case next of None \<Rightarrow> idleproc s3 | Some p \<Rightarrow> p) = nxt
      \<and> (if C = {} then nxt = idleproc s else nxt \<in> C) \<and> inv s3 (C - {nxt}) \<and> only_sched s s3"
  proof (cases "C = {}")
    case True
    then have "sched_class_pick_next cls s1 = Some (s1, None)"
      using pick_empty [of s1] inv1 by (simp add: sched_class_pick_next_def)
    then show ?thesis using True inv1 os1 only_sched_idle [OF os1]
      by (intro exI [of _ "idleproc s"] exI [of _ None] exI [of _ s1]) auto
  next
    case False
    then obtain p s2 s3 where "p \<in> C" "sc_pick_next cls s1 = Some (s2, Some p)"
      "sc_dequeue cls p s2 = Some s3" "inv s3 (C - {p})" "only_sched s1 s3"
      using pick_dequeue [OF inv1] by blast
    then show ?thesis using False only_sched_trans [OF os1]
      by (intro exI [of _ p] exI [of _ "Some p"] exI [of _ s2] exI [of _ s3])
        (auto simp: sched_class_pick_next_def sched_class_dequeue_def)
  qed
  then obtain nxt nx s2 s3 where n: "sched_class_pick_next cls s1 = Some (s2, nx)"
      "(case nx of None \<Rightarrow> Some s2 | Some p \<Rightarrow> sched_class_dequeue cls p s2) = Some s3"
      "(case nx of None \<Rightarrow> idleproc s3 | Some p \<Rightarrow> p) = nxt"
      "if C = {} then nxt = idleproc s else nxt \<in> C" "inv s3 (C - {nxt})" "only_sched s s3" by blast
  let ?s4 = "upd_proc nxt (\<lambda>p. p\<lparr>p_runs := p_runs p + 1\<rparr>) s3"
  let ?s5 = "if nxt \<noteq> current ?s4 then proc_run nxt ?s4 else ?s4"
  have run: "schedule cls s = Some ?s5" using s1 n(1,2,3) by (simp add: schedule_def Let_def)
  have st: "p_state (procs ?s5 q) = p_state (procs s q)" for q
    using only_sched_state [OF n(6)] by (simp add: proc_run_def)
  have wt: "p_wait_state (procs ?s5 q) = p_wait_state (procs s q)" for q
    using only_sched_wait [OF n(6)] by (simp add: proc_run_def)
  have stb: "stable (procs ?s5 q) (procs s q)" for q
    by (rule stable_trans [OF _ only_sched_stable [OF n(6)]]) (simp add: stable_def proc_run_def)
  have cur5: "current ?s5 = nxt" "idleproc ?s5 = idleproc s"
    using only_sched_idle [OF n(6)] by (auto simp: proc_run_def)
  have "ready L ?s5 = C - {nxt}"
    using n(4) cur st cur5 by (auto simp: ready_def C_def split: if_splits)
  moreover have "inv ?s5 (C - {nxt})"
    by (rule inv_procs [OF n(5)]) (simp_all add: proc_run_def)
  moreover have "timer_list ?s5 = timer_list s" "timers ?s5 = timers s"
    "kernel_state.more ?s5 = kernel_state.more s"
    using only_sched_kernel [OF n(6)] by (simp_all add: proc_run_def)
  ultimately show ?thesis using run st wt stb cur5 n(4) by (auto simp: C_def [symmetric] Let_def)
qed

text \<open>A process that has left the runnable state gives the processor away.\<close>

lemma schedule_sleeping:
  assumes inv: "inv s (ready L s)" and cur: "current s \<in> L" and "p_state (procs s (current s)) \<noteq> PROC_RUNNABLE"
  obtains s' where "schedule cls s = Some s'" and "inv s' (ready L s')"
    and "\<forall>q. p_state (procs s' q) = p_state (procs s q)"
    and "\<forall>q. p_wait_state (procs s' q) = p_wait_state (procs s q)"
    and "current s' \<in> insert (idleproc s) (ready L s)" and "idleproc s' = idleproc s"
    and "kernel_state.more s' = kernel_state.more s" and "\<forall>q. stable (procs s' q) (procs s q)"
proof -
  obtain s' where s': "schedule cls s = Some s'" "inv s' (ready L s')"
    "\<forall>q. p_state (procs s' q) = p_state (procs s q)"
    "let C = ready L s \<union> (if p_state (procs s (current s)) = PROC_RUNNABLE \<and> current s \<noteq> idleproc s
                           then {current s} else {})
       in if C = {} then current s' = idleproc s else current s' \<in> C"
    "idleproc s' = idleproc s" "\<forall>q. p_wait_state (procs s' q) = p_wait_state (procs s q)"
    "kernel_state.more s' = kernel_state.more s" "\<forall>q. stable (procs s' q) (procs s q)"
    using schedule_ok [OF inv cur] by (elim exE conjE)
  have "current s' \<in> insert (idleproc s) (ready L s)"
    using s'(4) assms(3) by (simp add: Let_def split: if_splits)
  with s' that show thesis by blast
qed

text \<open>The loop over the expired timers wakes their processes and unlinks them.\<close>

lemma run_expired_ok:
  assumes "inv s (ready L s)" and "timer_list s = ts" and "distinct ts"
    and "\<forall>t \<in> set (takeWhile (\<lambda>t. t_expires (timers s t) = 0) ts). timer_wakes L s t"
  shows "\<exists>s'. run_expired cls ts s = Some s' \<and> inv s' (ready L s') \<and> timers s' = timers s
    \<and> timer_list s' = dropWhile (\<lambda>t. t_expires (timers s t) = 0) ts \<and> current s' = current s
    \<and> idleproc s' = idleproc s
    \<and> (\<forall>t p. t \<in> set (takeWhile (\<lambda>t. t_expires (timers s t) = 0) ts) \<and> t_proc (timers s t) = Some p \<longrightarrow>
           p_state (procs s' p) = PROC_RUNNABLE)
    \<and> (\<forall>p. p_state (procs s p) = PROC_RUNNABLE \<longrightarrow> p_state (procs s' p) = PROC_RUNNABLE)"
  using assms
proof (induction ts arbitrary: s)
  case Nil
  then show ?case by simp
next
  case (Cons t ts)
  show ?case
  proof (cases "t_expires (timers s t) = 0")
    case False
    with Cons.prems show ?thesis by simp
  next
    case True
    have "timer_wakes L s t" using Cons.prems(4) True by simp
    then obtain p where p: "t_proc (timers s t) = Some p" "p \<in> L" "p_state (procs s p) \<noteq> PROC_ZOMBIE"
      "p_wait_state (procs s p) = 0 \<or> p_wait_state (procs s p) AND WT_INTERRUPTED \<noteq> 0"
      by (auto simp: timer_wakes_def split: option.splits)
    obtain s1 where s1: "wakeup_proc cls p s = Some s1" "inv s1 (ready L s1)"
      "p_state (procs s1 p) = PROC_RUNNABLE" "current s1 = current s" "idleproc s1 = idleproc s"
      "timers s1 = timers s" "timer_list s1 = timer_list s"
      "\<forall>q. q \<noteq> p \<longrightarrow> p_state (procs s1 q) = p_state (procs s q)
          \<and> p_wait_state (procs s1 q) = p_wait_state (procs s q)"
      "p_wait_state (procs s1 p) = 0 \<or> p_wait_state (procs s1 p) = p_wait_state (procs s p)"
      using wakeup_proc_ok [OF Cons.prems(1) p(2,3)] by blast
    let ?s2 = "del_timer t s1"
    have s2: "?s2 = s1\<lparr>timer_list := ts\<rparr>"
      using s1(6,7) Cons.prems(2,3) True by (cases s1) (simp add: del_timer_def removeAll_id)
    have "timer_wakes L ?s2 u" if "u \<in> set (takeWhile (\<lambda>t. t_expires (timers s t) = 0) ts)" for u
      using Cons.prems(4) that True s1 s2 p(4) unfolding timer_wakes_def
      by (auto split: option.splits) (metis proc_state.distinct(11))+
    moreover have "inv ?s2 (ready L ?s2)"
      using s1(2) s2 inv_procs [OF s1(2), of ?s2] by (simp add: ready_def)
    ultimately obtain s' where s': "run_expired cls ts ?s2 = Some s'" "inv s' (ready L s')"
      "timers s' = timers s" "timer_list s' = dropWhile (\<lambda>t. t_expires (timers s t) = 0) ts"
      "current s' = current s" "idleproc s' = idleproc s"
      "\<forall>t p. t \<in> set (takeWhile (\<lambda>t. t_expires (timers s t) = 0) ts) \<and> t_proc (timers s t) = Some p \<longrightarrow>
           p_state (procs s' p) = PROC_RUNNABLE"
      "\<forall>q. p_state (procs s1 q) = PROC_RUNNABLE \<longrightarrow> p_state (procs s' q) = PROC_RUNNABLE"
      using Cons.IH [of ?s2] Cons.prems(3) s2 s1 by auto
    have "p_state (procs s' p) = PROC_RUNNABLE" using s'(8) s1(3) by blast
    moreover have "\<forall>q. p_state (procs s q) = PROC_RUNNABLE \<longrightarrow> p_state (procs s' q) = PROC_RUNNABLE"
      using s'(8) s1(3,8) by metis
    moreover have "run_expired cls (t # ts) s = Some s'" using True p s1(1) s'(1) by auto
    ultimately show ?thesis using s' True p by auto
  qed
qed

lemma proc_tick_ok:
  assumes "inv s Q"
  shows "inv (sched_class_proc_tick cls p s) Q \<and> only_sched s (sched_class_proc_tick cls p s)"
proof (cases "p = idleproc s")
  case True
  have "only_sched s (upd_proc p (\<lambda>p. p\<lparr>p_need_resched := True\<rparr>) s)"
    by (simp add: only_sched_def sched_eq_def)
  with True inv_upd_proc [OF assms, of "\<lambda>p. p\<lparr>p_need_resched := True\<rparr>" p] show ?thesis
    by (simp add: sched_class_proc_tick_def)
next
  case False
  with tick_ok [OF assms] show ?thesis by (simp add: sched_class_proc_tick_def)
qed

text \<open>One clock tick: every deadline comes one closer, the timers that run out wake their process.\<close>

lemma run_timer_list_ok:
  assumes inv: "inv s (ready L s)" and ok: "timers_ok s"
    and wakes: "\<forall>x \<in> set (deadlines s). snd x = 1 \<longrightarrow> timer_wakes L s (fst x)"
  shows "\<exists>s'. run_timer_list cls s = Some s' \<and> inv s' (ready L s') \<and> timers_ok s'
    \<and> deadlines s' = filter (\<lambda>x. snd x \<noteq> 0) (map (\<lambda>x. (fst x, snd x - 1)) (deadlines s))
    \<and> (\<forall>t p. (t, 1) \<in> set (deadlines s) \<and> t_proc (timers s t) = Some p \<longrightarrow>
          p_state (procs s' p) = PROC_RUNNABLE)"
proof -
  obtain s1 where s1: "(case timer_list s of [] \<Rightarrow> Some s
      | t # ts \<Rightarrow> do { kassert (t_expires (timers s t) \<noteq> 0);
           let s = s\<lparr>timers := set_expires (timers s) t (t_expires (timers s t) - 1)\<rparr>;
           run_expired cls (t # ts) s }) = Some s1"
    and inv1: "inv s1 (ready L s1)"
    and d1: "deadlines s1 = filter (\<lambda>x. snd x \<noteq> 0) (map (\<lambda>x. (fst x, snd x - 1)) (deadlines s))"
    and w1: "\<forall>t p. (t, 1) \<in> set (deadlines s) \<and> t_proc (timers s t) = Some p \<longrightarrow>
          p_state (procs s1 p) = PROC_RUNNABLE"
    and dist1: "distinct (timer_list s1)"
  proof (cases "timer_list s")
    case Nil
    with inv show thesis by (intro that [of s]) (simp_all add: deadlines_def)
  next
    case (Cons t ts)
    let ?tm = "set_expires (timers s) t (t_expires (timers s t) - 1)"
    let ?s = "s\<lparr>timers := ?tm\<rparr>"
    have pos: "0 < t_expires (timers s t)" and dist: "distinct (t # ts)"
      using ok Cons by (auto simp: timers_ok_def deadlines_def)
    have dl: "dls 0 ?tm (t # ts) = map (\<lambda>x. (fst x, snd x - 1)) (deadlines s)"
      using dls_tick [of "timers s" t ts 0] pos dist Cons by (simp add: deadlines_def)
    have inv0: "inv ?s (ready L ?s)"
      using inv_procs [OF inv, of ?s] by (simp add: ready_def)
    have exp: "set (takeWhile (\<lambda>t. t_expires (?tm t) = 0) (t # ts)) = {u. (u, 1) \<in> set (deadlines s)}"
    proof -
      have pos: "\<forall>x \<in> set (deadlines s). 0 < snd x" using ok by (auto simp: timers_ok_def)
      have "(u, 0) \<in> set (map (\<lambda>x. (fst x, snd x - 1)) (deadlines s)) \<longleftrightarrow> (u, 1) \<in> set (deadlines s)" for u
      proof
        assume "(u, 0) \<in> set (map (\<lambda>x. (fst x, snd x - 1)) (deadlines s))"
        then obtain x where x: "x \<in> set (deadlines s)" "u = fst x" "snd x - 1 = 0" by auto
        moreover from this pos have "snd x = 1" by (metis One_nat_def Suc_pred)
        ultimately show "(u, 1) \<in> set (deadlines s)" by (metis prod.collapse)
      qed force
      then show ?thesis unfolding takeWhile_expired dl by simp
    qed
    have "\<forall>u \<in> set (takeWhile (\<lambda>t. t_expires (timers ?s t) = 0) (t # ts)). timer_wakes L ?s u"
    proof
      fix u assume "u \<in> set (takeWhile (\<lambda>t. t_expires (timers ?s t) = 0) (t # ts))"
      moreover have "timers ?s = ?tm" by simp
      ultimately have "(u, 1) \<in> set (deadlines s)" using exp by (metis mem_Collect_eq)
      then have "timer_wakes L s u" using wakes by (metis fst_conv snd_conv)
      then show "timer_wakes L ?s u" by (simp add: timer_wakes_def split: option.splits)
    qed
    from run_expired_ok [OF inv0 _ dist this] Cons obtain s1 where r: "run_expired cls (t # ts) ?s = Some s1"
      "inv s1 (ready L s1)" "timers s1 = ?tm"
      "timer_list s1 = dropWhile (\<lambda>t. t_expires (?tm t) = 0) (t # ts)"
      "\<forall>u p. u \<in> set (takeWhile (\<lambda>t. t_expires (?tm t) = 0) (t # ts)) \<and> t_proc (?tm u) = Some p \<longrightarrow>
           p_state (procs s1 p) = PROC_RUNNABLE" by auto
    show thesis
    proof (rule that [of s1])
      show "deadlines s1 = filter (\<lambda>x. snd x \<noteq> 0) (map (\<lambda>x. (fst x, snd x - 1)) (deadlines s))"
        unfolding deadlines_def [of s1] r(3) r(4) dls_expired dl ..
      show "\<forall>t p. (t, 1) \<in> set (deadlines s) \<and> t_proc (timers s t) = Some p \<longrightarrow>
          p_state (procs s1 p) = PROC_RUNNABLE"
        using r(5) exp by auto
      show "distinct (timer_list s1)" using r(4) dist by (metis distinct_dropWhile)
    qed (use r Cons pos in auto)
  qed
  let ?s' = "sched_class_proc_tick cls (current s1) s1"
  have tick: "inv ?s' (ready L s1)" "only_sched s1 ?s'" using proc_tick_ok [OF inv1] by auto
  have d: "deadlines ?s' = deadlines s1" "timer_list ?s' = timer_list s1"
    using only_sched_kernel [OF tick(2)] by (simp_all add: deadlines_def)
  have "timers_ok ?s'" using ok dist1 unfolding timers_ok_def d d1 by auto
  moreover have "run_timer_list cls s = Some ?s'" using s1 by (simp add: run_timer_list_def)
  moreover have "inv ?s' (ready L ?s')" using tick only_sched_ready [OF tick(2)] by simp
  ultimately show ?thesis using d d1 w1 only_sched_state [OF tick(2)] by auto
qed

end

interpretation stride_kernel: kernel_sched stride_sched_class stride_inv
  by unfold_locales

interpretation rr_kernel: kernel_sched RR_sched_class rr_inv
  by unfold_locales

subsection \<open>Properties\<close>

definition demo_kernel :: kernel_state where
  "demo_kernel = \<lparr>procs = procs demo_sched, rq = rq demo_sched, current = 1, idleproc = 0, initproc = 1,
     timers = (\<lambda>t. \<lparr>t_expires = (if t = 7 then 1 else 3), t_proc = Some 2\<rparr>), timer_list = [7], satp = 0\<rparr>"

lemma demo_kernel_inv: "stride_inv demo_kernel (ready {0, 1, 2} demo_kernel)"
proof -
  have "ready {0, 1, 2} demo_kernel = {2}"
    by (auto simp: ready_def demo_kernel_def demo_sched_def demo_proc_def)
  moreover have "stride_rep demo_kernel (Node Leaf 2 Leaf)"
    using demo_sched_rep by (simp add: stride_rep_def demo_kernel_def)
  ultimately show ?thesis by (auto simp: stride_inv_def)
qed

text \<open>
  C6. \<open>schedule\<close> always returns with the run queue holding exactly the runnable processes that
  do not run; the processor goes to a process that was ready (or stays with the running one if
  that is runnable), and to the idle process only when there is none; no process changes state.
\<close>

theorem schedule_runs_ready_process:
  assumes "stride_inv s (ready L s)" and "current s \<in> L"
  shows "\<exists>s'. schedule stride_sched_class s = Some s' \<and> stride_inv s' (ready L s')
    \<and> (\<forall>q. p_state (procs s' q) = p_state (procs s q))
    \<and> (let C = ready L s \<union> (if p_state (procs s (current s)) = PROC_RUNNABLE \<and> current s \<noteq> idleproc s
                           then {current s} else {})
       in if C = {} then current s' = idleproc s else current s' \<in> C)"
  using stride_kernel.schedule_ok [OF assms] by blast

theorem schedule_runs_ready_process_witness:
  "\<exists>s'. schedule stride_sched_class demo_kernel = Some s' \<and> current s' \<in> {1, 2}"
proof -
  have "ready {0, 1, 2} demo_kernel = {2}" "current demo_kernel = 1" "idleproc demo_kernel = 0"
    "p_state (procs demo_kernel 1) = PROC_RUNNABLE"
    by (auto simp: ready_def demo_kernel_def demo_sched_def demo_proc_def)
  with schedule_runs_ready_process [OF demo_kernel_inv] show ?thesis by (fastforce simp: Let_def)
qed

text \<open>
  C8. A clock tick brings every timer of the delta-encoded list one tick closer, removes exactly
  the timers whose time is over, and makes the process of each of them runnable; the list stays
  well formed and the run queue exact.
\<close>

theorem timer_tick:
  assumes "stride_inv s (ready L s)" and "timers_ok s"
    and "\<forall>x \<in> set (deadlines s). snd x = 1 \<longrightarrow> timer_wakes L s (fst x)"
  shows "\<exists>s'. run_timer_list stride_sched_class s = Some s' \<and> stride_inv s' (ready L s') \<and> timers_ok s'
    \<and> deadlines s' = filter (\<lambda>x. snd x \<noteq> 0) (map (\<lambda>x. (fst x, snd x - 1)) (deadlines s))
    \<and> (\<forall>t p. (t, 1) \<in> set (deadlines s) \<and> t_proc (timers s t) = Some p \<longrightarrow>
          p_state (procs s' p) = PROC_RUNNABLE)"
  using stride_kernel.run_timer_list_ok [OF assms] .

theorem timer_tick_witness:
  "\<exists>s'. run_timer_list stride_sched_class demo_kernel = Some s' \<and> deadlines s' = []"
proof -
  have d: "deadlines demo_kernel = [(7, 1)]" by (simp add: deadlines_def demo_kernel_def)
  have "timers_ok demo_kernel" unfolding timers_ok_def d by (simp add: demo_kernel_def)
  moreover have "\<forall>x \<in> set (deadlines demo_kernel). snd x = 1 \<longrightarrow> timer_wakes {0, 1, 2} demo_kernel (fst x)"
    unfolding d by (simp add: timer_wakes_def demo_kernel_def demo_sched_def demo_proc_def)
  ultimately show ?thesis using timer_tick [OF demo_kernel_inv] d by fastforce
qed

text \<open>
  \<open>add_timer\<close> keeps the list ordered by deadline: the new timer gets exactly the time it
  asked for, after every timer that is due no later, and no other deadline moves;
  \<open>del_timer\<close> takes a timer off the list and leaves every other deadline as it was.
\<close>

theorem timer_insert_delete:
  assumes "timers_ok s" and "t \<notin> set (timer_list s)" and "t_proc (timers s t) \<noteq> None"
    and "0 < t_expires (timers s t)" and "t_expires (timers s t) < 2 ^ 32"
  shows "\<exists>s'. add_timer t s = Some s' \<and> timers_ok s'
    \<and> deadlines s' = insert_deadline t (t_expires (timers s t)) (deadlines s)
    \<and> (\<forall>u \<in> set (timer_list s'). deadlines (del_timer u s') = filter (\<lambda>x. fst x \<noteq> u) (deadlines s'))"
proof -
  obtain tm ts where r: "add_timer_loop t (timers s) (timer_list s) = (tm, ts)" by fastforce
  let ?s = "s\<lparr>timers := tm, timer_list := ts\<rparr>"
  have run: "add_timer t s = Some ?s" using r assms by (auto simp: add_timer_def)
  have d: "deadlines ?s = insert_deadline t (t_expires (timers s t)) (deadlines s)"
    using add_timer_loop_dls [OF r, of 0] assms(1,2) by (simp add: deadlines_def timers_ok_def)
  have "map fst (deadlines s) = timer_list s" "map fst (deadlines ?s) = ts" by (simp_all add: deadlines_def)
  then have "distinct ts"
    using distinct_insert_deadline [of "deadlines s" t "t_expires (timers s t)"] assms(1,2) d
    by (metis list.set_map timers_ok_def)
  then have ok: "timers_ok ?s" using assms d by (auto simp: timers_ok_def set_insert_deadline)
  have "deadlines (del_timer u ?s) = filter (\<lambda>x. fst x \<noteq> u) (deadlines ?s)" if "u \<in> set ts" for u
    using del_timer_deadlines [OF ok] that by simp
  with run d ok show ?thesis by auto
qed

theorem timer_insert_delete_witness:
  "\<exists>s'. add_timer 8 demo_kernel = Some s' \<and> deadlines s' = [(7, 1), (8, 3)]"
proof -
  have d: "deadlines demo_kernel = [(7, 1)]" by (simp add: deadlines_def demo_kernel_def)
  have "timers_ok demo_kernel" unfolding timers_ok_def d by (simp add: demo_kernel_def)
  moreover have "8 \<notin> set (timer_list demo_kernel)" "t_proc (timers demo_kernel 8) \<noteq> None"
    "t_expires (timers demo_kernel 8) = 3" by (simp_all add: demo_kernel_def)
  moreover have "insert_deadline 8 3 [(7, 1)] = [(7, 1), (8, 3)]" by (simp add: insert_deadline_def)
  ultimately show ?thesis using timer_insert_delete [of demo_kernel 8] d by auto
qed

end
