(* ===== verification/Sync.thy ===== *)
theory Sync
  imports Sched
begin

section \<open>Wait queues, semaphores and monitors: \<open>kern/sync\<close>\<close>

text \<open>
  Wait queues are circular lists threaded through the \<open>wait_t\<close> objects on the stacks of the
  sleeping processes; the model keeps them at the level of the links because the code's
  assertions look at the links. A semaphore is addressed by the number of its wait queue.
  \<open>__down\<close> is cut where it calls \<open>schedule\<close>: \<open>down_enter\<close> runs up to the switch, \<open>down_leave\<close>
  is what the process executes when it runs again.
\<close>

subsection \<open>Wait queues: \<open>wait.c\<close>\<close>

record wait_t =
  w_proc :: "paddr option"
  wakeup_flags :: u32
  w_queue :: "nat option"

datatype wqnode = WHead nat | WLink nat

record sync_state = kernel_state +
  wlinks :: "wqnode links"
  waits :: "nat \<Rightarrow> wait_t"
  sem_value :: "nat \<Rightarrow> int"

definition upd_wait :: "nat \<Rightarrow> (wait_t \<Rightarrow> wait_t) \<Rightarrow> 'a sync_state_scheme \<Rightarrow> 'a sync_state_scheme" where
  "upd_wait w f s = s\<lparr>waits := (waits s)(w := f (waits s w))\<rparr>"

definition wait_init :: "nat \<Rightarrow> paddr \<Rightarrow> 'a sync_state_scheme \<Rightarrow> 'a sync_state_scheme" where
  "wait_init w proc s =
     (let s = upd_wait w (\<lambda>x. x\<lparr>w_proc := Some proc, wakeup_flags := WT_INTERRUPTED\<rparr>) s
      in s\<lparr>wlinks := list_init (wlinks s) (WLink w)\<rparr>)"

definition wait_queue_init :: "nat \<Rightarrow> 'a sync_state_scheme \<Rightarrow> 'a sync_state_scheme" where
  "wait_queue_init q s = s\<lparr>wlinks := list_init (wlinks s) (WHead q)\<rparr>"

definition wait_queue_add :: "nat \<Rightarrow> nat \<Rightarrow> 'a sync_state_scheme \<Rightarrow> 'a sync_state_scheme option" where
  "wait_queue_add q w s =
     do { kassert (list_empty (wlinks s) (WLink w) \<and> w_proc (waits s w) \<noteq> None);
          let s = upd_wait w (\<lambda>x. x\<lparr>w_queue := Some q\<rparr>) s;
          Some (s\<lparr>wlinks := list_add_before (wlinks s) (WHead q) (WLink w)\<rparr>) }"

definition wait_queue_del :: "nat \<Rightarrow> nat \<Rightarrow> 'a sync_state_scheme \<Rightarrow> 'a sync_state_scheme option" where
  "wait_queue_del q w s =
     do { kassert (\<not> list_empty (wlinks s) (WLink w) \<and> w_queue (waits s w) = Some q);
          Some (s\<lparr>wlinks := list_del_init (wlinks s) (WLink w)\<rparr>) }"

definition wait_of :: "nat \<Rightarrow> wqnode \<Rightarrow> nat option" where
  "wait_of q le = (case le of WLink w \<Rightarrow> Some w | WHead _ \<Rightarrow> None)"

definition wait_queue_next :: "nat \<Rightarrow> nat \<Rightarrow> 'a sync_state_scheme \<Rightarrow> nat option option" where
  "wait_queue_next q w s =
     do { kassert (\<not> list_empty (wlinks s) (WLink w) \<and> w_queue (waits s w) = Some q);
          Some (wait_of q (list_next (wlinks s) (WLink w))) }"

definition wait_queue_prev :: "nat \<Rightarrow> nat \<Rightarrow> 'a sync_state_scheme \<Rightarrow> nat option option" where
  "wait_queue_prev q w s =
     do { kassert (\<not> list_empty (wlinks s) (WLink w) \<and> w_queue (waits s w) = Some q);
          Some (wait_of q (list_prev (wlinks s) (WLink w))) }"

definition wait_queue_first :: "nat \<Rightarrow> 'a sync_state_scheme \<Rightarrow> nat option" where
  "wait_queue_first q s = wait_of q (list_next (wlinks s) (WHead q))"

definition wait_queue_last :: "nat \<Rightarrow> 'a sync_state_scheme \<Rightarrow> nat option" where
  "wait_queue_last q s = wait_of q (list_prev (wlinks s) (WHead q))"

definition wait_queue_empty :: "nat \<Rightarrow> 'a sync_state_scheme \<Rightarrow> bool" where
  "wait_queue_empty q s = list_empty (wlinks s) (WHead q)"

definition wait_in_queue :: "nat \<Rightarrow> 'a sync_state_scheme \<Rightarrow> bool" where
  "wait_in_queue w s = (\<not> list_empty (wlinks s) (WLink w))"

definition wakeup_wait :: "'a sync_state_scheme sched_class \<Rightarrow> nat \<Rightarrow> nat \<Rightarrow> u32 \<Rightarrow> bool \<Rightarrow>
    'a sync_state_scheme \<Rightarrow> 'a sync_state_scheme option" where
  "wakeup_wait cls q w flags del s =
     do { s \<leftarrow> (if del then wait_queue_del q w s else Some s);
          let s = upd_wait w (\<lambda>x. x\<lparr>wakeup_flags := flags\<rparr>) s;
          p \<leftarrow> w_proc (waits s w);
          wakeup_proc cls p s }"

definition wakeup_first :: "'a sync_state_scheme sched_class \<Rightarrow> nat \<Rightarrow> u32 \<Rightarrow> bool \<Rightarrow>
    'a sync_state_scheme \<Rightarrow> 'a sync_state_scheme option" where
  "wakeup_first cls q flags del s =
     (case wait_queue_first q s of None \<Rightarrow> Some s | Some w \<Rightarrow> wakeup_wait cls q w flags del s)"

text \<open>The two loops of \<open>wakeup_queue\<close>.\<close>

partial_function (option) wakeup_del_loop :: "'a sync_state_scheme sched_class \<Rightarrow> nat \<Rightarrow> u32 \<Rightarrow> nat \<Rightarrow>
    'a sync_state_scheme \<Rightarrow> 'a sync_state_scheme option" where
  "wakeup_del_loop cls q flags w s =
     Option.bind (wakeup_wait cls q w flags True s)
       (\<lambda>s. case wait_queue_first q s of None \<Rightarrow> Some s | Some w \<Rightarrow> wakeup_del_loop cls q flags w s)"

partial_function (option) wakeup_next_loop :: "'a sync_state_scheme sched_class \<Rightarrow> nat \<Rightarrow> u32 \<Rightarrow> nat \<Rightarrow>
    'a sync_state_scheme \<Rightarrow> 'a sync_state_scheme option" where
  "wakeup_next_loop cls q flags w s =
     Option.bind (wakeup_wait cls q w flags False s)
       (\<lambda>s. Option.bind (wait_queue_next q w s)
          (\<lambda>n. case n of None \<Rightarrow> Some s | Some w \<Rightarrow> wakeup_next_loop cls q flags w s))"

definition wakeup_queue :: "'a sync_state_scheme sched_class \<Rightarrow> nat \<Rightarrow> u32 \<Rightarrow> bool \<Rightarrow>
    'a sync_state_scheme \<Rightarrow> 'a sync_state_scheme option" where
  "wakeup_queue cls q flags del s =
     (case wait_queue_first q s of
        None \<Rightarrow> Some s
      | Some w \<Rightarrow> if del then wakeup_del_loop cls q flags w s else wakeup_next_loop cls q flags w s)"

definition wait_current_set :: "nat \<Rightarrow> nat \<Rightarrow> u32 \<Rightarrow> 'a sync_state_scheme \<Rightarrow> 'a sync_state_scheme option" where
  "wait_current_set q w wait_state s =
     (let s = wait_init w (current s) s;
          s = upd_proc (current s) (\<lambda>p. p\<lparr>p_state := PROC_SLEEPING, p_wait_state := wait_state\<rparr>) s
      in wait_queue_add q w s)"

definition wait_current_del :: "nat \<Rightarrow> nat \<Rightarrow> 'a sync_state_scheme \<Rightarrow> 'a sync_state_scheme option" where
  "wait_current_del q w s = (if wait_in_queue w s then wait_queue_del q w s else Some s)"

subsection \<open>Semaphores: \<open>sem.c\<close>\<close>

definition sem_init :: "nat \<Rightarrow> int \<Rightarrow> 'a sync_state_scheme \<Rightarrow> 'a sync_state_scheme" where
  "sem_init q val s = wait_queue_init q (s\<lparr>sem_value := (sem_value s)(q := val)\<rparr>)"

definition up_raw :: "'a sync_state_scheme sched_class \<Rightarrow> nat \<Rightarrow> u32 \<Rightarrow>
    'a sync_state_scheme \<Rightarrow> 'a sync_state_scheme option" where
  "up_raw cls q wait_state s =
     (case wait_queue_first q s of
        None \<Rightarrow> Some (s\<lparr>sem_value := (sem_value s)(q := sem_value s q + 1)\<rparr>)
      | Some w \<Rightarrow>
          do { p \<leftarrow> w_proc (waits s w);
               kassert (p_wait_state (procs s p) = wait_state);
               wakeup_wait cls q w wait_state True s })"

text \<open>\<open>__down\<close> up to the switch: the flag tells whether it returned without sleeping.\<close>

definition down_enter :: "'a sync_state_scheme sched_class \<Rightarrow> nat \<Rightarrow> nat \<Rightarrow> u32 \<Rightarrow>
    'a sync_state_scheme \<Rightarrow> ('a sync_state_scheme \<times> bool) option" where
  "down_enter cls q w wait_state s =
     (if sem_value s q > 0 then Some (s\<lparr>sem_value := (sem_value s)(q := sem_value s q - 1)\<rparr>, True)
      else do { s \<leftarrow> wait_current_set q w wait_state s;
                s \<leftarrow> schedule cls s;
                Some (s, False) })"

text \<open>\<open>__down\<close> from the return of \<open>schedule\<close> on.\<close>

definition down_leave :: "nat \<Rightarrow> nat \<Rightarrow> u32 \<Rightarrow> 'a sync_state_scheme \<Rightarrow>
    ('a sync_state_scheme \<times> u32) option" where
  "down_leave q w wait_state s =
     do { s \<leftarrow> wait_current_del q w s;
          Some (s, if wakeup_flags (waits s w) \<noteq> wait_state then wakeup_flags (waits s w) else 0) }"

definition up :: "'a sync_state_scheme sched_class \<Rightarrow> nat \<Rightarrow>
    'a sync_state_scheme \<Rightarrow> 'a sync_state_scheme option" where
  "up cls q s = up_raw cls q WT_KSEM s"

text \<open>\<open>down\<close>: the assertion is that no flag came back.\<close>

definition down :: "'a sync_state_scheme sched_class \<Rightarrow> nat \<Rightarrow> nat \<Rightarrow>
    'a sync_state_scheme \<Rightarrow> ('a sync_state_scheme \<times> bool) option" where
  "down cls q w s = down_enter cls q w WT_KSEM s"

definition down_resume :: "nat \<Rightarrow> nat \<Rightarrow> 'a sync_state_scheme \<Rightarrow> 'a sync_state_scheme option" where
  "down_resume q w s =
     do { (s, flags) \<leftarrow> down_leave q w WT_KSEM s; kassert (flags = 0); Some s }"

definition try_down :: "nat \<Rightarrow> 'a sync_state_scheme \<Rightarrow> 'a sync_state_scheme \<times> bool" where
  "try_down q s =
     (if sem_value s q > 0 then (s\<lparr>sem_value := (sem_value s)(q := sem_value s q - 1)\<rparr>, True)
      else (s, False))"

subsection \<open>Monitors: \<open>monitor.c\<close>\<close>

record condvar =
  cv_sem :: nat
  cv_count :: int

record monitor =
  mt_mutex :: nat
  mt_next :: nat
  next_count :: int
  mt_cv :: "condvar list"

text \<open>
  \<open>monitor_init\<close>: the semaphores of the monitor and of its condition variables are the given
  ones; the array of condition variables comes from the allocator, which may fail.
\<close>

definition monitor_init :: "nat \<Rightarrow> nat \<Rightarrow> nat list option \<Rightarrow> nat \<Rightarrow> 'a sync_state_scheme \<Rightarrow>
    (monitor \<times> 'a sync_state_scheme) option" where
  "monitor_init mutex next cvs num_cv s =
     do { kassert (0 < num_cv);
          let s = sem_init mutex 1 s;
          let s = sem_init next 0 s;
          sems \<leftarrow> cvs;
          kassert (length sems = num_cv);
          let s = fold (\<lambda>q s. sem_init q 0 s) sems s;
          Some (\<lparr>mt_mutex = mutex, mt_next = next, next_count = 0,
                 mt_cv = map (\<lambda>q. \<lparr>cv_sem = q, cv_count = 0\<rparr>) sems\<rparr>, s) }"

definition upd_cv :: "nat \<Rightarrow> (int \<Rightarrow> int) \<Rightarrow> monitor \<Rightarrow> monitor" where
  "upd_cv i f mt = mt\<lparr>mt_cv := (mt_cv mt)[i := (mt_cv mt ! i)\<lparr>cv_count := f (cv_count (mt_cv mt ! i))\<rparr>]\<rparr>"

text \<open>
  \<open>cond_signal\<close> up to its \<open>down\<close>: without a waiter it does nothing; the flag tells whether it
  has returned. \<open>cond_signal_leave\<close> is the code after the \<open>down\<close>.
\<close>

definition cond_signal :: "'a sync_state_scheme sched_class \<Rightarrow> nat \<Rightarrow> nat \<Rightarrow> monitor \<Rightarrow>
    'a sync_state_scheme \<Rightarrow> (monitor \<times> 'a sync_state_scheme \<times> bool) option" where
  "cond_signal cls i w mt s =
     (if cv_count (mt_cv mt ! i) > 0
      then do { let mt = mt\<lparr>next_count := next_count mt + 1\<rparr>;
                s \<leftarrow> up cls (cv_sem (mt_cv mt ! i)) s;
                (s, returned) \<leftarrow> down cls (mt_next mt) w s;
                Some (if returned then mt\<lparr>next_count := next_count mt - 1\<rparr> else mt, s, returned) }
      else Some (mt, s, True))"

definition cond_signal_leave :: "nat \<Rightarrow> monitor \<Rightarrow> 'a sync_state_scheme \<Rightarrow>
    (monitor \<times> 'a sync_state_scheme) option" where
  "cond_signal_leave w mt s =
     do { s \<leftarrow> down_resume (mt_next mt) w s; Some (mt\<lparr>next_count := next_count mt - 1\<rparr>, s) }"

definition cond_wait :: "'a sync_state_scheme sched_class \<Rightarrow> nat \<Rightarrow> nat \<Rightarrow> monitor \<Rightarrow>
    'a sync_state_scheme \<Rightarrow> (monitor \<times> 'a sync_state_scheme \<times> bool) option" where
  "cond_wait cls i w mt s =
     do { let mt = upd_cv i (\<lambda>c. c + 1) mt;
          s \<leftarrow> (if next_count mt > 0 then up cls (mt_next mt) s else up cls (mt_mutex mt) s);
          (s, returned) \<leftarrow> down cls (cv_sem (mt_cv mt ! i)) w s;
          Some (if returned then upd_cv i (\<lambda>c. c - 1) mt else mt, s, returned) }"

definition cond_wait_leave :: "nat \<Rightarrow> nat \<Rightarrow> monitor \<Rightarrow> 'a sync_state_scheme \<Rightarrow>
    (monitor \<times> 'a sync_state_scheme) option" where
  "cond_wait_leave i w mt s =
     do { s \<leftarrow> down_resume (cv_sem (mt_cv mt ! i)) w s; Some (upd_cv i (\<lambda>c. c - 1) mt, s) }"

subsection \<open>The queues as lists\<close>

definition wq_rep :: "'a sync_state_scheme \<Rightarrow> (nat \<Rightarrow> nat list) \<Rightarrow> bool" where
  "wq_rep s f =
     ((\<forall>q. dlist (wlinks s) (WHead q) (map WLink (f q)))
      \<and> (\<forall>q r. q \<noteq> r \<longrightarrow> set (f q) \<inter> set (f r) = {})
      \<and> (\<forall>w. (\<forall>q. w \<notin> set (f q)) \<longrightarrow> lnext (wlinks s) (WLink w) = WLink w)
      \<and> (\<forall>q. \<forall>w \<in> set (f q). w_queue (waits s w) = Some q))"

lemma wq_repI:
  assumes "\<And>q. dlist (wlinks s) (WHead q) (map WLink (f q))"
    and "\<And>q r u. q \<noteq> r \<Longrightarrow> u \<in> set (f q) \<Longrightarrow> u \<notin> set (f r)"
    and "\<And>w. \<forall>q. w \<notin> set (f q) \<Longrightarrow> lnext (wlinks s) (WLink w) = WLink w"
    and "\<And>q w. w \<in> set (f q) \<Longrightarrow> w_queue (waits s w) = Some q"
  shows "wq_rep s f"
  using assms unfolding wq_rep_def by blast

lemma wq_rep_distinct: "wq_rep s f \<Longrightarrow> distinct (f q)"
  using dlist_distinct [of "wlinks s" "WHead q" "map WLink (f q)"] by (auto simp: wq_rep_def distinct_map)

lemma wait_queue_first_rep:
  assumes "wq_rep s f"
  shows "wait_queue_first q s = (case f q of [] \<Rightarrow> None | w # _ \<Rightarrow> Some w)"
proof -
  have "dlist (wlinks s) (WHead q) (map WLink (f q))" using assms by (simp add: wq_rep_def)
  from dlist_next_head [OF this] show ?thesis
    by (cases "f q") (simp_all add: wait_queue_first_def wait_of_def list_next_def)
qed

lemma wq_rep_linked:
  assumes rep: "wq_rep s f" and w: "w \<in> set (f q)"
  shows "\<not> list_empty (wlinks s) (WLink w)" "w_queue (waits s w) = Some q"
proof -
  obtain as bs where ab: "f q = as @ w # bs" using w by (rule in_set_splitE)
  have "dlist (wlinks s) (WHead q) (map WLink as @ WLink w # map WLink bs)"
    using rep ab by (metis (mono_tags) list.simps(9) map_append wq_rep_def)
  from dlist_next [OF this] wq_rep_distinct [OF rep, of q] ab
  show "\<not> list_empty (wlinks s) (WLink w)" by (cases bs) (auto simp: list_empty_def)
  show "w_queue (waits s w) = Some q" using rep w by (simp add: wq_rep_def)
qed

lemma wq_rep_cong: "wlinks s' = wlinks s \<Longrightarrow> waits s' = waits s \<Longrightarrow> wq_rep s' f = wq_rep s f"
  by (simp add: wq_rep_def)

lemma wait_queue_add_rep:
  assumes rep: "wq_rep s f" and w: "\<forall>r. w \<notin> set (f r)" and p: "w_proc (waits s w) \<noteq> None"
  shows "wait_queue_add q w s = Some (upd_wait w (\<lambda>x. x\<lparr>w_queue := Some q\<rparr>) s
      \<lparr>wlinks := list_add_before (wlinks s) (WHead q) (WLink w)\<rparr>)"
    and "wq_rep (upd_wait w (\<lambda>x. x\<lparr>w_queue := Some q\<rparr>) s
      \<lparr>wlinks := list_add_before (wlinks s) (WHead q) (WLink w)\<rparr>) (f(q := f q @ [w]))"
proof -
  have d: "dlist (wlinks s) (WHead r) (map WLink (f r))" for r using rep by (simp add: wq_rep_def)
  have self: "lnext (wlinks s) (WLink w) = WLink w" using rep w by (simp add: wq_rep_def)
  then show "wait_queue_add q w s = Some (upd_wait w (\<lambda>x. x\<lparr>w_queue := Some q\<rparr>) s
      \<lparr>wlinks := list_add_before (wlinks s) (WHead q) (WLink w)\<rparr>)"
    using p by (simp add: wait_queue_add_def list_empty_def upd_wait_def)
  let ?l = "list_add_before (wlinks s) (WHead q) (WLink w)"
  have q: "dlist ?l (WHead q) (map WLink (f q @ [w]))"
    using dlist_list_add_tail [OF d, of "WLink w" q] w by auto
  note fr = dlist_add_tail_frame [OF d [of q], where x = "WLink w"]
  have notin: "u \<notin> set (f q)" if "u \<in> set (f r)" "r \<noteq> q" for u r using rep that by (auto simp: wq_rep_def)
  have other: "dlist ?l (WHead r) (map WLink (f r))" if "r \<noteq> q" for r
  proof -
    have "dlist ?l (WHead r) (map WLink (f r)) = dlist (wlinks s) (WHead r) (map WLink (f r))"
    proof (rule dlist_frame)
      fix y assume "y \<in> insert (WHead r) (set (map WLink (f r)))"
      then have "y \<notin> insert (WHead q) (insert (WLink w) (set (map WLink (f q))))" using notin w that by auto
      from fr [OF this] show "lnext ?l y = lnext (wlinks s) y" "lprev ?l y = lprev (wlinks s) y" by simp_all
    qed
    with d show ?thesis by simp
  qed
  have unl: "lnext ?l (WLink u) = WLink u" if "\<forall>r. u \<notin> set ((f(q := f q @ [w])) r)" for u
  proof -
    have "u \<noteq> w" "\<forall>r. u \<notin> set (f r)" using that [rule_format, of q] that by (auto split: if_splits)
    with fr(1) [of "WLink u"] rep show ?thesis by (auto simp: wq_rep_def)
  qed
  show "wq_rep (upd_wait w (\<lambda>x. x\<lparr>w_queue := Some q\<rparr>) s\<lparr>wlinks := ?l\<rparr>) (f(q := f q @ [w]))"
    using q other unl rep w by (auto simp: wq_rep_def upd_wait_def)
qed

lemma wait_queue_del_rep:
  assumes rep: "wq_rep s f" and w: "w \<in> set (f q)"
  shows "wait_queue_del q w s = Some (s\<lparr>wlinks := list_del_init (wlinks s) (WLink w)\<rparr>)"
    and "wq_rep (s\<lparr>wlinks := list_del_init (wlinks s) (WLink w)\<rparr>) (f(q := remove1 w (f q)))"
proof -
  show "wait_queue_del q w s = Some (s\<lparr>wlinks := list_del_init (wlinks s) (WLink w)\<rparr>)"
    using wq_rep_linked [OF rep w] by (simp add: wait_queue_del_def)
  have d: "dlist (wlinks s) (WHead r) (map WLink (f r))" for r using rep by (simp add: wq_rep_def)
  obtain as bs where ab: "f q = as @ w # bs" using w by (rule in_set_splitE)
  have dist: "w \<notin> set as" "w \<notin> set bs" using wq_rep_distinct [OF rep, of q] ab by auto
  have rm: "remove1 w (f q) = as @ bs" using ab dist by (simp add: remove1_append)
  have dq: "dlist (wlinks s) (WHead q) (map WLink as @ WLink w # map WLink bs)" using d [of q] ab by simp
  let ?l = "list_del_init (wlinks s) (WLink w)"
  note fr = dlist_del_init_frame [OF dq]
  have q: "dlist ?l (WHead q) (map WLink (as @ bs))" using dlist_list_del_init [OF dq] by simp
  have notin: "u \<notin> set (f q)" if "u \<in> set (f r)" "r \<noteq> q" for u r using rep that by (auto simp: wq_rep_def)
  have other: "dlist ?l (WHead r) (map WLink (f r))" if "r \<noteq> q" for r
  proof -
    have "dlist ?l (WHead r) (map WLink (f r)) = dlist (wlinks s) (WHead r) (map WLink (f r))"
    proof (rule dlist_frame)
      fix y assume "y \<in> insert (WHead r) (set (map WLink (f r)))"
      then have "y \<notin> insert (WHead q) (set (map WLink as @ WLink w # map WLink bs))" using notin that ab by auto
      from fr [OF this] show "lnext ?l y = lnext (wlinks s) y" "lprev ?l y = lprev (wlinks s) y" by simp_all
    qed
    with d show ?thesis by simp
  qed
  have unl: "lnext ?l (WLink u) = WLink u" if "\<forall>r. u \<notin> set ((f(q := as @ bs)) r)" for u
  proof (cases "u = w")
    case True
    then show ?thesis by (simp add: list_del_init_self)
  next
    case False
    have "u \<notin> set (f r)" for r using that [rule_format, of r] False ab by (cases "r = q") auto
    moreover from this [of q] ab have "WLink u \<notin> insert (WHead q) (set (map WLink as @ WLink w # map WLink bs))"
      by auto
    ultimately show ?thesis using fr(1) rep by (simp add: wq_rep_def)
  qed
  show "wq_rep (s\<lparr>wlinks := ?l\<rparr>) (f(q := remove1 w (f q)))"
    unfolding rm
  proof (rule wq_repI, goal_cases)
    case (1 r)
    then show ?case using q other by simp
  next
    case (2 r t u)
    moreover have "set ((f(q := as @ bs)) x) \<subseteq> set (f x)" for x using ab by auto
    ultimately show ?case using rep unfolding wq_rep_def by blast
  next
    case (3 u)
    then show ?case using unl by simp
  next
    case (4 r u)
    then show ?case using rep ab by (auto simp: wq_rep_def split: if_splits)
  qed
qed

subsection \<open>The invariant of the semaphores\<close>

text \<open>
  \<open>f\<close> gives the queue of every semaphore. Values are never negative, a semaphore that has
  waiters has value 0, and every waiter is a sleeping process of its own.
\<close>

definition sem_inv :: "('a sync_state_scheme \<Rightarrow> paddr set \<Rightarrow> bool) \<Rightarrow> paddr set \<Rightarrow>
    'a sync_state_scheme \<Rightarrow> (nat \<Rightarrow> nat list) \<Rightarrow> bool" where
  "sem_inv I L s f =
     (wq_rep s f \<and> I s (ready L s) \<and> current s \<in> L \<and> idleproc s \<in> L
      \<and> (\<forall>q. 0 \<le> sem_value s q \<and> (f q \<noteq> [] \<longrightarrow> sem_value s q = 0))
      \<and> (\<forall>q. \<forall>w \<in> set (f q). \<exists>p \<in> L. w_proc (waits s w) = Some p \<and> p \<noteq> idleproc s
            \<and> p_state (procs s p) = PROC_SLEEPING \<and> p_wait_state (procs s p) = WT_KSEM)
      \<and> (\<forall>q r. \<forall>w \<in> set (f q). \<forall>u \<in> set (f r). w_proc (waits s w) = w_proc (waits s u) \<longrightarrow> w = u))"

lemma sem_invD:
  assumes "sem_inv I L s f"
  shows "wq_rep s f" "I s (ready L s)" "current s \<in> L" "idleproc s \<in> L" "0 \<le> sem_value s q"
    "f q \<noteq> [] \<Longrightarrow> sem_value s q = 0"
    "w \<in> set (f q) \<Longrightarrow> \<exists>p \<in> L. w_proc (waits s w) = Some p \<and> p \<noteq> idleproc s
        \<and> p_state (procs s p) = PROC_SLEEPING \<and> p_wait_state (procs s p) = WT_KSEM"
    "w \<in> set (f q) \<Longrightarrow> u \<in> set (f r) \<Longrightarrow> w_proc (waits s w) = w_proc (waits s u) \<Longrightarrow> w = u"
  using assms unfolding sem_inv_def by blast+

lemma sem_invI:
  assumes "wq_rep s f" and "I s (ready L s)" and "current s \<in> L" and "idleproc s \<in> L"
    and "\<And>q. 0 \<le> sem_value s q" and "\<And>q. f q \<noteq> [] \<Longrightarrow> sem_value s q = 0"
    and "\<And>q w. w \<in> set (f q) \<Longrightarrow> \<exists>p \<in> L. w_proc (waits s w) = Some p \<and> p \<noteq> idleproc s
        \<and> p_state (procs s p) = PROC_SLEEPING \<and> p_wait_state (procs s p) = WT_KSEM"
    and "\<And>q r w u. w \<in> set (f q) \<Longrightarrow> u \<in> set (f r) \<Longrightarrow> w_proc (waits s w) = w_proc (waits s u) \<Longrightarrow> w = u"
  shows "sem_inv I L s f"
  using assms unfolding sem_inv_def by blast

lemma sync_upd_proc [simp]:
  "wlinks (upd_proc p f s) = wlinks s" "waits (upd_proc p f s) = waits s"
  "sem_value (upd_proc p f s) = sem_value s"
  by (simp_all add: upd_proc_def)

lemma sync_more:
  fixes s s' :: "'a sync_state_scheme"
  assumes "kernel_state.more s' = kernel_state.more s"
  shows "wlinks s' = wlinks s" "waits s' = waits s" "sem_value s' = sem_value s"
    "sync_state.more s' = sync_state.more s"
  using assms by (cases s, cases s', simp)+

lemma wait_init_rep:
  assumes rep: "wq_rep s f" and w: "\<forall>r. w \<notin> set (f r)"
  shows "wq_rep (wait_init w p s) f"
proof -
  have "\<forall>q. dlist (wlinks (wait_init w p s)) (WHead q) (map WLink (f q))"
  proof
    fix q
    have "dlist (wlinks (wait_init w p s)) (WHead q) (map WLink (f q)) =
        dlist (wlinks s) (WHead q) (map WLink (f q))"
      by (rule dlist_frame) (use w in \<open>auto simp: wait_init_def Let_def list_init_def upd_wait_def\<close>)
    with rep show "dlist (wlinks (wait_init w p s)) (WHead q) (map WLink (f q))" by (simp add: wq_rep_def)
  qed
  with rep w show ?thesis by (auto simp: wq_rep_def wait_init_def Let_def list_init_def upd_wait_def)
qed

locale sync_sched = kernel_sched cls inv
  for cls :: "'a sync_state_scheme sched_class" and inv :: "'a sync_state_scheme \<Rightarrow> paddr set \<Rightarrow> bool"
begin

text \<open>\<open>up\<close>: without waiters the value grows; otherwise the longest waiter is woken, and the value stays.\<close>

lemma up_ok:
  assumes si: "sem_inv inv L s f"
  shows "\<exists>s'. up cls q s = Some s' \<and> sem_inv inv L s' (f(q := tl (f q))) \<and> current s' = current s
    \<and> idleproc s' = idleproc s
    \<and> (if f q = [] then sem_value s' = (sem_value s)(q := sem_value s q + 1)
          \<and> (\<forall>p. p_state (procs s' p) = p_state (procs s p))
       else sem_value s' = sem_value s \<and> (\<exists>p. w_proc (waits s (hd (f q))) = Some p
          \<and> p_state (procs s' p) = PROC_RUNNABLE \<and> wakeup_flags (waits s' (hd (f q))) = WT_KSEM
          \<and> (\<forall>r. r \<noteq> p \<longrightarrow> p_state (procs s' r) = p_state (procs s r))))"
proof (cases "f q")
  case Nil
  let ?s = "s\<lparr>sem_value := (sem_value s)(q := sem_value s q + 1)\<rparr>"
  have "inv ?s (ready L ?s)"
    using inv_procs [OF sem_invD(2) [OF si], of ?s] by (simp add: ready_def)
  moreover have ff: "f(q := tl (f q)) = f" using Nil by (simp add: fun_upd_idem)
  moreover have "wq_rep ?s f" using sem_invD(1) [OF si] by (simp add: wq_rep_def)
  ultimately have "sem_inv inv L ?s (f(q := tl (f q)))"
    using si Nil unfolding ff by (auto simp: sem_inv_def)
  moreover have "up cls q s = Some ?s"
    using wait_queue_first_rep [OF sem_invD(1) [OF si], of q] Nil by (simp add: up_def up_raw_def)
  ultimately show ?thesis using Nil by simp
next
  case (Cons w ws)
  note rep = sem_invD(1) [OF si]
  have wq: "w \<in> set (f q)" using Cons by simp
  obtain p where p: "p \<in> L" "w_proc (waits s w) = Some p" "p \<noteq> idleproc s"
    "p_state (procs s p) = PROC_SLEEPING" "p_wait_state (procs s p) = WT_KSEM"
    using sem_invD(7) [OF si wq] by blast
  let ?s1 = "s\<lparr>wlinks := list_del_init (wlinks s) (WLink w)\<rparr>"
  let ?s2 = "upd_wait w (\<lambda>x. x\<lparr>wakeup_flags := WT_KSEM\<rparr>) ?s1"
  have del: "wait_queue_del q w s = Some ?s1" "wq_rep ?s1 (f(q := ws))"
    using wait_queue_del_rep [OF rep wq] Cons by auto
  have rd: "ready L ?s2 = ready L s" by (simp add: ready_def upd_wait_def)
  have "inv ?s2 (ready L ?s2)" unfolding rd
    by (rule inv_procs [OF sem_invD(2) [OF si]]) (simp_all add: upd_wait_def)
  then obtain s' where s': "wakeup_proc cls p ?s2 = Some s'" "inv s' (ready L s')"
    "p_state (procs s' p) = PROC_RUNNABLE" "current s' = current s" "idleproc s' = idleproc s"
    "kernel_state.more s' = kernel_state.more ?s2"
    "\<forall>r. r \<noteq> p \<longrightarrow> p_state (procs s' r) = p_state (procs s r)
        \<and> p_wait_state (procs s' r) = p_wait_state (procs s r)"
    using wakeup_proc_ok [of ?s2 L p] p by (auto simp: upd_wait_def)
  note more = sync_more [OF s'(6)]
  have run: "up cls q s = Some s'"
    using wait_queue_first_rep [OF rep, of q] Cons del(1) p s'(1)
    by (simp add: up_def up_raw_def wakeup_wait_def upd_wait_def)
  have rep': "wq_rep s' (f(q := tl (f q)))"
    using del(2) Cons more by (auto simp: wq_rep_def upd_wait_def)
  have sub: "set ((f(q := tl (f q))) r) \<subseteq> set (f r)" for r using Cons by auto
  have w': "w_proc (waits s' u) = w_proc (waits s u)" for u using more by (simp add: upd_wait_def)
  have notw: "u \<noteq> w" if "u \<in> set ((f(q := tl (f q))) r)" for u r
  proof (cases "r = q")
    case True
    then show ?thesis using that wq_rep_distinct [OF rep, of q] Cons by auto
  next
    case False
    then have "set (f r) \<inter> set (f q) = {}" using rep by (simp add: wq_rep_def)
    then show ?thesis using that wq False by auto
  qed
  have waiter: "\<exists>p' \<in> L. w_proc (waits s' u) = Some p' \<and> p' \<noteq> idleproc s'
      \<and> p_state (procs s' p') = PROC_SLEEPING \<and> p_wait_state (procs s' p') = WT_KSEM"
    if u: "u \<in> set ((f(q := tl (f q))) r)" for u r
  proof -
    have ur: "u \<in> set (f r)" using sub u by blast
    then obtain p' where p': "p' \<in> L" "w_proc (waits s u) = Some p'" "p' \<noteq> idleproc s"
      "p_state (procs s p') = PROC_SLEEPING" "p_wait_state (procs s p') = WT_KSEM"
      using sem_invD(7) [OF si] by blast
    have "p' \<noteq> p" using sem_invD(8) [OF si ur wq] p(2) p'(2) notw [OF u] by auto
    with p' s'(5,7) w' show ?thesis by auto
  qed
  have "sem_inv inv L s' (f(q := tl (f q)))"
    unfolding sem_inv_def
  proof (intro conjI)
    show "\<forall>qa. 0 \<le> sem_value s' qa \<and> ((f(q := tl (f q))) qa \<noteq> [] \<longrightarrow> sem_value s' qa = 0)"
      using sem_invD(5,6) [OF si] more(3) Cons by (auto simp: upd_wait_def)
    show "\<forall>qa r. \<forall>w \<in> set ((f(q := tl (f q))) qa). \<forall>u \<in> set ((f(q := tl (f q))) r).
        w_proc (waits s' w) = w_proc (waits s' u) \<longrightarrow> w = u"
      unfolding w' using sem_invD(8) [OF si] sub by blast
  qed (use rep' s' waiter si in \<open>auto simp: sem_inv_def\<close>)
  moreover have "wakeup_flags (waits s' w) = WT_KSEM" "sem_value s' = sem_value s"
    using more by (simp_all add: upd_wait_def)
  ultimately show ?thesis using run s' p Cons by auto
qed

text \<open>
  \<open>down\<close>: a positive value is taken; otherwise the caller sleeps at the end of the queue and
  another process runs.
\<close>

text \<open>Taking a permit that is there.\<close>

lemma take_permit:
  assumes si: "sem_inv inv L s f" and pos: "0 < sem_value s q"
  shows "sem_inv inv L (s\<lparr>sem_value := (sem_value s)(q := sem_value s q - 1)\<rparr>) f"
proof -
  let ?s = "s\<lparr>sem_value := (sem_value s)(q := sem_value s q - 1)\<rparr>"
  have "inv ?s (ready L ?s)"
    using inv_procs [OF sem_invD(2) [OF si], of ?s] by (simp add: ready_def)
  moreover have "wq_rep ?s f" using sem_invD(1) [OF si] by (simp add: wq_rep_def)
  moreover have "f q = []" using sem_invD(6) [OF si, of q] pos by auto
  ultimately show ?thesis using si pos by (auto simp: sem_inv_def)
qed

lemma try_down_ok:
  assumes "sem_inv inv L s f" and "try_down q s = (s', ok)"
  shows "sem_inv inv L s' f \<and> sem_value s' q = sem_value s q - (if ok then 1 else 0)"
  using assms take_permit [OF assms(1), of q] by (auto simp: try_down_def split: if_splits)

lemma down_ok:
  assumes si: "sem_inv inv L s f" and run: "p_state (procs s (current s)) = PROC_RUNNABLE"
    and idle: "current s \<noteq> idleproc s" and w: "\<forall>r. w \<notin> set (f r)"
  shows "\<exists>s'. if 0 < sem_value s q
      then down cls q w s = Some (s', True) \<and> sem_inv inv L s' f \<and> current s' = current s
        \<and> procs s' = procs s \<and> sem_value s' = (sem_value s)(q := sem_value s q - 1)
      else down cls q w s = Some (s', False) \<and> sem_inv inv L s' (f(q := f q @ [w]))
        \<and> sem_value s' = sem_value s \<and> w_proc (waits s' w) = Some (current s)
        \<and> p_state (procs s' (current s)) = PROC_SLEEPING
        \<and> (\<forall>p. p \<noteq> current s \<longrightarrow> p_state (procs s' p) = p_state (procs s p))"
proof (cases "0 < sem_value s q")
  case True
  let ?s = "s\<lparr>sem_value := (sem_value s)(q := sem_value s q - 1)\<rparr>"
  from take_permit [OF si True] True show ?thesis by (intro exI [of _ ?s]) (simp add: down_def down_enter_def)
next
  case False
  then have v0: "sem_value s q = 0" using sem_invD(5) [OF si, of q] by simp
  let ?c = "current s"
  let ?s1 = "wait_init w ?c s"
  let ?s2 = "upd_proc ?c (\<lambda>p. p\<lparr>p_state := PROC_SLEEPING, p_wait_state := WT_KSEM\<rparr>) ?s1"
  let ?s3 = "upd_wait w (\<lambda>x. x\<lparr>w_queue := Some q\<rparr>) ?s2\<lparr>wlinks := list_add_before (wlinks ?s2) (WHead q) (WLink w)\<rparr>"
  have s1: "procs ?s1 = procs s" "current ?s1 = ?c" "idleproc ?s1 = idleproc s" "rq ?s1 = rq s"
    "sem_value ?s1 = sem_value s" "w_proc (waits ?s1 w) = Some ?c"
    "\<And>u. u \<noteq> w \<Longrightarrow> waits ?s1 u = waits s u"
    by (simp_all add: wait_init_def Let_def upd_wait_def)
  have "wq_rep ?s2 f" using wait_init_rep [OF sem_invD(1) [OF si] w, of ?c] by (simp add: wq_rep_def)
  then have add: "wait_queue_add q w ?s2 = Some ?s3" "wq_rep ?s3 (f(q := f q @ [w]))"
    using wait_queue_add_rep [of ?s2 f w q] w s1 by simp_all
  obtain s3 where add3: "wait_queue_add q w ?s2 = Some s3" "wq_rep s3 (f(q := f q @ [w]))"
    and s3: "procs s3 = (procs s)(?c := (procs s ?c)\<lparr>p_state := PROC_SLEEPING, p_wait_state := WT_KSEM\<rparr>)"
      "current s3 = ?c" "idleproc s3 = idleproc s" "rq s3 = rq s" "sem_value s3 = sem_value s"
      "w_proc (waits s3 w) = Some ?c" "\<forall>u. u \<noteq> w \<longrightarrow> waits s3 u = waits s u"
    by (rule that [OF add]) (use s1 in \<open>simp_all add: upd_wait_def upd_proc_def\<close>)
  have rd: "ready L s3 = ready L s" unfolding ready_def s3(1,2,3) by auto
  have "inv s3 (ready L s)" by (rule inv_procs [OF sem_invD(2) [OF si] s3(4)]) (simp add: s3(1))
  then have inv3: "inv s3 (ready L s3)" using rd by simp
  have cL: "current s3 \<in> L" using s3(2) sem_invD(3) [OF si] by simp
  obtain s' where s': "schedule cls s3 = Some s'" "inv s' (ready L s')"
      "\<forall>p. p_state (procs s' p) = p_state (procs s3 p)"
      "\<forall>p. p_wait_state (procs s' p) = p_wait_state (procs s3 p)"
      "current s' \<in> insert (idleproc s) (ready L s)" "idleproc s' = idleproc s"
      "kernel_state.more s' = kernel_state.more s3"
  proof -
    have sl: "p_state (procs s3 (current s3)) \<noteq> PROC_RUNNABLE" by (simp add: s3)
    show thesis
      by (rule schedule_sleeping [OF inv3 cL sl], unfold rd s3(3)) (rule that)
  qed
  note more = sync_more [OF s'(7)]
  have cw: "wait_current_set q w WT_KSEM s = Some s3"
    using add3(1) s1(2) by (simp add: wait_current_set_def Let_def)
  have "wq_rep s' (f(q := f q @ [w]))" using add3(2) more by (simp add: wq_rep_def)
  moreover have "current s' \<in> L" using s'(5) sem_invD(4) [OF si] by (auto simp: ready_def)
  moreover have waiter: "\<exists>p \<in> L. w_proc (waits s' u) = Some p \<and> p \<noteq> idleproc s'
      \<and> p_state (procs s' p) = PROC_SLEEPING \<and> p_wait_state (procs s' p) = WT_KSEM"
    if u: "u \<in> set ((f(q := f q @ [w])) r)" for u r
  proof (cases "u = w")
    case True
    with more s3 s' idle sem_invD(3) [OF si] show ?thesis by auto
  next
    case False
    then have "u \<in> set (f r)" using u by (auto split: if_splits)
    from sem_invD(7) [OF si this] more(2) s3(1,7) False s' show ?thesis by auto
  qed
  moreover have dist: "u = v" if "u \<in> set ((f(q := f q @ [w])) r)" "v \<in> set ((f(q := f q @ [w])) t)"
    "w_proc (waits s' u) = w_proc (waits s' v)" for u v r t
  proof -
    have new: "w_proc (waits s x) \<noteq> Some ?c" if "x \<in> set (f y)" for x y
      using sem_invD(7) [OF si that] run by auto
    have old: "x \<in> set (f y)" if "x \<in> set ((f(q := f q @ [w])) y)" "x \<noteq> w" for x y
      using that by (auto split: if_splits)
    show ?thesis
    proof (cases "u = w"; cases "v = w")
      assume "u \<noteq> w" "v \<noteq> w"
      with that old sem_invD(8) [OF si] more(2) s3(7) show ?thesis by metis
    qed (use that old new more(2) s3(6,7) in metis)+
  qed
  moreover have "0 \<le> sem_value s' r" "(f(q := f q @ [w])) r \<noteq> [] \<Longrightarrow> sem_value s' r = 0" for r
    using sem_invD(5,6) [OF si] more(3) s3(5) v0 by (auto split: if_splits)
  moreover have "idleproc s' \<in> L" using s'(6) sem_invD(4) [OF si] by simp
  ultimately have "sem_inv inv L s' (f(q := f q @ [w]))" using s'(2) by (intro sem_invI)
  moreover have "down cls q w s = Some (s', False)"
    using False cw s'(1) by (simp add: down_def down_enter_def)
  ultimately show ?thesis using False more s3 s' by auto
qed

lemma down_acquired:
  assumes "sem_inv inv L s f" and "p_state (procs s (current s)) = PROC_RUNNABLE"
    and "current s \<noteq> idleproc s" and "\<forall>r. w \<notin> set (f r)" and "down cls q w s = Some (s', True)"
  shows "sem_inv inv L s' f \<and> sem_value s' q = sem_value s q - 1"
  using down_ok [OF assms(1-4), of q] assms(5) by (cases "0 < sem_value s q") auto

lemma down_blocked:
  assumes "sem_inv inv L s f" and "p_state (procs s (current s)) = PROC_RUNNABLE"
    and "current s \<noteq> idleproc s" and "\<forall>r. w \<notin> set (f r)" and "down cls q w s = Some (s', False)"
  shows "sem_inv inv L s' (f(q := f q @ [w])) \<and> sem_value s' = sem_value s
    \<and> w_proc (waits s' w) = Some (current s)"
  using down_ok [OF assms(1-4), of q] assms(5)
  by (cases "0 < sem_value s q") (auto simp del: fun_upd_apply)

end

interpretation stride_sync: sync_sched stride_sched_class stride_inv
  by unfold_locales

interpretation rr_sync: sync_sched RR_sched_class rr_inv
  by unfold_locales

subsection \<open>Permits\<close>

text \<open>
  The executions of one semaphore initialised with \<open>n\<close> permits: any interleaving of \<open>down\<close> by the running process, of \<open>try_down\<close> and \<open>up\<close>
  by whoever calls them (interrupts included), and steps of the rest of the kernel that leave the semaphore and its queue alone.
  \<open>u\<close> counts the calls of \<open>up\<close>, \<open>a\<close> the permits given out: the calls of \<open>down\<close> that return at once, the calls of \<open>try_down\<close> that succeed, and
  the sleepers an \<open>up\<close> has woken.
\<close>

inductive sem_run :: "nat \<Rightarrow> nat \<Rightarrow> paddr set \<Rightarrow> sync_state \<Rightarrow> (nat \<Rightarrow> nat list) \<Rightarrow> nat \<Rightarrow> nat \<Rightarrow> bool"
  for q :: nat and n :: nat and L :: "paddr set" where
  init: "sem_inv stride_inv L s f \<Longrightarrow> f q = [] \<Longrightarrow> sem_value s q = int n \<Longrightarrow> sem_run q n L s f 0 0"
| acquire: "sem_run q n L s f u a \<Longrightarrow> p_state (procs s (current s)) = PROC_RUNNABLE \<Longrightarrow>
    current s \<noteq> idleproc s \<Longrightarrow> \<forall>r. w \<notin> set (f r) \<Longrightarrow>
    down stride_sched_class q w s = Some (s', True) \<Longrightarrow> sem_run q n L s' f u (a + 1)"
| block: "sem_run q n L s f u a \<Longrightarrow> p_state (procs s (current s)) = PROC_RUNNABLE \<Longrightarrow>
    current s \<noteq> idleproc s \<Longrightarrow> \<forall>r. w \<notin> set (f r) \<Longrightarrow>
    down stride_sched_class q w s = Some (s', False) \<Longrightarrow> sem_run q n L s' (f(q := f q @ [w])) u a"
| attempt: "sem_run q n L s f u a \<Longrightarrow> try_down q s = (s', ok) \<Longrightarrow> sem_run q n L s' f u (if ok then a + 1 else a)"
| release: "sem_run q n L s f u a \<Longrightarrow> up stride_sched_class q s = Some s' \<Longrightarrow>
    sem_run q n L s' (f(q := tl (f q))) (u + 1) (if f q = [] then a else a + 1)"
| other: "sem_run q n L s f u a \<Longrightarrow> sem_inv stride_inv L s' f' \<Longrightarrow> f' q = f q \<Longrightarrow>
    sem_value s' q = sem_value s q \<Longrightarrow> sem_run q n L s' f' u a"

lemma sem_run_inv:
  assumes "sem_run q n L s f u a"
  shows "sem_inv stride_inv L s f \<and> sem_value s q = int n + int u - int a"
  using assms
proof induction
  case (acquire s f u a w s')
  with stride_sync.down_acquired [of L s f w q s'] show ?case by auto
next
  case (block s f u a w s')
  with stride_sync.down_blocked [of L s f w q s'] show ?case by (auto simp del: fun_upd_apply)
next
  case (attempt s f u a s' ok)
  with stride_sync.try_down_ok [of L s f q s' ok] show ?case by auto
next
  case (release s f u a s')
  have "sem_inv stride_inv L s' (f(q := tl (f q)))
      \<and> sem_value s' q = (if f q = [] then sem_value s q + 1 else sem_value s q)"
    using stride_sync.up_ok [of L s f q] release by (auto split: if_splits)
  then show ?case using release by (auto simp del: fun_upd_apply)
qed auto

text \<open>
  C9. Permits are conserved: in every execution of \<open>up\<close>, \<open>down\<close> and \<open>try_down\<close> on a semaphore initialised with \<open>n\<close>, its value is \<open>n\<close> plus the
  calls of \<open>up\<close> minus the permits given out; it is never negative, so that never more permits are given out than there were; and while a process waits,
  it is zero: everything has been given out. (The value is an integer without a bound: it never exceeds \<open>n\<close> plus the calls of \<open>up\<close>,
  and fits an \<open>int\<close> while this sum does.)
\<close>

theorem semaphore_permits:
  assumes "sem_run q n L s f u a"
  shows "sem_value s q = int n + int u - int a \<and> 0 \<le> sem_value s q \<and> a \<le> n + u \<and> (f q \<noteq> [] \<longrightarrow> a = n + u)"
proof -
  have "sem_inv stride_inv L s f" "sem_value s q = int n + int u - int a"
    using sem_run_inv [OF assms] by auto
  with sem_invD(5,6) [OF this(1), of q] show ?thesis by auto
qed

definition demo_sync :: sync_state where
  "demo_sync = \<lparr>procs = procs demo_sched, rq = rq demo_sched, current = 1, idleproc = 0, initproc = 1,
     timers = (\<lambda>t. \<lparr>t_expires = 0, t_proc = None\<rparr>), timer_list = [], satp = 0,
     wlinks = \<lparr>lnext = (\<lambda>x. x), lprev = (\<lambda>x. x)\<rparr>,
     waits = (\<lambda>_. \<lparr>w_proc = None, wakeup_flags = 0, w_queue = None\<rparr>), sem_value = (\<lambda>_. 1)\<rparr>"

lemma demo_sync_inv: "sem_inv stride_inv {0, 1, 2} demo_sync (\<lambda>_. [])"
proof (rule sem_invI)
  have "ready {0, 1, 2} demo_sync = {2}"
    by (auto simp: ready_def demo_sync_def demo_sched_def demo_proc_def)
  moreover have "stride_rep demo_sync (Node Leaf 2 Leaf)"
    using demo_sched_rep by (simp add: stride_rep_def demo_sync_def)
  ultimately show "stride_inv demo_sync (ready {0, 1, 2} demo_sync)" by (auto simp: stride_inv_def)
  show "wq_rep demo_sync (\<lambda>_. [])" by (rule wq_repI) (auto simp: demo_sync_def dlist_def)
qed (auto simp: demo_sync_def)

theorem semaphore_permits_witness:
  "\<exists>s s'. down stride_sched_class 5 9 demo_sync = Some (s, True) \<and> try_down 5 s = (s', False) \<and> sem_value s' 5 = 0"
proof -
  have run: "sem_run 5 1 {0, 1, 2} demo_sync (\<lambda>_. []) 0 0"
    by (rule sem_run.init [OF demo_sync_inv]) (simp_all add: demo_sync_def)
  have d: "down stride_sched_class 5 9 demo_sync = Some (demo_sync\<lparr>sem_value := (sem_value demo_sync)(5 := 0)\<rparr>, True)"
    by (simp add: down_def down_enter_def demo_sync_def)
  let ?s = "demo_sync\<lparr>sem_value := (sem_value demo_sync)(5 := 0)\<rparr>"
  have t: "try_down 5 ?s = (?s, False)" by (simp add: try_down_def)
  from sem_run.acquire [OF run _ _ _ d] have "sem_run 5 1 {0, 1, 2} ?s (\<lambda>_. []) 0 1"
    by (simp add: demo_sync_def demo_sched_def demo_proc_def)
  from sem_run.attempt [OF this t] have "sem_run 5 1 {0, 1, 2} ?s (\<lambda>_. []) 0 1" by simp
  from semaphore_permits [OF this] d t show ?thesis by auto
qed

text \<open>
  C10. \<open>up\<close> is first come, first served: with waiters in the queue it never changes the value but
  wakes the one that has waited longest, which then leaves \<open>down\<close> without tripping its
  assertion; no other process changes state.
\<close>

theorem semaphore_fifo:
  assumes si: "sem_inv stride_inv L s f" and w: "f q = w # ws" and p: "w_proc (waits s w) = Some p"
  shows "\<exists>s' s''. up stride_sched_class q s = Some s' \<and> sem_value s' = sem_value s
    \<and> p_state (procs s' p) = PROC_RUNNABLE \<and> sem_inv stride_inv L s' (f(q := ws))
    \<and> (\<forall>r. r \<noteq> p \<longrightarrow> p_state (procs s' r) = p_state (procs s r))
    \<and> down_resume q w s' = Some s''"
proof -
  obtain s' where s': "up stride_sched_class q s = Some s'" "sem_inv stride_inv L s' (f(q := ws))"
    "sem_value s' = sem_value s" "p_state (procs s' p) = PROC_RUNNABLE" "wakeup_flags (waits s' w) = WT_KSEM"
    "\<forall>r. r \<noteq> p \<longrightarrow> p_state (procs s' r) = p_state (procs s r)"
    using stride_sync.up_ok [OF si, of q] w p by auto
  have rep: "wq_rep s f" "wq_rep s' (f(q := ws))" using sem_invD(1) si s'(2) by blast+
  have "w \<notin> set ((f(q := ws)) r)" for r
    using wq_rep_distinct [OF rep(1), of q] rep(1) w
    by (cases "r = q") (auto simp: wq_rep_def, metis disjoint_iff list.set_intros(1))
  then have "lnext (wlinks s') (WLink w) = WLink w" using rep(2) by (simp add: wq_rep_def)
  then have "down_resume q w s' = Some s'"
    using s'(5) by (simp add: down_resume_def down_leave_def wait_current_del_def wait_in_queue_def list_empty_def)
  with s' show ?thesis by blast
qed

theorem semaphore_fifo_witness:
  "\<exists>(s :: sync_state) s' s''. up stride_sched_class 5 s = Some s' \<and> p_state (procs s' 1) = PROC_RUNNABLE
    \<and> down_resume 5 9 s' = Some s''"
proof -
  let ?s = "demo_sync\<lparr>sem_value := (sem_value demo_sync)(5 := 0)\<rparr>"
  have "stride_inv ?s (ready {0, 1, 2} ?s)"
    using stride.inv_procs [OF sem_invD(2) [OF demo_sync_inv], of ?s] by (simp add: ready_def)
  then have si: "sem_inv stride_inv {0, 1, 2} ?s (\<lambda>_. [])"
    using demo_sync_inv by (intro sem_invI) (auto simp: sem_inv_def wq_rep_def)
  have c: "p_state (procs ?s (current ?s)) = PROC_RUNNABLE" "current ?s \<noteq> idleproc ?s" "current ?s = 1"
    "\<not> 0 < sem_value ?s 5"
    by (simp_all add: demo_sync_def demo_sched_def demo_proc_def)
  obtain s where "down stride_sched_class 5 9 ?s = Some (s, False)"
    using stride_sync.down_ok [OF si c(1,2), of 9 5] unfolding if_not_P [OF c(4)] by auto
  from stride_sync.down_blocked [OF si c(1,2) _ this] c(3) have s:
    "sem_inv stride_inv {0, 1, 2} s ((\<lambda>_. [])(5 := [9]))" "w_proc (waits s 9) = Some 1" by simp_all
  from semaphore_fifo [OF s(1) _ s(2), of 5 "[]"] show ?thesis by auto
qed

end
