(* ===== verification/Pids.thy ===== *)
theory Pids
  imports Sync
begin

section \<open>Process identifiers, hash lists and family links: \<open>kern/process/proc.c\<close>\<close>

text \<open>
  The tables of the process manager: the list of all processes, the hash lists by process
  number, the counters of \<open>get_pid\<close>, and the resources whose life time the process manager
  controls (descriptors, kernel stacks, reference counts of address spaces and file tables).
\<close>

record proc_mgr = kernel_state +
  proc_list :: "paddr list"
  hash_list :: "nat \<Rightarrow> paddr list"
  nr_process :: int
  last_pid :: int
  next_safe :: int
  live_procs :: "paddr set"
  live_kstacks :: "nat set"
  mm_count :: "nat \<Rightarrow> int"
  live_mms :: "nat set"
  files_count :: "nat \<Rightarrow> int"
  live_files :: "nat set"

abbreviation (input) MAX_PROCESS :: int where "MAX_PROCESS \<equiv> 4096"
abbreviation (input) MAX_PID :: int where "MAX_PID \<equiv> 8192"

subsection \<open>\<open>get_pid\<close>\<close>

text \<open>
  One pass over the process list: \<open>Inl\<close> is the jump to \<open>repeat\<close> with the new \<open>last_pid\<close>
  (\<open>next_safe\<close> is then \<open>MAX_PID\<close>), \<open>Inr\<close> the values at the end of the pass.
\<close>

fun pid_scan :: "int list \<Rightarrow> int \<Rightarrow> int \<Rightarrow> int + (int \<times> int)" where
  "pid_scan [] lst safe = Inr (lst, safe)"
| "pid_scan (p # ps) lst safe =
     (if p = lst
      then (let lst = lst + 1
            in if lst \<ge> safe then Inl (if lst \<ge> MAX_PID then 1 else lst)
               else pid_scan ps lst safe)
      else if p > lst \<and> safe > p then pid_scan ps lst p
      else pid_scan ps lst safe)"

partial_function (option) pid_repeat :: "int list \<Rightarrow> int \<Rightarrow> (int \<times> int) option" where
  "pid_repeat ps lst =
     (case pid_scan ps lst MAX_PID of
        Inl lst' \<Rightarrow> pid_repeat ps lst'
      | Inr r \<Rightarrow> Some r)"

definition get_pid :: "'a proc_mgr_scheme \<Rightarrow> ('a proc_mgr_scheme \<times> int) option" where
  "get_pid s =
     (let ps = map (\<lambda>p. p_pid (procs s p)) (proc_list s);
          lst = last_pid s + 1
      in do { (lst, safe) \<leftarrow>
                (if lst \<ge> MAX_PID then pid_repeat ps 1
                 else if lst \<ge> next_safe s then pid_repeat ps lst
                 else Some (lst, next_safe s));
              Some (s\<lparr>last_pid := lst, next_safe := safe\<rparr>, lst) })"

text \<open>What \<open>get_pid\<close> remembers: no process number lies strictly between the two counters.\<close>

definition pid_gap :: "int set \<Rightarrow> int \<Rightarrow> int \<Rightarrow> bool" where
  "pid_gap P lst safe = (\<forall>p \<in> P. \<not> (lst < p \<and> p < safe))"

lemma pid_scan_Inr:
  assumes "pid_scan ps lst safe = Inr (l, n)" and "lst < safe" and "safe \<le> MAX_PID"
    and "lst \<notin> S" and "pid_gap S lst safe"
  shows "lst \<le> l \<and> l < n \<and> n \<le> MAX_PID \<and> l \<notin> S \<union> set ps \<and> pid_gap (S \<union> set ps) l n"
  using assms
proof (induction ps lst safe arbitrary: S rule: pid_scan.induct)
  case (2 p ps lst safe)
  consider "p = lst" "lst + 1 < safe" | "p \<noteq> lst" "p > lst \<and> safe > p"
    | "p \<noteq> lst" "\<not> (p > lst \<and> safe > p)"
    using 2 by (cases "p = lst") (auto simp: Let_def split: if_splits)
  then show ?case
  proof cases
    case 1
    have "lst + 1 \<notin> insert p S" using 2 1 by (auto simp: pid_gap_def)
    moreover have "pid_gap (insert p S) (lst + 1) safe" using 2 1 by (auto simp: pid_gap_def)
    ultimately show ?thesis
      using "2.IH"(1) [OF 1(1) refl, of "insert p S"] 1 "2.prems" by (auto simp: Let_def)
  next
    case 2
    have "pid_gap (insert p S) lst p" using "2.prems" 2 by (auto simp: pid_gap_def)
    then show ?thesis
      using "2.IH"(2) [of "insert p S"] 2 "2.prems" by auto
  next
    case 3
    have "pid_gap (insert p S) lst safe" using "2.prems" 3 by (auto simp: pid_gap_def)
    then show ?thesis
      using "2.IH"(3) [of "insert p S"] 3 "2.prems" by auto
  qed
qed simp

text \<open>A jump to \<open>repeat\<close> has stepped over used numbers only.\<close>

lemma pid_scan_Inl:
  assumes "pid_scan ps lst safe = Inl l" and "lst < safe" and "safe \<le> MAX_PID"
  shows "\<exists>k > lst. k \<le> MAX_PID \<and> l = (if k \<ge> MAX_PID then 1 else k) \<and> {lst..<k} \<subseteq> set ps"
  using assms
proof (induction ps lst safe rule: pid_scan.induct)
  case (2 p ps lst safe)
  show ?case
  proof (cases "p = lst")
    case True
    show ?thesis
    proof (cases "lst + 1 \<ge> safe")
      case True
      with 2 \<open>p = lst\<close> show ?thesis
        by (intro exI [of _ "lst + 1"]) (auto simp: Let_def)
    next
      case False
      with 2 True obtain k where k: "lst + 1 < k" "k \<le> MAX_PID" "l = (if k \<ge> MAX_PID then 1 else k)"
        "{lst + 1..<k} \<subseteq> set ps" by (auto simp: Let_def)
      have "{lst..<k} \<subseteq> insert lst {lst + 1..<k}" by auto
      with k True show ?thesis by (intro exI [of _ k]) auto
    qed
  next
    case False
    show ?thesis
    proof (cases "p > lst \<and> safe > p")
      case True
      with 2 False obtain k where "k > lst" "k \<le> MAX_PID" "l = (if k \<ge> MAX_PID then 1 else k)"
        "{lst..<k} \<subseteq> set ps" by auto
      then show ?thesis by (intro exI [of _ k]) auto
    next
      case F2: False
      with 2 False obtain k where "k > lst" "k \<le> MAX_PID" "l = (if k \<ge> MAX_PID then 1 else k)"
        "{lst..<k} \<subseteq> set ps" by auto
      then show ?thesis by (intro exI [of _ k]) auto
    qed
  qed
qed simp

text \<open>The search ends, because some number is free and every pass gets closer to it.\<close>

lemma pid_repeat_total:
  assumes f: "f \<notin> set ps" "1 \<le> f" "f < MAX_PID" and "1 \<le> lst" and "lst < MAX_PID"
  shows "\<exists>l n. pid_repeat ps lst = Some (l, n) \<and> 1 \<le> l \<and> l < n \<and> n \<le> MAX_PID
    \<and> l \<notin> set ps \<and> pid_gap (set ps) l n"
  using assms(4,5)
proof (induction "nat (if lst \<le> f then f - lst else MAX_PID - lst + f)" arbitrary: lst rule: less_induct)
  case less
  show ?case
  proof (cases "pid_scan ps lst MAX_PID")
    case (Inr r)
    obtain l n where r: "r = (l, n)" by (cases r)
    with pid_scan_Inr [of ps lst MAX_PID l n "{}"] Inr less.prems
    have "lst \<le> l \<and> l < n \<and> n \<le> MAX_PID \<and> l \<notin> set ps \<and> pid_gap (set ps) l n"
      by (simp add: pid_gap_def)
    then show ?thesis using less.prems Inr r by (subst pid_repeat.simps) auto
  next
    case (Inl l)
    then obtain k where k: "lst < k" "k \<le> MAX_PID" "l = (if k \<ge> MAX_PID then 1 else k)" "{lst..<k} \<subseteq> set ps"
      using pid_scan_Inl [of ps lst MAX_PID l] less.prems by auto
    have "f \<notin> {lst..<k}" using f(1) k(4) by blast
    then have dec: "nat (if l \<le> f then f - l else MAX_PID - l + f)
        < nat (if lst \<le> f then f - lst else MAX_PID - lst + f)"
      using k less.prems f by auto
    have "1 \<le> l" "l < MAX_PID" using k less.prems by (auto split: if_splits)
    from less.hyps [OF dec this] Inl show ?thesis by (subst pid_repeat.simps) simp
  qed
qed

lemma free_pid_exists:
  assumes "length ps < 8191"
  obtains f where "f \<notin> set ps" and "1 \<le> f" and "f < MAX_PID"
proof -
  have "card (set ps) < card {1..<MAX_PID}"
    using card_length [of ps] assms by simp
  then have "\<not> {1..<MAX_PID} \<subseteq> set ps" by (meson card_mono finite_set not_less)
  then obtain f where "f \<in> {1..<MAX_PID}" "f \<notin> set ps" by blast
  with that [of f] show thesis by simp
qed

definition pids_of :: "'a proc_mgr_scheme \<Rightarrow> int set" where
  "pids_of s = (\<lambda>p. p_pid (procs s p)) ` set (proc_list s)"

definition pid_inv :: "'a proc_mgr_scheme \<Rightarrow> bool" where
  "pid_inv s = (1 \<le> last_pid s \<and> last_pid s \<le> MAX_PID \<and> next_safe s \<le> MAX_PID
     \<and> pid_gap (pids_of s) (last_pid s) (next_safe s))"

lemma get_pid_ok:
  assumes inv: "pid_inv s" and len: "length (proc_list s) < 8191"
  shows "\<exists>s' pid. get_pid s = Some (s', pid) \<and> 1 \<le> pid \<and> pid < MAX_PID \<and> pid \<notin> pids_of s
    \<and> (\<exists>n. s' = s\<lparr>last_pid := pid, next_safe := n\<rparr> \<and> pid < n \<and> n \<le> MAX_PID \<and> pid_gap (pids_of s) pid n)"
proof -
  let ?ps = "map (\<lambda>p. p_pid (procs s p)) (proc_list s)"
  have ps: "set ?ps = pids_of s" by (simp add: pids_of_def)
  obtain f where f: "f \<notin> set ?ps" "1 \<le> f" "f < MAX_PID"
    using free_pid_exists [of ?ps] len by auto
  note tot = pid_repeat_total [OF f, unfolded ps]
  let ?lst = "last_pid s + 1"
  consider "?lst \<ge> MAX_PID" | "?lst < MAX_PID" "?lst \<ge> next_safe s" | "?lst < MAX_PID" "?lst < next_safe s"
    by linarith
  then show ?thesis
  proof cases
    case 1
    with tot [of 1] show ?thesis by (fastforce simp: get_pid_def Let_def)
  next
    case 2
    with tot [of ?lst] inv show ?thesis by (fastforce simp: get_pid_def Let_def pid_inv_def)
  next
    case 3
    have "?lst \<notin> pids_of s" "pid_gap (pids_of s) ?lst (next_safe s)"
      using inv 3 by (auto simp: pid_inv_def pid_gap_def)
    moreover have "get_pid s = Some (s\<lparr>last_pid := ?lst, next_safe := next_safe s\<rparr>, ?lst)"
      using 3 by (simp add: get_pid_def Let_def)
    moreover have "1 \<le> ?lst" "next_safe s \<le> MAX_PID" using inv by (simp_all add: pid_inv_def)
    ultimately show ?thesis using 3 by blast
  qed
qed

text \<open>
  C13. \<open>get_pid\<close> always returns, with a process number between 1 and \<open>MAX_PID\<close> that no listed
  process has, and re-establishes its own bookkeeping for the table in which the new process has
  that number.
\<close>

theorem get_pid_fresh:
  assumes "pid_inv s" and "length (proc_list s) < 8191"
  shows "\<exists>s' pid. get_pid s = Some (s', pid) \<and> 1 \<le> pid \<and> pid < MAX_PID
    \<and> (\<forall>p \<in> set (proc_list s). p_pid (procs s p) \<noteq> pid)
    \<and> procs s' = procs s \<and> proc_list s' = proc_list s
    \<and> pid_inv (upd_proc q (\<lambda>x. x\<lparr>p_pid := pid\<rparr>) s'\<lparr>proc_list := q # proc_list s\<rparr>)"
proof -
  obtain s' pid n where s': "get_pid s = Some (s', pid)" "1 \<le> pid" "pid < MAX_PID" "pid \<notin> pids_of s"
    "s' = s\<lparr>last_pid := pid, next_safe := n\<rparr>" "pid < n" "n \<le> MAX_PID" "pid_gap (pids_of s) pid n"
    using get_pid_ok [OF assms] by blast
  let ?t = "upd_proc q (\<lambda>x. x\<lparr>p_pid := pid\<rparr>) s'\<lparr>proc_list := q # proc_list s\<rparr>"
  have "pids_of ?t \<subseteq> insert pid (pids_of s)"
    by (auto simp: pids_of_def s'(5) upd_proc_def)
  then have "pid_gap (pids_of ?t) pid n" using s'(8) by (auto simp: pid_gap_def)
  then have "pid_inv ?t" using s' by (simp add: pid_inv_def upd_proc_def)
  with s' show ?thesis by (auto simp: pids_of_def)
qed

subsection \<open>Hash lists\<close>

definition pid_hashfn :: "int \<Rightarrow> nat" where
  "pid_hashfn x = unat (hash32 (word_of_int x) 10)"

lemma pid_hashfn_bound: "pid_hashfn x < 1024"
proof -
  have "unat (drop_bit 22 (w :: u32)) < 1024" for w
  proof -
    have "unat w < 2 ^ 32" using unsigned_less [of w, where ?'a = nat] by simp
    then have "unat w div 2 ^ 22 < 1024" by (simp add: div_less_iff_less_mult)
    moreover have "unat (drop_bit 22 w) = unat w div 2 ^ 22"
      by (simp add: drop_bit_eq_div unat_div)
    ultimately show ?thesis by simp
  qed
  then show ?thesis by (simp add: pid_hashfn_def hash32_def Let_def)
qed

definition hash_proc :: "paddr \<Rightarrow> 'a proc_mgr_scheme \<Rightarrow> 'a proc_mgr_scheme" where
  "hash_proc proc s =
     (let b = pid_hashfn (p_pid (procs s proc))
      in s\<lparr>hash_list := (hash_list s)(b := proc # hash_list s b)\<rparr>)"

text \<open>\<open>list_del\<close> of the entry \<open>hash_link\<close>, which is in the list of the number of its process.\<close>

definition unhash_proc :: "paddr \<Rightarrow> 'a proc_mgr_scheme \<Rightarrow> 'a proc_mgr_scheme" where
  "unhash_proc proc s =
     (let b = pid_hashfn (p_pid (procs s proc))
      in s\<lparr>hash_list := (hash_list s)(b := removeAll proc (hash_list s b))\<rparr>)"

fun find_in :: "(paddr \<Rightarrow> proc_struct) \<Rightarrow> int \<Rightarrow> paddr list \<Rightarrow> paddr option" where
  "find_in pr pid [] = None"
| "find_in pr pid (p # ps) = (if p_pid (pr p) = pid then Some p else find_in pr pid ps)"

definition find_proc :: "int \<Rightarrow> 'a proc_mgr_scheme \<Rightarrow> paddr option" where
  "find_proc pid s =
     (if 0 < pid \<and> pid < MAX_PID then find_in (procs s) pid (hash_list s (pid_hashfn pid)) else None)"

text \<open>The hash lists hold every listed process in the bucket of its number, and nothing else.\<close>

definition hash_inv :: "'a proc_mgr_scheme \<Rightarrow> bool" where
  "hash_inv s = ((\<forall>b. set (hash_list s b) = {p \<in> set (proc_list s). pid_hashfn (p_pid (procs s p)) = b})
     \<and> distinct (proc_list s) \<and> inj_on (\<lambda>p. p_pid (procs s p)) (set (proc_list s))
     \<and> (\<forall>p \<in> set (proc_list s). 0 < p_pid (procs s p) \<and> p_pid (procs s p) < MAX_PID))"

lemma find_in_Some: "find_in pr pid ps = Some p \<Longrightarrow> p \<in> set ps \<and> p_pid (pr p) = pid"
  by (induction ps) (auto split: if_splits)

lemma find_in_None: "find_in pr pid ps = None \<longleftrightarrow> (\<forall>p \<in> set ps. p_pid (pr p) \<noteq> pid)"
  by (induction ps) auto

text \<open>Looking up a number finds the one process that has it.\<close>

lemma find_proc_iff:
  assumes inv: "hash_inv s"
  shows "find_proc pid s = Some p \<longleftrightarrow> p \<in> set (proc_list s) \<and> p_pid (procs s p) = pid"
proof
  assume "find_proc pid s = Some p"
  then show "p \<in> set (proc_list s) \<and> p_pid (procs s p) = pid"
    using inv find_in_Some [of "procs s" pid _ p] by (auto simp: find_proc_def hash_inv_def split: if_splits)
next
  assume p: "p \<in> set (proc_list s) \<and> p_pid (procs s p) = pid"
  then have b: "0 < pid" "pid < MAX_PID" and "p \<in> set (hash_list s (pid_hashfn pid))"
    using inv by (auto simp: hash_inv_def)
  then obtain q where "find_in (procs s) pid (hash_list s (pid_hashfn pid)) = Some q"
    using find_in_None [of "procs s" pid "hash_list s (pid_hashfn pid)"] p
    by (cases "find_in (procs s) pid (hash_list s (pid_hashfn pid))") auto
  moreover from find_in_Some [OF this] p inv have "q = p"
    by (auto simp: hash_inv_def inj_on_def)
  ultimately show "find_proc pid s = Some p" using b by (simp add: find_proc_def)
qed

subsection \<open>Family links\<close>

definition set_links :: "paddr \<Rightarrow> 'a proc_mgr_scheme \<Rightarrow> 'a proc_mgr_scheme option" where
  "set_links proc s =
     do { parent \<leftarrow> p_parent (procs s proc);
          let s = s\<lparr>proc_list := proc # proc_list s\<rparr>;
          let s = upd_proc proc (\<lambda>x. x\<lparr>p_yptr := None\<rparr>) s;
          let s = upd_proc proc (\<lambda>x. x\<lparr>p_optr := p_cptr (procs s parent)\<rparr>) s;
          let s = (case p_optr (procs s proc) of
                     None \<Rightarrow> s | Some o' \<Rightarrow> upd_proc o' (\<lambda>x. x\<lparr>p_yptr := Some proc\<rparr>) s);
          let s = upd_proc parent (\<lambda>x. x\<lparr>p_cptr := Some proc\<rparr>) s;
          Some (s\<lparr>nr_process := nr_process s + 1\<rparr>) }"

definition remove_links :: "paddr \<Rightarrow> 'a proc_mgr_scheme \<Rightarrow> 'a proc_mgr_scheme option" where
  "remove_links proc s =
     do { let s = s\<lparr>proc_list := removeAll proc (proc_list s)\<rparr>;
          let s = (case p_optr (procs s proc) of
                     None \<Rightarrow> s
                   | Some o' \<Rightarrow> upd_proc o' (\<lambda>x. x\<lparr>p_yptr := p_yptr (procs s proc)\<rparr>) s);
          s \<leftarrow> (case p_yptr (procs s proc) of
                  Some y \<Rightarrow> Some (upd_proc y (\<lambda>x. x\<lparr>p_optr := p_optr (procs s proc)\<rparr>) s)
                | None \<Rightarrow> do { parent \<leftarrow> p_parent (procs s proc);
                               Some (upd_proc parent (\<lambda>x. x\<lparr>p_cptr := p_optr (procs s proc)\<rparr>) s) });
          Some (s\<lparr>nr_process := nr_process s - 1\<rparr>) }"

text \<open>
  The children of a process, youngest first: \<open>cptr\<close> points to the youngest, \<open>optr\<close> to the next
  older sibling, \<open>yptr\<close> back to the next younger one.
\<close>

fun sib_chain :: "(paddr \<Rightarrow> proc_struct) \<Rightarrow> paddr option \<Rightarrow> paddr list \<Rightarrow> paddr option \<Rightarrow> bool" where
  "sib_chain pr y [] o' = (o' = None)"
| "sib_chain pr y (c # cs) o' = (o' = Some c \<and> p_yptr (pr c) = y \<and> sib_chain pr (Some c) cs (p_optr (pr c)))"

definition children_of :: "(paddr \<Rightarrow> proc_struct) \<Rightarrow> paddr \<Rightarrow> paddr list \<Rightarrow> bool" where
  "children_of pr p cs = (distinct cs \<and> p \<notin> set cs \<and> sib_chain pr None cs (p_cptr (pr p))
     \<and> (\<forall>c \<in> set cs. p_parent (pr c) = Some p))"

lemma sib_chain_cong:
  "(\<And>c. c \<in> set cs \<Longrightarrow> p_yptr (pr' c) = p_yptr (pr c) \<and> p_optr (pr' c) = p_optr (pr c)) \<Longrightarrow>
     sib_chain pr' y cs o' = sib_chain pr y cs o'"
  by (induction cs arbitrary: y o') auto

lemma sib_chain_split:
  "sib_chain pr y (as @ c # bs) o' \<Longrightarrow>
     p_yptr (pr c) = (if as = [] then y else Some (last as)) \<and> sib_chain pr (Some c) bs (p_optr (pr c))"
  by (induction as arbitrary: y o') auto

lemma sib_chain_remove:
  assumes "sib_chain pr y (as @ p # bs) o'" and "distinct (as @ p # bs)"
    and "\<forall>c \<in> set (as @ bs). p_yptr (pr' c) = (if bs \<noteq> [] \<and> c = hd bs then p_yptr (pr p) else p_yptr (pr c))"
    and "\<forall>c \<in> set (as @ bs). p_optr (pr' c) = (if as \<noteq> [] \<and> c = last as then p_optr (pr p) else p_optr (pr c))"
  shows "sib_chain pr' y (as @ bs) (if as = [] then p_optr (pr p) else o')"
  using assms
proof (induction as arbitrary: y o')
  case Nil
  show ?case
  proof (cases bs)
    case (Cons b bs')
    have "sib_chain pr' (Some b) bs' (p_optr (pr b)) = sib_chain pr (Some b) bs' (p_optr (pr b))"
      using Nil.prems Cons by (intro sib_chain_cong) auto
    with Nil.prems Cons show ?thesis by simp
  qed (use Nil.prems in simp)
next
  case (Cons a as)
  have chain: "sib_chain pr (Some a) (as @ p # bs) (p_optr (pr a))" and a: "p_yptr (pr a) = y" "o' = Some a"
    using Cons.prems(1) by auto
  have anot: "a \<notin> set as" "a \<notin> set bs" using Cons.prems(2) by auto
  have "sib_chain pr' (Some a) (as @ bs) (if as = [] then p_optr (pr p) else p_optr (pr a))"
  proof (rule Cons.IH [OF chain])
    show "\<forall>c \<in> set (as @ bs). p_optr (pr' c) = (if as \<noteq> [] \<and> c = last as then p_optr (pr p) else p_optr (pr c))"
      using Cons.prems(4) anot by (cases "as = []") auto
  qed (use Cons.prems in auto)
  moreover have "p_yptr (pr' a) = y" using Cons.prems(3) a anot by (cases bs) auto
  moreover have "p_optr (pr' a) = (if as = [] then p_optr (pr p) else p_optr (pr a))"
    using Cons.prems(4) anot last_in_set [of as] by auto
  ultimately show ?case using a by simp
qed

definition family :: "paddr set \<Rightarrow> (paddr \<Rightarrow> proc_struct) \<Rightarrow> (paddr \<Rightarrow> paddr list) \<Rightarrow> bool" where
  "family L pr F = (\<forall>p \<in> L. children_of pr p (F p) \<and> set (F p) \<subseteq> L)"

lemma children_of_cong:
  assumes "children_of pr p cs" and "p_cptr (pr' p) = p_cptr (pr p)"
    and "\<forall>c \<in> set cs. p_yptr (pr' c) = p_yptr (pr c) \<and> p_optr (pr' c) = p_optr (pr c)
          \<and> p_parent (pr' c) = p_parent (pr c)"
  shows "children_of pr' p cs"
  using assms sib_chain_cong [of cs pr' pr None "p_cptr (pr p)"] by (simp add: children_of_def)

lemma children_disjoint:
  assumes "children_of pr p cs" and "children_of pr q ds" and "p \<noteq> q"
  shows "set cs \<inter> set ds = {}"
  using assms by (fastforce simp: children_of_def)

text \<open>\<open>set_links\<close> makes the process the youngest child of its parent.\<close>

lemma set_links_family:
  assumes fam: "family L (procs s) F" and q: "q \<in> L" "p_parent (procs s p) = Some q" and p: "p \<notin> L"
    and leaf: "p_cptr (procs s p) = None"
  shows "\<exists>s'. set_links p s = Some s' \<and> family (insert p L) (procs s') (F(q := p # F q, p := []))
    \<and> proc_list s' = p # proc_list s \<and> nr_process s' = nr_process s + 1"
proof -
  have pq: "p \<noteq> q" using p q by auto
  have cq: "children_of (procs s) q (F q)" "set (F q) \<subseteq> L" using fam q by (auto simp: family_def)
  have head: "p_cptr (procs s q) = (case F q of [] \<Rightarrow> None | c # _ \<Rightarrow> Some c)"
    using cq by (cases "F q") (auto simp: children_of_def)
  obtain s' where run: "set_links p s = Some s'"
    and lst: "proc_list s' = p # proc_list s" "nr_process s' = nr_process s + 1"
    and pr: "procs s' = (let m = (procs s)(p := (procs s p)\<lparr>p_yptr := None, p_optr := p_cptr (procs s q)\<rparr>);
        m = (case F q of [] \<Rightarrow> m | c # _ \<Rightarrow> m(c := (m c)\<lparr>p_yptr := Some p\<rparr>))
      in m(q := (m q)\<lparr>p_cptr := Some p\<rparr>))"
    using q head pq by (cases "F q") (simp_all add: set_links_def upd_proc_def Let_def)
  have qn: "q \<notin> set (F q)" "p \<notin> set (F q)" using cq p by (auto simp: children_of_def)
  have fld: "p_cptr (procs s' r) = (if r = q then Some p else p_cptr (procs s r))"
    "p_parent (procs s' r) = p_parent (procs s r)"
    "p_optr (procs s' r) = (if r = p then p_cptr (procs s q) else p_optr (procs s r))"
    "p_yptr (procs s' r) = (if r = p then None else if F q \<noteq> [] \<and> r = hd (F q) then Some p else p_yptr (procs s r))" for r
    using qn pq unfolding pr by (cases "F q"; auto simp: Let_def)+
  have "children_of (procs s') q (p # F q)"
  proof -
    have "sib_chain (procs s') (Some p) (F q) (p_cptr (procs s q))"
    proof (cases "F q")
      case (Cons c cs)
      have "sib_chain (procs s') (Some c) cs (p_optr (procs s c)) = sib_chain (procs s) (Some c) cs (p_optr (procs s c))"
        using cq Cons qn fld by (intro sib_chain_cong) (auto simp: children_of_def)
      with cq Cons qn fld head show ?thesis by (auto simp: children_of_def)
    qed (simp add: head)
    with cq q pq qn fld show ?thesis by (auto simp: children_of_def)
  qed
  moreover have "children_of (procs s') p []" using leaf pq fld by (simp add: children_of_def)
  moreover have "children_of (procs s') r (F r)" if r: "r \<in> L" "r \<noteq> q" for r
  proof -
    have cr: "children_of (procs s) r (F r)" "set (F r) \<subseteq> L" using fam r by (auto simp: family_def)
    have "set (F r) \<inter> set (F q) = {}" using children_disjoint [OF cr(1) cq(1) r(2)] .
    then have "\<forall>c \<in> set (F r). c \<noteq> p \<and> (F q = [] \<or> c \<noteq> hd (F q))" using cr p by (cases "F q") auto
    then show ?thesis using cr r by (intro children_of_cong [OF cr(1)]) (auto simp: fld)
  qed
  ultimately have "family (insert p L) (procs s') (F(q := p # F q, p := []))"
    using fam q pq cq unfolding family_def by auto
  with run lst show ?thesis by blast
qed

text \<open>\<open>remove_links\<close> takes a childless process out of the list of its parent's children.\<close>

lemma remove_links_family:
  assumes fam: "family L (procs s) F" and q: "q \<in> L" "p_parent (procs s p) = Some q"
    and p: "p \<in> set (F q)" and leaf: "F p = []"
  shows "\<exists>s'. remove_links p s = Some s' \<and> family (L - {p}) (procs s') (F(q := removeAll p (F q)))
    \<and> proc_list s' = removeAll p (proc_list s) \<and> nr_process s' = nr_process s - 1"
proof -
  have cq: "children_of (procs s) q (F q)" "set (F q) \<subseteq> L" using fam q by (auto simp: family_def)
  obtain as bs where ab: "F q = as @ p # bs" using p by (rule in_set_splitE)
  have dist: "distinct (as @ p # bs)" "q \<notin> set (as @ p # bs)" using cq ab by (auto simp: children_of_def)
  have chain: "sib_chain (procs s) None (as @ p # bs) (p_cptr (procs s q))" using cq ab by (simp add: children_of_def)
  have y: "p_yptr (procs s p) = (if as = [] then None else Some (last as))"
    and rest: "sib_chain (procs s) (Some p) bs (p_optr (procs s p))" using sib_chain_split [OF chain] by auto
  have o': "p_optr (procs s p) = (if bs = [] then None else Some (hd bs))" using rest by (cases bs) auto
  have rm: "removeAll p (F q) = as @ bs" using ab dist by simp
  have las: "as \<noteq> [] \<Longrightarrow> last as \<noteq> p \<and> last as \<notin> set bs \<and> last as \<noteq> q"
    and hbs: "bs \<noteq> [] \<Longrightarrow> hd bs \<noteq> p \<and> hd bs \<notin> set as \<and> hd bs \<noteq> q"
  proof -
    show "as \<noteq> [] \<Longrightarrow> last as \<noteq> p \<and> last as \<notin> set bs \<and> last as \<noteq> q"
      using dist last_in_set [of as] by (metis Un_iff disjoint_iff distinct.simps(2) distinct_append list.set_intros set_append)
    show "bs \<noteq> [] \<Longrightarrow> hd bs \<noteq> p \<and> hd bs \<notin> set as \<and> hd bs \<noteq> q"
      using dist hd_in_set [of bs] by (metis Un_iff disjoint_iff distinct.simps(2) distinct_append list.set_intros set_append)
  qed
  obtain s' where run: "remove_links p s = Some s'"
    and lst: "proc_list s' = removeAll p (proc_list s)" "nr_process s' = nr_process s - 1"
    and fld: "\<forall>r. p_parent (procs s' r) = p_parent (procs s r)
      \<and> p_cptr (procs s' r) = (if as = [] \<and> r = q then p_optr (procs s p) else p_cptr (procs s r))
      \<and> p_optr (procs s' r) = (if as \<noteq> [] \<and> r = last as then p_optr (procs s p) else p_optr (procs s r))
      \<and> p_yptr (procs s' r) = (if bs \<noteq> [] \<and> r = hd bs then p_yptr (procs s p) else p_yptr (procs s r))"
  proof -
    have pq: "p \<noteq> q" using dist by auto
    have "\<exists>s'. remove_links p s = Some s'"
      using q las hbs by (cases "as = []"; cases "bs = []") (simp_all add: remove_links_def upd_proc_def Let_def y o')
    then obtain s' where r: "remove_links p s = Some s'" by blast
    show thesis
    proof (rule that [OF r])
      show "proc_list s' = removeAll p (proc_list s)" "nr_process s' = nr_process s - 1"
        using r q las hbs by (cases "as = []"; cases "bs = []"; auto simp: remove_links_def upd_proc_def Let_def y o')+
    qed (use r q las hbs pq in \<open>cases "as = []"; cases "bs = []"; auto simp: remove_links_def upd_proc_def Let_def y o'\<close>)
  qed
  have "sib_chain (procs s') None (as @ bs) (if as = [] then p_optr (procs s p) else p_cptr (procs s q))"
    by (rule sib_chain_remove [OF chain dist(1)]) (use fld in auto)
  then have "children_of (procs s') q (as @ bs)"
    using cq ab dist fld by (auto simp: children_of_def split: if_splits)
  moreover have "children_of (procs s') r (F r)" if r: "r \<in> L" "r \<noteq> q" for r
  proof -
    have cr: "children_of (procs s) r (F r)" using fam r by (auto simp: family_def)
    have "set (F r) \<inter> set (as @ p # bs) = {}" using children_disjoint [OF cr cq(1) r(2)] ab by simp
    moreover have "as \<noteq> [] \<Longrightarrow> last as \<in> set as" "bs \<noteq> [] \<Longrightarrow> hd bs \<in> set bs" by simp_all
    ultimately have "\<forall>c \<in> set (F r). (as = [] \<or> c \<noteq> last as) \<and> (bs = [] \<or> c \<noteq> hd bs)" by auto
    then show ?thesis using cr r fld by (intro children_of_cong [OF cr]) auto
  qed
  moreover have "p \<notin> set (F r)" if "r \<in> L" "r \<noteq> q" for r
  proof -
    have "children_of (procs s) r (F r)" using fam that by (auto simp: family_def)
    then show ?thesis using q that by (auto simp: children_of_def)
  qed
  ultimately have "family (L - {p}) (procs s') (F(q := removeAll p (F q)))"
  proof -
    assume *: "children_of (procs s') q (as @ bs)" "\<And>r. r \<in> L \<Longrightarrow> r \<noteq> q \<Longrightarrow> children_of (procs s') r (F r)"
      "\<And>r. r \<in> L \<Longrightarrow> r \<noteq> q \<Longrightarrow> p \<notin> set (F r)"
    show ?thesis unfolding family_def rm
    proof
      fix r assume r: "r \<in> L - {p}"
      show "children_of (procs s') r ((F(q := as @ bs)) r) \<and> set ((F(q := as @ bs)) r) \<subseteq> L - {p}"
      proof (cases "r = q")
        case True
        then show ?thesis using *(1) cq(2) ab dist by auto
      next
        case False
        then show ?thesis using r *(2,3) [of r] fam by (auto simp: family_def)
      qed
    qed
  qed
  with run lst show ?thesis by blast
qed

text \<open>The fields of descriptors and the tables the two functions leave alone.\<close>

definition links_only :: "'a proc_mgr_scheme \<Rightarrow> 'a proc_mgr_scheme \<Rightarrow> bool" where
  "links_only s s' = (rq s' = rq s \<and> current s' = current s \<and> idleproc s' = idleproc s \<and> initproc s' = initproc s
     \<and> hash_list s' = hash_list s \<and> last_pid s' = last_pid s \<and> next_safe s' = next_safe s
     \<and> live_procs s' = live_procs s \<and> live_kstacks s' = live_kstacks s
     \<and> (\<forall>q. p_state (procs s' q) = p_state (procs s q) \<and> p_wait_state (procs s' q) = p_wait_state (procs s q)
          \<and> p_pid (procs s' q) = p_pid (procs s q) \<and> p_rq (procs s' q) = p_rq (procs s q)
          \<and> p_filesp (procs s' q) = p_filesp (procs s q) \<and> p_parent (procs s' q) = p_parent (procs s q)
          \<and> p_kstack (procs s' q) = p_kstack (procs s q) \<and> p_exit_code (procs s' q) = p_exit_code (procs s q)))"

lemma links_only_step:
  assumes "links_only s t" and "\<And>x. f x = x\<lparr>p_cptr := p_cptr (f x), p_optr := p_optr (f x), p_yptr := p_yptr (f x)\<rparr>"
  shows "links_only s (upd_proc q f t)"
proof -
  have "p_state (f x) = p_state x" "p_wait_state (f x) = p_wait_state x" "p_pid (f x) = p_pid x"
    "p_rq (f x) = p_rq x" "p_filesp (f x) = p_filesp x" "p_parent (f x) = p_parent x"
    "p_kstack (f x) = p_kstack x" "p_exit_code (f x) = p_exit_code x" for x
    by (subst assms(2), simp)+
  with assms(1) show ?thesis by (simp add: links_only_def upd_proc_def)
qed

lemma links_only_table:
  "links_only s s" "links_only s t \<Longrightarrow> links_only s (t\<lparr>nr_process := n\<rparr>)"
  "links_only s t \<Longrightarrow> links_only s (t\<lparr>proc_list := l\<rparr>)"
  by (simp_all add: links_only_def)

lemma set_links_only: "set_links p s = Some s' \<Longrightarrow> links_only s s'"
  by (auto simp: set_links_def Let_def bind_eq_Some_conv simp del: upd_proc_simps
      intro!: links_only_table links_only_step split: option.splits)

lemma remove_links_only: "remove_links p s = Some s' \<Longrightarrow> links_only s s'"
  by (auto simp: remove_links_def Let_def bind_eq_Some_conv simp del: upd_proc_simps
      intro!: links_only_table links_only_step split: option.splits)

end
