(* ===== verification/Proc.thy ===== *)
theory Proc
  imports Pids
begin

section \<open>Process life cycle: \<open>kern/process/proc.c\<close>\<close>

text \<open>
  Creation, exit, wait, kill and sleep. The results of the calls into the memory allocators and
  the file system that creation depends on are the fields of \<open>fork_env\<close>: they are decided by
  other components, and every combination of success and failure is a branch here. A function
  that calls \<open>schedule\<close> ends there; what runs after the switch is a function of its own.
  Interrupt masking has no counterpart: a function of the model is one uninterrupted section.
\<close>

record fork_env =
  fe_kmalloc :: "paddr option"
  fe_kstack :: "nat option"
  fe_mm_create :: "nat option"
  fe_setup_pgdir :: int
  fe_dup_mmap :: int
  fe_pgdir_pa :: "nat \<Rightarrow> u64"
  fe_files_create :: "nat option"
  fe_dup_files :: int
  fe_boot_cr3 :: u64
  fe_forkret :: u64

abbreviation (input) CLONE_VM :: u32 where "CLONE_VM \<equiv> 0x00000100"
abbreviation (input) CLONE_FS :: u32 where "CLONE_FS \<equiv> 0x00000800"
abbreviation (input) KSTACKSIZE :: nat where "KSTACKSIZE \<equiv> 8192"
abbreviation (input) TRAPFRAME_SIZE :: nat where "TRAPFRAME_SIZE \<equiv> 288"
abbreviation (input) PROC_NAME_LEN :: nat where "PROC_NAME_LEN \<equiv> 15"

subsection \<open>Creation\<close>

definition alloc_proc :: "fork_env \<Rightarrow> paddr \<Rightarrow> 'a proc_mgr_scheme \<Rightarrow> 'a proc_mgr_scheme" where
  "alloc_proc env proc s =
     (let s = s\<lparr>live_procs := insert proc (live_procs s)\<rparr>;
          s = upd_proc proc (\<lambda>p. p\<lparr>p_state := PROC_UNINIT, p_pid := - 1, p_runs := 0, p_kstack := 0,
            p_need_resched := False, p_parent := None, p_mm := None,
            p_context := \<lparr>ctx_ra = 0, ctx_sp = 0, ctx_s = \<lambda>_. 0\<rparr>, p_tf := None,
            p_cr3 := fe_boot_cr3 env, p_flags := 0, p_name := [],
            p_wait_state := 0, p_cptr := None, p_optr := None, p_yptr := None, p_rq := False,
            p_time_slice := 0, p_lab6_stride := 0, p_lab6_priority := 0, p_filesp := None\<rparr>) s
      in init_entry proc s)"

text \<open>Names are C strings: the bytes up to the terminator, at most \<open>PROC_NAME_LEN\<close> of them.\<close>

definition set_proc_name :: "paddr \<Rightarrow> string \<Rightarrow> 'a sched_state_scheme \<Rightarrow> 'a sched_state_scheme" where
  "set_proc_name proc name s =
     upd_proc proc (\<lambda>p. p\<lparr>p_name := take PROC_NAME_LEN name\<rparr>) s"

definition get_proc_name :: "paddr \<Rightarrow> 'a sched_state_scheme \<Rightarrow> string" where
  "get_proc_name proc s = take PROC_NAME_LEN (p_name (procs s proc))"

definition setup_kstack :: "fork_env \<Rightarrow> paddr \<Rightarrow> 'a proc_mgr_scheme \<Rightarrow> 'a proc_mgr_scheme \<times> int" where
  "setup_kstack env proc s =
     (case fe_kstack env of
        Some k \<Rightarrow> (upd_proc proc (\<lambda>p. p\<lparr>p_kstack := k\<rparr>) s\<lparr>live_kstacks := insert k (live_kstacks s)\<rparr>, 0)
      | None \<Rightarrow> (s, - E_NO_MEM))"

definition put_kstack :: "paddr \<Rightarrow> 'a proc_mgr_scheme \<Rightarrow> 'a proc_mgr_scheme" where
  "put_kstack proc s = s\<lparr>live_kstacks := live_kstacks s - {p_kstack (procs s proc)}\<rparr>"

definition kfree_proc :: "paddr \<Rightarrow> 'a proc_mgr_scheme \<Rightarrow> 'a proc_mgr_scheme" where
  "kfree_proc proc s = s\<lparr>live_procs := live_procs s - {proc}\<rparr>"

definition share_mm :: "fork_env \<Rightarrow> nat \<Rightarrow> paddr \<Rightarrow> 'a proc_mgr_scheme \<Rightarrow> 'a proc_mgr_scheme" where
  "share_mm env mm proc s =
     upd_proc proc (\<lambda>p. p\<lparr>p_mm := Some mm, p_cr3 := fe_pgdir_pa env mm\<rparr>)
       (s\<lparr>mm_count := (mm_count s)(mm := mm_count s mm + 1)\<rparr>)"

definition copy_mm :: "fork_env \<Rightarrow> u32 \<Rightarrow> paddr \<Rightarrow> 'a proc_mgr_scheme \<Rightarrow> 'a proc_mgr_scheme \<times> int" where
  "copy_mm env clone_flags proc s =
     (case p_mm (procs s (current s)) of
        None \<Rightarrow> (s, 0)
      | Some oldmm \<Rightarrow>
          if clone_flags AND CLONE_VM \<noteq> 0 then (share_mm env oldmm proc s, 0)
          else (case fe_mm_create env of
             None \<Rightarrow> (s, - E_NO_MEM)
           | Some mm \<Rightarrow>
               (let s1 = s\<lparr>live_mms := insert mm (live_mms s), mm_count := (mm_count s)(mm := 0)\<rparr>;
                    destroyed = s1\<lparr>live_mms := live_mms s1 - {mm}\<rparr>
                in if fe_setup_pgdir env \<noteq> 0 then (destroyed, - E_NO_MEM)
                   else if fe_dup_mmap env \<noteq> 0 then (destroyed, fe_dup_mmap env)
                   else (share_mm env mm proc s1, 0))))"

text \<open>The trap frame is at the top of the kernel stack; the context points to it.\<close>

definition copy_thread :: "fork_env \<Rightarrow> paddr \<Rightarrow> u64 \<Rightarrow> trapframe \<Rightarrow> 'a sched_state_scheme \<Rightarrow>
    'a sched_state_scheme" where
  "copy_thread env proc esp tf s =
     (let tfp = of_nat (p_kstack (procs s proc) + KSTACKSIZE - TRAPFRAME_SIZE) :: u64;
          tf = tf\<lparr>tf_gpr := (tf_gpr tf)(10 := 0)\<rparr>;
          tf = tf\<lparr>tf_gpr := (tf_gpr tf)(2 := (if esp = 0 then tfp - 4 else esp))\<rparr>
      in upd_proc proc (\<lambda>p. p\<lparr>p_tf := Some tf,
           p_context := (p_context p)\<lparr>ctx_ra := fe_forkret env, ctx_sp := tfp\<rparr>\<rparr>) s)"

definition share_files :: "nat \<Rightarrow> paddr \<Rightarrow> 'a proc_mgr_scheme \<Rightarrow> 'a proc_mgr_scheme" where
  "share_files filesp proc s =
     upd_proc proc (\<lambda>p. p\<lparr>p_filesp := Some filesp\<rparr>)
       (s\<lparr>files_count := (files_count s)(filesp := files_count s filesp + 1)\<rparr>)"

definition copy_files :: "fork_env \<Rightarrow> u32 \<Rightarrow> paddr \<Rightarrow> 'a proc_mgr_scheme \<Rightarrow>
    ('a proc_mgr_scheme \<times> int) option" where
  "copy_files env clone_flags proc s =
     do { old_filesp \<leftarrow> p_filesp (procs s (current s));
          Some (if clone_flags AND CLONE_FS \<noteq> 0 then (share_files old_filesp proc s, 0)
                else (case fe_files_create env of
                   None \<Rightarrow> (s, - E_NO_MEM)
                 | Some filesp \<Rightarrow>
                     (let s1 = s\<lparr>live_files := insert filesp (live_files s),
                                 files_count := (files_count s)(filesp := 0)\<rparr>
                      in if fe_dup_files env \<noteq> 0
                         then (s1\<lparr>live_files := live_files s1 - {filesp}\<rparr>, fe_dup_files env)
                         else (share_files filesp proc s1, 0)))) }"

definition put_files :: "paddr \<Rightarrow> 'a proc_mgr_scheme \<Rightarrow> 'a proc_mgr_scheme" where
  "put_files proc s =
     (case p_filesp (procs s proc) of
        None \<Rightarrow> s
      | Some filesp \<Rightarrow>
          (let s = s\<lparr>files_count := (files_count s)(filesp := files_count s filesp - 1)\<rparr>
           in if files_count s filesp = 0 then s\<lparr>live_files := live_files s - {filesp}\<rparr> else s))"

definition do_fork :: "'a proc_mgr_scheme sched_class \<Rightarrow> fork_env \<Rightarrow> u32 \<Rightarrow> u64 \<Rightarrow> trapframe \<Rightarrow>
    'a proc_mgr_scheme \<Rightarrow> ('a proc_mgr_scheme \<times> int) option" where
  "do_fork cls env clone_flags stack tf s =
     (if nr_process s \<ge> MAX_PROCESS then Some (s, - E_NO_FREE_PROC)
      else (case fe_kmalloc env of
         None \<Rightarrow> Some (s, - E_NO_MEM)
       | Some proc \<Rightarrow>
           do { let s = alloc_proc env proc s;
                let s = upd_proc proc (\<lambda>p. p\<lparr>p_parent := Some (current s)\<rparr>) s;
                kassert (p_wait_state (procs s (current s)) = 0);
                let (s, r) = setup_kstack env proc s;
                if r \<noteq> 0 then Some (kfree_proc proc s, - E_NO_MEM)
                else do {
                  let (s, r) = copy_mm env clone_flags proc s;
                  if r \<noteq> 0 then Some (kfree_proc proc (put_kstack proc s), - E_NO_MEM)
                  else do {
                    let s = copy_thread env proc stack tf s;
                    (s, pid) \<leftarrow> get_pid s;
                    let s = upd_proc proc (\<lambda>p. p\<lparr>p_pid := pid\<rparr>) s;
                    let s = hash_proc proc s;
                    s \<leftarrow> set_links proc s;
                    s \<leftarrow> wakeup_proc cls proc s;
                    let ret = p_pid (procs s proc);
                    (s, r) \<leftarrow> copy_files env clone_flags proc s;
                    if r \<noteq> 0 then Some (kfree_proc proc (put_kstack proc s), ret)
                    else Some (s, ret) } } }))"

definition kernel_thread :: "'a proc_mgr_scheme sched_class \<Rightarrow> fork_env \<Rightarrow> u64 \<Rightarrow> u64 \<Rightarrow> u32 \<Rightarrow> u64 \<Rightarrow> u64 \<Rightarrow>
    'a proc_mgr_scheme \<Rightarrow> ('a proc_mgr_scheme \<times> int) option" where
  "kernel_thread cls env fn arg clone_flags sstatus entry s =
     do_fork cls env (clone_flags OR CLONE_VM) 0
       \<lparr>tf_gpr = (\<lambda>_. 0)(8 := fn, 9 := arg),
        tf_status = (sstatus OR 0x100 OR 0x20) AND NOT 0x2, tf_epc = entry, tf_tval = 0, tf_cause = 0\<rparr> s"

subsection \<open>Exit\<close>

text \<open>The loop that hands the children of the current process over to \<open>initproc\<close>.\<close>

definition exit_adopt :: "paddr \<Rightarrow> 'a proc_mgr_scheme \<Rightarrow> 'a proc_mgr_scheme" where
  "exit_adopt proc s =
     (let s = upd_proc (current s) (\<lambda>p. p\<lparr>p_cptr := p_optr (procs s proc)\<rparr>) s;
          s = upd_proc proc (\<lambda>p. p\<lparr>p_yptr := None\<rparr>) s;
          s = upd_proc proc (\<lambda>p. p\<lparr>p_optr := p_cptr (procs s (initproc s))\<rparr>) s;
          s = (case p_optr (procs s proc) of
                 None \<Rightarrow> s
               | Some _ \<Rightarrow> (case p_cptr (procs s (initproc s)) of
                   None \<Rightarrow> s | Some c \<Rightarrow> upd_proc c (\<lambda>p. p\<lparr>p_yptr := Some proc\<rparr>) s));
          s = upd_proc proc (\<lambda>p. p\<lparr>p_parent := Some (initproc s)\<rparr>) s
      in upd_proc (initproc s) (\<lambda>p. p\<lparr>p_cptr := Some proc\<rparr>) s)"

partial_function (option) exit_loop :: "'a proc_mgr_scheme sched_class \<Rightarrow> 'a proc_mgr_scheme \<Rightarrow>
    'a proc_mgr_scheme option" where
  "exit_loop cls s =
     (case p_cptr (procs s (current s)) of
        None \<Rightarrow> Some s
      | Some proc \<Rightarrow>
          (let s = exit_adopt proc s
           in Option.bind
                (if p_state (procs s proc) = PROC_ZOMBIE \<and> p_wait_state (procs s (initproc s)) = WT_CHILD
                 then wakeup_proc cls (initproc s) s else Some s)
                (exit_loop cls)))"

definition exit_mm :: "fork_env \<Rightarrow> 'a proc_mgr_scheme \<Rightarrow> 'a proc_mgr_scheme" where
  "exit_mm env s =
     (case p_mm (procs s (current s)) of
        None \<Rightarrow> s
      | Some mm \<Rightarrow>
          (let s = s\<lparr>satp := lcr3 (fe_boot_cr3 env), mm_count := (mm_count s)(mm := mm_count s mm - 1)\<rparr>;
               s = (if mm_count s mm = 0 then s\<lparr>live_mms := live_mms s - {mm}\<rparr> else s);
               s = upd_proc (current s) (\<lambda>p. p\<lparr>p_mm := None\<rparr>) s
           in put_files (current s) s))"

definition do_exit :: "'a proc_mgr_scheme sched_class \<Rightarrow> fork_env \<Rightarrow> int \<Rightarrow> 'a proc_mgr_scheme \<Rightarrow>
    'a proc_mgr_scheme option" where
  "do_exit cls env error_code s =
     do { kassert (current s \<noteq> idleproc s);
          kassert (current s \<noteq> initproc s);
          let s = exit_mm env s;
          let s = upd_proc (current s) (\<lambda>p. p\<lparr>p_state := PROC_ZOMBIE, p_exit_code := error_code\<rparr>) s;
          parent \<leftarrow> p_parent (procs s (current s));
          s \<leftarrow> (if p_wait_state (procs s parent) = WT_CHILD then wakeup_proc cls parent s else Some s);
          s \<leftarrow> exit_loop cls s;
          schedule cls s }"

subsection \<open>Wait, kill, sleep, yield\<close>

datatype wait_outcome = WaitReturned int | WaitBlocked

text \<open>The loop over the children: is there any, and the first zombie.\<close>

partial_function (option) find_zombie :: "(paddr \<Rightarrow> proc_struct) \<Rightarrow> paddr option \<Rightarrow> bool \<Rightarrow>
    (bool \<times> paddr option) option" where
  "find_zombie pr proc haskid =
     (case proc of
        None \<Rightarrow> Some (haskid, None)
      | Some p \<Rightarrow> if p_state (pr p) = PROC_ZOMBIE then Some (True, Some p)
                  else find_zombie pr (p_optr (pr p)) True)"

text \<open>The search of \<open>do_wait\<close>: is there a child to wait for, and the zombie to reap.\<close>

definition wait_find :: "int \<Rightarrow> 'a proc_mgr_scheme \<Rightarrow> (bool \<times> paddr option) option" where
  "wait_find pid s =
     (if pid \<noteq> 0
      then (case find_proc pid s of
              None \<Rightarrow> Some (False, None)
            | Some proc \<Rightarrow>
                if p_parent (procs s proc) = Some (current s)
                then Some (True, if p_state (procs s proc) = PROC_ZOMBIE then Some proc else None)
                else Some (False, None))
      else find_zombie (procs s) (p_cptr (procs s (current s))) False)"

text \<open>
  \<open>do_wait\<close> from \<open>repeat\<close> on. The code store is the address check and the stored value: \<open>None\<close> is
  a null pointer. It returns, or sleeps until a child changes state.
\<close>

definition do_wait_round :: "'a proc_mgr_scheme sched_class \<Rightarrow> int \<Rightarrow> bool \<Rightarrow> 'a proc_mgr_scheme \<Rightarrow>
    ('a proc_mgr_scheme \<times> wait_outcome \<times> int option) option" where
  "do_wait_round cls pid has_store s =
     do { (haskid, found) \<leftarrow> wait_find pid s;
          (case found of
             Some proc \<Rightarrow>
               do { kassert (proc \<noteq> idleproc s \<and> proc \<noteq> initproc s);
                    let code = (if has_store then Some (p_exit_code (procs s proc)) else None);
                    let s = unhash_proc proc s;
                    s \<leftarrow> remove_links proc s;
                    let s = kfree_proc proc (put_kstack proc s);
                    Some (s, WaitReturned 0, code) }
           | None \<Rightarrow>
               if haskid
               then do { let s = upd_proc (current s)
                           (\<lambda>p. p\<lparr>p_state := PROC_SLEEPING, p_wait_state := WT_CHILD\<rparr>) s;
                         s \<leftarrow> schedule cls s;
                         Some (s, WaitBlocked, None) }
               else Some (s, WaitReturned (- E_BAD_PROC), None)) }"

definition do_wait :: "'a proc_mgr_scheme sched_class \<Rightarrow> int \<Rightarrow> bool option \<Rightarrow> 'a proc_mgr_scheme \<Rightarrow>
    ('a proc_mgr_scheme \<times> wait_outcome \<times> int option) option" where
  "do_wait cls pid code_store s =
     (if code_store = Some False then Some (s, WaitReturned (- E_INVAL), None)
      else do_wait_round cls pid (code_store \<noteq> None) s)"

text \<open>\<open>do_wait\<close> when the process runs again: it exits if it was killed, else it looks again.\<close>

definition do_wait_resume :: "'a proc_mgr_scheme sched_class \<Rightarrow> fork_env \<Rightarrow> int \<Rightarrow> bool \<Rightarrow>
    'a proc_mgr_scheme \<Rightarrow> ('a proc_mgr_scheme \<times> wait_outcome \<times> int option) option" where
  "do_wait_resume cls env pid has_store s =
     (if p_flags (procs s (current s)) AND PF_EXITING \<noteq> 0
      then do { s \<leftarrow> do_exit cls env (- E_KILLED) s; Some (s, WaitBlocked, None) }
      else do_wait_round cls pid has_store s)"

definition do_kill :: "'a proc_mgr_scheme sched_class \<Rightarrow> int \<Rightarrow> 'a proc_mgr_scheme \<Rightarrow>
    ('a proc_mgr_scheme \<times> int) option" where
  "do_kill cls pid s =
     (case find_proc pid s of
        Some proc \<Rightarrow>
          if p_flags (procs s proc) AND PF_EXITING = 0
          then do { let s = upd_proc proc (\<lambda>p. p\<lparr>p_flags := p_flags p OR PF_EXITING\<rparr>) s;
                    s \<leftarrow> (if p_wait_state (procs s proc) AND WT_INTERRUPTED \<noteq> 0
                          then wakeup_proc cls proc s else Some s);
                    Some (s, 0) }
          else Some (s, - E_KILLED)
      | None \<Rightarrow> Some (s, - E_INVAL))"

definition do_yield :: "'a sched_state_scheme \<Rightarrow> 'a sched_state_scheme \<times> int" where
  "do_yield s = (upd_proc (current s) (\<lambda>p. p\<lparr>p_need_resched := True\<rparr>) s, 0)"

definition lab6_set_priority :: "u32 \<Rightarrow> 'a sched_state_scheme \<Rightarrow> 'a sched_state_scheme" where
  "lab6_set_priority priority s =
     upd_proc (current s) (\<lambda>p. p\<lparr>p_lab6_priority := (if priority = 0 then 1 else priority)\<rparr>) s"

text \<open>\<open>do_sleep\<close> up to the switch, with the timer object on the stack of the process.\<close>

definition do_sleep :: "'a kernel_state_scheme sched_class \<Rightarrow> timer_id \<Rightarrow> nat \<Rightarrow> 'a kernel_state_scheme \<Rightarrow>
    ('a kernel_state_scheme \<times> bool) option" where
  "do_sleep cls t time s =
     (if time = 0 then Some (s, True)
      else do { let s = timer_init t (current s) time s;
                let s = upd_proc (current s) (\<lambda>p. p\<lparr>p_state := PROC_SLEEPING, p_wait_state := WT_TIMER\<rparr>) s;
                s \<leftarrow> add_timer t s;
                s \<leftarrow> schedule cls s;
                Some (s, False) })"

definition do_sleep_resume :: "timer_id \<Rightarrow> 'a kernel_state_scheme \<Rightarrow> 'a kernel_state_scheme" where
  "do_sleep_resume t s = del_timer t s"

text \<open>One iteration of \<open>cpu_idle\<close>.\<close>

definition cpu_idle_step :: "'a kernel_state_scheme sched_class \<Rightarrow> 'a kernel_state_scheme \<Rightarrow>
    'a kernel_state_scheme option" where
  "cpu_idle_step cls s =
     (if p_need_resched (procs s (current s)) then schedule cls s else Some s)"

text \<open>\<open>proc_init\<close>: the idle process, then the thread \<open>init_main\<close>.\<close>

definition proc_init :: "'a proc_mgr_scheme sched_class \<Rightarrow> paddr \<Rightarrow> nat \<Rightarrow> nat option \<Rightarrow> fork_env \<Rightarrow>
    u64 \<Rightarrow> u64 \<Rightarrow> u64 \<Rightarrow> 'a proc_mgr_scheme \<Rightarrow> 'a proc_mgr_scheme option" where
  "proc_init cls idle bootstack filesp env init_main sstatus entry s =
     do { let s = s\<lparr>proc_list := [], hash_list := \<lambda>_. [], idleproc := idle\<rparr>;
          let s = alloc_proc env idle s;
          let s = upd_proc idle (\<lambda>p. p\<lparr>p_pid := 0, p_state := PROC_RUNNABLE, p_kstack := bootstack,
                                        p_need_resched := True\<rparr>) s;
          f \<leftarrow> filesp;
          let s = share_files f idle (s\<lparr>live_files := insert f (live_files s),
                                        files_count := (files_count s)(f := 0)\<rparr>);
          let s = set_proc_name idle ''idle'' s;
          let s = s\<lparr>nr_process := nr_process s + 1, current := idle\<rparr>;
          (s, pid) \<leftarrow> kernel_thread cls env init_main 0 0 sstatus entry s;
          kassert (pid > 0);
          ini \<leftarrow> find_proc pid s;
          let s = s\<lparr>initproc := ini\<rparr>;
          let s = set_proc_name ini ''init'' s;
          kassert (p_pid (procs s (idleproc s)) = 0);
          kassert (p_pid (procs s ini) = 1);
          Some s }"

subsection \<open>Field lemmas\<close>

lemma mgr_upd_proc [simp]:
  "proc_list (upd_proc p f s) = proc_list s" "hash_list (upd_proc p f s) = hash_list s"
  "nr_process (upd_proc p f s) = nr_process s" "last_pid (upd_proc p f s) = last_pid s"
  "next_safe (upd_proc p f s) = next_safe s" "live_procs (upd_proc p f s) = live_procs s"
  "live_kstacks (upd_proc p f s) = live_kstacks s" "mm_count (upd_proc p f s) = mm_count s"
  "live_mms (upd_proc p f s) = live_mms s" "files_count (upd_proc p f s) = files_count s"
  "live_files (upd_proc p f s) = live_files s"
  by (simp_all add: upd_proc_def)

lemma init_entry_simps [simp]:
  "procs (init_entry p s) = procs s" "current (init_entry p s) = current s"
  "idleproc (init_entry p s) = idleproc s" "initproc (init_entry p s) = initproc s"
  "timers (init_entry p t) = timers t" "timer_list (init_entry p t) = timer_list t"
  "proc_list (init_entry p u) = proc_list u" "hash_list (init_entry p u) = hash_list u"
  "nr_process (init_entry p u) = nr_process u" "last_pid (init_entry p u) = last_pid u"
  "next_safe (init_entry p u) = next_safe u" "live_procs (init_entry p u) = live_procs u"
  "live_kstacks (init_entry p u) = live_kstacks u" "mm_count (init_entry p u) = mm_count u"
  "live_mms (init_entry p u) = live_mms u" "files_count (init_entry p u) = files_count u"
  "live_files (init_entry p u) = live_files u"
  by (simp_all add: init_entry_def)

lemma mgr_more:
  fixes s s' :: "'a proc_mgr_scheme"
  assumes "kernel_state.more s' = kernel_state.more s"
  shows "proc_list s' = proc_list s" "hash_list s' = hash_list s" "nr_process s' = nr_process s"
    "last_pid s' = last_pid s" "next_safe s' = next_safe s" "live_procs s' = live_procs s"
    "live_kstacks s' = live_kstacks s" "mm_count s' = mm_count s" "live_mms s' = live_mms s"
    "files_count s' = files_count s" "live_files s' = live_files s"
  using assms by (cases s, cases s', simp)+

text \<open>The tables of the process manager agree in two states.\<close>

definition same_tables :: "'a proc_mgr_scheme \<Rightarrow> 'a proc_mgr_scheme \<Rightarrow> bool" where
  "same_tables s s' = (proc_list s' = proc_list s \<and> hash_list s' = hash_list s \<and> nr_process s' = nr_process s
     \<and> last_pid s' = last_pid s \<and> next_safe s' = next_safe s \<and> live_procs s' = live_procs s
     \<and> live_kstacks s' = live_kstacks s \<and> live_mms s' = live_mms s \<and> files_count s' = files_count s
     \<and> live_files s' = live_files s)"

lemma copy_mm_facts:
  assumes "copy_mm env fl p s = (s', r)"
  shows "\<forall>q. q \<noteq> p \<longrightarrow> procs s' q = procs s q" "rq s' = rq s" "current s' = current s" "idleproc s' = idleproc s"
    "initproc s' = initproc s" "p_rq (procs s' p) = p_rq (procs s p)"
    "procs s' p = (procs s p)\<lparr>p_mm := p_mm (procs s' p), p_cr3 := p_cr3 (procs s' p)\<rparr>"
    "proc_list s' = proc_list s" "hash_list s' = hash_list s" "nr_process s' = nr_process s"
    "last_pid s' = last_pid s" "next_safe s' = next_safe s" "live_procs s' = live_procs s"
    "live_kstacks s' = live_kstacks s" "files_count s' = files_count s" "live_files s' = live_files s"
  using assms by (auto simp: copy_mm_def share_mm_def Let_def split: option.splits if_splits)

lemma copy_mm_error:
  assumes "copy_mm env fl p s = (s', r)" and "r \<noteq> 0"
    and "\<forall>m. fe_mm_create env = Some m \<longrightarrow> m \<notin> live_mms s"
  shows "live_mms s' = live_mms s"
  using assms by (auto simp: copy_mm_def Let_def split: option.splits if_splits)

subsection \<open>Failing to create a process\<close>

text \<open>
  When the process table is full or memory runs out before the new process is linked, everything
  acquired on the way is given back.
\<close>

lemma fork_early_failure:
  assumes room: "nr_process s < MAX_PROCESS" and p: "fe_kmalloc env = Some p" "p \<notin> live_procs s" "p \<noteq> current s"
    and ws: "p_wait_state (procs s (current s)) = 0"
    and fresh: "\<forall>k. fe_kstack env = Some k \<longrightarrow> k \<notin> live_kstacks s"
      "\<forall>m. fe_mm_create env = Some m \<longrightarrow> m \<notin> live_mms s"
    and fail: "fe_kstack env = None
      \<or> (\<exists>mm. p_mm (procs s (current s)) = Some mm \<and> fl AND CLONE_VM = 0
            \<and> (fe_mm_create env = None \<or> fe_setup_pgdir env \<noteq> 0 \<or> fe_dup_mmap env \<noteq> 0))"
  shows "\<exists>s'. do_fork cls env fl stack tf s = Some (s', - E_NO_MEM) \<and> same_tables s s'
    \<and> (\<forall>q. q \<noteq> p \<longrightarrow> procs s' q = procs s q)"
proof -
  let ?s1 = "upd_proc p (\<lambda>x. x\<lparr>p_parent := Some (current s)\<rparr>) (alloc_proc env p s)"
  have cur: "current (alloc_proc env p s) = current s" by (simp add: alloc_proc_def Let_def)
  have s1: "\<forall>q. q \<noteq> p \<longrightarrow> procs ?s1 q = procs s q" "current ?s1 = current s"
    "live_procs ?s1 = insert p (live_procs s)" "live_kstacks ?s1 = live_kstacks s" "live_mms ?s1 = live_mms s"
    "proc_list ?s1 = proc_list s" "hash_list ?s1 = hash_list s" "nr_process ?s1 = nr_process s"
    "last_pid ?s1 = last_pid s" "next_safe ?s1 = next_safe s" "files_count ?s1 = files_count s"
    "live_files ?s1 = live_files s"
    by (simp_all add: alloc_proc_def Let_def)
  have ws1: "p_wait_state (procs ?s1 (current ?s1)) = 0" using s1(1,2) p(3) ws by simp
  show ?thesis
  proof (cases "fe_kstack env")
    case None
    have "do_fork cls env fl stack tf s = Some (kfree_proc p ?s1, - E_NO_MEM)"
      using room p(1,3) ws1 None by (auto simp add: do_fork_def setup_kstack_def cur Let_def)
    moreover have "same_tables s (kfree_proc p ?s1)"
      using s1 p(2) by (auto simp: same_tables_def kfree_proc_def)
    ultimately show ?thesis using s1(1) by (auto simp: kfree_proc_def)
  next
    case (Some k)
    let ?s2 = "upd_proc p (\<lambda>x. x\<lparr>p_kstack := k\<rparr>) ?s1\<lparr>live_kstacks := insert k (live_kstacks ?s1)\<rparr>"
    obtain s3 r where c: "copy_mm env fl p ?s2 = (s3, r)" by fastforce
    have "p_mm (procs ?s2 (current ?s2)) = p_mm (procs s (current s))" using s1(1,2) p(3) by simp
    then have r: "r \<noteq> 0"
      using fail Some c by (auto simp: copy_mm_def Let_def split: option.splits if_splits)
    note cm = copy_mm_facts [OF c]
    have ks: "p_kstack (procs s3 p) = k" using arg_cong [OF cm(7), of p_kstack] by simp
    have "do_fork cls env fl stack tf s = Some (kfree_proc p (put_kstack p s3), - E_NO_MEM)"
      using room p(1,3) ws1 Some c r by (auto simp add: do_fork_def setup_kstack_def cur Let_def)
    moreover have "live_mms s3 = live_mms s"
      using copy_mm_error [OF c r] fresh(2) s1(5) by simp
    moreover have "same_tables s (kfree_proc p (put_kstack p s3))"
      using cm s1 p(2) fresh(1) Some ks calculation(2)
      by (auto simp: same_tables_def kfree_proc_def put_kstack_def)
    ultimately show ?thesis using s1(1) cm(1) by (auto simp: kfree_proc_def put_kstack_def)
  qed
qed

subsection \<open>The invariant of the process table\<close>

definition proc_inv :: "('a proc_mgr_scheme \<Rightarrow> paddr set \<Rightarrow> bool) \<Rightarrow> paddr set \<Rightarrow> 'a proc_mgr_scheme \<Rightarrow>
    (paddr \<Rightarrow> paddr list) \<Rightarrow> bool" where
  "proc_inv I L s F =
     (I s (ready L s) \<and> family L (procs s) F \<and> pid_inv s \<and> hash_inv s \<and> set (proc_list s) \<subseteq> L
      \<and> live_procs s = L \<and> current s \<in> L \<and> idleproc s \<in> L
      \<and> nr_process s = int (length (proc_list s)) + 1)"

lemma proc_invD:
  assumes "proc_inv I L s F"
  shows "I s (ready L s)" "family L (procs s) F" "pid_inv s" "hash_inv s" "set (proc_list s) \<subseteq> L"
    "live_procs s = L" "current s \<in> L" "idleproc s \<in> L" "nr_process s = int (length (proc_list s)) + 1"
  using assms by (simp_all add: proc_inv_def)

lemma family_stable: "family L pr F \<Longrightarrow> (\<And>p. stable (pr' p) (pr p)) \<Longrightarrow> family L pr' F"
  unfolding family_def by (auto intro!: children_of_cong [of pr _ _ pr'] simp: stable_def)

lemma hash_inv_cong:
  assumes "hash_inv s" and "proc_list s' = proc_list s" and "hash_list s' = hash_list s"
    and "\<And>p. p \<in> set (proc_list s) \<Longrightarrow> p_pid (procs s' p) = p_pid (procs s p)"
  shows "hash_inv s'"
proof -
  have "inj_on (\<lambda>p. p_pid (procs s' p)) (set (proc_list s)) = inj_on (\<lambda>p. p_pid (procs s p)) (set (proc_list s))"
    by (rule inj_on_cong) (use assms(4) in simp)
  with assms show ?thesis by (auto simp: hash_inv_def)
qed

lemma pid_inv_cong:
  assumes "pid_inv s" and "proc_list s' = proc_list s" and "last_pid s' = last_pid s" and "next_safe s' = next_safe s"
    and "\<And>p. p \<in> set (proc_list s) \<Longrightarrow> p_pid (procs s' p) = p_pid (procs s p)"
  shows "pid_inv s'"
proof -
  have "pids_of s' = pids_of s" using assms(2,5) by (auto simp: pids_of_def)
  with assms show ?thesis by (simp add: pid_inv_def)
qed

text \<open>A new process with a fresh number joins the tables.\<close>

lemma hash_inv_new:
  assumes inv: "hash_inv s" and p: "p \<notin> set (proc_list s)" and pid: "p_pid (procs s p) = pid" "0 < pid" "pid < MAX_PID"
    and fresh: "\<forall>q \<in> set (proc_list s). p_pid (procs s q) \<noteq> pid"
  shows "hash_inv (hash_proc p s\<lparr>proc_list := p # proc_list s\<rparr>)"
  using assms by (auto simp: hash_inv_def hash_proc_def Let_def inj_on_def)

text \<open>Up to the point where the new process is linked and woken.\<close>

definition fork_prep :: "fork_env \<Rightarrow> u32 \<Rightarrow> u64 \<Rightarrow> trapframe \<Rightarrow> paddr \<Rightarrow> 'a proc_mgr_scheme \<Rightarrow> 'a proc_mgr_scheme" where
  "fork_prep env fl stack tf p s =
     (let s = upd_proc p (\<lambda>x. x\<lparr>p_parent := Some (current s)\<rparr>) (alloc_proc env p s)
      in copy_thread env p stack tf (fst (copy_mm env fl p (fst (setup_kstack env p s)))))"

definition fork_resources :: "fork_env \<Rightarrow> u32 \<Rightarrow> 'a proc_mgr_scheme \<Rightarrow> bool" where
  "fork_resources env fl s = (fe_kstack env \<noteq> None
     \<and> (p_mm (procs s (current s)) = None \<or> fl AND CLONE_VM \<noteq> 0
        \<or> fe_mm_create env \<noteq> None \<and> fe_setup_pgdir env = 0 \<and> fe_dup_mmap env = 0))"

lemma fork_prep_run:
  assumes room: "nr_process s < MAX_PROCESS" and p: "fe_kmalloc env = Some p" "p \<noteq> current s"
    and ws: "p_wait_state (procs s (current s)) = 0" and res: "fork_resources env fl s"
  shows "do_fork cls env fl stack tf s =
    do { (s, pid) \<leftarrow> get_pid (fork_prep env fl stack tf p s);
         let s = upd_proc p (\<lambda>x. x\<lparr>p_pid := pid\<rparr>) s;
         s \<leftarrow> set_links p (hash_proc p s);
         s \<leftarrow> wakeup_proc cls p s;
         let ret = p_pid (procs s p);
         (s, r) \<leftarrow> copy_files env fl p s;
         if r \<noteq> 0 then Some (kfree_proc p (put_kstack p s), ret) else Some (s, ret) }"
proof -
  let ?s1 = "upd_proc p (\<lambda>x. x\<lparr>p_parent := Some (current s)\<rparr>) (alloc_proc env p s)"
  have cur: "current (alloc_proc env p s) = current s" by (simp add: alloc_proc_def Let_def)
  have oth: "procs ?s1 (current s) = procs s (current s)" using p(2) by (auto simp: alloc_proc_def Let_def)
  obtain k where k: "fe_kstack env = Some k" using res by (auto simp: fork_resources_def)
  let ?s2 = "upd_proc p (\<lambda>x. x\<lparr>p_kstack := k\<rparr>) ?s1\<lparr>live_kstacks := insert k (live_kstacks ?s1)\<rparr>"
  have "p_mm (procs ?s2 (current ?s2)) = p_mm (procs s (current s))" using oth p(2) cur by simp
  then have r: "snd (copy_mm env fl p ?s2) = 0"
    using res by (auto simp: copy_mm_def fork_resources_def Let_def split: option.splits)
  have ws1: "p_wait_state (procs ?s1 (current s)) = 0" using oth ws by simp
  show ?thesis using room p k r ws1 unfolding do_fork_def fork_prep_def
    by (simp add: setup_kstack_def cur Let_def split_def)
qed

lemma fork_prep_facts:
  assumes p: "p \<noteq> current s" and t_def: "t = fork_prep env fl stack tf p s"
  shows "\<forall>q. q \<noteq> p \<longrightarrow> procs t q = procs s q" "rq t = rq (init_entry p s)" "current t = current s"
    "idleproc t = idleproc s" "initproc t = initproc s" "p_state (procs t p) = PROC_UNINIT"
    "p_wait_state (procs t p) = 0" "p_parent (procs t p) = Some (current s)" "p_cptr (procs t p) = None"
    "proc_list t = proc_list s" "hash_list t = hash_list s" "nr_process t = nr_process s"
    "last_pid t = last_pid s" "next_safe t = next_safe s" "live_procs t = insert p (live_procs s)"
    "p_flags (procs t p) = 0"
proof -
  let ?s1 = "upd_proc p (\<lambda>x. x\<lparr>p_parent := Some (current s)\<rparr>) (alloc_proc env p s)"
  let ?s2 = "fst (setup_kstack env p ?s1)"
  obtain s3 r where c: "copy_mm env fl p ?s2 = (s3, r)" by fastforce
  note cm = copy_mm_facts [OF c]
  have s1: "\<forall>q. q \<noteq> p \<longrightarrow> procs ?s1 q = procs s q" "rq ?s1 = rq (init_entry p s)" "current ?s1 = current s"
    "idleproc ?s1 = idleproc s" "initproc ?s1 = initproc s" "p_state (procs ?s1 p) = PROC_UNINIT"
    "p_wait_state (procs ?s1 p) = 0" "p_parent (procs ?s1 p) = Some (current s)" "p_cptr (procs ?s1 p) = None"
    "proc_list ?s1 = proc_list s" "hash_list ?s1 = hash_list s" "nr_process ?s1 = nr_process s"
    "last_pid ?s1 = last_pid s" "next_safe ?s1 = next_safe s" "live_procs ?s1 = insert p (live_procs s)"
    "p_flags (procs ?s1 p) = 0"
    by (simp_all add: alloc_proc_def Let_def init_entry_def upd_proc_def)
  have s2: "\<forall>q. q \<noteq> p \<longrightarrow> procs ?s2 q = procs s q" "rq ?s2 = rq (init_entry p s)" "current ?s2 = current s"
    "idleproc ?s2 = idleproc s" "initproc ?s2 = initproc s" "p_state (procs ?s2 p) = PROC_UNINIT"
    "p_wait_state (procs ?s2 p) = 0" "p_parent (procs ?s2 p) = Some (current s)" "p_cptr (procs ?s2 p) = None"
    "proc_list ?s2 = proc_list s" "hash_list ?s2 = hash_list s" "nr_process ?s2 = nr_process s"
    "last_pid ?s2 = last_pid s" "next_safe ?s2 = next_safe s" "live_procs ?s2 = insert p (live_procs s)"
    "p_flags (procs ?s2 p) = 0"
    using s1 by (auto simp: setup_kstack_def split: option.splits)
  have flds: "p_state (procs s3 p) = p_state (procs ?s2 p)" "p_wait_state (procs s3 p) = p_wait_state (procs ?s2 p)"
    "p_parent (procs s3 p) = p_parent (procs ?s2 p)" "p_cptr (procs s3 p) = p_cptr (procs ?s2 p)"
    "p_flags (procs s3 p) = p_flags (procs ?s2 p)"
    using arg_cong [OF cm(7), of p_state] arg_cong [OF cm(7), of p_wait_state] arg_cong [OF cm(7), of p_parent]
      arg_cong [OF cm(7), of p_cptr] arg_cong [OF cm(7), of p_flags] by simp_all
  have t: "t = copy_thread env p stack tf s3"
    using c by (simp add: t_def fork_prep_def Let_def alloc_proc_def)
  show "\<forall>q. q \<noteq> p \<longrightarrow> procs t q = procs s q" "rq t = rq (init_entry p s)" "current t = current s"
    "idleproc t = idleproc s" "initproc t = initproc s" "p_state (procs t p) = PROC_UNINIT"
    "p_wait_state (procs t p) = 0" "p_parent (procs t p) = Some (current s)" "p_cptr (procs t p) = None"
    "proc_list t = proc_list s" "hash_list t = hash_list s" "nr_process t = nr_process s"
    "last_pid t = last_pid s" "next_safe t = next_safe s" "live_procs t = insert p (live_procs s)"
    "p_flags (procs t p) = 0"
    unfolding t using s2 cm flds by (simp_all add: copy_thread_def Let_def)
qed

locale proc_sched = kernel_sched cls inv
  for cls :: "'a proc_mgr_scheme sched_class" and inv :: "'a proc_mgr_scheme \<Rightarrow> paddr set \<Rightarrow> bool"
begin

text \<open>Waking a process keeps the process table intact.\<close>

lemma wakeup_proc_inv:
  assumes pi: "proc_inv inv L s F" and p: "p \<in> L" "p_state (procs s p) \<noteq> PROC_ZOMBIE"
  shows "\<exists>s'. wakeup_proc cls p s = Some s' \<and> proc_inv inv L s' F \<and> p_state (procs s' p) = PROC_RUNNABLE
    \<and> current s' = current s \<and> idleproc s' = idleproc s \<and> kernel_state.more s' = kernel_state.more s
    \<and> (\<forall>q. stable (procs s' q) (procs s q))
    \<and> (\<forall>q. q \<noteq> p \<longrightarrow> p_state (procs s' q) = p_state (procs s q)
         \<and> p_wait_state (procs s' q) = p_wait_state (procs s q))"
proof -
  obtain s' where s': "wakeup_proc cls p s = Some s'" "inv s' (ready L s')" "p_state (procs s' p) = PROC_RUNNABLE"
    "current s' = current s" "idleproc s' = idleproc s" "kernel_state.more s' = kernel_state.more s"
    "\<forall>q. stable (procs s' q) (procs s q)"
    "\<forall>q. q \<noteq> p \<longrightarrow> p_state (procs s' q) = p_state (procs s q)
         \<and> p_wait_state (procs s' q) = p_wait_state (procs s q)"
    using wakeup_proc_ok [OF proc_invD(1) [OF pi] p] by (elim exE conjE) (rule that)
  note more = mgr_more [OF s'(6)]
  have pid: "p_pid (procs s' q) = p_pid (procs s q)" for q using s'(7) by (simp add: stable_def)
  have "family L (procs s') F" using family_stable [OF proc_invD(2) [OF pi]] s'(7) by blast
  moreover have "hash_inv s'" by (rule hash_inv_cong [OF proc_invD(4) [OF pi]]) (use more pid in simp_all)
  moreover have "pid_inv s'" by (rule pid_inv_cong [OF proc_invD(3) [OF pi]]) (use more pid in simp_all)
  ultimately have "proc_inv inv L s' F"
    using s' pi more by (simp add: proc_inv_def)
  with s' show ?thesis by blast
qed

lemma fork_linked:
  assumes pi: "proc_inv inv L s F" and room: "nr_process s < MAX_PROCESS"
    and p: "fe_kmalloc env = Some p" "p \<notin> L" and ws: "p_wait_state (procs s (current s)) = 0"
    and res: "fork_resources env fl s"
  obtains s' pid where
    "do_fork cls env fl stack tf s =
       do { (t, r) \<leftarrow> copy_files env fl p s';
            if r \<noteq> 0 then Some (kfree_proc p (put_kstack p t), pid) else Some (t, pid) }"
    and "1 \<le> pid" and "pid < MAX_PID" and "\<forall>q \<in> set (proc_list s). p_pid (procs s q) \<noteq> pid"
    and "proc_inv inv (insert p L) s' (F(current s := p # F (current s), p := []))"
    and "p_state (procs s' p) = PROC_RUNNABLE" and "p_parent (procs s' p) = Some (current s)"
    and "p_pid (procs s' p) = pid" and "proc_list s' = p # proc_list s" and "current s' = current s"
    and "idleproc s' = idleproc s" and "p_filesp (procs s' (current s)) = p_filesp (procs s (current s))"
proof -
  have pc: "p \<noteq> current s" using p(2) proc_invD(7) [OF pi] by auto
  define t where "t = fork_prep env fl stack tf p s"
  note tf = fork_prep_facts [OF pc t_def]
  have pl: "p \<notin> set (proc_list s)" using p(2) proc_invD(5) [OF pi] by auto
  have rdp: "p \<notin> ready L s" using p(2) by (simp add: ready_def)
  have pids: "\<And>q. q \<in> set (proc_list s) \<Longrightarrow> p_pid (procs t q) = p_pid (procs s q)" using tf(1) pl by metis
  have "pid_inv t" using pid_inv_cong [OF proc_invD(3) [OF pi], of t] tf pids by auto
  moreover have "length (proc_list t) < 8191" using room proc_invD(9) [OF pi] tf(10) by simp
  ultimately obtain u pid n where u: "get_pid t = Some (u, pid)" "1 \<le> pid" "pid < MAX_PID" "pid \<notin> pids_of t"
    "u = t\<lparr>last_pid := pid, next_safe := n\<rparr>" "pid < n" "n \<le> MAX_PID" "pid_gap (pids_of t) pid n"
    using get_pid_ok [of t] by blast
  let ?u1 = "upd_proc p (\<lambda>x. x\<lparr>p_pid := pid\<rparr>) u"
  let ?u2 = "hash_proc p ?u1"
  have u1: "\<forall>q. q \<noteq> p \<longrightarrow> procs ?u1 q = procs s q" "proc_list ?u1 = proc_list s" "hash_list ?u1 = hash_list s"
    "procs ?u2 = procs ?u1" "p_pid (procs ?u1 p) = pid" "p_parent (procs ?u1 p) = Some (current s)"
    "p_cptr (procs ?u1 p) = None" "p_state (procs ?u1 p) = PROC_UNINIT" "p_wait_state (procs ?u1 p) = 0"
    using tf u(5) by (simp_all add: hash_proc_def Let_def)
  have fresh: "\<forall>q \<in> set (proc_list s). p_pid (procs s q) \<noteq> pid"
    using u(4) pids tf(10) by (force simp: pids_of_def)
  have "family L (procs ?u1) F"
    using proc_invD(2) [OF pi] u1(1) p(2) unfolding family_def
    by (auto intro!: children_of_cong [of "procs s" _ _ "procs ?u1"]) (metis (no_types) subsetD)+
  then have fam: "family L (procs ?u2) F" using u1(4) by simp
  have par: "p_parent (procs ?u2 p) = Some (current s)" "p_cptr (procs ?u2 p) = None" using u1 by simp_all
  obtain v where v: "set_links p ?u2 = Some v"
    "family (insert p L) (procs v) (F(current s := p # F (current s), p := []))"
    "proc_list v = p # proc_list ?u2" "nr_process v = nr_process ?u2 + 1"
    using set_links_family [OF fam proc_invD(7) [OF pi] par(1) p(2) par(2)] by blast
  have lo: "links_only ?u2 v" using set_links_only [OF v(1)] .
  have vf: "rq v = rq (init_entry p s)" "current v = current s" "idleproc v = idleproc s"
    "hash_list v = hash_list ?u2" "last_pid v = pid" "next_safe v = n" "live_procs v = insert p L"
    "\<forall>q. q \<noteq> p \<longrightarrow> p_state (procs v q) = p_state (procs s q) \<and> p_pid (procs v q) = p_pid (procs s q)
       \<and> p_rq (procs v q) = p_rq (procs s q) \<and> p_filesp (procs v q) = p_filesp (procs s q)"
    "p_state (procs v p) = PROC_UNINIT" "p_pid (procs v p) = pid" "p_parent (procs v p) = Some (current s)"
    "proc_list v = p # proc_list s" "nr_process v = nr_process s + 1"
    using lo tf u(5) u1 v(3,4) proc_invD(6) [OF pi] by (auto simp: links_only_def hash_proc_def Let_def)
  have "hash_inv ?u1" by (rule hash_inv_cong [OF proc_invD(4) [OF pi]]) (use u1 pl in auto)
  then have "hash_inv (?u2\<lparr>proc_list := p # proc_list ?u1\<rparr>)"
    by (rule hash_inv_new [of ?u1 p pid, unfolded u1(2), folded u1(2)]) (use pl u1 u(2,3) fresh in auto)
  then have hv: "hash_inv v"
    by (rule hash_inv_cong) (use vf u1 lo in \<open>auto simp: links_only_def hash_proc_def Let_def\<close>)
  have "pids_of v \<subseteq> insert pid (pids_of t)"
    using vf pids tf(10) by (fastforce simp: pids_of_def)
  then have "pid_gap (pids_of v) pid n" using u(8) by (auto simp: pid_gap_def)
  then have pv: "pid_inv v" using u vf by (simp add: pid_inv_def)
  have rdv: "ready (insert p L) v = ready L s" using vf p(2) by (auto simp: ready_def)
  have "inv (init_entry p s) (ready L s)" using inv_init_entry [OF proc_invD(1) [OF pi] rdp] .
  then have "inv v (ready L s)" by (rule inv_procs) (use vf rdp in auto)
  then have piv: "proc_inv inv (insert p L) v (F(current s := p # F (current s), p := []))"
    using v(2) hv pv vf rdv pi by (auto simp: proc_inv_def)
  obtain w where w: "wakeup_proc cls p v = Some w"
    "proc_inv inv (insert p L) w (F(current s := p # F (current s), p := []))"
    "p_state (procs w p) = PROC_RUNNABLE" "current w = current v" "idleproc w = idleproc v"
    "kernel_state.more w = kernel_state.more v" "\<forall>q. stable (procs w q) (procs v q)"
    using wakeup_proc_inv [OF piv, of p] vf(9) by auto
  have wp: "p_pid (procs w p) = pid" using w(7) vf(10) by (simp add: stable_def)
  show thesis
  proof (rule that [of w pid])
    show "do_fork cls env fl stack tf s =
       do { (t, r) \<leftarrow> copy_files env fl p w;
            if r \<noteq> 0 then Some (kfree_proc p (put_kstack p t), pid) else Some (t, pid) }"
      using fork_prep_run [OF room p(1) pc ws res, of cls stack tf] u(1) v(1) w(1)
      by (simp add: t_def [symmetric] wp Let_def split_def cong: if_cong)
    show "p_filesp (procs w (current s)) = p_filesp (procs s (current s))"
      using w(7) vf(8) pc by (auto simp: stable_def)
    show "proc_list w = p # proc_list s" using mgr_more(1) [OF w(6)] vf by simp
  qed (use u fresh w vf in \<open>auto simp: stable_def\<close>)
qed

end

interpretation stride_proc: proc_sched stride_sched_class stride_inv
  by unfold_locales

interpretation rr_proc: proc_sched RR_sched_class rr_inv
  by unfold_locales

end
