(* ===== verification/Proc_Life.thy ===== *)
theory Proc_Life
  imports Proc
begin

section \<open>Correctness of the process life cycle\<close>

text \<open>
  The process table is consistent across creation, exit, wait and kill: the run queue holds the
  ready processes, the family links form one list of children per process, the hash lists find
  every process by its number, and the numbers are unique.
\<close>

subsection \<open>The table without the family links\<close>

definition core_inv :: "('a proc_mgr_scheme \<Rightarrow> paddr set \<Rightarrow> bool) \<Rightarrow> paddr set \<Rightarrow> 'a proc_mgr_scheme \<Rightarrow> bool" where
  "core_inv I L s =
     (I s (ready L s) \<and> pid_inv s \<and> hash_inv s \<and> set (proc_list s) \<subseteq> L
      \<and> live_procs s = L \<and> current s \<in> L \<and> idleproc s \<in> L
      \<and> nr_process s = int (length (proc_list s)) + 1)"

lemma proc_inv_core: "proc_inv I L s F \<longleftrightarrow> core_inv I L s \<and> family L (procs s) F"
  by (auto simp: proc_inv_def core_inv_def)

definition same_core :: "'a proc_mgr_scheme \<Rightarrow> 'a proc_mgr_scheme \<Rightarrow> bool" where
  "same_core s s' = (proc_list s' = proc_list s \<and> hash_list s' = hash_list s \<and> nr_process s' = nr_process s
     \<and> last_pid s' = last_pid s \<and> next_safe s' = next_safe s \<and> live_procs s' = live_procs s)"

lemma same_core_more: "kernel_state.more s' = kernel_state.more s \<Longrightarrow> same_core s s'"
  using mgr_more [of s' s] by (simp add: same_core_def)

lemma core_inv_cong:
  assumes inv: "core_inv I L s" and I: "I s' (ready L s')"
    and same: "same_core s s'" and "current s' \<in> L" and "idleproc s' = idleproc s"
    and pid: "\<And>q. p_pid (procs s' q) = p_pid (procs s q)"
  shows "core_inv I L s'"
proof -
  have "hash_inv s'" by (rule hash_inv_cong [of s]) (use inv same pid in \<open>auto simp: core_inv_def same_core_def\<close>)
  moreover have "pid_inv s'" by (rule pid_inv_cong [of s]) (use inv same pid in \<open>auto simp: core_inv_def same_core_def\<close>)
  ultimately show ?thesis using assms by (simp add: core_inv_def same_core_def)
qed

text \<open>
  While the children of \<open>c\<close> are handed over one by one, the youngest one left still points to a
  younger sibling that is gone: the list of \<open>c\<close> is only read forwards.
\<close>

definition family_but :: "paddr \<Rightarrow> paddr set \<Rightarrow> (paddr \<Rightarrow> proc_struct) \<Rightarrow> (paddr \<Rightarrow> paddr list) \<Rightarrow> bool" where
  "family_but c L pr F = (\<forall>p \<in> L. distinct (F p) \<and> p \<notin> set (F p) \<and> set (F p) \<subseteq> L
     \<and> (\<forall>q \<in> set (F p). p_parent (pr q) = Some p)
     \<and> (\<exists>y. (p \<noteq> c \<longrightarrow> y = None) \<and> sib_chain pr y (F p) (p_cptr (pr p))))"

lemma family_butI: "family L pr F \<Longrightarrow> family_but c L pr F"
  unfolding family_def family_but_def children_of_def by blast

lemma family_but_done: "family_but c L pr F \<Longrightarrow> F c = [] \<Longrightarrow> family L pr F"
  unfolding family_def family_but_def children_of_def by (metis sib_chain.simps(1))

lemma family_but_stable: "family_but c L pr F \<Longrightarrow> (\<And>p. stable (pr' p) (pr p)) \<Longrightarrow> family_but c L pr' F"
  unfolding family_but_def using sib_chain_cong [of _ pr' pr] by (simp add: stable_def)

text \<open>One child moves from \<open>c\<close> to the front of the list of \<open>i\<close>.\<close>

lemma family_but_move:
  assumes fam: "family_but c L pr F" and c: "c \<in> L" "i \<in> L" "c \<noteq> i" and x: "F c = x # xs" "i \<noteq> x"
    and cptr: "\<And>r. p_cptr (pr' r) = (if r = i then Some x else if r = c then p_optr (pr x) else p_cptr (pr r))"
    and parent: "\<And>r. p_parent (pr' r) = (if r = x then Some i else p_parent (pr r))"
    and optr: "\<And>r. p_optr (pr' r) = (if r = x then p_cptr (pr i) else p_optr (pr r))"
    and yptr: "\<And>r. p_yptr (pr' r) = (if r = x then None else if p_cptr (pr i) = Some r then Some x else p_yptr (pr r))"
  shows "family_but c L pr' (F(c := xs, i := x # F i))"
proof -
  have A: "distinct (F p)" "p \<notin> set (F p)" "set (F p) \<subseteq> L" "\<forall>q \<in> set (F p). p_parent (pr q) = Some p"
    "\<exists>y. (p \<noteq> c \<longrightarrow> y = None) \<and> sib_chain pr y (F p) (p_cptr (pr p))" if "p \<in> L" for p
    using fam that unfolding family_but_def by blast+
  have head: "p_cptr (pr p) = (case F p of [] \<Rightarrow> None | q # _ \<Rightarrow> Some q)" if "p \<in> L" for p
    using A(5) [OF that] by (cases "F p") auto
  have disj: "q \<notin> set (F p)" if "p \<in> L" "r \<in> L" "q \<in> set (F r)" "p \<noteq> r" for p q r
    using A(4) [OF that(1)] A(4) [OF that(2)] that(3,4) by auto
  have xc: "x \<in> set (F c)" "x \<in> L" "x \<notin> set xs" "distinct xs" using A [OF c(1)] x by auto
  have ic: "p_cptr (pr i) = Some r \<Longrightarrow> r \<in> set (F i)" for r using head [OF c(2)] by (auto split: list.splits)
  have keep: "sib_chain pr' y ys o' = sib_chain pr y ys o'" if "set ys \<inter> insert x (set (F i)) = {}" for y ys o'
    by (rule sib_chain_cong) (use that optr yptr ic in fastforce)
  have other: "\<exists>y. (p \<noteq> c \<longrightarrow> y = None) \<and> sib_chain pr' y (F p) (p_cptr (pr' p))"
    if p: "p \<in> L" "p \<noteq> c" "p \<noteq> i" for p
  proof -
    have "set (F p) \<inter> insert x (set (F i)) = {}"
      using disj [OF p(1) c(1) xc(1)] disj [OF p(1) c(2)] p by blast
    with A(5) [OF p(1)] keep [of "F p"] cptr [of p] p show ?thesis by simp
  qed
  have mine: "\<exists>y. sib_chain pr' y xs (p_cptr (pr' c))"
  proof -
    have "set xs \<inter> insert x (set (F i)) = {}" using disj [OF c(2) c(1)] x xc c(3) by auto
    moreover have "sib_chain pr (Some x) xs (p_optr (pr x))" using A(5) [OF c(1)] x by auto
    ultimately show ?thesis using keep [of xs] cptr [of c] c(3) by auto
  qed
  have adopter: "sib_chain pr' None (x # F i) (p_cptr (pr' i))"
  proof -
    have "sib_chain pr' (Some x) (F i) (p_cptr (pr i))"
    proof (cases "F i")
      case Nil
      then show ?thesis using head [OF c(2)] by simp
    next
      case (Cons z zs)
      have z: "z \<noteq> x" "z \<notin> set zs" "x \<notin> set zs" using disj [OF c(2) c(1) xc(1)] c(3) A(1) [OF c(2)] Cons by auto
      have "sib_chain pr None (F i) (p_cptr (pr i))" using A(5) [OF c(2)] c(3) by auto
      then have ch: "sib_chain pr (Some z) zs (p_optr (pr z))" "p_cptr (pr i) = Some z" using Cons by auto
      have "sib_chain pr' (Some z) zs (p_optr (pr z)) = sib_chain pr (Some z) zs (p_optr (pr z))"
        by (rule sib_chain_cong) (use z ch(2) optr yptr in auto)
      then show ?thesis using ch Cons z optr yptr by simp
    qed
    then show ?thesis using cptr [of i] optr [of x] yptr [of x] by simp
  qed
  show ?thesis unfolding family_but_def
  proof
    fix p assume p: "p \<in> L"
    consider "p = c" | "p = i" "p \<noteq> c" | "p \<noteq> c" "p \<noteq> i" by blast
    then show "distinct ((F(c := xs, i := x # F i)) p) \<and> p \<notin> set ((F(c := xs, i := x # F i)) p)
       \<and> set ((F(c := xs, i := x # F i)) p) \<subseteq> L
       \<and> (\<forall>q \<in> set ((F(c := xs, i := x # F i)) p). p_parent (pr' q) = Some p)
       \<and> (\<exists>y. (p \<noteq> c \<longrightarrow> y = None) \<and> sib_chain pr' y ((F(c := xs, i := x # F i)) p) (p_cptr (pr' p)))"
    proof cases
      case 1
      then show ?thesis using A [OF c(1)] x xc mine c(3) parent by auto
    next
      case 2
      then show ?thesis using A [OF c(2)] x(2) adopter xc parent disj [OF c(2) c(1) xc(1)] c(3) by auto
    next
      case 3
      have "x \<notin> set (F p)" using disj [OF p c(1) xc(1)] 3 by simp
      then show ?thesis using A(1-4) [OF p] 3 other [OF p] parent by auto
    qed
  qed
qed

subsection \<open>The loop of \<open>do_exit\<close>\<close>

definition adopted :: "paddr \<Rightarrow> paddr \<Rightarrow> (paddr \<Rightarrow> paddr list) \<Rightarrow> paddr \<Rightarrow> paddr list" where
  "adopted c i F = F(c := [], i := rev (F c) @ F i)"

lemma exit_adopt_fields:
  assumes n: "x \<noteq> current s" "x \<noteq> initproc s" "current s \<noteq> initproc s"
    and z: "p_cptr (procs s (initproc s)) \<noteq> Some x" and t: "t = exit_adopt x s"
  shows "p_cptr (procs t r) = (if r = initproc s then Some x else if r = current s then p_optr (procs s x)
           else p_cptr (procs s r))"
    "p_parent (procs t r) = (if r = x then Some (initproc s) else p_parent (procs s r))"
    "p_optr (procs t r) = (if r = x then p_cptr (procs s (initproc s)) else p_optr (procs s r))"
    "p_yptr (procs t r) = (if r = x then None else if p_cptr (procs s (initproc s)) = Some r then Some x
           else p_yptr (procs s r))"
    "p_state (procs t r) = p_state (procs s r)" "p_wait_state (procs t r) = p_wait_state (procs s r)"
    "p_pid (procs t r) = p_pid (procs s r)" "p_rq (procs t r) = p_rq (procs s r)"
    "p_exit_code (procs t r) = p_exit_code (procs s r)"
    "rq t = rq s" "current t = current s" "idleproc t = idleproc s" "initproc t = initproc s"
    "kernel_state.more t = kernel_state.more s"
  using n z unfolding t exit_adopt_def Let_def
  by (cases "p_cptr (procs s (initproc s))"; simp)+

context proc_sched
begin

lemma wakeup_proc_initproc:
  assumes inv: "inv s (ready L s)" and z: "p_state (procs s p) \<noteq> PROC_ZOMBIE" and run: "wakeup_proc cls p s = Some s'"
  shows "initproc s' = initproc s"
proof (cases "p_state (procs s p) = PROC_RUNNABLE \<or> p = current s \<or> p = idleproc s")
  case True
  with run z show ?thesis
    by (auto simp: wakeup_proc_def Let_def sched_class_enqueue_def split: if_splits)
next
  case False
  let ?s = "upd_proc p (\<lambda>p. p\<lparr>p_state := PROC_RUNNABLE, p_wait_state := 0\<rparr>) s"
  have "inv ?s (ready L s)" by (rule inv_upd_proc [OF inv]) simp
  moreover have "p \<notin> ready L s" using False by (simp add: ready_def)
  ultimately obtain u where u: "sc_enqueue cls p ?s = Some u" "only_sched ?s u" using enqueue_ok by blast
  then have "s' = u" using run z False by (auto simp: wakeup_proc_def Let_def sched_class_enqueue_def)
  with u(2) show ?thesis by (simp add: only_sched_def)
qed

text \<open>Waking a process keeps the table, and the links as they are.\<close>

lemma wakeup_proc_core:
  assumes ci: "core_inv inv L s" and p: "p \<in> L" "p_state (procs s p) \<noteq> PROC_ZOMBIE"
  obtains s' where "wakeup_proc cls p s = Some s'" and "core_inv inv L s'"
    and "p_state (procs s' p) = PROC_RUNNABLE" and "current s' = current s" and "idleproc s' = idleproc s"
    and "initproc s' = initproc s" and "kernel_state.more s' = kernel_state.more s"
    and "\<forall>q. stable (procs s' q) (procs s q)"
    and "\<forall>q. q \<noteq> p \<longrightarrow> p_state (procs s' q) = p_state (procs s q) \<and> p_wait_state (procs s' q) = p_wait_state (procs s q)"
proof -
  have I: "inv s (ready L s)" "current s \<in> L" using ci by (simp_all add: core_inv_def)
  obtain s' where s': "wakeup_proc cls p s = Some s'" "inv s' (ready L s')" "p_state (procs s' p) = PROC_RUNNABLE"
    "current s' = current s" "idleproc s' = idleproc s" "kernel_state.more s' = kernel_state.more s"
    "\<forall>q. stable (procs s' q) (procs s q)"
    "\<forall>q. q \<noteq> p \<longrightarrow> p_state (procs s' q) = p_state (procs s q) \<and> p_wait_state (procs s' q) = p_wait_state (procs s q)"
    using wakeup_proc_ok [OF I(1) p] by (elim exE conjE) (rule that)
  have "core_inv inv L s'"
    by (rule core_inv_cong [OF ci s'(2) same_core_more [OF s'(6)]]) (use s' I in \<open>simp_all add: stable_def\<close>)
  with s' wakeup_proc_initproc [OF I(1) p(2) s'(1)] that show thesis by blast
qed

lemma adopt_core:
  assumes ci: "core_inv inv L s" and n: "x \<noteq> current s" "x \<noteq> initproc s" "current s \<noteq> initproc s"
    and z: "p_cptr (procs s (initproc s)) \<noteq> Some x"
  shows "core_inv inv L (exit_adopt x s)"
proof -
  note f = exit_adopt_fields [OF n z refl]
  have I: "inv s (ready L s)" "current s \<in> L" using ci by (simp_all add: core_inv_def)
  have "ready L (exit_adopt x s) = ready L s" by (simp add: ready_def f)
  moreover have "inv (exit_adopt x s) (ready L s)" by (rule inv_procs [OF I(1)]) (simp_all add: f)
  ultimately show ?thesis by (intro core_inv_cong [OF ci] same_core_more) (simp_all add: f I)
qed

text \<open>
  The loop hands every child over to \<open>initproc\<close>, the youngest first, and ends; \<open>initproc\<close> is woken
  when it waits for a child and one of them is a zombie.
\<close>

lemma exit_loop_ok:
  assumes "core_inv inv L s" and "family_but (current s) L (procs s) F" and "initproc s \<in> L"
    and "current s \<noteq> initproc s" and "initproc s \<notin> set (F (current s))" and "p_state (procs s (initproc s)) \<noteq> PROC_ZOMBIE"
  shows "\<exists>s'. exit_loop cls s = Some s' \<and> core_inv inv L s'
    \<and> family L (procs s') (adopted (current s) (initproc s) F)
    \<and> current s' = current s \<and> idleproc s' = idleproc s \<and> initproc s' = initproc s
    \<and> kernel_state.more s' = kernel_state.more s
    \<and> (\<forall>q. q \<noteq> initproc s \<longrightarrow> p_state (procs s' q) = p_state (procs s q))
    \<and> p_state (procs s' (initproc s)) \<in> {p_state (procs s (initproc s)), PROC_RUNNABLE}
    \<and> (\<forall>q. p_exit_code (procs s' q) = p_exit_code (procs s q))
    \<and> (\<forall>q. p_pid (procs s' q) = p_pid (procs s q))
    \<and> (p_wait_state (procs s (initproc s)) = WT_CHILD \<and> (\<exists>q \<in> set (F (current s)). p_state (procs s q) = PROC_ZOMBIE)
       \<longrightarrow> p_state (procs s' (initproc s)) = PROC_RUNNABLE)"
  using assms
proof (induction "F (current s)" arbitrary: s F)
  case Nil
  have fam: "family L (procs s) F" using family_but_done [OF Nil.prems(2)] Nil.hyps by simp
  have "current s \<in> L" using Nil.prems(1) by (simp add: core_inv_def)
  with fam have "p_cptr (procs s (current s)) = None"
    using Nil.hyps by (auto simp: family_def children_of_def)
  then have "exit_loop cls s = Some s" by (subst exit_loop.simps) simp
  moreover have "adopted (current s) (initproc s) F = F" using Nil.hyps by (auto simp: adopted_def)
  ultimately show ?case using Nil fam by auto
next
  case (Cons x xs)
  let ?c = "current s" and ?i = "initproc s"
  have cL: "?c \<in> L" using Cons.prems(1) by (simp add: core_inv_def)
  have A: "distinct (F p)" "p \<notin> set (F p)" "\<forall>q \<in> set (F p). p_parent (procs s q) = Some p"
    "\<exists>y. sib_chain (procs s) y (F p) (p_cptr (procs s p))" if "p \<in> L" for p
    using Cons.prems(2) that unfolding family_but_def by blast+
  have n: "x \<noteq> ?c" "x \<noteq> ?i" "?i \<noteq> x" using A(2) [OF cL] Cons.prems(5) Cons.hyps(2) [symmetric] by auto
  have cp: "p_cptr (procs s ?c) = Some x" using A(4) [OF cL] Cons.hyps(2) [symmetric] by auto
  have z: "p_cptr (procs s ?i) \<noteq> Some x"
    using A(3,4) [OF Cons.prems(3)] A(3) [OF cL] Cons.hyps(2) [symmetric] Cons.prems(4) by (cases "F ?i") auto
  note f = exit_adopt_fields [OF n(1,2) Cons.prems(4) z refl]
  let ?t = "exit_adopt x s" and ?F = "F(?c := xs, ?i := x # F ?i)"
  have ct: "core_inv inv L ?t" by (rule adopt_core [OF Cons.prems(1) n(1,2) Cons.prems(4) z])
  have ft: "family_but ?c L (procs ?t) ?F"
    by (rule family_but_move [OF Cons.prems(2) cL Cons.prems(3,4) Cons.hyps(2) [symmetric] n(3)]) (rule f)+
  obtain u where u: "(if p_state (procs ?t x) = PROC_ZOMBIE \<and> p_wait_state (procs ?t (initproc ?t)) = WT_CHILD
        then wakeup_proc cls (initproc ?t) ?t else Some ?t) = Some u" "core_inv inv L u"
    "current u = ?c" "idleproc u = idleproc s" "initproc u = ?i" "kernel_state.more u = kernel_state.more s"
    "\<forall>q. stable (procs u q) (procs ?t q)"
    "\<forall>q. q \<noteq> ?i \<longrightarrow> p_state (procs u q) = p_state (procs s q)"
    "p_state (procs u ?i) \<in> {p_state (procs s ?i), PROC_RUNNABLE}"
    "p_state (procs u ?i) = PROC_RUNNABLE \<or> p_wait_state (procs u ?i) = p_wait_state (procs s ?i)"
    "p_state (procs s x) = PROC_ZOMBIE \<and> p_wait_state (procs s ?i) = WT_CHILD \<Longrightarrow> p_state (procs u ?i) = PROC_RUNNABLE"
  proof (cases "p_state (procs s x) = PROC_ZOMBIE \<and> p_wait_state (procs s ?i) = WT_CHILD")
    case True
    have "p_state (procs ?t ?i) \<noteq> PROC_ZOMBIE" using Cons.prems(6) f by simp
    then show thesis
    proof (rule wakeup_proc_core [OF ct Cons.prems(3)])
      fix w assume "wakeup_proc cls ?i ?t = Some w" "core_inv inv L w" "p_state (procs w ?i) = PROC_RUNNABLE"
        "current w = current ?t" "idleproc w = idleproc ?t" "initproc w = initproc ?t"
        "kernel_state.more w = kernel_state.more ?t" "\<forall>q. stable (procs w q) (procs ?t q)"
        "\<forall>q. q \<noteq> ?i \<longrightarrow> p_state (procs w q) = p_state (procs ?t q) \<and> p_wait_state (procs w q) = p_wait_state (procs ?t q)"
      then show thesis using True by (intro that [of w]) (simp_all add: f)
    qed
  next
    case False
    with that [of ?t] ct show thesis by (auto simp: f)
  qed
  have fu: "family_but (current u) L (procs u) ?F" using family_but_stable [OF ft] u(3,7) by simp
  have ad: "adopted ?c ?i ?F = adopted ?c ?i F"
    using Cons.prems(4) Cons.hyps(2) [symmetric] by (auto simp: adopted_def)
  have hyp: "xs = ?F (current u)" using u(3) Cons.prems(4) by simp
  have nz: "p_state (procs u (initproc u)) \<noteq> PROC_ZOMBIE" using u(5,9) Cons.prems(6) by auto
  have ni: "initproc u \<notin> set (?F (current u))"
    using u(3,5) Cons.prems(4,5) Cons.hyps(2) [symmetric] by simp
  have iL: "initproc u \<in> L" "current u \<noteq> initproc u" using u(3,5) Cons.prems by simp_all
  obtain w where w: "exit_loop cls u = Some w" "core_inv inv L w"
    "family L (procs w) (adopted (current u) (initproc u) ?F)"
    "current w = current u" "idleproc w = idleproc u" "initproc w = initproc u"
    "kernel_state.more w = kernel_state.more u"
    "\<forall>q. q \<noteq> initproc u \<longrightarrow> p_state (procs w q) = p_state (procs u q)"
    "p_state (procs w (initproc u)) \<in> {p_state (procs u (initproc u)), PROC_RUNNABLE}"
    "\<forall>q. p_exit_code (procs w q) = p_exit_code (procs u q)"
    "\<forall>q. p_pid (procs w q) = p_pid (procs u q)"
    "p_wait_state (procs u (initproc u)) = WT_CHILD \<and> (\<exists>q \<in> set (?F (current u)). p_state (procs u q) = PROC_ZOMBIE)
       \<longrightarrow> p_state (procs w (initproc u)) = PROC_RUNNABLE"
    using Cons.hyps(1) [OF hyp u(2) fu iL ni nz] by (elim exE conjE) (rule that)
  have run: "exit_loop cls s = Some w"
    using u(1) w(1) by (subst exit_loop.simps) (simp add: cp Let_def)
  have st: "p_exit_code (procs u q) = p_exit_code (procs s q)" "p_pid (procs u q) = p_pid (procs s q)" for q
    using u(7) f(7,9) by (simp_all add: stable_def)
  have "p_state (procs w ?i) = PROC_RUNNABLE"
    if h: "p_wait_state (procs s ?i) = WT_CHILD" "\<exists>q \<in> set (F ?c). p_state (procs s q) = PROC_ZOMBIE"
  proof (cases "p_state (procs u ?i) = PROC_RUNNABLE")
    case True
    then show ?thesis using w(9) u(5) by simp
  next
    case False
    then have wu: "p_wait_state (procs u ?i) = WT_CHILD" "p_state (procs s x) \<noteq> PROC_ZOMBIE" using u(10,11) h by auto
    then obtain q where q: "q \<in> set xs" "p_state (procs s q) = PROC_ZOMBIE"
      using h(2) Cons.hyps(2) [symmetric] by auto
    then have "q \<noteq> ?i" using Cons.prems(6) by auto
    then have "p_state (procs u q) = PROC_ZOMBIE" using q u(8) by simp
    then show ?thesis using w(12) wu u(3,5) q hyp by auto
  qed
  with run w u ad st show ?case by auto
qed

text \<open>\<open>do_exit\<close> as a whole.\<close>

lemma exit_mm_fields:
  assumes t: "t = exit_mm env s"
  shows "rq t = rq s" "current t = current s" "idleproc t = idleproc s" "initproc t = initproc s" "same_core s t"
    "procs t q = (if q = current s then (procs s q)\<lparr>p_mm := None\<rparr> else procs s q)
       \<or> p_mm (procs s (current s)) = None \<and> procs t q = procs s q"
  using t by (auto simp: exit_mm_def put_files_def Let_def same_core_def split: option.splits)

lemma exit_zombie:
  assumes pi: "proc_inv inv L s F"
    and t: "t = upd_proc (current s) (\<lambda>p. p\<lparr>p_state := PROC_ZOMBIE, p_exit_code := code\<rparr>) (exit_mm env s)"
  shows "proc_inv inv L t F" "current t = current s" "idleproc t = idleproc s" "initproc t = initproc s"
    "p_state (procs t q) = (if q = current s then PROC_ZOMBIE else p_state (procs s q))"
    "p_exit_code (procs t q) = (if q = current s then code else p_exit_code (procs s q))"
    "p_wait_state (procs t q) = p_wait_state (procs s q)" "p_parent (procs t q) = p_parent (procs s q)"
proof -
  note m = exit_mm_fields [of _ env s, OF refl]
  have fld: "p_state (procs t q) = (if q = current s then PROC_ZOMBIE else p_state (procs s q))"
    "p_exit_code (procs t q) = (if q = current s then code else p_exit_code (procs s q))"
    "p_wait_state (procs t q) = p_wait_state (procs s q)" "p_parent (procs t q) = p_parent (procs s q)"
    "p_pid (procs t q) = p_pid (procs s q)" "p_rq (procs t q) = p_rq (procs s q)"
    "p_cptr (procs t q) = p_cptr (procs s q)" "p_optr (procs t q) = p_optr (procs s q)"
    "p_yptr (procs t q) = p_yptr (procs s q)" for q
    using m(6) [of q] by (auto simp: t m(2))
  have st: "rq t = rq s" "current t = current s" "idleproc t = idleproc s" "initproc t = initproc s" "same_core s t"
    using m by (simp_all add: t same_core_def)
  have "ready L t = ready L s" by (auto simp: ready_def fld st)
  moreover have "inv t (ready L s)" by (rule inv_procs [OF proc_invD(1) [OF pi]]) (simp_all add: st fld)
  ultimately have "core_inv inv L t"
    by (intro core_inv_cong [of inv L s t]) (use pi st fld in \<open>auto simp: proc_inv_core core_inv_def\<close>)
  moreover have "family L (procs t) F"
    using proc_invD(2) [OF pi] unfolding family_def
    by (auto intro!: children_of_cong [of "procs s" _ _ "procs t"] simp: fld)
  ultimately show "proc_inv inv L t F" by (simp add: proc_inv_core)
  show "current t = current s" "idleproc t = idleproc s" "initproc t = initproc s"
    "p_state (procs t q) = (if q = current s then PROC_ZOMBIE else p_state (procs s q))"
    "p_exit_code (procs t q) = (if q = current s then code else p_exit_code (procs s q))"
    "p_wait_state (procs t q) = p_wait_state (procs s q)" "p_parent (procs t q) = p_parent (procs s q)"
    by (rule st fld)+
qed

lemma do_exit_ok:
  assumes pi: "proc_inv inv L s F" and c: "current s \<noteq> idleproc s" "current s \<noteq> initproc s"
    and i: "initproc s \<in> L" "p_state (procs s (initproc s)) \<noteq> PROC_ZOMBIE" "initproc s \<notin> set (F (current s))"
    and q: "q \<in> L" "current s \<in> set (F q)" "p_state (procs s q) \<noteq> PROC_ZOMBIE"
  shows "\<exists>s'. do_exit cls env code s = Some s' \<and> proc_inv inv L s' (adopted (current s) (initproc s) F)
    \<and> p_state (procs s' (current s)) = PROC_ZOMBIE \<and> p_exit_code (procs s' (current s)) = code
    \<and> current s' \<noteq> current s
    \<and> (p_wait_state (procs s q) = WT_CHILD \<longrightarrow> p_state (procs s' q) = PROC_RUNNABLE)
    \<and> (p_wait_state (procs s (initproc s)) = WT_CHILD \<and> (\<exists>r \<in> set (F (current s)). p_state (procs s r) = PROC_ZOMBIE)
       \<longrightarrow> p_state (procs s' (initproc s)) = PROC_RUNNABLE)
    \<and> (\<forall>r. r \<notin> {current s, q, initproc s} \<longrightarrow> p_state (procs s' r) = p_state (procs s r))"
proof -
  let ?c = "current s" and ?i = "initproc s"
  define t where "t = upd_proc ?c (\<lambda>p. p\<lparr>p_state := PROC_ZOMBIE, p_exit_code := code\<rparr>) (exit_mm env s)"
  note t = exit_zombie [OF pi t_def]
  have cq: "p_parent (procs s ?c) = Some q" "?c \<noteq> q"
    using proc_invD(2) [OF pi] q by (auto simp: family_def children_of_def)
  obtain u where u: "(if p_wait_state (procs t q) = WT_CHILD then wakeup_proc cls q t else Some t) = Some u"
    "core_inv inv L u" "current u = ?c" "idleproc u = idleproc s" "initproc u = ?i"
    "\<forall>r. stable (procs u r) (procs t r)" "\<forall>r. r \<noteq> q \<longrightarrow> p_state (procs u r) = p_state (procs t r)"
    "\<forall>r. r \<noteq> q \<longrightarrow> p_wait_state (procs u r) = p_wait_state (procs t r)"
    "p_state (procs u q) = PROC_RUNNABLE \<or> p_wait_state (procs t q) \<noteq> WT_CHILD \<and> u = t"
  proof (cases "p_wait_state (procs t q) = WT_CHILD")
    case True
    have ct: "core_inv inv L t" "p_state (procs t q) \<noteq> PROC_ZOMBIE" using t cq q by (simp_all add: proc_inv_core)
    show thesis
      by (rule wakeup_proc_core [OF ct(1) q(1) ct(2)]) (use True t in \<open>intro that; simp\<close>)
  next
    case False
    with that [of t] t show thesis by (simp add: proc_inv_core)
  qed
  have iq: "?i = q \<Longrightarrow> p_state (procs u ?i) = PROC_RUNNABLE \<or> u = t" using u(9) by blast
  have fu: "family_but (current u) L (procs u) F"
    using family_butI [OF family_stable [OF proc_invD(2) [OF t(1)]]] u(6) by blast
  have nz: "p_state (procs u (initproc u)) \<noteq> PROC_ZOMBIE"
    using iq u(5,7) t(5) i(2) c(2) by (cases "?i = q") auto
  have io: "initproc u \<in> L" "current u \<noteq> initproc u" "initproc u \<notin> set (F (current u))" using u i c by simp_all
  obtain v where v: "exit_loop cls u = Some v" "core_inv inv L v" "family L (procs v) (adopted ?c ?i F)"
    "current v = ?c" "idleproc v = idleproc s" "initproc v = ?i"
    "\<forall>r. r \<noteq> ?i \<longrightarrow> p_state (procs v r) = p_state (procs u r)"
    "p_state (procs v ?i) \<in> {p_state (procs u ?i), PROC_RUNNABLE}"
    "\<forall>r. p_exit_code (procs v r) = p_exit_code (procs u r)"
    "p_wait_state (procs u ?i) = WT_CHILD \<and> (\<exists>r \<in> set (F ?c). p_state (procs u r) = PROC_ZOMBIE)
       \<longrightarrow> p_state (procs v ?i) = PROC_RUNNABLE"
    using exit_loop_ok [OF u(2) fu io nz] unfolding u(3,4,5) by (elim exE conjE) (rule that)
  have zc: "p_state (procs v ?c) = PROC_ZOMBIE" using v(7) u(7) t(5) cq(2) c(2) by simp
  have Iv: "inv v (ready L v)" "current v \<in> L" "p_state (procs v (current v)) \<noteq> PROC_RUNNABLE"
    using v(2,4) zc by (simp_all add: core_inv_def)
  obtain w where w: "schedule cls v = Some w" "inv w (ready L w)" "\<forall>r. p_state (procs w r) = p_state (procs v r)"
    "current w \<in> insert (idleproc v) (ready L v)" "idleproc w = idleproc v"
    "kernel_state.more w = kernel_state.more v" "\<forall>r. stable (procs w r) (procs v r)"
    by (rule schedule_sleeping [OF Iv])
  have tt: "upd_proc (current (exit_mm env s)) (\<lambda>p. p\<lparr>p_state := PROC_ZOMBIE, p_exit_code := code\<rparr>) (exit_mm env s) = t"
    by (simp add: t_def exit_mm_fields(2) [of _ env s, OF refl])
  have run: "do_exit cls env code s = Some w"
    unfolding do_exit_def Let_def tt using u(1) v(1) w(1) c by (simp add: t(2,8) cq(1))
  have wL: "current w \<in> L" "current w \<noteq> ?c"
    using w(4) v(2,4,5) c(1) by (auto simp: core_inv_def ready_def)
  have "core_inv inv L w"
    by (rule core_inv_cong [OF v(2) w(2) same_core_more [OF w(6)]]) (use w wL in \<open>simp_all add: stable_def\<close>)
  then have piw: "proc_inv inv L w (adopted ?c ?i F)"
    using family_stable [OF v(3)] w(7) by (simp add: proc_inv_core)
  have code: "p_exit_code (procs w ?c) = code" using w(7) v(9) u(6) t(6) by (simp add: stable_def)
  have pq: "p_state (procs w q) = PROC_RUNNABLE" if "p_wait_state (procs s q) = WT_CHILD"
    using that u(9) t(7) v(7,8) w(3) by (cases "q = ?i") auto
  have pi': "p_state (procs w ?i) = PROC_RUNNABLE"
    if h: "p_wait_state (procs s ?i) = WT_CHILD" "\<exists>r \<in> set (F ?c). p_state (procs s r) = PROC_ZOMBIE"
  proof (cases "?i = q")
    case True
    with pq h show ?thesis by simp
  next
    case False
    obtain r where r: "r \<in> set (F ?c)" "p_state (procs s r) = PROC_ZOMBIE" using h(2) by blast
    have "r \<noteq> q" using r q(3) by auto
    then have "p_state (procs u r) = PROC_ZOMBIE" using r u(7) t(5) by simp
    moreover have "p_wait_state (procs u ?i) = WT_CHILD" using False u(8) t(7) h(1) by simp
    ultimately show ?thesis using v(10) r(1) w(3) by auto
  qed
  have "p_state (procs w r) = p_state (procs s r)" if "r \<notin> {?c, q, ?i}" for r
    using that w(3) v(7) u(7) t(5) by simp
  with run piw zc w(3) code wL pq pi' show ?thesis by auto
qed

end

subsection \<open>Waiting for a child\<close>

lemma find_zombie_chain:
  "sib_chain pr y cs o' \<Longrightarrow>
     find_zombie pr o' haskid = Some (haskid \<or> cs \<noteq> [], List.find (\<lambda>p. p_state (pr p) = PROC_ZOMBIE) cs)"
proof (induction cs arbitrary: y o' haskid)
  case Nil
  then show ?case by (subst find_zombie.simps) simp
next
  case (Cons c cs)
  then have "o' = Some c" "sib_chain pr (Some c) cs (p_optr (pr c))" by simp_all
  with Cons.IH [OF this(2), of True] show ?case by (subst find_zombie.simps) simp
qed

text \<open>The child \<open>do_wait\<close> selects: any zombie child, or the zombie child of that number.\<close>

definition wait_selects :: "int \<Rightarrow> 'a proc_mgr_scheme \<Rightarrow> paddr list \<Rightarrow> paddr option" where
  "wait_selects pid s cs =
     (if pid = 0 then List.find (\<lambda>p. p_state (procs s p) = PROC_ZOMBIE) cs
      else List.find (\<lambda>p. p_pid (procs s p) = pid \<and> p_state (procs s p) = PROC_ZOMBIE) cs)"

text \<open>Is there a child to wait for at all?\<close>

definition wait_has_kid :: "int \<Rightarrow> 'a proc_mgr_scheme \<Rightarrow> paddr list \<Rightarrow> bool" where
  "wait_has_kid pid s cs = (if pid = 0 then cs \<noteq> [] else \<exists>p \<in> set cs. p_pid (procs s p) = pid)"

lemma find_unique:
  assumes "x \<in> set xs" and "\<And>y. y \<in> set xs \<Longrightarrow> P y \<longleftrightarrow> y = x"
  shows "List.find P xs = Some x"
  using assms by (induction xs) auto

text \<open>
  Children are listed: every process that was created and not yet reaped is in the table, except
  the idle process. What the loop over the children, or the lookup by number, comes to.
\<close>

lemma wait_search:
  assumes fam: "children_of (procs s) (current s) cs" and hash: "hash_inv s"
    and all: "\<And>p. p_parent (procs s p) = Some (current s) \<Longrightarrow> p \<in> set (proc_list s) \<Longrightarrow> p \<in> set cs"
    and listed: "set cs \<subseteq> set (proc_list s)"
  shows "wait_find pid s
    = Some (wait_has_kid pid s cs, wait_selects pid s cs)"
proof (cases "pid = 0")
  case True
  have "sib_chain (procs s) None cs (p_cptr (procs s (current s)))" using fam by (simp add: children_of_def)
  from find_zombie_chain [OF this, of False] True show ?thesis
    by (simp add: wait_find_def wait_has_kid_def wait_selects_def)
next
  case False
  have par: "p_parent (procs s p) = Some (current s)" if "p \<in> set cs" for p using fam that by (simp add: children_of_def)
  show ?thesis
  proof (cases "find_proc pid s")
    case None
    then have "p_pid (procs s p) \<noteq> pid" if "p \<in> set cs" for p
      using find_proc_iff [OF hash, of pid p] listed that by auto
    then show ?thesis using False None by (auto simp: wait_find_def wait_has_kid_def wait_selects_def find_None_iff find_None_iff2)
  next
    case (Some p)
    then have p: "p \<in> set (proc_list s)" "p_pid (procs s p) = pid" using find_proc_iff [OF hash] by auto
    have uniq: "p_pid (procs s q) = pid \<longleftrightarrow> q = p" if "q \<in> set cs" for q
      using find_proc_iff [OF hash, of pid q] Some listed that p by auto
    show ?thesis
    proof (cases "p \<in> set cs")
      case True
      have "wait_selects pid s cs = (if p_state (procs s p) = PROC_ZOMBIE then Some p else None)"
        using False uniq find_unique [OF True, of "\<lambda>q. p_pid (procs s q) = pid \<and> p_state (procs s q) = PROC_ZOMBIE"]
        by (auto simp: wait_selects_def find_None_iff find_None_iff2)
      then show ?thesis using False Some True par p(2) by (auto simp: wait_find_def wait_has_kid_def)
    next
      case n: False
      then have "p_parent (procs s p) \<noteq> Some (current s)" using all p(1) by blast
      moreover have "p_pid (procs s q) \<noteq> pid" if "q \<in> set cs" for q using uniq [OF that] n that by auto
      ultimately show ?thesis using False Some by (auto simp: wait_find_def wait_has_kid_def wait_selects_def find_None_iff find_None_iff2)
    qed
  qed
qed

lemma wait_selects_Some:
  "wait_selects pid s cs = Some p \<Longrightarrow> p \<in> set cs \<and> p_state (procs s p) = PROC_ZOMBIE \<and> (pid = 0 \<or> p_pid (procs s p) = pid)"
  by (auto simp: wait_selects_def find_Some_iff split: if_splits)

lemma hash_inv_remove:
  assumes inv: "hash_inv s" and p: "p \<in> set (proc_list s)"
  shows "hash_inv ((unhash_proc p s)\<lparr>proc_list := removeAll p (proc_list s)\<rparr>)"
  using assms by (auto simp: hash_inv_def unhash_proc_def Let_def inj_on_def distinct_removeAll)

text \<open>The children of the current process are exactly the listed processes that name it as parent.\<close>

definition kids_listed :: "'a proc_mgr_scheme \<Rightarrow> paddr list \<Rightarrow> bool" where
  "kids_listed s cs = (set cs = {p \<in> set (proc_list s). p_parent (procs s p) = Some (current s)})"

definition wait_reap :: "paddr \<Rightarrow> 'a proc_mgr_scheme \<Rightarrow> 'a proc_mgr_scheme option" where
  "wait_reap p s = do { s \<leftarrow> remove_links p (unhash_proc p s); Some (kfree_proc p (put_kstack p s)) }"

lemma do_wait_round_cases:
  assumes fam: "children_of (procs s) (current s) cs" and hash: "hash_inv s" and kids: "kids_listed s cs"
  shows "do_wait_round cls pid st s =
    (case wait_selects pid s cs of
       Some p \<Rightarrow> do { kassert (p \<noteq> idleproc s \<and> p \<noteq> initproc s);
                      s' \<leftarrow> wait_reap p s;
                      Some (s', WaitReturned 0, if st then Some (p_exit_code (procs s p)) else None) }
     | None \<Rightarrow> if wait_has_kid pid s cs
               then do { s \<leftarrow> schedule cls (upd_proc (current s) (\<lambda>p. p\<lparr>p_state := PROC_SLEEPING, p_wait_state := WT_CHILD\<rparr>) s);
                         Some (s, WaitBlocked, None) }
               else Some (s, WaitReturned (- E_BAD_PROC), None))"
proof -
  have "set cs \<subseteq> set (proc_list s)" "\<And>p. p_parent (procs s p) = Some (current s) \<Longrightarrow> p \<in> set (proc_list s) \<Longrightarrow> p \<in> set cs"
    using kids by (auto simp: kids_listed_def)
  then have ws: "wait_find pid s = Some (wait_has_kid pid s cs, wait_selects pid s cs)"
    by (intro wait_search [OF fam hash])
  show ?thesis unfolding do_wait_round_def ws
    by (cases "wait_selects pid s cs") (simp_all add: wait_reap_def Let_def)
qed

context proc_sched
begin

lemma wait_reap_ok:
  assumes pi: "proc_inv inv L s F" and p: "p \<in> set (F (current s))" "p \<in> set (proc_list s)" "F p = []"
    "p_state (procs s p) = PROC_ZOMBIE" "p \<noteq> idleproc s" "p_kstack (procs s p) \<in> live_kstacks s"
  obtains s' where "wait_reap p s = Some s'"
    and "proc_inv inv (L - {p}) s' (F(current s := removeAll p (F (current s))))"
    and "live_kstacks s' = live_kstacks s - {p_kstack (procs s p)}" and "nr_process s' = nr_process s - 1"
    and "current s' = current s" and "find_proc (p_pid (procs s p)) s' = None"
proof -
  let ?c = "current s" and ?u = "unhash_proc p s"
  note D = proc_invD [OF pi]
  have ch: "children_of (procs s) ?c (F ?c)" using D(2,7) by (simp add: family_def)
  then have par: "p_parent (procs ?u p) = Some ?c" "p \<noteq> ?c" using p(1) by (auto simp: children_of_def unhash_proc_def Let_def)
  have fu: "family L (procs ?u) F" using D(2) by (simp add: unhash_proc_def Let_def)
  obtain t where t: "remove_links p ?u = Some t" "family (L - {p}) (procs t) (F(?c := removeAll p (F ?c)))"
    "proc_list t = removeAll p (proc_list ?u)" "nr_process t = nr_process ?u - 1"
    using remove_links_family [OF fu D(7) par(1) p(1) p(3)] by blast
  have lo: "links_only ?u t" by (rule remove_links_only [OF t(1)])
  let ?s' = "kfree_proc p (put_kstack p t)"
  have f: "rq t = rq s" "current t = ?c" "idleproc t = idleproc s" "last_pid t = last_pid s" "next_safe t = next_safe s"
    "live_procs t = L" "live_kstacks t = live_kstacks s" "proc_list t = removeAll p (proc_list s)"
    "hash_list t = hash_list ?u" "nr_process t = nr_process s - 1" "p_kstack (procs t q) = p_kstack (procs s q)"
    "p_state (procs t q) = p_state (procs s q)" "p_pid (procs t q) = p_pid (procs s q)" "p_rq (procs t q) = p_rq (procs s q)" for q
    using lo t(3,4) D(6) by (auto simp: links_only_def unhash_proc_def Let_def)
  have fs: "procs ?s' = procs t" "rq ?s' = rq t" "current ?s' = ?c" "idleproc ?s' = idleproc s"
    "proc_list ?s' = removeAll p (proc_list s)" "hash_list ?s' = hash_list ?u" "last_pid ?s' = last_pid s"
    "next_safe ?s' = next_safe s" "nr_process ?s' = nr_process s - 1" "live_procs ?s' = L - {p}"
    "live_kstacks ?s' = live_kstacks s - {p_kstack (procs s p)}"
    by (simp_all add: kfree_proc_def put_kstack_def f)
  have rd: "ready (L - {p}) ?s' = ready L s" using p(4) by (auto simp: ready_def fs f)
  have "inv ?s' (ready L s)" by (rule inv_procs [OF D(1)]) (simp_all add: fs f)
  moreover have h: "hash_inv ?s'"
    by (rule hash_inv_cong [OF hash_inv_remove [OF D(4) p(2)]]) (simp_all add: fs f unhash_proc_def Let_def)
  moreover have "pids_of ?s' \<subseteq> pids_of s" by (auto simp: pids_of_def fs f)
  then have "pid_inv ?s'" using D(3) by (auto simp: pid_inv_def pid_gap_def fs)
  moreover have "int (length (removeAll p (proc_list s))) = int (length (proc_list s)) - 1"
  proof -
    have "removeAll p (proc_list s) = remove1 p (proc_list s)"
      using D(4) by (simp add: hash_inv_def distinct_remove1_removeAll)
    moreover have "Suc (length (remove1 p (proc_list s))) = length (proc_list s)"
      using p(2) length_pos_if_in_set [OF p(2)] by (simp add: length_remove1)
    ultimately show ?thesis by simp
  qed
  then have "nr_process ?s' = int (length (proc_list ?s')) + 1" using D(9) by (simp add: fs)
  ultimately have "proc_inv inv (L - {p}) ?s' (F(?c := removeAll p (F ?c)))"
    using t(2) D par p(5) by (auto simp: proc_inv_def fs rd)
  moreover have "find_proc (p_pid (procs s p)) ?s' = None"
  proof (rule ccontr)
    assume "\<not> ?thesis"
    then obtain q where "find_proc (p_pid (procs s p)) ?s' = Some q" by blast
    then have "q \<in> set (proc_list s)" "q \<noteq> p" "p_pid (procs s q) = p_pid (procs s p)"
      using find_proc_iff [OF h] by (auto simp: fs f)
    then show False using D(4) p(2) by (auto simp: hash_inv_def inj_on_def)
  qed
  ultimately show thesis using t(1) fs by (intro that [of ?s']) (simp_all add: wait_reap_def)
qed

text \<open>\<open>do_kill\<close> on a process that is not exiting yet.\<close>

lemma do_kill_ok:
  assumes pi: "proc_inv inv L s F" and p: "find_proc pid s = Some p" "p_flags (procs s p) AND PF_EXITING = 0"
    "p_state (procs s p) \<noteq> PROC_ZOMBIE"
  shows "\<exists>s'. do_kill cls pid s = Some (s', 0) \<and> proc_inv inv L s' F
    \<and> p_flags (procs s' p) = p_flags (procs s p) OR PF_EXITING
    \<and> (p_wait_state (procs s p) AND WT_INTERRUPTED \<noteq> 0 \<longrightarrow> p_state (procs s' p) = PROC_RUNNABLE)
    \<and> (p_wait_state (procs s p) AND WT_INTERRUPTED = 0 \<longrightarrow> p_state (procs s' p) = p_state (procs s p))
    \<and> (\<forall>q. q \<noteq> p \<longrightarrow> p_state (procs s' q) = p_state (procs s q) \<and> p_flags (procs s' q) = p_flags (procs s q))"
proof -
  define t where "t = upd_proc p (\<lambda>x. x\<lparr>p_flags := p_flags x OR PF_EXITING\<rparr>) s"
  note D = proc_invD [OF pi]
  have pL: "p \<in> L" using p(1) find_proc_iff [OF D(4)] D(5) by auto
  have It: "inv t (ready L t)"
  proof -
    have "ready L t = ready L s" by (auto simp: ready_def t_def)
    then show ?thesis using inv_upd_proc [OF D(1), of "\<lambda>x. x\<lparr>p_flags := p_flags x OR PF_EXITING\<rparr>"]
      by (simp add: t_def)
  qed
  have ct: "core_inv inv L t"
    by (rule core_inv_cong [of inv L s t, OF _ It]) (use pi in \<open>auto simp: proc_inv_core core_inv_def t_def intro!: same_core_more\<close>)
  have lk: "p_cptr (procs t q) = p_cptr (procs s q)" "p_yptr (procs t q) = p_yptr (procs s q)"
    "p_optr (procs t q) = p_optr (procs s q)" "p_parent (procs t q) = p_parent (procs s q)" for q
    by (simp_all add: t_def)
  have ft: "family L (procs t) F"
    using D(2) unfolding family_def by (auto intro!: children_of_cong [of "procs s" _ _ "procs t"] simp: lk)
  have st: "p_state (procs t q) = p_state (procs s q)" "p_wait_state (procs t q) = p_wait_state (procs s q)"
    "p_flags (procs t q) = (if q = p then p_flags (procs s p) OR PF_EXITING else p_flags (procs s q))" for q
    by (simp_all add: t_def)
  have run: "do_kill cls pid s = do { s' \<leftarrow> (if p_wait_state (procs s p) AND WT_INTERRUPTED \<noteq> 0
      then wakeup_proc cls p t else Some t); Some (s', 0) }"
    using p by (simp add: do_kill_def t_def [symmetric] st(2))
  show ?thesis
  proof (cases "p_wait_state (procs s p) AND WT_INTERRUPTED = 0")
    case True
    then show ?thesis using run ct ft st by (simp add: proc_inv_core)
  next
    case False
    obtain u where u: "wakeup_proc cls p t = Some u" "core_inv inv L u" "p_state (procs u p) = PROC_RUNNABLE"
      "\<forall>q. stable (procs u q) (procs t q)"
      "\<forall>q. q \<noteq> p \<longrightarrow> p_state (procs u q) = p_state (procs t q) \<and> p_wait_state (procs u q) = p_wait_state (procs t q)"
      by (rule wakeup_proc_core [OF ct pL]) (use p(3) st in auto)
    have "family L (procs u) F" by (rule family_stable [OF ft]) (use u(4) in blast)
    moreover have "p_flags (procs u q) = p_flags (procs t q)" for q using u(4) by (simp add: stable_def)
    ultimately show ?thesis using False run u st by (simp add: proc_inv_core)
  qed
qed

end

text \<open>The file table of the new process.\<close>

definition files_available :: "fork_env \<Rightarrow> u32 \<Rightarrow> bool" where
  "files_available env fl = (fl AND CLONE_FS \<noteq> 0 \<or> fe_files_create env \<noteq> None \<and> fe_dup_files env = 0)"

definition files_only :: "'a proc_mgr_scheme \<Rightarrow> 'a proc_mgr_scheme \<Rightarrow> bool" where
  "files_only s t = (rq t = rq s \<and> current t = current s \<and> idleproc t = idleproc s \<and> initproc t = initproc s
     \<and> same_core s t \<and> (\<forall>q. p_state (procs t q) = p_state (procs s q) \<and> p_pid (procs t q) = p_pid (procs s q)
          \<and> p_rq (procs t q) = p_rq (procs s q) \<and> p_parent (procs t q) = p_parent (procs s q)
          \<and> p_cptr (procs t q) = p_cptr (procs s q) \<and> p_optr (procs t q) = p_optr (procs s q)
          \<and> p_yptr (procs t q) = p_yptr (procs s q)))"

lemma files_only_intros:
  "files_only s s" "files_only s t \<Longrightarrow> files_only s (t\<lparr>live_files := l\<rparr>)"
  "files_only s t \<Longrightarrow> files_only s (t\<lparr>files_count := c\<rparr>)"
  "files_only s t \<Longrightarrow> files_only s (t\<lparr>live_files := l, files_count := c\<rparr>)"
  "files_only s t \<Longrightarrow> files_only s (share_files f p t)"
  by (simp_all add: files_only_def same_core_def share_files_def)

lemma copy_files_only:
  assumes "copy_files env fl p s = Some (t, r)"
  shows "files_only s t"
proof -
  obtain f where f: "p_filesp (procs s (current s)) = Some f" using assms by (auto simp: copy_files_def bind_eq_Some_conv)
  show ?thesis
  proof (cases "fl AND CLONE_FS \<noteq> 0")
    case True
    then have "t = share_files f p s" using assms f by (simp add: copy_files_def)
    then show ?thesis by (simp add: files_only_intros)
  next
    case False
    show ?thesis
    proof (cases "fe_files_create env")
      case None
      then have "t = s" using assms f False by (simp add: copy_files_def)
      then show ?thesis by (simp add: files_only_intros)
    next
      case (Some g)
      then have "t = s\<lparr>files_count := (files_count s)(g := 0), live_files := live_files s - {g}\<rparr>
        \<or> t = share_files g p (s\<lparr>live_files := insert g (live_files s), files_count := (files_count s)(g := 0)\<rparr>)"
        using assms f False by (cases "fe_dup_files env = 0") (auto simp add: copy_files_def Let_def)
      then show ?thesis using files_only_intros(1) [of s] by (auto intro: files_only_intros)
    qed
  qed
qed

lemma copy_files_result:
  assumes "p_filesp (procs s (current s)) = Some f"
  shows "\<exists>t r. copy_files env fl p s = Some (t, r) \<and> (r = 0 \<longleftrightarrow> files_available env fl)
    \<and> (r = 0 \<longrightarrow> p_filesp (procs t p) \<noteq> None)"
proof (cases "fl AND CLONE_FS = 0")
  case True
  then show ?thesis using assms
    by (cases "fe_files_create env")
      (simp_all add: copy_files_def files_available_def share_files_def Let_def)
next
  case False
  then show ?thesis using assms by (simp add: copy_files_def files_available_def share_files_def)
qed

context proc_sched
begin

lemma copy_files_inv:
  assumes pi: "proc_inv inv L s F" and c: "copy_files env fl p s = Some (t, r)"
  shows "proc_inv inv L t F" "ready L t = ready L s" "p_pid (procs t q) = p_pid (procs s q)"
    "p_state (procs t q) = p_state (procs s q)"
proof -
  note f = copy_files_only [OF c, unfolded files_only_def]
  have fld: "p_state (procs t q) = p_state (procs s q)" "p_pid (procs t q) = p_pid (procs s q)"
    "p_rq (procs t q) = p_rq (procs s q)" "p_parent (procs t q) = p_parent (procs s q)"
    "p_cptr (procs t q) = p_cptr (procs s q)" "p_optr (procs t q) = p_optr (procs s q)"
    "p_yptr (procs t q) = p_yptr (procs s q)" for q
    using f by auto
  have rd: "ready L t = ready L s" by (simp add: ready_def fld f)
  have "inv t (ready L t)" unfolding rd by (rule inv_procs [OF proc_invD(1) [OF pi]]) (simp_all add: f fld)
  then have "core_inv inv L t"
    by (intro core_inv_cong [of inv L s t]) (use pi f fld in \<open>auto simp: proc_inv_core core_inv_def\<close>)
  moreover have "family L (procs t) F"
    using proc_invD(2) [OF pi] unfolding family_def
    by (auto intro!: children_of_cong [of "procs s" _ _ "procs t"] simp: fld)
  ultimately show "proc_inv inv L t F" by (simp add: proc_inv_core)
  show "ready L t = ready L s" "p_pid (procs t q) = p_pid (procs s q)" "p_state (procs t q) = p_state (procs s q)"
    by (rule rd fld)+
qed

lemma fork_ok:
  assumes "proc_inv inv L s F" and "nr_process s < MAX_PROCESS" and "fe_kmalloc env = Some p" and "p \<notin> L"
    and "p_wait_state (procs s (current s)) = 0" and "fork_resources env fl s"
    and files: "p_filesp (procs s (current s)) = Some f"
  obtains t pid where "do_fork cls env fl stack tf s =
      Some (if files_available env fl then t else kfree_proc p (put_kstack p t), pid)"
    and "1 \<le> pid" and "pid < MAX_PID" and "\<forall>q \<in> set (proc_list s). p_pid (procs s q) \<noteq> pid"
    and "proc_inv inv (insert p L) t (F(current s := p # F (current s), p := []))"
    and "p \<in> ready (insert p L) t" and "find_proc pid t = Some p" and "proc_list t = p # proc_list s"
proof (rule fork_linked [OF assms(1-6), where stack = stack and tf = tf])
  fix u pid
  assume run: "do_fork cls env fl stack tf s =
       do { (t, r) \<leftarrow> copy_files env fl p u;
            if r \<noteq> 0 then Some (kfree_proc p (put_kstack p t), pid) else Some (t, pid) }"
    and pid: "1 \<le> pid" "pid < MAX_PID" "\<forall>q \<in> set (proc_list s). p_pid (procs s q) \<noteq> pid"
    and pu: "proc_inv inv (insert p L) u (F(current s := p # F (current s), p := []))"
    and u: "p_state (procs u p) = PROC_RUNNABLE" "p_pid (procs u p) = pid" "proc_list u = p # proc_list s"
      "current u = current s" "idleproc u = idleproc s" "p_filesp (procs u (current s)) = p_filesp (procs s (current s))"
  obtain t r where t: "copy_files env fl p u = Some (t, r)" "r = 0 \<longleftrightarrow> files_available env fl"
    using copy_files_result [of u f env fl p] u(4,6) files by auto
  note ti = copy_files_inv [OF pu t(1)]
  have tl: "proc_list t = p # proc_list s" using copy_files_only [OF t(1)] u(3) by (simp add: files_only_def same_core_def)
  have np: "p \<noteq> current s" "p \<noteq> idleproc s" using proc_invD(7,8) [OF assms(1)] assms(4) by auto
  show thesis
  proof (rule that [of t pid])
    show "p \<in> ready (insert p L) t" using ti u np by (simp add: ready_def)
    show "find_proc pid t = Some p"
      using find_proc_iff [OF proc_invD(4) [OF ti(1)]] tl ti(3) u(2) by simp
  qed (use run t pid ti(1) tl in \<open>simp_all add: Let_def\<close>)
qed

end

subsection \<open>Properties\<close>

text \<open>
  The example table: the idle process 0, \<open>initproc\<close> 1 waiting for a child, its children 3 (running)
  and 2 (ready), and the zombie 4, a child of 3.
\<close>

definition demo_mgr :: proc_mgr where
  "demo_mgr = \<lparr>procs = (\<lambda>p. demo_proc\<lparr>p_pid := int p, p_kstack := 100 + p,
       p_state := (if p = 4 then PROC_ZOMBIE else if p = 1 then PROC_SLEEPING else PROC_RUNNABLE),
       p_wait_state := (if p = 1 then WT_CHILD else 0), p_exit_code := 7, p_filesp := Some 9,
       p_cptr := (if p = 0 then Some 1 else if p = 1 then Some 3 else if p = 3 then Some 4 else None),
       p_optr := (if p = 3 then Some 2 else None), p_yptr := (if p = 2 then Some 3 else None),
       p_parent := (if p = 1 then Some 0 else if p = 2 \<or> p = 3 then Some 1 else if p = 4 then Some 3 else None)\<rparr>),
     rq = rq demo_sched, current = 3, idleproc = 0, initproc = 1,
     timers = (\<lambda>t. \<lparr>t_expires = 0, t_proc = None\<rparr>), timer_list = [], satp = 0,
     proc_list = [4, 3, 2, 1], hash_list = (\<lambda>b. filter (\<lambda>p. pid_hashfn (int p) = b) [4, 3, 2, 1]),
     nr_process = 5, last_pid = 4, next_safe = 8192, live_procs = {0, 1, 2, 3, 4},
     live_kstacks = {101, 102, 103, 104}, mm_count = (\<lambda>_. 0), live_mms = {}, files_count = (\<lambda>_. 1),
     live_files = {9}\<rparr>"

abbreviation demo_family :: "paddr \<Rightarrow> paddr list" where
  "demo_family \<equiv> (\<lambda>_. [])(0 := [1], 1 := [3, 2], 3 := [4])"

lemma demo_mgr_inv: "proc_inv stride_inv {0, 1, 2, 3, 4} demo_mgr demo_family"
proof -
  have rd: "ready {0, 1, 2, 3, 4} demo_mgr = {2}" by (auto simp: ready_def demo_mgr_def)
  have "stride_rep demo_mgr (Node Leaf 2 Leaf)" using demo_sched_rep by (simp add: stride_rep_def demo_mgr_def)
  then have "stride_inv demo_mgr (ready {0, 1, 2, 3, 4} demo_mgr)" unfolding rd stride_inv_def by fastforce
  moreover have "family {0, 1, 2, 3, 4} (procs demo_mgr) demo_family"
    by (simp add: family_def children_of_def demo_mgr_def)
  moreover have "pid_inv demo_mgr" by (simp add: pid_inv_def pids_of_def pid_gap_def demo_mgr_def)
  moreover have "hash_inv demo_mgr" by (auto simp: hash_inv_def demo_mgr_def)
  ultimately show ?thesis by (simp add: proc_inv_def demo_mgr_def)
qed

theorem get_pid_fresh_witness:
  "\<exists>s' pid. get_pid demo_mgr = Some (s', pid) \<and> 1 \<le> pid \<and> pid \<notin> {1, 2, 3, 4}"
proof -
  have "pid_inv demo_mgr" by (rule proc_invD(3) [OF demo_mgr_inv])
  moreover have "length (proc_list demo_mgr) < 8191" by (simp add: demo_mgr_def)
  moreover have "(\<forall>p \<in> set (proc_list demo_mgr). p_pid (procs demo_mgr p) \<noteq> pid) \<longleftrightarrow> pid \<notin> {1, 2, 3, 4}" for pid
    by (auto simp: demo_mgr_def)
  ultimately show ?thesis using get_pid_fresh [of demo_mgr] by metis
qed

text \<open>
  C14. Creating a process succeeds whenever the resources it needs are there: the child gets an unused
  number, is runnable and queued, is the youngest child of its creator, is found by its number, and
  the process table stays consistent.
\<close>

theorem fork_creates_child:
  assumes "proc_inv stride_inv L s F" and "nr_process s < MAX_PROCESS" and "fe_kmalloc env = Some p" and "p \<notin> L"
    and "p_wait_state (procs s (current s)) = 0" and "fork_resources env fl s"
    and "p_filesp (procs s (current s)) = Some f" and "files_available env fl"
  shows "\<exists>s' pid. do_fork stride_sched_class env fl stack tf s = Some (s', pid) \<and> 1 \<le> pid \<and> pid < MAX_PID
    \<and> (\<forall>q \<in> set (proc_list s). p_pid (procs s q) \<noteq> pid)
    \<and> proc_inv stride_inv (insert p L) s' (F(current s := p # F (current s), p := []))
    \<and> p \<in> ready (insert p L) s' \<and> find_proc pid s' = Some p"
  by (rule stride_proc.fork_ok [OF assms(1-7), where stack = stack and tf = tf]) (use assms(8) in auto)

definition demo_env :: fork_env where
  "demo_env = \<lparr>fe_kmalloc = Some 5, fe_kstack = Some 105, fe_mm_create = None, fe_setup_pgdir = 0, fe_dup_mmap = 0,
     fe_pgdir_pa = (\<lambda>_. 0), fe_files_create = None, fe_dup_files = 0, fe_boot_cr3 = 0, fe_forkret = 0\<rparr>"

definition demo_tf :: trapframe where
  "demo_tf = \<lparr>tf_gpr = (\<lambda>_. 0), tf_status = 0, tf_epc = 0, tf_tval = 0, tf_cause = 0\<rparr>"

lemma demo_fork:
  "nr_process demo_mgr < MAX_PROCESS" "fe_kmalloc demo_env = Some 5" "5 \<notin> {0, 1, 2, 3, 4::paddr}"
  "p_wait_state (procs demo_mgr (current demo_mgr)) = 0" "fork_resources demo_env fl demo_mgr"
  "p_filesp (procs demo_mgr (current demo_mgr)) = Some 9" "current demo_mgr = 3"
  by (simp_all add: demo_mgr_def demo_env_def fork_resources_def demo_proc_def)

theorem fork_creates_child_witness:
  "\<exists>s' pid. do_fork stride_sched_class demo_env CLONE_FS 0 demo_tf demo_mgr = Some (s', pid)
     \<and> pid \<notin> {1, 2, 3, 4} \<and> find_proc pid s' = Some 5"
proof -
  have "files_available demo_env CLONE_FS" by (simp add: files_available_def)
  moreover have "(\<forall>q \<in> set (proc_list demo_mgr). p_pid (procs demo_mgr q) \<noteq> pid) \<longleftrightarrow> pid \<notin> {1, 2, 3, 4}" for pid
    by (auto simp: demo_mgr_def)
  ultimately show ?thesis using fork_creates_child [OF demo_mgr_inv demo_fork(1-6)] by metis
qed

text \<open>
  When memory runs out before the new process is linked, \<open>do_fork\<close> reports \<open>E_NO_MEM\<close> and gives
  back everything it took: descriptor, kernel stack and address space; no table has changed.
\<close>

theorem fork_out_of_memory:
  assumes "nr_process s < MAX_PROCESS" and "fe_kmalloc env = Some p" "p \<notin> live_procs s" "p \<noteq> current s"
    and "p_wait_state (procs s (current s)) = 0"
    and "\<forall>k. fe_kstack env = Some k \<longrightarrow> k \<notin> live_kstacks s" and "\<forall>m. fe_mm_create env = Some m \<longrightarrow> m \<notin> live_mms s"
    and "fe_kstack env = None
      \<or> (\<exists>mm. p_mm (procs s (current s)) = Some mm \<and> fl AND CLONE_VM = 0
            \<and> (fe_mm_create env = None \<or> fe_setup_pgdir env \<noteq> 0 \<or> fe_dup_mmap env \<noteq> 0))"
  shows "\<exists>s'. do_fork cls env fl stack tf s = Some (s', - E_NO_MEM) \<and> same_tables s s'
    \<and> (\<forall>q. q \<noteq> p \<longrightarrow> procs s' q = procs s q)"
  by (rule fork_early_failure [OF assms])

theorem fork_out_of_memory_witness:
  "\<exists>s'. do_fork stride_sched_class (demo_env\<lparr>fe_kstack := None\<rparr>) 0 0 demo_tf demo_mgr = Some (s', - E_NO_MEM)
     \<and> live_procs s' = {0, 1, 2, 3, 4}"
proof -
  have "5 \<notin> live_procs demo_mgr" "5 \<noteq> current demo_mgr" "live_procs demo_mgr = {0, 1, 2, 3, 4}"
    "fe_kmalloc (demo_env\<lparr>fe_kstack := None\<rparr>) = Some 5" "fe_mm_create (demo_env\<lparr>fe_kstack := None\<rparr>) = None"
    by (simp_all add: demo_mgr_def demo_env_def)
  then show ?thesis
    using fork_out_of_memory [of demo_mgr "demo_env\<lparr>fe_kstack := None\<rparr>" 5 0 stride_sched_class 0 demo_tf] demo_fork(1,4)
    by (auto simp: same_tables_def)
qed

text \<open>
  C17. When the file table cannot be copied, \<open>do_fork\<close> frees the descriptor of a process that is already
  listed, hashed and in the run queue, and returns its number as if it had succeeded.
\<close>

theorem fork_files_failure_dangling:
  assumes "proc_inv stride_inv L s F" and "nr_process s < MAX_PROCESS" and "fe_kmalloc env = Some p" and "p \<notin> L"
    and "p_wait_state (procs s (current s)) = 0" and "fork_resources env fl s"
    and "p_filesp (procs s (current s)) = Some f" and "\<not> files_available env fl"
  shows "\<exists>s' pid. do_fork stride_sched_class env fl stack tf s = Some (s', pid) \<and> 1 \<le> pid
    \<and> p \<notin> live_procs s' \<and> p \<in> set (proc_list s') \<and> find_proc pid s' = Some p
    \<and> p \<in> ready (insert p L) s' \<and> stride_inv s' (ready (insert p L) s')"
proof (rule stride_proc.fork_ok [OF assms(1-7), where stack = stack and tf = tf])
  fix t pid
  assume t: "do_fork stride_sched_class env fl stack tf s =
      Some (if files_available env fl then t else kfree_proc p (put_kstack p t), pid)" "1 \<le> pid"
    "proc_inv stride_inv (insert p L) t (F(current s := p # F (current s), p := []))"
    "p \<in> ready (insert p L) t" "find_proc pid t = Some p" "proc_list t = p # proc_list s"
  let ?s' = "kfree_proc p (put_kstack p t)"
  have f: "procs ?s' = procs t" "rq ?s' = rq t" "current ?s' = current t" "idleproc ?s' = idleproc t"
    "proc_list ?s' = proc_list t" "hash_list ?s' = hash_list t" "p \<notin> live_procs ?s'"
    by (simp_all add: kfree_proc_def put_kstack_def)
  have r: "ready (insert p L) ?s' = ready (insert p L) t" by (simp add: ready_def f)
  have "stride_inv ?s' (ready (insert p L) t)"
    by (rule stride.inv_procs [OF proc_invD(1) [OF t(3)]]) (simp_all add: f)
  moreover have "find_proc pid ?s' = find_proc pid t" by (simp add: find_proc_def f)
  ultimately show ?thesis using t assms(8) f r by auto
qed

theorem fork_files_failure_dangling_witness:
  "\<exists>s' pid. do_fork stride_sched_class demo_env 0 0 demo_tf demo_mgr = Some (s', pid) \<and> 1 \<le> pid
     \<and> 5 \<notin> live_procs s' \<and> 5 \<in> set (proc_list s')"
proof -
  have "\<not> files_available demo_env 0" by (simp add: files_available_def demo_env_def)
  then show ?thesis using fork_files_failure_dangling [OF demo_mgr_inv demo_fork(1-6)] by blast
qed

text \<open>
  C15. A process that exits becomes a zombie with its exit code and never runs again; all its children
  become children of \<open>initproc\<close>; its parent is woken if it waits for a child, and so is \<open>initproc\<close> if it
  inherits a zombie; the process table stays consistent and no other process changes state.
\<close>

theorem exit_hands_over_children:
  assumes "proc_inv stride_inv L s F" and "current s \<noteq> idleproc s" "current s \<noteq> initproc s"
    and "initproc s \<in> L" "p_state (procs s (initproc s)) \<noteq> PROC_ZOMBIE" "initproc s \<notin> set (F (current s))"
    and "q \<in> L" "current s \<in> set (F q)" "p_state (procs s q) \<noteq> PROC_ZOMBIE"
  shows "\<exists>s'. do_exit stride_sched_class env code s = Some s'
    \<and> proc_inv stride_inv L s' (adopted (current s) (initproc s) F)
    \<and> p_state (procs s' (current s)) = PROC_ZOMBIE \<and> p_exit_code (procs s' (current s)) = code
    \<and> current s' \<noteq> current s
    \<and> (p_wait_state (procs s q) = WT_CHILD \<longrightarrow> p_state (procs s' q) = PROC_RUNNABLE)
    \<and> (p_wait_state (procs s (initproc s)) = WT_CHILD \<and> (\<exists>r \<in> set (F (current s)). p_state (procs s r) = PROC_ZOMBIE)
       \<longrightarrow> p_state (procs s' (initproc s)) = PROC_RUNNABLE)
    \<and> (\<forall>r. r \<notin> {current s, q, initproc s} \<longrightarrow> p_state (procs s' r) = p_state (procs s r))"
  by (rule stride_proc.do_exit_ok [OF assms])

theorem exit_hands_over_children_witness:
  "\<exists>s'. do_exit stride_sched_class demo_env 42 demo_mgr = Some s' \<and> p_state (procs s' 3) = PROC_ZOMBIE
    \<and> p_exit_code (procs s' 3) = 42 \<and> p_state (procs s' 1) = PROC_RUNNABLE \<and> adopted 3 1 demo_family 1 = [4, 3, 2]"
proof -
  have h: "current demo_mgr \<noteq> idleproc demo_mgr" "current demo_mgr \<noteq> initproc demo_mgr"
    "initproc demo_mgr \<in> {0, 1, 2, 3, 4}" "p_state (procs demo_mgr (initproc demo_mgr)) \<noteq> PROC_ZOMBIE"
    "initproc demo_mgr \<notin> set (demo_family (current demo_mgr))" "1 \<in> {0, 1, 2, 3, 4::nat}"
    "current demo_mgr \<in> set (demo_family 1)" "p_state (procs demo_mgr 1) \<noteq> PROC_ZOMBIE"
    by (simp_all add: demo_mgr_def)
  have "p_wait_state (procs demo_mgr 1) = WT_CHILD" by (simp add: demo_mgr_def)
  with exit_hands_over_children [OF demo_mgr_inv h, of demo_env 42] demo_fork(7) show ?thesis
    by (auto simp: adopted_def)
qed

text \<open>
  C16. \<open>do_wait\<close> on a zombie child returns 0 with its exit code: the child leaves the family links, the
  hash lists and the process list, its kernel stack and descriptor are freed, and its number is unknown
  afterwards. The table of the remaining processes is consistent.
\<close>

theorem wait_reaps_zombie:
  assumes "proc_inv stride_inv L s F" and "kids_listed s (F (current s))"
    and "wait_selects pid s (F (current s)) = Some p" and "F p = []"
    and "p \<noteq> idleproc s" "p \<noteq> initproc s" "p_kstack (procs s p) \<in> live_kstacks s"
  shows "\<exists>s'. do_wait stride_sched_class pid (Some True) s = Some (s', WaitReturned 0, Some (p_exit_code (procs s p)))
    \<and> proc_inv stride_inv (L - {p}) s' (F(current s := removeAll p (F (current s))))
    \<and> live_kstacks s' = live_kstacks s - {p_kstack (procs s p)} \<and> nr_process s' = nr_process s - 1
    \<and> current s' = current s \<and> find_proc (p_pid (procs s p)) s' = None"
proof -
  note D = proc_invD [OF assms(1)]
  have fam: "children_of (procs s) (current s) (F (current s))" using D(2,7) by (simp add: family_def)
  have p: "p \<in> set (F (current s))" "p_state (procs s p) = PROC_ZOMBIE" "p \<in> set (proc_list s)"
    using wait_selects_Some [OF assms(3)] assms(2) by (auto simp: kids_listed_def)
  show ?thesis
  proof (rule stride_proc.wait_reap_ok [OF assms(1) p(1,3) assms(4) p(2) assms(5,7)])
    fix s' assume s': "wait_reap p s = Some s'"
      "proc_inv stride_inv (L - {p}) s' (F(current s := removeAll p (F (current s))))"
      "live_kstacks s' = live_kstacks s - {p_kstack (procs s p)}" "nr_process s' = nr_process s - 1"
      "current s' = current s" "find_proc (p_pid (procs s p)) s' = None"
    have "do_wait stride_sched_class pid (Some True) s = Some (s', WaitReturned 0, Some (p_exit_code (procs s p)))"
      using do_wait_round_cases [OF fam D(4) assms(2), of stride_sched_class pid True] assms(3,5,6) s'(1)
      by (simp add: do_wait_def)
    with s' show ?thesis by blast
  qed
qed

lemma demo_kids: "kids_listed demo_mgr (demo_family (current demo_mgr))"
  by (auto simp: kids_listed_def demo_mgr_def)

theorem wait_reaps_zombie_witness:
  "\<exists>s'. do_wait stride_sched_class 0 (Some True) demo_mgr = Some (s', WaitReturned 0, Some 7) \<and> find_proc 4 s' = None
     \<and> nr_process s' = 4"
proof -
  have h: "wait_selects 0 demo_mgr (demo_family (current demo_mgr)) = Some 4" "demo_family 4 = []"
    "4 \<noteq> idleproc demo_mgr" "4 \<noteq> initproc demo_mgr" "p_kstack (procs demo_mgr 4) \<in> live_kstacks demo_mgr"
    by (simp_all add: wait_selects_def demo_mgr_def)
  have "p_exit_code (procs demo_mgr 4) = 7" "p_pid (procs demo_mgr 4) = 4" "nr_process demo_mgr = 5"
    by (simp_all add: demo_mgr_def)
  with wait_reaps_zombie [OF demo_mgr_inv demo_kids h] show ?thesis by auto
qed

text \<open>
  Without a zombie to reap, \<open>do_wait\<close> fails with \<open>E_BAD_PROC\<close> and changes nothing when there is no
  child to wait for; otherwise the process goes to sleep waiting for a child, and another process runs.
\<close>

theorem wait_without_zombie:
  assumes "proc_inv stride_inv L s F" and "kids_listed s (F (current s))" and "current s \<noteq> idleproc s"
    and "wait_selects pid s (F (current s)) = None"
  shows "\<exists>s' r. do_wait stride_sched_class pid store s = Some (s', r, None)
    \<and> (if store = Some False then s' = s \<and> r = WaitReturned (- E_INVAL)
       else if wait_has_kid pid s (F (current s))
       then r = WaitBlocked \<and> current s' \<noteq> current s \<and> p_state (procs s' (current s)) = PROC_SLEEPING
         \<and> p_wait_state (procs s' (current s)) = WT_CHILD \<and> proc_inv stride_inv L s' F
       else s' = s \<and> r = WaitReturned (- E_BAD_PROC))"
proof -
  note D = proc_invD [OF assms(1)]
  have fam: "children_of (procs s) (current s) (F (current s))" using D(2,7) by (simp add: family_def)
  note cs = do_wait_round_cases [OF fam D(4) assms(2), of stride_sched_class pid, unfolded assms(4), simplified]
  show ?thesis
  proof (cases "store \<noteq> Some False \<and> wait_has_kid pid s (F (current s))")
    case True
    let ?t = "upd_proc (current s) (\<lambda>p. p\<lparr>p_state := PROC_SLEEPING, p_wait_state := WT_CHILD\<rparr>) s"
    have rd: "ready L ?t = ready L s" by (auto simp: ready_def)
    have It: "stride_inv ?t (ready L ?t)" unfolding rd by (rule stride_kernel.inv_upd_proc [OF D(1)]) simp
    have t: "current ?t \<in> L" "p_state (procs ?t (current ?t)) \<noteq> PROC_RUNNABLE" using D(7) by simp_all
    obtain w where w: "schedule stride_sched_class ?t = Some w" "stride_inv w (ready L w)"
      "\<forall>r. p_state (procs w r) = p_state (procs ?t r)" "\<forall>r. p_wait_state (procs w r) = p_wait_state (procs ?t r)"
      "current w \<in> insert (idleproc ?t) (ready L ?t)" "idleproc w = idleproc ?t"
      "kernel_state.more w = kernel_state.more ?t" "\<forall>r. stable (procs w r) (procs ?t r)"
      by (rule stride_kernel.schedule_sleeping [OF It t])
    have wc: "current w \<in> L" "current w \<noteq> current s" using w(5) D(8) assms(3) by (auto simp: ready_def)
    have st: "stable (procs w r) (procs s r)" for r using w(8) by (auto simp: stable_def)
    have "core_inv stride_inv L w"
      by (rule core_inv_cong [of stride_inv L s]) (use assms(1) w(2,6,7) wc(1) st in
        \<open>auto simp: proc_inv_core stable_def intro!: same_core_more\<close>)
    moreover have "family L (procs w) F" by (rule family_stable [OF D(2) st])
    ultimately show ?thesis using True cs w wc by (auto simp: do_wait_def proc_inv_core)
  next
    case False
    then show ?thesis using cs by (auto simp: do_wait_def)
  qed
qed

theorem wait_without_zombie_witness:
  "\<exists>s'. do_wait stride_sched_class 2 None demo_mgr = Some (s', WaitReturned (- E_BAD_PROC), None)"
proof -
  have h: "current demo_mgr \<noteq> idleproc demo_mgr" "wait_selects 2 demo_mgr (demo_family (current demo_mgr)) = None"
    by (simp_all add: demo_mgr_def wait_selects_def)
  have "wait_has_kid 2 demo_mgr (demo_family (current demo_mgr)) = False"
    by (simp add: demo_mgr_def wait_has_kid_def)
  then show ?thesis
    using wait_without_zombie [OF demo_mgr_inv demo_kids h, of None] by (simp only: if_False option.distinct) blast
qed

text \<open>
  \<open>do_kill\<close> marks the process as exiting, wakes it exactly when it sleeps interruptibly, and touches no
  other process; a number no process has gives \<open>E_INVAL\<close>, a process that is already exiting \<open>E_KILLED\<close>.
\<close>

theorem kill_marks_and_wakes:
  assumes "proc_inv stride_inv L s F" and "find_proc pid s = Some p" "p_state (procs s p) \<noteq> PROC_ZOMBIE"
  shows "if p_flags (procs s p) AND PF_EXITING \<noteq> 0 then do_kill stride_sched_class pid s = Some (s, - E_KILLED)
    else \<exists>s'. do_kill stride_sched_class pid s = Some (s', 0) \<and> proc_inv stride_inv L s' F
      \<and> p_flags (procs s' p) = p_flags (procs s p) OR PF_EXITING
      \<and> (p_wait_state (procs s p) AND WT_INTERRUPTED \<noteq> 0 \<longrightarrow> p_state (procs s' p) = PROC_RUNNABLE)
      \<and> (p_wait_state (procs s p) AND WT_INTERRUPTED = 0 \<longrightarrow> p_state (procs s' p) = p_state (procs s p))
      \<and> (\<forall>q. q \<noteq> p \<longrightarrow> p_state (procs s' q) = p_state (procs s q) \<and> p_flags (procs s' q) = p_flags (procs s q))"
proof (cases "p_flags (procs s p) AND PF_EXITING = 0")
  case True
  with stride_proc.do_kill_ok [OF assms(1,2) True assms(3)] show ?thesis by simp
next
  case False
  with assms(2) show ?thesis by (simp add: do_kill_def)
qed

theorem kill_marks_and_wakes_witness:
  "\<exists>s'. do_kill stride_sched_class 1 demo_mgr = Some (s', 0) \<and> p_state (procs s' 1) = PROC_RUNNABLE"
proof -
  have "find_proc 1 demo_mgr = Some 1" "p_state (procs demo_mgr 1) \<noteq> PROC_ZOMBIE" "p_flags (procs demo_mgr 1) = 0"
    "p_wait_state (procs demo_mgr 1) = WT_CHILD"
    using find_proc_iff [OF proc_invD(4) [OF demo_mgr_inv]] by (simp_all add: demo_mgr_def demo_proc_def)
  with kill_marks_and_wakes [OF demo_mgr_inv, of 1 1] show ?thesis by (auto simp: and_one_eq)
qed

end
