(* ===== verification/Cstring.thy ===== *)
theory Cstring
  imports Prelude
begin

section \<open>C strings and memory blocks: \<open>libs/string.c\<close>\<close>

text \<open>
  The functions read and write a byte-addressed memory: a map from addresses to characters (eight
  bits each). A loop that ends at a terminator is a \<open>partial_function\<close>: \<open>None\<close> is a run past every
  terminator. That the loops end on terminated strings is part of each specification.
\<close>

type_synonym memory = "nat \<Rightarrow> char"

abbreviation (input) NUL :: char where "NUL \<equiv> CHR 0x00"

lemma of_char_eq_0 [simp]: "of_char c = (0 :: nat) \<longleftrightarrow> c = NUL"
  using of_char_eq_iff [of c NUL, where ?'a = nat] by simp

lemma of_char_pos [simp]: "0 < (of_char c :: nat) \<longleftrightarrow> c \<noteq> NUL"
  by (simp add: neq0_conv [symmetric] del: neq0_conv)

subsection \<open>Lengths\<close>

partial_function (option) strlen_loop :: "memory \<Rightarrow> nat \<Rightarrow> nat \<Rightarrow> nat option" where
  "strlen_loop m s cnt = (if m s \<noteq> NUL then strlen_loop m (s + 1) (cnt + 1) else Some cnt)"

definition strlen :: "memory \<Rightarrow> nat \<Rightarrow> nat option" where
  "strlen m s = strlen_loop m s 0"

function strnlen_loop :: "memory \<Rightarrow> nat \<Rightarrow> nat \<Rightarrow> nat \<Rightarrow> nat" where
  "strnlen_loop m s len cnt =
     (if cnt < len \<and> m s \<noteq> NUL then strnlen_loop m (s + 1) len (cnt + 1) else cnt)"
  by pat_completeness auto
termination by (relation "measure (\<lambda>(m, s, len, cnt). len - cnt)") auto

declare strnlen_loop.simps [simp del]

definition strnlen :: "memory \<Rightarrow> nat \<Rightarrow> nat \<Rightarrow> nat" where
  "strnlen m s len = strnlen_loop m s len 0"

subsection \<open>Copying\<close>

partial_function (option) strcpy_loop :: "memory \<Rightarrow> nat \<Rightarrow> nat \<Rightarrow> memory option" where
  "strcpy_loop m p src =
     (let m' = m(p := m src)
      in if m src \<noteq> NUL then strcpy_loop m' (p + 1) (src + 1) else Some m')"

definition strcpy :: "memory \<Rightarrow> nat \<Rightarrow> nat \<Rightarrow> (memory \<times> nat) option" where
  "strcpy m dst src = do { m \<leftarrow> strcpy_loop m dst src; Some (m, dst) }"

fun strncpy_loop :: "memory \<Rightarrow> nat \<Rightarrow> nat \<Rightarrow> nat \<Rightarrow> memory" where
  "strncpy_loop m p src 0 = m"
| "strncpy_loop m p src (Suc len) =
     strncpy_loop (m(p := m src)) (p + 1) (if m src \<noteq> NUL then src + 1 else src) len"

definition strncpy :: "memory \<Rightarrow> nat \<Rightarrow> nat \<Rightarrow> nat \<Rightarrow> memory \<times> nat" where
  "strncpy m dst src len = (strncpy_loop m dst src len, dst)"

definition strcat :: "memory \<Rightarrow> nat \<Rightarrow> nat \<Rightarrow> (memory \<times> nat) option" where
  "strcat m dst src = do { n \<leftarrow> strlen m dst; strcpy m (dst + n) src }"

subsection \<open>Comparing and searching\<close>

text \<open>The difference of two characters read as \<open>unsigned char\<close>.\<close>

definition uchar_diff :: "char \<Rightarrow> char \<Rightarrow> int" where
  "uchar_diff a b = int (of_char a) - int (of_char b)"

partial_function (option) strcmp :: "memory \<Rightarrow> nat \<Rightarrow> nat \<Rightarrow> int option" where
  "strcmp m s1 s2 =
     (if m s1 \<noteq> NUL \<and> m s1 = m s2 then strcmp m (s1 + 1) (s2 + 1) else Some (uchar_diff (m s1) (m s2)))"

fun strncmp :: "memory \<Rightarrow> nat \<Rightarrow> nat \<Rightarrow> nat \<Rightarrow> int" where
  "strncmp m s1 s2 0 = 0"
| "strncmp m s1 s2 (Suc n) =
     (if m s1 \<noteq> NUL \<and> m s1 = m s2 then strncmp m (s1 + 1) (s2 + 1) n else uchar_diff (m s1) (m s2))"

partial_function (option) strchr :: "memory \<Rightarrow> nat \<Rightarrow> char \<Rightarrow> nat option option" where
  "strchr m s c =
     (if m s \<noteq> NUL then (if m s = c then Some (Some s) else strchr m (s + 1) c) else Some None)"

partial_function (option) strfind :: "memory \<Rightarrow> nat \<Rightarrow> char \<Rightarrow> nat option" where
  "strfind m s c =
     (if m s \<noteq> NUL then (if m s = c then Some s else strfind m (s + 1) c) else Some s)"

subsection \<open>Numbers\<close>

partial_function (option) skip_blanks :: "memory \<Rightarrow> nat \<Rightarrow> nat option" where
  "skip_blanks m s = (if m s = CHR '' '' \<or> m s = CHR 0x09 then skip_blanks m (s + 1) else Some s)"

definition digit_value :: "char \<Rightarrow> int option" where
  "digit_value c =
     (let n = of_char c :: int
      in if 48 \<le> n \<and> n \<le> 57 then Some (n - 48)
         else if 97 \<le> n \<and> n \<le> 122 then Some (n - 97 + 10)
         else if 65 \<le> n \<and> n \<le> 90 then Some (n - 65 + 10)
         else None)"

text \<open>The accumulator is a \<open>long\<close>: 64 bits, "we don't properly detect overflow".\<close>

partial_function (option) strtol_digits :: "memory \<Rightarrow> nat \<Rightarrow> int \<Rightarrow> u64 \<Rightarrow> (nat \<times> u64) option" where
  "strtol_digits m s base val =
     (case digit_value (m s) of
        None \<Rightarrow> Some (s, val)
      | Some dig \<Rightarrow>
          if dig \<ge> base then Some (s, val)
          else strtol_digits m (s + 1) base (val * of_int base + of_int dig))"

definition strtol_base :: "memory \<Rightarrow> nat \<Rightarrow> int \<Rightarrow> nat \<times> int" where
  "strtol_base m s base =
     (if (base = 0 \<or> base = 16) \<and> m s = CHR ''0'' \<and> m (s + 1) = CHR ''x'' then (s + 2, 16)
      else if base = 0 \<and> m s = CHR ''0'' then (s + 1, 8)
      else if base = 0 then (s, 10)
      else (s, base))"

definition strtol :: "memory \<Rightarrow> nat \<Rightarrow> int \<Rightarrow> (int \<times> nat) option" where
  "strtol m s base =
     do { s \<leftarrow> skip_blanks m s;
          let (s, neg) = (if m s = CHR ''+'' then (s + 1, False)
                          else if m s = CHR ''-'' then (s + 1, True) else (s, False));
          let (s, base) = strtol_base m s base;
          (s, val) \<leftarrow> strtol_digits m s base 0;
          Some (sint (if neg then - val else val), s) }"

subsection \<open>Blocks\<close>

fun memset :: "memory \<Rightarrow> nat \<Rightarrow> char \<Rightarrow> nat \<Rightarrow> memory" where
  "memset m s c 0 = m"
| "memset m s c (Suc n) = memset (m(s := c)) (s + 1) c n"

fun copy_down :: "memory \<Rightarrow> nat \<Rightarrow> nat \<Rightarrow> nat \<Rightarrow> memory" where
  "copy_down m d s 0 = m"
| "copy_down m d s (Suc n) = copy_down (m(d - 1 := m (s - 1))) (d - 1) (s - 1) n"

fun memcpy :: "memory \<Rightarrow> nat \<Rightarrow> nat \<Rightarrow> nat \<Rightarrow> memory" where
  "memcpy m d s 0 = m"
| "memcpy m d s (Suc n) = memcpy (m(d := m s)) (d + 1) (s + 1) n"

definition memmove :: "memory \<Rightarrow> nat \<Rightarrow> nat \<Rightarrow> nat \<Rightarrow> memory" where
  "memmove m dst src n =
     (if src < dst \<and> src + n > dst then copy_down m (dst + n) (src + n) n else memcpy m dst src n)"

fun memcmp :: "memory \<Rightarrow> nat \<Rightarrow> nat \<Rightarrow> nat \<Rightarrow> int" where
  "memcmp m s1 s2 0 = 0"
| "memcmp m s1 s2 (Suc n) =
     (if m s1 \<noteq> m s2 then uchar_diff (m s1) (m s2) else memcmp m (s1 + 1) (s2 + 1) n)"

subsection \<open>Strings in memory\<close>

text \<open>The bytes from an address on, and the terminated string at an address.\<close>

definition block :: "memory \<Rightarrow> nat \<Rightarrow> nat \<Rightarrow> char list" where
  "block m s n = map (\<lambda>i. m (s + i)) [0..<n]"

fun cstr :: "memory \<Rightarrow> nat \<Rightarrow> char list \<Rightarrow> bool" where
  "cstr m s [] = (m s = NUL)"
| "cstr m s (x # xs) = (x \<noteq> NUL \<and> m s = x \<and> cstr m (s + 1) xs)"

lemma block_simps [simp]: "block m s 0 = []" "length (block m s n) = n"
  by (simp_all add: block_def)

lemma block_Suc: "block m s (Suc n) = m s # block m (s + 1) n"
  by (simp add: block_def upt_conv_Cons del: upt_Suc) (simp add: map_Suc_upt [symmetric] comp_def del: upt_Suc)

lemma block_nth [simp]: "i < n \<Longrightarrow> block m s n ! i = m (s + i)"
  by (simp add: block_def)

lemma block_add: "block m s (a + b) = block m s a @ block m (s + a) b"
  by (rule nth_equalityI) (auto simp: nth_append)

lemma block_cong: "(\<And>i. s \<le> i \<Longrightarrow> i < s + n \<Longrightarrow> m i = m' i) \<Longrightarrow> block m s n = block m' s n"
  by (simp add: block_def)

lemma cstr_unique: "cstr m s xs \<Longrightarrow> cstr m s ys \<Longrightarrow> xs = ys"
proof (induction xs arbitrary: s ys)
  case Nil
  then show ?case by (cases ys) auto
next
  case (Cons x xs)
  then show ?case by (cases ys) auto
qed

lemma cstr_frame: "(\<And>i. s \<le> i \<Longrightarrow> i \<le> s + length xs \<Longrightarrow> m' i = m i) \<Longrightarrow> cstr m' s xs = cstr m s xs"
  by (induction xs arbitrary: s) auto

lemma cstr_nonzero: "cstr m s xs \<Longrightarrow> i < length xs \<Longrightarrow> m (s + i) = xs ! i \<and> xs ! i \<noteq> NUL"
proof (induction xs arbitrary: s i)
  case (Cons x xs)
  with Cons.IH [of "s + 1" "i - 1"] show ?case by (cases i) auto
qed simp

lemma strlen_loop_cstr: "cstr m s xs \<Longrightarrow> strlen_loop m s cnt = Some (cnt + length xs)"
proof (induction xs arbitrary: s cnt)
  case Nil
  then show ?case by (subst strlen_loop.simps) simp
next
  case (Cons x xs)
  then show ?case by (subst strlen_loop.simps) simp
qed

lemma strlen_cstr: "cstr m s xs \<Longrightarrow> strlen m s = Some (length xs)"
  by (simp add: strlen_def strlen_loop_cstr)

lemma strnlen_loop_cstr: "cstr m s xs \<Longrightarrow> strnlen_loop m s len cnt = cnt + min (len - cnt) (length xs)"
proof (induction xs arbitrary: s cnt)
  case Nil
  then show ?case by (subst strnlen_loop.simps) simp
next
  case (Cons x xs)
  then show ?case by (subst strnlen_loop.simps) (auto simp: min_def)
qed

lemma strnlen_cstr: "cstr m s xs \<Longrightarrow> strnlen m s len = min len (length xs)"
  by (simp add: strnlen_def strnlen_loop_cstr)

text \<open>\<open>strcpy\<close> when the destination does not overlap the rest of the source.\<close>

lemma strcpy_loop_cstr:
  assumes "cstr m s xs" and "d + length xs < s \<or> s + length xs < d"
  shows "\<exists>m'. strcpy_loop m d s = Some m' \<and> cstr m' d xs \<and> (\<forall>i. i < d \<or> d + length xs < i \<longrightarrow> m' i = m i)"
  using assms
proof (induction xs arbitrary: m s d)
  case Nil
  then have "strcpy_loop m d s = Some (m(d := m s))" by (subst strcpy_loop.simps) (simp add: Let_def)
  then show ?case using Nil by auto
next
  case (Cons x xs)
  let ?m = "m(d := m s)"
  have "cstr ?m (s + 1) xs = cstr m (s + 1) xs" by (rule cstr_frame) (use Cons.prems in auto)
  then obtain m' where m': "strcpy_loop ?m (d + 1) (s + 1) = Some m'" "cstr m' (d + 1) xs"
    "\<forall>i. i < d + 1 \<or> d + 1 + length xs < i \<longrightarrow> m' i = ?m i"
    using Cons.IH [of ?m "s + 1" "d + 1"] Cons.prems by (auto simp del: fun_upd_apply)
  moreover have "strcpy_loop m d s = Some m'" using m'(1) Cons.prems by (subst strcpy_loop.simps) (simp add: Let_def)
  ultimately show ?case using Cons.prems by auto
qed

lemma memcpy_frame: "i < d \<or> d + n \<le> i \<Longrightarrow> memcpy m d s n i = m i"
  by (induction n arbitrary: m d s) auto

lemma memcpy_forward:
  "d \<le> s \<or> s + n \<le> d \<Longrightarrow> i < n \<Longrightarrow> memcpy m d s n (d + i) = m (s + i)"
proof (induction n arbitrary: m d s i)
  case (Suc n)
  show ?case
  proof (cases i)
    case 0
    then show ?thesis by (simp add: memcpy_frame)
  next
    case (Suc j)
    have "memcpy (m(d := m s)) (d + 1) (s + 1) n (d + 1 + j) = (m(d := m s)) (s + 1 + j)"
      using Suc.IH [of "d + 1" "s + 1" j "m(d := m s)"] Suc.prems Suc by (simp del: fun_upd_apply) linarith
    moreover have "s + 1 + j \<noteq> d" using Suc Suc.prems by auto
    ultimately show ?thesis using Suc by (simp add: fun_upd_other)
  qed
qed simp

lemma copy_down_frame: "n \<le> d \<Longrightarrow> i < d - n \<or> d \<le> i \<Longrightarrow> copy_down m d s n i = m i"
proof (induction n arbitrary: m d s)
  case (Suc n)
  then have "n \<le> d - 1" "i < d - 1 - n \<or> d - 1 \<le> i" "i \<noteq> d - 1" by auto
  with Suc.IH [OF this(1,2), of "m(d - 1 := m (s - 1))" "s - 1"] show ?case
    by (simp add: fun_upd_other del: fun_upd_apply)
qed simp

lemma copy_down_backward:
  "n \<le> s \<Longrightarrow> s \<le> d \<Longrightarrow> i < n \<Longrightarrow> copy_down m d s n (d - n + i) = m (s - n + i)"
proof (induction n arbitrary: m d s i)
  case (Suc n)
  let ?m = "m(d - 1 := m (s - 1))"
  show ?case
  proof (cases "i = n")
    case True
    have "copy_down ?m (d - 1) (s - 1) n (d - 1) = ?m (d - 1)" by (rule copy_down_frame) (use Suc.prems in auto)
    moreover have "d - Suc n + n = d - 1" "s - Suc n + n = s - 1" using Suc.prems by auto
    ultimately show ?thesis using True by simp
  next
    case False
    have "copy_down ?m (d - 1) (s - 1) n (d - 1 - n + i) = ?m (s - 1 - n + i)"
      using Suc.IH [of "s - 1" "d - 1" i ?m] Suc.prems False by (simp del: fun_upd_apply)
    moreover have "s - 1 - n + i \<noteq> d - 1" using Suc.prems False by auto
    moreover have "d - 1 - n = d - Suc n" "s - 1 - n = s - Suc n" by simp_all
    ultimately show ?thesis by (simp add: fun_upd_other del: fun_upd_apply)
  qed
qed simp

lemma memmove_block:
  "block (memmove m d s n) d n = block m s n \<and> (\<forall>i. i < d \<or> d + n \<le> i \<longrightarrow> memmove m d s n i = m i)"
proof (cases "s < d \<and> s + n > d")
  case True
  have "copy_down m (d + n) (s + n) n (d + i) = m (s + i)" if "i < n" for i
    using copy_down_backward [of n "s + n" "d + n" i m] True that by simp
  then have "block (memmove m d s n) d n = block m s n"
    using True by (intro nth_equalityI) (auto simp: memmove_def)
  moreover have "copy_down m (d + n) (s + n) n i = m i" if "i < d \<or> d + n \<le> i" for i
    by (rule copy_down_frame) (use that in auto)
  ultimately show ?thesis using True by (auto simp: memmove_def)
next
  case False
  then have "memmove m d s n = memcpy m d s n" "d \<le> s \<or> s + n \<le> d" by (auto simp: memmove_def)
  then show ?thesis using memcpy_forward [of d s n _ m] memcpy_frame [of _ d n m s]
    by (auto intro!: nth_equalityI)
qed

text \<open>
  \<open>memmove\<close> is right for every overlap of the two blocks: afterwards the destination holds what the
  source held before, and no byte outside the destination has changed.
\<close>

theorem memmove_overlap:
  "memmove m d s n = (\<lambda>i. if d \<le> i \<and> i < d + n then m (s + (i - d)) else m i)"
proof
  fix i
  have "memmove m d s n (d + j) = m (s + j)" if "j < n" for j
    using memmove_block [of m d s n] that by (metis block_nth)
  from this [of "i - d"] show "memmove m d s n i = (if d \<le> i \<and> i < d + n then m (s + (i - d)) else m i)"
    using memmove_block [of m d s n] by auto
qed

lemma memset_block: "memset m s c n i = (if s \<le> i \<and> i < s + n then c else m i)"
  by (induction n arbitrary: m s) auto

lemma memcmp_zero: "memcmp m s1 s2 n = 0 \<longleftrightarrow> block m s1 n = block m s2 n"
  by (induction n arbitrary: s1 s2) (auto simp: block_Suc uchar_diff_def of_char_eq_iff)

lemma strcmp_cstr:
  assumes "cstr m s1 xs" and "cstr m s2 ys"
  shows "\<exists>r. strcmp m s1 s2 = Some r \<and> (r = 0 \<longleftrightarrow> xs = ys)
    \<and> (r < 0 \<longleftrightarrow> (map (of_char :: char \<Rightarrow> nat) xs, map of_char ys) \<in> lexord {(a, b). a < b})"
  using assms
proof (induction xs arbitrary: s1 s2 ys)
  case Nil
  then show ?case
    by (subst strcmp.simps, cases ys) (auto simp: uchar_diff_def)
next
  case (Cons x xs)
  show ?case
  proof (cases "ys \<noteq> [] \<and> hd ys = x")
    case True
    then obtain ys' where ys: "ys = x # ys'" by (cases ys) auto
    with Cons.IH [of "s1 + 1" "s2 + 1" ys'] Cons.prems show ?thesis
      by (subst strcmp.simps) auto
  next
    case False
    then have ne: "m s1 \<noteq> m s2" using Cons.prems by (cases ys) auto
    then have "strcmp m s1 s2 = Some (uchar_diff (m s1) (m s2))" by (subst strcmp.simps) simp
    then show ?thesis using ne Cons.prems False
      by (cases ys) (auto simp: uchar_diff_def of_char_eq_iff)
  qed
qed

text \<open>
  \<open>strcat\<close> on strings that do not overlap leaves the concatenation at the destination, terminated, and
  touches nothing outside it; the length and the comparison functions agree with the strings: \<open>strlen\<close>
  counts the characters, \<open>strcmp\<close> is zero exactly on equal strings and negative exactly when the first
  is smaller in dictionary order of unsigned characters.
\<close>

theorem strcat_strcmp_spec:
  assumes "cstr m d xs" and "cstr m s ys" and "s + length ys < d \<or> d + length xs + length ys < s"
  shows "\<exists>m' r. strcat m d s = Some (m', d + length xs) \<and> cstr m' d (xs @ ys) \<and> cstr m' s ys
    \<and> strlen m' d = Some (length xs + length ys)
    \<and> (\<forall>i. i < d + length xs \<or> d + length xs + length ys < i \<longrightarrow> m' i = m i)
    \<and> strcmp m' d s = Some r \<and> (r = 0 \<longleftrightarrow> xs @ ys = ys)
    \<and> (r < 0 \<longleftrightarrow> (map (of_char :: char \<Rightarrow> nat) (xs @ ys), map of_char ys) \<in> lexord {(a, b). a < b})"
proof -
  obtain m' where m': "strcpy_loop m (d + length xs) s = Some m'" "cstr m' (d + length xs) ys"
    "\<forall>i. i < d + length xs \<or> d + length xs + length ys < i \<longrightarrow> m' i = m i"
    using strcpy_loop_cstr [OF assms(2), of "d + length xs"] assms(3) by auto
  have pre: "(\<forall>i < length xs. m' (d + i) = xs ! i \<and> xs ! i \<noteq> NUL)"
    using cstr_nonzero [OF assms(1)] m'(3) by simp
  have join: "\<forall>i < length us. n (e + i) = us ! i \<and> us ! i \<noteq> NUL \<Longrightarrow> cstr n (e + length us) vs \<Longrightarrow> cstr n e (us @ vs)"
    for n e us vs
  proof (induction us arbitrary: e)
    case (Cons u us)
    have h: "\<forall>i < length us. n (e + 1 + i) = us ! i \<and> us ! i \<noteq> NUL" using Cons.prems(1) by force
    have "n e = u \<and> u \<noteq> NUL" using Cons.prems(1) by force
    with Cons.IH [OF h] Cons.prems(2) show ?case by simp
  qed simp
  have c: "cstr m' d (xs @ ys)" by (rule join [OF pre m'(2)])
  have "cstr m' s ys = cstr m s ys" by (rule cstr_frame) (use m'(3) assms(3) in auto)
  then have cs: "cstr m' s ys" using assms(2) by simp
  have "strcat m d s = Some (m', d + length xs)" using m'(1) strlen_cstr [OF assms(1)] by (simp add: strcat_def strcpy_def)
  then show ?thesis using c cs m'(3) strlen_cstr [OF c] strcmp_cstr [OF c cs] by auto
qed

definition demo_memory :: memory where
  "demo_memory = (\<lambda>i. if i = 10 then CHR ''a'' else if i = 20 then CHR ''b'' else NUL)"

theorem strcat_strcmp_spec_witness:
  "\<exists>m'. strcat demo_memory 10 20 = Some (m', 11) \<and> cstr m' 10 ''ab'' \<and> strlen m' 10 = Some 2"
proof -
  have "cstr demo_memory 10 ''a''" "cstr demo_memory 20 ''b''" by (simp_all add: demo_memory_def)
  from strcat_strcmp_spec [OF this] show ?thesis by fastforce
qed

end
