(* ===== verification/Printfmt.thy ===== *)
theory Printfmt
  imports Cstring
begin

section \<open>Formatted output: \<open>libs/printfmt.c\<close>\<close>

text \<open>
  The functions that format call \<open>putch\<close> on each character, an operation on some state, and read the strings for \<open>%s\<close> from the
  memory of that state at the moment, \<open>look\<close>. Format strings are the characters of a literal up to its
  terminator, fewer than \<open>2 ^ 31\<close>. The variable
  arguments are the 64-bit slots \<open>args 0, args 1, ...\<close> from which \<open>va_arg\<close> reads. \<open>int\<close> arithmetic that overflows is
  undefined: \<open>None\<close>, as is running past the end of an unterminated string.
\<close>

definition int32 :: "int \<Rightarrow> int option" where
  "int32 x = (if - (2 ^ 31) \<le> x \<and> x < 2 ^ 31 then Some x else None)"

subsection \<open>Numbers\<close>

definition digit_char :: "nat \<Rightarrow> char" where
  "digit_char n = ''0123456789abcdef'' ! n"

text \<open>
  The characters \<open>printnum\<close> puts, in order. The quotient and the rest are those of unsigned 64-bit values: natural numbers below
  \<open>2 ^ 64\<close>. Both branches subtract one from the width.
\<close>

partial_function (option) printnum :: "nat \<Rightarrow> nat \<Rightarrow> int \<Rightarrow> char \<Rightarrow> string option" where
  "printnum num base width padc =
     do { w \<leftarrow> int32 (width - 1);
          pre \<leftarrow> (if num \<ge> base then printnum (num div base) base w padc
                 else Some (replicate (nat w) padc));
          Some (pre @ [digit_char (num mod base)]) }"

definition getuint :: "u64 \<Rightarrow> nat \<Rightarrow> u64" where
  "getuint a lflag = (if lflag \<ge> 1 then a else ucast (ucast a :: u32))"

definition getint :: "u64 \<Rightarrow> nat \<Rightarrow> u64" where
  "getint a lflag = (if lflag \<ge> 1 then a else scast (ucast a :: u32))"

subsection \<open>One escape sequence\<close>

record fspec =
  padc :: char
  width :: int
  precision :: int
  lflag :: nat
  altflag :: bool

abbreviation (input) fspec0 :: fspec where
  "fspec0 \<equiv> \<lparr>padc = CHR '' '', width = - 1, precision = - 1, lflag = 0, altflag = False\<rparr>"

definition is_digit :: "char \<Rightarrow> bool" where
  "is_digit c = (48 \<le> (of_char c :: nat) \<and> (of_char c :: nat) \<le> 57)"

fun read_width :: "int \<Rightarrow> char \<Rightarrow> string \<Rightarrow> (int \<times> string) option" where
  "read_width p ch cs =
     do { q \<leftarrow> int32 (p * 10);
          q \<leftarrow> int32 (q + of_char ch);
          p \<leftarrow> int32 (q - 48);
          case cs of
            [] \<Rightarrow> Some (p, cs)
          | c # cs' \<Rightarrow> if is_digit c then read_width p c cs' else Some (p, cs) }"

definition process_precision :: "int \<Rightarrow> fspec \<Rightarrow> fspec" where
  "process_precision p sp =
     (if width sp < 0 then sp\<lparr>width := p, precision := - 1\<rparr> else sp\<lparr>precision := p\<rparr>)"

declare read_width.simps [simp del]

lemma read_width_length: "read_width p ch cs = Some (q, cs') \<Longrightarrow> length cs' \<le> length cs"
proof (induction cs arbitrary: p ch)
  case Nil
  then show ?case by (auto simp: read_width.simps [of p ch "[]"] split: bind_split_asm)
next
  case (Cons c cs)
  then show ?case
    by (auto simp: read_width.simps [of p ch "c # cs"] dest: Cons.IH split: if_splits bind_split_asm intro: le_SucI)
qed

text \<open>
  The flags up to the conversion character: the character, what follows it, the flags and the next argument; no
  character when it is no conversion (the \<open>default\<close> case, also at the terminator).
\<close>

definition is_conversion :: "char \<Rightarrow> bool" where
  "is_conversion c = (c \<in> set ''cesduopx%'')"

function reswitch :: "string \<Rightarrow> fspec \<Rightarrow> (nat \<Rightarrow> u64) \<Rightarrow> nat \<Rightarrow> (char option \<times> string \<times> fspec \<times> nat) option" where
  "reswitch [] sp args k = Some (None, [], sp, k)"
| "reswitch (c # cs) sp args k =
     (if c = CHR ''-'' then reswitch cs (sp\<lparr>padc := CHR ''-''\<rparr>) args k
      else if c = CHR ''0'' then reswitch cs (sp\<lparr>padc := CHR ''0''\<rparr>) args k
      else if is_digit c
      then (case read_width 0 c cs of
              None \<Rightarrow> None
            | Some (p, cs') \<Rightarrow> reswitch cs' (process_precision p sp) args k)
      else if c = CHR ''*''
      then reswitch cs (process_precision (sint (ucast (args k) :: u32)) sp) args (k + 1)
      else if c = CHR ''.'' then reswitch cs (if width sp < 0 then sp\<lparr>width := 0\<rparr> else sp) args k
      else if c = CHR ''#'' then reswitch cs (sp\<lparr>altflag := True\<rparr>) args k
      else if c = CHR ''l'' then reswitch cs (sp\<lparr>lflag := lflag sp + 1\<rparr>) args k
      else if is_conversion c then Some (Some c, cs, sp, k)
      else Some (None, c # cs, sp, k))"
  by pat_completeness auto
termination by (relation "measure (\<lambda>(cs, sp, args, k). length cs)") (auto dest: read_width_length)

lemma reswitch_less: "reswitch cs sp args k = Some (Some ch, cs', sp', k') \<Longrightarrow> length cs' < length cs"
proof (induction cs sp args k rule: reswitch.induct)
  case (2 c cs sp args k)
  show ?case
  proof (cases "c \<noteq> CHR ''-'' \<and> c \<noteq> CHR ''0'' \<and> is_digit c")
    case True
    then obtain p ds where r: "read_width 0 c cs = Some (p, ds)" using "2.prems" by (auto split: option.splits)
    with True "2.prems" have "length cs' < length ds" using "2.IH"(3) by simp
    with read_width_length [OF r] show ?thesis by simp
  next
    case False
    then show ?thesis using "2.prems" "2.IH"(1,2,4-7) by (auto split: if_splits intro: less_SucI)
  qed
qed simp

subsection \<open>Conversions\<close>

definition MAXERROR :: int where "MAXERROR = 24"

definition error_string :: "int \<Rightarrow> string option" where
  "error_string err = map_of
     [(1, ''unspecified error''), (2, ''bad process''), (3, ''invalid parameter''), (4, ''out of memory''),
      (5, ''out of processes''), (6, ''segmentation fault''), (8, ''invalid elf file''), (9, ''process is killed''),
      (10, ''panic failure''), (13, ''no such device''), (14, ''device not available''), (15, ''device/file is busy''),
      (16, ''no such file or directory''), (17, ''is a directory''), (18, ''not a directory''), (19, ''cross device link''),
      (20, ''unimplemented feature''), (21, ''illegal seek''), (22, ''too many files are open''),
      (23, ''file or directory already exists''), (24, ''directory is not empty'')] err"

text \<open>
  \<open>%s\<close>: the characters of the string, as far as the precision admits, and the width that is left. The string is read from the
  memory as it is when each character's turn comes.
\<close>

definition alt_char :: "bool \<Rightarrow> char \<Rightarrow> char" where
  "alt_char alt ch = (if alt \<and> (of_char ch < (32 :: nat) \<or> of_char ch > (126 :: nat)) then CHR ''?'' else ch)"

partial_function (option) print_chars ::
    "(char \<Rightarrow> 's \<Rightarrow> 's) \<Rightarrow> ('s \<Rightarrow> memory) \<Rightarrow> bool \<Rightarrow> nat \<Rightarrow> int \<Rightarrow> int \<Rightarrow> 's \<Rightarrow> (int \<times> 's) option" where
  "print_chars putch look alt p prec w s =
     (let ch = look s p
      in if ch \<noteq> NUL \<and> (prec < 0 \<or> prec - 1 \<ge> 0)
         then do { w \<leftarrow> int32 (w - 1);
                   print_chars putch look alt (p + 1) (if prec < 0 then prec else prec - 1) w (putch (alt_char alt ch) s) }
         else Some (w, s))"

text \<open>\<open>width -= strnlen(p, precision)\<close> is computed in \<open>size_t\<close> and narrowed.\<close>

definition print_str :: "(char \<Rightarrow> 's \<Rightarrow> 's) \<Rightarrow> ('s \<Rightarrow> memory) \<Rightarrow> fspec \<Rightarrow> nat \<Rightarrow> 's \<Rightarrow> 's option" where
  "print_str putch look sp p s =
     do { let (w, s) = (if width sp > 0 \<and> padc sp \<noteq> CHR ''-''
            then (let w = sint (of_int (width sp - int (strnlen (look s) p (unat (of_int (precision sp) :: u64)))) :: u32)
                  in (min w 0, fold putch (replicate (nat w) (padc sp)) s))
            else (width sp, s));
          (w, s) \<leftarrow> print_chars putch look (altflag sp) p (precision sp) w s;
          Some (fold putch (replicate (nat w) CHR '' '') s) }"

text \<open>A literal of the code, in read-only memory.\<close>

definition literal :: "string \<Rightarrow> memory" where
  "literal xs = (\<lambda>i. if 0 < i \<and> i \<le> length xs then xs ! (i - 1) else NUL)"

text \<open>
  One conversion; \<open>pe\<close> prints the error message of an error number, by a nested call of \<open>printfmt\<close>.
\<close>

definition convert :: "(char \<Rightarrow> 's \<Rightarrow> 's) \<Rightarrow> ('s \<Rightarrow> memory) \<Rightarrow> (int \<Rightarrow> 's \<Rightarrow> 's option) \<Rightarrow> char \<Rightarrow> fspec \<Rightarrow> u64 \<Rightarrow> 's \<Rightarrow>
    ('s \<times> bool) option" where
  "convert putch look pe ch sp a s =
     (let number = (\<lambda>num base s. do { out \<leftarrow> printnum (unat num) base (width sp) (padc sp); Some (fold putch out s, True) })
      in if ch = CHR ''c'' then Some (putch (char_of (unat a)) s, True)
         else if ch = CHR ''e'' then do { s \<leftarrow> pe (sint (ucast a :: u32)) s; Some (s, True) }
         else if ch = CHR ''s''
         then do { s \<leftarrow> (if a = 0 then print_str putch (\<lambda>_. literal ''(null)'') sp 1 s else print_str putch look sp (unat a) s);
                   Some (s, True) }
         else if ch = CHR ''d''
         then (let num = getint a (lflag sp)
               in if sint num < 0
                  then (if num = 2 ^ 63 then None else number (- num) 10 (putch CHR ''-'' s))
                  else number num 10 s)
         else if ch = CHR ''u'' then number (getuint a (lflag sp)) 10 s
         else if ch = CHR ''o'' then number (getuint a (lflag sp)) 8 s
         else if ch = CHR ''p'' then number a 16 (putch CHR ''x'' (putch CHR ''0'' s))
         else if ch = CHR ''x'' then number (getuint a (lflag sp)) 16 s
         else Some (putch CHR ''%'' s, False))"

subsection \<open>\<open>vprintfmt\<close>\<close>

function format_loop :: "(char \<Rightarrow> 's \<Rightarrow> 's) \<Rightarrow> ('s \<Rightarrow> memory) \<Rightarrow> (int \<Rightarrow> 's \<Rightarrow> 's option) \<Rightarrow> string \<Rightarrow> (nat \<Rightarrow> u64) \<Rightarrow> nat \<Rightarrow> 's \<Rightarrow>
    's option" where
  "format_loop putch look pe [] args k s = Some s"
| "format_loop putch look pe (c # cs) args k s =
     (if c \<noteq> CHR ''%'' then format_loop putch look pe cs args k (putch c s)
      else (case reswitch cs fspec0 args k of
              None \<Rightarrow> None
            | Some (None, _, _, k') \<Rightarrow> format_loop putch look pe cs args k' (putch CHR ''%'' s)
            | Some (Some ch, cs', sp, k') \<Rightarrow>
                (case convert putch look pe ch sp (args k') s of
                   None \<Rightarrow> None
                 | Some (s, used) \<Rightarrow> format_loop putch look pe cs' args (if used then k' + 1 else k') s)))"
  by pat_completeness auto
termination
  by (relation "measure (\<lambda>(putch, look, pe, cs, args, k, s). length cs)") (auto dest!: reswitch_less)

text \<open>The nested call: \<open>error %d\<close> for a number without a message, else the message.\<close>

definition print_error :: "(char \<Rightarrow> 's \<Rightarrow> 's) \<Rightarrow> int \<Rightarrow> 's \<Rightarrow> 's option" where
  "print_error putch err s =
     do { err \<leftarrow> (if err < 0 then int32 (- err) else Some err);
          case (if err > MAXERROR then None else error_string err) of
            None \<Rightarrow> format_loop putch (\<lambda>_. literal []) (\<lambda>_ _. None) ''error %d'' (\<lambda>_. of_int err) 0 s
          | Some p \<Rightarrow> format_loop putch (\<lambda>_. literal p) (\<lambda>_ _. None) ''%s'' (\<lambda>_. 1) 0 s }"

definition vprintfmt :: "(char \<Rightarrow> 's \<Rightarrow> 's) \<Rightarrow> ('s \<Rightarrow> memory) \<Rightarrow> string \<Rightarrow> (nat \<Rightarrow> u64) \<Rightarrow> 's \<Rightarrow> 's option" where
  "vprintfmt putch look fmt args s = format_loop putch look (print_error putch) fmt args 0 s"

subsection \<open>Printing into a buffer\<close>

text \<open>Pointers and \<open>size_t\<close> are 64 bits, the count an \<open>int\<close>.\<close>

record sprintbuf =
  sb_buf :: u64
  sb_ebuf :: u64
  sb_cnt :: u32

definition sprintputch :: "char \<Rightarrow> memory \<times> sprintbuf \<Rightarrow> memory \<times> sprintbuf" where
  "sprintputch ch s =
     (case s of (m, b) \<Rightarrow>
        (let b = b\<lparr>sb_cnt := sb_cnt b + 1\<rparr>
         in if sb_buf b < sb_ebuf b then (m(unat (sb_buf b) := ch), b\<lparr>sb_buf := sb_buf b + 1\<rparr>) else (m, b)))"

definition vsnprintf :: "memory \<Rightarrow> u64 \<Rightarrow> u64 \<Rightarrow> string \<Rightarrow> (nat \<Rightarrow> u64) \<Rightarrow> (memory \<times> int) option" where
  "vsnprintf m str sz fmt args =
     (let b = \<lparr>sb_buf = str, sb_ebuf = str + sz - 1, sb_cnt = 0\<rparr>
      in if str = 0 \<or> sb_buf b > sb_ebuf b then Some (m, - E_INVAL)
         else do { (m, b) \<leftarrow> vprintfmt sprintputch fst fmt args (m, b);
                   Some (m(unat (sb_buf b) := NUL), sint (sb_cnt b)) })"

definition snprintf :: "memory \<Rightarrow> u64 \<Rightarrow> u64 \<Rightarrow> string \<Rightarrow> u64 list \<Rightarrow> (memory \<times> int) option" where
  "snprintf m str sz fmt args = vsnprintf m str sz fmt (\<lambda>i. if i < length args then args ! i else 0)"

subsection \<open>Digits\<close>

definition digits_value :: "nat \<Rightarrow> nat list \<Rightarrow> nat" where
  "digits_value base ds = foldl (\<lambda>v d. v * base + d) 0 ds"

text \<open>\<open>printnum\<close> prints the digits of the number, padded on the left to the width.\<close>

lemma int32_Some [simp]: "- (2 ^ 31) \<le> x \<Longrightarrow> x < 2 ^ 31 \<Longrightarrow> int32 x = Some x"
  by (simp add: int32_def)

lemma printnum_power:
  assumes "2 \<le> base" and "num < base ^ k" and "- (2 ^ 31) + int k \<le> w" and "w < 2 ^ 31" and "0 < k"
  shows "\<exists>ds. printnum num base w c = Some (replicate (nat (w - int (length ds))) c @ map digit_char ds)
    \<and> (\<forall>d \<in> set ds. d < base) \<and> digits_value base ds = num \<and> ds \<noteq> []"
  using assms(2-)
proof (induction k arbitrary: num w)
  case (Suc k)
  have w: "int32 (w - 1) = Some (w - 1)" using Suc.prems by simp
  show ?case
  proof (cases "num \<ge> base")
    case True
    then have k: "0 < k" using Suc.prems by (cases k) auto
    have "num div base < base ^ k" using Suc.prems(1) assms(1) by (intro less_mult_imp_div_less) (simp add: mult.commute)
    from Suc.IH [OF this, of "w - 1"] Suc.prems k obtain ds where
      ds: "printnum (num div base) base (w - 1) c = Some (replicate (nat (w - 1 - int (length ds))) c @ map digit_char ds)"
      "\<forall>d \<in> set ds. d < base" "digits_value base ds = num div base" "ds \<noteq> []" by auto
    have "printnum num base w c
        = Some (replicate (nat (w - int (length (ds @ [num mod base])))) c @ map digit_char (ds @ [num mod base]))"
      using True ds(1) w by (subst printnum.simps) (simp add: algebra_simps)
    moreover have "digits_value base (ds @ [num mod base]) = num" using ds(3) by (simp add: digits_value_def)
    ultimately show ?thesis using ds(2) assms(1) by (intro exI [of _ "ds @ [num mod base]"]) auto
  next
    case False
    then have "printnum num base w c = Some (replicate (nat (w - int (length [num]))) c @ map digit_char [num])"
      using w by (subst printnum.simps) simp
    with False show ?thesis by (intro exI [of _ "[num]"]) (auto simp: digits_value_def)
  qed
qed simp

lemma printnum_digits:
  assumes "2 \<le> base" and "num < 2 ^ 64" and "- (2 ^ 31) + 64 \<le> w" and "w < 2 ^ 31"
  shows "\<exists>ds. printnum num base w c = Some (replicate (nat (w - int (length ds))) c @ map digit_char ds)
    \<and> (\<forall>d \<in> set ds. d < base) \<and> digits_value base ds = num \<and> ds \<noteq> []"
proof -
  have "(2 :: nat) ^ 64 \<le> base ^ 64" using assms(1) by (rule power_mono) simp
  then have "num < base ^ 64" using assms(2) by linarith
  then show ?thesis using printnum_power [OF assms(1), of num 64 w c] assms(3,4) by simp
qed

lemma digit_char_value: "d < 16 \<Longrightarrow> digit_value (digit_char d) = Some (int d)"
  by (simp add: digit_char_def digit_value_def numeral_eq_Suc less_Suc_eq_0_disj Let_def) auto

lemma digit_char_plain:
  "d < 16 \<Longrightarrow> digit_char d \<noteq> NUL \<and> digit_char d \<noteq> CHR '' '' \<and> digit_char d \<noteq> CHR 0x09
     \<and> digit_char d \<noteq> CHR ''+'' \<and> digit_char d \<noteq> CHR ''-'' \<and> digit_char d \<noteq> CHR ''x''"
  by (simp add: digit_char_def numeral_eq_Suc less_Suc_eq_0_disj) auto

text \<open>\<open>strtol\<close> reads back what \<open>printnum\<close> printed.\<close>

lemma strtol_digits_cstr:
  assumes "cstr m s (map digit_char ds)" and "\<forall>d \<in> set ds. d < base" and "base \<le> 16"
  shows "strtol_digits m s (int base) v = Some (s + length ds, foldl (\<lambda>v d. v * of_nat base + of_nat d) v ds)"
  using assms
proof (induction ds arbitrary: s v)
  case Nil
  then show ?case by (subst strtol_digits.simps) (simp add: digit_value_def)
next
  case (Cons d ds)
  then have "digit_value (m s) = Some (int d)" "cstr m (s + 1) (map digit_char ds)" "d < base"
    using digit_char_value [of d] by auto
  with Cons.IH [OF this(2)] Cons.prems show ?case
    by (subst strtol_digits.simps) simp
qed

lemma of_nat_foldl:
  "foldl (\<lambda>v d. v * of_nat base + of_nat d) (of_nat v) ds = (of_nat (foldl (\<lambda>v d. v * base + d) v ds) :: 'a :: len word)"
proof (induction ds arbitrary: v)
  case (Cons d ds)
  have "foldl (\<lambda>v d. v * of_nat base + of_nat d) (of_nat v) (d # ds)
    = foldl (\<lambda>v d. v * of_nat base + of_nat d) (of_nat (v * base + d) :: 'a word) ds" by simp
  also note Cons.IH [of "v * base + d"]
  finally show ?case by (simp only: foldl.simps)
qed simp

lemma skip_blanks_cstr:
  "cstr m s (replicate n CHR '' '' @ xs) \<Longrightarrow> xs \<noteq> [] \<Longrightarrow> hd xs \<noteq> CHR '' '' \<Longrightarrow> hd xs \<noteq> CHR 0x09 \<Longrightarrow>
     skip_blanks m s = Some (s + n) \<and> cstr m (s + n) xs"
proof (induction n arbitrary: s)
  case 0
  then show ?case by (subst skip_blanks.simps) (cases xs, auto)
next
  case (Suc n)
  with Suc.IH [of "s + 1"] show ?case by (subst skip_blanks.simps) auto
qed

lemma strtol_plain:
  assumes m: "cstr m s (replicate n CHR '' '' @ map digit_char ds)" and ds: "\<forall>d \<in> set ds. d < base" "ds \<noteq> []"
    and base: "1 \<le> base" "base \<le> 16" and val: "digits_value base ds < 2 ^ 63"
  shows "strtol m s (int base) = Some (int (digits_value base ds), s + n + length ds)"
proof -
  obtain d ds' where dd: "ds = d # ds'" using ds(2) by (cases ds) auto
  then have p: "digit_char d \<noteq> CHR '' ''" "digit_char d \<noteq> CHR 0x09" "digit_char d \<noteq> CHR ''+''" "digit_char d \<noteq> CHR ''-''"
    using ds base digit_char_plain [of d] by auto
  have sk: "skip_blanks m s = Some (s + n)" "cstr m (s + n) (map digit_char ds)"
    using skip_blanks_cstr [OF m] dd p by auto
  have nx: "m (s + n + 1) \<noteq> CHR ''x''"
  proof (cases ds')
    case (Cons e es)
    then show ?thesis using sk(2) dd ds base digit_char_plain [of e] by auto
  qed (use sk(2) dd in auto)
  have ms: "m (s + n) = digit_char d" using sk(2) dd by simp
  have b: "strtol_base m (s + n) (int base) = (s + n, int base)" using nx base by (simp add: strtol_base_def)
  have r: "strtol_digits m (s + n) (int base) 0 = Some (s + n + length ds, of_nat (digits_value base ds))"
    using strtol_digits_cstr [OF sk(2) ds(1) base(2), of 0] of_nat_foldl [of base 0 ds]
    by (simp add: digits_value_def)
  have v: "sint (of_nat (digits_value base ds) :: u64) = int (digits_value base ds)"
    using val by (simp add: sint_uint unsigned_of_nat take_bit_nat_eq_self signed_take_bit_int_eq_self)
  show ?thesis using sk(1) ms p b r v by (simp add: strtol_def)
qed

subsection \<open>Properties\<close>

text \<open>
  Numbers survive a round trip: what \<open>printnum\<close> prints in base 8, 10 or 16, padded with blanks or
  zeros to any width, \<open>strtol\<close> reads back as the same number, up to the last character, for every
  number that a \<open>long\<close> can hold.
\<close>

theorem print_parse_roundtrip:
  assumes "base \<in> {8, 10, 16}" and "pad \<in> {CHR '' '', CHR ''0''}" and "num < 2 ^ 63"
    and w: "- (2 ^ 31) + 64 \<le> w" "w < 2 ^ 31" and printed: "printnum num base w pad = Some out" and out: "cstr m s out"
  shows "strtol m s (int base) = Some (int num, s + length out)"
proof -
  have b: "2 \<le> base" "1 \<le> base" "base \<le> 16" using assms(1) by auto
  obtain ds where ds: "out = replicate (nat (w - int (length ds))) pad @ map digit_char ds"
    "\<forall>d \<in> set ds. d < base" "digits_value base ds = num" "ds \<noteq> []"
    using printnum_digits [OF b(1), of num w pad] assms(3) w printed by auto
  let ?n = "nat (w - int (length ds))"
  show ?thesis
  proof (cases "pad = CHR '' ''")
    case True
    with strtol_plain [of m s ?n ds base] ds b assms(3) out show ?thesis by simp
  next
    case False
    let ?ds = "replicate ?n 0 @ ds"
    have "pad = digit_char 0" using False assms(2) by (simp add: digit_char_def)
    then have "cstr m s (replicate 0 CHR '' '' @ map digit_char ?ds)" using out ds(1) by simp
    moreover have "foldl (\<lambda>v d. v * base + d) 0 (replicate k 0) = 0" for k by (induction k) auto
    then have "digits_value base ?ds = num" using ds(3) by (simp add: digits_value_def)
    moreover have "\<forall>d \<in> set ?ds. d < base" "?ds \<noteq> []" using ds b by auto
    ultimately show ?thesis using strtol_plain [of m s 0 ?ds base] b assms(3) ds(1) by simp
  qed
qed

theorem print_parse_roundtrip_witness:
  "printnum 255 16 6 CHR ''0'' = Some ''0000ff''
   \<and> strtol (\<lambda>i. if i < 6 then ''0000ff'' ! i else NUL) 0 16 = Some (255, 6)"
proof -
  have "replicate 4 CHR ''0'' = ''0000''" by (simp add: numeral_eq_Suc)
  then have p: "printnum 255 16 6 CHR ''0'' = Some ''0000ff''"
    by (simp add: printnum.simps [of 255] printnum.simps [of 15] digit_char_def int32_def)
  have "cstr (\<lambda>i. if i < 6 then ''0000ff'' ! i else NUL) 0 ''0000ff''" by simp
  from print_parse_roundtrip [OF _ _ _ _ _ p this] p show ?thesis by simp
qed

subsection \<open>What is printed\<close>

text \<open>The characters of one conversion, as a function of the memory the strings are read from.\<close>

definition prec_take :: "int \<Rightarrow> string \<Rightarrow> string" where
  "prec_take prec p = (if prec < 0 then p else take (nat prec) p)"

definition str_text :: "fspec \<Rightarrow> string \<Rightarrow> string" where
  "str_text sp t =
     (let u = prec_take (precision sp) t;
          pad = replicate (nat (width sp - int (length u)))
      in (if width sp > 0 \<and> padc sp \<noteq> CHR ''-'' then pad (padc sp) else []) @ map (alt_char (altflag sp)) u
         @ (if width sp > 0 \<and> padc sp \<noteq> CHR ''-'' then [] else pad CHR '' ''))"

definition num_text :: "fspec \<Rightarrow> u64 \<Rightarrow> nat \<Rightarrow> string" where
  "num_text sp num base = the (printnum (unat num) base (width sp) (padc sp))"

definition err_text :: "int \<Rightarrow> string" where
  "err_text err =
     (let err = \<bar>err\<bar>
      in case (if err > MAXERROR then None else error_string err) of
           None \<Rightarrow> ''error '' @ (let num = getint (of_int err) 0 in (if sint num < 0 then ''-'' @ num_text fspec0 (- num) 10 else num_text fspec0 num 10))
         | Some p \<Rightarrow> p)"

definition cstring :: "memory \<Rightarrow> nat \<Rightarrow> string" where
  "cstring m a = map (\<lambda>i. m (a + i)) [0..<the (strlen m a)]"

definition conv_text :: "memory \<Rightarrow> char \<Rightarrow> fspec \<Rightarrow> u64 \<Rightarrow> string" where
  "conv_text m ch sp a =
     (if ch = CHR ''c'' then [char_of (unat a)]
      else if ch = CHR ''e'' then err_text (sint (ucast a :: u32))
      else if ch = CHR ''s'' then str_text sp (if a = 0 then ''(null)'' else cstring m (unat a))
      else if ch = CHR ''d''
      then (let num = getint a (lflag sp) in if sint num < 0 then ''-'' @ num_text sp (- num) 10 else num_text sp num 10)
      else if ch = CHR ''u'' then num_text sp (getuint a (lflag sp)) 10
      else if ch = CHR ''o'' then num_text sp (getuint a (lflag sp)) 8
      else if ch = CHR ''p'' then ''0x'' @ num_text sp a 16
      else if ch = CHR ''x'' then num_text sp (getuint a (lflag sp)) 16
      else ''%'')"

text \<open>The conversions of a format, with their flags and arguments; \<open>None\<close> when a width of the format overflows.\<close>

function escapes :: "string \<Rightarrow> (nat \<Rightarrow> u64) \<Rightarrow> nat \<Rightarrow> (char \<times> fspec \<times> u64) list option" where
  "escapes [] args k = Some []"
| "escapes (c # cs) args k =
     (if c \<noteq> CHR ''%'' then escapes cs args k
      else (case reswitch cs fspec0 args k of
              None \<Rightarrow> None
            | Some (None, _, _, k') \<Rightarrow> escapes cs args k'
            | Some (Some ch, cs', sp, k') \<Rightarrow>
                do { es \<leftarrow> escapes cs' args (if ch = CHR ''%'' then k' else k' + 1); Some ((ch, sp, args k') # es) }))"
  by pat_completeness auto
termination by (relation "measure (\<lambda>(cs, args, k). length cs)") (auto dest!: reswitch_less)

text \<open>
  What a conversion asks of its flags and argument: a width that is an \<open>int\<close> and not near its least value, a terminated string away from
  the addresses \<open>B\<close> that the printing writes, a number that can be negated.
\<close>

definition escape_ok :: "memory \<Rightarrow> nat set \<Rightarrow> char \<times> fspec \<times> u64 \<Rightarrow> bool" where
  "escape_ok m B = (\<lambda>(ch, sp, a). - (2 ^ 30) \<le> width sp \<and> width sp < 2 ^ 31 \<and> - (2 ^ 31) \<le> precision sp \<and> precision sp < 2 ^ 31
     \<and> (ch = CHR ''s'' \<longrightarrow> a \<noteq> 0 \<longrightarrow>
          (\<exists>t. cstr m (unat a) t \<and> length t < 2 ^ 30 \<and> {unat a..unat a + length t} \<inter> B = {}))
     \<and> (ch = CHR ''d'' \<longrightarrow> getint a (lflag sp) \<noteq> 2 ^ 63) \<and> (ch = CHR ''e'' \<longrightarrow> (ucast a :: u32) \<noteq> 2 ^ 31))"

text \<open>The printing writes only addresses of \<open>B\<close>.\<close>

definition writes_in :: "(char \<Rightarrow> 's \<Rightarrow> 's) \<Rightarrow> ('s \<Rightarrow> memory) \<Rightarrow> memory \<Rightarrow> nat set \<Rightarrow> 's \<Rightarrow> bool" where
  "writes_in putch look m B s = (\<forall>out i. i \<notin> B \<longrightarrow> look (fold putch out s) i = m i)"

lemma writes_in_fold: "writes_in putch look m B s \<Longrightarrow> writes_in putch look m B (fold putch out s)"
  unfolding writes_in_def by (metis fold_append comp_apply)

lemma writes_in_putch: "writes_in putch look m B s \<Longrightarrow> writes_in putch look m B (putch c s)"
  using writes_in_fold [of putch look m B s "[c]"] by simp

lemma writes_in_look: "writes_in putch look m B s \<Longrightarrow> i \<notin> B \<Longrightarrow> look s i = m i"
  unfolding writes_in_def by (metis fold_simps(1))

lemma alt_char_False [simp]: "alt_char False = (\<lambda>c. c)"
  by (simp add: alt_char_def fun_eq_iff)

lemma print_chars_text:
  assumes "cstr m p t" and "{p..p + length t} \<inter> B = {}" and "writes_in putch look m B s"
    and "- (2 ^ 31) \<le> w - int (length (prec_take prec t))" and "w < 2 ^ 31"
  shows "print_chars putch look alt p prec w s =
    Some (w - int (length (prec_take prec t)), fold putch (map (alt_char alt) (prec_take prec t)) s)"
  using assms
proof (induction t arbitrary: p prec w s)
  case Nil
  then have "look s p = NUL" using writes_in_look [OF Nil.prems(3)] by auto
  then show ?case by (subst print_chars.simps) (simp add: prec_take_def)
next
  case (Cons c t)
  have c: "look s p = c" "c \<noteq> NUL" using Cons.prems(1) writes_in_look [OF Cons.prems(3), of p] disjoint_iff [THEN iffD1, OF Cons.prems(2)] by auto
  have "{p + 1..p + 1 + length t} \<subseteq> {p..p + length (c # t)}" by auto
  then have away: "{p + 1..p + 1 + length t} \<inter> B = {}" using Cons.prems(2) by blast
  show ?case
  proof (cases "prec = 0")
    case True
    then show ?thesis by (subst print_chars.simps) (simp add: prec_take_def)
  next
    case False
    let ?prec = "if prec < 0 then prec else prec - 1"
    have take: "prec_take prec (c # t) = c # prec_take ?prec t" using False by (auto simp: prec_take_def take_Cons' nat_diff_distrib)
    have "int32 (w - 1) = Some (w - 1)" using Cons.prems(4,5) take by simp
    moreover have "print_chars putch look alt (p + 1) ?prec (w - 1) (putch (alt_char alt c) s) =
      Some (w - 1 - int (length (prec_take ?prec t)), fold putch (map (alt_char alt) (prec_take ?prec t)) (putch (alt_char alt c) s))"
      by (intro Cons.IH writes_in_putch away) (use Cons.prems take in auto)
    ultimately show ?thesis using c False by (subst print_chars.simps) (auto simp: take Let_def)
  qed
qed

lemma strnlen_text:
  assumes "cstr m p t" and "length t < 2 ^ 30" and "- (2 ^ 31) \<le> prec" and "prec < 2 ^ 31"
  shows "strnlen m p (unat (of_int prec :: u64)) = length (prec_take prec t)"
proof (cases "prec < 0")
  case True
  have "unat (of_int prec :: u64) = nat (prec mod 2 ^ 64)" by (simp add: unat_eq_nat_uint uint_word_of_int)
  also have "prec mod 2 ^ 64 = prec + 2 ^ 64" using True assms(3) by (subst mod_add_self2 [symmetric], intro mod_pos_pos_trivial) auto
  finally show ?thesis using True assms by (simp add: strnlen_cstr prec_take_def)
next
  case False
  then have "unat (of_int prec :: u64) = nat prec" using assms(4)
    by (simp add: unat_eq_nat_uint uint_word_of_int)
  then show ?thesis using False assms(1) by (simp add: strnlen_cstr prec_take_def min.commute)
qed

lemma sint_of_int_small: "- (2 ^ 31) \<le> x \<Longrightarrow> x < 2 ^ 31 \<Longrightarrow> sint (of_int x :: u32) = x"
  by (simp add: signed_of_int signed_take_bit_int_eq_self)

lemma print_str_text:
  assumes t: "cstr m p t" "{p..p + length t} \<inter> B = {}" "length t < 2 ^ 30" and s: "writes_in putch look m B s"
    and w: "- (2 ^ 30) \<le> width sp" "width sp < 2 ^ 31" and prec: "- (2 ^ 31) \<le> precision sp" "precision sp < 2 ^ 31"
  shows "print_str putch look sp p s = Some (fold putch (str_text sp t) s)"
proof -
  let ?u = "prec_take (precision sp) t"
  let ?w = "width sp - int (length ?u)"
  have u: "length ?u \<le> length t" by (simp add: prec_take_def)
  have ls: "cstr (look s) p t" using t(1) writes_in_look [OF s] disjoint_iff [THEN iffD1, OF t(2)] cstr_frame [of p t "look s" m] by auto
  have n: "strnlen (look s) p (unat (of_int (precision sp) :: u64)) = length ?u" by (rule strnlen_text) fact+
  show ?thesis
  proof (cases "width sp > 0 \<and> padc sp \<noteq> CHR ''-''")
    case True
    have "sint (of_int ?w :: u32) = ?w"
      by (rule sint_of_int_small) (use True w u t(3) in auto)
    moreover have "print_chars putch look (altflag sp) p (precision sp) (min ?w 0) (fold putch (replicate (nat ?w) (padc sp)) s) =
      Some (min ?w 0 - int (length ?u), fold putch (map (alt_char (altflag sp)) ?u) (fold putch (replicate (nat ?w) (padc sp)) s))"
      by (rule print_chars_text [OF t(1,2)]) (use writes_in_fold [OF s] w u t(3) True in \<open>auto simp del: fold_replicate\<close>)
    ultimately show ?thesis using True n by (simp add: print_str_def str_text_def Let_def)
  next
    case False
    have "print_chars putch look (altflag sp) p (precision sp) (width sp) s = Some (?w, fold putch (map (alt_char (altflag sp)) ?u) s)"
      by (rule print_chars_text [OF t(1,2) s]) (use w u t(3) in auto)
    then show ?thesis using False by (auto simp: print_str_def str_text_def Let_def)
  qed
qed

lemma literal_cstr [simp]: "NUL \<notin> set xs \<Longrightarrow> cstr (literal xs) (Suc 0) xs"
proof -
  assume z: "NUL \<notin> set xs"
  have "cstr (literal xs) (k + 1) (drop k xs)" if "k \<le> length xs" for k
    using that
  proof (induction "length xs - k" arbitrary: k)
    case 0
    then show ?case by (simp add: literal_def)
  next
    case (Suc n)
    then have k: "k < length xs" by linarith
    then have "drop k xs = xs ! k # drop (k + 1) xs" by (simp add: Cons_nth_drop_Suc)
    moreover have "xs ! k \<noteq> NUL" using k z nth_mem by metis
    moreover have "cstr (literal xs) (k + 1 + 1) (drop (k + 1) xs)" using Suc.hyps(1) [of "k + 1"] Suc.hyps(2) k by simp
    ultimately show ?case using k by (simp add: literal_def)
  qed
  from this [of 0] show ?thesis by simp
qed

lemma print_literal:
  assumes "NUL \<notin> set xs" and "length xs < 2 ^ 30" and "- (2 ^ 30) \<le> width sp" "width sp < 2 ^ 31"
    and "- (2 ^ 31) \<le> precision sp" "precision sp < 2 ^ 31"
  shows "print_str putch (\<lambda>_. literal xs) sp 1 s = Some (fold putch (str_text sp xs) s)"
  by (rule print_str_text [where B = "{}" and m = "literal xs"]) (use assms in \<open>auto simp: writes_in_def\<close>)

lemma printnum_text:
  assumes "2 \<le> base" and "- (2 ^ 30) \<le> width sp" and "width sp < 2 ^ 31"
  shows "printnum (unat (num :: u64)) base (width sp) (padc sp) = Some (num_text sp num base)"
proof -
  have "unat num < 2 ^ 64" using unsigned_less [of num] by simp
  from printnum_digits [OF assms(1) this, of "width sp" "padc sp"] show ?thesis using assms(2,3) by (auto simp: num_text_def)
qed

lemma error_string_plain:
  assumes "error_string e = Some p"
  shows "NUL \<notin> set p \<and> length p < 2 ^ 30"
  using assms by (auto simp: error_string_def split: if_splits)

lemma convert_number:
  assumes "- (2 ^ 30) \<le> width sp" and "width sp < 2 ^ 31"
  shows "convert putch look pe CHR ''d'' sp a s = (if getint a (lflag sp) = 2 ^ 63 then None
      else Some (fold putch (let num = getint a (lflag sp) in if sint num < 0 then ''-'' @ num_text sp (- num) 10 else num_text sp num 10) s, True))"
    and "convert putch look pe CHR ''u'' sp a s = Some (fold putch (num_text sp (getuint a (lflag sp)) 10) s, True)"
    and "convert putch look pe CHR ''o'' sp a s = Some (fold putch (num_text sp (getuint a (lflag sp)) 8) s, True)"
    and "convert putch look pe CHR ''x'' sp a s = Some (fold putch (num_text sp (getuint a (lflag sp)) 16) s, True)"
    and "convert putch look pe CHR ''p'' sp a s = Some (fold putch (''0x'' @ num_text sp a 16) s, True)"
proof -
  have min: "sint (2 ^ 63 :: u64) < 0" by simp
  note nt = printnum_text [OF _ assms]
  show "convert putch look pe CHR ''d'' sp a s = (if getint a (lflag sp) = 2 ^ 63 then None
      else Some (fold putch (let num = getint a (lflag sp) in if sint num < 0 then ''-'' @ num_text sp (- num) 10 else num_text sp num 10) s, True))"
    using min by (auto simp: convert_def nt Let_def)
qed (simp_all add: convert_def printnum_text [OF _ assms])

lemma getint_int: "getint a 0 \<noteq> 2 ^ 63"
proof
  assume "getint a 0 = 2 ^ 63"
  then have "sint (scast (ucast a :: u32) :: u64) = sint (2 ^ 63 :: u64)" by (simp add: getint_def)
  moreover have "sint (scast (ucast a :: u32) :: u64) = sint (ucast a :: u32)" using sint_ge [of "ucast a :: u32"] sint_lt [of "ucast a :: u32"]
    by (simp add: signed_scast_eq signed_take_bit_int_eq_self)
  moreover have "sint (2 ^ 63 :: u64) = - (2 ^ 63)" by simp
  ultimately show False using sint_ge [of "ucast a :: u32"] by simp
qed

lemma format_plain: "c \<noteq> CHR ''%'' \<Longrightarrow> format_loop putch look pe (c # cs) args k s = format_loop putch look pe cs args k (putch c s)"
  by simp

lemma format_escape: "reswitch cs fspec0 args k = Some (Some ch, cs', sp, k') \<Longrightarrow>
    format_loop putch look pe (CHR ''%'' # cs) args k s =
      (case convert putch look pe ch sp (args k') s of
         None \<Rightarrow> None
       | Some (s, used) \<Rightarrow> format_loop putch look pe cs' args (if used then k' + 1 else k') s)"
  by simp

lemma print_error_text:
  assumes "- (2 ^ 31) < err" and "err < 2 ^ 31"
  shows "print_error putch err s = Some (fold putch (err_text err) s)"
proof -
  have abs: "(if err < 0 then int32 (- err) else Some err) = Some \<bar>err\<bar>" using assms by auto
  have d: "reswitch ''d'' fspec0 args 0 = Some (Some CHR ''d'', [], fspec0, 0)"
    and s: "reswitch ''s'' fspec0 args 0 = Some (Some CHR ''s'', [], fspec0, 0)" for args
    by (simp_all add: is_digit_def is_conversion_def)
  show ?thesis
  proof (cases "if \<bar>err\<bar> > MAXERROR then None else error_string \<bar>err\<bar>")
    case None
    have "getint (of_int \<bar>err\<bar>) 0 \<noteq> 2 ^ 63" by (rule getint_int)
    then show ?thesis
      using None abs by (simp add: print_error_def format_plain format_escape [OF d] convert_number err_text_def Let_def del: format_loop.simps(2))
  next
    case (Some p)
    then have p: "NUL \<notin> set p" "length p < 2 ^ 30" using error_string_plain by (auto split: if_splits)
    have "str_text fspec0 p = p" by (simp add: str_text_def prec_take_def alt_char_False Let_def)
    then have "convert putch (\<lambda>_. literal p) (\<lambda>_ _. None) CHR ''s'' fspec0 1 s = Some (fold putch p s, True)"
      using print_literal [OF p, of fspec0 putch s] by (simp add: convert_def)
    then show ?thesis
      using Some abs by (simp add: print_error_def format_escape [OF s] err_text_def Let_def del: format_loop.simps(2))
  qed
qed

lemma convert_text:
  assumes ok: "escape_ok m B (ch, sp, a)" and s: "writes_in putch look m B s" and ch: "is_conversion ch"
  shows "convert putch look (print_error putch) ch sp a s = Some (fold putch (conv_text m ch sp a) s, ch \<noteq> CHR ''%'')"
proof -
  have w: "- (2 ^ 30) \<le> width sp" "width sp < 2 ^ 31" "- (2 ^ 31) \<le> precision sp" "precision sp < 2 ^ 31"
    using ok by (auto simp: escape_ok_def)
  from ch consider "ch = CHR ''c''" | "ch = CHR ''e''" | "ch = CHR ''s''" | "ch = CHR ''d''" | "ch = CHR ''u''" | "ch = CHR ''o''"
    | "ch = CHR ''p''" | "ch = CHR ''x''" | "ch = CHR ''%''" by (auto simp: is_conversion_def)
  then show ?thesis
  proof cases
    case 2
    have "(2 ^ 31 :: u32) + 2 ^ 31 = 0" by simp
    then have eq: "of_int (- (2 ^ 31)) = (2 ^ 31 :: u32)" by (simp only: of_int_minus of_int_power of_int_numeral minus_unique)
    then have "(ucast a :: u32) \<noteq> of_int (- (2 ^ 31))" using ok 2 unfolding eq by (simp add: escape_ok_def)
    moreover have "of_int (sint (ucast a :: u32)) = (ucast a :: u32)" by simp
    ultimately have "sint (ucast a :: u32) \<noteq> - (2 ^ 31)" by metis
    then have "- (2 ^ 31) < sint (ucast a :: u32)" "sint (ucast a :: u32) < 2 ^ 31"
      using sint_ge [of "ucast a :: u32"] sint_lt [of "ucast a :: u32"] by simp_all
    with 2 show ?thesis by (simp add: convert_def conv_text_def print_error_text)
  next
    case 3
    show ?thesis
    proof (cases "a = 0")
      case True
      have "print_str putch (\<lambda>_. literal ''(null)'') sp 1 s = Some (fold putch (str_text sp ''(null)'') s)"
        by (rule print_literal) (use w in auto)
      with True 3 show ?thesis by (simp add: convert_def conv_text_def)
    next
      case False
      then obtain t where t: "cstr m (unat a) t" "length t < 2 ^ 30" "{unat a..unat a + length t} \<inter> B = {}"
        using ok 3 by (auto simp: escape_ok_def)
      have "cstring m (unat a) = t"
        by (rule nth_equalityI) (use cstr_nonzero [OF t(1)] in \<open>simp_all add: cstring_def strlen_cstr [OF t(1)]\<close>)
      with print_str_text [OF t(1,3,2) s w] False 3 show ?thesis by (simp add: convert_def conv_text_def)
    qed
  next
    case 4
    with ok have "getint a (lflag sp) \<noteq> 2 ^ 63" by (simp add: escape_ok_def)
    with 4 show ?thesis by (simp add: convert_number(1) [OF w(1,2)] conv_text_def)
  qed (simp_all add: convert_number [OF w(1,2)] conv_text_def, simp_all add: convert_def)
qed

text \<open>
  The characters a format puts when the memory does not change. Whatever else \<open>putch\<close> does, it is called on the same characters, as
  long as the strings are left alone.
\<close>

definition printed :: "memory \<Rightarrow> string \<Rightarrow> (nat \<Rightarrow> u64) \<Rightarrow> string option" where
  "printed m fmt args = vprintfmt (\<lambda>c out. out @ [c]) (\<lambda>_. m) fmt args []"

lemma fold_snoc [simp]: "fold (\<lambda>c out. out @ [c]) xs out = out @ xs"
  by (induction xs arbitrary: out) auto

lemma reswitch_conversion: "reswitch cs sp args k = Some (Some ch, cs', sp', k') \<Longrightarrow> is_conversion ch"
  by (induction cs sp args k rule: reswitch.induct) (auto split: if_splits option.splits)

lemma format_text:
  assumes "escapes fmt args k = Some es" and "\<forall>e \<in> set es. escape_ok m B e" and "writes_in putch look m B s"
  shows "\<exists>out. format_loop (\<lambda>c out. out @ [c]) (\<lambda>_. m) (print_error (\<lambda>c out. out @ [c])) fmt args k out0 = Some (out0 @ out)
    \<and> format_loop putch look (print_error putch) fmt args k s = Some (fold putch out s)"
  using assms
proof (induction fmt arbitrary: k es out0 s rule: length_induct)
  case (1 fmt)
  note IH = "1.IH" [rule_format] and prems = "1.prems"
  show ?case
  proof (cases fmt)
    case Nil
    then show ?thesis by (intro exI [of _ "[]"]) simp
  next
    case (Cons c cs)
    have quiet: "writes_in (\<lambda>c out. out @ [c]) (\<lambda>_. m) m B out0" by (simp add: writes_in_def)
    show ?thesis
    proof (cases "c = CHR ''%''")
      case False
      then obtain out where "format_loop (\<lambda>c out. out @ [c]) (\<lambda>_. m) (print_error (\<lambda>c out. out @ [c])) cs args k (out0 @ [c]) = Some (out0 @ [c] @ out)"
        "format_loop putch look (print_error putch) cs args k (putch c s) = Some (fold putch out (putch c s))"
        using IH [of cs k es "putch c s" "out0 @ [c]"] prems Cons writes_in_putch by fastforce
      with Cons False show ?thesis by (intro exI [of _ "c # out"]) simp
    next
      case True
      then obtain o' cs' sp k' where r: "reswitch cs fspec0 args k = Some (o', cs', sp, k')"
        using Cons prems(1) by (cases "reswitch cs fspec0 args k") auto
      show ?thesis
      proof (cases o')
        case None
        then obtain out where "format_loop (\<lambda>c out. out @ [c]) (\<lambda>_. m) (print_error (\<lambda>c out. out @ [c])) cs args k' (out0 @ ''%'') = Some (out0 @ ''%'' @ out)"
          "format_loop putch look (print_error putch) cs args k' (putch CHR ''%'' s) = Some (fold putch out (putch CHR ''%'' s))"
          using IH [of cs k' es "putch CHR ''%'' s" "out0 @ ''%''"] Cons True r None prems writes_in_putch
          by fastforce
        with Cons True r None show ?thesis by (intro exI [of _ "''%'' @ out"]) simp
      next
        case (Some ch)
        let ?k = "if ch = CHR ''%'' then k' else k' + 1"
        let ?t = "conv_text m ch sp (args k')"
        obtain es' where es: "es = (ch, sp, args k') # es'" "escapes cs' args ?k = Some es'"
          using Cons True r Some prems(1) by (auto split: bind_split_asm)
        have conv: "is_conversion ch" using r Some reswitch_conversion by blast
        have ok: "escape_ok m B (ch, sp, args k')" using es(1) prems(2) by simp
        obtain out where "format_loop (\<lambda>c out. out @ [c]) (\<lambda>_. m) (print_error (\<lambda>c out. out @ [c])) cs' args ?k (out0 @ ?t) = Some ((out0 @ ?t) @ out)"
          "format_loop putch look (print_error putch) cs' args ?k (fold putch ?t s) = Some (fold putch out (fold putch ?t s))"
          using IH [of cs' ?k es' "fold putch ?t s" "out0 @ ?t"] Cons reswitch_less [OF r [unfolded Some]] es prems(2)
            writes_in_fold [OF prems(3)] by fastforce
        moreover have "(if ch \<noteq> CHR ''%'' then k' + 1 else k') = ?k" by simp
        ultimately show ?thesis
          using convert_text [OF ok prems(3) conv] convert_text [OF ok quiet conv] Cons True r Some
          by (intro exI [of _ "?t @ out"]) (simp del: format_loop.simps(2) add: format_escape)
      qed
    qed
  qed
qed

subsection \<open>The buffer\<close>

lemma sprintputch_fold:
  assumes "unat b0 \<le> unat e"
  shows "\<exists>m'. fold sprintputch out (m, \<lparr>sb_buf = b0, sb_ebuf = e, sb_cnt = n\<rparr>)
      = (m', \<lparr>sb_buf = b0 + of_nat (min (unat e - unat b0) (length out)), sb_ebuf = e, sb_cnt = n + of_nat (length out)\<rparr>)
    \<and> (\<forall>i. m' i = (if unat b0 \<le> i \<and> i < unat b0 + min (unat e - unat b0) (length out) then out ! (i - unat b0) else m i))"
  using assms
proof (induction out arbitrary: m b0 n)
  case (Cons c out)
  show ?case
  proof (cases "b0 < e")
    case True
    then have less: "unat b0 < unat e" by (simp add: word_less_nat_alt)
    have "unat e < 2 ^ 64" using unsigned_less [of e] by simp
    then have "unat b0 + 1 < 2 ^ 64" using less by linarith
    then have b1: "unat (b0 + 1) = unat b0 + 1" "unat b0 < unat e" using less by (simp_all add: unat_word_ariths(1))
    then have "unat (b0 + 1) \<le> unat e" by simp
    from Cons.IH [OF this, of "m(unat b0 := c)" "n + 1"] obtain m' where
      m': "fold sprintputch out (m(unat b0 := c), \<lparr>sb_buf = b0 + 1, sb_ebuf = e, sb_cnt = n + 1\<rparr>)
        = (m', \<lparr>sb_buf = b0 + 1 + of_nat (min (unat e - (unat b0 + 1)) (length out)), sb_ebuf = e, sb_cnt = n + 1 + of_nat (length out)\<rparr>)"
      "\<forall>i. m' i = (if unat b0 + 1 \<le> i \<and> i < unat b0 + 1 + min (unat e - (unat b0 + 1)) (length out) then out ! (i - (unat b0 + 1))
                   else (m(unat b0 := c)) i)" unfolding b1(1) by blast
    have min: "min (unat e - unat b0) (length (c # out)) = 1 + min (unat e - (unat b0 + 1)) (length out)" using b1(2) by auto
    have "sprintputch c (m, \<lparr>sb_buf = b0, sb_ebuf = e, sb_cnt = n\<rparr>)
      = (m(unat b0 := c), \<lparr>sb_buf = b0 + 1, sb_ebuf = e, sb_cnt = n + 1\<rparr>)" using True by (simp add: sprintputch_def)
    then show ?thesis unfolding min using m' by (intro exI [of _ m']) (auto simp: nth_Cons' algebra_simps)
  next
    case False
    with Cons.prems Cons.IH [of b0 m "n + 1"] show ?thesis
      by (auto simp: sprintputch_def word_less_nat_alt add.assoc)
  qed
next
  case Nil
  show ?case by (intro exI [of _ m]) auto
qed

text \<open>The test of \<open>vsnprintf\<close>: with \<open>str + size - 1\<close> computed at 64 bits.\<close>

lemma buffer_end:
  assumes "str \<noteq> (0 :: u64)"
  shows "str > str + sz - 1 \<longleftrightarrow> sz = 0 \<or> 2 ^ 64 < unat str + unat sz"
    and "\<not> str > str + sz - 1 \<Longrightarrow> unat (str + sz - 1) = unat str + unat sz - 1"
proof -
  have u: "unat str < 2 ^ 64" "unat sz < 2 ^ 64" "0 < unat str"
    using unsigned_less [of str] unsigned_less [of sz] assms by (simp_all add: unat_gt_0)
  have e: "unat (str + sz - 1) = (if sz = 0 \<or> unat str + unat sz \<le> 2 ^ 64 then unat str + unat sz - 1 else unat str + unat sz - 1 - 2 ^ 64)"
  proof -
    have minus_one: "(18446744073709551615 :: u64) = - 1" by simp
    have "unat (str + sz + 18446744073709551615) = (unat str + unat sz + (2 ^ 64 - 1)) mod 2 ^ 64"
      by (simp add: unat_word_ariths(1) mod_simps)
    then have "unat (str + sz - 1) = (unat str + unat sz + (2 ^ 64 - 1)) mod 2 ^ 64"
      unfolding minus_one by simp
    also have "unat str + unat sz + (2 ^ 64 - 1) = unat str + unat sz - 1 + 2 ^ 64" using u(3) by simp
    also have "(unat str + unat sz - 1 + 2 ^ 64) mod 2 ^ 64 = (unat str + unat sz - 1) mod 2 ^ 64" by simp
    finally show ?thesis using u by (auto simp: mod_if)
  qed
  have z: "sz = 0 \<longleftrightarrow> unat sz = 0" by (simp add: unat_eq_0)
  show iff: "str > str + sz - 1 \<longleftrightarrow> sz = 0 \<or> 2 ^ 64 < unat str + unat sz"
    unfolding word_less_nat_alt e z using u by auto
  then show "\<not> str > str + sz - 1 \<Longrightarrow> unat (str + sz - 1) = unat str + unat sz - 1" using e by auto
qed

text \<open>A format without \<open>%\<close> is printed as it stands.\<close>

lemma printed_plain: "CHR ''%'' \<notin> set fmt \<Longrightarrow> printed m fmt args = Some fmt"
proof -
  have "CHR ''%'' \<notin> set fmt \<Longrightarrow> format_loop (\<lambda>c out. out @ [c]) look pe fmt args k out = Some (out @ fmt)" for look pe k out
    by (induction fmt arbitrary: out) auto
  then show "CHR ''%'' \<notin> set fmt \<Longrightarrow> printed m fmt args = Some fmt" by (simp add: printed_def vprintfmt_def)
qed

text \<open>
  C18. \<open>vsnprintf\<close> never writes outside its buffer. Let the widths of the format be numbers an \<open>int\<close> holds, and each conversion's
  argument sound: a terminated string (shorter than \<open>2 ^ 30\<close>) that does not overlap the buffer for \<open>%s\<close>, no least number for \<open>%d\<close>
  and \<open>%e\<close>, no width below \<open>- 2 ^ 30\<close>. Then the format has a text, and if it is shorter than \<open>2 ^ 31\<close> characters \<open>vsnprintf\<close> returns: a null
  or empty buffer, or one whose end wraps around, is refused with \<open>E_INVAL\<close> and nothing is written; otherwise the longest prefix of the
  text that fits is stored and terminated, every other byte is left alone, and the length of the whole text is returned.
\<close>

theorem vsnprintf_bounded:
  fixes str sz :: u64
  assumes "escapes fmt args 0 = Some es" and "\<forall>e \<in> set es. escape_ok m {unat str..<unat str + unat sz} e"
  shows "\<exists>out. printed m fmt args = Some out \<and> (length out < 2 ^ 31 \<longrightarrow>
    (\<exists>m' r. vsnprintf m str sz fmt args = Some (m', r)
      \<and> (if str = 0 \<or> sz = 0 \<or> 2 ^ 64 < unat str + unat sz then m' = m \<and> r = - E_INVAL
         else let n = min (unat sz - 1) (length out)
              in r = int (length out) \<and> block m' (unat str) n = take n out \<and> m' (unat str + n) = NUL
               \<and> (\<forall>i. i < unat str \<or> unat str + n < i \<longrightarrow> m' i = m i))))"
proof (cases "str = 0 \<or> sz = 0 \<or> 2 ^ 64 < unat str + unat sz")
  case True
  then have "vsnprintf m str sz fmt args = Some (m, - E_INVAL)"
    using buffer_end(1) [of str sz] by (auto simp: vsnprintf_def Let_def)
  moreover have "\<exists>out. printed m fmt args = Some out"
    using format_text [OF assms(1), of m "{unat str..<unat str + unat sz}" "\<lambda>_ s. s" "\<lambda>_. m" "()" "[]"] assms(2)
    by (auto simp: printed_def vprintfmt_def writes_in_def)
  ultimately show ?thesis using True by auto
next
  case False
  let ?e = "str + sz - 1" and ?B = "{unat str..<unat str + unat sz}"
  let ?s = "(m, \<lparr>sb_buf = str, sb_ebuf = ?e, sb_cnt = 0\<rparr>)"
  have ok: "\<not> str > ?e" using False buffer_end(1) [of str sz] by blast
  have e: "unat ?e = unat str + unat sz - 1" using False ok by (intro buffer_end(2)) auto
  have sz: "0 < unat sz" using False by (simp add: unat_gt_0)
  have le: "unat str \<le> unat ?e" using e sz by simp
  have "writes_in sprintputch fst m ?B ?s"
    unfolding writes_in_def
  proof (intro allI impI)
    fix out i assume i: "i \<notin> ?B"
    from sprintputch_fold [OF le, of out m 0] obtain m' where
      "fst (fold sprintputch out ?s) = m'" "m' i = (if unat str \<le> i \<and> i < unat str + min (unat ?e - unat str) (length out) then out ! (i - unat str) else m i)" by force
    then show "fst (fold sprintputch out ?s) i = m i" using i e sz by auto
  qed
  from format_text [OF assms this, of "[]"] obtain out where
    out: "printed m fmt args = Some out" "vprintfmt sprintputch fst fmt args ?s = Some (fold sprintputch out ?s)"
    by (auto simp: printed_def vprintfmt_def)
  have "\<exists>m' r. vsnprintf m str sz fmt args = Some (m', r)
      \<and> (let n = min (unat sz - 1) (length out)
         in r = int (length out) \<and> block m' (unat str) n = take n out \<and> m' (unat str + n) = NUL
           \<and> (\<forall>i. i < unat str \<or> unat str + n < i \<longrightarrow> m' i = m i))" if short: "length out < 2 ^ 31"
  proof -
    let ?n = "min (unat sz - 1) (length out)"
    have n: "min (unat ?e - unat str) (length out) = ?n" using e sz by simp
    from sprintputch_fold [OF le, of out m 0] obtain m' where
      m': "fold sprintputch out ?s = (m', \<lparr>sb_buf = str + of_nat ?n, sb_ebuf = ?e, sb_cnt = of_nat (length out)\<rparr>)"
      "\<forall>i. m' i = (if unat str \<le> i \<and> i < unat str + ?n then out ! (i - unat str) else m i)" unfolding n by auto
    have "unat str + ?n < 2 ^ 64" using False sz by linarith
    then have p: "unat (str + of_nat ?n) = unat str + ?n"
      by (simp add: unat_word_ariths(1) unat_of_nat)
    have c: "sint (of_nat (length out) :: u32) = int (length out)"
      using sint_of_int_small [of "int (length out)"] short by simp
    have "vsnprintf m str sz fmt args = Some (m'(unat str + ?n := NUL), int (length out))"
      using False ok out(2) m'(1) p c by (simp add: vsnprintf_def Let_def)
    moreover have "block (m'(unat str + ?n := NUL)) (unat str) ?n = take ?n out"
      by (rule nth_equalityI) (use m'(2) in auto)
    ultimately show ?thesis using m'(2) by (auto simp: Let_def)
  qed
  with out(1) False show ?thesis by auto
qed

text \<open>The string \<open>ab\<close> at address 7 and the number 42, printed into three bytes.\<close>

abbreviation (input) demo_text :: memory where
  "demo_text \<equiv> (\<lambda>_. CHR ''#'')(7 := CHR ''a'', 8 := CHR ''b'', 9 := NUL)"

abbreviation (input) demo_args :: "nat \<Rightarrow> u64" where
  "demo_args \<equiv> \<lambda>k. if k = 0 then 7 else 42"

theorem vsnprintf_bounded_witness:
  "\<exists>m'. vsnprintf demo_text 100 4 ''%s=%d'' demo_args = Some (m', 5)
    \<and> block m' 100 3 = ''ab='' \<and> m' 103 = NUL \<and> m' 104 = CHR ''#''"
proof -
  have es: "escapes ''%s=%d'' demo_args 0 = Some [(CHR ''s'', fspec0, 7), (CHR ''d'', fspec0, 42)]"
    by (simp add: is_digit_def is_conversion_def)
  have ok: "\<forall>e \<in> set [(CHR ''s'', fspec0, 7), (CHR ''d'', fspec0, 42)]. escape_ok demo_text {unat (100 :: u64)..<unat (100 :: u64) + unat (4 :: u64)} e"
    by (auto simp: escape_ok_def getint_def intro!: exI [of _ "''ab''"])
  have n: "getint 42 0 = 42" by (simp add: getint_def)
  have out: "printed demo_text ''%s=%d'' demo_args = Some ''ab=42''"
    by (simp add: printed_def vprintfmt_def is_digit_def is_conversion_def convert_def Let_def print_str_def print_chars.simps n
        printnum.simps [of 42] printnum.simps [of 4] digit_char_def int32_def)
  from vsnprintf_bounded [OF es ok] out show ?thesis by (auto simp: Let_def numeral_3_eq_3)
qed

text \<open>The flag \<open>-\<close> does not pad a number on the right: it pads with dashes on the left.\<close>

lemma minus_flag_pads_with_dashes:
  "printed m ''%-5d'' (\<lambda>_. 42) = Some ''---42''"
proof -
  have "replicate 3 CHR ''-'' = ''---''" by (simp add: numeral_eq_Suc)
  moreover have "getint 42 0 = 42" by (simp add: getint_def)
  moreover have "read_width 0 CHR ''5'' ''d'' = Some (5, ''d'')" by (simp add: read_width.simps is_digit_def int32_def)
  ultimately show ?thesis
    by (simp add: printed_def vprintfmt_def is_digit_def is_conversion_def convert_def Let_def process_precision_def
        printnum.simps [of 42] printnum.simps [of 4] digit_char_def int32_def)
qed

end
