(* ===== verification/Vmm.thy ===== *)
theory Vmm
  imports Cstring
begin

section \<open>Virtual memory areas: \<open>kern/mm/vmm.c\<close>\<close>

text \<open>
  An address space is a list of areas in the order of \<open>mmap_list\<close>, with the one accessed last in
  \<open>mmap_cache\<close>. Addresses are 64-bit words. An area never changes once it is in the list, so that the
  pointers of the code are the areas themselves. The result of \<open>kmalloc\<close> is an argument. The page
  directory of an address space is the subject of \<open>Page_Table\<close>, its semaphore of \<open>Sync\<close>.
\<close>

subsection \<open>Data and constants\<close>

record vma =
  vm_start :: u64
  vm_end :: u64
  vm_flags :: u32

record mm =
  mmap_list :: "vma list"
  mmap_cache :: "vma option"
  map_count :: int
  mm_count :: int

abbreviation (input) VM_READ :: u32 where "VM_READ \<equiv> 1"
abbreviation (input) VM_WRITE :: u32 where "VM_WRITE \<equiv> 2"
abbreviation (input) VM_EXEC :: u32 where "VM_EXEC \<equiv> 4"
abbreviation (input) VM_STACK :: u32 where "VM_STACK \<equiv> 8"
abbreviation (input) PGSIZE :: u64 where "PGSIZE \<equiv> 4096"
abbreviation (input) USERBASE :: u64 where "USERBASE \<equiv> 0x200000"
abbreviation (input) USERTOP :: u64 where "USERTOP \<equiv> 0x80000000"
abbreviation (input) KERNBASE :: u64 where "KERNBASE \<equiv> 0xFFFFFFFFC0200000"
abbreviation (input) KERNTOP :: u64 where "KERNTOP \<equiv> 0xFFFFFFFFC8000000"

definition USER_ACCESS :: "u64 \<Rightarrow> u64 \<Rightarrow> bool" where
  "USER_ACCESS start e = (USERBASE \<le> start \<and> start < e \<and> e \<le> USERTOP)"

definition KERN_ACCESS :: "u64 \<Rightarrow> u64 \<Rightarrow> bool" where
  "KERN_ACCESS start e = (KERNBASE \<le> start \<and> start < e \<and> e \<le> KERNTOP)"

definition ROUNDDOWN :: "u64 \<Rightarrow> u64 \<Rightarrow> u64" where
  "ROUNDDOWN a n = a - a mod n"

definition ROUNDUP :: "u64 \<Rightarrow> u64 \<Rightarrow> u64" where
  "ROUNDUP a n = ROUNDDOWN (a + n - 1) n"

subsection \<open>Operations\<close>

definition mm_create :: "bool \<Rightarrow> mm option" where
  "mm_create kmalloc_ok = (if kmalloc_ok then Some \<lparr>mmap_list = [], mmap_cache = None, map_count = 0, mm_count = 0\<rparr> else None)"

definition set_mm_count :: "mm \<Rightarrow> int \<Rightarrow> mm" where
  "set_mm_count mm val = mm\<lparr>mm_count := val\<rparr>"

definition mm_count_inc :: "mm \<Rightarrow> mm \<times> int" where
  "mm_count_inc mm = (mm\<lparr>mm_count := mm_count mm + 1\<rparr>, mm_count mm + 1)"

definition mm_count_dec :: "mm \<Rightarrow> mm \<times> int" where
  "mm_count_dec mm = (mm\<lparr>mm_count := mm_count mm - 1\<rparr>, mm_count mm - 1)"

definition vma_create :: "bool \<Rightarrow> u64 \<Rightarrow> u64 \<Rightarrow> u32 \<Rightarrow> vma option" where
  "vma_create kmalloc_ok start e flags =
     (if kmalloc_ok then Some \<lparr>vm_start = start, vm_end = e, vm_flags = flags\<rparr> else None)"

fun find_area :: "vma list \<Rightarrow> u64 \<Rightarrow> vma option" where
  "find_area [] addr = None"
| "find_area (v # vs) addr = (if vm_start v \<le> addr \<and> addr < vm_end v then Some v else find_area vs addr)"

definition find_vma :: "mm \<Rightarrow> u64 \<Rightarrow> mm \<times> vma option" where
  "find_vma mm addr =
     (let found = (case mmap_cache mm of
                     Some v \<Rightarrow> if vm_start v \<le> addr \<and> vm_end v > addr then Some v else find_area (mmap_list mm) addr
                   | None \<Rightarrow> find_area (mmap_list mm) addr)
      in (case found of None \<Rightarrow> (mm, None) | Some v \<Rightarrow> (mm\<lparr>mmap_cache := Some v\<rparr>, Some v)))"

definition check_vma_overlap :: "vma \<Rightarrow> vma \<Rightarrow> unit option" where
  "check_vma_overlap prev next =
     do { kassert (vm_start prev < vm_end prev);
          kassert (vm_end prev \<le> vm_start next);
          kassert (vm_start next < vm_end next) }"

text \<open>The areas up to the insertion point, and those behind it.\<close>

fun insert_point :: "vma list \<Rightarrow> vma \<Rightarrow> vma list \<times> vma list" where
  "insert_point [] v = ([], [])"
| "insert_point (p # ps) v =
     (if vm_start p > vm_start v then ([], p # ps)
      else (let (before, behind) = insert_point ps v in (p # before, behind)))"

definition insert_vma_struct :: "mm \<Rightarrow> vma \<Rightarrow> mm option" where
  "insert_vma_struct mm v =
     do { kassert (vm_start v < vm_end v);
          let (before, behind) = insert_point (mmap_list mm) v;
          (if before \<noteq> [] then check_vma_overlap (last before) v else Some ());
          (if behind \<noteq> [] then check_vma_overlap v (hd behind) else Some ());
          Some (mm\<lparr>mmap_list := before @ v # behind, map_count := map_count mm + 1\<rparr>) }"

text \<open>\<open>mm_destroy\<close> takes the areas off the list one by one; the result is the order in which it frees them.\<close>

definition mm_destroy :: "mm \<Rightarrow> vma list option" where
  "mm_destroy mm = do { kassert (mm_count mm = 0); Some (mmap_list mm) }"

definition mm_map :: "bool \<Rightarrow> mm \<Rightarrow> u64 \<Rightarrow> u64 \<Rightarrow> u32 \<Rightarrow> (mm \<times> int \<times> vma option) option" where
  "mm_map kmalloc_ok mm addr len flags =
     (let start = ROUNDDOWN addr PGSIZE; e = ROUNDUP (addr + len) PGSIZE
      in if \<not> USER_ACCESS start e then Some (mm, - E_INVAL, None)
         else (let (mm, found) = find_vma mm start
               in if (case found of None \<Rightarrow> False | Some v \<Rightarrow> e > vm_start v) then Some (mm, - E_INVAL, None)
                  else (case vma_create kmalloc_ok start e flags of
                          None \<Rightarrow> Some (mm, - E_NO_MEM, None)
                        | Some v \<Rightarrow> do { mm \<leftarrow> insert_vma_struct mm v; Some (mm, 0, Some v) })))"

text \<open>
  \<open>dup_mmap\<close> walks the list from its end; \<open>copy\<close> is the result of \<open>copy_range\<close> for an area and \<open>alloc\<close>
  that of \<open>kmalloc\<close>.
\<close>

fun dup_areas :: "(vma \<Rightarrow> bool) \<Rightarrow> (vma \<Rightarrow> int) \<Rightarrow> mm \<Rightarrow> vma list \<Rightarrow> (mm \<times> int) option" where
  "dup_areas alloc copy to [] = Some (to, 0)"
| "dup_areas alloc copy to (v # vs) =
     (case vma_create (alloc v) (vm_start v) (vm_end v) (vm_flags v) of
        None \<Rightarrow> Some (to, - E_NO_MEM)
      | Some nvma \<Rightarrow>
          do { to \<leftarrow> insert_vma_struct to nvma;
               if copy v \<noteq> 0 then Some (to, - E_NO_MEM) else dup_areas alloc copy to vs })"

definition dup_mmap :: "(vma \<Rightarrow> bool) \<Rightarrow> (vma \<Rightarrow> int) \<Rightarrow> mm \<Rightarrow> mm \<Rightarrow> (mm \<times> int) option" where
  "dup_mmap alloc copy to from_mm = dup_areas alloc copy to (rev (mmap_list from_mm))"

subsection \<open>Access checks\<close>

text \<open>The loop of \<open>user_mem_check\<close>.\<close>

partial_function (option) check_areas :: "mm \<Rightarrow> u64 \<Rightarrow> u64 \<Rightarrow> bool \<Rightarrow> (mm \<times> bool) option" where
  "check_areas mm start e write =
     (if start < e
      then (case find_vma mm start of
              (mm, None) \<Rightarrow> Some (mm, False)
            | (mm, Some v) \<Rightarrow>
                if start < vm_start v then Some (mm, False)
                else if vm_flags v AND (if write then VM_WRITE else VM_READ) = 0 then Some (mm, False)
                else if write \<and> vm_flags v AND VM_STACK \<noteq> 0 \<and> start < vm_start v + PGSIZE then Some (mm, False)
                else check_areas mm (vm_end v) e write)
      else Some (mm, True))"

definition user_mem_check :: "mm option \<Rightarrow> u64 \<Rightarrow> u64 \<Rightarrow> bool \<Rightarrow> (mm option \<times> bool) option" where
  "user_mem_check mm addr len write =
     (case mm of
        None \<Rightarrow> Some (None, KERN_ACCESS addr (addr + len))
      | Some mm \<Rightarrow>
          if \<not> USER_ACCESS addr (addr + len) then Some (Some mm, False)
          else do { (mm, ok) \<leftarrow> check_areas mm addr (addr + len) write; Some (Some mm, ok) })"

definition copy_from_user :: "mm option \<Rightarrow> memory \<Rightarrow> u64 \<Rightarrow> u64 \<Rightarrow> u64 \<Rightarrow> bool \<Rightarrow>
    (mm option \<times> memory \<times> bool) option" where
  "copy_from_user mm m dst src len writable =
     do { (mm, ok) \<leftarrow> user_mem_check mm src len writable;
          Some (if ok then (mm, memcpy m (unat dst) (unat src) (unat len), True) else (mm, m, False)) }"

definition copy_to_user :: "mm option \<Rightarrow> memory \<Rightarrow> u64 \<Rightarrow> u64 \<Rightarrow> u64 \<Rightarrow> (mm option \<times> memory \<times> bool) option" where
  "copy_to_user mm m dst src len =
     do { (mm, ok) \<leftarrow> user_mem_check mm dst len True;
          Some (if ok then (mm, memcpy m (unat dst) (unat src) (unat len), True) else (mm, m, False)) }"

text \<open>The loop of \<open>copy_string\<close>: one part of the string per round, none across a page boundary.\<close>

partial_function (option) copy_string_loop :: "mm option \<Rightarrow> memory \<Rightarrow> u64 \<Rightarrow> u64 \<Rightarrow> u64 \<Rightarrow> u64 \<Rightarrow>
    (mm option \<times> memory \<times> bool) option" where
  "copy_string_loop mm m dst src maxn part =
     (let part = (if part > maxn then maxn else part)
      in do { (mm, ok) \<leftarrow> user_mem_check mm src part False;
              if \<not> ok then Some (mm, m, False)
              else (let alen = strnlen m (unat src) (unat part)
                    in if alen < unat part then Some (mm, memcpy m (unat dst) (unat src) (alen + 1), True)
                       else if part = maxn then Some (mm, m, False)
                       else copy_string_loop mm (memcpy m (unat dst) (unat src) (unat part))
                              (dst + part) (src + part) (maxn - part) PGSIZE) })"

definition copy_string :: "mm option \<Rightarrow> memory \<Rightarrow> u64 \<Rightarrow> u64 \<Rightarrow> u64 \<Rightarrow> (mm option \<times> memory \<times> bool) option" where
  "copy_string mm m dst src maxn = copy_string_loop mm m dst src maxn (ROUNDDOWN (src + PGSIZE) PGSIZE - src)"

subsection \<open>The invariant of an address space\<close>

definition covers :: "vma \<Rightarrow> u64 \<Rightarrow> bool" where
  "covers v a = (vm_start v \<le> a \<and> a < vm_end v)"

definition areas_ok :: "vma list \<Rightarrow> bool" where
  "areas_ok vs = ((\<forall>v \<in> set vs. vm_start v < vm_end v) \<and> sorted_wrt (\<lambda>v w. vm_end v \<le> vm_start w) vs)"

definition mm_inv :: "mm \<Rightarrow> bool" where
  "mm_inv mm = (areas_ok (mmap_list mm) \<and> map_count mm = int (length (mmap_list mm))
     \<and> (\<forall>v. mmap_cache mm = Some v \<longrightarrow> v \<in> set (mmap_list mm)))"

text \<open>
  May the byte at an address be read, or written? A write to a stack area stays one page above its start.
\<close>

definition permits :: "vma \<Rightarrow> bool \<Rightarrow> u64 \<Rightarrow> bool" where
  "permits v wr a = (vm_flags v AND (if wr then VM_WRITE else VM_READ) \<noteq> 0
     \<and> (wr \<and> vm_flags v AND VM_STACK \<noteq> 0 \<longrightarrow> vm_start v + PGSIZE \<le> a))"

definition accessible :: "vma list \<Rightarrow> bool \<Rightarrow> u64 \<Rightarrow> bool" where
  "accessible vs wr a = (\<exists>v \<in> set vs. covers v a \<and> permits v wr a)"

text \<open>No two areas cover the same address.\<close>

lemma areas_disjoint:
  "areas_ok vs \<Longrightarrow> v \<in> set vs \<Longrightarrow> w \<in> set vs \<Longrightarrow> covers v a \<Longrightarrow> covers w a \<Longrightarrow> v = w"
proof (induction vs)
  case (Cons u us)
  have apart: "False" if "x \<in> set us" "covers u a" "covers x a" for x
    using Cons.prems(1) that unfolding areas_ok_def covers_def by (auto dest: order.strict_trans2 order.strict_trans1)
  have "areas_ok us" using Cons.prems(1) by (simp add: areas_ok_def)
  with Cons apart show ?case by auto
qed simp

lemma find_area_Some: "find_area vs a = Some v \<Longrightarrow> v \<in> set vs \<and> covers v a"
  by (induction vs) (auto simp: covers_def split: if_splits)

lemma find_area_None: "find_area vs a = None \<longleftrightarrow> (\<forall>v \<in> set vs. \<not> covers v a)"
  by (induction vs) (auto simp: covers_def)

lemma find_vma_ok:
  assumes "mm_inv mm"
  obtains mm' where "find_vma mm a = (mm', None)" "\<forall>v \<in> set (mmap_list mm). \<not> covers v a" "mm' = mm"
  | mm' v where "find_vma mm a = (mm', Some v)" "v \<in> set (mmap_list mm)" "covers v a" "mm_inv mm'" "mmap_list mm' = mmap_list mm"
proof (cases "\<exists>v. mmap_cache mm = Some v \<and> covers v a")
  case True
  then obtain v where v: "mmap_cache mm = Some v" "covers v a" by blast
  then have "find_vma mm a = (mm\<lparr>mmap_cache := Some v\<rparr>, Some v)" by (simp add: find_vma_def covers_def)
  moreover have "v \<in> set (mmap_list mm)" using assms v by (simp add: mm_inv_def)
  ultimately show thesis using that(2) v assms by (simp add: mm_inv_def)
next
  case False
  then have f: "find_vma mm a = (case find_area (mmap_list mm) a of None \<Rightarrow> (mm, None)
      | Some v \<Rightarrow> (mm\<lparr>mmap_cache := Some v\<rparr>, Some v))"
    by (auto simp: find_vma_def covers_def split: option.splits)
  show thesis
  proof (cases "find_area (mmap_list mm) a")
    case None
    with f that(1) find_area_None show thesis by auto
  next
    case (Some v)
    with f that(2) find_area_Some [OF Some] assms show thesis by (simp add: mm_inv_def)
  qed
qed

lemma insert_point_split:
  "insert_point vs v = (as, bs) \<Longrightarrow> vs = as @ bs \<and> (\<forall>a \<in> set as. vm_start a \<le> vm_start v)
     \<and> (bs \<noteq> [] \<longrightarrow> vm_start v < vm_start (hd bs))"
  by (induction vs arbitrary: as bs) (auto split: if_splits prod.splits)

lemma sorted_wrt_split:
  "sorted_wrt R (as @ v # bs) \<longleftrightarrow> sorted_wrt R (as @ bs) \<and> (\<forall>a \<in> set as. R a v) \<and> (\<forall>b \<in> set bs. R v b)"
  by (auto simp: sorted_wrt_append)

text \<open>
  Inserting succeeds exactly for a non-empty area that overlaps no other; the list stays sorted and
  free of overlaps.
\<close>

definition overlaps :: "vma \<Rightarrow> vma \<Rightarrow> bool" where
  "overlaps v w = (vm_start v < vm_end w \<and> vm_start w < vm_end v)"

lemma insert_vma_ok:
  assumes inv: "mm_inv mm"
  shows "if vm_start v < vm_end v \<and> (\<forall>w \<in> set (mmap_list mm). \<not> overlaps v w)
    then \<exists>mm'. insert_vma_struct mm v = Some mm' \<and> mm_inv mm' \<and> set (mmap_list mm') = insert v (set (mmap_list mm))
      \<and> mmap_cache mm' = mmap_cache mm
    else insert_vma_struct mm v = None"
proof -
  obtain as bs where ip: "insert_point (mmap_list mm) v = (as, bs)" by fastforce
  note sp = insert_point_split [OF ip]
  have ok: "\<forall>w \<in> set as \<union> set bs. vm_start w < vm_end w" "sorted_wrt (\<lambda>v w. vm_end v \<le> vm_start w) (as @ bs)"
    using inv sp by (auto simp: mm_inv_def areas_ok_def)
  have last: "vm_end a \<le> vm_end (last as)" if "a \<in> set as" for a
  proof (cases as rule: rev_exhaust)
    case (snoc xs x)
    have "vm_end a \<le> vm_start x" if "a \<in> set xs" using ok(2) that snoc by (simp add: sorted_wrt_append)
    moreover have "vm_start x < vm_end x" using ok(1) snoc by simp
    ultimately show ?thesis using that snoc by auto
  qed (use that in simp)
  have first: "vm_start (hd bs) \<le> vm_start b" if "b \<in> set bs" for b
  proof (cases bs)
    case (Cons c cs)
    have "vm_end c \<le> vm_start b" if "b \<in> set cs" using ok(2) that Cons by (auto simp: sorted_wrt_append)
    moreover have "vm_start c < vm_end c" using ok(1) Cons by simp
    ultimately show ?thesis using that Cons by auto
  qed (use that in simp)
  have run: "insert_vma_struct mm v = (if vm_start v < vm_end v \<and> (as \<noteq> [] \<longrightarrow> vm_end (last as) \<le> vm_start v)
      \<and> (bs \<noteq> [] \<longrightarrow> vm_end v \<le> vm_start (hd bs))
      then Some (mm\<lparr>mmap_list := as @ v # bs, map_count := map_count mm + 1\<rparr>) else None)"
    using ip ok(1) by (auto simp: insert_vma_struct_def check_vma_overlap_def kassert_def)
  show ?thesis
  proof (cases "vm_start v < vm_end v \<and> (as \<noteq> [] \<longrightarrow> vm_end (last as) \<le> vm_start v)
      \<and> (bs \<noteq> [] \<longrightarrow> vm_end v \<le> vm_start (hd bs))")
    case True
    let ?mm = "mm\<lparr>mmap_list := as @ v # bs, map_count := map_count mm + 1\<rparr>"
    have ends: "\<forall>a \<in> set as. vm_end a \<le> vm_start v" "\<forall>b \<in> set bs. vm_end v \<le> vm_start b"
      using True last first by (metis empty_iff list.set(1) order.trans)+
    then have "areas_ok (as @ v # bs)" using ok True by (auto simp: areas_ok_def sorted_wrt_split)
    then have "mm_inv ?mm" using inv sp by (auto simp: mm_inv_def)
    moreover have "\<forall>w \<in> set (mmap_list mm). \<not> overlaps v w" using ends sp by (auto simp: overlaps_def not_less)
    ultimately show ?thesis using run True sp by auto
  next
    case False
    have "\<exists>w \<in> set (mmap_list mm). overlaps v w" if v: "vm_start v < vm_end v"
    proof (cases "as \<noteq> [] \<and> \<not> vm_end (last as) \<le> vm_start v")
      case True
      then have l: "last as \<in> set as" "vm_start v < vm_end (last as)" by auto
      then have "vm_start (last as) < vm_end v" using sp v by (metis order.strict_trans1)
      with l sp have "overlaps v (last as)" "last as \<in> set (mmap_list mm)" by (auto simp: overlaps_def)
      then show ?thesis by blast
    next
      case n: False
      then have "bs \<noteq> []" "\<not> vm_end v \<le> vm_start (hd bs)" using False v by auto
      moreover have "vm_start (hd bs) < vm_end (hd bs)" using ok(1) \<open>bs \<noteq> []\<close> by simp
      ultimately have "overlaps v (hd bs)" "hd bs \<in> set (mmap_list mm)" using sp by (auto simp: overlaps_def)
      then show ?thesis by blast
    qed
    then show ?thesis using run False by auto
  qed
qed

lemma check_areas_ok:
  assumes "mm_inv mm"
  shows "\<exists>mm' r. check_areas mm start e write = Some (mm', r) \<and> mm_inv mm' \<and> mmap_list mm' = mmap_list mm
    \<and> (r \<longleftrightarrow> (\<forall>a. start \<le> a \<and> a < e \<longrightarrow> accessible (mmap_list mm) write a))"
  using assms
proof (induction "unat e - unat start" arbitrary: mm start rule: less_induct)
  case less
  let ?ok = "\<lambda>v a. permits v write a"
  let ?good = "accessible (mmap_list mm) write"
  show ?case
  proof (cases "start < e")
    case False
    then have "check_areas mm start e write = Some (mm, True)" by (subst check_areas.simps) simp
    with False less.prems show ?thesis by auto
  next
    case True
    have dis: "v = w" if "v \<in> set (mmap_list mm)" "w \<in> set (mmap_list mm)" "covers v a" "covers w a" for v w a
      using areas_disjoint less.prems that by (auto simp: mm_inv_def)
    show ?thesis
    proof (rule find_vma_ok [OF less.prems, of start])
      fix mm' assume f: "find_vma mm start = (mm', None)" "\<forall>v \<in> set (mmap_list mm). \<not> covers v start" "mm' = mm"
      then have "check_areas mm start e write = Some (mm, False)" using True by (subst check_areas.simps) simp
      moreover have "\<not> ?good start" using f(2) by (auto simp: accessible_def)
      then have "\<not> (\<forall>a. start \<le> a \<and> a < e \<longrightarrow> ?good a)" using True order_refl [of start] by blast
      ultimately show ?thesis using less.prems by blast
    next
      fix mm' v assume f: "find_vma mm start = (mm', Some v)" "v \<in> set (mmap_list mm)" "covers v start" "mm_inv mm'"
        "mmap_list mm' = mmap_list mm"
      have c: "vm_start v \<le> start" "start < vm_end v" using f(3) by (simp_all add: covers_def)
      show ?thesis
      proof (cases "?ok v start")
        case False
        then have "check_areas mm start e write = Some (mm', False)"
          using True f(1) c by (subst check_areas.simps) (auto simp: not_less permits_def)
        moreover have "\<not> ?good start" using dis [OF f(2) _ f(3)] False by (auto simp: accessible_def)
        then have "\<not> (\<forall>a. start \<le> a \<and> a < e \<longrightarrow> ?good a)" using True order_refl [of start] by blast
        ultimately show ?thesis using f(4,5) by blast
      next
        case ok: True
        then have run: "check_areas mm start e write = check_areas mm' (vm_end v) e write"
          using True f(1) c by (subst check_areas.simps) (auto simp: not_less permits_def)
        have "unat start < unat (vm_end v)" "unat start < unat e" using c(2) True by (simp_all add: word_less_nat_alt)
        then have "unat e - unat (vm_end v) < unat e - unat start" by linarith
        from less.hyps [OF this f(4)] obtain mm'' r where
          IH: "check_areas mm' (vm_end v) e write = Some (mm'', r)" "mm_inv mm''" "mmap_list mm'' = mmap_list mm"
          "r \<longleftrightarrow> (\<forall>a. vm_end v \<le> a \<and> a < e \<longrightarrow> ?good a)" unfolding f(5) by blast
        have "?good a" if "start \<le> a" "a < vm_end v" for a
        proof -
          have "covers v a" using that c(1) by (auto simp: covers_def)
          moreover have "?ok v a" using ok that(1) by (auto simp: permits_def intro: order.trans)
          ultimately show ?thesis using f(2) by (auto simp: accessible_def)
        qed
        then have "(\<forall>a. start \<le> a \<and> a < e \<longrightarrow> ?good a) \<longleftrightarrow> (\<forall>a. vm_end v \<le> a \<and> a < e \<longrightarrow> ?good a)"
          using c(2) by (meson not_le order.strict_implies_order order.trans)
        then have "r \<longleftrightarrow> (\<forall>a. start \<le> a \<and> a < e \<longrightarrow> ?good a)" by (rule ssubst) (rule IH(4))
        then show ?thesis by (intro exI [of _ mm''] exI [of _ r] conjI) (simp_all only: run IH)
      qed
    qed
  qed
qed

lemma dup_areas_ok:
  assumes ok: "mm_inv to" "areas_ok (vs @ mmap_list to)" "\<forall>v \<in> set vs. alloc v \<and> copy v = 0"
  shows "\<exists>to'. dup_areas alloc copy to (rev vs) = Some (to', 0) \<and> mm_inv to' \<and> mmap_list to' = vs @ mmap_list to"
  using assms
proof (induction vs arbitrary: to rule: rev_induct)
  case (snoc v vs)
  have v: "vma_create True (vm_start v) (vm_end v) (vm_flags v) = Some v" by (simp add: vma_create_def)
  have st: "vm_start v < vm_end v" "\<forall>w \<in> set (mmap_list to). vm_end v \<le> vm_start w"
    using snoc.prems(2) by (auto simp: areas_ok_def sorted_wrt_append)
  have "\<not> overlaps v w" if "w \<in> set (mmap_list to)" for w
    using st(2) that by (auto simp: overlaps_def not_less)
  then obtain to1 where to1: "insert_vma_struct to v = Some to1" "mm_inv to1"
    using insert_vma_ok [OF snoc.prems(1), of v] st(1) by auto
  have "insert_point (mmap_list to) v = ([], mmap_list to)"
  proof (cases "mmap_list to")
    case (Cons w ws)
    then have "vm_start v < vm_start w" using st by auto
    with Cons show ?thesis by simp
  qed simp
  then have l1: "mmap_list to1 = v # mmap_list to"
    using to1(1) by (auto simp: insert_vma_struct_def check_vma_overlap_def split: if_splits)
  have "areas_ok (vs @ mmap_list to1)" "\<forall>v \<in> set vs. alloc v \<and> copy v = 0" using snoc.prems(2,3) l1 by auto
  from snoc.IH [OF to1(2) this] obtain to' where
    "dup_areas alloc copy to1 (rev vs) = Some (to', 0)" "mm_inv to'" "mmap_list to' = vs @ mmap_list to1" by blast
  with to1 l1 snoc.prems(3) v show ?case by simp
qed simp

subsection \<open>Properties\<close>

text \<open>
  \<open>mm_map\<close> on every branch: outside user space or with the first page already mapped it fails with
  \<open>E_INVAL\<close>, without memory with \<open>E_NO_MEM\<close>, and nothing changes; when no area meets the page-aligned
  range it adds exactly this range, and the list stays sorted and free of overlaps; but when an area
  begins inside the range behind its first page, an assertion of \<open>insert_vma_struct\<close> fails and the
  kernel panics.
\<close>

theorem mm_map_cases:
  assumes "mm_inv mm"
  shows "let start = ROUNDDOWN addr PGSIZE; e = ROUNDUP (addr + len) PGSIZE;
      v = \<lparr>vm_start = start, vm_end = e, vm_flags = flags\<rparr>
    in if \<not> USER_ACCESS start e then mm_map kmem mm addr len flags = Some (mm, - E_INVAL, None)
       else if \<exists>w \<in> set (mmap_list mm). covers w start
       then \<exists>mm'. mm_map kmem mm addr len flags = Some (mm', - E_INVAL, None) \<and> mmap_list mm' = mmap_list mm \<and> mm_inv mm'
       else if \<not> kmem then mm_map kmem mm addr len flags = Some (mm, - E_NO_MEM, None)
       else if \<forall>w \<in> set (mmap_list mm). \<not> overlaps v w
       then \<exists>mm'. mm_map kmem mm addr len flags = Some (mm', 0, Some v) \<and> mm_inv mm'
         \<and> set (mmap_list mm') = insert v (set (mmap_list mm))
       else mm_map kmem mm addr len flags = None"
proof -
  define start where "start = ROUNDDOWN addr PGSIZE"
  define e where "e = ROUNDUP (addr + len) PGSIZE"
  let ?v = "\<lparr>vm_start = start, vm_end = e, vm_flags = flags\<rparr>"
  note d = start_def [symmetric] e_def [symmetric]
  show ?thesis
  proof (cases "USER_ACCESS start e")
    case False
    then show ?thesis by (simp add: mm_map_def Let_def d)
  next
    case True
    then have se: "start < e" by (simp add: USER_ACCESS_def)
    show ?thesis
    proof (rule find_vma_ok [OF assms, of start])
      fix mm' w assume f: "find_vma mm start = (mm', Some w)" "w \<in> set (mmap_list mm)" "covers w start" "mm_inv mm'"
        "mmap_list mm' = mmap_list mm"
      have "vm_start w < e" using f(3) se by (auto simp: covers_def)
      with True f show ?thesis by (auto simp: mm_map_def Let_def d)
    next
      fix mm' assume f: "find_vma mm start = (mm', None)" "\<forall>w \<in> set (mmap_list mm). \<not> covers w start" "mm' = mm"
      have nc: "\<not> (\<exists>w \<in> set (mmap_list mm). covers w start)" using f(2) by blast
      have run: "mm_map kmem mm addr len flags = (if \<not> kmem then Some (mm, - E_NO_MEM, None)
          else do { mm \<leftarrow> insert_vma_struct mm ?v; Some (mm, 0, Some ?v) })"
        using True f by (simp add: mm_map_def Let_def d vma_create_def)
      show ?thesis
      proof (cases "\<forall>w \<in> set (mmap_list mm). \<not> overlaps ?v w")
        case free: True
        obtain mm'' where "insert_vma_struct mm ?v = Some mm''" "mm_inv mm''"
          "set (mmap_list mm'') = insert ?v (set (mmap_list mm))"
          using insert_vma_ok [OF assms, of ?v] se free by auto
        then show ?thesis using True nc run free by (cases kmem) (simp_all add: Let_def d)
      next
        case over: False
        then have "insert_vma_struct mm ?v = None" using insert_vma_ok [OF assms, of ?v] by (simp only: if_False simp_thms)
        then show ?thesis using True nc run over by (simp only: Let_def d if_True if_False not_True_eq_False) simp
      qed
    qed
  qed
qed

definition demo_mm :: mm where
  "demo_mm = \<lparr>mmap_list = [\<lparr>vm_start = 0x800000, vm_end = 0x804000, vm_flags = 5\<rparr>,
     \<lparr>vm_start = 0x7ff00000, vm_end = 0x80000000, vm_flags = 11\<rparr>], mmap_cache = None, map_count = 2, mm_count = 1\<rparr>"

lemma demo_mm_inv: "mm_inv demo_mm"
  by (simp add: mm_inv_def areas_ok_def demo_mm_def)

theorem mm_map_cases_witness:
  "(\<exists>mm'. mm_map True demo_mm 0x804000 0x1000 3
      = Some (mm', 0, Some \<lparr>vm_start = 0x804000, vm_end = 0x805000, vm_flags = 3\<rparr>) \<and> mm_inv mm')
   \<and> mm_map True demo_mm 0x7ff000 0x2000 3 = None"
proof -
  have a: "ROUNDDOWN 0x804000 PGSIZE = 0x804000" "ROUNDUP (0x804000 + 0x1000) PGSIZE = 0x805000"
    "ROUNDDOWN 0x7ff000 PGSIZE = 0x7ff000" "ROUNDUP (0x7ff000 + 0x2000) PGSIZE = 0x801000"
    by (simp_all add: ROUNDUP_def ROUNDDOWN_def)
  have b: "USER_ACCESS 0x804000 0x805000" "USER_ACCESS 0x7ff000 0x801000" by (simp_all add: USER_ACCESS_def)
  from mm_map_cases [OF demo_mm_inv, of "0x804000" "0x1000" 3 True] mm_map_cases [OF demo_mm_inv, of "0x7ff000" "0x2000" 3 True]
  show ?thesis unfolding a Let_def using b by (auto simp: demo_mm_def covers_def overlaps_def)
qed

text \<open>
  \<open>user_mem_check\<close> is exact: it returns for every address space, and accepts a range if and only if
  the range lies in user space and every byte of it lies in an area with the permission asked for,
  writes to a stack area staying one page above its start.
\<close>

theorem user_mem_check_exact:
  assumes "mm_inv mm"
  shows "\<exists>mm' r. user_mem_check (Some mm) addr len write = Some (Some mm', r) \<and> mm_inv mm'
    \<and> mmap_list mm' = mmap_list mm
    \<and> (r \<longleftrightarrow> USER_ACCESS addr (addr + len)
         \<and> (\<forall>a. addr \<le> a \<and> a < addr + len \<longrightarrow> accessible (mmap_list mm) write a))"
proof (cases "USER_ACCESS addr (addr + len)")
  case True
  obtain mm' r where c: "check_areas mm addr (addr + len) write = Some (mm', r)" "mm_inv mm'" "mmap_list mm' = mmap_list mm"
    "r \<longleftrightarrow> (\<forall>a. addr \<le> a \<and> a < addr + len \<longrightarrow> accessible (mmap_list mm) write a)"
    using check_areas_ok [OF assms, of addr "addr + len" "write"] by blast
  have "user_mem_check (Some mm) addr len write = Some (Some mm', r)" using True c(1) by (simp add: user_mem_check_def)
  with c True show ?thesis by blast
next
  case False
  then have "user_mem_check (Some mm) addr len write = Some (Some mm, False)" by (simp add: user_mem_check_def)
  with False assms show ?thesis by blast
qed

theorem user_mem_check_exact_witness:
  "\<exists>mm'. user_mem_check (Some demo_mm) 0x803fff 2 False = Some (Some mm', False) \<and> mmap_list mm' = mmap_list demo_mm"
proof -
  have "\<not> accessible (mmap_list demo_mm) False 0x804000" by (simp add: demo_mm_def covers_def accessible_def)
  moreover have "(0x803fff :: u64) \<le> 0x804000 \<and> (0x804000 :: u64) < 0x803fff + 2" by simp
  moreover obtain mm' r where "user_mem_check (Some demo_mm) 0x803fff 2 False = Some (Some mm', r)"
    "mmap_list mm' = mmap_list demo_mm"
    "r \<longrightarrow> (\<forall>a. 0x803fff \<le> a \<and> a < 0x803fff + 2 \<longrightarrow> accessible (mmap_list demo_mm) False a)"
    using user_mem_check_exact [OF demo_mm_inv, of "0x803fff" 2 False] by blast
  ultimately show ?thesis by (cases r) auto
qed

text \<open>
  C19. \<open>dup_mmap\<close> copies an address space: into an empty one, with memory available, it makes the same
  list of areas in the same order.
\<close>

theorem dup_mmap_copies:
  assumes "mm_inv from_mm" and "mm_inv to" and "mmap_list to = []"
    and "\<forall>v \<in> set (mmap_list from_mm). alloc v \<and> copy v = 0"
  shows "\<exists>to'. dup_mmap alloc copy to from_mm = Some (to', 0) \<and> mm_inv to' \<and> mmap_list to' = mmap_list from_mm"
  using dup_areas_ok [of to "mmap_list from_mm" alloc copy] assms by (auto simp: dup_mmap_def mm_inv_def)

theorem dup_mmap_copies_witness:
  "\<exists>to'. dup_mmap (\<lambda>_. True) (\<lambda>_. 0) \<lparr>mmap_list = [], mmap_cache = None, map_count = 0, mm_count = 0\<rparr> demo_mm = Some (to', 0)
    \<and> mmap_list to' = mmap_list demo_mm"
  using dup_mmap_copies [OF demo_mm_inv, of "\<lparr>mmap_list = [], mmap_cache = None, map_count = 0, mm_count = 0\<rparr>" "\<lambda>_. True" "\<lambda>_. 0"]
  by (auto simp: mm_inv_def areas_ok_def)

end
