(* ===== verification/Bytes.thy ===== *)
theory Bytes
  imports Cstring
begin

section \<open>Numbers and structures in memory\<close>

text \<open>
  The bytes of a number, least significant first, as the compiler lays out the integers and the
  structures of the code; reading them back; and memory with a block of it replaced.
\<close>

definition le_bytes :: "nat \<Rightarrow> nat \<Rightarrow> char list" where
  "le_bytes n v = map (\<lambda>k. char_of (v div 256 ^ k)) [0..<n]"

definition peek :: "memory \<Rightarrow> nat \<Rightarrow> nat \<Rightarrow> nat" where
  "peek m a n = (\<Sum>k<n. of_char (m (a + k)) * 256 ^ k)"

definition poke :: "memory \<Rightarrow> nat \<Rightarrow> char list \<Rightarrow> memory" where
  "poke m a bs = (\<lambda>x. if a \<le> x \<and> x < a + length bs then bs ! (x - a) else m x)"

definition blit :: "memory \<Rightarrow> nat \<Rightarrow> nat \<Rightarrow> nat \<Rightarrow> memory" where
  "blit m d s n = (\<lambda>x. if d \<le> x \<and> x < d + n then m (s + (x - d)) else m x)"

abbreviation (input) ld16 :: "memory \<Rightarrow> nat \<Rightarrow> u16" where "ld16 m a \<equiv> word_of_nat (peek m a 2)"
abbreviation (input) ld32 :: "memory \<Rightarrow> nat \<Rightarrow> u32" where "ld32 m a \<equiv> word_of_nat (peek m a 4)"
abbreviation (input) le16 :: "u16 \<Rightarrow> char list" where "le16 w \<equiv> le_bytes 2 (unat w)"
abbreviation (input) le32 :: "u32 \<Rightarrow> char list" where "le32 w \<equiv> le_bytes 4 (unat w)"

lemma digits_sum: "(\<Sum>k<n. (w div 256 ^ k mod 256) * 256 ^ k) = w mod 256 ^ n" for w :: nat
proof (induction n)
  case (Suc n)
  have "w mod 256 ^ Suc n = 256 ^ n * (w div 256 ^ n mod 256) + w mod 256 ^ n"
    using mod_mult2_eq [of w "256 ^ n" 256] by (simp add: mult.commute)
  with Suc show ?case by simp
qed simp

lemma length_le_bytes [simp]: "length (le_bytes n v) = n"
  by (simp add: le_bytes_def)

lemma poke_Nil [simp]: "poke m a [] = m"
  by (auto simp: poke_def fun_eq_iff)

lemma poke_append: "poke m a (xs @ ys) = poke (poke m a xs) (a + length xs) ys"
  by (auto simp: poke_def fun_eq_iff nth_append)

lemma peek_cong: "(\<And>x. a \<le> x \<Longrightarrow> x < a + n \<Longrightarrow> m x = m' x) \<Longrightarrow> peek m a n = peek m' a n"
  by (simp add: peek_def)

lemma peek_shift: "(\<And>k. k < n \<Longrightarrow> m (a + k) = m' (b + k)) \<Longrightarrow> peek m a n = peek m' b n"
  by (simp add: peek_def)

lemma peek_zero: "(\<And>k. k < n \<Longrightarrow> m (a + k) = NUL) \<Longrightarrow> peek m a n = 0"
  by (simp add: peek_def)

lemma peek_poke: "v < 256 ^ n \<Longrightarrow> peek (poke m a (le_bytes n v)) a n = v"
proof -
  assume v: "v < 256 ^ n"
  have "peek (poke m a (le_bytes n v)) a n = (\<Sum>k<n. (v div 256 ^ k mod 256) * 256 ^ k)"
    unfolding peek_def by (rule sum.cong) (simp_all add: poke_def le_bytes_def)
  also have "\<dots> = v" using v by (simp only: digits_sum mod_less)
  finally show ?thesis .
qed

lemma peek_poke_other: "b + n \<le> a \<or> a + length bs \<le> b \<Longrightarrow> peek (poke m a bs) b n = peek m b n"
  by (rule peek_cong) (auto simp: poke_def)

lemma unat_bound: "unat (w :: 'a::len word) < 2 ^ LENGTH('a)"
  by (rule unsigned_less)

lemma ld_le_32 [simp]: "ld32 (poke m a (le32 w)) a = w"
  using unat_bound [of w] by (subst peek_poke) simp_all

lemma ld_le_16 [simp]: "ld16 (poke m a (le16 w)) a = w"
  using unat_bound [of w] by (subst peek_poke) simp_all

lemma block_poke [simp]: "block (poke m a bs) a (length bs) = bs"
  by (rule nth_equalityI) (simp_all add: block_nth poke_def)

end
