(* ===== verification/Page_Table.thy ===== *)
theory Page_Table
  imports Pmm_Interface Vmm Bytes
begin

section \<open>Page tables: \<open>kern/mm/pmm.c\<close>\<close>

text \<open>
  The three-level page tables (Sv39) over the memory of the machine. The state holds the first-fit
  allocator with its page descriptors, the memory as bytes at physical addresses (\<open>KADDR\<close> adds a
  constant to them), and the addresses \<open>tlb_invalidate\<close> has been called on. A page is its index in
  \<open>pages\<close>; its number in memory is \<open>page2ppn\<close> of it. A page directory and an entry are given by the
  number of the page and the index in it. \<open>check_mm_struct\<close> is NULL, as it is outside the self tests:
  once \<open>swap_init\<close> has set \<open>swap_init_ok\<close>, \<open>alloc_page\<close> without a free page calls \<open>swap_out\<close> on
  it and does not come back.
\<close>

subsection \<open>Words in memory\<close>

definition ld64 :: "memory \<Rightarrow> nat \<Rightarrow> u64" where
  "ld64 m a = word_of_nat (\<Sum>k<8. of_char (m (a + k)) * 256 ^ k)"

definition st64 :: "memory \<Rightarrow> nat \<Rightarrow> u64 \<Rightarrow> memory" where
  "st64 m a w = (\<lambda>x. if a \<le> x \<and> x < a + 8 then char_of (unat w div 256 ^ (x - a)) else m x)"

lemma ld64_st64 [simp]: "ld64 (st64 m a w) a = w"
proof -
  have "(of_char (st64 m a w (a + k)) :: nat) = unat w div 256 ^ k mod 256" if "k < 8" for k
    using that by (simp add: st64_def)
  then have "(\<Sum>k<8. of_char (st64 m a w (a + k)) * 256 ^ k) = (\<Sum>k<8. (unat w div 256 ^ k mod 256) * 256 ^ k)"
    by simp
  also have "\<dots> = unat w mod 256 ^ 8" by (rule digits_sum)
  also have "\<dots> = unat w"
  proof -
    have "unat w < 2 ^ 64" by (rule order_less_le_trans [OF unsigned_less]) simp
    then show ?thesis by simp
  qed
  finally show ?thesis by (simp add: ld64_def)
qed

lemma ld64_cong: "(\<And>x. a \<le> x \<Longrightarrow> x < a + 8 \<Longrightarrow> m x = m' x) \<Longrightarrow> ld64 m a = ld64 m' a"
  by (simp add: ld64_def)

lemma ld64_zero: "(\<And>x. a \<le> x \<Longrightarrow> x < a + 8 \<Longrightarrow> m x = NUL) \<Longrightarrow> ld64 m a = 0"
  by (simp add: ld64_def)

subsection \<open>Entries and addresses\<close>

abbreviation (input) PTE_V :: u64 where "PTE_V \<equiv> 1"
abbreviation (input) PTE_R :: u64 where "PTE_R \<equiv> 2"
abbreviation (input) PTE_W :: u64 where "PTE_W \<equiv> 4"
abbreviation (input) PTE_X :: u64 where "PTE_X \<equiv> 8"
abbreviation (input) PTE_U :: u64 where "PTE_U \<equiv> 16"
abbreviation (input) PTE_USER :: u64 where "PTE_USER \<equiv> 31"
abbreviation (input) READ_WRITE :: u32 where "READ_WRITE \<equiv> 7"
abbreviation (input) PTSIZE :: u64 where "PTSIZE \<equiv> 0x200000"
abbreviation (input) PDSIZE :: u64 where "PDSIZE \<equiv> 0x40000000"

definition PDX1 :: "u64 \<Rightarrow> nat" where "PDX1 la = unat (drop_bit 30 la AND 0x1FF)"
definition PDX0 :: "u64 \<Rightarrow> nat" where "PDX0 la = unat (drop_bit 21 la AND 0x1FF)"
definition PTX :: "u64 \<Rightarrow> nat" where "PTX la = unat (drop_bit 12 la AND 0x1FF)"
definition PPN :: "u64 \<Rightarrow> nat" where "PPN la = unat (drop_bit 12 la)"

definition PTE_ADDR :: "u64 \<Rightarrow> u64" where
  "PTE_ADDR pte = push_bit 2 (pte AND NOT 0x3FF)"

definition pte_create :: "nat \<Rightarrow> u32 \<Rightarrow> u64" where
  "pte_create ppn type = push_bit 10 (word_of_nat ppn) OR PTE_V OR scast type"

text \<open>Memory starts at \<open>0x80000000\<close> and ends at \<open>0x88000000\<close>.\<close>

definition nbase :: nat where "nbase = 0x80000"
definition npage :: nat where "npage = 0x88000"

definition page2ppn :: "nat \<Rightarrow> nat" where
  "page2ppn page = page + nbase"

text \<open>An address below the memory has no descriptor: the array would be read in front of its start.\<close>

definition pa2page :: "u64 \<Rightarrow> nat option" where
  "pa2page pa = do { kassert (PPN pa < npage); kassert (nbase \<le> PPN pa); Some (PPN pa - nbase) }"

definition pte2page :: "u64 \<Rightarrow> nat option" where
  "pte2page pte = do { kassert (pte AND PTE_V \<noteq> 0); pa2page (PTE_ADDR pte) }"

definition pde2page :: "u64 \<Rightarrow> nat option" where
  "pde2page pde = pa2page (PTE_ADDR pde)"

subsection \<open>State\<close>

record vmem =
  area :: free_area
  mem :: memory
  swap_init_ok :: bool
  flushed :: "u64 list"

type_synonym slot = "nat \<times> nat"

definition slot_addr :: "slot \<Rightarrow> nat" where
  "slot_addr sl = fst sl * 4096 + snd sl * 8"

definition rd :: "vmem \<Rightarrow> slot \<Rightarrow> u64" where
  "rd s sl = ld64 (mem s) (slot_addr sl)"

definition wr :: "vmem \<Rightarrow> slot \<Rightarrow> u64 \<Rightarrow> vmem" where
  "wr s sl w = s\<lparr>mem := st64 (mem s) (slot_addr sl) w\<rparr>"

definition page_ref :: "vmem \<Rightarrow> nat \<Rightarrow> int" where
  "page_ref s page = pg_ref (pages (area s) page)"

definition set_ref :: "vmem \<Rightarrow> nat \<Rightarrow> int \<Rightarrow> vmem" where
  "set_ref s page val = s\<lparr>area := (area s)\<lparr>pages := (pages (area s))(page := set_page_ref (pages (area s) page) val)\<rparr>\<rparr>"

definition page_ref_inc :: "vmem \<Rightarrow> nat \<Rightarrow> vmem" where
  "page_ref_inc s page = set_ref s page (page_ref s page + 1)"

definition page_ref_dec :: "vmem \<Rightarrow> nat \<Rightarrow> vmem" where
  "page_ref_dec s page = set_ref s page (page_ref s page - 1)"

definition tlb_invalidate :: "vmem \<Rightarrow> u64 \<Rightarrow> vmem" where
  "tlb_invalidate s la = s\<lparr>flushed := la # flushed s\<rparr>"

definition alloc_page :: "vmem \<Rightarrow> (vmem \<times> nat option) option" where
  "alloc_page s =
     do { (fa, page) \<leftarrow> default_alloc_pages 1 (area s);
          kassert (page \<noteq> None \<or> \<not> swap_init_ok s);
          Some (s\<lparr>area := fa\<rparr>, page) }"

definition free_page :: "vmem \<Rightarrow> nat \<Rightarrow> vmem option" where
  "free_page s page = do { fa \<leftarrow> default_free_pages page 1 (area s); Some (s\<lparr>area := fa\<rparr>) }"

definition zero_page :: "vmem \<Rightarrow> nat \<Rightarrow> vmem" where
  "zero_page s ppn = s\<lparr>mem := memset (mem s) (ppn * 4096) NUL 4096\<rparr>"

subsection \<open>Operations\<close>

text \<open>
  One level of \<open>get_pte\<close>: if the entry is not valid, a page for the table below it is allocated when
  \<open>create\<close> is set; the result is the number of that table.
\<close>

definition next_table :: "vmem \<Rightarrow> slot \<Rightarrow> bool \<Rightarrow> (vmem \<times> nat option) option" where
  "next_table s sl create =
     do { (s, ok) \<leftarrow>
            (if rd s sl AND PTE_V = 0
             then (if \<not> create then Some (s, False)
                   else do { (s, page) \<leftarrow> alloc_page s;
                             (case page of
                                None \<Rightarrow> Some (s, False)
                              | Some page \<Rightarrow>
                                  do { let s = set_ref s page 1;
                                       kassert (page2ppn page < npage);
                                       let s = zero_page s (page2ppn page);
                                       Some (wr s sl (pte_create (page2ppn page) 17), True) }) })
             else Some (s, True));
          if \<not> ok then Some (s, None)
          else do { kassert (PPN (PTE_ADDR (rd s sl)) < npage);
                    Some (s, Some (PPN (PTE_ADDR (rd s sl)))) } }"

definition get_pte :: "vmem \<Rightarrow> nat \<Rightarrow> u64 \<Rightarrow> bool \<Rightarrow> (vmem \<times> slot option) option" where
  "get_pte s pgdir la create =
     do { (s, t0) \<leftarrow> next_table s (pgdir, PDX1 la) create;
          (case t0 of
             None \<Rightarrow> Some (s, None)
           | Some t0 \<Rightarrow>
               do { (s, t) \<leftarrow> next_table s (t0, PDX0 la) create;
                    (case t of None \<Rightarrow> Some (s, None) | Some t \<Rightarrow> Some (s, Some (t, PTX la))) }) }"

definition get_page :: "vmem \<Rightarrow> nat \<Rightarrow> u64 \<Rightarrow> (slot option \<times> nat option) option" where
  "get_page s pgdir la =
     do { (s, ptep) \<leftarrow> get_pte s pgdir la False;
          (case ptep of
             None \<Rightarrow> Some (None, None)
           | Some sl \<Rightarrow> if rd s sl AND PTE_V \<noteq> 0 then do { page \<leftarrow> pte2page (rd s sl); Some (Some sl, Some page) }
                        else Some (Some sl, None)) }"

definition page_remove_pte :: "vmem \<Rightarrow> u64 \<Rightarrow> slot \<Rightarrow> vmem option" where
  "page_remove_pte s la ptep =
     (if rd s ptep AND PTE_V \<noteq> 0
      then do { page \<leftarrow> pte2page (rd s ptep);
                let s = page_ref_dec s page;
                s \<leftarrow> (if page_ref s page = 0 then free_page s page else Some s);
                Some (tlb_invalidate (wr s ptep 0) la) }
      else Some s)"

definition page_remove :: "vmem \<Rightarrow> nat \<Rightarrow> u64 \<Rightarrow> vmem option" where
  "page_remove s pgdir la =
     do { (s, ptep) \<leftarrow> get_pte s pgdir la False;
          (case ptep of None \<Rightarrow> Some s | Some sl \<Rightarrow> page_remove_pte s la sl) }"

definition page_insert :: "vmem \<Rightarrow> nat \<Rightarrow> nat \<Rightarrow> u64 \<Rightarrow> u32 \<Rightarrow> (vmem \<times> int) option" where
  "page_insert s pgdir page la perm =
     do { (s, ptep) \<leftarrow> get_pte s pgdir la True;
          (case ptep of
             None \<Rightarrow> Some (s, - E_NO_MEM)
           | Some sl \<Rightarrow>
               do { let s = page_ref_inc s page;
                    s \<leftarrow> (if rd s sl AND PTE_V \<noteq> 0
                          then do { p \<leftarrow> pte2page (rd s sl);
                                    if p = page then Some (page_ref_dec s page) else page_remove_pte s la sl }
                          else Some s);
                    Some (tlb_invalidate (wr s sl (pte_create (page2ppn page) (1 OR perm))) la, 0) }) }"

text \<open>With \<open>check_mm_struct\<close> NULL the swap manager is not told of the page.\<close>

definition pgdir_alloc_page :: "vmem \<Rightarrow> nat \<Rightarrow> u64 \<Rightarrow> u32 \<Rightarrow> (vmem \<times> nat option) option" where
  "pgdir_alloc_page s pgdir la perm =
     do { (s, page) \<leftarrow> alloc_page s;
          (case page of
             None \<Rightarrow> Some (s, None)
           | Some page \<Rightarrow>
               do { (s, ret) \<leftarrow> page_insert s pgdir page la perm;
                    if ret \<noteq> 0 then do { s \<leftarrow> free_page s page; Some (s, None) } else Some (s, Some page) }) }"

definition range_check :: "u64 \<Rightarrow> u64 \<Rightarrow> unit option" where
  "range_check start e =
     do { kassert (start mod PGSIZE = 0 \<and> e mod PGSIZE = 0); kassert (USER_ACCESS start e) }"

partial_function (option) unmap_loop :: "vmem \<Rightarrow> nat \<Rightarrow> u64 \<Rightarrow> u64 \<Rightarrow> vmem option" where
  "unmap_loop s pgdir start e =
     do { (s, ptep) \<leftarrow> get_pte s pgdir start False;
          (s, start) \<leftarrow>
            (case ptep of
               None \<Rightarrow> Some (s, ROUNDDOWN (start + PTSIZE) PTSIZE)
             | Some sl \<Rightarrow>
                 do { s \<leftarrow> (if rd s sl \<noteq> 0 then page_remove_pte s start sl else Some s);
                      Some (s, start + PGSIZE) });
          if start \<noteq> 0 \<and> start < e then unmap_loop s pgdir start e else Some s }"

definition unmap_range :: "vmem \<Rightarrow> nat \<Rightarrow> u64 \<Rightarrow> u64 \<Rightarrow> vmem option" where
  "unmap_range s pgdir start e = do { range_check start e; unmap_loop s pgdir start e }"

text \<open>The inner loop of \<open>exit_range\<close>: frees the page tables without a valid entry below one directory.\<close>

definition table_empty :: "vmem \<Rightarrow> nat \<Rightarrow> bool" where
  "table_empty s t = list_all (\<lambda>i. rd s (t, i) AND PTE_V = 0) [0..<512]"

partial_function (option) exit_tables :: "vmem \<Rightarrow> nat \<Rightarrow> u64 \<Rightarrow> u64 \<Rightarrow> u64 \<Rightarrow> bool \<Rightarrow> (vmem \<times> u64 \<times> bool) option" where
  "exit_tables s pd0 d1start d0start e free_pd0 =
     do { let pde0 = rd s (pd0, PDX0 d0start);
          (s, free_pd0) \<leftarrow>
            (if pde0 AND PTE_V \<noteq> 0
             then do { pt \<leftarrow> pde2page pde0;
                       if table_empty s (page2ppn pt)
                       then do { s \<leftarrow> free_page s pt; Some (wr s (pd0, PDX0 d0start) 0, free_pd0) }
                       else Some (s, free_pd0) }
             else Some (s, False));
          let d0start = d0start + PTSIZE;
          if d0start \<noteq> 0 \<and> d0start < d1start + PDSIZE \<and> d0start < e
          then exit_tables s pd0 d1start d0start e free_pd0
          else Some (s, d0start, free_pd0) }"

partial_function (option) exit_range_loop :: "vmem \<Rightarrow> nat \<Rightarrow> u64 \<Rightarrow> u64 \<Rightarrow> u64 \<Rightarrow> vmem option" where
  "exit_range_loop s pgdir d1start d0start e =
     do { let pde1 = rd s (pgdir, PDX1 d1start);
          s \<leftarrow> (if pde1 AND PTE_V \<noteq> 0
                then do { page \<leftarrow> pde2page pde1;
                          (s, d0start, free_pd0) \<leftarrow> exit_tables s (page2ppn page) d1start d0start e True;
                          if free_pd0 then do { s \<leftarrow> free_page s page; Some (wr s (pgdir, PDX1 d1start) 0) }
                          else Some s }
                else Some s);
          let d1start = d1start + PDSIZE;
          if d1start \<noteq> 0 \<and> d1start < e then exit_range_loop s pgdir d1start d1start e else Some s }"

definition exit_range :: "vmem \<Rightarrow> nat \<Rightarrow> u64 \<Rightarrow> u64 \<Rightarrow> vmem option" where
  "exit_range s pgdir start e =
     do { range_check start e; exit_range_loop s pgdir (ROUNDDOWN start PDSIZE) (ROUNDDOWN start PTSIZE) e }"

text \<open>One page of \<open>copy_range\<close>: the result is the next address, or the error code.\<close>

definition copy_page :: "vmem \<Rightarrow> nat \<Rightarrow> u64 \<Rightarrow> slot \<Rightarrow> (vmem \<times> int) option" where
  "copy_page s to start ptep =
     (if rd s ptep AND PTE_V \<noteq> 0
      then do { (s, nptep) \<leftarrow> get_pte s to start True;
                if nptep = None then Some (s, - E_NO_MEM)
                else do { let perm = (ucast (rd s ptep AND PTE_USER) :: u32);
                          page \<leftarrow> pte2page (rd s ptep);
                          (s, npage') \<leftarrow> alloc_page s;
                          npage' \<leftarrow> npage';
                          let s = s\<lparr>mem := memcpy (mem s) (page2ppn npage' * 4096) (page2ppn page * 4096) 4096\<rparr>;
                          (s, ret) \<leftarrow> page_insert s to npage' start perm;
                          kassert (ret = 0);
                          Some (s, 0) } }
      else Some (s, 0))"

partial_function (option) copy_loop :: "vmem \<Rightarrow> nat \<Rightarrow> nat \<Rightarrow> u64 \<Rightarrow> u64 \<Rightarrow> (vmem \<times> int) option" where
  "copy_loop s to from_dir start e =
     do { (s, ptep) \<leftarrow> get_pte s from_dir start False;
          (s, start, ret) \<leftarrow>
            (case ptep of
               None \<Rightarrow> Some (s, ROUNDDOWN (start + PTSIZE) PTSIZE, 0)
             | Some sl \<Rightarrow> do { (s, ret) \<leftarrow> copy_page s to start sl; Some (s, start + PGSIZE, ret) });
          if ret \<noteq> 0 then Some (s, ret)
          else if start \<noteq> 0 \<and> start < e then copy_loop s to from_dir start e else Some (s, 0) }"

definition copy_range :: "vmem \<Rightarrow> nat \<Rightarrow> nat \<Rightarrow> u64 \<Rightarrow> u64 \<Rightarrow> (vmem \<times> int) option" where
  "copy_range s to from_dir start e = do { range_check start e; copy_loop s to from_dir start e }"

text \<open>\<open>boot_map_segment\<close> maps \<open>n\<close> pages one by one.\<close>

fun boot_map_pages :: "vmem \<Rightarrow> nat \<Rightarrow> u64 \<Rightarrow> u64 \<Rightarrow> u32 \<Rightarrow> nat \<Rightarrow> vmem option" where
  "boot_map_pages s pgdir la pa perm 0 = Some s"
| "boot_map_pages s pgdir la pa perm (Suc n) =
     do { (s, ptep) \<leftarrow> get_pte s pgdir la True;
          sl \<leftarrow> ptep;
          boot_map_pages (wr s sl (pte_create (PPN pa) (1 OR perm))) pgdir (la + PGSIZE) (pa + PGSIZE) perm n }"

definition boot_map_segment :: "vmem \<Rightarrow> nat \<Rightarrow> u64 \<Rightarrow> u64 \<Rightarrow> u64 \<Rightarrow> u32 \<Rightarrow> vmem option" where
  "boot_map_segment s pgdir la sz pa perm =
     do { kassert (la AND 0xFFF = pa AND 0xFFF);
          let n = ROUNDUP (sz + (la AND 0xFFF)) PGSIZE div PGSIZE;
          boot_map_pages s pgdir (ROUNDDOWN la PGSIZE) (ROUNDDOWN pa PGSIZE) perm (unat n) }"

subsection \<open>Words: indices and entries\<close>

lemma unat_and_1FF: "unat (w AND 0x1FF) = unat w mod 512" for w :: u64
proof -
  have "w AND 0x1FF = take_bit 9 w" by (simp add: take_bit_eq_mask mask_eq_exp_minus_1)
  then show ?thesis by (simp add: unsigned_take_bit_eq take_bit_nat_def)
qed

lemma index_nat:
  "PDX1 la = unat la div 2 ^ 30 mod 512" "PDX0 la = unat la div 2 ^ 21 mod 512"
  "PTX la = unat la div 2 ^ 12 mod 512" "PPN la = unat la div 2 ^ 12"
  by (simp_all add: PDX1_def PDX0_def PTX_def PPN_def unat_and_1FF drop_bit_eq_div unat_div)

lemma index_less [simp]: "PDX1 la < 512" "PDX0 la < 512" "PTX la < 512"
  by (simp_all add: index_nat)

definition valid :: "u64 \<Rightarrow> bool" where
  "valid e = (e AND PTE_V \<noteq> 0)"

definition frame :: "u64 \<Rightarrow> nat" where
  "frame e = PPN (PTE_ADDR e)"

lemma valid_bit: "valid e = bit e 0"
  by (simp add: valid_def and_one_eq bit_0 odd_iff_mod_2_eq_one)

lemma small_bits:
  assumes "unat w < 2 ^ k" and "bit w n"
  shows "n < k"
proof (rule ccontr)
  assume "\<not> n < k"
  then have "(2 :: nat) ^ k \<le> 2 ^ n" by (intro power_increasing) auto
  then have "unat w div 2 ^ n = 0" using assms(1) by (intro div_less) (rule order.strict_trans2)
  moreover have "bit (unat w) n" using assms(2) bit_imp_le_length [OF assms(2)] by (simp add: bit_unsigned_iff)
  ultimately show False by (simp add: bit_iff_odd)
qed

lemma bit_scast_small:
  assumes "p < 0x400"
  shows "bit (scast (p :: u32) :: u64) n \<longleftrightarrow> n < 10 \<and> bit p n"
proof -
  have "bit p k \<Longrightarrow> k < 10" for k
    by (rule small_bits) (use assms in \<open>simp_all add: word_less_nat_alt\<close>)
  from this [of n] this [of 31] show ?thesis by (auto simp: bit_simps min_def)
qed

lemma bit_PTE_ADDR: "bit (PTE_ADDR e) n \<longleftrightarrow> 12 \<le> n \<and> n < 64 \<and> bit e (n - 2)"
proof -
  have g: "bit (push_bit 2 (e AND NOT x)) n \<longleftrightarrow> 2 \<le> n \<and> n < 64 \<and> bit e (n - 2) \<and> \<not> bit x (n - 2)" for x
    by (auto simp: bit_simps)
  have m: "bit (0x3FF :: u64) k \<longleftrightarrow> k < 10" for k
  proof -
    have "(0x3FF :: u64) = mask 10" by (simp add: mask_eq_exp_minus_1)
    then show ?thesis by (simp only: bit_mask_iff) auto
  qed
  show ?thesis unfolding PTE_ADDR_def g m by auto
qed

lemma pte_create_fields:
  assumes "ppn < 2 ^ 44" and "perm < 0x400"
  shows "valid (pte_create ppn perm)" "frame (pte_create ppn perm) = ppn"
    "pte_create ppn (1 OR perm) = pte_create ppn perm"
proof -
  show "valid (pte_create ppn perm)" by (simp add: valid_bit pte_create_def bit_simps)
  have small: "\<not> bit (word_of_nat ppn :: u64) n" if "44 \<le> n" for n
    using small_bits [of "word_of_nat ppn :: u64" 44 n] assms(1) that by (auto simp: unat_of_nat)
  have "drop_bit 12 (PTE_ADDR (pte_create ppn perm)) = word_of_nat ppn"
  proof (rule bit_word_eqI)
    fix n assume n: "n < LENGTH(64)"
    show "bit (drop_bit 12 (PTE_ADDR (pte_create ppn perm))) n = bit (word_of_nat ppn :: u64) n"
      unfolding bit_drop_bit_eq comp_apply bit_PTE_ADDR pte_create_def bit_or_iff bit_push_bit_iff bit_scast_small [OF assms(2)]
      using n small [of n] by (cases "44 \<le> n") (auto simp: bit_1_iff)
  qed
  then show "frame (pte_create ppn perm) = ppn" using assms(1)
    by (simp add: frame_def PPN_def unat_of_nat)
  show "pte_create ppn (1 OR perm) = pte_create ppn perm"
    by (rule bit_word_eqI) (auto simp: pte_create_def bit_simps)
qed

subsection \<open>Reading and writing entries\<close>

lemma rd_wr:
  assumes "i < 512" and "k < 512"
  shows "rd (wr s (t, i) w) (x, k) = (if (x, k) = (t, i) then w else rd s (x, k))"
proof (cases "(x, k) = (t, i)")
  case False
  have "x * 4096 + k * 8 + 8 \<le> t * 4096 + i * 8 \<or> t * 4096 + i * 8 + 8 \<le> x * 4096 + k * 8"
    using False assms by (cases x t rule: linorder_cases) auto
  then have "ld64 (st64 (mem s) (t * 4096 + i * 8) w) (x * 4096 + k * 8) = ld64 (mem s) (x * 4096 + k * 8)"
    by (intro ld64_cong) (auto simp: st64_def)
  with False show ?thesis by (auto simp: rd_def wr_def slot_addr_def)
qed (simp add: rd_def wr_def slot_addr_def)

lemma rd_zero_page:
  assumes "k < 512"
  shows "rd (zero_page s t) (x, k) = (if x = t then 0 else rd s (x, k))"
proof (cases "x = t")
  case True
  then show ?thesis using assms by (auto simp: rd_def zero_page_def slot_addr_def memset_block intro!: ld64_zero)
next
  case False
  then have "x * 4096 + k * 8 + 8 \<le> t * 4096 \<or> t * 4096 + 4096 \<le> x * 4096 + k * 8" using assms by auto
  then have "ld64 (memset (mem s) (t * 4096) NUL 4096) (x * 4096 + k * 8) = ld64 (mem s) (x * 4096 + k * 8)"
    by (intro ld64_cong) (auto simp: memset_block simp del: memset.simps)
  with False show ?thesis by (simp add: rd_def zero_page_def slot_addr_def)
qed

definition page_bytes :: "vmem \<Rightarrow> nat \<Rightarrow> char list" where
  "page_bytes s ppn = block (mem s) (ppn * 4096) 4096"

lemma rd_area [simp]: "rd (s\<lparr>area := fa\<rparr>) sl = rd s sl" "rd (set_ref s p v) sl = rd s sl"
  "rd (tlb_invalidate s la) sl = rd s sl" "mem (set_ref s p v) = mem s" "mem (tlb_invalidate s la) = mem s"
  "area (wr s sl w) = area s" "area (zero_page s t) = area s" "area (tlb_invalidate s la) = area s"
  by (simp_all add: rd_def set_ref_def tlb_invalidate_def wr_def zero_page_def)

subsection \<open>The tree of tables\<close>

fun walk :: "vmem \<Rightarrow> nat \<Rightarrow> nat list \<Rightarrow> nat option" where
  "walk s t [] = Some t"
| "walk s t (i # is) = (if valid (rd s (t, i)) then walk s (frame (rd s (t, i))) is else None)"

text \<open>
  Paths from a directory, by the indices on the way. \<open>U\<close> are the entries of the directory that belong to it alone: the entries of the
  kernel are copied from \<open>boot_pgdir\<close> into every directory, and the tables below them are shared.
\<close>

definition path :: "nat set \<Rightarrow> nat list \<Rightarrow> bool" where
  "path U p = (length p \<le> 2 \<and> (\<forall>i \<in> set p. i < 512) \<and> (p \<noteq> [] \<longrightarrow> hd p \<in> U))"

text \<open>The leaf entry of an address; 0 when a table is missing on the way.\<close>

definition mapping :: "vmem \<Rightarrow> nat \<Rightarrow> u64 \<Rightarrow> u64" where
  "mapping s r la = (case walk s r [PDX1 la, PDX0 la] of None \<Rightarrow> 0 | Some t \<Rightarrow> rd s (t, PTX la))"

lemma walk_snoc: "walk s r (p @ [i]) = (case walk s r p of None \<Rightarrow> None
    | Some t \<Rightarrow> if valid (rd s (t, i)) then Some (frame (rd s (t, i))) else None)"
  by (induction p arbitrary: r) auto

lemma walk_append: "walk s r (p @ q) = (case walk s r p of None \<Rightarrow> None | Some t \<Rightarrow> walk s t q)"
  by (induction p arbitrary: r) auto

text \<open>
  The invariant: the allocator's own; every table lies in memory on a page that is not free; and the tables
  below the entries \<open>U\<close> of the directories \<open>R\<close> form a forest: each has one path.
\<close>

definition forest :: "nat set \<Rightarrow> vmem \<Rightarrow> nat set \<Rightarrow> bool" where
  "forest U s R = (\<forall>r \<in> R. \<forall>q \<in> R. \<forall>p p' t. path U p \<longrightarrow> path U p' \<longrightarrow> walk s r p = Some t \<longrightarrow> walk s q p' = Some t \<longrightarrow> r = q \<and> p = p')"

definition table_in :: "nat set \<Rightarrow> vmem \<Rightarrow> nat set \<Rightarrow> nat \<Rightarrow> bool" where
  "table_in U s R t = (\<exists>r \<in> R. \<exists>p. path U p \<and> walk s r p = Some t)"

definition in_use :: "block list \<Rightarrow> nat \<Rightarrow> bool" where
  "in_use bs ppn = (nbase \<le> ppn \<and> ppn < npage \<and> ppn - nbase \<notin> block_pages bs)"

definition inv_in :: "nat set \<Rightarrow> vmem \<Rightarrow> block list \<Rightarrow> nat set \<Rightarrow> bool" where
  "inv_in U s bs R = (ff_inv (npage - nbase) (area s) bs \<and> forest U s R \<and> (\<forall>t. table_in U s R t \<longrightarrow> in_use bs t))"

text \<open>With all entries: directories that share nothing.\<close>

abbreviation is_table :: "vmem \<Rightarrow> nat set \<Rightarrow> nat \<Rightarrow> bool" where
  "is_table \<equiv> table_in {..<512}"

abbreviation pt_inv :: "vmem \<Rightarrow> block list \<Rightarrow> nat set \<Rightarrow> bool" where
  "pt_inv \<equiv> inv_in {..<512}"

lemma forestD: "forest U s R \<Longrightarrow> r \<in> R \<Longrightarrow> q \<in> R \<Longrightarrow> path U p \<Longrightarrow> path U p' \<Longrightarrow> walk s r p = Some t \<Longrightarrow> walk s q p' = Some t
    \<Longrightarrow> r = q \<and> p = p'"
  unfolding forest_def by blast

lemma path_simps [simp]: "path U []" "path U [i] = (i < 512 \<and> i \<in> U)" "path U [i, j] = (i < 512 \<and> i \<in> U \<and> j < 512)"
  by (auto simp: path_def)

lemma path_snocD: "path U (p @ [i]) \<Longrightarrow> path U p \<and> i < 512 \<and> length p \<le> 1"
  by (cases p) (auto simp: path_def)

lemma table_inI: "r \<in> R \<Longrightarrow> path U p \<Longrightarrow> walk s r p = Some t \<Longrightarrow> table_in U s R t"
  by (auto simp: table_in_def)

text \<open>Hanging a fresh zeroed table below an invalid entry.\<close>

lemma new_table:
  assumes f: "forest U s R" and r: "r \<in> R" and p: "path U (p @ [i])" and t: "walk s r p = Some t" and inval: "\<not> valid (rd s (t, i))"
    and c: "\<not> table_in U s R c" and e: "valid e" "frame e = c"
    and rd0: "\<forall>x k. k < 512 \<longrightarrow> rd s' (x, k) = (if (x, k) = (t, i) then e else if x = c then 0 else rd s (x, k))"
  shows "q \<in> R \<Longrightarrow> path U p' \<Longrightarrow> walk s' q p' = (if q = r \<and> p' = p @ [i] then Some c else walk s q p')"
proof (induction p' rule: rev_induct)
  case (snoc j p')
  note rd' = rd0 [rule_format]
  note pj = path_snocD [OF snoc.prems(2)]
  have IH: "walk s' q p' = (if q = r \<and> p' = p @ [i] then Some c else walk s q p')" using snoc pj by blast
  show ?case
  proof (cases "q = r \<and> p' = p @ [i]")
    case True
    have "t \<noteq> c" using table_inI [OF r _ t] p c by (auto dest: path_snocD)
    then have "rd s' (c, j) = 0" using rd' [of j c] pj by auto
    then have "walk s' q (p' @ [j]) = None" unfolding walk_snoc [of s' q p' j] IH using True by (simp add: valid_def)
    moreover have "walk s q (p' @ [j]) = None"
      unfolding walk_snoc [of s q p' j] using True t inval by (simp add: walk_snoc)
    ultimately show ?thesis using True by simp
  next
    case False
    show ?thesis
    proof (cases "walk s q p'")
      case None
      then show ?thesis using IH False t by (auto simp: walk_snoc)
    next
      case (Some x)
      have "x \<noteq> c" using table_inI [OF snoc.prems(1) _ Some] pj c by blast
      have "(x, j) = (t, i) \<longleftrightarrow> q = r \<and> p' @ [j] = p @ [i]"
      proof
        assume "(x, j) = (t, i)"
        then have "walk s r p = Some x" "j = i" using t by simp_all
        with forestD [OF f snoc.prems(1) r _ _ Some this(1)] pj path_snocD [OF p] show "q = r \<and> p' @ [j] = p @ [i]" by simp
      next
        assume "q = r \<and> p' @ [j] = p @ [i]"
        then show "(x, j) = (t, i)" using Some t by simp
      qed
      moreover have h: "walk s' q p' = Some x" using IH Some False by (simp only: if_False)
      moreover have "rd s' (x, j) = (if (x, j) = (t, i) then e else rd s (x, j))"
        using rd' [of j x] pj \<open>x \<noteq> c\<close> by simp
      ultimately show ?thesis
        unfolding walk_snoc [of s' q p' j] walk_snoc [of s q p' j] Some using e by (cases "(x, j) = (t, i)") auto
    qed
  qed
qed auto

lemma take_block_ref: "pg_ref (pages (take_block n r s) p) = pg_ref (pages s p)"
  by (cases "n < pg_property (pages s r)")
    (simp_all add: take_block_def Let_def SetPageProperty_def ClearPageProperty_def)

text \<open>Allocating one page with some page free.\<close>

lemma alloc_page_ok:
  assumes inv: "ff_inv (npage - nbase) (area s) bs" and some: "bs \<noteq> []"
  shows "\<exists>s' page bs'. alloc_page s = Some (s', Some page) \<and> s' = s\<lparr>area := area s'\<rparr>
    \<and> ff_inv (npage - nbase) (area s') bs' \<and> page \<in> block_pages bs \<and> page < npage - nbase
    \<and> block_pages bs' = block_pages bs - {page} \<and> (\<forall>p. page_ref s' p = page_ref s p)"
proof -
  obtain b k where bk: "(b, k) \<in> set bs" using some by (cases bs) auto
  have "0 < k" using blocks_ok_bounds [OF ff_inv_blocks [OF inv] bk] by auto
  then have "\<exists>(b, k) \<in> set bs. 1 \<le> k" by (intro bexI [OF _ bk]) simp
  from ff.alloc_fits [OF inv _ this] obtain fa r bs' where a: "default_alloc_pages 1 (area s) = Some (fa, Some r)"
    "ff_inv (npage - nbase) fa bs'" "{r..<r + 1} \<subseteq> block_pages bs" "block_pages bs' = block_pages bs - {r..<r + 1}"
    by auto
  have "r \<in> block_pages bs" using a(3) by auto
  moreover have "r < npage - nbase" using blocks_ok_pages [OF ff_inv_blocks [OF inv] \<open>r \<in> block_pages bs\<close>] by simp
  moreover have "{r..<r + 1} = {r}" by auto
  moreover have "page_ref (s\<lparr>area := fa\<rparr>) p = page_ref s p" for p
    using default_alloc_pages_take [OF a(1)] by (simp add: page_ref_def take_block_ref)
  ultimately show ?thesis using a
    by (intro exI [of _ "s\<lparr>area := fa\<rparr>"] exI [of _ r] exI [of _ bs']) (simp add: alloc_page_def)
qed

lemma ff_inv_set_ref: "ff_inv N (area s) bs \<Longrightarrow> ff_inv N (area (set_ref s p v)) bs"
  by (auto simp: ff_inv_def set_ref_def set_page_ref_def split_beta)

text \<open>
  What a step that only adds tables keeps: the invariant, every table on its path, the mapping of every
  address below the entries \<open>U\<close>, the other entries of the directories, and the bytes and the count of every used page that is not a table. \<open>n\<close> bounds the pages used.
\<close>

definition grows :: "nat set \<Rightarrow> nat set \<Rightarrow> vmem \<Rightarrow> block list \<Rightarrow> vmem \<Rightarrow> block list \<Rightarrow> nat \<Rightarrow> bool" where
  "grows U R s bs s' bs' n =
     (inv_in U s' bs' R \<and> (\<forall>r \<in> R. \<forall>p t. path U p \<longrightarrow> walk s r p = Some t \<longrightarrow> walk s' r p = Some t)
      \<and> (\<forall>r \<in> R. \<forall>la. PDX1 la \<in> U \<longrightarrow> mapping s' r la = mapping s r la)
      \<and> (\<forall>r \<in> R. \<forall>i < 512. i \<notin> U \<longrightarrow> rd s' (r, i) = rd s (r, i))
      \<and> block_pages bs' \<subseteq> block_pages bs \<and> card (block_pages bs) \<le> card (block_pages bs') + n
      \<and> (\<forall>t. in_use bs t \<longrightarrow> \<not> table_in U s R t \<longrightarrow> \<not> table_in U s' R t \<and> page_bytes s' t = page_bytes s t
           \<and> page_ref s' (t - nbase) = page_ref s (t - nbase))
      \<and> swap_init_ok s' = swap_init_ok s \<and> flushed s' = flushed s)"

lemma grows_refl: "inv_in U s bs R \<Longrightarrow> grows U R s bs s bs 0"
  by (simp add: grows_def)

lemma in_use_mono: "in_use bs t \<Longrightarrow> block_pages bs' \<subseteq> block_pages bs \<Longrightarrow> in_use bs' t"
  by (auto simp: in_use_def)

lemma grows_trans:
  assumes "grows U R s bs s1 bs1 m" and "grows U R s1 bs1 s2 bs2 n"
  shows "grows U R s bs s2 bs2 (m + n)"
proof -
  note d = assms [unfolded grows_def]
  have "\<not> table_in U s2 R t \<and> page_bytes s2 t = page_bytes s t \<and> page_ref s2 (t - nbase) = page_ref s (t - nbase)"
    if "in_use bs t" "\<not> table_in U s R t" for t
  proof -
    have "in_use bs1 t" using in_use_mono [OF that(1)] d(1) by blast
    then show ?thesis using d that by simp
  qed
  moreover have "card (block_pages bs) \<le> card (block_pages bs2) + (m + n)" using d by linarith
  moreover have "block_pages bs2 \<subseteq> block_pages bs" using d by blast
  ultimately show ?thesis unfolding grows_def using d by simp
qed

lemma walk_new_table:
  assumes inv: "inv_in U s bs R" and r: "r \<in> R" "path U (p @ [i])" "walk s r p = Some t" "\<not> valid (rd s (t, i))"
    and c: "\<not> table_in U s R c" "valid e" "frame e = c"
    and rd0: "\<forall>x k. k < 512 \<longrightarrow> rd s' (x, k) = (if (x, k) = (t, i) then e else if x = c then 0 else rd s (x, k))"
  shows "forest U s' R" "\<And>x. table_in U s' R x \<Longrightarrow> x = c \<or> table_in U s R x" "walk s' r (p @ [i]) = Some c"
    "\<And>q p' x. q \<in> R \<Longrightarrow> path U p' \<Longrightarrow> walk s q p' = Some x \<Longrightarrow> walk s' q p' = Some x"
    "\<And>q la. q \<in> R \<Longrightarrow> PDX1 la \<in> U \<Longrightarrow> mapping s' q la = mapping s q la"
    "\<And>q k. q \<in> R \<Longrightarrow> k < 512 \<Longrightarrow> k \<notin> U \<Longrightarrow> rd s' (q, k) = rd s (q, k)"
proof -
  have f: "forest U s R" using inv by (simp add: inv_in_def)
  note rd' = rd0 [rule_format]
  note W = new_table [OF f r c rd0]
  have none: "walk s r (p @ [i]) = None" using r by (simp add: walk_snoc)
  show fs': "forest U s' R" unfolding forest_def
  proof (intro ballI allI impI)
    fix q q' p1 p2 x
    assume a: "q \<in> R" "q' \<in> R" "path U p1" "path U p2" "walk s' q p1 = Some x" "walk s' q' p2 = Some x"
    show "q = q' \<and> p1 = p2"
    proof (cases "q = r \<and> p1 = p @ [i]")
      case True
      then have "x = c" using W [of q p1] a by simp
      then have "q' = r \<and> p2 = p @ [i]" using W [of q' p2] a c(1) table_inI [OF a(2,4)] by (auto split: if_splits)
      with True show ?thesis by simp
    next
      case False
      then have x: "walk s q p1 = Some x" using W [of q p1] a by auto
      then have "x \<noteq> c" using table_inI [OF a(1,3)] c(1) by blast
      then have "walk s q' p2 = Some x" using W [of q' p2] a by (auto split: if_splits)
      with x forestD [OF f a(1-4)] show ?thesis by blast
    qed
  qed
  show "x = c \<or> table_in U s R x" if "table_in U s' R x" for x
    using that W unfolding table_in_def by (metis option.inject)
  show "walk s' r (p @ [i]) = Some c" using W [of r "p @ [i]"] r by simp
  show keep: "walk s' q p' = Some x" if "q \<in> R" "path U p'" "walk s q p' = Some x" for q p' x
    using W [of q p'] that none by auto
  show "rd s' (q, k) = rd s (q, k)" if "q \<in> R" "k < 512" "k \<notin> U" for q k
  proof -
    have "q \<noteq> c" using table_inI [OF that(1), of U "[]"] c(1) by auto
    moreover have "(q, k) \<noteq> (t, i)"
    proof
      assume "(q, k) = (t, i)"
      then have "p = []" using forestD [OF f that(1) r(1) _ _ _ r(3), of "[]"] path_snocD [OF r(2)] by auto
      then show False using r(2) that(3) \<open>(q, k) = (t, i)\<close> by simp
    qed
    ultimately show ?thesis using rd' [OF that(2), of q] by auto
  qed
  fix q la assume q: "q \<in> R" and la: "PDX1 la \<in> U"
  let ?p = "[PDX1 la, PDX0 la]"
  show "mapping s' q la = mapping s q la"
  proof (cases "q = r \<and> ?p = p @ [i]")
    case True
    have "walk s' r (p @ [i]) = Some c" using W [of r "p @ [i]"] r by simp
    with True none have "walk s' q ?p = Some c" "walk s q ?p = None" by (simp_all only:)
    moreover have "t \<noteq> c" using table_inI [OF r(1) _ r(3)] r(2) c(1) by (auto dest: path_snocD)
    ultimately show ?thesis using rd' [of "PTX la" c] by (simp add: mapping_def)
  next
    case False
    have "path U ?p" using la by simp
    from W [OF q this] False have w: "walk s' q ?p = walk s q ?p" by (simp only: if_False)
    show ?thesis
    proof (cases "walk s q ?p")
      case (Some x)
      have "x \<noteq> c" using table_inI [OF q _ Some] la c(1) by auto
      moreover have "x \<noteq> t"
        using forestD [OF f q r(1) _ _ Some] la r(3) path_snocD [OF r(2)] by force
      ultimately show ?thesis using w Some rd' [of "PTX la" x] by (simp add: mapping_def)
    qed (use w in \<open>simp add: mapping_def\<close>)
  qed
qed

text \<open>One level of \<open>get_pte\<close> with pages available.\<close>

lemma next_table_valid:
  assumes "inv_in U s bs R" and "r \<in> R" and "path U (p @ [i])" and "walk s r p = Some t" and "valid (rd s (t, i))"
  shows "next_table s (t, i) create = Some (s, Some (frame (rd s (t, i)))) \<and> walk s r (p @ [i]) = Some (frame (rd s (t, i)))"
proof -
  have w: "walk s r (p @ [i]) = Some (frame (rd s (t, i)))" using assms by (simp add: walk_snoc)
  then have "frame (rd s (t, i)) < npage"
    using assms(1) table_inI [OF assms(2,3) w] by (simp add: inv_in_def in_use_def)
  then show ?thesis using w assms(5) by (simp add: next_table_def frame_def valid_def)
qed

lemma next_table_missing:
  assumes "\<not> valid (rd s sl)"
  shows "next_table s sl False = Some (s, None)"
  using assms by (simp add: next_table_def valid_def)

lemma next_table_create:
  assumes inv: "inv_in U s bs R" and r: "r \<in> R" "path U (p @ [i])" "walk s r p = Some t" "\<not> valid (rd s (t, i))" and some: "bs \<noteq> []"
  shows "\<exists>s' bs' c. next_table s (t, i) True = Some (s', Some c) \<and> walk s' r (p @ [i]) = Some c \<and> grows U R s bs s' bs' 1"
proof -
  have ff: "ff_inv (npage - nbase) (area s) bs" and tabs: "\<And>x. table_in U s R x \<Longrightarrow> in_use bs x"
    using inv by (simp_all add: inv_in_def)
  obtain s1 page bs' where a: "alloc_page s = Some (s1, Some page)" "s1 = s\<lparr>area := area s1\<rparr>"
    "ff_inv (npage - nbase) (area s1) bs'" "page \<in> block_pages bs" "page < npage - nbase"
    "block_pages bs' = block_pages bs - {page}" "\<And>p. page_ref s1 p = page_ref s p"
    using alloc_page_ok [OF ff some] by blast
  define c where "c = page2ppn page"
  have c: "c < npage" "nbase \<le> c" "c - nbase = page" using a(5) by (auto simp: c_def page2ppn_def npage_def nbase_def)
  have c44: "c < 2 ^ 44" using c by (simp add: npage_def)
  define e where "e = pte_create c 17"
  have e: "valid e" "frame e = c" using pte_create_fields [OF c44, of 17] by (simp_all add: e_def)
  define s' where "s' = wr (zero_page (set_ref s1 page 1) c) (t, i) e"
  have i: "i < 512" using r(2) by (auto dest: path_snocD)
  have rds1: "rd s1 sl = rd s sl" for sl by (subst a(2)) simp
  have rd': "rd s' (x, k) = (if (x, k) = (t, i) then e else if x = c then 0 else rd s (x, k))" if "k < 512" for x k
    using that i rds1 by (simp add: s'_def rd_wr rd_zero_page)
  have nt: "\<not> table_in U s R c" using tabs [of c] a(4) c by (auto simp: in_use_def)
  have "\<forall>x k. k < 512 \<longrightarrow> rd s' (x, k) = (if (x, k) = (t, i) then e else if x = c then 0 else rd s (x, k))"
    using rd' by blast
  note W = walk_new_table [OF inv r nt e this]
  have n: "next_table s (t, i) True = Some (s', Some c)"
    using a(1) r(4) c(1) rd' [OF i, of t] e
    by (simp add: next_table_def valid_def c_def [symmetric] e_def [symmetric] s'_def [symmetric] frame_def)
  have area: "ff_inv (npage - nbase) (area s') bs'" using ff_inv_set_ref [OF a(3)] by (simp add: s'_def)
  have ct: "t \<noteq> c" using table_inI [OF r(1) _ r(3)] r(2) nt by (auto dest: path_snocD)
  have tabs': "in_use bs' x" if "table_in U s' R x" for x
    using W(2) [OF that] tabs [of x] c a(6) by (auto simp: in_use_def)
  have others: "\<not> table_in U s' R x \<and> page_bytes s' x = page_bytes s x \<and> page_ref s' (x - nbase) = page_ref s (x - nbase)"
    if x: "in_use bs x" "\<not> table_in U s R x" for x
  proof -
    have xc: "x \<noteq> c" using x(1) a(4) c by (auto simp: in_use_def)
    have xt: "x \<noteq> t" using x(2) table_inI [OF r(1) _ r(3)] r(2) by (auto dest: path_snocD)
    have "mem s' a = mem s a" if "x * 4096 \<le> a" "a < x * 4096 + 4096" for a
    proof -
      have "\<not> (c * 4096 \<le> a \<and> a < c * 4096 + 4096)" using xc that by auto
      moreover have "\<not> (t * 4096 + i * 8 \<le> a \<and> a < t * 4096 + i * 8 + 8)" using xt that i by auto
      moreover have "mem s1 = mem s" by (subst a(2)) simp
      ultimately show ?thesis by (auto simp: s'_def wr_def zero_page_def slot_addr_def st64_def memset_block simp del: memset.simps)
    qed
    then have "page_bytes s' x = page_bytes s x" by (auto simp: page_bytes_def intro!: block_cong)
    moreover have "\<not> table_in U s' R x" using W(2) [of x] x(2) xc by blast
    moreover have "x - nbase \<noteq> page" using x(1) a(4) by (auto simp: in_use_def)
    then have "page_ref s' (x - nbase) = page_ref s (x - nbase)"
      using a(7) by (simp add: s'_def page_ref_def set_ref_def set_page_ref_def wr_def zero_page_def)
    ultimately show ?thesis by blast
  qed
  have "finite (block_pages bs)" by (auto simp: block_pages_def)
  then have card: "card (block_pages bs) \<le> card (block_pages bs') + 1" using a(4,6) by (simp add: card_Diff_singleton_if)
  have "swap_init_ok s' = swap_init_ok s" "flushed s' = flushed s"
    by (simp_all add: s'_def wr_def zero_page_def set_ref_def, (subst a(2), simp)+)
  with W(1,4,5,6) area tabs' others card a(6) have "grows U R s bs s' bs' 1"
    unfolding grows_def inv_in_def by auto
  with n W(3) show ?thesis by blast
qed

lemma grows_mono: "grows U R s bs s' bs' m \<Longrightarrow> m \<le> n \<Longrightarrow> grows U R s bs s' bs' n"
  by (simp add: grows_def)

lemma growsD:
  assumes "grows U R s bs s' bs' n"
  shows "inv_in U s' bs' R" "r \<in> R \<Longrightarrow> path U p \<Longrightarrow> walk s r p = Some t \<Longrightarrow> walk s' r p = Some t"
    "r \<in> R \<Longrightarrow> PDX1 la \<in> U \<Longrightarrow> mapping s' r la = mapping s r la" "block_pages bs' \<subseteq> block_pages bs"
    "card (block_pages bs) \<le> card (block_pages bs') + n"
    "in_use bs x \<Longrightarrow> \<not> table_in U s R x \<Longrightarrow> \<not> table_in U s' R x"
    "in_use bs x \<Longrightarrow> \<not> table_in U s R x \<Longrightarrow> page_bytes s' x = page_bytes s x"
    "in_use bs x \<Longrightarrow> \<not> table_in U s R x \<Longrightarrow> page_ref s' (x - nbase) = page_ref s (x - nbase)"
    "flushed s' = flushed s" "swap_init_ok s' = swap_init_ok s"
    "r \<in> R \<Longrightarrow> i < 512 \<Longrightarrow> i \<notin> U \<Longrightarrow> rd s' (r, i) = rd s (r, i)"
  using assms unfolding grows_def by simp_all

lemma next_level:
  assumes "inv_in U s bs R" and "r \<in> R" and "path U (p @ [i])" and "walk s r p = Some t" and "bs \<noteq> []"
  shows "\<exists>s' bs' c. next_table s (t, i) True = Some (s', Some c) \<and> walk s' r (p @ [i]) = Some c \<and> grows U R s bs s' bs' 1"
proof (cases "valid (rd s (t, i))")
  case True
  then show ?thesis using next_table_valid [OF assms(1-4) True] grows_mono [OF grows_refl [OF assms(1)]] by blast
next
  case False
  then show ?thesis using next_table_create [OF assms(1-4) False assms(5)] by blast
qed

lemma pages_nonempty: "0 < card (block_pages bs) \<Longrightarrow> bs \<noteq> []"
  by (auto simp: block_pages_def)

lemma get_pte_create:
  assumes inv: "inv_in U s bs R" and r: "r \<in> R" and la: "PDX1 la \<in> U" and n: "2 \<le> card (block_pages bs)"
  shows "\<exists>s' bs' t. get_pte s r la True = Some (s', Some (t, PTX la)) \<and> walk s' r [PDX1 la, PDX0 la] = Some t
    \<and> grows U R s bs s' bs' 2"
proof -
  have p: "path U ([] @ [PDX1 la])" "path U ([PDX1 la] @ [PDX0 la])" using la by simp_all
  have ne: "bs \<noteq> []" by (rule pages_nonempty) (use n in linarith)
  obtain s1 bs1 t0 where 1: "next_table s (r, PDX1 la) True = Some (s1, Some t0)" "walk s1 r ([] @ [PDX1 la]) = Some t0"
    "grows U R s bs s1 bs1 1"
    using next_level [OF inv r p(1) _ ne] by auto
  have "bs1 \<noteq> []" using growsD(5) [OF 1(3)] n by (intro pages_nonempty) linarith
  from next_level [OF growsD(1) [OF 1(3)] r p(2) _ this] 1(2)
  obtain s2 bs2 t where 2: "next_table s1 (t0, PDX0 la) True = Some (s2, Some t)" "walk s2 r ([PDX1 la] @ [PDX0 la]) = Some t"
    "grows U R s1 bs1 s2 bs2 1"
    by (simp only: append.simps) blast
  have "grows U R s bs s2 bs2 2" using grows_trans [OF 1(3) 2(3)] by (simp add: numeral_2_eq_2)
  with 1(1) 2(1,2) show ?thesis by (auto simp: get_pte_def simp del: walk.simps)
qed

lemma get_pte_lookup:
  assumes inv: "inv_in U s bs R" and r: "r \<in> R" and la: "PDX1 la \<in> U"
  shows "get_pte s r la False = Some (s, map_option (\<lambda>t. (t, PTX la)) (walk s r [PDX1 la, PDX0 la]))"
proof (cases "valid (rd s (r, PDX1 la))")
  case False
  then show ?thesis by (simp add: get_pte_def next_table_missing)
next
  case True
  have p: "path U ([] @ [PDX1 la])" "path U ([PDX1 la] @ [PDX0 la])" using la by simp_all
  let ?t0 = "frame (rd s (r, PDX1 la))"
  from next_table_valid [OF inv r p(1) _ True]
  have 1: "next_table s (r, PDX1 la) False = Some (s, Some ?t0)" "walk s r [PDX1 la] = Some ?t0" by simp_all
  show ?thesis
  proof (cases "valid (rd s (?t0, PDX0 la))")
    case False
    then show ?thesis using 1 True by (simp add: get_pte_def next_table_missing)
  next
    case v: True
    from next_table_valid [OF inv r p(2) 1(2) v] have "next_table s (?t0, PDX0 la) False = Some (s, Some (frame (rd s (?t0, PDX0 la))))"
      by simp
    with 1 True v show ?thesis by (simp add: get_pte_def)
  qed
qed

text \<open>Writing a leaf entry.\<close>

definition same_page :: "u64 \<Rightarrow> u64 \<Rightarrow> bool" where
  "same_page a b = (PDX1 a = PDX1 b \<and> PDX0 a = PDX0 b \<and> PTX a = PTX b)"

lemma set_leaf:
  assumes inv: "inv_in U s bs R" and r: "r \<in> R" and la: "PDX1 la \<in> U" and t: "walk s r [PDX1 la, PDX0 la] = Some t"
    and s'_def: "s' = wr s (t, PTX la) e"
  shows "inv_in U s' bs R" "\<And>x. table_in U s' R x = table_in U s R x"
    "q \<in> R \<Longrightarrow> PDX1 la' \<in> U \<Longrightarrow> mapping s' q la' = (if q = r \<and> same_page la' la then e else mapping s q la')"
    "\<not> table_in U s R x \<Longrightarrow> page_bytes s' x = page_bytes s x"
    "q \<in> R \<Longrightarrow> path U p' \<Longrightarrow> walk s' q p' = walk s q p'"
    "q \<in> R \<Longrightarrow> i < 512 \<Longrightarrow> i \<notin> U \<Longrightarrow> rd s' (q, i) = rd s (q, i)"
proof -
  have f: "forest U s R" using inv by (simp add: inv_in_def)
  have pl: "path U [PDX1 la, PDX0 la]" using la by simp
  have W: "walk s' q p' = walk s q p'" if "q \<in> R" "path U p'" for q p'
    using that
  proof (induction p' rule: rev_induct)
    case (snoc j p')
    note pj = path_snocD [OF snoc.prems(2)]
    have IH: "walk s' q p' = walk s q p'" using snoc pj by blast
    have "rd s' (x, j) = rd s (x, j)" if "walk s q p' = Some x" for x
    proof -
      have "x \<noteq> t" using forestD [OF f snoc.prems(1) r _ pl that] t pj by force
      then show ?thesis using pj by (simp add: s'_def rd_wr)
    qed
    then show ?case unfolding walk_snoc IH by (simp split: option.split)
  qed simp
  then have "forest U s' R" using f unfolding forest_def by simp
  moreover show tabs: "\<And>x. table_in U s' R x = table_in U s R x" using W unfolding table_in_def by metis
  moreover have "area s' = area s" by (simp add: s'_def)
  ultimately show "inv_in U s' bs R" using inv by (simp add: inv_in_def)
  show "walk s' q p' = walk s q p'" if "q \<in> R" "path U p'" using W that .
  show "rd s' (q, i) = rd s (q, i)" if "q \<in> R" "i < 512"
  proof -
    have "q \<noteq> t" using forestD [OF f that(1) r _ pl, of "[]"] t by auto
    then show ?thesis using that(2) by (simp add: s'_def rd_wr)
  qed
  show "mapping s' q la' = (if q = r \<and> same_page la' la then e else mapping s q la')" if q: "q \<in> R" and la': "PDX1 la' \<in> U"
  proof (cases "walk s q [PDX1 la', PDX0 la']")
    case None
    have pl': "path U [PDX1 la', PDX0 la']" using la' by simp
    show ?thesis using None W [OF q pl'] t unfolding mapping_def same_page_def by (auto simp del: walk.simps)
  next
    case (Some x)
    have pl': "path U [PDX1 la', PDX0 la']" using la' by simp
    have x: "x = t \<longleftrightarrow> q = r \<and> PDX1 la' = PDX1 la \<and> PDX0 la' = PDX0 la"
    proof
      assume "x = t"
      with forestD [OF f q r pl' pl Some] t show "q = r \<and> PDX1 la' = PDX1 la \<and> PDX0 la' = PDX0 la" by blast
    next
      assume "q = r \<and> PDX1 la' = PDX1 la \<and> PDX0 la' = PDX0 la"
      then have "walk s q [PDX1 la', PDX0 la'] = Some t" using t by (simp only:)
      with Some show "x = t" by (simp only: option.inject)
    qed
    have "walk s' q [PDX1 la', PDX0 la'] = Some x" using W [OF q pl'] Some by (simp only:)
    then have m: "mapping s' q la' = rd s' (x, PTX la')" "mapping s q la' = rd s (x, PTX la')"
      using Some unfolding mapping_def by (simp_all only: option.case)
    have "rd s' (x, PTX la') = (if (x, PTX la') = (t, PTX la) then e else rd s (x, PTX la'))" by (simp add: s'_def rd_wr)
    then show ?thesis using x unfolding m same_page_def by auto
  qed
  show "page_bytes s' x = page_bytes s x" if "\<not> table_in U s R x"
  proof -
    have "x \<noteq> t" using that table_inI [OF r pl t] by auto
    have "\<not> (t * 4096 + PTX la * 8 \<le> a \<and> a < t * 4096 + PTX la * 8 + 8)" if "x * 4096 \<le> a" "a < x * 4096 + 4096" for a
    proof
      assume b: "t * 4096 + PTX la * 8 \<le> a \<and> a < t * 4096 + PTX la * 8 + 8"
      have i: "PTX la < 512" by simp
      from \<open>x \<noteq> t\<close> consider "x + 1 \<le> t" | "t + 1 \<le> x" by linarith
      then show False using that b i by cases linarith+
    qed
    then show ?thesis by (auto simp: page_bytes_def s'_def wr_def slot_addr_def st64_def intro!: block_cong)
  qed
qed

subsection \<open>Inserting a page\<close>

lemma pt_inv_set_ref: "inv_in U s bs R \<Longrightarrow> inv_in U (set_ref s p v) bs R"
proof -
  have "walk (set_ref s p v) r q = walk s r q" for r q by (induction q arbitrary: r) auto
  then show "inv_in U s bs R \<Longrightarrow> inv_in U (set_ref s p v) bs R"
    using ff_inv_set_ref by (simp add: inv_in_def forest_def table_in_def)
qed

lemma set_ref_same:
  "walk (set_ref s p v) r q = walk s r q" "mapping (set_ref s p v) r la = mapping s r la"
  "table_in U (set_ref s p v) R t = table_in U s R t" "page_bytes (set_ref s p v) t = page_bytes s t"
  "page_ref (set_ref s p v) x = (if x = p then v else page_ref s x)"
proof -
  show w: "walk (set_ref s p v) r q = walk s r q" for r q by (induction q arbitrary: r) auto
  show "mapping (set_ref s p v) r la = mapping s r la" by (simp add: mapping_def w del: walk.simps split: option.split)
  show "table_in U (set_ref s p v) R t = table_in U s R t" by (simp add: table_in_def w)
  show "page_bytes (set_ref s p v) t = page_bytes s t" by (simp add: page_bytes_def)
  show "page_ref (set_ref s p v) x = (if x = p then v else page_ref s x)"
    by (simp add: page_ref_def set_ref_def set_page_ref_def)
qed

lemma tlb_same:
  "walk (tlb_invalidate s a) r q = walk s r q" "mapping (tlb_invalidate s a) r la = mapping s r la"
  "table_in U (tlb_invalidate s a) R t = table_in U s R t" "page_bytes (tlb_invalidate s a) t = page_bytes s t"
  "page_ref (tlb_invalidate s a) x = page_ref s x" "inv_in U (tlb_invalidate s a) bs R = inv_in U s bs R"
proof -
  show w: "walk (tlb_invalidate s a) r q = walk s r q" for r q by (induction q arbitrary: r) auto
  show "mapping (tlb_invalidate s a) r la = mapping s r la" by (simp add: mapping_def w del: walk.simps split: option.split)
  show t: "table_in U (tlb_invalidate s a) R t = table_in U s R t" for t by (simp add: table_in_def w)
  show "page_bytes (tlb_invalidate s a) t = page_bytes s t" by (simp add: page_bytes_def)
  show "page_ref (tlb_invalidate s a) x = page_ref s x" by (simp add: page_ref_def)
  show "inv_in U (tlb_invalidate s a) bs R = inv_in U s bs R" by (simp add: inv_in_def forest_def w t)
qed

text \<open>
  The result of mapping \<open>page\<close> at an address that had no valid entry: the entry is set, every other address
  of every directory keeps its mapping, the page is counted, and pages that are neither free nor tables
  keep their bytes.
\<close>

definition mapped_on :: "nat set \<Rightarrow> nat set \<Rightarrow> vmem \<Rightarrow> block list \<Rightarrow> nat \<Rightarrow> nat \<Rightarrow> u64 \<Rightarrow> u64 \<Rightarrow> vmem \<Rightarrow> block list \<Rightarrow> nat \<Rightarrow> bool" where
  "mapped_on U R s bs r page la e s' bs' n =
     (inv_in U s' bs' R \<and> block_pages bs' \<subseteq> block_pages bs \<and> card (block_pages bs) \<le> card (block_pages bs') + n
      \<and> (\<forall>q \<in> R. \<forall>la'. PDX1 la' \<in> U \<longrightarrow> mapping s' q la' = (if q = r \<and> same_page la' la then e else mapping s q la'))
      \<and> (\<forall>q \<in> R. \<forall>i < 512. i \<notin> U \<longrightarrow> rd s' (q, i) = rd s (q, i))
      \<and> page_ref s' page = page_ref s page + 1
      \<and> (\<forall>t. in_use bs t \<longrightarrow> \<not> table_in U s R t \<longrightarrow> \<not> table_in U s' R t \<and> page_bytes s' t = page_bytes s t)
      \<and> swap_init_ok s' = swap_init_ok s \<and> flushed s' = la # flushed s)"

text \<open>The same for directories that share nothing.\<close>

definition mapped_at :: "nat set \<Rightarrow> vmem \<Rightarrow> block list \<Rightarrow> nat \<Rightarrow> nat \<Rightarrow> u64 \<Rightarrow> u64 \<Rightarrow> vmem \<Rightarrow> block list \<Rightarrow> nat \<Rightarrow> bool" where
  "mapped_at R s bs r page la e s' bs' n =
     (pt_inv s' bs' R \<and> block_pages bs' \<subseteq> block_pages bs \<and> card (block_pages bs) \<le> card (block_pages bs') + n
      \<and> (\<forall>q \<in> R. \<forall>la'. mapping s' q la' = (if q = r \<and> same_page la' la then e else mapping s q la'))
      \<and> page_ref s' page = page_ref s page + 1
      \<and> (\<forall>t. in_use bs t \<longrightarrow> \<not> is_table s R t \<longrightarrow> \<not> is_table s' R t \<and> page_bytes s' t = page_bytes s t)
      \<and> swap_init_ok s' = swap_init_ok s \<and> flushed s' = la # flushed s)"

lemma mapped_at_all: "mapped_on {..<512} R s bs r page la e s' bs' n \<Longrightarrow> mapped_at R s bs r page la e s' bs' n"
  unfolding mapped_on_def mapped_at_def by simp

lemma page_insert_at:
  assumes r: "r \<in> R" "PDX1 la \<in> U"
    and g: "get_pte s r la True = Some (s1, Some (t, PTX la))" "walk s1 r [PDX1 la, PDX0 la] = Some t" "grows U R s bs s1 bs1 n"
    and new: "\<not> valid (mapping s r la)" and page: "in_use bs (page2ppn page)" "\<not> table_in U s R (page2ppn page)"
  shows "\<exists>s'. page_insert s r page la perm = Some (s', 0)
    \<and> mapped_on U R s bs r page la (pte_create (page2ppn page) (1 OR perm)) s' bs1 n"
proof -
  note G = growsD [OF g(3)]
  define s2 where "s2 = page_ref_inc s1 page"
  have s2: "inv_in U s2 bs1 R" "walk s2 r [PDX1 la, PDX0 la] = Some t"
    unfolding s2_def page_ref_inc_def using pt_inv_set_ref [OF G(1)] g(2) by (simp_all only: set_ref_same)
  have rd2: "rd s2 (t, PTX la) = mapping s r la"
  proof -
    have "mapping s2 r la = mapping s r la"
      unfolding s2_def page_ref_inc_def set_ref_same by (rule G(3) [OF r])
    then show ?thesis using s2(2) unfolding mapping_def by (simp only: option.case)
  qed
  define e where "e = pte_create (page2ppn page) (1 OR perm)"
  define s3 where "s3 = wr s2 (t, PTX la) e"
  note L = set_leaf [OF s2(1) r s2(2) s3_def]
  have rd1: "rd s2 sl = rd s1 sl" for sl by (simp add: s2_def page_ref_inc_def)
  have run: "page_insert s r page la perm = Some (tlb_invalidate s3 la, 0)"
    using g(1) new rd2 by (simp add: page_insert_def s2_def [symmetric] s3_def e_def valid_def)
  have same2: "table_in U s2 R x = table_in U s1 R x" "mapping s2 q a = mapping s1 q a" "page_bytes s2 x = page_bytes s1 x" for x q a
    by (simp_all only: s2_def page_ref_inc_def set_ref_same)
  have "mapping (tlb_invalidate s3 la) q la' = (if q = r \<and> same_page la' la then e else mapping s q la')"
    if q: "q \<in> R" "PDX1 la' \<in> U" for q la'
    unfolding tlb_same L(3) [OF q] same2 G(3) [OF q] by (rule refl)
  moreover have "rd (tlb_invalidate s3 la) (q, i) = rd s (q, i)" if "q \<in> R" "i < 512" "i \<notin> U" for q i
    using L(6) [OF that] G(11) [OF that] rd1 by simp
  moreover have "page_ref (tlb_invalidate s3 la) page = page_ref s page + 1"
  proof -
    have "page_ref s1 page = page_ref s page" using G(8) [OF page] by (simp add: page2ppn_def)
    moreover have "page_ref s3 page = page_ref s2 page" by (simp add: s3_def page_ref_def)
    ultimately show ?thesis by (simp add: tlb_same s2_def page_ref_inc_def set_ref_same)
  qed
  moreover have "\<not> table_in U (tlb_invalidate s3 la) R x \<and> page_bytes (tlb_invalidate s3 la) x = page_bytes s x"
    if "in_use bs x" "\<not> table_in U s R x" for x
    using G(6,7) [OF that] L(2,4) [of x] unfolding tlb_same same2 by simp
  moreover have "swap_init_ok s3 = swap_init_ok s" "flushed (tlb_invalidate s3 la) = la # flushed s"
    using G(9,10) by (simp_all add: s3_def s2_def wr_def page_ref_inc_def set_ref_def tlb_invalidate_def)
  ultimately have "mapped_on U R s bs r page la e (tlb_invalidate s3 la) bs1 n"
    unfolding mapped_on_def using L(1) G(4,5) by (simp add: tlb_same) (simp add: tlb_invalidate_def)
  with run show ?thesis unfolding e_def by blast
qed

lemma get_pte_present:
  assumes inv: "inv_in U s bs R" and r: "r \<in> R" and la: "PDX1 la \<in> U" and w: "walk s r [PDX1 la, PDX0 la] = Some t"
  shows "get_pte s r la True = Some (s, Some (t, PTX la))"
proof -
  have p: "path U ([] @ [PDX1 la])" "path U ([PDX1 la] @ [PDX0 la])" using la by simp_all
  let ?t0 = "frame (rd s (r, PDX1 la))"
  have v: "valid (rd s (r, PDX1 la))" "valid (rd s (?t0, PDX0 la))" "t = frame (rd s (?t0, PDX0 la))"
    using w by (auto split: if_splits)
  from next_table_valid [OF inv r p(1) _ v(1)]
  have 1: "next_table s (r, PDX1 la) True = Some (s, Some ?t0)" "walk s r [PDX1 la] = Some ?t0" by simp_all
  from next_table_valid [OF inv r p(2) 1(2) v(2)] have "next_table s (?t0, PDX0 la) True = Some (s, Some t)"
    using v(3) by simp
  with 1 show ?thesis by (simp add: get_pte_def)
qed

lemma same_tables:
  assumes eq: "\<forall>t i. table_in U s R t \<longrightarrow> i < 512 \<longrightarrow> rd s' (t, i) = rd s (t, i)"
  shows "q \<in> R \<Longrightarrow> path U p \<Longrightarrow> walk s' q p = walk s q p" "table_in U s' R x = table_in U s R x"
    "q \<in> R \<Longrightarrow> PDX1 la \<in> U \<Longrightarrow> mapping s' q la = mapping s q la"
    "q \<in> R \<Longrightarrow> i < 512 \<Longrightarrow> rd s' (q, i) = rd s (q, i)"
proof -
  show "q \<in> R \<Longrightarrow> i < 512 \<Longrightarrow> rd s' (q, i) = rd s (q, i)" using eq table_inI [of q R U "[]" s q] by simp
  have W: "walk s' q p = walk s q p" if "q \<in> R" "path U p" for q p
    using that
  proof (induction p rule: rev_induct)
    case (snoc j p)
    note pj = path_snocD [OF snoc.prems(2)]
    have IH: "walk s' q p = walk s q p" using snoc pj by blast
    have "rd s' (x, j) = rd s (x, j)" if "walk s q p = Some x" for x
      using eq table_inI [OF snoc.prems(1) _ that] pj by blast
    then show ?case unfolding walk_snoc IH by (simp split: option.split)
  qed simp
  show "q \<in> R \<Longrightarrow> path U p \<Longrightarrow> walk s' q p = walk s q p" by (rule W)
  show "table_in U s' R x = table_in U s R x" using W unfolding table_in_def by metis
  show "mapping s' q la = mapping s q la" if q: "q \<in> R" and la: "PDX1 la \<in> U"
  proof -
    have p: "path U [PDX1 la, PDX0 la]" using la by simp
    have "rd s' (x, PTX la) = rd s (x, PTX la)" if "walk s q [PDX1 la, PDX0 la] = Some x" for x
      using eq table_inI [OF q p that] by simp
    then show ?thesis unfolding mapping_def W [OF q p] by (simp split: option.split del: walk.simps)
  qed
qed

text \<open>Writing the bytes of a page that is no table.\<close>

lemma fill_page:
  assumes c: "\<not> table_in U s R c" and s': "s' = s\<lparr>mem := memcpy (mem s) (c * 4096) (d * 4096) 4096\<rparr>"
  shows "table_in U s R t \<Longrightarrow> i < 512 \<Longrightarrow> rd s' (t, i) = rd s (t, i)" "x \<noteq> c \<Longrightarrow> page_bytes s' x = page_bytes s x"
    "page_bytes s' c = page_bytes s d"
proof -
  have out: "mem s' a = mem s a" if "a < c * 4096 \<or> c * 4096 + 4096 \<le> a" for a
    using that memcpy_frame by (simp add: s')
  show "rd s' (t, i) = rd s (t, i)" if "table_in U s R t" "i < 512"
  proof -
    have "t + 1 \<le> c \<or> c + 1 \<le> t" using c that(1) by (metis Suc_eq_plus1 Suc_leI linorder_neqE_nat)
    then have "t * 4096 + i * 8 + 8 \<le> c * 4096 \<or> c * 4096 + 4096 \<le> t * 4096 + i * 8" using that(2) by linarith
    then show ?thesis unfolding rd_def slot_addr_def by (intro ld64_cong out) auto
  qed
  show "page_bytes s' x = page_bytes s x" if "x \<noteq> c"
  proof -
    have "x + 1 \<le> c \<or> c + 1 \<le> x" using that by linarith
    then show ?thesis unfolding page_bytes_def by (intro block_cong out) linarith
  qed
  have "mem s' (c * 4096 + i) = mem s (d * 4096 + i)" if "i < 4096" for i
  proof (cases "c = d")
    case False
    then have "c * 4096 \<le> d * 4096 \<or> d * 4096 + 4096 \<le> c * 4096" by linarith
    then show ?thesis using memcpy_forward that by (simp add: s')
  next
    case True
    then show ?thesis using memcpy_forward [of "c * 4096" "d * 4096" 4096 i] that by (simp add: s')
  qed
  then show "page_bytes s' c = page_bytes s d" by (simp add: page_bytes_def block_def)
qed

subsection \<open>Copying an address range\<close>

lemma pte2page_ok: "valid e \<Longrightarrow> in_use bs (frame e) \<Longrightarrow> pte2page e = Some (frame e - nbase) \<and> page2ppn (frame e - nbase) = frame e"
  by (simp add: pte2page_def pa2page_def valid_def in_use_def frame_def page2ppn_def)

lemma mapping_walk: "walk s r [PDX1 la, PDX0 la] = Some t \<Longrightarrow> mapping s r la = rd s (t, PTX la)"
  by (simp add: mapping_def del: walk.simps)

definition perm_of :: "u64 \<Rightarrow> u32" where
  "perm_of e = ucast (e AND PTE_USER)"

text \<open>What copying one page, or several, keeps.\<close>

definition kept :: "nat set \<Rightarrow> nat set \<Rightarrow> vmem \<Rightarrow> block list \<Rightarrow> vmem \<Rightarrow> block list \<Rightarrow> nat \<Rightarrow> bool" where
  "kept U R s bs s' bs' n =
     (inv_in U s' bs' R \<and> block_pages bs' \<subseteq> block_pages bs \<and> card (block_pages bs) \<le> card (block_pages bs') + n
      \<and> (\<forall>t. in_use bs t \<longrightarrow> \<not> table_in U s R t \<longrightarrow> \<not> table_in U s' R t \<and> page_bytes s' t = page_bytes s t)
      \<and> (\<forall>q \<in> R. \<forall>i < 512. i \<notin> U \<longrightarrow> rd s' (q, i) = rd s (q, i)))"

lemma kept_refl: "inv_in U s bs R \<Longrightarrow> kept U R s bs s bs n"
  by (simp add: kept_def)

lemma kept_mono: "kept U R s bs s' bs' m \<Longrightarrow> m \<le> n \<Longrightarrow> kept U R s bs s' bs' n"
  by (auto simp: kept_def)

lemma kept_trans:
  assumes "kept U R s bs s1 bs1 m" and "kept U R s1 bs1 s2 bs2 n"
  shows "kept U R s bs s2 bs2 (m + n)"
  unfolding kept_def
proof (intro conjI allI impI)
  note a = assms(1) [unfolded kept_def] and b = assms(2) [unfolded kept_def]
  show "inv_in U s2 bs2 R" "block_pages bs2 \<subseteq> block_pages bs" "card (block_pages bs) \<le> card (block_pages bs2) + (m + n)"
    using a b by auto
  fix t assume t: "in_use bs t" "\<not> table_in U s R t"
  then have "in_use bs1 t" using in_use_mono a by blast
  then show "\<not> table_in U s2 R t" "page_bytes s2 t = page_bytes s t" using a b t by auto
qed (use assms in \<open>simp add: kept_def\<close>)

lemma copy_page_ok:
  assumes inv: "inv_in U s bs R" and R: "to \<in> R" "from_dir \<in> R" and la: "PDX1 la \<in> U" and n: "3 \<le> card (block_pages bs)"
    and w: "walk s from_dir [PDX1 la, PDX0 la] = Some t" and v: "valid (mapping s from_dir la)"
    and new: "\<not> valid (mapping s to la)" and src: "in_use bs (frame (mapping s from_dir la))" "\<not> table_in U s R (frame (mapping s from_dir la))"
  shows "\<exists>s' bs' c. copy_page s to la (t, PTX la) = Some (s', 0) \<and> kept U R s bs s' bs' 3
    \<and> c - nbase \<in> block_pages bs \<and> in_use bs' c \<and> \<not> table_in U s' R c \<and> page_bytes s' c = page_bytes s (frame (mapping s from_dir la))
    \<and> (\<forall>q \<in> R. \<forall>la'. PDX1 la' \<in> U \<longrightarrow> mapping s' q la' = (if q = to \<and> same_page la' la
          then pte_create c (1 OR perm_of (mapping s from_dir la)) else mapping s q la'))"
proof -
  let ?e = "mapping s from_dir la"
  have "2 \<le> card (block_pages bs)" using n by linarith
  from get_pte_create [OF inv R(1) la this] obtain s1 bs1 t1 where g: "get_pte s to la True = Some (s1, Some (t1, PTX la))"
    "walk s1 to [PDX1 la, PDX0 la] = Some t1" "grows U R s bs s1 bs1 2" by blast
  note G = growsD [OF g(3)]
  have e1: "rd s1 (t, PTX la) = ?e"
    using mapping_walk [OF G(2) [OF R(2) _ w]] G(3) [OF R(2) la] la by simp
  have e0: "rd s (t, PTX la) = ?e" using mapping_walk [OF w] by simp
  have src1: "in_use bs1 (frame ?e)" "\<not> table_in U s1 R (frame ?e)" using in_use_mono [OF src(1) G(4)] G(6) [OF src] by blast+
  note pg = pte2page_ok [OF v src1(1)]
  have ff: "ff_inv (npage - nbase) (area s1) bs1" using G(1) by (simp add: inv_in_def)
  have "bs1 \<noteq> []" using G(5) n by (intro pages_nonempty) linarith
  from alloc_page_ok [OF ff this] obtain s2 q bs2 where a: "alloc_page s1 = Some (s2, Some q)" "s2 = s1\<lparr>area := area s2\<rparr>"
    "ff_inv (npage - nbase) (area s2) bs2" "q \<in> block_pages bs1" "q < npage - nbase" "block_pages bs2 = block_pages bs1 - {q}" by blast
  define c where "c = page2ppn q"
  have c: "c - nbase = q" "nbase \<le> c" "c < npage" using a(5) by (auto simp: c_def page2ppn_def npage_def nbase_def)
  have "\<not> in_use bs1 c" using a(4) c by (simp add: in_use_def)
  then have nt1: "\<not> table_in U s1 R c" using G(1) by (auto simp: inv_in_def)
  define s3 where "s3 = s2\<lparr>mem := memcpy (mem s2) (c * 4096) (frame ?e * 4096) 4096\<rparr>"
  have rd2: "rd s2 sl = rd s1 sl" and mem2: "mem s2 = mem s1" for sl by (subst a(2), simp)+
  have "\<not> table_in U s2 R c" using nt1 same_tables(2) [of U s1 R s2 c] rd2 by simp
  note F = fill_page [OF this s3_def]
  have "\<forall>t i. table_in U s1 R t \<longrightarrow> i < 512 \<longrightarrow> rd s3 (t, i) = rd s1 (t, i)"
    using F(1) same_tables(2) [of U s1 R s2] rd2 by simp
  note S = same_tables [of U s1 R s3, OF this]
  have sub: "block_pages bs2 \<subseteq> block_pages bs1" using a(6) by blast
  have inv3: "inv_in U s3 bs2 R"
    using G(1) a(3) in_use_mono [OF _ sub] S(1,2) by (simp add: inv_in_def forest_def s3_def)
  have usec: "in_use bs2 c" using a(6) c by (simp add: in_use_def)
  have w3: "walk s3 to [PDX1 la, PDX0 la] = Some t1" using S(1) [OF R(1)] g(2) la by (simp del: walk.simps)
  have new3: "\<not> valid (mapping s3 to la)" using new unfolding S(3) [OF R(1) la] G(3) [OF R(1) la] .
  have nt3: "\<not> table_in U s3 R (page2ppn q)" using nt1 S(2) by (simp add: c_def)
  obtain s4 where i: "page_insert s3 to q la (perm_of ?e) = Some (s4, 0)"
    "mapped_on U R s3 bs2 to q la (pte_create c (1 OR perm_of ?e)) s4 bs2 0"
    using page_insert_at [OF R(1) la get_pte_present [OF inv3 R(1) la w3] w3 grows_refl [OF inv3] new3 usec [unfolded c_def] nt3]
    unfolding c_def by blast
  note M = i(2) [unfolded mapped_on_def]
  have run: "copy_page s to la (t, PTX la) = Some (s4, 0)"
    using v g(1) pg a(1) i(1) e0 e1 by (simp add: copy_page_def valid_def perm_of_def [symmetric] c_def [symmetric] s3_def [symmetric])
  have "finite (block_pages bs1)" by (auto simp: block_pages_def)
  then have cd: "card (block_pages bs1) \<le> card (block_pages bs2) + 1" using a(4,6) by (simp add: card_Diff_singleton_if)
  have keep: "\<not> table_in U s4 R x \<and> page_bytes s4 x = page_bytes s x" if x: "in_use bs x" "\<not> table_in U s R x" for x
  proof -
    have x1: "in_use bs1 x" using in_use_mono [OF x(1) G(4)] .
    then have x2: "in_use bs2 x" using in_use_mono [OF _ sub] by blast
    have "x \<noteq> c" using x1 \<open>\<not> in_use bs1 c\<close> by blast
    then have "page_bytes s3 x = page_bytes s1 x" using F(2) mem2 by (simp add: page_bytes_def)
    moreover have "\<not> table_in U s3 R x" using G(6) [OF x] S(2) by simp
    ultimately show ?thesis using M x2 G(7) [OF x] by simp
  qed
  have "rd s4 (q', i) = rd s (q', i)" if "q' \<in> R" "i < 512" "i \<notin> U" for q' i
    using M that S(4) [OF that(1,2)] G(11) [OF that] by simp
  then have "kept U R s bs s4 bs2 3" unfolding kept_def
    using M G(4,5) sub cd keep by (auto intro: order.trans)
  moreover have "page_bytes s4 c = page_bytes s (frame ?e)"
  proof -
    have "page_bytes s4 c = page_bytes s3 c" using M usec nt3 by (simp add: c_def)
    also have "\<dots> = page_bytes s1 (frame ?e)" using F(3) mem2 by (simp add: page_bytes_def)
    also have "\<dots> = page_bytes s (frame ?e)" using G(7) [OF src] .
    finally show ?thesis .
  qed
  moreover have "\<not> table_in U s4 R c" using M usec nt3 by (simp add: c_def)
  moreover have "mapping s4 q' la' = (if q' = to \<and> same_page la' la then pte_create c (1 OR perm_of ?e) else mapping s q' la')"
    if "q' \<in> R" "PDX1 la' \<in> U" for q' la'
    using M that S(3) [OF that] G(3) [OF that] by simp
  moreover have "c - nbase \<in> block_pages bs" using a(4) c G(4) by auto
  ultimately show ?thesis using run usec by blast
qed

text \<open>Addresses: pages and the 2 MB ranges of one page table.\<close>

abbreviation (input) user_entries :: "nat set" where "user_entries \<equiv> {..<2}"

lemma user_index: "la < USERTOP \<Longrightarrow> PDX1 la \<in> user_entries"
  by (simp add: index_nat word_less_nat_alt less_mult_imp_div_less)

lemma same_page_iff:
  assumes "unat a < 2 ^ 39" and "unat b < 2 ^ 39"
  shows "same_page a b \<longleftrightarrow> unat a div 4096 = unat b div 4096"
proof -
  have digits: "x div 4096 = (x div 2 ^ 30 mod 512) * 262144 + (x div 2 ^ 21 mod 512) * 512 + x div 2 ^ 12 mod 512"
    if "x < 2 ^ 39" for x :: nat
  proof -
    have small: "x div 4096 div 512 div 512 < 512" using that by (simp add: div_mult2_eq [symmetric] less_mult_imp_div_less)
    have d: "x div 2 ^ 12 = x div 4096" "x div 2 ^ 21 = x div 4096 div 512" "x div 2 ^ 30 = x div 4096 div 512 div 512"
      by (simp_all add: div_mult2_eq [symmetric])
    have "x div 4096 = (x div 4096 div 512 div 512 * 512 + x div 4096 div 512 mod 512) * 512 + x div 4096 mod 512"
      by (simp only: div_mult_mod_eq)
    also have "\<dots> = x div 4096 div 512 div 512 * 262144 + x div 4096 div 512 mod 512 * 512 + x div 4096 mod 512"
      by (simp only: add_mult_distrib mult.assoc)
    finally show ?thesis unfolding d using mod_less [OF small] by (simp only:)
  qed
  show ?thesis
  proof
    assume "same_page a b"
    then show "unat a div 4096 = unat b div 4096" unfolding same_page_def index_nat using digits assms by metis
  next
    assume eq: "unat a div 4096 = unat b div 4096"
    have d: "x div 2 ^ 12 = x div 4096" "x div 2 ^ 21 = x div 4096 div 512" "x div 2 ^ 30 = x div 4096 div 512 div 512" for x :: nat
      by (simp_all add: div_mult2_eq [symmetric])
    show "same_page a b" unfolding same_page_def index_nat d eq by simp
  qed
qed

lemma next_page:
  assumes "unat start mod 4096 = 0" and "start < USERTOP"
  shows "unat (start + PGSIZE) = unat start + 4096"
  using assms by (subst unat_add_lem [THEN iffD1]) (simp_all add: word_less_nat_alt)

lemma next_chunk:
  assumes "start < USERTOP"
  shows "unat (ROUNDDOWN (start + PTSIZE) PTSIZE) = (unat start div 2 ^ 21 + 1) * 2 ^ 21"
proof -
  have u: "unat (start + PTSIZE) = unat start + 2 ^ 21"
    using assms by (subst unat_add_lem [THEN iffD1]) (simp_all add: word_less_nat_alt)
  have "unat ((start + PTSIZE) mod PTSIZE) = (unat start + 2 ^ 21) mod 2 ^ 21" by (simp only: unat_mod u) simp
  moreover have "(start + PTSIZE) mod PTSIZE \<le> start + PTSIZE" by (simp add: word_le_nat_alt unat_mod)
  ultimately have "unat (ROUNDDOWN (start + PTSIZE) PTSIZE) = (unat start + 2 ^ 21) - (unat start + 2 ^ 21) mod 2 ^ 21"
    unfolding ROUNDDOWN_def by (simp only: unat_sub u)
  also have "\<dots> = ((unat start + 2 ^ 21) div 2 ^ 21) * 2 ^ 21" by (simp only: minus_mod_eq_div_mult)
  also have "(unat start + 2 ^ 21) div 2 ^ 21 = unat start div 2 ^ 21 + 1" by simp
  finally show ?thesis .
qed

lemma same_chunk:
  assumes "start \<le> la" and "unat la < (unat start div 2 ^ 21 + 1) * 2 ^ 21"
  shows "PDX1 la = PDX1 start \<and> PDX0 la = PDX0 start"
proof -
  have "unat start div 2 ^ 21 \<le> unat la div 2 ^ 21" using assms(1) by (simp add: word_le_nat_alt div_le_mono)
  moreover have "unat la div 2 ^ 21 < unat start div 2 ^ 21 + 1" using assms(2) by (rule less_mult_imp_div_less)
  ultimately have "unat la div 2 ^ 21 = unat start div 2 ^ 21" by simp
  moreover have "x div 2 ^ 30 = x div 2 ^ 21 div 512" for x :: nat by (simp add: div_mult2_eq [symmetric])
  ultimately show ?thesis by (simp only: index_nat)
qed

lemma page_gap:
  assumes "a mod 4096 = (0 :: nat)" and "b mod 4096 = 0" and "a < b"
  shows "a + 4096 \<le> b"
proof -
  obtain k l where "a = 4096 * k" "b = 4096 * l" using assms(1,2) by (metis mod_0_imp_dvd dvd_def)
  with assms(3) show ?thesis by simp
qed

lemma page_of:
  assumes "a mod 4096 = (0 :: nat)"
  shows "x div 4096 = a div 4096 \<longleftrightarrow> a \<le> x \<and> x < a + 4096"
proof -
  obtain k where a: "a = 4096 * k" using assms by (metis mod_0_imp_dvd dvd_def)
  have "x = 4096 * (x div 4096) + x mod 4096" "x mod 4096 < 4096" by simp_all
  then have "x div 4096 = k \<longleftrightarrow> 4096 * k \<le> x \<and> x < 4096 * k + 4096" by linarith
  then show ?thesis using a by simp
qed

text \<open>The copy of the range from \<open>lo\<close> to \<open>hi\<close>.\<close>

definition copy_of :: "nat set \<Rightarrow> vmem \<Rightarrow> block list \<Rightarrow> vmem \<Rightarrow> block list \<Rightarrow> nat \<Rightarrow> u64 \<Rightarrow> u64 \<Rightarrow> bool" where
  "copy_of R s bs s' bs' to pte la =
     (\<exists>c. c - nbase \<in> block_pages bs \<and> in_use bs' c \<and> \<not> table_in user_entries s' R c \<and> mapping s' to la = pte_create c (1 OR perm_of pte)
        \<and> page_bytes s' c = page_bytes s (frame pte))"

definition copied :: "nat set \<Rightarrow> vmem \<Rightarrow> block list \<Rightarrow> vmem \<Rightarrow> block list \<Rightarrow> nat \<Rightarrow> nat \<Rightarrow> u64 \<Rightarrow> u64 \<Rightarrow> bool" where
  "copied R s bs s' bs' to from_dir lo hi =
     ((\<forall>la. lo \<le> la \<longrightarrow> la < hi \<longrightarrow>
         (if valid (mapping s from_dir la) then copy_of R s bs s' bs' to (mapping s from_dir la) la
          else mapping s' to la = mapping s to la))
      \<and> (\<forall>q \<in> R. \<forall>la. la < USERTOP \<longrightarrow> \<not> (q = to \<and> lo \<le> la \<and> la < hi) \<longrightarrow> mapping s' q la = mapping s q la))"

text \<open>The pages the source maps in the range: used, and no tables.\<close>

definition sources_ok :: "nat set \<Rightarrow> vmem \<Rightarrow> block list \<Rightarrow> nat \<Rightarrow> u64 \<Rightarrow> u64 \<Rightarrow> bool" where
  "sources_ok R s bs from_dir lo hi = (\<forall>la. lo \<le> la \<longrightarrow> la < hi \<longrightarrow> valid (mapping s from_dir la) \<longrightarrow>
     in_use bs (frame (mapping s from_dir la)) \<and> \<not> table_in user_entries s R (frame (mapping s from_dir la)))"

definition unmapped :: "vmem \<Rightarrow> nat \<Rightarrow> u64 \<Rightarrow> u64 \<Rightarrow> bool" where
  "unmapped s to lo hi = (\<forall>la. lo \<le> la \<longrightarrow> la < hi \<longrightarrow> \<not> valid (mapping s to la))"

lemma copied_other: "copied R s bs s' bs' to from_dir lo hi \<Longrightarrow> q \<in> R \<Longrightarrow> la < USERTOP \<Longrightarrow> q \<noteq> to \<or> la < lo \<or> hi \<le> la
    \<Longrightarrow> mapping s' q la = mapping s q la"
proof -
  assume a: "copied R s bs s' bs' to from_dir lo hi" "q \<in> R" "la < USERTOP" "q \<noteq> to \<or> la < lo \<or> hi \<le> la"
  have "\<not> (q = to \<and> lo \<le> la \<and> la < hi)" using a(4) by auto
  then show ?thesis using a(1-3) unfolding copied_def by blast
qed

lemma copied_trans:
  assumes 1: "copied R s bs s1 bs1 to from_dir lo mid" "kept user_entries R s bs s1 bs1 m"
    and 2: "copied R s1 bs1 s2 bs2 to from_dir mid hi" "kept user_entries R s1 bs1 s2 bs2 n"
    and o: "lo \<le> mid" "mid \<le> hi" "hi \<le> USERTOP" and R: "to \<in> R" "from_dir \<in> R" "to \<noteq> from_dir"
    and src: "sources_ok R s bs from_dir lo hi"
  shows "copied R s bs s2 bs2 to from_dir lo hi"
proof -
  have map1: "mapping s1 q la = mapping s q la" if "q \<in> R" "la < USERTOP" "\<not> (q = to \<and> lo \<le> la \<and> la < mid)" for q la
    using 1(1) that unfolding copied_def by blast
  have map2: "mapping s2 q la = mapping s1 q la" if "q \<in> R" "la < USERTOP" "\<not> (q = to \<and> mid \<le> la \<and> la < hi)" for q la
    using 2(1) that unfolding copied_def by blast
  have low: "copy_of R s bs s2 bs2 to pte la" if la: "la < mid" and c: "copy_of R s bs s1 bs1 to pte la" for pte la
  proof -
    obtain c where c: "c - nbase \<in> block_pages bs" "in_use bs1 c" "\<not> table_in user_entries s1 R c"
      "mapping s1 to la = pte_create c (1 OR perm_of pte)" "page_bytes s1 c = page_bytes s (frame pte)"
      using c unfolding copy_of_def by blast
    have "la < USERTOP" using la o by (meson order.strict_trans2)
    then have "mapping s2 to la = mapping s1 to la" by (rule map2 [OF R(1)]) (use la in auto)
    moreover have "in_use bs2 c" using in_use_mono [OF c(2)] 2(2) unfolding kept_def by blast
    ultimately show ?thesis using c 2(2) unfolding copy_of_def kept_def by metis
  qed
  have high: "copy_of R s bs s2 bs2 to pte la"
    if c: "copy_of R s1 bs1 s2 bs2 to pte la" and f: "in_use bs (frame pte)" "\<not> table_in user_entries s R (frame pte)" for pte la
  proof -
    have "page_bytes s1 (frame pte) = page_bytes s (frame pte)" using 1(2) f unfolding kept_def by blast
    moreover have "block_pages bs1 \<subseteq> block_pages bs" using 1(2) unfolding kept_def by blast
    ultimately show ?thesis using c unfolding copy_of_def by auto
  qed
  show ?thesis unfolding copied_def
  proof (intro conjI allI impI ballI)
    fix la assume la: "lo \<le> la" "la < hi"
    then have u: "la < USERTOP" using o(3) by (meson order.strict_trans2)
    let ?pte = "mapping s from_dir la"
    have from1: "mapping s1 from_dir la = ?pte" using map1 [OF R(2) u] R(3) by auto
    show "if valid ?pte then copy_of R s bs s2 bs2 to ?pte la else mapping s2 to la = mapping s to la"
    proof (cases "la < mid")
      case True
      then have "if valid ?pte then copy_of R s bs s1 bs1 to ?pte la else mapping s1 to la = mapping s to la"
        using 1(1) la unfolding copied_def by blast
      moreover have "mapping s2 to la = mapping s1 to la" by (rule map2 [OF R(1) u]) (use True in auto)
      ultimately show ?thesis using low [OF True] by (auto split: if_splits)
    next
      case False
      then have "mid \<le> la" by simp
      then have "if valid ?pte then copy_of R s1 bs1 s2 bs2 to ?pte la else mapping s2 to la = mapping s1 to la"
        using 2(1) la from1 unfolding copied_def by metis
      moreover have "mapping s1 to la = mapping s to la" using map1 [OF R(1) u] False by blast
      moreover have "valid ?pte \<Longrightarrow> in_use bs (frame ?pte) \<and> \<not> table_in user_entries s R (frame ?pte)"
        using src la unfolding sources_ok_def by blast
      ultimately show ?thesis using high by (auto split: if_splits)
    qed
  next
    fix q la assume q: "q \<in> R" "la < USERTOP" "\<not> (q = to \<and> lo \<le> la \<and> la < hi)"
    then have "\<not> (q = to \<and> lo \<le> la \<and> la < mid)" "\<not> (q = to \<and> mid \<le> la \<and> la < hi)"
      using o by (meson order.strict_trans2 order.trans)+
    then show "mapping s2 q la = mapping s q la" using map1 map2 q by metis
  qed
qed

text \<open>One round of the loop.\<close>

lemma copied_none:
  assumes "\<forall>la. lo \<le> la \<longrightarrow> la < hi \<longrightarrow> \<not> valid (mapping s from_dir la)"
  shows "copied R s bs s bs' to from_dir lo hi"
  using assms by (simp add: copied_def)

definition round_ok :: "nat set \<Rightarrow> vmem \<Rightarrow> block list \<Rightarrow> nat \<Rightarrow> nat \<Rightarrow> u64 \<Rightarrow> u64 \<Rightarrow> vmem \<Rightarrow> block list \<Rightarrow> u64 \<Rightarrow> bool" where
  "round_ok R s bs to from_dir start e s1 bs1 nx =
     (copy_loop s to from_dir start e = (if nx \<noteq> 0 \<and> nx < e then copy_loop s1 to from_dir nx e else Some (s1, 0))
      \<and> unat start + 4096 \<le> unat nx \<and> unat nx mod 4096 = 0 \<and> kept user_entries R s bs s1 bs1 3
      \<and> copied R s bs s1 bs1 to from_dir start (min nx e))"

lemma copy_round:
  assumes inv: "inv_in user_entries s bs R" and R: "to \<in> R" "from_dir \<in> R" "to \<noteq> from_dir"
    and a: "unat start mod 4096 = 0" "start < e" "e \<le> USERTOP" "unat e mod 4096 = 0" and n: "3 \<le> card (block_pages bs)"
    and src: "sources_ok R s bs from_dir start e" and un: "unmapped s to start e"
  shows "\<exists>s1 bs1 nx. round_ok R s bs to from_dir start e s1 bs1 nx"
proof -
  have u: "start < USERTOP" using a(2,3) by (meson order.strict_trans2)
  note look = get_pte_lookup [OF inv R(2) user_index [OF u]]
  show ?thesis
  proof (cases "walk s from_dir [PDX1 start, PDX0 start]")
    case None
    let ?next = "ROUNDDOWN (start + PTSIZE) PTSIZE"
    have run: "copy_loop s to from_dir start e = (if ?next \<noteq> 0 \<and> ?next < e then copy_loop s to from_dir ?next e else Some (s, 0))"
      by (subst copy_loop.simps) (simp add: look None del: walk.simps)
    have nx: "unat ?next = (unat start div 2 ^ 21 + 1) * 2 ^ 21" by (rule next_chunk [OF u])
    have "\<not> valid (mapping s from_dir la)" if "start \<le> la" "la < min ?next e" for la
    proof -
      have "unat la < (unat start div 2 ^ 21 + 1) * 2 ^ 21" using that(2) by (metis min.strict_boundedE word_less_nat_alt nx)
      from same_chunk [OF that(1) this] have "mapping s from_dir la = 0" using None by (simp add: mapping_def del: walk.simps)
      then show ?thesis by (simp add: valid_def)
    qed
    then have "copied R s bs s bs to from_dir start (min ?next e)" by (intro copied_none) blast
    moreover have "unat ?next mod 4096 = 0" unfolding nx by (simp add: mult.assoc mod_mult_self2_is_0 flip: mod_mult_right_eq)
    moreover have "unat start < unat ?next" unfolding nx using div_mult_mod_eq [of "unat start" "2 ^ 21"]
        mod_less_divisor [of "2 ^ 21" "unat start"] by simp
    then have "unat start + 4096 \<le> unat ?next" by (rule page_gap [OF a(1) calculation(2)])
    ultimately have "round_ok R s bs to from_dir start e s bs ?next"
      unfolding round_ok_def by (intro conjI run kept_refl [OF inv])
    then show ?thesis by blast
  next
    case (Some t)
    let ?next = "start + PGSIZE"
    have nx: "unat ?next = unat start + 4096" by (rule next_page [OF a(1) u])
    have "unat start < unat e" using a(2) by (simp add: word_less_nat_alt)
    then have "unat start + 4096 \<le> unat e" by (rule page_gap [OF a(1,4)])
    then have le: "?next \<le> e" by (simp only: word_le_nat_alt nx)
    then have hi: "min ?next e = ?next" by (rule min_absorb1)
    have page: "same_page la start \<longleftrightarrow> start \<le> la \<and> la < ?next" if "la < USERTOP" for la
    proof -
      have "same_page la start \<longleftrightarrow> unat la div 4096 = unat start div 4096"
        by (rule same_page_iff) (use that u in \<open>simp_all add: word_less_nat_alt\<close>)
      also have "\<dots> \<longleftrightarrow> unat start \<le> unat la \<and> unat la < unat start + 4096" by (rule page_of [OF a(1)])
      finally show ?thesis by (simp only: word_le_nat_alt word_less_nat_alt nx)
    qed
    have maps: "mapping s q la = mapping s q start" if "same_page la start" for q la
      using that unfolding mapping_def same_page_def by (elim conjE) (simp only:)
    have step: "copy_loop s to from_dir start e = (if ?next \<noteq> 0 \<and> ?next < e then copy_loop s1 to from_dir ?next e else Some (s1, 0))"
      if "copy_page s to start (t, PTX start) = Some (s1, 0)" for s1
      using that by (subst copy_loop.simps) (simp add: look Some del: walk.simps)
    have nn: "unat start + 4096 \<le> unat ?next" "unat ?next mod 4096 = 0" using a(1) nx by simp_all
    show ?thesis
    proof (cases "valid (mapping s from_dir start)")
      case False
      then have "copy_page s to start (t, PTX start) = Some (s, 0)"
        using mapping_walk [OF Some] by (simp add: copy_page_def valid_def)
      note run = step [OF this]
      have "\<not> valid (mapping s from_dir la)" if "start \<le> la" "la < min ?next e" for la
      proof -
        have "la < USERTOP" using that a(3) by (auto simp: min_def split: if_splits)
        then have "same_page la start" using page that hi by simp
        then show ?thesis using maps False by simp
      qed
      then have "copied R s bs s bs to from_dir start (min ?next e)" by (intro copied_none) blast
      then have "round_ok R s bs to from_dir start e s bs ?next"
        unfolding round_ok_def by (intro conjI run kept_refl [OF inv] nn)
      then show ?thesis by blast
    next
      case True
      have "in_use bs (frame (mapping s from_dir start)) \<and> \<not> table_in user_entries s R (frame (mapping s from_dir start))"
        using src True a(2) order_refl [of start] unfolding sources_ok_def by blast
      moreover have "\<not> valid (mapping s to start)" using un a(2) order_refl [of start] unfolding unmapped_def by blast
      ultimately obtain s1 bs1 c where c: "copy_page s to start (t, PTX start) = Some (s1, 0)" "kept user_entries R s bs s1 bs1 3"
        "c - nbase \<in> block_pages bs" "in_use bs1 c" "\<not> table_in user_entries s1 R c" "page_bytes s1 c = page_bytes s (frame (mapping s from_dir start))"
        "\<And>q la'. q \<in> R \<Longrightarrow> PDX1 la' \<in> user_entries \<Longrightarrow> mapping s1 q la' = (if q = to \<and> same_page la' start
          then pte_create c (1 OR perm_of (mapping s from_dir start)) else mapping s q la')"
        using copy_page_ok [OF inv R(1,2) user_index [OF u] n Some True] by metis
      have "copied R s bs s1 bs1 to from_dir start (min ?next e)"
        unfolding copied_def hi
      proof (intro conjI allI impI ballI)
        fix la assume la: "start \<le> la" "la < ?next"
        have ul: "la < USERTOP" by (rule order.strict_trans2 [OF la(2) order.trans [OF le a(3)]])
        then have sp: "same_page la start" using page la by blast
        have pte: "mapping s from_dir la = mapping s from_dir start" by (rule maps [OF sp])
        show "if valid (mapping s from_dir la) then copy_of R s bs s1 bs1 to (mapping s from_dir la) la else mapping s1 to la = mapping s to la"
          unfolding pte if_P [OF True] copy_of_def
          by (intro exI [of _ c] conjI c(3-6)) (use c(7) [OF R(1) user_index [OF ul]] sp in simp)
      next
        fix q la assume q: "q \<in> R" "la < USERTOP" "\<not> (q = to \<and> start \<le> la \<and> la < ?next)"
        then have "\<not> (q = to \<and> same_page la start)" using page by blast
        then show "mapping s1 q la = mapping s q la" using c(7) [OF q(1) user_index [OF q(2)]] by (simp only: if_False)
      qed
      then have "round_ok R s bs to from_dir start e s1 bs1 ?next"
        unfolding round_ok_def by (intro conjI step [OF c(1)] c(2) nn)
      then show ?thesis by blast
    qed
  qed
qed

lemma sources_ok_rest:
  assumes k: "kept user_entries R s bs s1 bs1 m" and c: "copied R s bs s1 bs1 to from_dir start mid"
    and src: "sources_ok R s bs from_dir start e" and R: "from_dir \<in> R" "to \<noteq> from_dir" and o: "start \<le> mid" "e \<le> USERTOP"
  shows "sources_ok R s1 bs1 from_dir mid e"
  unfolding sources_ok_def
proof (intro allI impI)
  fix la assume la: "mid \<le> la" "la < e" "valid (mapping s1 from_dir la)"
  have "la < USERTOP" using la(2) o(2) by (rule order.strict_trans2)
  then have m: "mapping s1 from_dir la = mapping s from_dir la" by (intro copied_other [OF c R(1)]) (use R(2) in auto)
  have "start \<le> la" using o(1) la(1) by (rule order.trans)
  then have f: "in_use bs (frame (mapping s from_dir la))" "\<not> table_in user_entries s R (frame (mapping s from_dir la))"
    using src la(2,3) m unfolding sources_ok_def by simp_all
  moreover have "block_pages bs1 \<subseteq> block_pages bs" using k unfolding kept_def by blast
  ultimately show "in_use bs1 (frame (mapping s1 from_dir la)) \<and> \<not> table_in user_entries s1 R (frame (mapping s1 from_dir la))"
    using k in_use_mono unfolding kept_def m by blast
qed

lemma unmapped_rest:
  assumes c: "copied R s bs s1 bs1 to from_dir start mid" and un: "unmapped s to start e" and R: "to \<in> R"
    and o: "start \<le> mid" "e \<le> USERTOP"
  shows "unmapped s1 to mid e"
  unfolding unmapped_def
proof (intro allI impI)
  fix la assume la: "mid \<le> la" "la < e"
  have "la < USERTOP" using la(2) o(2) by (rule order.strict_trans2)
  then have "mapping s1 to la = mapping s to la" by (rule copied_other [OF c R]) (use la in auto)
  moreover have "start \<le> la" using o(1) la(1) by (rule order.trans)
  ultimately show "\<not> valid (mapping s1 to la)" using un la(2) unfolding unmapped_def by simp
qed

lemma copy_loop_ok:
  assumes "inv_in user_entries s bs R" and R: "to \<in> R" "from_dir \<in> R" "to \<noteq> from_dir"
    and "unat start mod 4096 = 0" and "start < e" and e: "e \<le> USERTOP" "unat e mod 4096 = 0"
    and "3 * ((unat e - unat start) div 4096) \<le> card (block_pages bs)"
    and "sources_ok R s bs from_dir start e" and "unmapped s to start e"
  shows "\<exists>s' bs'. copy_loop s to from_dir start e = Some (s', 0)
    \<and> kept user_entries R s bs s' bs' (3 * ((unat e - unat start) div 4096)) \<and> copied R s bs s' bs' to from_dir start e"
  using assms(1,5,6,9-11)
proof (induction "unat e - unat start" arbitrary: s bs start rule: less_induct)
  case less
  have lt: "unat start < unat e" using less.prems(3) by (simp add: word_less_nat_alt)
  have "4096 \<le> unat e - unat start" using page_gap [OF less.prems(2) e(2) lt] by linarith
  from div_le_mono [OF this, of 4096] have pages: "1 \<le> (unat e - unat start) div 4096" by simp
  then have "3 \<le> card (block_pages bs)" using less.prems(4) by linarith
  from copy_round [OF less.prems(1) R less.prems(2,3) e this less.prems(5,6)] obtain s1 bs1 nx where
    run: "copy_loop s to from_dir start e = (if nx \<noteq> 0 \<and> nx < e then copy_loop s1 to from_dir nx e else Some (s1, 0))"
    and nx: "unat start + 4096 \<le> unat nx" "unat nx mod 4096 = 0"
    and k: "kept user_entries R s bs s1 bs1 3" and c: "copied R s bs s1 bs1 to from_dir start (min nx e)" unfolding round_ok_def by (elim exE conjE) (rule that)
  have nx0: "nx \<noteq> 0"
  proof
    assume "nx = 0"
    then have "unat nx = 0" by simp
    with nx(1) show False by linarith
  qed
  have snx: "start \<le> nx" using nx(1) by (simp add: word_le_nat_alt)
  show ?case
  proof (cases "nx < e")
    case False
    then have "copy_loop s to from_dir start e = Some (s1, 0)" "min nx e = e" using run by (auto simp: min_def)
    moreover have "kept user_entries R s bs s1 bs1 (3 * ((unat e - unat start) div 4096))"
      by (rule kept_mono [OF k]) (use pages in linarith)
    ultimately show ?thesis using c by auto
  next
    case True
    then have hi: "min nx e = nx" by (simp add: min_def order.strict_implies_order)
    have ltn: "unat nx < unat e" using True by (simp add: word_less_nat_alt)
    have inv1: "inv_in user_entries s1 bs1 R" "card (block_pages bs) \<le> card (block_pages bs1) + 3" using k unfolding kept_def by blast+
    have "(unat e - unat nx) div 4096 + 1 \<le> (unat e - unat start) div 4096"
    proof -
      have "(unat e - unat nx) + 4096 \<le> unat e - unat start" using nx(1) ltn by linarith
      then have "((unat e - unat nx) + 4096) div 4096 \<le> (unat e - unat start) div 4096" by (rule div_le_mono)
      then show ?thesis by simp
    qed
    note less_pages = this
    have "unat e - unat nx < unat e - unat start" using nx(1) ltn by linarith
    moreover have "3 * ((unat e - unat nx) div 4096) \<le> card (block_pages bs1)" using less_pages less.prems(4) inv1(2) by linarith
    moreover note sources_ok_rest [OF k c [unfolded hi] less.prems(5) R(2,3) snx e(1)]
      unmapped_rest [OF c [unfolded hi] less.prems(6) R(1) snx e(1)]
    ultimately obtain s' bs' where IH: "copy_loop s1 to from_dir nx e = Some (s', 0)"
      "kept user_entries R s1 bs1 s' bs' (3 * ((unat e - unat nx) div 4096))" "copied R s1 bs1 s' bs' to from_dir nx e"
      using less.hyps [OF _ inv1(1) nx(2) True] by blast
    have "copied R s bs s' bs' to from_dir start e"
      using copied_trans [OF c [unfolded hi] k IH(3,2) snx _ e(1) R less.prems(5)] True by simp
    moreover have "kept user_entries R s bs s' bs' (3 * ((unat e - unat start) div 4096))"
      by (rule kept_mono [OF kept_trans [OF k IH(2)]]) (use less_pages in linarith)
    moreover have "copy_loop s to from_dir start e = Some (s', 0)" using run nx0 True IH(1) by simp
    ultimately show ?thesis by blast
  qed
qed

subsection \<open>Properties\<close>

text \<open>
  C20. \<open>copy_range\<close> gives a child its own copy of a range of the parent's memory: with three free pages per
  page of the range it returns 0; every page the parent maps there is then mapped at the same address
  of the child, with the parent's user permissions, on a page that was free before and holds the same bytes;
  no other mapping of either directory below \<open>USERTOP\<close>, no entry above it and no byte of any other used page changes. The two
  directories share the tables of the kernel; only the tables below their user entries are their own.
\<close>

theorem copy_range_copies:
  assumes "inv_in user_entries s bs R" and "to \<in> R" and "from_dir \<in> R" and "to \<noteq> from_dir"
    and "unat start mod 4096 = 0" and "unat e mod 4096 = 0" and "USER_ACCESS start e"
    and "3 * ((unat e - unat start) div 4096) \<le> default_nr_free_pages (area s)"
    and "sources_ok R s bs from_dir start e" and "unmapped s to start e"
  shows "\<exists>s' bs'. copy_range s to from_dir start e = Some (s', 0)
    \<and> kept user_entries R s bs s' bs' (3 * ((unat e - unat start) div 4096)) \<and> copied R s bs s' bs' to from_dir start e"
proof -
  have "range_check start e = Some ()"
    using assms(5-7) by (simp add: range_check_def word_arith_nat_mod unat_eq_zero)
  moreover have "default_nr_free_pages (area s) = card (block_pages bs)"
    using ff.nr_pages_card assms(1) unfolding inv_in_def by blast
  ultimately show ?thesis
    using copy_loop_ok [OF assms(1-5) _ _ assms(6) _ assms(9,10)] assms(7,8)
    by (simp add: copy_range_def USER_ACCESS_def)
qed

text \<open>An address space without tables but its directories, and a hundred free pages.\<close>

definition demo_vm :: vmem where
  "demo_vm = \<lparr>area = \<lparr>pages = (\<lambda>p. \<lparr>pg_ref = 0, pg_flags = (if p = 100 then 2 else 0), pg_property = (if p = 100 then 100 else 0)\<rparr>),
       flinks = \<lparr>lnext = (\<lambda>x. if x = FreeHead then PLink 100 else FreeHead), lprev = (\<lambda>x. if x = FreeHead then PLink 100 else FreeHead)\<rparr>,
       nr_free = 100\<rparr>,
     mem = (\<lambda>_. NUL), swap_init_ok = True, flushed = []\<rparr>"

lemma demo_vm_inv: "pt_inv demo_vm [(100, 100)] {nbase, nbase + 1}"
proof -
  have rd0: "rd demo_vm sl = 0" for sl by (auto simp: rd_def demo_vm_def intro: ld64_zero)
  have w: "walk demo_vm r p = Some t \<longleftrightarrow> p = [] \<and> t = r" for r p t by (cases p) (auto simp: rd0 valid_def)
  have "ff_inv (npage - nbase) (area demo_vm) [(100, 100)]"
    by (rule ff_invI) (auto simp: demo_vm_def dlist_def PageProperty_def PageReserved_def bit_iff_odd npage_def nbase_def split: if_splits)
  then show ?thesis
    by (auto simp: inv_in_def forest_def table_in_def w in_use_def npage_def nbase_def block_pages_def)
qed

lemma demo_vm_free: "block_pages [(100, 100)] = {100..<200}"
  by (auto simp: block_pages_def)

lemma demo_vm_mapping: "mapping demo_vm r la = 0"
proof -
  have "rd demo_vm sl = 0" for sl by (auto simp: rd_def demo_vm_def intro: ld64_zero)
  then show ?thesis by (simp add: mapping_def valid_def)
qed

lemma demo_vm_page: "in_use [(100, 100)] (page2ppn 50)" "\<not> is_table demo_vm {nbase, nbase + 1} (page2ppn 50)"
proof -
  have rd0: "rd demo_vm sl = 0" for sl by (auto simp: rd_def demo_vm_def intro: ld64_zero)
  have w: "walk demo_vm r p = Some t \<longleftrightarrow> p = [] \<and> t = r" for r p t by (cases p) (auto simp: rd0 valid_def)
  show "in_use [(100, 100)] (page2ppn 50)" by (simp add: in_use_def page2ppn_def nbase_def npage_def demo_vm_free)
  show "\<not> is_table demo_vm {nbase, nbase + 1} (page2ppn 50)" by (simp add: table_in_def w page2ppn_def)
qed

text \<open>
  C21. \<open>page_insert\<close> maps a page at an address without a valid entry: with two pages left for tables it
  returns 0, the entry holds the page and the permissions, the page's count goes up by one, the TLB is told,
  every other address of every directory keeps its mapping, and used pages that are no tables keep their bytes. With
  no page left and no table below the directory it reports \<open>E_NO_MEM\<close> before \<open>swap_init\<close>, and
  does not come back after it.
\<close>

theorem page_insert_maps:
  assumes "pt_inv s bs R" and "r \<in> R" and "\<not> valid (mapping s r la)"
    and "in_use bs (page2ppn page)" and "\<not> is_table s R (page2ppn page)"
  shows "if 2 \<le> default_nr_free_pages (area s)
    then \<exists>s' bs'. page_insert s r page la perm = Some (s', 0)
      \<and> mapped_at R s bs r page la (pte_create (page2ppn page) (1 OR perm)) s' bs' 2
    else default_nr_free_pages (area s) = 0 \<and> \<not> valid (rd s (r, PDX1 la)) \<longrightarrow>
      page_insert s r page la perm = (if swap_init_ok s then None else Some (s, - E_NO_MEM))"
proof -
  have ff: "ff_inv (npage - nbase) (area s) bs" using assms(1) by (simp add: inv_in_def)
  have nr: "default_nr_free_pages (area s) = card (block_pages bs)" by (rule ff.nr_pages_card [OF ff])
  have la: "PDX1 la \<in> {..<512}" by simp
  show ?thesis
  proof (cases "2 \<le> card (block_pages bs)")
    case True
    from get_pte_create [OF assms(1,2) la True] obtain s1 bs1 t where
      g: "get_pte s r la True = Some (s1, Some (t, PTX la))" "walk s1 r [PDX1 la, PDX0 la] = Some t" "grows {..<512} R s bs s1 bs1 2"
      by blast
    show ?thesis using page_insert_at [OF assms(2) la g assms(3-5)] mapped_at_all True unfolding nr by (simp only: if_True) blast
  next
    case False
    have "page_insert s r page la perm = (if swap_init_ok s then None else Some (s, - E_NO_MEM))"
      if z: "card (block_pages bs) = 0" "\<not> valid (rd s (r, PDX1 la))"
    proof -
      have "finite (block_pages bs)" by (auto simp: block_pages_def)
      then have none: "block_pages bs = {}" using z(1) by simp
      have "k < 1" if "(b, k) \<in> set bs" for b k
        using that none by (force simp: block_pages_def)
      then have "default_alloc_pages 1 (area s) = Some (area s, None)"
        by (intro ff.alloc_full [OF ff]) auto
      then have "alloc_page s = (if swap_init_ok s then None else Some (s, None))" by (simp add: alloc_page_def)
      then have "next_table s (r, PDX1 la) True = (if swap_init_ok s then None else Some (s, None))"
        using z(2) by (simp add: next_table_def valid_def)
      then show ?thesis by (simp add: page_insert_def get_pte_def)
    qed
    then show ?thesis using False unfolding nr by (simp only: if_False) blast
  qed
qed

theorem page_insert_maps_witness:
  "\<exists>s'. page_insert demo_vm nbase 50 0x800000 22 = Some (s', 0) \<and> mapping s' nbase 0x800123 = pte_create (nbase + 50) 23
    \<and> mapping s' nbase 0x801000 = 0"
proof -
  have r: "nbase \<in> {nbase, nbase + 1}" by simp
  have "2 \<le> default_nr_free_pages (area demo_vm)" by (simp add: default_nr_free_pages_def demo_vm_def)
  moreover have "\<not> valid (mapping demo_vm nbase 0x800000)" by (simp add: demo_vm_mapping valid_def)
  ultimately obtain s' bs' where s': "page_insert demo_vm nbase 50 0x800000 22 = Some (s', 0)"
    "mapped_at {nbase, nbase + 1} demo_vm [(100, 100)] nbase 50 0x800000 (pte_create (page2ppn 50) (1 OR 22)) s' bs' 2"
    using page_insert_maps [OF demo_vm_inv r _ demo_vm_page, of "0x800000" 22] by (auto simp del: One_nat_def)
  have m: "mapping s' nbase la' = (if same_page la' 0x800000 then pte_create (page2ppn 50) (1 OR 22) else mapping demo_vm nbase la')" for la'
    using s'(2) r unfolding mapped_at_def by (auto simp del: One_nat_def)
  have "same_page 0x800123 0x800000" "\<not> same_page 0x801000 0x800000" by (simp_all add: same_page_def index_nat)
  then show ?thesis using s'(1) m [of "0x800123"] m [of "0x801000"] by (auto simp: page2ppn_def demo_vm_mapping add.commute)
qed

text \<open>
  The directories of two processes as \<open>setup_pgdir\<close> leaves them: the last entry of both is the kernel's, with the same table below
  it.
\<close>

definition demo_spaces :: vmem where
  "demo_spaces = wr (wr demo_vm (nbase, 511) (pte_create (nbase + 2) 17)) (nbase + 1, 511) (pte_create (nbase + 2) 17)"

lemma demo_spaces_rd: "k < 512 \<Longrightarrow> rd demo_spaces (x, k) = (if k = 511 \<and> x \<in> {nbase, nbase + 1} then pte_create (nbase + 2) 17 else 0)"
proof -
  have "rd demo_vm sl = 0" for sl by (auto simp: rd_def demo_vm_def intro: ld64_zero)
  then show "k < 512 \<Longrightarrow> rd demo_spaces (x, k) = (if k = 511 \<and> x \<in> {nbase, nbase + 1} then pte_create (nbase + 2) 17 else 0)"
    by (auto simp: demo_spaces_def rd_wr)
qed

lemma demo_spaces_walk: "path user_entries p \<Longrightarrow> walk demo_spaces r p = Some t \<longleftrightarrow> p = [] \<and> t = r"
  by (cases p) (auto simp: path_def demo_spaces_rd valid_def)

lemma demo_spaces_inv: "inv_in user_entries demo_spaces [(100, 100)] {nbase, nbase + 1}"
proof -
  have "ff_inv (npage - nbase) (area demo_spaces) [(100, 100)]" using demo_vm_inv by (simp add: inv_in_def demo_spaces_def)
  then show ?thesis
    by (auto simp: inv_in_def forest_def table_in_def demo_spaces_walk in_use_def npage_def nbase_def block_pages_def)
qed

lemma demo_spaces_mapping: "PDX1 la \<in> user_entries \<Longrightarrow> mapping demo_spaces r la = 0"
  using demo_spaces_walk [of "[PDX1 la, PDX0 la]" r] by (cases "walk demo_spaces r [PDX1 la, PDX0 la]") (simp_all add: mapping_def)

lemma demo_spaces_page: "\<not> table_in user_entries demo_spaces {nbase, nbase + 1} (page2ppn 50)"
  by (auto simp: table_in_def demo_spaces_walk page2ppn_def)

theorem copy_range_copies_witness:
  "\<exists>s s' c. mapping s (nbase + 1) 0x800000 = 0 \<and> rd s (nbase, 511) = rd s (nbase + 1, 511) \<and> valid (rd s (nbase, 511))
    \<and> copy_range s (nbase + 1) nbase 0x800000 0x801000 = Some (s', 0)
    \<and> mapping s' (nbase + 1) 0x800000 = pte_create c 23 \<and> c \<noteq> nbase + 50 \<and> page_bytes s' c = page_bytes s (nbase + 50)
    \<and> rd s' (nbase + 1, 511) = rd s (nbase + 1, 511)"
proof -
  let ?R = "{nbase, nbase + 1}" and ?a = "0x800000 :: u64" and ?e = "0x801000 :: u64"
  have r: "nbase \<in> ?R" "nbase + 1 \<in> ?R" "nbase + 1 \<noteq> nbase" by simp_all
  have pe: "page2ppn 50 = nbase + 50" by (simp add: page2ppn_def)
  have "2 \<le> card (block_pages [(100, 100)])" by (simp add: demo_vm_free)
  have ua: "PDX1 ?a \<in> user_entries" by (rule user_index) simp
  from get_pte_create [OF demo_spaces_inv r(1) ua \<open>2 \<le> card (block_pages [(100, 100)])\<close>]
  obtain s1 bs1 t where g: "get_pte demo_spaces nbase ?a True = Some (s1, Some (t, PTX ?a))"
    "walk s1 nbase [PDX1 ?a, PDX0 ?a] = Some t" "grows user_entries ?R demo_spaces [(100, 100)] s1 bs1 2" by blast
  have "\<not> valid (mapping demo_spaces nbase ?a)" using demo_spaces_mapping [OF ua] by (simp add: valid_def)
  from page_insert_at [OF r(1) ua g this demo_vm_page(1) demo_spaces_page, of 22] obtain s where
    m: "mapped_on user_entries ?R demo_spaces [(100, 100)] nbase 50 ?a (pte_create (page2ppn 50) (1 OR 22)) s bs1 2" by blast
  note M = m [unfolded mapped_on_def pe]
  have e: "pte_create (nbase + 50) (1 OR 22) = pte_create (nbase + 50) 23" by simp
  have pte: "valid (pte_create (nbase + 50) 23)" "frame (pte_create (nbase + 50) 23) = nbase + 50"
    using pte_create_fields [of "nbase + 50" 23] by (simp_all add: nbase_def)
  have map: "mapping s q la = (if q = nbase \<and> same_page la ?a then pte_create (nbase + 50) 23 else 0)"
    if "q \<in> ?R" "PDX1 la \<in> user_entries" for q la
  proof -
    have "mapping s q la = (if q = nbase \<and> same_page la ?a then pte_create (nbase + 50) 23 else mapping demo_spaces q la)"
      using M that unfolding e by blast
    then show ?thesis by (simp only: demo_spaces_mapping [OF that(2)])
  qed
  have kernel: "rd s (q, 511) = pte_create (nbase + 2) 17" if "q \<in> ?R" for q
    using M that by (auto simp: demo_spaces_rd)
  have inv: "inv_in user_entries s bs1 ?R" using M by blast
  have nr: "default_nr_free_pages (area s) = card (block_pages bs1)"
    using ff.nr_pages_card inv unfolding inv_in_def by blast
  have "card (block_pages [(100, 100)]) \<le> card (block_pages bs1) + 2" using M by blast
  then have free: "3 * ((unat ?e - unat ?a) div 4096) \<le> default_nr_free_pages (area s)" unfolding nr demo_vm_free by simp
  have sub: "block_pages bs1 \<subseteq> {100..<200}" using M demo_vm_free by blast
  have pg: "in_use bs1 (nbase + 50)" using sub by (auto simp: in_use_def nbase_def npage_def)
  have nt: "\<not> table_in user_entries s ?R (nbase + 50)" using M demo_vm_page(1) demo_spaces_page unfolding pe by blast
  have user: "PDX1 la \<in> user_entries" if "la < ?e" for la by (rule user_index) (use that in \<open>simp add: word_less_nat_alt\<close>)
  have src: "sources_ok ?R s bs1 nbase ?a ?e" unfolding sources_ok_def using map [OF r(1) user] pg nt pte by (auto simp: valid_def)
  have un: "unmapped s (nbase + 1) ?a ?e" unfolding unmapped_def using map [OF r(2) user] by (auto simp: valid_def)
  have "unat ?a mod 4096 = 0" "unat ?e mod 4096 = 0" "USER_ACCESS ?a ?e" by (simp_all add: USER_ACCESS_def)
  from copy_range_copies [OF inv r(2,1,3) this free src un] obtain s' bs' where
    s': "copy_range s (nbase + 1) nbase ?a ?e = Some (s', 0)" "copied ?R s bs1 s' bs' (nbase + 1) nbase ?a ?e"
    "kept user_entries ?R s bs1 s' bs' (3 * ((unat ?e - unat ?a) div 4096))" by blast
  have pa: "mapping s nbase ?a = pte_create (nbase + 50) 23" using map [OF r(1) ua] by (simp add: same_page_def)
  have ae: "?a \<le> ?a" "?a < ?e" by simp_all
  have "copy_of ?R s bs1 s' bs' (nbase + 1) (pte_create (nbase + 50) 23) ?a"
    using s'(2) ae pa pte(1) unfolding copied_def by metis
  then obtain c where c: "c - nbase \<in> block_pages bs1"
    "mapping s' (nbase + 1) ?a = pte_create c (1 OR perm_of (pte_create (nbase + 50) 23))" "page_bytes s' c = page_bytes s (nbase + 50)"
    unfolding copy_of_def pte(2) by blast
  have "perm_of (pte_create (nbase + 50) 23) = 23" by (simp add: perm_of_def pte_create_def nbase_def)
  then have "mapping s' (nbase + 1) ?a = pte_create c 23" using c(2) by simp
  moreover have "c \<noteq> nbase + 50" using c(1) sub by auto
  moreover have "mapping s (nbase + 1) ?a = 0" using map [OF r(2) ua] by simp
  moreover have "rd s' (nbase + 1, 511) = rd s (nbase + 1, 511)" using s'(3) r(2) unfolding kept_def by simp
  moreover have "valid (pte_create (nbase + 2) 17)" using pte_create_fields [of "nbase + 2" 17] by (simp add: nbase_def)
  ultimately show ?thesis using s'(1) c(3) kernel r(1,2) by metis
qed

end
