(* ===== verification/Iobuf.thy ===== *)
theory Iobuf
  imports Cstring
begin

section \<open>I/O buffers: \<open>kern/fs/iobuf.c\<close>\<close>

text \<open>
  A cursor over a memory buffer: where the next byte goes, the position in the file, the length of
  the buffer and what is left of it.
\<close>

record iobuf =
  io_base :: nat
  io_offset :: int
  io_len :: nat
  io_resid :: nat

definition iobuf_used :: "iobuf \<Rightarrow> nat" where
  "iobuf_used iob = io_len iob - io_resid iob"

definition iobuf_init :: "nat \<Rightarrow> nat \<Rightarrow> int \<Rightarrow> iobuf" where
  "iobuf_init base len offset = \<lparr>io_base = base, io_offset = offset, io_len = len, io_resid = len\<rparr>"

definition iobuf_skip :: "iobuf \<Rightarrow> nat \<Rightarrow> iobuf option" where
  "iobuf_skip iob n =
     do { kassert (io_resid iob \<ge> n);
          Some (iob\<lparr>io_base := io_base iob + n, io_offset := io_offset iob + int n, io_resid := io_resid iob - n\<rparr>) }"

text \<open>Results: the memory, the buffer, the error code and the number of bytes moved.\<close>

definition iobuf_move :: "memory \<Rightarrow> iobuf \<Rightarrow> nat \<Rightarrow> nat \<Rightarrow> bool \<Rightarrow> (memory \<times> iobuf \<times> int \<times> nat) option" where
  "iobuf_move m iob data len m2b =
     (let alen = (if io_resid iob > len then len else io_resid iob)
      in if alen > 0
         then (let src = io_base iob; dst = data;
                   (src, dst) = (if m2b then (dst, src) else (src, dst));
                   m = memmove m dst src alen
               in do { iob \<leftarrow> iobuf_skip iob alen;
                       Some (m, iob, if len - alen = 0 then 0 else - E_NO_MEM, alen) })
         else Some (m, iob, if len = 0 then 0 else - E_NO_MEM, alen))"

definition iobuf_move_zeros :: "memory \<Rightarrow> iobuf \<Rightarrow> nat \<Rightarrow> (memory \<times> iobuf \<times> int \<times> nat) option" where
  "iobuf_move_zeros m iob len =
     (let alen = (if io_resid iob > len then len else io_resid iob)
      in if alen > 0
         then do { let m = memset m (io_base iob) NUL alen;
                   iob \<leftarrow> iobuf_skip iob alen;
                   Some (m, iob, if len - alen = 0 then 0 else - E_NO_MEM, alen) }
         else Some (m, iob, if len = 0 then 0 else - E_NO_MEM, alen))"

lemma iobuf_skip_Some: "n \<le> io_resid iob \<Longrightarrow> iobuf_skip iob n
    = Some (iob\<lparr>io_base := io_base iob + n, io_offset := io_offset iob + int n, io_resid := io_resid iob - n\<rparr>)"
  by (simp add: iobuf_skip_def)

text \<open>The buffer after a transfer of \<open>n\<close> bytes.\<close>

definition advance :: "iobuf \<Rightarrow> nat \<Rightarrow> iobuf" where
  "advance iob n = iob\<lparr>io_base := io_base iob + n, io_offset := io_offset iob + int n, io_resid := io_resid iob - n\<rparr>"

lemma advance_simps [simp]:
  "io_base (advance iob n) = io_base iob + n" "io_offset (advance iob n) = io_offset iob + int n"
  "io_resid (advance iob n) = io_resid iob - n" "io_len (advance iob n) = io_len iob"
  "advance iob 0 = iob" "advance (advance iob a) b = advance iob (a + b)"
  by (simp_all add: advance_def)

lemma iobuf_move_run:
  "iobuf_move m iob data len m2b =
    (let n = min len (io_resid iob)
     in Some (memmove m (if m2b then io_base iob else data) (if m2b then data else io_base iob) n, advance iob n,
          if len \<le> io_resid iob then 0 else - E_NO_MEM, n))"
proof (cases "min len (io_resid iob) = 0")
  case True
  have "memmove m d s 0 = m" for d s by (simp add: memmove_def)
  with True show ?thesis by (auto simp: iobuf_move_def Let_def min_def split: if_splits)
next
  case False
  then show ?thesis by (auto simp: iobuf_move_def Let_def min_def iobuf_skip_Some advance_def)
qed

text \<open>
  \<open>iobuf_move\<close> moves the bytes that fit, in either direction and for overlapping blocks, advances the
  cursor by exactly as many, never past the end of the buffer, never panics, and reports \<open>E_NO_MEM\<close>
  exactly when something did not fit; bytes outside the destination keep their value.
\<close>

theorem iobuf_move_exact:
  "\<exists>m' iob'. iobuf_move m iob data len m2b
      = Some (m', iob', if len \<le> io_resid iob then 0 else - E_NO_MEM, min len (io_resid iob))
    \<and> (let n = min len (io_resid iob); dst = (if m2b then io_base iob else data);
           src = (if m2b then data else io_base iob)
       in block m' dst n = block m src n \<and> (\<forall>i. i < dst \<or> dst + n \<le> i \<longrightarrow> m' i = m i)
        \<and> io_base iob' = io_base iob + n \<and> io_offset iob' = io_offset iob + int n
        \<and> io_resid iob' = io_resid iob - n \<and> io_len iob' = io_len iob)"
  unfolding iobuf_move_run Let_def
  by (intro exI conjI, rule refl)
    (use memmove_block [of m "if m2b then io_base iob else data" "if m2b then data else io_base iob"
        "min len (io_resid iob)"] in auto)

theorem iobuf_move_exact_witness:
  "\<exists>m'. iobuf_move (\<lambda>i. char_of i) (iobuf_init 10 2 0) 50 3 True
     = Some (m', \<lparr>io_base = 12, io_offset = 2, io_len = 2, io_resid = 0\<rparr>, - E_NO_MEM, 2) \<and> m' 11 = char_of (51 :: nat)"
proof -
  obtain m' iob' where r: "iobuf_move (\<lambda>i. char_of i) (iobuf_init 10 2 0) 50 3 True = Some (m', iob', - E_NO_MEM, 2)"
    "block m' 10 2 = block (\<lambda>i. char_of i) 50 2" "io_base iob' = 12" "io_offset iob' = 2" "io_resid iob' = 0" "io_len iob' = 2"
    using iobuf_move_exact [of "\<lambda>i. char_of i" "iobuf_init 10 2 0" 50 3 True] by (auto simp: iobuf_init_def)
  have "m' 11 = block m' 10 2 ! 1" by simp
  then have "m' 11 = char_of (51 :: nat)" unfolding r(2) by simp
  moreover have "iob' = \<lparr>io_base = 12, io_offset = 2, io_len = 2, io_resid = 0\<rparr>" using r(3-) by (cases iob') simp
  ultimately show ?thesis using r(1) by auto
qed

end
