(* ===== verification/Ide.thy ===== *)
theory Ide
  imports Iobuf "HOL-Library.Signed_Division"
begin

section \<open>Disks: \<open>kern/driver/ide.c\<close>, \<open>kern/driver/ramdisk.c\<close>, \<open>kern/fs/devs/dev_disk0.c\<close>\<close>

text \<open>
  The disks are images the linker puts into memory. A driver call copies bytes within the one memory
  of the machine: the images, the buffer of \<open>disk0\<close> and the buffers of the callers are addresses in it.
  The semaphore around \<open>disk0_io\<close> is the one of \<open>Sync\<close>.
\<close>

subsection \<open>The RAM disk and the table of devices\<close>

record ide_device =
  ide_valid :: bool
  ide_size :: u32
  ide_iobase :: nat

type_synonym ide_devices = "nat \<Rightarrow> ide_device"

text \<open>Where the linker has put an image: first address, and the address behind the last.\<close>

type_synonym image = "nat \<times> nat"

abbreviation (input) SECTSIZE :: nat where "SECTSIZE \<equiv> 512"
abbreviation (input) SWAP_DEV_NO :: nat where "SWAP_DEV_NO \<equiv> 1"
abbreviation (input) DISK0_DEV_NO :: nat where "DISK0_DEV_NO \<equiv> 2"
abbreviation (input) MAX_IDE :: nat where "MAX_IDE \<equiv> 4"

definition check_initrd :: "image \<Rightarrow> bool" where
  "check_initrd img = (fst img \<noteq> snd img)"

text \<open>\<open>MIN(nsecs, dev->size - secno)\<close>: the difference is unsigned and wraps.\<close>

definition sectors_left :: "ide_device \<Rightarrow> u64 \<Rightarrow> u64 \<Rightarrow> u64" where
  "sectors_left dev secno nsecs =
     (let left = ucast (ide_size dev) - secno in if nsecs < left then nsecs else left)"

definition ramdisk_read :: "memory \<Rightarrow> ide_device \<Rightarrow> u64 \<Rightarrow> nat \<Rightarrow> u64 \<Rightarrow> memory \<times> int" where
  "ramdisk_read m dev secno dst nsecs =
     (let nsecs = sectors_left dev secno nsecs
      in if nsecs < 0 then (m, - 1)
         else (memcpy m dst (ide_iobase dev + unat secno * SECTSIZE) (unat nsecs * SECTSIZE), 0))"

definition ramdisk_write :: "memory \<Rightarrow> ide_device \<Rightarrow> u64 \<Rightarrow> nat \<Rightarrow> u64 \<Rightarrow> memory \<times> int" where
  "ramdisk_write m dev secno src nsecs =
     (let nsecs = sectors_left dev secno nsecs
      in if nsecs < 0 then (m, - 1)
         else (memcpy m (ide_iobase dev + unat secno * SECTSIZE) src (unat nsecs * SECTSIZE), 0))"

definition ramdisk_init :: "image \<Rightarrow> image \<Rightarrow> nat \<Rightarrow> ide_devices \<Rightarrow> ide_devices option" where
  "ramdisk_init swap_img sfs_img devno devs =
     do { img \<leftarrow> (if devno = SWAP_DEV_NO then Some swap_img
                    else if devno = DISK0_DEV_NO then Some sfs_img else None);
          let dev = \<lparr>ide_valid = False, ide_size = 0, ide_iobase = 0\<rparr>;
          Some (devs(devno :=
            if check_initrd img
            then dev\<lparr>ide_valid := True, ide_size := word_of_nat (snd img - fst img) div 512, ide_iobase := fst img\<rparr>
            else dev)) }"

definition VALID_IDE :: "ide_devices \<Rightarrow> nat \<Rightarrow> bool" where
  "VALID_IDE devs ideno = (ideno < MAX_IDE \<and> ide_valid (devs ideno))"

definition ide_init :: "image \<Rightarrow> image \<Rightarrow> ide_devices \<Rightarrow> ide_devices option" where
  "ide_init swap_img sfs_img devs =
     do { let devs = (\<lambda>i. if i < MAX_IDE then (devs i)\<lparr>ide_valid := False\<rparr> else devs i);
          devs \<leftarrow> ramdisk_init swap_img sfs_img SWAP_DEV_NO devs;
          kassert (VALID_IDE devs SWAP_DEV_NO);
          devs \<leftarrow> ramdisk_init swap_img sfs_img DISK0_DEV_NO devs;
          kassert (VALID_IDE devs DISK0_DEV_NO);
          Some devs }"

definition ide_device_valid :: "ide_devices \<Rightarrow> nat \<Rightarrow> bool" where
  "ide_device_valid devs ideno = VALID_IDE devs ideno"

definition ide_device_size :: "ide_devices \<Rightarrow> nat \<Rightarrow> u64" where
  "ide_device_size devs ideno = (if ide_device_valid devs ideno then ucast (ide_size (devs ideno)) else 0)"

text \<open>The two assertions in front of every transfer.\<close>

definition ide_check :: "ide_devices \<Rightarrow> nat \<Rightarrow> u32 \<Rightarrow> u64 \<Rightarrow> unit option" where
  "ide_check devs ideno secno nsecs =
     do { kassert (nsecs \<le> 128 \<and> VALID_IDE devs ideno);
          kassert (secno < 0x10000000 \<and> ucast secno + nsecs \<le> 0x10000000) }"

definition ide_read_secs :: "ide_devices \<Rightarrow> memory \<Rightarrow> nat \<Rightarrow> u32 \<Rightarrow> nat \<Rightarrow> u64 \<Rightarrow> (memory \<times> int) option" where
  "ide_read_secs devs m ideno secno dst nsecs =
     do { ide_check devs ideno secno nsecs; Some (ramdisk_read m (devs ideno) (ucast secno) dst nsecs) }"

definition ide_write_secs :: "ide_devices \<Rightarrow> memory \<Rightarrow> nat \<Rightarrow> u32 \<Rightarrow> nat \<Rightarrow> u64 \<Rightarrow> (memory \<times> int) option" where
  "ide_write_secs devs m ideno secno src nsecs =
     do { ide_check devs ideno secno nsecs; Some (ramdisk_write m (devs ideno) (ucast secno) src nsecs) }"

subsection \<open>The block device \<open>disk0\<close>\<close>

record disk0 =
  d_blocks :: u64
  disk0_buffer :: nat

definition disk0_read_blks_nolock :: "ide_devices \<Rightarrow> disk0 \<Rightarrow> memory \<Rightarrow> u32 \<Rightarrow> u32 \<Rightarrow> memory option" where
  "disk0_read_blks_nolock devs dev m blkno nblks =
     do { (m, ret) \<leftarrow> ide_read_secs devs m DISK0_DEV_NO (blkno * 8) (disk0_buffer dev) (ucast (nblks * 8));
          kassert (ret = 0);
          Some m }"

definition disk0_write_blks_nolock :: "ide_devices \<Rightarrow> disk0 \<Rightarrow> memory \<Rightarrow> u32 \<Rightarrow> u32 \<Rightarrow> memory option" where
  "disk0_write_blks_nolock devs dev m blkno nblks =
     do { (m, ret) \<leftarrow> ide_write_secs devs m DISK0_DEV_NO (blkno * 8) (disk0_buffer dev) (ucast (nblks * 8));
          kassert (ret = 0);
          Some m }"

text \<open>The loop of \<open>disk0_io\<close>: at most four blocks per round, through the buffer.\<close>

partial_function (option) disk0_loop :: "ide_devices \<Rightarrow> disk0 \<Rightarrow> bool \<Rightarrow> memory \<Rightarrow> iobuf \<Rightarrow> nat \<Rightarrow> u32 \<Rightarrow> (memory \<times> iobuf) option" where
  "disk0_loop devs dev write m iob resid blkno =
     (if resid \<noteq> 0
      then do {
        (m, iob, copied) \<leftarrow>
          (if write
           then do {
             (m, iob, ret, copied) \<leftarrow> iobuf_move m iob (disk0_buffer dev) (4 * 4096) False;
             kassert (copied \<noteq> 0 \<and> copied \<le> resid \<and> copied mod 4096 = 0);
             m \<leftarrow> disk0_write_blks_nolock devs dev m blkno (word_of_nat (copied div 4096));
             Some (m, iob, copied) }
           else do {
             let alen = (if 4 * 4096 > resid then resid else 4 * 4096);
             m \<leftarrow> disk0_read_blks_nolock devs dev m blkno (word_of_nat (alen div 4096));
             (m, iob, ret, copied) \<leftarrow> iobuf_move m iob (disk0_buffer dev) alen True;
             kassert (copied = alen \<and> copied mod 4096 = 0);
             Some (m, iob, copied) });
        disk0_loop devs dev write m iob (resid - copied) (blkno + word_of_nat (copied div 4096)) }
      else Some (m, iob))"

definition disk0_io :: "ide_devices \<Rightarrow> disk0 \<Rightarrow> memory \<Rightarrow> iobuf \<Rightarrow> bool \<Rightarrow> (memory \<times> iobuf \<times> int) option" where
  "disk0_io devs dev m iob write =
     (let offset = io_offset iob; resid = io_resid iob;
          blkno = word_of_int (offset sdiv 4096) :: u32; nblks = word_of_nat (resid div 4096) :: u32
      in if offset mod 4096 \<noteq> 0 \<or> resid mod 4096 \<noteq> 0 then Some (m, iob, - E_INVAL)
         else if ucast (blkno + nblks) > d_blocks dev then Some (m, iob, - E_INVAL)
         else if nblks = 0 then Some (m, iob, 0)
         else do { (m, iob) \<leftarrow> disk0_loop devs dev write m iob resid blkno; Some (m, iob, 0) })"

definition disk0_device_init :: "ide_devices \<Rightarrow> nat option \<Rightarrow> disk0 option" where
  "disk0_device_init devs buffer =
     do { kassert (ide_device_valid devs DISK0_DEV_NO);
          buffer \<leftarrow> buffer;
          Some \<lparr>d_blocks = ide_device_size devs DISK0_DEV_NO div 8, disk0_buffer = buffer\<rparr> }"

subsection \<open>Transfers\<close>

text \<open>
  The devices as \<open>ide_init\<close> and \<open>disk0_device_init\<close> leave them; and three disjoint parts of memory: the
  image of the disk, the buffer of \<open>disk0\<close>, and the caller's buffer.
\<close>

lemma unat_u32_u64 [simp]: "unat (ucast (w :: u32) :: u64) = unat w"
proof -
  have "unat w < 2 ^ 32" by (rule order_less_le_trans [OF unsigned_less]) simp
  then show ?thesis by (simp add: unsigned_ucast_eq take_bit_nat_eq_self)
qed

definition disk0_ready :: "ide_devices \<Rightarrow> disk0 \<Rightarrow> bool" where
  "disk0_ready devs dev =
     (VALID_IDE devs DISK0_DEV_NO \<and> d_blocks dev = ucast (ide_size (devs DISK0_DEV_NO)) div 8
      \<and> unat (ide_size (devs DISK0_DEV_NO)) \<le> 0x10000000)"

definition apart :: "nat \<Rightarrow> nat \<Rightarrow> nat \<Rightarrow> nat \<Rightarrow> bool" where
  "apart a n b k = (a + n \<le> b \<or> b + k \<le> a)"

definition disk0_layout :: "ide_devices \<Rightarrow> disk0 \<Rightarrow> nat \<Rightarrow> nat \<Rightarrow> bool" where
  "disk0_layout devs dev base n =
     (let image = ide_iobase (devs DISK0_DEV_NO); size = unat (d_blocks dev) * 4096
      in apart image size (disk0_buffer dev) 16384 \<and> apart base n image size \<and> apart base n (disk0_buffer dev) 16384)"

lemma memmove_apart:
  "memmove m d s n a = (if d \<le> a \<and> a < d + n then m (s + (a - d)) else m a)"
proof (cases "d \<le> a \<and> a < d + n")
  case True
  have "a - d < n" "d + (a - d) = a" using True by auto
  then have "memmove m d s n a = block (memmove m d s n) d n ! (a - d)" by simp
  also have "\<dots> = m (s + (a - d))" using memmove_block [of m d s n] \<open>a - d < n\<close> block_nth by metis
  finally show ?thesis using True by simp
next
  case False
  then show ?thesis using memmove_block [of m d s n] by auto
qed

lemma memcpy_apart:
  "apart d n s n \<Longrightarrow> memcpy m d s n a = (if d \<le> a \<and> a < d + n then m (s + (a - d)) else m a)"
  using memcpy_forward [of d s n "a - d" m] memcpy_frame [of a d n m s] by (auto simp: apart_def)

lemma transfer_check:
  assumes "disk0_ready devs dev" and "unat blkno + n \<le> unat (d_blocks dev)" and "0 < n" and "n \<le> 4"
  shows "ide_check devs DISK0_DEV_NO (blkno * 8) (ucast (word_of_nat n * 8 :: u32)) = Some ()
    \<and> unat (blkno * 8) = unat blkno * 8
    \<and> sectors_left (devs DISK0_DEV_NO) (ucast (blkno * 8)) (ucast (word_of_nat n * 8 :: u32)) = word_of_nat (n * 8)"
proof -
  let ?size = "ide_size (devs DISK0_DEV_NO)"
  have "unat (d_blocks dev) = unat ?size div 8"
    using assms(1) by (simp add: disk0_ready_def unat_div unat_u32_u64)
  then have le: "(unat blkno + n) * 8 \<le> unat ?size" "unat ?size \<le> 0x10000000"
    using assms(1,2) by (auto simp: disk0_ready_def)
  have b8: "unat (blkno * 8) = unat blkno * 8"
    using le assms(3) by (simp add: unat_mult_lem [THEN iffD1])
  have n8: "unat (word_of_nat n * 8 :: u32) = n * 8"
  proof -
    have "unat (word_of_nat n :: u32) = n" using assms(4) by (simp add: unat_of_nat)
    then show ?thesis using assms(4) by (simp add: unat_mult_lem [THEN iffD1])
  qed
  have n8': "ucast (word_of_nat n * 8 :: u32) = (word_of_nat (n * 8) :: u64)"
    by (rule word_unat_eq_iff [THEN iffD2]) (use n8 [symmetric] assms(4) in \<open>simp only: unat_u32_u64 unat_of_nat, simp\<close>)
  have u: "unat (ucast (blkno * 8) :: u64) = unat blkno * 8" "unat (word_of_nat (n * 8) :: u64) = n * 8"
    "unat (ucast ?size :: u64) = unat ?size"
    using b8 assms(4) by (simp_all only: unat_u32_u64 unat_of_nat) simp_all
  have sub: "unat (ucast ?size - ucast (blkno * 8) :: u64) = unat ?size - unat blkno * 8"
    using le u by (subst unat_sub) (simp_all add: word_le_nat_alt)
  have "word_of_nat (n * 8) \<le> (ucast ?size - ucast (blkno * 8) :: u64)"
    using sub u le by (simp add: word_le_nat_alt)
  then have left: "sectors_left (devs DISK0_DEV_NO) (ucast (blkno * 8)) (word_of_nat (n * 8)) = word_of_nat (n * 8)"
    by (auto simp: sectors_left_def Let_def)
  have "unat (ucast (blkno * 8) + word_of_nat (n * 8) :: u64) = unat blkno * 8 + n * 8"
    using u le assms(4) by (subst unat_add_lem [THEN iffD1]) simp_all
  then have "ucast (blkno * 8) + word_of_nat (n * 8) \<le> (0x10000000 :: u64)" using le by (simp add: word_le_nat_alt)
  moreover have "blkno * 8 < 0x10000000" using b8 le assms(3) by (simp add: word_less_nat_alt)
  moreover have "word_of_nat (n * 8) \<le> (128 :: u64)" using u(2) assms(4) by (simp add: word_le_nat_alt)
  ultimately show ?thesis using assms(1) b8 left n8' by (simp add: ide_check_def disk0_ready_def)
qed

lemma disk0_read_blks_run:
  assumes "disk0_ready devs dev" and "unat blkno + n \<le> unat (d_blocks dev)" and "0 < n" and "n \<le> 4"
  shows "disk0_read_blks_nolock devs dev m blkno (word_of_nat n)
    = Some (memcpy m (disk0_buffer dev) (ide_iobase (devs DISK0_DEV_NO) + unat blkno * 4096) (n * 4096))"
proof -
  have "unat (word_of_nat (n * 8) :: u64) = n * 8" using assms(4) by (simp only: unat_of_nat) simp
  then show ?thesis using transfer_check [OF assms]
    by (simp add: disk0_read_blks_nolock_def ide_read_secs_def ramdisk_read_def Let_def mult.commute [of _ 4096] del: of_nat_mult)
qed

lemma disk0_write_blks_run:
  assumes "disk0_ready devs dev" and "unat blkno + n \<le> unat (d_blocks dev)" and "0 < n" and "n \<le> 4"
  shows "disk0_write_blks_nolock devs dev m blkno (word_of_nat n)
    = Some (memcpy m (ide_iobase (devs DISK0_DEV_NO) + unat blkno * 4096) (disk0_buffer dev) (n * 4096))"
proof -
  have "unat (word_of_nat (n * 8) :: u64) = n * 8" using assms(4) by (simp only: unat_of_nat) simp
  then show ?thesis using transfer_check [OF assms]
    by (simp add: disk0_write_blks_nolock_def ide_write_secs_def ramdisk_write_def Let_def mult.commute [of _ 4096] del: of_nat_mult)
qed

text \<open>One round of the loop, and then the loop.\<close>

lemma disk0_loop_step:
  assumes ok: "disk0_ready devs dev" "unat blkno + n \<le> unat (d_blocks dev)" "io_resid iob = n * 4096" "0 < n"
    and lay: "disk0_layout devs dev (io_base iob) (n * 4096)"
  defines "k \<equiv> min n 4"
  defines "img \<equiv> ide_iobase (devs DISK0_DEV_NO) + unat blkno * 4096"
  shows "\<exists>m'. disk0_loop devs dev write m iob (n * 4096) blkno
      = disk0_loop devs dev write m' (advance iob (k * 4096)) ((n - k) * 4096) (blkno + word_of_nat k)
    \<and> (\<forall>a. apart a 1 (disk0_buffer dev) 16384 \<longrightarrow> m' a =
        (let dst = if write then img else io_base iob; src = if write then io_base iob else img
         in if dst \<le> a \<and> a < dst + k * 4096 then m (src + (a - dst)) else m a))"
proof -
  let ?buf = "disk0_buffer dev" and ?img0 = "ide_iobase (devs DISK0_DEV_NO)" and ?bytes = "k * 4096"
  have k: "0 < k" "k \<le> 4" "k \<le> n" using ok(4) by (auto simp: k_def)
  have b: "unat blkno + k \<le> unat (d_blocks dev)" using ok(2) k by simp
  have size: "unat blkno * 4096 + ?bytes \<le> unat (d_blocks dev) * 4096" using b by (metis add_mult_distrib mult_le_mono1)
  have ap: "apart ?buf 16384 img ?bytes" "apart (io_base iob) ?bytes ?buf 16384" "apart (io_base iob) ?bytes img ?bytes"
    using lay size k by (auto simp: disk0_layout_def Let_def apart_def img_def)
  show ?thesis
  proof (cases "write")
    case False
    have alen: "(if 4 * 4096 > n * 4096 then n * 4096 else 4 * 4096) = ?bytes" by (auto simp: k_def)
    let ?m1 = "memcpy m ?buf img ?bytes"
    let ?m2 = "memmove ?m1 (io_base iob) ?buf ?bytes"
    have rd: "disk0_read_blks_nolock devs dev m blkno (word_of_nat k) = Some ?m1"
      using disk0_read_blks_run [OF ok(1) b k(1,2)] by (simp add: img_def)
    have "disk0_loop devs dev False m iob (n * 4096) blkno
      = disk0_loop devs dev False ?m2 (advance iob ?bytes) ((n - k) * 4096) (blkno + word_of_nat k)"
      using ok(3,4) k rd alen
      by (subst disk0_loop.simps) (simp add: iobuf_move_run Let_def min_def diff_mult_distrib del: disk0_loop.simps)
    moreover have "?m2 a = (if io_base iob \<le> a \<and> a < io_base iob + ?bytes then m (img + (a - io_base iob)) else m a)"
      if "apart a 1 ?buf 16384" for a
    proof -
      have "apart ?buf ?bytes img ?bytes" using ap k by (auto simp: apart_def)
      moreover have "k * 4096 \<le> 16384" using k by simp
      ultimately show ?thesis using that by (auto simp: memmove_apart memcpy_apart apart_def)
    qed
    ultimately show ?thesis using False by (intro exI [of _ ?m2]) (simp add: Let_def)
  next
    case True
    let ?m1 = "memmove m ?buf (io_base iob) ?bytes"
    let ?m2 = "memcpy ?m1 img ?buf ?bytes"
    have wr: "disk0_write_blks_nolock devs dev ?m1 blkno (word_of_nat k) = Some ?m2"
      using disk0_write_blks_run [OF ok(1) b k(1,2)] by (simp add: img_def)
    have mn: "min 16384 (n * 4096) = ?bytes" by (auto simp: k_def)
    have "disk0_loop devs dev True m iob (n * 4096) blkno
      = disk0_loop devs dev True ?m2 (advance iob ?bytes) ((n - k) * 4096) (blkno + word_of_nat k)"
      using ok(3,4) k wr mn
      by (subst disk0_loop.simps) (simp add: iobuf_move_run Let_def diff_mult_distrib del: disk0_loop.simps)
    moreover have "?m2 a = (if img \<le> a \<and> a < img + ?bytes then m (io_base iob + (a - img)) else m a)"
      if "apart a 1 ?buf 16384" for a
    proof -
      have "apart img ?bytes ?buf ?bytes" using ap k by (auto simp: apart_def)
      moreover have "k * 4096 \<le> 16384" using k by simp
      ultimately show ?thesis using that by (auto simp: memmove_apart memcpy_apart apart_def)
    qed
    ultimately show ?thesis using True by (intro exI [of _ ?m2]) (simp add: Let_def)
  qed
qed

definition moved :: "ide_devices \<Rightarrow> disk0 \<Rightarrow> bool \<Rightarrow> memory \<Rightarrow> nat \<Rightarrow> nat \<Rightarrow> nat \<Rightarrow> memory \<Rightarrow> bool" where
  "moved devs dev wr m base pos n m' =
     (let img = ide_iobase (devs DISK0_DEV_NO) + pos; dst = if wr then img else base; src = if wr then base else img
      in \<forall>a. apart a 1 (disk0_buffer dev) 16384 \<longrightarrow>
           m' a = (if dst \<le> a \<and> a < dst + n then m (src + (a - dst)) else m a))"

lemma copied_join:
  assumes "\<forall>a. P a \<longrightarrow> m1 a = (if dst \<le> a \<and> a < dst + k then m (src + (a - dst)) else m a)"
    and "\<forall>a. P a \<longrightarrow> m' a = (if dst + k \<le> a \<and> a < dst + k + l then m1 (src + k + (a - (dst + k))) else m1 a)"
    and "apart src (k + l) dst (k + l)" and "\<forall>a. src \<le> a \<and> a < src + k + l \<longrightarrow> P a"
  shows "\<forall>a. P a \<longrightarrow> m' a = (if dst \<le> a \<and> a < dst + (k + l) then m (src + (a - dst)) else m a)"
proof (intro allI impI)
  fix a assume P: "P a"
  show "m' a = (if dst \<le> a \<and> a < dst + (k + l) then m (src + (a - dst)) else m a)"
  proof (cases "dst + k \<le> a \<and> a < dst + k + l")
    case True
    then have b: "src + k + (a - (dst + k)) = src + (a - dst)" "src \<le> src + (a - dst)" "src + (a - dst) < src + k + l"
      by auto
    have "m' a = m1 (src + (a - dst))" using assms(2) P True b(1) by simp
    also have "\<dots> = m (src + (a - dst))" using assms(1,3,4) b by (auto simp: apart_def)
    finally show ?thesis using True by simp
  next
    case False
    then have "m' a = m1 a" using assms(2) [rule_format, OF P] by (simp only: if_False)
    then show ?thesis using assms(1) P False by auto
  qed
qed

lemma disk0_loop_transfer:
  assumes "disk0_ready devs dev" and "unat blkno + n \<le> unat (d_blocks dev)" and "io_resid iob = n * 4096"
    and "disk0_layout devs dev (io_base iob) (n * 4096)"
  shows "\<exists>m'. disk0_loop devs dev write m iob (n * 4096) blkno = Some (m', advance iob (n * 4096))
    \<and> moved devs dev write m (io_base iob) (unat blkno * 4096) (n * 4096) m'"
  using assms
proof (induction n arbitrary: m iob blkno rule: less_induct)
  case (less n)
  show ?case
  proof (cases "n = 0")
    case True
    then show ?thesis by (subst disk0_loop.simps) (auto simp: moved_def Let_def)
  next
    case False
    define k where "k = min n 4"
    have k: "0 < k" "k \<le> n" "n - k < n" using False by (auto simp: k_def)
    let ?img = "ide_iobase (devs DISK0_DEV_NO)"
    from disk0_loop_step [of devs dev blkno n iob "write" m, OF less.prems(1-3) _ less.prems(4), folded k_def] False
    obtain m1 where s: "disk0_loop devs dev write m iob (n * 4096) blkno
        = disk0_loop devs dev write m1 (advance iob (k * 4096)) ((n - k) * 4096) (blkno + word_of_nat k)"
      and m1: "moved devs dev write m (io_base iob) (unat blkno * 4096) (k * 4096) m1"
      by (auto simp: moved_def Let_def)
    have "unat (d_blocks dev) < 2 ^ 32"
      using less.prems(1) by (auto simp: disk0_ready_def unat_div)
    then have b: "unat (blkno + word_of_nat k) = unat blkno + k"
      using less.prems(2) k(2) by (subst unat_add_lem [THEN iffD1]) (simp_all add: unat_of_nat k_def)
    have prems: "unat (blkno + word_of_nat k) + (n - k) \<le> unat (d_blocks dev)"
      "io_resid (advance iob (k * 4096)) = (n - k) * 4096"
      "disk0_layout devs dev (io_base (advance iob (k * 4096))) ((n - k) * 4096)"
      using b less.prems(2-4) k by (auto simp: disk0_layout_def Let_def apart_def diff_mult_distrib)
    obtain m' where m': "disk0_loop devs dev write m1 (advance iob (k * 4096)) ((n - k) * 4096) (blkno + word_of_nat k)
        = Some (m', advance (advance iob (k * 4096)) ((n - k) * 4096))"
      "moved devs dev write m1 (io_base iob + k * 4096) ((unat blkno + k) * 4096) ((n - k) * 4096) m'"
      using less.IH [OF k(3) less.prems(1) prems, of m1] unfolding b advance_simps by blast
    have adv: "advance (advance iob (k * 4096)) ((n - k) * 4096) = advance iob (n * 4096)"
      using k(2) by (simp add: diff_mult_distrib)
    have size: "unat blkno * 4096 + n * 4096 \<le> unat (d_blocks dev) * 4096"
      using less.prems(2) by (metis add_mult_distrib mult_le_mono1)
    have nk: "n * 4096 = k * 4096 + (n - k) * 4096" using k(2) by (simp add: diff_mult_distrib)
    have "moved devs dev write m (io_base iob) (unat blkno * 4096) (n * 4096) m'"
    proof (cases "write")
      case False
      then show ?thesis using m1 m'(2) less.prems(4) size nk k(2) unfolding moved_def Let_def nk
        by (intro copied_join [where ?m1.0 = m1]) (auto simp: disk0_layout_def Let_def apart_def add.assoc add_mult_distrib)
    next
      case True
      then show ?thesis using m1 m'(2) less.prems(4) size nk k(2) unfolding moved_def Let_def nk
        by (intro copied_join [where ?m1.0 = m1]) (auto simp: disk0_layout_def Let_def apart_def add.assoc add_mult_distrib)
    qed
    then show ?thesis using s m'(1) adv by auto
  qed
qed

subsection \<open>Properties\<close>

lemma sdiv_nonneg: "0 \<le> (a :: int) \<Longrightarrow> 0 < b \<Longrightarrow> a sdiv b = a div b"
  by (cases "a = 0") (simp_all add: signed_divide_int_def)

text \<open>
  \<open>disk0_io\<close> moves whole blocks between a caller's buffer and the image of the disk: an aligned request
  inside the disk returns 0 and moves exactly the bytes of the request in the direction asked for,
  whatever number of rounds through the four-block buffer this takes; no other byte changes outside that
  buffer. A request that is not aligned, or ends behind the last block, fails with \<open>E_INVAL\<close>.
\<close>

theorem disk0_io_moves_blocks:
  assumes "disk0_ready devs dev" and "0 \<le> io_offset iob" and "io_offset iob + int (io_resid iob) < 2 ^ 44"
    and "disk0_layout devs dev (io_base iob) (io_resid iob)"
  shows "let pos = nat (io_offset iob); n = io_resid iob
    in if pos mod 4096 \<noteq> 0 \<or> n mod 4096 \<noteq> 0 \<or> pos + n > unat (d_blocks dev) * 4096
       then disk0_io devs dev m iob write = Some (m, iob, - E_INVAL)
       else \<exists>m'. disk0_io devs dev m iob write = Some (m', advance iob n, 0)
              \<and> moved devs dev write m (io_base iob) pos n m'"
proof -
  define pos where "pos = nat (io_offset iob)"
  define n where "n = io_resid iob"
  have off: "io_offset iob = int pos" using assms(2) by (simp add: pos_def)
  have md: "(io_offset iob mod 4096 = 0) = (pos mod 4096 = 0)"
    unfolding off by (metis of_nat_0_eq_iff of_nat_numeral zmod_int)
  show ?thesis
  proof (cases "pos mod 4096 = 0 \<and> n mod 4096 = 0")
    case False
    then show ?thesis using md by (auto simp: disk0_io_def Let_def pos_def [symmetric] n_def [symmetric])
  next
    case True
    then obtain b k where bk: "pos = b * 4096" "n = k * 4096" by (metis mod_0_imp_dvd dvd_div_mult_self)
    have small: "b + k < 2 ^ 32" using assms(3) off bk n_def by simp
    let ?b = "word_of_nat b :: u32" and ?k = "word_of_nat k :: u32"
    have sd: "word_of_int (io_offset iob sdiv 4096) = ?b"
      using off bk by (simp add: sdiv_nonneg)
    have nk: "word_of_nat (n div 4096) = ?k" using bk by simp
    have u: "unat ?b = b" "unat ?k = k" using small by (simp_all add: unat_of_nat)
    then have ub: "unat (?b + ?k) = b + k" using small by (subst unat_add_lem [THEN iffD1]) simp_all
    have k0: "?k = 0 \<longleftrightarrow> k = 0" using u(2) by (metis unat_0 unsigned_eq_0_iff)
    have gt: "ucast (?b + ?k) > d_blocks dev \<longleftrightarrow> pos + n > unat (d_blocks dev) * 4096"
    proof -
      have "ucast (?b + ?k) > d_blocks dev \<longleftrightarrow> b + k > unat (d_blocks dev)" by (simp add: word_less_nat_alt ub)
      also have "\<dots> \<longleftrightarrow> b * 4096 + k * 4096 > unat (d_blocks dev) * 4096" by linarith
      finally show ?thesis unfolding bk .
    qed
    have run: "disk0_io devs dev m iob write =
      (if pos + n > unat (d_blocks dev) * 4096 then Some (m, iob, - E_INVAL)
       else if k = 0 then Some (m, iob, 0)
       else do { (m, iob) \<leftarrow> disk0_loop devs dev write m iob n ?b; Some (m, iob, 0) })"
      unfolding disk0_io_def Let_def n_def [symmetric] sd nk gt k0 using True md by simp
    show ?thesis
    proof (cases "pos + n > unat (d_blocks dev) * 4096")
      case True
      then show ?thesis using run by (simp add: Let_def pos_def [symmetric] n_def [symmetric])
    next
      case False
      then have "unat ?b + k \<le> unat (d_blocks dev)" unfolding u bk by linarith
      then obtain m' where m': "disk0_loop devs dev write m iob n ?b = Some (m', advance iob n)"
        "moved devs dev write m (io_base iob) pos n m'"
        using disk0_loop_transfer [OF assms(1), of ?b k iob "write" m] assms(4) bk u n_def by auto
      have "disk0_loop devs dev write m iob 0 ?b = Some (m, iob)" by (subst disk0_loop.simps) simp
      then have z: "k = 0 \<Longrightarrow> m' = m \<and> advance iob n = iob" using m'(1) bk(2) by simp
      then have "disk0_io devs dev m iob write = Some (m', advance iob n, 0)"
        using run False m'(1) by auto
      then show ?thesis using True False m'(2) unfolding pos_def [symmetric] n_def [symmetric] Let_def
        by (simp add: \<open>pos mod 4096 = 0 \<and> n mod 4096 = 0\<close>)
    qed
  qed
qed

definition demo_devs :: ide_devices where
  "demo_devs = (\<lambda>i. \<lparr>ide_valid = (i = 1 \<or> i = 2), ide_size = 80, ide_iobase = (if i = 2 then 100000 else 500000)\<rparr>)"

lemma demo_devs_init:
  "ide_init (500000, 540960) (100000, 140960) (\<lambda>i. \<lparr>ide_valid = False, ide_size = 80, ide_iobase = 500000\<rparr>) = Some demo_devs"
  by (auto simp: ide_init_def ramdisk_init_def check_initrd_def VALID_IDE_def demo_devs_def fun_eq_iff)

theorem disk0_io_moves_blocks_witness:
  "\<exists>m' iob'. disk0_io demo_devs \<lparr>d_blocks = 10, disk0_buffer = 200000\<rparr> (\<lambda>a. char_of (a div 4096)) (iobuf_init 300000 20480 8192) False
      = Some (m', iob', 0) \<and> m' 320000 = char_of ((128192 :: nat) div 4096)"
proof -
  let ?dev = "\<lparr>d_blocks = 10, disk0_buffer = 200000\<rparr>" and ?iob = "iobuf_init 300000 20480 8192"
  have r: "disk0_ready demo_devs ?dev" by (simp add: disk0_ready_def VALID_IDE_def demo_devs_def)
  have l: "disk0_layout demo_devs ?dev (io_base ?iob) (io_resid ?iob)"
    by (simp add: disk0_layout_def Let_def apart_def demo_devs_def iobuf_init_def)
  have o: "0 \<le> io_offset ?iob" "io_offset ?iob + int (io_resid ?iob) < 2 ^ 44" by (simp_all add: iobuf_init_def)
  obtain m' where m': "disk0_io demo_devs ?dev (\<lambda>a. char_of (a div 4096)) ?iob False = Some (m', advance ?iob 20480, 0)"
    "moved demo_devs ?dev False (\<lambda>a. char_of (a div 4096)) 300000 8192 20480 m'"
    using disk0_io_moves_blocks [OF r o l, of "\<lambda>a. char_of (a div 4096)" False] by (auto simp: iobuf_init_def)
  have "m' 320000 = char_of ((128192 :: nat) div 4096)"
    using m'(2) [unfolded moved_def Let_def, rule_format, of 320000] by (simp add: apart_def demo_devs_def)
  with m'(1) show ?thesis by blast
qed

end
