(* ===== verification/Swap.thy ===== *)
theory Swap
  imports Page_Table Ide
begin

section \<open>Swapping and page faults: \<open>kern/mm/swap.c\<close>, \<open>swap_fifo.c\<close>, \<open>kern/fs/swap/swapfs.c\<close>, \<open>kern/mm/vmm.c\<close>\<close>

text \<open>
  The FIFO list threads the \<open>pra_page_link\<close> fields of the page descriptors through \<open>pra_list_head\<close>; the
  swap disk is the RAM disk of \<open>Ide\<close>, in the memory the pages are in. An address space is its areas
  (\<open>Vmm\<close>), its page directory and whether its \<open>sm_priv\<close> is set; it is always set to the one list head.
\<close>

subsection \<open>State\<close>

record swapper =
  vm :: vmem
  pra :: "lnode links"
  pra_vaddr :: "nat \<Rightarrow> u64"
  disks :: ide_devices
  max_swap_offset :: u64
  pgfault_num :: u32

abbreviation (input) pra_list_head :: lnode where "pra_list_head \<equiv> FreeHead"
abbreviation (input) pra_page_link :: "nat \<Rightarrow> lnode" where "pra_page_link \<equiv> PLink"

subsection \<open>The FIFO manager\<close>

text \<open>\<open>mm->sm_priv\<close> becomes the address of \<open>pra_list_head\<close>: the result is that it is set.\<close>

definition fifo_init_mm :: "swapper \<Rightarrow> swapper \<times> bool" where
  "fifo_init_mm s = (s\<lparr>pra := list_init (pra s) pra_list_head\<rparr>, True)"

definition fifo_map_swappable :: "swapper \<Rightarrow> bool \<Rightarrow> nat \<Rightarrow> swapper option" where
  "fifo_map_swappable s sm_priv page =
     do { kassert sm_priv; Some (s\<lparr>pra := list_add_before (pra s) pra_list_head (pra_page_link page)\<rparr>) }"

text \<open>With an empty list the entry is the head itself, which lies in no page descriptor.\<close>

definition fifo_swap_out_victim :: "swapper \<Rightarrow> bool \<Rightarrow> bool \<Rightarrow> (swapper \<times> nat) option" where
  "fifo_swap_out_victim s sm_priv in_tick =
     do { kassert sm_priv;
          kassert (\<not> in_tick);
          let entry = list_next (pra s) pra_list_head;
          let s = s\<lparr>pra := list_del (pra s) entry\<rparr>;
          (case entry of FreeHead \<Rightarrow> None | PLink page \<Rightarrow> Some (s, page)) }"

definition swap_init_mm :: "swapper \<Rightarrow> swapper \<times> bool" where
  "swap_init_mm s = fifo_init_mm s"

definition swap_map_swappable :: "swapper \<Rightarrow> bool \<Rightarrow> nat \<Rightarrow> swapper option" where
  "swap_map_swappable s sm_priv page = fifo_map_swappable s sm_priv page"

subsection \<open>The swap disk\<close>

definition swapfs_init :: "swapper \<Rightarrow> swapper option" where
  "swapfs_init s =
     do { kassert (ide_device_valid (disks s) SWAP_DEV_NO);
          Some (s\<lparr>max_swap_offset := ide_device_size (disks s) SWAP_DEV_NO div 8\<rparr>) }"

definition swap_init :: "swapper \<Rightarrow> swapper option" where
  "swap_init s =
     do { s \<leftarrow> swapfs_init s;
          kassert (7 \<le> max_swap_offset s \<and> max_swap_offset s < 0x1000000);
          Some (s\<lparr>vm := (vm s)\<lparr>swap_init_ok := True\<rparr>\<rparr>) }"

definition swap_offset :: "swapper \<Rightarrow> u64 \<Rightarrow> u64 option" where
  "swap_offset s entry =
     (let off = drop_bit 8 entry in do { kassert (0 < off \<and> off < max_swap_offset s); Some off })"

definition page_addr :: "nat \<Rightarrow> nat option" where
  "page_addr page = do { kassert (page2ppn page < npage); Some (page2ppn page * 4096) }"

definition swapfs_read :: "swapper \<Rightarrow> u64 \<Rightarrow> nat \<Rightarrow> (swapper \<times> int) option" where
  "swapfs_read s entry page =
     do { off \<leftarrow> swap_offset s entry;
          kva \<leftarrow> page_addr page;
          (m, r) \<leftarrow> ide_read_secs (disks s) (mem (vm s)) SWAP_DEV_NO (ucast (off * 8)) kva 8;
          Some (s\<lparr>vm := (vm s)\<lparr>mem := m\<rparr>\<rparr>, r) }"

definition swapfs_write :: "swapper \<Rightarrow> u64 \<Rightarrow> nat \<Rightarrow> (swapper \<times> int) option" where
  "swapfs_write s entry page =
     do { off \<leftarrow> swap_offset s entry;
          kva \<leftarrow> page_addr page;
          (m, r) \<leftarrow> ide_write_secs (disks s) (mem (vm s)) SWAP_DEV_NO (ucast (off * 8)) kva 8;
          Some (s\<lparr>vm := (vm s)\<lparr>mem := m\<rparr>\<rparr>, r) }"

subsection \<open>Swapping out and in\<close>

definition swap_entry :: "u64 \<Rightarrow> u64" where
  "swap_entry v = push_bit 8 (v div PGSIZE + 1)"

text \<open>The loop of \<open>swap_out\<close> with \<open>n\<close> rounds left; a missing entry would be read through NULL.\<close>

fun swap_out_rounds :: "swapper \<Rightarrow> nat \<Rightarrow> bool \<Rightarrow> nat \<Rightarrow> bool \<Rightarrow> swapper option" where
  "swap_out_rounds s pgdir sm_priv 0 in_tick = Some s"
| "swap_out_rounds s pgdir sm_priv (Suc n) in_tick =
     do { (s, page) \<leftarrow> fifo_swap_out_victim s sm_priv in_tick;
          let v = pra_vaddr s page;
          (vm', ptep) \<leftarrow> get_pte (vm s) pgdir v False;
          sl \<leftarrow> ptep;
          kassert (rd vm' sl AND PTE_V \<noteq> 0);
          (s, r) \<leftarrow> swapfs_write (s\<lparr>vm := vm'\<rparr>) (swap_entry v) page;
          if r \<noteq> 0 then do { s \<leftarrow> swap_map_swappable s sm_priv page; swap_out_rounds s pgdir sm_priv n in_tick }
          else do { let vm' = wr (vm s) sl (swap_entry v);
                    vm' \<leftarrow> free_page vm' page;
                    swap_out_rounds (s\<lparr>vm := tlb_invalidate vm' v\<rparr>) pgdir sm_priv n in_tick } }"

text \<open>The result is the number of rounds: the manager never reports a failure.\<close>

definition swap_out :: "swapper \<Rightarrow> nat \<Rightarrow> bool \<Rightarrow> nat \<Rightarrow> bool \<Rightarrow> (swapper \<times> nat) option" where
  "swap_out s pgdir sm_priv n in_tick = do { s \<leftarrow> swap_out_rounds s pgdir sm_priv n in_tick; Some (s, n) }"

definition swap_in :: "swapper \<Rightarrow> nat \<Rightarrow> u64 \<Rightarrow> (swapper \<times> int \<times> nat) option" where
  "swap_in s pgdir addr =
     do { (vm', result) \<leftarrow> alloc_page (vm s);
          result \<leftarrow> result;
          (vm', ptep) \<leftarrow> get_pte vm' pgdir addr False;
          sl \<leftarrow> ptep;
          (s, r) \<leftarrow> swapfs_read (s\<lparr>vm := vm'\<rparr>) (rd vm' sl) result;
          (if r \<noteq> 0 then kassert (r \<noteq> 0) else Some ());
          Some (s, 0, result) }"

subsection \<open>The page-fault handler\<close>

definition do_pgfault :: "swapper \<Rightarrow> mm \<Rightarrow> nat \<Rightarrow> bool \<Rightarrow> u32 \<Rightarrow> u64 \<Rightarrow> (swapper \<times> mm \<times> int) option" where
  "do_pgfault s mm pgdir sm_priv error_code addr =
     (let (mm, vma) = find_vma mm addr; s = s\<lparr>pgfault_num := pgfault_num s + 1\<rparr>
      in case vma of
           None \<Rightarrow> Some (s, mm, - E_INVAL)
         | Some v \<Rightarrow>
             if vm_start v > addr then Some (s, mm, - E_INVAL)
             else do {
               let perm = (if vm_flags v AND VM_WRITE \<noteq> 0 then 16 OR READ_WRITE else 16);
               let addr = ROUNDDOWN addr PGSIZE;
               (vm', ptep) \<leftarrow> get_pte (vm s) pgdir addr True;
               let s = s\<lparr>vm := vm'\<rparr>;
               (case ptep of
                  None \<Rightarrow> Some (s, mm, - E_NO_MEM)
                | Some sl \<Rightarrow>
                    if rd vm' sl = 0
                    then do { (vm', page) \<leftarrow> pgdir_alloc_page vm' pgdir addr perm;
                              Some (s\<lparr>vm := vm'\<rparr>, mm, if page = None then - E_NO_MEM else 0) }
                    else if swap_init_ok vm'
                    then do { (s, ret, page) \<leftarrow> swap_in s pgdir addr;
                              if ret \<noteq> 0 then Some (s, mm, ret)
                              else do { (vm', ret) \<leftarrow> page_insert (vm s) pgdir page addr perm;
                                        s \<leftarrow> swap_map_swappable (s\<lparr>vm := vm'\<rparr>) sm_priv page;
                                        Some (s\<lparr>pra_vaddr := (pra_vaddr s)(page := addr)\<rparr>, mm, 0) } }
                    else Some (s, mm, - E_NO_MEM)) })"

subsection \<open>Leaving an address space\<close>

fun unmap_areas :: "vmem \<Rightarrow> nat \<Rightarrow> vma list \<Rightarrow> vmem option" where
  "unmap_areas s pgdir [] = Some s"
| "unmap_areas s pgdir (v # vs) = do { s \<leftarrow> unmap_range s pgdir (vm_start v) (vm_end v); unmap_areas s pgdir vs }"

fun exit_areas :: "vmem \<Rightarrow> nat \<Rightarrow> vma list \<Rightarrow> vmem option" where
  "exit_areas s pgdir [] = Some s"
| "exit_areas s pgdir (v # vs) = do { s \<leftarrow> exit_range s pgdir (vm_start v) (vm_end v); exit_areas s pgdir vs }"

definition exit_mmap :: "vmem \<Rightarrow> mm \<Rightarrow> nat \<Rightarrow> vmem option" where
  "exit_mmap s mm pgdir =
     do { kassert (mm_count mm = 0);
          s \<leftarrow> unmap_areas s pgdir (mmap_list mm);
          exit_areas s pgdir (mmap_list mm) }"

subsection \<open>Order and content\<close>

text \<open>The pages the FIFO list holds, oldest first.\<close>

definition fifo :: "swapper \<Rightarrow> nat list \<Rightarrow> bool" where
  "fifo s ps = dlist (pra s) pra_list_head (map pra_page_link ps)"

lemma fifo_init: "fifo (fst (fifo_init_mm s)) []"
  by (simp add: fifo_def fifo_init_mm_def dlist_list_init)

lemma fifo_add:
  assumes "fifo s ps" and "p \<notin> set ps"
  shows "\<exists>s'. fifo_map_swappable s True p = Some s' \<and> fifo s' (ps @ [p])"
  using dlist_list_add_tail [OF assms(1) [unfolded fifo_def], of "PLink p"] assms(2)
  by (auto simp: fifo_map_swappable_def fifo_def)

lemma fifo_victim:
  assumes "fifo s (p # ps)"
  shows "\<exists>s'. fifo_swap_out_victim s True False = Some (s', p) \<and> fifo s' ps \<and> vm s' = vm s"
proof -
  have d: "dlist (pra s) FreeHead ([] @ PLink p # map PLink ps)" using assms by (simp add: fifo_def)
  have "list_next (pra s) FreeHead = PLink p" using dlist_next_head [OF d] by (simp add: list_next_def)
  with dlist_list_del [OF d] show ?thesis by (simp add: fifo_swap_out_victim_def fifo_def Let_def)
qed

text \<open>The disk slot of an offset and a page do not overlap.\<close>

definition slot_apart :: "swapper \<Rightarrow> nat \<Rightarrow> nat \<Rightarrow> bool" where
  "slot_apart s off page = apart (ide_iobase (disks s SWAP_DEV_NO) + off * 4096) 4096 (page2ppn page * 4096) 4096"

definition swap_ready :: "swapper \<Rightarrow> bool" where
  "swap_ready s = (VALID_IDE (disks s) SWAP_DEV_NO \<and> max_swap_offset s = ucast (ide_size (disks s SWAP_DEV_NO)) div 8
     \<and> max_swap_offset s < 0x1000000)"

lemma swap_sectors:
  assumes rdy: "swap_ready s" and off: "0 < off" "off < max_swap_offset s"
  defines "secno \<equiv> ucast (off * 8) :: u32"
  shows "ide_check (disks s) SWAP_DEV_NO secno 8 = Some ()" "unat secno = unat off * 8"
    "sectors_left (disks s SWAP_DEV_NO) (ucast secno) 8 = 8"
proof -
  let ?size = "ide_size (disks s SWAP_DEV_NO)"
  have eq: "max_swap_offset s = ucast ?size div 8" and lt: "max_swap_offset s < 0x1000000"
    using rdy unfolding swap_ready_def by blast+
  have mx1: "unat (max_swap_offset s) = unat ?size div 8" by (subst eq) (simp add: unat_div)
  have "unat (max_swap_offset s) < 0x1000000" using lt by (simp add: word_less_nat_alt)
  note mx = mx1 this
  have o: "unat off < unat (max_swap_offset s)" using off(2) by (simp add: word_less_nat_alt)
  then have le: "unat off * 8 + 8 \<le> unat ?size" using mx(1) by linarith
  have o8: "unat (off * 8) = unat off * 8" using o mx(2) by (simp add: unat_mult_lem [THEN iffD1])
  have "unat secno = unat (off * 8) mod 2 ^ 32" by (simp add: secno_def unsigned_ucast_eq take_bit_nat_def)
  also have "\<dots> = unat off * 8" using o8 o mx(2) by simp
  finally have u: "unat secno = unat off * 8" .
  then show "unat secno = unat off * 8" .
  have "unat (ucast ?size - ucast secno :: u64) = unat ?size - unat off * 8"
    using le u by (subst unat_sub) (simp_all add: word_le_nat_alt)
  then have "8 \<le> (ucast ?size - ucast secno :: u64)" using le by (simp add: word_le_nat_alt)
  then show "sectors_left (disks s SWAP_DEV_NO) (ucast secno) 8 = 8" by (auto simp: sectors_left_def Let_def)
  have "unat (ucast secno + 8 :: u64) = unat off * 8 + 8"
    using u o mx(2) by (subst unat_add_lem [THEN iffD1]) simp_all
  then have "ucast secno + (8 :: u64) \<le> 0x10000000" using o mx(2) by (simp add: word_le_nat_alt)
  moreover have "secno < 0x10000000" using u o mx(2) by (simp add: word_less_nat_alt)
  ultimately show "ide_check (disks s) SWAP_DEV_NO secno 8 = Some ()"
    using rdy by (simp add: ide_check_def swap_ready_def)
qed

lemma swapfs_run:
  assumes "swap_ready s" and "0 < off" "off < max_swap_offset s" "drop_bit 8 entry = off" and "page < npage - nbase"
  defines "disk \<equiv> ide_iobase (disks s SWAP_DEV_NO) + unat off * 4096"
  shows "swapfs_write s entry page = Some (s\<lparr>vm := (vm s)\<lparr>mem := memcpy (mem (vm s)) disk (page2ppn page * 4096) 4096\<rparr>\<rparr>, 0)"
    "swapfs_read s entry page = Some (s\<lparr>vm := (vm s)\<lparr>mem := memcpy (mem (vm s)) (page2ppn page * 4096) disk 4096\<rparr>\<rparr>, 0)"
proof -
  note S = swap_sectors [OF assms(1-3)]
  have o: "swap_offset s entry = Some off" using assms(2-4) by (simp add: swap_offset_def Let_def)
  have p: "page_addr page = Some (page2ppn page * 4096)" using assms(5) by (simp add: page_addr_def page2ppn_def npage_def nbase_def)
  show "swapfs_write s entry page = Some (s\<lparr>vm := (vm s)\<lparr>mem := memcpy (mem (vm s)) disk (page2ppn page * 4096) 4096\<rparr>\<rparr>, 0)"
    using S(1,3) o p by (simp add: swapfs_write_def ide_write_secs_def ramdisk_write_def Let_def S(2) disk_def mult.commute del: memcpy.simps)
  show "swapfs_read s entry page = Some (s\<lparr>vm := (vm s)\<lparr>mem := memcpy (mem (vm s)) (page2ppn page * 4096) disk 4096\<rparr>\<rparr>, 0)"
    using S(1,3) o p by (simp add: swapfs_read_def ide_read_secs_def ramdisk_read_def Let_def S(2) disk_def mult.commute del: memcpy.simps)
qed

lemma swap_entry_offset: "v < USERTOP \<Longrightarrow> drop_bit 8 (swap_entry v) = v div PGSIZE + 1"
proof -
  assume "v < USERTOP"
  then have small: "unat (v div PGSIZE + 1) < 2 ^ 32"
    by (simp add: unat_div word_less_nat_alt unat_add_lem [THEN iffD1])
  show ?thesis
  proof (rule bit_word_eqI)
    fix n assume "n < LENGTH(64)"
    show "bit (drop_bit 8 (swap_entry v)) n = bit (v div PGSIZE + 1) n"
      using small_bits [OF small, of n] by (auto simp: swap_entry_def bit_drop_bit_eq bit_push_bit_iff)
  qed
qed

text \<open>
  C22. A page that goes to the swap disk comes back: the bytes \<open>swapfs_write\<close> stores under the swap
  entry of an address are the bytes \<open>swapfs_read\<close> of the same entry puts into whatever page is chosen
  then, and neither of the two changes another page of memory.
\<close>

theorem swap_page_roundtrip:
  assumes "swap_ready s" and "v < USERTOP" and "v div PGSIZE + 1 < max_swap_offset s"
    and "page < npage - nbase" and "slot_apart s (unat (v div PGSIZE + 1)) page"
    and "page' < npage - nbase" and "slot_apart s (unat (v div PGSIZE + 1)) page'"
  shows "\<exists>s1 s2. swapfs_write s (swap_entry v) page = Some (s1, 0) \<and> swapfs_read s1 (swap_entry v) page' = Some (s2, 0)
    \<and> page_bytes (vm s2) (page2ppn page') = page_bytes (vm s) (page2ppn page)
    \<and> (\<forall>q. q \<noteq> page' \<longrightarrow> slot_apart s (unat (v div PGSIZE + 1)) q \<longrightarrow> page_bytes (vm s2) (page2ppn q) = page_bytes (vm s) (page2ppn q))"
proof -
  define off where "off = v div PGSIZE + 1"
  have "unat off = unat v div 4096 + 1"
    using assms(2) by (simp add: off_def unat_div word_less_nat_alt unat_add_lem [THEN iffD1])
  then have off: "0 < off" "off < max_swap_offset s" using assms(3) by (simp_all add: off_def [symmetric] word_less_nat_alt)
  define disk where "disk = ide_iobase (disks s SWAP_DEV_NO) + unat off * 4096"
  define m1 where "m1 = memcpy (mem (vm s)) disk (page2ppn page * 4096) 4096"
  define s1 where "s1 = s\<lparr>vm := (vm s)\<lparr>mem := m1\<rparr>\<rparr>"
  define m2 where "m2 = memcpy m1 (page2ppn page' * 4096) disk 4096"
  define s2 where "s2 = s1\<lparr>vm := (vm s1)\<lparr>mem := m2\<rparr>\<rparr>"
  have e: "drop_bit 8 (swap_entry v) = off" using swap_entry_offset [OF assms(2)] by (simp add: off_def)
  have w: "swapfs_write s (swap_entry v) page = Some (s1, 0)"
    using swapfs_run(1) [OF assms(1) off e assms(4)] by (simp add: s1_def m1_def disk_def)
  have same: "max_swap_offset s1 = max_swap_offset s" "disks s1 = disks s" by (simp_all add: s1_def)
  have "swap_ready s1" using assms(1) unfolding swap_ready_def same .
  moreover have "off < max_swap_offset s1" unfolding same by (rule off(2))
  ultimately have rdy: "swap_ready s1" "off < max_swap_offset s1" .
  from swapfs_run(2) [OF rdy(1) off(1) rdy(2) e assms(6)]
  have r: "swapfs_read s1 (swap_entry v) page' = Some (s2, 0)" by (simp add: s2_def m2_def disk_def s1_def)
  have ap: "apart disk 4096 (page2ppn page * 4096) 4096" "apart disk 4096 (page2ppn page' * 4096) 4096"
    using assms(5,7) by (simp_all add: slot_apart_def disk_def off_def)
  have "m2 (page2ppn page' * 4096 + i) = mem (vm s) (page2ppn page * 4096 + i)" if "i < 4096" for i
  proof -
    have "apart (page2ppn page' * 4096) 4096 disk 4096" using ap(2) by (auto simp: apart_def)
    then have "m2 (page2ppn page' * 4096 + i) = m1 (disk + i)" using that by (simp add: m2_def memcpy_apart del: memcpy.simps)
    also have "\<dots> = mem (vm s) (page2ppn page * 4096 + i)" using ap(1) that by (simp add: m1_def memcpy_apart del: memcpy.simps)
    finally show ?thesis .
  qed
  then have "page_bytes (vm s2) (page2ppn page') = page_bytes (vm s) (page2ppn page)"
    by (simp add: page_bytes_def block_def s2_def)
  moreover have "page_bytes (vm s2) (page2ppn q) = page_bytes (vm s) (page2ppn q)"
    if q: "q \<noteq> page'" "slot_apart s (unat (v div PGSIZE + 1)) q" for q
  proof -
    have "page2ppn q \<noteq> page2ppn page'" using q(1) by (simp add: page2ppn_def)
    then have a: "apart (page2ppn page' * 4096) 4096 (page2ppn q * 4096) 4096" by (auto simp: apart_def)
    have b: "apart disk 4096 (page2ppn q * 4096) 4096" using q(2) by (simp add: slot_apart_def disk_def off_def)
    have "m2 x = mem (vm s) x" if "page2ppn q * 4096 \<le> x" "x < page2ppn q * 4096 + 4096" for x
      using memcpy_frame [of x "page2ppn page' * 4096" 4096 m1 disk] memcpy_frame [of x disk 4096 "mem (vm s)" "page2ppn page * 4096"]
        a b that by (auto simp: m1_def m2_def apart_def simp del: memcpy.simps)
    then show ?thesis by (auto simp: page_bytes_def s2_def intro!: block_cong)
  qed
  ultimately show ?thesis using w r by blast
qed

definition demo_swapper :: swapper where
  "demo_swapper = \<lparr>vm = demo_vm\<lparr>mem := (\<lambda>a. char_of (a div 4096))\<rparr>, pra = list_init \<lparr>lnext = (\<lambda>_. FreeHead), lprev = (\<lambda>_. FreeHead)\<rparr> FreeHead,
     pra_vaddr = (\<lambda>_. 0), disks = (\<lambda>i. \<lparr>ide_valid = True, ide_size = 80000, ide_iobase = nbase * 4096\<rparr>),
     max_swap_offset = 10000, pgfault_num = 0\<rparr>"

theorem swap_page_roundtrip_witness:
  "\<exists>s1 s2. swapfs_write demo_swapper (swap_entry 0x800000) 20000 = Some (s1, 0)
    \<and> swapfs_read s1 (swap_entry 0x800000) 20001 = Some (s2, 0)
    \<and> page_bytes (vm s2) (page2ppn 20001) = page_bytes (vm demo_swapper) (page2ppn 20000)"
proof -
  have "swap_ready demo_swapper" by (simp add: swap_ready_def demo_swapper_def VALID_IDE_def)
  moreover have "(0x800000 :: u64) < USERTOP" "(0x800000 :: u64) div PGSIZE + 1 < max_swap_offset demo_swapper"
    by (simp_all add: demo_swapper_def)
  moreover have "(20000 :: nat) < npage - nbase" "(20001 :: nat) < npage - nbase" by (simp_all add: npage_def nbase_def)
  moreover have "slot_apart demo_swapper (unat ((0x800000 :: u64) div PGSIZE + 1)) 20000"
    "slot_apart demo_swapper (unat ((0x800000 :: u64) div PGSIZE + 1)) 20001"
    by (simp_all add: slot_apart_def apart_def demo_swapper_def page2ppn_def nbase_def)
  ultimately show ?thesis using swap_page_roundtrip [of demo_swapper "0x800000" 20000 20001] by blast
qed

end
