(* ===== verification/Kmalloc.thy ===== *)
theory Kmalloc
  imports Page_Table
begin

section \<open>The kernel heap: \<open>kern/mm/kmalloc.c\<close>\<close>

text \<open>
  A list of free blocks (SLOB) over pages of the first-fit allocator. The list is circular and sorted by address; its lowest
  element is the static object \<open>arena\<close>. The header of a block, 16 bytes in front of what a caller gets, is kept beside the
  memory as the two maps \<open>units\<close> and \<open>snext\<close>. The list of large blocks is a list of their descriptors in the order of the links.
\<close>

subsection \<open>State\<close>

record bigblock =
  bb_addr :: nat
  bb_order :: nat
  bb_pages :: nat

record kheap =
  pmm :: free_area
  swap_ready :: bool
  units :: "nat \<Rightarrow> nat"
  snext :: "nat \<Rightarrow> nat"
  slobfree :: nat
  bigblocks :: "bigblock list"

definition va_pa_offset :: nat where "va_pa_offset = 0xFFFFFFFF40000000"
definition KERNBASE :: nat where "KERNBASE = 0xFFFFFFFFC0200000"

definition page2kva :: "nat \<Rightarrow> nat option" where
  "page2kva page = do { kassert (page2ppn page < npage); Some (page2ppn page * 4096 + va_pa_offset) }"

definition kva2page :: "nat \<Rightarrow> nat option" where
  "kva2page kva = do { kassert (KERNBASE \<le> kva); pa2page (word_of_nat (kva - va_pa_offset)) }"

text \<open>The static objects \<open>arena\<close>, \<open>slobfree\<close> and \<open>bigblocks\<close> at boot.\<close>

definition slob_boot :: "free_area \<Rightarrow> bool \<Rightarrow> nat \<Rightarrow> kheap" where
  "slob_boot fa sw arena =
     \<lparr>pmm = fa, swap_ready = sw, units = (\<lambda>a. if a = arena then 1 else 0), snext = (\<lambda>a. if a = arena then arena else 0),
      slobfree = arena, bigblocks = []\<rparr>"

subsection \<open>Operations\<close>

definition SLOB_UNITS :: "nat \<Rightarrow> nat" where
  "SLOB_UNITS sz = (sz + 15) div 16"

text \<open>\<open>alloc_pages\<close> of \<open>pmm.c\<close> with \<open>check_mm_struct\<close> NULL: a request for one page that fails once swapping is ready does not come back.\<close>

definition slob_get_free_pages :: "kheap \<Rightarrow> nat \<Rightarrow> (kheap \<times> nat option) option" where
  "slob_get_free_pages h order =
     do { (fa, page) \<leftarrow> default_alloc_pages (2 ^ order) (pmm h);
          kassert (page \<noteq> None \<or> 2 ^ order > (1 :: nat) \<or> \<not> swap_ready h);
          let h = h\<lparr>pmm := fa\<rparr>;
          case page of None \<Rightarrow> Some (h, None) | Some p \<Rightarrow> do { kva \<leftarrow> page2kva p; Some (h, Some kva) } }"

definition slob_free_pages :: "kheap \<Rightarrow> nat \<Rightarrow> nat \<Rightarrow> kheap option" where
  "slob_free_pages h kva order =
     do { page \<leftarrow> kva2page kva; fa \<leftarrow> default_free_pages page (2 ^ order) (pmm h); Some (h\<lparr>pmm := fa\<rparr>) }"

text \<open>The loop that finds the reinsertion point.\<close>

partial_function (option) slob_pos :: "(nat \<Rightarrow> nat) \<Rightarrow> nat \<Rightarrow> nat \<Rightarrow> nat option" where
  "slob_pos next b cur =
     (if b > cur \<and> b < next cur then Some cur
      else if cur \<ge> next cur \<and> (b > cur \<or> b < next cur) then Some cur
      else slob_pos next b (next cur))"

text \<open>Linking the block \<open>b\<close> in behind \<open>cur\<close>, joined with its neighbours.\<close>

definition slob_link :: "kheap \<Rightarrow> nat \<Rightarrow> nat \<Rightarrow> kheap" where
  "slob_link h cur b =
     (let n = snext h cur;
          h = (if b + 16 * units h b = n
               then h\<lparr>units := (units h)(b := units h b + units h n), snext := (snext h)(b := snext h n)\<rparr>
               else h\<lparr>snext := (snext h)(b := n)\<rparr>);
          h = (if cur + 16 * units h cur = b
               then h\<lparr>units := (units h)(cur := units h cur + units h b), snext := (snext h)(cur := snext h b)\<rparr>
               else h\<lparr>snext := (snext h)(cur := b)\<rparr>)
      in h\<lparr>slobfree := cur\<rparr>)"

definition slob_free :: "kheap \<Rightarrow> nat option \<Rightarrow> nat \<Rightarrow> kheap option" where
  "slob_free h blk sz =
     (case blk of
        None \<Rightarrow> Some h
      | Some b \<Rightarrow> do {
          let h = (if sz \<noteq> 0 then h\<lparr>units := (units h)(b := SLOB_UNITS sz)\<rparr> else h);
          cur \<leftarrow> slob_pos (snext h) b (slobfree h);
          Some (slob_link h cur b) })"

text \<open>Taking \<open>n\<close> units from the block \<open>cur\<close> behind \<open>prev\<close>, \<open>delta\<close> units from its start.\<close>

definition slob_take :: "kheap \<Rightarrow> nat \<Rightarrow> nat \<Rightarrow> nat \<Rightarrow> nat \<Rightarrow> nat \<Rightarrow> kheap \<times> nat option" where
  "slob_take h n prev cur aligned delta =
     (let (h, prev, cur) = (if delta \<noteq> 0
            then (h\<lparr>units := (units h)(aligned := units h cur - delta, cur := delta),
                    snext := (snext h)(aligned := snext h cur, cur := aligned)\<rparr>, cur, aligned)
            else (h, prev, cur));
          h = (if units h cur = n
               then h\<lparr>snext := (snext h)(prev := snext h cur)\<rparr>
               else let q = cur + 16 * n
                    in h\<lparr>units := (units h)(q := units h cur - n, cur := n), snext := (snext h)(q := snext h cur, prev := q)\<rparr>)
      in (h\<lparr>slobfree := prev\<rparr>, Some cur))"

text \<open>A new page for the heap.\<close>

definition slob_grow :: "kheap \<Rightarrow> (kheap \<times> bool) option" where
  "slob_grow h =
     do { (h, page) \<leftarrow> slob_get_free_pages h 0;
          case page of None \<Rightarrow> Some (h, False) | Some p \<Rightarrow> do { h \<leftarrow> slob_free h (Some p) 4096; Some (h, True) } }"

definition ALIGN :: "nat \<Rightarrow> nat \<Rightarrow> nat" where
  "ALIGN addr sz = (addr + sz - 1) div sz * sz"

partial_function (option) slob_search :: "kheap \<Rightarrow> nat \<Rightarrow> nat \<Rightarrow> nat \<Rightarrow> nat \<Rightarrow> nat \<Rightarrow> (kheap \<times> nat option) option" where
  "slob_search h sz n align prev cur =
     (let aligned = (if align \<noteq> 0 then ALIGN cur align else 0);
          delta = (if align \<noteq> 0 then (aligned - cur) div 16 else 0)
      in if units h cur \<ge> n + delta then Some (slob_take h n prev cur aligned delta)
         else if cur = slobfree h
         then if sz = 4096 then Some (h, None)
              else do { r \<leftarrow> slob_grow h;
                        if snd r then slob_search (fst r) sz n align (slobfree (fst r)) (snext (fst r) (slobfree (fst r)))
                        else Some (fst r, None) }
         else slob_search h sz n align cur (snext h cur))"

definition slob_alloc :: "kheap \<Rightarrow> nat \<Rightarrow> nat \<Rightarrow> (kheap \<times> nat option) option" where
  "slob_alloc h sz align =
     do { kassert (sz + 16 < 4096);
          slob_search h sz (SLOB_UNITS sz) align (slobfree h) (snext h (slobfree h)) }"

text \<open>\<open>find_order\<close>: the argument is a C \<open>int\<close>.\<close>

function find_order :: "int \<Rightarrow> nat" where
  "find_order sz = (if sz > 4096 then find_order (sz div 2) + 1 else 0)"
  by auto
termination by (relation "measure nat") auto

declare find_order.simps [simp del]

text \<open>A descriptor of a large block takes 24 bytes.\<close>

definition kmalloc :: "kheap \<Rightarrow> nat \<Rightarrow> (kheap \<times> nat option) option" where
  "kmalloc h sz =
     (if sz < 4096 - 16
      then do { (h, m) \<leftarrow> slob_alloc h (sz + 16) 0; Some (h, map_option (\<lambda>m. m + 16) m) }
      else do {
        (h, bb) \<leftarrow> slob_alloc h 24 0;
        case bb of
          None \<Rightarrow> Some (h, None)
        | Some bb \<Rightarrow> do {
            let order = find_order (sint (word_of_nat sz :: 32 word));
            (h, pages) \<leftarrow> slob_get_free_pages h order;
            case pages of
              Some p \<Rightarrow> Some (h\<lparr>bigblocks := \<lparr>bb_addr = bb, bb_order = order, bb_pages = p\<rparr> # bigblocks h\<rparr>, Some p)
            | None \<Rightarrow> do { h \<leftarrow> slob_free h (Some bb) 24; Some (h, None) } } })"

definition kfree :: "kheap \<Rightarrow> nat option \<Rightarrow> kheap option" where
  "kfree h blk =
     (case blk of
        None \<Rightarrow> Some h
      | Some b \<Rightarrow>
          (case if b mod 4096 = 0 then find (\<lambda>bb. bb_pages bb = b) (bigblocks h) else None of
             Some bb \<Rightarrow> do {
               let h = h\<lparr>bigblocks := remove1 bb (bigblocks h)\<rparr>;
               h \<leftarrow> slob_free_pages h b (bb_order bb);
               slob_free h (Some (bb_addr bb)) 24 }
           | None \<Rightarrow> slob_free h (Some (b - 16)) 0))"

definition ksize :: "kheap \<Rightarrow> nat option \<Rightarrow> nat" where
  "ksize h blk =
     (case blk of
        None \<Rightarrow> 0
      | Some b \<Rightarrow>
          (case if b mod 4096 = 0 then find (\<lambda>bb. bb_pages bb = b) (bigblocks h) else None of
             Some bb \<Rightarrow> (4096 * 2 ^ bb_order bb) mod 2 ^ 32
           | None \<Rightarrow> (units h (b - 16) * 16) mod 2 ^ 32))"

end
