(* ===== verification/Kmalloc_Spec.thy ===== *)
theory Kmalloc_Spec
  imports Kmalloc
begin

section \<open>The kernel heap: properties\<close>

text \<open>
  The list of free blocks as a list of addresses, the memory it covers, and what allocating and freeing do to that memory. Every block is requested
  with \<open>align = 0\<close>, as the code does.
\<close>

subsection \<open>The list of free blocks\<close>

fun chain :: "(nat \<Rightarrow> nat) \<Rightarrow> nat \<Rightarrow> nat list \<Rightarrow> nat \<Rightarrow> bool" where
  "chain nx a [] z = (nx a = z)"
| "chain nx a (x # xs) z = (nx a = x \<and> chain nx x xs z)"

text \<open>Blocks in the order of their addresses, with a gap between any two.\<close>

fun spaced :: "(nat \<Rightarrow> nat) \<Rightarrow> nat \<Rightarrow> nat list \<Rightarrow> bool" where
  "spaced u a [] = True"
| "spaced u a (x # xs) = (a + 16 * u a < x \<and> spaced u x xs)"

definition slob_ok :: "kheap \<Rightarrow> nat \<Rightarrow> nat list \<Rightarrow> bool" where
  "slob_ok h arena xs = (chain (snext h) arena xs arena \<and> spaced (units h) arena xs \<and> units h arena = 1
     \<and> (\<forall>x \<in> set xs. 0 < units h x) \<and> slobfree h \<in> set (arena # xs))"

definition heap_bytes :: "kheap \<Rightarrow> nat list \<Rightarrow> nat set" where
  "heap_bytes h xs = (\<Union>x \<in> set xs. {x..<x + 16 * units h x})"

lemma chain_append: "chain nx a (xs @ ys) z = (chain nx a xs (hd (ys @ [z])) \<and> (case ys of [] \<Rightarrow> True | y # ys' \<Rightarrow> chain nx y ys' z))"
  by (induction xs arbitrary: a) (auto split: list.splits)

lemma chain_last: "chain nx a xs z \<Longrightarrow> nx (last (a # xs)) = z"
  by (induction xs arbitrary: a) auto

lemma chain_upd [simp]: "w \<notin> set (a # xs) \<Longrightarrow> chain (nx(w := v)) a xs z = chain nx a xs z"
  by (induction xs arbitrary: a) auto

lemma chain_redirect: "chain nx a xs y \<Longrightarrow> distinct (a # xs) \<Longrightarrow> chain (nx(last (a # xs) := v)) a xs v"
  by (induction xs arbitrary: a) auto

lemma spaced_append: "spaced u a (xs @ ys) = (spaced u a xs \<and> spaced u (last (a # xs)) ys)"
  by (induction xs arbitrary: a) auto

lemma spaced_upd [simp]: "w \<notin> set (a # xs) \<Longrightarrow> spaced (u(w := k)) a xs = spaced u a xs"
  by (induction xs arbitrary: a) auto

lemma spaced_upd_last: "distinct (a # xs) \<Longrightarrow> spaced (u(last (a # xs) := k)) a xs = spaced u a xs"
  by (induction xs arbitrary: a) auto

lemma spaced_above: "spaced u a xs \<Longrightarrow> x \<in> set xs \<Longrightarrow> a + 16 * u a < x"
  by (induction xs arbitrary: a) fastforce+

lemma spaced_distinct: "spaced u a xs \<Longrightarrow> distinct (a # xs)"
proof (induction xs arbitrary: a)
  case (Cons x xs)
  then show ?case using spaced_above [of u a "x # xs"] by fastforce
qed simp

lemma slob_okD:
  assumes "slob_ok h arena xs"
  shows "distinct (arena # xs)" "x \<in> set xs \<Longrightarrow> arena + 16 < x" "x \<in> set xs \<Longrightarrow> 0 < units h x"
  using assms spaced_distinct [of "units h" arena xs] spaced_above [of "units h" arena xs x] by (auto simp: slob_ok_def)

text \<open>An address that is in no block splits the list.\<close>

lemma slob_split:
  assumes "slob_ok h arena xs" and "b \<notin> set xs"
  shows "\<exists>as bs. xs = as @ bs \<and> (\<forall>x \<in> set as. x < b) \<and> (\<forall>x \<in> set bs. b < x)"
proof -
  have "spaced u a ys \<Longrightarrow> b \<notin> set ys \<Longrightarrow> \<exists>as bs. ys = as @ bs \<and> (\<forall>x \<in> set as. x < b) \<and> (\<forall>x \<in> set bs. b < x)" for u a ys
  proof (induction ys arbitrary: a)
    case (Cons y ys)
    show ?case
    proof (cases "y < b")
      case True
      obtain as bs where "ys = as @ bs" "\<forall>x \<in> set as. x < b" "\<forall>x \<in> set bs. b < x"
        using Cons.IH [of y] Cons.prems by auto
      with True show ?thesis by (intro exI [of _ "y # as"] exI [of _ bs]) auto
    next
      case False
      with Cons.prems spaced_above [of u y ys] show ?thesis by (intro exI [of _ "[]"] exI [of _ "y # ys"]) fastforce
    qed
  qed simp
  with assms show ?thesis by (auto simp: slob_ok_def)
qed

text \<open>The list, read from any of its elements.\<close>

lemma ring_from:
  assumes "chain nx a xs a" and "s \<in> set (a # xs)" and "distinct (a # xs)"
  shows "\<exists>ys. chain nx s ys s \<and> set (s # ys) = set (a # xs) \<and> distinct (s # ys)"
proof (cases "s = a")
  case True
  with assms show ?thesis by blast
next
  case False
  with assms(2) obtain as bs where xs: "xs = as @ s # bs" by (auto dest: split_list)
  with assms have "chain nx s (bs @ a # as) s" "set (s # bs @ a # as) = set (a # xs)" "distinct (s # bs @ a # as)"
    by (auto simp: chain_append)
  then show ?thesis by blast
qed

lemma ring_next:
  assumes "chain nx a xs a" and "a # xs = as @ x # bs"
  shows "nx x = hd (bs @ [a])"
  using assms by (cases as) (auto simp: chain_append split: list.splits, (cases bs; simp)+)

lemma ring_pred_unique:
  assumes "chain nx a xs a" and "distinct (a # xs)" and "p \<in> set (a # xs)" and "q \<in> set (a # xs)" and "nx p = nx q" and "nx p \<noteq> a"
  shows "p = q"
proof -
  obtain as bs where p: "a # xs = as @ p # bs" using assms(3) by (meson split_list)
  obtain cs ds where q: "a # xs = cs @ q # ds" using assms(4) by (meson split_list)
  have "bs \<noteq> []" "ds \<noteq> []" "hd bs = hd ds" using ring_next [OF assms(1) p] ring_next [OF assms(1) q] assms(5,6) by (auto simp: hd_append split: if_splits)
  then obtain x bs' ds' where "bs = x # bs'" "ds = x # ds'" by (metis list.collapse)
  then have "(as @ [p]) @ x # bs' = (cs @ [q]) @ x # ds'" "distinct ((as @ [p]) @ x # bs')" using p q assms(2) by auto
  then show ?thesis using distinct_split_unique by (metis last_snoc)
qed

subsection \<open>Freeing\<close>

abbreviation stops :: "nat \<Rightarrow> nat \<Rightarrow> nat \<Rightarrow> bool" where
  "stops b x n \<equiv> x < b \<and> b < n \<or> n \<le> x \<and> (x < b \<or> b < n)"

lemma slob_pos_walk:
  assumes "chain nx c ys z" and "t \<in> set (c # ys)" and "stops b t (nx t)" and "\<forall>x \<in> set (c # ys). x \<noteq> t \<longrightarrow> \<not> stops b x (nx x)"
  shows "slob_pos nx b c = Some t"
  using assms
proof (induction ys arbitrary: c)
  case Nil
  then show ?case by (subst slob_pos.simps) auto
next
  case (Cons y ys)
  then show ?case by (subst slob_pos.simps) auto
qed

lemma slob_pos_ring:
  assumes ok: "slob_ok h arena xs" and xs: "xs = as @ bs" and lt: "\<forall>x \<in> set as. x < b" "\<forall>x \<in> set bs. b < x" "arena < b"
  shows "slob_pos (snext h) b (slobfree h) = Some (last (arena # as))" (is "_ = Some ?t")
proof -
  have c: "chain (snext h) arena xs arena" and sp: "spaced (units h) arena xs" using ok by (auto simp: slob_ok_def)
  note d = slob_okD(1) [OF ok]
  have t: "?t \<in> set (arena # as)" by (rule last_in_set) simp
  then have t_less: "?t < b" "arena \<le> ?t" using lt slob_okD(2) [OF ok, of ?t] xs by auto
  have nt: "snext h ?t = hd (bs @ [arena])" using chain_last [of "snext h" arena as "hd (bs @ [arena])"] c xs by (simp add: chain_append del: last.simps)
  have "stops b ?t (snext h ?t)" using nt lt t_less by (cases bs) auto
  moreover have "\<not> stops b x (snext h x)" if x: "x \<in> set (arena # xs)" "x \<noteq> ?t" for x
  proof -
    obtain ps qs where s: "arena # xs = ps @ x # qs" using x(1) by (meson split_list)
    have n: "snext h x = hd (qs @ [arena])" by (rule ring_next [OF c s])
    have up: "qs \<noteq> [] \<Longrightarrow> x < hd qs"
    proof -
      assume "qs \<noteq> []"
      then obtain q qs' where "qs = q # qs'" by (cases qs) auto
      with s sp show ?thesis by (cases ps) (auto simp: spaced_append)
    qed
    show ?thesis
    proof (cases "x \<in> set (arena # as)")
      case True
      then obtain as1 as2 where a: "arena # as = as1 @ x # as2" by (meson split_list)
      then have "as2 \<noteq> []" using x(2) by (metis last_snoc)
      moreover have "qs = as2 @ bs"
        using s xs a d distinct_split_unique [of ps x qs as1 "as2 @ bs"] by (metis append_Cons append_assoc)
      ultimately have "hd (qs @ [arena]) \<in> set (arena # as)" "snext h x = hd qs" "qs \<noteq> []" using a n by (auto simp: hd_append)
      then have "snext h x < b" using lt by (auto simp: hd_append)
      then show ?thesis using up \<open>snext h x = hd qs\<close> \<open>qs \<noteq> []\<close> by auto
    next
      case False
      then have "b < x" using x(1) xs lt by auto
      then show ?thesis using n up lt(3) by (cases "qs = []") (auto simp: hd_append)
    qed
  qed
  moreover obtain ys where "chain (snext h) (slobfree h) ys (slobfree h)" "set (slobfree h # ys) = set (arena # xs)"
    using ring_from [OF c _ d] ok unfolding slob_ok_def by blast
  ultimately show ?thesis using slob_pos_walk [of "snext h" "slobfree h" ys "slobfree h" ?t b] t xs by auto
qed


text \<open>Joining \<open>b\<close> with the block behind it.\<close>

lemma join_next:
  assumes c: "chain nx t bs z" and b: "b \<notin> set (t # bs)" "t < b" "z \<le> t" and sp: "spaced u t bs" and gap: "\<forall>x \<in> set bs. b + 16 * u b \<le> x"
    and pos: "0 < u b" "\<forall>x \<in> set bs. 0 < u x"
  shows "\<exists>bs' m. (if b + 16 * u b = nx t then (u(b := u b + u (nx t)), nx(b := nx (nx t))) else (u, nx(b := nx t))) = (u(b := m), nx(b := hd (bs' @ [z])))
    \<and> chain (nx(b := hd (bs' @ [z]))) b bs' z \<and> spaced (u(b := m)) b bs' \<and> set bs' \<subseteq> set bs \<and> u b \<le> m
    \<and> {b..<b + 16 * m} \<union> (\<Union>x \<in> set bs'. {x..<x + 16 * u x}) = {b..<b + 16 * u b} \<union> (\<Union>x \<in> set bs. {x..<x + 16 * u x})"
proof (cases bs)
  case Nil
  then have "nx t = z" using c by simp
  then show ?thesis using Nil b(2,3) by (intro exI [of _ "[]"] exI [of _ "u b"]) auto
next
  case (Cons n ns)
  have n: "nx t = n" "chain nx n ns z" "t < n" "b < n" using c Cons gap sp pos by fastforce+
  have nn: "nx n = hd (ns @ [z])" using n(2) by (cases ns) auto
  have bn: "b \<notin> set (n # ns)" using b Cons by auto
  show ?thesis
  proof (cases "b + 16 * u b = n")
    case True
    have "chain (nx(b := hd (ns @ [z]))) b ns z"
      using n(2) nn bn by (cases ns) auto
    moreover have "spaced (u(b := u b + u n)) b ns"
      using sp Cons True bn by (cases ns) auto
    moreover have "{b..<b + 16 * (u b + u n)} = {b..<b + 16 * u b} \<union> {n..<n + 16 * u n}" using True by auto
    ultimately show ?thesis using n True nn Cons
      by (intro exI [of _ ns] exI [of _ "u b + u n"]) (auto simp: Un_assoc)
  next
    case False
    then have "b + 16 * u b < n" using gap Cons by auto
    moreover have "chain (nx(b := n)) b (n # ns) z" using n(2) bn by simp
    moreover have "spaced u b (n # ns)" using calculation(1) sp Cons by simp
    ultimately show ?thesis using n False Cons
      by (intro exI [of _ "n # ns"] exI [of _ "u b"]) (auto simp: fun_upd_idem)
  qed
qed


text \<open>A block that overlaps no free block, and lies above the arena, becomes free.\<close>

lemma slob_gap:
  assumes "{b..<b + 16 * n} \<inter> heap_bytes h xs = {}" and "0 < n" and "x \<in> set xs" and "0 < units h x"
  shows "b + 16 * n \<le> x \<or> x + 16 * units h x \<le> b"
proof (rule ccontr)
  assume "\<not> ?thesis"
  then have "max b x \<in> {b..<b + 16 * n}" "max b x \<in> {x..<x + 16 * units h x}" using assms(2,4) by auto
  moreover from this(2) assms(3) have "max b x \<in> heap_bytes h xs" unfolding heap_bytes_def by blast
  ultimately show False using assms(1) by blast
qed

lemma slob_link_pair:
  "slob_link h cur b =
     (let (u, nx) = (if b + 16 * units h b = snext h cur
        then ((units h)(b := units h b + units h (snext h cur)), (snext h)(b := snext h (snext h cur))) else (units h, (snext h)(b := snext h cur)))
      in if cur + 16 * u cur = b then h\<lparr>units := u(cur := u cur + u b), snext := nx(cur := nx b), slobfree := cur\<rparr>
         else h\<lparr>units := u, snext := nx(cur := b), slobfree := cur\<rparr>)"
  by (simp add: slob_link_def Let_def)

lemma slob_link_inv:
  assumes ok: "slob_ok h arena xs" and free: "{b..<b + 16 * units h b} \<inter> heap_bytes h xs = {}" and pos: "0 < units h b" and above: "arena + 16 < b"
    and xs: "xs = as @ bs" "\<forall>x \<in> set as. x < b" "\<forall>x \<in> set bs. b < x" and t: "t = last (arena # as)"
  shows "\<exists>xs'. slob_ok (slob_link h t b) arena xs' \<and> heap_bytes (slob_link h t b) xs' = heap_bytes h xs \<union> {b..<b + 16 * units h b}
    \<and> (\<exists>x \<in> set xs'. units h b \<le> units (slob_link h t b) x)"
proof -
  let ?u = "units h" and ?nx = "snext h"
  note d = slob_okD(1) [OF ok]
  have c0: "chain ?nx arena as (hd (bs @ [arena]))" "case bs of [] \<Rightarrow> True | y # ys \<Rightarrow> chain ?nx y ys arena"
    using ok xs(1) by (simp_all add: slob_ok_def chain_append)
  then have nt: "?nx t = hd (bs @ [arena])" unfolding t by (intro chain_last)
  with c0 have c: "chain ?nx arena as (?nx t)" and ct: "chain ?nx t bs arena" by (simp_all split: list.splits)
  have sp: "spaced ?u arena as" "spaced ?u t bs" using ok xs(1) t by (simp_all add: slob_ok_def spaced_append del: last.simps)
  have b: "b \<notin> set (arena # xs)" using xs above by auto
  have tin: "t \<in> set (arena # as)" unfolding t by (rule last_in_set) simp
  then have t': "t < b" "arena \<le> t" "t \<notin> set bs" using xs above slob_okD(2) [OF ok, of t] d by auto
  have gap: "\<forall>x \<in> set bs. b + 16 * ?u b \<le> x" using slob_gap [OF free pos] slob_okD(3) [OF ok] xs by fastforce
  have u1: "?u arena = 1" "\<forall>x \<in> set xs. 0 < ?u x" using ok by (auto simp: slob_ok_def)
  have tb: "t + 16 * ?u t \<le> b"
    using slob_gap [OF free pos, of t] slob_okD(3) [OF ok, of t] tin above u1(1) t' pos xs(1) by auto
  obtain bs' m where j: "(if b + 16 * ?u b = ?nx t then (?u(b := ?u b + ?u (?nx t)), ?nx(b := ?nx (?nx t))) else (?u, ?nx(b := ?nx t)))
      = (?u(b := m), ?nx(b := hd (bs' @ [arena])))"
    "chain (?nx(b := hd (bs' @ [arena]))) b bs' arena" "spaced (?u(b := m)) b bs'" "set bs' \<subseteq> set bs" "?u b \<le> m"
    "{b..<b + 16 * m} \<union> (\<Union>x \<in> set bs'. {x..<x + 16 * ?u x}) = {b..<b + 16 * ?u b} \<union> (\<Union>x \<in> set bs. {x..<x + 16 * ?u x})"
    using join_next [OF ct _ t'(1,2) sp(2) gap pos] b t' xs(1) u1(2) by auto
  let ?h1 = "h\<lparr>units := ?u(b := m), snext := ?nx(b := hd (bs' @ [arena]))\<rparr>"
  have link: "slob_link h t b = (if t + 16 * ?u t = b
      then ?h1\<lparr>units := (?u(b := m))(t := ?u t + m), snext := (?nx(b := hd (bs' @ [arena])))(t := hd (bs' @ [arena])), slobfree := t\<rparr>
      else ?h1\<lparr>snext := (?nx(b := hd (bs' @ [arena])))(t := b), slobfree := t\<rparr>)"
    unfolding slob_link_pair j(1) using t'(1) by simp
  have ca: "chain (?nx(b := hd (bs' @ [arena]))) arena as (?nx t)" using c b xs(1) by simp
  have da: "distinct (arena # as)" using d xs(1) by simp
  have tbs: "t \<notin> set (b # bs')" using t'(1,3) j(4) by auto
  have disj: "b \<notin> set (arena # as)" "set (arena # as) \<inter> set bs' = {}" using b xs(1) d j(4) by auto
  have bytes: "heap_bytes h xs \<union> {b..<b + 16 * ?u b}
      = (\<Union>x \<in> set as. {x..<x + 16 * ?u x}) \<union> {b..<b + 16 * m} \<union> (\<Union>x \<in> set bs'. {x..<x + 16 * ?u x})"
    using j(6) by (auto simp: heap_bytes_def xs(1))
  show ?thesis
  proof (cases "t + 16 * ?u t = b")
    case True
    then have as: "as \<noteq> []" "t \<in> set as" using t above u1(1) tin by auto
    let ?h = "?h1\<lparr>units := (?u(b := m))(t := ?u t + m), snext := (?nx(b := hd (bs' @ [arena])))(t := hd (bs' @ [arena])), slobfree := t\<rparr>"
    have "chain (snext ?h) arena as (hd (bs' @ [arena]))" using chain_redirect [OF ca da] t by simp
    moreover have "case bs' of [] \<Rightarrow> True | y # ys \<Rightarrow> chain (snext ?h) y ys arena"
      using j(2) tbs disj j(4) b xs(1) by (cases bs') auto
    moreover have "spaced (units ?h) arena as" using sp(1) disj da t spaced_upd_last [of arena as "?u(b := m)"] by simp
    moreover have "spaced (units ?h) t bs'" using j(3) True tbs by (cases bs') (auto simp: fun_upd_twist)
    moreover have "heap_bytes ?h (as @ bs') = heap_bytes h xs \<union> {b..<b + 16 * ?u b}"
    proof -
      obtain ps where ps: "as = ps @ [t]" using as(1) t by (metis append_butlast_last_id last_ConsR)
      have "(\<Union>x \<in> set ps. {x..<x + 16 * units ?h x}) = (\<Union>x \<in> set ps. {x..<x + 16 * ?u x})"
        using ps da disj by (intro SUP_cong) auto
      moreover have "(\<Union>x \<in> set bs'. {x..<x + 16 * units ?h x}) = (\<Union>x \<in> set bs'. {x..<x + 16 * ?u x})"
        using tbs b j(4) xs(1) by (intro SUP_cong) auto
      moreover have "{t..<t + 16 * units ?h t} = {t..<t + 16 * ?u t} \<union> {b..<b + 16 * m}" using True by auto
      ultimately show ?thesis
        unfolding bytes unfolding heap_bytes_def ps by (simp only: set_append UN_Un list.set UN_insert UN_empty Un_empty_right Un_assoc)
    qed
    moreover have "units ?h arena = 1" using u1(1) as(2) b d xs(1) by auto
    moreover have "\<forall>x \<in> set (as @ bs'). 0 < units ?h x" using u1(2) xs(1) j(4,5) pos by auto
    moreover have "?u b \<le> units ?h t" using j(5) by simp
    ultimately have "slob_ok ?h arena (as @ bs') \<and> heap_bytes ?h (as @ bs') = heap_bytes h xs \<union> {b..<b + 16 * ?u b} \<and> ?u b \<le> units ?h t"
      using t [symmetric] as(2) by (simp add: slob_ok_def chain_append spaced_append del: fun_upd_apply last.simps split: list.splits)
    then show ?thesis using as(2) unfolding link if_P [OF True] by (intro exI [of _ "as @ bs'"]) auto
  next
    case False
    let ?h = "?h1\<lparr>snext := (?nx(b := hd (bs' @ [arena])))(t := b), slobfree := t\<rparr>"
    have "chain (snext ?h) arena as b" using chain_redirect [OF ca da] t by simp
    moreover have "chain (snext ?h) b bs' arena" using j(2) tbs by simp
    moreover have "spaced (units ?h) arena as" using sp(1) disj by simp
    moreover have "heap_bytes ?h (as @ b # bs') = heap_bytes h xs \<union> {b..<b + 16 * ?u b}"
    proof -
      have "(\<Union>x \<in> set as. {x..<x + 16 * units ?h x}) = (\<Union>x \<in> set as. {x..<x + 16 * ?u x})"
        using b xs(1) by (intro SUP_cong) auto
      moreover have "(\<Union>x \<in> set bs'. {x..<x + 16 * units ?h x}) = (\<Union>x \<in> set bs'. {x..<x + 16 * ?u x})"
        using b j(4) xs(1) by (intro SUP_cong) auto
      moreover have "units ?h b = m" by simp
      ultimately show ?thesis
        unfolding bytes unfolding heap_bytes_def by (simp only: set_append UN_Un list.set UN_insert Un_assoc)
    qed
    moreover have "t + 16 * ?u t < b" using False tb by simp
    moreover have "units ?h arena = 1" using u1(1) b by auto
    moreover have "\<forall>x \<in> set (as @ b # bs'). 0 < units ?h x" using u1(2) xs(1) j(4,5) pos by auto
    moreover have "units ?h t = ?u t" "?u b \<le> units ?h b" using t'(1) j(5) by simp_all
    ultimately have "slob_ok ?h arena (as @ b # bs') \<and> heap_bytes ?h (as @ b # bs') = heap_bytes h xs \<union> {b..<b + 16 * ?u b} \<and> ?u b \<le> units ?h b"
      using t [symmetric] tin j(3) by (auto simp: slob_ok_def chain_append spaced_append simp del: fun_upd_apply last.simps)
    then show ?thesis unfolding link if_not_P [OF False] by (intro exI [of _ "as @ b # bs'"]) auto
  qed
qed


lemma slob_free_inv:
  assumes ok: "slob_ok h arena xs" and n: "n = (if sz \<noteq> 0 then SLOB_UNITS sz else units h b)" "0 < n"
    and free: "{b..<b + 16 * n} \<inter> heap_bytes h xs = {}" and above: "arena + 16 < b"
  shows "\<exists>h' xs'. slob_free h (Some b) sz = Some h' \<and> slob_ok h' arena xs' \<and> heap_bytes h' xs' = heap_bytes h xs \<union> {b..<b + 16 * n}
    \<and> (\<exists>x \<in> set xs'. n \<le> units h' x) \<and> pmm h' = pmm h \<and> swap_ready h' = swap_ready h \<and> bigblocks h' = bigblocks h"
proof -
  let ?h = "h\<lparr>units := (units h)(b := n)\<rparr>"
  have b: "b \<notin> set xs"
  proof
    assume x: "b \<in> set xs"
    then have "b \<in> heap_bytes h xs" using slob_okD(3) [OF ok] by (auto simp: heap_bytes_def)
    moreover have "b \<in> {b..<b + 16 * n}" using n(2) by simp
    ultimately show False using free by blast
  qed
  have ok': "slob_ok ?h arena xs" using ok b above n(2) by (auto simp: slob_ok_def)
  have hb: "heap_bytes ?h xs = heap_bytes h xs" unfolding heap_bytes_def using b by (intro SUP_cong) auto
  obtain as bs where xs: "xs = as @ bs" "\<forall>x \<in> set as. x < b" "\<forall>x \<in> set bs. b < x" using slob_split [OF ok b] by blast
  let ?t = "last (arena # as)"
  have pos: "slob_pos (snext ?h) b (slobfree ?h) = Some ?t" using slob_pos_ring [OF ok' xs] above by simp
  have h: "(if sz \<noteq> 0 then h\<lparr>units := (units h)(b := SLOB_UNITS sz)\<rparr> else h) = ?h" using n(1) by auto
  have "slob_free h (Some b) sz = Some (slob_link ?h ?t b)"
    using pos by (simp only: slob_free_def option.case Let_def h bind.bind_lunit)
  moreover have "pmm (slob_link ?h ?t b) = pmm h \<and> swap_ready (slob_link ?h ?t b) = swap_ready h \<and> bigblocks (slob_link ?h ?t b) = bigblocks h"
    by (simp add: slob_link_def Let_def)
  ultimately show ?thesis using slob_link_inv [OF ok' _ _ above xs refl] free n(2) hb by auto
qed

subsection \<open>Allocating\<close>

lemma slob_search_0:
  "slob_search h sz n 0 p c =
     (if n \<le> units h c then Some (slob_take h n p c 0 0)
      else if c = slobfree h
      then if sz = 4096 then Some (h, None)
           else do { r \<leftarrow> slob_grow h;
                     if snd r then slob_search (fst r) sz n 0 (slobfree (fst r)) (snext (fst r) (slobfree (fst r))) else Some (fst r, None) }
      else slob_search h sz n 0 c (snext h c))"
  by (subst slob_search.simps) (simp add: Let_def)

text \<open>Going round the list: the first block that is large enough, or none up to \<open>slobfree\<close>.\<close>

lemma search_walk:
  assumes "chain (snext h) c ys z" and "last (c # ys) = slobfree h" and "slobfree h \<notin> set (butlast (c # ys))"
  shows "(\<exists>as x bs. c # ys = as @ x # bs \<and> n \<le> units h x \<and> (\<forall>y \<in> set as. units h y < n)
       \<and> slob_search h sz n 0 p c = Some (slob_take h n (last (p # as)) x 0 0))
    \<or> (\<forall>y \<in> set (c # ys). units h y < n) \<and> slob_search h sz n 0 p c =
       (if sz = 4096 then Some (h, None)
        else do { r \<leftarrow> slob_grow h;
                  if snd r then slob_search (fst r) sz n 0 (slobfree (fst r)) (snext (fst r) (slobfree (fst r))) else Some (fst r, None) })"
  using assms
proof (induction ys arbitrary: c p)
  case Nil
  then show ?case
    by (cases "n \<le> units h c") (auto simp: slob_search_0 [of h sz n p "slobfree h"] intro!: exI [of _ "[]"])
next
  case (Cons y ys)
  show ?case
  proof (cases "n \<le> units h c")
    case True
    then show ?thesis by (intro disjI1 exI [of _ "[]"] exI [of _ c] exI [of _ "y # ys"]) (simp add: slob_search_0 [of h sz n p c])
  next
    case False
    have "c \<noteq> slobfree h" using Cons.prems by auto
    then have s: "slob_search h sz n 0 p c = slob_search h sz n 0 c y"
      using False Cons.prems(1) by (simp add: slob_search_0 [of h sz n p c])
    from Cons.IH [of y c] Cons.prems show ?thesis
    proof (elim disjE exE conjE meta_impE)
      fix as x bs
      assume "y # ys = as @ x # bs" "n \<le> units h x" "\<forall>y \<in> set as. units h y < n" "slob_search h sz n 0 c y = Some (slob_take h n (last (c # as)) x 0 0)"
      with False s show ?thesis by (intro disjI1 exI [of _ "c # as"] exI [of _ x] exI [of _ bs]) auto
    qed (use False s in \<open>auto split: if_splits\<close>)
  qed
qed

text \<open>Taking \<open>n\<close> units from the start of a block.\<close>

lemma slob_take_0:
  "slob_take h n p x 0 0 =
     (if units h x = n then h\<lparr>snext := (snext h)(p := snext h x), slobfree := p\<rparr>
      else h\<lparr>units := (units h)(x + 16 * n := units h x - n, x := n), snext := (snext h)(x + 16 * n := snext h x, p := x + 16 * n), slobfree := p\<rparr>,
      Some x)"
  by (simp add: slob_take_def Let_def)

lemma slob_spans:
  assumes "slob_ok h arena xs" and "xs = as @ x # bs"
  shows "y \<in> set as \<Longrightarrow> y + 16 * units h y < x" "y \<in> set bs \<Longrightarrow> x + 16 * units h x < y"
proof -
  have sp: "spaced (units h) arena (as @ x # bs)" using assms by (simp add: slob_ok_def)
  then show "y \<in> set bs \<Longrightarrow> x + 16 * units h x < y" by (auto simp: spaced_append spaced_above)
  assume "y \<in> set as"
  then obtain ps qs where "as = ps @ y # qs" by (meson split_list)
  with sp have "spaced (units h) y (qs @ x # bs)" by (simp add: spaced_append)
  then show "y + 16 * units h y < x" using spaced_above by fastforce
qed

lemma slob_take_inv:
  assumes ok: "slob_ok h arena xs" and xs: "xs = as @ x # bs" and n: "0 < n" "n \<le> units h x" and t: "t = last (arena # as)"
  shows "\<exists>h' xs'. slob_take h n t x 0 0 = (h', Some x) \<and> slob_ok h' arena xs' \<and> heap_bytes h' xs' = heap_bytes h xs - {x..<x + 16 * n}
    \<and> {x..<x + 16 * n} \<subseteq> heap_bytes h xs \<and> units h' x = n \<and> pmm h' = pmm h \<and> swap_ready h' = swap_ready h \<and> bigblocks h' = bigblocks h"
proof -
  let ?u = "units h" and ?nx = "snext h"
  note d = slob_okD(1) [OF ok] and apart = slob_spans [OF ok xs]
  have c: "chain ?nx arena as x" "chain ?nx x bs arena" and sp: "spaced ?u arena as" "spaced ?u t (x # bs)" and u1: "?u arena = 1" "\<forall>y \<in> set xs. 0 < ?u y"
    using ok t [symmetric] by (auto simp: slob_ok_def xs chain_append spaced_append simp del: last.simps)
  have nx: "?nx x = hd (bs @ [arena])" using c(2) by (cases bs) auto
  have da: "distinct (arena # as)" and tin: "t \<in> set (arena # as)" using d t xs by (auto simp: last_in_set)
  have tb: "t \<notin> set (x # bs)" using tin d xs by auto
  have old: "heap_bytes h xs = (\<Union>y \<in> set as. {y..<y + 16 * ?u y}) \<union> {x..<x + 16 * ?u x} \<union> (\<Union>y \<in> set bs. {y..<y + 16 * ?u y})"
    by (auto simp: heap_bytes_def xs)
  have off: "(\<Union>y \<in> set as. {y..<y + 16 * ?u y}) \<inter> {x..<x + 16 * n} = {}" "(\<Union>y \<in> set bs. {y..<y + 16 * ?u y}) \<inter> {x..<x + 16 * n} = {}"
    using apart n(2) by (fastforce, fastforce)
  have sub: "{x..<x + 16 * n} \<subseteq> heap_bytes h xs" using n(2) unfolding old by auto
  show ?thesis
  proof (cases "?u x = n")
    case True
    let ?h = "h\<lparr>snext := ?nx(t := ?nx x), slobfree := t\<rparr>"
    have "chain (snext ?h) arena as (hd (bs @ [arena]))" using chain_redirect [OF c(1) da] t nx by simp
    moreover have "case bs of [] \<Rightarrow> True | y # ys \<Rightarrow> chain (snext ?h) y ys arena" using c(2) tb by (cases bs) auto
    moreover have "spaced ?u t bs" using sp(2) by (cases bs) auto
    ultimately have "slob_ok ?h arena (as @ bs)" using sp(1) u1 xs tin t [symmetric]
      by (auto simp: slob_ok_def chain_append spaced_append simp del: last.simps fun_upd_apply split: list.splits)
    moreover have "heap_bytes ?h (as @ bs) = heap_bytes h xs - {x..<x + 16 * n}"
      using off unfolding old True by (auto simp: heap_bytes_def)
    ultimately show ?thesis using True sub unfolding slob_take_0 by auto
  next
    case False
    let ?q = "x + 16 * n"
    let ?h = "h\<lparr>units := ?u(?q := ?u x - n, x := n), snext := ?nx(?q := ?nx x, t := ?q), slobfree := t\<rparr>"
    have q: "?q \<notin> set (arena # as)" "?q \<notin> set (x # bs)" using apart n slob_okD(2) [OF ok, of x] xs False by fastforce+
    have xin: "x \<notin> set (arena # as)" "x \<notin> set bs" using d xs by auto
    have "chain (snext ?h) arena as ?q" using chain_redirect [of "?nx(?q := ?nx x)" arena as x] c(1) q da t by simp
    moreover have "t \<noteq> ?q" using tin q(1) by auto
    then have "chain (snext ?h) ?q bs arena" using c(2) tb q nx by (cases bs) auto
    moreover have "spaced (units ?h) arena as" using sp(1) q xin by simp
    moreover have "spaced (units ?h) ?q bs" using sp(2) q xin n by (cases bs) auto
    moreover have "t + 16 * units ?h t < ?q" using sp(2) tb q tin by auto
    moreover have "units ?h arena = 1" "\<forall>y \<in> set (as @ ?q # bs). 0 < units ?h y" using u1 q xin n False xs by auto
    ultimately have "slob_ok ?h arena (as @ ?q # bs)" using tin t [symmetric]
      by (auto simp: slob_ok_def chain_append spaced_append simp del: last.simps fun_upd_apply)
    moreover have "heap_bytes ?h (as @ ?q # bs) = heap_bytes h xs - {x..<x + 16 * n}"
    proof -
      have "(\<Union>y \<in> set as. {y..<y + 16 * units ?h y}) = (\<Union>y \<in> set as. {y..<y + 16 * ?u y})" using q xin by (intro SUP_cong) auto
      moreover have "(\<Union>y \<in> set bs. {y..<y + 16 * units ?h y}) = (\<Union>y \<in> set bs. {y..<y + 16 * ?u y})" using q xin by (intro SUP_cong) auto
      moreover have "{?q..<?q + 16 * units ?h ?q} = {x..<x + 16 * ?u x} - {x..<x + 16 * n}" using n by auto
      ultimately have "heap_bytes ?h (as @ ?q # bs) = (\<Union>y \<in> set as. {y..<y + 16 * ?u y}) \<union> ({x..<x + 16 * ?u x} - {x..<x + 16 * n}) \<union> (\<Union>y \<in> set bs. {y..<y + 16 * ?u y})"
        unfolding heap_bytes_def by (simp only: set_append UN_Un list.set UN_insert Un_assoc)
      then show ?thesis using off unfolding old by blast
    qed
    ultimately show ?thesis using False sub n unfolding slob_take_0 by auto
  qed
qed


lemma search_found:
  assumes ok: "slob_ok h arena xs" and n: "1 < n"
  shows "(\<exists>as x bs. xs = as @ x # bs \<and> n \<le> units h x
       \<and> slob_search h sz n 0 (slobfree h) (snext h (slobfree h)) = Some (slob_take h n (last (arena # as)) x 0 0))
    \<or> (\<forall>x \<in> set xs. units h x < n) \<and> slob_search h sz n 0 (slobfree h) (snext h (slobfree h)) =
       (if sz = 4096 then Some (h, None)
        else do { r \<leftarrow> slob_grow h;
                  if snd r then slob_search (fst r) sz n 0 (slobfree (fst r)) (snext (fst r) (slobfree (fst r))) else Some (fst r, None) })"
    (is "?found \<or> ?none")
proof -
  let ?s = "slobfree h" and ?nx = "snext h"
  have c: "chain ?nx arena xs arena" and s: "?s \<in> set (arena # xs)" and u1: "units h arena = 1" using ok by (auto simp: slob_ok_def)
  note d = slob_okD(1) [OF ok]
  obtain ys where ys: "chain ?nx ?s ys ?s" "set (?s # ys) = set (arena # xs)" "distinct (?s # ys)" using ring_from [OF c s d] by blast
  define zs where "zs = tl (ys @ [?s])"
  have z: "ys @ [?s] = ?nx ?s # zs" using ys(1) by (cases ys) (auto simp: zs_def)
  have "chain ?nx ?s (?nx ?s # zs) (?nx ?s)" unfolding z [symmetric] using ys(1) by (simp add: chain_append)
  then have cz: "chain ?nx (?nx ?s) zs (?nx ?s)" by simp
  have lz: "last (?nx ?s # zs) = ?s" "?s \<notin> set (butlast (?nx ?s # zs))" unfolding z [symmetric] using ys(3) by simp_all
  have sz': "set (?nx ?s # zs) = set (arena # xs)" using ys(2) unfolding z [symmetric] by auto
  from search_walk [OF cz lz, of n sz ?s] show ?thesis
  proof (elim disjE exE conjE)
    fix as x bs
    assume w: "?nx ?s # zs = as @ x # bs" and x: "n \<le> units h x"
      and r: "slob_search h sz n 0 ?s (?nx ?s) = Some (slob_take h n (last (?s # as)) x 0 0)"
    have "x \<in> set (arena # xs)" "x \<noteq> arena" using w sz' x n u1 by auto
    then obtain ps qs where p: "xs = ps @ x # qs" by (auto dest: split_list)
    have "chain ?nx ?s (as @ x # bs) (?nx ?s)" using cz w by (metis chain.simps(2))
    then have n1: "?nx (last (?s # as)) = x" using chain_last [of ?nx ?s as x] by (simp add: chain_append del: last.simps)
    have n2: "?nx (last (arena # ps)) = x" using chain_last [of ?nx arena ps x] c p by (simp add: chain_append del: last.simps)
    have "set (?s # as) \<subseteq> set (arena # xs)" using sz' s unfolding w by auto
    then have i1: "last (?s # as) \<in> set (arena # xs)" using last_in_set [of "?s # as"] by blast
    have "set (arena # ps) \<subseteq> set (arena # xs)" using p by auto
    then have i2: "last (arena # ps) \<in> set (arena # xs)" using last_in_set [of "arena # ps"] by blast
    have "last (?s # as) = last (arena # ps)"
      by (rule ring_pred_unique [OF c d i1 i2]) (simp_all only: n1 n2 \<open>x \<noteq> arena\<close> not_False_eq_True)
    then show ?thesis using p x r by (intro disjI1 exI [of _ ps] exI [of _ x] exI [of _ qs]) simp
  next
    assume small: "\<forall>y \<in> set (?nx ?s # zs). units h y < n"
      and r: "slob_search h sz n 0 ?s (?nx ?s) = (if sz = 4096 then Some (h, None)
        else do { r \<leftarrow> slob_grow h;
                  if snd r then slob_search (fst r) sz n 0 (slobfree (fst r)) (snext (fst r) (slobfree (fst r))) else Some (fst r, None) })"
    have "\<forall>x \<in> set xs. units h x < n" using small unfolding sz' by simp
    with r show ?thesis by (intro disjI2 conjI)
  qed
qed

subsection \<open>The heap over the page allocator\<close>

definition page_addr :: "nat \<Rightarrow> nat" where
  "page_addr p = page2ppn p * 4096 + va_pa_offset"

definition page_range :: "nat set \<Rightarrow> nat set" where
  "page_range P = (\<Union>p \<in> P. {page_addr p..<page_addr p + 4096})"

text \<open>The free pages are the blocks \<open>bs\<close>, the free blocks of the heap \<open>xs\<close>, and the two do not overlap.\<close>

definition heap_ok :: "kheap \<Rightarrow> nat \<Rightarrow> block list \<Rightarrow> nat list \<Rightarrow> bool" where
  "heap_ok h arena bs xs = (ff_inv (npage - nbase) (pmm h) bs \<and> slob_ok h arena xs
     \<and> (\<forall>p \<in> block_pages bs. arena + 16 < page_addr p) \<and> heap_bytes h xs \<inter> page_range (block_pages bs) = {})"

lemma page_range_disjoint: "P \<inter> Q = {} \<Longrightarrow> page_range P \<inter> page_range Q = {}"
proof -
  assume "P \<inter> Q = {}"
  moreover have "p = q" if "x \<in> {page_addr p..<page_addr p + 4096}" "x \<in> {page_addr q..<page_addr q + 4096}" for p q x
    using that by (simp add: page_addr_def page2ppn_def)
  ultimately show ?thesis unfolding page_range_def by blast
qed

lemma slob_get_page:
  assumes inv: "ff_inv (npage - nbase) (pmm h) bs" and fits: "\<exists>(b, k) \<in> set bs. 2 ^ order \<le> k"
  shows "\<exists>fa bs' r. slob_get_free_pages h order = Some (h\<lparr>pmm := fa\<rparr>, Some (page_addr r)) \<and> ff_inv (npage - nbase) fa bs'
    \<and> {r..<r + 2 ^ order} \<subseteq> block_pages bs \<and> block_pages bs' = block_pages bs - {r..<r + 2 ^ order}"
proof -
  from ff.alloc_fits [OF inv _ fits] obtain fa r bs' where a: "default_alloc_pages (2 ^ order) (pmm h) = Some (fa, Some r)"
    "ff_inv (npage - nbase) fa bs'" "{r..<r + 2 ^ order} \<subseteq> block_pages bs" "block_pages bs' = block_pages bs - {r..<r + 2 ^ order}" by auto
  then have "r \<in> block_pages bs" by auto
  then have "page2ppn r < npage" using blocks_ok_pages [OF ff_inv_blocks [OF inv], of r] by (simp add: page2ppn_def npage_def nbase_def)
  then show ?thesis using a by (auto simp: slob_get_free_pages_def page2kva_def page_addr_def Let_def)
qed

lemma slob_no_page:
  assumes inv: "ff_inv (npage - nbase) (pmm h) bs" and full: "\<forall>(b, k) \<in> set bs. k < 2 ^ order" and "0 < order \<or> \<not> swap_ready h"
  shows "slob_get_free_pages h order = Some (h, None)"
  using ff.alloc_full [OF inv _ full] assms(3) one_less_power [of "2 :: nat" order] by (auto simp: slob_get_free_pages_def Let_def)

lemma slob_grow_inv:
  assumes ok: "heap_ok h arena bs xs" and some: "bs \<noteq> []"
  shows "\<exists>h' bs' xs' p. slob_grow h = Some (h', True) \<and> heap_ok h' arena bs' xs' \<and> p \<in> block_pages bs \<and> block_pages bs' = block_pages bs - {p}
    \<and> heap_bytes h' xs' = heap_bytes h xs \<union> page_range {p} \<and> (\<exists>x \<in> set xs'. 256 \<le> units h' x)
    \<and> swap_ready h' = swap_ready h \<and> bigblocks h' = bigblocks h"
proof -
  have inv: "ff_inv (npage - nbase) (pmm h) bs" and sl: "slob_ok h arena xs" and above: "\<forall>p \<in> block_pages bs. arena + 16 < page_addr p"
    and disj: "heap_bytes h xs \<inter> page_range (block_pages bs) = {}" using ok by (auto simp: heap_ok_def)
  obtain b k bs0 where "bs = (b, k) # bs0" using some by (cases bs) auto
  then have "\<exists>(b, k) \<in> set bs. 2 ^ 0 \<le> k" using ff_inv_blocks [OF inv] by auto
  from slob_get_page [OF inv this] obtain fa bs' p where a: "slob_get_free_pages h 0 = Some (h\<lparr>pmm := fa\<rparr>, Some (page_addr p))"
    "ff_inv (npage - nbase) fa bs'" "p \<in> block_pages bs" "block_pages bs' = block_pages bs - {p}" by auto
  let ?h = "h\<lparr>pmm := fa\<rparr>"
  have hb: "heap_bytes ?h xs = heap_bytes h xs" by (simp add: heap_bytes_def)
  have u: "256 = (if (4096 :: nat) \<noteq> 0 then SLOB_UNITS 4096 else units ?h (page_addr p))" by (simp add: SLOB_UNITS_def)
  have rng: "{page_addr p..<page_addr p + 16 * 256} = page_range {p}" by (simp add: page_range_def)
  have "page_range {p} \<subseteq> page_range (block_pages bs)" using a(3) by (auto simp: page_range_def)
  then have "{page_addr p..<page_addr p + 16 * 256} \<inter> heap_bytes ?h xs = {}" unfolding rng hb using disj by blast
  moreover have "slob_ok ?h arena xs" using sl by (simp add: slob_ok_def)
  moreover have "arena + 16 < page_addr p" using above a(3) by blast
  ultimately obtain h' xs' where f: "slob_free ?h (Some (page_addr p)) 4096 = Some h'" "slob_ok h' arena xs'"
    "heap_bytes h' xs' = heap_bytes ?h xs \<union> {page_addr p..<page_addr p + 16 * 256}" "\<exists>x \<in> set xs'. 256 \<le> units h' x"
    "pmm h' = fa" "swap_ready h' = swap_ready h" "bigblocks h' = bigblocks h"
    using slob_free_inv [OF _ u, of arena xs] by auto
  have "heap_bytes h xs \<inter> page_range (block_pages bs') = {}" using disj a(4) by (auto simp: page_range_def)
  moreover have "page_range {p} \<inter> page_range (block_pages bs') = {}" using a(4) by (intro page_range_disjoint) auto
  ultimately have "heap_ok h' arena bs' xs'" using f(2,3,5) a(2,4) above unfolding heap_ok_def rng hb by blast
  then show ?thesis using a f rng hb by (auto simp: slob_grow_def)
qed

text \<open>A request takes memory that was free in the heap, or in one page that the heap is given; it fails only when neither has enough.\<close>

lemma slob_alloc_inv:
  assumes ok: "heap_ok h arena bs xs" and n: "n = SLOB_UNITS sz" "1 < n" "sz + 16 < 4096"
    and mem: "bs = [] \<Longrightarrow> \<not> swap_ready h \<or> (\<exists>x \<in> set xs. n \<le> units h x)"
  shows "\<exists>h' r bs' xs'. slob_alloc h sz 0 = Some (h', r) \<and> heap_ok h' arena bs' xs' \<and> swap_ready h' = swap_ready h \<and> bigblocks h' = bigblocks h
    \<and> (case r of None \<Rightarrow> h' = h \<and> bs = [] \<and> (\<forall>x \<in> set xs. units h x < n)
       | Some m \<Rightarrow> units h' m = n \<and> (\<exists>P. P \<subseteq> block_pages bs \<and> block_pages bs' = block_pages bs - P
           \<and> {m..<m + 16 * n} \<subseteq> heap_bytes h xs \<union> page_range P \<and> heap_bytes h' xs' = heap_bytes h xs \<union> page_range P - {m..<m + 16 * n}))"
proof -
  have take: "\<exists>h' m xs'. slob_take h n (last (arena # as)) x 0 0 = (h', Some m) \<and> heap_ok h' arena bs xs' \<and> units h' m = n
      \<and> {m..<m + 16 * n} \<subseteq> heap_bytes h xs \<and> heap_bytes h' xs' = heap_bytes h xs - {m..<m + 16 * n} \<and> swap_ready h' = swap_ready h \<and> bigblocks h' = bigblocks h"
    if that': "heap_ok h arena bs xs" "xs = as @ x # cs" "n \<le> units h x" for h bs xs as x cs
  proof -
    have s: "slob_ok h arena xs" using that'(1) by (simp add: heap_ok_def)
    obtain h' xs' where "slob_take h n (last (arena # as)) x 0 0 = (h', Some x)" "slob_ok h' arena xs'"
      "heap_bytes h' xs' = heap_bytes h xs - {x..<x + 16 * n}" "{x..<x + 16 * n} \<subseteq> heap_bytes h xs" "units h' x = n" "pmm h' = pmm h"
      "swap_ready h' = swap_ready h" "bigblocks h' = bigblocks h"
      using slob_take_inv [OF s that'(2) _ that'(3) refl] n(2) by auto
    moreover from this have "heap_ok h' arena bs xs'" using that'(1) unfolding heap_ok_def by auto
    ultimately show ?thesis by blast
  qed
  have s: "slob_ok h arena xs" using ok by (simp add: heap_ok_def)
  have alloc: "slob_alloc h sz 0 = slob_search h sz n 0 (slobfree h) (snext h (slobfree h))" using n by (simp add: slob_alloc_def)
  from search_found [OF s n(2), of sz] show ?thesis
  proof (elim disjE exE conjE)
    fix as x cs
    assume "xs = as @ x # cs" "n \<le> units h x" "slob_search h sz n 0 (slobfree h) (snext h (slobfree h)) = Some (slob_take h n (last (arena # as)) x 0 0)"
    moreover from take [OF ok this(1,2)] obtain h' m xs' where "slob_take h n (last (arena # as)) x 0 0 = (h', Some m)" "heap_ok h' arena bs xs'"
      "units h' m = n" "{m..<m + 16 * n} \<subseteq> heap_bytes h xs" "heap_bytes h' xs' = heap_bytes h xs - {m..<m + 16 * n}"
      "swap_ready h' = swap_ready h" "bigblocks h' = bigblocks h" by blast
    ultimately show ?thesis unfolding alloc
      by (intro exI [of _ h'] exI [of _ "Some m"] exI [of _ bs] exI [of _ xs']) (auto simp: page_range_def intro!: exI [of _ "{}"])
  next
    assume small: "\<forall>x \<in> set xs. units h x < n" and g: "slob_search h sz n 0 (slobfree h) (snext h (slobfree h)) =
       (if sz = 4096 then Some (h, None)
        else do { r \<leftarrow> slob_grow h;
                  if snd r then slob_search (fst r) sz n 0 (slobfree (fst r)) (snext (fst r) (slobfree (fst r))) else Some (fst r, None) })"
    show ?thesis
    proof (cases "bs = []")
      case True
      then have "slob_grow h = Some (h, False)" using slob_no_page [of h bs 0] ok mem small by (fastforce simp: heap_ok_def slob_grow_def)
      then show ?thesis using g ok small True n(3) unfolding alloc by auto
    next
      case False
      from slob_grow_inv [OF ok this] obtain h1 bs1 xs1 p where G: "slob_grow h = Some (h1, True)" "heap_ok h1 arena bs1 xs1" "p \<in> block_pages bs"
        "block_pages bs1 = block_pages bs - {p}" "heap_bytes h1 xs1 = heap_bytes h xs \<union> page_range {p}" "\<exists>x \<in> set xs1. 256 \<le> units h1 x"
        "swap_ready h1 = swap_ready h" "bigblocks h1 = bigblocks h" by blast
      have "n \<le> 256" using n by (simp add: SLOB_UNITS_def)
      then have "\<not> (\<forall>x \<in> set xs1. units h1 x < n)" using G(6) by fastforce
      moreover have "slob_ok h1 arena xs1" using G(2) by (simp add: heap_ok_def)
      ultimately obtain as x cs where x: "xs1 = as @ x # cs" "n \<le> units h1 x"
        "slob_search h1 sz n 0 (slobfree h1) (snext h1 (slobfree h1)) = Some (slob_take h1 n (last (arena # as)) x 0 0)"
        using search_found [OF _ n(2), of h1 arena xs1 sz] by blast
      have "slob_alloc h sz 0 = Some (slob_take h1 n (last (arena # as)) x 0 0)" using g G(1) x(3) n(3) unfolding alloc by simp
      moreover from take [OF G(2) x(1,2)] obtain h' m xs' where T: "slob_take h1 n (last (arena # as)) x 0 0 = (h', Some m)" "heap_ok h' arena bs1 xs'"
        "units h' m = n" "{m..<m + 16 * n} \<subseteq> heap_bytes h1 xs1" "heap_bytes h' xs' = heap_bytes h1 xs1 - {m..<m + 16 * n}"
        "swap_ready h' = swap_ready h1" "bigblocks h' = bigblocks h1" by blast
      moreover have "{p} \<subseteq> block_pages bs" using G(3) by simp
      ultimately show ?thesis using G(4,7,8) unfolding G(5)
        by (intro exI [of _ h'] exI [of _ "Some m"] exI [of _ bs1] exI [of _ xs'] conjI) (simp_all, blast)
    qed
  qed
qed

text \<open>Neither has enough, and swapping is ready: the page allocator calls \<open>swap_out(NULL, ...)\<close>.\<close>

lemma slob_alloc_stuck:
  assumes ok: "heap_ok h arena [] xs" and n: "n = SLOB_UNITS sz" "1 < n" "sz + 16 < 4096" and "swap_ready h" and small: "\<forall>x \<in> set xs. units h x < n"
  shows "slob_alloc h sz 0 = None"
proof -
  have inv: "ff_inv (npage - nbase) (pmm h) []" and s: "slob_ok h arena xs" using ok by (simp_all add: heap_ok_def)
  have "slob_grow h = None"
    using ff.alloc_full [OF inv, of 1] \<open>swap_ready h\<close> by (simp add: slob_grow_def slob_get_free_pages_def Let_def)
  moreover have "\<nexists>as x cs. xs = as @ x # cs \<and> n \<le> units h x" using small by auto
  ultimately have "slob_search h sz n 0 (slobfree h) (snext h (slobfree h)) = None"
    using search_found [OF s n(2), of sz] n(3) by auto
  then show ?thesis using n by (simp add: slob_alloc_def)
qed

subsection \<open>\<open>kmalloc\<close> and \<open>kfree\<close>\<close>

lemma slob_bytes_above: "heap_ok h arena bs xs \<Longrightarrow> a \<in> heap_bytes h xs \<union> page_range (block_pages bs) \<Longrightarrow> arena + 16 < a"
  using slob_okD(2) [of h arena xs] by (fastforce simp: heap_ok_def heap_bytes_def page_range_def)

lemma small_units: "0 < sz \<Longrightarrow> sz < 4064 \<Longrightarrow> 1 < SLOB_UNITS (sz + 16) \<and> SLOB_UNITS (sz + 16) \<le> 255 \<and> sz \<le> 16 * SLOB_UNITS (sz + 16) - 16"
  by (auto simp: SLOB_UNITS_def)

text \<open>A request that is small, but so large that no header fits behind it, fails the assertion of \<open>slob_alloc\<close>.\<close>

lemma kmalloc_panics: "4064 \<le> sz \<Longrightarrow> sz < 4080 \<Longrightarrow> kmalloc h sz = None"
  by (simp add: kmalloc_def slob_alloc_def)

text \<open>
  C23. \<open>kmalloc\<close> of a small object (1 to 4063 bytes) returns on every heap, but for one case: when no free block is large enough, no page is left and
  swapping is ready (as \<open>swap_init\<close> sets it at boot), \<open>alloc_pages\<close> calls \<open>swap_out\<close> on NULL and the call does not come back. The
  block it hands out, header included, is large enough and consists of memory that was free: in the list of free blocks, or in a page taken from
  the page allocator for it; exactly that memory stops being free, and the list stays sorted, with no two blocks adjacent and none inside a free
  page. It fails only when no page is left.
\<close>

theorem kmalloc_takes_free_memory:
  assumes "heap_ok h arena bs xs" and "0 < sz" and "sz < 4064" and "n = SLOB_UNITS (sz + 16)"
  shows "if swap_ready h \<and> bs = [] \<and> (\<forall>x \<in> set xs. units h x < n) then kmalloc h sz = None
    else \<exists>h' r bs' xs'. kmalloc h sz = Some (h', r) \<and> heap_ok h' arena bs' xs' \<and> bigblocks h' = bigblocks h
    \<and> (case r of None \<Rightarrow> h' = h \<and> bs = []
       | Some b \<Rightarrow> 16 \<le> b \<and> units h' (b - 16) = n \<and> sz \<le> 16 * n - 16
           \<and> (\<exists>P. P \<subseteq> block_pages bs \<and> block_pages bs' = block_pages bs - P
             \<and> {b - 16..<b - 16 + 16 * n} \<subseteq> heap_bytes h xs \<union> page_range P
             \<and> heap_bytes h' xs' = heap_bytes h xs \<union> page_range P - {b - 16..<b - 16 + 16 * n}))"
proof (cases "swap_ready h \<and> bs = [] \<and> (\<forall>x \<in> set xs. units h x < n)")
  case True
  then have "slob_alloc h (sz + 16) 0 = None"
    using slob_alloc_stuck [of h arena xs n "sz + 16"] assms small_units [OF assms(2,3)] by simp
  then have "kmalloc h sz = None" using assms(3) by (simp add: kmalloc_def)
  with True show ?thesis by simp
next
  case False
  note u = small_units [OF assms(2,3), folded assms(4)]
  have mem: "bs = [] \<Longrightarrow> \<not> swap_ready h \<or> (\<exists>x \<in> set xs. n \<le> units h x)" using False by force
  from slob_alloc_inv [OF assms(1,4) _ _ mem] u assms(3) obtain h' r bs' xs' where a: "slob_alloc h (sz + 16) 0 = Some (h', r)" "heap_ok h' arena bs' xs'"
    "bigblocks h' = bigblocks h"
    "case r of None \<Rightarrow> h' = h \<and> bs = [] \<and> (\<forall>x \<in> set xs. units h x < n)
       | Some m \<Rightarrow> units h' m = n \<and> (\<exists>P. P \<subseteq> block_pages bs \<and> block_pages bs' = block_pages bs - P
           \<and> {m..<m + 16 * n} \<subseteq> heap_bytes h xs \<union> page_range P \<and> heap_bytes h' xs' = heap_bytes h xs \<union> page_range P - {m..<m + 16 * n})" by auto
  have "kmalloc h sz = Some (h', map_option (\<lambda>m. m + 16) r)" using a(1) assms(3) by (simp add: kmalloc_def)
  then show ?thesis using a(2-4) u False
    by (simp only: if_False) (intro exI [of _ h'] exI [of _ "map_option (\<lambda>m. m + 16) r"] exI [of _ bs'] exI [of _ xs'], auto split: option.splits)
qed

text \<open>A heap whose arena is at 1000, with one free block of 256 units in a page that is not free.\<close>

definition demo_page :: nat where "demo_page = page_addr 500"

definition demo_heap :: kheap where
  "demo_heap = \<lparr>pmm = area demo_vm, swap_ready = True, units = (\<lambda>a. if a = 1000 then 1 else if a = demo_page then 256 else 0),
     snext = (\<lambda>a. if a = 1000 then demo_page else 1000), slobfree = 1000, bigblocks = []\<rparr>"

lemma demo_heap_ok: "heap_ok demo_heap 1000 [(100, 100)] [demo_page]"
proof -
  have far: "1016 < page_addr p" for p by (simp add: page_addr_def va_pa_offset_def)
  from far [of 500] have "1016 < demo_page" "1000 \<noteq> demo_page" by (simp_all add: demo_page_def)
  then have "slob_ok demo_heap 1000 [demo_page]" by (simp add: slob_ok_def demo_heap_def)
  moreover have "heap_bytes demo_heap [demo_page] = page_range {500}"
    using \<open>1000 \<noteq> demo_page\<close> by (simp add: heap_bytes_def demo_heap_def page_range_def demo_page_def)
  moreover have "page_range {500} \<inter> page_range {100..<200} = {}" by (rule page_range_disjoint) simp
  moreover have "ff_inv (npage - nbase) (pmm demo_heap) [(100, 100)]" using demo_vm_inv by (simp add: inv_in_def demo_heap_def)
  ultimately show ?thesis using far by (simp add: heap_ok_def demo_vm_free)
qed

theorem kmalloc_takes_free_memory_witness:
  "\<exists>h' b bs' xs'. kmalloc demo_heap 100 = Some (h', Some b) \<and> heap_ok h' 1000 bs' xs' \<and> units h' (b - 16) = 8"
proof -
  have "(0 :: nat) < 100" "(100 :: nat) < 4064" "8 = SLOB_UNITS (100 + 16)" by (simp_all add: demo_heap_def SLOB_UNITS_def)
  from kmalloc_takes_free_memory [OF demo_heap_ok this] obtain h' r bs' xs' where
    "kmalloc demo_heap 100 = Some (h', r)" "heap_ok h' 1000 bs' xs'"
    "case r of None \<Rightarrow> h' = demo_heap \<and> [(100, 100)] = ([] :: block list) | Some b \<Rightarrow> units h' (b - 16) = 8"
    by (auto split: option.splits)
  then show ?thesis by (cases r) auto
qed

text \<open>
  C24. \<open>kfree\<close> undoes \<open>kmalloc\<close> of a small object (1 to 4063 bytes): freeing it returns and makes the memory free again that the request took, joined with the blocks around
  it; a page the heap was given for the request stays with the heap. (The object must not begin where a large block begins: objects are told
  apart by that.)
\<close>

theorem kmalloc_kfree_roundtrip:
  assumes "heap_ok h arena bs xs" and "0 < sz" and "sz < 4064"
    and kmalloc: "kmalloc h sz = Some (h1, Some b)" and large: "\<forall>bb \<in> set (bigblocks h). bb_pages bb \<noteq> b"
  shows "\<exists>h2 bs' xs' P. kfree h1 (Some b) = Some h2 \<and> heap_ok h2 arena bs' xs' \<and> bigblocks h2 = bigblocks h \<and> P \<subseteq> block_pages bs
    \<and> block_pages bs' = block_pages bs - P \<and> heap_bytes h2 xs' = heap_bytes h xs \<union> page_range P"
proof -
  define n where "n = SLOB_UNITS (sz + 16)"
  note u = small_units [OF assms(2,3), folded n_def]
  have mem: "bs = [] \<Longrightarrow> \<not> swap_ready h \<or> (\<exists>x \<in> set xs. n \<le> units h x)"
    using slob_alloc_stuck [of h arena xs n "sz + 16"] assms(1-3) kmalloc n_def u by (force simp: kmalloc_def not_le)
  from slob_alloc_inv [OF assms(1) n_def _ _ mem] u assms(3) obtain h' r bs' xs' where a: "slob_alloc h (sz + 16) 0 = Some (h', r)" "heap_ok h' arena bs' xs'"
    "bigblocks h' = bigblocks h"
    "case r of None \<Rightarrow> h' = h \<and> bs = [] \<and> (\<forall>x \<in> set xs. units h x < n)
       | Some m \<Rightarrow> units h' m = n \<and> (\<exists>P. P \<subseteq> block_pages bs \<and> block_pages bs' = block_pages bs - P
           \<and> {m..<m + 16 * n} \<subseteq> heap_bytes h xs \<union> page_range P \<and> heap_bytes h' xs' = heap_bytes h xs \<union> page_range P - {m..<m + 16 * n})" by auto
  have "h1 = h'" "map_option (\<lambda>m. m + 16) r = Some b" using a(1) assms(3) kmalloc by (simp_all add: kmalloc_def)
  then obtain m where m: "r = Some m" "b = m + 16" "h1 = h'" by auto
  with a(4) obtain P where P: "units h1 m = n" "P \<subseteq> block_pages bs" "block_pages bs' = block_pages bs - P"
    "{m..<m + 16 * n} \<subseteq> heap_bytes h xs \<union> page_range P" "heap_bytes h1 xs' = heap_bytes h xs \<union> page_range P - {m..<m + 16 * n}" by auto
  have PR: "page_range P \<subseteq> page_range (block_pages bs)" using P(2) by (auto simp: page_range_def)
  have "m \<in> {m..<m + 16 * n}" using u by simp
  then have above: "arena + 16 < m" using slob_bytes_above [OF assms(1), of m] P(4) PR by blast
  have sl: "slob_ok h1 arena xs'" using a(2) m(3) by (simp add: heap_ok_def)
  from slob_free_inv [OF sl, of n 0 m] P(1,5) u above obtain h2 xs2 where f: "slob_free h1 (Some m) 0 = Some h2" "slob_ok h2 arena xs2"
    "heap_bytes h2 xs2 = heap_bytes h1 xs' \<union> {m..<m + 16 * n}" "pmm h2 = pmm h1" "bigblocks h2 = bigblocks h1" by auto
  have "find (\<lambda>bb. bb_pages bb = b) (bigblocks h1) = None" using large a(3) m(3) by (simp add: find_None_iff)
  then have "kfree h1 (Some b) = Some h2" using f(1) m(2) by (simp add: kfree_def)
  moreover have bytes: "heap_bytes h2 xs2 = heap_bytes h xs \<union> page_range P" using f(3) P(4,5) by blast
  moreover have "heap_ok h2 arena bs' xs2"
  proof -
    have "heap_bytes h xs \<inter> page_range (block_pages bs') = {}" using assms(1) P(3) by (auto simp: heap_ok_def page_range_def)
    moreover have "page_range P \<inter> page_range (block_pages bs') = {}" using P(3) by (intro page_range_disjoint) blast
    ultimately have "heap_bytes h2 xs2 \<inter> page_range (block_pages bs') = {}" unfolding bytes by blast
    then show ?thesis using a(2) f(2,4) m(3) by (simp add: heap_ok_def)
  qed
  ultimately show ?thesis using P(2,3) f(5) a(3) m(3) by auto
qed

theorem kmalloc_kfree_roundtrip_witness:
  "\<exists>h1 b h2 bs' xs'. kmalloc demo_heap 100 = Some (h1, Some b) \<and> kfree h1 (Some b) = Some h2 \<and> heap_ok h2 1000 bs' xs'"
proof -
  have "slob_alloc demo_heap 116 0 = Some (slob_take demo_heap 8 1000 demo_page 0 0)"
    by (simp add: slob_alloc_def slob_search_0 demo_heap_def SLOB_UNITS_def) (simp add: demo_page_def page_addr_def va_pa_offset_def)
  then obtain h1 where "kmalloc demo_heap 100 = Some (h1, Some (demo_page + 16))" by (simp add: kmalloc_def slob_take_0)
  with kmalloc_kfree_roundtrip [OF demo_heap_ok _ _ this] show ?thesis by (auto simp: demo_heap_def)
qed

text \<open>The loop of \<open>find_order\<close> rounds down in every step.\<close>

lemma find_order_low: "4096 * 2 ^ k \<le> s \<Longrightarrow> s < 4097 * 2 ^ k \<Longrightarrow> find_order s = k"
proof (induction k arbitrary: s)
  case 0
  then show ?case by (simp add: find_order.simps)
next
  case (Suc k)
  then have "find_order (s div 2) = k" by (intro Suc.IH) auto
  moreover have "(1 :: int) \<le> 2 ^ k" by simp
  then have "4096 < s" using Suc.prems(1) by (simp, linarith)
  ultimately show ?case by (simp add: find_order.simps [of s])
qed

text \<open>
  C25. A block that is too small: for sizes just above a power of two of pages, \<open>find_order\<close> finds an order whose pages hold less than what was asked
  for, and \<open>kmalloc\<close> hands such a block out. The end of the object lies in a page that belongs to somebody else.
\<close>

theorem kmalloc_short_block:
  assumes "1 \<le> k" and "4096 * 2 ^ k < sz" and "sz < 4097 * 2 ^ k" and "sz < 2 ^ 31" and "kmalloc h sz = Some (h', Some b)"
  shows "ksize h' (Some b) = 4096 * 2 ^ k \<and> ksize h' (Some b) < sz"
proof -
  have s: "sint (word_of_nat sz :: 32 word) = int sz" using assms(4) by (simp add: signed_of_nat signed_take_bit_int_eq_self)
  have "int (4096 * 2 ^ k) < int sz" "int sz < int (4097 * 2 ^ k)" using assms(2,3) by (simp_all only: of_nat_less_iff)
  then have o: "find_order (int sz) = k" by (intro find_order_low) simp_all
  have big: "\<not> sz < 4096 - 16" using assms(1,2) one_le_power [of "2 :: nat" k] by linarith
  obtain h1 bb h2 where "slob_get_free_pages h1 k = Some (h2, Some b)" "bigblocks h' = \<lparr>bb_addr = bb, bb_order = k, bb_pages = b\<rparr> # bigblocks h2"
    using assms(5) big s o by (auto simp: kmalloc_def bind_eq_Some_conv split: option.splits)
  moreover from this(1) obtain page where "b = page2ppn page * 4096 + va_pa_offset"
    by (auto simp: slob_get_free_pages_def page2kva_def bind_eq_Some_conv Let_def split: option.splits)
  then have "b mod 4096 = 0" by (simp add: va_pa_offset_def)
  moreover have "4096 * 2 ^ k < (2 :: nat) ^ 32" using assms(2,4) by simp
  ultimately show ?thesis using assms(2) by (simp add: ksize_def)
qed

theorem kmalloc_short_block_witness:
  "\<exists>h' b. kmalloc demo_heap 8193 = Some (h', Some b) \<and> ksize h' (Some b) = 8192"
proof -
  have "slob_alloc demo_heap 24 0 = Some (slob_take demo_heap 2 1000 demo_page 0 0)"
    by (simp add: slob_alloc_def slob_search_0 demo_heap_def SLOB_UNITS_def) (simp add: demo_page_def page_addr_def va_pa_offset_def)
  then obtain h1 where h1: "slob_alloc demo_heap 24 0 = Some (h1, Some demo_page)" "pmm h1 = pmm demo_heap" by (auto simp: slob_take_0)
  have "ff_inv (npage - nbase) (pmm h1) [(100, 100)]" using demo_heap_ok h1(2) by (simp add: heap_ok_def)
  from slob_get_page [OF this, of 1] obtain h2 b where "slob_get_free_pages h1 1 = Some (h2, Some b)" by auto
  moreover have "find_order (sint (word_of_nat 8193 :: 32 word)) = 1" by (simp add: find_order.simps)
  ultimately obtain h' where k: "kmalloc demo_heap 8193 = Some (h', Some b)" using h1(1) by (auto simp: kmalloc_def)
  with kmalloc_short_block [OF _ _ _ _ k, of 1] show ?thesis by auto
qed

end
