(* ===== verification/Philosophers.thy ===== *)
theory Philosophers
  imports Prelude
begin

section \<open>The dining philosophers: \<open>kern/sync/check_sync.c\<close>\<close>

text \<open>
  The version with semaphores, as a client of the contract of \<open>Sync\<close>: a semaphore is the number of its permits, \<open>down\<close> takes one
  when there is one, \<open>up\<close> adds one. A philosopher is a process at one of seven points of its program, with its loop counter; every
  interleaving of the five processes is a path of the step relation. Sections under \<open>mutex\<close> are single steps between its \<open>down\<close> and its
  \<open>up\<close>. Each philosopher goes \<open>TIMES\<close> times round its loop and quits.
\<close>

abbreviation (input) N :: nat where "N \<equiv> 5"
abbreviation (input) TIMES :: nat where "TIMES \<equiv> 4"

definition LEFT :: "nat \<Rightarrow> nat" where "LEFT i = (i + N - 1) mod N"
definition RIGHT :: "nat \<Rightarrow> nat" where "RIGHT i = (i + 1) mod N"

datatype phi_state = THINKING | HUNGRY | EATING

text \<open>
  Points of the program: before the test \<open>iter++ < TIMES\<close>; thinking; in \<open>phi_take_forks_sema\<close>, holding \<open>mutex\<close>; before \<open>down(&s[i])\<close>;
  eating; in \<open>phi_put_forks_sema\<close>; returned.
\<close>

datatype phi_point = Tests | Thinks | Takes | Waits | Eats | Puts | Quits

record table =
  state_sema :: "nat \<Rightarrow> phi_state"
  me :: nat
  forks :: "nat \<Rightarrow> nat"
  point :: "nat \<Rightarrow> phi_point"
  iter :: "nat \<Rightarrow> nat"

subsection \<open>Operations\<close>

definition table_init :: table where
  "table_init = \<lparr>state_sema = (\<lambda>_. THINKING), me = 1, forks = (\<lambda>_. 0), point = (\<lambda>_. Tests), iter = (\<lambda>_. 0)\<rparr>"

definition phi_test_sema :: "nat \<Rightarrow> table \<Rightarrow> table" where
  "phi_test_sema i t =
     (if state_sema t i = HUNGRY \<and> state_sema t (LEFT i) \<noteq> EATING \<and> state_sema t (RIGHT i) \<noteq> EATING
      then t\<lparr>state_sema := (state_sema t)(i := EATING), forks := (forks t)(i := forks t i + 1)\<rparr>
      else t)"

text \<open>\<open>phi_take_forks_sema\<close> and \<open>phi_put_forks_sema\<close> between \<open>down(&mutex)\<close> and \<open>up(&mutex)\<close>.\<close>

definition phi_take_forks_sema :: "nat \<Rightarrow> table \<Rightarrow> table" where
  "phi_take_forks_sema i t = phi_test_sema i (t\<lparr>state_sema := (state_sema t)(i := HUNGRY)\<rparr>)"

definition phi_put_forks_sema :: "nat \<Rightarrow> table \<Rightarrow> table" where
  "phi_put_forks_sema i t = phi_test_sema (RIGHT i) (phi_test_sema (LEFT i) (t\<lparr>state_sema := (state_sema t)(i := THINKING)\<rparr>))"

definition goto :: "nat \<Rightarrow> phi_point \<Rightarrow> table \<Rightarrow> table" where
  "goto i x t = t\<lparr>point := (point t)(i := x)\<rparr>"

inductive phi_step :: "table \<Rightarrow> table \<Rightarrow> bool" where
  loop_test: "i < N \<Longrightarrow> point t i = Tests \<Longrightarrow>
     phi_step t (goto i (if iter t i < TIMES then Thinks else Quits) (t\<lparr>iter := (iter t)(i := iter t i + 1)\<rparr>))"
| take_down: "i < N \<Longrightarrow> point t i = Thinks \<Longrightarrow> 0 < me t \<Longrightarrow> phi_step t (goto i Takes (t\<lparr>me := me t - 1\<rparr>))"
| take_up: "i < N \<Longrightarrow> point t i = Takes \<Longrightarrow> u = phi_take_forks_sema i t \<Longrightarrow> phi_step t (goto i Waits (u\<lparr>me := me u + 1\<rparr>))"
| fork_down: "i < N \<Longrightarrow> point t i = Waits \<Longrightarrow> 0 < forks t i \<Longrightarrow> phi_step t (goto i Eats (t\<lparr>forks := (forks t)(i := forks t i - 1)\<rparr>))"
| put_down: "i < N \<Longrightarrow> point t i = Eats \<Longrightarrow> 0 < me t \<Longrightarrow> phi_step t (goto i Puts (t\<lparr>me := me t - 1\<rparr>))"
| put_up: "i < N \<Longrightarrow> point t i = Puts \<Longrightarrow> u = phi_put_forks_sema i t \<Longrightarrow> phi_step t (goto i Tests (u\<lparr>me := me u + 1\<rparr>))"

inductive phi_reach :: "table \<Rightarrow> bool" where
  start: "phi_reach table_init"
| step: "phi_reach t \<Longrightarrow> phi_step t t' \<Longrightarrow> phi_reach t'"

subsection \<open>Neighbours\<close>

definition nb :: "nat \<Rightarrow> nat \<Rightarrow> bool" where
  "nb i j = (j = LEFT i \<or> j = RIGHT i)"

lemma less_cases: "i < N \<Longrightarrow> i = 0 \<or> i = 1 \<or> i = 2 \<or> i = 3 \<or> i = 4"
  by linarith

lemma neighbours:
  assumes "i < N"
  shows "LEFT i < N" "RIGHT i < N" "LEFT i \<noteq> i" "RIGHT i \<noteq> i" "LEFT i \<noteq> RIGHT i" "nb (LEFT i) i" "nb (RIGHT i) i"
proof -
  show "LEFT i < N" "RIGHT i < N" "LEFT i \<noteq> i" "RIGHT i \<noteq> i" "LEFT i \<noteq> RIGHT i" "nb (LEFT i) i" "nb (RIGHT i) i"
    using less_cases [OF assms] by (auto simp: LEFT_def RIGHT_def nb_def)
qed

lemma nb_sym: "i < N \<Longrightarrow> nb i j \<Longrightarrow> nb j i"
  using neighbours(6,7) by (auto simp: nb_def)

lemma nb_less: "i < N \<Longrightarrow> nb i j \<Longrightarrow> j < N \<and> j \<noteq> i"
  using neighbours by (auto simp: nb_def)

subsection \<open>What the array of states says\<close>

definition apart_eating :: "table \<Rightarrow> bool" where
  "apart_eating t = (\<forall>i < N. \<forall>j. nb i j \<longrightarrow> state_sema t i = EATING \<longrightarrow> state_sema t j \<noteq> EATING)"

definition blocked :: "table \<Rightarrow> nat \<Rightarrow> bool" where
  "blocked t i = (state_sema t i = HUNGRY \<longrightarrow> (\<exists>j. nb i j \<and> state_sema t j = EATING))"

lemma test_apart:
  assumes "i < N" and "apart_eating t"
  shows "apart_eating (phi_test_sema i t)"
proof (cases "state_sema t i = HUNGRY \<and> state_sema t (LEFT i) \<noteq> EATING \<and> state_sema t (RIGHT i) \<noteq> EATING")
  case True
  then have free: "nb i k \<Longrightarrow> state_sema t k \<noteq> EATING" for k by (auto simp: nb_def)
  show ?thesis
    unfolding apart_eating_def
  proof (intro allI impI)
    fix j k
    assume j: "j < N" "nb j k" "state_sema (phi_test_sema i t) j = EATING"
    have "k \<noteq> j" using nb_less j(1,2) by blast
    moreover have "j = i \<Longrightarrow> state_sema t k \<noteq> EATING" using free j(2) by blast
    moreover have "j \<noteq> i \<Longrightarrow> state_sema t j = EATING" using j(3) by (simp add: phi_test_sema_def split: if_splits)
    moreover have "k = i \<Longrightarrow> state_sema t j \<noteq> EATING" using free nb_sym j(1,2) by blast
    ultimately show "state_sema (phi_test_sema i t) k \<noteq> EATING"
      using assms(2) j(1,2) True unfolding apart_eating_def phi_test_sema_def by (cases "j = i"; cases "k = i") auto
  qed
next
  case False
  then have "phi_test_sema i t = t" by (auto simp: phi_test_sema_def)
  with assms(2) show ?thesis by simp
qed

lemma test_blocked_self: "i < N \<Longrightarrow> blocked (phi_test_sema i t) i"
  by (auto simp: blocked_def phi_test_sema_def nb_def)

lemma test_blocked: "blocked t j \<Longrightarrow> blocked (phi_test_sema i t) j"
  by (auto simp: blocked_def phi_test_sema_def)

lemma test_frame [simp]: "me (phi_test_sema i t) = me t" "iter (phi_test_sema i t) = iter t" "point (phi_test_sema i t) = point t"
  "j \<noteq> i \<Longrightarrow> state_sema (phi_test_sema i t) j = state_sema t j" "j \<noteq> i \<Longrightarrow> forks (phi_test_sema i t) j = forks t j"
  by (simp_all add: phi_test_sema_def)

text \<open>Where a philosopher is, its state and its semaphore belong together.\<close>

definition place_ok :: "phi_point \<Rightarrow> phi_state \<Rightarrow> nat \<Rightarrow> bool" where
  "place_ok x s k = (case x of
       Tests \<Rightarrow> s = THINKING \<and> k = 0 | Thinks \<Rightarrow> s = THINKING \<and> k = 0 | Quits \<Rightarrow> s = THINKING \<and> k = 0 | Takes \<Rightarrow> s = THINKING \<and> k = 0
     | Waits \<Rightarrow> s = HUNGRY \<and> k = 0 \<or> s = EATING \<and> k = 1
     | Eats \<Rightarrow> s = EATING \<and> k = 0 | Puts \<Rightarrow> s = EATING \<and> k = 0)"

definition in_section :: "table \<Rightarrow> nat set" where
  "in_section t = {i. i < N \<and> (point t i = Takes \<or> point t i = Puts)}"

definition table_inv :: "table \<Rightarrow> bool" where
  "table_inv t = (apart_eating t \<and> (\<forall>i < N. blocked t i) \<and> (\<forall>i < N. place_ok (point t i) (state_sema t i) (forks t i))
     \<and> me t + card (in_section t) = 1)"

lemma test_place:
  assumes "place_ok (point t j) (state_sema t j) (forks t j)"
  shows "place_ok (point t j) (state_sema (phi_test_sema i t) j) (forks (phi_test_sema i t) j)"
proof (cases "i = j")
  case True
  with assms show ?thesis by (cases "point t j") (auto simp: phi_test_sema_def place_ok_def)
next
  case False
  with assms show ?thesis by simp
qed

lemma goto_simps [simp]:
  "apart_eating (goto i x t) = apart_eating t" "blocked (goto i x t) j = blocked t j" "state_sema (goto i x t) = state_sema t"
  "forks (goto i x t) = forks t" "me (goto i x t) = me t" "iter (goto i x t) = iter t" "point (goto i x t) = (point t)(i := x)"
  "apart_eating (t\<lparr>me := m\<rparr>) = apart_eating t" "blocked (t\<lparr>me := m\<rparr>) j = blocked t j"
  "apart_eating (t\<lparr>iter := n\<rparr>) = apart_eating t" "blocked (t\<lparr>iter := n\<rparr>) j = blocked t j"
  "apart_eating (t\<lparr>forks := f\<rparr>) = apart_eating t" "blocked (t\<lparr>forks := f\<rparr>) j = blocked t j"
  by (simp_all add: goto_def apart_eating_def blocked_def)

lemma section_goto:
  assumes "i < N"
  shows "x \<in> {Takes, Puts} \<Longrightarrow> i \<notin> in_section t \<Longrightarrow> card (in_section (goto i x t)) = card (in_section t) + 1"
    "x \<notin> {Takes, Puts} \<Longrightarrow> i \<in> in_section t \<Longrightarrow> card (in_section (goto i x t)) + 1 = card (in_section t)"
    "x \<notin> {Takes, Puts} \<Longrightarrow> i \<notin> in_section t \<Longrightarrow> card (in_section (goto i x t)) = card (in_section t)"
proof -
  have fin: "finite (in_section t)" by (rule finite_subset [of _ "{..<N}"]) (auto simp: in_section_def)
  have "x \<in> {Takes, Puts} \<Longrightarrow> in_section (goto i x t) = insert i (in_section t)" using assms by (auto simp: in_section_def)
  then show "x \<in> {Takes, Puts} \<Longrightarrow> i \<notin> in_section t \<Longrightarrow> card (in_section (goto i x t)) = card (in_section t) + 1" using fin by simp
  have out: "x \<notin> {Takes, Puts} \<Longrightarrow> in_section (goto i x t) = in_section t - {i}" by (auto simp: in_section_def)
  then show "x \<notin> {Takes, Puts} \<Longrightarrow> i \<notin> in_section t \<Longrightarrow> card (in_section (goto i x t)) = card (in_section t)" by simp
  show "x \<notin> {Takes, Puts} \<Longrightarrow> i \<in> in_section t \<Longrightarrow> card (in_section (goto i x t)) + 1 = card (in_section t)"
    using out card_Suc_Diff1 [OF fin, of i] by simp
qed

lemma section_frame [simp]:
  "in_section (t\<lparr>me := m\<rparr>) = in_section t" "in_section (t\<lparr>iter := n\<rparr>) = in_section t" "in_section (t\<lparr>forks := f\<rparr>) = in_section t"
  "in_section (t\<lparr>state_sema := g\<rparr>) = in_section t" "in_section (phi_test_sema i t) = in_section t"
  by (simp_all add: in_section_def)

text \<open>The two sections under \<open>mutex\<close>.\<close>

lemma take_section:
  assumes inv: "table_inv t" and i: "i < N" "point t i = Takes"
  defines "u \<equiv> phi_take_forks_sema i t"
  shows "apart_eating u" "\<forall>j < N. blocked u j" "\<forall>j < N. j \<noteq> i \<longrightarrow> place_ok (point t j) (state_sema u j) (forks u j)"
    "place_ok Waits (state_sema u i) (forks u i)" "me u = me t" "iter u = iter t" "point u = point t"
proof -
  let ?t = "t\<lparr>state_sema := (state_sema t)(i := HUNGRY)\<rparr>"
  have th: "state_sema t i = THINKING" "forks t i = 0" using inv i by (auto simp: table_inv_def place_ok_def)
  have "apart_eating ?t" using inv by (auto simp: table_inv_def apart_eating_def)
  then show "apart_eating u" unfolding u_def phi_take_forks_sema_def using i(1) by (rule test_apart [rotated])
  have "blocked ?t j" if j: "j < N" "j \<noteq> i" for j
  proof -
    have "blocked t j" using inv j(1) by (simp add: table_inv_def)
    moreover have "k \<noteq> i" if "state_sema t k = EATING" for k using that th(1) by auto
    ultimately show ?thesis using j(2) unfolding blocked_def by fastforce
  qed
  then show "\<forall>j < N. blocked u j"
    unfolding u_def phi_take_forks_sema_def using i(1) test_blocked_self test_blocked by blast
  show "\<forall>j < N. j \<noteq> i \<longrightarrow> place_ok (point t j) (state_sema u j) (forks u j)"
    using inv by (simp add: u_def phi_take_forks_sema_def table_inv_def)
  show "place_ok Waits (state_sema u i) (forks u i)" using th(2) by (simp add: u_def phi_take_forks_sema_def phi_test_sema_def place_ok_def)
qed (simp_all add: u_def phi_take_forks_sema_def)

lemma put_section:
  assumes inv: "table_inv t" and i: "i < N" "point t i = Puts"
  defines "u \<equiv> phi_put_forks_sema i t"
  shows "apart_eating u" "\<forall>j < N. blocked u j" "\<forall>j < N. j \<noteq> i \<longrightarrow> place_ok (point t j) (state_sema u j) (forks u j)"
    "place_ok Tests (state_sema u i) (forks u i)" "me u = me t" "iter u = iter t" "point u = point t"
proof -
  let ?t = "t\<lparr>state_sema := (state_sema t)(i := THINKING)\<rparr>"
  let ?l = "phi_test_sema (LEFT i) ?t"
  note nbs = neighbours [OF i(1)]
  have th: "forks t i = 0" using inv i by (auto simp: table_inv_def place_ok_def)
  have "apart_eating ?t" using inv by (auto simp: table_inv_def apart_eating_def)
  then show "apart_eating u" unfolding u_def phi_put_forks_sema_def using nbs(1,2) by (intro test_apart)
  have far: "blocked ?t j" if j: "j < N" "\<not> nb i j" for j
  proof -
    have "\<not> nb j i" using nb_sym [OF j(1)] j(2) by blast
    then show ?thesis using inv j(1) by (auto simp: table_inv_def blocked_def)
  qed
  have "blocked u j" if "j < N" for j
  proof (cases "nb i j")
    case True
    then have "blocked ?l j \<or> j = RIGHT i" using test_blocked_self [OF nbs(1)] by (auto simp: nb_def)
    then show ?thesis unfolding u_def phi_put_forks_sema_def using test_blocked test_blocked_self [OF nbs(2)] by blast
  qed (use far that test_blocked in \<open>simp add: u_def phi_put_forks_sema_def\<close>)
  then show "\<forall>j < N. blocked u j" by blast
  show "\<forall>j < N. j \<noteq> i \<longrightarrow> place_ok (point t j) (state_sema u j) (forks u j)"
  proof (intro allI impI)
    fix j
    assume "j < N" "j \<noteq> i"
    then have "place_ok (point ?t j) (state_sema ?t j) (forks ?t j)" using inv by (simp add: table_inv_def)
    from test_place [OF this, of "LEFT i"] have "place_ok (point ?l j) (state_sema ?l j) (forks ?l j)" by simp
    from test_place [OF this, of "RIGHT i"] show "place_ok (point t j) (state_sema u j) (forks u j)"
      by (simp add: u_def phi_put_forks_sema_def)
  qed
  show "place_ok Tests (state_sema u i) (forks u i)" using th nbs(3,4) by (simp add: u_def phi_put_forks_sema_def place_ok_def)
qed (simp_all add: u_def phi_put_forks_sema_def)

text \<open>One philosopher moves to another point.\<close>

lemma move_inv:
  assumes "apart_eating u" and "\<forall>j < N. blocked u j" and "\<forall>j < N. j \<noteq> i \<longrightarrow> place_ok (point t j) (state_sema u j) (forks u j)"
    and "place_ok x (state_sema u i) (forks u i)" and "point u = point t" and "me u + card (in_section (goto i x t)) = 1"
  shows "table_inv (goto i x u)"
proof -
  have "in_section (goto i x u) = in_section (goto i x t)" using assms(5) by (simp add: in_section_def)
  then show ?thesis using assms by (simp add: table_inv_def)
qed

lemma step_inv:
  assumes "phi_step t t'" and inv: "table_inv t"
  shows "table_inv t'"
  using assms(1)
proof cases
  case (loop_test i)
  let ?x = "if iter t i < TIMES then Thinks else Quits"
  have out: "i \<notin> in_section t" using loop_test(3) by (simp add: in_section_def)
  have c: "card (in_section (goto i ?x t)) = card (in_section t)" by (rule section_goto(3) [OF loop_test(2) _ out]) simp
  show ?thesis unfolding loop_test(1)
    by (rule move_inv [where t = t]) (use inv loop_test c in \<open>auto simp: table_inv_def place_ok_def\<close>)
next
  case (take_down i)
  have out: "i \<notin> in_section t" using take_down(3) by (simp add: in_section_def)
  have c: "card (in_section (goto i Takes t)) = card (in_section t) + 1" by (rule section_goto(1) [OF take_down(2) _ out]) simp
  show ?thesis unfolding take_down(1)
    by (rule move_inv [where t = t]) (use inv take_down c in \<open>auto simp: table_inv_def place_ok_def\<close>)
next
  case (take_up i u)
  have "i \<in> in_section t" using take_up(2,3) by (simp add: in_section_def)
  then have c: "card (in_section (goto i Waits t)) + 1 = card (in_section t)" by (intro section_goto(2) take_up(2)) simp_all
  show ?thesis unfolding take_up(1)
    by (rule move_inv [where t = t]) (use take_section [OF inv take_up(2,3)] take_up(4) inv c in \<open>auto simp: table_inv_def\<close>)
next
  case (fork_down i)
  have out: "i \<notin> in_section t" using fork_down(3) by (simp add: in_section_def)
  have c: "card (in_section (goto i Eats t)) = card (in_section t)" by (rule section_goto(3) [OF fork_down(2) _ out]) simp
  show ?thesis unfolding fork_down(1)
    by (rule move_inv [where t = t]) (use inv fork_down c in \<open>auto simp: table_inv_def place_ok_def\<close>)
next
  case (put_down i)
  have out: "i \<notin> in_section t" using put_down(3) by (simp add: in_section_def)
  have c: "card (in_section (goto i Puts t)) = card (in_section t) + 1" by (rule section_goto(1) [OF put_down(2) _ out]) simp
  show ?thesis unfolding put_down(1)
    by (rule move_inv [where t = t]) (use inv put_down c in \<open>auto simp: table_inv_def place_ok_def\<close>)
next
  case (put_up i u)
  have "i \<in> in_section t" using put_up(2,3) by (simp add: in_section_def)
  then have c: "card (in_section (goto i Tests t)) + 1 = card (in_section t)" by (intro section_goto(2) put_up(2)) simp_all
  show ?thesis unfolding put_up(1)
    by (rule move_inv [where t = t]) (use put_section [OF inv put_up(2,3)] put_up(4) inv c in \<open>auto simp: table_inv_def\<close>)
qed

lemma reach_inv: "phi_reach t \<Longrightarrow> table_inv t"
proof (induction rule: phi_reach.induct)
  case start
  show ?case by (auto simp: table_inv_def table_init_def apart_eating_def blocked_def place_ok_def in_section_def)
qed (rule step_inv)

subsection \<open>How long they run\<close>

text \<open>One process moves: the point and the counter it leaves, those it comes to.\<close>

definition moves :: "phi_point \<Rightarrow> nat \<Rightarrow> phi_point \<Rightarrow> nat \<Rightarrow> bool" where
  "moves x n y m = (case x of
       Tests \<Rightarrow> m = n + 1 \<and> y = (if n < TIMES then Thinks else Quits)
     | Thinks \<Rightarrow> m = n \<and> y = Takes | Takes \<Rightarrow> m = n \<and> y = Waits | Waits \<Rightarrow> m = n \<and> y = Eats
     | Eats \<Rightarrow> m = n \<and> y = Puts | Puts \<Rightarrow> m = n \<and> y = Tests | Quits \<Rightarrow> False)"

lemma step_moves:
  assumes "phi_step t t'"
  obtains i where "i < N" "moves (point t i) (iter t i) (point t' i) (iter t' i)"
    "\<And>j. j \<noteq> i \<Longrightarrow> point t' j = point t j \<and> iter t' j = iter t j"
  using assms
  by cases (rule that; force simp: moves_def phi_take_forks_sema_def phi_put_forks_sema_def)+

text \<open>The steps a philosopher has left, and the meals it has begun.\<close>

definition todo :: "phi_point \<Rightarrow> nat \<Rightarrow> nat" where
  "todo x n = (case x of Tests \<Rightarrow> 6 * (TIMES - n) + 1 | Thinks \<Rightarrow> 6 * (TIMES - n) + 6 | Takes \<Rightarrow> 6 * (TIMES - n) + 5
     | Waits \<Rightarrow> 6 * (TIMES - n) + 4 | Eats \<Rightarrow> 6 * (TIMES - n) + 3 | Puts \<Rightarrow> 6 * (TIMES - n) + 2 | Quits \<Rightarrow> 0)"

definition meals_ok :: "phi_point \<Rightarrow> nat \<Rightarrow> nat \<Rightarrow> bool" where
  "meals_ok x n e = (case x of Tests \<Rightarrow> n \<le> TIMES \<and> e = n | Quits \<Rightarrow> e = TIMES | Eats \<Rightarrow> n \<le> TIMES \<and> e = n
     | Puts \<Rightarrow> n \<le> TIMES \<and> e = n | _ \<Rightarrow> 0 < n \<and> n \<le> TIMES \<and> e + 1 = n)"

lemma moves_todo: "moves x n y m \<Longrightarrow> todo x n = todo y m + 1"
  by (cases x) (auto simp: moves_def todo_def)

lemma moves_meals: "moves x n y m \<Longrightarrow> meals_ok x n e \<Longrightarrow> meals_ok y m (if x \<noteq> Eats \<and> y = Eats then e + 1 else e)"
  by (cases x) (auto simp: moves_def meals_ok_def)

text \<open>A run: the meals each philosopher has begun, the number of steps, the table reached.\<close>

inductive phi_run :: "(nat \<Rightarrow> nat) \<Rightarrow> nat \<Rightarrow> table \<Rightarrow> bool" where
  run_start: "phi_run (\<lambda>_. 0) 0 table_init"
| run_step: "phi_run e n t \<Longrightarrow> phi_step t t' \<Longrightarrow>
     phi_run (\<lambda>i. if point t i \<noteq> Eats \<and> point t' i = Eats then e i + 1 else e i) (n + 1) t'"

lemma run_reach: "phi_run e n t \<Longrightarrow> phi_reach t"
  by (induction rule: phi_run.induct) (auto intro: phi_reach.intros)

lemma run_count: "phi_run e n t \<Longrightarrow> n + (\<Sum>i < N. todo (point t i) (iter t i)) = 125 \<and> (\<forall>i < N. meals_ok (point t i) (iter t i) (e i))"
proof (induction rule: phi_run.induct)
  case run_start
  show ?case by (simp add: table_init_def todo_def meals_ok_def)
next
  case (run_step e n t t')
  from run_step.hyps(2) obtain i where i: "i < N" "moves (point t i) (iter t i) (point t' i) (iter t' i)"
    and same: "\<And>j. j \<noteq> i \<Longrightarrow> point t' j = point t j \<and> iter t' j = iter t j" by (rule step_moves) blast
  let ?f = "\<lambda>t i. todo (point t i) (iter t i)"
  have split: "sum (?f u) {..<N} = ?f u i + sum (?f u) ({..<N} - {i})" for u using i(1) by (intro sum.remove) auto
  have "sum (?f t') ({..<N} - {i}) = sum (?f t) ({..<N} - {i})" using same by (intro sum.cong) auto
  then have "sum (?f t) {..<N} = sum (?f t') {..<N} + 1" using split [of t] split [of t'] moves_todo [OF i(2)] by linarith
  then have count: "n + 1 + sum (?f t') {..<N} = 125" using run_step.IH by simp
  have "meals_ok (point t' j) (iter t' j) (if point t j \<noteq> Eats \<and> point t' j = Eats then e j + 1 else e j)" if "j < N" for j
  proof (cases "j = i")
    case True
    then show ?thesis using moves_meals [OF i(2)] run_step.IH i(1) by blast
  next
    case False
    then show ?thesis using same [OF False] run_step.IH that by simp
  qed
  with count show ?case by blast
qed

lemma todo_zero: "todo x n = 0 \<longleftrightarrow> x = Quits"
  by (cases x) (auto simp: todo_def)

subsection \<open>Properties\<close>

text \<open>A run to a table at which philosopher 0 eats.\<close>

definition demo_eats :: table where
  "demo_eats = table_init\<lparr>state_sema := (\<lambda>_. THINKING)(0 := EATING), point := (\<lambda>_. Tests)(0 := Eats), iter := (\<lambda>_. 0)(0 := 1)\<rparr>"

lemma demo_eats_run: "\<exists>e. phi_run e 4 demo_eats"
proof -
  let ?t0 = "goto 0 (if iter table_init 0 < TIMES then Thinks else Quits) (table_init\<lparr>iter := (iter table_init)(0 := iter table_init 0 + 1)\<rparr>)"
  let ?t1 = "goto 0 Takes (?t0\<lparr>me := me ?t0 - 1\<rparr>)"
  let ?u = "phi_take_forks_sema 0 ?t1"
  let ?t2 = "goto 0 Waits (?u\<lparr>me := me ?u + 1\<rparr>)"
  let ?t3 = "goto 0 Eats (?t2\<lparr>forks := (forks ?t2)(0 := forks ?t2 0 - 1)\<rparr>)"
  have f: "forks ?t2 0 = 1" by (simp add: phi_take_forks_sema_def phi_test_sema_def table_init_def LEFT_def RIGHT_def)
  have "phi_step table_init ?t0" by (rule loop_test) (simp_all add: table_init_def)
  moreover have "phi_step ?t0 ?t1" by (rule take_down) (simp_all add: table_init_def)
  moreover have "phi_step ?t1 ?t2" by (rule take_up) simp_all
  moreover have "phi_step ?t2 ?t3" by (rule fork_down) (use f in simp_all)
  ultimately have "\<exists>e. phi_run e (0 + 1 + 1 + 1 + 1) ?t3" using run_start run_step by meson
  moreover have "?t3 = demo_eats"
    by (simp add: demo_eats_def goto_def phi_take_forks_sema_def phi_test_sema_def table_init_def LEFT_def RIGHT_def fun_upd_idem)
  ultimately show ?thesis by (simp add: numeral_eq_Suc)
qed

lemma demo_eats_reach: "phi_reach demo_eats"
  using demo_eats_run run_reach by blast

text \<open>
  C11. Neighbours never eat together: on every path of the five processes, a philosopher who eats, or is about to put the forks down, has
  neighbours who do neither.
\<close>

theorem philosophers_exclusive:
  assumes "phi_reach t" and "i < N" and "point t i = Eats \<or> point t i = Puts" and "j = LEFT i \<or> j = RIGHT i"
  shows "point t j \<noteq> Eats \<and> point t j \<noteq> Puts"
proof -
  have inv: "table_inv t" using reach_inv assms(1) .
  have j: "nb i j" "j < N" using assms(4) neighbours [OF assms(2)] by (auto simp: nb_def)
  have "state_sema t i = EATING" using inv assms(2,3) by (auto simp: table_inv_def place_ok_def)
  then have "state_sema t j \<noteq> EATING" using inv assms(2) j(1) unfolding table_inv_def apart_eating_def by blast
  then show ?thesis using inv j(2) by (auto simp: table_inv_def place_ok_def)
qed

theorem philosophers_exclusive_witness: "point demo_eats 1 \<noteq> Eats \<and> point demo_eats 1 \<noteq> Puts"
  using philosophers_exclusive [OF demo_eats_reach, of 0 1] by (simp add: demo_eats_def RIGHT_def)

text \<open>A philosopher waiting for its fork has a neighbour whose state is \<open>EATING\<close>.\<close>

lemma waits_for:
  assumes inv: "table_inv t" and i: "i < N" "point t i = Waits" "forks t i = 0"
  obtains j where "nb i j" "j < N" "point t j = Eats \<or> point t j = Puts \<or> point t j = Waits \<and> forks t j = 1"
proof -
  have "state_sema t i = HUNGRY" using inv i by (auto simp: table_inv_def place_ok_def)
  then obtain j where j: "nb i j" "state_sema t j = EATING" using inv i(1) by (auto simp: table_inv_def blocked_def)
  have less: "j < N" using nb_less [OF i(1) j(1)] by simp
  have "place_ok (point t j) (state_sema t j) (forks t j)" using inv less by (simp add: table_inv_def)
  then show ?thesis using that [OF j(1) less] j(2) by (cases "point t j") (auto simp: place_ok_def)
qed

lemma some_step:
  assumes inv: "table_inv t" and k: "k < N" "point t k \<noteq> Quits"
  shows "\<exists>t'. phi_step t t'"
proof (cases "in_section t = {}")
  case False
  then obtain i where "i < N" "point t i = Takes \<or> point t i = Puts" by (auto simp: in_section_def)
  then show ?thesis using take_up [OF _ _ refl] put_up [OF _ _ refl] by blast
next
  case True
  then have me: "0 < me t" using inv by (simp add: table_inv_def)
  have waits: "\<exists>t'. phi_step t t'" if w: "point t k = Waits" "forks t k = 0"
    using waits_for [OF inv k(1) w] fork_down put_down [OF _ _ me] put_up [OF _ _ refl] by (metis zero_less_one)
  show ?thesis
    by (cases "point t k")
      (use loop_test [OF k(1)] take_down [OF k(1) _ me] take_up [OF k(1) _ refl] fork_down [OF k(1)] put_down [OF k(1) _ me]
        put_up [OF k(1) _ refl] waits k(2) in blast)+
qed

text \<open>The test of \<open>phi_put_forks_sema\<close> reaches the waiting neighbour.\<close>

lemma put_wakes:
  assumes inv: "table_inv t" and i: "i < N" "point t i = Waits" "forks t i = 0" and j: "nb i j" "point t j = Puts"
    and others: "\<And>k. nb i k \<Longrightarrow> k \<noteq> j \<Longrightarrow> state_sema t k \<noteq> EATING"
  shows "forks (phi_put_forks_sema j t) i = 1"
proof -
  have hungry: "state_sema t i = HUNGRY" using inv i by (auto simp: table_inv_def place_ok_def)
  have less: "j < N" "j \<noteq> i" using nb_less [OF i(1) j(1)] by auto
  let ?t = "t\<lparr>state_sema := (state_sema t)(j := THINKING)\<rparr>"
  have free: "state_sema ?t (LEFT i) \<noteq> EATING" "state_sema ?t (RIGHT i) \<noteq> EATING" using others by (auto simp: nb_def)
  have h: "state_sema ?t i = HUNGRY" using hungry less(2) by simp
  have gets: "forks (phi_test_sema i u) i = 1" if "state_sema u i = HUNGRY" "state_sema u (LEFT i) \<noteq> EATING" "state_sema u (RIGHT i) \<noteq> EATING"
    "forks u i = 0" for u using that by (simp add: phi_test_sema_def)
  have "nb j i" by (rule nb_sym [OF i(1) j(1)])
  then consider "i = LEFT j" | "i = RIGHT j" by (auto simp: nb_def)
  then show ?thesis
  proof cases
    case 1
    then have "i \<noteq> RIGHT j" using neighbours(5) [OF less(1)] by simp
    with gets [OF h free] i(3) show ?thesis unfolding phi_put_forks_sema_def 1 [symmetric] by simp
  next
    case 2
    let ?u = "phi_test_sema (LEFT j) ?t"
    have ne: "LEFT j \<noteq> i" using 2 neighbours(5) [OF less(1)] by simp
    have apart: "LEFT j \<noteq> LEFT i" "LEFT j \<noteq> RIGHT i"
      using less_cases [OF less(1)] 2 by (auto simp: LEFT_def RIGHT_def)
    have "forks (phi_test_sema i ?u) i = 1" by (rule gets) (use ne apart h free i(3) in simp_all)
    then show ?thesis unfolding phi_put_forks_sema_def 2 [symmetric] by simp
  qed
qed

text \<open>
  C12. No wake-up is lost and nobody starves. A run of the five processes, from the start of \<open>check_sync\<close>, has at most 125 steps
  (five times round the loop's head and four times its five steps, for each of five); as long as it has fewer a step is possible; after
  125 all five have quit and each has eaten \<open>TIMES\<close> times. On the way, a philosopher who waits without a fork has a neighbour
  whose turn it is (eating, about to, or putting the forks down), and when a neighbour puts its forks down while no other
  neighbour is \<open>EATING\<close>, the waiting one gets its permit.
\<close>

theorem philosophers_progress:
  assumes "phi_run e n t"
  shows "n \<le> 125 \<and> (n < 125 \<longrightarrow> (\<exists>t'. phi_step t t')) \<and> (n = 125 \<longrightarrow> (\<forall>i < N. point t i = Quits \<and> e i = TIMES))
    \<and> (\<forall>i < N. point t i = Waits \<and> forks t i = 0 \<longrightarrow>
        (\<exists>j. (j = LEFT i \<or> j = RIGHT i) \<and> (point t j = Eats \<or> point t j = Puts \<or> point t j = Waits \<and> forks t j = 1)) \<and>
        (\<forall>j. (j = LEFT i \<or> j = RIGHT i) \<and> point t j = Puts \<and> (\<forall>k. (k = LEFT i \<or> k = RIGHT i) \<and> k \<noteq> j \<longrightarrow> state_sema t k \<noteq> EATING)
           \<longrightarrow> forks (phi_put_forks_sema j t) i = 1))"
proof -
  have inv: "table_inv t" using reach_inv [OF run_reach] assms .
  note count = run_count [OF assms]
  have "n \<le> 125" using count by linarith
  moreover have "\<exists>t'. phi_step t t'" if "n < 125"
  proof -
    have "\<not> (\<forall>k < N. point t k = Quits)"
    proof
      assume "\<forall>k < N. point t k = Quits"
      then have "\<And>k. k < N \<Longrightarrow> todo (point t k) (iter t k) = 0" by (simp add: todo_zero)
      then have "(\<Sum>i < N. todo (point t i) (iter t i)) = 0" by (intro sum.neutral) simp
      with count that show False by linarith
    qed
    then show ?thesis using some_step [OF inv] by blast
  qed
  moreover have "point t i = Quits \<and> e i = TIMES" if n: "n = 125" and i: "i < N" for i
  proof -
    have "(\<Sum>i < N. todo (point t i) (iter t i)) = 0" using count n by linarith
    then have "todo (point t i) (iter t i) = 0" using i by simp
    then have "point t i = Quits" by (simp only: todo_zero)
    moreover have "meals_ok (point t i) (iter t i) (e i)" using count i by blast
    ultimately show ?thesis by (simp add: meals_ok_def)
  qed
  moreover have "\<exists>j. nb i j \<and> (point t j = Eats \<or> point t j = Puts \<or> point t j = Waits \<and> forks t j = 1)"
    if "i < N" "point t i = Waits" "forks t i = 0" for i using waits_for [OF inv that] by blast
  moreover have "forks (phi_put_forks_sema j t) i = 1" if "i < N" "point t i = Waits" "forks t i = 0" "nb i j" "point t j = Puts"
    "\<forall>k. nb i k \<and> k \<noteq> j \<longrightarrow> state_sema t k \<noteq> EATING" for i j using put_wakes [OF inv that(1-5)] that(6) by blast
  ultimately show ?thesis unfolding nb_def by blast
qed

theorem philosophers_progress_witness: "\<exists>e. phi_run e 4 demo_eats \<and> (\<exists>t'. phi_step demo_eats t')"
  using demo_eats_run philosophers_progress [of _ 4 demo_eats] by auto

end
