(* ===== verification/Bitmap.thy ===== *)
theory Bitmap
  imports Prelude
begin

section \<open>Bitmaps: \<open>kern/fs/sfs/bitmap.c\<close>\<close>

text \<open>
  A map of 32-bit words in which a set bit marks a free index. The results of \<open>kmalloc\<close> are arguments;
  a failed assertion is \<open>None\<close>.
\<close>

record bitmap =
  nbits :: nat
  nwords :: nat
  bmap_words :: "u32 list"

subsection \<open>Operations\<close>

text \<open>\<open>1 << n\<close>.\<close>

definition bitmask :: "nat \<Rightarrow> u32" where
  "bitmask n = push_bit n 1"

text \<open>The leftover bits of the last word are cleared one by one.\<close>

function clear_leftover :: "u32 \<Rightarrow> nat \<Rightarrow> u32" where
  "clear_leftover w overbits =
     (if overbits < 32 then clear_leftover (w XOR bitmask overbits) (overbits + 1) else w)"
  by pat_completeness auto
termination by (relation "measure (\<lambda>(w, o'). 32 - o')") auto

declare clear_leftover.simps [simp del]

definition bitmap_create :: "bool \<Rightarrow> bool \<Rightarrow> nat \<Rightarrow> bitmap option option" where
  "bitmap_create kmalloc_bitmap kmalloc_map n =
     do { kassert (n \<noteq> 0 \<and> n + 32 < 2 ^ 32);
          if \<not> kmalloc_bitmap then Some None
          else do {
            let nw = (n + 31) div 32;
            if \<not> kmalloc_map then Some None
            else do {
              let words = replicate nw (- 1);
              if n \<noteq> nw * 32
              then do {
                let ix = nw - 1;
                let overbits = n - ix * 32;
                kassert (n div 32 = ix);
                kassert (overbits > 0 \<and> overbits < 32);
                Some (Some \<lparr>nbits = n, nwords = nw, bmap_words = words[ix := clear_leftover (words ! ix) overbits]\<rparr>) }
              else Some (Some \<lparr>nbits = n, nwords = nw, bmap_words = words\<rparr>) } } }"

function find_offset :: "u32 \<Rightarrow> nat \<Rightarrow> nat option" where
  "find_offset w offset =
     (if offset < 32
      then (if w AND bitmask offset \<noteq> 0 then Some offset else find_offset w (offset + 1))
      else None)"
  by pat_completeness auto
termination by (relation "measure (\<lambda>(w, o'). 32 - o')") auto

declare find_offset.simps [simp del]

text \<open>The loops of \<open>bitmap_alloc\<close>: the outer \<open>None\<close> is \<open>assert(0)\<close>, the inner one a full map.\<close>

fun alloc_scan :: "u32 list \<Rightarrow> (u32 list \<times> nat) option option" where
  "alloc_scan [] = Some None"
| "alloc_scan (w # ws) =
     (if w \<noteq> 0
      then do { offset \<leftarrow> find_offset w 0; Some (Some ((w XOR bitmask offset) # ws, offset)) }
      else do { r \<leftarrow> alloc_scan ws;
                Some (map_option (\<lambda>(ws', i). (w # ws', 32 + i)) r) })"

definition bitmap_alloc :: "bitmap \<Rightarrow> (bitmap \<times> int \<times> nat option) option" where
  "bitmap_alloc b =
     do { r \<leftarrow> alloc_scan (bmap_words b);
          Some (case r of None \<Rightarrow> (b, - E_NO_MEM, None)
                | Some (ws, i) \<Rightarrow> (b\<lparr>bmap_words := ws\<rparr>, 0, Some i)) }"

definition bitmap_translate :: "bitmap \<Rightarrow> nat \<Rightarrow> (nat \<times> u32) option" where
  "bitmap_translate b index =
     do { kassert (index < nbits b); Some (index div 32, bitmask (index mod 32)) }"

definition bitmap_test :: "bitmap \<Rightarrow> nat \<Rightarrow> bool option" where
  "bitmap_test b index =
     do { (ix, mask) \<leftarrow> bitmap_translate b index; Some (bmap_words b ! ix AND mask \<noteq> 0) }"

definition bitmap_free :: "bitmap \<Rightarrow> nat \<Rightarrow> bitmap option" where
  "bitmap_free b index =
     do { (ix, mask) \<leftarrow> bitmap_translate b index;
          kassert (bmap_words b ! ix AND mask = 0);
          Some (b\<lparr>bmap_words := (bmap_words b)[ix := bmap_words b ! ix OR mask]\<rparr>) }"

definition bitmap_getdata :: "bitmap \<Rightarrow> u32 list \<times> nat" where
  "bitmap_getdata b = (bmap_words b, 4 * nwords b)"

subsection \<open>The set of free indices\<close>

definition wbit :: "u32 list \<Rightarrow> nat \<Rightarrow> bool" where
  "wbit ws i = (i div 32 < length ws \<and> bit (ws ! (i div 32)) (i mod 32))"

definition free_set :: "bitmap \<Rightarrow> nat set" where
  "free_set b = {i. wbit (bmap_words b) i}"

definition bitmap_inv :: "bitmap \<Rightarrow> bool" where
  "bitmap_inv b = (0 < nbits b \<and> nbits b + 32 < 2 ^ 32 \<and> nwords b = (nbits b + 31) div 32
     \<and> length (bmap_words b) = nwords b \<and> (\<forall>i \<in> free_set b. i < nbits b))"

lemma bit_bitmask: "i < 32 \<Longrightarrow> bit (bitmask n) i = (i = n)"
  by (auto simp: bitmask_def bit_simps)

lemma mask_bit: "(w AND bitmask n \<noteq> 0) = bit w n" if "n < 32" for w :: u32
proof -
  have "bit (w AND bitmask n) i = (i = n \<and> bit w n)" for i
    using that bit_bitmask [of i n] by (cases "i < 32") (auto simp: bit_and_iff dest: bit_imp_le_length)
  then show ?thesis by (metis bit_0_eq bit_eqI bot_apply bot_bool_def)
qed

lemma mask_bit_zero: "n < 32 \<Longrightarrow> (w AND bitmask n = 0) = (\<not> bit w n)"
  using mask_bit [of n w] by blast

lemma bit_set_clear:
  "i < 32 \<Longrightarrow> bit (w XOR bitmask n) i = (if i = n then \<not> bit w i else bit w i)"
  "i < 32 \<Longrightarrow> bit (w OR bitmask n) i = (i = n \<or> bit w i)"
  by (auto simp: bit_bitmask bit_xor_iff bit_or_iff)

lemma find_offset_Some: "find_offset w k = Some n \<Longrightarrow> k \<le> n \<and> n < 32 \<and> bit w n \<and> (\<forall>j. k \<le> j \<and> j < n \<longrightarrow> \<not> bit w j)"
proof (induction w k rule: find_offset.induct)
  case (1 w k)
  show ?case
  proof (cases "k < 32 \<and> \<not> bit w k")
    case True
    then have "find_offset w (k + 1) = Some n" using "1.prems" mask_bit [of k w] by (subst (asm) find_offset.simps) simp
    with "1.IH" True mask_bit [of k w] have "k + 1 \<le> n \<and> n < 32 \<and> bit w n \<and> (\<forall>j. k + 1 \<le> j \<and> j < n \<longrightarrow> \<not> bit w j)" by simp
    with True show ?thesis by (metis Suc_eq_plus1 Suc_leD not_less_eq_eq le_antisym)
  next
    case False
    then show ?thesis using "1.prems" mask_bit [of k w] by (subst (asm) find_offset.simps) (auto split: if_splits)
  qed
qed

lemma find_offset_None: "find_offset w k = None \<Longrightarrow> \<forall>j. k \<le> j \<and> j < 32 \<longrightarrow> \<not> bit w j"
proof (induction w k rule: find_offset.induct)
  case (1 w k)
  show ?case
  proof (cases "k < 32")
    case True
    then have n: "\<not> bit w k" "find_offset w (k + 1) = None"
      using "1.prems" mask_bit [of k w] by (subst (asm) (1) find_offset.simps, simp split: if_splits)+
    with "1.IH" True mask_bit [of k w] have "\<forall>j. k + 1 \<le> j \<and> j < 32 \<longrightarrow> \<not> bit w j" by simp
    with n(1) show ?thesis by (metis Suc_eq_plus1 Suc_leI le_neq_implies_less)
  qed auto
qed

lemma find_offset_nonzero: "w \<noteq> 0 \<Longrightarrow> find_offset w 0 \<noteq> None"
  using find_offset_None [of w 0] bit_word_eqI [of w 0] by auto

lemma wbit_Cons: "wbit (w # ws) i = (if i < 32 then bit w i else wbit ws (i - 32))"
proof (cases "i < 32")
  case False
  then have "i div 32 = Suc ((i - 32) div 32)" "(i - 32) mod 32 = i mod 32" by (simp_all add: div_if mod_if)
  then show ?thesis using False by (simp add: wbit_def)
qed (simp add: wbit_def)

text \<open>The scan clears the lowest set bit.\<close>

lemma alloc_scan_Some:
  "alloc_scan ws = Some (Some (ws', i)) \<Longrightarrow> wbit ws i \<and> (\<forall>j < i. \<not> wbit ws j) \<and> length ws' = length ws
     \<and> (\<forall>j. wbit ws' j \<longleftrightarrow> wbit ws j \<and> j \<noteq> i)"
proof (induction ws arbitrary: ws' i)
  case (Cons w ws)
  show ?case
  proof (cases "w = 0")
    case False
    then obtain n where n: "find_offset w 0 = Some n" using find_offset_nonzero by blast
    then have "ws' = (w XOR bitmask n) # ws" "i = n" using Cons.prems False by auto
    with find_offset_Some [OF n] show ?thesis by (auto simp: wbit_Cons bit_set_clear)
  next
    case True
    then obtain us j where r: "alloc_scan ws = Some (Some (us, j))" "ws' = w # us" "i = 32 + j"
      using Cons.prems by (auto simp: bind_eq_Some_conv)
    from Cons.IH [OF r(1)] have IH: "wbit ws j" "\<forall>k < j. \<not> wbit ws k" "length us = length ws"
      "\<And>k. wbit us k \<longleftrightarrow> wbit ws k \<and> k \<noteq> j" by auto
    have "\<not> wbit (w # ws) k" if "k < i" for k
      using that IH(2) True r(3) by (auto simp: wbit_Cons)
    then show ?thesis using IH True r(2,3) by (auto simp: wbit_Cons)
  qed
qed simp

lemma alloc_scan_None: "alloc_scan ws = Some None \<Longrightarrow> \<not> wbit ws i"
proof (induction ws arbitrary: i)
  case (Cons w ws)
  then show ?case by (auto simp: wbit_Cons bind_eq_Some_conv split: if_splits)
qed (simp add: wbit_def)

lemma alloc_scan_returns: "alloc_scan ws \<noteq> None"
proof (induction ws)
  case (Cons w ws)
  then show ?case using find_offset_nonzero [of w] by auto
qed simp

lemma bitmap_alloc_spec:
  assumes "bitmap_inv b"
  shows "\<exists>b'. if free_set b = {} then bitmap_alloc b = Some (b, - E_NO_MEM, None)
    else bitmap_alloc b = Some (b', 0, Some (Min (free_set b))) \<and> bitmap_inv b'
      \<and> free_set b' = free_set b - {Min (free_set b)} \<and> nbits b' = nbits b"
proof -
  obtain r where r: "alloc_scan (bmap_words b) = Some r" using alloc_scan_returns by blast
  show ?thesis
  proof (cases r)
    case None
    with alloc_scan_None r have "free_set b = {}" by (auto simp: free_set_def)
    with r None show ?thesis by (simp add: bitmap_alloc_def)
  next
    case (Some p)
    obtain ws i where p: "p = (ws, i)" by fastforce
    note sp = alloc_scan_Some [OF r [unfolded Some p]]
    let ?b = "b\<lparr>bmap_words := ws\<rparr>"
    have fs: "free_set ?b = free_set b - {i}" "i \<in> free_set b" using sp by (auto simp: free_set_def)
    have "finite (free_set b)" using assms finite_nat_set_iff_bounded by (auto simp: bitmap_inv_def)
    then have "Min (free_set b) = i" using sp by (intro Min_eqI) (auto simp: free_set_def not_less [symmetric])
    moreover have "bitmap_inv ?b" using assms sp fs(1) by (auto simp: bitmap_inv_def)
    ultimately show ?thesis using r Some p fs by (auto simp: bitmap_alloc_def)
  qed
qed

lemma wbit_set:
  assumes "i div 32 < length ws"
  shows "wbit (ws[i div 32 := ws ! (i div 32) OR bitmask (i mod 32)]) j = (j = i \<or> wbit ws j)"
proof (cases "j div 32 = i div 32")
  case True
  then have "j mod 32 = i mod 32 \<longleftrightarrow> j = i" by (metis mult_div_mod_eq)
  with True assms show ?thesis by (simp add: wbit_def bit_set_clear)
qed (auto simp: wbit_def)

lemma word_index: "bitmap_inv b \<Longrightarrow> i < nbits b \<Longrightarrow> i div 32 < length (bmap_words b)"
  by (simp add: bitmap_inv_def div_less_iff_less_mult)

lemma bitmap_test_spec: "bitmap_inv b \<Longrightarrow> bitmap_test b i = (if i < nbits b then Some (i \<in> free_set b) else None)"
  using word_index [of b i] mask_bit [of "i mod 32" "bmap_words b ! (i div 32)"]
  by (simp add: bitmap_test_def bitmap_translate_def free_set_def wbit_def)

lemma bitmap_free_spec:
  assumes "bitmap_inv b"
  shows "\<exists>b'. if i < nbits b \<and> i \<notin> free_set b
    then bitmap_free b i = Some b' \<and> bitmap_inv b' \<and> free_set b' = insert i (free_set b) \<and> nbits b' = nbits b
    else bitmap_free b i = None"
proof (cases "i < nbits b")
  case True
  let ?b = "b\<lparr>bmap_words := (bmap_words b)[i div 32 := bmap_words b ! (i div 32) OR bitmask (i mod 32)]\<rparr>"
  have w: "i div 32 < length (bmap_words b)" by (rule word_index [OF assms True])
  have m: "(bmap_words b ! (i div 32) AND bitmask (i mod 32) = 0) = (i \<notin> free_set b)"
    using mask_bit_zero [of "i mod 32" "bmap_words b ! (i div 32)"] w by (simp add: free_set_def wbit_def)
  have "free_set ?b = insert i (free_set b)" using wbit_set [OF w] by (auto simp: free_set_def)
  moreover from this have "bitmap_inv ?b" using assms True by (simp add: bitmap_inv_def)
  ultimately show ?thesis using True m by (auto simp: bitmap_free_def bitmap_translate_def)
next
  case False
  then show ?thesis by (simp add: bitmap_free_def bitmap_translate_def)
qed

lemma clear_leftover_bit: "i < 32 \<Longrightarrow> bit (clear_leftover w k) i = (if k \<le> i then \<not> bit w i else bit w i)"
proof (induction w k rule: clear_leftover.induct)
  case (1 w k)
  show ?case
  proof (cases "k < 32")
    case True
    have "bit (clear_leftover w k) i = bit (clear_leftover (w XOR bitmask k) (k + 1)) i"
      using True by (subst clear_leftover.simps) simp
    with "1.IH" [OF True "1.prems"] "1.prems" show ?thesis by (auto simp: bit_set_clear)
  next
    case False
    with "1.prems" show ?thesis by (subst clear_leftover.simps) simp
  qed
qed

lemma bitmap_create_spec:
  assumes n: "0 < n" "n + 32 < 2 ^ 32"
  shows "\<exists>b. bitmap_create True True n = Some (Some b) \<and> bitmap_inv b \<and> nbits b = n \<and> free_set b = {0..<n}"
proof -
  define k where k: "k = (n + 31) div 32"
  define r where "r = n - (k - 1) * 32"
  have nk: "0 < k" "n \<le> k * 32" "(k - 1) * 32 < n" "n = (k - 1) * 32 + r" "0 < r" "r \<le> 32" "n = k * 32 \<longleftrightarrow> r = 32"
    using n unfolding k r_def by auto
  let ?ws = "replicate k (- 1 :: u32)"
  have full: "wbit ?ws i = (i < k * 32)" for i by (auto simp: wbit_def div_less_iff_less_mult)
  show ?thesis
  proof (cases "r = 32")
    case True
    let ?b = "\<lparr>nbits = n, nwords = k, bmap_words = ?ws\<rparr>"
    have n32: "n = k * 32" using nk(7) True by blast
    have "wbit ?ws i = (i < n)" for i unfolding full by (subst n32) (rule refl)
    then have fs: "free_set ?b = {0..<n}" by (intro set_eqI) (simp add: free_set_def)
    moreover have "bitmap_create True True n = Some (Some ?b)"
      using n n32 unfolding bitmap_create_def k [symmetric] by (simp only: Let_def) simp
    moreover have "bitmap_inv ?b" using n fs k by (simp add: bitmap_inv_def)
    ultimately show ?thesis by auto
  next
    case False
    let ?v = "?ws[k - 1 := clear_leftover (?ws ! (k - 1)) r]"
    let ?b = "\<lparr>nbits = n, nwords = k, bmap_words = ?v\<rparr>"
    have r: "r < 32" "n div 32 = k - 1" using nk False by simp_all
    have "wbit ?v i = (i < n)" for i
    proof (cases "i div 32 = k - 1")
      case True
      then have "i = (k - 1) * 32 + i mod 32" by (metis div_mult_mod_eq)
      then have "(i < n) = (i mod 32 < r)" using nk(4) by linarith
      then show ?thesis using True nk(1) by (simp add: wbit_def clear_leftover_bit)
    next
      case ne: False
      then have "wbit ?v i = (i < k * 32)" using full [of i] by (simp add: wbit_def)
      moreover have "i < k * 32 \<Longrightarrow> i div 32 < k" by (simp add: div_less_iff_less_mult)
      then have "i < k * 32 \<Longrightarrow> i div 32 < k - 1" using ne by linarith
      then have "i < k * 32 \<Longrightarrow> i < (k - 1) * 32" by (simp add: div_less_iff_less_mult)
      ultimately show ?thesis using nk by linarith
    qed
    then have fs: "free_set ?b = {0..<n}" by (intro set_eqI) (simp add: free_set_def)
    moreover have "bitmap_create True True n = Some (Some ?b)"
      using n nk False r unfolding bitmap_create_def k [symmetric] Let_def r_def [symmetric] by simp
    moreover have "bitmap_inv ?b" using n fs k by (simp add: bitmap_inv_def)
    ultimately show ?thesis by auto
  qed
qed

subsection \<open>What a file system relies on\<close>

text \<open>
  The contract between the bitmap and its clients: a set of free indices below a capacity, from
  which \<open>alloc\<close> takes one and to which \<open>release\<close> returns one that is in use.
\<close>

locale freemap =
  fixes alloc :: "'b \<Rightarrow> ('b \<times> int \<times> nat option) option"
    and release :: "'b \<Rightarrow> nat \<Rightarrow> 'b option"
    and test :: "'b \<Rightarrow> nat \<Rightarrow> bool option"
    and inv :: "'b \<Rightarrow> bool"
    and frees :: "'b \<Rightarrow> nat set"
    and cap :: "'b \<Rightarrow> nat"
  assumes frees_below: "inv b \<Longrightarrow> i \<in> frees b \<Longrightarrow> i < cap b"
    and alloc_full: "inv b \<Longrightarrow> frees b = {} \<Longrightarrow> alloc b = Some (b, - E_NO_MEM, None)"
    and alloc_ok: "inv b \<Longrightarrow> frees b \<noteq> {} \<Longrightarrow> \<exists>b' i. alloc b = Some (b', 0, Some i) \<and> inv b'
        \<and> i \<in> frees b \<and> frees b' = frees b - {i} \<and> cap b' = cap b"
    and release_ok: "inv b \<Longrightarrow> i < cap b \<Longrightarrow> i \<notin> frees b \<Longrightarrow>
        \<exists>b'. release b i = Some b' \<and> inv b' \<and> frees b' = insert i (frees b) \<and> cap b' = cap b"
    and release_bad: "inv b \<Longrightarrow> cap b \<le> i \<or> i \<in> frees b \<Longrightarrow> release b i = None"
    and test_ok: "inv b \<Longrightarrow> i < cap b \<Longrightarrow> test b i = Some (i \<in> frees b)"
begin

lemma alloc_cases:
  assumes "inv b"
  obtains "alloc b = Some (b, - E_NO_MEM, None)" "frees b = {}"
  | b' i where "alloc b = Some (b', 0, Some i)" "inv b'" "i \<in> frees b" "frees b' = frees b - {i}" "cap b' = cap b" "i < cap b"
  using alloc_full [OF assms] alloc_ok [OF assms] frees_below [OF assms] by metis

lemma alloc_release:
  assumes "inv b" and "alloc b = Some (b', 0, Some i)"
  shows "\<exists>b''. release b' i = Some b'' \<and> inv b'' \<and> frees b'' = frees b"
  using assms(1)
proof (rule alloc_cases)
  fix c j assume c: "alloc b = Some (c, 0, Some j)" "inv c" "j \<in> frees b" "frees c = frees b - {j}" "cap c = cap b" "j < cap b"
  then have "c = b'" "j = i" using assms(2) by auto
  with release_ok [of b' i] c show ?thesis by auto
qed (use assms(2) in auto)

end

interpretation bm: freemap bitmap_alloc bitmap_free bitmap_test bitmap_inv free_set nbits
proof
  fix b i assume inv: "bitmap_inv b"
  have fin: "finite (free_set b)" using inv finite_nat_set_iff_bounded by (auto simp: bitmap_inv_def)
  show "i \<in> free_set b \<Longrightarrow> i < nbits b" using inv by (simp add: bitmap_inv_def)
  show "free_set b = {} \<Longrightarrow> bitmap_alloc b = Some (b, - E_NO_MEM, None)" using bitmap_alloc_spec [OF inv] by simp
  show "free_set b \<noteq> {} \<Longrightarrow> \<exists>b' i. bitmap_alloc b = Some (b', 0, Some i) \<and> bitmap_inv b'
        \<and> i \<in> free_set b \<and> free_set b' = free_set b - {i} \<and> nbits b' = nbits b"
    using bitmap_alloc_spec [OF inv] Min_in [OF fin] by auto
  show "i < nbits b \<Longrightarrow> i \<notin> free_set b \<Longrightarrow>
        \<exists>b'. bitmap_free b i = Some b' \<and> bitmap_inv b' \<and> free_set b' = insert i (free_set b) \<and> nbits b' = nbits b"
    using bitmap_free_spec [OF inv, of i] by auto
  show "nbits b \<le> i \<or> i \<in> free_set b \<Longrightarrow> bitmap_free b i = None"
    using bitmap_free_spec [OF inv, of i] by auto
  show "i < nbits b \<Longrightarrow> bitmap_test b i = Some (i \<in> free_set b)" using bitmap_test_spec [OF inv, of i] by simp
qed

text \<open>
  A bitmap is a set of free indices: \<open>bitmap_create\<close> makes all \<open>n\<close> indices free and none beyond,
  \<open>bitmap_alloc\<close> hands out the least free index or fails with \<open>E_NO_MEM\<close> exactly when there is none,
  and \<open>bitmap_free\<close> gives back an index in use, panicking on a free or out-of-range one.
\<close>

theorem bitmap_refines_set:
  assumes "0 < n" and "n + 32 < 2 ^ 32" and "bitmap_inv b"
  shows "(\<exists>c. bitmap_create True True n = Some (Some c) \<and> bitmap_inv c \<and> free_set c = {0..<n} \<and> nbits c = n)
    \<and> (if free_set b = {} then bitmap_alloc b = Some (b, - E_NO_MEM, None)
       else \<exists>b'. bitmap_alloc b = Some (b', 0, Some (Min (free_set b))) \<and> bitmap_inv b'
         \<and> free_set b' = free_set b - {Min (free_set b)} \<and> nbits b' = nbits b)
    \<and> (if i < nbits b \<and> i \<notin> free_set b
       then \<exists>b'. bitmap_free b i = Some b' \<and> bitmap_inv b' \<and> free_set b' = insert i (free_set b) \<and> nbits b' = nbits b
       else bitmap_free b i = None)"
  using bitmap_create_spec [OF assms(1,2)] bitmap_alloc_spec [OF assms(3)] bitmap_free_spec [OF assms(3), of i]
  by (auto split: if_splits)

theorem bitmap_refines_set_witness:
  "\<exists>b b'. bitmap_create True True 40 = Some (Some b) \<and> bitmap_alloc b = Some (b', 0, Some 0) \<and> free_set b' = {1..<40}"
proof -
  obtain b where b: "bitmap_create True True 40 = Some (Some b)" "bitmap_inv b" "free_set b = {0..<40}"
    using bitmap_create_spec [of 40] by auto
  have "Min {0..<40::nat} = 0" by (rule Min_eqI) auto
  moreover have "{0..<40::nat} - {0} = {1..<40}" by auto
  ultimately show ?thesis using bitmap_refines_set [of 40 b 0] b by fastforce
qed

end
