(* ===== verification/Sfs_Io.thy ===== *)
theory Sfs_Io
  imports Ide Bitmap Bytes
begin

section \<open>The simple file system: block I/O of \<open>kern/fs/sfs/sfs_io.c\<close>\<close>

text \<open>
  A mounted file system on \<open>disk0\<close>. Blocks are moved by \<open>disk0_io\<close>, in the one memory of the machine; partial
  blocks go through \<open>sfs_buffer\<close>. The local variable \<open>ino\<close> whose address the block map code passes
  to \<open>sfs_rbuf\<close> and \<open>sfs_wbuf\<close> lies at \<open>ino_addr\<close>, the words of the free map at \<open>freemap_data\<close>. The locks
  (\<open>fs_sem\<close>, \<open>io_sem\<close>, the one of an inode) are the semaphores of \<open>Sync\<close>.
\<close>

subsection \<open>State\<close>

record sfs_super =
  s_magic :: u32
  s_blocks :: u32
  s_unused_blocks :: u32
  s_info :: "char list"

record sfs_fs =
  machine :: memory
  dev_table :: ide_devices
  dev :: disk0
  super :: sfs_super
  free_map :: bitmap
  super_dirty :: bool
  sfs_buffer :: nat
  ino_addr :: nat
  freemap_data :: nat

abbreviation (input) SFS_MAGIC :: u32 where "SFS_MAGIC \<equiv> 0x2f8dbe2a"
abbreviation (input) SFS_BLKSIZE :: nat where "SFS_BLKSIZE \<equiv> 4096"
abbreviation (input) SFS_BLKN_SUPER :: u32 where "SFS_BLKN_SUPER \<equiv> 0"
abbreviation (input) SFS_BLKN_ROOT :: u32 where "SFS_BLKN_ROOT \<equiv> 1"
abbreviation (input) SFS_BLKN_FREEMAP :: u32 where "SFS_BLKN_FREEMAP \<equiv> 2"
abbreviation (input) SFS_BLKBITS :: nat where "SFS_BLKBITS \<equiv> 32768"

definition sfs_freemap_blocks :: "sfs_super \<Rightarrow> u32" where
  "sfs_freemap_blocks sb = word_of_nat ((unat (s_blocks sb) + SFS_BLKBITS - 1) div SFS_BLKBITS)"

definition sfs_freemap_bits :: "sfs_super \<Rightarrow> nat" where
  "sfs_freemap_bits sb = (unat (s_blocks sb) + SFS_BLKBITS - 1) div SFS_BLKBITS * SFS_BLKBITS"

definition super_bytes :: "sfs_super \<Rightarrow> char list" where
  "super_bytes sb = le32 (s_magic sb) @ le32 (s_blocks sb) @ le32 (s_unused_blocks sb) @ s_info sb"

definition super_at :: "memory \<Rightarrow> nat \<Rightarrow> sfs_super" where
  "super_at m a = \<lparr>s_magic = ld32 m a, s_blocks = ld32 m (a + 4), s_unused_blocks = ld32 m (a + 8),
     s_info = block m (a + 12) 32\<rparr>"

subsection \<open>Operations\<close>

text \<open>\<open>blkno * SFS_BLKSIZE\<close> is a 32-bit product.\<close>

definition sfs_rwblock_nolock :: "sfs_fs \<Rightarrow> nat \<Rightarrow> u32 \<Rightarrow> bool \<Rightarrow> bool \<Rightarrow> (sfs_fs \<times> int) option" where
  "sfs_rwblock_nolock sfs buf blkno write check =
     do { kassert ((blkno \<noteq> 0 \<or> \<not> check) \<and> blkno < s_blocks (super sfs));
          let iob = iobuf_init buf SFS_BLKSIZE (uint (blkno * 4096));
          (m, iob, ret) \<leftarrow> disk0_io (dev_table sfs) (dev sfs) (machine sfs) iob write;
          Some (sfs\<lparr>machine := m\<rparr>, ret) }"

text \<open>The loop of \<open>sfs_rwblock\<close>, with \<open>n\<close> blocks left.\<close>

fun sfs_rwblock :: "sfs_fs \<Rightarrow> nat \<Rightarrow> u32 \<Rightarrow> nat \<Rightarrow> bool \<Rightarrow> (sfs_fs \<times> int) option" where
  "sfs_rwblock sfs buf blkno 0 write = Some (sfs, 0)"
| "sfs_rwblock sfs buf blkno (Suc n) write =
     do { (sfs, ret) \<leftarrow> sfs_rwblock_nolock sfs buf blkno write True;
          if ret \<noteq> 0 then Some (sfs, ret) else sfs_rwblock sfs (buf + SFS_BLKSIZE) (blkno + 1) n write }"

definition sfs_rblock :: "sfs_fs \<Rightarrow> nat \<Rightarrow> u32 \<Rightarrow> nat \<Rightarrow> (sfs_fs \<times> int) option" where
  "sfs_rblock sfs buf blkno nblks = sfs_rwblock sfs buf blkno nblks False"

definition sfs_wblock :: "sfs_fs \<Rightarrow> nat \<Rightarrow> u32 \<Rightarrow> nat \<Rightarrow> (sfs_fs \<times> int) option" where
  "sfs_wblock sfs buf blkno nblks = sfs_rwblock sfs buf blkno nblks True"

definition sfs_rbuf :: "sfs_fs \<Rightarrow> nat \<Rightarrow> nat \<Rightarrow> u32 \<Rightarrow> int \<Rightarrow> (sfs_fs \<times> int) option" where
  "sfs_rbuf sfs buf len blkno offset =
     do { kassert (offset \<ge> 0 \<and> offset < 4096 \<and> offset + int len \<le> 4096);
          (sfs, ret) \<leftarrow> sfs_rwblock_nolock sfs (sfs_buffer sfs) blkno False True;
          if ret = 0
          then Some (sfs\<lparr>machine := memcpy (machine sfs) buf (sfs_buffer sfs + nat offset) len\<rparr>, ret)
          else Some (sfs, ret) }"

definition sfs_wbuf :: "sfs_fs \<Rightarrow> nat \<Rightarrow> nat \<Rightarrow> u32 \<Rightarrow> int \<Rightarrow> (sfs_fs \<times> int) option" where
  "sfs_wbuf sfs buf len blkno offset =
     do { kassert (offset \<ge> 0 \<and> offset < 4096 \<and> offset + int len \<le> 4096);
          (sfs, ret) \<leftarrow> sfs_rwblock_nolock sfs (sfs_buffer sfs) blkno False True;
          if ret = 0
          then do { let sfs = sfs\<lparr>machine := memcpy (machine sfs) (sfs_buffer sfs + nat offset) buf len\<rparr>;
                    sfs_rwblock_nolock sfs (sfs_buffer sfs) blkno True True }
          else Some (sfs, ret) }"

definition sfs_sync_super :: "sfs_fs \<Rightarrow> (sfs_fs \<times> int) option" where
  "sfs_sync_super sfs =
     do { let m = memset (machine sfs) (sfs_buffer sfs) NUL SFS_BLKSIZE;
          let m = poke m (sfs_buffer sfs) (super_bytes (super sfs));
          sfs_rwblock_nolock (sfs\<lparr>machine := m\<rparr>) (sfs_buffer sfs) SFS_BLKN_SUPER True False }"

text \<open>The words \<open>bitmap_getdata\<close> points to are put at \<open>freemap_data\<close>, where the bitmap keeps them.\<close>

definition sfs_sync_freemap :: "sfs_fs \<Rightarrow> (sfs_fs \<times> int) option" where
  "sfs_sync_freemap sfs =
     do { let nblks = sfs_freemap_blocks (super sfs);
          let (data, len) = bitmap_getdata (free_map sfs);
          let sfs = sfs\<lparr>machine := poke (machine sfs) (freemap_data sfs) (concat (map le32 data))\<rparr>;
          sfs_wblock sfs (freemap_data sfs) SFS_BLKN_FREEMAP (unat nblks) }"

text \<open>The loop of \<open>sfs_clear_block\<close>; with no block to clear \<open>ret\<close> would be uninitialised.\<close>

fun clear_blocks :: "sfs_fs \<Rightarrow> u32 \<Rightarrow> nat \<Rightarrow> int \<Rightarrow> (sfs_fs \<times> int) option" where
  "clear_blocks sfs blkno 0 ret = Some (sfs, ret)"
| "clear_blocks sfs blkno (Suc n) ret =
     do { (sfs, ret) \<leftarrow> sfs_rwblock_nolock sfs (sfs_buffer sfs) blkno True True;
          if ret \<noteq> 0 then Some (sfs, ret) else clear_blocks sfs (blkno + 1) n ret }"

definition sfs_clear_block :: "sfs_fs \<Rightarrow> u32 \<Rightarrow> nat \<Rightarrow> (sfs_fs \<times> int) option" where
  "sfs_clear_block sfs blkno nblks =
     do { kassert (0 < nblks);
          clear_blocks (sfs\<lparr>machine := memset (machine sfs) (sfs_buffer sfs) NUL SFS_BLKSIZE\<rparr>) blkno nblks 0 }"

subsection \<open>Where things lie\<close>

text \<open>
  Three regions are overwritten at any time: the buffer of \<open>disk0\<close>, the buffer of the file system and the
  local \<open>ino\<close>. They and the caller's buffers are apart from each other and from the image of the disk.
\<close>

definition image :: "sfs_fs \<Rightarrow> nat" where
  "image s = ide_iobase (dev_table s DISK0_DEV_NO)"

definition image_size :: "sfs_fs \<Rightarrow> nat" where
  "image_size s = unat (d_blocks (dev s)) * 4096"

definition disk_at :: "sfs_fs \<Rightarrow> u32 \<Rightarrow> nat" where
  "disk_at s b = image s + unat b * 4096"

definition scratch :: "sfs_fs \<Rightarrow> nat \<Rightarrow> bool" where
  "scratch s a = (\<not> apart a 1 (disk0_buffer (dev s)) 16384 \<or> \<not> apart a 1 (sfs_buffer s) 4096 \<or> \<not> apart a 1 (ino_addr s) 4)"

definition user_buf :: "sfs_fs \<Rightarrow> nat \<Rightarrow> nat \<Rightarrow> bool" where
  "user_buf s a n = (apart a n (image s) (image_size s) \<and> apart a n (disk0_buffer (dev s)) 16384
     \<and> apart a n (sfs_buffer s) 4096 \<and> apart a n (ino_addr s) 4)"

definition fs_ready :: "sfs_fs \<Rightarrow> bool" where
  "fs_ready s = (disk0_ready (dev_table s) (dev s)
     \<and> unat (s_blocks (super s)) \<le> unat (d_blocks (dev s)) \<and> unat (s_blocks (super s)) \<le> 2 ^ 20
     \<and> apart (image s) (image_size s) (disk0_buffer (dev s)) 16384
     \<and> apart (sfs_buffer s) 4096 (image s) (image_size s) \<and> apart (sfs_buffer s) 4096 (disk0_buffer (dev s)) 16384
     \<and> apart (ino_addr s) 4 (image s) (image_size s) \<and> apart (ino_addr s) 4 (disk0_buffer (dev s)) 16384
     \<and> apart (ino_addr s) 4 (sfs_buffer s) 4096)"

text \<open>\<open>s'\<close> is \<open>s\<close> with the memory \<open>m\<close>, up to the three regions.\<close>

definition mem_eff :: "sfs_fs \<Rightarrow> memory \<Rightarrow> sfs_fs \<Rightarrow> bool" where
  "mem_eff s m s' = (\<exists>m'. s' = s\<lparr>machine := m'\<rparr> \<and> (\<forall>a. \<not> scratch s a \<longrightarrow> m' a = m a))"

lemma place_simps [simp]:
  "image (s\<lparr>machine := m\<rparr>) = image s" "image_size (s\<lparr>machine := m\<rparr>) = image_size s"
  "disk_at (s\<lparr>machine := m\<rparr>) = disk_at s" "scratch (s\<lparr>machine := m\<rparr>) = scratch s"
  "user_buf (s\<lparr>machine := m\<rparr>) = user_buf s" "fs_ready (s\<lparr>machine := m\<rparr>) = fs_ready s"
  by (simp_all add: image_def image_size_def disk_at_def scratch_def user_buf_def fs_ready_def fun_eq_iff)

lemma mem_effD: "mem_eff s m s' \<Longrightarrow> \<not> scratch s a \<Longrightarrow> machine s' a = m a"
  by (auto simp: mem_eff_def)

lemma mem_effE:
  assumes "mem_eff s m s'"
  obtains m' where "s' = s\<lparr>machine := m'\<rparr>" "\<And>a. \<not> scratch s a \<Longrightarrow> m' a = m a"
  using assms by (auto simp: mem_eff_def)

lemma mem_effI: "(\<And>a. \<not> scratch s a \<Longrightarrow> m' a = m a) \<Longrightarrow> mem_eff s m (s\<lparr>machine := m'\<rparr>)"
  by (auto simp: mem_eff_def)

lemma mem_eff_refl: "(\<And>a. \<not> scratch s a \<Longrightarrow> m a = machine s a) \<Longrightarrow> mem_eff s m s"
  using mem_effI [of s "machine s" m] by simp

lemma disk_block_bound:
  assumes "fs_ready s" and "b < s_blocks (super s)"
  shows "unat b * 4096 + 4096 \<le> image_size s" "unat b < 2 ^ 20"
proof -
  have "unat b < unat (d_blocks (dev s))" "unat b < 2 ^ 20"
    using assms by (auto simp: fs_ready_def word_less_nat_alt)
  then show "unat b * 4096 + 4096 \<le> image_size s" "unat b < 2 ^ 20" by (auto simp: image_size_def)
qed

lemma disk_not_scratch:
  assumes "fs_ready s" and "b < s_blocks (super s)" and "i < 4096"
  shows "\<not> scratch s (disk_at s b + i)"
  using assms disk_block_bound [OF assms(1,2)] by (auto simp: fs_ready_def scratch_def apart_def disk_at_def)

lemma disk_at_apart: "b \<noteq> c \<Longrightarrow> disk_at s b + 4096 \<le> disk_at s c \<or> disk_at s c + 4096 \<le> disk_at s b"
proof -
  assume "b \<noteq> c"
  then have "unat b < unat c \<or> unat c < unat b" by (metis linorder_neqE_nat word_unat_eq_iff)
  then have "(unat b + 1) * 4096 \<le> unat c * 4096 \<or> (unat c + 1) * 4096 \<le> unat b * 4096"
    by (metis Suc_eq_plus1 Suc_leI mult_le_mono1)
  then show ?thesis by (auto simp: disk_at_def)
qed

subsection \<open>One block\<close>

lemma disk0_io_run:
  assumes "disk0_ready devs d" and "b < 2 ^ 32" and "b + 1 \<le> unat (d_blocks d)" and "disk0_layout devs d buf 4096"
  shows "\<exists>m' iob. disk0_io devs d m (iobuf_init buf 4096 (int b * 4096)) write = Some (m', iob, 0)
    \<and> moved devs d write m buf (b * 4096) 4096 m'"
proof -
  let ?b = "word_of_nat b :: u32"
  have u: "unat ?b = b" using assms(2) by (simp add: unat_of_nat)
  have le: "\<not> ucast (?b + 1) > d_blocks d"
  proof -
    have "d_blocks d = ucast (ide_size (devs DISK0_DEV_NO)) div 8" "unat (ide_size (devs DISK0_DEV_NO)) \<le> 0x10000000"
      using assms(1) by (auto simp: disk0_ready_def)
    then have "unat (d_blocks d) < 2 ^ 32 - 1" by (auto simp: unat_div)
    then have "unat (?b + 1) = b + 1" using assms(3) u by (subst unat_add_lem [THEN iffD1]) simp_all
    then show ?thesis using assms(3) by (simp add: word_less_nat_alt)
  qed
  have off: "(int b * 4096) sdiv 4096 = int b" by (subst sdiv_nonneg) simp_all
  obtain m' where "disk0_loop devs d write m (iobuf_init buf 4096 (int b * 4096)) 4096 ?b = Some (m', advance (iobuf_init buf 4096 (int b * 4096)) 4096)"
    "moved devs d write m buf (b * 4096) 4096 m'"
    using disk0_loop_transfer [OF assms(1), of ?b 1 "iobuf_init buf 4096 (int b * 4096)" "write" m] assms(3,4) u
    by (auto simp: iobuf_init_def)
  then show ?thesis using le off by (auto simp: disk0_io_def iobuf_init_def Let_def)
qed

lemma rwblock_run:
  assumes rdy: "fs_ready s" and b: "b < s_blocks (super s)" and c: "b \<noteq> 0 \<or> \<not> check"
    and buf: "apart buf 4096 (image s) (image_size s)" "apart buf 4096 (disk0_buffer (dev s)) 16384"
  shows "\<exists>m'. sfs_rwblock_nolock s buf b write check = Some (s\<lparr>machine := m'\<rparr>, 0)
    \<and> (\<forall>a. apart a 1 (disk0_buffer (dev s)) 16384 \<longrightarrow>
         m' a = (if write then blit (machine s) (disk_at s b) buf 4096 a else blit (machine s) buf (disk_at s b) 4096 a))"
proof -
  note bb = disk_block_bound [OF rdy b]
  have "uint (b * 4096) = int (unat b) * 4096"
  proof -
    have "unat (b * 4096) = unat b * 4096" using bb(2) by (simp add: unat_mult_lem [THEN iffD1])
    then show ?thesis by (metis of_nat_mult of_nat_numeral uint_nat)
  qed
  moreover have "unat b + 1 \<le> unat (d_blocks (dev s))"
    using rdy b by (auto simp: fs_ready_def word_less_nat_alt)
  moreover have "disk0_layout (dev_table s) (dev s) buf 4096"
    using rdy buf by (auto simp: disk0_layout_def Let_def fs_ready_def image_def image_size_def)
  moreover have "unat b < 2 ^ 32" using bb(2) by simp
  ultimately obtain m' iob where m': "disk0_io (dev_table s) (dev s) (machine s) (iobuf_init buf 4096 (uint (b * 4096))) write = Some (m', iob, 0)"
    "moved (dev_table s) (dev s) write (machine s) buf (unat b * 4096) 4096 m'"
    using disk0_io_run [of "dev_table s" "dev s" "unat b" buf "machine s" "write"] rdy by (auto simp: fs_ready_def)
  have "sfs_rwblock_nolock s buf b write check = Some (s\<lparr>machine := m'\<rparr>, 0)"
    using m'(1) b c by (simp add: sfs_rwblock_nolock_def)
  then show ?thesis using m'(2) by (auto simp: moved_def Let_def blit_def disk_at_def image_def)
qed

definition bounce :: "sfs_fs \<Rightarrow> nat \<Rightarrow> bool" where
  "bounce s a = (\<not> apart a 1 (disk0_buffer (dev s)) 16384 \<or> \<not> apart a 1 (sfs_buffer s) 4096)"

lemma scratch_bounce: "scratch s a = (bounce s a \<or> \<not> apart a 1 (ino_addr s) 4)"
  by (auto simp: scratch_def bounce_def)

lemma rbuf_run:
  assumes rdy: "fs_ready s" and b: "b < s_blocks (super s)" "b \<noteq> 0" and off: "off < 4096" "off + len \<le> 4096"
    and buf: "apart buf len (disk0_buffer (dev s)) 16384" "apart buf len (sfs_buffer s) 4096"
  shows "\<exists>m'. sfs_rbuf s buf len b (int off) = Some (s\<lparr>machine := m'\<rparr>, 0)
    \<and> (\<forall>a. \<not> bounce s a \<longrightarrow> m' a = blit (machine s) buf (disk_at s b + off) len a)"
proof -
  obtain m1 where m1: "sfs_rwblock_nolock s (sfs_buffer s) b False True = Some (s\<lparr>machine := m1\<rparr>, 0)"
    "\<forall>a. apart a 1 (disk0_buffer (dev s)) 16384 \<longrightarrow> m1 a = blit (machine s) (sfs_buffer s) (disk_at s b) 4096 a"
    using rwblock_run [OF rdy b(1), of True "sfs_buffer s" False] b(2) rdy by (auto simp: fs_ready_def)
  let ?m = "memcpy m1 buf (sfs_buffer s + off) len"
  have "?m a = blit (machine s) buf (disk_at s b + off) len a" if "\<not> bounce s a" for a
  proof (cases "buf \<le> a \<and> a < buf + len")
    case True
    define x where "x = sfs_buffer s + off + (a - buf)"
    have x: "sfs_buffer s \<le> x" "x < sfs_buffer s + 4096" "x - sfs_buffer s = off + (a - buf)"
      using True off by (auto simp: x_def)
    have "apart buf len (sfs_buffer s + off) len" using buf(2) off by (auto simp: apart_def)
    then have "?m a = m1 x" using True by (subst memcpy_apart) (auto simp: x_def)
    also have "\<dots> = machine s (disk_at s b + (off + (a - buf)))"
    proof -
      have "apart x 1 (disk0_buffer (dev s)) 16384" using rdy x by (auto simp: fs_ready_def apart_def)
      then show ?thesis using m1(2) x by (simp add: blit_def)
    qed
    finally show ?thesis using True by (simp add: blit_def add.assoc)
  next
    case False
    then have "?m a = m1 a" using memcpy_frame [of a buf len m1] by auto
    then show ?thesis using m1(2) that False by (auto simp: bounce_def blit_def apart_def)
  qed
  then show ?thesis using m1(1) off by (auto simp: sfs_rbuf_def)
qed

lemma wbuf_run:
  assumes rdy: "fs_ready s" and b: "b < s_blocks (super s)" "b \<noteq> 0" and off: "off < 4096" "off + len \<le> 4096"
    and buf: "apart buf len (disk0_buffer (dev s)) 16384" "apart buf len (sfs_buffer s) 4096"
  shows "\<exists>m'. sfs_wbuf s buf len b (int off) = Some (s\<lparr>machine := m'\<rparr>, 0)
    \<and> (\<forall>a. \<not> bounce s a \<longrightarrow> m' a = blit (machine s) (disk_at s b + off) buf len a)"
proof -
  obtain m1 where m1: "sfs_rwblock_nolock s (sfs_buffer s) b False True = Some (s\<lparr>machine := m1\<rparr>, 0)"
    "\<forall>a. apart a 1 (disk0_buffer (dev s)) 16384 \<longrightarrow> m1 a = blit (machine s) (sfs_buffer s) (disk_at s b) 4096 a"
    using rwblock_run [OF rdy b(1), of True "sfs_buffer s" False] b(2) rdy by (auto simp: fs_ready_def)
  let ?m = "memcpy m1 (sfs_buffer s + off) buf len"
  have ap: "apart (sfs_buffer s + off) len buf len" using buf(2) off by (auto simp: apart_def)
  have m: "?m a = (if sfs_buffer s + off \<le> a \<and> a < sfs_buffer s + off + len then m1 (buf + (a - (sfs_buffer s + off))) else m1 a)" for a
    by (rule memcpy_apart [OF ap])
  obtain m2 where m2: "sfs_rwblock_nolock (s\<lparr>machine := ?m\<rparr>) (sfs_buffer s) b True True = Some (s\<lparr>machine := m2\<rparr>, 0)"
    "\<forall>a. apart a 1 (disk0_buffer (dev s)) 16384 \<longrightarrow> m2 a = blit ?m (disk_at s b) (sfs_buffer s) 4096 a"
    using rwblock_run [of "s\<lparr>machine := ?m\<rparr>" b True "sfs_buffer s" True] rdy b by (auto simp: fs_ready_def)
  have "m2 a = blit (machine s) (disk_at s b + off) buf len a" if a: "\<not> bounce s a" for a
  proof (cases "disk_at s b \<le> a \<and> a < disk_at s b + 4096")
    case True
    then obtain k where k: "a = disk_at s b + k" "k < 4096" by (metis add_less_cancel_left le_Suc_ex)
    let ?x = "sfs_buffer s + k"
    have x: "apart ?x 1 (disk0_buffer (dev s)) 16384" using k rdy by (auto simp: fs_ready_def apart_def)
    have "m2 a = ?m ?x" using m2(2) a k by (auto simp: bounce_def blit_def)
    have "m1 ?x = machine s a" using m1(2) x k by (auto simp: blit_def)
    have "m1 (buf + i) = machine s (buf + i)" if "i < len" for i
    proof -
      have "apart (buf + i) 1 (disk0_buffer (dev s)) 16384" "\<not> (sfs_buffer s \<le> buf + i \<and> buf + i < sfs_buffer s + 4096)"
        using buf that by (auto simp: apart_def)
      then show ?thesis using m1(2) by (auto simp: blit_def)
    qed
    from this [of "k - off"] have mb: "off \<le> k \<Longrightarrow> k < off + len \<Longrightarrow> m1 (buf + k - off) = machine s (buf + k - off)"
      by (simp add: less_diff_conv2 add.commute)
    with \<open>m2 a = ?m ?x\<close> \<open>m1 ?x = machine s a\<close> show ?thesis unfolding m by (auto simp: blit_def k(1))
  next
    case False
    then have "m2 a = ?m a" using m2(2) a by (auto simp: bounce_def blit_def)
    also have "\<dots> = m1 a" using a off unfolding m by (auto simp: bounce_def apart_def)
    also have "\<dots> = machine s a" using m1(2) a by (auto simp: bounce_def blit_def apart_def)
    finally show ?thesis using False off by (auto simp: blit_def)
  qed
  then show ?thesis using m1(1) m2(1) off by (auto simp: sfs_wbuf_def)
qed

subsection \<open>Transfers with the caller, the local, and the whole block\<close>

lemma ino_addr_apart:
  assumes "fs_ready s"
  shows "apart (ino_addr s) 4 (disk0_buffer (dev s)) 16384" "apart (ino_addr s) 4 (sfs_buffer s) 4096"
  using assms by (auto simp: fs_ready_def)

lemma not_scratch: "\<not> scratch s a \<Longrightarrow> \<not> bounce s a \<and> \<not> (ino_addr s \<le> a \<and> a < ino_addr s + 4)"
  by (auto simp: scratch_bounce apart_def)

lemma read_user:
  assumes "fs_ready s" and "b < s_blocks (super s)" "b \<noteq> 0" and "off < 4096" "off + len \<le> 4096" and "user_buf s buf len"
  shows "\<exists>s'. sfs_rbuf s buf len b (int off) = Some (s', 0) \<and> mem_eff s (blit (machine s) buf (disk_at s b + off) len) s'"
  using rbuf_run [OF assms(1-5), of buf] assms(6) by (fastforce simp: user_buf_def mem_eff_def scratch_bounce)

lemma write_user:
  assumes "fs_ready s" and "b < s_blocks (super s)" "b \<noteq> 0" and "off < 4096" "off + len \<le> 4096" and "user_buf s buf len"
  shows "\<exists>s'. sfs_wbuf s buf len b (int off) = Some (s', 0) \<and> mem_eff s (blit (machine s) (disk_at s b + off) buf len) s'"
  using wbuf_run [OF assms(1-5), of buf] assms(6) by (fastforce simp: user_buf_def mem_eff_def scratch_bounce)

lemma read_ino:
  assumes "fs_ready s" and "b < s_blocks (super s)" "b \<noteq> 0" and "off + 4 \<le> 4096"
  shows "\<exists>s'. sfs_rbuf s (ino_addr s) 4 b (int off) = Some (s', 0) \<and> mem_eff s (machine s) s'
    \<and> ld32 (machine s') (ino_addr s) = ld32 (machine s) (disk_at s b + off)"
proof -
  obtain m' where m': "sfs_rbuf s (ino_addr s) 4 b (int off) = Some (s\<lparr>machine := m'\<rparr>, 0)"
    "\<forall>a. \<not> bounce s a \<longrightarrow> m' a = blit (machine s) (ino_addr s) (disk_at s b + off) 4 a"
    using rbuf_run [OF assms(1-3), of off 4 "ino_addr s"] ino_addr_apart [OF assms(1)] assms(4) by auto
  have "mem_eff s (machine s) (s\<lparr>machine := m'\<rparr>)"
    by (rule mem_effI, drule not_scratch) (simp add: m'(2) blit_def, blast)
  moreover have "peek m' (ino_addr s) 4 = peek (machine s) (disk_at s b + off) 4"
  proof (rule peek_shift)
    fix k :: nat assume k: "k < 4"
    then have "\<not> bounce s (ino_addr s + k)" using ino_addr_apart [OF assms(1)] by (auto simp: bounce_def apart_def)
    then show "m' (ino_addr s + k) = machine s (disk_at s b + off + k)" using m'(2) k by (simp add: blit_def)
  qed
  ultimately show ?thesis using m'(1) by (intro exI [of _ "s\<lparr>machine := m'\<rparr>"]) simp
qed

lemma write_ino:
  assumes "fs_ready s" and "b < s_blocks (super s)" "b \<noteq> 0" and "off + 4 \<le> 4096"
  shows "\<exists>s'. sfs_wbuf (s\<lparr>machine := poke (machine s) (ino_addr s) (le32 v)\<rparr>) (ino_addr s) 4 b (int off) = Some (s', 0)
    \<and> mem_eff s (poke (machine s) (disk_at s b + off) (le32 v)) s'"
proof -
  let ?s = "s\<lparr>machine := poke (machine s) (ino_addr s) (le32 v)\<rparr>"
  obtain m' where m': "sfs_wbuf ?s (ino_addr s) 4 b (int off) = Some (?s\<lparr>machine := m'\<rparr>, 0)"
    "\<forall>a. \<not> bounce ?s a \<longrightarrow> m' a = blit (machine ?s) (disk_at s b + off) (ino_addr s) 4 a"
    using wbuf_run [of ?s b off 4 "ino_addr s"] assms ino_addr_apart [OF assms(1)] by auto
  have "m' a = poke (machine s) (disk_at s b + off) (le32 v) a" if "\<not> scratch s a" for a
  proof -
    have "\<not> bounce ?s a" "\<not> (ino_addr s \<le> a \<and> a < ino_addr s + 4)"
      using not_scratch [OF that] by (auto simp: bounce_def)
    then show ?thesis using m'(2) by (auto simp: blit_def poke_def)
  qed
  then show ?thesis using m'(1) by (auto simp: mem_eff_def)
qed

lemma clear_run:
  assumes "fs_ready s" and "b < s_blocks (super s)" "b \<noteq> 0"
  shows "\<exists>s'. sfs_clear_block s b 1 = Some (s', 0) \<and> mem_eff s (poke (machine s) (disk_at s b) (replicate 4096 NUL)) s'"
proof -
  let ?s = "s\<lparr>machine := memset (machine s) (sfs_buffer s) NUL 4096\<rparr>"
  have m: "machine ?s a = (if sfs_buffer s \<le> a \<and> a < sfs_buffer s + 4096 then NUL else machine s a)" for a
    by (simp add: memset_block del: memset.simps)
  obtain m' where m': "sfs_rwblock_nolock ?s (sfs_buffer s) b True True = Some (?s\<lparr>machine := m'\<rparr>, 0)"
    "\<forall>a. apart a 1 (disk0_buffer (dev s)) 16384 \<longrightarrow> m' a = blit (machine ?s) (disk_at s b) (sfs_buffer s) 4096 a"
    using rwblock_run [of ?s b True "sfs_buffer s" True] assms by (auto simp: fs_ready_def simp del: memset.simps)
  have "m' a = poke (machine s) (disk_at s b) (replicate 4096 NUL) a" if "\<not> scratch s a" for a
    using that m'(2) m by (auto simp: blit_def poke_def scratch_def apart_def simp del: memset.simps)
  then show ?thesis using m'(1) by (auto simp: sfs_clear_block_def mem_eff_def numeral_eq_Suc simp del: memset.simps)
qed

text \<open>Whole blocks go directly between the disk and the caller.\<close>

lemma wblock_run:
  assumes "fs_ready s" and "unat b + n \<le> unat (s_blocks (super s))" "b \<noteq> 0" and "user_buf s buf (n * 4096)"
  shows "\<exists>s'. sfs_wblock s buf b n = Some (s', 0) \<and> mem_eff s (blit (machine s) (disk_at s b) buf (n * 4096)) s'"
  using assms
proof (induction n arbitrary: s b buf)
  case 0
  then show ?case by (auto simp: sfs_wblock_def blit_def intro!: mem_eff_refl)
next
  case (Suc n)
  have b: "b < s_blocks (super s)" using Suc.prems(2) by (simp add: word_less_nat_alt)
  have buf: "apart buf 4096 (image s) (image_size s)" "apart buf 4096 (disk0_buffer (dev s)) 16384"
    using Suc.prems(4) by (auto simp: user_buf_def apart_def)
  obtain m1 where m1: "sfs_rwblock_nolock s buf b True True = Some (s\<lparr>machine := m1\<rparr>, 0)"
    "\<forall>a. apart a 1 (disk0_buffer (dev s)) 16384 \<longrightarrow> m1 a = blit (machine s) (disk_at s b) buf 4096 a"
    using rwblock_run [OF Suc.prems(1) b, of True buf True] Suc.prems(3) buf by auto
  show ?case
  proof (cases n)
    case 0
    then show ?thesis using m1 by (fastforce simp: sfs_wblock_def mem_eff_def scratch_def)
  next
    case (Suc n')
    let ?s = "s\<lparr>machine := m1\<rparr>"
    have "unat (b + 1) = unat b + 1"
      using Suc.prems(2) Suc unat_bound [of "s_blocks (super s)"] by (subst unat_add_lem [THEN iffD1]) simp_all
    then have b1: "unat (b + 1) + n \<le> unat (s_blocks (super s))" "b + 1 \<noteq> 0" "disk_at s (b + 1) = disk_at s b + 4096"
      using Suc.prems(2) by (auto simp: disk_at_def)
    have "user_buf s (buf + 4096) (n * 4096)" using Suc.prems(4) by (auto simp: user_buf_def apart_def)
    then obtain s' where s': "sfs_wblock ?s (buf + 4096) (b + 1) n = Some (s', 0)"
      "mem_eff ?s (blit m1 (disk_at s b + 4096) (buf + 4096) (n * 4096)) s'"
      using Suc.IH [of ?s "b + 1" "buf + 4096"] Suc.prems(1) b1 by auto
    have "blit m1 (disk_at s b + 4096) (buf + 4096) (n * 4096) a = blit (machine s) (disk_at s b) buf (Suc n * 4096) a"
      if "\<not> scratch s a" for a
    proof (cases "disk_at s b + 4096 \<le> a \<and> a < disk_at s b + 4096 + n * 4096")
      case True
      define x where "x = buf + (a - disk_at s b)"
      have "buf + 4096 \<le> x" "x < buf + Suc n * 4096" using True by (auto simp: x_def)
      moreover have "image s \<le> disk_at s b" "disk_at s b + 4096 \<le> image s + image_size s"
        using disk_block_bound [OF Suc.prems(1) b] by (auto simp: disk_at_def)
      ultimately have "m1 x = machine s x" using m1(2) Suc.prems(4) by (auto simp: blit_def user_buf_def apart_def)
      then show ?thesis using True by (auto simp: blit_def x_def)
    next
      case False
      then show ?thesis using m1(2) that by (auto simp: blit_def scratch_def)
    qed
    then have "mem_eff s (blit (machine s) (disk_at s b) buf (Suc n * 4096)) s'"
      using s'(2) by (auto simp: mem_eff_def)
    moreover have "sfs_wblock s buf b (Suc n) = Some (s', 0)" using m1(1) s'(1) by (simp add: sfs_wblock_def)
    ultimately show ?thesis by blast
  qed
qed

end
