(* ===== verification/Sfs_Bmap.thy ===== *)
theory Sfs_Bmap
  imports Sfs_Io
begin

section \<open>Block maps of files: \<open>kern/fs/sfs/sfs_inode.c\<close>\<close>

text \<open>
  An inode in memory names its blocks by twelve direct entries and one block of 1024 further ones, which
  stays on the disk. Functions that store through pointers return the stored values; after an error
  nothing has been stored, and the value returned in its place is 0 or the old one.
\<close>

subsection \<open>Inodes\<close>

record sfs_disk_inode =
  din_size :: u32
  din_type :: u16
  din_nlinks :: u16
  din_blocks :: u32
  din_direct :: "u32 list"
  din_indirect :: u32

record sfs_inode =
  din :: sfs_disk_inode
  sin_ino :: u32
  sin_dirty :: bool
  reclaim_count :: int

abbreviation (input) SFS_NDIRECT :: nat where "SFS_NDIRECT \<equiv> 12"
abbreviation (input) SFS_BLK_NENTRY :: nat where "SFS_BLK_NENTRY \<equiv> 1024"
abbreviation (input) SFS_TYPE_FILE :: u16 where "SFS_TYPE_FILE \<equiv> 1"
abbreviation (input) SFS_TYPE_DIR :: u16 where "SFS_TYPE_DIR \<equiv> 2"
abbreviation (input) SFS_TYPE_LINK :: u16 where "SFS_TYPE_LINK \<equiv> 3"

subsection \<open>Blocks of the disk\<close>

definition sfs_block_inuse :: "sfs_fs \<Rightarrow> u32 \<Rightarrow> bool option" where
  "sfs_block_inuse sfs ino =
     (if ino \<noteq> 0 \<and> ino < s_blocks (super sfs)
      then do { t \<leftarrow> bitmap_test (free_map sfs) (unat ino); Some (\<not> t) }
      else None)"

definition sfs_block_alloc :: "sfs_fs \<Rightarrow> (sfs_fs \<times> int \<times> u32 option) option" where
  "sfs_block_alloc sfs =
     do { (fm, ret, i) \<leftarrow> bitmap_alloc (free_map sfs);
          let sfs = sfs\<lparr>free_map := fm\<rparr>;
          if ret \<noteq> 0 then Some (sfs, ret, None)
          else do {
            i \<leftarrow> i;
            let ino = word_of_nat i;
            kassert (s_unused_blocks (super sfs) > 0);
            let sfs = sfs\<lparr>super := (super sfs)\<lparr>s_unused_blocks := s_unused_blocks (super sfs) - 1\<rparr>, super_dirty := True\<rparr>;
            used \<leftarrow> sfs_block_inuse sfs ino;
            kassert used;
            (sfs, ret) \<leftarrow> sfs_clear_block sfs ino 1;
            Some (sfs, ret, Some ino) } }"

definition sfs_block_free :: "sfs_fs \<Rightarrow> u32 \<Rightarrow> sfs_fs option" where
  "sfs_block_free sfs ino =
     do { used \<leftarrow> sfs_block_inuse sfs ino;
          kassert used;
          fm \<leftarrow> bitmap_free (free_map sfs) (unat ino);
          Some (sfs\<lparr>free_map := fm, super := (super sfs)\<lparr>s_unused_blocks := s_unused_blocks (super sfs) + 1\<rparr>,
            super_dirty := True\<rparr>) }"

subsection \<open>The block map\<close>

text \<open>The label \<open>failed_cleanup\<close>, and the part of \<open>sfs_bmap_get_sub_nolock\<close> that makes an entry in block \<open>ent\<close>.\<close>

definition drop_entry_block :: "sfs_fs \<Rightarrow> u32 \<Rightarrow> u32 \<Rightarrow> int \<Rightarrow> (sfs_fs \<times> int \<times> u32 \<times> u32) option" where
  "drop_entry_block sfs entp ent ret =
     do { sfs \<leftarrow> (if ent \<noteq> entp then sfs_block_free sfs ent else Some sfs);
          Some (sfs, ret, entp, 0) }"

definition make_entry :: "sfs_fs \<Rightarrow> u32 \<Rightarrow> u32 \<Rightarrow> int \<Rightarrow> (sfs_fs \<times> int \<times> u32 \<times> u32) option" where
  "make_entry sfs entp ent offset =
     do { (sfs, ret, ino) \<leftarrow> sfs_block_alloc sfs;
          if ret \<noteq> 0 then drop_entry_block sfs entp ent ret
          else do {
            ino \<leftarrow> ino;
            let sfs = sfs\<lparr>machine := poke (machine sfs) (ino_addr sfs) (le32 ino)\<rparr>;
            (sfs, ret) \<leftarrow> sfs_wbuf sfs (ino_addr sfs) 4 ent offset;
            if ret \<noteq> 0 then do { sfs \<leftarrow> sfs_block_free sfs ino; drop_entry_block sfs entp ent ret }
            else Some (sfs, 0, ent, ino) } }"

definition sfs_bmap_get_sub_nolock :: "sfs_fs \<Rightarrow> u32 \<Rightarrow> nat \<Rightarrow> bool \<Rightarrow> (sfs_fs \<times> int \<times> u32 \<times> u32) option" where
  "sfs_bmap_get_sub_nolock sfs entp index create =
     do { kassert (index < SFS_BLK_NENTRY);
          let offset = int (index * 4);
          if entp \<noteq> 0
          then do {
            (sfs, ret) \<leftarrow> sfs_rbuf sfs (ino_addr sfs) 4 entp offset;
            let ino = ld32 (machine sfs) (ino_addr sfs);
            if ret \<noteq> 0 then Some (sfs, ret, entp, 0)
            else if ino \<noteq> 0 \<or> \<not> create then Some (sfs, 0, entp, ino)
            else make_entry sfs entp entp offset }
          else if \<not> create then Some (sfs, 0, entp, 0)
          else do {
            (sfs, ret, ent) \<leftarrow> sfs_block_alloc sfs;
            if ret \<noteq> 0 then Some (sfs, ret, entp, 0)
            else do { ent \<leftarrow> ent; make_entry sfs entp ent offset } } }"

text \<open>The end of \<open>sfs_bmap_get_nolock\<close>, at label \<open>out\<close>.\<close>

definition check_entry :: "sfs_fs \<Rightarrow> sfs_inode \<Rightarrow> u32 \<Rightarrow> (sfs_fs \<times> sfs_inode \<times> int \<times> u32) option" where
  "check_entry sfs sin ino =
     do { used \<leftarrow> (if ino = 0 then Some True else sfs_block_inuse sfs ino);
          kassert used;
          Some (sfs, sin, 0, ino) }"

definition sfs_bmap_get_nolock :: "sfs_fs \<Rightarrow> sfs_inode \<Rightarrow> nat \<Rightarrow> bool \<Rightarrow> (sfs_fs \<times> sfs_inode \<times> int \<times> u32) option" where
  "sfs_bmap_get_nolock sfs sin index create =
     (if index < SFS_NDIRECT
      then (let ino = din_direct (din sin) ! index
            in if ino = 0 \<and> create
               then do {
                 (sfs, ret, ino) \<leftarrow> sfs_block_alloc sfs;
                 if ret \<noteq> 0 then Some (sfs, sin, ret, 0)
                 else do {
                   ino \<leftarrow> ino;
                   check_entry sfs (sin\<lparr>din := (din sin)\<lparr>din_direct := (din_direct (din sin))[index := ino]\<rparr>, sin_dirty := True\<rparr>) ino } }
               else check_entry sfs sin ino)
      else (let index = index - SFS_NDIRECT
            in if index < SFS_BLK_NENTRY
               then do {
                 (sfs, ret, ent, ino) \<leftarrow> sfs_bmap_get_sub_nolock sfs (din_indirect (din sin)) index create;
                 if ret \<noteq> 0 then Some (sfs, sin, ret, 0)
                 else if ent \<noteq> din_indirect (din sin)
                 then do {
                   kassert (din_indirect (din sin) = 0);
                   check_entry sfs (sin\<lparr>din := (din sin)\<lparr>din_indirect := ent\<rparr>, sin_dirty := True\<rparr>) ino }
                 else check_entry sfs sin ino }
               else None))"

definition sfs_bmap_free_sub_nolock :: "sfs_fs \<Rightarrow> u32 \<Rightarrow> nat \<Rightarrow> (sfs_fs \<times> int) option" where
  "sfs_bmap_free_sub_nolock sfs ent index =
     do { used \<leftarrow> sfs_block_inuse sfs ent;
          kassert (used \<and> index < SFS_BLK_NENTRY);
          let offset = int (index * 4);
          (sfs, ret) \<leftarrow> sfs_rbuf sfs (ino_addr sfs) 4 ent offset;
          let ino = ld32 (machine sfs) (ino_addr sfs);
          if ret \<noteq> 0 then Some (sfs, ret)
          else if ino \<noteq> 0
          then do {
            (sfs, ret) \<leftarrow> sfs_wbuf (sfs\<lparr>machine := poke (machine sfs) (ino_addr sfs) (le32 0)\<rparr>) (ino_addr sfs) 4 ent offset;
            if ret \<noteq> 0 then Some (sfs, ret)
            else do { sfs \<leftarrow> sfs_block_free sfs ino; Some (sfs, 0) } }
          else Some (sfs, 0) }"

definition sfs_bmap_free_nolock :: "sfs_fs \<Rightarrow> sfs_inode \<Rightarrow> nat \<Rightarrow> (sfs_fs \<times> sfs_inode \<times> int) option" where
  "sfs_bmap_free_nolock sfs sin index =
     (if index < SFS_NDIRECT
      then (let ino = din_direct (din sin) ! index
            in if ino \<noteq> 0
               then do {
                 sfs \<leftarrow> sfs_block_free sfs ino;
                 Some (sfs, sin\<lparr>din := (din sin)\<lparr>din_direct := (din_direct (din sin))[index := 0]\<rparr>, sin_dirty := True\<rparr>, 0) }
               else Some (sfs, sin, 0))
      else (let index = index - SFS_NDIRECT; ent = din_indirect (din sin)
            in if index < SFS_BLK_NENTRY \<and> ent \<noteq> 0
               then do { (sfs, ret) \<leftarrow> sfs_bmap_free_sub_nolock sfs ent index; Some (sfs, sin, ret) }
               else Some (sfs, sin, 0)))"

definition sfs_bmap_load_nolock :: "sfs_fs \<Rightarrow> sfs_inode \<Rightarrow> nat \<Rightarrow> (sfs_fs \<times> sfs_inode \<times> int \<times> u32) option" where
  "sfs_bmap_load_nolock sfs sin index =
     do { kassert (index \<le> unat (din_blocks (din sin)));
          let create = (index = unat (din_blocks (din sin)));
          (sfs, sin, ret, ino) \<leftarrow> sfs_bmap_get_nolock sfs sin index create;
          if ret \<noteq> 0 then Some (sfs, sin, ret, 0)
          else do {
            used \<leftarrow> sfs_block_inuse sfs ino;
            kassert used;
            Some (sfs, if create then sin\<lparr>din := (din sin)\<lparr>din_blocks := din_blocks (din sin) + 1\<rparr>\<rparr> else sin, 0, ino) } }"

definition sfs_bmap_truncate_nolock :: "sfs_fs \<Rightarrow> sfs_inode \<Rightarrow> (sfs_fs \<times> sfs_inode \<times> int) option" where
  "sfs_bmap_truncate_nolock sfs sin =
     do { kassert (din_blocks (din sin) \<noteq> 0);
          (sfs, sin, ret) \<leftarrow> sfs_bmap_free_nolock sfs sin (unat (din_blocks (din sin) - 1));
          if ret \<noteq> 0 then Some (sfs, sin, ret)
          else Some (sfs, sin\<lparr>din := (din sin)\<lparr>din_blocks := din_blocks (din sin) - 1\<rparr>, sin_dirty := True\<rparr>, 0) }"

subsection \<open>Well-formed file systems and block maps\<close>

text \<open>
  The free blocks are counted in the super block, and block 0 is not one of them; a file's blocks are
  distinct, in use, and all below \<open>blocks\<close>.
\<close>

abbreviation free_blocks :: "sfs_fs \<Rightarrow> nat set" where
  "free_blocks s \<equiv> free_set (free_map s)"

definition fs_inv :: "sfs_fs \<Rightarrow> bool" where
  "fs_inv s = (fs_ready s \<and> bitmap_inv (free_map s) \<and> unat (s_blocks (super s)) \<le> nbits (free_map s)
     \<and> (\<forall>i \<in> free_blocks s. 0 < i \<and> i < unat (s_blocks (super s))) \<and> card (free_blocks s) = unat (s_unused_blocks (super s)))"

definition in_use :: "sfs_fs \<Rightarrow> u32 \<Rightarrow> bool" where
  "in_use s b = (b \<noteq> 0 \<and> b < s_blocks (super s) \<and> unat b \<notin> free_blocks s)"

definition file_entry :: "sfs_fs \<Rightarrow> sfs_disk_inode \<Rightarrow> nat \<Rightarrow> u32" where
  "file_entry s d i =
     (if i < SFS_NDIRECT then din_direct d ! i
      else if din_indirect d \<noteq> 0 \<and> i < SFS_NDIRECT + SFS_BLK_NENTRY
      then ld32 (machine s) (disk_at s (din_indirect d) + (i - SFS_NDIRECT) * 4)
      else 0)"

definition owned :: "sfs_fs \<Rightarrow> sfs_disk_inode \<Rightarrow> u32 list" where
  "owned s d = map (file_entry s d) [0..<unat (din_blocks d)] @ (if din_indirect d \<noteq> 0 then [din_indirect d] else [])"

definition inode_ok :: "sfs_fs \<Rightarrow> sfs_disk_inode \<Rightarrow> bool" where
  "inode_ok s d = (length (din_direct d) = SFS_NDIRECT \<and> unat (din_blocks d) \<le> SFS_NDIRECT + SFS_BLK_NENTRY
     \<and> (\<forall>i. unat (din_blocks d) \<le> i \<longrightarrow> i < SFS_NDIRECT + SFS_BLK_NENTRY \<longrightarrow> file_entry s d i = 0)
     \<and> distinct (owned s d) \<and> (\<forall>b \<in> set (owned s d). in_use s b))"

text \<open>The file system differs at most in its memory, its free map, the count of free blocks and \<open>super_dirty\<close>.\<close>

definition same_fs :: "sfs_fs \<Rightarrow> sfs_fs \<Rightarrow> bool" where
  "same_fs s s' = (dev_table s' = dev_table s \<and> dev s' = dev s \<and> sfs_buffer s' = sfs_buffer s \<and> ino_addr s' = ino_addr s
     \<and> freemap_data s' = freemap_data s \<and> s_magic (super s') = s_magic (super s) \<and> s_blocks (super s') = s_blocks (super s)
     \<and> s_info (super s') = s_info (super s))"

text \<open>Outside the three regions and the blocks of \<open>B\<close>, memory is unchanged.\<close>

definition in_block :: "sfs_fs \<Rightarrow> u32 \<Rightarrow> nat \<Rightarrow> bool" where
  "in_block s b a = (disk_at s b \<le> a \<and> a < disk_at s b + 4096)"

definition keeps :: "sfs_fs \<Rightarrow> u32 set \<Rightarrow> sfs_fs \<Rightarrow> bool" where
  "keeps s B s' = (same_fs s s' \<and> (\<forall>a. \<not> scratch s a \<longrightarrow> (\<forall>b \<in> B. \<not> in_block s b a) \<longrightarrow> machine s' a = machine s a))"

lemma same_fs_refl [simp]: "same_fs s s"
  by (simp add: same_fs_def)

lemma same_fs_upd [simp]: "same_fs s (s\<lparr>machine := m\<rparr>)"
  by (simp add: same_fs_def)

lemma same_fs_trans: "same_fs s s1 \<Longrightarrow> same_fs s1 s2 \<Longrightarrow> same_fs s s2"
  by (simp add: same_fs_def)

lemma same_fsD:
  assumes "same_fs s s'"
  shows "image s' = image s" "image_size s' = image_size s" "disk_at s' = disk_at s" "scratch s' = scratch s"
    "user_buf s' = user_buf s" "fs_ready s' = fs_ready s" "in_block s' = in_block s" "s_blocks (super s') = s_blocks (super s)"
    "ino_addr s' = ino_addr s" "sfs_buffer s' = sfs_buffer s" "dev s' = dev s" "dev_table s' = dev_table s"
  using assms by (auto simp: same_fs_def image_def image_size_def disk_at_def scratch_def user_buf_def fs_ready_def
      in_block_def intro!: ext)

lemma keepsD: "keeps s B s' \<Longrightarrow> same_fs s s'"
  by (simp add: keeps_def)

lemma keeps_refl: "keeps s B s"
  by (simp add: keeps_def)

lemma keeps_mono: "keeps s B s' \<Longrightarrow> B \<subseteq> C \<Longrightarrow> keeps s C s'"
  by (auto simp: keeps_def)

lemma keeps_trans: "keeps s B s1 \<Longrightarrow> keeps s1 C s2 \<Longrightarrow> keeps s (B \<union> C) s2"
  unfolding keeps_def using same_fs_trans same_fsD(4,7) by (metis Un_iff)

lemma keeps_mem_eff: "mem_eff s m s' \<Longrightarrow> (\<And>a. (\<forall>b \<in> B. \<not> in_block s b a) \<Longrightarrow> \<not> scratch s a \<Longrightarrow> m a = machine s a) \<Longrightarrow> keeps s B s'"
  by (auto simp: keeps_def mem_eff_def)

lemma inuse_run: "fs_inv s \<Longrightarrow> b \<noteq> 0 \<Longrightarrow> b < s_blocks (super s) \<Longrightarrow> sfs_block_inuse s b = Some (in_use s b)"
  by (auto simp: sfs_block_inuse_def fs_inv_def in_use_def word_less_nat_alt bm.test_ok)

lemma inuse_same: "fs_inv s \<Longrightarrow> in_use s b \<Longrightarrow> sfs_block_inuse s b = Some True"
  using inuse_run [of s b] by (auto simp: in_use_def)

lemma finite_free: "fs_inv s \<Longrightarrow> finite (free_blocks s)"
  using finite_nat_set_iff_bounded by (auto simp: fs_inv_def)

lemma fs_inv_mem [simp]: "fs_inv (s\<lparr>machine := m\<rparr>) = fs_inv s"
  by (simp add: fs_inv_def)

lemma in_use_mem [simp]: "in_use (s\<lparr>machine := m\<rparr>) = in_use s"
  by (simp add: in_use_def fun_eq_iff)

text \<open>A block that has been allocated is in use, is filled with zeros, and was free before.\<close>

lemma block_alloc_full:
  assumes "fs_inv s" and "free_blocks s = {}"
  shows "sfs_block_alloc s = Some (s, - E_NO_MEM, None)"
proof -
  have "bitmap_alloc (free_map s) = Some (free_map s, - E_NO_MEM, None)"
    using bm.alloc_full assms by (simp add: fs_inv_def)
  then show ?thesis by (simp add: sfs_block_alloc_def)
qed

lemma block_alloc_run:
  assumes inv: "fs_inv s" and ne: "free_blocks s \<noteq> {}"
  shows "\<exists>s' b. sfs_block_alloc s = Some (s', 0, Some b) \<and> fs_inv s' \<and> unat b \<in> free_blocks s
    \<and> free_blocks s' = free_blocks s - {unat b} \<and> in_use s' b \<and> keeps s {b} s'
    \<and> (\<forall>i < 4096. machine s' (disk_at s b + i) = NUL) \<and> s_unused_blocks (super s') = s_unused_blocks (super s) - 1"
proof -
  obtain fm i where fm: "bitmap_alloc (free_map s) = Some (fm, 0, Some i)" "bitmap_inv fm" "i \<in> free_blocks s"
    "free_set fm = free_blocks s - {i}" "nbits fm = nbits (free_map s)"
    using bm.alloc_ok [of "free_map s"] inv ne by (auto simp: fs_inv_def)
  let ?b = "word_of_nat i :: u32"
  have i: "0 < i" "i < unat (s_blocks (super s))" using fm(3) inv by (auto simp: fs_inv_def)
  then have ub: "unat ?b = i" using unat_bound [of "s_blocks (super s)"] by (simp add: unat_of_nat)
  then have b: "?b \<noteq> 0" "?b < s_blocks (super s)" using i by (auto simp: word_less_nat_alt)
  have fin: "finite (free_blocks s)" by (rule finite_free [OF inv])
  have "0 < card (free_blocks s)" using fm(3) fin by (auto simp: card_gt_0_iff)
  then have un: "0 < s_unused_blocks (super s)" "card (free_blocks s) = unat (s_unused_blocks (super s))"
    using inv by (simp_all add: fs_inv_def word_less_nat_alt)
  define u where "u = s_unused_blocks (super s) - 1"
  have u: "unat u = unat (s_unused_blocks (super s)) - 1"
    unfolding u_def using un(1) by (subst unat_sub) (simp_all add: word_le_nat_alt word_less_nat_alt)
  define s1 where "s1 = s\<lparr>free_map := fm, super := (super s)\<lparr>s_unused_blocks := u\<rparr>, super_dirty := True\<rparr>"
  have sm: "same_fs s s1" by (simp add: same_fs_def s1_def)
  have inv1: "fs_inv s1"
    using inv fm un u fin sm same_fsD(6) [OF sm] by (auto simp: fs_inv_def s1_def card_Diff_singleton)
  have use: "in_use s1 ?b" using b fm(4) ub by (simp add: in_use_def s1_def)
  obtain s2 where s2: "sfs_clear_block s1 ?b 1 = Some (s2, 0)" "mem_eff s1 (poke (machine s1) (disk_at s1 ?b) (replicate 4096 NUL)) s2"
    using clear_run [of s1 ?b] inv1 b by (auto simp: fs_inv_def s1_def)
  have run: "sfs_block_alloc s = Some (s2, 0, Some ?b)"
    using fm(1) un(1) inuse_same [OF inv1 use] s2(1) by (simp add: sfs_block_alloc_def s1_def u_def)
  obtain m' where m': "s2 = s1\<lparr>machine := m'\<rparr>" using s2(2) by (rule mem_effE)
  have "keeps s1 {?b} s2"
    by (rule keeps_mem_eff [OF s2(2)]) (auto simp: poke_def in_block_def)
  then have "keeps s {?b} s2" using sm same_fs_trans unfolding keeps_def same_fsD(4,7) [OF sm] by (auto simp: s1_def)
  moreover have "machine s2 (disk_at s ?b + k) = NUL" if "k < 4096" for k
  proof -
    have "\<not> scratch s1 (disk_at s1 ?b + k)" by (rule disk_not_scratch) (use inv1 b that in \<open>auto simp: fs_inv_def s1_def\<close>)
    then have "machine s2 (disk_at s1 ?b + k) = NUL" using mem_effD [OF s2(2)] that by (simp add: poke_def)
    then show ?thesis using same_fsD(3) [OF sm] by simp
  qed
  moreover have "free_blocks s2 = free_blocks s - {i}" "fs_inv s2" "in_use s2 ?b" "s_unused_blocks (super s2) = u"
    using inv1 use by (simp_all only: m' fs_inv_mem in_use_mem) (simp_all add: s1_def fm(4))
  ultimately show ?thesis using run fm(3) unfolding u_def by (metis ub)
qed

lemma block_free_run:
  assumes inv: "fs_inv s" and use: "in_use s b"
  shows "\<exists>s'. sfs_block_free s b = Some s' \<and> fs_inv s' \<and> free_blocks s' = insert (unat b) (free_blocks s)
    \<and> keeps s {} s' \<and> machine s' = machine s"
proof -
  have b: "unat b < unat (s_blocks (super s))" "b \<noteq> 0" "unat b \<notin> free_blocks s"
    using use by (auto simp: in_use_def word_less_nat_alt)
  obtain fm where fm: "bitmap_free (free_map s) (unat b) = Some fm" "bitmap_inv fm" "free_set fm = insert (unat b) (free_blocks s)"
    "nbits fm = nbits (free_map s)"
    using bm.release_ok [of "free_map s" "unat b"] inv b by (auto simp: fs_inv_def)
  define s1 where "s1 = s\<lparr>free_map := fm, super := (super s)\<lparr>s_unused_blocks := s_unused_blocks (super s) + 1\<rparr>, super_dirty := True\<rparr>"
  have sm: "same_fs s s1" by (simp add: same_fs_def s1_def)
  have "insert (unat b) (free_blocks s) \<subseteq> {..<unat (s_blocks (super s))}" using inv b by (auto simp: fs_inv_def)
  then have "card (insert (unat b) (free_blocks s)) \<le> unat (s_blocks (super s))"
    using card_mono [of "{..<unat (s_blocks (super s))}"] by simp
  then have "unat (s_unused_blocks (super s)) + 1 \<le> unat (s_blocks (super s))"
    using inv b finite_free [OF inv] by (simp add: fs_inv_def)
  then have "unat (s_unused_blocks (super s) + 1) = unat (s_unused_blocks (super s)) + 1"
    using unat_bound [of "s_blocks (super s)"] by (subst unat_add_lem [THEN iffD1]) simp_all
  then have "fs_inv s1"
    using inv fm b finite_free [OF inv] same_fsD(6) [OF sm] by (auto simp: fs_inv_def s1_def unat_gt_0)
  moreover have "keeps s {} s1" using sm by (simp add: keeps_def s1_def)
  moreover have "sfs_block_free s b = Some s1" using inuse_same [OF inv use] fm(1) by (simp add: sfs_block_free_def s1_def)
  moreover have "free_blocks s1 = insert (unat b) (free_blocks s)" "machine s1 = machine s" by (simp_all add: s1_def fm(3))
  ultimately show ?thesis by blast
qed

subsection \<open>Looking up a block\<close>

lemma keeps_byte:
  assumes "keeps s B s'" and "fs_ready s" and "b < s_blocks (super s)" and "b \<notin> B" and "k < 4096"
  shows "machine s' (disk_at s b + k) = machine s (disk_at s b + k)"
proof -
  have "\<not> in_block s c (disk_at s b + k)" if "c \<in> B" for c
  proof -
    have "b \<noteq> c" using that assms(4) by blast
    then show ?thesis using disk_at_apart [of b c s] assms(5) by (auto simp: in_block_def)
  qed
  then show ?thesis using assms(1) disk_not_scratch [OF assms(2,3,5)] by (simp add: keeps_def)
qed

lemma entry_keeps:
  assumes "keeps s B s'" and "fs_ready s" and "din_indirect d \<noteq> 0 \<longrightarrow> din_indirect d < s_blocks (super s) \<and> din_indirect d \<notin> B"
  shows "file_entry s' d i = file_entry s d i"
proof (cases "12 \<le> i \<and> din_indirect d \<noteq> 0 \<and> i < 1036")
  case True
  note sm = same_fsD [OF keepsD [OF assms(1)]]
  have "peek (machine s') (disk_at s (din_indirect d) + (i - 12) * 4) 4 = peek (machine s) (disk_at s (din_indirect d) + (i - 12) * 4) 4"
  proof (rule peek_shift)
    fix k :: nat assume "k < 4"
    then have "(i - 12) * 4 + k < 4096" using True by auto
    from keeps_byte [OF assms(1,2) _ _ this] True assms(3)
    show "machine s' (disk_at s (din_indirect d) + (i - 12) * 4 + k) = machine s (disk_at s (din_indirect d) + (i - 12) * 4 + k)"
      by (simp add: add.assoc)
  qed
  then show ?thesis by (simp add: file_entry_def sm)
qed (auto simp: file_entry_def)

lemma inode_okD:
  assumes "inode_ok s d"
  shows "i < unat (din_blocks d) \<Longrightarrow> in_use s (file_entry s d i)" "din_indirect d \<noteq> 0 \<Longrightarrow> in_use s (din_indirect d)"
    "i < unat (din_blocks d) \<Longrightarrow> file_entry s d i \<noteq> 0" "i < unat (din_blocks d) \<Longrightarrow> din_indirect d \<noteq> file_entry s d i"
    "i < unat (din_blocks d) \<Longrightarrow> j < unat (din_blocks d) \<Longrightarrow> file_entry s d i = file_entry s d j \<longleftrightarrow> i = j"
proof -
  show u: "i < unat (din_blocks d) \<Longrightarrow> in_use s (file_entry s d i)" for i
    using assms by (auto simp: inode_ok_def owned_def)
  show "din_indirect d \<noteq> 0 \<Longrightarrow> in_use s (din_indirect d)" using assms by (auto simp: inode_ok_def owned_def)
  show ne: "i < unat (din_blocks d) \<Longrightarrow> file_entry s d i \<noteq> 0" using u [of i] by (simp add: in_use_def)
  show "i < unat (din_blocks d) \<Longrightarrow> din_indirect d \<noteq> file_entry s d i"
    using assms ne by (auto simp: inode_ok_def owned_def split: if_splits)
  have "distinct (map (file_entry s d) [0..<unat (din_blocks d)])" using assms by (simp add: inode_ok_def owned_def)
  then show "i < unat (din_blocks d) \<Longrightarrow> j < unat (din_blocks d) \<Longrightarrow> file_entry s d i = file_entry s d j \<longleftrightarrow> i = j"
    by (auto simp: distinct_map inj_on_def)
qed

lemma inode_ok_bound: "inode_ok s d \<Longrightarrow> i < unat (din_blocks d) \<Longrightarrow> i < 1036"
  by (auto simp: inode_ok_def)

lemma inode_ok_indirect: "inode_ok s d \<Longrightarrow> i < unat (din_blocks d) \<Longrightarrow> 12 \<le> i \<Longrightarrow> din_indirect d \<noteq> 0"
  using inode_okD(3) [of s d i] by (auto simp: file_entry_def)

lemma inode_ok_keeps:
  assumes "inode_ok s d" and "keeps s B s'" and "fs_ready s" and "din_indirect d \<notin> B" and "\<And>b. in_use s b \<Longrightarrow> in_use s' b"
  shows "inode_ok s' d"
proof -
  have "din_indirect d \<noteq> 0 \<longrightarrow> din_indirect d < s_blocks (super s) \<and> din_indirect d \<notin> B"
    using inode_okD(2) [OF assms(1)] assms(4) by (auto simp: in_use_def)
  then have "file_entry s' d = file_entry s d" using entry_keeps [OF assms(2,3)] by (auto intro!: ext)
  then show ?thesis using assms(1,5) unfolding inode_ok_def owned_def by metis
qed

lemma check_entry_run: "fs_inv s \<Longrightarrow> in_use s b \<Longrightarrow> check_entry s sin b = Some (s, sin, 0, b)"
  using inuse_same [of s b] by (simp add: check_entry_def in_use_def)

lemma mem_eff_facts:
  assumes "mem_eff s m s'"
  shows "same_fs s s'" "fs_inv s' = fs_inv s" "in_use s' = in_use s" "free_blocks s' = free_blocks s" "super s' = super s"
    "scratch s' = scratch s" "disk_at s' = disk_at s"
  using assms by (auto simp: mem_eff_def)

lemma get_existing:
  assumes inv: "fs_inv s" and ok: "inode_ok s (din sin)" and i: "i < unat (din_blocks (din sin))"
  shows "\<exists>s'. sfs_bmap_get_nolock s sin i create = Some (s', sin, 0, file_entry s (din sin) i) \<and> mem_eff s (machine s) s'"
proof (cases "i < 12")
  case True
  then show ?thesis using check_entry_run [OF inv inode_okD(1) [OF ok i], of sin] inode_okD(3) [OF ok i]
    by (auto simp: sfs_bmap_get_nolock_def file_entry_def intro!: exI [of _ s] mem_eff_refl)
next
  case False
  let ?e = "din_indirect (din sin)"
  have e: "?e \<noteq> 0" "i < 1036" using inode_ok_indirect [OF ok i] inode_ok_bound [OF ok i] False by simp_all
  then have ub: "?e < s_blocks (super s)" using inode_okD(2) [OF ok] by (simp add: in_use_def)
  have rdy: "fs_ready s" using inv by (simp add: fs_inv_def)
  have bd: "(i - 12) * 4 + 4 \<le> 4096" using e(2) False by arith
  obtain s' where s': "sfs_rbuf s (ino_addr s) 4 ?e (int ((i - 12) * 4)) = Some (s', 0)" "mem_eff s (machine s) s'"
    "ld32 (machine s') (ino_addr s) = ld32 (machine s) (disk_at s ?e + (i - 12) * 4)"
    using read_ino [OF rdy ub e(1) bd] by blast
  have ld: "ld32 (machine s') (ino_addr s') = file_entry s (din sin) i"
    using s'(2,3) False e by (auto simp: file_entry_def mem_eff_def)
  have "check_entry s' sin (file_entry s (din sin) i) = Some (s', sin, 0, file_entry s (din sin) i)"
    using check_entry_run [of s' "file_entry s (din sin) i" sin] mem_eff_facts [OF s'(2)] inv inode_okD(1) [OF ok i] by simp
  then show ?thesis using s'(1,2) ld e False inode_okD(3) [OF ok i]
    by (auto simp: sfs_bmap_get_nolock_def sfs_bmap_get_sub_nolock_def Let_def)
qed

lemma load_existing:
  assumes inv: "fs_inv s" and ok: "inode_ok s (din sin)" and i: "i < unat (din_blocks (din sin))"
  shows "\<exists>s'. sfs_bmap_load_nolock s sin i = Some (s', sin, 0, file_entry s (din sin) i) \<and> mem_eff s (machine s) s'"
proof -
  obtain s' where s': "sfs_bmap_get_nolock s sin i False = Some (s', sin, 0, file_entry s (din sin) i)" "mem_eff s (machine s) s'"
    using get_existing [OF assms] by blast
  have "sfs_block_inuse s' (file_entry s (din sin) i) = Some True"
    using inuse_same mem_eff_facts(2,3) [OF s'(2)] inv inode_okD(1) [OF ok i] by simp
  then show ?thesis using s' i by (auto simp: sfs_bmap_load_nolock_def)
qed

subsection \<open>Adding a block\<close>

text \<open>An entry of a block of entries.\<close>

abbreviation (input) sub_entry :: "sfs_fs \<Rightarrow> u32 \<Rightarrow> nat \<Rightarrow> u32" where
  "sub_entry s ent k \<equiv> ld32 (machine s) (disk_at s ent + k * 4)"

lemma make_entry_run:
  assumes inv: "fs_inv s" and use: "in_use s ent" and k: "k < 1024" and ne: "free_blocks s \<noteq> {}"
  shows "\<exists>s' b. make_entry s entp ent (int (k * 4)) = Some (s', 0, ent, b) \<and> fs_inv s' \<and> unat b \<in> free_blocks s
    \<and> free_blocks s' = free_blocks s - {unat b} \<and> in_use s' b \<and> b \<noteq> ent \<and> keeps s {b, ent} s'
    \<and> (\<forall>i < 4096. machine s' (disk_at s b + i) = NUL)
    \<and> (\<forall>j < 1024. sub_entry s' ent j = (if j = k then b else sub_entry s ent j))"
proof -
  obtain s1 b where s1: "sfs_block_alloc s = Some (s1, 0, Some b)" "fs_inv s1" "unat b \<in> free_blocks s"
    "free_blocks s1 = free_blocks s - {unat b}" "in_use s1 b" "keeps s {b} s1" "\<forall>i < 4096. machine s1 (disk_at s b + i) = NUL"
    using block_alloc_run [OF inv ne] by blast
  note sm = same_fsD [OF keepsD [OF s1(6)]]
  have rdy: "fs_ready s" "fs_ready s1" using inv s1(2) by (simp_all add: fs_inv_def)
  have ent: "ent \<noteq> 0" "ent < s_blocks (super s)" "ent < s_blocks (super s1)" "b \<noteq> ent"
    using use s1(3) sm(8) by (auto simp: in_use_def)
  have b: "b < s_blocks (super s1)" using s1(5) by (simp add: in_use_def)
  have bd: "k * 4 + 4 \<le> 4096" using k by arith
  obtain s2 where s2: "sfs_wbuf (s1\<lparr>machine := poke (machine s1) (ino_addr s1) (le32 b)\<rparr>) (ino_addr s1) 4 ent (int (k * 4)) = Some (s2, 0)"
    "mem_eff s1 (poke (machine s1) (disk_at s1 ent + k * 4) (le32 b)) s2"
    using write_ino [OF rdy(2) ent(3,1) bd] by blast
  have run: "make_entry s entp ent (int (k * 4)) = Some (s2, 0, ent, b)"
    using s1(1) s2(1) by (simp add: make_entry_def)
  have k2: "keeps s1 {ent} s2"
    by (rule keeps_mem_eff [OF s2(2)]) (use bd in \<open>auto simp: in_block_def poke_def\<close>)
  have kp: "keeps s {b, ent} s2" using keeps_trans [OF s1(6) k2] by (simp add: insert_commute)
  note me = mem_eff_facts [OF s2(2)]
  have z: "machine s2 (disk_at s b + i) = NUL" if "i < 4096" for i
    using keeps_byte [OF k2 rdy(2) b _ that] ent(4) s1(7) that sm(3) by simp
  have se: "sub_entry s2 ent j = (if j = k then b else sub_entry s ent j)" if "j < 1024" for j
  proof -
    have byte: "machine s2 (disk_at s ent + j * 4 + x) = poke (machine s1) (disk_at s ent + k * 4) (le32 b) (disk_at s ent + j * 4 + x)" if "x < 4" for x
    proof -
      have "\<not> scratch s1 (disk_at s1 ent + (j * 4 + x))"
        by (rule disk_not_scratch [OF rdy(2) ent(3)]) (use \<open>j < 1024\<close> that in arith)
      then show ?thesis using mem_effD [OF s2(2)] sm(3) by (simp add: add.assoc)
    qed
    have "peek (machine s2) (disk_at s ent + j * 4) 4 = peek (poke (machine s1) (disk_at s ent + k * 4) (le32 b)) (disk_at s ent + j * 4) 4"
      by (rule peek_shift) (rule byte)
    moreover have "peek (machine s1) (disk_at s ent + j * 4) 4 = peek (machine s) (disk_at s ent + j * 4) 4"
    proof (rule peek_shift)
      fix x :: nat assume "x < 4"
      then have "j * 4 + x < 4096" using that by arith
      from keeps_byte [OF s1(6) rdy(1) ent(2) _ this] ent(4)
      show "machine s1 (disk_at s ent + j * 4 + x) = machine s (disk_at s ent + j * 4 + x)" by (simp add: add.assoc)
    qed
    moreover have "j \<noteq> k \<Longrightarrow> peek (poke (machine s1) (disk_at s ent + k * 4) (le32 b)) (disk_at s ent + j * 4) 4
        = peek (machine s1) (disk_at s ent + j * 4) 4"
      by (rule peek_poke_other) auto
    ultimately show ?thesis using sm(3) me(7) by (cases "j = k") simp_all
  qed
  have "fs_inv s2" "free_blocks s2 = free_blocks s - {unat b}" "in_use s2 b" using me(2,3,4) s1(2,4,5) by simp_all
  then show ?thesis using run s1(3) ent(4) kp z se by blast
qed

lemma make_entry_full:
  assumes inv: "fs_inv s" and "free_blocks s = {}" and use: "ent \<noteq> entp \<Longrightarrow> in_use s ent"
  shows "\<exists>s'. make_entry s entp ent off = Some (s', - E_NO_MEM, entp, 0) \<and> fs_inv s' \<and> keeps s {} s'
    \<and> free_blocks s' = free_blocks s \<union> (if ent \<noteq> entp then {unat ent} else {})"
proof (cases "ent = entp")
  case True
  then show ?thesis using inv block_alloc_full [OF inv assms(2)]
    by (auto simp: make_entry_def drop_entry_block_def keeps_refl)
next
  case False
  then show ?thesis using block_alloc_full [OF inv assms(2)] block_free_run [OF inv use [OF False]]
    by (auto simp: make_entry_def drop_entry_block_def)
qed

text \<open>What a successful call with \<open>index = blocks\<close> achieves.\<close>

definition extended :: "sfs_fs \<Rightarrow> sfs_disk_inode \<Rightarrow> sfs_fs \<Rightarrow> sfs_disk_inode \<Rightarrow> u32 \<Rightarrow> bool" where
  "extended s d s' d' b = (fs_inv s' \<and> inode_ok s' d' \<and> unat (din_blocks d') = unat (din_blocks d) + 1
     \<and> din_size d' = din_size d \<and> din_type d' = din_type d \<and> din_nlinks d' = din_nlinks d
     \<and> (din_indirect d' = din_indirect d \<or> din_indirect d = 0 \<and> unat (din_indirect d') \<in> free_blocks s)
     \<and> file_entry s' d' (unat (din_blocks d)) = b \<and> (\<forall>i < unat (din_blocks d). file_entry s' d' i = file_entry s d i)
     \<and> unat b \<in> free_blocks s \<and> free_blocks s' \<subseteq> free_blocks s \<and> card (free_blocks s) \<le> card (free_blocks s') + 2
     \<and> (\<forall>i < 4096. machine s' (disk_at s b + i) = NUL)
     \<and> keeps s ({c. unat c \<in> free_blocks s} \<union> (if din_indirect d = 0 then {} else {din_indirect d})) s')"

lemma extended_ok:
  assumes ok: "inode_ok s d" and len: "length (din_direct d') = 12" and n: "unat (din_blocks d') = unat (din_blocks d) + 1"
    and bd: "unat (din_blocks d) < 1036" and sub: "free_blocks s' \<subseteq> free_blocks s" and sb: "s_blocks (super s') = s_blocks (super s)"
    and old: "\<And>i. i < unat (din_blocks d) \<Longrightarrow> file_entry s' d' i = file_entry s d i"
    and new: "file_entry s' d' (unat (din_blocks d)) = b" and b: "in_use s' b" "unat b \<in> free_blocks s"
    and rest: "\<And>i. unat (din_blocks d) < i \<Longrightarrow> i < 1036 \<Longrightarrow> file_entry s' d' i = 0"
    and ind: "din_indirect d' = din_indirect d
      \<or> din_indirect d = 0 \<and> in_use s' (din_indirect d') \<and> unat (din_indirect d') \<in> free_blocks s \<and> din_indirect d' \<noteq> b"
  shows "inode_ok s' d'"
proof -
  let ?n = "unat (din_blocks d)"
  have use: "in_use s c \<Longrightarrow> in_use s' c \<and> unat c \<notin> free_blocks s" for c using sub sb by (auto simp: in_use_def)
  have "map (file_entry s' d') [0..<?n] = map (file_entry s d) [0..<?n]" using old by simp
  then have "owned s' d' = map (file_entry s d) [0..<?n] @ b # (if din_indirect d' \<noteq> 0 then [din_indirect d'] else [])"
    using n new by (simp add: owned_def)
  moreover have "distinct (map (file_entry s d) [0..<?n])" using ok by (simp add: inode_ok_def owned_def)
  moreover have "c \<in> set (map (file_entry s d) [0..<?n]) \<Longrightarrow> in_use s c \<and> c \<noteq> din_indirect d" for c
    using inode_okD(1,4) [OF ok] by fastforce
  ultimately have "distinct (owned s' d') \<and> (\<forall>c \<in> set (owned s' d'). in_use s' c)"
    using use b ind inode_okD(2) [OF ok] by (auto split: if_splits)
  then show ?thesis using len n bd rest by (simp add: inode_ok_def)
qed

lemma load_from_get:
  assumes "sfs_bmap_get_nolock s sin n True = Some (s', sin', 0, b)" and "n = unat (din_blocks (din sin))" and "fs_inv s'" and "in_use s' b"
  shows "sfs_bmap_load_nolock s sin n = Some (s', sin'\<lparr>din := (din sin')\<lparr>din_blocks := din_blocks (din sin') + 1\<rparr>\<rparr>, 0, b)"
  using assms inuse_same [OF assms(3,4)] by (simp add: sfs_bmap_load_nolock_def)

lemma blocks_plus_1: "unat w < 1036 \<Longrightarrow> unat (w + 1) = unat w + 1" for w :: u32
  by (subst unat_add_lem [THEN iffD1]) simp_all

lemma append_direct:
  assumes inv: "fs_inv s" and ok: "inode_ok s (din sin)" and n: "n = unat (din_blocks (din sin))" "n < 12" and ne: "free_blocks s \<noteq> {}"
  shows "\<exists>s' sin' b. sfs_bmap_load_nolock s sin n = Some (s', sin', 0, b) \<and> extended s (din sin) s' (din sin') b
    \<and> sin_ino sin' = sin_ino sin \<and> reclaim_count sin' = reclaim_count sin"
proof -
  let ?d = "din sin"
  have len: "length (din_direct ?d) = 12" using ok by (simp add: inode_ok_def)
  have z: "i < 1036 \<Longrightarrow> n \<le> i \<Longrightarrow> file_entry s ?d i = 0" for i using ok n(1) by (auto simp: inode_ok_def)
  have d0: "din_direct ?d ! n = 0" using z [of n] n(2) by (simp add: file_entry_def)
  obtain s1 b where s1: "sfs_block_alloc s = Some (s1, 0, Some b)" "fs_inv s1" "unat b \<in> free_blocks s"
    "free_blocks s1 = free_blocks s - {unat b}" "in_use s1 b" "keeps s {b} s1" "\<forall>i < 4096. machine s1 (disk_at s b + i) = NUL"
    using block_alloc_run [OF inv ne] by blast
  have rdy: "fs_ready s" using inv by (simp add: fs_inv_def)
  let ?sin = "sin\<lparr>din := ?d\<lparr>din_direct := (din_direct ?d)[n := b]\<rparr>, sin_dirty := True\<rparr>"
  let ?d' = "?d\<lparr>din_direct := (din_direct ?d)[n := b], din_blocks := din_blocks ?d + 1\<rparr>"
  have "sfs_bmap_get_nolock s sin n True = Some (s1, ?sin, 0, b)"
    using n(2) d0 s1(1) check_entry_run [OF s1(2,5)] by (simp add: sfs_bmap_get_nolock_def)
  from load_from_get [OF this n(1) s1(2,5)]
  have run: "sfs_bmap_load_nolock s sin n = Some (s1, ?sin\<lparr>din := ?d'\<rparr>, 0, b)" by simp
  have ind: "din_indirect ?d \<noteq> 0 \<longrightarrow> din_indirect ?d < s_blocks (super s) \<and> din_indirect ?d \<notin> {b}"
    using inode_okD(2) [OF ok] s1(3) by (auto simp: in_use_def)
  have fe: "file_entry s1 ?d' i = (if i = n then b else file_entry s ?d i)" for i
    using entry_keeps [OF s1(6) rdy ind, of i] n(2) len by (auto simp: file_entry_def)
  have nb: "unat (din_blocks ?d') = n + 1" using blocks_plus_1 n by simp
  have ok': "inode_ok s1 ?d'"
    by (rule extended_ok [OF ok, where b = b]) (use n nb len s1 fe z same_fsD(8) [OF keepsD [OF s1(6)]] in auto)
  have "card (free_blocks s) \<le> card (free_blocks s1) + 2" using finite_free [OF inv] s1(3,4) by simp
  moreover have "keeps s ({c. unat c \<in> free_blocks s} \<union> (if din_indirect ?d = 0 then {} else {din_indirect ?d})) s1"
    by (rule keeps_mono [OF s1(6)]) (use s1(3) in auto)
  ultimately have "extended s ?d s1 ?d' b"
    using s1 ok' nb fe n(1) unfolding extended_def by simp
  then show ?thesis using run by (intro exI [of _ s1] exI [of _ "?sin\<lparr>din := ?d'\<rparr>"] exI [of _ b]) simp
qed

lemma append_indirect:
  assumes inv: "fs_inv s" and ok: "inode_ok s (din sin)" and n: "n = unat (din_blocks (din sin))" "12 \<le> n" "n < 1036"
    and ne: "free_blocks s \<noteq> {}" and ind: "din_indirect (din sin) \<noteq> 0"
  shows "\<exists>s' sin' b. sfs_bmap_load_nolock s sin n = Some (s', sin', 0, b) \<and> extended s (din sin) s' (din sin') b
    \<and> sin_ino sin' = sin_ino sin \<and> reclaim_count sin' = reclaim_count sin"
proof -
  let ?d = "din sin" and ?e = "din_indirect (din sin)"
  have len: "length (din_direct ?d) = 12" using ok by (simp add: inode_ok_def)
  have z: "i < 1036 \<Longrightarrow> n \<le> i \<Longrightarrow> file_entry s ?d i = 0" for i using ok n(1) by (auto simp: inode_ok_def)
  have use: "in_use s ?e" by (rule inode_okD(2) [OF ok ind])
  have rdy: "fs_ready s" and ub: "?e < s_blocks (super s)" using inv use by (auto simp: fs_inv_def in_use_def)
  have bd: "(n - 12) * 4 + 4 \<le> 4096" "n - 12 < 1024" using n(2,3) by arith+
  obtain s1 where s1: "sfs_rbuf s (ino_addr s) 4 ?e (int ((n - 12) * 4)) = Some (s1, 0)" "mem_eff s (machine s) s1"
    "ld32 (machine s1) (ino_addr s) = ld32 (machine s) (disk_at s ?e + (n - 12) * 4)"
    using read_ino [OF rdy ub ind bd(1)] by blast
  have sub: "file_entry s ?d i = sub_entry s ?e (i - 12)" if "12 \<le> i" "i < 1036" for i
    using that ind by (simp add: file_entry_def)
  note me = mem_eff_facts [OF s1(2)]
  have ld: "ld32 (machine s1) (ino_addr s1) = 0" using s1(2,3) sub [of n] z [of n] n by (auto simp: mem_eff_def)
  have k1: "keeps s {} s1" by (rule keeps_mem_eff [OF s1(2)]) simp
  have "fs_inv s1" "in_use s1 ?e" "free_blocks s1 \<noteq> {}" using me(2,3,4) inv use ne by simp_all
  then obtain s2 b where s2: "make_entry s1 ?e ?e (int ((n - 12) * 4)) = Some (s2, 0, ?e, b)" "fs_inv s2" "unat b \<in> free_blocks s1"
    "free_blocks s2 = free_blocks s1 - {unat b}" "in_use s2 b" "b \<noteq> ?e" "keeps s1 {b, ?e} s2"
    "\<forall>i < 4096. machine s2 (disk_at s1 b + i) = NUL"
    "\<forall>j < 1024. sub_entry s2 ?e j = (if j = n - 12 then b else sub_entry s1 ?e j)"
    using make_entry_run [of s1 ?e "n - 12" ?e] bd(2) by blast
  have kp: "keeps s {b, ?e} s2" using keeps_trans [OF k1 s2(7)] by simp
  let ?d' = "?d\<lparr>din_blocks := din_blocks ?d + 1\<rparr>"
  have "sfs_bmap_get_nolock s sin n True = Some (s2, sin, 0, b)"
    using n(2) bd(2) s1(1) s2(1) ld ind check_entry_run [OF s2(2,5)]
    by (simp add: sfs_bmap_get_nolock_def sfs_bmap_get_sub_nolock_def)
  from load_from_get [OF this n(1) s2(2,5)]
  have run: "sfs_bmap_load_nolock s sin n = Some (s2, sin\<lparr>din := ?d'\<rparr>, 0, b)" by simp
  have fe: "file_entry s2 ?d' i = (if i = n then b else file_entry s ?d i)" if i: "i < 1036" for i
  proof (cases "12 \<le> i")
    case True
    have "file_entry s2 ?d' i = sub_entry s2 ?e (i - 12)" using True i ind by (simp add: file_entry_def)
    also have "\<dots> = (if i = n then b else sub_entry s1 ?e (i - 12))" using s2(9) i True n(2) by auto
    also have "sub_entry s1 ?e (i - 12) = file_entry s1 ?d i" using True i ind by (simp add: file_entry_def)
    also have "\<dots> = file_entry s ?d i" by (rule entry_keeps [OF k1 rdy]) (use ub in simp)
    finally show ?thesis .
  next
    case False
    then show ?thesis using n(2) by (simp add: file_entry_def)
  qed
  have nb: "unat (din_blocks ?d') = n + 1" using blocks_plus_1 n by simp
  have fr: "unat b \<in> free_blocks s" "free_blocks s2 = free_blocks s - {unat b}" using s2(3,4) me(4) by simp_all
  have ok': "inode_ok s2 ?d'"
    by (rule extended_ok [OF ok, where b = b]) (use n nb len s2(5) fr fe z same_fsD(8) [OF keepsD [OF kp]] in auto)
  have "card (free_blocks s) \<le> card (free_blocks s2) + 2" using finite_free [OF inv] fr by simp
  moreover have "keeps s ({c. unat c \<in> free_blocks s} \<union> (if ?e = 0 then {} else {?e})) s2"
    by (rule keeps_mono [OF kp]) (use fr ind in auto)
  ultimately have "extended s ?d s2 ?d' b"
    using s2(2,8) fr ok' nb fe n me(7) unfolding extended_def by simp
  then show ?thesis using run by (intro exI [of _ s2] exI [of _ "sin\<lparr>din := ?d'\<rparr>"] exI [of _ b]) simp
qed

lemma append_first_indirect:
  assumes inv: "fs_inv s" and ok: "inode_ok s (din sin)" and n: "n = unat (din_blocks (din sin))" "12 \<le> n" "n < 1036"
    and ne: "2 \<le> card (free_blocks s)" and ind: "din_indirect (din sin) = 0"
  shows "\<exists>s' sin' b. sfs_bmap_load_nolock s sin n = Some (s', sin', 0, b) \<and> extended s (din sin) s' (din sin') b
    \<and> sin_ino sin' = sin_ino sin \<and> reclaim_count sin' = reclaim_count sin"
proof -
  let ?d = "din sin"
  have len: "length (din_direct ?d) = 12" using ok by (simp add: inode_ok_def)
  have n12: "n = 12" using inode_ok_indirect [OF ok, of 12] n ind by (cases "n = 12") auto
  have fin: "finite (free_blocks s)" by (rule finite_free [OF inv])
  have ne0: "free_blocks s \<noteq> {}" using ne by auto
  have rdy: "fs_ready s" using inv by (simp add: fs_inv_def)
  obtain s1 e where s1: "sfs_block_alloc s = Some (s1, 0, Some e)" "fs_inv s1" "unat e \<in> free_blocks s"
    "free_blocks s1 = free_blocks s - {unat e}" "in_use s1 e" "keeps s {e} s1" "\<forall>i < 4096. machine s1 (disk_at s e + i) = NUL"
    using block_alloc_run [OF inv ne0] by blast
  note sm = same_fsD [OF keepsD [OF s1(6)]]
  have "card (free_blocks s1) = card (free_blocks s) - 1" using s1(3,4) fin by simp
  then have ne1: "free_blocks s1 \<noteq> {}" using ne by auto
  have e0: "e \<noteq> 0" using s1(5) by (simp add: in_use_def)
  have se0: "sub_entry s1 e j = 0" if "j < 1024" for j
  proof -
    have "peek (machine s1) (disk_at s1 e + j * 4) 4 = 0"
    proof (rule peek_zero)
      fix x :: nat assume "x < 4"
      then have "j * 4 + x < 4096" using that by arith
      then show "machine s1 (disk_at s1 e + j * 4 + x) = NUL" using s1(7) sm(3) by (simp add: add.assoc)
    qed
    then show ?thesis by simp
  qed
  obtain s2 b where s2: "make_entry s1 0 e (int (0 * 4)) = Some (s2, 0, e, b)" "fs_inv s2" "unat b \<in> free_blocks s1"
    "free_blocks s2 = free_blocks s1 - {unat b}" "in_use s2 b" "b \<noteq> e" "keeps s1 {b, e} s2"
    "\<forall>i < 4096. machine s2 (disk_at s1 b + i) = NUL"
    "\<forall>j < 1024. sub_entry s2 e j = (if j = 0 then b else sub_entry s1 e j)"
    using make_entry_run [OF s1(2,5) _ ne1, of 0 0] by auto
  have kp: "keeps s {b, e} s2" using keeps_trans [OF s1(6) s2(7)] by (simp add: insert_commute)
  let ?sin = "sin\<lparr>din := ?d\<lparr>din_indirect := e\<rparr>, sin_dirty := True\<rparr>"
  let ?d' = "?d\<lparr>din_indirect := e, din_blocks := din_blocks ?d + 1\<rparr>"
  have "sfs_bmap_get_nolock s sin n True = Some (s2, ?sin, 0, b)"
    using n12 s1(1) s2(1) ind e0 check_entry_run [OF s2(2,5)]
    by (simp add: sfs_bmap_get_nolock_def sfs_bmap_get_sub_nolock_def)
  from load_from_get [OF this n(1) s2(2,5)]
  have run: "sfs_bmap_load_nolock s sin n = Some (s2, ?sin\<lparr>din := ?d'\<rparr>, 0, b)" by simp
  have fe: "file_entry s2 ?d' i = (if i < 12 then file_entry s ?d i else if i = 12 then b else 0)" if "i < 1036" for i
    using that e0 s2(9) se0 [of "i - 12"] by (auto simp: file_entry_def)
  have nb: "unat (din_blocks ?d') = n + 1" using blocks_plus_1 n by simp
  have use_e: "in_use s2 e"
    using s1(5) s2(4) same_fsD(8) [OF keepsD [OF s2(7)]] by (auto simp: in_use_def)
  have fr: "unat b \<in> free_blocks s" "free_blocks s2 = free_blocks s - {unat e, unat b}" using s2(3,4) s1(4) by auto
  have ok': "inode_ok s2 ?d'"
    by (rule extended_ok [OF ok, where b = b])
      (use n12 n(1) nb len s2(5,6) fr fe use_e s1(3) ind same_fsD(8) [OF keepsD [OF kp]] in auto)
  have "unat b \<noteq> unat e" using s2(6) by (simp add: word_unat_eq_iff)
  then have "card (free_blocks s) \<le> card (free_blocks s2) + 2"
    using fin fr s1(3) ne by (simp add: card_Diff_subset)
  moreover have "keeps s ({c. unat c \<in> free_blocks s} \<union> (if din_indirect ?d = 0 then {} else {din_indirect ?d})) s2"
    by (rule keeps_mono [OF kp]) (use fr s1(3) in auto)
  ultimately have "extended s ?d s2 ?d' b"
    using s2(2,8) s1(3) fr ok' nb fe n(1) n12 sm(3) ind unfolding extended_def by simp
  then show ?thesis using run by (intro exI [of _ s2] exI [of _ "?sin\<lparr>din := ?d'\<rparr>"] exI [of _ b]) simp
qed

text \<open>One free block is needed, and another when the block of entries is missing.\<close>

definition blocks_needed :: "sfs_disk_inode \<Rightarrow> nat" where
  "blocks_needed d = (if 12 \<le> unat (din_blocks d) \<and> din_indirect d = 0 then 2 else 1)"

lemma load_full:
  assumes inv: "fs_inv s" and ok: "inode_ok s (din sin)" and n: "n = unat (din_blocks (din sin))" "n < 1036"
    and few: "card (free_blocks s) < blocks_needed (din sin)"
  shows "\<exists>s'. sfs_bmap_load_nolock s sin n = Some (s', sin, - E_NO_MEM, 0) \<and> fs_inv s' \<and> free_blocks s' = free_blocks s
    \<and> keeps s {c. unat c \<in> free_blocks s} s'"
proof -
  let ?d = "din sin" and ?e = "din_indirect (din sin)"
  have z: "file_entry s ?d n = 0" using ok n by (auto simp: inode_ok_def)
  have fin: "finite (free_blocks s)" by (rule finite_free [OF inv])
  have rdy: "fs_ready s" using inv by (simp add: fs_inv_def)
  have load: "sfs_bmap_get_nolock s sin n True = Some (s', sin, - E_NO_MEM, 0) \<Longrightarrow>
      sfs_bmap_load_nolock s sin n = Some (s', sin, - E_NO_MEM, 0)" for s'
    using n(1) by (simp add: sfs_bmap_load_nolock_def)
  consider "n < 12" "free_blocks s = {}" | "12 \<le> n" "?e \<noteq> 0" "free_blocks s = {}" | "12 \<le> n" "?e = 0" "free_blocks s = {}"
    | "12 \<le> n" "?e = 0" "card (free_blocks s) = 1"
    using few fin n(1) by (fastforce simp: blocks_needed_def less_2_cases_iff split: if_splits)
  then show ?thesis
  proof cases
    case 1
    then have "din_direct ?d ! n = 0" using z by (simp add: file_entry_def)
    then have "sfs_bmap_get_nolock s sin n True = Some (s, sin, - E_NO_MEM, 0)"
      using 1 block_alloc_full [OF inv 1(2)] by (simp add: sfs_bmap_get_nolock_def)
    from load [OF this] show ?thesis using inv by (auto simp: keeps_refl)
  next
    case 2
    have use: "in_use s ?e" by (rule inode_okD(2) [OF ok 2(2)])
    then have ub: "?e < s_blocks (super s)" by (simp add: in_use_def)
    have bd: "(n - 12) * 4 + 4 \<le> 4096" "n - 12 < 1024" using n(2) 2(1) by arith+
    obtain s1 where s1: "sfs_rbuf s (ino_addr s) 4 ?e (int ((n - 12) * 4)) = Some (s1, 0)" "mem_eff s (machine s) s1"
      "ld32 (machine s1) (ino_addr s) = ld32 (machine s) (disk_at s ?e + (n - 12) * 4)"
      using read_ino [OF rdy ub 2(2) bd(1)] by blast
    note me = mem_eff_facts [OF s1(2)]
    have ld: "ld32 (machine s1) (ino_addr s1) = 0" using s1(2,3) z 2 n by (auto simp: mem_eff_def file_entry_def)
    have k1: "keeps s {} s1" by (rule keeps_mem_eff [OF s1(2)]) simp
    obtain s2 where s2: "make_entry s1 ?e ?e (int ((n - 12) * 4)) = Some (s2, - E_NO_MEM, ?e, 0)" "fs_inv s2" "keeps s1 {} s2"
      "free_blocks s2 = free_blocks s"
      using make_entry_full [of s1 ?e ?e "int ((n - 12) * 4)"] inv me 2(3) by auto
    have "sfs_bmap_get_nolock s sin n True = Some (s2, sin, - E_NO_MEM, 0)"
      using 2 bd(2) s1(1) s2(1) ld by (simp add: sfs_bmap_get_nolock_def sfs_bmap_get_sub_nolock_def)
    from load [OF this] show ?thesis using s2 keeps_trans [OF k1 s2(3)] keeps_mono by (metis empty_subsetI sup.idem)
  next
    case 3
    then have "sfs_bmap_get_nolock s sin n True = Some (s, sin, - E_NO_MEM, 0)"
      using n(2) block_alloc_full [OF inv 3(3)] by (simp add: sfs_bmap_get_nolock_def sfs_bmap_get_sub_nolock_def Let_def)
    from load [OF this] show ?thesis using inv by (auto simp: keeps_refl)
  next
    case 4
    then have ne: "free_blocks s \<noteq> {}" by auto
    obtain s1 e where s1: "sfs_block_alloc s = Some (s1, 0, Some e)" "fs_inv s1" "unat e \<in> free_blocks s"
      "free_blocks s1 = free_blocks s - {unat e}" "in_use s1 e" "keeps s {e} s1"
      using block_alloc_run [OF inv ne] by blast
    have e: "free_blocks s1 = {}" "free_blocks s = {unat e}" "e \<noteq> 0"
      using s1(3-5) 4(3) by (auto simp: in_use_def card_1_singleton_iff)
    obtain s2 where s2: "make_entry s1 0 e (int ((n - 12) * 4)) = Some (s2, - E_NO_MEM, 0, 0)" "fs_inv s2" "keeps s1 {} s2"
      "free_blocks s2 = free_blocks s"
      using make_entry_full [OF s1(2) e(1), of e 0 "int ((n - 12) * 4)"] s1(5) e by auto
    have "sfs_bmap_get_nolock s sin n True = Some (s2, sin, - E_NO_MEM, 0)"
      using 4 n(2) s1(1) s2(1) by (simp add: sfs_bmap_get_nolock_def sfs_bmap_get_sub_nolock_def Let_def)
    moreover have "keeps s {c. unat c \<in> free_blocks s} s2"
      by (rule keeps_mono [OF keeps_trans [OF s1(6) s2(3)]]) (use s1(3) in auto)
    ultimately show ?thesis using load s2(2,4) by blast
  qed
qed

lemma load_append:
  assumes inv: "fs_inv s" and ok: "inode_ok s (din sin)" and n: "n = unat (din_blocks (din sin))" "n < 1036"
    and enough: "blocks_needed (din sin) \<le> card (free_blocks s)"
  shows "\<exists>s' sin' b. sfs_bmap_load_nolock s sin n = Some (s', sin', 0, b) \<and> extended s (din sin) s' (din sin') b
    \<and> sin_ino sin' = sin_ino sin \<and> reclaim_count sin' = reclaim_count sin"
proof -
  have "free_blocks s \<noteq> {}" using enough by (auto simp: blocks_needed_def split: if_splits)
  then show ?thesis
    using append_direct [OF inv ok n(1)] append_indirect [OF inv ok n(1) _ n(2)] append_first_indirect [OF inv ok n(1) _ n(2)]
      enough n(1) not_less [of n 12] by (metis blocks_needed_def)
qed

subsection \<open>Giving up the last block\<close>

lemma truncated_ok:
  assumes ok: "inode_ok s d" and n: "unat (din_blocks d) = Suc n" and d': "unat (din_blocks d') = n" "length (din_direct d') = 12" "din_indirect d' = din_indirect d"
    and b: "free_blocks s' = insert (unat (file_entry s d n)) (free_blocks s)" and sb: "s_blocks (super s') = s_blocks (super s)"
    and fe: "\<And>i. i < 1036 \<Longrightarrow> file_entry s' d' i = (if i = n then 0 else file_entry s d i)"
  shows "inode_ok s' d'"
proof -
  have lt: "i < n \<Longrightarrow> i < 1036" for i using inode_ok_bound [OF ok] n by simp
  have use: "in_use s c \<Longrightarrow> c \<noteq> file_entry s d n \<Longrightarrow> in_use s' c" for c
    using b sb unfolding in_use_def by (metis insert_iff word_unat_eq_iff)
  have m: "map (file_entry s' d') [0..<n] = map (file_entry s d) [0..<n]" using fe lt by simp
  let ?t = "if din_indirect d \<noteq> 0 then [din_indirect d] else []"
  have o: "owned s d = map (file_entry s d) [0..<n] @ file_entry s d n # ?t" using n by (simp add: owned_def)
  have o': "owned s' d' = map (file_entry s d) [0..<n] @ ?t" unfolding owned_def d' m ..
  have "distinct (owned s d)" and all: "\<forall>c \<in> set (owned s d). in_use s c" using ok by (simp_all add: inode_ok_def)
  then have dist: "distinct (map (file_entry s d) [0..<n] @ file_entry s d n # ?t)" unfolding o by blast
  have "file_entry s d n \<notin> set (owned s' d')" "distinct (owned s' d')" "set (owned s' d') \<subseteq> set (owned s d)"
    using dist unfolding o o' by (simp_all only: distinct_append) auto
  then have "distinct (owned s' d') \<and> (\<forall>c \<in> set (owned s' d'). in_use s' c)" using use all by blast
  moreover have "n \<le> i \<Longrightarrow> i < 1036 \<Longrightarrow> file_entry s' d' i = 0" for i
    using fe [of i] ok n by (cases "i = n") (auto simp: inode_ok_def)
  moreover have "n \<le> 1036" using ok n by (simp add: inode_ok_def)
  ultimately show ?thesis using d' by (simp add: inode_ok_def)
qed

definition truncated :: "sfs_fs \<Rightarrow> sfs_disk_inode \<Rightarrow> sfs_fs \<Rightarrow> sfs_disk_inode \<Rightarrow> bool" where
  "truncated s d s' d' = (fs_inv s' \<and> inode_ok s' d' \<and> unat (din_blocks d) = unat (din_blocks d') + 1
     \<and> din_size d' = din_size d \<and> din_type d' = din_type d \<and> din_nlinks d' = din_nlinks d \<and> din_indirect d' = din_indirect d
     \<and> (\<forall>i < unat (din_blocks d'). file_entry s' d' i = file_entry s d i)
     \<and> free_blocks s' = insert (unat (file_entry s d (unat (din_blocks d')))) (free_blocks s)
     \<and> keeps s (if din_indirect d = 0 then {} else {din_indirect d}) s')"

lemma free_sub_run:
  assumes inv: "fs_inv s" and use: "in_use s e" and k: "k < 1024" and b: "sub_entry s e k = b" "in_use s b" "b \<noteq> e"
  shows "\<exists>s'. sfs_bmap_free_sub_nolock s e k = Some (s', 0) \<and> fs_inv s' \<and> keeps s {e} s'
    \<and> free_blocks s' = insert (unat b) (free_blocks s) \<and> (\<forall>j < 1024. sub_entry s' e j = (if j = k then 0 else sub_entry s e j))"
proof -
  have e: "e \<noteq> 0" "e < s_blocks (super s)" and rdy: "fs_ready s" using use inv by (auto simp: in_use_def fs_inv_def)
  have b0: "b \<noteq> 0" using b(2) by (simp add: in_use_def)
  have bd: "k * 4 + 4 \<le> 4096" using k by arith
  obtain s1 where s1: "sfs_rbuf s (ino_addr s) 4 e (int (k * 4)) = Some (s1, 0)" "mem_eff s (machine s) s1"
    "ld32 (machine s1) (ino_addr s) = ld32 (machine s) (disk_at s e + k * 4)"
    using read_ino [OF rdy e(2,1) bd] by blast
  note me = mem_eff_facts [OF s1(2)]
  have k1: "keeps s {} s1" by (rule keeps_mem_eff [OF s1(2)]) simp
  have rdy1: "fs_ready s1" using same_fsD(6) [OF me(1)] rdy by simp
  have e1: "e < s_blocks (super s1)" using e me(5) by simp
  have ia: "ino_addr s1 = ino_addr s" using same_fsD(9) [OF me(1)] .
  obtain s2 where s2: "sfs_wbuf (s1\<lparr>machine := poke (machine s1) (ino_addr s1) (le32 0)\<rparr>) (ino_addr s1) 4 e (int (k * 4)) = Some (s2, 0)"
    "mem_eff s1 (poke (machine s1) (disk_at s1 e + k * 4) (le32 0)) s2"
    using write_ino [OF rdy1 e1 e(1) bd] by blast
  note me2 = mem_eff_facts [OF s2(2)]
  have k2: "keeps s1 {e} s2"
    by (rule keeps_mem_eff [OF s2(2)]) (use bd in \<open>auto simp: in_block_def poke_def\<close>)
  have inv2: "fs_inv s2" "in_use s2 b" using me(2,3) me2(2,3) inv b(2) by simp_all
  obtain s3 where s3: "sfs_block_free s2 b = Some s3" "fs_inv s3" "free_blocks s3 = insert (unat b) (free_blocks s2)"
    "keeps s2 {} s3" "machine s3 = machine s2"
    using block_free_run [OF inv2] by blast
  have ld: "ld32 (machine s1) (ino_addr s1) = b" using s1(3) ia b(1) by simp
  have run: "sfs_bmap_free_sub_nolock s e k = Some (s3, 0)"
    using inuse_same [OF inv use] k s1(1) ld b0 s2(1) s3(1) by (simp add: sfs_bmap_free_sub_nolock_def Let_def)
  have kp: "keeps s {e} s3" using keeps_trans [OF keeps_trans [OF k1 k2] s3(4)] by simp
  have d3: "disk_at s3 = disk_at s" using same_fsD(3) [OF keepsD [OF kp]] .
  have "sub_entry s3 e j = (if j = k then 0 else sub_entry s e j)" if j: "j < 1024" for j
  proof -
    have ns: "\<not> scratch s (disk_at s e + j * 4 + x)" if "x < 4" for x
      using disk_not_scratch [OF rdy e(2), of "j * 4 + x"] j that by (simp add: add.assoc)
    have "machine s3 (disk_at s e + j * 4 + x) = poke (machine s) (disk_at s e + k * 4) (le32 0) (disk_at s e + j * 4 + x)" if "x < 4" for x
      using mem_effD [OF s2(2)] mem_effD [OF s1(2) ns [OF that]] ns [OF that] me(6,7) s3(5) by (simp add: poke_def)
    then have "peek (machine s3) (disk_at s e + j * 4) 4 = peek (poke (machine s) (disk_at s e + k * 4) (le32 0)) (disk_at s e + j * 4) 4"
      by (rule peek_shift)
    moreover have "j \<noteq> k \<Longrightarrow> peek (poke (machine s) (disk_at s e + k * 4) (le32 0)) (disk_at s e + j * 4) 4
        = peek (machine s) (disk_at s e + j * 4) 4"
      by (rule peek_poke_other) auto
    ultimately show ?thesis using d3 ld_le_32 [of "machine s" "disk_at s e + k * 4" 0] by (cases "j = k") simp_all
  qed
  then show ?thesis using run s3(2,3) kp me(4) me2(4) by auto
qed

lemma truncate_run:
  assumes inv: "fs_inv s" and ok: "inode_ok s (din sin)" and n: "unat (din_blocks (din sin)) = Suc n"
  shows "\<exists>s' sin'. sfs_bmap_truncate_nolock s sin = Some (s', sin', 0) \<and> truncated s (din sin) s' (din sin')
    \<and> sin_ino sin' = sin_ino sin \<and> reclaim_count sin' = reclaim_count sin"
proof -
  let ?d = "din sin" and ?e = "din_indirect (din sin)" and ?b = "file_entry s (din sin) n"
  have len: "length (din_direct ?d) = 12" using ok by (simp add: inode_ok_def)
  have n1: "unat (din_blocks ?d - 1) = n" using n by (subst unat_sub) (simp_all add: word_le_nat_alt)
  have nz: "din_blocks ?d \<noteq> 0" using n by auto
  have b: "in_use s ?b" "?b \<noteq> ?e" "?b \<noteq> 0" using inode_okD [OF ok] n by (metis lessI)+
  have rdy: "fs_ready s" using inv by (simp add: fs_inv_def)
  show ?thesis
  proof (cases "n < 12")
    case True
    obtain s1 where s1: "sfs_block_free s ?b = Some s1" "fs_inv s1" "free_blocks s1 = insert (unat ?b) (free_blocks s)"
      "keeps s {} s1"
      using block_free_run [OF inv b(1)] by blast
    let ?d' = "?d\<lparr>din_direct := (din_direct ?d)[n := 0], din_blocks := din_blocks ?d - 1\<rparr>"
    have run: "sfs_bmap_truncate_nolock s sin = Some (s1, sin\<lparr>din := ?d', sin_dirty := True\<rparr>, 0)"
      using nz n1 True b(3) s1(1) by (simp add: sfs_bmap_truncate_nolock_def sfs_bmap_free_nolock_def file_entry_def)
    have ind: "?e \<noteq> 0 \<longrightarrow> ?e < s_blocks (super s) \<and> ?e \<notin> {}" using inode_okD(2) [OF ok] by (auto simp: in_use_def)
    have fe: "file_entry s1 ?d' i = (if i = n then 0 else file_entry s ?d i)" for i
      using entry_keeps [OF s1(4) rdy ind, of i] True len by (auto simp: file_entry_def)
    have "inode_ok s1 ?d'"
      by (rule truncated_ok [OF ok n]) (use n1 len s1(3) fe same_fsD(8) [OF keepsD [OF s1(4)]] in auto)
    then have "truncated s ?d s1 ?d'"
      using s1 n n1 fe keeps_mono [OF s1(4)] by (simp add: truncated_def)
    then show ?thesis using run by (intro exI [of _ s1] exI [of _ "sin\<lparr>din := ?d', sin_dirty := True\<rparr>"]) simp
  next
    case False
    have e: "?e \<noteq> 0" "n < 1036" using inode_ok_indirect [OF ok, of n] inode_ok_bound [OF ok, of n] n False by auto
    have use: "in_use s ?e" by (rule inode_okD(2) [OF ok e(1)])
    have k: "n - 12 < 1024" using e(2) False by arith
    have "sub_entry s ?e (n - 12) = ?b" using False e by (simp add: file_entry_def)
    then obtain s1 where s1: "sfs_bmap_free_sub_nolock s ?e (n - 12) = Some (s1, 0)" "fs_inv s1" "keeps s {?e} s1"
      "free_blocks s1 = insert (unat ?b) (free_blocks s)" "\<forall>j < 1024. sub_entry s1 ?e j = (if j = n - 12 then 0 else sub_entry s ?e j)"
      using free_sub_run [OF inv use k _ b(1,2)] by blast
    let ?d' = "?d\<lparr>din_blocks := din_blocks ?d - 1\<rparr>"
    have run: "sfs_bmap_truncate_nolock s sin = Some (s1, sin\<lparr>din := ?d', sin_dirty := True\<rparr>, 0)"
      using nz n1 False e k s1(1) by (simp add: sfs_bmap_truncate_nolock_def sfs_bmap_free_nolock_def Let_def)
    have fe: "file_entry s1 ?d' i = (if i = n then 0 else file_entry s ?d i)" if "i < 1036" for i
      using that s1(5) e False by (auto simp: file_entry_def)
    have "inode_ok s1 ?d'"
      by (rule truncated_ok [OF ok n]) (use n1 len s1(4) fe same_fsD(8) [OF keepsD [OF s1(3)]] in auto)
    then have "truncated s ?d s1 ?d'"
      using s1(2-4) n n1 fe e by (simp add: truncated_def)
    then show ?thesis using run by (intro exI [of _ s1] exI [of _ "sin\<lparr>din := ?d', sin_dirty := True\<rparr>"]) simp
  qed
qed

end
