(* ===== verification/Sfs_File.thy ===== *)
theory Sfs_File
  imports Sfs_Bmap
begin

section \<open>Reading, writing and resizing files: \<open>kern/fs/sfs/sfs_inode.c\<close>\<close>

text \<open>
  A request is split at block borders: a first part up to the end of its block, whole blocks, and the
  rest. \<open>write\<close> selects the functions the code picks by pointer. The inode is passed along and returned;
  the length moved is the value stored through \<open>alenp\<close>.
\<close>

subsection \<open>Operations\<close>

abbreviation (input) SFS_MAX_FILE_SIZE :: int where "SFS_MAX_FILE_SIZE \<equiv> 0x8000000"

definition sfs_buf_op :: "bool \<Rightarrow> sfs_fs \<Rightarrow> nat \<Rightarrow> nat \<Rightarrow> u32 \<Rightarrow> int \<Rightarrow> (sfs_fs \<times> int) option" where
  "sfs_buf_op write = (if write then sfs_wbuf else sfs_rbuf)"

definition sfs_block_op :: "bool \<Rightarrow> sfs_fs \<Rightarrow> nat \<Rightarrow> u32 \<Rightarrow> nat \<Rightarrow> (sfs_fs \<times> int) option" where
  "sfs_block_op write = (if write then sfs_wblock else sfs_rblock)"

definition io_last :: "bool \<Rightarrow> sfs_fs \<Rightarrow> sfs_inode \<Rightarrow> nat \<Rightarrow> int \<Rightarrow> nat \<Rightarrow> nat \<Rightarrow> (sfs_fs \<times> sfs_inode \<times> int \<times> nat) option" where
  "io_last write sfs sin buf endpos blkno alen =
     (let sz = nat (endpos mod 4096)
      in if sz \<noteq> 0
         then do {
           (sfs, sin, ret, ino) \<leftarrow> sfs_bmap_load_nolock sfs sin blkno;
           if ret \<noteq> 0 then Some (sfs, sin, ret, alen)
           else do {
             (sfs, ret) \<leftarrow> sfs_buf_op write sfs buf sz ino 0;
             if ret \<noteq> 0 then Some (sfs, sin, ret, alen) else Some (sfs, sin, ret, alen + sz) } }
         else Some (sfs, sin, 0, alen))"

text \<open>The whole blocks: the block map is asked for the first one, and its answer is not used.\<close>

definition io_whole :: "bool \<Rightarrow> sfs_fs \<Rightarrow> sfs_inode \<Rightarrow> nat \<Rightarrow> int \<Rightarrow> nat \<Rightarrow> nat \<Rightarrow> nat \<Rightarrow> (sfs_fs \<times> sfs_inode \<times> int \<times> nat) option" where
  "io_whole write sfs sin buf endpos blkno nblks alen =
     (if nblks > 0
      then do {
        (sfs, sin, ret, ino) \<leftarrow> sfs_bmap_load_nolock sfs sin blkno;
        if ret \<noteq> 0 then Some (sfs, sin, ret, alen)
        else do {
          (sfs, ret) \<leftarrow> sfs_block_op write sfs buf (word_of_nat blkno) nblks;
          if ret \<noteq> 0 then Some (sfs, sin, ret, alen)
          else io_last write sfs sin (buf + nblks * 4096) endpos (blkno + nblks) (alen + nblks * 4096) } }
      else io_last write sfs sin buf endpos blkno alen)"

definition io_first :: "bool \<Rightarrow> sfs_fs \<Rightarrow> sfs_inode \<Rightarrow> nat \<Rightarrow> int \<Rightarrow> int \<Rightarrow> (sfs_fs \<times> sfs_inode \<times> int \<times> nat) option" where
  "io_first write sfs sin buf offset endpos =
     (let blkno = nat (offset div 4096);
          nblks = nat (endpos div 4096) - blkno;
          blkoff = offset mod 4096
      in if blkoff \<noteq> 0
         then (let sz = (if nblks \<noteq> 0 then nat (4096 - blkoff) else nat (endpos - offset))
               in do {
                 (sfs, sin, ret, ino) \<leftarrow> sfs_bmap_load_nolock sfs sin blkno;
                 if ret \<noteq> 0 then Some (sfs, sin, ret, 0)
                 else do {
                   (sfs, ret) \<leftarrow> sfs_buf_op write sfs buf sz ino blkoff;
                   if ret \<noteq> 0 then Some (sfs, sin, ret, 0)
                   else if nblks = 0 then Some (sfs, sin, ret, sz)
                   else io_whole write sfs sin (buf + sz) endpos (blkno + 1) (nblks - 1) sz } })
         else io_whole write sfs sin buf endpos blkno nblks 0)"

definition sfs_io_nolock :: "sfs_fs \<Rightarrow> sfs_inode \<Rightarrow> nat \<Rightarrow> int \<Rightarrow> nat \<Rightarrow> bool \<Rightarrow> (sfs_fs \<times> sfs_inode \<times> int \<times> nat) option" where
  "sfs_io_nolock sfs sin buf offset alen write =
     do { kassert (din_type (din sin) \<noteq> SFS_TYPE_DIR);
          let endpos = sint (word_of_int offset + word_of_nat alen :: u64);
          let limit = uint (din_size (din sin));
          if offset < 0 \<or> offset \<ge> SFS_MAX_FILE_SIZE \<or> offset > endpos then Some (sfs, sin, - E_INVAL, 0)
          else if offset = endpos then Some (sfs, sin, 0, 0)
          else do {
            let endpos = (if endpos > SFS_MAX_FILE_SIZE then SFS_MAX_FILE_SIZE else endpos);
            if \<not> write \<and> offset \<ge> limit then Some (sfs, sin, 0, 0)
            else do {
              let endpos = (if \<not> write \<and> endpos > limit then limit else endpos);
              (sfs, sin, ret, alen) \<leftarrow> io_first write sfs sin buf offset endpos;
              let sin = (if offset + int alen > uint (din_size (din sin))
                         then sin\<lparr>din := (din sin)\<lparr>din_size := word_of_int (offset + int alen)\<rparr>, sin_dirty := True\<rparr> else sin);
              Some (sfs, sin, ret, alen) } } }"

definition sfs_io :: "sfs_fs \<Rightarrow> sfs_inode \<Rightarrow> iobuf \<Rightarrow> bool \<Rightarrow> (sfs_fs \<times> sfs_inode \<times> iobuf \<times> int) option" where
  "sfs_io sfs sin iob write =
     do { (sfs, sin, ret, alen) \<leftarrow> sfs_io_nolock sfs sin (io_base iob) (io_offset iob) (io_resid iob) write;
          iob \<leftarrow> (if alen \<noteq> 0 then iobuf_skip iob alen else Some iob);
          Some (sfs, sin, iob, ret) }"

definition sfs_read :: "sfs_fs \<Rightarrow> sfs_inode \<Rightarrow> iobuf \<Rightarrow> (sfs_fs \<times> sfs_inode \<times> iobuf \<times> int) option" where
  "sfs_read sfs sin iob = sfs_io sfs sin iob False"

definition sfs_write :: "sfs_fs \<Rightarrow> sfs_inode \<Rightarrow> iobuf \<Rightarrow> (sfs_fs \<times> sfs_inode \<times> iobuf \<times> int) option" where
  "sfs_write sfs sin iob = sfs_io sfs sin iob True"

text \<open>The loops of \<open>sfs_truncfile\<close>, with \<open>k\<close> blocks to go.\<close>

fun grow_blocks :: "sfs_fs \<Rightarrow> sfs_inode \<Rightarrow> nat \<Rightarrow> nat \<Rightarrow> (sfs_fs \<times> sfs_inode \<times> int) option" where
  "grow_blocks sfs sin nblks 0 = Some (sfs, sin, 0)"
| "grow_blocks sfs sin nblks (Suc k) =
     do { (sfs, sin, ret, ino) \<leftarrow> sfs_bmap_load_nolock sfs sin nblks;
          if ret \<noteq> 0 then Some (sfs, sin, ret) else grow_blocks sfs sin (nblks + 1) k }"

fun shrink_blocks :: "sfs_fs \<Rightarrow> sfs_inode \<Rightarrow> nat \<Rightarrow> (sfs_fs \<times> sfs_inode \<times> int) option" where
  "shrink_blocks sfs sin 0 = Some (sfs, sin, 0)"
| "shrink_blocks sfs sin (Suc k) =
     do { (sfs, sin, ret) \<leftarrow> sfs_bmap_truncate_nolock sfs sin;
          if ret \<noteq> 0 then Some (sfs, sin, ret) else shrink_blocks sfs sin k }"

definition sfs_truncfile :: "sfs_fs \<Rightarrow> sfs_inode \<Rightarrow> int \<Rightarrow> (sfs_fs \<times> sfs_inode \<times> int) option" where
  "sfs_truncfile sfs sin len =
     (if len < 0 \<or> len > SFS_MAX_FILE_SIZE then Some (sfs, sin, - E_INVAL)
      else do {
        let tblks = (nat len + 4095) div 4096;
        let nblks = unat (din_blocks (din sin));
        if uint (din_size (din sin)) = len
        then do { kassert (tblks = nblks); Some (sfs, sin, 0) }
        else do {
          (sfs, sin, ret) \<leftarrow> (if nblks < tblks then grow_blocks sfs sin nblks (tblks - nblks)
                               else if tblks < nblks then shrink_blocks sfs sin (nblks - tblks) else Some (sfs, sin, 0));
          if ret \<noteq> 0 then Some (sfs, sin, ret)
          else do {
            kassert (unat (din_blocks (din sin)) = tblks);
            Some (sfs, sin\<lparr>din := (din sin)\<lparr>din_size := word_of_int len\<rparr>, sin_dirty := True\<rparr>, 0) } } })"

text \<open>\<open>vop_truncate\<close> of a file is \<open>sfs_truncfile\<close>.\<close>

definition sfs_tryseek :: "sfs_fs \<Rightarrow> sfs_inode \<Rightarrow> int \<Rightarrow> (sfs_fs \<times> sfs_inode \<times> int) option" where
  "sfs_tryseek sfs sin pos =
     (if pos < 0 \<or> pos \<ge> SFS_MAX_FILE_SIZE then Some (sfs, sin, - E_INVAL)
      else if pos > uint (din_size (din sin)) then sfs_truncfile sfs sin pos
      else Some (sfs, sin, 0))"

subsection \<open>Contents of a file\<close>

text \<open>Byte \<open>k\<close> of the file's block \<open>i\<close>, and byte \<open>p\<close> of the file.\<close>

definition fbyte :: "sfs_fs \<Rightarrow> sfs_disk_inode \<Rightarrow> nat \<Rightarrow> nat \<Rightarrow> char" where
  "fbyte s d i k = machine s (disk_at s (file_entry s d i) + k)"

definition contents :: "sfs_fs \<Rightarrow> sfs_disk_inode \<Rightarrow> nat \<Rightarrow> char" where
  "contents s d p = fbyte s d (p div 4096) (p mod 4096)"

definition file_ok :: "sfs_fs \<Rightarrow> sfs_disk_inode \<Rightarrow> bool" where
  "file_ok s d = (inode_ok s d \<and> unat (din_blocks d) = (unat (din_size d) + 4095) div 4096)"

text \<open>The blocks an operation on the file may write: its own, and free ones.\<close>

definition reach :: "sfs_fs \<Rightarrow> sfs_disk_inode \<Rightarrow> u32 set" where
  "reach s d = {c. unat c \<in> free_blocks s} \<union> set (owned s d)"

lemma reach_below: "fs_inv s \<Longrightarrow> inode_ok s d \<Longrightarrow> b \<in> reach s d \<Longrightarrow> b < s_blocks (super s)"
  by (auto simp: reach_def fs_inv_def inode_ok_def in_use_def word_less_nat_alt)

lemma keeps_user:
  assumes "keeps s B s'" and "fs_ready s" and "\<And>b. b \<in> B \<Longrightarrow> b < s_blocks (super s)" and "user_buf s buf n" and "i < n"
  shows "machine s' (buf + i) = machine s (buf + i)"
proof -
  have "\<not> scratch s (buf + i)" using assms(4,5) by (auto simp: user_buf_def scratch_def apart_def)
  moreover have "\<not> in_block s b (buf + i)" if "b \<in> B" for b
    using disk_block_bound [OF assms(2) assms(3) [OF that]] assms(4,5)
    by (auto simp: in_block_def disk_at_def user_buf_def apart_def)
  ultimately show ?thesis using assms(1) by (simp add: keeps_def)
qed

text \<open>\<open>s'\<close> and \<open>d'\<close> come from \<open>s\<close> and \<open>d\<close> by operations that stay within what the file may write.\<close>

definition file_step :: "sfs_fs \<Rightarrow> sfs_disk_inode \<Rightarrow> sfs_fs \<Rightarrow> sfs_disk_inode \<Rightarrow> bool" where
  "file_step s d s' d' = (fs_inv s' \<and> inode_ok s' d' \<and> keeps s (reach s d) s' \<and> reach s' d' \<subseteq> reach s d
     \<and> din_type d' = din_type d \<and> din_nlinks d' = din_nlinks d)"

lemma file_step_trans:
  assumes "file_step s d s1 d1" and "file_step s1 d1 s2 d2"
  shows "file_step s d s2 d2"
proof -
  have "keeps s (reach s d \<union> reach s1 d1) s2" using assms keeps_trans by (auto simp: file_step_def)
  moreover have "reach s d \<union> reach s1 d1 = reach s d" using assms(1) by (auto simp: file_step_def)
  ultimately show ?thesis using assms by (auto simp: file_step_def)
qed

lemma file_step_refl: "fs_inv s \<Longrightarrow> inode_ok s d \<Longrightarrow> file_step s d s d"
  by (simp add: file_step_def keeps_refl)

lemma file_stepD:
  assumes "file_step s d s' d'"
  shows "fs_inv s'" "inode_ok s' d'" "same_fs s s'" "disk_at s' = disk_at s" "scratch s' = scratch s" "user_buf s' = user_buf s"
  using assms same_fsD(3-5) [OF keepsD] by (auto simp: file_step_def intro: keepsD)

lemma file_step_user:
  assumes "file_step s d s' d'" and "fs_inv s" and "inode_ok s d" and "user_buf s buf n" and "i < n"
  shows "machine s' (buf + i) = machine s (buf + i)"
  using keeps_user [of s "reach s d" s' buf n i] assms reach_below [OF assms(2,3)] by (simp add: file_step_def fs_inv_def)

lemma owned_reach: "i < unat (din_blocks d) \<Longrightarrow> file_entry s d i \<in> reach s d" "din_indirect d \<noteq> 0 \<Longrightarrow> din_indirect d \<in> reach s d"
  by (auto simp: reach_def owned_def)

lemma extended_step:
  assumes e: "extended s d s' d' b" and inv: "fs_inv s" and ok: "inode_ok s d"
  shows "file_step s d s' d'" "\<And>j k. j \<le> unat (din_blocks d) \<Longrightarrow> k < 4096 \<Longrightarrow>
      fbyte s' d' j k = (if j < unat (din_blocks d) then fbyte s d j k else NUL)"
proof -
  let ?n = "unat (din_blocks d)"
  let ?B = "{c. unat c \<in> free_blocks s} \<union> (if din_indirect d = 0 then {} else {din_indirect d})"
  have f: "fs_inv s'" "inode_ok s' d'" "unat (din_blocks d') = ?n + 1" "din_type d' = din_type d" "din_nlinks d' = din_nlinks d"
    "free_blocks s' \<subseteq> free_blocks s" "unat b \<in> free_blocks s" "file_entry s' d' ?n = b"
    "\<forall>i < ?n. file_entry s' d' i = file_entry s d i" "\<forall>i < 4096. machine s' (disk_at s b + i) = NUL" "keeps s ?B s'"
    using e by (simp_all add: extended_def)
  have "?B \<subseteq> reach s d" by (auto simp: reach_def owned_def)
  then have kp: "keeps s (reach s d) s'" by (rule keeps_mono [OF f(11)])
  have "set (owned s' d') \<subseteq> reach s d"
  proof
    fix c assume c: "c \<in> set (owned s' d')"
    then have use: "in_use s' c" using f(2) by (auto simp: inode_ok_def)
    show "c \<in> reach s d"
    proof (cases "c = din_indirect d'")
      case True
      have "c \<noteq> 0" using use by (simp add: in_use_def)
      moreover have "c = din_indirect d \<or> unat c \<in> free_blocks s" using e True by (auto simp: extended_def)
      ultimately show ?thesis using owned_reach(2) [of d s] by (auto simp: reach_def)
    next
      case False
      then have "c \<in> set (map (file_entry s' d') [0..<?n + 1])"
        using c f(3) by (auto simp: owned_def simp del: upt_Suc split: if_splits)
      then obtain i where "i < ?n + 1" "c = file_entry s' d' i" by (auto simp del: upt_Suc)
      then show ?thesis using f(7,8,9) owned_reach(1) by (cases "i < ?n") (auto simp: reach_def less_Suc_eq)
    qed
  qed
  then show "file_step s d s' d'" using f kp by (auto simp: file_step_def reach_def)
  fix j k :: nat assume "j \<le> ?n" "k < 4096"
  note jk = this
  have da: "disk_at s' = disk_at s" using same_fsD(3) [OF keepsD [OF f(11)]] .
  show "fbyte s' d' j k = (if j < ?n then fbyte s d j k else NUL)"
  proof (cases "j < ?n")
    case True
    note u = inode_okD [OF ok]
    have "file_entry s d j < s_blocks (super s)" "file_entry s d j \<notin> ?B"
      using u(1,4) [OF True] by (auto simp: in_use_def)
    then have "machine s' (disk_at s (file_entry s d j) + k) = machine s (disk_at s (file_entry s d j) + k)"
      using keeps_byte [OF f(11) _ _ _ jk(2)] inv by (simp add: fs_inv_def)
    then show ?thesis using True f(9) da by (simp add: fbyte_def)
  next
    case False
    then show ?thesis using jk f(8,10) da by (simp add: fbyte_def)
  qed
qed

lemma load_any:
  assumes inv: "fs_inv s" and ok: "inode_ok s (din sin)" and i: "i \<le> unat (din_blocks (din sin))" "i < 1036"
    and enough: "i = unat (din_blocks (din sin)) \<longrightarrow> 2 \<le> card (free_blocks s)"
  shows "\<exists>s' sin'. sfs_bmap_load_nolock s sin i = Some (s', sin', 0, file_entry s' (din sin') i)
    \<and> file_step s (din sin) s' (din sin') \<and> din_size (din sin') = din_size (din sin)
    \<and> unat (din_blocks (din sin')) = max (unat (din_blocks (din sin))) (i + 1)
    \<and> (\<forall>j k. j < unat (din_blocks (din sin')) \<longrightarrow> k < 4096 \<longrightarrow>
         fbyte s' (din sin') j k = (if j < unat (din_blocks (din sin)) then fbyte s (din sin) j k else NUL))
    \<and> card (free_blocks s) \<le> card (free_blocks s') + (if i = unat (din_blocks (din sin)) then 2 else 0)"
proof (cases "i < unat (din_blocks (din sin))")
  case True
  let ?d = "din sin"
  obtain s' where s': "sfs_bmap_load_nolock s sin i = Some (s', sin, 0, file_entry s ?d i)" "mem_eff s (machine s) s'"
    using load_existing [OF inv ok True] by blast
  note me = mem_eff_facts [OF s'(2)]
  have k: "keeps s {} s'" by (rule keeps_mem_eff [OF s'(2)]) simp
  have rdy: "fs_ready s" using inv by (simp add: fs_inv_def)
  have u: "din_indirect ?d \<noteq> 0 \<longrightarrow> din_indirect ?d < s_blocks (super s) \<and> din_indirect ?d \<notin> {}"
    using inode_okD(2) [OF ok] by (auto simp: in_use_def)
  have fe: "file_entry s' ?d = file_entry s ?d" by (rule ext) (rule entry_keeps [OF k rdy u])
  have ok': "inode_ok s' ?d" by (rule inode_ok_keeps [OF ok k rdy]) (simp_all add: me(3))
  have "file_step s ?d s' ?d"
    using inv ok' keeps_mono [OF k] me(2,4) fe by (auto simp: file_step_def reach_def owned_def)
  moreover have "fbyte s' ?d j k' = fbyte s ?d j k'" if "j < unat (din_blocks ?d)" "k' < 4096" for j k'
    using keeps_byte [OF k rdy _ _ that(2), of "file_entry s ?d j"] inode_okD(1) [OF ok that(1)] fe me(7)
    by (simp add: fbyte_def in_use_def)
  ultimately show ?thesis using s'(1) fe True me(4) by (intro exI [of _ s'] exI [of _ sin]) simp
next
  case False
  then have n: "i = unat (din_blocks (din sin))" using i by simp
  have "blocks_needed (din sin) \<le> card (free_blocks s)" using enough n by (auto simp: blocks_needed_def)
  then obtain s' sin' b where s': "sfs_bmap_load_nolock s sin i = Some (s', sin', 0, b)" "extended s (din sin) s' (din sin') b"
    using load_append [OF inv ok n i(2)] by blast
  note e = extended_step [OF s'(2) inv ok]
  have f: "file_entry s' (din sin') i = b" "unat (din_blocks (din sin')) = i + 1" "din_size (din sin') = din_size (din sin)"
    "card (free_blocks s) \<le> card (free_blocks s') + 2"
    using s'(2) n by (simp_all add: extended_def)
  show ?thesis using s'(1) e f n by (intro exI [of _ s'] exI [of _ sin']) (simp add: less_Suc_eq_le)
qed

subsection \<open>One part of a request\<close>

lemma write_block:
  assumes inv: "fs_inv s" and ok: "inode_ok s d" and i: "i < unat (din_blocks d)" and off: "off < 4096" "off + len \<le> 4096"
    and buf: "user_buf s buf len"
  shows "\<exists>s'. sfs_wbuf s buf len (file_entry s d i) (int off) = Some (s', 0) \<and> file_step s d s' d
    \<and> free_blocks s' = free_blocks s
    \<and> (\<forall>j k. j < unat (din_blocks d) \<longrightarrow> k < 4096 \<longrightarrow>
         fbyte s' d j k = (if j = i \<and> off \<le> k \<and> k < off + len then machine s (buf + (k - off)) else fbyte s d j k))"
proof -
  let ?b = "file_entry s d i"
  have use: "in_use s ?b" by (rule inode_okD(1) [OF ok i])
  have b: "?b < s_blocks (super s)" "?b \<noteq> 0" using use by (auto simp: in_use_def)
  have rdy: "fs_ready s" using inv by (simp add: fs_inv_def)
  obtain s' where s': "sfs_wbuf s buf len ?b (int off) = Some (s', 0)" "mem_eff s (blit (machine s) (disk_at s ?b + off) buf len) s'"
    using write_user [OF rdy b off buf] by blast
  note me = mem_eff_facts [OF s'(2)]
  have k: "keeps s {?b} s'"
    by (rule keeps_mem_eff [OF s'(2)]) (use off in \<open>auto simp: blit_def in_block_def\<close>)
  have ind: "din_indirect d \<notin> {?b}" using inode_okD(4) [OF ok i] by simp
  have fe: "file_entry s' d = file_entry s d"
    using inode_okD(2) [OF ok] ind by (intro ext entry_keeps [OF k rdy]) (auto simp: in_use_def)
  have ok': "inode_ok s' d" by (rule inode_ok_keeps [OF ok k rdy ind]) (simp add: me(3))
  have "?b \<in> reach s d" by (rule owned_reach(1) [OF i])
  then have "file_step s d s' d"
    using inv ok' keeps_mono [OF k] me(2,4) fe by (auto simp: file_step_def reach_def owned_def)
  moreover have "fbyte s' d j l = (if j = i \<and> off \<le> l \<and> l < off + len then machine s (buf + (l - off)) else fbyte s d j l)"
    if j: "j < unat (din_blocks d)" and l: "l < 4096" for j l
  proof (cases "j = i")
    case True
    have "\<not> scratch s (disk_at s ?b + l)" by (rule disk_not_scratch [OF rdy b(1) l])
    then show ?thesis using mem_effD [OF s'(2)] True fe me(7) by (auto simp: fbyte_def blit_def)
  next
    case False
    have "file_entry s d j \<noteq> ?b" "file_entry s d j < s_blocks (super s)"
      using inode_okD(1,5) [OF ok] j i False by (auto simp: in_use_def)
    then show ?thesis using keeps_byte [OF k rdy _ _ l] False fe me(7) by (simp add: fbyte_def)
  qed
  ultimately show ?thesis using s'(1) me(4) by blast
qed

lemma write_part:
  assumes inv: "fs_inv s" and ok: "inode_ok s (din sin)" and i: "i \<le> unat (din_blocks (din sin))" "i < 1036"
    and enough: "i = unat (din_blocks (din sin)) \<longrightarrow> 2 \<le> card (free_blocks s)" and off: "off < 4096" "off + len \<le> 4096"
    and buf: "user_buf s buf len"
  shows "\<exists>s1 sin' ino s'. sfs_bmap_load_nolock s sin i = Some (s1, sin', 0, ino) \<and> sfs_wbuf s1 buf len ino (int off) = Some (s', 0)
    \<and> file_step s (din sin) s' (din sin') \<and> din_size (din sin') = din_size (din sin)
    \<and> unat (din_blocks (din sin')) = max (unat (din_blocks (din sin))) (i + 1)
    \<and> (\<forall>j k. j < unat (din_blocks (din sin')) \<longrightarrow> k < 4096 \<longrightarrow>
         fbyte s' (din sin') j k = (if j = i \<and> off \<le> k \<and> k < off + len then machine s (buf + (k - off))
           else if j < unat (din_blocks (din sin)) then fbyte s (din sin) j k else NUL))
    \<and> card (free_blocks s) \<le> card (free_blocks s') + (if i = unat (din_blocks (din sin)) then 2 else 0)"
proof -
  obtain s1 sin' where s1: "sfs_bmap_load_nolock s sin i = Some (s1, sin', 0, file_entry s1 (din sin') i)"
    "file_step s (din sin) s1 (din sin')" "din_size (din sin') = din_size (din sin)"
    "unat (din_blocks (din sin')) = max (unat (din_blocks (din sin))) (i + 1)"
    "\<forall>j k. j < unat (din_blocks (din sin')) \<longrightarrow> k < 4096 \<longrightarrow>
         fbyte s1 (din sin') j k = (if j < unat (din_blocks (din sin)) then fbyte s (din sin) j k else NUL)"
    "card (free_blocks s) \<le> card (free_blocks s1) + (if i = unat (din_blocks (din sin)) then 2 else 0)"
    using load_any [OF inv ok i enough] by blast
  note st = file_stepD [OF s1(2)]
  have i': "i < unat (din_blocks (din sin'))" using s1(4) by simp
  have buf': "user_buf s1 buf len" using buf st(6) by simp
  obtain s' where s': "sfs_wbuf s1 buf len (file_entry s1 (din sin') i) (int off) = Some (s', 0)"
    "file_step s1 (din sin') s' (din sin')" "free_blocks s' = free_blocks s1"
    "\<forall>j k. j < unat (din_blocks (din sin')) \<longrightarrow> k < 4096 \<longrightarrow>
         fbyte s' (din sin') j k = (if j = i \<and> off \<le> k \<and> k < off + len then machine s1 (buf + (k - off)) else fbyte s1 (din sin') j k)"
    using write_block [OF st(1,2) i' off buf'] by blast
  have ub: "machine s1 (buf + x) = machine s (buf + x)" if "x < len" for x
    by (rule file_step_user [OF s1(2) inv ok buf that])
  have fb: "fbyte s' (din sin') j k = (if j = i \<and> off \<le> k \<and> k < off + len then machine s (buf + (k - off))
           else if j < unat (din_blocks (din sin)) then fbyte s (din sin) j k else NUL)"
    if "j < unat (din_blocks (din sin'))" "k < 4096" for j k
  proof -
    have "off \<le> k \<Longrightarrow> k < off + len \<Longrightarrow> machine s1 (buf + (k - off)) = machine s (buf + (k - off))"
      by (rule ub) arith
    then show ?thesis using s'(4) s1(5) that by auto
  qed
  have "card (free_blocks s) \<le> card (free_blocks s') + (if i = unat (din_blocks (din sin)) then 2 else 0)"
    using s1(6) s'(3) by simp
  with s1(1,3,4) s'(1) file_step_trans [OF s1(2) s'(2)] fb show ?thesis by blast
qed

text \<open>Memory with \<open>n\<close> bytes from \<open>buf\<close> on replaced.\<close>

definition fill :: "memory \<Rightarrow> nat \<Rightarrow> nat \<Rightarrow> (nat \<Rightarrow> char) \<Rightarrow> memory" where
  "fill m buf n f = (\<lambda>a. if buf \<le> a \<and> a < buf + n then f (a - buf) else m a)"

lemma fill_effect:
  assumes inv: "fs_inv s" and ok: "inode_ok s d" and buf: "user_buf s buf n" and me: "mem_eff s (fill (machine s) buf n f) s'"
  shows "fs_inv s'" "inode_ok s' d" "i < unat (din_blocks d) \<Longrightarrow> k < 4096 \<Longrightarrow> fbyte s' d i k = fbyte s d i k"
proof -
  note mf = mem_eff_facts [OF me]
  have rdy: "fs_ready s" using inv by (simp add: fs_inv_def)
  have byte: "machine s' (disk_at s b + k) = machine s (disk_at s b + k)" if "b < s_blocks (super s)" "k < 4096" for b k
  proof -
    have "\<not> (buf \<le> disk_at s b + k \<and> disk_at s b + k < buf + n)"
      using disk_block_bound [OF rdy that(1)] that(2) buf by (auto simp: user_buf_def apart_def disk_at_def)
    moreover have "machine s' (disk_at s b + k) = fill (machine s) buf n f (disk_at s b + k)"
      by (rule mem_effD [OF me disk_not_scratch [OF rdy that]])
    ultimately show ?thesis unfolding fill_def by presburger
  qed
  show "fs_inv s'" using inv mf(2) by simp
  have fe: "file_entry s' d i = file_entry s d i" for i
  proof (cases "12 \<le> i \<and> din_indirect d \<noteq> 0 \<and> i < 1036")
    case True
    then have ub: "din_indirect d < s_blocks (super s)" using inode_okD(2) [OF ok] by (simp add: in_use_def)
    have "peek (machine s') (disk_at s (din_indirect d) + (i - 12) * 4) 4 = peek (machine s) (disk_at s (din_indirect d) + (i - 12) * 4) 4"
    proof (rule peek_shift)
      fix x :: nat assume "x < 4"
      then have "(i - 12) * 4 + x < 4096" using True by arith
      from byte [OF ub this] show "machine s' (disk_at s (din_indirect d) + (i - 12) * 4 + x) = machine s (disk_at s (din_indirect d) + (i - 12) * 4 + x)"
        by (simp add: add.assoc)
    qed
    then show ?thesis using mf(7) by (simp add: file_entry_def)
  qed (auto simp: file_entry_def)
  have "owned s' d = owned s d" by (simp add: owned_def fe)
  then show "inode_ok s' d" using ok mf(3) unfolding inode_ok_def fe by simp
  show "i < unat (din_blocks d) \<Longrightarrow> k < 4096 \<Longrightarrow> fbyte s' d i k = fbyte s d i k"
    using byte inode_okD(1) [OF ok] fe mf(7) by (simp add: fbyte_def in_use_def)
qed

lemma read_part:
  assumes inv: "fs_inv s" and ok: "inode_ok s (din sin)" and i: "i < unat (din_blocks (din sin))"
    and off: "off < 4096" "off + len \<le> 4096" and buf: "user_buf s buf len"
  shows "\<exists>s1 ino s'. sfs_bmap_load_nolock s sin i = Some (s1, sin, 0, ino) \<and> sfs_rbuf s1 buf len ino (int off) = Some (s', 0)
    \<and> mem_eff s (fill (machine s) buf len (\<lambda>k. fbyte s (din sin) i (off + k))) s'"
proof -
  let ?b = "file_entry s (din sin) i"
  have b: "?b < s_blocks (super s)" "?b \<noteq> 0" using inode_okD(1) [OF ok i] by (auto simp: in_use_def)
  have rdy: "fs_ready s" using inv by (simp add: fs_inv_def)
  obtain s1 where s1: "sfs_bmap_load_nolock s sin i = Some (s1, sin, 0, ?b)" "mem_eff s (machine s) s1"
    using load_existing [OF inv ok i] by blast
  note me = mem_eff_facts [OF s1(2)]
  have h: "fs_ready s1" "?b < s_blocks (super s1)" "user_buf s1 buf len"
    using same_fsD(5,6,8) [OF me(1)] rdy b(1) buf by simp_all
  obtain s' where s': "sfs_rbuf s1 buf len ?b (int off) = Some (s', 0)" "mem_eff s1 (blit (machine s1) buf (disk_at s1 ?b + off) len) s'"
    using read_user [OF h(1,2) b(2) off h(3)] by blast
  have "blit (machine s1) buf (disk_at s1 ?b + off) len a = fill (machine s) buf len (\<lambda>k. fbyte s (din sin) i (off + k)) a"
    if "\<not> scratch s a" for a
  proof (cases "buf \<le> a \<and> a < buf + len")
    case True
    then have "off + (a - buf) < 4096" using off by arith
    from mem_effD [OF s1(2) disk_not_scratch [OF rdy b(1) this]] True me(7) show ?thesis
      by (simp add: blit_def fill_def fbyte_def add.assoc)
  next
    case False
    then show ?thesis using mem_effD [OF s1(2) that] unfolding blit_def fill_def by presburger
  qed
  then have "mem_eff s (fill (machine s) buf len (\<lambda>k. fbyte s (din sin) i (off + k))) s'"
    using s'(2) s1(2) by (auto simp: mem_eff_def)
  then show ?thesis using s1(1) s'(1) by blast
qed

end
