(* ===== verification/Sfs_Request.thy ===== *)
theory Sfs_Request
  imports Sfs_File
begin

section \<open>What file requests do: \<open>sfs_io_nolock\<close> and \<open>sfs_truncfile\<close>\<close>

text \<open>
  The lemmas follow a request through its parts; the properties state its effect on the contents of the file.
\<close>

subsection \<open>Requests\<close>

lemma nat_div_mod [simp]:
  "nat (int a div 4096) = a div 4096" "nat (int a mod 4096) = a mod 4096" "(int a mod 4096 = 0) = (a mod 4096 = 0)"
proof -
  have "int a div 4096 = int (a div 4096)" "int a mod 4096 = int (a mod 4096)" by (simp_all add: of_nat_div of_nat_mod)
  then show "nat (int a div 4096) = a div 4096" "nat (int a mod 4096) = a mod 4096" "(int a mod 4096 = 0) = (a mod 4096 = 0)"
    by simp_all
qed

lemma div_mod_add:
  fixes pos k :: nat
  assumes "pos mod 4096 + k < 4096"
  shows "(pos + k) div 4096 = pos div 4096" "(pos + k) mod 4096 = pos mod 4096 + k"
proof -
  have e: "pos + k = (pos mod 4096 + k) + pos div 4096 * 4096" by simp
  show "(pos + k) div 4096 = pos div 4096" by (subst e, subst div_mult_self1) (use assms in simp_all)
  show "(pos + k) mod 4096 = pos mod 4096 + k" by (subst e, subst mod_mult_self1) (use assms in simp)
qed

lemma in_part:
  fixes pos len p :: nat
  assumes "pos mod 4096 + len \<le> 4096"
  shows "(p div 4096 = pos div 4096 \<and> pos mod 4096 \<le> p mod 4096 \<and> p mod 4096 < pos mod 4096 + len) = (pos \<le> p \<and> p < pos + len)"
    and "p div 4096 = pos div 4096 \<Longrightarrow> pos mod 4096 \<le> p mod 4096 \<Longrightarrow> p mod 4096 - pos mod 4096 = p - pos"
proof -
  have p: "p = p div 4096 * 4096 + p mod 4096" "pos = pos div 4096 * 4096 + pos mod 4096" by simp_all
  show "p div 4096 = pos div 4096 \<Longrightarrow> pos mod 4096 \<le> p mod 4096 \<Longrightarrow> p mod 4096 - pos mod 4096 = p - pos"
    using p by linarith
  show "(p div 4096 = pos div 4096 \<and> pos mod 4096 \<le> p mod 4096 \<and> p mod 4096 < pos mod 4096 + len) = (pos \<le> p \<and> p < pos + len)"
  proof
    assume a: "pos \<le> p \<and> p < pos + len"
    then have "pos mod 4096 + (p - pos) < 4096" using assms by linarith
    from div_mod_add [OF this] a have "p div 4096 = pos div 4096" "p mod 4096 = pos mod 4096 + (p - pos)" by simp_all
    moreover have "p - pos < len" using a by linarith
    ultimately show "p div 4096 = pos div 4096 \<and> pos mod 4096 \<le> p mod 4096 \<and> p mod 4096 < pos mod 4096 + len" by linarith
  qed (use p in linarith)
qed

lemma write_piece:
  assumes inv: "fs_inv s" and ok: "inode_ok s (din sin)" and i: "pos div 4096 \<le> unat (din_blocks (din sin))" "pos div 4096 < 1036"
    and enough: "2 \<le> card (free_blocks s)" and len: "pos mod 4096 + len \<le> 4096" and buf: "user_buf s buf len"
  shows "\<exists>s1 sin' ino s'. sfs_bmap_load_nolock s sin (pos div 4096) = Some (s1, sin', 0, ino)
    \<and> sfs_wbuf s1 buf len ino (int (pos mod 4096)) = Some (s', 0)
    \<and> file_step s (din sin) s' (din sin') \<and> din_size (din sin') = din_size (din sin)
    \<and> unat (din_blocks (din sin')) = max (unat (din_blocks (din sin))) (pos div 4096 + 1)
    \<and> (\<forall>p. p div 4096 < unat (din_blocks (din sin')) \<longrightarrow>
         contents s' (din sin') p = (if pos \<le> p \<and> p < pos + len then machine s (buf + (p - pos))
           else if p div 4096 < unat (din_blocks (din sin)) then contents s (din sin) p else NUL))
    \<and> card (free_blocks s) \<le> card (free_blocks s') + (if pos div 4096 = unat (din_blocks (din sin)) then 2 else 0)"
proof -
  have off: "pos mod 4096 < 4096" by simp
  from write_part [OF inv ok i _ off len buf] enough obtain s1 sin' ino s' where
    w: "sfs_bmap_load_nolock s sin (pos div 4096) = Some (s1, sin', 0, ino)" "sfs_wbuf s1 buf len ino (int (pos mod 4096)) = Some (s', 0)"
      "file_step s (din sin) s' (din sin')" "din_size (din sin') = din_size (din sin)"
      "unat (din_blocks (din sin')) = max (unat (din_blocks (din sin))) (pos div 4096 + 1)"
      "\<forall>j k. j < unat (din_blocks (din sin')) \<longrightarrow> k < 4096 \<longrightarrow>
         fbyte s' (din sin') j k = (if j = pos div 4096 \<and> pos mod 4096 \<le> k \<and> k < pos mod 4096 + len then machine s (buf + (k - pos mod 4096))
           else if j < unat (din_blocks (din sin)) then fbyte s (din sin) j k else NUL)"
      "card (free_blocks s) \<le> card (free_blocks s') + (if pos div 4096 = unat (din_blocks (din sin)) then 2 else 0)"
    by blast
  have "contents s' (din sin') p = (if pos \<le> p \<and> p < pos + len then machine s (buf + (p - pos))
           else if p div 4096 < unat (din_blocks (din sin)) then contents s (din sin) p else NUL)"
    if "p div 4096 < unat (din_blocks (din sin'))" for p
  proof -
    have "p mod 4096 < 4096" by simp
    note w(6) [rule_format, OF that this]
    then show ?thesis unfolding contents_def using in_part [OF len, of p] by presburger
  qed
  with w(1-5,7) show ?thesis by blast
qed

lemma read_piece:
  assumes inv: "fs_inv s" and ok: "inode_ok s (din sin)" and i: "pos div 4096 < unat (din_blocks (din sin))"
    and len: "pos mod 4096 + len \<le> 4096" and buf: "user_buf s buf len"
  shows "\<exists>s1 ino s'. sfs_bmap_load_nolock s sin (pos div 4096) = Some (s1, sin, 0, ino)
    \<and> sfs_rbuf s1 buf len ino (int (pos mod 4096)) = Some (s', 0)
    \<and> mem_eff s (fill (machine s) buf len (\<lambda>k. contents s (din sin) (pos + k))) s'"
proof -
  have off: "pos mod 4096 < 4096" by simp
  have "fill (machine s) buf len (\<lambda>k. fbyte s (din sin) (pos div 4096) (pos mod 4096 + k))
      = fill (machine s) buf len (\<lambda>k. contents s (din sin) (pos + k))"
  proof (rule ext)
    fix a
    have "k < len \<Longrightarrow> (pos + k) div 4096 = pos div 4096 \<and> (pos + k) mod 4096 = pos mod 4096 + k" for k
      using len div_mod_add [of pos k] by simp
    from this [of "a - buf"] show "fill (machine s) buf len (\<lambda>k. fbyte s (din sin) (pos div 4096) (pos mod 4096 + k)) a
        = fill (machine s) buf len (\<lambda>k. contents s (din sin) (pos + k)) a"
      by (auto simp: fill_def contents_def)
  qed
  then show ?thesis using read_part [OF inv ok i off len buf] by simp
qed

lemma ceil_blocks:
  fixes q x :: nat
  assumes "q * 4096 < x" and "x \<le> q * 4096 + 4096"
  shows "(x + 4095) div 4096 = q + 1"
proof -
  define k where "k = x - q * 4096 - 1"
  have "x + 4095 = k + (q + 1) * 4096" "k < 4096" using assms by (simp_all add: k_def)
  then show ?thesis by (simp only: div_mult_self1)
qed

lemma pos_parts: "pos = pos div 4096 * 4096 + pos mod 4096" "pos mod 4096 < 4096" for pos :: nat
  by simp_all

text \<open>A request with no whole block in it.\<close>

definition no_whole_block :: "nat \<Rightarrow> nat \<Rightarrow> bool" where
  "no_whole_block pos n = ((pos + n) div 4096 \<le> (pos + 4095) div 4096)"

lemma split_cases:
  assumes "no_whole_block pos n" and "0 < n"
  obtains "pos mod 4096 \<noteq> 0" "(pos + n) div 4096 = pos div 4096" "pos mod 4096 + n \<le> 4096"
  | "pos mod 4096 \<noteq> 0" "(pos + n) div 4096 = pos div 4096 + 1" "n = (4096 - pos mod 4096) + (pos + n) mod 4096"
    "pos + (4096 - pos mod 4096) = (pos div 4096 + 1) * 4096"
  | "pos mod 4096 = 0" "(pos + n) div 4096 = pos div 4096" "(pos + n) mod 4096 = n" "n < 4096"
proof -
  define q r where "q = pos div 4096" and "r = pos mod 4096"
  define q' r' where "q' = (pos + n) div 4096" and "r' = (pos + n) mod 4096"
  have e: "pos = q * 4096 + r" "pos + n = q' * 4096 + r'" "r < 4096" "r' < 4096" by (simp_all add: q_def r_def q'_def r'_def)
  have "(pos + 4095) div 4096 = (if r = 0 then q else q + 1)"
  proof -
    have "pos + 4095 = (r + 4095) + q * 4096" using e(1) by simp
    then have "(pos + 4095) div 4096 = q + (r + 4095) div 4096" by (simp only: div_mult_self1)
    moreover have "(r + 4095) div 4096 = (if r = 0 then 0 else 1)" using e(3) by (auto simp: div_if)
    ultimately show ?thesis by simp
  qed
  then have le: "q' \<le> (if r = 0 then q else q + 1)" using assms(1) by (simp add: no_whole_block_def q'_def)
  have ge: "q \<le> q'" unfolding q_def q'_def by (rule div_le_mono) simp
  have "q' = q \<or> q' = q + 1 \<and> r \<noteq> 0" using le ge by (cases "r = 0") auto
  then consider "r \<noteq> 0" "q' = q" | "r \<noteq> 0" "q' = q + 1" | "r = 0" "q' = q" by blast
  then show thesis
  proof cases
    case 1 then show thesis using that(1) e unfolding q_def [symmetric] r_def [symmetric] q'_def [symmetric] by auto
  next
    case 2 then show thesis using that(2) e unfolding q_def [symmetric] r_def [symmetric] q'_def [symmetric] r'_def [symmetric] by auto
  next
    case 3 then show thesis using that(3) e unfolding q_def [symmetric] r_def [symmetric] q'_def [symmetric] r'_def [symmetric] by auto
  qed
qed

lemma user_buf_part: "user_buf s buf n \<Longrightarrow> a + k \<le> n \<Longrightarrow> user_buf s (buf + a) k"
  by (auto simp: user_buf_def apart_def)

definition written :: "sfs_fs \<Rightarrow> sfs_disk_inode \<Rightarrow> sfs_fs \<Rightarrow> sfs_disk_inode \<Rightarrow> nat \<Rightarrow> nat \<Rightarrow> nat \<Rightarrow> bool" where
  "written s d s' d' buf pos n = (file_step s d s' d' \<and> din_size d' = din_size d
     \<and> unat (din_blocks d') = max (unat (din_blocks d)) ((pos + n + 4095) div 4096)
     \<and> (\<forall>p. p div 4096 < unat (din_blocks d') \<longrightarrow>
          contents s' d' p = (if pos \<le> p \<and> p < pos + n then machine s (buf + (p - pos))
            else if p div 4096 < unat (din_blocks d) then contents s d p else NUL)))"

lemma io_last_write:
  assumes inv: "fs_inv s" and ok: "inode_ok s (din sin)" and pos: "pos mod 4096 = 0" and n: "0 < n" "n < 4096"
    and i: "pos div 4096 \<le> unat (din_blocks (din sin))" "pos div 4096 < 1036"
    and enough: "2 \<le> card (free_blocks s)" and buf: "user_buf s buf n" and e: "endpos = int (pos + n)"
  shows "\<exists>s' sin'. io_last True s sin buf endpos (pos div 4096) al = Some (s', sin', 0, al + n)
    \<and> written s (din sin) s' (din sin') buf pos n"
proof -
  have m: "(pos + n) mod 4096 = n" using div_mod_add(2) [of pos n] pos n by simp
  have len: "pos mod 4096 + n \<le> 4096" using pos n by simp
  have c: "(pos + n + 4095) div 4096 = pos div 4096 + 1"
    by (rule ceil_blocks) (use pos n pos_parts [of pos] in linarith)+
  obtain s1 sin' ino s' where w: "sfs_bmap_load_nolock s sin (pos div 4096) = Some (s1, sin', 0, ino)"
    "sfs_wbuf s1 buf n ino (int (pos mod 4096)) = Some (s', 0)"
    "file_step s (din sin) s' (din sin')" "din_size (din sin') = din_size (din sin)"
    "unat (din_blocks (din sin')) = max (unat (din_blocks (din sin))) (pos div 4096 + 1)"
    "\<forall>p. p div 4096 < unat (din_blocks (din sin')) \<longrightarrow>
         contents s' (din sin') p = (if pos \<le> p \<and> p < pos + n then machine s (buf + (p - pos))
           else if p div 4096 < unat (din_blocks (din sin)) then contents s (din sin) p else NUL)"
    using write_piece [OF inv ok i enough len buf] by blast
  have "io_last True s sin buf endpos (pos div 4096) al = Some (s', sin', 0, al + n)"
    unfolding io_last_def e nat_div_mod m using w(1,2) n pos by (simp add: sfs_buf_op_def Let_def)
  moreover have "written s (din sin) s' (din sin') buf pos n"
    unfolding written_def c using w(3-6) by blast
  ultimately show ?thesis by blast
qed

lemma io_first_write:
  assumes inv: "fs_inv s" and ok: "inode_ok s (din sin)" and n: "0 < n" "no_whole_block pos n" and bound: "pos + n \<le> 1036 * 4096"
    and i: "pos div 4096 \<le> unat (din_blocks (din sin))" and enough: "4 \<le> card (free_blocks s)" and buf: "user_buf s buf n"
  shows "\<exists>s' sin'. io_first True s sin buf (int pos) (int (pos + n)) = Some (s', sin', 0, n)
    \<and> written s (din sin) s' (din sin') buf pos n"
proof -
  have q: "pos div 4096 < 1036" using bound n(1) by (simp add: div_less_iff_less_mult)
  have fr: "2 \<le> card (free_blocks s)" using enough by simp
  show ?thesis
  proof (rule split_cases [OF n(2,1)])
    assume a: "pos mod 4096 \<noteq> 0" "(pos + n) div 4096 = pos div 4096" "pos mod 4096 + n \<le> 4096"
    have c: "(pos + n + 4095) div 4096 = pos div 4096 + 1"
      by (rule ceil_blocks) (use a n(1) pos_parts [of pos] in linarith)+
    obtain s1 sin' ino s' where w: "sfs_bmap_load_nolock s sin (pos div 4096) = Some (s1, sin', 0, ino)"
      "sfs_wbuf s1 buf n ino (int (pos mod 4096)) = Some (s', 0)"
      "file_step s (din sin) s' (din sin')" "din_size (din sin') = din_size (din sin)"
      "unat (din_blocks (din sin')) = max (unat (din_blocks (din sin))) (pos div 4096 + 1)"
      "\<forall>p. p div 4096 < unat (din_blocks (din sin')) \<longrightarrow>
         contents s' (din sin') p = (if pos \<le> p \<and> p < pos + n then machine s (buf + (p - pos))
           else if p div 4096 < unat (din_blocks (din sin)) then contents s (din sin) p else NUL)"
      using write_piece [OF inv ok i q fr a(3) buf] by blast
    have "io_first True s sin buf (int pos) (int (pos + n)) = Some (s', sin', 0, n)"
      unfolding io_first_def nat_div_mod a(2) using a(1) w(1,2) by (simp add: sfs_buf_op_def Let_def of_nat_mod)
    then show ?thesis using w(3-6) unfolding written_def c by blast
  next
    assume a: "pos mod 4096 = 0" "(pos + n) div 4096 = pos div 4096" "(pos + n) mod 4096 = n" "n < 4096"
    have "io_first True s sin buf (int pos) (int (pos + n)) = io_last True s sin buf (int (pos + n)) (pos div 4096) 0"
      unfolding io_first_def nat_div_mod a(2) using a(1) by (simp add: io_whole_def)
    then show ?thesis using io_last_write [OF inv ok a(1) n(1) a(4) i q fr buf refl, of 0] by simp
  next
    assume a: "pos mod 4096 \<noteq> 0" "(pos + n) div 4096 = pos div 4096 + 1" "n = (4096 - pos mod 4096) + (pos + n) mod 4096"
      "pos + (4096 - pos mod 4096) = (pos div 4096 + 1) * 4096"
    define k where "k = 4096 - pos mod 4096"
    define l where "l = (pos + n) mod 4096"
    define pos2 where "pos2 = (pos div 4096 + 1) * 4096"
    have kl: "n = k + l" "pos + k = pos2" "l < 4096" "0 < k" "pos mod 4096 + k \<le> 4096"
      using a unfolding k_def l_def pos2_def by simp_all
    have p2: "pos2 mod 4096 = 0" "pos2 div 4096 = pos div 4096 + 1" by (simp_all add: pos2_def)
    have kb: "user_buf s buf k" using user_buf_part [OF buf, of 0 k] kl(1) by simp
    obtain s1 sin' ino s' where w: "sfs_bmap_load_nolock s sin (pos div 4096) = Some (s1, sin', 0, ino)"
      "sfs_wbuf s1 buf k ino (int (pos mod 4096)) = Some (s', 0)"
      "file_step s (din sin) s' (din sin')" "din_size (din sin') = din_size (din sin)"
      "unat (din_blocks (din sin')) = max (unat (din_blocks (din sin))) (pos div 4096 + 1)"
      "\<forall>p. p div 4096 < unat (din_blocks (din sin')) \<longrightarrow>
         contents s' (din sin') p = (if pos \<le> p \<and> p < pos + k then machine s (buf + (p - pos))
           else if p div 4096 < unat (din_blocks (din sin)) then contents s (din sin) p else NUL)"
      "card (free_blocks s) \<le> card (free_blocks s') + (if pos div 4096 = unat (din_blocks (din sin)) then 2 else 0)"
      using write_piece [OF inv ok i q fr kl(5) kb] by blast
    have nk: "nat (4096 - int pos mod 4096) = k" unfolding k_def by (simp add: nat_diff_distrib)
    have run: "io_first True s sin buf (int pos) (int (pos + n)) = io_last True s' sin' (buf + k) (int (pos + n)) (pos div 4096 + 1) k"
      unfolding io_first_def nat_div_mod a(2) Let_def nk using a(1) w(1,2) by (simp add: sfs_buf_op_def io_whole_def of_nat_mod)
    show ?thesis
    proof (cases "l = 0")
      case True
      have c: "(pos + n + 4095) div 4096 = pos div 4096 + 1"
        by (rule ceil_blocks) (use a True pos_parts [of pos] pos_parts [of "pos + n"] n(1) in \<open>simp_all add: l_def\<close>)
      have "io_last True s' sin' (buf + k) (int (pos + n)) (pos div 4096 + 1) k = Some (s', sin', 0, n)"
        using True kl(1) unfolding io_last_def nat_div_mod l_def by simp
      then show ?thesis using run w(3-6) True kl(1) unfolding written_def c by simp
    next
      case False
      note st = file_stepD [OF w(3)]
      have i2: "pos2 div 4096 \<le> unat (din_blocks (din sin'))" using w(5) p2(2) by simp
      have q2: "pos2 div 4096 < 1036" using bound kl False by (simp add: div_less_iff_less_mult)
      have fr2: "2 \<le> card (free_blocks s')" using w(7) enough by (auto split: if_splits)
      have lb: "user_buf s' (buf + k) l" using user_buf_part [OF buf, of k l] kl(1) st(6) by simp
      have ep: "int (pos + n) = int (pos2 + l)" using kl by simp
      obtain s2 sin2 where w2: "io_last True s' sin' (buf + k) (int (pos + n)) (pos2 div 4096) k = Some (s2, sin2, 0, k + l)"
        "written s' (din sin') s2 (din sin2) (buf + k) pos2 l"
        using io_last_write [OF st(1,2) p2(1) _ kl(3) i2 q2 fr2 lb ep, of k] False by blast
      have c: "(pos2 + l + 4095) div 4096 = pos2 div 4096 + 1"
        by (rule ceil_blocks) (use p2 False kl pos_parts [of pos2] in linarith)+
      have pe: "pos + n = pos2 + l" using kl by simp
      note c = c c [folded pe]
      have ub: "machine s' (buf + k + x) = machine s (buf + k + x)" if "x < l" for x
        using file_step_user [OF w(3) inv ok buf, of "k + x"] that kl(1) by (simp add: add.assoc)
      have "unat (din_blocks (din sin2)) = max (unat (din_blocks (din sin'))) (pos2 div 4096 + 1)"
        using w2(2) unfolding written_def c by blast
      then have b2: "unat (din_blocks (din sin2)) = max (unat (din_blocks (din sin))) (pos2 div 4096 + 1)"
        by (simp add: w(5) p2(2) max_def)
      have "contents s2 (din sin2) p = (if pos \<le> p \<and> p < pos + n then machine s (buf + (p - pos))
            else if p div 4096 < unat (din_blocks (din sin)) then contents s (din sin) p else NUL)"
        if p: "p div 4096 < unat (din_blocks (din sin2))" for p
      proof -
        have c2: "contents s2 (din sin2) p = (if pos2 \<le> p \<and> p < pos2 + l then machine s' (buf + k + (p - pos2))
            else if p div 4096 < unat (din_blocks (din sin')) then contents s' (din sin') p else NUL)"
          using w2(2) p by (simp add: written_def)
        show ?thesis
        proof (cases "pos2 \<le> p \<and> p < pos2 + l")
          case True
          have e: "buf + k + (p - pos2) = buf + (p - pos)" using True kl(2) by arith
          have "p - pos2 < l" using True by arith
          from ub [OF this] have "machine s' (buf + k + (p - pos2)) = machine s (buf + (p - pos))" unfolding e .
          then show ?thesis using c2 True kl by auto
        next
          case F: False
          then have iff: "(pos \<le> p \<and> p < pos + n) = (pos \<le> p \<and> p < pos + k)" using kl by auto
          have "p div 4096 < pos div 4096 + 1" if "pos \<le> p \<and> p < pos + k"
            using that kl(2) pos2_def by (simp add: div_less_iff_less_mult)
          then have "(pos \<le> p \<and> p < pos + k) \<Longrightarrow> p div 4096 < unat (din_blocks (din sin'))"
            unfolding w(5) by (simp add: less_max_iff_disj)
          then show ?thesis using c2 F w(5,6) unfolding iff by auto
        qed
      qed
      moreover have "file_step s (din sin) s2 (din sin2)" using file_step_trans [OF w(3)] w2(2) by (simp add: written_def)
      moreover have "din_size (din sin2) = din_size (din sin)" using w2(2) w(4) by (simp add: written_def)
      ultimately have "written s (din sin) s2 (din sin2) buf pos n" using b2 unfolding written_def c by blast
      then show ?thesis using run w2(1) kl(1) unfolding p2(2) by simp
    qed
  qed
qed

subsection \<open>The size of a file\<close>

lemma size_simps [simp]:
  "file_entry s (d\<lparr>din_size := w\<rparr>) = file_entry s d" "owned s (d\<lparr>din_size := w\<rparr>) = owned s d"
  "inode_ok s (d\<lparr>din_size := w\<rparr>) = inode_ok s d" "reach s (d\<lparr>din_size := w\<rparr>) = reach s d"
  "fbyte s (d\<lparr>din_size := w\<rparr>) = fbyte s d" "contents s (d\<lparr>din_size := w\<rparr>) = contents s d"
  "file_step s d s' (d'\<lparr>din_size := w\<rparr>) = file_step s d s' d'"
proof -
  show fe: "file_entry s (d\<lparr>din_size := w\<rparr>) = file_entry s d" for s d by (rule ext) (simp add: file_entry_def)
  show o: "owned s (d\<lparr>din_size := w\<rparr>) = owned s d" for s d by (simp add: owned_def fe)
  show i: "inode_ok s (d\<lparr>din_size := w\<rparr>) = inode_ok s d" for s d by (simp add: inode_ok_def fe o)
  show r: "reach s (d\<lparr>din_size := w\<rparr>) = reach s d" for s d by (simp add: reach_def o)
  show "fbyte s (d\<lparr>din_size := w\<rparr>) = fbyte s d" by (rule ext)+ (simp add: fbyte_def fe)
  show "contents s (d\<lparr>din_size := w\<rparr>) = contents s d" by (rule ext) (simp add: contents_def fbyte_def fe)
  show "file_step s d s' (d'\<lparr>din_size := w\<rparr>) = file_step s d s' d'" by (simp add: file_step_def i r)
qed

lemma file_ok_size: "file_ok s d \<Longrightarrow> unat (din_size d) \<le> unat (din_blocks d) * 4096"
  by (simp add: file_ok_def)

lemma file_ok_max: "file_ok s d \<Longrightarrow> unat (din_size d) \<le> 1036 * 4096"
  using file_ok_size [of s d] by (fastforce simp: file_ok_def inode_ok_def)

lemma ceil_max: "(max a b + 4095) div 4096 = max ((a + 4095) div 4096) ((b + 4095) div (4096 :: nat))"
  using div_le_mono [of "a + 4095" "b + 4095" 4096] div_le_mono [of "b + 4095" "a + 4095" 4096]
  by (auto simp: max_def)

lemma endpos_eq: "pos + n < 2 ^ 63 \<Longrightarrow> sint (word_of_int (int pos) + word_of_nat n :: u64) = int (pos + n)"
proof -
  assume "pos + n < 2 ^ 63"
  then have "int (pos + n) < int (2 ^ 63)" by (simp only: of_nat_less_iff)
  moreover have "word_of_int (int pos) + word_of_nat n = (word_of_int (int (pos + n)) :: u64)" by simp
  ultimately show ?thesis by (simp only: sint_sbintrunc') (simp add: signed_take_bit_int_eq_self)
qed

lemma write_run:
  assumes inv: "fs_inv s" and ok: "file_ok s (din sin)" and ty: "din_type (din sin) \<noteq> SFS_TYPE_DIR"
    and n: "0 < n" "no_whole_block pos n" and bound: "pos + n \<le> 1036 * 4096"
    and pos: "pos \<le> unat (din_size (din sin))" and enough: "4 \<le> card (free_blocks s)" and buf: "user_buf s buf n"
  shows "\<exists>s' sin'. sfs_io_nolock s sin buf (int pos) n True = Some (s', sin', 0, n)
    \<and> file_step s (din sin) s' (din sin') \<and> file_ok s' (din sin')
    \<and> unat (din_size (din sin')) = max (unat (din_size (din sin))) (pos + n)
    \<and> (\<forall>p < unat (din_size (din sin')). contents s' (din sin') p
          = (if pos \<le> p \<and> p < pos + n then machine s (buf + (p - pos)) else contents s (din sin) p))"
proof -
  let ?d = "din sin"
  have iok: "inode_ok s ?d" and bl: "unat (din_blocks ?d) = (unat (din_size ?d) + 4095) div 4096"
    using ok by (simp_all add: file_ok_def)
  have i: "pos div 4096 \<le> unat (din_blocks ?d)" unfolding bl by (rule div_le_mono) (use pos in simp)
  obtain s' sin' where w: "io_first True s sin buf (int pos) (int (pos + n)) = Some (s', sin', 0, n)"
    "written s ?d s' (din sin') buf pos n"
    using io_first_write [OF inv iok n bound i enough buf] by blast
  have st: "file_step s ?d s' (din sin')" "din_size (din sin') = din_size ?d"
    "unat (din_blocks (din sin')) = max (unat (din_blocks ?d)) ((pos + n + 4095) div 4096)"
    using w(2) by (simp_all add: written_def)
  let ?w = "word_of_int (int pos + int n) :: u32"
  have uw: "unat ?w = pos + n" using bound by (simp add: unat_of_nat flip: of_nat_add)
  let ?sin = "if int pos + int n > uint (din_size (din sin'))
    then sin'\<lparr>din := (din sin')\<lparr>din_size := ?w\<rparr>, sin_dirty := True\<rparr> else sin'"
  have ep: "sint (word_of_int (int pos) + word_of_nat n :: u64) = int (pos + n)" by (rule endpos_eq) (use bound in simp)
  have run: "sfs_io_nolock s sin buf (int pos) n True = Some (s', ?sin, 0, n)"
    using ty n(1) bound w(1) unfolding sfs_io_nolock_def ep by (simp add: Let_def)
  have gt: "(int pos + int n > uint (din_size (din sin'))) = (pos + n > unat (din_size ?d))"
    unfolding st(2) uint_nat by presburger
  have size: "unat (din_size (din ?sin)) = max (unat (din_size ?d)) (pos + n)"
    using uw st(2) unfolding gt by (simp add: max_def)
  have blocks: "din_blocks (din ?sin) = din_blocks (din sin')" by simp
  have step: "file_step s ?d s' (din ?sin)" using st(1) by simp
  have ok': "file_ok s' (din ?sin)"
    unfolding file_ok_def size ceil_max blocks st(3) bl using file_stepD(2) [OF step] by simp
  have "contents s' (din ?sin) p = (if pos \<le> p \<and> p < pos + n then machine s (buf + (p - pos)) else contents s ?d p)"
    if p: "p < unat (din_size (din ?sin))" for p
  proof -
    have "p div 4096 < unat (din_blocks (din sin'))"
      using p file_ok_size [OF ok'] unfolding blocks by (simp add: div_less_iff_less_mult)
    then have c: "contents s' (din sin') p = (if pos \<le> p \<and> p < pos + n then machine s (buf + (p - pos))
        else if p div 4096 < unat (din_blocks ?d) then contents s ?d p else NUL)"
      using w(2) by (simp add: written_def)
    have "p div 4096 < unat (din_blocks ?d)" if "\<not> (pos \<le> p \<and> p < pos + n)"
    proof -
      have "p < unat (din_size ?d)" using p that pos unfolding size by auto
      then show ?thesis using file_ok_size [OF ok] by (simp add: div_less_iff_less_mult)
    qed
    then show ?thesis using c by auto
  qed
  with run step ok' size show ?thesis by blast
qed

subsection \<open>Reading\<close>

definition fetched :: "sfs_fs \<Rightarrow> sfs_disk_inode \<Rightarrow> nat \<Rightarrow> nat \<Rightarrow> nat \<Rightarrow> sfs_fs \<Rightarrow> bool" where
  "fetched s d buf pos n s' = mem_eff s (fill (machine s) buf n (\<lambda>k. contents s d (pos + k))) s'"

lemma fetched_join:
  assumes "fetched s d buf pos k s1" and "fetched s1 d (buf + k) (pos + k) l s2"
    and "\<And>p. p < pos + k + l \<Longrightarrow> contents s1 d p = contents s d p"
  shows "fetched s d buf pos (k + l) s2"
proof -
  obtain m1 where m1: "s1 = s\<lparr>machine := m1\<rparr>" "\<And>a. \<not> scratch s a \<Longrightarrow> m1 a = fill (machine s) buf k (\<lambda>x. contents s d (pos + x)) a"
    using assms(1) unfolding fetched_def by (rule mem_effE) blast
  have sc: "scratch s1 = scratch s" using m1(1) by simp
  obtain m2 where m2: "s2 = s1\<lparr>machine := m2\<rparr>" "\<And>a. \<not> scratch s1 a \<Longrightarrow> m2 a = fill (machine s1) (buf + k) l (\<lambda>x. contents s1 d (pos + k + x)) a"
    using assms(2) unfolding fetched_def by (rule mem_effE) blast
  have "m2 a = fill (machine s) buf (k + l) (\<lambda>x. contents s d (pos + x)) a" if "\<not> scratch s a" for a
  proof (cases "buf + k \<le> a \<and> a < buf + k + l")
    case True
    then have "a - (buf + k) < l" "pos + k + (a - (buf + k)) = pos + (a - buf)" by arith+
    then show ?thesis using m2(2) [of a] that sc True assms(3) [of "pos + (a - buf)"] by (simp add: fill_def add.assoc)
  next
    case False
    then have "m2 a = m1 a" using m2(2) [of a] that sc m1(1) unfolding fill_def by auto
    then show ?thesis using m1(2) [OF that] False unfolding fill_def by auto
  qed
  then show ?thesis unfolding fetched_def m2(1) m1(1) by (auto simp: mem_eff_def)
qed

lemma io_first_read:
  assumes inv: "fs_inv s" and ok: "inode_ok s (din sin)" and n: "0 < n" "no_whole_block pos n"
    and bound: "pos + n \<le> unat (din_blocks (din sin)) * 4096" and buf: "user_buf s buf n"
  shows "\<exists>s'. io_first False s sin buf (int pos) (int (pos + n)) = Some (s', sin, 0, n) \<and> fetched s (din sin) buf pos n s'"
proof -
  have q: "pos div 4096 < unat (din_blocks (din sin))" using bound n(1) by (simp add: div_less_iff_less_mult)
  show ?thesis
  proof (rule split_cases [OF n(2,1)])
    assume a: "pos mod 4096 \<noteq> 0" "(pos + n) div 4096 = pos div 4096" "pos mod 4096 + n \<le> 4096"
    obtain s1 ino s' where r: "sfs_bmap_load_nolock s sin (pos div 4096) = Some (s1, sin, 0, ino)"
      "sfs_rbuf s1 buf n ino (int (pos mod 4096)) = Some (s', 0)" "fetched s (din sin) buf pos n s'"
      using read_piece [OF inv ok q a(3) buf] unfolding fetched_def by blast
    have "io_first False s sin buf (int pos) (int (pos + n)) = Some (s', sin, 0, n)"
      unfolding io_first_def nat_div_mod a(2) using a(1) r(1,2) by (simp add: sfs_buf_op_def Let_def of_nat_mod)
    then show ?thesis using r(3) by blast
  next
    assume a: "pos mod 4096 = 0" "(pos + n) div 4096 = pos div 4096" "(pos + n) mod 4096 = n" "n < 4096"
    obtain s1 ino s' where r: "sfs_bmap_load_nolock s sin (pos div 4096) = Some (s1, sin, 0, ino)"
      "sfs_rbuf s1 buf n ino 0 = Some (s', 0)" "fetched s (din sin) buf pos n s'"
      using read_piece [OF inv ok q, of n buf] a(1,4) buf unfolding fetched_def by auto
    have "io_first False s sin buf (int pos) (int (pos + n)) = io_last False s sin buf (int (pos + n)) (pos div 4096) 0"
      unfolding io_first_def nat_div_mod a(2) using a(1) by (simp add: io_whole_def)
    also have "\<dots> = Some (s', sin, 0, n)" unfolding io_last_def nat_div_mod a(3) using r(1,2) n(1) by (simp add: sfs_buf_op_def)
    finally show ?thesis using r(3) by blast
  next
    assume a: "pos mod 4096 \<noteq> 0" "(pos + n) div 4096 = pos div 4096 + 1" "n = (4096 - pos mod 4096) + (pos + n) mod 4096"
      "pos + (4096 - pos mod 4096) = (pos div 4096 + 1) * 4096"
    define k where "k = 4096 - pos mod 4096"
    define l where "l = (pos + n) mod 4096"
    have kl: "n = k + l" "pos + k = (pos div 4096 + 1) * 4096" "l < 4096" "0 < k" "pos mod 4096 + k \<le> 4096"
      using a unfolding k_def l_def by simp_all
    have p2: "(pos + k) mod 4096 = 0" "(pos + k) div 4096 = pos div 4096 + 1" unfolding kl(2) by simp_all
    have kb: "user_buf s buf k" using user_buf_part [OF buf, of 0 k] kl(1) by simp
    obtain s1 ino s' where r: "sfs_bmap_load_nolock s sin (pos div 4096) = Some (s1, sin, 0, ino)"
      "sfs_rbuf s1 buf k ino (int (pos mod 4096)) = Some (s', 0)" "fetched s (din sin) buf pos k s'"
      using read_piece [OF inv ok q kl(5) kb] unfolding fetched_def by blast
    have nk: "nat (4096 - int pos mod 4096) = k" unfolding k_def by (simp add: nat_diff_distrib)
    have run: "io_first False s sin buf (int pos) (int (pos + n)) = io_last False s' sin (buf + k) (int (pos + n)) (pos div 4096 + 1) k"
      unfolding io_first_def nat_div_mod a(2) Let_def nk using a(1) r(1,2) by (simp add: sfs_buf_op_def io_whole_def of_nat_mod)
    show ?thesis
    proof (cases "l = 0")
      case True
      then have "io_last False s' sin (buf + k) (int (pos + n)) (pos div 4096 + 1) k = Some (s', sin, 0, n)"
        using kl(1) unfolding io_last_def nat_div_mod l_def by simp
      then show ?thesis using run r(3) True kl(1) by simp
    next
      case False
      note fe = fill_effect [OF inv ok kb r(3) [unfolded fetched_def]]
      have q2: "(pos + k) div 4096 < unat (din_blocks (din sin))" using bound kl False by (simp add: div_less_iff_less_mult)
      have len2: "(pos + k) mod 4096 + l \<le> 4096" using p2 kl(3) by simp
      have lb: "user_buf s' (buf + k) l"
        using user_buf_part [OF buf, of k l] kl(1) same_fsD(5) [OF mem_eff_facts(1) [OF r(3) [unfolded fetched_def]]] by simp
      obtain s2 ino2 s3 where r2: "sfs_bmap_load_nolock s' sin ((pos + k) div 4096) = Some (s2, sin, 0, ino2)"
        "sfs_rbuf s2 (buf + k) l ino2 (int ((pos + k) mod 4096)) = Some (s3, 0)" "fetched s' (din sin) (buf + k) (pos + k) l s3"
        using read_piece [OF fe(1,2) q2 len2 lb] unfolding fetched_def by blast
      have "contents s' (din sin) p = contents s (din sin) p" if "p < pos + k + l" for p
      proof -
        have "p div 4096 < unat (din_blocks (din sin))" using that bound kl(1) by (simp add: div_less_iff_less_mult)
        then show ?thesis unfolding contents_def by (rule fe(3)) simp
      qed
      from fetched_join [OF r(3) r2(3) this] have "fetched s (din sin) buf pos n s3" using kl(1) by simp
      moreover have "io_last False s' sin (buf + k) (int (pos + n)) (pos div 4096 + 1) k = Some (s3, sin, 0, n)"
        using r2(1,2) False kl(1) unfolding io_last_def nat_div_mod l_def [symmetric] p2 by (simp add: sfs_buf_op_def)
      ultimately show ?thesis using run by simp
    qed
  qed
qed

lemma read_run:
  assumes inv: "fs_inv s" and ok: "file_ok s (din sin)" and ty: "din_type (din sin) \<noteq> SFS_TYPE_DIR"
    and n: "0 < n" "n < 2 ^ 32" and pos: "pos < unat (din_size (din sin))"
    and k: "k = min n (unat (din_size (din sin)) - pos)" and part: "no_whole_block pos k" and buf: "user_buf s buf k"
  shows "\<exists>s'. sfs_io_nolock s sin buf (int pos) n False = Some (s', sin, 0, k) \<and> fetched s (din sin) buf pos k s'"
proof -
  let ?d = "din sin"
  have iok: "inode_ok s ?d" using ok by (simp add: file_ok_def)
  have max: "unat (din_size ?d) \<le> 1036 * 4096" by (rule file_ok_max [OF ok])
  have k0: "0 < k" "pos + k \<le> unat (din_size ?d)" using k n pos by simp_all
  then have bound: "pos + k \<le> unat (din_blocks ?d) * 4096" using file_ok_size [OF ok] by linarith
  obtain s' where r: "io_first False s sin buf (int pos) (int (pos + k)) = Some (s', sin, 0, k)" "fetched s ?d buf pos k s'"
    using io_first_read [OF inv iok k0(1) part bound buf] by blast
  have ep: "sint (word_of_int (int pos) + word_of_nat n :: u64) = int (pos + n)" by (rule endpos_eq) (use n max pos in simp)
  define L where "L = unat (din_size ?d)"
  have uL: "uint (din_size ?d) = int L" by (simp add: L_def)
  have L: "L \<le> 1036 * 4096" "pos < L" "k = min n (L - pos)" using max pos k by (simp_all add: L_def)
  have clip: "(if \<not> False \<and> (if int (pos + n) > 0x8000000 then 0x8000000 else int (pos + n)) > int L then int L
      else (if int (pos + n) > 0x8000000 then 0x8000000 else int (pos + n))) = int (pos + k)"
    using L by (auto simp: min_def)
  have "\<not> int L < int (pos + k)" using L by simp
  then have "sfs_io_nolock s sin buf (int pos) n False = Some (s', sin, 0, k)"
    using ty n(1) L r(1) unfolding sfs_io_nolock_def ep uL Let_def clip by (simp add: uL)
  then show ?thesis using r(2) by blast
qed

subsection \<open>Resizing\<close>

lemma extended_facts:
  assumes "extended s d s' d' b"
  shows "unat (din_blocks d') = unat (din_blocks d) + 1" "din_size d' = din_size d" "card (free_blocks s) \<le> card (free_blocks s') + 2"
  using assms by (simp_all add: extended_def)

lemma grow_run:
  assumes "fs_inv s" and "inode_ok s (din sin)" and "n = unat (din_blocks (din sin))" and "n + k \<le> 1036" and "2 * k \<le> card (free_blocks s)"
  shows "\<exists>s' sin'. grow_blocks s sin n k = Some (s', sin', 0) \<and> file_step s (din sin) s' (din sin')
    \<and> din_size (din sin') = din_size (din sin) \<and> unat (din_blocks (din sin')) = n + k
    \<and> (\<forall>j x. j < n + k \<longrightarrow> x < 4096 \<longrightarrow> fbyte s' (din sin') j x = (if j < n then fbyte s (din sin) j x else NUL))"
  using assms
proof (induction k arbitrary: s sin n)
  case 0
  then show ?case using file_step_refl by auto
next
  case (Suc k)
  have "blocks_needed (din sin) \<le> card (free_blocks s)" using Suc.prems(5) by (simp add: blocks_needed_def)
  then obtain s1 sin1 b where l: "sfs_bmap_load_nolock s sin n = Some (s1, sin1, 0, b)" "extended s (din sin) s1 (din sin1) b"
    using load_append [OF Suc.prems(1-3)] Suc.prems(4) by fastforce
  note e = extended_step [OF l(2) Suc.prems(1,2)] and f = extended_facts [OF l(2)]
  note st = file_stepD [OF e(1)]
  have "n + 1 = unat (din_blocks (din sin1))" "n + 1 + k \<le> 1036" "2 * k \<le> card (free_blocks s1)"
    using Suc.prems f by simp_all
  from Suc.IH [OF st(1,2) this] obtain s' sin' where g: "grow_blocks s1 sin1 (n + 1) k = Some (s', sin', 0)"
    "file_step s1 (din sin1) s' (din sin')" "din_size (din sin') = din_size (din sin1)" "unat (din_blocks (din sin')) = n + 1 + k"
    "\<forall>j x. j < n + 1 + k \<longrightarrow> x < 4096 \<longrightarrow> fbyte s' (din sin') j x = (if j < n + 1 then fbyte s1 (din sin1) j x else NUL)"
    by blast
  have "fbyte s' (din sin') j x = (if j < n then fbyte s (din sin) j x else NUL)" if "j < n + Suc k" "x < 4096" for j x
    using g(5) that e(2) [of j x] Suc.prems(3) by (auto simp: less_Suc_eq)
  then show ?case using l(1) g(1-4) f(2) file_step_trans [OF e(1) g(2)]
    by (intro exI [of _ s'] exI [of _ sin']) simp
qed

lemma grow_add:
  "grow_blocks s sin n a = Some (s1, sin1, 0) \<Longrightarrow> grow_blocks s sin n (a + b) = grow_blocks s1 sin1 (n + a) b"
proof (induction a arbitrary: s sin n)
  case (Suc a)
  then show ?case by (auto simp: bind_eq_Some_conv split: if_splits)
qed simp

lemma load_out_of_range: "sfs_bmap_load_nolock s sin n = None" if "1036 \<le> n"
proof -
  have "\<not> n < 12" "\<not> n - 12 < 1024" using that by arith+
  then show ?thesis by (simp add: sfs_bmap_load_nolock_def sfs_bmap_get_nolock_def Let_def)
qed

lemma truncated_step:
  assumes t: "truncated s d s' d'" and inv: "fs_inv s" and ok: "inode_ok s d"
  shows "file_step s d s' d'" "j < unat (din_blocks d') \<Longrightarrow> x < 4096 \<Longrightarrow> fbyte s' d' j x = fbyte s d j x"
proof -
  let ?B = "if din_indirect d = 0 then {} else {din_indirect d}" and ?n = "unat (din_blocks d')"
  have f: "fs_inv s'" "inode_ok s' d'" "unat (din_blocks d) = ?n + 1" "din_type d' = din_type d" "din_nlinks d' = din_nlinks d"
    "din_indirect d' = din_indirect d" "\<forall>i < ?n. file_entry s' d' i = file_entry s d i"
    "free_blocks s' = insert (unat (file_entry s d ?n)) (free_blocks s)" "keeps s ?B s'"
    using t by (simp_all add: truncated_def)
  have "file_entry s d ?n \<in> set (owned s d)" using f(3) by (simp add: owned_def)
  moreover have "set (owned s' d') \<subseteq> set (owned s d)" using f(3,6,7) by (auto simp: owned_def)
  ultimately have "reach s' d' \<subseteq> reach s d" using f(8) by (auto simp: reach_def word_unat_eq_iff [symmetric])
  moreover have "?B \<subseteq> reach s d" by (auto simp: reach_def owned_def)
  ultimately show "file_step s d s' d'" using f keeps_mono [OF f(9)] by (auto simp: file_step_def)
  show "fbyte s' d' j x = fbyte s d j x" if "j < ?n" "x < 4096"
  proof -
    have "file_entry s d j < s_blocks (super s)" "file_entry s d j \<notin> ?B"
      using inode_okD(1,4) [OF ok, of j] that f(3) by (auto simp: in_use_def)
    then have "machine s' (disk_at s (file_entry s d j) + x) = machine s (disk_at s (file_entry s d j) + x)"
      using keeps_byte [OF f(9) _ _ _ that(2)] inv by (simp add: fs_inv_def)
    then show ?thesis using that f(7) same_fsD(3) [OF keepsD [OF f(9)]] by (simp add: fbyte_def)
  qed
qed

lemma shrink_run:
  assumes "fs_inv s" and "inode_ok s (din sin)" and "unat (din_blocks (din sin)) = n + k"
  shows "\<exists>s' sin'. shrink_blocks s sin k = Some (s', sin', 0) \<and> file_step s (din sin) s' (din sin')
    \<and> din_size (din sin') = din_size (din sin) \<and> unat (din_blocks (din sin')) = n
    \<and> (\<forall>j x. j < n \<longrightarrow> x < 4096 \<longrightarrow> fbyte s' (din sin') j x = fbyte s (din sin) j x)"
  using assms
proof (induction k arbitrary: s sin)
  case 0
  then show ?case using file_step_refl by auto
next
  case (Suc k)
  obtain s1 sin1 where t: "sfs_bmap_truncate_nolock s sin = Some (s1, sin1, 0)" "truncated s (din sin) s1 (din sin1)"
    using truncate_run [OF Suc.prems(1,2), of "n + k"] Suc.prems(3) by auto
  note e = truncated_step [OF t(2) Suc.prems(1,2)]
  note st = file_stepD [OF e(1)]
  have f: "unat (din_blocks (din sin1)) = n + k" "din_size (din sin1) = din_size (din sin)"
    using t(2) Suc.prems(3) by (simp_all add: truncated_def)
  from Suc.IH [OF st(1,2) f(1)] obtain s' sin' where g: "shrink_blocks s1 sin1 k = Some (s', sin', 0)"
    "file_step s1 (din sin1) s' (din sin')" "din_size (din sin') = din_size (din sin1)" "unat (din_blocks (din sin')) = n"
    "\<forall>j x. j < n \<longrightarrow> x < 4096 \<longrightarrow> fbyte s' (din sin') j x = fbyte s1 (din sin1) j x"
    by blast
  then show ?case using t(1) f e(2) file_step_trans [OF e(1) g(2)]
    by (intro exI [of _ s'] exI [of _ sin']) simp
qed

lemma truncfile_run:
  assumes inv: "fs_inv s" and ok: "file_ok s (din sin)" and len: "len \<le> 1036 * 4096"
    and enough: "2 * ((len + 4095) div 4096 - unat (din_blocks (din sin))) \<le> card (free_blocks s)"
  shows "\<exists>s' sin'. sfs_truncfile s sin (int len) = Some (s', sin', 0) \<and> file_step s (din sin) s' (din sin')
    \<and> file_ok s' (din sin') \<and> unat (din_size (din sin')) = len
    \<and> (\<forall>p < len. contents s' (din sin') p = (if p div 4096 < unat (din_blocks (din sin)) then contents s (din sin) p else NUL))"
proof -
  let ?d = "din sin" and ?t = "(len + 4095) div 4096"
  define n where "n = unat (din_blocks ?d)"
  have iok: "inode_ok s ?d" and bl: "n = (unat (din_size ?d) + 4095) div 4096" using ok by (simp_all add: file_ok_def n_def)
  have t: "?t \<le> 1036" using div_le_mono [of "len + 4095" "1036 * 4096 + 4095" 4096] len by simp
  have lt: "p < len \<Longrightarrow> p div 4096 < ?t" for p using div_le_mono [of "p + 4096" "len + 4095" 4096] by simp
  have eqi: "(uint (din_size ?d) = int len) = (unat (din_size ?d) = len)" by (simp only: uint_nat of_nat_eq_iff)
  show ?thesis
  proof (cases "unat (din_size ?d) = len")
    case True
    have "sfs_truncfile s sin (int len) = Some (s, sin, 0)"
      using len True bl unfolding sfs_truncfile_def eqi n_def [symmetric] by (simp add: eqi)
    then show ?thesis using file_step_refl [OF inv iok] ok True lt bl unfolding n_def [symmetric] by auto
  next
    case False
    let ?op = "if n < ?t then grow_blocks s sin n (?t - n) else if ?t < n then shrink_blocks s sin (n - ?t) else Some (s, sin, 0)"
    have "\<exists>s' sin'. ?op = Some (s', sin', 0) \<and> file_step s ?d s' (din sin') \<and> unat (din_blocks (din sin')) = ?t
      \<and> (\<forall>j x. j < ?t \<longrightarrow> x < 4096 \<longrightarrow> fbyte s' (din sin') j x = (if j < n then fbyte s ?d j x else NUL))"
    proof (cases "n < ?t")
      case True
      then show ?thesis using grow_run [OF inv iok n_def, of "?t - n"] t enough n_def by auto
    next
      case F: False
      show ?thesis
      proof (cases "?t < n")
        case True
        have "unat (din_blocks ?d) = ?t + (n - ?t)" using True n_def by simp
        from shrink_run [OF inv iok this] show ?thesis using True F by fastforce
      next
        case False
        then have "n = ?t" using F by simp
        then show ?thesis using file_step_refl [OF inv iok] n_def by auto
      qed
    qed
    then obtain s' sin' where op: "?op = Some (s', sin', 0)" "file_step s ?d s' (din sin')" "unat (din_blocks (din sin')) = ?t"
      "\<forall>j x. j < ?t \<longrightarrow> x < 4096 \<longrightarrow> fbyte s' (din sin') j x = (if j < n then fbyte s ?d j x else NUL)" by blast
    let ?sin = "sin'\<lparr>din := (din sin')\<lparr>din_size := word_of_int (int len)\<rparr>, sin_dirty := True\<rparr>"
    have uw: "unat (din_size (din ?sin)) = len" using len by (simp add: unat_of_nat)
    have run: "sfs_truncfile s sin (int len) = Some (s', ?sin, 0)"
      using len False op(1,3) unfolding sfs_truncfile_def eqi n_def [symmetric] by (simp add: eqi)
    have "file_ok s' (din ?sin)" using op(3) uw file_stepD(2) [OF op(2)] unfolding file_ok_def by simp
    moreover have "contents s' (din ?sin) p = (if p div 4096 < n then contents s ?d p else NUL)" if "p < len" for p
      using op(4) lt [OF that] by (simp add: contents_def)
    moreover have "file_step s ?d s' (din ?sin)" using op(2) by simp
    ultimately show ?thesis using run uw unfolding n_def by blast
  qed
qed

lemma whole_block_write:
  assumes inv: "fs_inv s" and ok: "inode_ok s (din sin)" and ty: "din_type (din sin) \<noteq> SFS_TYPE_DIR"
    and k: "k < unat (din_blocks (din sin))" and buf: "user_buf s buf 4096"
  shows "k = 0 \<Longrightarrow> sfs_io_nolock s sin buf (int (k * 4096)) 4096 True = None"
    and "0 < k \<Longrightarrow> k < unat (s_blocks (super s)) \<Longrightarrow>
      \<exists>s' sin'. sfs_io_nolock s sin buf (int (k * 4096)) 4096 True = Some (s', sin', 0, 4096)
        \<and> mem_eff s (blit (machine s) (disk_at s (word_of_nat k)) buf 4096) s'"
proof -
  let ?d = "din sin"
  have k1: "k < 1036" by (rule inode_ok_bound [OF ok k])
  obtain s1 where l: "sfs_bmap_load_nolock s sin k = Some (s1, sin, 0, file_entry s ?d k)" "mem_eff s (machine s) s1"
    using load_existing [OF inv ok k] by blast
  have ep: "sint (word_of_int (int (k * 4096)) + word_of_nat 4096 :: u64) = int (k * 4096 + 4096)"
    by (rule endpos_eq) (use k1 in simp)
  have q: "k * 4096 mod 4096 = 0" "k * 4096 div 4096 = k" "(k * 4096 + 4096) div 4096 = k + 1" "(k * 4096 + 4096) mod 4096 = 0"
    by simp_all
  have io: "io_first True s sin buf (int (k * 4096)) (int (k * 4096 + 4096)) =
      do { (sfs, ret) \<leftarrow> sfs_wblock s1 buf (word_of_nat k) 1;
           if ret \<noteq> 0 then Some (sfs, sin, ret, 0) else Some (sfs, sin, 0, 4096) }"
    unfolding io_first_def nat_div_mod q Let_def using l(1)
    by (simp add: io_whole_def io_last_def sfs_block_op_def Let_def nat_div_mod del: of_nat_add of_nat_mult cong: if_cong)
  have clip: "\<not> int (k * 4096 + 4096) > 0x8000000" "\<not> int (k * 4096) \<ge> 0x8000000" "int (k * 4096) \<noteq> int (k * 4096 + 4096)"
    "\<not> int (k * 4096) > int (k * 4096 + 4096)" "\<not> int (k * 4096) < 0"
    using k1 by simp_all
  note run = sfs_io_nolock_def [of s sin buf "int (k * 4096)" 4096 True, unfolded ep Let_def] io
  note me = mem_eff_facts [OF l(2)]
  { assume "k = 0"
    then have "sfs_wblock s1 buf (word_of_nat k) 1 = None"
      by (simp add: sfs_wblock_def sfs_rwblock_nolock_def numeral_eq_Suc)
    then show "sfs_io_nolock s sin buf (int (k * 4096)) 4096 True = None"
      unfolding run(1) using io clip ty by simp }
  assume pos: "0 < k" "k < unat (s_blocks (super s))"
  have uk: "unat (word_of_nat k :: u32) = k" using k1 by (simp add: unat_of_nat)
  have nz: "(word_of_nat k :: u32) \<noteq> 0" using uk pos(1) by (metis unat_0 less_irrefl)
  have "fs_ready s1" "unat (word_of_nat k :: u32) + 1 \<le> unat (s_blocks (super s1))" "user_buf s1 buf (1 * 4096)"
    using inv same_fsD(5,6,8) [OF me(1)] pos(2) uk buf by (simp_all add: fs_inv_def)
  from wblock_run [OF this(1,2) nz this(3)] obtain s2 where
    w: "sfs_wblock s1 buf (word_of_nat k) 1 = Some (s2, 0)" "mem_eff s1 (blit (machine s1) (disk_at s1 (word_of_nat k)) buf 4096) s2"
    by auto
  have "blit (machine s1) (disk_at s (word_of_nat k)) buf 4096 a = blit (machine s) (disk_at s (word_of_nat k)) buf 4096 a" if "\<not> scratch s a" for a
  proof (cases "disk_at s (word_of_nat k) \<le> a \<and> a < disk_at s (word_of_nat k) + 4096")
    case True
    define x where "x = a - disk_at s (word_of_nat k)"
    have "x < 4096" using True unfolding x_def by arith
    then have "\<not> scratch s (buf + x)" using buf by (auto simp: user_buf_def scratch_def apart_def)
    from mem_effD [OF l(2) this] show ?thesis using True by (simp add: blit_def x_def)
  next
    case False
    then show ?thesis using mem_effD [OF l(2) that] unfolding blit_def by presburger
  qed
  then have "mem_eff s (blit (machine s) (disk_at s (word_of_nat k)) buf 4096) s2"
    using w(2) l(2) by (auto simp: mem_eff_def)
  moreover have "\<exists>sin'. sfs_io_nolock s sin buf (int (k * 4096)) 4096 True = Some (s2, sin', 0, 4096)"
    unfolding run(1) using io w(1) clip ty by simp
  ultimately show "\<exists>s' sin'. sfs_io_nolock s sin buf (int (k * 4096)) 4096 True = Some (s', sin', 0, 4096)
        \<and> mem_eff s (blit (machine s) (disk_at s (word_of_nat k)) buf 4096) s'" by blast
qed

end
