(* ===== verification/Sfs_Node.thy ===== *)
theory Sfs_Node
  imports Sfs_Request
begin

section \<open>Inodes in memory: \<open>kern/fs/vfs/inode.c\<close>, \<open>kern/fs/sfs/sfs_inode.c\<close>\<close>

text \<open>
  The inodes of devices and of the file system, with their reference and open counts; the table of function
  pointers of an inode is its constructor of \<open>inode_ops\<close>, and an operation that table does not have is the
  failed assertion of \<open>__vop_op\<close>. The lists of loaded inodes are lists of node numbers, their order that of the
  linked lists. The results of \<open>kmalloc\<close> are arguments.
\<close>

subsection \<open>State\<close>

datatype device = Stdin | Stdout | Disk0

datatype inode_ops = Dev_Ops device | Sfs_Dirops | Sfs_Fileops

record inode =
  in_ops :: inode_ops
  ref_count :: int
  open_count :: int
  in_info :: sfs_inode
  din_mem :: nat

record vnodes =
  fs :: sfs_fs
  inodes :: "nat \<Rightarrow> inode"
  inode_list :: "nat list"
  sfs_hash :: "nat \<Rightarrow> nat list"

subsection \<open>Inodes on the disk\<close>

definition inode_bytes :: "sfs_disk_inode \<Rightarrow> char list" where
  "inode_bytes d = le32 (din_size d) @ le16 (din_type d) @ le16 (din_nlinks d) @ le32 (din_blocks d)
     @ concat (map (\<lambda>w. le32 w) (din_direct d)) @ le32 (din_indirect d)"

definition inode_at :: "memory \<Rightarrow> nat \<Rightarrow> sfs_disk_inode" where
  "inode_at m a = \<lparr>din_size = ld32 m a, din_type = ld16 m (a + 4), din_nlinks = ld16 m (a + 6), din_blocks = ld32 m (a + 8),
     din_direct = map (\<lambda>i. ld32 m (a + 12 + 4 * i)) [0..<12], din_indirect = ld32 m (a + 60)\<rparr>"

abbreviation (input) inode_size :: nat where "inode_size \<equiv> 64"

subsection \<open>Reference and open counts\<close>

definition set_node :: "nat \<Rightarrow> (inode \<Rightarrow> inode) \<Rightarrow> 'a vnodes_scheme \<Rightarrow> 'a vnodes_scheme" where
  "set_node n f st = st\<lparr>inodes := (inodes st)(n := f (inodes st n))\<rparr>"

definition inode_ref_inc :: "'a vnodes_scheme \<Rightarrow> nat \<Rightarrow> 'a vnodes_scheme \<times> int" where
  "inode_ref_inc st n = (set_node n (\<lambda>i. i\<lparr>ref_count := ref_count i + 1\<rparr>) st, ref_count (inodes st n) + 1)"

definition inode_open_inc :: "'a vnodes_scheme \<Rightarrow> nat \<Rightarrow> 'a vnodes_scheme \<times> int" where
  "inode_open_inc st n = (set_node n (\<lambda>i. i\<lparr>open_count := open_count i + 1\<rparr>) st, open_count (inodes st n) + 1)"

definition inode_check :: "'a vnodes_scheme \<Rightarrow> nat \<Rightarrow> unit option" where
  "inode_check st n =
     do { let r = ref_count (inodes st n);
          let k = open_count (inodes st n);
          kassert (r \<ge> k \<and> k \<ge> 0);
          kassert (r < 0x10000 \<and> k < 0x10000) }"

text \<open>The memory of the inode is free afterwards; the model keeps its counts.\<close>

definition inode_kill :: "'a vnodes_scheme \<Rightarrow> nat \<Rightarrow> unit option" where
  "inode_kill st n = do { kassert (ref_count (inodes st n) = 0); kassert (open_count (inodes st n) = 0) }"

definition inode_init :: "'a vnodes_scheme \<Rightarrow> nat \<Rightarrow> inode_ops \<Rightarrow> 'a vnodes_scheme" where
  "inode_init st n ops =
     fst (inode_ref_inc (set_node n (\<lambda>i. i\<lparr>ref_count := 0, open_count := 0, in_ops := ops\<rparr>) st) n)"

subsection \<open>The cache of inodes\<close>

definition sfs_get_ops :: "u16 \<Rightarrow> inode_ops option" where
  "sfs_get_ops type =
     (if type = SFS_TYPE_DIR then Some Sfs_Dirops else if type = SFS_TYPE_FILE then Some Sfs_Fileops else None)"

definition sin_hashfn :: "u32 \<Rightarrow> nat" where
  "sin_hashfn x = unat (hash32 x 10)"

definition sfs_set_links :: "'a vnodes_scheme \<Rightarrow> nat \<Rightarrow> 'a vnodes_scheme" where
  "sfs_set_links st n =
     (let b = sin_hashfn (sin_ino (in_info (inodes st n)))
      in st\<lparr>inode_list := n # inode_list st, sfs_hash := (sfs_hash st)(b := n # sfs_hash st b)\<rparr>)"

definition sfs_remove_links :: "'a vnodes_scheme \<Rightarrow> nat \<Rightarrow> 'a vnodes_scheme" where
  "sfs_remove_links st n =
     (let b = sin_hashfn (sin_ino (in_info (inodes st n)))
      in st\<lparr>inode_list := remove1 n (inode_list st), sfs_hash := (sfs_hash st)(b := remove1 n (sfs_hash st b))\<rparr>)"

definition sfs_create_inode :: "'a vnodes_scheme \<Rightarrow> sfs_disk_inode \<Rightarrow> nat \<Rightarrow> u32 \<Rightarrow> nat option \<Rightarrow> ('a vnodes_scheme \<times> int \<times> nat option) option" where
  "sfs_create_inode st d a ino node_mem =
     (case node_mem of
        None \<Rightarrow> Some (st, - E_NO_MEM, None)
      | Some node \<Rightarrow> do {
          ops \<leftarrow> sfs_get_ops (din_type d);
          let st = inode_init st node ops;
          let st = set_node node (\<lambda>i. i\<lparr>in_info := \<lparr>din = d, sin_ino = ino, sin_dirty = False, reclaim_count = 1\<rparr>, din_mem := a\<rparr>) st;
          Some (st, 0, Some node) })"

definition lookup_sfs_nolock :: "'a vnodes_scheme \<Rightarrow> u32 \<Rightarrow> 'a vnodes_scheme \<times> nat option" where
  "lookup_sfs_nolock st ino =
     (case find (\<lambda>n. sin_ino (in_info (inodes st n)) = ino) (sfs_hash st (sin_hashfn ino)) of
        None \<Rightarrow> (st, None)
      | Some node \<Rightarrow>
          (let (st, r) = inode_ref_inc st node
           in (if r = 1
               then set_node node (\<lambda>i. i\<lparr>in_info := (in_info i)\<lparr>reclaim_count := reclaim_count (in_info i) + 1\<rparr>\<rparr>) st
               else st, Some node)))"

definition sfs_load_inode :: "'a vnodes_scheme \<Rightarrow> u32 \<Rightarrow> nat option \<Rightarrow> nat option \<Rightarrow> ('a vnodes_scheme \<times> int \<times> nat option) option" where
  "sfs_load_inode st ino din_alloc node_alloc =
     (case lookup_sfs_nolock st ino of
        (st, Some node) \<Rightarrow> Some (st, 0, Some node)
      | (st, None) \<Rightarrow>
          (case din_alloc of
             None \<Rightarrow> Some (st, - E_NO_MEM, None)
           | Some a \<Rightarrow> do {
               used \<leftarrow> sfs_block_inuse (fs st) ino;
               kassert used;
               (s, ret) \<leftarrow> sfs_rbuf (fs st) a inode_size ino 0;
               let st = st\<lparr>fs := s\<rparr>;
               if ret \<noteq> 0 then Some (st, ret, None)
               else do {
                 let d = inode_at (machine s) a;
                 kassert (din_nlinks d \<noteq> 0);
                 (st, ret, node) \<leftarrow> sfs_create_inode st d a ino node_alloc;
                 if ret \<noteq> 0 then Some (st, ret, None)
                 else do { node \<leftarrow> node; Some (sfs_set_links st node, 0, Some node) } } }))"

subsection \<open>Operations of the tables\<close>

text \<open>\<open>sfs_fsync\<close> writes the structure \<open>sin->din\<close> points to; its bytes are put there first.\<close>

definition sfs_fsync :: "'a vnodes_scheme \<Rightarrow> nat \<Rightarrow> ('a vnodes_scheme \<times> int) option" where
  "sfs_fsync st n =
     (let i = inodes st n
      in if sin_dirty (in_info i)
         then do {
           let s = (fs st)\<lparr>machine := poke (machine (fs st)) (din_mem i) (inode_bytes (din (in_info i)))\<rparr>;
           (s, ret) \<leftarrow> sfs_wbuf s (din_mem i) inode_size (sin_ino (in_info i)) 0;
           Some (set_node n (\<lambda>i. i\<lparr>in_info := (in_info i)\<lparr>sin_dirty := (ret \<noteq> 0)\<rparr>\<rparr>) (st\<lparr>fs := s\<rparr>), ret) }
         else Some (st, 0))"

definition vop_fsync :: "'a vnodes_scheme \<Rightarrow> nat \<Rightarrow> ('a vnodes_scheme \<times> int) option" where
  "vop_fsync st n =
     do { inode_check st n;
          case in_ops (inodes st n) of Dev_Ops d \<Rightarrow> None | Sfs_Dirops \<Rightarrow> sfs_fsync st n | Sfs_Fileops \<Rightarrow> sfs_fsync st n }"

definition on_file :: "'a vnodes_scheme \<Rightarrow> nat \<Rightarrow> (sfs_fs \<Rightarrow> sfs_inode \<Rightarrow> (sfs_fs \<times> sfs_inode \<times> 'b) option) \<Rightarrow> ('a vnodes_scheme \<times> 'b) option" where
  "on_file st n f =
     do { (s, x, r) \<leftarrow> f (fs st) (in_info (inodes st n)); Some (set_node n (\<lambda>i. i\<lparr>in_info := x\<rparr>) (st\<lparr>fs := s\<rparr>), r) }"

definition vop_truncate :: "'a vnodes_scheme \<Rightarrow> nat \<Rightarrow> int \<Rightarrow> ('a vnodes_scheme \<times> int) option" where
  "vop_truncate st n len =
     do { inode_check st n;
          case in_ops (inodes st n) of Sfs_Fileops \<Rightarrow> on_file st n (\<lambda>s x. sfs_truncfile s x len) | _ \<Rightarrow> None }"

definition sfs_reclaim :: "'a vnodes_scheme \<Rightarrow> nat \<Rightarrow> ('a vnodes_scheme \<times> int) option" where
  "sfs_reclaim st n =
     do { kassert (reclaim_count (in_info (inodes st n)) > 0);
          let st = set_node n (\<lambda>i. i\<lparr>in_info := (in_info i)\<lparr>reclaim_count := reclaim_count (in_info i) - 1\<rparr>\<rparr>) st;
          if reclaim_count (in_info (inodes st n)) \<noteq> 0 \<or> ref_count (inodes st n) \<noteq> 0 then Some (st, - E_BUSY)
          else do {
            (st, ret) \<leftarrow> (if din_nlinks (din (in_info (inodes st n))) = 0 then vop_truncate st n 0 else Some (st, 0));
            if ret \<noteq> 0 then Some (st, ret)
            else do {
              (st, ret) \<leftarrow> (if sin_dirty (in_info (inodes st n)) then vop_fsync st n else Some (st, 0));
              if ret \<noteq> 0 then Some (st, ret)
              else do {
                let st = sfs_remove_links st n;
                let d = din (in_info (inodes st n));
                s \<leftarrow> (if din_nlinks d = 0
                       then do { s \<leftarrow> sfs_block_free (fs st) (sin_ino (in_info (inodes st n)));
                                 if din_indirect d \<noteq> 0 then sfs_block_free s (din_indirect d) else Some s }
                       else Some (fs st));
                let st = st\<lparr>fs := s\<rparr>;
                inode_kill st n;
                Some (st, 0) } } } }"

definition vop_reclaim :: "'a vnodes_scheme \<Rightarrow> nat \<Rightarrow> ('a vnodes_scheme \<times> int) option" where
  "vop_reclaim st n =
     do { inode_check st n;
          case in_ops (inodes st n) of Dev_Ops d \<Rightarrow> None | Sfs_Dirops \<Rightarrow> sfs_reclaim st n | Sfs_Fileops \<Rightarrow> sfs_reclaim st n }"

text \<open>A failed \<open>vop_reclaim\<close> or \<open>vop_close\<close> is only reported on the console.\<close>

definition inode_ref_dec :: "'a vnodes_scheme \<Rightarrow> nat \<Rightarrow> ('a vnodes_scheme \<times> int) option" where
  "inode_ref_dec st n =
     do { kassert (ref_count (inodes st n) > 0);
          let st = set_node n (\<lambda>i. i\<lparr>ref_count := ref_count i - 1\<rparr>) st;
          let r = ref_count (inodes st n);
          if r = 0 then do { (st, ret) \<leftarrow> vop_reclaim st n; Some (st, r) } else Some (st, r) }"

definition sfs_close :: "'a vnodes_scheme \<Rightarrow> nat \<Rightarrow> ('a vnodes_scheme \<times> int) option" where
  "sfs_close st n = vop_fsync st n"

text \<open>The \<open>d_close\<close> functions of the three devices return 0.\<close>

definition dev_close :: "device \<Rightarrow> int" where
  "dev_close d = 0"

definition vop_close :: "'a vnodes_scheme \<Rightarrow> nat \<Rightarrow> ('a vnodes_scheme \<times> int) option" where
  "vop_close st n =
     do { inode_check st n;
          case in_ops (inodes st n) of Dev_Ops d \<Rightarrow> Some (st, dev_close d) | Sfs_Dirops \<Rightarrow> sfs_close st n | Sfs_Fileops \<Rightarrow> sfs_close st n }"

definition inode_open_dec :: "'a vnodes_scheme \<Rightarrow> nat \<Rightarrow> ('a vnodes_scheme \<times> int) option" where
  "inode_open_dec st n =
     do { kassert (open_count (inodes st n) > 0);
          let st = set_node n (\<lambda>i. i\<lparr>open_count := open_count i - 1\<rparr>) st;
          let k = open_count (inodes st n);
          if k = 0 then do { (st, ret) \<leftarrow> vop_close st n; Some (st, k) } else Some (st, k) }"

end
