(* ===== verification/Sfs_Spec.thy ===== *)
theory Sfs_Spec
  imports Sfs_Request
begin

section \<open>Files of the simple file system: properties\<close>

text \<open>
  A small file system on \<open>demo_devs\<close>: ten blocks, of which 5 to 9 are free, and a file of 100 bytes in block 4.
\<close>

definition demo_fs :: sfs_fs where
  "demo_fs = \<lparr>machine = (\<lambda>a. char_of (a mod 251)), dev_table = demo_devs, dev = \<lparr>d_blocks = 10, disk0_buffer = 200000\<rparr>,
     super = \<lparr>s_magic = SFS_MAGIC, s_blocks = 10, s_unused_blocks = 5, s_info = replicate 32 NUL\<rparr>,
     free_map = \<lparr>nbits = 10, nwords = 1, bmap_words = [mask 10 AND NOT (mask 5)]\<rparr>, super_dirty = False,
     sfs_buffer = 300000, ino_addr = 310000, freemap_data = 320000\<rparr>"

definition demo_file :: sfs_inode where
  "demo_file = \<lparr>din = \<lparr>din_size = 100, din_type = SFS_TYPE_FILE, din_nlinks = 1, din_blocks = 1,
       din_direct = 4 # replicate 11 0, din_indirect = 0\<rparr>,
     sin_ino = 3, sin_dirty = False, reclaim_count = 1\<rparr>"

lemma demo_free: "free_blocks demo_fs = {5..<10}"
proof -
  have "bit (mask 10 AND NOT (mask 5) :: u32) i = (5 \<le> i \<and> i < 10)" if "i < 32" for i
    using that by (auto simp: bit_simps)
  then show ?thesis by (auto simp: demo_fs_def free_set_def wbit_def)
qed

lemma demo_fs_inv: "fs_inv demo_fs"
proof -
  have "fs_ready demo_fs"
    by (simp add: demo_fs_def fs_ready_def disk0_ready_def VALID_IDE_def demo_devs_def image_def image_size_def apart_def)
  then show ?thesis using demo_free by (auto simp: fs_inv_def bitmap_inv_def) (auto simp: demo_fs_def)
qed

lemma demo_file_ok: "file_ok demo_fs (din demo_file)"
proof -
  have "file_entry demo_fs (din demo_file) i = (if i = 0 then 4 else 0)" for i
    by (auto simp: file_entry_def demo_file_def nth_Cons split: nat.splits)
  moreover have "in_use demo_fs 4" unfolding in_use_def demo_free by (simp add: demo_fs_def)
  ultimately show ?thesis by (simp add: file_ok_def inode_ok_def owned_def demo_file_def)
qed

lemma demo_user_buf: "n \<le> 8192 \<Longrightarrow> user_buf demo_fs 400000 n" "n \<le> 8192 \<Longrightarrow> user_buf demo_fs 420000 n"
  by (simp_all add: user_buf_def demo_fs_def apart_def image_def image_size_def demo_devs_def)

text \<open>
  C26. Writing to a file changes exactly what was asked for: a request of at most \<open>n\<close> bytes that contains no
  whole block, at a position inside the file or at its end, is carried out completely; afterwards the file holds the caller's
  bytes at \<open>pos\<close> and its old contents elsewhere, it is as long as needed, its block map is well-formed, the count of free
  blocks is right, and no block in use by another file has changed (\<open>file_step\<close>).
\<close>

theorem write_updates_contents:
  assumes "fs_inv s" and "file_ok s (din sin)" and "din_type (din sin) \<noteq> SFS_TYPE_DIR" and "0 < n" and "no_whole_block pos n"
    and "pos + n \<le> 1036 * 4096" and "pos \<le> unat (din_size (din sin))" and "4 \<le> card (free_blocks s)" and "user_buf s buf n"
  shows "\<exists>s' sin'. sfs_io_nolock s sin buf (int pos) n True = Some (s', sin', 0, n)
    \<and> file_step s (din sin) s' (din sin') \<and> file_ok s' (din sin')
    \<and> unat (din_size (din sin')) = max (unat (din_size (din sin))) (pos + n)
    \<and> (\<forall>p < unat (din_size (din sin')). contents s' (din sin') p
          = (if pos \<le> p \<and> p < pos + n then machine s (buf + (p - pos)) else contents s (din sin) p))"
  by (rule write_run [OF assms])

theorem write_updates_contents_witness:
  "\<exists>s' sin'. sfs_io_nolock demo_fs demo_file 400000 90 5000 True = Some (s', sin', 0, 5000)
    \<and> din_size (din sin') = 5090 \<and> contents s' (din sin') 5000 = char_of ((404910 :: nat) mod 251)
    \<and> contents s' (din sin') 50 = contents demo_fs (din demo_file) 50"
proof -
  have "din_type (din demo_file) \<noteq> SFS_TYPE_DIR" "(0 :: nat) < 5000" "no_whole_block 90 5000" "(90 :: nat) + 5000 \<le> 1036 * 4096"
    "90 \<le> unat (din_size (din demo_file))" "4 \<le> card (free_blocks demo_fs)" "user_buf demo_fs 400000 5000"
    using demo_free demo_user_buf by (simp_all add: demo_file_def no_whole_block_def)
  from write_updates_contents [OF demo_fs_inv demo_file_ok this] obtain s' sin' where
    w: "sfs_io_nolock demo_fs demo_file 400000 (int 90) 5000 True = Some (s', sin', 0, 5000)"
      "unat (din_size (din sin')) = max (unat (din_size (din demo_file))) (90 + 5000)"
      "\<forall>p < unat (din_size (din sin')). contents s' (din sin') p
        = (if 90 \<le> p \<and> p < 90 + 5000 then machine demo_fs (400000 + (p - 90)) else contents demo_fs (din demo_file) p)"
    by blast
  have sz: "unat (din_size (din sin')) = 5090" using w(2) by (simp add: demo_file_def)
  then have "din_size (din sin') = 5090" by (simp add: word_unat_eq_iff)
  moreover have "contents s' (din sin') 5000 = machine demo_fs 404910" using w(3) [rule_format, of 5000] sz by simp
  moreover have "contents s' (din sin') 50 = contents demo_fs (din demo_file) 50" using w(3) [rule_format, of 50] sz by simp
  ultimately show ?thesis using w(1) by (auto simp: demo_fs_def)
qed



text \<open>
  C28. Whole blocks bypass the block map: writing the aligned block \<open>k\<close> of a file puts the caller's bytes into block \<open>k\<close> of the
  disk, whatever block the file's map names; with \<open>k = 1\<close> this is the inode of the root directory. Writing the first block of a
  file panics.
\<close>

theorem whole_block_bypasses_map:
  assumes "fs_inv s" and "inode_ok s (din sin)" and "din_type (din sin) \<noteq> SFS_TYPE_DIR"
    and "k < unat (din_blocks (din sin))" and "k < unat (s_blocks (super s))" and "user_buf s buf 4096"
  shows "if k = 0 then sfs_io_nolock s sin buf (int (k * 4096)) 4096 True = None
    else \<exists>s' sin'. sfs_io_nolock s sin buf (int (k * 4096)) 4096 True = Some (s', sin', 0, 4096)
      \<and> (\<forall>i < 4096. machine s' (disk_at s (word_of_nat k) + i) = machine s (buf + i))
      \<and> (\<forall>b i. b < s_blocks (super s) \<longrightarrow> b \<noteq> word_of_nat k \<longrightarrow> i < 4096 \<longrightarrow> machine s' (disk_at s b + i) = machine s (disk_at s b + i))"
proof (cases "k = 0")
  case True
  then show ?thesis using whole_block_write(1) [OF assms(1-4,6)] by simp
next
  case False
  have rdy: "fs_ready s" using assms(1) by (simp add: fs_inv_def)
  have uk: "(word_of_nat k :: u32) < s_blocks (super s)"
    using assms(5) unat_bound [of "s_blocks (super s)"] by (simp add: word_less_nat_alt unat_of_nat)
  obtain s' sin' where w: "sfs_io_nolock s sin buf (int (k * 4096)) 4096 True = Some (s', sin', 0, 4096)"
    "mem_eff s (blit (machine s) (disk_at s (word_of_nat k)) buf 4096) s'"
    using whole_block_write(2) [OF assms(1-4,6) _ assms(5)] False by auto
  have a: "machine s' (disk_at s (word_of_nat k) + i) = machine s (buf + i)" if "i < 4096" for i
    using mem_effD [OF w(2) disk_not_scratch [OF rdy uk that]] that by (simp add: blit_def)
  have b: "machine s' (disk_at s b + i) = machine s (disk_at s b + i)" if "b < s_blocks (super s)" "b \<noteq> word_of_nat k" "i < 4096" for b i
    using mem_effD [OF w(2) disk_not_scratch [OF rdy that(1,3)]] disk_at_apart [OF that(2), of s] that(3) by (auto simp: blit_def)
  from w(1) a b show ?thesis unfolding if_not_P [OF False] by blast
qed

theorem whole_block_bypasses_map_witness: "sfs_io_nolock demo_fs demo_file 400000 0 4096 True = None"
proof -
  have "inode_ok demo_fs (din demo_file)" using demo_file_ok by (simp add: file_ok_def)
  moreover have "din_type (din demo_file) \<noteq> SFS_TYPE_DIR" "0 < unat (din_blocks (din demo_file))" "0 < unat (s_blocks (super demo_fs))"
    "user_buf demo_fs 400000 4096"
    using demo_user_buf by (simp_all add: demo_file_def demo_fs_def)
  ultimately show ?thesis using whole_block_bypasses_map [OF demo_fs_inv, of demo_file 0 400000] by simp
qed

text \<open>
  C29. Resizing a file: with enough free blocks \<open>sfs_truncfile\<close> makes the file \<open>len\<close> bytes long, keeps the contents of the blocks
  it keeps and fills every new block with zeros; its block map stays well-formed and no block of another file changes.
\<close>

theorem truncate_resizes:
  assumes "fs_inv s" and "file_ok s (din sin)" and "len \<le> 1036 * 4096"
    and "2 * ((len + 4095) div 4096 - unat (din_blocks (din sin))) \<le> card (free_blocks s)"
  shows "\<exists>s' sin'. sfs_truncfile s sin (int len) = Some (s', sin', 0) \<and> file_step s (din sin) s' (din sin')
    \<and> file_ok s' (din sin') \<and> unat (din_size (din sin')) = len
    \<and> (\<forall>p < len. contents s' (din sin') p = (if p div 4096 < unat (din_blocks (din sin)) then contents s (din sin) p else NUL))"
  by (rule truncfile_run [OF assms])

theorem truncate_resizes_witness:
  "\<exists>s' sin'. sfs_truncfile demo_fs demo_file 9000 = Some (s', sin', 0) \<and> din_size (din sin') = 9000
    \<and> contents s' (din sin') 8000 = NUL"
proof -
  have "(9000 :: nat) \<le> 1036 * 4096" "2 * ((9000 + 4095) div 4096 - unat (din_blocks (din demo_file))) \<le> card (free_blocks demo_fs)"
    unfolding demo_free by (simp_all add: demo_file_def)
  from truncate_resizes [OF demo_fs_inv demo_file_ok this] obtain s' sin' where
    t: "sfs_truncfile demo_fs demo_file (int 9000) = Some (s', sin', 0)" "unat (din_size (din sin')) = 9000"
      "\<forall>p < 9000. contents s' (din sin') p = (if p div 4096 < unat (din_blocks (din demo_file)) then contents demo_fs (din demo_file) p else NUL)"
    by blast
  have "contents s' (din sin') 8000 = NUL" using t(3) [rule_format, of 8000] by (simp add: demo_file_def)
  then show ?thesis using t(1,2) by (auto simp: word_unat_eq_iff)
qed

text \<open>
  A seek that the size limit allows but the block map cannot hold: with free blocks for all 1036 entries of the map,
  \<open>sfs_tryseek\<close> to a position behind them and below 128 megabytes panics instead of failing.
\<close>

theorem seek_past_map_panics:
  assumes "fs_inv s" and "file_ok s (din sin)" and "1036 * 4096 < pos" and "pos < 0x8000000"
    and "2 * (1036 - unat (din_blocks (din sin))) \<le> card (free_blocks s)"
  shows "sfs_tryseek s sin (int pos) = None"
proof -
  let ?d = "din sin"
  define n t where "n = unat (din_blocks ?d)" and "t = (pos + 4095) div 4096"
  have iok: "inode_ok s ?d" using assms(2) by (simp add: file_ok_def)
  have n: "n \<le> 1036" using iok by (simp add: inode_ok_def n_def)
  have t: "1036 < t" using div_le_mono [of "1036 * 4096 + 4096" "pos + 4095" 4096] assms(3) by (simp add: t_def)
  have size: "uint (din_size ?d) < int pos"
    using file_ok_max [OF assms(2)] assms(3) unfolding uint_nat by linarith
  have "n + (1036 - n) \<le> 1036" using n by simp
  then obtain s' sin' where "grow_blocks s sin n (1036 - n) = Some (s', sin', 0)"
    using grow_run [OF assms(1) iok n_def] assms(5) unfolding n_def [symmetric] by blast
  from grow_add [OF this, of "t - 1036"] have "grow_blocks s sin n (t - n) = grow_blocks s' sin' 1036 (t - 1036)"
    using n t by simp
  also have "\<dots> = None"
  proof -
    obtain k where "t - 1036 = Suc k" using t by (cases "t - 1036") auto
    then show ?thesis by (simp add: load_out_of_range)
  qed
  finally have "grow_blocks s sin n (t - n) = None" .
  then have "sfs_truncfile s sin (int pos) = None"
    using assms(4) size n t unfolding sfs_truncfile_def n_def [symmetric] by (simp add: t_def Let_def)
  then show ?thesis using assms(4) size by (simp add: sfs_tryseek_def)
qed

text \<open>A larger disk: 3000 blocks, of which all from 5 on are free.\<close>

definition large_devs :: ide_devices where
  "large_devs = (\<lambda>i. \<lparr>ide_valid = (i = 1 \<or> i = 2), ide_size = 24000, ide_iobase = (if i = 2 then 1000000 else 500000)\<rparr>)"

definition large_words :: "u32 list" where
  "large_words = NOT (mask 5) # replicate 92 (- 1) @ [mask 24]"

definition large_fs :: sfs_fs where
  "large_fs = demo_fs\<lparr>dev_table := large_devs, dev := \<lparr>d_blocks = 3000, disk0_buffer = 200000\<rparr>,
     super := \<lparr>s_magic = SFS_MAGIC, s_blocks = 3000, s_unused_blocks = 2995, s_info = replicate 32 NUL\<rparr>,
     free_map := \<lparr>nbits = 3000, nwords = 94, bmap_words = large_words\<rparr>\<rparr>"

lemma large_free: "free_blocks large_fs = {5..<3000}"
proof -
  let ?ws = large_words
  have w: "wbit ?ws i = (5 \<le> i \<and> i < 3000)" for i
  proof -
    have i: "i = i div 32 * 32 + i mod 32" "i mod 32 < 32" by simp_all
    consider "i div 32 = 0" | "0 < i div 32" "i div 32 < 93" | "i div 32 = 93" | "93 < i div 32" by linarith
    then show ?thesis
    proof cases
      case 1 then show ?thesis using i by (auto simp: wbit_def large_words_def bit_simps)
    next
      case 2
      then have "i div 32 - Suc 0 < 92" by arith
      with 2 have "?ws ! (i div 32) = - 1" by (simp add: large_words_def nth_Cons' nth_append)
      then have "wbit ?ws i" using i 2 by (simp add: wbit_def) (simp add: large_words_def)
      then show ?thesis using i 2 by linarith
    next
      case 3
      then have "?ws ! (i div 32) = mask 24" by (simp add: large_words_def nth_Cons' nth_append)
      then have "wbit ?ws i = (i mod 32 < 24)" using i 3 by (simp add: wbit_def bit_simps) (simp add: large_words_def)
      then show ?thesis using i 3 by linarith
    next
      case 4
      then have "\<not> wbit ?ws i" by (simp add: wbit_def large_words_def)
      then show ?thesis using i 4 by linarith
    qed
  qed
  have fm: "bmap_words (free_map large_fs) = large_words" by (simp add: large_fs_def)
  show ?thesis by (rule set_eqI) (simp only: free_set_def fm w mem_Collect_eq atLeastLessThan_iff)
qed

lemma large_fs_inv: "fs_inv large_fs"
proof -
  have "fs_ready large_fs"
    by (simp add: large_fs_def demo_fs_def fs_ready_def disk0_ready_def VALID_IDE_def large_devs_def image_def image_size_def apart_def)
  moreover have "nbits (free_map large_fs) = 3000" "nwords (free_map large_fs) = 94" "length (bmap_words (free_map large_fs)) = 94"
    "s_blocks (super large_fs) = 3000" "s_unused_blocks (super large_fs) = 2995"
    by (simp_all add: large_fs_def large_words_def)
  moreover have "\<forall>i \<in> free_blocks large_fs. 0 < i \<and> i < 3000" "card (free_blocks large_fs) = 2995"
    unfolding large_free by (simp_all only: atLeastLessThan_iff card_atLeastLessThan, auto)
  ultimately show ?thesis by (simp add: fs_inv_def bitmap_inv_def)
qed

lemma large_file_ok: "file_ok large_fs (din demo_file)"
proof -
  have "file_entry large_fs (din demo_file) i = (if i = 0 then 4 else 0)" for i
    by (auto simp: file_entry_def demo_file_def nth_Cons split: nat.splits)
  moreover have "in_use large_fs 4" unfolding in_use_def large_free by (simp add: large_fs_def)
  ultimately show ?thesis by (simp add: file_ok_def inode_ok_def owned_def demo_file_def)
qed

theorem seek_past_map_panics_witness: "sfs_tryseek large_fs demo_file 5000000 = None"
proof -
  have "(1036 :: nat) * 4096 < 5000000" "(5000000 :: nat) < 0x8000000"
    "2 * (1036 - unat (din_blocks (din demo_file))) \<le> card (free_blocks large_fs)"
    unfolding large_free by (simp_all add: demo_file_def)
  from seek_past_map_panics [OF large_fs_inv large_file_ok this] show ?thesis by simp
qed

end
