(* ===== verification/Sfs_Dir.thy ===== *)
theory Sfs_Dir
  imports Sfs_Node Sfs_Spec
begin

section \<open>Directories and mounting: \<open>kern/fs/sfs/sfs_inode.c\<close>, \<open>sfs_fs.c\<close>\<close>

text \<open>
  A directory keeps each of its entries in a block of its own: the number of an inode, 0 for an empty slot, and the name.
  Entries are read into a structure at address \<open>entry\<close>, whose allocation is an argument of the operations
  that make one.
\<close>

subsection \<open>Entries\<close>

abbreviation (input) SFS_MAX_FNAME_LEN :: nat where "SFS_MAX_FNAME_LEN \<equiv> 255"
abbreviation (input) entry_size :: nat where "entry_size \<equiv> 260"
abbreviation (input) entry_ino :: "memory \<Rightarrow> nat \<Rightarrow> u32" where "entry_ino m e \<equiv> ld32 m e"
abbreviation (input) entry_name :: "nat \<Rightarrow> nat" where "entry_name e \<equiv> e + 4"

definition sfs_dirent_read_nolock :: "sfs_fs \<Rightarrow> sfs_inode \<Rightarrow> nat \<Rightarrow> nat \<Rightarrow> (sfs_fs \<times> sfs_inode \<times> int) option" where
  "sfs_dirent_read_nolock sfs sin slot entry =
     do { kassert (din_type (din sin) = SFS_TYPE_DIR \<and> slot < unat (din_blocks (din sin)));
          (sfs, sin, ret, ino) \<leftarrow> sfs_bmap_load_nolock sfs sin slot;
          if ret \<noteq> 0 then Some (sfs, sin, ret)
          else do {
            used \<leftarrow> sfs_block_inuse sfs ino;
            kassert used;
            (sfs, ret) \<leftarrow> sfs_rbuf sfs entry entry_size ino 0;
            if ret \<noteq> 0 then Some (sfs, sin, ret)
            else Some (sfs\<lparr>machine := (machine sfs)(entry_name entry + SFS_MAX_FNAME_LEN := NUL)\<rparr>, sin, 0) } }"

text \<open>
  The loop of \<open>sfs_dirent_search_nolock\<close> from slot \<open>i\<close> on, with \<open>k\<close> slots left and \<open>eslot\<close> the value stored through
  \<open>empty_slot\<close>: the result code, the inode number and slot of the entry found, and the empty slot.
\<close>

fun search_slots :: "sfs_fs \<Rightarrow> sfs_inode \<Rightarrow> nat \<Rightarrow> nat \<Rightarrow> nat \<Rightarrow> nat \<Rightarrow> nat
    \<Rightarrow> (sfs_fs \<times> sfs_inode \<times> int \<times> (u32 \<times> nat) option \<times> nat) option" where
  "search_slots sfs sin name entry i 0 eslot = Some (sfs, sin, - E_NOENT, None, eslot)"
| "search_slots sfs sin name entry i (Suc k) eslot =
     do { (sfs, sin, ret) \<leftarrow> sfs_dirent_read_nolock sfs sin i entry;
          if ret \<noteq> 0 then Some (sfs, sin, ret, None, eslot)
          else if entry_ino (machine sfs) entry = 0 then search_slots sfs sin name entry (i + 1) k i
          else do {
            r \<leftarrow> strcmp (machine sfs) name (entry_name entry);
            if r = 0 then Some (sfs, sin, 0, Some (entry_ino (machine sfs) entry, i), eslot)
            else search_slots sfs sin name entry (i + 1) k eslot } }"

definition sfs_dirent_search_nolock :: "sfs_fs \<Rightarrow> sfs_inode \<Rightarrow> nat \<Rightarrow> nat option
    \<Rightarrow> (sfs_fs \<times> sfs_inode \<times> int \<times> (u32 \<times> nat) option \<times> nat) option" where
  "sfs_dirent_search_nolock sfs sin name entry_alloc =
     do { len \<leftarrow> strlen (machine sfs) name;
          kassert (len \<le> SFS_MAX_FNAME_LEN);
          let nslots = unat (din_blocks (din sin));
          (case entry_alloc of
             None \<Rightarrow> Some (sfs, sin, - E_NO_MEM, None, nslots)
           | Some entry \<Rightarrow> search_slots sfs sin name entry 0 nslots nslots) }"

fun findino_slots :: "sfs_fs \<Rightarrow> sfs_inode \<Rightarrow> u32 \<Rightarrow> nat \<Rightarrow> nat \<Rightarrow> nat \<Rightarrow> (sfs_fs \<times> sfs_inode \<times> int) option" where
  "findino_slots sfs sin ino entry i 0 = Some (sfs, sin, - E_NOENT)"
| "findino_slots sfs sin ino entry i (Suc k) =
     do { (sfs, sin, ret) \<leftarrow> sfs_dirent_read_nolock sfs sin i entry;
          if ret \<noteq> 0 then Some (sfs, sin, ret)
          else if entry_ino (machine sfs) entry = ino then Some (sfs, sin, 0)
          else findino_slots sfs sin ino entry (i + 1) k }"

definition sfs_dirent_findino_nolock :: "sfs_fs \<Rightarrow> sfs_inode \<Rightarrow> u32 \<Rightarrow> nat \<Rightarrow> (sfs_fs \<times> sfs_inode \<times> int) option" where
  "sfs_dirent_findino_nolock sfs sin ino entry = findino_slots sfs sin ino entry 0 (unat (din_blocks (din sin)))"

text \<open>The entry number \<open>slot\<close> among those in use.\<close>

fun getdirentry_slots :: "sfs_fs \<Rightarrow> sfs_inode \<Rightarrow> int \<Rightarrow> nat \<Rightarrow> nat \<Rightarrow> nat \<Rightarrow> (sfs_fs \<times> sfs_inode \<times> int) option" where
  "getdirentry_slots sfs sin slot entry i 0 = Some (sfs, sin, - E_NOENT)"
| "getdirentry_slots sfs sin slot entry i (Suc k) =
     do { (sfs, sin, ret) \<leftarrow> sfs_dirent_read_nolock sfs sin i entry;
          if ret \<noteq> 0 then Some (sfs, sin, ret)
          else if entry_ino (machine sfs) entry \<noteq> 0
          then (if slot = 0 then Some (sfs, sin, 0) else getdirentry_slots sfs sin (slot - 1) entry (i + 1) k)
          else getdirentry_slots sfs sin slot entry (i + 1) k }"

definition sfs_getdirentry_sub_nolock :: "sfs_fs \<Rightarrow> sfs_inode \<Rightarrow> int \<Rightarrow> nat \<Rightarrow> (sfs_fs \<times> sfs_inode \<times> int) option" where
  "sfs_getdirentry_sub_nolock sfs sin slot entry = getdirentry_slots sfs sin slot entry 0 (unat (din_blocks (din sin)))"

definition sfs_getdirentry :: "sfs_fs \<Rightarrow> sfs_inode \<Rightarrow> iobuf \<Rightarrow> nat option \<Rightarrow> (sfs_fs \<times> sfs_inode \<times> iobuf \<times> int) option" where
  "sfs_getdirentry sfs sin iob entry_alloc =
     (case entry_alloc of
        None \<Rightarrow> Some (sfs, sin, iob, - E_NO_MEM)
      | Some entry \<Rightarrow>
          (let offset = io_offset iob
           in if offset < 0 \<or> offset mod 256 \<noteq> 0 then Some (sfs, sin, iob, - E_INVAL)
              else (let slot = word_of_int (offset div 256) :: u32
                    in if slot > din_blocks (din sin) then Some (sfs, sin, iob, - E_NOENT)
                       else do {
                         (sfs, sin, ret) \<leftarrow> sfs_getdirentry_sub_nolock sfs sin (sint slot) entry;
                         if ret \<noteq> 0 then Some (sfs, sin, iob, ret)
                         else do {
                           (m, iob, ret, alen) \<leftarrow> iobuf_move (machine sfs) iob (entry_name entry) 256 True;
                           Some (sfs\<lparr>machine := m\<rparr>, sin, iob, ret) } })))"

subsection \<open>Looking up a name\<close>

text \<open>The allocations of one lookup: the entry, and for an inode that is not loaded its two structures.\<close>

record allocs =
  a_entry :: "nat option"
  a_din :: "nat option"
  a_node :: "nat option"

definition sfs_lookup_once :: "'a vnodes_scheme \<Rightarrow> nat \<Rightarrow> nat \<Rightarrow> allocs \<Rightarrow> ('a vnodes_scheme \<times> int \<times> nat option \<times> nat option) option" where
  "sfs_lookup_once st n name al =
     do { (s, x, ret, found, eslot) \<leftarrow> sfs_dirent_search_nolock (fs st) (in_info (inodes st n)) name (a_entry al);
          let st = set_node n (\<lambda>i. i\<lparr>in_info := x\<rparr>) (st\<lparr>fs := s\<rparr>);
          if ret = 0
          then do { (ino, slot) \<leftarrow> found;
                    (st, ret, node) \<leftarrow> sfs_load_inode st ino (a_din al) (a_node al);
                    Some (st, ret, node, Some slot) }
          else Some (st, ret, None, None) }"

definition sfs_lookup :: "'a vnodes_scheme \<Rightarrow> nat \<Rightarrow> nat \<Rightarrow> allocs \<Rightarrow> ('a vnodes_scheme \<times> int \<times> nat option) option" where
  "sfs_lookup st n path al =
     do { kassert (machine (fs st) path \<noteq> NUL \<and> machine (fs st) path \<noteq> CHR ''/'');
          let (st, r) = inode_ref_inc st n;
          if din_type (din (in_info (inodes st n))) \<noteq> SFS_TYPE_DIR
          then do { (st, r) \<leftarrow> inode_ref_dec st n; Some (st, - E_NOTDIR, None) }
          else do {
            (st, ret, subnode, slot) \<leftarrow> sfs_lookup_once st n path al;
            (st, r) \<leftarrow> inode_ref_dec st n;
            if ret \<noteq> 0 then Some (st, ret, None) else Some (st, 0, subnode) } }"

subsection \<open>Small operations of the tables\<close>

abbreviation (input) O_ACCMODE :: u32 where "O_ACCMODE \<equiv> 3"
abbreviation (input) O_RDONLY :: u32 where "O_RDONLY \<equiv> 0"
abbreviation (input) O_WRONLY :: u32 where "O_WRONLY \<equiv> 1"
abbreviation (input) O_RDWR :: u32 where "O_RDWR \<equiv> 2"
abbreviation (input) O_CREAT :: u32 where "O_CREAT \<equiv> 4"
abbreviation (input) O_EXCL :: u32 where "O_EXCL \<equiv> 8"
abbreviation (input) O_TRUNC :: u32 where "O_TRUNC \<equiv> 16"
abbreviation (input) O_APPEND :: u32 where "O_APPEND \<equiv> 32"

definition sfs_opendir :: "u32 \<Rightarrow> int" where
  "sfs_opendir open_flags =
     (if open_flags AND O_ACCMODE \<noteq> O_RDONLY then - E_ISDIR
      else if open_flags AND O_APPEND \<noteq> 0 then - E_ISDIR else 0)"

definition sfs_openfile :: "u32 \<Rightarrow> int" where
  "sfs_openfile open_flags = 0"

text \<open>The octal constants of \<open>libs/stat.h\<close>.\<close>

abbreviation (input) S_IFMT :: u32 where "S_IFMT \<equiv> 0x7000"
abbreviation (input) S_IFREG :: u32 where "S_IFREG \<equiv> 0x1000"
abbreviation (input) S_IFDIR :: u32 where "S_IFDIR \<equiv> 0x2000"
abbreviation (input) S_IFLNK :: u32 where "S_IFLNK \<equiv> 0x3000"
abbreviation (input) S_IFCHR :: u32 where "S_IFCHR \<equiv> 0x4000"
abbreviation (input) S_IFBLK :: u32 where "S_IFBLK \<equiv> 0x5000"

definition S_ISDIR :: "u32 \<Rightarrow> bool" where
  "S_ISDIR mode = (mode AND S_IFMT = S_IFDIR)"

definition sfs_gettype :: "sfs_inode \<Rightarrow> u32 option" where
  "sfs_gettype x =
     (if din_type (din x) = SFS_TYPE_DIR then Some S_IFDIR
      else if din_type (din x) = SFS_TYPE_FILE then Some S_IFREG
      else if din_type (din x) = SFS_TYPE_LINK then Some S_IFLNK else None)"

record stat =
  st_mode :: u32
  st_nlinks :: u64
  st_blocks :: u64
  st_size :: u64

definition sfs_fstat :: "sfs_inode \<Rightarrow> stat option" where
  "sfs_fstat x =
     do { mode \<leftarrow> sfs_gettype x;
          let d = din x;
          Some \<lparr>st_mode = mode, st_nlinks = ucast (din_nlinks d), st_blocks = ucast (din_blocks d), st_size = ucast (din_size d)\<rparr> }"

subsection \<open>The path of a directory\<close>

text \<open>
  One round of \<open>sfs_namefile\<close> per directory on the way to the root, with the allocations of the lookups given as a list;
  the string \<open>".."\<close> lies at \<open>dotdot\<close>. \<open>ptr\<close> and \<open>resid\<close> are the start of what has been written and the room left.
  \<open>None\<close> in the last component is the root; otherwise it is the error code.
\<close>

fun namefile_loop :: "'a vnodes_scheme \<Rightarrow> nat \<Rightarrow> nat \<Rightarrow> nat \<Rightarrow> allocs list \<Rightarrow> nat \<Rightarrow> nat
    \<Rightarrow> ('a vnodes_scheme \<times> nat \<times> nat \<times> nat \<times> int option) option" where
  "namefile_loop st n entry dotdot [] ptr resid = None"
| "namefile_loop st n entry dotdot (al # als) ptr resid =
     do { (st, ret, parent, slot) \<leftarrow> sfs_lookup_once st n dotdot al;
          if ret \<noteq> 0 then Some (st, n, ptr, resid, Some ret)
          else do {
            parent \<leftarrow> parent;
            let ino = sin_ino (in_info (inodes st n));
            (st, r) \<leftarrow> inode_ref_dec st n;
            if n = parent
            then do { (st, r) \<leftarrow> inode_ref_dec st n; Some (st, n, ptr, resid, None) }
            else do {
              let x = in_info (inodes st parent);
              kassert (ino \<noteq> sin_ino x \<and> din_type (din x) = SFS_TYPE_DIR);
              (s, x, ret) \<leftarrow> sfs_dirent_findino_nolock (fs st) x ino entry;
              let st = set_node parent (\<lambda>i. i\<lparr>in_info := x\<rparr>) (st\<lparr>fs := s\<rparr>);
              if ret \<noteq> 0 then Some (st, parent, ptr, resid, Some ret)
              else do {
                len \<leftarrow> strlen (machine s) (entry_name entry);
                let alen = len + 1;
                if alen > resid then Some (st, parent, ptr, resid, Some (- E_NO_MEM))
                else do {
                  let ptr = ptr - alen;
                  let m = memcpy (machine s) ptr (entry_name entry) (alen - 1);
                  let m = m(ptr + (alen - 1) := CHR ''/'');
                  namefile_loop (st\<lparr>fs := s\<lparr>machine := m\<rparr>\<rparr>) parent entry dotdot als ptr (resid - alen) } } } } }"

definition sfs_namefile :: "'a vnodes_scheme \<Rightarrow> nat \<Rightarrow> iobuf \<Rightarrow> nat option \<Rightarrow> nat \<Rightarrow> allocs list \<Rightarrow> ('a vnodes_scheme \<times> iobuf \<times> int) option" where
  "sfs_namefile st n iob entry_alloc dotdot als =
     (if io_resid iob \<le> 2 then Some (st, iob, - E_NO_MEM)
      else case entry_alloc of
        None \<Rightarrow> Some (st, iob, - E_NO_MEM)
      | Some entry \<Rightarrow> do {
          let ptr = io_base iob + io_resid iob;
          let resid = io_resid iob - 2;
          let (st, r) = inode_ref_inc st n;
          (st, n, ptr, resid, err) \<leftarrow> namefile_loop st n entry dotdot als ptr resid;
          (case err of
             Some ret \<Rightarrow> do { (st, r) \<leftarrow> inode_ref_dec st n; Some (st, iob, ret) }
           | None \<Rightarrow> do {
               let alen = io_resid iob - resid - 2;
               let m = memmove (machine (fs st)) (io_base iob + 1) ptr alen;
               let m = m(io_base iob := CHR ''/'', io_base iob + 1 + alen := NUL);
               iob' \<leftarrow> iobuf_skip iob alen;
               Some (st\<lparr>fs := (fs st)\<lparr>machine := m\<rparr>\<rparr>, iob', 0) }) })"

subsection \<open>Finding a name\<close>

text \<open>The entry in slot \<open>j\<close> of a directory on the disk.\<close>

definition dent_ino :: "sfs_fs \<Rightarrow> sfs_disk_inode \<Rightarrow> nat \<Rightarrow> u32" where
  "dent_ino s d j = ld32 (fbyte s d j) 0"

definition dent_name :: "sfs_fs \<Rightarrow> sfs_disk_inode \<Rightarrow> nat \<Rightarrow> char list" where
  "dent_name s d j = takeWhile (\<lambda>c. c \<noteq> NUL) (block (fbyte s d j) 4 SFS_MAX_FNAME_LEN)"

definition only_buf :: "sfs_fs \<Rightarrow> nat \<Rightarrow> nat \<Rightarrow> sfs_fs \<Rightarrow> bool" where
  "only_buf s buf n s' = (\<exists>f. mem_eff s (fill (machine s) buf n f) s')"

lemma only_buf_trans:
  assumes "only_buf s buf n s1" and "only_buf s1 buf n s2"
  shows "only_buf s buf n s2"
proof -
  obtain f g where f: "mem_eff s (fill (machine s) buf n f) s1" and g: "mem_eff s1 (fill (machine s1) buf n g) s2"
    using assms by (auto simp: only_buf_def)
  have sc: "scratch s1 = scratch s" by (rule mem_eff_facts(6) [OF f])
  obtain m2 where m2: "s2 = s1\<lparr>machine := m2\<rparr>" "\<And>a. \<not> scratch s1 a \<Longrightarrow> m2 a = fill (machine s1) buf n g a"
    using g by (rule mem_effE) blast
  obtain m1 where m1: "s1 = s\<lparr>machine := m1\<rparr>" using f by (rule mem_effE)
  have "m2 a = fill (machine s) buf n g a" if "\<not> scratch s a" for a
    using m2(2) [of a] that sc mem_effD [OF f that] by (auto simp: fill_def)
  then have "mem_eff s (fill (machine s) buf n g) s2" unfolding m2(1) m1 by (auto simp: mem_eff_def)
  then show ?thesis by (auto simp: only_buf_def)
qed

lemma only_buf_refl: "only_buf s buf n s"
  unfolding only_buf_def
  by (intro exI [of _ "\<lambda>k. machine s (buf + k)"] mem_eff_refl) (auto simp: fill_def)

lemma only_bufD:
  assumes "only_buf s buf n s'"
  shows "same_fs s s'" "user_buf s' = user_buf s" "\<not> scratch s a \<Longrightarrow> a < buf \<or> buf + n \<le> a \<Longrightarrow> machine s' a = machine s a"
proof -
  obtain f where f: "mem_eff s (fill (machine s) buf n f) s'" using assms by (auto simp: only_buf_def)
  show sm: "same_fs s s'" by (rule mem_eff_facts(1) [OF f])
  show "user_buf s' = user_buf s" by (rule same_fsD(5) [OF sm])
  show "\<not> scratch s a \<Longrightarrow> a < buf \<or> buf + n \<le> a \<Longrightarrow> machine s' a = machine s a"
    using mem_effD [OF f] by (auto simp: fill_def)
qed

lemma only_buf_file:
  assumes "only_buf s buf n s'" and "fs_inv s" and "inode_ok s d" and "user_buf s buf n"
  shows "fs_inv s'" "inode_ok s' d" "j < unat (din_blocks d) \<Longrightarrow> k < 4096 \<Longrightarrow> fbyte s' d j k = fbyte s d j k"
    "j < unat (din_blocks d) \<Longrightarrow> dent_ino s' d j = dent_ino s d j" "j < unat (din_blocks d) \<Longrightarrow> dent_name s' d j = dent_name s d j"
proof -
  obtain f where f: "mem_eff s (fill (machine s) buf n f) s'" using assms(1) by (auto simp: only_buf_def)
  note fe = fill_effect [OF assms(2,3,4) f]
  show "fs_inv s'" "inode_ok s' d" "j < unat (din_blocks d) \<Longrightarrow> k < 4096 \<Longrightarrow> fbyte s' d j k = fbyte s d j k" by (rule fe)+
  assume j: "j < unat (din_blocks d)"
  have "peek (fbyte s' d j) 0 4 = peek (fbyte s d j) 0 4" by (rule peek_cong) (use fe(3) [OF j] in simp)
  then show "dent_ino s' d j = dent_ino s d j" by (simp add: dent_ino_def)
  have "block (fbyte s' d j) 4 255 = block (fbyte s d j) 4 255" by (rule nth_equalityI) (use fe(3) [OF j] in simp_all)
  then show "dent_name s' d j = dent_name s d j" by (simp add: dent_name_def)
qed

lemma cstr_takeWhile: "m (a + n) = NUL \<Longrightarrow> cstr m a (takeWhile (\<lambda>c. c \<noteq> NUL) (block m a n))"
proof (induction n arbitrary: a)
  case (Suc n)
  then show ?case using Suc.IH [of "a + 1"] by (simp add: block_Suc)
qed simp

lemma dirent_read_run:
  assumes inv: "fs_inv s" and ok: "inode_ok s (din x)" and dir: "din_type (din x) = SFS_TYPE_DIR"
    and j: "j < unat (din_blocks (din x))" and e: "user_buf s e 260"
  shows "\<exists>s'. sfs_dirent_read_nolock s x j e = Some (s', x, 0) \<and> only_buf s e 260 s'
    \<and> entry_ino (machine s') e = dent_ino s (din x) j \<and> cstr (machine s') (entry_name e) (dent_name s (din x) j)"
proof -
  let ?d = "din x" and ?b = "file_entry s (din x) j"
  obtain s0 where l: "sfs_bmap_load_nolock s x j = Some (s0, x, 0, ?b)" "mem_eff s (machine s) s0"
    using load_existing [OF inv ok j] by blast
  obtain s1 ino s' where r: "sfs_bmap_load_nolock s x j = Some (s1, x, 0, ino)" "sfs_rbuf s1 e 260 ino (int 0) = Some (s', 0)"
    "mem_eff s (fill (machine s) e 260 (\<lambda>k. fbyte s ?d j (0 + k))) s'"
    using read_part [OF inv ok j, of 0 260 e] e by auto
  have eq: "s1 = s0" "ino = ?b" using r(1) l(1) by simp_all
  have used: "sfs_block_inuse s1 ino = Some True"
    using inuse_same [of s0 ?b] mem_eff_facts(2,3) [OF l(2)] inv inode_okD(1) [OF ok j] eq by simp
  let ?f = "(fbyte s ?d j)(259 := NUL)"
  let ?s = "s'\<lparr>machine := (machine s')(e + 259 := NUL)\<rparr>"
  obtain m' where m': "s' = s\<lparr>machine := m'\<rparr>" "\<And>a. \<not> scratch s a \<Longrightarrow> m' a = fill (machine s) e 260 (\<lambda>k. fbyte s ?d j (0 + k)) a"
    using r(3) by (rule mem_effE) blast
  have eff: "mem_eff s (fill (machine s) e 260 ?f) ?s"
  proof -
    have "(m'(e + 259 := NUL)) a = fill (machine s) e 260 ?f a" if "\<not> scratch s a" for a
      using m'(2) [OF that] by (auto simp: fill_def)
    then show ?thesis unfolding m'(1) by (auto simp: mem_eff_def)
  qed
  have ns: "\<not> scratch s (e + k)" if "k < 260" for k
    using e that by (auto simp: user_buf_def scratch_def apart_def)
  have byte: "machine ?s (e + k) = ?f k" if "k < 260" for k
    using mem_effD [OF eff ns [OF that]] that by (simp add: fill_def)
  have "peek (machine ?s) e 4 = peek (fbyte s ?d j) 0 4"
  proof (rule peek_shift)
    fix k :: nat assume "k < 4"
    then show "machine ?s (e + k) = fbyte s ?d j (0 + k)" using byte [of k] by simp
  qed
  moreover have "cstr (machine ?s) (e + 4) (takeWhile (\<lambda>c. c \<noteq> NUL) (block (machine ?s) (e + 4) 255))"
    by (rule cstr_takeWhile) simp
  moreover have "block (machine ?s) (e + 4) 255 = block (fbyte s ?d j) 4 255"
  proof (rule nth_equalityI)
    fix k assume "k < length (block (machine ?s) (e + 4) 255)"
    then have "k < 255" by simp
    then show "block (machine ?s) (e + 4) 255 ! k = block (fbyte s ?d j) 4 255 ! k"
      using byte [of "4 + k"] by (simp add: add.assoc)
  qed simp
  moreover have "sfs_dirent_read_nolock s x j e = Some (?s, x, 0)"
    using dir j r(1,2) used by (simp add: sfs_dirent_read_nolock_def add.commute)
  ultimately show ?thesis using eff unfolding only_buf_def dent_ino_def dent_name_def by metis
qed

text \<open>The slots from \<open>i\<close> on that hold the name.\<close>

definition slots_of :: "sfs_fs \<Rightarrow> sfs_disk_inode \<Rightarrow> char list \<Rightarrow> nat \<Rightarrow> nat list" where
  "slots_of s d w i = filter (\<lambda>j. dent_ino s d j \<noteq> 0 \<and> dent_name s d j = w) [i..<unat (din_blocks d)]"

lemma slots_of_step:
  "i < unat (din_blocks d) \<Longrightarrow> slots_of s d w i
    = (if dent_ino s d i \<noteq> 0 \<and> dent_name s d i = w then i # slots_of s d w (i + 1) else slots_of s d w (i + 1))"
  by (simp add: slots_of_def upt_conv_Cons)

lemma slots_of_cong:
  assumes "\<And>j. j < unat (din_blocks d) \<Longrightarrow> dent_ino s' d j = dent_ino s d j \<and> dent_name s' d j = dent_name s d j"
  shows "slots_of s' d w i = slots_of s d w i"
  unfolding slots_of_def by (rule filter_cong) (use assms in auto)

text \<open>The answer of a search that has the slots \<open>js\<close> to choose from: the first.\<close>

definition found_code :: "nat list \<Rightarrow> int" where
  "found_code js = (if js = [] then - E_NOENT else 0)"

definition found_slot :: "sfs_fs \<Rightarrow> sfs_disk_inode \<Rightarrow> nat list \<Rightarrow> (u32 \<times> nat) option" where
  "found_slot s d js = (if js = [] then None else Some (dent_ino s d (hd js), hd js))"

lemma search_slots_run:
  assumes "fs_inv s" and "inode_ok s (din x)" and "din_type (din x) = SFS_TYPE_DIR" and "i + k = unat (din_blocks (din x))"
    and "user_buf s e 260" and "user_buf s name (length w + 1)" and "apart name (length w + 1) e 260" and "cstr (machine s) name w"
  shows "\<exists>s' es. search_slots s x name e i k es0
      = Some (s', x, found_code (slots_of s (din x) w i), found_slot s (din x) (slots_of s (din x) w i), es) \<and> only_buf s e 260 s'"
  using assms
proof (induction k arbitrary: s i es0)
  case 0
  then have "slots_of s (din x) w i = []" by (simp add: slots_of_def)
  then show ?case using only_buf_refl by (auto simp: found_code_def found_slot_def)
next
  case (Suc k)
  have i: "i < unat (din_blocks (din x))" using Suc.prems(4) by simp
  obtain s1 where r: "sfs_dirent_read_nolock s x i e = Some (s1, x, 0)" "only_buf s e 260 s1"
    "entry_ino (machine s1) e = dent_ino s (din x) i" "cstr (machine s1) (entry_name e) (dent_name s (din x) i)"
    using dirent_read_run [OF Suc.prems(1-3) i Suc.prems(5)] by blast
  note of = only_buf_file [OF r(2) Suc.prems(1,2,5)] and od = only_bufD [OF r(2)]
  have "machine s1 a = machine s a" if "name \<le> a" "a \<le> name + length w" for a
    by (rule od(3)) (use Suc.prems(6,7) that in \<open>auto simp: user_buf_def scratch_def apart_def\<close>)
  from cstr_frame [of name w "machine s1" "machine s", OF this] Suc.prems(8) have nm: "cstr (machine s1) name w" by simp
  obtain c where c: "strcmp (machine s1) name (entry_name e) = Some c" "c = 0 \<longleftrightarrow> w = dent_name s (din x) i"
    using strcmp_cstr [OF nm r(4)] by blast
  have sl: "slots_of s1 (din x) w (i + 1) = slots_of s (din x) w (i + 1)" by (rule slots_of_cong) (use of(4,5) in simp)
  have fd: "found_slot s1 (din x) (slots_of s (din x) w (i + 1)) = found_slot s (din x) (slots_of s (din x) w (i + 1))"
    using of(4) hd_in_set [of "slots_of s (din x) w (i + 1)"] by (auto simp: slots_of_def found_slot_def)
  have prems: "i + 1 + k = unat (din_blocks (din x))" "user_buf s1 e 260" "user_buf s1 name (length w + 1)"
    using Suc.prems(4,5,6) od(2) by simp_all
  note IH = Suc.IH [OF of(1,2) Suc.prems(3) prems(1,2,3) Suc.prems(7) nm, unfolded sl fd]
  consider "dent_ino s (din x) i = 0" | "dent_ino s (din x) i \<noteq> 0" "dent_name s (din x) i = w" | "dent_ino s (din x) i \<noteq> 0" "dent_name s (din x) i \<noteq> w" by blast
  then show ?case
  proof cases
    case 1
    obtain s' es where "search_slots s1 x name e (i + 1) k i = Some (s', x, found_code (slots_of s (din x) w (i + 1)),
      found_slot s (din x) (slots_of s (din x) w (i + 1)), es)" "only_buf s1 e 260 s'"
      using IH by blast
    then show ?thesis using r 1 slots_of_step [OF i, of s w] only_buf_trans [OF r(2)] by auto
  next
    case 2
    then show ?thesis using r(1-3) c slots_of_step [OF i, of s w] by (auto simp: found_code_def found_slot_def)
  next
    case 3
    obtain s' es where "search_slots s1 x name e (i + 1) k es0 = Some (s', x, found_code (slots_of s (din x) w (i + 1)),
      found_slot s (din x) (slots_of s (din x) w (i + 1)), es)" "only_buf s1 e 260 s'"
      using IH by blast
    then show ?thesis using r 3 c slots_of_step [OF i, of s w] only_buf_trans [OF r(2)] by auto
  qed
qed

lemma filter_hd:
  assumes "js = filter P [0..<n]" and "js \<noteq> []"
  shows "hd js < n \<and> P (hd js) \<and> (\<forall>i < hd js. \<not> P i)"
  using assms
proof (induction n arbitrary: js)
  case (Suc n)
  show ?case
  proof (cases "filter P [0..<n] = []")
    case True
    then have "\<forall>i < n. \<not> P i" by (auto simp: filter_empty_conv)
    then show ?thesis using Suc.prems True by (auto split: if_splits)
  next
    case False
    have "js = filter P [0..<n] @ filter P [n]" using Suc.prems(1) by simp
    then have h: "hd js = hd (filter P [0..<n])" using False hd_append2 by metis
    show ?thesis using Suc.IH [OF refl False] unfolding h by (meson less_SucI)
  qed
qed simp

text \<open>
  C30. Looking up a name in a directory: \<open>sfs_dirent_search_nolock\<close> returns the inode and the slot of the first entry in use
  with that name, and \<open>E_NOENT\<close> exactly when there is none; apart from its buffers it changes nothing.
\<close>

theorem directory_search:
  assumes "fs_inv s" and "inode_ok s (din x)" and "din_type (din x) = SFS_TYPE_DIR" and "cstr (machine s) name w" and "length w \<le> 255"
    and "user_buf s e 260" and "user_buf s name (length w + 1)" and "apart name (length w + 1) e 260"
  shows "if \<forall>j < unat (din_blocks (din x)). dent_ino s (din x) j = 0 \<or> dent_name s (din x) j \<noteq> w
    then \<exists>s' es. sfs_dirent_search_nolock s x name (Some e) = Some (s', x, - E_NOENT, None, es) \<and> only_buf s e 260 s'
    else \<exists>s' es j. sfs_dirent_search_nolock s x name (Some e) = Some (s', x, 0, Some (dent_ino s (din x) j, j), es) \<and> only_buf s e 260 s'
      \<and> j < unat (din_blocks (din x)) \<and> dent_ino s (din x) j \<noteq> 0 \<and> dent_name s (din x) j = w
      \<and> (\<forall>i < j. dent_ino s (din x) i = 0 \<or> dent_name s (din x) i \<noteq> w)"
proof -
  define js where "js = slots_of s (din x) w 0"
  obtain s' es where r: "search_slots s x name e 0 (unat (din_blocks (din x))) (unat (din_blocks (din x)))
      = Some (s', x, found_code js, found_slot s (din x) js, es)" "only_buf s e 260 s'"
    using search_slots_run [OF assms(1-3) _ assms(6-8,4), of 0] unfolding js_def by force
  have run: "sfs_dirent_search_nolock s x name (Some e) = Some (s', x, found_code js, found_slot s (din x) js, es)"
    using strlen_cstr [OF assms(4)] assms(5) r(1) by (simp add: sfs_dirent_search_nolock_def)
  show ?thesis
  proof (cases "js = []")
    case True
    then have "\<forall>j < unat (din_blocks (din x)). dent_ino s (din x) j = 0 \<or> dent_name s (din x) j \<noteq> w"
      by (auto simp: js_def slots_of_def filter_empty_conv)
    then show ?thesis using run r(2) True by (auto simp: found_code_def found_slot_def)
  next
    case False
    note h = filter_hd [OF js_def [unfolded slots_of_def] False]
    then have "\<not> (\<forall>j < unat (din_blocks (din x)). dent_ino s (din x) j = 0 \<or> dent_name s (din x) j \<noteq> w)" by blast
    moreover have "sfs_dirent_search_nolock s x name (Some e) = Some (s', x, 0, Some (dent_ino s (din x) (hd js), hd js), es)"
      using run False by (simp add: found_code_def found_slot_def)
    ultimately show ?thesis using r(2) h by (simp del: not_all)
  qed
qed

text \<open>A directory on the demonstration disk whose only entry, in block 4, names \<open>ab\<close> as the inode 3.\<close>

definition demo_dir_fs :: sfs_fs where
  "demo_dir_fs = demo_fs\<lparr>machine := poke (poke (machine demo_fs) 116384 (le32 3 @ ''ab'' @ [NUL])) 420000 (''ab'' @ [NUL])\<rparr>"

definition demo_dir :: sfs_inode where
  "demo_dir = demo_file\<lparr>din := (din demo_file)\<lparr>din_type := SFS_TYPE_DIR\<rparr>\<rparr>"

lemma demo_dir_ok: "fs_inv demo_dir_fs" "inode_ok demo_dir_fs (din demo_dir)"
proof -
  show "fs_inv demo_dir_fs" unfolding demo_dir_fs_def fs_inv_mem by (rule demo_fs_inv)
  have "file_entry demo_dir_fs (din demo_dir) i = (if i = 0 then 4 else 0)" for i
    by (auto simp: file_entry_def demo_dir_def demo_file_def nth_Cons split: nat.splits)
  moreover have "in_use demo_dir_fs 4" unfolding demo_dir_fs_def in_use_mem unfolding in_use_def demo_free by (simp add: demo_fs_def)
  ultimately show "inode_ok demo_dir_fs (din demo_dir)" by (simp add: inode_ok_def owned_def demo_dir_def demo_file_def)
qed

lemma demo_dir_entry: "dent_ino demo_dir_fs (din demo_dir) 0 = 3" "dent_name demo_dir_fs (din demo_dir) 0 = ''ab''"
proof -
  have b: "fbyte demo_dir_fs (din demo_dir) 0 k = poke (machine demo_fs) 116384 (le32 3 @ ''ab'' @ [NUL]) (116384 + k)" if "k < 4096" for k
    using that by (simp add: fbyte_def file_entry_def disk_at_def image_def demo_dir_def demo_file_def demo_dir_fs_def demo_fs_def demo_devs_def poke_def)
  have "peek (fbyte demo_dir_fs (din demo_dir) 0) 0 4 = peek (poke (poke (machine demo_fs) 116384 (le32 3)) 116388 (''ab'' @ [NUL])) 116384 4"
    by (rule peek_shift) (use b in \<open>simp add: poke_append\<close>)
  also have "\<dots> = peek (poke (machine demo_fs) 116384 (le32 3)) 116384 4" by (rule peek_poke_other) simp
  finally show "dent_ino demo_dir_fs (din demo_dir) 0 = 3" using ld_le_32 [of "machine demo_fs" 116384 3] by (simp add: dent_ino_def)
  let ?rest = "block (fbyte demo_dir_fs (din demo_dir) 0) 7 252"
  have "block (fbyte demo_dir_fs (din demo_dir) 0) 4 255 = CHR ''a'' # CHR ''b'' # NUL # ?rest"
    using b [of 4] b [of 5] b [of 6] by (simp add: block_def poke_def upt_conv_Cons nth_append)
  then show "dent_name demo_dir_fs (din demo_dir) 0 = ''ab''" by (simp add: dent_name_def)
qed

theorem directory_search_witness:
  "\<exists>s' es. sfs_dirent_search_nolock demo_dir_fs demo_dir 420000 (Some 400000) = Some (s', demo_dir, 0, Some (3, 0), es)"
proof -
  have "din_type (din demo_dir) = SFS_TYPE_DIR" "cstr (machine demo_dir_fs) 420000 ''ab''" "length ''ab'' \<le> 255"
    "user_buf demo_dir_fs 400000 260" "user_buf demo_dir_fs 420000 (length ''ab'' + 1)" "apart 420000 (length ''ab'' + 1) 400000 260"
    by (simp_all add: demo_dir_def demo_dir_fs_def poke_def user_buf_def demo_fs_def apart_def image_def image_size_def demo_devs_def)
  note r = directory_search [OF demo_dir_ok this]
  have n: "unat (din_blocks (din demo_dir)) = 1" by (simp add: demo_dir_def demo_file_def)
  have "\<not> (\<forall>j < unat (din_blocks (din demo_dir)). dent_ino demo_dir_fs (din demo_dir) j = 0 \<or> dent_name demo_dir_fs (din demo_dir) j \<noteq> ''ab'')"
    unfolding n using demo_dir_entry by auto
  with r obtain s' es j where "sfs_dirent_search_nolock demo_dir_fs demo_dir 420000 (Some 400000)
      = Some (s', demo_dir, 0, Some (dent_ino demo_dir_fs (din demo_dir) j, j), es)" "j < 1"
    unfolding n by auto
  then show ?thesis using demo_dir_entry(1) by auto
qed

subsection \<open>An inode on the disk\<close>

lemma length_words [simp]: "length (concat (map (\<lambda>w. le32 w) ws)) = 4 * length ws"
  by (induction ws) simp_all

lemma ld_words: "i < length ws \<Longrightarrow> ld32 (poke m a (concat (map (\<lambda>w. le32 w) ws))) (a + 4 * i) = ws ! i"
proof (induction ws arbitrary: m a i)
  case (Cons w ws)
  show ?case
  proof (cases i)
    case 0
    then show ?thesis using ld_le_32 [of m a w] by (simp add: poke_append peek_poke_other)
  next
    case (Suc j)
    then show ?thesis using Cons.IH [of j "poke m a (le32 w)" "a + 4"] Cons.prems by (simp add: poke_append add.assoc)
  qed
qed simp

lemma inode_at_poke:
  assumes "length (din_direct d) = 12"
  shows "inode_at (poke m a (inode_bytes d)) a = d"
proof -
  let ?m1 = "poke m a (le32 (din_size d))" let ?m2 = "poke ?m1 (a + 4) (le16 (din_type d))"
  let ?m3 = "poke ?m2 (a + 6) (le16 (din_nlinks d))" let ?m4 = "poke ?m3 (a + 8) (le32 (din_blocks d))"
  let ?m5 = "poke ?m4 (a + 12) (concat (map (\<lambda>w. le32 w) (din_direct d)))" let ?m6 = "poke ?m5 (a + 60) (le32 (din_indirect d))"
  have m: "poke m a (inode_bytes d) = ?m6" using assms by (simp add: inode_bytes_def poke_append add.assoc add.commute)
  have "map (\<lambda>i. ld32 ?m6 (a + 12 + 4 * i)) [0..<12] = din_direct d"
  proof (rule nth_equalityI)
    fix i assume "i < length (map (\<lambda>i. ld32 ?m6 (a + 12 + 4 * i)) [0..<12])"
    then have "i < 12" by simp
    then show "map (\<lambda>i. ld32 ?m6 (a + 12 + 4 * i)) [0..<12] ! i = din_direct d ! i"
      using ld_words [of i "din_direct d" ?m4 "a + 12"] assms by (simp add: peek_poke_other)
  qed (simp add: assms)
  moreover have "ld32 ?m6 a = din_size d" "ld16 ?m6 (a + 4) = din_type d" "ld16 ?m6 (a + 6) = din_nlinks d"
    "ld32 ?m6 (a + 8) = din_blocks d" "ld32 ?m6 (a + 60) = din_indirect d"
    using ld_le_32 [of m a] ld_le_16 [of ?m1 "a + 4"] ld_le_16 [of ?m2 "a + 6"] ld_le_32 [of ?m3 "a + 8"] ld_le_32 [of ?m5 "a + 60"] assms
    by (simp_all add: peek_poke_other)
  ultimately show ?thesis unfolding m inode_at_def by simp
qed

lemma inode_at_shift:
  assumes "\<And>k. k < 64 \<Longrightarrow> m (a + k) = m' (b + k)"
  shows "inode_at m a = inode_at m' b"
proof -
  have p: "peek m (a + o') n = peek m' (b + o') n" if "o' + n \<le> 64" for o' n
    by (rule peek_shift) (use assms [of "o' + _"] that in \<open>simp add: add.assoc\<close>)
  have "map (\<lambda>i. ld32 m (a + 12 + 4 * i)) [0..<12] = map (\<lambda>i. ld32 m' (b + 12 + 4 * i)) [0..<12]"
    by (rule map_cong) (use p [of "12 + 4 * _" 4] in \<open>auto simp: add.assoc\<close>)
  then show ?thesis using p [of 0 4] p [of 4 2] p [of 6 2] p [of 8 4] p [of 60 4] by (simp add: inode_at_def)
qed

subsection \<open>Writing back and loading an inode\<close>

text \<open>The inode is dirty, or the disk holds what it holds.\<close>

definition synced :: "sfs_fs \<Rightarrow> sfs_inode \<Rightarrow> bool" where
  "synced s x = (sin_dirty x \<or> inode_at (machine s) (disk_at s (sin_ino x)) = din x)"

text \<open>The file system \<open>s'\<close> differs from \<open>s\<close> in memory only, and its disk holds the inode \<open>d\<close> in block \<open>b\<close>.\<close>

definition stored :: "sfs_fs \<Rightarrow> u32 \<Rightarrow> sfs_disk_inode \<Rightarrow> sfs_fs \<Rightarrow> bool" where
  "stored s b d s' = ((\<exists>m. s' = s\<lparr>machine := m\<rparr>) \<and> inode_at (machine s') (disk_at s' b) = d)"

lemma fsync_stores:
  assumes "fs_inv (fs st)" and "i = inodes st n" and "x = in_info i" and "in_use (fs st) (sin_ino x)" and "length (din_direct (din x)) = 12"
    and "user_buf (fs st) (din_mem i) 64" and "sin_dirty x"
  shows "\<exists>s'. sfs_fsync st n = Some (set_node n (\<lambda>i. i\<lparr>in_info := (in_info i)\<lparr>sin_dirty := False\<rparr>\<rparr>) (st\<lparr>fs := s'\<rparr>), 0)
    \<and> stored (fs st) (sin_ino x) (din x) s'"
proof -
  let ?s = "fs st" and ?b = "sin_ino x" and ?p = "din_mem i"
  let ?t = "?s\<lparr>machine := poke (machine ?s) ?p (inode_bytes (din x))\<rparr>"
  have b: "?b < s_blocks (super ?s)" "?b \<noteq> 0" using assms(4) by (simp_all add: in_use_def)
  have rdy: "fs_ready ?t" using assms(1) by (simp add: fs_inv_def)
  have ub: "user_buf ?t ?p 64" using assms(6) by (simp add: user_buf_def)
  obtain s' where w: "sfs_wbuf ?t ?p 64 ?b (int 0) = Some (s', 0)"
    "mem_eff ?t (blit (machine ?t) (disk_at ?t ?b + 0) ?p 64) s'"
    using write_user [OF rdy _ b(2), of 0 64 ?p] b ub by auto
  obtain m' where m': "s' = ?t\<lparr>machine := m'\<rparr>" using w(2) by (rule mem_effE)
  have "machine s' (disk_at ?s ?b + k) = machine ?t (?p + k)" if k: "k < 64" for k
  proof -
    have "\<not> scratch ?t (disk_at ?t ?b + k)" using disk_not_scratch [OF rdy, of ?b k] b(1) k by simp
    from mem_effD [OF w(2) this] show ?thesis using k by (simp add: blit_def)
  qed
  then have "inode_at (machine s') (disk_at ?s ?b) = inode_at (machine ?t) ?p" by (rule inode_at_shift)
  also have "\<dots> = din x" by (simp add: inode_at_poke [OF assms(5)])
  finally have d: "inode_at (machine s') (disk_at ?s ?b) = din x" .
  have s': "s' = ?s\<lparr>machine := m'\<rparr>" using m' by simp
  have "disk_at s' ?b = disk_at ?s ?b" unfolding s' by simp
  then have "stored ?s ?b (din x) s'" unfolding stored_def using d s' by metis
  moreover have "sfs_fsync st n = Some (set_node n (\<lambda>i. i\<lparr>in_info := (in_info i)\<lparr>sin_dirty := False\<rparr>\<rparr>) (st\<lparr>fs := s'\<rparr>), 0)"
    using w(1) assms(7) unfolding assms(2,3) by (simp add: sfs_fsync_def)
  ultimately show ?thesis by blast
qed

lemma reclaim_stores:
  assumes "fs_inv (fs st)" and "i = inodes st n" and "x = in_info i" and "in_use (fs st) (sin_ino x)" and "length (din_direct (din x)) = 12"
    and "user_buf (fs st) (din_mem i) 64" and "synced (fs st) x" and "in_ops i \<in> {Sfs_Dirops, Sfs_Fileops}"
    and "ref_count i = 0" and "open_count i = 0" and "reclaim_count x = 1" and "din_nlinks (din x) \<noteq> 0"
  shows "\<exists>st1. sfs_reclaim st n = Some (st1, 0) \<and> stored (fs st) (sin_ino x) (din x) (fs st1)
    \<and> sfs_hash st1 = (sfs_hash st)(sin_hashfn (sin_ino x) := remove1 n (sfs_hash st (sin_hashfn (sin_ino x))))
    \<and> inode_list st1 = remove1 n (inode_list st) \<and> (\<forall>k. k \<noteq> n \<longrightarrow> inodes st1 k = inodes st k)"
proof -
  let ?st = "set_node n (\<lambda>i. i\<lparr>in_info := (in_info i)\<lparr>reclaim_count := reclaim_count (in_info i) - 1\<rparr>\<rparr>) st"
  have node: "inodes ?st n = i\<lparr>in_info := x\<lparr>reclaim_count := 0\<rparr>\<rparr>" "fs ?st = fs st"
    using assms(2,3,11) by (simp_all add: set_node_def)
  show ?thesis
  proof (cases "sin_dirty x")
    case True
    obtain s' where f: "sfs_fsync ?st n = Some (set_node n (\<lambda>i. i\<lparr>in_info := (in_info i)\<lparr>sin_dirty := False\<rparr>\<rparr>) (?st\<lparr>fs := s'\<rparr>), 0)"
      "stored (fs st) (sin_ino x) (din x) s'"
      using fsync_stores [of ?st _ n "x\<lparr>reclaim_count := 0\<rparr>", OF _ node(1) [symmetric]] node assms True by auto
    then show ?thesis using assms True node
      by (auto simp: sfs_reclaim_def vop_fsync_def inode_check_def inode_kill_def sfs_remove_links_def set_node_def Let_def)
  next
    case False
    have "fs st = (fs st)\<lparr>machine := machine (fs st)\<rparr>" by simp
    then have "stored (fs st) (sin_ino x) (din x) (fs st)" using False assms(7) unfolding stored_def synced_def by blast
    then show ?thesis using assms False node
      by (auto simp: sfs_reclaim_def inode_kill_def sfs_remove_links_def set_node_def Let_def)
  qed
qed

lemma load_stored:
  assumes "fs_inv s" and "in_use s b" and "stored s b d s1" and "user_buf s a 64" and "fs st = s1"
    and "\<forall>k \<in> set (sfs_hash st (sin_hashfn b)). sin_ino (in_info (inodes st k)) \<noteq> b" and "din_nlinks d \<noteq> 0"
    and "din_type d \<in> {SFS_TYPE_FILE, SFS_TYPE_DIR}"
  shows "\<exists>st2. sfs_load_inode st b (Some a) (Some k) = Some (st2, 0, Some k)
    \<and> in_info (inodes st2 k) = \<lparr>din = d, sin_ino = b, sin_dirty = False, reclaim_count = 1\<rparr> \<and> ref_count (inodes st2 k) = 1
    \<and> open_count (inodes st2 k) = 0 \<and> k \<in> set (sfs_hash st2 (sin_hashfn b)) \<and> inode_list st2 = k # inode_list st"
proof -
  obtain m where s1: "s1 = s\<lparr>machine := m\<rparr>" "inode_at (machine s1) (disk_at s1 b) = d" using assms(3) by (auto simp: stored_def)
  have rdy: "fs_inv s1" "fs_ready s1" "in_use s1 b" "user_buf s1 a 64" using assms(1,2,4) s1 by (auto simp: fs_inv_def user_buf_def)
  have b: "b < s_blocks (super s1)" "b \<noteq> 0" using rdy(3) by (simp_all add: in_use_def)
  obtain s2 where r: "sfs_rbuf s1 a 64 b (int 0) = Some (s2, 0)" "mem_eff s1 (blit (machine s1) a (disk_at s1 b + 0) 64) s2"
    using read_user [OF rdy(2) b, of 0 64 a] rdy(4) by auto
  have "machine s2 (a + k) = machine s1 (disk_at s1 b + k)" if k: "k < 64" for k
  proof -
    have "\<not> scratch s1 (a + k)" using rdy(4) k by (auto simp: user_buf_def scratch_def apart_def)
    from mem_effD [OF r(2) this] show ?thesis using k by (simp add: blit_def)
  qed
  then have d: "inode_at (machine s2) a = d" using inode_at_shift [of "machine s2" a "machine s1" "disk_at s1 b"] s1(2) by simp
  have l: "lookup_sfs_nolock st b = (st, None)"
    using assms(6) find_None_iff [of "\<lambda>k. sin_ino (in_info (inodes st k)) = b" "sfs_hash st (sin_hashfn b)"]
    by (auto simp: lookup_sfs_nolock_def)
  have "sfs_load_inode st b (Some a) (Some k)
      = Some (sfs_set_links (set_node k (\<lambda>i. i\<lparr>in_info := \<lparr>din = d, sin_ino = b, sin_dirty = False, reclaim_count = 1\<rparr>, din_mem := a\<rparr>)
          (inode_init (st\<lparr>fs := s2\<rparr>) k (if din_type d = SFS_TYPE_DIR then Sfs_Dirops else Sfs_Fileops))) k, 0, Some k)"
    using l assms(5,7,8) r(1) d inuse_same [OF rdy(1,3)] by (auto simp: sfs_load_inode_def sfs_create_inode_def sfs_get_ops_def)
  then show ?thesis by (simp add: sfs_set_links_def set_node_def inode_init_def inode_ref_inc_def Let_def)
qed

text \<open>
  C31. The cache of inodes: when the last reference to an inode with links is dropped (\<open>inode_ref_dec\<close>), it is written back if
  needed, leaves the cache, and loading its number again (\<open>sfs_load_inode\<close>, into any free node) gives an inode with the same
  contents, one reference, and an entry in the hash list.
\<close>

theorem evict_reload:
  assumes "fs_inv (fs st)" and "i = inodes st n" and "x = in_info i" and "in_use (fs st) (sin_ino x)" and "length (din_direct (din x)) = 12"
    and "user_buf (fs st) (din_mem i) 64" and "synced (fs st) x" and "in_ops i \<in> {Sfs_Dirops, Sfs_Fileops}"
    and "ref_count i = 1" and "open_count i = 0" and "reclaim_count x = 1" and "din_nlinks (din x) \<noteq> 0"
    and "din_type (din x) \<in> {SFS_TYPE_FILE, SFS_TYPE_DIR}" and "user_buf (fs st) a 64" and "distinct (sfs_hash st (sin_hashfn (sin_ino x)))"
    and "\<forall>k \<in> set (sfs_hash st (sin_hashfn (sin_ino x))). sin_ino (in_info (inodes st k)) = sin_ino x \<longrightarrow> k = n"
  shows "\<exists>st1 st2. inode_ref_dec st n = Some (st1, 0) \<and> sfs_load_inode st1 (sin_ino x) (Some a) (Some k) = Some (st2, 0, Some k)
    \<and> in_info (inodes st2 k) = \<lparr>din = din x, sin_ino = sin_ino x, sin_dirty = False, reclaim_count = 1\<rparr>
    \<and> ref_count (inodes st2 k) = 1 \<and> k \<in> set (sfs_hash st2 (sin_hashfn (sin_ino x)))"
proof -
  let ?st = "set_node n (\<lambda>i. i\<lparr>ref_count := ref_count i - 1\<rparr>) st" and ?b = "sin_hashfn (sin_ino x)"
  have node: "inodes ?st n = i\<lparr>ref_count := 0\<rparr>" and rest: "fs ?st = fs st" "sfs_hash ?st = sfs_hash st" "inode_list ?st = inode_list st"
    using assms(2,9) by (simp_all add: set_node_def)
  obtain st1 where r: "sfs_reclaim ?st n = Some (st1, 0)" "stored (fs st) (sin_ino x) (din x) (fs st1)"
    "sfs_hash st1 = (sfs_hash st)(?b := remove1 n (sfs_hash st ?b))" "\<forall>k. k \<noteq> n \<longrightarrow> inodes st1 k = inodes ?st k"
    using reclaim_stores [of ?st _ n x, OF _ node [symmetric]] assms(1,3-12) unfolding rest by auto
  have "inode_ref_dec st n = Some (st1, 0)"
    using r(1) node assms(8-10) assms(2) [symmetric] by (auto simp: inode_ref_dec_def vop_reclaim_def inode_check_def Let_def set_node_def)
  moreover have "\<forall>k \<in> set (sfs_hash st1 ?b). sin_ino (in_info (inodes st1 k)) \<noteq> sin_ino x"
  proof
    fix k assume "k \<in> set (sfs_hash st1 ?b)"
    then have k: "k \<in> set (sfs_hash st ?b)" "k \<noteq> n" using r(3) assms(15) by auto
    then show "sin_ino (in_info (inodes st1 k)) \<noteq> sin_ino x" using r(4) assms(16) by (auto simp: set_node_def)
  qed
  ultimately show ?thesis using load_stored [OF assms(1,4) r(2) assms(14) refl _ assms(12), of k] assms(13) by auto
qed

definition demo_vnodes :: "unit vnodes_scheme" where
  "demo_vnodes = \<lparr>fs = demo_fs, inodes = (\<lambda>k. \<lparr>in_ops = Sfs_Fileops, ref_count = 1, open_count = 0,
     in_info = demo_file\<lparr>sin_dirty := True\<rparr>, din_mem = 330000\<rparr>), inode_list = [7], sfs_hash = (\<lambda>b. if b = sin_hashfn 3 then [7] else [])\<rparr>"

theorem evict_reload_witness:
  "\<exists>st1 st2. inode_ref_dec demo_vnodes 7 = Some (st1, 0) \<and> sfs_load_inode st1 3 (Some 400000) (Some 8) = Some (st2, 0, Some 8)
    \<and> din (in_info (inodes st2 8)) = din demo_file"
proof -
  let ?i = "inodes demo_vnodes 7" and ?x = "demo_file\<lparr>sin_dirty := True\<rparr>"
  have fs: "fs demo_vnodes = demo_fs" by (simp add: demo_vnodes_def)
  have "in_use demo_fs 3" unfolding in_use_def demo_free by (simp add: demo_fs_def)
  then have use: "in_use demo_fs (sin_ino ?x)" by (simp add: demo_file_def)
  have buf: "user_buf demo_fs 330000 64" "user_buf demo_fs 400000 64"
    using demo_user_buf(1) [of 64] by (simp_all add: user_buf_def demo_fs_def apart_def image_def image_size_def demo_devs_def)
  have i: "?x = in_info ?i" "din_mem ?i = 330000" "in_ops ?i \<in> {Sfs_Dirops, Sfs_Fileops}" "ref_count ?i = 1" "open_count ?i = 0"
    by (simp_all add: demo_vnodes_def)
  have x: "synced demo_fs ?x" "reclaim_count ?x = 1" "length (din_direct (din ?x)) = 12" "din_nlinks (din ?x) \<noteq> 0"
    "din_type (din ?x) \<in> {SFS_TYPE_FILE, SFS_TYPE_DIR}"
    by (simp_all add: demo_file_def synced_def)
  have h: "distinct (sfs_hash demo_vnodes (sin_hashfn (sin_ino ?x)))"
    "\<forall>k \<in> set (sfs_hash demo_vnodes (sin_hashfn (sin_ino ?x))). sin_ino (in_info (inodes demo_vnodes k)) = sin_ino ?x \<longrightarrow> k = 7"
    by (simp_all add: demo_vnodes_def demo_file_def)
  obtain st1 st2 where "inode_ref_dec demo_vnodes 7 = Some (st1, 0)"
      "sfs_load_inode st1 (sin_ino ?x) (Some 400000) (Some 8) = Some (st2, 0, Some 8)"
      "in_info (inodes st2 8) = \<lparr>din = din ?x, sin_ino = sin_ino ?x, sin_dirty = False, reclaim_count = 1\<rparr>"
    using evict_reload [of demo_vnodes ?i 7 ?x 400000 8, unfolded fs i(2),
        OF demo_fs_inv refl i(1) use x(3) buf(1) x(1) i(3-5) x(2,4,5) buf(2) h] by blast
  then show ?thesis by (auto simp: demo_file_def)
qed

end
