(* ===== verification/Sfs_Mount.thy ===== *)
theory Sfs_Mount
  imports Sfs_Dir
begin

section \<open>Mounting: \<open>kern/fs/sfs/sfs_fs.c\<close>\<close>

text \<open>
  Mounting reads the super block and the free map into a new \<open>sfs_fs\<close>; \<open>sfs_sync\<close> writes them back. The results of
  the allocations are arguments: \<open>None\<close> and \<open>False\<close> are failures.
\<close>

subsection \<open>Operations of a mounted file system\<close>

fun sync_inodes :: "'a vnodes_scheme \<Rightarrow> nat list \<Rightarrow> 'a vnodes_scheme option" where
  "sync_inodes st [] = Some st"
| "sync_inodes st (n # ns) = do { (st, ret) \<leftarrow> vop_fsync st n; sync_inodes st ns }"

definition sync_super_freemap :: "sfs_fs \<Rightarrow> (sfs_fs \<times> int) option" where
  "sync_super_freemap sfs =
     (if super_dirty sfs
      then do {
        (sfs, ret) \<leftarrow> sfs_sync_super (sfs\<lparr>super_dirty := False\<rparr>);
        if ret \<noteq> 0 then Some (sfs\<lparr>super_dirty := True\<rparr>, ret)
        else do {
          (sfs, ret) \<leftarrow> sfs_sync_freemap sfs;
          if ret \<noteq> 0 then Some (sfs\<lparr>super_dirty := True\<rparr>, ret) else Some (sfs, 0) } }
      else Some (sfs, 0))"

definition sfs_sync :: "'a vnodes_scheme \<Rightarrow> ('a vnodes_scheme \<times> int) option" where
  "sfs_sync st =
     do { st \<leftarrow> sync_inodes st (inode_list st);
          (s, ret) \<leftarrow> sync_super_freemap (fs st);
          Some (st\<lparr>fs := s\<rparr>, ret) }"

definition sfs_get_root :: "'a vnodes_scheme \<Rightarrow> allocs \<Rightarrow> ('a vnodes_scheme \<times> nat) option" where
  "sfs_get_root st al =
     do { (st, ret, node) \<leftarrow> sfs_load_inode st SFS_BLKN_ROOT (a_din al) (a_node al);
          kassert (ret = 0);
          node \<leftarrow> node;
          Some (st, node) }"

definition sfs_unmount :: "'a vnodes_scheme \<Rightarrow> int option" where
  "sfs_unmount st =
     (if inode_list st \<noteq> [] then Some (- E_BUSY)
      else do { kassert (\<not> super_dirty (fs st)); Some 0 })"

text \<open>The loop of \<open>sfs_cleanup\<close>, with \<open>k\<close> attempts left.\<close>

fun cleanup_loop :: "'a vnodes_scheme \<Rightarrow> nat \<Rightarrow> 'a vnodes_scheme option" where
  "cleanup_loop st 0 = Some st"
| "cleanup_loop st (Suc k) = do { (st, ret) \<leftarrow> sfs_sync st; if ret = 0 then Some st else cleanup_loop st k }"

definition sfs_cleanup :: "'a vnodes_scheme \<Rightarrow> 'a vnodes_scheme option" where
  "sfs_cleanup st = cleanup_loop st 32"

subsection \<open>Mounting\<close>

definition sfs_init_read :: "ide_devices \<Rightarrow> disk0 \<Rightarrow> memory \<Rightarrow> u32 \<Rightarrow> nat \<Rightarrow> (memory \<times> int) option" where
  "sfs_init_read devs d m blkno buf =
     do { (m, iob, ret) \<leftarrow> disk0_io devs d m (iobuf_init buf SFS_BLKSIZE (uint (blkno * 4096))) False; Some (m, ret) }"

text \<open>The loop of \<open>sfs_init_freemap\<close>; the words of the bitmap are then what lies at \<open>data\<close>.\<close>

fun init_freemap_loop :: "ide_devices \<Rightarrow> disk0 \<Rightarrow> memory \<Rightarrow> u32 \<Rightarrow> nat \<Rightarrow> nat \<Rightarrow> (memory \<times> int) option" where
  "init_freemap_loop devs d m blkno data 0 = Some (m, 0)"
| "init_freemap_loop devs d m blkno data (Suc n) =
     do { (m, ret) \<leftarrow> sfs_init_read devs d m blkno data;
          if ret \<noteq> 0 then Some (m, ret) else init_freemap_loop devs d m (blkno + 1) (data + SFS_BLKSIZE) n }"

definition words_at :: "memory \<Rightarrow> nat \<Rightarrow> nat \<Rightarrow> u32 list" where
  "words_at m a n = map (\<lambda>i. ld32 m (a + 4 * i)) [0..<n]"

definition sfs_init_freemap :: "ide_devices \<Rightarrow> disk0 \<Rightarrow> memory \<Rightarrow> bitmap \<Rightarrow> nat \<Rightarrow> u32 \<Rightarrow> u32 \<Rightarrow> (memory \<times> bitmap \<times> int) option" where
  "sfs_init_freemap devs d m b data blkno nblks =
     do { let len = snd (bitmap_getdata b);
          kassert (len = unat (nblks * 4096));
          (m, ret) \<leftarrow> init_freemap_loop devs d m blkno data (unat nblks);
          Some (m, b\<lparr>bmap_words := words_at m data (nwords b)\<rparr>, ret) }"

fun count_free :: "bitmap \<Rightarrow> nat \<Rightarrow> nat \<Rightarrow> u32 \<Rightarrow> u32 option" where
  "count_free b i 0 unused = Some unused"
| "count_free b i (Suc n) unused =
     do { t \<leftarrow> bitmap_test b i; count_free b (i + 1) n (if t then unused + 1 else unused) }"

record mount_allocs =
  m_fs :: bool
  m_buffer :: "nat option"
  m_hash :: bool
  m_map :: bool
  m_words :: "nat option"
  m_ino :: nat

text \<open>The device is \<open>disk0\<close>, whose block size is \<open>blocksize\<close>; the result is the new file system, if there is one.\<close>

definition sfs_do_mount :: "ide_devices \<Rightarrow> disk0 \<Rightarrow> nat \<Rightarrow> memory \<Rightarrow> mount_allocs \<Rightarrow> (memory \<times> int \<times> sfs_fs option) option" where
  "sfs_do_mount devs d blocksize m al =
     (if blocksize \<noteq> SFS_BLKSIZE then Some (m, - E_NA_DEV, None)
      else if \<not> m_fs al then Some (m, - E_NO_MEM, None)
      else case m_buffer al of
        None \<Rightarrow> Some (m, - E_NO_MEM, None)
      | Some buf \<Rightarrow> do {
          (m, ret) \<leftarrow> sfs_init_read devs d m SFS_BLKN_SUPER buf;
          if ret \<noteq> 0 then Some (m, ret, None)
          else if s_magic (super_at m buf) \<noteq> SFS_MAGIC then Some (m, - E_INVAL, None)
          else if ucast (s_blocks (super_at m buf)) > d_blocks d then Some (m, - E_INVAL, None)
          else do {
            let m = m(buf + 12 + 31 := NUL);
            let sup = super_at m buf;
            if \<not> m_hash al then Some (m, - E_NO_MEM, None)
            else do {
              b \<leftarrow> bitmap_create (m_map al) (m_words al \<noteq> None) (sfs_freemap_bits sup);
              (case (b, m_words al) of
                 (Some b, Some data) \<Rightarrow> do {
                   (m, b, ret) \<leftarrow> sfs_init_freemap devs d m b data SFS_BLKN_FREEMAP (sfs_freemap_blocks sup);
                   if ret \<noteq> 0 then Some (m, ret, None)
                   else do {
                     unused \<leftarrow> count_free b 0 (sfs_freemap_bits sup) 0;
                     kassert (unused = s_unused_blocks sup);
                     Some (m, 0, Some \<lparr>machine = m, dev_table = devs, dev = d, super = sup, free_map = b, super_dirty = False,
                       sfs_buffer = buf, ino_addr = m_ino al, freemap_data = data\<rparr>) } }
               | _ \<Rightarrow> Some (m, - E_NO_MEM, None)) } } })"

subsection \<open>Words and blocks\<close>

lemma words_at_poke: "words_at (poke m a (concat (map le32 ws))) a (length ws) = ws"
  by (rule nth_equalityI) (simp_all add: words_at_def ld_words)

lemma words_at_shift:
  assumes "\<And>k. k < 4 * n \<Longrightarrow> m (a + k) = m' (b + k)"
  shows "words_at m a n = words_at m' b n"
proof -
  have "peek m (a + 4 * i) 4 = peek m' (b + 4 * i) 4" if "i < n" for i
    by (rule peek_shift) (use assms [of "4 * i + _"] that in \<open>simp add: add.assoc\<close>)
  then show ?thesis by (simp add: words_at_def)
qed

lemma count_free_run:
  assumes "bitmap_inv b" and "i + n \<le> nbits b"
  shows "count_free b i n u = Some (u + word_of_nat (card (free_set b \<inter> {i..<i + n})))"
  using assms(2)
proof (induction n arbitrary: i u)
  case (Suc n)
  have t: "bitmap_test b i = Some (i \<in> free_set b)" using bitmap_test_spec [OF assms(1)] Suc.prems by simp
  have "{i..<i + Suc n} = insert i {i + 1..<i + 1 + n}" by auto
  then have "card (free_set b \<inter> {i..<i + Suc n}) = card (free_set b \<inter> {i + 1..<i + 1 + n}) + (if i \<in> free_set b then 1 else 0)"
    by (simp add: Int_insert_right)
  then show ?case using Suc.IH [of "i + 1"] Suc.prems t by simp
qed simp

lemma super_at_shift:
  assumes "\<And>k. k < 44 \<Longrightarrow> m (a + k) = m' (b + k)"
  shows "super_at m a = super_at m' b"
proof -
  have p: "peek m (a + o') 4 = peek m' (b + o') 4" if "o' \<le> 40" for o'
    by (rule peek_shift) (use assms [of "o' + _"] that in \<open>simp add: add.assoc\<close>)
  have "block m (a + 12) 32 = block m' (b + 12) 32"
    by (rule nth_equalityI) (use assms [of "12 + _"] in \<open>simp_all add: add.assoc\<close>)
  then show ?thesis using p [of 0] p [of 4] p [of 8] by (simp add: super_at_def)
qed

lemma super_at_poke:
  assumes "length (s_info sb) = 32"
  shows "super_at (poke m a (super_bytes sb)) a = sb"
proof -
  let ?m1 = "poke m a (le32 (s_magic sb))" let ?m2 = "poke ?m1 (a + 4) (le32 (s_blocks sb))"
  let ?m3 = "poke ?m2 (a + 8) (le32 (s_unused_blocks sb))" let ?m4 = "poke ?m3 (a + 12) (s_info sb)"
  have m: "poke m a (super_bytes sb) = ?m4" by (simp add: super_bytes_def poke_append add.commute)
  have "ld32 ?m4 a = s_magic sb" "ld32 ?m4 (a + 4) = s_blocks sb" "ld32 ?m4 (a + 8) = s_unused_blocks sb"
    using ld_le_32 [of m a] ld_le_32 [of ?m1 "a + 4"] ld_le_32 [of ?m2 "a + 8"] by (simp_all add: peek_poke_other)
  moreover have "block ?m4 (a + 12) 32 = s_info sb" using block_poke [of ?m3 "a + 12" "s_info sb"] assms by simp
  ultimately show ?thesis unfolding m super_at_def by simp
qed

subsection \<open>What is written is what is mounted\<close>

definition mount_ok :: "sfs_fs \<Rightarrow> bool" where
  "mount_ok s = (fs_inv s \<and> s_magic (super s) = SFS_MAGIC \<and> length (s_info (super s)) = 32 \<and> s_info (super s) ! 31 = NUL
     \<and> nbits (free_map s) = sfs_freemap_bits (super s) \<and> 2 + unat (sfs_freemap_blocks (super s)) \<le> unat (s_blocks (super s)))"

definition disk_holds :: "sfs_fs \<Rightarrow> memory \<Rightarrow> bool" where
  "disk_holds s m = (super_at m (disk_at s 0) = super s
     \<and> words_at m (disk_at s 2) (nwords (free_map s)) = bmap_words (free_map s))"

lemma mount_okD:
  assumes "mount_ok s" and "k = unat (sfs_freemap_blocks (super s))"
  shows "fs_ready s" "bitmap_inv (free_map s)" "nbits (free_map s) = k * 32768" "nwords (free_map s) = k * 1024"
    "length (bmap_words (free_map s)) = k * 1024" "k \<le> 32" "2 + k \<le> unat (s_blocks (super s))" "0 < k"
    "unat (sfs_freemap_blocks (super s) * 4096) = k * 4096"
proof -
  let ?n = "(unat (s_blocks (super s)) + 32767) div 32768"
  have inv: "fs_inv s" "nbits (free_map s) = ?n * 32768" "2 + k \<le> unat (s_blocks (super s))"
    using assms by (simp_all add: mount_ok_def sfs_freemap_bits_def)
  show rdy: "fs_ready s" and bi: "bitmap_inv (free_map s)" using inv(1) by (simp_all add: fs_inv_def)
  have "unat (s_blocks (super s)) \<le> 2 ^ 20" using rdy by (simp add: fs_ready_def)
  then have n: "?n \<le> 32" by simp
  have k: "k = ?n" unfolding assms(2) sfs_freemap_blocks_def using n by (simp add: unat_of_nat)
  show "nbits (free_map s) = k * 32768" "k \<le> 32" "2 + k \<le> unat (s_blocks (super s))" using inv n k by simp_all
  moreover show "0 < k" using bi inv(2) k by (auto simp: bitmap_inv_def)
  moreover show "nwords (free_map s) = k * 1024" using bi inv(2) k by (simp add: bitmap_inv_def)
  moreover show "length (bmap_words (free_map s)) = k * 1024" using bi inv(2) k by (simp add: bitmap_inv_def)
  moreover show "unat (sfs_freemap_blocks (super s) * 4096) = k * 4096"
    using assms(2) \<open>k \<le> 32\<close> by (subst unat_mult_lem [THEN iffD1]) simp_all
qed

lemma super_stored:
  assumes "fs_ready s" and "0 < unat (s_blocks (super s))" and "length (s_info (super s)) = 32"
  shows "\<exists>m. sfs_sync_super s = Some (s\<lparr>machine := m\<rparr>, 0) \<and> super_at m (disk_at s 0) = super s"
proof -
  let ?m = "poke (memset (machine s) (sfs_buffer s) NUL 4096) (sfs_buffer s) (super_bytes (super s))"
  let ?t = "s\<lparr>machine := ?m\<rparr>"
  have rdy: "fs_ready ?t" using assms(1) by (simp add: fs_ready_def)
  have b: "(0 :: u32) < s_blocks (super ?t)" using assms(2) by (simp add: word_less_nat_alt)
  have buf: "apart (sfs_buffer s) 4096 (image ?t) (image_size ?t)" "apart (sfs_buffer s) 4096 (disk0_buffer (dev ?t)) 16384"
    using assms(1) by (auto simp: fs_ready_def)
  obtain m where m: "sfs_rwblock_nolock ?t (sfs_buffer s) 0 True False = Some (?t\<lparr>machine := m\<rparr>, 0)"
    "\<forall>a. apart a 1 (disk0_buffer (dev ?t)) 16384 \<longrightarrow> m a = blit (machine ?t) (disk_at ?t 0) (sfs_buffer s) 4096 a"
    using rwblock_run [OF rdy b _ buf, of False True] by auto
  have "m (disk_at s 0 + k) = ?m (sfs_buffer s + k)" if k: "k < 44" for k
  proof -
    have "apart (disk_at s 0 + k) 1 (disk0_buffer (dev s)) 16384"
      using disk_not_scratch [OF rdy b, of k] k by (simp add: scratch_def)
    then show ?thesis using m(2) k by (simp add: blit_def)
  qed
  then have "super_at m (disk_at s 0) = super_at ?m (sfs_buffer s)" by (rule super_at_shift)
  also have "\<dots> = super s" by (rule super_at_poke [OF assms(3)])
  finally show ?thesis using m(1) by (auto simp: sfs_sync_super_def)
qed

lemma sync_stores:
  assumes "mount_ok s" and "super_dirty s" and "user_buf s (freemap_data s) (unat (sfs_freemap_blocks (super s)) * 4096)"
  shows "\<exists>m. sync_super_freemap s = Some (s\<lparr>machine := m, super_dirty := False\<rparr>, 0) \<and> disk_holds s m"
proof -
  define k where "k = unat (sfs_freemap_blocks (super s))"
  note ok = mount_okD [OF assms(1) k_def]
  let ?s = "s\<lparr>super_dirty := False\<rparr>" and ?f = "freemap_data s" and ?ws = "bmap_words (free_map s)"
  have rdy: "fs_ready ?s" and at: "disk_at ?s = disk_at s" using ok(1) by (auto simp: fs_ready_def disk_at_def image_def image_size_def)
  obtain m1 where m1: "sfs_sync_super ?s = Some (?s\<lparr>machine := m1\<rparr>, 0)" "super_at m1 (disk_at s 0) = super s"
    using super_stored [OF rdy] ok(7) assms(1) at by (auto simp: mount_ok_def)
  let ?m2 = "poke m1 ?f (concat (map le32 ?ws))"
  let ?t = "?s\<lparr>machine := ?m2\<rparr>"
  have t: "fs_ready ?t" "disk_at ?t = disk_at s" "user_buf ?t ?f (k * 4096)" "scratch ?t = scratch s"
    using rdy at assms(3) k_def by (auto simp: fs_ready_def user_buf_def scratch_def fun_eq_iff image_def image_size_def disk_at_def)
  obtain s' where w: "sfs_wblock ?t ?f 2 k = Some (s', 0)" "mem_eff ?t (blit ?m2 (disk_at s 2) ?f (k * 4096)) s'"
    using wblock_run [OF t(1) _ _ t(3), of 2] ok(7) t(2) by auto
  obtain m3 where m3: "s' = ?t\<lparr>machine := m3\<rparr>" using w(2) by (rule mem_effE)
  have on: "\<not> scratch s (disk_at s b + i)" if "unat b < 2 + k" "i < 4096" for b i
    using disk_not_scratch [OF ok(1), of b i] that ok(7) by (simp add: word_less_nat_alt)
  have "m3 (disk_at s 0 + i) = m1 (disk_at s 0 + i)" if i: "i < 44" for i
  proof -
    have "m3 (disk_at s 0 + i) = blit ?m2 (disk_at s 2) ?f (k * 4096) (disk_at s 0 + i)"
      using mem_effD [OF w(2), of "disk_at s 0 + i"] on [of 0 i] i m3 t(4) by simp
    also have "\<dots> = ?m2 (disk_at s 0 + i)" using i by (simp add: blit_def disk_at_def)
    also have "\<dots> = m1 (disk_at s 0 + i)"
      using assms(3) k_def ok(5,7) i disk_block_bound(1) [OF ok(1), of 0]
      by (auto simp: poke_def user_buf_def apart_def disk_at_def word_less_nat_alt)
    finally show ?thesis .
  qed
  then have "super_at m3 (disk_at s 0) = super s" using super_at_shift m1(2) by metis
  moreover have "words_at m3 (disk_at s 2) (k * 1024) = words_at ?m2 ?f (k * 1024)"
  proof (rule words_at_shift)
    fix i assume i: "i < 4 * (k * 1024)"
    define b :: u32 where "b = word_of_nat (2 + i div 4096)"
    have q: "i div 4096 < k" using i by (simp add: div_less_iff_less_mult)
    have "unat b = (2 + i div 4096) mod 2 ^ 32" unfolding b_def unat_of_nat by simp
    then have b: "unat b = 2 + i div 4096" "unat b < 2 + k" using q ok(6) by simp_all
    have "disk_at s 2 + i = disk_at s b + i mod 4096" unfolding disk_at_def b(1) by simp
    then have "\<not> scratch s (disk_at s 2 + i)" using on [OF b(2), of "i mod 4096"] by simp
    then show "m3 (disk_at s 2 + i) = ?m2 (?f + i)"
      using mem_effD [OF w(2), of "disk_at s 2 + i"] i m3 t(4) by (simp add: blit_def)
  qed
  then have "words_at m3 (disk_at s 2) (k * 1024) = ?ws" using words_at_poke [of m1 ?f ?ws] ok(5) by simp
  ultimately have "disk_holds s m3" using ok(4) by (simp add: disk_holds_def)
  moreover have "sync_super_freemap s = Some (s\<lparr>machine := m3, super_dirty := False\<rparr>, 0)"
    using m1(1) w(1) m3 assms(2) k_def by (simp add: sync_super_freemap_def sfs_sync_freemap_def bitmap_getdata_def)
  ultimately show ?thesis by blast
qed

lemma init_read_run:
  assumes rdy: "fs_ready s" and b: "b < s_blocks (super s)"
    and buf: "apart buf 4096 (image s) (image_size s)" "apart buf 4096 (disk0_buffer (dev s)) 16384"
  shows "\<exists>m'. sfs_init_read (dev_table s) (dev s) m b buf = Some (m', 0)
    \<and> (\<forall>a. apart a 1 (disk0_buffer (dev s)) 16384 \<longrightarrow> m' a = blit m buf (disk_at s b) 4096 a)"
proof -
  let ?t = "s\<lparr>machine := m\<rparr>"
  have "fs_ready ?t" using rdy by (simp add: fs_ready_def)
  then obtain m' where m': "sfs_rwblock_nolock ?t buf b False False = Some (?t\<lparr>machine := m'\<rparr>, 0)"
    "\<forall>a. apart a 1 (disk0_buffer (dev s)) 16384 \<longrightarrow> m' a = blit m buf (disk_at s b) 4096 a"
    using rwblock_run [of ?t b False buf False] b buf by auto
  obtain iob where "disk0_io (dev_table s) (dev s) m (iobuf_init buf 4096 (uint (b * 4096))) False = Some (m', iob, 0)"
  proof (cases "disk0_io (dev_table s) (dev s) m (iobuf_init buf 4096 (uint (b * 4096))) False")
    case (Some r)
    obtain m2 iob ret where r: "r = (m2, iob, ret)" by (cases r)
    have eq: "s\<lparr>machine := m2\<rparr> = s\<lparr>machine := m'\<rparr>" "ret = 0" using m'(1) b Some r by (simp_all add: sfs_rwblock_nolock_def)
    then show ?thesis using that Some r arg_cong [OF eq(1), of machine] by simp
  qed (use m'(1) b in \<open>simp add: sfs_rwblock_nolock_def\<close>)
  then show ?thesis using m'(2) by (simp add: sfs_init_read_def)
qed

lemma init_freemap_run:
  assumes "fs_ready s" and "unat b + n \<le> unat (s_blocks (super s))"
    and "apart buf (n * 4096) (image s) (image_size s)" "apart buf (n * 4096) (disk0_buffer (dev s)) 16384"
  shows "\<exists>m'. init_freemap_loop (dev_table s) (dev s) m b buf n = Some (m', 0)
    \<and> (\<forall>a. apart a 1 (disk0_buffer (dev s)) 16384 \<longrightarrow> m' a = blit m buf (disk_at s b) (n * 4096) a)"
  using assms(2-)
proof (induction n arbitrary: m b buf)
  case (Suc n)
  have b: "b < s_blocks (super s)" using Suc.prems(1) by (simp add: word_less_nat_alt)
  have buf: "apart buf 4096 (image s) (image_size s)" "apart buf 4096 (disk0_buffer (dev s)) 16384"
    using Suc.prems(2,3) by (auto simp: apart_def)
  obtain m1 where m1: "sfs_init_read (dev_table s) (dev s) m b buf = Some (m1, 0)"
    "\<forall>a. apart a 1 (disk0_buffer (dev s)) 16384 \<longrightarrow> m1 a = blit m buf (disk_at s b) 4096 a"
    using init_read_run [OF assms(1) b buf] by blast
  show ?case
  proof (cases n)
    case 0
    then show ?thesis using m1 by simp
  next
    case (Suc n')
    have "unat (b + 1) = unat b + 1"
      using Suc.prems(1) Suc unat_bound [of "s_blocks (super s)"] by (subst unat_add_lem [THEN iffD1]) simp_all
    then have b1: "unat (b + 1) + n \<le> unat (s_blocks (super s))" "disk_at s (b + 1) = disk_at s b + 4096"
      using Suc.prems(1) by (auto simp: disk_at_def)
    have "apart (buf + 4096) (n * 4096) (image s) (image_size s)" "apart (buf + 4096) (n * 4096) (disk0_buffer (dev s)) 16384"
      using Suc.prems(2,3) by (auto simp: apart_def)
    then obtain m' where m': "init_freemap_loop (dev_table s) (dev s) m1 (b + 1) (buf + 4096) n = Some (m', 0)"
      "\<forall>a. apart a 1 (disk0_buffer (dev s)) 16384 \<longrightarrow> m' a = blit m1 (buf + 4096) (disk_at s b + 4096) (n * 4096) a"
      using Suc.IH [OF b1(1), of "buf + 4096" m1] b1(2) by auto
    have "m' a = blit m buf (disk_at s b) (Suc n * 4096) a" if a: "apart a 1 (disk0_buffer (dev s)) 16384" for a
    proof (cases "buf + 4096 \<le> a \<and> a < buf + 4096 + n * 4096")
      case True
      define x where "x = disk_at s b + (a - buf)"
      have x: "disk_at s b \<le> x" "x < disk_at s b + Suc n * 4096" using True by (auto simp: x_def)
      moreover have "image s \<le> disk_at s b" "unat b * 4096 + Suc n * 4096 \<le> image_size s"
        using assms(1) Suc.prems(1) by (auto simp: disk_at_def image_size_def fs_ready_def)
      ultimately have i: "image s \<le> x" "x < image s + image_size s" by (auto simp: disk_at_def)
      then have "apart x 1 (disk0_buffer (dev s)) 16384" using assms(1) by (auto simp: fs_ready_def apart_def)
      moreover have "\<not> (buf \<le> x \<and> x < buf + 4096)" using Suc.prems(2) i by (auto simp: apart_def)
      ultimately have "m1 x = m x" using m1(2) by (auto simp: blit_def)
      then show ?thesis using m'(2) a True by (auto simp: blit_def x_def)
    next
      case False
      then show ?thesis using m'(2) m1(2) a by (auto simp: blit_def)
    qed
    then show ?thesis using m1(1) m'(1) by auto
  qed
qed (auto simp: blit_def)

text \<open>The allocations of a mount that succeeds, at places apart from the disk and from each other.\<close>

definition mount_room :: "sfs_fs \<Rightarrow> mount_allocs \<Rightarrow> nat \<Rightarrow> nat \<Rightarrow> bool" where
  "mount_room s al buf data = (m_fs al \<and> m_hash al \<and> m_map al \<and> m_buffer al = Some buf \<and> m_words al = Some data
     \<and> user_buf s buf 4096 \<and> user_buf s data (unat (sfs_freemap_blocks (super s)) * 4096)
     \<and> apart buf 4096 data (unat (sfs_freemap_blocks (super s)) * 4096))"

lemma bitmap_create_run:
  assumes "bitmap_inv b" and "nbits b = nwords b * 32"
  shows "\<exists>ws. bitmap_create True True (nbits b) = Some (Some \<lparr>nbits = nbits b, nwords = nwords b, bmap_words = ws\<rparr>)"
proof -
  have "(nbits b + 31) div 32 = nwords b" using assms(2) by simp
  then show ?thesis using assms by (simp add: bitmap_create_def bitmap_inv_def Let_def)
qed

lemma apart_inside:
  assumes "apart a n c k" and "a \<le> x" and "x < a + n"
  shows "apart x 1 c k" "\<not> (c \<le> x \<and> x < c + k)"
  using assms by (auto simp: apart_def)

lemma apart_sym: "apart a n c k = apart c k a n"
  by (auto simp: apart_def)

lemma mount_reads:
  assumes "mount_ok s" and "disk_holds s m" and "mount_room s al buf data"
  shows "\<exists>m'. sfs_do_mount (dev_table s) (dev s) 4096 m al = Some (m', 0, Some (s\<lparr>machine := m', super_dirty := False,
    sfs_buffer := buf, ino_addr := m_ino al, freemap_data := data\<rparr>))"
proof -
  define k where "k = unat (sfs_freemap_blocks (super s))"
  note ok = mount_okD [OF assms(1) k_def]
  have al: "m_fs al" "m_hash al" "m_map al" "m_buffer al = Some buf" "m_words al = Some data"
    "user_buf s buf 4096" "user_buf s data (k * 4096)" "apart buf 4096 data (k * 4096)"
    using assms(3) by (simp_all add: mount_room_def k_def)
  have s: "s_magic (super s) = SFS_MAGIC" "s_info (super s) ! 31 = NUL"
    "card (free_blocks s) = unat (s_unused_blocks (super s))" "unat (s_blocks (super s)) \<le> unat (d_blocks (dev s))"
    using assms(1) ok(1) by (simp_all add: mount_ok_def fs_inv_def fs_ready_def)
  have sup: "super_at m (disk_at s 0) = super s" and ws: "words_at m (disk_at s 2) (k * 1024) = bmap_words (free_map s)"
    using assms(2) ok(4) by (simp_all add: disk_holds_def)
  have b0: "(0 :: u32) < s_blocks (super s)" using ok(7) by (simp add: word_less_nat_alt)
  obtain m1 where m1: "sfs_init_read (dev_table s) (dev s) m 0 buf = Some (m1, 0)"
    "\<forall>a. apart a 1 (disk0_buffer (dev s)) 16384 \<longrightarrow> m1 a = blit m buf (disk_at s 0) 4096 a"
    using init_read_run [OF ok(1) b0, of buf m] al(6) by (auto simp: user_buf_def)
  have "m1 (buf + i) = m (disk_at s 0 + i)" if "i < 44" for i
    using m1(2) al(6) that by (auto simp: blit_def user_buf_def apart_def)
  then have sup1: "super_at m1 buf = super s" using super_at_shift sup by metis
  have "m1 (buf + 12 + 31) = s_info (super_at m1 buf) ! 31" by (simp add: super_at_def)
  then have upd: "m1(buf + 12 + 31 := NUL) = m1" using s(2) sup1 by (simp add: fun_upd_idem)
  have on: "image s \<le> disk_at s 2 + i" "disk_at s 2 + i < image s + image_size s" if "i < k * 4096" for i
    using that ok(1,7) by (auto simp: disk_at_def image_size_def fs_ready_def)
  obtain m2 where m2: "init_freemap_loop (dev_table s) (dev s) m1 2 data k = Some (m2, 0)"
    "\<forall>a. apart a 1 (disk0_buffer (dev s)) 16384 \<longrightarrow> m2 a = blit m1 data (disk_at s 2) (k * 4096) a"
    using init_freemap_run [OF ok(1), of 2 k data m1] ok(7) al(7) by (auto simp: user_buf_def)
  have "words_at m2 data (k * 1024) = words_at m (disk_at s 2) (k * 1024)"
  proof (rule words_at_shift)
    fix i assume i: "i < 4 * (k * 1024)"
    let ?x = "disk_at s 2 + i"
    have x: "image s \<le> ?x" "?x < image s + image_size s" using on [of i] i by simp_all
    have "apart (image s) (image_size s) (disk0_buffer (dev s)) 16384" using ok(1) by (simp add: fs_ready_def)
    from apart_inside(1) [OF this x] have "apart ?x 1 (disk0_buffer (dev s)) 16384" .
    moreover have "\<not> (buf \<le> ?x \<and> ?x < buf + 4096)"
      using apart_inside(2) [OF _ x, of buf 4096] al(6) by (simp add: user_buf_def apart_sym)
    ultimately have "m1 ?x = m ?x" using m1(2) unfolding blit_def by metis
    moreover have "apart (data + i) 1 (disk0_buffer (dev s)) 16384" using al(7) i by (auto simp: user_buf_def apart_def)
    ultimately show "m2 (data + i) = m ?x" using m2(2) i by (auto simp: blit_def)
  qed
  then have words: "words_at m2 data (nwords (free_map s)) = bmap_words (free_map s)" using ws ok(4) by simp
  obtain ws0 where create: "bitmap_create True True (nbits (free_map s))
      = Some (Some \<lparr>nbits = nbits (free_map s), nwords = nwords (free_map s), bmap_words = ws0\<rparr>)"
    using bitmap_create_run [OF ok(2)] ok(3,4) by auto
  have init: "sfs_init_freemap (dev_table s) (dev s) m1 \<lparr>nbits = nbits (free_map s), nwords = nwords (free_map s), bmap_words = ws0\<rparr>
      data 2 (sfs_freemap_blocks (super s)) = Some (m2, free_map s, 0)"
    using m2(1) words ok(4,9) k_def by (simp add: sfs_init_freemap_def bitmap_getdata_def)
  have "free_blocks s \<inter> {0..<nbits (free_map s)} = free_blocks s" using ok(2) by (auto simp: bitmap_inv_def)
  then have count: "count_free (free_map s) 0 (nbits (free_map s)) 0 = Some (s_unused_blocks (super s))"
    using count_free_run [OF ok(2), of 0 "nbits (free_map s)" 0] s(3) by simp
  have bits: "sfs_freemap_bits (super s) = nbits (free_map s)" using assms(1) by (simp add: mount_ok_def)
  have "\<not> ucast (s_blocks (super s)) > d_blocks (dev s)" using s(4) by (simp add: word_less_nat_alt)
  then show ?thesis
    using m1(1) sup1 s(1) upd create init count bits al(1-5) by (simp add: sfs_do_mount_def Let_def)
qed

text \<open>
  C32. Unmounting loses nothing: with no inode loaded, \<open>sfs_sync\<close> followed by \<open>sfs_unmount\<close> succeeds, and mounting the disk again
  into fresh buffers (\<open>sfs_do_mount\<close>) passes all its checks and gives back the same super block and free map.
\<close>

theorem sync_then_mount:
  assumes "mount_ok (fs st)" and "super_dirty (fs st)" and "inode_list st = []"
    and "user_buf (fs st) (freemap_data (fs st)) (unat (sfs_freemap_blocks (super (fs st))) * 4096)"
    and "mount_room (fs st) al buf data"
  shows "\<exists>st1 m s2. sfs_sync st = Some (st1, 0) \<and> sfs_unmount st1 = Some 0
    \<and> sfs_do_mount (dev_table (fs st1)) (dev (fs st1)) 4096 (machine (fs st1)) al = Some (m, 0, Some s2)
    \<and> super s2 = super (fs st) \<and> free_map s2 = free_map (fs st) \<and> \<not> super_dirty s2"
proof -
  let ?s = "fs st"
  obtain m1 where m1: "sync_super_freemap ?s = Some (?s\<lparr>machine := m1, super_dirty := False\<rparr>, 0)" "disk_holds ?s m1"
    using sync_stores [OF assms(1,2,4)] by blast
  have "sfs_sync st = Some (st\<lparr>fs := ?s\<lparr>machine := m1, super_dirty := False\<rparr>\<rparr>, 0)"
    using m1(1) assms(3) by (simp add: sfs_sync_def)
  moreover obtain m where "sfs_do_mount (dev_table ?s) (dev ?s) 4096 m1 al = Some (m, 0, Some (?s\<lparr>machine := m, super_dirty := False,
    sfs_buffer := buf, ino_addr := m_ino al, freemap_data := data\<rparr>))"
    using mount_reads [OF assms(1) m1(2) assms(5)] by blast
  ultimately show ?thesis using assms(3) by (simp add: sfs_unmount_def)
qed

definition demo_words :: "u32 list" where
  "demo_words = (mask 10 AND NOT (mask 5)) # replicate (1024 - 1) 0"

lemma length_demo_words: "length demo_words = 1024"
  unfolding demo_words_def list.size length_replicate by simp

definition demo_mount_fs :: sfs_fs where
  "demo_mount_fs = demo_fs\<lparr>super := (super demo_fs)\<lparr>s_info := replicate 32 NUL\<rparr>, super_dirty := True, freemap_data := 320000,
     free_map := \<lparr>nbits = 32768, nwords = 1024, bmap_words = demo_words\<rparr>\<rparr>"

lemma wbit_first: "wbit (w # replicate n 0) i = (i < 32 \<and> bit w i)"
proof (cases "i < 32")
  case False
  then obtain j where "i div 32 = Suc j" by (cases "i div 32") auto
  then show ?thesis using False by (simp add: wbit_def)
qed (simp add: wbit_def)

lemma demo_mount_free: "free_blocks demo_mount_fs = {5..<10}"
proof -
  have "bit (mask 10 AND NOT (mask 5) :: u32) i = (5 \<le> i \<and> i < 10)" if "i < 32" for i
    using that by (auto simp: bit_simps)
  then have w: "wbit demo_words i = (5 \<le> i \<and> i < 10)" for i
    unfolding demo_words_def wbit_first using le_less_trans [of i 9 32] by (cases "i < 32") (simp_all del: bit_and_iff)
  have "bmap_words (free_map demo_mount_fs) = demo_words" by (simp add: demo_mount_fs_def)
  then show ?thesis unfolding free_set_def by (intro set_eqI) (simp only: w mem_Collect_eq atLeastLessThan_iff)
qed

lemma demo_mount_ok: "mount_ok demo_mount_fs"
proof -
  have "fs_ready demo_mount_fs" using demo_fs_inv
    by (simp add: fs_inv_def fs_ready_def demo_mount_fs_def image_def image_size_def demo_fs_def)
  moreover have "bitmap_inv (free_map demo_mount_fs)" unfolding bitmap_inv_def demo_mount_free
    by (simp add: demo_mount_fs_def length_demo_words)
  ultimately have "fs_inv demo_mount_fs" unfolding fs_inv_def demo_mount_free by (simp add: demo_mount_fs_def demo_fs_def)
  then show ?thesis by (simp add: mount_ok_def demo_mount_fs_def demo_fs_def sfs_freemap_bits_def sfs_freemap_blocks_def)
qed

theorem sync_then_mount_witness:
  "\<exists>st1 m s2. sfs_sync (demo_vnodes\<lparr>fs := demo_mount_fs, inode_list := []\<rparr>) = Some (st1, 0)
    \<and> sfs_do_mount (dev_table (fs st1)) (dev (fs st1)) 4096 (machine (fs st1))
        \<lparr>m_fs = True, m_buffer = Some 400000, m_hash = True, m_map = True, m_words = Some 410000, m_ino = 450000\<rparr> = Some (m, 0, Some s2)
    \<and> free_blocks s2 = {5..<10}"
proof -
  let ?st = "demo_vnodes\<lparr>fs := demo_mount_fs, inode_list := []\<rparr>"
    and ?al = "\<lparr>m_fs = True, m_buffer = Some 400000, m_hash = True, m_map = True, m_words = Some 410000, m_ino = 450000\<rparr>"
  have fs: "fs ?st = demo_mount_fs" "inode_list ?st = []" by simp_all
  have k: "unat (sfs_freemap_blocks (super demo_mount_fs)) = 1" by (simp add: demo_mount_fs_def demo_fs_def sfs_freemap_blocks_def)
  have b: "user_buf demo_mount_fs a n = user_buf demo_fs a n" for a n
    by (simp add: user_buf_def demo_mount_fs_def image_def image_size_def)
  have dirty: "super_dirty demo_mount_fs" by (simp add: demo_mount_fs_def)
  have data: "user_buf demo_mount_fs (freemap_data demo_mount_fs) (unat (sfs_freemap_blocks (super demo_mount_fs)) * 4096)"
    unfolding b k by (simp add: demo_mount_fs_def user_buf_def demo_fs_def apart_def image_def image_size_def demo_devs_def)
  have room: "mount_room demo_mount_fs ?al 400000 410000"
    unfolding mount_room_def b k by (simp add: user_buf_def demo_fs_def apart_def image_def image_size_def demo_devs_def)
  from sync_then_mount [of ?st ?al, unfolded fs, OF demo_mount_ok dirty refl data room] obtain st1 m s2 where
    "sfs_sync ?st = Some (st1, 0)" "sfs_do_mount (dev_table (fs st1)) (dev (fs st1)) 4096 (machine (fs st1)) ?al = Some (m, 0, Some s2)"
    "free_map s2 = free_map demo_mount_fs" by blast
  then show ?thesis using demo_mount_free by auto
qed

end
