(* ===== verification/Stdin.thy ===== *)
theory Stdin
  imports Sync Iobuf
begin

section \<open>The keyboard and the console as devices: \<open>kern/fs/devs/dev_stdin.c\<close>, \<open>dev_stdout.c\<close>\<close>

text \<open>
  The ring buffer of characters typed and not yet read, and the processes waiting for one. The positions only
  grow; they are numbers without a bound (64 bits in the code: a key per nanosecond fills them in three centuries). Sleeping in the middle of a read is the switch to other processes: what they do until
  this one runs again is a list of functions, one for each sleep, and a read that still sleeps at the end of the list is \<open>None\<close>.
\<close>

abbreviation (input) STDIN_BUFSIZE :: nat where "STDIN_BUFSIZE \<equiv> 4096"

record stdin_state = sync_state +
  stdin_buffer :: "char list"
  p_rpos :: int
  p_wpos :: int

definition stdin_index :: "int \<Rightarrow> nat" where
  "stdin_index pos = nat (pos mod 4096)"

definition stdin_device_init :: "nat \<Rightarrow> 'a stdin_state_scheme \<Rightarrow> 'a stdin_state_scheme" where
  "stdin_device_init q s = wait_queue_init q (s\<lparr>p_rpos := 0, p_wpos := 0\<rparr>)"

definition stdin_put :: "char \<Rightarrow> 'a stdin_state_scheme \<Rightarrow> 'a stdin_state_scheme" where
  "stdin_put c s =
     (let s = s\<lparr>stdin_buffer := (stdin_buffer s)[stdin_index (p_wpos s) := c]\<rparr>
      in if p_wpos s - p_rpos s < int STDIN_BUFSIZE then s\<lparr>p_wpos := p_wpos s + 1\<rparr> else s)"

definition dev_stdin_write :: "'a stdin_state_scheme sched_class \<Rightarrow> nat \<Rightarrow> char \<Rightarrow> 'a stdin_state_scheme \<Rightarrow> 'a stdin_state_scheme option" where
  "dev_stdin_write cls q c s =
     (if c \<noteq> NUL
      then (let s = stdin_put c s
            in if \<not> wait_queue_empty q s then wakeup_queue cls q WT_KBD True s else Some s)
      else Some s)"

text \<open>The loop of \<open>dev_stdin_read\<close> with \<open>n\<close> characters to go: the state, the memory and the value of \<open>ret\<close>.\<close>

function (sequential) stdin_loop :: "nat \<Rightarrow> nat \<Rightarrow> ('a stdin_state_scheme \<Rightarrow> 'a stdin_state_scheme option) list \<Rightarrow> 'a stdin_state_scheme
    \<Rightarrow> memory \<Rightarrow> nat \<Rightarrow> int \<Rightarrow> nat \<Rightarrow> ('a stdin_state_scheme \<times> memory \<times> int) option" where
  "stdin_loop q w sleeps s m buf ret 0 = Some (s, m, ret)"
| "stdin_loop q w sleeps s m buf ret (Suc n) =
     (if p_rpos s < p_wpos s
      then stdin_loop q w sleeps (s\<lparr>p_rpos := p_rpos s + 1\<rparr>) (m(buf := stdin_buffer s ! stdin_index (p_rpos s))) (buf + 1) (ret + 1) n
      else case sleeps of
        [] \<Rightarrow> None
      | run # sleeps \<Rightarrow> do {
          s \<leftarrow> wait_current_set q w WT_KBD s;
          s \<leftarrow> run s;
          s \<leftarrow> wait_current_del q w s;
          if wakeup_flags (waits s w) = WT_KBD then stdin_loop q w sleeps s m buf ret (Suc n) else Some (s, m, ret) })"
  by pat_completeness auto
termination by (relation "measures [\<lambda>(q, w, sleeps, s, m, buf, ret, n). n, \<lambda>(q, w, sleeps, s, m, buf, ret, n). length sleeps]") auto

definition dev_stdin_read :: "nat \<Rightarrow> nat \<Rightarrow> ('a stdin_state_scheme \<Rightarrow> 'a stdin_state_scheme option) list \<Rightarrow> 'a stdin_state_scheme
    \<Rightarrow> memory \<Rightarrow> nat \<Rightarrow> nat \<Rightarrow> ('a stdin_state_scheme \<times> memory \<times> int) option" where
  "dev_stdin_read q w sleeps s m buf len = stdin_loop q w sleeps s m buf 0 len"

definition stdin_open :: "u32 \<Rightarrow> int" where
  "stdin_open open_flags = (if open_flags \<noteq> 0 then - E_INVAL else 0)"

definition stdin_close :: int where
  "stdin_close = 0"

definition stdin_io :: "nat \<Rightarrow> nat \<Rightarrow> ('a stdin_state_scheme \<Rightarrow> 'a stdin_state_scheme option) list \<Rightarrow> 'a stdin_state_scheme
    \<Rightarrow> memory \<Rightarrow> iobuf \<Rightarrow> bool \<Rightarrow> ('a stdin_state_scheme \<times> memory \<times> iobuf \<times> int) option" where
  "stdin_io q w sleeps s m iob write =
     (if \<not> write
      then do { (s, m, ret) \<leftarrow> dev_stdin_read q w sleeps s m (io_base iob) (io_resid iob);
                Some (s, m, if ret > 0 then iob\<lparr>io_resid := io_resid iob - nat ret\<rparr> else iob, ret) }
      else Some (s, m, iob, - E_INVAL))"

definition stdin_ioctl :: int where
  "stdin_ioctl = - E_INVAL"

subsection \<open>The console: \<open>dev_stdout.c\<close>\<close>

text \<open>The characters given to \<open>cputchar\<close>, in order.\<close>

definition stdout_open :: "u32 \<Rightarrow> int" where
  "stdout_open open_flags = (if open_flags \<noteq> 1 then - E_INVAL else 0)"

definition stdout_close :: int where
  "stdout_close = 0"

fun stdout_loop :: "memory \<Rightarrow> nat \<Rightarrow> nat \<Rightarrow> char list" where
  "stdout_loop m data 0 = []"
| "stdout_loop m data (Suc n) = m data # stdout_loop m (data + 1) n"

definition stdout_io :: "memory \<Rightarrow> iobuf \<Rightarrow> bool \<Rightarrow> char list \<times> iobuf \<times> int" where
  "stdout_io m iob write =
     (if write then (stdout_loop m (io_base iob) (io_resid iob), iob\<lparr>io_resid := 0\<rparr>, 0) else ([], iob, - E_INVAL))"

definition stdout_ioctl :: int where
  "stdout_ioctl = - E_INVAL"

lemma stdout_loop_block: "stdout_loop m data n = block m data n"
  by (induction n arbitrary: data) (simp_all add: block_Suc)

subsection \<open>The buffer as a queue\<close>

definition stdin_ok :: "'a stdin_state_scheme \<Rightarrow> bool" where
  "stdin_ok s = (length (stdin_buffer s) = 4096 \<and> 0 \<le> p_rpos s \<and> p_rpos s \<le> p_wpos s \<and> p_wpos s \<le> p_rpos s + 4096)"

definition unread :: "'a stdin_state_scheme \<Rightarrow> char list" where
  "unread s = map (\<lambda>i. stdin_buffer s ! stdin_index i) [p_rpos s..p_wpos s - 1]"

lemma length_unread: "stdin_ok s \<Longrightarrow> int (length (unread s)) = p_wpos s - p_rpos s"
  by (simp add: unread_def stdin_ok_def)

lemma stdin_index_less [simp]: "stdin_index i < 4096"
  by (simp add: stdin_index_def)

lemma stdin_index_eq:
  assumes "r \<le> i" and "i < w" and "w \<le> r + 4096" and "stdin_index i = stdin_index w"
  shows "i = r" "w = r + 4096"
proof -
  have "i mod 4096 = w mod 4096" using assms(4) by (simp add: stdin_index_def)
  then have "4096 dvd w - i" by (metis mod_eq_dvd_iff)
  then have "4096 \<le> w - i" using assms(2) by (intro zdvd_imp_le) auto
  then show "i = r" "w = r + 4096" using assms by linarith+
qed

lemma stdin_put_queue:
  assumes "stdin_ok s"
  shows "stdin_ok (stdin_put c s)"
    "unread (stdin_put c s) = (if length (unread s) < 4096 then unread s @ [c] else c # tl (unread s))"
proof -
  let ?r = "p_rpos s" and ?w = "p_wpos s" and ?b = "stdin_buffer s"
  have ok: "length ?b = 4096" "0 \<le> ?r" "?r \<le> ?w" "?w \<le> ?r + 4096" using assms by (simp_all add: stdin_ok_def)
  have full: "(length (unread s) < 4096) = (?w - ?r < 4096)" using length_unread [OF assms] by linarith
  show "stdin_ok (stdin_put c s)" using ok by (auto simp: stdin_put_def Let_def stdin_ok_def)
  have new: "?b[stdin_index ?w := c] ! stdin_index ?w = c" using ok by simp
  show "unread (stdin_put c s) = (if length (unread s) < 4096 then unread s @ [c] else c # tl (unread s))"
  proof (cases "?w - ?r < 4096")
    case True
    have "?b[stdin_index ?w := c] ! stdin_index i = ?b ! stdin_index i" if i: "?r \<le> i" "i < ?w" for i
    proof -
      have "stdin_index ?w \<noteq> stdin_index i" using stdin_index_eq(2) [OF i ok(4)] True by linarith
      then show ?thesis by (rule nth_list_update_neq)
    qed
    then have "map (\<lambda>i. ?b[stdin_index ?w := c] ! stdin_index i) [?r..?w - 1] = unread s" by (simp add: unread_def)
    moreover have "[?r..?w] = [?r..?w - 1] @ [?w]" using ok by (simp add: upto_rec2)
    ultimately show ?thesis using True full new by (simp add: stdin_put_def unread_def)
  next
    case False
    then have w: "?w = ?r + 4096" using ok by linarith
    have i: "stdin_index ?w = stdin_index ?r" by (simp add: w stdin_index_def)
    have "?b[stdin_index ?w := c] ! stdin_index j = ?b ! stdin_index j" if j: "?r + 1 \<le> j" "j < ?w" for j
    proof -
      have "stdin_index ?w \<noteq> stdin_index j" using stdin_index_eq(1) [OF _ j(2) ok(4)] j(1) by linarith
      then show ?thesis by (rule nth_list_update_neq)
    qed
    moreover have "[?r..?w - 1] = ?r # [?r + 1..?w - 1]" using w by (simp add: upto_rec1)
    ultimately show ?thesis using False full new w i by (simp add: stdin_put_def unread_def)
  qed
qed

lemma stdin_put_frame [simp]: "wlinks (stdin_put c s) = wlinks s"
  by (simp add: stdin_put_def Let_def)

lemma stdin_write_run:
  assumes "stdin_ok s" and "wait_queue_empty q s" and "c \<noteq> NUL"
  shows "dev_stdin_write cls q c s = Some (stdin_put c s)" "wait_queue_empty q (stdin_put c s)"
  using assms by (simp_all add: dev_stdin_write_def wait_queue_empty_def)

text \<open>A sequence of characters typed.\<close>

fun stdin_type :: "'a stdin_state_scheme sched_class \<Rightarrow> nat \<Rightarrow> char list \<Rightarrow> 'a stdin_state_scheme \<Rightarrow> 'a stdin_state_scheme option" where
  "stdin_type cls q [] s = Some s"
| "stdin_type cls q (c # cs) s = do { s \<leftarrow> dev_stdin_write cls q c s; stdin_type cls q cs s }"

text \<open>
  What a character does to the queue of characters not yet read: NUL is ignored; in a full buffer a character takes the place of the
  oldest one.
\<close>

definition type_key :: "char list \<Rightarrow> char \<Rightarrow> char list" where
  "type_key queue c = (if c = NUL then queue else if length queue < STDIN_BUFSIZE then queue @ [c] else c # tl queue)"

lemma stdin_type_run:
  assumes "stdin_ok s" and "wait_queue_empty q s"
  shows "\<exists>s'. stdin_type cls q cs s = Some s' \<and> stdin_ok s' \<and> unread s' = foldl type_key (unread s) cs"
  using assms
proof (induction cs arbitrary: s)
  case (Cons c cs)
  show ?case
  proof (cases "c = NUL")
    case True
    then show ?thesis using Cons by (simp add: dev_stdin_write_def type_key_def)
  next
    case False
    note put = stdin_put_queue [OF Cons.prems(1), of c]
    note w = stdin_write_run [OF Cons.prems False]
    have "unread (stdin_put c s) = type_key (unread s) c" using put(2) False by (simp add: type_key_def)
    then show ?thesis using Cons.IH [OF put(1) w(2)] w(1) by simp
  qed
qed simp

lemma type_key_room: "NUL \<notin> set cs \<Longrightarrow> length queue + length cs \<le> 4096 \<Longrightarrow> foldl type_key queue cs = queue @ cs"
  by (induction cs arbitrary: queue) (auto simp: type_key_def)

lemma unread_step:
  assumes "stdin_ok s" and "unread s \<noteq> []"
  shows "p_rpos s < p_wpos s" "stdin_buffer s ! stdin_index (p_rpos s) = hd (unread s)"
    "stdin_ok (s\<lparr>p_rpos := p_rpos s + 1\<rparr>)" "unread (s\<lparr>p_rpos := p_rpos s + 1\<rparr>) = tl (unread s)"
proof -
  show lt: "p_rpos s < p_wpos s" using assms length_unread [OF assms(1)] by (cases "unread s") auto
  then have "[p_rpos s..p_wpos s - 1] = p_rpos s # [p_rpos s + 1..p_wpos s - 1]" by (simp add: upto_rec1)
  then show "stdin_buffer s ! stdin_index (p_rpos s) = hd (unread s)"
    "unread (s\<lparr>p_rpos := p_rpos s + 1\<rparr>) = tl (unread s)" by (simp_all add: unread_def)
  show "stdin_ok (s\<lparr>p_rpos := p_rpos s + 1\<rparr>)" using assms(1) lt by (simp add: stdin_ok_def)
qed

lemma stdin_loop_run:
  assumes "stdin_ok s" and "n \<le> length (unread s)"
  shows "\<exists>s' m'. stdin_loop q w sleeps s m buf ret n = Some (s', m', ret + int n) \<and> stdin_ok s'
    \<and> unread s' = drop n (unread s) \<and> block m' buf n = take n (unread s) \<and> (\<forall>a. a < buf \<or> buf + n \<le> a \<longrightarrow> m' a = m a)"
  using assms
proof (induction n arbitrary: s m buf ret)
  case (Suc n)
  then have ne: "unread s \<noteq> []" by auto
  note st = unread_step [OF Suc.prems(1) ne]
  let ?s = "s\<lparr>p_rpos := p_rpos s + 1\<rparr>" and ?m = "m(buf := hd (unread s))"
  have "n \<le> length (unread ?s)" using Suc.prems(2) st(4) by simp
  from Suc.IH [OF st(3) this, of ?m "buf + 1" "ret + 1"] obtain s' m' where
    r: "stdin_loop q w sleeps ?s ?m (buf + 1) (ret + 1) n = Some (s', m', ret + 1 + int n)" "stdin_ok s'"
      "unread s' = drop n (tl (unread s))" "block m' (buf + 1) n = take n (tl (unread s))"
      "\<forall>a. a < buf + 1 \<or> buf + 1 + n \<le> a \<longrightarrow> m' a = ?m a"
    unfolding st(4) by blast
  have "m' buf = hd (unread s)" using r(5) by simp
  then show ?case using r st(1,2) ne
    by (intro exI [of _ s'] exI [of _ m']) (cases "unread s"; auto simp: block_Suc)
qed auto

text \<open>
  C33. The keyboard buffer, while no reader sleeps: a sequence of characters typed acts on the queue of unread characters as \<open>type_key\<close> says
  (in order while there is room, NUL ignored, a full buffer loses its oldest character to each new one); a read of
  \<open>n\<close> characters that are there returns \<open>n\<close>, delivers the first \<open>n\<close> in the order of the queue, leaves the rest, and writes nowhere else.
\<close>

theorem stdin_fifo:
  assumes "stdin_ok s" and "wait_queue_empty q s" and "n \<le> length (foldl type_key (unread s) cs)"
  shows "\<exists>s1 s2 m'. stdin_type cls q cs s = Some s1 \<and> dev_stdin_read q w sleeps s1 m buf n = Some (s2, m', int n)
    \<and> block m' buf n = take n (foldl type_key (unread s) cs) \<and> stdin_ok s2 \<and> unread s2 = drop n (foldl type_key (unread s) cs)
    \<and> (NUL \<notin> set cs \<and> length (unread s) + length cs \<le> 4096 \<longrightarrow> foldl type_key (unread s) cs = unread s @ cs)
    \<and> (\<forall>a. a < buf \<or> buf + n \<le> a \<longrightarrow> m' a = m a)"
proof -
  obtain s1 where s1: "stdin_type cls q cs s = Some s1" "stdin_ok s1" "unread s1 = foldl type_key (unread s) cs"
    using stdin_type_run [OF assms(1,2)] by blast
  have "n \<le> length (unread s1)" using assms(3) s1(3) by simp
  from stdin_loop_run [OF s1(2) this, of q w sleeps m buf 0] show ?thesis
    using s1 type_key_room by (auto simp: dev_stdin_read_def)
qed

definition demo_stdin :: stdin_state where
  "demo_stdin = sync_state.extend demo_sync \<lparr>stdin_buffer = replicate 4096 CHR ''x'', p_rpos = 4090, p_wpos = 4092\<rparr>"

lemma demo_stdin_ok: "stdin_ok demo_stdin" "wait_queue_empty q demo_stdin" "unread demo_stdin = ''xx''"
  by (simp_all add: demo_stdin_def sync_state.defs stdin_ok_def wait_queue_empty_def list_empty_def demo_sync_def unread_def
      stdin_index_def upto_rec1)

theorem stdin_fifo_witness:
  "\<exists>s1 s2 m'. stdin_type stride_sched_class 3 ''hello'' demo_stdin = Some s1
    \<and> dev_stdin_read 3 4 [] s1 (\<lambda>_. NUL) 100 4 = Some (s2, m', 4) \<and> block m' 100 4 = ''xxhe'' \<and> unread s2 = ''llo''"
proof -
  have r: "foldl type_key (unread demo_stdin) ''hello'' = ''xxhello''" by (simp add: demo_stdin_ok type_key_def)
  then have "4 \<le> length (foldl type_key (unread demo_stdin) ''hello'')" by simp
  from stdin_fifo [OF demo_stdin_ok(1,2) this, where cls = stride_sched_class and q = 3 and w = 4 and sleeps = "[]" and m = "\<lambda>_. NUL" and buf = 100]
  show ?thesis unfolding r by simp blast
qed

text \<open>
  A character typed into a full buffer is stored before the room is checked: it replaces the oldest character not
  yet read, and is the next one to be read; none of the 4096 characters is dropped at the other end.
\<close>

theorem stdin_full_overwrites:
  assumes "stdin_ok s" and "wait_queue_empty q s" and "c \<noteq> NUL" and "length (unread s) = 4096"
  shows "\<exists>s'. dev_stdin_write cls q c s = Some s' \<and> stdin_ok s' \<and> unread s' = c # tl (unread s)"
  using stdin_write_run(1) [OF assms(1-3), of cls] stdin_put_queue [OF assms(1), of c] assms(4) by auto

theorem stdin_full_overwrites_witness:
  "\<exists>s'. dev_stdin_write stride_sched_class 3 CHR ''a'' (demo_stdin\<lparr>p_wpos := 8186\<rparr>) = Some s' \<and> hd (unread s') = CHR ''a''"
proof -
  let ?s = "demo_stdin\<lparr>p_wpos := 8186\<rparr>"
  have s: "stdin_ok ?s" "wait_queue_empty 3 ?s" using demo_stdin_ok(1) demo_stdin_ok(2) [of 3]
    by (simp_all add: stdin_ok_def wait_queue_empty_def demo_stdin_def sync_state.defs)
  have "int (length (unread ?s)) = 4096" using length_unread [OF s(1)] by (simp add: demo_stdin_def sync_state.defs)
  then have "length (unread ?s) = 4096" by linarith
  from stdin_full_overwrites [OF s _ this, where c = "CHR ''a''" and cls = stride_sched_class] show ?thesis by force
qed

end
