(* ===== verification/Vfs.thy ===== *)
theory Vfs
  imports Sfs_Mount Stdin
begin

section \<open>The virtual file system: \<open>kern/fs/vfs\<close>, \<open>kern/fs/devs/dev.c\<close>\<close>

text \<open>
  The operations of inodes, dispatched on the table of the inode; the list of devices; paths; the current
  directory; opening and closing. There is one disk and one mounted file system, so that the \<open>fs\<close> of a device is a flag.
  The locks are not modelled: every section is one step. Allocations made under a call are given as \<open>allocs\<close>, and what other processes
  do while one sleeps on the keyboard as the list \<open>sleeps\<close>.
\<close>

subsection \<open>State\<close>

datatype fd_status = FD_NONE | FD_INIT | FD_OPENED | FD_CLOSED

record open_file =
  f_status :: fd_status
  f_readable :: bool
  f_writable :: bool
  f_fd :: int
  f_pos :: int
  f_node :: "nat option"
  f_open_count :: int

record files_struct =
  pwd :: "nat option"
  fd_array :: "open_file list"
  files_count :: int

record vfs_dev =
  devname :: nat
  devnode :: "nat option"
  vd_fs :: bool
  mountable :: bool

record kfs = vnodes +
  bootfs_node :: "nat option"
  vdev_list :: "vfs_dev list"
  stdin_dev :: stdin_state
  console :: "char list"
  filesps :: "nat \<Rightarrow> files_struct"
  cur_filesp :: nat

type_synonym sleeps = "(stdin_state \<Rightarrow> stdin_state option) list"

text \<open>The keyboard's wait queue, and the entry of the reader.\<close>

abbreviation (input) kbd_queue :: nat where "kbd_queue \<equiv> 0"
abbreviation (input) kbd_wait :: nat where "kbd_wait \<equiv> 1"

abbreviation mem_of :: "kfs \<Rightarrow> memory" where "mem_of st \<equiv> machine (fs st)"

definition set_mem :: "memory \<Rightarrow> kfs \<Rightarrow> kfs" where
  "set_mem m st = st\<lparr>fs := (fs st)\<lparr>machine := m\<rparr>\<rparr>"

subsection \<open>Devices: \<open>dev.c\<close>\<close>

definition dev_open :: "device \<Rightarrow> u32 \<Rightarrow> int" where
  "dev_open d open_flags =
     (if open_flags AND (O_CREAT OR O_TRUNC OR O_EXCL OR O_APPEND) \<noteq> 0 then - E_INVAL
      else case d of Stdin \<Rightarrow> stdin_open open_flags | Stdout \<Rightarrow> stdout_open open_flags | Disk0 \<Rightarrow> 0)"

definition dop_io :: "sleeps \<Rightarrow> kfs \<Rightarrow> device \<Rightarrow> iobuf \<Rightarrow> bool \<Rightarrow> (kfs \<times> iobuf \<times> int) option" where
  "dop_io sleeps st d iob write =
     (case d of
        Stdin \<Rightarrow> do { (k, m, iob, ret) \<leftarrow> stdin_io kbd_queue kbd_wait sleeps (stdin_dev st) (mem_of st) iob write;
                      Some (set_mem m (st\<lparr>stdin_dev := k\<rparr>), iob, ret) }
      | Stdout \<Rightarrow> (let (cs, iob, ret) = stdout_io (mem_of st) iob write
                   in Some (st\<lparr>console := console st @ cs\<rparr>, iob, ret))
      | Disk0 \<Rightarrow> do { (m, iob, ret) \<leftarrow> disk0_io (dev_table (fs st)) (dev (fs st)) (mem_of st) iob write;
                       Some (set_mem m st, iob, ret) })"

definition dev_read :: "sleeps \<Rightarrow> kfs \<Rightarrow> device \<Rightarrow> iobuf \<Rightarrow> (kfs \<times> iobuf \<times> int) option" where
  "dev_read sleeps st d iob = dop_io sleeps st d iob False"

definition dev_write :: "sleeps \<Rightarrow> kfs \<Rightarrow> device \<Rightarrow> iobuf \<Rightarrow> (kfs \<times> iobuf \<times> int) option" where
  "dev_write sleeps st d iob = dop_io sleeps st d iob True"

definition dev_ioctl :: "device \<Rightarrow> int" where
  "dev_ioctl d = (case d of Stdin \<Rightarrow> stdin_ioctl | Stdout \<Rightarrow> stdout_ioctl | Disk0 \<Rightarrow> - E_UNIMP)"

text \<open>\<open>d_blocks\<close> and \<open>d_blocksize\<close> of the three devices.\<close>

definition dev_blocks :: "kfs \<Rightarrow> device \<Rightarrow> u64" where
  "dev_blocks st d = (case d of Stdin \<Rightarrow> 0 | Stdout \<Rightarrow> 0 | Disk0 \<Rightarrow> d_blocks (dev (fs st)))"

definition dev_blocksize :: "device \<Rightarrow> u64" where
  "dev_blocksize d = (case d of Stdin \<Rightarrow> 1 | Stdout \<Rightarrow> 1 | Disk0 \<Rightarrow> 4096)"

definition dev_gettype :: "kfs \<Rightarrow> device \<Rightarrow> u32" where
  "dev_gettype st d = (if dev_blocks st d > 0 then S_IFBLK else S_IFCHR)"

definition dev_fstat :: "kfs \<Rightarrow> device \<Rightarrow> stat" where
  "dev_fstat st d =
     \<lparr>st_mode = dev_gettype st d, st_nlinks = 1, st_blocks = dev_blocks st d, st_size = dev_blocks st d * dev_blocksize d\<rparr>"

text \<open>The remainder is taken of an unsigned 64-bit number, which makes no difference for these block sizes.\<close>

definition dev_tryseek :: "kfs \<Rightarrow> device \<Rightarrow> int \<Rightarrow> int" where
  "dev_tryseek st d pos =
     (if dev_blocks st d > 0 \<and> (word_of_int pos :: u64) mod dev_blocksize d = 0
         \<and> pos \<ge> 0 \<and> (word_of_int pos :: u64) < dev_blocks st d * dev_blocksize d
      then 0 else - E_INVAL)"

definition dev_lookup :: "kfs \<Rightarrow> nat \<Rightarrow> nat \<Rightarrow> kfs \<times> int \<times> nat option" where
  "dev_lookup st n path =
     (if mem_of st path \<noteq> NUL then (st, - E_NOENT, None)
      else (let (st, r) = inode_ref_inc st n in (st, 0, Some n)))"

definition dev_create_inode :: "kfs \<Rightarrow> device \<Rightarrow> nat option \<Rightarrow> kfs \<times> nat option" where
  "dev_create_inode st d node_mem =
     (case node_mem of None \<Rightarrow> (st, None) | Some n \<Rightarrow> (inode_init st n (Dev_Ops d), Some n))"

subsection \<open>The tables of operations\<close>

text \<open>An operation missing from the table of the inode is a failed assertion.\<close>

definition vop_open :: "kfs \<Rightarrow> nat \<Rightarrow> u32 \<Rightarrow> int option" where
  "vop_open st n open_flags =
     do { inode_check st n;
          Some (case in_ops (inodes st n) of
            Dev_Ops d \<Rightarrow> dev_open d open_flags | Sfs_Dirops \<Rightarrow> sfs_opendir open_flags | Sfs_Fileops \<Rightarrow> sfs_openfile open_flags) }"

definition vop_read :: "sleeps \<Rightarrow> kfs \<Rightarrow> nat \<Rightarrow> iobuf \<Rightarrow> (kfs \<times> iobuf \<times> int) option" where
  "vop_read sleeps st n iob =
     do { inode_check st n;
          case in_ops (inodes st n) of
            Dev_Ops d \<Rightarrow> dev_read sleeps st d iob
          | Sfs_Dirops \<Rightarrow> None
          | Sfs_Fileops \<Rightarrow> do { (st, iob, ret) \<leftarrow> on_file st n (\<lambda>s x. sfs_read s x iob); Some (st, iob, ret) } }"

definition vop_write :: "sleeps \<Rightarrow> kfs \<Rightarrow> nat \<Rightarrow> iobuf \<Rightarrow> (kfs \<times> iobuf \<times> int) option" where
  "vop_write sleeps st n iob =
     do { inode_check st n;
          case in_ops (inodes st n) of
            Dev_Ops d \<Rightarrow> dev_write sleeps st d iob
          | Sfs_Dirops \<Rightarrow> None
          | Sfs_Fileops \<Rightarrow> do { (st, iob, ret) \<leftarrow> on_file st n (\<lambda>s x. sfs_write s x iob); Some (st, iob, ret) } }"

definition vop_fstat :: "kfs \<Rightarrow> nat \<Rightarrow> stat option" where
  "vop_fstat st n =
     do { inode_check st n;
          case in_ops (inodes st n) of
            Dev_Ops d \<Rightarrow> Some (dev_fstat st d)
          | Sfs_Dirops \<Rightarrow> sfs_fstat (in_info (inodes st n))
          | Sfs_Fileops \<Rightarrow> sfs_fstat (in_info (inodes st n)) }"

definition vop_gettype :: "kfs \<Rightarrow> nat \<Rightarrow> u32 option" where
  "vop_gettype st n =
     do { inode_check st n;
          case in_ops (inodes st n) of
            Dev_Ops d \<Rightarrow> Some (dev_gettype st d)
          | Sfs_Dirops \<Rightarrow> sfs_gettype (in_info (inodes st n))
          | Sfs_Fileops \<Rightarrow> sfs_gettype (in_info (inodes st n)) }"

definition vop_tryseek :: "kfs \<Rightarrow> nat \<Rightarrow> int \<Rightarrow> (kfs \<times> int) option" where
  "vop_tryseek st n pos =
     do { inode_check st n;
          case in_ops (inodes st n) of
            Dev_Ops d \<Rightarrow> Some (st, dev_tryseek st d pos)
          | Sfs_Dirops \<Rightarrow> None
          | Sfs_Fileops \<Rightarrow> on_file st n (\<lambda>s x. sfs_tryseek s x pos) }"

definition vop_lookup :: "kfs \<Rightarrow> nat \<Rightarrow> nat \<Rightarrow> allocs \<Rightarrow> (kfs \<times> int \<times> nat option) option" where
  "vop_lookup st n path al =
     do { inode_check st n;
          case in_ops (inodes st n) of
            Dev_Ops d \<Rightarrow> Some (dev_lookup st n path)
          | Sfs_Dirops \<Rightarrow> sfs_lookup st n path al
          | Sfs_Fileops \<Rightarrow> None }"

definition vop_namefile :: "kfs \<Rightarrow> nat \<Rightarrow> iobuf \<Rightarrow> nat option \<Rightarrow> nat \<Rightarrow> allocs list \<Rightarrow> (kfs \<times> iobuf \<times> int) option" where
  "vop_namefile st n iob entry dotdot als =
     do { inode_check st n;
          case in_ops (inodes st n) of Sfs_Dirops \<Rightarrow> sfs_namefile st n iob entry dotdot als | _ \<Rightarrow> None }"

definition vop_getdirentry :: "kfs \<Rightarrow> nat \<Rightarrow> iobuf \<Rightarrow> nat option \<Rightarrow> (kfs \<times> iobuf \<times> int) option" where
  "vop_getdirentry st n iob entry =
     do { inode_check st n;
          case in_ops (inodes st n) of
            Sfs_Dirops \<Rightarrow> do { (st, iob, ret) \<leftarrow> on_file st n (\<lambda>s x. sfs_getdirentry s x iob entry); Some (st, iob, ret) }
          | _ \<Rightarrow> None }"

text \<open>No table has \<open>vop_create\<close>.\<close>

definition vop_create :: "kfs \<Rightarrow> nat \<Rightarrow> nat \<Rightarrow> bool \<Rightarrow> (kfs \<times> int \<times> nat option) option" where
  "vop_create st dir name excl =
     (case in_ops (inodes st dir) of Dev_Ops d \<Rightarrow> None | Sfs_Dirops \<Rightarrow> None | Sfs_Fileops \<Rightarrow> None)"

end
