(* ===== verification/Vfs_Path.thy ===== *)
theory Vfs_Path
  imports Vfs
begin

section \<open>Paths, mounting and opening: \<open>kern/fs/vfs\<close>\<close>

text \<open>
  The list of devices (\<open>vfsdev.c\<close>), the current directory (\<open>vfspath.c\<close>), looking paths up (\<open>vfslookup.c\<close>), opening and
  closing (\<open>vfsfile.c\<close>) and the boot file system (\<open>vfs.c\<close>). Strings are given by their addresses, as in the code.
\<close>

subsection \<open>The current directory: \<open>vfspath.c\<close>\<close>

definition get_cwd_nolock :: "kfs \<Rightarrow> nat option" where
  "get_cwd_nolock st = pwd (filesps st (cur_filesp st))"

definition set_cwd_nolock :: "kfs \<Rightarrow> nat option \<Rightarrow> kfs" where
  "set_cwd_nolock st n = st\<lparr>filesps := (filesps st)(cur_filesp st := (filesps st (cur_filesp st))\<lparr>pwd := n\<rparr>)\<rparr>"

definition vfs_get_curdir :: "kfs \<Rightarrow> kfs \<times> int \<times> nat option" where
  "vfs_get_curdir st =
     (case get_cwd_nolock st of
        Some n \<Rightarrow> (let (st, r) = inode_ref_inc st n in (st, 0, Some n))
      | None \<Rightarrow> (st, - E_NOENT, None))"

definition vfs_set_curdir :: "kfs \<Rightarrow> nat option \<Rightarrow> (kfs \<times> int) option" where
  "vfs_set_curdir st dir =
     (let old_dir = get_cwd_nolock st;
          switch = (\<lambda>st. do {
            let st = set_cwd_nolock st dir;
            case old_dir of None \<Rightarrow> Some (st, 0) | Some old \<Rightarrow> do { (st, r) \<leftarrow> inode_ref_dec st old; Some (st, 0) } })
      in if old_dir = dir then Some (st, 0)
         else case dir of
           None \<Rightarrow> switch st
         | Some d \<Rightarrow> do {
             type \<leftarrow> vop_gettype st d;
             if \<not> S_ISDIR type then Some (st, - E_NOTDIR)
             else switch (fst (inode_ref_inc st d)) })"

subsection \<open>The list of devices: \<open>vfsdev.c\<close>\<close>

text \<open>The first device whose name is the string at \<open>name\<close>, with its place in the list.\<close>

fun find_dev :: "memory \<Rightarrow> nat \<Rightarrow> (vfs_dev \<Rightarrow> bool) \<Rightarrow> nat \<Rightarrow> vfs_dev list \<Rightarrow> (nat \<times> vfs_dev) option option" where
  "find_dev m name P i [] = Some None"
| "find_dev m name P i (v # vs) =
     (if P v
      then do { r \<leftarrow> strcmp m name (devname v); if r = 0 then Some (Some (i, v)) else find_dev m name P (i + 1) vs }
      else find_dev m name P (i + 1) vs)"

definition vfs_get_root :: "kfs \<Rightarrow> nat \<Rightarrow> allocs \<Rightarrow> (kfs \<times> int \<times> nat option) option" where
  "vfs_get_root st name al =
     do { v \<leftarrow> find_dev (mem_of st) name (\<lambda>v. True) 0 (vdev_list st);
          case v of
            None \<Rightarrow> Some (st, - E_NO_DEV, None)
          | Some (i, v) \<Rightarrow>
              (if vd_fs v then do { (st, root) \<leftarrow> sfs_get_root st al; Some (st, 0, Some root) }
               else if \<not> mountable v
               then do { n \<leftarrow> devnode v; let (st, r) = inode_ref_inc st n; Some (st, 0, Some n) }
               else Some (st, - E_NA_DEV, None)) }"

definition vfs_get_devname :: "kfs \<Rightarrow> nat option" where
  "vfs_get_devname st = map_option devname (find vd_fs (vdev_list st))"

definition check_devname_conflict :: "kfs \<Rightarrow> nat \<Rightarrow> bool option" where
  "check_devname_conflict st name =
     do { v \<leftarrow> find_dev (mem_of st) name (\<lambda>v. True) 0 (vdev_list st); Some (v = None) }"

definition strdup :: "memory \<Rightarrow> nat \<Rightarrow> nat option \<Rightarrow> (memory \<times> nat option) option" where
  "strdup m src dst =
     do { len \<leftarrow> strlen m src;
          case dst of
            None \<Rightarrow> Some (m, None)
          | Some d \<Rightarrow> (let m = memcpy m d src len in Some (m(d + len := NUL), Some d)) }"

abbreviation (input) FS_MAX_DNAME_LEN :: nat where "FS_MAX_DNAME_LEN \<equiv> 31"

definition is_device :: "kfs \<Rightarrow> nat \<Rightarrow> bool" where
  "is_device st n = (case in_ops (inodes st n) of Dev_Ops d \<Rightarrow> True | _ \<Rightarrow> False)"

definition vfs_do_add :: "kfs \<Rightarrow> nat \<Rightarrow> nat option \<Rightarrow> bool \<Rightarrow> bool \<Rightarrow> nat option \<Rightarrow> bool \<Rightarrow> (kfs \<times> int) option" where
  "vfs_do_add st name node fs' mount dup vdev =
     do { kassert (case node of None \<Rightarrow> \<not> mount | Some n \<Rightarrow> is_device st n);
          len \<leftarrow> strlen (mem_of st) name;
          if len > FS_MAX_DNAME_LEN then Some (st, - E_TOO_BIG)
          else do {
            (m, s_devname) \<leftarrow> strdup (mem_of st) name dup;
            let st = set_mem m st;
            case s_devname of
              None \<Rightarrow> Some (st, - E_NO_MEM)
            | Some s_devname \<Rightarrow>
                (if \<not> vdev then Some (st, - E_NO_MEM)
                 else do {
                   unique \<leftarrow> check_devname_conflict st s_devname;
                   if \<not> unique then Some (st, - E_EXISTS)
                   else Some (st\<lparr>vdev_list := \<lparr>devname = s_devname, devnode = node, vd_fs = fs', mountable = mount\<rparr> # vdev_list st\<rparr>, 0) }) } }"

definition vfs_add_fs :: "kfs \<Rightarrow> nat \<Rightarrow> bool \<Rightarrow> nat option \<Rightarrow> bool \<Rightarrow> (kfs \<times> int) option" where
  "vfs_add_fs st name fs' dup vdev = vfs_do_add st name None fs' False dup vdev"

definition vfs_add_dev :: "kfs \<Rightarrow> nat \<Rightarrow> nat \<Rightarrow> bool \<Rightarrow> nat option \<Rightarrow> bool \<Rightarrow> (kfs \<times> int) option" where
  "vfs_add_dev st name node mount dup vdev = vfs_do_add st name (Some node) False mount dup vdev"

definition find_mount :: "kfs \<Rightarrow> nat \<Rightarrow> (nat \<times> vfs_dev) option option" where
  "find_mount st name = find_dev (mem_of st) name mountable 0 (vdev_list st)"

definition set_mounted :: "nat \<Rightarrow> bool \<Rightarrow> kfs \<Rightarrow> kfs" where
  "set_mounted i b st = st\<lparr>vdev_list := (vdev_list st)[i := (vdev_list st ! i)\<lparr>vd_fs := b\<rparr>]\<rparr>"

text \<open>The mount function is \<open>sfs_do_mount\<close>, the only one there is, and the device \<open>disk0\<close>, the only mountable one.\<close>

definition vfs_mount :: "kfs \<Rightarrow> nat \<Rightarrow> mount_allocs \<Rightarrow> (kfs \<times> int) option" where
  "vfs_mount st name al =
     do { v \<leftarrow> find_mount st name;
          case v of
            None \<Rightarrow> Some (st, - E_NO_DEV)
          | Some (i, v) \<Rightarrow>
              (if vd_fs v then Some (st, - E_BUSY)
               else do {
                 (m, ret, new) \<leftarrow> sfs_do_mount (dev_table (fs st)) (dev (fs st)) 4096 (mem_of st) al;
                 if ret = 0
                 then do { new \<leftarrow> new; Some (set_mounted i True (st\<lparr>fs := new, inode_list := [], sfs_hash := (\<lambda>b. [])\<rparr>), 0) }
                 else Some (set_mem m st, ret) }) }"

definition sfs_mount :: "kfs \<Rightarrow> nat \<Rightarrow> mount_allocs \<Rightarrow> (kfs \<times> int) option" where
  "sfs_mount st name al = vfs_mount st name al"

definition vfs_unmount :: "kfs \<Rightarrow> nat \<Rightarrow> (kfs \<times> int) option" where
  "vfs_unmount st name =
     do { v \<leftarrow> find_mount st name;
          case v of
            None \<Rightarrow> Some (st, - E_NO_DEV)
          | Some (i, v) \<Rightarrow>
              (if \<not> vd_fs v then Some (st, - E_INVAL)
               else do {
                 (st, ret) \<leftarrow> sfs_sync st;
                 if ret \<noteq> 0 then Some (st, ret)
                 else do {
                   ret \<leftarrow> sfs_unmount st;
                   if ret = 0 then Some (set_mounted i False st, 0) else Some (st, ret) } }) }"

fun unmount_devs :: "kfs \<Rightarrow> nat \<Rightarrow> vfs_dev list \<Rightarrow> kfs option" where
  "unmount_devs st i [] = Some st"
| "unmount_devs st i (v # vs) =
     (if mountable v \<and> vd_fs v
      then do {
        (st, ret) \<leftarrow> sfs_sync st;
        if ret \<noteq> 0 then unmount_devs st (i + 1) vs
        else do {
          ret \<leftarrow> sfs_unmount st;
          if ret \<noteq> 0 then unmount_devs st (i + 1) vs
          else unmount_devs (set_mounted i False st) (i + 1) vs } }
      else unmount_devs st (i + 1) vs)"

definition vfs_unmount_all :: "kfs \<Rightarrow> (kfs \<times> int) option" where
  "vfs_unmount_all st = do { st \<leftarrow> unmount_devs st 0 (vdev_list st); Some (st, 0) }"

fun cleanup_devs :: "kfs \<Rightarrow> vfs_dev list \<Rightarrow> kfs option" where
  "cleanup_devs st [] = Some st"
| "cleanup_devs st (v # vs) =
     do { st \<leftarrow> (if vd_fs v then sfs_cleanup st else Some st); cleanup_devs st vs }"

definition vfs_cleanup :: "kfs \<Rightarrow> kfs option" where
  "vfs_cleanup st = cleanup_devs st (vdev_list st)"

subsection \<open>The boot file system: \<open>vfs.c\<close>\<close>

definition vfs_get_bootfs :: "kfs \<Rightarrow> kfs \<times> int \<times> nat option" where
  "vfs_get_bootfs st =
     (case bootfs_node st of
        None \<Rightarrow> (st, - E_NOENT, None)
      | Some n \<Rightarrow> (let (st, r) = inode_ref_inc st n in (st, 0, Some n)))"

definition change_bootfs :: "kfs \<Rightarrow> nat option \<Rightarrow> kfs option" where
  "change_bootfs st node =
     (let old = bootfs_node st; st = st\<lparr>bootfs_node := node\<rparr>
      in case old of None \<Rightarrow> Some st | Some n \<Rightarrow> do { (st, r) \<leftarrow> inode_ref_dec st n; Some st })"

subsection \<open>Looking a path up: \<open>vfslookup.c\<close>\<close>

text \<open>The first loop of \<open>get_device\<close>: the values of \<open>colon\<close> and \<open>slash\<close>.\<close>

partial_function (option) scan_path :: "memory \<Rightarrow> nat \<Rightarrow> nat \<Rightarrow> (int \<times> int) option" where
  "scan_path m path i =
     (if m (path + i) = NUL then Some (- 1, - 1)
      else if m (path + i) = CHR '':'' then Some (int i, - 1)
      else if m (path + i) = CHR ''/'' then Some (- 1, int i)
      else scan_path m path (i + 1))"

partial_function (option) skip_slashes :: "memory \<Rightarrow> nat \<Rightarrow> nat option" where
  "skip_slashes m a = (if m a = CHR ''/'' then skip_slashes m (a + 1) else Some a)"

text \<open>The root of the file system of the current directory, for paths that begin with a colon.\<close>

definition curdir_root :: "kfs \<Rightarrow> allocs \<Rightarrow> (kfs \<times> int \<times> nat option) option" where
  "curdir_root st al =
     (case vfs_get_curdir st of
        (st, ret, Some n) \<Rightarrow> do {
          kassert (\<not> is_device st n);
          (st, root) \<leftarrow> sfs_get_root st al;
          (st, r) \<leftarrow> inode_ref_dec st n;
          Some (st, 0, Some root) }
      | (st, ret, None) \<Rightarrow> Some (st, ret, None))"

text \<open>Results: the code, the rest of the path and the inode to start from.\<close>

definition get_device :: "kfs \<Rightarrow> nat \<Rightarrow> allocs \<Rightarrow> (kfs \<times> int \<times> nat \<times> nat option) option" where
  "get_device st path al =
     do { (colon, slash) \<leftarrow> scan_path (mem_of st) path 0;
          if colon < 0 \<and> slash \<noteq> 0
          then (let (st, ret, node) = vfs_get_curdir st in Some (st, ret, path, node))
          else if colon > 0
          then do {
            let st = set_mem ((mem_of st)(path + nat colon := NUL)) st;
            subpath \<leftarrow> skip_slashes (mem_of st) (path + nat colon + 1);
            (st, ret, node) \<leftarrow> vfs_get_root st path al;
            Some (st, ret, subpath, node) }
          else do {
            (st, ret, node) \<leftarrow> (if mem_of st path = CHR ''/'' then Some (vfs_get_bootfs st)
                                else do { kassert (mem_of st path = CHR '':''); curdir_root st al });
            if ret \<noteq> 0 then Some (st, ret, path, node)
            else do { subpath \<leftarrow> skip_slashes (mem_of st) (path + 1); Some (st, 0, subpath, node) } } }"

definition vfs_lookup :: "kfs \<Rightarrow> nat \<Rightarrow> allocs \<Rightarrow> allocs \<Rightarrow> (kfs \<times> int \<times> nat option) option" where
  "vfs_lookup st path al al' =
     do { (st, ret, path, node) \<leftarrow> get_device st path al;
          if ret \<noteq> 0 then Some (st, ret, None)
          else do {
            n \<leftarrow> node;
            if mem_of st path \<noteq> NUL
            then do { (st, ret, found) \<leftarrow> vop_lookup st n path al';
                      (st, r) \<leftarrow> inode_ref_dec st n;
                      Some (st, ret, found) }
            else Some (st, 0, Some n) } }"

text \<open>Results: the code, the directory and the end of the path.\<close>

definition vfs_lookup_parent :: "kfs \<Rightarrow> nat \<Rightarrow> allocs \<Rightarrow> (kfs \<times> int \<times> nat option \<times> nat) option" where
  "vfs_lookup_parent st path al =
     do { (st, ret, path, node) \<leftarrow> get_device st path al;
          if ret \<noteq> 0 then Some (st, ret, None, path) else Some (st, 0, node, path) }"

subsection \<open>Changing and naming the current directory: \<open>vfspath.c\<close>, \<open>vfs.c\<close>\<close>

definition vfs_chdir :: "kfs \<Rightarrow> nat \<Rightarrow> allocs \<Rightarrow> allocs \<Rightarrow> (kfs \<times> int) option" where
  "vfs_chdir st path al al' =
     do { (st, ret, node) \<leftarrow> vfs_lookup st path al al';
          if ret = 0
          then do { n \<leftarrow> node;
                    (st, ret) \<leftarrow> vfs_set_curdir st (Some n);
                    (st, r) \<leftarrow> inode_ref_dec st n;
                    Some (st, ret) }
          else Some (st, ret) }"

text \<open>The device name, the colon (at address \<open>colon\<close>), and the path of the directory.\<close>

definition vfs_getcwd :: "kfs \<Rightarrow> iobuf \<Rightarrow> nat \<Rightarrow> nat option \<Rightarrow> nat \<Rightarrow> allocs list \<Rightarrow> (kfs \<times> iobuf \<times> int) option" where
  "vfs_getcwd st iob colon entry dotdot als =
     (case vfs_get_curdir st of
        (st, ret, None) \<Rightarrow> Some (st, iob, ret)
      | (st, ret, Some n) \<Rightarrow> do {
          kassert (\<not> is_device st n);
          name \<leftarrow> vfs_get_devname st;
          len \<leftarrow> strlen (mem_of st) name;
          (m, iob, ret, alen) \<leftarrow> iobuf_move (mem_of st) iob name len True;
          (st, iob, ret) \<leftarrow> (if ret \<noteq> 0 then Some (set_mem m st, iob, ret)
            else do {
              (m, iob, ret, alen) \<leftarrow> iobuf_move (m(colon := CHR '':'')) iob colon 1 True;
              if ret \<noteq> 0 then Some (set_mem m st, iob, ret)
              else vop_namefile (set_mem m st) n iob entry dotdot als });
          (st, r) \<leftarrow> inode_ref_dec st n;
          Some (st, iob, ret) })"

definition vfs_set_bootfs :: "kfs \<Rightarrow> nat option \<Rightarrow> allocs \<Rightarrow> allocs \<Rightarrow> (kfs \<times> int) option" where
  "vfs_set_bootfs st fsname al al' =
     (case fsname of
        None \<Rightarrow> do { st \<leftarrow> change_bootfs st None; Some (st, 0) }
      | Some name \<Rightarrow> do {
          s \<leftarrow> strchr (mem_of st) name CHR '':'';
          if (case s of None \<Rightarrow> True | Some a \<Rightarrow> mem_of st (a + 1) \<noteq> NUL) then Some (st, - E_INVAL)
          else do {
            (st, ret) \<leftarrow> vfs_chdir st name al al';
            if ret \<noteq> 0 then Some (st, ret)
            else (case vfs_get_curdir st of
              (st, ret, node) \<Rightarrow>
                if ret \<noteq> 0 then Some (st, ret) else do { st \<leftarrow> change_bootfs st node; Some (st, 0) }) } })"

subsection \<open>Opening and closing: \<open>vfsfile.c\<close>\<close>

definition vfs_open :: "kfs \<Rightarrow> nat \<Rightarrow> u32 \<Rightarrow> allocs \<Rightarrow> allocs \<Rightarrow> allocs \<Rightarrow> (kfs \<times> int \<times> nat option) option" where
  "vfs_open st path open_flags al al' al'' =
     (let mode = open_flags AND O_ACCMODE;
          can_write = (mode = O_WRONLY \<or> mode = O_RDWR);
          excl = (open_flags AND O_EXCL \<noteq> 0); create = (open_flags AND O_CREAT \<noteq> 0); trunc = (open_flags AND O_TRUNC \<noteq> 0)
      in if \<not> (mode = O_RDONLY \<or> can_write) then Some (st, - E_INVAL, None)
         else if trunc \<and> \<not> can_write then Some (st, - E_INVAL, None)
         else do {
           (st, ret, node) \<leftarrow> vfs_lookup st path al al';
           if ret \<noteq> 0 \<and> \<not> (ret = - 16 \<and> create) then Some (st, ret, None)
           else if ret = 0 \<and> excl \<and> create then Some (st, - E_EXISTS, None)
           else do {
             (st, ret, node, failed) \<leftarrow> (if ret \<noteq> 0
               then do {
                 (st, ret, dir, name) \<leftarrow> vfs_lookup_parent st path al'';
                 if ret \<noteq> 0 then Some (st, ret, None, True)
                 else do { d \<leftarrow> dir; (st, ret, node) \<leftarrow> vop_create st d name excl; Some (st, ret, node, False) } }
               else Some (st, 0, node, False));
             if failed then Some (st, ret, None)
             else do {
               n \<leftarrow> node;
               ret \<leftarrow> vop_open st n open_flags;
               if ret \<noteq> 0 then do { (st, r) \<leftarrow> inode_ref_dec st n; Some (st, ret, None) }
               else do {
                 let (st, r) = inode_open_inc st n;
                 (st, ret) \<leftarrow> (if trunc \<or> create then vop_truncate st n 0 else Some (st, 0));
                 if ret \<noteq> 0
                 then do { (st, r) \<leftarrow> inode_open_dec st n; (st, r) \<leftarrow> inode_ref_dec st n; Some (st, ret, None) }
                 else Some (st, 0, Some n) } } } })"

definition vfs_close :: "kfs \<Rightarrow> nat \<Rightarrow> (kfs \<times> int) option" where
  "vfs_close st n = do { (st, r) \<leftarrow> inode_open_dec st n; (st, r) \<leftarrow> inode_ref_dec st n; Some (st, 0) }"

text \<open>The operations on links are not implemented by the code.\<close>

definition vfs_unlink :: int where "vfs_unlink = - E_UNIMP"
definition vfs_rename :: int where "vfs_rename = - E_UNIMP"
definition vfs_link :: int where "vfs_link = - E_UNIMP"
definition vfs_symlink :: int where "vfs_symlink = - E_UNIMP"
definition vfs_readlink :: int where "vfs_readlink = - E_UNIMP"
definition vfs_mkdir :: int where "vfs_mkdir = - E_UNIMP"

end
