(* ===== verification/Files.thy ===== *)
theory Files
  imports Vfs_Path
begin

section \<open>Open files: \<open>kern/fs/file.c\<close>, \<open>kern/fs/fs.c\<close>\<close>

text \<open>
  The table of open files of a process: \<open>FILES_STRUCT_NENTRY\<close> entries, the number of 56-byte structures (\<open>bool\<close> takes 8 bytes) that fit
  behind the 48 bytes of \<open>files_struct\<close> in a page. A \<open>struct file *\<close> is a table and an index.
\<close>

abbreviation (input) FILES_STRUCT_NENTRY :: nat where "FILES_STRUCT_NENTRY \<equiv> 72"
abbreviation (input) NO_FD :: int where "NO_FD \<equiv> - 0x9527"

definition file_at :: "kfs \<Rightarrow> nat \<Rightarrow> nat \<Rightarrow> open_file" where
  "file_at st p i = fd_array (filesps st p) ! i"

definition upd_files :: "nat \<Rightarrow> (files_struct \<Rightarrow> files_struct) \<Rightarrow> kfs \<Rightarrow> kfs" where
  "upd_files p f st = st\<lparr>filesps := (filesps st)(p := f (filesps st p))\<rparr>"

definition upd_file :: "nat \<Rightarrow> nat \<Rightarrow> (open_file \<Rightarrow> open_file) \<Rightarrow> kfs \<Rightarrow> kfs" where
  "upd_file p i f st = upd_files p (\<lambda>t. t\<lparr>fd_array := (fd_array t)[i := f (fd_array t ! i)]\<rparr>) st"

subsection \<open>Entries of the table\<close>

definition testfd :: "int \<Rightarrow> bool" where
  "testfd fd = (fd \<ge> 0 \<and> fd < int FILES_STRUCT_NENTRY)"

definition get_fd_array :: "kfs \<Rightarrow> nat option" where
  "get_fd_array st = do { kassert (files_count (filesps st (cur_filesp st)) > 0); Some (cur_filesp st) }"

definition fd_array_init :: "open_file list \<Rightarrow> open_file list" where
  "fd_array_init tab = map (\<lambda>i. (tab ! i)\<lparr>f_open_count := 0, f_status := FD_NONE, f_fd := int i\<rparr>) [0..<FILES_STRUCT_NENTRY]"

text \<open>Results: the code and the index of the entry.\<close>

definition fd_array_alloc :: "kfs \<Rightarrow> int \<Rightarrow> (kfs \<times> int \<times> nat option) option" where
  "fd_array_alloc st fd =
     do { p \<leftarrow> get_fd_array st;
          let found = (\<lambda>i. do {
            kassert (f_open_count (file_at st p i) = 0);
            Some (upd_file p i (\<lambda>f. f\<lparr>f_status := FD_INIT, f_node := None\<rparr>) st, 0, Some i) });
          if fd = NO_FD
          then (case find (\<lambda>i. f_status (file_at st p i) = FD_NONE) [0..<FILES_STRUCT_NENTRY] of
                  Some i \<Rightarrow> found i
                | None \<Rightarrow> Some (st, - E_MAX_OPEN, None))
          else if testfd fd
          then (if f_status (file_at st p (nat fd)) = FD_NONE then found (nat fd) else Some (st, - E_BUSY, None))
          else Some (st, - E_INVAL, None) }"

definition fd_array_free :: "kfs \<Rightarrow> nat \<Rightarrow> nat \<Rightarrow> kfs option" where
  "fd_array_free st p i =
     do { let f = file_at st p i;
          kassert (f_status f = FD_INIT \<or> f_status f = FD_CLOSED);
          kassert (f_open_count f = 0);
          st \<leftarrow> (if f_status f = FD_CLOSED
                then do { n \<leftarrow> f_node f; (st, r) \<leftarrow> vfs_close st n; Some st }
                else Some st);
          Some (upd_file p i (\<lambda>f. f\<lparr>f_status := FD_NONE\<rparr>) st) }"

definition fd_array_acquire :: "kfs \<Rightarrow> nat \<Rightarrow> nat \<Rightarrow> kfs option" where
  "fd_array_acquire st p i =
     do { kassert (f_status (file_at st p i) = FD_OPENED);
          Some (upd_file p i (\<lambda>f. f\<lparr>f_open_count := f_open_count f + 1\<rparr>) st) }"

definition fd_array_release :: "kfs \<Rightarrow> nat \<Rightarrow> nat \<Rightarrow> kfs option" where
  "fd_array_release st p i =
     do { kassert (f_status (file_at st p i) = FD_OPENED \<or> f_status (file_at st p i) = FD_CLOSED);
          kassert (f_open_count (file_at st p i) > 0);
          let st = upd_file p i (\<lambda>f. f\<lparr>f_open_count := f_open_count f - 1\<rparr>) st;
          if f_open_count (file_at st p i) = 0 then fd_array_free st p i else Some st }"

definition fd_array_open :: "kfs \<Rightarrow> nat \<Rightarrow> nat \<Rightarrow> kfs option" where
  "fd_array_open st p i =
     do { kassert (f_status (file_at st p i) = FD_INIT \<and> f_node (file_at st p i) \<noteq> None);
          Some (upd_file p i (\<lambda>f. f\<lparr>f_status := FD_OPENED, f_open_count := f_open_count f + 1\<rparr>) st) }"

definition fd_array_close :: "kfs \<Rightarrow> nat \<Rightarrow> nat \<Rightarrow> kfs option" where
  "fd_array_close st p i =
     do { kassert (f_status (file_at st p i) = FD_OPENED);
          kassert (f_open_count (file_at st p i) > 0);
          let st = upd_file p i (\<lambda>f. f\<lparr>f_status := FD_CLOSED, f_open_count := f_open_count f - 1\<rparr>) st;
          if f_open_count (file_at st p i) = 0 then fd_array_free st p i else Some st }"

definition fd_array_dup :: "kfs \<Rightarrow> nat \<Rightarrow> nat \<Rightarrow> nat \<Rightarrow> nat \<Rightarrow> kfs option" where
  "fd_array_dup st to i from' j =
     do { let f = file_at st from' j;
          kassert (f_status (file_at st to i) = FD_INIT \<and> f_status f = FD_OPENED);
          let st = upd_file to i (\<lambda>g. g\<lparr>f_pos := f_pos f, f_readable := f_readable f, f_writable := f_writable f\<rparr>) st;
          n \<leftarrow> f_node f;
          let (st, r) = inode_ref_inc st n;
          let (st, r) = inode_open_inc st n;
          fd_array_open (upd_file to i (\<lambda>g. g\<lparr>f_node := Some n\<rparr>) st) to i }"

definition fd2file :: "kfs \<Rightarrow> int \<Rightarrow> (int \<times> (nat \<times> nat) option) option" where
  "fd2file st fd =
     (if testfd fd
      then do {
        p \<leftarrow> get_fd_array st;
        let f = file_at st p (nat fd);
        if f_status f = FD_OPENED \<and> f_fd f = fd then Some (0, Some (p, nat fd)) else Some (- E_INVAL, None) }
      else Some (- E_INVAL, None))"

definition file_testfd :: "kfs \<Rightarrow> int \<Rightarrow> bool \<Rightarrow> bool \<Rightarrow> bool option" where
  "file_testfd st fd readable writable =
     do { (ret, found) \<leftarrow> fd2file st fd;
          case found of
            None \<Rightarrow> Some False
          | Some (p, i) \<Rightarrow> Some (\<not> (readable \<and> \<not> f_readable (file_at st p i)) \<and> \<not> (writable \<and> \<not> f_writable (file_at st p i))) }"

subsection \<open>Operations on descriptors: \<open>file.c\<close>\<close>

definition file_open :: "kfs \<Rightarrow> nat \<Rightarrow> u32 \<Rightarrow> allocs \<Rightarrow> allocs \<Rightarrow> allocs \<Rightarrow> (kfs \<times> int) option" where
  "file_open st path open_flags al al' al'' =
     (let mode = open_flags AND O_ACCMODE; readable = (mode = O_RDONLY \<or> mode = O_RDWR); writable = (mode = O_WRONLY \<or> mode = O_RDWR)
      in if \<not> (readable \<or> writable) then Some (st, - E_INVAL)
         else do {
           (st, ret, found) \<leftarrow> fd_array_alloc st NO_FD;
           if ret \<noteq> 0 then Some (st, ret)
           else do {
             i \<leftarrow> found;
             let p = cur_filesp st;
             (st, ret, node) \<leftarrow> vfs_open st path open_flags al al' al'';
             if ret \<noteq> 0 then do { st \<leftarrow> fd_array_free st p i; Some (st, ret) }
             else do {
               n \<leftarrow> node;
               pos \<leftarrow> (if open_flags AND O_APPEND \<noteq> 0 then map_option (\<lambda>x. uint (st_size x)) (vop_fstat st n) else Some 0);
               let st = upd_file p i (\<lambda>f. f\<lparr>f_pos := pos, f_node := Some n, f_readable := readable, f_writable := writable\<rparr>) st;
               st \<leftarrow> fd_array_open st p i;
               Some (st, f_fd (file_at st p i)) } } })"

definition file_close :: "kfs \<Rightarrow> int \<Rightarrow> (kfs \<times> int) option" where
  "file_close st fd =
     do { (ret, found) \<leftarrow> fd2file st fd;
          case found of
            None \<Rightarrow> Some (st, ret)
          | Some (p, i) \<Rightarrow> do { st \<leftarrow> fd_array_close st p i; Some (st, 0) } }"

text \<open>The common part of \<open>file_read\<close> and \<open>file_write\<close>, with the operation of the inode as an argument; results: the code and \<open>*copied_store\<close>.\<close>

definition file_io :: "(kfs \<Rightarrow> nat \<Rightarrow> iobuf \<Rightarrow> (kfs \<times> iobuf \<times> int) option) \<Rightarrow> (open_file \<Rightarrow> bool)
    \<Rightarrow> kfs \<Rightarrow> int \<Rightarrow> nat \<Rightarrow> nat \<Rightarrow> (kfs \<times> int \<times> nat) option" where
  "file_io vop allowed st fd base len =
     do { (ret, found) \<leftarrow> fd2file st fd;
          case found of
            None \<Rightarrow> Some (st, ret, 0)
          | Some (p, i) \<Rightarrow>
              (if \<not> allowed (file_at st p i) then Some (st, - E_INVAL, 0)
               else do {
                 st \<leftarrow> fd_array_acquire st p i;
                 n \<leftarrow> f_node (file_at st p i);
                 (st, iob, ret) \<leftarrow> vop st n (iobuf_init base len (f_pos (file_at st p i)));
                 let copied = iobuf_used iob;
                 let st = (if f_status (file_at st p i) = FD_OPENED then upd_file p i (\<lambda>f. f\<lparr>f_pos := f_pos f + int copied\<rparr>) st else st);
                 st \<leftarrow> fd_array_release st p i;
                 Some (st, ret, copied) }) }"

definition file_read :: "sleeps \<Rightarrow> kfs \<Rightarrow> int \<Rightarrow> nat \<Rightarrow> nat \<Rightarrow> (kfs \<times> int \<times> nat) option" where
  "file_read sleeps st fd base len = file_io (vop_read sleeps) f_readable st fd base len"

definition file_write :: "sleeps \<Rightarrow> kfs \<Rightarrow> int \<Rightarrow> nat \<Rightarrow> nat \<Rightarrow> (kfs \<times> int \<times> nat) option" where
  "file_write sleeps st fd base len = file_io (vop_write sleeps) f_writable st fd base len"

definition file_seek :: "kfs \<Rightarrow> int \<Rightarrow> int \<Rightarrow> int \<Rightarrow> (kfs \<times> int) option" where
  "file_seek st fd pos whence =
     do { (ret, found) \<leftarrow> fd2file st fd;
          case found of
            None \<Rightarrow> Some (st, ret)
          | Some (p, i) \<Rightarrow> do {
              st \<leftarrow> fd_array_acquire st p i;
              n \<leftarrow> f_node (file_at st p i);
              (pos, ret) \<leftarrow> (if whence = 0 then Some (pos, 0)
                else if whence = 1 then Some (pos + f_pos (file_at st p i), 0)
                else if whence = 2 then do { x \<leftarrow> vop_fstat st n; Some (pos + uint (st_size x), 0) }
                else Some (pos, - E_INVAL));
              (st, ret) \<leftarrow> (if ret = 0
                then do { (st, ret) \<leftarrow> vop_tryseek st n pos;
                          Some (if ret = 0 then upd_file p i (\<lambda>f. f\<lparr>f_pos := pos\<rparr>) st else st, ret) }
                else Some (st, ret));
              st \<leftarrow> fd_array_release st p i;
              Some (st, ret) } }"

definition file_fstat :: "kfs \<Rightarrow> int \<Rightarrow> (kfs \<times> int \<times> stat option) option" where
  "file_fstat st fd =
     do { (ret, found) \<leftarrow> fd2file st fd;
          case found of
            None \<Rightarrow> Some (st, ret, None)
          | Some (p, i) \<Rightarrow> do {
              st \<leftarrow> fd_array_acquire st p i;
              n \<leftarrow> f_node (file_at st p i);
              x \<leftarrow> vop_fstat st n;
              st \<leftarrow> fd_array_release st p i;
              Some (st, 0, Some x) } }"

definition file_fsync :: "kfs \<Rightarrow> int \<Rightarrow> (kfs \<times> int) option" where
  "file_fsync st fd =
     do { (ret, found) \<leftarrow> fd2file st fd;
          case found of
            None \<Rightarrow> Some (st, ret)
          | Some (p, i) \<Rightarrow> do {
              st \<leftarrow> fd_array_acquire st p i;
              n \<leftarrow> f_node (file_at st p i);
              (st, ret) \<leftarrow> vop_fsync st n;
              st \<leftarrow> fd_array_release st p i;
              Some (st, ret) } }"

text \<open>\<open>name\<close> and \<open>offset\<close> are the fields of the caller's \<open>struct dirent\<close>; the last result is the new offset.\<close>

definition file_getdirentry :: "kfs \<Rightarrow> int \<Rightarrow> nat \<Rightarrow> int \<Rightarrow> nat option \<Rightarrow> (kfs \<times> int \<times> int) option" where
  "file_getdirentry st fd name offset entry =
     do { (ret, found) \<leftarrow> fd2file st fd;
          case found of
            None \<Rightarrow> Some (st, ret, offset)
          | Some (p, i) \<Rightarrow> do {
              st \<leftarrow> fd_array_acquire st p i;
              n \<leftarrow> f_node (file_at st p i);
              (st, iob, ret) \<leftarrow> vop_getdirentry st n (iobuf_init name 256 offset) entry;
              let offset = (if ret = 0 then offset + int (iobuf_used iob) else offset);
              st \<leftarrow> fd_array_release st p i;
              Some (st, ret, offset) } }"

definition file_dup :: "kfs \<Rightarrow> int \<Rightarrow> int \<Rightarrow> (kfs \<times> int) option" where
  "file_dup st fd1 fd2 =
     do { (ret, found) \<leftarrow> fd2file st fd1;
          case found of
            None \<Rightarrow> Some (st, ret)
          | Some (p, i) \<Rightarrow> do {
              (st, ret, found) \<leftarrow> fd_array_alloc st fd2;
              if ret \<noteq> 0 then Some (st, ret)
              else do { j \<leftarrow> found; st \<leftarrow> fd_array_dup st p j p i; Some (st, f_fd (file_at st p j)) } } }"

subsection \<open>Tables of open files: \<open>fs.c\<close>\<close>

definition files_create :: "kfs \<Rightarrow> nat option \<Rightarrow> kfs \<times> nat option" where
  "files_create st mem =
     (case mem of
        None \<Rightarrow> (st, None)
      | Some p \<Rightarrow> (upd_files p (\<lambda>t. \<lparr>pwd = None, fd_array = fd_array_init (fd_array t), files_count = 0\<rparr>) st, Some p))"

text \<open>Closing the open entries among those of the list.\<close>

fun close_entries :: "kfs \<Rightarrow> nat \<Rightarrow> nat list \<Rightarrow> kfs option" where
  "close_entries st p [] = Some st"
| "close_entries st p (i # is) =
     do { st \<leftarrow> (if f_status (file_at st p i) = FD_OPENED then fd_array_close st p i else Some st); close_entries st p is }"

fun destroy_entries :: "kfs \<Rightarrow> nat \<Rightarrow> nat list \<Rightarrow> kfs option" where
  "destroy_entries st p [] = Some st"
| "destroy_entries st p (i # is) =
     do { st \<leftarrow> (if f_status (file_at st p i) = FD_OPENED then fd_array_close st p i else Some st);
          kassert (f_status (file_at st p i) = FD_NONE);
          destroy_entries st p is }"

definition files_destroy :: "kfs \<Rightarrow> nat \<Rightarrow> kfs option" where
  "files_destroy st p =
     do { kassert (files_count (filesps st p) = 0);
          st \<leftarrow> (case pwd (filesps st p) of None \<Rightarrow> Some st | Some n \<Rightarrow> do { (st, r) \<leftarrow> inode_ref_dec st n; Some st });
          destroy_entries st p [0..<FILES_STRUCT_NENTRY] }"

definition files_closeall :: "kfs \<Rightarrow> nat \<Rightarrow> kfs option" where
  "files_closeall st p =
     do { kassert (files_count (filesps st p) > 0); close_entries st p [2..<FILES_STRUCT_NENTRY] }"

fun dup_entries :: "kfs \<Rightarrow> nat \<Rightarrow> nat \<Rightarrow> nat list \<Rightarrow> kfs option" where
  "dup_entries st to from' [] = Some st"
| "dup_entries st to from' (i # is) =
     do { st \<leftarrow> (if f_status (file_at st from' i) = FD_OPENED
                 then fd_array_dup (upd_file to i (\<lambda>f. f\<lparr>f_status := FD_INIT\<rparr>) st) to i from' i
                 else Some st);
          dup_entries st to from' is }"

definition dup_files :: "kfs \<Rightarrow> nat \<Rightarrow> nat \<Rightarrow> (kfs \<times> int) option" where
  "dup_files st to from' =
     do { kassert (files_count (filesps st to) = 0 \<and> files_count (filesps st from') > 0);
          let st = upd_files to (\<lambda>t. t\<lparr>pwd := pwd (filesps st from')\<rparr>) st;
          let st = (case pwd (filesps st to) of None \<Rightarrow> st | Some n \<Rightarrow> fst (inode_ref_inc st n));
          st \<leftarrow> dup_entries st to from' [0..<FILES_STRUCT_NENTRY];
          Some (st, 0) }"

end
