(* ===== verification/Files_Spec.thy ===== *)
theory Files_Spec
  imports Files
begin

section \<open>Open files: properties\<close>

text \<open>
  What the counts of an inode count: an entry of a table of open files holds one open and one reference; the
  current directory of a table, the boot file system and the list of devices hold a reference each.
\<close>

subsection \<open>Tables and counts\<close>

text \<open>Between two calls an entry is free, or open with one user.\<close>

definition entry_ok :: "nat \<Rightarrow> open_file \<Rightarrow> bool" where
  "entry_ok i f = (f_fd f = int i
     \<and> (f_status f = FD_NONE \<and> f_open_count f = 0 \<or> f_status f = FD_OPENED \<and> f_open_count f = 1 \<and> f_node f \<noteq> None))"

definition table_ok :: "files_struct \<Rightarrow> bool" where
  "table_ok t = (length (fd_array t) = 72 \<and> (\<forall>i < 72. entry_ok i (fd_array t ! i)))"

definition has_open :: "nat \<Rightarrow> open_file \<Rightarrow> bool" where
  "has_open n f = (f_status f = FD_OPENED \<and> f_node f = Some n)"

definition uses :: "files_struct \<Rightarrow> nat \<Rightarrow> nat" where
  "uses t n = card {i. i < 72 \<and> has_open n (fd_array t ! i)}"

definition pwd_ref :: "files_struct \<Rightarrow> nat \<Rightarrow> nat" where
  "pwd_ref t n = (if pwd t = Some n then 1 else 0)"

definition sys_refs :: "kfs \<Rightarrow> nat \<Rightarrow> nat" where
  "sys_refs st n = (if bootfs_node st = Some n then 1 else 0) + length (filter (\<lambda>v. devnode v = Some n) (vdev_list st))"

text \<open>The counts of every inode are exact for the tables at the addresses \<open>P\<close>.\<close>

definition counted :: "kfs \<Rightarrow> nat set \<Rightarrow> bool" where
  "counted st P = (finite P \<and> (\<forall>p \<in> P. table_ok (filesps st p))
     \<and> (\<forall>n. open_count (inodes st n) = int (\<Sum>p\<in>P. uses (filesps st p) n)
          \<and> ref_count (inodes st n) = int ((\<Sum>p\<in>P. uses (filesps st p) n + pwd_ref (filesps st p) n) + sys_refs st n)))"

lemma upd_file_simps [simp]:
  "filesps (upd_file p i f st) = (filesps st)(p := (filesps st p)\<lparr>fd_array := (fd_array (filesps st p))[i := f (file_at st p i)]\<rparr>)"
  "inodes (upd_file p i f st) = inodes st" "fs (upd_file p i f st) = fs st" "bootfs_node (upd_file p i f st) = bootfs_node st"
  "vdev_list (upd_file p i f st) = vdev_list st" "cur_filesp (upd_file p i f st) = cur_filesp st"
  "console (upd_file p i f st) = console st" "stdin_dev (upd_file p i f st) = stdin_dev st"
  "sfs_hash (upd_file p i f st) = sfs_hash st" "inode_list (upd_file p i f st) = inode_list st"
  by (simp_all add: upd_file_def upd_files_def file_at_def)

lemma file_at_upd: "i < length (fd_array (filesps st p))
    \<Longrightarrow> file_at (upd_file p i f st) q j = (if p = q \<and> i = j then f (file_at st p i) else file_at st q j)"
  by (simp add: file_at_def)

lemma file_at_inodes [simp]: "file_at (st\<lparr>inodes := x\<rparr>) p i = file_at st p i"
  by (simp add: file_at_def)

lemma upd_file_twice: "i < length (fd_array (filesps st p))
    \<Longrightarrow> upd_file p i f ((upd_file p i g st)\<lparr>inodes := x\<rparr>) = upd_file p i (\<lambda>h. f (g h)) (st\<lparr>inodes := x\<rparr>)"
  by (simp add: upd_file_def upd_files_def)

lemma file_at_fs [simp]: "file_at (st\<lparr>fs := s\<rparr>) p i = file_at st p i"
  by (simp add: file_at_def)

lemma upd_file_fs: "upd_file p i f (st\<lparr>fs := s\<rparr>) = (upd_file p i f st)\<lparr>fs := s\<rparr>"
  by (simp add: upd_file_def upd_files_def)

lemma upd_file_same: "i < length (fd_array (filesps st p)) \<Longrightarrow> upd_file p i f (upd_file p i g st) = upd_file p i (\<lambda>h. f (g h)) st"
  by (simp add: upd_file_def upd_files_def)

lemma upd_file_cong: "f (file_at st p i) = g (file_at st p i) \<Longrightarrow> upd_file p i f st = upd_file p i g st"
  by (simp add: upd_file_def upd_files_def file_at_def)

lemma set_node_simps [simp]:
  "inodes (set_node n f st) = (inodes st)(n := f (inodes st n))" "fs (set_node n f st) = fs st"
  "inode_list (set_node n f st) = inode_list st" "sfs_hash (set_node n f st) = sfs_hash st"
  by (simp_all add: set_node_def)

lemma set_node_kfs [simp]:
  "filesps (set_node n f st) = filesps st" "bootfs_node (set_node n f st) = bootfs_node st"
  "vdev_list (set_node n f st) = vdev_list st" "cur_filesp (set_node n f st) = cur_filesp st"
  "console (set_node n f st) = console st" "stdin_dev (set_node n f st) = stdin_dev st"
  by (simp_all add: set_node_def)

lemma file_at_set_node [simp]: "file_at (set_node n f st) p i = file_at st p i"
  by (simp add: file_at_def)

definition bump :: "int \<Rightarrow> inode \<Rightarrow> inode" where
  "bump k i = i\<lparr>ref_count := ref_count i + k, open_count := open_count i + k\<rparr>"

lemma bump_simps [simp]: "ref_count (bump k i) = ref_count i + k" "open_count (bump k i) = open_count i + k"
  "in_ops (bump k i) = in_ops i" "in_info (bump k i) = in_info i" "din_mem (bump k i) = din_mem i" "bump 0 i = i"
  by (simp_all add: bump_def)

lemma bump_bump [simp]: "bump k (bump l i) = bump (l + k) i"
  by (simp add: bump_def add.assoc)

text \<open>A table as \<open>files_create\<close> leaves it.\<close>

definition fresh_table :: "files_struct \<Rightarrow> bool" where
  "fresh_table t = (table_ok t \<and> pwd t = None \<and> files_count t = 0 \<and> (\<forall>i < 72. f_status (fd_array t ! i) = FD_NONE))"

subsection \<open>A small system\<close>

text \<open>
  The keyboard (inode 1) and the console (2) as devices; a table at 10 with descriptor 0 open on the keyboard, 1 on the file of
  \<open>demo_fs\<close> (7) and 2 on a directory (9); a fresh table at every other address. The path of the console is at 700200.
\<close>

definition demo_free_entry :: "nat \<Rightarrow> open_file" where
  "demo_free_entry i = \<lparr>f_status = FD_NONE, f_readable = False, f_writable = False, f_fd = int i, f_pos = 0, f_node = None, f_open_count = 0\<rparr>"

definition demo_entry :: "nat \<Rightarrow> open_file" where
  "demo_entry i = (if i < 3
     then \<lparr>f_status = FD_OPENED, f_readable = True, f_writable = (i = 1), f_fd = int i, f_pos = (if i = 1 then 20 else 0),
       f_node = Some (if i = 0 then 1 else if i = 1 then 7 else 9), f_open_count = 1\<rparr>
     else demo_free_entry i)"

definition demo_table :: "(nat \<Rightarrow> open_file) \<Rightarrow> int \<Rightarrow> files_struct" where
  "demo_table e k = \<lparr>pwd = None, fd_array = map e [0..<72], files_count = k\<rparr>"

definition demo_node :: "nat \<Rightarrow> inode" where
  "demo_node n = \<lparr>in_ops = (if n = 1 then Dev_Ops Stdin else if n = 2 then Dev_Ops Stdout else if n = 9 then Sfs_Dirops else Sfs_Fileops),
     ref_count = (if n = 1 then 2 else if n = 2 \<or> n = 7 \<or> n = 9 then 1 else 0), open_count = (if n = 1 \<or> n = 7 \<or> n = 9 then 1 else 0),
     in_info = demo_file, din_mem = 330000\<rparr>"

definition demo_kfs :: kfs where
  "demo_kfs = \<lparr>fs = demo_fs\<lparr>machine := poke (poke (poke (machine demo_fs) 700000 (''stdin'' @ [NUL])) 700100 (''stdout'' @ [NUL])) 700200 (''stdout:'' @ [NUL])\<rparr>,
     inodes = demo_node, inode_list = [7], sfs_hash = (\<lambda>b. if b = sin_hashfn 3 then [7] else []), bootfs_node = None,
     vdev_list = [\<lparr>devname = 700100, devnode = Some 2, vd_fs = False, mountable = False\<rparr>,
       \<lparr>devname = 700000, devnode = Some 1, vd_fs = False, mountable = False\<rparr>],
     stdin_dev = demo_stdin, console = [], filesps = (\<lambda>p. if p = 10 then demo_table demo_entry 1 else demo_table demo_free_entry 0), cur_filesp = 10\<rparr>"

lemma demo_table_nth [simp]:
  assumes "i < 72"
  shows "fd_array (demo_table e k) ! i = e i"
proof -
  have "map e [0..<72] ! i = e (0 + i)" by (rule nth_map_upt) (use assms in simp)
  then show ?thesis by (simp only: demo_table_def files_struct.select_convs add_0)
qed

lemma demo_table_simps [simp]: "length (fd_array (demo_table e k)) = 72" "pwd (demo_table e k) = None" "files_count (demo_table e k) = k"
  unfolding demo_table_def files_struct.select_convs length_map length_upt by simp_all

lemma demo_kfs_simps [simp]:
  "filesps demo_kfs 10 = demo_table demo_entry 1" "p \<noteq> 10 \<Longrightarrow> filesps demo_kfs p = demo_table demo_free_entry 0" "cur_filesp demo_kfs = 10"
  "inodes demo_kfs = demo_node" "bootfs_node demo_kfs = None"
  by (simp_all add: demo_kfs_def)

lemma demo_file_at [simp]: "i < 72 \<Longrightarrow> file_at demo_kfs 10 i = demo_entry i"
  by (simp add: file_at_def)

lemma demo_counted: "counted demo_kfs {10}"
proof -
  have h: "has_open n (demo_entry i) = (i = 0 \<and> n = 1 \<or> i = 1 \<and> n = 7 \<or> i = 2 \<and> n = 9)" for n i
  proof -
    have "i = 0 \<or> i = 1 \<or> i = 2 \<or> \<not> i < 3" by linarith
    then show ?thesis by (elim disjE) (auto simp: has_open_def demo_entry_def demo_free_entry_def)
  qed
  have "{i. i < 72 \<and> has_open n (fd_array (demo_table demo_entry 1) ! i)}
      = (if n = 1 then {0} else if n = 7 then {1} else if n = 9 then {2} else {})" for n
  proof (rule set_eqI)
    fix i
    show "(i \<in> {i. i < 72 \<and> has_open n (fd_array (demo_table demo_entry 1) ! i)})
        = (i \<in> (if n = 1 then {0} else if n = 7 then {1} else if n = 9 then {2} else {}))"
      by (cases "i < 72") (simp_all add: h)
  qed
  then have u: "uses (demo_table demo_entry 1) n = (if n = 1 \<or> n = 7 \<or> n = 9 then 1 else 0)" for n
    by (simp add: uses_def)
  have "table_ok (demo_table demo_entry 1)" by (simp add: table_ok_def entry_ok_def demo_entry_def demo_free_entry_def)
  moreover have "sys_refs demo_kfs n = (if n = 1 \<or> n = 2 then 1 else 0)" for n by (simp add: sys_refs_def demo_kfs_def)
  ultimately show ?thesis by (simp add: counted_def u demo_node_def pwd_ref_def)
qed

lemma demo_fresh: "fresh_table (filesps demo_kfs 20)"
  by (simp add: fresh_table_def table_ok_def entry_ok_def demo_free_entry_def)

lemma demo_table_ok: "table_ok (filesps demo_kfs 10)" "0 < files_count (filesps demo_kfs 10)"
  using demo_counted by (simp_all add: counted_def)

subsection \<open>Copying a table\<close>

lemma dup_entry_run:
  assumes "f_status (file_at st from' j) = FD_OPENED" and "f_node (file_at st from' j) = Some n"
    and "f_status (file_at st to i) = FD_INIT" and "to \<noteq> from' \<or> i \<noteq> j" and "i < length (fd_array (filesps st to))"
  shows "fd_array_dup st to i from' j = Some (upd_file to i (\<lambda>g. (file_at st from' j)\<lparr>f_status := FD_OPENED, f_fd := f_fd g,
      f_open_count := f_open_count g + 1\<rparr>) (st\<lparr>inodes := (inodes st)(n := bump 1 (inodes st n))\<rparr>))"
  using assms
  by (cases "file_at st from' j"; cases "file_at st to i")
    (simp add: fd_array_dup_def fd_array_open_def inode_ref_inc_def inode_open_inc_def Let_def bump_def upd_file_def upd_files_def
      file_at_def set_node_def)

text \<open>What copying the entries \<open>is\<close> of a table does.\<close>

definition dup_done :: "kfs \<Rightarrow> nat \<Rightarrow> nat \<Rightarrow> nat list \<Rightarrow> kfs \<Rightarrow> bool" where
  "dup_done st to from' is st' = (\<exists>t. st' = st\<lparr>inodes := \<lambda>n. bump (int (card {i \<in> set is. has_open n (file_at st from' i)})) (inodes st n),
       filesps := (filesps st)(to := (filesps st to)\<lparr>fd_array := t\<rparr>)\<rparr>
     \<and> length t = 72
     \<and> (\<forall>i. t ! i = (if i \<in> set is \<and> f_status (file_at st from' i) = FD_OPENED then file_at st from' i else file_at st to i)))"

lemma dup_step:
  assumes "to \<noteq> from'" and "table_ok (filesps st from')" and "table_ok (filesps st to)"
    and "f_status (file_at st to i) = FD_NONE" and "f_status (file_at st from' i) = FD_OPENED" and "i < 72"
  shows "\<exists>n. f_node (file_at st from' i) = Some n
    \<and> fd_array_dup (upd_file to i (\<lambda>f. f\<lparr>f_status := FD_INIT\<rparr>) st) to i from' i
      = Some (st\<lparr>inodes := (inodes st)(n := bump 1 (inodes st n)),
          filesps := (filesps st)(to := (filesps st to)\<lparr>fd_array := (fd_array (filesps st to))[i := file_at st from' i]\<rparr>)\<rparr>)"
proof -
  let ?st = "upd_file to i (\<lambda>f. f\<lparr>f_status := FD_INIT\<rparr>) st" and ?f = "file_at st from' i" and ?g = "file_at st to i"
  have len: "i < length (fd_array (filesps st to))" "i < length (fd_array (filesps ?st to))"
    using assms(3,6) by (simp_all add: table_ok_def)
  have f: "f_fd ?f = int i" "f_open_count ?f = 1" "f_node ?f \<noteq> None"
    using assms(2,5,6) by (auto simp: table_ok_def entry_ok_def file_at_def)
  have g: "f_fd ?g = int i" "f_open_count ?g = 0" using assms(3,4,6) by (auto simp: table_ok_def entry_ok_def file_at_def)
  obtain n where n: "f_node ?f = Some n" using f(3) by auto
  have at: "file_at ?st from' i = ?f" "file_at ?st to i = ?g\<lparr>f_status := FD_INIT\<rparr>" using len(1) assms(1) by (simp_all add: file_at_upd)
  have "?f\<lparr>f_status := FD_OPENED, f_fd := int i, f_open_count := 1\<rparr> = ?f" using f assms(5) by (cases ?f) simp
  then have "fd_array_dup ?st to i from' i = Some (upd_file to i (\<lambda>g. ?f) (?st\<lparr>inodes := (inodes ?st)(n := bump 1 (inodes ?st n))\<rparr>))"
    using dup_entry_run [of ?st from' i n to i] at assms(1,5) n len(2) g by (simp add: upd_file_def upd_files_def file_at_def)
  then show ?thesis using n by (simp add: upd_file_def upd_files_def)
qed

lemma dup_done_Nil: "table_ok (filesps st to) \<Longrightarrow> dup_done st to from' [] st"
  unfolding dup_done_def by (intro exI [of _ "fd_array (filesps st to)"]) (simp add: table_ok_def file_at_def)

lemma dup_entries_run:
  assumes "to \<noteq> from'" and "table_ok (filesps st from')" and "table_ok (filesps st to)"
    and "\<forall>i \<in> set is. f_status (file_at st to i) = FD_NONE" and "distinct is" and "set is \<subseteq> {..<72}"
  shows "\<exists>st'. dup_entries st to from' is = Some st' \<and> dup_done st to from' is st'"
  using assms(2-)
proof (induction "is" arbitrary: st)
  case Nil
  then show ?case by (simp add: dup_done_Nil)
next
  case (Cons i "is")
  have i: "i < 72" "i \<notin> set is" "f_status (file_at st to i) = FD_NONE" using Cons.prems by auto
  show ?case
  proof (cases "f_status (file_at st from' i) = FD_OPENED")
    case False
    then have nd: "has_open n (file_at st from' i) = False" for n by (simp add: has_open_def)
    obtain st' where st': "dup_entries st to from' is = Some st'" "dup_done st to from' is st'"
      using Cons.IH [of st] Cons.prems by auto
    have "{j \<in> set (i # is). has_open n (file_at st from' j)} = {j \<in> set is. has_open n (file_at st from' j)}" for n
      using nd by auto
    then have "dup_done st to from' (i # is) st'" using st'(2) False i(2) unfolding dup_done_def by auto
    then show ?thesis using st'(1) False by simp
  next
    case True
    obtain n where n: "f_node (file_at st from' i) = Some n"
      "fd_array_dup (upd_file to i (\<lambda>f. f\<lparr>f_status := FD_INIT\<rparr>) st) to i from' i
      = Some (st\<lparr>inodes := (inodes st)(n := bump 1 (inodes st n)),
          filesps := (filesps st)(to := (filesps st to)\<lparr>fd_array := (fd_array (filesps st to))[i := file_at st from' i]\<rparr>)\<rparr>)"
      (is "_ = Some ?st1")
      using dup_step [OF assms(1) Cons.prems(1,2) i(3) True i(1)] by blast
    have len: "length (fd_array (filesps st to)) = 72" using Cons.prems(2) by (simp add: table_ok_def)
    have ok1: "table_ok (filesps ?st1 from')" "table_ok (filesps ?st1 to)"
      using Cons.prems(1,2) assms(1) i(1) by (auto simp: table_ok_def nth_list_update file_at_def)
    have at: "file_at ?st1 from' j = file_at st from' j" "file_at ?st1 to j = (if j = i then file_at st from' i else file_at st to j)" for j
      using assms(1) i(1) len by (auto simp: file_at_def nth_list_update)
    have none: "\<forall>j \<in> set is. f_status (file_at ?st1 to j) = FD_NONE" using Cons.prems(3) i(2) by (simp add: at(2))
    obtain st' where st': "dup_entries ?st1 to from' is = Some st'" "dup_done ?st1 to from' is st'"
      using Cons.IH [OF ok1 none] Cons.prems(4,5) by auto
    obtain t where t: "st' = ?st1\<lparr>inodes := \<lambda>k. bump (int (card {j \<in> set is. has_open k (file_at st from' j)})) (inodes ?st1 k),
         filesps := (filesps ?st1)(to := (filesps ?st1 to)\<lparr>fd_array := t\<rparr>)\<rparr>" "length t = 72"
       "\<forall>j. t ! j = (if j \<in> set is \<and> f_status (file_at st from' j) = FD_OPENED then file_at st from' j else file_at ?st1 to j)"
      using st'(2) unfolding dup_done_def at(1) by blast
    have c: "card {j \<in> set (i # is). has_open k (file_at st from' j)}
        = card {j \<in> set is. has_open k (file_at st from' j)} + (if k = n then 1 else 0)" for k
    proof -
      have "{j \<in> set (i # is). has_open k (file_at st from' j)}
          = (if k = n then {i} else {}) \<union> {j \<in> set is. has_open k (file_at st from' j)}"
        using True n(1) by (auto simp: has_open_def)
      then show ?thesis using i(2) by (simp add: card_insert_if)
    qed
    have "dup_done st to from' (i # is) st'"
      unfolding dup_done_def
    proof (intro exI [of _ t] conjI allI)
      show "st' = st\<lparr>inodes := \<lambda>k. bump (int (card {j \<in> set (i # is). has_open k (file_at st from' j)})) (inodes st k),
         filesps := (filesps st)(to := (filesps st to)\<lparr>fd_array := t\<rparr>)\<rparr>"
        unfolding c t(1) by (simp add: fun_eq_iff)
      show "t ! j = (if j \<in> set (i # is) \<and> f_status (file_at st from' j) = FD_OPENED then file_at st from' j else file_at st to j)" for j
        using t(3) at(2) [of j] True i(2) by auto
    qed (rule t(2))
    then show ?thesis using st'(1) n(2) True by simp
  qed
qed

lemma files_create_fresh: "\<exists>st'. files_create st (Some p) = (st', Some p) \<and> fresh_table (filesps st' p)"
  by (simp add: files_create_def fresh_table_def upd_files_def table_ok_def entry_ok_def fd_array_init_def)

lemma filesps_upd: "filesps (upd_files p f st) = (filesps st)(p := f (filesps st p))"
  by (simp add: upd_files_def)

lemma dup_files_run:
  assumes "to \<noteq> from'" and "table_ok (filesps st from')" and "fresh_table (filesps st to)" and "0 < files_count (filesps st from')"
  shows "\<exists>t. dup_files st to from' = Some (st\<lparr>inodes := \<lambda>n. (inodes st n)\<lparr>
        ref_count := ref_count (inodes st n) + int (uses (filesps st from') n + pwd_ref (filesps st from') n),
        open_count := open_count (inodes st n) + int (uses (filesps st from') n)\<rparr>,
      filesps := (filesps st)(to := (filesps st to)\<lparr>pwd := pwd (filesps st from'), fd_array := t\<rparr>)\<rparr>, 0)
    \<and> length t = 72 \<and> (\<forall>i < 72. t ! i = (if f_status (file_at st from' i) = FD_OPENED then file_at st from' i else file_at st to i))"
proof -
  let ?from = "filesps st from'"
  let ?st1 = "st\<lparr>inodes := \<lambda>n. (inodes st n)\<lparr>ref_count := ref_count (inodes st n) + int (pwd_ref ?from n)\<rparr>,
      filesps := (filesps st)(to := (filesps st to)\<lparr>pwd := pwd ?from\<rparr>)\<rparr>"
  have to: "table_ok (filesps st to)" "files_count (filesps st to) = 0" "\<forall>i < 72. f_status (file_at st to i) = FD_NONE"
    using assms(3) by (simp_all add: fresh_table_def file_at_def)
  have st1: "(case pwd ?from of None \<Rightarrow> upd_files to (\<lambda>t. t\<lparr>pwd := pwd ?from\<rparr>) st
      | Some n \<Rightarrow> fst (inode_ref_inc (upd_files to (\<lambda>t. t\<lparr>pwd := pwd ?from\<rparr>) st) n)) = ?st1"
  proof (cases "pwd ?from")
    case None
    then show ?thesis by (simp add: upd_files_def pwd_ref_def)
  next
    case (Some n)
    then have "(inodes st)(n := (inodes st n)\<lparr>ref_count := ref_count (inodes st n) + 1\<rparr>)
        = (\<lambda>k. (inodes st k)\<lparr>ref_count := ref_count (inodes st k) + int (pwd_ref ?from k)\<rparr>)"
      by (auto simp: fun_eq_iff pwd_ref_def)
    then show ?thesis using Some by (simp add: upd_files_def inode_ref_inc_def set_node_def)
  qed
  have at: "file_at ?st1 q j = file_at st q j" for q j by (simp add: file_at_def)
  have "\<exists>st'. dup_entries ?st1 to from' [0..<72] = Some st' \<and> dup_done ?st1 to from' [0..<72] st'"
    by (rule dup_entries_run [OF assms(1)]) (use assms(1,2) to in \<open>auto simp: table_ok_def at\<close>)
  then obtain st' t where d: "dup_entries ?st1 to from' [0..<72] = Some st'" "length t = 72"
    "st' = ?st1\<lparr>inodes := \<lambda>n. bump (int (card {i \<in> set [0..<72]. has_open n (file_at st from' i)})) (inodes ?st1 n),
       filesps := (filesps ?st1)(to := (filesps ?st1 to)\<lparr>fd_array := t\<rparr>)\<rparr>"
    "\<forall>i. t ! i = (if i \<in> set [0..<72] \<and> f_status (file_at st from' i) = FD_OPENED then file_at st from' i else file_at st to i)"
    unfolding dup_done_def at by blast
  have u: "card {i \<in> set [0..<72]. has_open n (file_at st from' i)} = uses ?from n" for n
    by (simp add: uses_def file_at_def)
  have "dup_files st to from' = Some (st', 0)"
    using d(1) to(2) assms(4) st1 by (simp add: dup_files_def filesps_upd Let_def)
  then show ?thesis using d(2,4) unfolding d(3) u by (intro exI [of _ t]) (simp add: bump_def ac_simps)
qed

text \<open>
  C34. Fork: copying a table of open files into a fresh one (\<open>dup_files\<close>) keeps the counts of all inodes exact, and the child
  has the same open descriptors, with the same positions and modes, and the same current directory.
\<close>

theorem fork_keeps_counts:
  assumes "counted st P" and "from' \<in> P" and "to \<notin> P" and "fresh_table (filesps st to)" and "0 < files_count (filesps st from')"
  shows "\<exists>st'. dup_files st to from' = Some (st', 0) \<and> counted st' (insert to P)
    \<and> pwd (filesps st' to) = pwd (filesps st from') \<and> (\<forall>p. p \<noteq> to \<longrightarrow> filesps st' p = filesps st p)
    \<and> (\<forall>i < 72. if f_status (file_at st from' i) = FD_OPENED then file_at st' to i = file_at st from' i
        else f_status (file_at st' to i) = FD_NONE)"
proof -
  let ?from = "filesps st from'"
  have c: "finite P" "\<forall>p \<in> P. table_ok (filesps st p)"
    "open_count (inodes st n) = int (\<Sum>p\<in>P. uses (filesps st p) n)"
    "ref_count (inodes st n) = int ((\<Sum>p\<in>P. uses (filesps st p) n + pwd_ref (filesps st p) n) + sys_refs st n)" for n
    using assms(1) by (auto simp: counted_def)
  have from_ok: "table_ok ?from" and ne: "to \<noteq> from'" using c(2) assms(2,3) by auto
  obtain t where t: "dup_files st to from' = Some (st\<lparr>inodes := \<lambda>n. (inodes st n)\<lparr>
        ref_count := ref_count (inodes st n) + int (uses ?from n + pwd_ref ?from n), open_count := open_count (inodes st n) + int (uses ?from n)\<rparr>,
      filesps := (filesps st)(to := (filesps st to)\<lparr>pwd := pwd ?from, fd_array := t\<rparr>)\<rparr>, 0)" (is "_ = Some (?st', 0)")
    "length t = 72" "\<forall>i < 72. t ! i = (if f_status (file_at st from' i) = FD_OPENED then file_at st from' i else file_at st to i)"
    using dup_files_run [OF ne from_ok assms(4,5)] by blast
  have none: "f_status (file_at st to i) = FD_NONE" if "i < 72" for i using assms(4) that by (simp add: fresh_table_def file_at_def)
  have ok: "table_ok (filesps ?st' to)"
    using t(2,3) from_ok assms(4) by (auto simp: table_ok_def fresh_table_def file_at_def)
  have "{i. i < 72 \<and> has_open n (t ! i)} = {i. i < 72 \<and> has_open n (file_at st from' i)}" for n
    using t(3) none by (auto simp: has_open_def split: if_splits)
  then have u: "uses (filesps ?st' to) n = uses ?from n" "pwd_ref (filesps ?st' to) n = pwd_ref ?from n" for n
    by (simp_all add: uses_def file_at_def pwd_ref_def)
  have other: "filesps ?st' p = filesps st p" if "p \<in> P" for p using that assms(3) by auto
  have sums: "(\<Sum>p\<in>insert to P. uses (filesps ?st' p) n) = uses ?from n + (\<Sum>p\<in>P. uses (filesps st p) n)"
    "(\<Sum>p\<in>insert to P. uses (filesps ?st' p) n + pwd_ref (filesps ?st' p) n)
      = uses ?from n + pwd_ref ?from n + (\<Sum>p\<in>P. uses (filesps st p) n + pwd_ref (filesps st p) n)" for n
    unfolding sum.insert [OF c(1) assms(3)] u by (simp_all only: other cong: sum.cong)
  have "counted ?st' (insert to P)"
    unfolding counted_def sums
  proof (intro conjI allI ballI)
    show "finite (insert to P)" using c(1) by simp
    show "table_ok (filesps ?st' p)" if "p \<in> insert to P" for p
      using that ok other c(2) by (cases "p = to") auto
    show "open_count (inodes ?st' n) = int (uses ?from n + (\<Sum>p\<in>P. uses (filesps st p) n))" for n using c(3) by simp
    have "sys_refs ?st' n = sys_refs st n" for n by (simp add: sys_refs_def)
    then show "ref_count (inodes ?st' n) = int (uses ?from n + pwd_ref ?from n
        + (\<Sum>p\<in>P. uses (filesps st p) n + pwd_ref (filesps st p) n) + sys_refs ?st' n)" for n using c(4) by simp
  qed
  moreover have "\<forall>i < 72. if f_status (file_at st from' i) = FD_OPENED then file_at ?st' to i = file_at st from' i
        else f_status (file_at ?st' to i) = FD_NONE" using t(3) none by (simp add: file_at_def)
  ultimately show ?thesis using t(1) by (intro exI [of _ ?st']) simp
qed

theorem fork_keeps_counts_witness:
  "\<exists>st'. dup_files demo_kfs 20 10 = Some (st', 0) \<and> counted st' {20, 10} \<and> f_pos (file_at st' 20 1) = 20"
proof -
  have h: "(10 :: nat) \<in> {10}" "(20 :: nat) \<notin> {10}" "(1 :: nat) < 72" by simp_all
  obtain st' where "dup_files demo_kfs 20 10 = Some (st', 0)" "counted st' {20, 10}"
    "\<forall>i < 72. if f_status (file_at demo_kfs 10 i) = FD_OPENED then file_at st' 20 i = file_at demo_kfs 10 i else f_status (file_at st' 20 i) = FD_NONE"
    using fork_keeps_counts [OF demo_counted h(1,2) demo_fresh demo_table_ok(2)] by blast
  moreover from this(3) h(3) have "file_at st' 20 1 = demo_entry 1" by (fastforce simp: demo_entry_def)
  ultimately show ?thesis by (auto simp: demo_entry_def)
qed

subsection \<open>Paths that name a device\<close>

lemma cstr_append: "cstr m a (xs @ ys) = (block m a (length xs) = xs \<and> NUL \<notin> set xs \<and> cstr m (a + length xs) ys)"
  by (induction xs arbitrary: a) (auto simp: block_Suc)

lemma scan_path_colon:
  assumes "block m (path + i) (length xs) = xs" and "NUL \<notin> set xs" and "CHR '':'' \<notin> set xs" and "CHR ''/'' \<notin> set xs"
    and "m (path + i + length xs) = CHR '':''"
  shows "scan_path m path i = Some (int (i + length xs), - 1)"
  using assms
proof (induction xs arbitrary: i)
  case Nil
  then show ?case by (subst scan_path.simps) simp
next
  case (Cons x xs)
  have "m (path + i) = x" "block m (path + (i + 1)) (length xs) = xs" using Cons.prems(1) by (simp_all add: block_Suc)
  then show ?case using Cons.IH [of "i + 1"] Cons.prems by (subst scan_path.simps) (auto simp: add.assoc)
qed

lemma find_dev_run:
  assumes "cstr m a name" and "\<forall>u \<in> set pre. \<exists>w. cstr m (devname u) w \<and> w \<noteq> name" and "cstr m (devname v) name"
  shows "find_dev m a (\<lambda>v. True) i (pre @ v # post) = Some (Some (i + length pre, v))"
  using assms(2)
proof (induction pre arbitrary: i)
  case Nil
  then show ?case using strcmp_cstr [OF assms(1,3)] by auto
next
  case (Cons u pre)
  obtain w where w: "cstr m (devname u) w" "w \<noteq> name" using Cons.prems by auto
  then show ?case using strcmp_cstr [OF assms(1) w(1)] Cons by auto
qed

text \<open>The string at \<open>path\<close> is \<open>name\<close> and a colon, and \<open>name\<close> the name of the device without a file system whose inode is \<open>n\<close>; no name lies across the colon.\<close>

definition named :: "kfs \<Rightarrow> nat \<Rightarrow> vfs_dev \<Rightarrow> char list \<Rightarrow> bool" where
  "named st colon v w = (cstr (mem_of st) (devname v) w \<and> (colon < devname v \<or> devname v + length w < colon))"

definition names_device :: "kfs \<Rightarrow> nat \<Rightarrow> char list \<Rightarrow> nat \<Rightarrow> bool" where
  "names_device st path name n = (name \<noteq> [] \<and> CHR '':'' \<notin> set name \<and> CHR ''/'' \<notin> set name \<and> cstr (mem_of st) path (name @ '':'')
     \<and> (\<exists>pre v post. vdev_list st = pre @ v # post \<and> \<not> vd_fs v \<and> \<not> mountable v \<and> devnode v = Some n
          \<and> named st (path + length name) v name \<and> (\<forall>u \<in> set pre. \<exists>w. named st (path + length name) u w \<and> w \<noteq> name)))"

definition cut_path :: "nat \<Rightarrow> kfs \<Rightarrow> kfs" where
  "cut_path colon st = set_mem ((mem_of st)(colon := NUL)) st"

lemma cut_path_simps [simp]:
  "inodes (cut_path a st) = inodes st" "filesps (cut_path a st) = filesps st" "vdev_list (cut_path a st) = vdev_list st"
  "bootfs_node (cut_path a st) = bootfs_node st" "cur_filesp (cut_path a st) = cur_filesp st" "file_at (cut_path a st) p i = file_at st p i"
  "mem_of (cut_path a st) = (mem_of st)(a := NUL)" "console (cut_path a st) = console st" "stdin_dev (cut_path a st) = stdin_dev st"
  by (simp_all add: cut_path_def set_mem_def file_at_def)

lemma lookup_device:
  assumes "names_device st path name n"
  shows "vfs_lookup st path al al'
    = Some (set_node n (\<lambda>i. i\<lparr>ref_count := ref_count i + 1\<rparr>) (cut_path (path + length name) st), 0, Some n)"
proof -
  let ?m = "mem_of st" and ?c = "path + length name" and ?st = "cut_path (path + length name) st"
  have p: "name \<noteq> []" "CHR '':'' \<notin> set name" "CHR ''/'' \<notin> set name" "block ?m path (length name) = name" "NUL \<notin> set name"
    "?m ?c = CHR '':''" "?m (?c + 1) = NUL"
    using assms by (auto simp: names_device_def cstr_append)
  obtain pre v post where v: "vdev_list st = pre @ v # post" "\<not> vd_fs v" "\<not> mountable v" "devnode v = Some n"
    "named st ?c v name" "\<forall>u \<in> set pre. \<exists>w. named st ?c u w \<and> w \<noteq> name"
    using assms unfolding names_device_def by blast
  have keep: "cstr (mem_of ?st) (devname u) w" if "named st ?c u w" for u w
  proof -
    have "cstr (mem_of ?st) (devname u) w = cstr ?m (devname u) w" by (rule cstr_frame) (use that in \<open>auto simp: named_def\<close>)
    then show ?thesis using that by (simp add: named_def)
  qed
  have "cstr (mem_of ?st) path (name @ [])"
    unfolding cstr_append using p(4,5) block_cong [of path "length name" "?m" "mem_of ?st"] by auto
  then have self: "cstr (mem_of ?st) path name" by simp
  have others: "\<forall>u \<in> set pre. \<exists>w. cstr (mem_of ?st) (devname u) w \<and> w \<noteq> name" using keep v(6) by blast
  have "find_dev (mem_of ?st) path (\<lambda>v. True) 0 (vdev_list ?st) = Some (Some (0 + length pre, v))"
    using find_dev_run [OF self others keep [OF v(5)], of 0 post] v(1) by simp
  then have root: "vfs_get_root ?st path al = Some (set_node n (\<lambda>i. i\<lparr>ref_count := ref_count i + 1\<rparr>) ?st, 0, Some n)"
    using v(2-4) by (simp add: vfs_get_root_def inode_ref_inc_def)
  have scan: "scan_path ?m path 0 = Some (int (length name), - 1)" using scan_path_colon [of ?m path 0 name] p by simp
  have skip: "skip_slashes (mem_of ?st) (?c + 1) = Some (?c + 1)" using p(7) by (subst skip_slashes.simps) simp
  have "get_device st path al = Some (set_node n (\<lambda>i. i\<lparr>ref_count := ref_count i + 1\<rparr>) ?st, 0, ?c + 1, Some n)"
    using scan skip root p(1) by (simp add: get_device_def cut_path_def)
  then show ?thesis using p(7) by (simp add: vfs_lookup_def)
qed

lemma find_least: "i < k \<Longrightarrow> P i \<Longrightarrow> \<forall>j < i. \<not> P j \<Longrightarrow> find P [0..<k] = Some i"
  unfolding find_Some_iff by (intro exI [of _ i]) simp

lemma alloc_entry:
  assumes "table_ok (filesps st p)" and "p = cur_filesp st" and "0 < files_count (filesps st p)" and "i < 72"
    and "f_status (file_at st p i) = FD_NONE" and "\<forall>j < i. f_status (file_at st p j) \<noteq> FD_NONE"
  shows "fd_array_alloc st NO_FD = Some (upd_file p i (\<lambda>f. f\<lparr>f_status := FD_INIT, f_node := None\<rparr>) st, 0, Some i)"
proof -
  have "find (\<lambda>i. f_status (file_at st p i) = FD_NONE) [0..<72] = Some i"
    using find_least [OF assms(4), of "\<lambda>i. f_status (file_at st p i) = FD_NONE"] assms(5,6) by blast
  moreover have "f_open_count (file_at st p i) = 0"
    using assms(1,4,5) by (auto simp: table_ok_def entry_ok_def file_at_def)
  ultimately show ?thesis using assms(2,3) by (simp add: fd_array_alloc_def get_fd_array_def Let_def del: upt_rec_numeral)
qed

text \<open>The counts of an inode leave room for one more reference.\<close>

definition node_ok :: "inode \<Rightarrow> bool" where
  "node_ok i = (0 \<le> open_count i \<and> open_count i \<le> ref_count i \<and> ref_count i + 1 < 0x10000)"

lemma vfs_open_device:
  assumes "names_device st path name n" and "in_ops (inodes st n) = Dev_Ops d" and "d = Stdin \<and> flags = O_RDONLY \<or> d = Stdout \<and> flags = O_WRONLY"
    and "node_ok (inodes st n)"
  shows "vfs_open st path flags al al' al'' = Some ((cut_path (path + length name) st)\<lparr>inodes := (inodes st)(n := bump 1 (inodes st n))\<rparr>, 0, Some n)"
proof -
  let ?st = "set_node n (\<lambda>i. i\<lparr>ref_count := ref_count i + 1\<rparr>) (cut_path (path + length name) st)"
  have "vop_open ?st n flags = Some 0"
    using assms(2-4) by (auto simp: vop_open_def inode_check_def node_ok_def dev_open_def stdin_open_def stdout_open_def)
  then show ?thesis using lookup_device [OF assms(1), of al al'] assms(3)
    by (auto simp: vfs_open_def inode_open_inc_def Let_def bump_def set_node_def)
qed

text \<open>
  Opening a device: \<open>file_open\<close> on the path of the keyboard (to read) or of the console (to write) takes the lowest
  free descriptor, which then is open on the inode of the device at position 0 in the right mode; the inode has one reference
  and one open more, no other descriptor changes, and the table stays well-formed.
\<close>

theorem open_device:
  assumes "names_device st path name n" and "in_ops (inodes st n) = Dev_Ops d" and "d = Stdin \<and> flags = O_RDONLY \<or> d = Stdout \<and> flags = O_WRONLY"
    and "node_ok (inodes st n)" and "table_ok (filesps st p)" and "p = cur_filesp st" and "0 < files_count (filesps st p)" and "i < 72"
    and "f_status (file_at st p i) = FD_NONE" and "\<forall>j < i. f_status (file_at st p j) \<noteq> FD_NONE"
  shows "\<exists>st'. file_open st path flags al al' al'' = Some (st', int i)
    \<and> file_at st' p i = \<lparr>f_status = FD_OPENED, f_readable = (d = Stdin), f_writable = (d = Stdout), f_fd = int i, f_pos = 0,
        f_node = Some n, f_open_count = 1\<rparr>
    \<and> (\<forall>j. j \<noteq> i \<longrightarrow> file_at st' p j = file_at st p j) \<and> table_ok (filesps st' p) \<and> inodes st' = (inodes st)(n := bump 1 (inodes st n))"
proof -
  let ?st = "upd_file p i (\<lambda>f. f\<lparr>f_status := FD_INIT, f_node := None\<rparr>) st"
    and ?f = "\<lparr>f_status = FD_OPENED, f_readable = (d = Stdin), f_writable = (d = Stdout), f_fd = int i, f_pos = 0,
        f_node = Some n, f_open_count = 1\<rparr>"
  have len: "i < length (fd_array (filesps st p))" using assms(5,8) by (simp add: table_ok_def)
  have e: "f_fd (file_at st p i) = int i" "f_open_count (file_at st p i) = 0"
    using assms(5,8,9) by (auto simp: table_ok_def entry_ok_def file_at_def)
  have "names_device ?st path name n" using assms(1) by (simp add: names_device_def named_def)
  then have open_: "vfs_open ?st path flags al al' al''
      = Some ((cut_path (path + length name) ?st)\<lparr>inodes := (inodes st)(n := bump 1 (inodes st n))\<rparr>, 0, Some n)"
    using vfs_open_device [of ?st path name n d flags] assms(2-4) by simp
  let ?st' = "upd_file p i (\<lambda>f. ?f) ((cut_path (path + length name) ?st)\<lparr>inodes := (inodes st)(n := bump 1 (inodes st n))\<rparr>)"
  have "file_open st path flags al al' al'' = Some (?st', int i)"
    using alloc_entry [OF assms(5-10)] open_ assms(3) e len
    by (cases "file_at st p i")
      (auto simp: file_open_def fd_array_open_def upd_file_def upd_files_def file_at_def cut_path_def set_mem_def Let_def assms(6))
  moreover have "file_at ?st' p i = ?f" "\<forall>j. j \<noteq> i \<longrightarrow> file_at ?st' p j = file_at st p j" using len by (auto simp: file_at_def)
  moreover have "table_ok (filesps ?st' p)" using assms(5,8) by (auto simp: table_ok_def nth_list_update entry_ok_def)
  ultimately show ?thesis by (intro exI [of _ ?st']) simp
qed

lemma demo_names_console: "names_device demo_kfs 700200 ''stdout'' 2"
proof -
  have "cstr (mem_of demo_kfs) 700200 (''stdout'' @ '':'')" "cstr (mem_of demo_kfs) 700100 ''stdout''"
    by (simp_all add: demo_kfs_def poke_def)
  then show ?thesis
    unfolding names_device_def named_def by (auto simp: demo_kfs_def intro!: exI [of _ "[]"])
qed

lemma demo_first_free: "f_status (file_at demo_kfs 10 3) = FD_NONE" "\<forall>j < 3. f_status (file_at demo_kfs 10 j) \<noteq> FD_NONE"
  by (simp_all add: demo_entry_def demo_free_entry_def)

theorem open_device_witness:
  "\<exists>st' al. file_open demo_kfs 700200 1 al al al = Some (st', 3) \<and> f_writable (file_at st' 10 3) \<and> ref_count (inodes st' 2) = 2"
proof -
  have h: "in_ops (inodes demo_kfs 2) = Dev_Ops Stdout" "Stdout = Stdin \<and> (1 :: u32) = 0 \<or> Stdout = Stdout \<and> (1 :: u32) = 1"
    "node_ok (inodes demo_kfs 2)" "10 = cur_filesp demo_kfs" "(3 :: nat) < 72"
    by (simp_all add: demo_node_def node_ok_def)
  obtain al :: allocs where "True" by blast
  from open_device [OF demo_names_console h(1-3) demo_table_ok(1) h(4) demo_table_ok(2) h(5) demo_first_free, of al al al] show ?thesis
    by (auto simp: demo_node_def)
qed

text \<open>
  C35. A lost reference: opening the path of a device to create it exclusively (with any flags that are accepted and hold \<open>O_CREAT\<close> and
  \<open>O_EXCL\<close>) fails with \<open>E_EXISTS\<close> and leaves all descriptors as they were, but the reference taken by the lookup is not given back: the inode
  keeps one reference more than its users.
\<close>

theorem exclusive_open_leaks:
  assumes "names_device st path name n" and flags: "flags AND O_ACCMODE \<in> {O_RDONLY, O_WRONLY, O_RDWR}" "flags AND O_CREAT \<noteq> 0"
      "flags AND O_EXCL \<noteq> 0" "flags AND O_TRUNC = 0 \<or> flags AND O_ACCMODE \<noteq> O_RDONLY"
    and "counted st P" and "p \<in> P" and "p = cur_filesp st" and "0 < files_count (filesps st p)" and "i < 72"
    and "f_status (file_at st p i) = FD_NONE" and "\<forall>j < i. f_status (file_at st p j) \<noteq> FD_NONE"
  shows "\<exists>st'. file_open st path flags al al' al'' = Some (st', - E_EXISTS)
    \<and> (\<forall>q \<in> P. uses (filesps st' q) = uses (filesps st q) \<and> pwd (filesps st' q) = pwd (filesps st q))
    \<and> open_count (inodes st' n) = open_count (inodes st n) \<and> ref_count (inodes st' n) = ref_count (inodes st n) + 1
    \<and> \<not> counted st' P"
proof -
  let ?st = "upd_file p i (\<lambda>f. f\<lparr>f_status := FD_INIT, f_node := None\<rparr>) st"
  have tab: "table_ok (filesps st p)" using assms(6,7) by (simp add: counted_def)
  have len: "i < length (fd_array (filesps st p))" using tab assms(10) by (simp add: table_ok_def)
  have e: "f_open_count (file_at st p i) = 0" using tab assms(10,11) by (auto simp: table_ok_def entry_ok_def file_at_def)
  have "names_device ?st path name n" using assms(1) by (simp add: names_device_def named_def)
  from lookup_device [OF this, of al al'] have open_: "vfs_open ?st path flags al al' al''
      = Some (set_node n (\<lambda>i. i\<lparr>ref_count := ref_count i + 1\<rparr>) (cut_path (path + length name) ?st), - E_EXISTS, None)"
    using flags by (auto simp: vfs_open_def Let_def)
  let ?st' = "upd_file p i (\<lambda>f. f\<lparr>f_status := FD_NONE\<rparr>) (set_node n (\<lambda>i. i\<lparr>ref_count := ref_count i + 1\<rparr>) (cut_path (path + length name) ?st))"
  have run: "file_open st path flags al al' al'' = Some (?st', - E_EXISTS)"
    using alloc_entry [OF tab assms(8-12)] open_ flags assms(8) e len
    by (auto simp: file_open_def fd_array_free_def Let_def file_at_def)
  have tabs: "filesps ?st' q = (if q = p then (filesps st p)\<lparr>fd_array := (fd_array (filesps st p))[i := (file_at st p i)\<lparr>f_node := None, f_status := FD_NONE\<rparr>]\<rparr>
      else filesps st q)" for q using len by (simp add: file_at_def)
  have "uses (filesps ?st' p) k = uses (filesps st p) k" for k
  proof -
    have "{j. j < 72 \<and> has_open k (fd_array (filesps ?st' p) ! j)} = {j. j < 72 \<and> has_open k (fd_array (filesps st p) ! j)}"
      using len assms(11) unfolding tabs by (auto simp: nth_list_update has_open_def file_at_def split: if_splits)
    then show ?thesis by (simp add: uses_def)
  qed
  then have u: "uses (filesps ?st' q) k = uses (filesps st q) k" "pwd (filesps ?st' q) = pwd (filesps st q)" for q k
    using tabs by (cases "q = p"; simp)+
  have c: "open_count (inodes ?st' n) = open_count (inodes st n)" "ref_count (inodes ?st' n) = ref_count (inodes st n) + 1" by simp_all
  have "sys_refs ?st' n = sys_refs st n" by (simp add: sys_refs_def)
  then have "ref_count (inodes ?st' n) = ref_count (inodes st n)" if "counted ?st' P"
    using that assms(6) unfolding counted_def by (simp only: u pwd_ref_def)
  with c(2) have "\<not> counted ?st' P" by linarith
  then show ?thesis using run u c by (intro exI [of _ ?st']) (simp add: fun_eq_iff)
qed

theorem exclusive_open_leaks_witness:
  "\<exists>st' al. file_open demo_kfs 700200 14 al al al = Some (st', - E_EXISTS) \<and> ref_count (inodes st' 2) = 2 \<and> \<not> counted st' {10}"
proof -
  have f: "(14 :: u32) AND O_ACCMODE \<in> {O_RDONLY, O_WRONLY, O_RDWR}" "(14 :: u32) AND O_CREAT \<noteq> 0" "(14 :: u32) AND O_EXCL \<noteq> 0"
    "(14 :: u32) AND O_TRUNC = 0 \<or> (14 :: u32) AND O_ACCMODE \<noteq> O_RDONLY" by simp_all
  have h: "(10 :: nat) \<in> {10}" "10 = cur_filesp demo_kfs" "(3 :: nat) < 72"
    by simp_all
  obtain al :: allocs where "True" by blast
  from exclusive_open_leaks [OF demo_names_console f demo_counted h(1,2) demo_table_ok(2) h(3) demo_first_free, of al al al] show ?thesis
    by (auto simp: demo_node_def)
qed

subsection \<open>Closing a descriptor\<close>

lemma fd2file_open:
  assumes "table_ok (filesps st p)" and "p = cur_filesp st" and "0 < files_count (filesps st p)" and "i < 72"
    and "f_status (file_at st p i) = FD_OPENED"
  shows "fd2file st (int i) = Some (0, Some (p, i))"
  using assms by (auto simp: fd2file_def testfd_def get_fd_array_def table_ok_def entry_ok_def file_at_def Let_def)

lemma open_entry:
  assumes "table_ok (filesps st p)" and "i < 72" and "f_status (file_at st p i) = FD_OPENED"
  shows "f_fd (file_at st p i) = int i" "f_open_count (file_at st p i) = 1" "f_node (file_at st p i) \<noteq> None"
    "i < length (fd_array (filesps st p))"
  using assms by (auto simp: table_ok_def entry_ok_def file_at_def)

lemma vfs_close_run:
  assumes "1 < ref_count (inodes st n)" and "ref_count (inodes st n) < 0x10000" and "0 < open_count (inodes st n)"
    and "1 < open_count (inodes st n) \<or> in_ops (inodes st n) = Dev_Ops d"
  shows "vfs_close st n = Some (st\<lparr>inodes := (inodes st)(n := bump (- 1) (inodes st n))\<rparr>, 0)"
  using assms
  by (cases "inodes st n") (auto simp: vfs_close_def inode_open_dec_def inode_ref_dec_def vop_close_def inode_check_def Let_def bump_def set_node_def)

lemma file_close_run:
  assumes "table_ok (filesps st p)" and "p = cur_filesp st" and "0 < files_count (filesps st p)" and "i < 72"
    and "f_status (file_at st p i) = FD_OPENED" and "f_node (file_at st p i) = Some n"
    and "1 < ref_count (inodes st n)" and "ref_count (inodes st n) < 0x10000" and "0 < open_count (inodes st n)"
    and "1 < open_count (inodes st n) \<or> in_ops (inodes st n) = Dev_Ops d"
  shows "file_close st (int i) = Some (upd_file p i (\<lambda>f. f\<lparr>f_status := FD_NONE, f_open_count := 0\<rparr>)
    (st\<lparr>inodes := (inodes st)(n := bump (- 1) (inodes st n))\<rparr>), 0)"
proof -
  note e = open_entry [OF assms(1,4,5)]
  let ?st = "upd_file p i (\<lambda>f. f\<lparr>f_status := FD_CLOSED, f_open_count := f_open_count f - 1\<rparr>) st"
  have c: "vfs_close ?st n = Some (?st\<lparr>inodes := (inodes st)(n := bump (- 1) (inodes st n))\<rparr>, 0)"
    using vfs_close_run [of ?st n d] assms(7-10) by simp
  have "fd_array_close st p i = Some (upd_file p i (\<lambda>f. f\<lparr>f_status := FD_NONE, f_open_count := 0\<rparr>)
    (st\<lparr>inodes := (inodes st)(n := bump (- 1) (inodes st n))\<rparr>))"
    using assms(5,6) e(2,4) c by (simp add: fd_array_close_def fd_array_free_def Let_def file_at_upd upd_file_twice)
      (rule upd_file_cong, cases "file_at st p i", simp)
  then show ?thesis using fd2file_open [OF assms(1-5)] by (simp add: file_close_def)
qed

lemma uses_close:
  assumes "i < 72" and "length t = 72" and "has_open n (t ! i)" and "\<not> has_open k f'" and "\<And>k. has_open k (t ! i) \<Longrightarrow> k = n"
  shows "card {j. j < 72 \<and> has_open k (t ! j)} = card {j. j < 72 \<and> has_open k (t[i := f'] ! j)} + (if k = n then 1 else 0)"
proof -
  let ?B = "{j. j < 72 \<and> has_open k (t[i := f'] ! j)}"
  have "has_open k (t ! i) = (k = n)" using assms(3,5) by blast
  then have "(j < 72 \<and> has_open k (t ! j)) = (j = i \<and> k = n \<or> j < 72 \<and> has_open k (t[i := f'] ! j))" for j
    using assms(1,2,4) by (cases "j = i") simp_all
  then have "{j. j < 72 \<and> has_open k (t ! j)} = (if k = n then {i} else {}) \<union> ?B" by auto
  moreover have "finite ?B" "i \<notin> ?B" using assms(1,2,4) by simp_all
  ultimately show ?thesis by (cases "k = n") (simp_all only: simp_thms card_insert_disjoint if_True if_False Un_insert_left Un_empty_left Suc_eq_plus1 add_0_right)
qed

text \<open>
  C36. Closing a descriptor that is not the last one on a file, or that is open on a device, returns 0 and frees the entry; the counts of all
  inodes stay exact, and the other descriptors are as they were.
\<close>

theorem close_keeps_counts:
  assumes "counted st P" and "p \<in> P" and "p = cur_filesp st" and "0 < files_count (filesps st p)" and "i < 72"
    and "f_status (file_at st p i) = FD_OPENED" and "f_node (file_at st p i) = Some n" and "ref_count (inodes st n) < 0x10000"
    and "1 < open_count (inodes st n) \<or> in_ops (inodes st n) = Dev_Ops d \<and> 0 < sys_refs st n"
  shows "\<exists>st'. file_close st (int i) = Some (st', 0) \<and> counted st' P \<and> f_status (file_at st' p i) = FD_NONE
    \<and> (\<forall>j. j \<noteq> i \<longrightarrow> file_at st' p j = file_at st p j) \<and> open_count (inodes st' n) = open_count (inodes st n) - 1"
proof -
  have c: "finite P" "\<forall>p \<in> P. table_ok (filesps st p)"
    "open_count (inodes st k) = int (\<Sum>p\<in>P. uses (filesps st p) k)"
    "ref_count (inodes st k) = int ((\<Sum>p\<in>P. uses (filesps st p) k + pwd_ref (filesps st p) k) + sys_refs st k)" for k
    using assms(1) by (auto simp: counted_def)
  have tab: "table_ok (filesps st p)" using c(2) assms(2) by blast
  note e = open_entry [OF tab assms(5,6)]
  have opened: "has_open n (fd_array (filesps st p) ! i)" "\<And>k. has_open k (fd_array (filesps st p) ! i) \<Longrightarrow> k = n"
    using assms(6,7) by (simp_all add: has_open_def file_at_def)
  have "i \<in> {j. j < 72 \<and> has_open n (fd_array (filesps st p) ! j)}" using assms(5) opened(1) by simp
  then have "0 < uses (filesps st p) n" unfolding uses_def by (subst card_gt_0_iff) auto
  moreover have "uses (filesps st p) n \<le> (\<Sum>p\<in>P. uses (filesps st p) n)" by (rule member_le_sum [OF assms(2)]) (simp_all add: c(1))
  ultimately have pos: "0 < open_count (inodes st n)" "open_count (inodes st n) + int (sys_refs st n) \<le> ref_count (inodes st n)"
    unfolding c(3,4) sum.distrib by (simp_all del: of_nat_sum)
  let ?st' = "upd_file p i (\<lambda>f. f\<lparr>f_status := FD_NONE, f_open_count := 0\<rparr>) (st\<lparr>inodes := (inodes st)(n := bump (- 1) (inodes st n))\<rparr>)"
  have run: "file_close st (int i) = Some (?st', 0)"
    by (rule file_close_run [OF tab assms(3-7) _ assms(8) pos(1)]) (use pos assms(9) in auto)
  have tabs: "filesps ?st' q = (if q = p then (filesps st p)\<lparr>fd_array := (fd_array (filesps st p))[i := (file_at st p i)\<lparr>f_status := FD_NONE, f_open_count := 0\<rparr>]\<rparr>
      else filesps st q)" for q by (simp add: file_at_def)
  have u: "uses (filesps st p) k = uses (filesps ?st' p) k + (if k = n then 1 else 0)" for k
    unfolding tabs uses_def using uses_close [of i "fd_array (filesps st p)" n k, OF assms(5) _ opened(1) _ opened(2)] tab
    by (simp add: table_ok_def has_open_def)
  have pw: "pwd_ref (filesps ?st' q) k = pwd_ref (filesps st q) k" for q k using tabs by (simp add: pwd_ref_def)
  have rest: "uses (filesps ?st' q) k = uses (filesps st q) k" if "q \<in> P - {p}" for q k using that tabs by simp
  have sums: "(\<Sum>q\<in>P. uses (filesps st q) k) = (\<Sum>q\<in>P. uses (filesps ?st' q) k) + (if k = n then 1 else 0)" for k
    unfolding sum.remove [OF c(1) assms(2)] u by (simp only: rest cong: sum.cong)
  have "counted ?st' P"
    unfolding counted_def
  proof (intro conjI allI ballI)
    show "table_ok (filesps ?st' q)" if "q \<in> P" for q
      using that tab c(2) e(1) assms(5) unfolding tabs by (auto simp: table_ok_def nth_list_update entry_ok_def)
    have s: "sys_refs ?st' k = sys_refs st k" for k by (simp add: sys_refs_def)
    show "open_count (inodes ?st' k) = int (\<Sum>q\<in>P. uses (filesps ?st' q) k)" for k using c(3) [of k] sums [of k] by (auto simp: fun_upd_def)
    show "ref_count (inodes ?st' k) = int ((\<Sum>q\<in>P. uses (filesps ?st' q) k + pwd_ref (filesps ?st' q) k) + sys_refs ?st' k)" for k
      using c(4) [of k] sums [of k] unfolding sum.distrib pw s by (auto simp: fun_upd_def)
  qed (rule c(1))
  moreover have "f_status (file_at ?st' p i) = FD_NONE" "\<forall>j. j \<noteq> i \<longrightarrow> file_at ?st' p j = file_at st p j" using e(4) by (simp_all add: file_at_def)
  ultimately show ?thesis using run by (intro exI [of _ ?st']) simp
qed

theorem close_keeps_counts_witness:
  "\<exists>st'. file_close demo_kfs 0 = Some (st', 0) \<and> counted st' {10} \<and> open_count (inodes st' 1) = 0"
proof -
  have h: "(10 :: nat) \<in> {10}" "10 = cur_filesp demo_kfs" "(0 :: nat) < 72" "f_status (file_at demo_kfs 10 0) = FD_OPENED"
    "f_node (file_at demo_kfs 10 0) = Some 1" "ref_count (inodes demo_kfs 1) < 0x10000"
    "1 < open_count (inodes demo_kfs 1) \<or> in_ops (inodes demo_kfs 1) = Dev_Ops Stdin \<and> 0 < sys_refs demo_kfs 1"
    by (simp_all add: demo_entry_def demo_node_def) (simp add: sys_refs_def demo_kfs_def)
  from close_keeps_counts [OF demo_counted h(1,2) demo_table_ok(2) h(3-7)] show ?thesis by (auto simp: demo_node_def)
qed

subsection \<open>Reading through a descriptor\<close>

lemma fd_read_run:
  assumes "table_ok (filesps st p)" and "p = cur_filesp st" and "0 < files_count (filesps st p)" and "i < 72"
    and "f_status (file_at st p i) = FD_OPENED" and "f_readable (file_at st p i)" and "f_node (file_at st p i) = Some n"
    and "f_pos (file_at st p i) = int pos" and "node_ok (inodes st n)" and "in_ops (inodes st n) = Sfs_Fileops"
    and "x = in_info (inodes st n)" and "fs_inv (fs st)" and "file_ok (fs st) (din x)" and "din_type (din x) \<noteq> SFS_TYPE_DIR"
    and "0 < len" and "len < 2 ^ 32" and "pos < unat (din_size (din x))" and "k = min len (unat (din_size (din x)) - pos)"
    and "no_whole_block pos k" and "user_buf (fs st) base k"
  shows "\<exists>s'. file_read sleeps st (int i) base len = Some (upd_file p i (\<lambda>f. f\<lparr>f_pos := int (pos + k)\<rparr>) (st\<lparr>fs := s'\<rparr>), 0, k)
    \<and> fetched (fs st) (din x) base pos k s'"
proof -
  note e = open_entry [OF assms(1,4,5)]
  obtain s' where r: "sfs_io_nolock (fs st) x base (int pos) len False = Some (s', x, 0, k)" "fetched (fs st) (din x) base pos k s'"
    using read_run [OF assms(12-19,20)] by blast
  let ?iob = "iobuf_init base len (int pos)"
  have io: "sfs_read (fs st) x ?iob = Some (s', x, advance ?iob k, 0)"
    using r(1) assms(15,17,18) by (simp add: sfs_read_def sfs_io_def iobuf_init_def iobuf_skip_Some advance_def)
  let ?st1 = "upd_file p i (\<lambda>f. f\<lparr>f_open_count := f_open_count f + 1\<rparr>) st"
  have same: "(inodes st)(n := (inodes st n)\<lparr>in_info := x\<rparr>) = inodes st" using assms(11) by (simp add: fun_eq_iff)
  have "inode_check ?st1 n = Some ()" using assms(9) by (simp add: inode_check_def node_ok_def)
  then have rd: "vop_read sleeps ?st1 n ?iob = Some (?st1\<lparr>fs := s'\<rparr>, advance ?iob k, 0)"
    using io assms(10) assms(11) [symmetric] same by (simp add: vop_read_def on_file_def set_node_def)
  have used: "iobuf_used (advance ?iob k) = k" using assms(18) by (simp add: iobuf_used_def iobuf_init_def advance_def)
  have "file_read sleeps st (int i) base len = Some (upd_file p i (\<lambda>f. f\<lparr>f_pos := int (pos + k)\<rparr>) (st\<lparr>fs := s'\<rparr>), 0, k)"
    using fd2file_open [OF assms(1-5)] assms(5-8) e(2,4) rd used
    by (simp add: file_read_def file_io_def fd_array_acquire_def fd_array_release_def Let_def file_at_upd upd_file_fs upd_file_same)
  with r(2) show ?thesis by blast
qed

text \<open>What was fetched can be read at the buffer.\<close>

lemma fetched_bytes:
  assumes "fetched s d base pos k s'" and "user_buf s base k" and "j < k"
  shows "machine s' (base + j) = contents s d (pos + j)"
proof -
  have "\<not> scratch s (base + j)" using assms(2,3) by (auto simp: user_buf_def scratch_def apart_def)
  from mem_effD [OF assms(1) [unfolded fetched_def] this] show ?thesis using assms(3) by (simp add: fill_def)
qed

text \<open>
  Reading a regular file: \<open>file_read\<close> through an open descriptor hands over the bytes of the file from the position of the
  descriptor on, as many as asked for and there are, moves the position behind them and changes no other descriptor and no inode. (For requests
  that contain no whole block; what happens to the others is stated for \<open>sfs_io_nolock\<close>.)
\<close>

theorem fd_read_contents:
  assumes "table_ok (filesps st p)" and "p = cur_filesp st" and "0 < files_count (filesps st p)" and "i < 72"
    and "f_status (file_at st p i) = FD_OPENED" and "f_readable (file_at st p i)" and "f_node (file_at st p i) = Some n"
    and "f_pos (file_at st p i) = int pos" and "node_ok (inodes st n)" and "in_ops (inodes st n) = Sfs_Fileops"
    and "x = in_info (inodes st n)" and "fs_inv (fs st)" and "file_ok (fs st) (din x)" and "din_type (din x) \<noteq> SFS_TYPE_DIR"
    and "0 < len" and "len < 2 ^ 32" and "pos < unat (din_size (din x))" and "k = min len (unat (din_size (din x)) - pos)"
    and "no_whole_block pos k" and "user_buf (fs st) base k"
  shows "\<exists>st'. file_read sleeps st (int i) base len = Some (st', 0, k)
    \<and> (\<forall>j < k. mem_of st' (base + j) = contents (fs st) (din x) (pos + j))
    \<and> file_at st' p i = (file_at st p i)\<lparr>f_pos := int (pos + k)\<rparr> \<and> (\<forall>j. j \<noteq> i \<longrightarrow> file_at st' p j = file_at st p j)
    \<and> inodes st' = inodes st"
proof -
  note e = open_entry [OF assms(1,4,5)]
  obtain s' where r: "file_read sleeps st (int i) base len = Some (upd_file p i (\<lambda>f. f\<lparr>f_pos := int (pos + k)\<rparr>) (st\<lparr>fs := s'\<rparr>), 0, k)"
    "fetched (fs st) (din x) base pos k s'"
    using fd_read_run [OF assms] by blast
  let ?st' = "upd_file p i (\<lambda>f. f\<lparr>f_pos := int (pos + k)\<rparr>) (st\<lparr>fs := s'\<rparr>)"
  have "f_pos (file_at ?st' p i) = int (pos + k)" "\<forall>j. j \<noteq> i \<longrightarrow> file_at ?st' p j = file_at st p j"
    "file_at ?st' p i = (file_at st p i)\<lparr>f_pos := int (pos + k)\<rparr>"
    using e(4) by (simp_all add: file_at_def)
  then show ?thesis using r(1) fetched_bytes [OF r(2) assms(20)] by (intro exI [of _ ?st']) simp
qed

text \<open>The file of \<open>demo_fs\<close>, open at descriptor 1.\<close>

lemma demo_read:
  "10 = cur_filesp demo_kfs" "(1 :: nat) < 72" "f_status (file_at demo_kfs 10 1) = FD_OPENED" "f_readable (file_at demo_kfs 10 1)"
  "f_node (file_at demo_kfs 10 1) = Some 7" "f_pos (file_at demo_kfs 10 1) = int 20" "node_ok (inodes demo_kfs 7)"
  "in_ops (inodes demo_kfs 7) = Sfs_Fileops" "demo_file = in_info (inodes demo_kfs 7)"
  "fs_inv (fs demo_kfs)" "file_ok (fs demo_kfs) (din demo_file)" "din_type (din demo_file) \<noteq> SFS_TYPE_DIR"
  "unat (din_size (din demo_file)) = 100" "no_whole_block 20 50" "user_buf (fs demo_kfs) 400000 50"
proof -
  obtain m where fs: "fs demo_kfs = demo_fs\<lparr>machine := m\<rparr>" by (simp add: demo_kfs_def)
  have "file_entry (fs demo_kfs) (din demo_file) i = file_entry demo_fs (din demo_file) i" for i
    by (simp add: file_entry_def demo_file_def)
  then show "fs_inv (fs demo_kfs)" "file_ok (fs demo_kfs) (din demo_file)"
    using demo_fs_inv demo_file_ok fs by (metis fs_inv_mem, metis (no_types) file_ok_def inode_ok_def owned_def in_use_mem map_ext)
  show "user_buf (fs demo_kfs) 400000 50" unfolding fs using demo_user_buf(1) [of 50] by (simp add: user_buf_def)
qed (simp_all add: demo_entry_def demo_node_def node_ok_def demo_file_def no_whole_block_def)

theorem fd_read_contents_witness:
  "\<exists>st'. file_read [] demo_kfs 1 400000 50 = Some (st', 0, 50) \<and> f_pos (file_at st' 10 1) = 70
    \<and> mem_of st' 400049 = contents (fs demo_kfs) (din demo_file) 69"
proof -
  have r: "(0 :: nat) < 50" "(50 :: nat) < 2 ^ 32" "20 < unat (din_size (din demo_file))" "50 = min 50 (unat (din_size (din demo_file)) - 20)"
    using demo_read(13) by simp_all
  from fd_read_contents [OF demo_table_ok(1) demo_read(1) demo_table_ok(2) demo_read(2-12) r demo_read(14,15), of "[]"] obtain st' where
    st': "file_read [] demo_kfs (int 1) 400000 50 = Some (st', 0, 50)"
      "\<forall>j < 50. mem_of st' (400000 + j) = contents (fs demo_kfs) (din demo_file) (20 + j)"
      "file_at st' 10 1 = (file_at demo_kfs 10 1)\<lparr>f_pos := int (20 + 50)\<rparr>" by blast
  have "mem_of st' 400049 = contents (fs demo_kfs) (din demo_file) 69" using st'(2) [rule_format, of 49] by simp
  then show ?thesis using st'(1,3) by auto
qed

text \<open>
  A kernel panic within reach of a process: operations that are missing from the table of an inode are assertions, not errors. Reading, writing
  or seeking on a directory, \<open>fsync\<close> on a device, and listing anything but a directory of the file system end in the failed assertion of \<open>__vop_op\<close>.
\<close>

theorem missing_operation_panics:
  assumes "table_ok (filesps st p)" and "p = cur_filesp st" and "0 < files_count (filesps st p)" and "i < 72"
    and "f_status (file_at st p i) = FD_OPENED" and "f_node (file_at st p i) = Some n"
  shows "(in_ops (inodes st n) = Sfs_Dirops \<longrightarrow>
       (f_readable (file_at st p i) \<longrightarrow> file_read sleeps st (int i) base len = None)
       \<and> (f_writable (file_at st p i) \<longrightarrow> file_write sleeps st (int i) base len = None)
       \<and> (whence = 0 \<or> whence = 1 \<longrightarrow> file_seek st (int i) pos whence = None))
    \<and> (in_ops (inodes st n) = Dev_Ops d \<longrightarrow> file_fsync st (int i) = None)
    \<and> (in_ops (inodes st n) \<noteq> Sfs_Dirops \<longrightarrow> file_getdirentry st (int i) name offset entry = None)"
proof -
  note e = open_entry [OF assms(1,4,5)] and f = fd2file_open [OF assms(1-5)]
  note defs = file_io_def fd_array_acquire_def fd_array_release_def Let_def file_at_upd
  have "file_read sleeps st (int i) base len = None" if "in_ops (inodes st n) = Sfs_Dirops" "f_readable (file_at st p i)"
    using that assms(5,6) e f by (simp add: file_read_def vop_read_def defs split: option.splits)
  moreover have "file_write sleeps st (int i) base len = None" if "in_ops (inodes st n) = Sfs_Dirops" "f_writable (file_at st p i)"
    using that assms(5,6) e f by (simp add: file_write_def vop_write_def defs split: option.splits)
  moreover have "file_seek st (int i) pos whence = None" if "in_ops (inodes st n) = Sfs_Dirops" "whence = 0 \<or> whence = 1"
    using that assms(5,6) e f by (auto simp: file_seek_def vop_tryseek_def defs split: option.splits)
  moreover have "file_fsync st (int i) = None" if "in_ops (inodes st n) = Dev_Ops d"
    using that assms(5,6) e f by (simp add: file_fsync_def vop_fsync_def defs split: option.splits)
  moreover have "file_getdirentry st (int i) name offset entry = None" if "in_ops (inodes st n) \<noteq> Sfs_Dirops"
    using that assms(5,6) e f by (auto simp: file_getdirentry_def vop_getdirentry_def defs split: inode_ops.splits option.splits)
  ultimately show ?thesis by (intro conjI impI; simp)
qed

theorem missing_operation_panics_witness:
  "file_read [] demo_kfs 2 400000 50 = None \<and> file_fsync demo_kfs 0 = None \<and> file_getdirentry demo_kfs 0 400000 0 None = None"
proof -
  have h: "10 = cur_filesp demo_kfs" "(0 :: nat) < 72" "(2 :: nat) < 72"
    "f_status (file_at demo_kfs 10 0) = FD_OPENED" "f_status (file_at demo_kfs 10 2) = FD_OPENED"
    "f_node (file_at demo_kfs 10 0) = Some 1" "f_node (file_at demo_kfs 10 2) = Some 9"
    "in_ops (inodes demo_kfs 1) = Dev_Ops Stdin" "in_ops (inodes demo_kfs 9) = Sfs_Dirops" "f_readable (file_at demo_kfs 10 2)"
    by (simp_all add: demo_entry_def demo_node_def)
  note tab = demo_table_ok(1) h(1) demo_table_ok(2)
  show ?thesis
    using missing_operation_panics [OF tab h(3,5,7), of "[]" 400000 50] missing_operation_panics [OF tab h(2,4,6), of "[]" 0 0 0 0 Stdin 400000 0 None] h(8-10)
    by simp
qed

end
