(* ===== verification/Sysfile.thy ===== *)
theory Sysfile
  imports Files_Spec Vmm
begin

section \<open>System calls on files: \<open>kern/fs/sysfile.c\<close>\<close>

text \<open>
  The layer between system calls and descriptors: paths and data are copied between the memory of the process and
  buffers of the kernel, after the range has been checked against the areas of the process. User memory lies at its user addresses in the one
  memory of the machine. The buffers \<open>kmalloc\<close> returns, and local variables whose addresses are passed on, are
  arguments; what other processes do while a read sleeps is a list for every round.
\<close>

abbreviation (input) IOBUF_SIZE :: nat where "IOBUF_SIZE \<equiv> 4096"
abbreviation (input) FS_MAX_FPATH_LEN :: u64 where "FS_MAX_FPATH_LEN \<equiv> 4095"

text \<open>A \<open>size_t\<close> returned as an \<open>int\<close>.\<close>

definition as_int :: "nat \<Rightarrow> int" where
  "as_int n = sint (word_of_nat n :: 32 word)"

definition copy_path :: "kfs \<Rightarrow> mm option \<Rightarrow> u64 \<Rightarrow> nat option \<Rightarrow> (kfs \<times> mm option \<times> int \<times> nat option) option" where
  "copy_path st mm from' buffer =
     (case buffer of
        None \<Rightarrow> Some (st, mm, - E_NO_MEM, None)
      | Some b \<Rightarrow> do {
          (mm, m, ok) \<leftarrow> copy_string mm (mem_of st) (word_of_nat b) from' (FS_MAX_FPATH_LEN + 1);
          if ok then Some (set_mem m st, mm, 0, Some b) else Some (set_mem m st, mm, - E_INVAL, None) })"

subsection \<open>Opening, closing and moving in files\<close>

definition sysfile_open :: "kfs \<Rightarrow> mm option \<Rightarrow> u64 \<Rightarrow> u32 \<Rightarrow> nat option \<Rightarrow> allocs \<Rightarrow> allocs \<Rightarrow> allocs \<Rightarrow> (kfs \<times> mm option \<times> int) option" where
  "sysfile_open st mm path open_flags buffer al al' al'' =
     do { (st, mm, ret, p) \<leftarrow> copy_path st mm path buffer;
          if ret \<noteq> 0 then Some (st, mm, ret)
          else do { p \<leftarrow> p; (st, ret) \<leftarrow> file_open st p open_flags al al' al''; Some (st, mm, ret) } }"

definition sysfile_close :: "kfs \<Rightarrow> int \<Rightarrow> (kfs \<times> int) option" where
  "sysfile_close st fd = file_close st fd"

definition sysfile_seek :: "kfs \<Rightarrow> int \<Rightarrow> int \<Rightarrow> int \<Rightarrow> (kfs \<times> int) option" where
  "sysfile_seek st fd pos whence = file_seek st fd pos whence"

definition sysfile_fsync :: "kfs \<Rightarrow> int \<Rightarrow> (kfs \<times> int) option" where
  "sysfile_fsync st fd = file_fsync st fd"

definition sysfile_dup :: "kfs \<Rightarrow> int \<Rightarrow> int \<Rightarrow> (kfs \<times> int) option" where
  "sysfile_dup st fd1 fd2 = file_dup st fd1 fd2"

text \<open>A \<open>struct stat\<close> takes 32 bytes, with a gap behind its first field.\<close>

definition put_stat :: "memory \<Rightarrow> nat \<Rightarrow> stat \<Rightarrow> memory" where
  "put_stat m a x =
     poke (poke (poke (poke m a (le_bytes 4 (unat (st_mode x)))) (a + 8) (le_bytes 8 (unat (st_nlinks x))))
       (a + 16) (le_bytes 8 (unat (st_blocks x)))) (a + 24) (le_bytes 8 (unat (st_size x)))"

definition sysfile_fstat :: "kfs \<Rightarrow> mm option \<Rightarrow> int \<Rightarrow> u64 \<Rightarrow> nat \<Rightarrow> (kfs \<times> mm option \<times> int) option" where
  "sysfile_fstat st mm fd ustat local =
     do { (st, ret, x) \<leftarrow> file_fstat st fd;
          if ret \<noteq> 0 then Some (st, mm, ret)
          else do {
            x \<leftarrow> x;
            (mm, m, ok) \<leftarrow> copy_to_user mm (put_stat (mem_of st) local x) ustat (word_of_nat local) 32;
            Some (set_mem m st, mm, if ok then 0 else - E_INVAL) } }"

subsection \<open>Reading and writing\<close>

text \<open>One round of the loop of \<open>sysfile_read\<close>; results: the variables of the loop, and whether it ends.\<close>

definition read_round :: "sleeps \<Rightarrow> kfs \<Rightarrow> mm option \<Rightarrow> int \<Rightarrow> u64 \<Rightarrow> nat \<Rightarrow> nat \<Rightarrow> nat
    \<Rightarrow> (kfs \<times> mm option \<times> u64 \<times> nat \<times> nat \<times> int \<times> bool) option" where
  "read_round sleeps st mm fd base len copied buffer =
     do { (st, ret, alen) \<leftarrow> file_read sleeps st fd buffer (if IOBUF_SIZE > len then len else IOBUF_SIZE);
          if alen \<noteq> 0
          then do {
            (mm, m, ok) \<leftarrow> copy_to_user mm (mem_of st) base (word_of_nat buffer) (word_of_nat alen);
            if ok
            then do { kassert (len \<ge> alen); Some (set_mem m st, mm, base + word_of_nat alen, len - alen, copied + alen, ret, ret \<noteq> 0) }
            else Some (set_mem m st, mm, base, len, copied, if ret = 0 then - E_INVAL else ret, True) }
          else Some (st, mm, base, len, copied, ret, True) }"

partial_function (option) read_loop :: "(nat \<Rightarrow> sleeps) \<Rightarrow> nat \<Rightarrow> kfs \<Rightarrow> mm option \<Rightarrow> int \<Rightarrow> u64 \<Rightarrow> nat \<Rightarrow> nat \<Rightarrow> nat
    \<Rightarrow> (kfs \<times> mm option \<times> nat \<times> int) option" where
  "read_loop sleeps r st mm fd base len copied buffer =
     (if len = 0 then Some (st, mm, copied, 0)
      else do {
        (st, mm, base, len, copied, ret, out) \<leftarrow> read_round (sleeps r) st mm fd base len copied buffer;
        if out then Some (st, mm, copied, ret) else read_loop sleeps (r + 1) st mm fd base len copied buffer })"

definition sysfile_read :: "(nat \<Rightarrow> sleeps) \<Rightarrow> kfs \<Rightarrow> mm option \<Rightarrow> int \<Rightarrow> u64 \<Rightarrow> nat \<Rightarrow> nat option \<Rightarrow> (kfs \<times> mm option \<times> int) option" where
  "sysfile_read sleeps st mm fd base len buffer =
     (if len = 0 then Some (st, mm, 0)
      else do {
        ok \<leftarrow> file_testfd st fd True False;
        if \<not> ok then Some (st, mm, - E_INVAL)
        else (case buffer of
          None \<Rightarrow> Some (st, mm, - E_NO_MEM)
        | Some b \<Rightarrow> do {
            (st, mm, copied, ret) \<leftarrow> read_loop sleeps 0 st mm fd base len 0 b;
            Some (st, mm, if copied \<noteq> 0 then as_int copied else ret) }) })"

definition write_round :: "sleeps \<Rightarrow> kfs \<Rightarrow> mm option \<Rightarrow> int \<Rightarrow> u64 \<Rightarrow> nat \<Rightarrow> nat \<Rightarrow> nat
    \<Rightarrow> (kfs \<times> mm option \<times> u64 \<times> nat \<times> nat \<times> int \<times> bool) option" where
  "write_round sleeps st mm fd base len copied buffer =
     do { let alen = (if IOBUF_SIZE > len then len else IOBUF_SIZE);
          (mm, m, ok) \<leftarrow> copy_from_user mm (mem_of st) (word_of_nat buffer) base (word_of_nat alen) False;
          let st = set_mem m st;
          if \<not> ok then Some (st, mm, base, len, copied, - E_INVAL, True)
          else do {
            (st, ret, alen) \<leftarrow> file_write sleeps st fd buffer alen;
            if alen \<noteq> 0
            then do { kassert (len \<ge> alen); Some (st, mm, base + word_of_nat alen, len - alen, copied + alen, ret, ret \<noteq> 0) }
            else Some (st, mm, base, len, copied, ret, True) } }"

partial_function (option) write_loop :: "(nat \<Rightarrow> sleeps) \<Rightarrow> nat \<Rightarrow> kfs \<Rightarrow> mm option \<Rightarrow> int \<Rightarrow> u64 \<Rightarrow> nat \<Rightarrow> nat \<Rightarrow> nat
    \<Rightarrow> (kfs \<times> mm option \<times> nat \<times> int) option" where
  "write_loop sleeps r st mm fd base len copied buffer =
     (if len = 0 then Some (st, mm, copied, 0)
      else do {
        (st, mm, base, len, copied, ret, out) \<leftarrow> write_round (sleeps r) st mm fd base len copied buffer;
        if out then Some (st, mm, copied, ret) else write_loop sleeps (r + 1) st mm fd base len copied buffer })"

definition sysfile_write :: "(nat \<Rightarrow> sleeps) \<Rightarrow> kfs \<Rightarrow> mm option \<Rightarrow> int \<Rightarrow> u64 \<Rightarrow> nat \<Rightarrow> nat option \<Rightarrow> (kfs \<times> mm option \<times> int) option" where
  "sysfile_write sleeps st mm fd base len buffer =
     (if len = 0 then Some (st, mm, 0)
      else do {
        ok \<leftarrow> file_testfd st fd False True;
        if \<not> ok then Some (st, mm, - E_INVAL)
        else (case buffer of
          None \<Rightarrow> Some (st, mm, - E_NO_MEM)
        | Some b \<Rightarrow> do {
            (st, mm, copied, ret) \<leftarrow> write_loop sleeps 0 st mm fd base len 0 b;
            Some (st, mm, if copied \<noteq> 0 then as_int copied else ret) }) })"

subsection \<open>Directories\<close>

definition sysfile_chdir :: "kfs \<Rightarrow> mm option \<Rightarrow> u64 \<Rightarrow> nat option \<Rightarrow> allocs \<Rightarrow> allocs \<Rightarrow> (kfs \<times> mm option \<times> int) option" where
  "sysfile_chdir st mm path buffer al al' =
     do { (st, mm, ret, p) \<leftarrow> copy_path st mm path buffer;
          if ret \<noteq> 0 then Some (st, mm, ret) else do { p \<leftarrow> p; (st, ret) \<leftarrow> vfs_chdir st p al al'; Some (st, mm, ret) } }"

text \<open>\<open>sysfile_link\<close> and \<open>sysfile_rename\<close> differ only in the last call, which always fails.\<close>

definition two_paths :: "int \<Rightarrow> kfs \<Rightarrow> mm option \<Rightarrow> u64 \<Rightarrow> u64 \<Rightarrow> nat option \<Rightarrow> nat option \<Rightarrow> (kfs \<times> mm option \<times> int) option" where
  "two_paths result st mm path1 path2 buffer1 buffer2 =
     do { (st, mm, ret, p) \<leftarrow> copy_path st mm path1 buffer1;
          if ret \<noteq> 0 then Some (st, mm, ret)
          else do { (st, mm, ret, p) \<leftarrow> copy_path st mm path2 buffer2;
                    if ret \<noteq> 0 then Some (st, mm, ret) else Some (st, mm, result) } }"

definition sysfile_link :: "kfs \<Rightarrow> mm option \<Rightarrow> u64 \<Rightarrow> u64 \<Rightarrow> nat option \<Rightarrow> nat option \<Rightarrow> (kfs \<times> mm option \<times> int) option" where
  "sysfile_link = two_paths vfs_link"

definition sysfile_rename :: "kfs \<Rightarrow> mm option \<Rightarrow> u64 \<Rightarrow> u64 \<Rightarrow> nat option \<Rightarrow> nat option \<Rightarrow> (kfs \<times> mm option \<times> int) option" where
  "sysfile_rename = two_paths vfs_rename"

definition sysfile_unlink :: "kfs \<Rightarrow> mm option \<Rightarrow> u64 \<Rightarrow> nat option \<Rightarrow> (kfs \<times> mm option \<times> int) option" where
  "sysfile_unlink st mm path buffer =
     do { (st, mm, ret, p) \<leftarrow> copy_path st mm path buffer; if ret \<noteq> 0 then Some (st, mm, ret) else Some (st, mm, vfs_unlink) }"

definition sysfile_getcwd :: "kfs \<Rightarrow> mm option \<Rightarrow> u64 \<Rightarrow> u64 \<Rightarrow> nat \<Rightarrow> nat option \<Rightarrow> nat \<Rightarrow> allocs list \<Rightarrow> (kfs \<times> mm option \<times> int) option" where
  "sysfile_getcwd st mm buf len colon entry dotdot als =
     (if len = 0 then Some (st, mm, - E_INVAL)
      else do {
        (mm, ok) \<leftarrow> user_mem_check mm buf len True;
        if \<not> ok then Some (st, mm, - E_INVAL)
        else do { (st, iob, ret) \<leftarrow> vfs_getcwd st (iobuf_init (unat buf) (unat len) 0) colon entry dotdot als; Some (st, mm, ret) } })"

text \<open>A \<open>struct dirent\<close> is an offset of 8 bytes and a name of 256.\<close>

definition sysfile_getdirentry :: "kfs \<Rightarrow> mm option \<Rightarrow> int \<Rightarrow> u64 \<Rightarrow> nat option \<Rightarrow> nat option \<Rightarrow> (kfs \<times> mm option \<times> int) option" where
  "sysfile_getdirentry st mm fd udirent direntp entry =
     (case direntp of
        None \<Rightarrow> Some (st, mm, - E_NO_MEM)
      | Some d \<Rightarrow> do {
          (mm, m, ok) \<leftarrow> copy_from_user mm (mem_of st) (word_of_nat d) udirent 8 True;
          let st = set_mem m st;
          if \<not> ok then Some (st, mm, - E_INVAL)
          else do {
            (st, ret, offset) \<leftarrow> file_getdirentry st fd (d + 8) (sint (word_of_nat (peek (mem_of st) d 8) :: u64)) entry;
            if ret \<noteq> 0 then Some (st, mm, ret)
            else do {
              let st = set_mem (poke (mem_of st) d (le_bytes 8 (unat (word_of_int offset :: u64)))) st;
              (mm, m, ok) \<leftarrow> copy_to_user mm (mem_of st) udirent (word_of_nat d) 264;
              Some (set_mem m st, mm, if ok then 0 else - E_INVAL) } } })"

definition sysfile_pipe :: int where "sysfile_pipe = - E_UNIMP"
definition sysfile_mkfifo :: int where "sysfile_mkfifo = - E_UNIMP"


subsection \<open>The system calls on files: \<open>kern/syscall/syscall.c\<close>\<close>

text \<open>The arguments are five registers; \<open>int\<close> and \<open>uint32_t\<close> parameters keep their low half.\<close>

type_synonym sys_args = "nat \<Rightarrow> u64"

definition arg_int :: "u64 \<Rightarrow> int" where
  "arg_int w = sint (ucast w :: 32 word)"

definition sys_open :: "kfs \<Rightarrow> mm option \<Rightarrow> sys_args \<Rightarrow> nat option \<Rightarrow> allocs \<Rightarrow> allocs \<Rightarrow> allocs \<Rightarrow> (kfs \<times> mm option \<times> int) option" where
  "sys_open st mm arg buffer al al' al'' = sysfile_open st mm (arg 0) (ucast (arg 1)) buffer al al' al''"

definition sys_close :: "kfs \<Rightarrow> sys_args \<Rightarrow> (kfs \<times> int) option" where
  "sys_close st arg = sysfile_close st (arg_int (arg 0))"

definition sys_read :: "(nat \<Rightarrow> sleeps) \<Rightarrow> kfs \<Rightarrow> mm option \<Rightarrow> sys_args \<Rightarrow> nat option \<Rightarrow> (kfs \<times> mm option \<times> int) option" where
  "sys_read sleeps st mm arg buffer = sysfile_read sleeps st mm (arg_int (arg 0)) (arg 1) (unat (arg 2)) buffer"

definition sys_write :: "(nat \<Rightarrow> sleeps) \<Rightarrow> kfs \<Rightarrow> mm option \<Rightarrow> sys_args \<Rightarrow> nat option \<Rightarrow> (kfs \<times> mm option \<times> int) option" where
  "sys_write sleeps st mm arg buffer = sysfile_write sleeps st mm (arg_int (arg 0)) (arg 1) (unat (arg 2)) buffer"

definition sys_seek :: "kfs \<Rightarrow> sys_args \<Rightarrow> (kfs \<times> int) option" where
  "sys_seek st arg = sysfile_seek st (arg_int (arg 0)) (sint (arg 1)) (arg_int (arg 2))"

definition sys_fstat :: "kfs \<Rightarrow> mm option \<Rightarrow> sys_args \<Rightarrow> nat \<Rightarrow> (kfs \<times> mm option \<times> int) option" where
  "sys_fstat st mm arg local = sysfile_fstat st mm (arg_int (arg 0)) (arg 1) local"

definition sys_fsync :: "kfs \<Rightarrow> sys_args \<Rightarrow> (kfs \<times> int) option" where
  "sys_fsync st arg = sysfile_fsync st (arg_int (arg 0))"

definition sys_getcwd :: "kfs \<Rightarrow> mm option \<Rightarrow> sys_args \<Rightarrow> nat \<Rightarrow> nat option \<Rightarrow> nat \<Rightarrow> allocs list \<Rightarrow> (kfs \<times> mm option \<times> int) option" where
  "sys_getcwd st mm arg colon entry dotdot als = sysfile_getcwd st mm (arg 0) (arg 1) colon entry dotdot als"

definition sys_getdirentry :: "kfs \<Rightarrow> mm option \<Rightarrow> sys_args \<Rightarrow> nat option \<Rightarrow> nat option \<Rightarrow> (kfs \<times> mm option \<times> int) option" where
  "sys_getdirentry st mm arg direntp entry = sysfile_getdirentry st mm (arg_int (arg 0)) (arg 1) direntp entry"

definition sys_dup :: "kfs \<Rightarrow> sys_args \<Rightarrow> (kfs \<times> int) option" where
  "sys_dup st arg = sysfile_dup st (arg_int (arg 0)) (arg_int (arg 1))"

end
