(* ===== verification/Exec.thy ===== *)
theory Exec
  imports Sysfile Proc_State
begin

section \<open>Arguments of new programs: \<open>do_execve\<close> of \<open>kern/process/proc.c\<close>\<close>

text \<open>
  The arguments of \<open>exec\<close> go from the address space that is given up to buffers of the kernel, and from these to the
  stack of the new program (\<open>copy_kargv\<close>, \<open>put_kargv\<close>, and the steps 6 and 7 of \<open>load_icode\<close>, which set up the stack and
  the registers the program starts with). User memory lies at its user addresses in the one memory of the machine; pages of the stack that are
  missing are supplied by page faults. The buffers \<open>kmalloc\<close> returns are an argument.
\<close>

abbreviation (input) EXEC_MAX_ARG_NUM :: nat where "EXEC_MAX_ARG_NUM \<equiv> 32"
abbreviation (input) EXEC_MAX_ARG_LEN :: nat where "EXEC_MAX_ARG_LEN \<equiv> 4095"
abbreviation (input) USTACKTOP :: nat where "USTACKTOP \<equiv> 0x80000000"

subsection \<open>Into the kernel\<close>

text \<open>The buffers in the order in which \<open>kfree\<close> gets them.\<close>

definition put_kargv :: "nat list \<Rightarrow> nat list" where
  "put_kargv kargv = rev kargv"

text \<open>Results: the memory, the code, the buffers in \<open>kargv\<close>, and those freed again.\<close>

fun copy_args :: "mm option \<Rightarrow> memory \<Rightarrow> nat \<Rightarrow> nat option list \<Rightarrow> nat list
    \<Rightarrow> (mm option \<times> memory \<times> int \<times> nat list \<times> nat list) option" where
  "copy_args mm m argv [] kargv = Some (mm, m, 0, kargv, [])"
| "copy_args mm m argv (None # bs) kargv = Some (mm, m, - E_NO_MEM, [], put_kargv kargv)"
| "copy_args mm m argv (Some buffer # bs) kargv =
     do { (mm, m, ok) \<leftarrow> copy_string mm m (word_of_nat buffer) (word_of_nat (peek m (argv + 8 * length kargv) 8)) (word_of_nat (EXEC_MAX_ARG_LEN + 1));
          if \<not> ok then Some (mm, m, - E_INVAL, [], buffer # put_kargv kargv)
          else copy_args mm m argv bs (kargv @ [buffer]) }"

definition copy_kargv :: "mm option \<Rightarrow> memory \<Rightarrow> nat \<Rightarrow> u64 \<Rightarrow> nat option list
    \<Rightarrow> (mm option \<times> memory \<times> int \<times> nat list \<times> nat list) option" where
  "copy_kargv mm m argc argv buffers =
     do { (mm, ok) \<leftarrow> user_mem_check mm argv (8 * word_of_nat argc) False;
          if \<not> ok then Some (mm, m, - E_INVAL, [], []) else copy_args mm m (unat argv) (take argc buffers) [] }"

subsection \<open>Onto the stack\<close>

text \<open>\<open>argv_size\<close> is an \<open>uint32_t\<close>.\<close>

definition add_size :: "memory \<Rightarrow> nat \<Rightarrow> nat \<Rightarrow> nat" where
  "add_size m argv_size k = (argv_size + (strnlen m k (EXEC_MAX_ARG_LEN + 1) + 1)) mod 2 ^ 32"

fun put_args :: "memory \<Rightarrow> nat \<Rightarrow> nat \<Rightarrow> nat \<Rightarrow> nat \<Rightarrow> nat list \<Rightarrow> memory option" where
  "put_args m stacktop uargv i argv_size [] = Some m"
| "put_args m stacktop uargv i argv_size (k # kargv) =
     do { (m, p) \<leftarrow> strcpy m (stacktop + argv_size) k;
          let m = poke m (uargv + 8 * i) (le_bytes 8 p);
          put_args m stacktop uargv (i + 1) (add_size m argv_size k) kargv }"

definition exec_stack :: "memory \<Rightarrow> nat list \<Rightarrow> (memory \<times> nat) option" where
  "exec_stack m kargv =
     (let argc = length kargv;
          argv_size = foldl (add_size m) 0 kargv;
          stacktop = USTACKTOP - (argv_size div 8 + 1) * 8;
          uargv = stacktop - argc * 8
      in do { m \<leftarrow> put_args m stacktop uargv 0 0 kargv;
              let stacktop = uargv - 4;
              Some (poke m stacktop (le_bytes 4 argc), stacktop) })"

text \<open>The registers the program starts with: \<open>SPP\<close> and \<open>SPIE\<close> are cleared.\<close>

definition exec_trapframe :: "trapframe \<Rightarrow> nat \<Rightarrow> u64 \<Rightarrow> trapframe" where
  "exec_trapframe tf stacktop e_entry =
     \<lparr>tf_gpr = (\<lambda>_. 0)(2 := word_of_nat stacktop), tf_status = tf_status tf AND NOT (0x100 OR 0x20), tf_epc = e_entry,
      tf_tval = 0, tf_cause = 0\<rparr>"

subsection \<open>Strings and pointers on the stack\<close>

text \<open>The offset of an argument behind \<open>stacktop\<close>.\<close>

definition arg_offset :: "char list list \<Rightarrow> nat \<Rightarrow> nat" where
  "arg_offset args j = sum_list (map (\<lambda>a. length a + 1) (take j args))"

lemma arg_offset_simps [simp]:
  "arg_offset args 0 = 0" "arg_offset (a # args) (Suc j) = length a + 1 + arg_offset args j"
  by (simp_all add: arg_offset_def)

lemma arg_offset_less: "j < length args \<Longrightarrow> arg_offset args j + length (args ! j) < arg_offset args (length args)"
proof (induction args arbitrary: j)
  case (Cons a args)
  then show ?case by (cases j) auto
qed simp

definition kernel_args :: "memory \<Rightarrow> nat list \<Rightarrow> char list list \<Rightarrow> bool" where
  "kernel_args m = list_all2 (\<lambda>k a. cstr m k a \<and> length a \<le> EXEC_MAX_ARG_LEN \<and> USTACKTOP \<le> k)"

lemma kernel_args_frame:
  "kernel_args m ks as \<Longrightarrow> (\<And>x. USTACKTOP \<le> x \<Longrightarrow> m' x = m x) \<Longrightarrow> kernel_args m' ks as"
  unfolding kernel_args_def by (erule list_all2_mono) (auto simp: cstr_frame [where m = m and m' = m'])

lemma add_size_cstr:
  "cstr m k a \<Longrightarrow> length a \<le> EXEC_MAX_ARG_LEN \<Longrightarrow> n + length a + 1 < 2 ^ 32 \<Longrightarrow> add_size m n k = n + length a + 1"
  by (simp add: add_size_def strnlen_cstr)

lemma argv_size_sum:
  "kernel_args m ks as \<Longrightarrow> n + arg_offset as (length as) < 2 ^ 32 \<Longrightarrow> foldl (add_size m) n ks = n + arg_offset as (length as)"
proof (induction ks arbitrary: n as)
  case (Cons k ks)
  then obtain a as' where as: "as = a # as'" "cstr m k a" "length a \<le> EXEC_MAX_ARG_LEN" "kernel_args m ks as'"
    by (auto simp: kernel_args_def list_all2_Cons1)
  with Cons.IH [of as' "n + length a + 1"] Cons.prems show ?case by (simp add: add_size_cstr)
qed (simp add: kernel_args_def)

lemma put_args_run:
  assumes "kernel_args m ks as" and "st + n + arg_offset as (length as) \<le> USTACKTOP"
    and "ua + 8 * (i + length ks) \<le> st"
  shows "\<exists>m'. put_args m st ua i n ks = Some m'
    \<and> (\<forall>j < length as. peek m' (ua + 8 * (i + j)) 8 = st + n + arg_offset as j \<and> cstr m' (st + n + arg_offset as j) (as ! j))
    \<and> (\<forall>x. x < ua + 8 * i \<or> ua + 8 * (i + length ks) \<le> x \<and> x < st + n \<or> st + n + arg_offset as (length as) \<le> x \<longrightarrow> m' x = m x)"
  using assms
proof (induction ks arbitrary: m as n i)
  case Nil
  then show ?case by (simp add: kernel_args_def)
next
  case (Cons k ks)
  from Cons.prems(1) obtain a as' where as: "as = a # as'" "cstr m k a" "length a \<le> EXEC_MAX_ARG_LEN" "USTACKTOP \<le> k" "kernel_args m ks as'"
    by (auto simp: kernel_args_def list_all2_Cons1)
  let ?d = "st + n"
  let ?n = "n + length a + 1"
  have fits: "?d + length a < k" using Cons.prems(2) as(1,4) by simp
  obtain m1 where m1: "strcpy m ?d k = Some (m1, ?d)" "cstr m1 ?d a" "\<forall>x. x < ?d \<or> ?d + length a < x \<longrightarrow> m1 x = m x"
    using strcpy_loop_cstr [OF as(2), of ?d] fits by (auto simp: strcpy_def)
  define m2 where "m2 = poke m1 (ua + 8 * i) (le_bytes 8 ?d)"
  have m2: "x < ua + 8 * i \<or> ua + 8 * i + 8 \<le> x \<Longrightarrow> m2 x = m1 x" for x by (auto simp: m2_def poke_def)
  have low: "ua + 8 * i + 8 \<le> st" using Cons.prems(3) by simp
  have high: "m2 x = m x" if "USTACKTOP \<le> x" for x using that m2 m1(3) low Cons.prems(2) as(1) by auto
  have "add_size m2 n k = ?n"
  proof (rule add_size_cstr [OF _ as(3)])
    show "cstr m2 k a" using as(2) cstr_frame [of k a m2 m] high as(4) by auto
    show "n + length a + 1 < 2 ^ 32" using Cons.prems(2) as(1) by simp
  qed
  then have run: "put_args m st ua i n (k # ks) = put_args m2 st ua (i + 1) ?n ks" by (simp add: m1(1) m2_def)
  obtain m' where m': "put_args m2 st ua (i + 1) ?n ks = Some m'"
    "\<forall>j < length as'. peek m' (ua + 8 * (i + 1 + j)) 8 = st + ?n + arg_offset as' j \<and> cstr m' (st + ?n + arg_offset as' j) (as' ! j)"
    "\<forall>x. x < ua + 8 * (i + 1) \<or> ua + 8 * (i + 1 + length ks) \<le> x \<and> x < st + ?n \<or> st + ?n + arg_offset as' (length as') \<le> x \<longrightarrow> m' x = m2 x"
    using Cons.IH [of m2 as' ?n "i + 1"] kernel_args_frame [OF as(5) high] Cons.prems(2,3) as(1) by auto
  have first: "peek m' (ua + 8 * i) 8 = ?d \<and> cstr m' ?d a"
  proof
    have "peek m' (ua + 8 * i) 8 = peek m2 (ua + 8 * i) 8" by (rule peek_cong) (use m'(3) in auto)
    also have "\<dots> = ?d" unfolding m2_def by (rule peek_poke) (use Cons.prems(2) in simp)
    finally show "peek m' (ua + 8 * i) 8 = ?d" .
    have "cstr m' ?d a = cstr m1 ?d a" by (rule cstr_frame) (use m'(3) m2 low Cons.prems(3) in auto)
    then show "cstr m' ?d a" using m1(2) by simp
  qed
  have "peek m' (ua + 8 * (i + j)) 8 = ?d + arg_offset as j \<and> cstr m' (?d + arg_offset as j) (as ! j)" if "j < length as" for j
    using that first m'(2) as(1) by (cases j) (auto simp: add.assoc)
  moreover have "m' x = m x" if "x < ua + 8 * i \<or> ua + 8 * (i + length (k # ks)) \<le> x \<and> x < ?d \<or> ?d + arg_offset as (length as) \<le> x" for x
    using that m'(3) m2 [of x] m1(3) low Cons.prems(3) as(1) by auto
  ultimately show ?case using run m'(1) by auto
qed

subsection \<open>Strings of the process\<close>

text \<open>The end of the page an address lies in.\<close>

definition page_end :: "nat \<Rightarrow> nat" where
  "page_end a = a div 4096 * 4096 + 4096"

lemma page_end_bounds: "a < page_end a" "page_end a \<le> a + 4096"
  by (simp_all add: page_end_def)

lemma page_end_mono: "a \<le> b \<Longrightarrow> page_end a \<le> page_end b"
  by (simp add: page_end_def div_le_mono)

text \<open>A string the process may read lies in its part of memory, in pages it may read.\<close>

definition user_string :: "mm \<Rightarrow> memory \<Rightarrow> nat \<Rightarrow> char list \<Rightarrow> bool" where
  "user_string mm m s xs \<longleftrightarrow> cstr m s xs \<and> 0x200000 \<le> s \<and> page_end (s + length xs) \<le> 0x80000000
     \<and> (\<forall>c. s \<le> unat c \<and> unat c < page_end (s + length xs) \<longrightarrow> accessible (mmap_list mm) False c)"

lemma cstr_memcpy:
  assumes "cstr m s xs" and "s + length xs < d"
  shows "cstr (memcpy m d s (length xs + 1)) d xs"
proof -
  let ?m = "memcpy m d s (length xs + 1)"
  have bytes: "?m (d + i) = m (s + i)" if "i \<le> length xs" for i using memcpy_forward [of d s "length xs + 1" i m] assms(2) that by simp
  have "cstr m s xs \<Longrightarrow> (\<And>i. i \<le> length xs \<Longrightarrow> m' (d + i) = m (s + i)) \<Longrightarrow> cstr m' d xs" for m'
  proof (induction xs arbitrary: s d)
    case (Cons x xs)
    have "cstr m' (d + 1) xs"
      using Cons.prems(1) Cons.prems(2) [of "Suc _"] by (intro Cons.IH [of "s + 1"]) auto
    then show ?case using Cons.prems(1) Cons.prems(2) [of 0] by simp
  qed (use Cons in simp)
  then show ?thesis using assms(1) bytes by blast
qed

lemma check_readable:
  assumes "mm_inv a" and "0x200000 \<le> s" "0 < n" "s + n \<le> 0x80000000"
    and "\<forall>c. s \<le> unat c \<and> unat c < s + n \<longrightarrow> accessible (mmap_list a) False c"
  shows "\<exists>a'. user_mem_check (Some a) (word_of_nat s) (word_of_nat n) False = Some (Some a', True) \<and> mm_inv a' \<and> mmap_list a' = mmap_list a"
proof -
  have u: "unat (word_of_nat s :: u64) = s" "unat (word_of_nat s + word_of_nat n :: u64) = s + n"
    using assms(4) by (simp_all add: unat_of_nat flip: of_nat_add)
  have "USER_ACCESS (word_of_nat s) (word_of_nat s + word_of_nat n)"
    using assms(2-4) u by (simp add: USER_ACCESS_def word_le_nat_alt word_less_nat_alt)
  moreover have "\<forall>c. word_of_nat s \<le> c \<and> c < word_of_nat s + word_of_nat n \<longrightarrow> accessible (mmap_list a) False c"
    using assms(5) u by (simp add: word_le_nat_alt word_less_nat_alt)
  moreover obtain a' r where "user_mem_check (Some a) (word_of_nat s) (word_of_nat n) False = Some (Some a', r)" "mm_inv a'"
      "mmap_list a' = mmap_list a" "r \<longleftrightarrow> USER_ACCESS (word_of_nat s) (word_of_nat s + word_of_nat n)
        \<and> (\<forall>c. word_of_nat s \<le> c \<and> c < word_of_nat s + word_of_nat n \<longrightarrow> accessible (mmap_list a) False c)"
    using user_mem_check_exact [OF assms(1), of "word_of_nat s" "word_of_nat n" False] by blast
  ultimately show ?thesis by auto
qed

lemma copy_string_loop_run:
  assumes "mm_inv a" and "user_string a m s xs" and "length xs < n" "n \<le> 4096" and "0x80000000 \<le> d" "d + n < 2 ^ 64"
    and "0 < p" "s + p = page_end s"
  shows "\<exists>a' m'. copy_string_loop (Some a) m (word_of_nat d) (word_of_nat s) (word_of_nat n) (word_of_nat p) = Some (Some a', m', True)
    \<and> mm_inv a' \<and> mmap_list a' = mmap_list a \<and> cstr m' d xs \<and> (\<forall>x. x < d \<or> d + n \<le> x \<longrightarrow> m' x = m x)"
  using assms
proof (induction "length xs" arbitrary: a m s xs n d p rule: less_induct)
  case less
  note prems = less.prems
  let ?q = "min p n"
  have pq: "p \<le> 4096" "?q \<le> 4096" "0 < ?q" using prems(3,4,7,8) page_end_bounds [of s] by auto
  have str: "cstr m s xs" "0x200000 \<le> s" "page_end (s + length xs) \<le> 0x80000000"
    "\<forall>c. s \<le> unat c \<and> unat c < page_end (s + length xs) \<longrightarrow> accessible (mmap_list a) False c"
    using prems(2) by (simp_all add: user_string_def)
  have pe: "s + p \<le> page_end (s + length xs)" using page_end_mono [of s "s + length xs"] prems(8) by simp
  have low: "s + ?q \<le> 0x80000000" using pe str(3) by simp
  have acc: "\<forall>c. s \<le> unat c \<and> unat c < s + ?q \<longrightarrow> accessible (mmap_list a) False c" using str(4) pe by auto
  obtain a1 where a1: "user_mem_check (Some a) (word_of_nat s) (word_of_nat ?q) False = Some (Some a1, True)" "mm_inv a1" "mmap_list a1 = mmap_list a"
    using check_readable [OF prems(1) str(2) pq(3) low acc] by blast
  have u: "unat (word_of_nat d :: u64) = d" "unat (word_of_nat s :: u64) = s" "unat (word_of_nat ?q :: u64) = ?q"
    "unat (word_of_nat n :: u64) = n" "unat (word_of_nat p :: u64) = p"
    using prems(4,6) low pq str(3) pe by (simp_all add: unat_of_nat)
  have part: "(if (word_of_nat p :: u64) > word_of_nat n then word_of_nat n else word_of_nat p) = (word_of_nat ?q :: u64)"
    using u(4,5) by (simp add: word_less_nat_alt min_def)
  have len: "strnlen m s ?q = min ?q (length xs)" by (rule strnlen_cstr [OF str(1)])
  show ?case
  proof (cases "length xs < ?q")
    case True
    have "copy_string_loop (Some a) m (word_of_nat d) (word_of_nat s) (word_of_nat n) (word_of_nat p)
        = Some (Some a1, memcpy m d s (length xs + 1), True)"
      using a1(1) True len u by (subst copy_string_loop.simps) (simp add: part Let_def)
    moreover have "cstr (memcpy m d s (length xs + 1)) d xs" using low prems(5) True by (intro cstr_memcpy [OF str(1)]) linarith
    moreover have "memcpy m d s (length xs + 1) x = m x" if "x < d \<or> d + n \<le> x" for x
      using that prems(3) by (intro memcpy_frame) auto
    ultimately show ?thesis using a1 by blast
  next
    case False
    then have qp: "?q = p" "p \<le> length xs" "p < n" using prems(3) by auto
    let ?m = "memcpy m d s p" and ?ys = "drop p xs"
    have whole: "word_of_nat p \<noteq> (word_of_nat n :: u64)" using u(4,5) qp(3) by (metis less_irrefl)
    have "copy_string_loop (Some a) m (word_of_nat d) (word_of_nat s) (word_of_nat n) (word_of_nat p)
        = copy_string_loop (Some a1) ?m (word_of_nat d + word_of_nat p) (word_of_nat s + word_of_nat p) (word_of_nat n - word_of_nat p) 4096"
      using a1(1) qp len u whole by (subst copy_string_loop.simps) (simp add: part Let_def)
    then have run: "copy_string_loop (Some a) m (word_of_nat d) (word_of_nat s) (word_of_nat n) (word_of_nat p)
        = copy_string_loop (Some a1) ?m (word_of_nat (d + p)) (word_of_nat (s + p)) (word_of_nat (n - p)) (word_of_nat 4096)"
      using qp(3) by (simp add: of_nat_diff)
    have below: "?m x = m x" if "x < d" for x using that by (intro memcpy_frame) simp
    have split: "block m s p = take p xs" "NUL \<notin> set (take p xs)" "cstr m (s + p) ?ys"
      using cstr_append [of m s "take p xs" ?ys] str(1) qp(2) by simp_all
    have "cstr ?m (s + p) ?ys = cstr m (s + p) ?ys"
      by (rule cstr_frame) (use below str(3) page_end_bounds [of "s + length xs"] prems(5) qp(2) in auto)
    then have us: "user_string a1 ?m (s + p) ?ys"
      using split(3) str qp(2) a1(3) by (auto simp: user_string_def)
    have next_page: "s + p + 4096 = page_end (s + p)"
      using prems(8) by (simp add: page_end_def)
    have shorter: "length ?ys < length xs" using qp(2) prems(7) by simp
    have bounds: "length ?ys < n - p" "n - p \<le> 4096" "0x80000000 \<le> d + p" "d + p + (n - p) < 2 ^ 64" "(0 :: nat) < 4096"
      "s + p + 4096 = page_end (s + p)"
      using qp(2,3) prems(3-7) next_page by simp_all
    obtain a' m' where IH: "copy_string_loop (Some a1) ?m (word_of_nat (d + p)) (word_of_nat (s + p)) (word_of_nat (n - p)) (word_of_nat 4096)
          = Some (Some a', m', True)" "mm_inv a'" "mmap_list a' = mmap_list a1" "cstr m' (d + p) ?ys"
        "\<forall>x. x < d + p \<or> d + p + (n - p) \<le> x \<longrightarrow> m' x = ?m x"
      using less.hyps [OF shorter a1(2) us bounds] by blast
    have "block m' d p = take p xs"
    proof -
      have "block m' d p = block m s p"
      proof (rule nth_equalityI)
        fix i assume "i < length (block m' d p)"
        then have i: "i < p" by simp
        then show "block m' d p ! i = block m s p ! i"
          using IH(5) memcpy_forward [of d s p i m] low qp(1) prems(5) by simp
      qed simp
      then show ?thesis using split(1) by simp
    qed
    then have "cstr m' d xs" using cstr_append [of m' d "take p xs" ?ys] split(2) IH(4) qp(2) by simp
    moreover have "m' x = m x" if "x < d \<or> d + n \<le> x" for x
      using that IH(5) qp(3) memcpy_frame [of x d p m s] by auto
    ultimately show ?thesis using run IH(1-3) a1(3) by auto
  qed
qed

lemma copy_string_run:
  assumes "mm_inv a" and "user_string a m s xs" and "length xs < n" "n \<le> 4096" and "0x80000000 \<le> d" "d + n < 2 ^ 64"
  shows "\<exists>a' m'. copy_string (Some a) m (word_of_nat d) (word_of_nat s) (word_of_nat n) = Some (Some a', m', True)
    \<and> mm_inv a' \<and> mmap_list a' = mmap_list a \<and> cstr m' d xs \<and> (\<forall>x. x < d \<or> d + n \<le> x \<longrightarrow> m' x = m x)"
proof -
  have s: "s + 4096 < 2 ^ 32"
    using assms(2) page_end_bounds [of "s + length xs"] by (simp add: user_string_def)
  have "ROUNDDOWN (word_of_nat s + PGSIZE) PGSIZE - word_of_nat s = (word_of_nat (page_end s - s) :: u64)"
  proof -
    have "word_of_nat s + PGSIZE = (word_of_nat (s + 4096) :: u64)" by simp
    moreover have "unat (word_of_nat (s + 4096) :: u64) = s + 4096" using s by (simp only: unat_of_nat) simp
    ultimately have "unat (word_of_nat s + PGSIZE :: u64) = s + 4096" by simp
    then have "(word_of_nat s + PGSIZE) mod PGSIZE = (word_of_nat ((s + 4096) mod 4096) :: u64)"
      by (simp add: word_unat_eq_iff unat_mod_distrib unat_of_nat)
    moreover have "page_end s = s + 4096 - (s + 4096) mod 4096" unfolding page_end_def by (simp add: minus_mod_eq_div_mult [symmetric])
    ultimately show ?thesis using page_end_bounds [of s] by (simp add: ROUNDDOWN_def of_nat_diff)
  qed
  then show ?thesis
    using copy_string_loop_run [OF assms, of "page_end s - s"] page_end_bounds [of s] by (simp add: copy_string_def)
qed

subsection \<open>From one address space to the next\<close>

definition buffers_ok :: "nat list \<Rightarrow> bool" where
  "buffers_ok bs \<longleftrightarrow> (\<forall>b \<in> set bs. 0x80000000 \<le> b \<and> b + 4096 < 2 ^ 64) \<and> sorted_wrt (\<lambda>b c. b + 4096 \<le> c \<or> c + 4096 \<le> b) bs"

definition outside :: "nat list \<Rightarrow> nat \<Rightarrow> bool" where
  "outside bs x \<longleftrightarrow> (\<forall>b \<in> set bs. x < b \<or> b + 4096 \<le> x)"

text \<open>The arguments as the process has them: an array of pointers to strings.\<close>

definition user_args :: "mm \<Rightarrow> memory \<Rightarrow> nat \<Rightarrow> char list list \<Rightarrow> bool" where
  "user_args mm m argv args \<longleftrightarrow>
     (\<forall>j < length args. user_string mm m (peek m (argv + 8 * j) 8) (args ! j) \<and> length (args ! j) \<le> EXEC_MAX_ARG_LEN)"

lemma user_string_frame:
  "user_string a m s xs \<Longrightarrow> (\<And>x. x < 0x80000000 \<Longrightarrow> m' x = m x) \<Longrightarrow> mmap_list a' = mmap_list a \<Longrightarrow> user_string a' m' s xs"
  using page_end_bounds [of "s + length xs"] cstr_frame [of s xs m' m] by (auto simp: user_string_def)

lemma user_args_tail:
  assumes "user_args a m argv (x # xs)" and "argv + 8 * (length xs + 1) \<le> 0x80000000"
    and "\<And>y. y < 0x80000000 \<Longrightarrow> m' y = m y" and "mmap_list a' = mmap_list a"
  shows "user_args a' m' (argv + 8) xs"
  unfolding user_args_def
proof (intro allI impI)
  fix j assume j: "j < length xs"
  have "peek m' (argv + 8 + 8 * j) 8 = peek m (argv + 8 * Suc j) 8"
    by (rule peek_shift) (use assms(2,3) j in \<open>auto simp: add.assoc\<close>)
  then show "user_string a' m' (peek m' (argv + 8 + 8 * j) 8) (xs ! j) \<and> length (xs ! j) \<le> EXEC_MAX_ARG_LEN"
    using assms(1) j user_string_frame [OF _ assms(3,4)] by (auto simp: user_args_def dest: spec [of _ "Suc j"])
qed

lemma copy_args_run:
  assumes "mm_inv a" and "user_args a m (argv + 8 * length kargv) args" and "length bs = length args" and "buffers_ok bs"
    and "argv + 8 * (length kargv + length bs) \<le> 0x80000000"
  shows "\<exists>a' m'. copy_args (Some a) m argv (map Some bs) kargv = Some (Some a', m', 0, kargv @ bs, [])
    \<and> mm_inv a' \<and> mmap_list a' = mmap_list a \<and> list_all2 (cstr m') bs args \<and> (\<forall>x. outside bs x \<longrightarrow> m' x = m x)"
  using assms
proof (induction bs arbitrary: a m kargv args)
  case (Cons b bs)
  then obtain x xs where args: "args = x # xs" by (cases args) auto
  let ?s = "peek m (argv + 8 * length kargv) 8"
  have arg: "user_string a m ?s x" "length x \<le> 4095" using Cons.prems(2) args by (auto simp: user_args_def dest: spec [of _ 0])
  have b: "0x80000000 \<le> b" "b + 4096 < 2 ^ 64" using Cons.prems(4) by (simp_all add: buffers_ok_def)
  obtain a1 m1 where c: "copy_string (Some a) m (word_of_nat b) (word_of_nat ?s) (word_of_nat 4096) = Some (Some a1, m1, True)"
    "mm_inv a1" "mmap_list a1 = mmap_list a" "cstr m1 b x" "\<forall>y. y < b \<or> b + 4096 \<le> y \<longrightarrow> m1 y = m y"
    using copy_string_run [OF Cons.prems(1) arg(1), of 4096 b] arg(2) b by auto
  have run: "copy_args (Some a) m argv (map Some (b # bs)) kargv = copy_args (Some a1) m1 argv (map Some bs) (kargv @ [b])"
    using c(1) by simp
  have "user_args a1 m1 (argv + 8 * length (kargv @ [b])) xs"
    using user_args_tail [of a m "argv + 8 * length kargv" x xs m1 a1] Cons.prems(2,3,5) args c(3,5) b(1) by (auto simp: ac_simps)
  moreover have "buffers_ok bs" using Cons.prems(4) by (simp add: buffers_ok_def)
  ultimately obtain a' m' where IH: "copy_args (Some a1) m1 argv (map Some bs) (kargv @ [b]) = Some (Some a', m', 0, (kargv @ [b]) @ bs, [])"
    "mm_inv a'" "mmap_list a' = mmap_list a1" "list_all2 (cstr m') bs xs" "\<forall>y. outside bs y \<longrightarrow> m' y = m1 y"
    using Cons.IH [of a1 m1 "kargv @ [b]" xs] c(2) Cons.prems(3,5) args by auto
  have "cstr m' b x = cstr m1 b x"
  proof (rule cstr_frame)
    fix i assume i: "b \<le> i" "i \<le> b + length x"
    have "i < c \<or> c + 4096 \<le> i" if "c \<in> set bs" for c
    proof -
      have "b + 4096 \<le> c \<or> c + 4096 \<le> b" using Cons.prems(4) that by (simp add: buffers_ok_def)
      then show ?thesis using i arg(2) by linarith
    qed
    then show "m' i = m1 i" using IH(5) by (simp add: outside_def)
  qed
  then have "list_all2 (cstr m') (b # bs) args" using IH(4) c(4) args by simp
  moreover have "m' y = m y" if "outside (b # bs) y" for y using that IH(5) c(5) by (auto simp: outside_def)
  ultimately show ?case using run IH(1-3) c(3) by auto
qed simp

text \<open>What the new program finds above its stack pointer: the number of arguments, the array of pointers, and the strings.\<close>

definition program_args :: "memory \<Rightarrow> nat \<Rightarrow> char list list \<Rightarrow> bool" where
  "program_args m sp args \<longleftrightarrow> peek m sp 4 = length args
     \<and> (\<forall>j < length args. let p = peek m (sp + 4 + 8 * j) 8 in
          sp + 4 + 8 * length args \<le> p \<and> p + length (args ! j) < USTACKTOP \<and> cstr m p (args ! j))"

lemma arg_offset_bound: "\<forall>a \<in> set args. length a \<le> n \<Longrightarrow> arg_offset args (length args) \<le> length args * (n + 1)"
  by (induction args) auto

lemma exec_stack_run:
  assumes "kernel_args m bs args" and "length args \<le> EXEC_MAX_ARG_NUM"
  shows "\<exists>m' sp. exec_stack m bs = Some (m', sp) \<and> program_args m' sp args
    \<and> USTACKTOP \<le> sp + 33 * 4096 + 8 \<and> sp mod 8 = 4 \<and> (\<forall>x. x < sp \<or> USTACKTOP \<le> x \<longrightarrow> m' x = m x)"
proof -
  have len: "length bs = length args" and bound: "\<forall>a \<in> set args. length a \<le> EXEC_MAX_ARG_LEN"
    using assms(1) by (auto simp: kernel_args_def list_all2_conv_all_nth in_set_conv_nth)
  let ?sum = "arg_offset args (length args)"
  have sum: "?sum \<le> 32 * 4096" using arg_offset_bound [OF bound] assms(2) by simp
  have total: "foldl (add_size m) 0 bs = ?sum" using argv_size_sum [OF assms(1), of 0] sum by simp
  define top where "top = USTACKTOP - (?sum div 8 + 1) * 8"
  define ua where "ua = top - length args * 8"
  have room: "(?sum div 8 + 1) * 8 \<le> 32 * 4096 + 8" "?sum < (?sum div 8 + 1) * 8" using sum by simp_all
  then have top: "top + ?sum < USTACKTOP" "USTACKTOP \<le> top + 32 * 4096 + 8" "top mod 8 = 0"
    unfolding top_def using assms(2) by (simp_all add: mod_diff_eq)
  have ua: "ua + 8 * length args = top" "4 \<le> ua" using top(2) assms(2) by (simp_all add: ua_def)
  obtain m1 where m1: "put_args m top ua 0 0 bs = Some m1"
    "\<forall>j < length args. peek m1 (ua + 8 * j) 8 = top + arg_offset args j \<and> cstr m1 (top + arg_offset args j) (args ! j)"
    "\<forall>x. x < ua \<or> top + ?sum \<le> x \<longrightarrow> m1 x = m x"
    using put_args_run [OF assms(1), of top 0 ua 0] top(1) ua(1) len by auto
  let ?sp = "ua - 4"
  define m' where "m' = poke m1 ?sp (le_bytes 4 (length args))"
  have run: "exec_stack m bs = Some (m', ?sp)"
    using m1(1) by (simp add: exec_stack_def total len Let_def m'_def top_def ua_def)
  have above: "m' x = m1 x" if "x < ?sp \<or> ua \<le> x" for x using that ua(2) by (auto simp: m'_def poke_def)
  have "peek m' ?sp 4 = length args" unfolding m'_def by (rule peek_poke) (use assms(2) in simp)
  moreover have "peek m' (?sp + 4 + 8 * j) 8 = top + arg_offset args j \<and> cstr m' (top + arg_offset args j) (args ! j)
      \<and> top + arg_offset args j + length (args ! j) < USTACKTOP" if j: "j < length args" for j
  proof -
    have "peek m' (?sp + 4 + 8 * j) 8 = peek m1 (ua + 8 * j) 8"
      by (rule peek_shift) (use above ua(2) in \<open>simp add: add.assoc\<close>)
    moreover have "cstr m' (top + arg_offset args j) (args ! j) = cstr m1 (top + arg_offset args j) (args ! j)"
      by (rule cstr_frame) (use above ua(1) in auto)
    ultimately show ?thesis using m1(2) j arg_offset_less [OF j] top(1) by simp
  qed
  ultimately have "program_args m' ?sp args" using ua by (simp add: program_args_def Let_def)
  moreover have "?sp mod 8 = 4"
  proof -
    obtain k where "top = 8 * k" using top(3) by auto
    then have "ua = 8 * (k - length args)" using ua(1) by simp
    then show ?thesis using ua(2) by (cases "k - length args") auto
  qed
  moreover have "USTACKTOP \<le> ?sp + 33 * 4096 + 8" using top(2) ua assms(2) by simp
  moreover have "m' x = m x" if "x < ?sp \<or> USTACKTOP \<le> x" for x
    using that above [of x] m1(3) top(1) ua by auto
  ultimately show ?thesis using run by blast
qed

text \<open>
  C38. The arguments of a new program. \<open>copy_kargv\<close> of \<open>argc\<close> strings the process may read returns zero with a buffer for each; whatever happens to the memory
  outside these buffers while the address space is replaced, the stack of the new program then holds the number of arguments, their array
  and the terminated strings, within 34 pages of the top of the stack, and nothing but the stack has changed.
  But the pointer to them is only in \<open>sp\<close>: the registers \<open>a0\<close> and \<open>a1\<close>, in which \<open>umain\<close> takes \<open>argc\<close> and \<open>argv\<close>, are zero.
\<close>

theorem exec_arguments:
  assumes "mm_inv a" and "args \<noteq> []" and "length args \<le> EXEC_MAX_ARG_NUM" and "user_args a m argv args"
    and "0x200000 \<le> argv" and "argv + 8 * length args \<le> 0x80000000"
    and "\<forall>c. argv \<le> unat c \<and> unat c < argv + 8 * length args \<longrightarrow> accessible (mmap_list a) False c"
    and "length bs = length args" and "buffers_ok bs"
  shows "\<exists>a' m1. copy_kargv (Some a) m (length args) (word_of_nat argv) (map Some bs) = Some (Some a', m1, 0, bs, [])
    \<and> mmap_list a' = mmap_list a \<and> (\<forall>x. outside bs x \<longrightarrow> m1 x = m x)
    \<and> (\<forall>m2. (\<forall>x. \<not> outside bs x \<longrightarrow> m2 x = m1 x) \<longrightarrow>
        (\<exists>m3 sp. exec_stack m2 bs = Some (m3, sp) \<and> program_args m3 sp args \<and> USTACKTOP \<le> sp + 34 * 4096
          \<and> (\<forall>x. x < sp \<or> USTACKTOP \<le> x \<longrightarrow> m3 x = m2 x)
          \<and> tf_gpr (exec_trapframe tf sp e_entry) 2 = word_of_nat sp
          \<and> tf_gpr (exec_trapframe tf sp e_entry) 10 = 0 \<and> tf_gpr (exec_trapframe tf sp e_entry) 11 = 0))"
proof -
  obtain a1 where a1: "user_mem_check (Some a) (word_of_nat argv) (word_of_nat (8 * length args)) False = Some (Some a1, True)"
    "mm_inv a1" "mmap_list a1 = mmap_list a"
    using check_readable [OF assms(1,5) _ assms(6,7)] assms(2) by auto
  have "user_args a1 m (argv + 8 * length []) args"
    using assms(4) a1(3) by (simp add: user_args_def user_string_def)
  then obtain a' m1 where c: "copy_args (Some a1) m argv (map Some bs) [] = Some (Some a', m1, 0, bs, [])"
    "mmap_list a' = mmap_list a" "list_all2 (cstr m1) bs args" "\<forall>x. outside bs x \<longrightarrow> m1 x = m x"
    using copy_args_run [OF a1(2) _ assms(8,9), of m argv "[]"] assms(6,8) a1(3) by auto
  have "unat (word_of_nat argv :: u64) = argv" using assms(6) by (simp add: unat_of_nat)
  then have run: "copy_kargv (Some a) m (length args) (word_of_nat argv) (map Some bs) = Some (Some a', m1, 0, bs, [])"
    using a1(1) c(1) assms(8) by (simp add: copy_kargv_def)
  have small: "length (args ! j) \<le> EXEC_MAX_ARG_LEN" if "j < length args" for j using assms(4) that by (simp add: user_args_def)
  have args: "kernel_args m2 bs args" if m2: "\<forall>x. \<not> outside bs x \<longrightarrow> m2 x = m1 x" for m2
    unfolding kernel_args_def list_all2_conv_all_nth
  proof (intro conjI allI impI)
    fix j assume j: "j < length bs"
    have b: "bs ! j \<in> set bs" using j by simp
    have "cstr m2 (bs ! j) (args ! j) = cstr m1 (bs ! j) (args ! j)"
    proof (rule cstr_frame)
      fix i assume i: "bs ! j \<le> i" "i \<le> bs ! j + length (args ! j)"
      then have "\<not> (i < bs ! j \<or> bs ! j + 4096 \<le> i)" using small [of j] j assms(8) by simp
      then have "\<not> outside bs i" using b by (auto simp: outside_def)
      then show "m2 i = m1 i" using m2 by blast
    qed
    then show "cstr m2 (bs ! j) (args ! j)" using c(3) j by (simp add: list_all2_nthD)
    show "length (args ! j) \<le> EXEC_MAX_ARG_LEN" using small j assms(8) by simp
    show "USTACKTOP \<le> bs ! j" using assms(9) b by (simp add: buffers_ok_def)
  qed (simp add: assms(8))
  have stack: "\<exists>m3 sp. exec_stack m2 bs = Some (m3, sp) \<and> program_args m3 sp args \<and> USTACKTOP \<le> sp + 34 * 4096
      \<and> (\<forall>x. x < sp \<or> USTACKTOP \<le> x \<longrightarrow> m3 x = m2 x)" if "\<forall>x. \<not> outside bs x \<longrightarrow> m2 x = m1 x" for m2
    using exec_stack_run [OF args [OF that] assms(3)] by fastforce
  show ?thesis
    using run c(2,4) stack by (auto simp: exec_trapframe_def)
qed

text \<open>Two arguments in the data of a process: the array of pointers, and the strings behind it.\<close>

definition demo_exec :: memory where
  "demo_exec = poke (\<lambda>_. NUL) 0x801000 (le_bytes 8 0x801010 @ le_bytes 8 0x801013 @ ''sh'' @ [NUL] @ ''/test.sh'')"

lemma demo_user_args: "user_args demo_mm demo_exec 0x801000 [''sh'', ''/test.sh'']"
proof -
  have acc: "accessible (mmap_list demo_mm) False c" if "0x800000 \<le> unat c" "unat c < 0x802000" for c
    using that by (simp add: accessible_def demo_mm_def covers_def permits_def word_le_nat_alt word_less_nat_alt)
  have p: "peek demo_exec 0x801000 8 = 0x801010" "peek demo_exec 0x801008 8 = 0x801013"
    by (simp_all add: demo_exec_def peek_def poke_def nth_append le_bytes_def lessThan_nat_numeral)
  have c: "cstr demo_exec 0x801010 ''sh''" "cstr demo_exec 0x801013 ''/test.sh''"
    by (simp_all add: demo_exec_def poke_def nth_append)
  have e: "page_end (0x801010 + length ''sh'') = 0x802000" "page_end (0x801013 + length ''/test.sh'') = 0x802000"
    by (simp_all add: page_end_def)
  have "user_string demo_mm demo_exec 0x801010 ''sh''" "user_string demo_mm demo_exec 0x801013 ''/test.sh''"
    unfolding user_string_def e using c acc by auto
  then show ?thesis using p by (simp add: user_args_def less_Suc_eq)
qed

theorem exec_arguments_witness:
  "\<exists>a' m1 m3 sp. copy_kargv (Some demo_mm) demo_exec 2 0x801000 [Some 0xC0000000, Some 0xC0002000]
        = Some (Some a', m1, 0, [0xC0000000, 0xC0002000], [])
    \<and> exec_stack m1 [0xC0000000, 0xC0002000] = Some (m3, sp) \<and> cstr m3 (peek m3 (sp + 4 + 8) 8) ''/test.sh''
    \<and> tf_gpr (exec_trapframe \<lparr>tf_gpr = \<lambda>_. 7, tf_status = 0, tf_epc = 0, tf_tval = 0, tf_cause = 0\<rparr> sp 0x800020) 10 = 0"
proof -
  have acc: "\<forall>c. 0x801000 \<le> unat c \<and> unat c < 0x801000 + 8 * length [''sh'', ''/test.sh''] \<longrightarrow> accessible (mmap_list demo_mm) False c"
    by (simp add: accessible_def demo_mm_def covers_def permits_def word_le_nat_alt word_less_nat_alt)
  have h: "[''sh'', ''/test.sh''] \<noteq> []" "length [''sh'', ''/test.sh''] \<le> 32" "(0x200000 :: nat) \<le> 0x801000"
    "0x801000 + 8 * length [''sh'', ''/test.sh''] \<le> 0x80000000"
    "length [0xC0000000, 0xC0002000 :: nat] = length [''sh'', ''/test.sh'']" "buffers_ok [0xC0000000, 0xC0002000]"
    by (simp_all add: buffers_ok_def)
  from exec_arguments [OF demo_mm_inv h(1,2) demo_user_args h(3,4) acc h(5,6),
      of "\<lparr>tf_gpr = \<lambda>_. 7, tf_status = 0, tf_epc = 0, tf_tval = 0, tf_cause = 0\<rparr>" "0x800020"]
  obtain a' m1 where c: "copy_kargv (Some demo_mm) demo_exec (length [''sh'', ''/test.sh'']) (word_of_nat 0x801000) (map Some [0xC0000000, 0xC0002000])
        = Some (Some a', m1, 0, [0xC0000000, 0xC0002000], [])"
    and "\<exists>m3 sp. exec_stack m1 [0xC0000000, 0xC0002000] = Some (m3, sp) \<and> program_args m3 sp [''sh'', ''/test.sh'']
      \<and> tf_gpr (exec_trapframe \<lparr>tf_gpr = \<lambda>_. 7, tf_status = 0, tf_epc = 0, tf_tval = 0, tf_cause = 0\<rparr> sp 0x800020) 10 = 0"
    by blast
  then obtain m3 sp where "exec_stack m1 [0xC0000000, 0xC0002000] = Some (m3, sp)" and args: "program_args m3 sp [''sh'', ''/test.sh'']"
      and "tf_gpr (exec_trapframe \<lparr>tf_gpr = \<lambda>_. 7, tf_status = 0, tf_epc = 0, tf_tval = 0, tf_cause = 0\<rparr> sp 0x800020) 10 = 0"
    by blast
  moreover have "copy_kargv (Some demo_mm) demo_exec 2 0x801000 [Some 0xC0000000, Some 0xC0002000]
        = Some (Some a', m1, 0, [0xC0000000, 0xC0002000], [])"
    using c by (simp add: numeral_2_eq_2)
  moreover from args have "cstr m3 (peek m3 (sp + 4 + 8) 8) ''/test.sh''"
    unfolding program_args_def Let_def by (auto dest: spec [of _ 1])
  ultimately show ?thesis by blast
qed

end
