(* ===== verification/Sysfile_Spec.thy ===== *)
theory Sysfile_Spec
  imports Sysfile
begin

section \<open>System calls on files: properties\<close>

text \<open>
  A read from the system call down to the disk: what arrives in the memory of the process, and what happens to the file when nothing can arrive.
\<close>

lemma set_mem_simps [simp]:
  "filesps (set_mem m st) = filesps st" "inodes (set_mem m st) = inodes st" "cur_filesp (set_mem m st) = cur_filesp st"
  "mem_of (set_mem m st) = m" "file_at (set_mem m st) p i = file_at st p i"
  by (simp_all add: set_mem_def file_at_def)

lemma file_testfd_open:
  assumes "table_ok (filesps st p)" and "p = cur_filesp st" and "0 < files_count (filesps st p)" and "i < 72"
    and "f_status (file_at st p i) = FD_OPENED" and "f_readable (file_at st p i)"
  shows "file_testfd st (int i) True False = Some True"
  using fd2file_open [OF assms(1-5)] assms(6) by (simp add: file_testfd_def)


text \<open>The check of the buffer of the process.\<close>

lemma copy_to_user_cases:
  assumes "mm_inv a" and "len < 2 ^ 64" and "b < 2 ^ 64"
  shows "\<exists>a'. mm_inv a' \<and> mmap_list a' = mmap_list a
    \<and> copy_to_user (Some a) m base (word_of_nat b) (word_of_nat len) =
        Some (if USER_ACCESS base (base + word_of_nat len)
                 \<and> (\<forall>c. base \<le> c \<and> c < base + word_of_nat len \<longrightarrow> accessible (mmap_list a) True c)
              then (Some a', memcpy m (unat base) b len, True) else (Some a', m, False))"
proof -
  obtain a' r where r: "user_mem_check (Some a) base (word_of_nat len) True = Some (Some a', r)" "mm_inv a'" "mmap_list a' = mmap_list a"
    "r \<longleftrightarrow> USER_ACCESS base (base + word_of_nat len) \<and> (\<forall>c. base \<le> c \<and> c < base + word_of_nat len \<longrightarrow> accessible (mmap_list a) True c)"
    using user_mem_check_exact [OF assms(1)] by blast
  have "unat (word_of_nat b :: u64) = b" "unat (word_of_nat len :: u64) = len" using assms(2,3) by (simp_all add: unsigned_of_nat take_bit_nat_eq_self)
  then show ?thesis using r by (intro exI [of _ a']) (simp add: copy_to_user_def)
qed

text \<open>The first round of a read that a single round can serve.\<close>

lemma read_round_run:
  assumes "table_ok (filesps st p)" and "p = cur_filesp st" and "0 < files_count (filesps st p)" and "i < 72"
    and "f_status (file_at st p i) = FD_OPENED" and "f_readable (file_at st p i)" and "f_node (file_at st p i) = Some n"
    and "f_pos (file_at st p i) = int pos" and "node_ok (inodes st n)" and "in_ops (inodes st n) = Sfs_Fileops"
    and "x = in_info (inodes st n)" and "fs_inv (fs st)" and "file_ok (fs st) (din x)" and "din_type (din x) \<noteq> SFS_TYPE_DIR"
    and "0 < len" and "len \<le> 4096" and "pos + len \<le> unat (din_size (din x))"
    and "no_whole_block pos len" and "user_buf (fs st) b len" and "b < 2 ^ 64" and "mm_inv a"
  shows "\<exists>st1 a'. (\<forall>j < len. mem_of st1 (b + j) = contents (fs st) (din x) (pos + j)) \<and> inodes st1 = inodes st
    \<and> file_at st1 p i = (file_at st p i)\<lparr>f_pos := int (pos + len)\<rparr> \<and> (\<forall>j. j \<noteq> i \<longrightarrow> file_at st1 p j = file_at st p j)
    \<and> mm_inv a' \<and> mmap_list a' = mmap_list a
    \<and> read_round sleeps st (Some a) (int i) base len 0 b =
        Some (if USER_ACCESS base (base + word_of_nat len)
                 \<and> (\<forall>c. base \<le> c \<and> c < base + word_of_nat len \<longrightarrow> accessible (mmap_list a) True c)
              then (set_mem (memcpy (mem_of st1) (unat base) b len) st1, Some a', base + word_of_nat len, 0, len, 0, False)
              else (st1, Some a', base, len, 0, - E_INVAL, True))"
proof -
  note e = open_entry [OF assms(1,4,5)]
  have k: "len = min len (unat (din_size (din x)) - pos)" "len < 2 ^ 32" "pos < unat (din_size (din x))" using assms(15-17) by simp_all
  obtain s' where r: "file_read sleeps st (int i) b len = Some (upd_file p i (\<lambda>f. f\<lparr>f_pos := int (pos + len)\<rparr>) (st\<lparr>fs := s'\<rparr>), 0, len)"
    "fetched (fs st) (din x) b pos len s'"
    using fd_read_run [OF assms(1-15) k(2,3,1) assms(18,19)] by blast
  define st1 where "st1 = upd_file p i (\<lambda>f. f\<lparr>f_pos := int (pos + len)\<rparr>) (st\<lparr>fs := s'\<rparr>)"
  have self: "set_mem (mem_of st1) st1 = st1" by (simp add: set_mem_def)
  have r1: "file_read sleeps st (int i) b len = Some (st1, 0, len)" unfolding st1_def by (rule r(1))
  have chunk: "(if 4096 > len then len else 4096) = len" using assms(16) by simp
  obtain a' where c: "mm_inv a'" "mmap_list a' = mmap_list a"
    "copy_to_user (Some a) (mem_of st1) base (word_of_nat b) (word_of_nat len) =
        Some (if USER_ACCESS base (base + word_of_nat len)
                 \<and> (\<forall>c. base \<le> c \<and> c < base + word_of_nat len \<longrightarrow> accessible (mmap_list a) True c)
              then (Some a', memcpy (mem_of st1) (unat base) b len, True) else (Some a', mem_of st1, False))"
    using copy_to_user_cases [OF assms(21) _ assms(20), of len "mem_of st1" base] assms(16) by auto
  have "read_round sleeps st (Some a) (int i) base len 0 b =
        Some (if USER_ACCESS base (base + word_of_nat len)
                 \<and> (\<forall>c. base \<le> c \<and> c < base + word_of_nat len \<longrightarrow> accessible (mmap_list a) True c)
              then (set_mem (memcpy (mem_of st1) (unat base) b len) st1, Some a', base + word_of_nat len, 0, len, 0, False)
              else (st1, Some a', base, len, 0, - E_INVAL, True))"
    using assms(15) self by (simp add: read_round_def chunk r1 c(3))
  moreover have "file_at st1 p i = (file_at st p i)\<lparr>f_pos := int (pos + len)\<rparr>" "\<forall>j. j \<noteq> i \<longrightarrow> file_at st1 p j = file_at st p j"
    using e(4) by (simp_all add: file_at_def st1_def)
  moreover have "\<forall>j < len. mem_of st1 (b + j) = contents (fs st) (din x) (pos + j)" using fetched_bytes [OF r(2) assms(19)] by (simp add: st1_def)
  moreover have "inodes st1 = inodes st" by (simp add: st1_def)
  ultimately show ?thesis using c(1,2) by (intro exI [of _ st1] exI [of _ a'] conjI)
qed

lemma sysfile_read_start:
  assumes "file_testfd st fd True False = Some True" and "0 < len"
    and "read_round (sleeps 0) st mm fd base len 0 b = Some (st', mm', base', len', copied, ret, out)" and "out \<or> len' = 0"
  shows "sysfile_read sleeps st mm fd base len (Some b) = Some (st', mm', if copied \<noteq> 0 then as_int copied else if out then ret else 0)"
proof -
  have "read_loop sleeps 0 st mm fd base len 0 b = Some (st', mm', copied, if out then ret else 0)"
    using assms(2-4) by (subst read_loop.simps) (auto simp: read_loop.simps [of sleeps "Suc 0"])
  then show ?thesis using assms(1,2) by (auto simp: sysfile_read_def)
qed



text \<open>
  Bytes are lost when they cannot be delivered: when some byte of the buffer is not writable for the process, \<open>sysfile_read\<close> returns \<open>E_INVAL\<close>,
  but \<open>file_read\<close> has moved the position behind the bytes already: the next read continues after them.
\<close>

theorem sysfile_read_fault_skips:
  assumes "table_ok (filesps st p)" and "p = cur_filesp st" and "0 < files_count (filesps st p)" and "i < 72"
    and "f_status (file_at st p i) = FD_OPENED" and "f_readable (file_at st p i)" and "f_node (file_at st p i) = Some n"
    and "f_pos (file_at st p i) = int pos" and "node_ok (inodes st n)" and "in_ops (inodes st n) = Sfs_Fileops"
    and "x = in_info (inodes st n)" and "fs_inv (fs st)" and "file_ok (fs st) (din x)" and "din_type (din x) \<noteq> SFS_TYPE_DIR"
    and "0 < len" and "len \<le> 4096" and "pos + len \<le> unat (din_size (din x))"
    and "no_whole_block pos len" and "user_buf (fs st) b len" and "b < 2 ^ 64" and "mm_inv a"
    and "base \<le> c" and "c < base + word_of_nat len" and "\<not> accessible (mmap_list a) True c"
  shows "\<exists>st' a'. sysfile_read sleeps st (Some a) (int i) base len (Some b) = Some (st', Some a', - E_INVAL)
    \<and> f_pos (file_at st' p i) = int (pos + len)"
proof -
  obtain st1 a' where "file_at st1 p i = (file_at st p i)\<lparr>f_pos := int (pos + len)\<rparr>"
    "read_round (sleeps 0) st (Some a) (int i) base len 0 b = Some (st1, Some a', base, len, 0, - E_INVAL, True)"
    using read_round_run [OF assms(1-21), of "sleeps 0" base] assms(22-24) by (auto split: if_splits)
  then show ?thesis
    using sysfile_read_start [where sleeps = sleeps, OF file_testfd_open [OF assms(1-6)] assms(15)] by auto
qed


theorem sysfile_read_fault_skips_witness:
  "\<exists>st' a'. sysfile_read (\<lambda>r. []) demo_kfs (Some demo_mm) 1 0x801000 50 (Some 400000) = Some (st', a', - 3) \<and> f_pos (file_at st' 10 1) = 70"
proof -
  have r: "(0 :: nat) < 50" "(50 :: nat) \<le> 4096" "20 + 50 \<le> unat (din_size (din demo_file))" "(400000 :: nat) < 2 ^ 64"
    "(0x801000 :: u64) \<le> 0x801000" "(0x801000 :: u64) < 0x801000 + word_of_nat 50" "\<not> accessible (mmap_list demo_mm) True 0x801000"
    using demo_read(13) by (simp_all add: accessible_def demo_mm_def covers_def permits_def)
  from sysfile_read_fault_skips [OF demo_table_ok(1) demo_read(1) demo_table_ok(2) demo_read(2-12) r(1-3) demo_read(14,15) r(4) demo_mm_inv r(5-7), of "\<lambda>r. []"]
  show ?thesis by auto
qed

end
