(* ===== verification/Monitor.thy ===== *)
theory Monitor
  imports Cstring
begin

section \<open>Console input and the command monitor: \<open>kern/driver/console.c\<close>, \<open>kern/libs\<close>, \<open>kern/debug/kmonitor.c\<close>\<close>

text \<open>
  Characters come from the firmware: a list of the results of \<open>sbi_console_getchar\<close>, a negative one where nothing has been
  typed yet; the calls find nothing behind its end. They pass through a ring of 512 bytes, a line editor and a
  splitting into words. \<open>printed\<close> are the characters handed to the firmware, the latest first.
\<close>

subsection \<open>The ring\<close>

abbreviation (input) CONSBUFSIZE :: nat where "CONSBUFSIZE \<equiv> 512"

record console_state =
  cons_buf :: "nat \<Rightarrow> char"
  rpos :: nat
  wpos :: nat
  firmware :: "int list"
  printed :: "int list"

definition serial_proc_data :: "console_state \<Rightarrow> int \<times> console_state" where
  "serial_proc_data s =
     (case firmware s of
        [] \<Rightarrow> (- 1, s)
      | c # cs \<Rightarrow> (if c < 0 then - 1 else if c = 127 then 8 else c, s\<lparr>firmware := cs\<rparr>))"

definition cons_put :: "int \<Rightarrow> console_state \<Rightarrow> console_state" where
  "cons_put c s = s\<lparr>cons_buf := (cons_buf s)(wpos s := char_of c), wpos := (if wpos s + 1 = CONSBUFSIZE then 0 else wpos s + 1)\<rparr>"

function cons_intr :: "console_state \<Rightarrow> console_state" where
  "cons_intr s =
     (case serial_proc_data s of (c, s') \<Rightarrow>
        if c \<noteq> - 1 then cons_intr (if c \<noteq> 0 then cons_put c s' else s') else s')"
  by pat_completeness auto
termination
  by (relation "measure (\<lambda>s. length (firmware s))")
    (auto simp: serial_proc_data_def cons_put_def split: list.splits if_splits)

declare cons_intr.simps [simp del]

definition cons_getc :: "console_state \<Rightarrow> int \<times> console_state" where
  "cons_getc s =
     (let s = cons_intr s
      in if rpos s \<noteq> wpos s
         then (of_char (cons_buf s (rpos s)), s\<lparr>rpos := (if rpos s + 1 = CONSBUFSIZE then 0 else rpos s + 1)\<rparr>)
         else (0, s))"

definition cons_putc :: "int \<Rightarrow> console_state \<Rightarrow> console_state" where
  "cons_putc c s = s\<lparr>printed := (if c \<noteq> 8 then [c] else [8, 32, 8]) @ printed s\<rparr>"

text \<open>A text printed by \<open>cprintf\<close>.\<close>

definition cprint :: "char list \<Rightarrow> console_state \<Rightarrow> console_state" where
  "cprint cs s = foldl (\<lambda>s c. cons_putc (of_char c) s) s cs"

partial_function (option) getchar :: "console_state \<Rightarrow> (int \<times> console_state) option" where
  "getchar s = (let (c, s) = cons_getc s in if c = 0 then getchar s else Some (c, s))"

subsection \<open>Lines\<close>

abbreviation (input) BUFSIZE :: nat where "BUFSIZE \<equiv> 1024"

partial_function (option) readline_loop :: "memory \<Rightarrow> nat \<Rightarrow> nat \<Rightarrow> console_state \<Rightarrow> (memory \<times> console_state \<times> nat option) option" where
  "readline_loop m buf i s =
     do { (c, s) \<leftarrow> getchar s;
          if c < 0 then Some (m, s, None)
          else if c \<ge> 32 \<and> i < BUFSIZE - 1 then readline_loop (m(buf + i := char_of c)) buf (i + 1) (cons_putc c s)
          else if c = 8 \<and> i > 0 then readline_loop m buf (i - 1) (cons_putc c s)
          else if c = 10 \<or> c = 13 then Some (m(buf + i := NUL), cons_putc c s, Some buf)
          else readline_loop m buf i s }"

definition readline :: "char list \<Rightarrow> memory \<Rightarrow> nat \<Rightarrow> console_state \<Rightarrow> (memory \<times> console_state \<times> nat option) option" where
  "readline prompt m buf s = readline_loop m buf 0 (cprint prompt s)"

subsection \<open>Words and commands\<close>

definition whitespace :: "char \<Rightarrow> bool" where
  "whitespace c = (c \<in> {CHR '' '', CHR 0x09, CHR 0x0A, CHR 0x0D})"

partial_function (option) clear_blanks :: "memory \<Rightarrow> nat \<Rightarrow> (memory \<times> nat) option" where
  "clear_blanks m buf = (if m buf \<noteq> NUL \<and> whitespace (m buf) then clear_blanks (m(buf := NUL)) (buf + 1) else Some (m, buf))"

partial_function (option) skip_word :: "memory \<Rightarrow> nat \<Rightarrow> nat option" where
  "skip_word m buf = (if m buf \<noteq> NUL \<and> \<not> whitespace (m buf) then skip_word m (buf + 1) else Some buf)"

text \<open>
  The array \<open>argv\<close> has \<open>MAXARGS\<close> entries. The last one is filled with a message about too many arguments, and a further word is written
  behind the array, over the stack of \<open>runcmd\<close>: \<open>None\<close>.
\<close>

abbreviation (input) MAXARGS :: nat where "MAXARGS \<equiv> 16"

partial_function (option) parse :: "memory \<Rightarrow> nat \<Rightarrow> nat list \<Rightarrow> console_state \<Rightarrow> (memory \<times> nat list \<times> console_state) option" where
  "parse m buf argv s =
     do { (m, buf) \<leftarrow> clear_blanks m buf;
          if m buf = NUL then Some (m, argv, s)
          else do { let s = (if length argv = MAXARGS - 1 then cprint (''Too many arguments (max 16).'' @ [CHR 0x0A]) s else s);
                    kassert (length argv < MAXARGS);
                    next_buf \<leftarrow> skip_word m buf;
                    parse m next_buf (argv @ [buf]) s } }"

datatype command = No_Command | Run nat "nat list" | Unknown_Command nat

fun find_command :: "memory \<Rightarrow> nat list \<Rightarrow> nat \<Rightarrow> nat list \<Rightarrow> command option" where
  "find_command m [] i argv = Some (Unknown_Command (hd argv))"
| "find_command m (name # names) i argv =
     do { r \<leftarrow> strcmp m name (hd argv); if r = 0 then Some (Run i (tl argv)) else find_command m names (i + 1) argv }"

definition runcmd :: "nat list \<Rightarrow> memory \<Rightarrow> nat \<Rightarrow> console_state \<Rightarrow> (memory \<times> console_state \<times> command) option" where
  "runcmd names m buf s =
     do { (m, argv, s) \<leftarrow> parse m buf [] s;
          if argv = [] then Some (m, s, No_Command)
          else do {
            c \<leftarrow> find_command m names 0 argv;
            s \<leftarrow> (case c of
                    Unknown_Command a \<Rightarrow> do { n \<leftarrow> strlen m a;
                      Some (cprint (''Unknown command '' @ [CHR 0x27] @ block m a n @ [CHR 0x27, CHR 0x0A]) s) }
                  | _ \<Rightarrow> Some s);
            Some (m, s, c) } }"

text \<open>One round of \<open>kmonitor\<close>.\<close>

definition kmonitor_round :: "nat list \<Rightarrow> memory \<Rightarrow> nat \<Rightarrow> console_state \<Rightarrow> (memory \<times> console_state \<times> command) option" where
  "kmonitor_round names m line s =
     do { (m, s, buf) \<leftarrow> readline ''K> '' m line s;
          case buf of None \<Rightarrow> Some (m, s, No_Command) | Some b \<Rightarrow> runcmd names m b s }"

subsection \<open>The ring is a queue\<close>

definition ring_keys :: "console_state \<Rightarrow> char list" where
  "ring_keys s = map (\<lambda>i. cons_buf s ((rpos s + i) mod 512)) [0..<(wpos s + 512 - rpos s) mod 512]"

definition cons_ok :: "console_state \<Rightarrow> bool" where
  "cons_ok s \<longleftrightarrow> rpos s < 512 \<and> wpos s < 512 \<and> (\<forall>c \<in> set (ring_keys s). c \<noteq> NUL)"

text \<open>What the firmware will deliver.\<close>

definition typed :: "int list \<Rightarrow> char list" where
  "typed cs = map (\<lambda>c. if c = 127 then CHR 0x08 else char_of c) (filter (\<lambda>c. c > 0) cs)"

definition keys_ok :: "int list \<Rightarrow> bool" where
  "keys_ok cs \<longleftrightarrow> (\<forall>c \<in> set cs. c < 256)"

lemma ring_length: "rpos s < 512 \<Longrightarrow> wpos s < 512 \<Longrightarrow> (wpos s + 512 - rpos s) mod 512 = (if rpos s \<le> wpos s then wpos s - rpos s else wpos s + 512 - rpos s)"
  by (auto simp: mod_if)

lemma ring_keys_put:
  assumes "cons_ok s" and "length (ring_keys s) < 511"
  shows "ring_keys (cons_put c s) = ring_keys s @ [char_of c]"
    and "wpos (cons_put c s) < 512" and "rpos (cons_put c s) = rpos s"
proof -
  let ?n = "(wpos s + 512 - rpos s) mod 512"
  have r: "rpos s < 512" "wpos s < 512" using assms(1) by (simp_all add: cons_ok_def)
  have n: "?n < 511" using assms(2) by (simp add: ring_keys_def)
  have w: "(rpos s + ?n) mod 512 = wpos s" using r by (auto simp: ring_length mod_if)
  have n': "(wpos (cons_put c s) + 512 - rpos s) mod 512 = ?n + 1"
    using r n by (auto simp: cons_put_def ring_length mod_if split: if_splits)
  have "(rpos s + i) mod 512 \<noteq> wpos s" if "i < ?n" for i
    using r that n unfolding ring_length [OF r] by (auto simp: mod_if split: if_splits)
  then have "map (\<lambda>i. cons_buf (cons_put c s) ((rpos s + i) mod 512)) [0..<?n] = ring_keys s"
    unfolding ring_keys_def by (intro map_cong) (auto simp: cons_put_def)
  then show "ring_keys (cons_put c s) = ring_keys s @ [char_of c]"
    using n' w by (simp add: ring_keys_def [of "cons_put c s"]) (simp add: cons_put_def)
  show "wpos (cons_put c s) < 512" "rpos (cons_put c s) = rpos s" using r by (auto simp: cons_put_def)
qed

lemma ring_keys_Nil: "cons_ok s \<Longrightarrow> ring_keys s = [] \<longleftrightarrow> rpos s = wpos s"
  by (auto simp: cons_ok_def ring_keys_def ring_length)

lemma ring_keys_take:
  assumes "cons_ok s" and "rpos s \<noteq> wpos s"
  shows "ring_keys s = cons_buf s (rpos s) # ring_keys (s\<lparr>rpos := (if rpos s + 1 = CONSBUFSIZE then 0 else rpos s + 1)\<rparr>)"
proof -
  let ?n = "(wpos s + 512 - rpos s) mod 512" and ?s = "s\<lparr>rpos := (if rpos s + 1 = CONSBUFSIZE then 0 else rpos s + 1)\<rparr>"
  have r: "rpos s < 512" "wpos s < 512" using assms(1) by (simp_all add: cons_ok_def)
  have r': "rpos ?s < 512" "wpos ?s < 512" using r by auto
  have n: "?n = Suc ((wpos ?s + 512 - rpos ?s) mod 512)"
    unfolding ring_length [OF r] ring_length [OF r'] using r assms(2) by auto
  have "(rpos s + Suc i) mod 512 = (rpos ?s + i) mod 512" for i
    by (auto simp: mod_add_left_eq)
  then show ?thesis
    unfolding ring_keys_def n by (simp add: upt_conv_Cons map_Suc_upt [symmetric] r del: upt_Suc)
qed

lemma typed_simps:
  "typed [] = []" "typed (c # cs) = (if c > 0 then [if c = 127 then CHR 0x08 else char_of c] else []) @ typed cs"
  by (simp_all add: typed_def)

lemma char_of_nonzero: "0 < c \<Longrightarrow> c < 256 \<Longrightarrow> (char_of c :: char) \<noteq> NUL" for c :: int
proof
  assume c: "0 < c" "c < 256" "(char_of c :: char) = NUL"
  have "c mod 256 = of_char (char_of c :: char)" by simp
  also have "\<dots> = of_char NUL" by (simp only: c(3))
  finally show False using c(1,2) by simp
qed

lemma of_char_int_0 [simp]: "of_char c = (0 :: int) \<longleftrightarrow> c = NUL"
  using of_char_eq_iff [of c NUL, where ?'a = int] by simp

lemma cons_intr_run:
  assumes "cons_ok s" and "keys_ok (firmware s)" and "length (ring_keys s @ typed (firmware s)) < 512"
  shows "cons_ok (cons_intr s) \<and> keys_ok (firmware (cons_intr s)) \<and> printed (cons_intr s) = printed s
    \<and> ring_keys (cons_intr s) @ typed (firmware (cons_intr s)) = ring_keys s @ typed (firmware s)
    \<and> length (firmware (cons_intr s)) \<le> length (firmware s) - 1"
  using assms
proof (induction s rule: cons_intr.induct)
  case (1 s)
  show ?case
  proof (cases "firmware s")
    case Nil
    then have "cons_intr s = s" by (subst cons_intr.simps) (simp add: serial_proc_data_def)
    then show ?thesis using 1(2-4) Nil by simp
  next
    case (Cons c cs)
    let ?c = "if c < 0 then - 1 else if c = 127 then 8 else c" and ?s = "s\<lparr>firmware := cs\<rparr>"
    have step: "serial_proc_data s = (?c, ?s)" by (simp add: serial_proc_data_def Cons)
    have keys: "keys_ok cs" "c < 256" using 1(3) Cons by (simp_all add: keys_ok_def)
    have same: "ring_keys ?s = ring_keys s" "cons_ok ?s = cons_ok s" by (simp_all add: ring_keys_def cons_ok_def)
    show ?thesis
    proof (cases "c < 0")
      case True
      then have "cons_intr s = ?s" by (subst cons_intr.simps) (simp add: step)
      then show ?thesis using 1(2) keys Cons True same by (simp add: typed_simps)
    next
      case False
      define s1 where "s1 = (if ?c \<noteq> 0 then cons_put ?c ?s else ?s)"
      have run: "cons_intr s = cons_intr s1" using False by (subst cons_intr.simps) (simp add: step s1_def)
      have fw: "firmware s1 = cs" "printed s1 = printed s" by (simp_all add: s1_def cons_put_def)
      have u: "ring_keys s1 @ typed cs = ring_keys s @ typed (firmware s)" "cons_ok s1"
      proof (atomize (full), cases "?c = 0")
        case True
        then show "ring_keys s1 @ typed cs = ring_keys s @ typed (firmware s) \<and> cons_ok s1"
          using Cons same 1(2) by (auto simp: s1_def typed_simps split: if_splits)
      next
        case nz: False
        have "length (ring_keys ?s) < 511" using 1(4) Cons nz False same by (auto simp: typed_simps split: if_splits)
        note p = ring_keys_put [of ?s ?c, unfolded same, OF 1(2) this[unfolded same]]
        have "(char_of ?c :: char) \<noteq> NUL" using False nz keys(2) by (intro char_of_nonzero) (auto split: if_splits)
        moreover have "(char_of ?c :: char) = (if c = 127 then CHR 0x08 else char_of c)" using False by (simp add: char_of_def)
        ultimately show "ring_keys s1 @ typed cs = ring_keys s @ typed (firmware s) \<and> cons_ok s1"
          using p nz False Cons 1(2) by (auto simp: s1_def typed_simps cons_ok_def split: if_splits)
      qed
      have "length (ring_keys s1 @ typed (firmware s1)) < 512" using u(1) 1(4) fw by metis
      moreover have "?c \<noteq> - 1" using False by simp
      ultimately show ?thesis
        using 1(1) [OF step [symmetric], folded s1_def] u fw keys run False Cons by simp linarith
    qed
  qed
qed

lemma getchar_run:
  assumes "cons_ok s" and "keys_ok (firmware s)" and "ring_keys s @ typed (firmware s) = c # cs" and "length cs < 511"
  shows "\<exists>s'. getchar s = Some (of_char c, s') \<and> cons_ok s' \<and> keys_ok (firmware s') \<and> ring_keys s' @ typed (firmware s') = cs
    \<and> printed s' = printed s \<and> c \<noteq> NUL"
  using assms
proof (induction "length (firmware s)" arbitrary: s rule: less_induct)
  case less
  define s1 where "s1 = cons_intr s"
  have i: "cons_ok s1" "keys_ok (firmware s1)" "printed s1 = printed s" "ring_keys s1 @ typed (firmware s1) = c # cs"
    "length (firmware s1) \<le> length (firmware s) - 1"
    using cons_intr_run [of s] less.prems by (simp_all add: s1_def)
  show ?case
  proof (cases "rpos s1 = wpos s1")
    case True
    then have "getchar s = getchar s1" by (subst getchar.simps) (simp add: cons_getc_def s1_def [symmetric])
    moreover have "firmware s \<noteq> []"
    proof
      assume "firmware s = []"
      then have "cons_intr s = s" by (subst cons_intr.simps) (simp add: serial_proc_data_def)
      then show False using True i(1,4) \<open>firmware s = []\<close> ring_keys_Nil [OF i(1)] by (simp add: s1_def typed_simps)
    qed
    then have "length (firmware s1) < length (firmware s)" using i(5) by (cases "firmware s") auto
    ultimately show ?thesis using less.hyps [of s1] i less.prems(4) by simp
  next
    case False
    define s2 where "s2 = s1\<lparr>rpos := (if rpos s1 + 1 = CONSBUFSIZE then 0 else rpos s1 + 1)\<rparr>"
    have u: "ring_keys s1 = cons_buf s1 (rpos s1) # ring_keys s2" unfolding s2_def by (rule ring_keys_take [OF i(1) False])
    then have c: "cons_buf s1 (rpos s1) = c" "ring_keys s2 @ typed (firmware s1) = cs" using i(4) by simp_all
    have nz: "c \<noteq> NUL" using i(1) u c(1) by (simp add: cons_ok_def)
    have "getchar s = Some (of_char c, s2)"
      using False c(1) nz by (subst getchar.simps) (simp add: cons_getc_def s1_def [symmetric] s2_def Let_def)
    moreover have "cons_ok s2" using i(1) u by (auto simp: cons_ok_def s2_def)
    ultimately show ?thesis using c i(2,3) nz by (auto simp: s2_def)
  qed
qed

subsection \<open>The line editor\<close>

text \<open>The line after a key: a backspace takes the last character back, other control characters are ignored.\<close>

definition edit_key :: "char list \<Rightarrow> char \<Rightarrow> char list" where
  "edit_key line c =
     (if (of_char c :: nat) \<ge> 32 \<and> length line < 1023 then line @ [c]
      else if c = CHR 0x08 \<and> line \<noteq> [] then butlast line else line)"

definition newline :: "char \<Rightarrow> bool" where
  "newline c \<longleftrightarrow> c = CHR 0x0A \<or> c = CHR 0x0D"

lemma of_char_int: "(of_char c :: int) = int (of_char c)"
  by (simp add: of_nat_of_char)

lemma of_char_nonneg [simp]: "\<not> (of_char c :: int) < 0"
  unfolding of_char_int by simp

lemma key_codes: "(of_char c :: int) = 8 \<longleftrightarrow> c = CHR 0x08" "(of_char c :: int) = 10 \<longleftrightarrow> c = CHR 0x0A" "(of_char c :: int) = 13 \<longleftrightarrow> c = CHR 0x0D"
  using of_char_eq_iff [of c "CHR 0x08", where ?'a = int] of_char_eq_iff [of c "CHR 0x0A", where ?'a = int]
    of_char_eq_iff [of c "CHR 0x0D", where ?'a = int] by simp_all

lemma cons_putc_same:
  "cons_ok (cons_putc c s) = cons_ok s" "ring_keys (cons_putc c s) = ring_keys s" "firmware (cons_putc c s) = firmware s"
  by (simp_all add: cons_putc_def cons_ok_def ring_keys_def)

lemma cstr_block: "NUL \<notin> set xs \<Longrightarrow> cstr m s xs \<longleftrightarrow> block m s (length xs) = xs \<and> m (s + length xs) = NUL"
  by (induction xs arbitrary: s) (auto simp: block_Suc)

lemma edit_key_ok: "length line \<le> 1023 \<Longrightarrow> NUL \<notin> set line \<Longrightarrow> length (edit_key line c) \<le> 1023 \<and> NUL \<notin> set (edit_key line c)"
  by (auto simp: edit_key_def dest: in_set_butlastD)

lemma readline_loop_run:
  assumes "cons_ok s" and "keys_ok (firmware s)" and "ring_keys s @ typed (firmware s) = ks @ nl # rest"
    and "length ks + length rest < 511" and "\<forall>k \<in> set ks. \<not> newline k" and "newline nl"
    and "block m buf (length line) = line" and "length line \<le> 1023" and "NUL \<notin> set line"
  shows "\<exists>m' s'. readline_loop m buf (length line) s = Some (m', s', Some buf) \<and> cstr m' buf (foldl edit_key line ks)
    \<and> (\<forall>x. x < buf \<or> buf + 1024 \<le> x \<longrightarrow> m' x = m x) \<and> cons_ok s' \<and> keys_ok (firmware s') \<and> ring_keys s' @ typed (firmware s') = rest"
  using assms
proof (induction ks arbitrary: s m line)
  case Nil
  obtain s1 where g: "getchar s = Some (of_char nl, s1)" "cons_ok s1" "keys_ok (firmware s1)" "ring_keys s1 @ typed (firmware s1) = rest"
    using getchar_run [of s nl rest] Nil.prems by auto
  have "\<not> (of_char nl :: int) \<ge> 32" "(of_char nl :: int) \<noteq> 8" "(of_char nl :: int) = 10 \<or> (of_char nl :: int) = 13"
    using Nil.prems(6) by (auto simp: newline_def)
  then have "readline_loop m buf (length line) s = Some (m(buf + length line := NUL), cons_putc (of_char nl) s1, Some buf)"
    using g(1) by (subst readline_loop.simps) simp
  moreover have "cstr (m(buf + length line := NUL)) buf line"
    using Nil.prems(7,9) block_cong [of buf "length line" m "m(buf + length line := NUL)"] by (simp add: cstr_block)
  ultimately show ?case using g(2-4) Nil.prems(8) by (auto simp: cons_putc_same)
next
  case (Cons k ks)
  obtain s1 where g: "getchar s = Some (of_char k, s1)" "cons_ok s1" "keys_ok (firmware s1)" "ring_keys s1 @ typed (firmware s1) = ks @ nl # rest"
    using getchar_run [of s k "ks @ nl # rest"] Cons.prems by auto
  have k: "(of_char k :: int) \<noteq> 10" "(of_char k :: int) \<noteq> 13" using Cons.prems(5) by (auto simp: newline_def key_codes)
  have ge: "(of_char k :: int) \<ge> 32 \<longleftrightarrow> (of_char k :: nat) \<ge> 32" unfolding of_char_int by simp
  define line' where "line' = edit_key line k"
  obtain m1 s2 where st: "readline_loop m buf (length line) s = readline_loop m1 buf (length line') s2"
    "block m1 buf (length line') = line'" "\<forall>x. x < buf \<or> buf + 1024 \<le> x \<longrightarrow> m1 x = m x"
    "cons_ok s2" "firmware s2 = firmware s1" "ring_keys s2 = ring_keys s1"
  proof (cases "(of_char k :: nat) \<ge> 32 \<and> length line < 1023")
    case True
    let ?m = "m(buf + length line := k)"
    have "readline_loop m buf (length line) s = readline_loop ?m buf (length line + 1) (cons_putc (of_char k) s1)"
      using g(1) True ge by (subst readline_loop.simps) simp
    moreover have "block ?m buf (length line + 1) = line @ [k]"
    proof -
      have "block ?m buf (length line) = line" using Cons.prems(7) block_cong [of buf "length line" m ?m] by simp
      then show ?thesis unfolding block_add by (simp add: block_def)
    qed
    ultimately show thesis using that [of ?m "cons_putc (of_char k) s1"] True g(2) by (simp add: line'_def edit_key_def cons_putc_same)
  next
    case no: False
    show thesis
    proof (cases "k = CHR 0x08 \<and> line \<noteq> []")
      case True
      then have "readline_loop m buf (length line) s = readline_loop m buf (length line - 1) (cons_putc (of_char k) s1)"
        using g(1) by (subst readline_loop.simps) simp
      moreover have "block m buf (length line - 1) = butlast line"
      proof -
        have "block m a 1 = [m a]" for a by (simp add: block_def)
        then have "line = block m buf (length line - 1) @ [m (buf + (length line - 1))]"
          using Cons.prems(7) True block_add [of m buf "length line - 1" 1] by simp
        then show ?thesis by (metis butlast_snoc)
      qed
      ultimately show thesis using that [of m "cons_putc (of_char k) s1"] True g(2) by (simp add: line'_def edit_key_def cons_putc_same)
    next
      case False
      have "readline_loop m buf (length line) s = readline_loop m buf (length line) s1"
        using g(1) no False k ge by (subst readline_loop.simps) (auto simp: key_codes)
      then show thesis using that [of m s1] no False Cons.prems(7) g(2) by (auto simp: line'_def edit_key_def)
    qed
  qed
  obtain m' s' where "readline_loop m1 buf (length line') s2 = Some (m', s', Some buf)" "cstr m' buf (foldl edit_key line' ks)"
    "\<forall>x. x < buf \<or> buf + 1024 \<le> x \<longrightarrow> m' x = m1 x" "cons_ok s'" "keys_ok (firmware s')" "ring_keys s' @ typed (firmware s') = rest"
    using Cons.IH [of s2 m1 line'] st g(3,4) Cons.prems(4,5,6,8,9) edit_key_ok [of line k] by (auto simp: line'_def)
  then show ?case using st(1,3) by (auto simp: line'_def)
qed

lemma prompt_same:
  "cons_ok (cprint cs s) = cons_ok s" "ring_keys (cprint cs s) = ring_keys s" "firmware (cprint cs s) = firmware s"
  unfolding cprint_def by (induction cs arbitrary: s) (simp_all add: cons_putc_same)

subsection \<open>Words\<close>

function split_words :: "char list \<Rightarrow> char list list" where
  "split_words xs =
     (case dropWhile whitespace xs of
        [] \<Rightarrow> []
      | y # ys \<Rightarrow> takeWhile (\<lambda>c. \<not> whitespace c) (y # ys) # split_words (dropWhile (\<lambda>c. \<not> whitespace c) (y # ys)))"
  by pat_completeness auto
termination
proof (relation "measure length")
  fix xs y ys assume d: "dropWhile whitespace xs = y # ys"
  then have "\<not> whitespace y" by (metis hd_dropWhile list.distinct(1) list.sel(1))
  then have "length (dropWhile (\<lambda>c. \<not> whitespace c) (y # ys)) \<le> length ys" by (simp add: length_dropWhile_le)
  moreover have "length (y # ys) \<le> length xs" using length_dropWhile_le [of whitespace xs] d by simp
  ultimately show "(dropWhile (\<lambda>c. \<not> whitespace c) (y # ys), xs) \<in> measure length" by simp
qed simp

declare split_words.simps [simp del]

lemma cstr_drop: "cstr m s xs \<Longrightarrow> k \<le> length xs \<Longrightarrow> cstr m (s + k) (drop k xs)"
proof (induction k arbitrary: s xs)
  case (Suc k)
  then obtain x ys where "xs = x # ys" by (cases xs) auto
  then show ?case using Suc.IH [of "s + 1" ys] Suc.prems by simp
qed simp

lemma cstr_no_NUL: "cstr m s xs \<Longrightarrow> NUL \<notin> set xs"
  by (induction xs arbitrary: s) auto

lemma clear_blanks_run:
  "cstr m s xs \<Longrightarrow> \<exists>m'. clear_blanks m s = Some (m', s + length (takeWhile whitespace xs))
     \<and> (\<forall>x. m' x = (if s \<le> x \<and> x < s + length (takeWhile whitespace xs) then NUL else m x))"
proof (induction xs arbitrary: m s)
  case Nil
  then show ?case by (subst clear_blanks.simps) auto
next
  case (Cons x xs)
  show ?case
  proof (cases "whitespace x")
    case True
    have "cstr (m(s := NUL)) (s + 1) xs = cstr m (s + 1) xs" by (rule cstr_frame) auto
    then obtain m' where m': "clear_blanks (m(s := NUL)) (s + 1) = Some (m', s + 1 + length (takeWhile whitespace xs))"
      "\<forall>y. m' y = (if s + 1 \<le> y \<and> y < s + 1 + length (takeWhile whitespace xs) then NUL else (m(s := NUL)) y)"
      using Cons.IH [of "m(s := NUL)" "s + 1"] Cons.prems by (auto simp del: fun_upd_apply)
    have "clear_blanks m s = clear_blanks (m(s := NUL)) (s + 1)"
      using True Cons.prems by (subst clear_blanks.simps) simp
    then show ?thesis using m' True by auto
  next
    case False
    then show ?thesis using Cons.prems by (subst clear_blanks.simps) auto
  qed
qed

lemma skip_word_run: "cstr m s xs \<Longrightarrow> skip_word m s = Some (s + length (takeWhile (\<lambda>c. \<not> whitespace c) xs))"
proof (induction xs arbitrary: s)
  case Nil
  then show ?case by (subst skip_word.simps) simp
next
  case (Cons x xs)
  then show ?case by (subst skip_word.simps) auto
qed

text \<open>What the console takes no notice of: printing changes neither the ring nor what the firmware will deliver.\<close>

definition same_input :: "console_state \<Rightarrow> console_state \<Rightarrow> bool" where
  "same_input s t = (cons_ok t = cons_ok s \<and> ring_keys t = ring_keys s \<and> firmware t = firmware s)"

lemma same_input_cprint [simp]: "same_input s s" "same_input (cprint cs s) t = same_input s t" "same_input s (cprint cs t) = same_input s t"
  by (auto simp: same_input_def prompt_same)

lemma parse_run:
  "cstr m s xs \<Longrightarrow> length argv + length (split_words xs) \<le> 16 \<Longrightarrow>
    \<exists>m' ps o'. parse m s argv out = Some (m', argv @ ps, o') \<and> same_input out o' \<and> list_all2 (cstr m') ps (split_words xs)
     \<and> (\<forall>x. x < s \<or> s + length xs \<le> x \<longrightarrow> m' x = m x) \<and> (m' s = NUL \<or> xs \<noteq> [] \<and> \<not> whitespace (hd xs))"
proof (induction "length xs" arbitrary: m s xs argv out rule: less_induct)
  case less
  let ?k = "length (takeWhile whitespace xs)" and ?ys = "dropWhile whitespace xs"
  obtain m1 where m1: "clear_blanks m s = Some (m1, s + ?k)" "\<forall>x. m1 x = (if s \<le> x \<and> x < s + ?k then NUL else m x)"
    using clear_blanks_run [OF less.prems(1)] by blast
  have len: "length xs = ?k + length ?ys" by (metis length_append takeWhile_dropWhile_id)
  have "cstr m1 (s + ?k) ?ys = cstr m (s + ?k) ?ys" by (rule cstr_frame) (use m1(2) in auto)
  then have ys: "cstr m1 (s + ?k) ?ys" using cstr_drop [OF less.prems(1), of ?k] len unfolding dropWhile_eq_drop [symmetric] by simp
  have start: "?k > 0 \<Longrightarrow> m1 s = NUL" using m1(2) by simp
  show ?case
  proof (cases ?ys)
    case Nil
    have "m1 (s + ?k) = NUL" using ys Nil by simp
    then have "parse m s argv out = Some (m1, argv @ [], out)" by (subst parse.simps) (simp add: m1(1))
    moreover have "split_words xs = []" unfolding split_words.simps [of xs] Nil by simp
    moreover have "m1 s = NUL" using start \<open>m1 (s + ?k) = NUL\<close> by (cases "?k = 0") auto
    moreover have "m1 x = m x" if "x < s \<or> s + length xs \<le> x" for x using that m1(2) len Nil by auto
    ultimately show ?thesis by (intro exI [of _ m1] exI [of _ "[]"] exI [of _ out]) auto
  next
    case (Cons y ys')
    let ?w = "takeWhile (\<lambda>c. \<not> whitespace c) ?ys" and ?zs = "dropWhile (\<lambda>c. \<not> whitespace c) ?ys"
    have y: "\<not> whitespace y" using Cons by (metis hd_dropWhile list.distinct(1) list.sel(1))
    have lys: "length ?ys = length ?w + length ?zs" by (metis length_append takeWhile_dropWhile_id)
    have w: "0 < length ?w" using Cons y by simp
    have nz: "m1 (s + ?k) \<noteq> NUL" using ys Cons by simp
    have words: "split_words xs = ?w # split_words ?zs" unfolding split_words.simps [of xs] Cons by simp
    let ?out = "if length argv = 15 then cprint (''Too many arguments (max 16).'' @ [CHR 0x0A]) out else out"
    have room: "length argv < 16" using less.prems(2) words by simp
    have run: "parse m s argv out = parse m1 (s + ?k + length ?w) (argv @ [s + ?k]) ?out"
      using nz skip_word_run [OF ys] room by (subst parse.simps) (simp add: m1(1))
    have zs: "cstr m1 (s + ?k + length ?w) ?zs" using cstr_drop [OF ys, of "length ?w"] lys unfolding dropWhile_eq_drop [symmetric] by simp
    obtain m' ps o' where IH: "parse m1 (s + ?k + length ?w) (argv @ [s + ?k]) ?out = Some (m', (argv @ [s + ?k]) @ ps, o')"
      "same_input ?out o'"
      "list_all2 (cstr m') ps (split_words ?zs)"
      "\<forall>x. x < s + ?k + length ?w \<or> s + ?k + length ?w + length ?zs \<le> x \<longrightarrow> m' x = m1 x"
      "m' (s + ?k + length ?w) = NUL \<or> ?zs \<noteq> [] \<and> \<not> whitespace (hd ?zs)"
      using less.hyps [OF _ zs, of "argv @ [s + ?k]" ?out] less.prems(2) words len lys w by (simp del: append_assoc) blast
    have stop: "m' (s + ?k + length ?w) = NUL" using IH(5) hd_dropWhile [of "\<lambda>c. \<not> whitespace c" ?ys] by auto
    have "block m1 (s + ?k) (length ?w) = ?w" "NUL \<notin> set ?w"
    proof -
      have "NUL \<notin> set ?ys" by (rule cstr_no_NUL [OF ys])
      then show "NUL \<notin> set ?w" by (meson set_takeWhileD)
      have "block m1 (s + ?k) (length ?ys) = ?ys" using ys \<open>NUL \<notin> set ?ys\<close> by (simp add: cstr_block)
      then show "block m1 (s + ?k) (length ?w) = ?w"
        unfolding lys block_add by (metis append_eq_append_conv block_simps(2) takeWhile_dropWhile_id)
    qed
    moreover have "block m' (s + ?k) (length ?w) = block m1 (s + ?k) (length ?w)" by (rule block_cong) (use IH(4) in auto)
    ultimately have "cstr m' (s + ?k) ?w" using stop by (simp add: cstr_block)
    then have "list_all2 (cstr m') ((s + ?k) # ps) (split_words xs)" using IH(3) words by simp
    moreover have "m' x = m x" if "x < s \<or> s + length xs \<le> x" for x using that IH(4) m1(2) len lys by auto
    moreover have "m' s = NUL \<or> xs \<noteq> [] \<and> \<not> whitespace (hd xs)"
    proof (cases "?k = 0")
      case True
      then have "?ys = xs" using len by (metis append_Nil length_0_conv takeWhile_dropWhile_id)
      then have "xs = y # ys'" using Cons by simp
      then show ?thesis using y by simp
    next
      case False
      then show ?thesis using start IH(4) by simp
    qed
    moreover have "same_input out o'" using IH(2) by (simp split: if_splits)
    ultimately show ?thesis using run IH(1) by (intro exI [of _ m'] exI [of _ "(s + ?k) # ps"] exI [of _ o']) simp
  qed
qed

text \<open>More than 16 words.\<close>

lemma parse_overrun:
  "cstr m s xs \<Longrightarrow> length argv \<le> 16 \<Longrightarrow> 16 < length argv + length (split_words xs) \<Longrightarrow> parse m s argv out = None"
proof (induction "length xs" arbitrary: m s xs argv out rule: less_induct)
  case less
  let ?k = "length (takeWhile whitespace xs)" and ?ys = "dropWhile whitespace xs"
  obtain m1 where m1: "clear_blanks m s = Some (m1, s + ?k)" "\<forall>x. m1 x = (if s \<le> x \<and> x < s + ?k then NUL else m x)"
    using clear_blanks_run [OF less.prems(1)] by blast
  have len: "length xs = ?k + length ?ys" by (metis length_append takeWhile_dropWhile_id)
  have "cstr m1 (s + ?k) ?ys = cstr m (s + ?k) ?ys" by (rule cstr_frame) (use m1(2) in auto)
  then have ys: "cstr m1 (s + ?k) ?ys" using cstr_drop [OF less.prems(1), of ?k] len unfolding dropWhile_eq_drop [symmetric] by simp
  show ?case
  proof (cases ?ys)
    case Nil
    have "split_words xs = []" unfolding split_words.simps [of xs] Nil by simp
    then show ?thesis using less.prems by simp
  next
    case (Cons y ys')
    let ?w = "takeWhile (\<lambda>c. \<not> whitespace c) ?ys" and ?zs = "dropWhile (\<lambda>c. \<not> whitespace c) ?ys"
    have "\<not> whitespace y" using Cons by (metis hd_dropWhile list.distinct(1) list.sel(1))
    then have w: "0 < length ?w" using Cons by simp
    have lys: "length ?ys = length ?w + length ?zs" by (metis length_append takeWhile_dropWhile_id)
    have words: "split_words xs = ?w # split_words ?zs" unfolding split_words.simps [of xs] Cons by simp
    have zs: "cstr m1 (s + ?k + length ?w) ?zs" using cstr_drop [OF ys, of "length ?w"] lys unfolding dropWhile_eq_drop [symmetric] by simp
    have nz: "m1 (s + ?k) \<noteq> NUL" using ys Cons by simp
    show ?thesis
    proof (cases "length argv < 16")
      case True
      then have "parse m1 (s + ?k + length ?w) (argv @ [s + ?k]) out' = None" for out'
        using less.hyps [OF _ zs, of "argv @ [s + ?k]"] less.prems(3) words len lys w by simp
      then show ?thesis using nz skip_word_run [OF ys] by (subst parse.simps) (simp add: m1(1) Let_def)
    next
      case False
      then show ?thesis using nz by (subst parse.simps) (simp add: m1(1) Let_def)
    qed
  qed
qed

subsection \<open>Commands\<close>

definition chosen :: "memory \<Rightarrow> char list list \<Rightarrow> char list list \<Rightarrow> command \<Rightarrow> bool" where
  "chosen m ns ws c =
     (case ws of
        [] \<Rightarrow> c = No_Command
      | w # ws \<Rightarrow> (case c of
          Run i args \<Rightarrow> i < length ns \<and> ns ! i = w \<and> w \<notin> set (take i ns) \<and> list_all2 (cstr m) args ws
        | Unknown_Command a \<Rightarrow> w \<notin> set ns \<and> cstr m a w
        | No_Command \<Rightarrow> False))"

lemma find_command_run:
  assumes "cstr m a w" and "list_all2 (cstr m) args ws"
  shows "list_all2 (cstr m) names ns \<Longrightarrow> \<exists>c. find_command m names k (a # args) = Some c
    \<and> (case c of Run i as \<Rightarrow> k \<le> i \<and> i < k + length ns \<and> ns ! (i - k) = w \<and> w \<notin> set (take (i - k) ns) \<and> as = args
        | Unknown_Command b \<Rightarrow> w \<notin> set ns \<and> b = a | No_Command \<Rightarrow> False)"
proof (induction names arbitrary: ns k)
  case (Cons name names)
  then obtain n ns' where ns: "ns = n # ns'" "cstr m name n" "list_all2 (cstr m) names ns'" by (auto simp: list_all2_Cons1)
  obtain r where r: "strcmp m name a = Some r" "r = 0 \<longleftrightarrow> n = w" using strcmp_cstr [OF ns(2) assms(1)] by blast
  show ?case
  proof (cases "n = w")
    case True
    then show ?thesis using r ns(1) by simp
  next
    case False
    obtain c where c: "find_command m names (k + 1) (a # args) = Some c"
      "case c of Run i as \<Rightarrow> k + 1 \<le> i \<and> i < k + 1 + length ns' \<and> ns' ! (i - (k + 1)) = w \<and> w \<notin> set (take (i - (k + 1)) ns') \<and> as = args
        | Unknown_Command b \<Rightarrow> w \<notin> set ns' \<and> b = a | No_Command \<Rightarrow> False"
      using Cons.IH [OF ns(3), of "k + 1"] by blast
    have "i - k = Suc (i - (k + 1))" if "k + 1 \<le> i" for i using that by simp
    then show ?thesis using c False r ns(1) by (auto split: command.splits)
  qed
qed simp

lemma runcmd_run:
  assumes "cstr m b xs" and "list_all2 (cstr m) names ns"
    and "\<forall>i < length names. names ! i + length (ns ! i) < b \<or> b + length xs < names ! i"
    and "length (split_words xs) \<le> 16"
  shows "\<exists>m' s' c. runcmd names m b s = Some (m', s', c) \<and> chosen m' ns (split_words xs) c \<and> same_input s s'"
proof -
  obtain m' ps s1 where p: "parse m b [] s = Some (m', ps, s1)" "same_input s s1" "list_all2 (cstr m') ps (split_words xs)"
    "\<forall>x. x < b \<or> b + length xs \<le> x \<longrightarrow> m' x = m x"
    using parse_run [OF assms(1), of "[]" s] assms(4) by auto
  have names: "list_all2 (cstr m') names ns"
    unfolding list_all2_conv_all_nth
  proof (intro conjI allI impI)
    fix i assume i: "i < length names"
    have "cstr m' (names ! i) (ns ! i) = cstr m (names ! i) (ns ! i)"
      by (rule cstr_frame) (use p(4) assms(3) i in force)
    then show "cstr m' (names ! i) (ns ! i)" using assms(2) i by (simp add: list_all2_nthD)
  qed (use assms(2) in \<open>simp add: list_all2_lengthD\<close>)
  show ?thesis
  proof (cases "split_words xs")
    case Nil
    then show ?thesis using p(1-3) by (auto simp: runcmd_def chosen_def)
  next
    case (Cons w ws)
    then obtain a args where a: "ps = a # args" "cstr m' a w" "list_all2 (cstr m') args ws" using p(3) by (auto simp: list_all2_Cons2)
    obtain c where c: "find_command m' names 0 (a # args) = Some c"
      "case c of Run i as \<Rightarrow> 0 \<le> i \<and> i < 0 + length ns \<and> ns ! (i - 0) = w \<and> w \<notin> set (take (i - 0) ns) \<and> as = args
        | Unknown_Command b \<Rightarrow> w \<notin> set ns \<and> b = a | No_Command \<Rightarrow> False"
      using find_command_run [OF a(2,3) names, of 0] by blast
    then show ?thesis
    proof (cases c)
      case (Unknown_Command b)
      then show ?thesis using p(1,2) a Cons c
        by (intro exI [of _ m'] exI [of _ "cprint (''Unknown command '' @ [CHR 0x27] @ block m' a (length w) @ [CHR 0x27, CHR 0x0A]) s1"]
            exI [of _ c]) (simp add: runcmd_def chosen_def strlen_cstr [OF a(2)] del: append.simps)
    qed (use p(1,2) a Cons c in \<open>simp_all add: runcmd_def chosen_def\<close>)
  qed
qed

lemma edit_length: "length line \<le> 1023 \<Longrightarrow> length (foldl edit_key line ks) \<le> 1023"
proof (induction ks arbitrary: line)
  case (Cons k ks)
  have "length (edit_key line k) \<le> 1023" using Cons.prems by (auto simp: edit_key_def)
  with Cons.IH show ?case by simp
qed simp

text \<open>
  C39. From the keyboard to a command of the monitor. When the ring does not overflow and a line is typed, one round of \<open>kmonitor\<close> takes the keys of
  the line from the ring and the firmware and nothing behind them, edits them (backspace, other control characters ignored, at most 1023 kept), and,
  if the line has at most 16 words, ends: it runs the first command whose name is the first word of the line, with the other words as its
  arguments, all terminated in place; an unknown word is reported, an empty line ignored. A line of more than 16 words is written behind
  the array \<open>argv\<close> (undefined behaviour, \<open>None\<close>).
\<close>

theorem monitor_runs_line:
  assumes "cons_ok s" and "keys_ok (firmware s)" and "ring_keys s @ typed (firmware s) = ks @ nl # rest"
    and "length ks + length rest < 511" and "\<forall>k \<in> set ks. \<not> newline k" and "newline nl"
    and "list_all2 (cstr m) names ns"
    and "\<forall>i < length names. names ! i + length (ns ! i) < line \<or> line + 1024 \<le> names ! i"
  shows "if length (split_words (foldl edit_key [] ks)) \<le> 16
    then \<exists>m' s' c. kmonitor_round names m line s = Some (m', s', c)
      \<and> chosen m' ns (split_words (foldl edit_key [] ks)) c \<and> cons_ok s' \<and> ring_keys s' @ typed (firmware s') = rest
    else kmonitor_round names m line s = None"
proof -
  obtain m1 s1 where r: "readline ''K> '' m line s = Some (m1, s1, Some line)" "cstr m1 line (foldl edit_key [] ks)"
    "\<forall>x. x < line \<or> line + 1024 \<le> x \<longrightarrow> m1 x = m x" "cons_ok s1" "ring_keys s1 @ typed (firmware s1) = rest"
    using readline_loop_run [of "cprint ''K> '' s" ks nl rest m line "[]"] assms(1-6)
    unfolding prompt_same readline_def by auto
  have len: "length (foldl edit_key [] ks) \<le> 1023" by (rule edit_length) simp
  have "list_all2 (cstr m1) names ns"
    unfolding list_all2_conv_all_nth
  proof (intro conjI allI impI)
    fix i assume i: "i < length names"
    have "cstr m1 (names ! i) (ns ! i) = cstr m (names ! i) (ns ! i)"
      by (rule cstr_frame) (use r(3) assms(8) i in force)
    then show "cstr m1 (names ! i) (ns ! i)" using assms(7) i by (simp add: list_all2_nthD)
  qed (use assms(7) in \<open>simp add: list_all2_lengthD\<close>)
  moreover have "\<forall>i < length names. names ! i + length (ns ! i) < line \<or> line + length (foldl edit_key [] ks) < names ! i"
    using assms(8) len by fastforce
  ultimately have short: "\<exists>m' s' c. runcmd names m1 line s1 = Some (m', s', c) \<and> chosen m' ns (split_words (foldl edit_key [] ks)) c \<and> same_input s1 s'"
    if "length (split_words (foldl edit_key [] ks)) \<le> 16" using runcmd_run [OF r(2)] that by blast
  have "runcmd names m1 line s1 = None" if "\<not> length (split_words (foldl edit_key [] ks)) \<le> 16"
    using parse_overrun [OF r(2), of "[]" s1] that by (simp add: runcmd_def)
  with short r(1,4,5) show ?thesis by (auto simp: kmonitor_round_def same_input_def)
qed

text \<open>The keys \<open>helq<backspace>p me<return>\<close>, the last of them not yet in the ring, and two commands.\<close>

definition demo_console :: console_state where
  "demo_console = \<lparr>cons_buf = (\<lambda>_. NUL)(511 := CHR ''h'', 0 := CHR ''e''), rpos = 511, wpos = 1,
     firmware = [108, 113, - 1, 127, 112, 32, 109, - 1, 101, 10], printed = []\<rparr>"

definition demo_names :: memory where
  "demo_names = (\<lambda>x. if 5000 \<le> x \<and> x < 5008 then ''kerninfo'' ! (x - 5000) else if 5020 \<le> x \<and> x < 5024 then ''help'' ! (x - 5020) else NUL)"

lemma demo_console_ring_keys: "ring_keys demo_console = ''he''"
  by (simp add: ring_keys_def demo_console_def upt_rec)

theorem monitor_runs_line_witness:
  "\<exists>m' s' a. kmonitor_round [5000, 5020] demo_names 1000 demo_console = Some (m', s', Run 1 [a]) \<and> cstr m' a ''me'' \<and> ring_keys s' = []"
proof -
  have ok: "cons_ok demo_console" "keys_ok (firmware demo_console)"
    "ring_keys demo_console @ typed (firmware demo_console) = (''helq'' @ [CHR 0x08] @ ''p me'') @ CHR 0x0A # []"
    unfolding cons_ok_def demo_console_ring_keys by (simp_all add: demo_console_def keys_ok_def typed_def char_of_def)
  have keys: "\<forall>k \<in> set (''helq'' @ [CHR 0x08] @ ''p me''). \<not> newline k" "newline (CHR 0x0A)" by (simp_all add: newline_def)
  have names: "list_all2 (cstr demo_names) [5000, 5020] [''kerninfo'', ''help'']" by (simp add: demo_names_def)
  have apart: "\<forall>i < length [5000, 5020 :: nat]. [5000, 5020 :: nat] ! i + length ([''kerninfo'', ''help''] ! i) < 1000 \<or> 1000 + 1024 \<le> [5000, 5020 :: nat] ! i"
    by (simp add: less_Suc_eq)
  have line: "split_words (foldl edit_key [] (''helq'' @ [CHR 0x08] @ ''p me'')) = [''help'', ''me'']"
    by (simp add: edit_key_def split_words.simps whitespace_def)
  obtain m' s' c where r: "kmonitor_round [5000, 5020] demo_names 1000 demo_console = Some (m', s', c)"
    "chosen m' [''kerninfo'', ''help''] [''help'', ''me''] c" "ring_keys s' @ typed (firmware s') = []"
    using monitor_runs_line [OF ok _ keys names apart] unfolding line by auto
  then show ?thesis
    by (auto simp: chosen_def list_all2_Cons2 less_Suc_eq split: command.splits)
qed

end
