(* ===== verification/Dtb.thy ===== *)
theory Dtb
  imports Bytes
begin

section \<open>The device tree: \<open>kern/driver/dtb.c\<close> of \<open>lab6\<close>\<close>

text \<open>
  At boot the kernel of the labs 2 to 6 reads the size of the memory from the flattened device tree the firmware leaves in memory: a
  sequence of tokens, big-endian, each aligned to 4 bytes. The string literals of the code lie at the addresses \<open>lit_memory\<close> and
  \<open>lit_reg\<close>.
\<close>

subsection \<open>Operations\<close>

definition fdt32_to_cpu :: "u32 \<Rightarrow> u32" where
  "fdt32_to_cpu x = push_bit 24 (x AND 0xff) OR push_bit 16 (drop_bit 8 x AND 0xff)
     OR push_bit 8 (drop_bit 16 x AND 0xff) OR (drop_bit 24 x AND 0xff)"

definition fdt64_to_cpu :: "u64 \<Rightarrow> u64" where
  "fdt64_to_cpu x = push_bit 32 (ucast (fdt32_to_cpu (ucast (x AND 0xffffffff)))) OR ucast (fdt32_to_cpu (ucast (drop_bit 32 x)))"

text \<open>Reading a word at a pointer.\<close>

definition fdt32_at :: "memory \<Rightarrow> nat \<Rightarrow> u32" where
  "fdt32_at m a = fdt32_to_cpu (word_of_nat (peek m a 4))"

definition fdt64_at :: "memory \<Rightarrow> nat \<Rightarrow> u64" where
  "fdt64_at m a = fdt64_to_cpu (word_of_nat (peek m a 8))"

abbreviation (input) FDT_BEGIN_NODE :: u32 where "FDT_BEGIN_NODE \<equiv> 1"
abbreviation (input) FDT_END_NODE :: u32 where "FDT_END_NODE \<equiv> 2"
abbreviation (input) FDT_PROP :: u32 where "FDT_PROP \<equiv> 3"
abbreviation (input) FDT_NOP :: u32 where "FDT_NOP \<equiv> 4"
abbreviation (input) FDT_END :: u32 where "FDT_END \<equiv> 9"

text \<open>The loop of \<open>extract_memory_info\<close>; results: the code, base and size.\<close>

partial_function (option) fdt_loop :: "memory \<Rightarrow> nat \<Rightarrow> nat \<Rightarrow> nat \<Rightarrow> bool \<Rightarrow> nat \<Rightarrow> (int \<times> u64 \<times> u64) option" where
  "fdt_loop m lit_memory lit_reg strings_base in_memory_node p =
     (let token = fdt32_at m p; p = p + 4
      in if token = FDT_BEGIN_NODE
         then do {
           name_len \<leftarrow> strlen m p;
           fdt_loop m lit_memory lit_reg strings_base (in_memory_node \<or> strncmp m p lit_memory 6 = 0) ((p + name_len + 4) div 4 * 4) }
         else if token = FDT_END_NODE then fdt_loop m lit_memory lit_reg strings_base False p
         else if token = FDT_PROP
         then do {
           let prop_len = unat (fdt32_at m p);
           let prop_nameoff = unat (fdt32_at m (p + 4));
           let p = p + 8;
           is_reg \<leftarrow> (if in_memory_node then map_option (\<lambda>r. r = 0) (strcmp m (strings_base + prop_nameoff) lit_reg) else Some False);
           if is_reg \<and> prop_len \<ge> 16 then Some (0, fdt64_at m p, fdt64_at m (p + 8))
           else fdt_loop m lit_memory lit_reg strings_base in_memory_node ((p + prop_len + 3) div 4 * 4) }
         else if token = FDT_NOP then fdt_loop m lit_memory lit_reg strings_base in_memory_node p
         else Some (- 1, 0, 0))"

definition extract_memory_info :: "memory \<Rightarrow> nat \<Rightarrow> nat \<Rightarrow> nat \<Rightarrow> (int \<times> u64 \<times> u64) option" where
  "extract_memory_info m lit_memory lit_reg dtb =
     fdt_loop m lit_memory lit_reg (dtb + unat (fdt32_at m (dtb + 12))) False (dtb + unat (fdt32_at m (dtb + 8)))"

record dtb_state =
  boot_dtb :: nat
  memory_base :: u64
  memory_size :: u64

definition find_dtb :: "memory \<Rightarrow> dtb_state \<Rightarrow> dtb_state" where
  "find_dtb m s =
     (if boot_dtb s = 0
      then (case find (\<lambda>a. fdt32_at m a = 0xd00dfeed) [0x82200000, 0x87e00000, 0x80000000 + 128 * 1024 * 1024 - 0x200000] of
              Some a \<Rightarrow> s\<lparr>boot_dtb := a\<rparr> | None \<Rightarrow> s)
      else s)"

definition default_memory :: "dtb_state \<Rightarrow> dtb_state" where
  "default_memory s = s\<lparr>memory_base := 0x80000000, memory_size := 0x8000000\<rparr>"

definition dtb_init :: "memory \<Rightarrow> nat \<Rightarrow> nat \<Rightarrow> dtb_state \<Rightarrow> dtb_state option" where
  "dtb_init m lit_memory lit_reg s =
     (let s = find_dtb m s
      in if boot_dtb s = 0 then Some (default_memory s)
         else if fdt32_at m (boot_dtb s) \<noteq> 0xd00dfeed then Some (default_memory s)
         else do {
           (ret, mem_base, mem_size) \<leftarrow> extract_memory_info m lit_memory lit_reg (boot_dtb s);
           Some (if ret = 0 then s\<lparr>memory_base := mem_base, memory_size := mem_size\<rparr> else default_memory s) })"

subsection \<open>Big-endian numbers\<close>

definition be_num :: "char list \<Rightarrow> nat" where
  "be_num = foldl (\<lambda>v c. v * 256 + of_char c) 0"

definition be32 :: "nat \<Rightarrow> char list" where
  "be32 n = rev (le_bytes 4 n)"

lemma length_be32 [simp]: "length (be32 n) = 4"
  by (simp add: be32_def)

lemma list_4: "[0..<4] = [0, 1, 2, 3]" by (simp add: upt_rec)

lemma be_num_be32: "n < 2 ^ 32 \<Longrightarrow> be_num (be32 n) = n"
proof -
  assume n: "n < 2 ^ 32"
  have "(\<Sum>k<4. (n div 256 ^ k mod 256) * 256 ^ k) = n" using n by (simp add: digits_sum)
  then have "n mod 256 + (n div 256 mod 256) * 256 + (n div 65536 mod 256) * 65536 + (n div 16777216 mod 256) * 16777216 = n"
    using n by (simp add: lessThan_nat_numeral div_less_iff_less_mult)
  moreover have "n div 16777216 mod 256 = n div 16777216" using n by simp
  ultimately show ?thesis
    unfolding be_num_def be32_def le_bytes_def list_4 by simp
qed

lemma byte_mask: "y AND 0xff = take_bit 8 y" for y :: u32
  by (simp add: take_bit_eq_mask mask_eq_exp_minus_1)

lemma fdt32_sum:
  "fdt32_to_cpu x = push_bit 24 (take_bit 8 x) + push_bit 16 (take_bit 8 (drop_bit 8 x))
     + push_bit 8 (take_bit 8 (drop_bit 16 x)) + take_bit 8 (drop_bit 24 x)"
  unfolding fdt32_to_cpu_def byte_mask
  by (subst disjunctive_add_eq_or; (subst disjunctive_add_eq_or)?; (subst disjunctive_add_eq_or)?)
    (auto simp: bit_eq_iff bit_simps)

lemma fdt32_nat:
  "fdt32_to_cpu x = word_of_nat (unat x mod 256 * 2 ^ 24 + unat x div 2 ^ 8 mod 256 * 2 ^ 16
     + unat x div 2 ^ 16 mod 256 * 2 ^ 8 + unat x div 2 ^ 24 mod 256)"
proof -
  have w: "take_bit 8 (drop_bit k x) = word_of_nat (unat x div 2 ^ k mod 256)" for k
  proof -
    have "unat (take_bit 8 (drop_bit k x)) = unat x div 2 ^ k mod 256"
      by (simp only: unsigned_take_bit_eq unat_drop_bit_eq) (simp only: take_bit_eq_mod drop_bit_eq_div; simp)
    then show ?thesis by (simp only: word_unat_eq_iff unat_of_nat) simp
  qed
  show ?thesis
    unfolding fdt32_sum using w [of 0] w [of 8] w [of 16] w [of 24] by (simp add: push_bit_eq_mult)
qed

lemma peek_4:
  "peek m a 4 = of_char (m a) + of_char (m (a + 1)) * 256 + of_char (m (a + 2)) * 65536 + of_char (m (a + 3)) * 16777216"
  by (simp add: peek_def lessThan_nat_numeral)

lemma block_4: "block m a 4 = [m a, m (a + 1), m (a + 2), m (a + 3)]"
  by (simp add: block_def list_4)

lemma of_char_less: "of_char c < (256 :: nat)"
  by simp

lemma byte_digits:
  assumes "b0 < 256" "b1 < 256" "b2 < 256" "b3 < (256 :: nat)"
  defines "n \<equiv> b0 + b1 * 256 + b2 * 65536 + b3 * 16777216"
  shows "n < 2 ^ 32" "n mod 256 = b0" "n div 256 mod 256 = b1" "n div 65536 mod 256 = b2" "n div 16777216 mod 256 = b3"
proof -
  have n: "n = b0 + 256 * (b1 + 256 * (b2 + 256 * b3))" by (simp add: n_def)
  have d1: "n div 256 = b1 + 256 * (b2 + 256 * b3)" using assms(1) by (simp add: n)
  have d2: "n div 65536 = b2 + 256 * b3" using div_mult2_eq [of n 256 256] assms(2) by (simp add: d1)
  have d3: "n div 16777216 = b3" using div_mult2_eq [of n 65536 256] assms(3) by (simp add: d2)
  show "n < 2 ^ 32" using assms(1-4) unfolding n by simp
  show "n mod 256 = b0" unfolding n by (simp only: mod_mult_self2 mod_less [OF assms(1)])
  show "n div 256 mod 256 = b1" unfolding d1 by (simp only: mod_mult_self2 mod_less [OF assms(2)])
  show "n div 65536 mod 256 = b2" unfolding d2 by (simp only: mod_mult_self2 mod_less [OF assms(3)])
  show "n div 16777216 mod 256 = b3" using assms(4) by (simp add: d3)
qed

lemma fdt32_at_block: "fdt32_at m a = word_of_nat (be_num (block m a 4))"
proof -
  note b = byte_digits [OF of_char_less of_char_less of_char_less of_char_less,
      of "m a" "m (a + 1)" "m (a + 2)" "m (a + 3)", folded peek_4]
  have "unat (word_of_nat (peek m a 4) :: u32) = peek m a 4"
    using b(1) by (simp add: unat_of_nat)
  then have "fdt32_at m a = word_of_nat (of_char (m a) * 2 ^ 24 + of_char (m (a + 1)) * 2 ^ 16
     + of_char (m (a + 2)) * 2 ^ 8 + of_char (m (a + 3)))"
    unfolding fdt32_at_def fdt32_nat using b by simp
  also have "of_char (m a) * 2 ^ 24 + of_char (m (a + 1)) * 2 ^ 16 + of_char (m (a + 2)) * 2 ^ 8 + of_char (m (a + 3))
      = be_num (block m a 4)"
    by (simp add: be_num_def block_4 algebra_simps)
  finally show ?thesis .
qed

lemma peek_8: "peek m a 8 = peek m a 4 + 2 ^ 32 * peek m (a + 4) 4"
  by (simp add: peek_def lessThan_nat_numeral add.assoc algebra_simps)

lemma peek_4_less: "peek m a 4 < 2 ^ 32"
  unfolding peek_4 by (rule byte_digits(1)) (rule of_char_less)+

lemma be_num_append: "be_num (xs @ ys) = be_num xs * 256 ^ length ys + be_num ys"
proof (induction ys rule: rev_induct)
  case (snoc y ys)
  then show ?case by (simp add: be_num_def algebra_simps)
qed (simp add: be_num_def)

lemma be_num_less: "be_num xs < 256 ^ length xs"
proof (induction xs rule: rev_induct)
  case (snoc x xs)
  have "be_num xs * 256 + of_char x < (be_num xs + 1) * 256" using of_char_less [of x] by (simp add: algebra_simps)
  also have "\<dots> \<le> 256 ^ length xs * 256" using snoc by (intro mult_right_mono) simp_all
  finally show ?case by (simp add: be_num_def mult.commute)
qed (simp add: be_num_def)

lemma fdt32_at_ucast: "ucast (fdt32_at m a) = (word_of_nat (be_num (block m a 4)) :: u64)"
proof -
  have "unat (fdt32_at m a) = be_num (block m a 4)"
    using be_num_less [of "block m a 4"] by (simp add: fdt32_at_block unat_of_nat)
  then show ?thesis by (metis of_nat_unat)
qed

lemma fdt64_at_block: "fdt64_at m a = word_of_nat (be_num (block m a 8))"
proof -
  let ?x = "word_of_nat (peek m a 8) :: u64"
  have "peek m a 8 < 2 ^ 64" using peek_4_less [of m a] peek_4_less [of m "a + 4"] by (simp add: peek_8)
  then have x: "unat ?x = peek m a 8" by (simp add: unat_of_nat)
  have lo: "ucast (?x AND 0xffffffff) = (word_of_nat (peek m a 4) :: u32)"
  proof -
    have "?x AND 0xffffffff = take_bit 32 ?x" by (simp add: take_bit_eq_mask mask_eq_exp_minus_1)
    then have "unat (?x AND 0xffffffff) = peek m a 4"
      using peek_4_less [of m a] by (simp add: unsigned_take_bit_eq x) (simp add: take_bit_eq_mod peek_8)
    then show ?thesis by (metis of_nat_unat)
  qed
  have "unat (drop_bit 32 ?x) = peek m (a + 4) 4"
    using peek_4_less [of m a] by (simp only: unat_drop_bit_eq x) (simp add: drop_bit_eq_div peek_8)
  then have hi: "ucast (drop_bit 32 ?x) = (word_of_nat (peek m (a + 4) 4) :: u32)" by (metis of_nat_unat)
  have "fdt64_at m a = push_bit 32 (ucast (fdt32_at m a)) OR ucast (fdt32_at m (a + 4))"
    unfolding fdt64_at_def fdt64_to_cpu_def lo hi by (simp add: fdt32_at_def)
  also have "\<dots> = push_bit 32 (ucast (fdt32_at m a)) + ucast (fdt32_at m (a + 4))"
    by (rule disjunctive_add_eq_or [symmetric]) (auto simp: bit_eq_iff bit_simps dest!: bit_imp_le_length)
  also have "\<dots> = word_of_nat (be_num (block m a 4)) * 2 ^ 32 + word_of_nat (be_num (block m (a + 4) 4))"
    unfolding push_bit_eq_mult fdt32_at_ucast ..
  also have "\<dots> = word_of_nat (be_num (block m a 8))"
    using block_add [of m a 4 4] by (simp add: be_num_append)
  finally show ?thesis .
qed

subsection \<open>The tokens of a tree\<close>

datatype token = Begin_Node "char list" | End_Node | Prop (nameoff: nat) (data: "char list") | Nop | End

definition aligned :: "char list \<Rightarrow> char list" where
  "aligned xs = xs @ replicate ((4 - length xs mod 4) mod 4) NUL"

fun encode :: "token \<Rightarrow> char list" where
  "encode (Begin_Node name) = be32 1 @ aligned (name @ [NUL])"
| "encode End_Node = be32 2"
| "encode (Prop off d) = be32 3 @ be32 (length d) @ be32 off @ aligned d"
| "encode Nop = be32 4"
| "encode End = be32 9"

text \<open>What the loop finds among tokens; \<open>names\<close> is the table of the names of properties.\<close>

definition is_memory :: "char list \<Rightarrow> bool" where
  "is_memory name \<longleftrightarrow> take 6 name = ''memory''"

definition reg_value :: "char list \<Rightarrow> u64 \<times> u64" where
  "reg_value d = (word_of_nat (be_num (take 8 d)), word_of_nat (be_num (take 8 (drop 8 d))))"

fun scan :: "(nat \<Rightarrow> char list) \<Rightarrow> bool \<Rightarrow> token list \<Rightarrow> (u64 \<times> u64) option" where
  "scan names b [] = None"
| "scan names b (Begin_Node name # ts) = scan names (b \<or> is_memory name) ts"
| "scan names b (End_Node # ts) = scan names False ts"
| "scan names b (Prop off d # ts) =
     (if b \<and> names off = ''reg'' \<and> 16 \<le> length d then Some (reg_value d) else scan names b ts)"
| "scan names b (Nop # ts) = scan names b ts"
| "scan names b (End # ts) = None"

fun token_ok :: "(nat \<Rightarrow> char list) \<Rightarrow> memory \<Rightarrow> nat \<Rightarrow> token \<Rightarrow> bool" where
  "token_ok names m strings (Begin_Node name) \<longleftrightarrow> NUL \<notin> set name"
| "token_ok names m strings (Prop off d) \<longleftrightarrow> off < 2 ^ 32 \<and> length d < 2 ^ 32 \<and> cstr m (strings + off) (names off)"
| "token_ok names m strings t \<longleftrightarrow> True"

subsection \<open>Tokens in memory\<close>

definition laid :: "memory \<Rightarrow> nat \<Rightarrow> char list \<Rightarrow> bool" where
  "laid m p bs \<longleftrightarrow> block m p (length bs) = bs"

lemma laid_Nil [simp]: "laid m p []"
  by (simp add: laid_def)

lemma laid_append [simp]: "laid m p (xs @ ys) \<longleftrightarrow> laid m p xs \<and> laid m (p + length xs) ys"
  by (auto simp: laid_def block_add)

lemma laid_Cons: "laid m p (x # xs) \<longleftrightarrow> m p = x \<and> laid m (p + 1) xs"
  by (auto simp: laid_def block_Suc)

lemma laid_be32: "laid m p (be32 n) \<Longrightarrow> n < 2 ^ 32 \<Longrightarrow> fdt32_at m p = word_of_nat n"
  by (simp add: laid_def fdt32_at_block be_num_be32)

lemma laid_string: "laid m p (xs @ [NUL]) \<Longrightarrow> NUL \<notin> set xs \<Longrightarrow> cstr m p xs"
  by (induction xs arbitrary: p) (auto simp: laid_Cons)

lemma aligned_laid: "laid m p (aligned xs) \<Longrightarrow> laid m p xs"
  by (simp add: aligned_def)

lemma aligned_length: "4 dvd p \<Longrightarrow> (p + length xs + 3) div 4 * 4 = p + length (aligned xs)"
proof -
  assume "4 dvd p"
  then obtain q where p: "p = 4 * q" ..
  obtain k r where n: "length xs = 4 * k + r" and r: "r \<in> {0, 1, 2, 3}"
    using that [of "length xs div 4" "length xs mod 4"] by simp linarith
  have "(4 * q + (4 * k + r) + 3) div 4 * 4 = 4 * q + 4 * k + (r + 3) div 4 * 4"
    using div_mult_self4 [of 4 "q + k" "r + 3"] by (simp add: algebra_simps)
  moreover from r have "(r + 3) div 4 * 4 = r + (4 - r) mod 4" and "r mod 4 = r" by auto
  ultimately show ?thesis by (simp add: p n aligned_def)
qed

lemma dvd_aligned: "4 dvd length (aligned xs)"
  using aligned_length [of 0 xs] by (metis add_0 dvd_0_right dvd_triv_right)

lemma dvd_encode: "4 dvd length (encode t)"
  by (cases t) (simp_all add: dvd_aligned)

lemma laid_words:
  "laid m p d \<Longrightarrow> 16 \<le> length d \<Longrightarrow> fdt64_at m p = fst (reg_value d) \<and> fdt64_at m (p + 8) = snd (reg_value d)"
proof -
  assume d: "laid m p d" "16 \<le> length d"
  then obtain n where n: "length d = 8 + (8 + n)" by (auto dest!: le_Suc_ex)
  have "d = block m p 8 @ block m (p + 8) 8 @ block m (p + 16) n"
    using d(1) unfolding laid_def n block_add by (simp add: add.assoc)
  then have "take 8 d = block m p 8" "take 8 (drop 8 d) = block m (p + 8) 8" by (simp_all add: append_eq_conv_conj)
  then show ?thesis by (simp add: reg_value_def fdt64_at_block)
qed

lemma strncmp_cstr:
  "cstr m s xs \<Longrightarrow> cstr m t ys \<Longrightarrow> strncmp m s t n = 0 \<longleftrightarrow> take n xs = take n ys"
proof (induction n arbitrary: s t xs ys)
  case (Suc n)
  show ?case
    using Suc.prems Suc.IH by (cases xs; cases ys) (auto simp: uchar_diff_def)
qed simp

lemma scan_loop:
  assumes "cstr m lit_memory ''memory''" and "cstr m lit_reg ''reg''"
  shows "(\<forall>t \<in> set ts. token_ok names m strings t) \<Longrightarrow> End \<in> set ts \<Longrightarrow> laid m p (concat (map encode ts)) \<Longrightarrow> 4 dvd p
    \<Longrightarrow> fdt_loop m lit_memory lit_reg strings b p =
        Some (case scan names b ts of Some (x, y) \<Rightarrow> (0, x, y) | None \<Rightarrow> (- 1, 0, 0))"
proof (induction ts arbitrary: p b)
  case (Cons t ts)
  have rest: "t \<noteq> End \<Longrightarrow> fdt_loop m lit_memory lit_reg strings b' (p + length (encode t)) =
      Some (case scan names b' ts of Some (x, y) \<Rightarrow> (0, x, y) | None \<Rightarrow> (- 1, 0, 0))" for b'
    using Cons.prems dvd_encode [of t] by (intro Cons.IH) auto
  have head: "laid m p (encode t)" using Cons.prems(3) by simp
  show ?case
  proof (cases t)
    case (Begin_Node name)
    have "fdt32_at m p = 1" and "cstr m (p + 4) name"
      using head Cons.prems(1) laid_be32 [of m p 1] by (auto simp: Begin_Node intro!: laid_string aligned_laid)
    then have "fdt_loop m lit_memory lit_reg strings b p = fdt_loop m lit_memory lit_reg strings (b \<or> is_memory name) ((p + 4 + length name + 4) div 4 * 4)"
      using strncmp_cstr [OF _ assms(1), of "p + 4" name 6]
      by (subst fdt_loop.simps) (simp add: strlen_cstr is_memory_def add.assoc)
    also have "(p + 4 + length name + 4) div 4 * 4 = p + length (encode t)"
      using aligned_length [of "p + 4" "name @ [NUL]"] Cons.prems(4) by (simp add: Begin_Node add.assoc add.left_commute)
    finally show ?thesis using rest by (simp add: Begin_Node)
  next
    case End_Node
    have "fdt32_at m p = 2" using head laid_be32 [of m p 2] by (simp add: End_Node)
    then have "fdt_loop m lit_memory lit_reg strings b p = fdt_loop m lit_memory lit_reg strings False (p + 4)"
      by (subst fdt_loop.simps) simp
    then show ?thesis using rest by (simp add: End_Node)
  next
    case (Prop off d)
    have ok: "cstr m (strings + off) (names off)" "off < 2 ^ 32" "length d < 2 ^ 32"
      using Cons.prems(1) by (simp_all add: Prop)
    have d: "laid m (p + 12) d" using head by (simp add: Prop aligned_def add.assoc)
    have w: "fdt32_at m p = 3" "fdt32_at m (p + 4) = word_of_nat (length d)" "fdt32_at m (p + 8) = word_of_nat off"
      using head ok laid_be32 [of m p 3] laid_be32 [of m "p + 4" "length d"] laid_be32 [of m "p + 8" off] by (simp_all add: Prop add.assoc)
    obtain r where r: "strcmp m (strings + off) lit_reg = Some r" "r = 0 \<longleftrightarrow> names off = ''reg''"
      using strcmp_cstr [OF ok(1) assms(2)] by auto
    have run: "fdt_loop m lit_memory lit_reg strings b p =
        (if b \<and> names off = ''reg'' \<and> 16 \<le> length d then Some (0, fdt64_at m (p + 12), fdt64_at m (p + 20))
         else fdt_loop m lit_memory lit_reg strings b ((p + 12 + length d + 3) div 4 * 4))"
      using w r(1) r(2) ok(2,3)
      by (subst fdt_loop.simps) (cases b, simp_all add: unat_of_nat add.assoc Let_def)
    have "(p + 12 + length d + 3) div 4 * 4 = p + length (encode t)"
      using aligned_length [of "p + 12" d] Cons.prems(4) by (simp add: Prop)
    moreover have "16 \<le> length d \<Longrightarrow> fdt64_at m (p + 12) = fst (reg_value d) \<and> fdt64_at m (p + 20) = snd (reg_value d)"
      using laid_words [OF d] by (simp add: add.assoc)
    ultimately show ?thesis using rest [of b] run by (auto simp: Prop reg_value_def)
  next
    case Nop
    have "fdt32_at m p = 4" using head laid_be32 [of m p 4] by (simp add: Nop)
    then have "fdt_loop m lit_memory lit_reg strings b p = fdt_loop m lit_memory lit_reg strings b (p + 4)"
      by (subst fdt_loop.simps) simp
    then show ?thesis using rest by (simp add: Nop)
  next
    case End
    have "fdt32_at m p = 9" using head laid_be32 [of m p 9] by (simp add: End)
    then show ?thesis by (subst fdt_loop.simps) (simp add: End)
  qed
qed simp

subsection \<open>Trees\<close>

datatype node = Node (node_name: "char list") (props: "(nat \<times> char list) list") (children: "node list")

fun tokens :: "node \<Rightarrow> token list" where
  "tokens (Node name ps cs) = Begin_Node name # map (\<lambda>(off, d). Prop off d) ps @ concat (map tokens cs) @ [End_Node]"

fun preorder :: "node \<Rightarrow> node list" where
  "preorder (Node name ps cs) = Node name ps cs # concat (map preorder cs)"

definition reg :: "(nat \<Rightarrow> char list) \<Rightarrow> node \<Rightarrow> (u64 \<times> u64) option" where
  "reg names n = map_option (\<lambda>(off, d). reg_value d) (find (\<lambda>(off, d). names off = ''reg'' \<and> 16 \<le> length d) (props n))"

text \<open>The range of memory a tree describes: the first \<open>reg\<close> of the first node whose name begins with \<open>memory\<close>.\<close>

definition memory_range :: "(nat \<Rightarrow> char list) \<Rightarrow> node list \<Rightarrow> (u64 \<times> u64) option" where
  "memory_range names ns = Option.bind (find (\<lambda>n. is_memory (node_name n)) ns) (reg names)"

definition memory_described :: "(nat \<Rightarrow> char list) \<Rightarrow> node list \<Rightarrow> bool" where
  "memory_described names ns \<longleftrightarrow> (\<forall>n \<in> set ns. is_memory (node_name n) \<longrightarrow> reg names n \<noteq> None)"

lemma scan_props:
  "scan names b (map (\<lambda>(off, d). Prop off d) ps @ ts) =
     (case if b then reg names (Node name ps cs) else None of Some x \<Rightarrow> Some x | None \<Rightarrow> scan names b ts)"
  by (induction ps) (auto simp: reg_def split: prod.splits)

lemma memory_range_append:
  "memory_described names ns \<Longrightarrow>
   memory_range names (ns @ ns') = (case memory_range names ns of Some x \<Rightarrow> Some x | None \<Rightarrow> memory_range names ns')"
  by (induction ns) (auto simp: memory_range_def memory_described_def split: option.splits)

lemma scan_tokens:
  "memory_described names (preorder t) \<Longrightarrow>
   scan names False (tokens t @ ts) = (case memory_range names (preorder t) of Some x \<Rightarrow> Some x | None \<Rightarrow> scan names False ts)"
proof (induction t arbitrary: ts)
  case (Node name ps cs)
  have children: "set cs' \<subseteq> set cs \<Longrightarrow> scan names False (concat (map tokens cs') @ ts') =
      (case memory_range names (concat (map preorder cs')) of Some x \<Rightarrow> Some x | None \<Rightarrow> scan names False ts')" for cs' ts'
  proof (induction cs')
    case (Cons c cs')
    have "memory_described names (preorder c)"
      using Node.prems Cons.prems by (auto simp: memory_described_def)
    with Cons Node.IH [of c] show ?case by (simp add: memory_range_append split: option.splits)
  qed (simp add: memory_range_def)
  show ?case
  proof (cases "is_memory name")
    case True
    then obtain x where "reg names (Node name ps cs) = Some x" using Node.prems by (auto simp: memory_described_def)
    with True show ?thesis by (simp add: scan_props [where name = name and cs = cs] memory_range_def)
  next
    case False
    then show ?thesis
      using children [of cs "End_Node # ts"]
      by (simp add: scan_props [where name = name and cs = cs] memory_range_def split: option.splits)
  qed
qed

text \<open>
  C40. Finding the memory. When the tree the firmware left is laid out as the format prescribes (big-endian cells, aligned
  tokens, names in the string block) and every node named \<open>memory\<dots>\<close> has a \<open>reg\<close> property of 16 bytes or more, \<open>dtb_init\<close> ends, and records
  the base and the size of the first such node in the order of the tree, or the default of 128 megabytes when the tree has none.
\<close>

theorem dtb_init_finds_memory:
  assumes "cstr m lit_memory ''memory''" and "cstr m lit_reg ''reg''" and "boot_dtb s = dtb" "dtb \<noteq> 0"
    and "laid m dtb (be32 0xd00dfeed)" and "laid m (dtb + 8) (be32 off_struct)" and "laid m (dtb + 12) (be32 off_strings)"
    and "off_struct < 2 ^ 32" "off_strings < 2 ^ 32" "4 dvd dtb + off_struct"
    and "laid m (dtb + off_struct) (concat (map encode (tokens t @ [End])))"
    and "\<forall>x \<in> set (tokens t). token_ok names m (dtb + off_strings) x"
    and "memory_described names (preorder t)"
  shows "dtb_init m lit_memory lit_reg s =
    Some (case memory_range names (preorder t) of
            Some (base, sz) \<Rightarrow> s\<lparr>memory_base := base, memory_size := sz\<rparr>
          | None \<Rightarrow> default_memory s)"
proof -
  have head: "fdt32_at m dtb = 0xd00dfeed" "unat (fdt32_at m (dtb + 8)) = off_struct" "unat (fdt32_at m (dtb + 12)) = off_strings"
    using laid_be32 [of m dtb "0xd00dfeed"] laid_be32 [of m "dtb + 8" off_struct] laid_be32 [of m "dtb + 12" off_strings] assms
    by (simp_all add: unat_of_nat)
  have "scan names False (tokens t @ [End]) = memory_range names (preorder t)"
    using scan_tokens [OF assms(13), of "[End]"] by (simp split: option.splits)
  then have "fdt_loop m lit_memory lit_reg (dtb + off_strings) False (dtb + off_struct) =
      Some (case memory_range names (preorder t) of Some (x, y) \<Rightarrow> (0, x, y) | None \<Rightarrow> (- 1, 0, 0))"
    using scan_loop [OF assms(1,2), of "tokens t @ [End]" names "dtb + off_strings" "dtb + off_struct" False] assms(10-12) by simp
  then show ?thesis
    using assms(3,4) head by (auto simp: dtb_init_def find_dtb_def extract_memory_info_def split: option.splits)
qed

text \<open>A tree with a node for the processors and a node for 128 megabytes of memory, as an image with the strings behind it.\<close>

definition demo_tree :: node where
  "demo_tree = Node [] [] [Node ''cpus'' [(0, ''xyz'')] [],
     Node ''memory@80000000'' [(0, be32 0 @ be32 0x80000000 @ be32 0 @ be32 0x8000000)] []]"

definition demo_image :: "char list" where
  "demo_image = be32 0xd00dfeed @ be32 200 @ be32 16 @ be32 (16 + length (concat (map encode (tokens demo_tree @ [End]))))
     @ concat (map encode (tokens demo_tree @ [End])) @ (''reg'' @ [NUL]) @ (''memory'' @ [NUL])"

definition demo_dtb :: memory where
  "demo_dtb = poke (\<lambda>_. NUL) 0x82200000 demo_image"

lemma laid_demo: "laid demo_dtb 0x82200000 demo_image"
  by (simp add: laid_def demo_dtb_def)

lemma demo_length: "length (concat (map encode (tokens demo_tree @ [End]))) = 100"
  by (simp add: demo_tree_def aligned_def)

lemma demo_parts:
  "laid demo_dtb 0x82200000 (be32 0xd00dfeed)" "laid demo_dtb 0x82200008 (be32 16)" "laid demo_dtb 0x8220000C (be32 116)"
  "laid demo_dtb 0x82200010 (concat (map encode (tokens demo_tree @ [End])))"
  "cstr demo_dtb 0x82200074 ''reg''" "cstr demo_dtb 0x82200078 ''memory''"
proof -
  have parts: "laid demo_dtb 0x82200000 (be32 0xd00dfeed)" "laid demo_dtb 0x82200008 (be32 16)" "laid demo_dtb 0x8220000C (be32 116)"
    "laid demo_dtb 0x82200010 (concat (map encode (tokens demo_tree @ [End])))"
    "laid demo_dtb 0x82200074 (''reg'' @ [NUL])" "laid demo_dtb 0x82200078 (''memory'' @ [NUL])"
    using laid_demo unfolding demo_image_def laid_append demo_length by (simp_all del: laid_append)
  show "cstr demo_dtb 0x82200074 ''reg''" by (rule laid_string [OF parts(5)]) simp
  show "cstr demo_dtb 0x82200078 ''memory''" by (rule laid_string [OF parts(6)]) simp
  show "laid demo_dtb 0x82200000 (be32 0xd00dfeed)" "laid demo_dtb 0x82200008 (be32 16)" "laid demo_dtb 0x8220000C (be32 116)"
    "laid demo_dtb 0x82200010 (concat (map encode (tokens demo_tree @ [End])))"
    by (rule parts)+
qed

lemma demo_range: "memory_range (\<lambda>_. ''reg'') (preorder demo_tree) = Some (0x80000000, 0x8000000)"
  by (simp add: demo_tree_def memory_range_def is_memory_def reg_def reg_value_def be_num_append be_num_be32)

theorem dtb_init_finds_memory_witness:
  "dtb_init demo_dtb 0x82200078 0x82200074 \<lparr>boot_dtb = 0x82200000, memory_base = 0, memory_size = 0\<rparr> =
     Some \<lparr>boot_dtb = 0x82200000, memory_base = 0x80000000, memory_size = 0x8000000\<rparr>"
proof -
  let ?s = "\<lparr>boot_dtb = 0x82200000, memory_base = 0, memory_size = 0\<rparr> :: dtb_state"
  have ok: "\<forall>x \<in> set (tokens demo_tree). token_ok (\<lambda>_. ''reg'') demo_dtb (0x82200000 + 116) x"
    using demo_parts(5) by (simp add: demo_tree_def)
  have described: "memory_described (\<lambda>_. ''reg'') (preorder demo_tree)"
    by (simp add: memory_described_def demo_tree_def is_memory_def reg_def)
  show ?thesis
    using dtb_init_finds_memory [of demo_dtb "0x82200078" "0x82200074" ?s "0x82200000" 16 116 demo_tree "\<lambda>_. ''reg''"]
      demo_parts ok described by (simp add: demo_range del: cstr.simps)
qed

end
