(* ===== verification/Spec2Isabelle.thy ===== *)
theory Spec2Isabelle
  imports Best_Fit Proc_Life Printfmt Swap Kmalloc_Spec Philosophers Exec Sysfile_Spec Monitor Dtb
begin

text \<open>
  Verification of the ucore teaching kernel: the kernel of \<open>src/lab8\<close>, with the best-fit page allocator of
  \<open>src/lab2\<close> and the round-robin scheduler of \<open>src/lab6\<close>, which are alternatives to components of it, and the device tree
  parser the labs 2 to 6 share. The directories \<open>lab1\<close> to \<open>lab6\<close> hold earlier stages of the same files.

  \<^bold>\<open>The program and its parts.\<close> The kernel runs on one RISC-V hart with Sv39 paging. Pages of physical memory come from a
  page allocator behind \<open>struct pmm_manager\<close>; page tables map them into address spaces (\<open>mm_struct\<close>), lists of areas
  that are copied at a fork. Processes are scheduled by a scheduling class behind \<open>struct sched_class\<close>; they sleep on wait
  queues, semaphores, condition variables and timers, and are created, reaped and killed by the process manager. The file
  system has four layers: descriptors (\<open>file.c\<close>), the virtual file system with its table of operations per inode
  (\<open>vfs\<close>), the simple file system (\<open>sfs\<close>), and devices (\<open>devs\<close>) over a RAM disk (\<open>driver\<close>).

  \<^bold>\<open>Conventions.\<close> A function that may panic, or loop for ever, returns an \<open>option\<close>: \<open>None\<close> is "the kernel does not come
  back from this call". Theorems that a function works state \<open>\<exists>s'. f s = Some \<dots>\<close>, that it returns included. \<open>None\<close> also stands for undefined
  behaviour of C where the model keeps it: a signed overflow in formatting, a word written behind an array. An error
  is the negative number of \<open>libs/error.h\<close>. Pointers are numbers, a null pointer is \<open>None\<close>; lists whose aliasing
  matters to the code are kept as stores of pointers, the others as HOL lists in the order of the links. Integers that are compared or
  multiplied up to their width are words; the others are numbers with the bound as a hypothesis. Loops with no structural measure are
  \<open>partial_function (option)\<close>: no fuel is used anywhere, and returning is part of the statements. A result of \<open>kmalloc\<close> that
  decides a branch is an argument of the operation, so that every combination of failures is a branch of the model. An uninterrupted
  section of the kernel is one step: disabling interrupts (\<open>local_intr_save\<close>) and the locks of single sections have no counterpart. A
  call of \<open>schedule\<close> in the middle of an operation cuts it in two (\<open>down_enter\<close>, \<open>down_leave\<close>) or takes what the other processes
  do meanwhile as an argument (\<open>sleeps\<close>).

  \<^bold>\<open>Theories, in the order of their imports.\<close>

  \<^item> \<open>Prelude\<close>: types, error numbers, assertions, small lemmas, \<open>hash32\<close> of \<open>libs/hash.c\<close>.
  \<^item> \<open>List_H\<close>: \<open>libs/list.h\<close> as pointer assignments; \<open>dlist\<close> says that a store is a circular list, and each operation is
    shown to be the operation on lists its comment promises.
  \<^item> \<open>First_Fit\<close>, \<open>Pmm_Interface\<close>: \<open>kern/mm/default_pmm.c\<close> at the level of the links. The locale \<open>pmm_manager\<close>
    states the contract of \<open>struct pmm_manager\<close>; its interpretation \<open>ff\<close> discharges it. The operations refine \<open>ff_alloc\<close>
    and \<open>ff_free\<close> on the list of free blocks, with the one case in which they do not: releasing the highest block.
    \<open>Best_Fit\<close>: \<open>lab2/kern/mm/best_fit_pmm.c\<close> over the same data.
  \<^item> \<open>Skew_Heap\<close>, \<open>Proc_State\<close>, \<open>Stride\<close>, \<open>Round_Robin\<close>, \<open>Sched\<close>: \<open>libs/skew_heap.h\<close> with its pointers, refined to
    operations on trees; the two scheduling classes, interpretations of one locale; \<open>kern/schedule/sched.c\<close> over any of them,
    with the timer list. Strides are 32-bit words, and the proof that their comparison survives wrap-around rests on the bound
    \<open>BIG_STRIDE\<close> of their spread.
  \<^item> \<open>Sync\<close>: \<open>kern/sync/wait.c\<close>, \<open>sem.c\<close>, \<open>monitor.c\<close>. A step relation over the operations of a semaphore, with its invariant
    by rule induction.
    \<open>Philosophers\<close>: the five processes of \<open>kern/sync/check_sync.c\<close> as a step relation over the contract of semaphores.
  \<^item> \<open>Pids\<close>, \<open>Proc\<close>, \<open>Proc_Life\<close>: \<open>kern/process/proc.c\<close>: process numbers, hash lists, family links; creation, exit, wait, kill, sleep;
    \<open>core_inv\<close> and \<open>family\<close>, the consistency of the table of processes.
  \<^item> \<open>Cstring\<close>, \<open>Bytes\<close>, \<open>Printfmt\<close>: \<open>libs/string.c\<close> on a memory of bytes, the layout of numbers in it, \<open>libs/printfmt.c\<close> and
    the number parser of \<open>libs/string.c\<close>.
  \<^item> \<open>Vmm\<close>: \<open>kern/mm/vmm.c\<close>: areas, their lists, checks of user memory. \<open>Page_Table\<close>: \<open>kern/mm/pmm.c\<close>: the three-level tables in the
    bytes of physical memory. \<open>inv_in\<close> says that the tables below the entries a directory has to itself form a forest in allocated pages
    (the tables of the kernel are shared by all directories), \<open>pt_inv\<close> says so of all entries; \<open>mapping\<close> reads them as a map.
    \<open>Swap\<close>: \<open>kern/mm/swap.c\<close>, \<open>swap_fifo.c\<close>, \<open>kern/fs/swap/swapfs.c\<close> and \<open>do_pgfault\<close>.
  \<^item> \<open>Kmalloc\<close>, \<open>Kmalloc_Spec\<close>: \<open>kern/mm/kmalloc.c\<close>: the list of free blocks in address order, joined on \<open>kfree\<close>, and the
    list of objects of whole pages; the units of memory that are free are its abstract value.
  \<^item> \<open>Bitmap\<close>, \<open>Iobuf\<close>, \<open>Ide\<close>: \<open>kern/fs/sfs/bitmap.c\<close>, \<open>kern/fs/iobuf.c\<close>, and \<open>kern/driver/ramdisk.c\<close>, \<open>ide.c\<close> with
    \<open>kern/fs/devs/dev_disk0.c\<close>: disks are images in the one memory of the machine.
  \<^item> \<open>Sfs_Io\<close>, \<open>Sfs_Bmap\<close>, \<open>Sfs_File\<close>: \<open>kern/fs/sfs/sfs_io.c\<close> and the block map and the requests of \<open>sfs_inode.c\<close>.
    \<open>inode_ok\<close> and \<open>file_ok\<close> say that a file owns distinct allocated blocks; \<open>contents\<close> is its abstract value, a
    sequence of bytes. \<open>Sfs_Request\<close> follows a request through its parts; \<open>Sfs_Spec\<close> states that it refines an update of \<open>contents\<close>.
  \<^item> \<open>Sfs_Node\<close>, \<open>Sfs_Dir\<close>, \<open>Sfs_Mount\<close>: \<open>kern/fs/vfs/inode.c\<close> (counts of inodes), loading, evicting and searching of
    \<open>sfs_inode.c\<close>, and \<open>sfs_fs.c\<close>.
  \<^item> \<open>Stdin\<close>: \<open>kern/fs/devs/dev_stdin.c\<close>, \<open>dev_stdout.c\<close>. \<open>Vfs\<close>: \<open>kern/fs/devs/dev.c\<close> and the dispatch of \<open>vfs/inode.h\<close>.
    \<open>Vfs_Path\<close>: \<open>vfspath.c\<close>, \<open>vfsdev.c\<close>, \<open>vfslookup.c\<close>, \<open>vfsfile.c\<close>, \<open>vfs.c\<close>. \<open>Files\<close>: \<open>kern/fs/file.c\<close>, \<open>fs.c\<close>.
    \<open>Files_Spec\<close>: the invariant \<open>counted\<close>, that the counts of every inode are exact for the tables of all processes, and the
    path of a read from the descriptor down to the bytes of the disk.

  \<^item> \<open>Sysfile\<close>, \<open>Sysfile_Spec\<close>: \<open>kern/fs/sysfile.c\<close> and the calls on files of \<open>kern/syscall/syscall.c\<close>: paths and data between the
    memory of the process and the kernel. \<open>Exec\<close>: the arguments of \<open>do_execve\<close>, from the old address space to the stack of the
    new program. In both, user memory lies at its user addresses in the one memory, and missing pages come by page faults.
  \<^item> \<open>Monitor\<close>: \<open>kern/driver/console.c\<close>, \<open>kern/libs/readline.c\<close>, \<open>kern/debug/kmonitor.c\<close>: from typed characters, a ring and a line
    editor to words and a command. \<open>Dtb\<close>: \<open>kern/driver/dtb.c\<close> of \<open>lab6\<close>, with an encoder of trees as its specification.

  \<^bold>\<open>What the properties show.\<close> Memory: the allocators implement first and best fit, hand out disjoint pages and join what is returned;
  mapping a page changes no other mapping; a copied range is private; a page survives the swap disk;
  \<open>kmalloc\<close> takes free memory and \<open>kfree\<close> gives it back. Processes: the scheduler runs a
  ready process and shares the time in proportion to the priorities; timers fire at their deadlines; semaphores never lose a permit and serve in order;
  no two neighbouring philosophers eat and all of them eat their four meals and quit;
  the table of processes stays consistent from creation to reaping. Files: what is written is read back, through the block map and through
  a descriptor; directories, mounting and eviction lose nothing; counts stay exact over open, close and fork;
  a read system call delivers the bytes of the file to the process. Programs: arguments arrive on the new stack; a typed line becomes a command; the memory a
  device tree describes is found. Libraries: printing and parsing are
  inverse, formatting stays in its buffer. The findings are stated as theorems of the same kind: a block handed out twice, a panic within reach of
  a process, a reference that is never dropped, whole blocks that bypass the block map, a short block of memory, arguments no register points to.

  \<^bold>\<open>Not modelled.\<close> Assembly and the registers of the machine (trap entry, context switches, \<open>riscv.h\<close> but for \<open>lcr3\<close>, \<open>sbi\<close>), since their effects are
  those of the hardware; clock and interrupt drivers, which are device accesses; what the commands of the monitor print; the
  self tests (\<open>check_\<dots>\<close>), except the philosophers with semaphores (the version with condition variables is left out); the reading of
  ELF segments in \<open>load_icode\<close>, the order of \<open>do_execve\<close> and the dispatch of traps, which compose the parts above with
  the layout of ELF files and trap frames; user programs and the tools that build the disk image, which do not run in the kernel. One disk and one file system are
  mounted, as in the kernel.
\<close>

end
